(* ===== verification/Prelude.thy ===== *)
theory Prelude
  imports Main "HOL-Library.Word" "HOL-Library.Signed_Division" "HOL-Library.Multiset" "HOL-Library.AList"
begin

text \<open>
  Shared material of the development: names for the machine integers of the Rust code,
  the collections of simplification rules the component theories fill, and the lemmas on
  words, lists and association lists that more than one component uses.

  \<^item> \<open>u8\<close>, \<open>u16\<close>, \<open>u64\<close> are words; a Rust \<^verbatim>\<open>i64\<close> or \<^verbatim>\<open>i16\<close> is the same word read by
    \<^const>\<open>sint\<close>.
  \<^item> a Rust \<^verbatim>\<open>usize\<close> that counts bits, bytes, tokens or vertices is a natural number.
  \<^item> a Rust \<^verbatim>\<open>HashMap\<close> is an association list with distinct keys; its order stands for
    the unspecified iteration order of the hash table.
  \<^item> \<open>None\<close> in a result of type \<open>'a option\<close> is a panic: a failed assertion, a checked
    overflow or an out-of-range index of the checked (debug) build.
\<close>

unbundle bit_operations_syntax

type_synonym u8 = "8 word"
type_synonym u16 = "16 word"
type_synonym u64 = "64 word"
type_synonym i64 = "64 word"

named_theorems il_simps \<open>definitions of the RREIL value and statement layer\<close>
named_theorems exec_simps \<open>the arms of the RREIL operation evaluator\<close>
named_theorems layer_simps \<open>denotations of layers and iterators\<close>
named_theorems graph_simps \<open>selectors and updates of the graph containers\<close>

subsection \<open>Words\<close>

text \<open>The expression \<^verbatim>\<open>if s < 64 { (1u64 << s) - 1 } else { u64::MAX }\<close>.\<close>

definition bit_mask :: "nat \<Rightarrow> u64" where
  "bit_mask s = (if s < 64 then push_bit s 1 - 1 else - 1)"

lemma exp_minus_one_mask: "(2::u64) ^ s - 1 = mask s"
  by (simp add: mask_eq_exp_minus_1)

lemma take_bit_u64_ge [simp]: "64 \<le> s \<Longrightarrow> take_bit s (a::u64) = a"
  by (rule bit_word_eqI) (simp add: bit_take_bit_iff)

lemma bit_mask_eq_mask: "bit_mask s = mask s"
proof (cases "s < 64")
  case True
  then show ?thesis by (simp add: bit_mask_def exp_minus_one_mask)
next
  case False
  then have "bit_mask s = mask s"
    by (auto simp: bit_mask_def intro!: bit_word_eqI simp: bit_mask_iff)
  then show ?thesis .
qed

lemma and_bit_mask [simp]: "a AND bit_mask s = take_bit s a"
  by (simp add: bit_mask_eq_mask flip: take_bit_eq_mask)

lemma and_exp_minus_one [simp]: "a AND (2 ^ s - 1 :: u64) = take_bit s a"
  by (simp add: exp_minus_one_mask flip: take_bit_eq_mask)

lemma mod_exp_eq_take_bit: "(a::u64) mod 2 ^ s = take_bit s a"
  by (simp add: take_bit_eq_mod)

lemma uint_take_bit: "uint (take_bit s (a::u64)) = uint a mod 2 ^ s"
  by (metis unsigned_take_bit_eq take_bit_eq_mod)

lemma unat_take_bit: "unat (take_bit s (a::u64)) = unat a mod 2 ^ s"
  by (metis unsigned_take_bit_eq take_bit_eq_mod)

lemma uint_canonical: "take_bit s a = a \<Longrightarrow> uint (a::u64) < 2 ^ s"
  by (metis uint_take_bit pos_mod_bound zero_less_numeral zero_less_power)

lemma canonical_iff: "take_bit s (a::u64) = a \<longleftrightarrow> uint a < 2 ^ s"
proof
  assume "uint a < 2 ^ s"
  then have "uint (take_bit s a) = uint a"
    by (simp add: uint_take_bit)
  then show "take_bit s a = a"
    by (simp add: word_uint_eq_iff)
qed (rule uint_canonical)

lemma take_bit_of_bit: "0 < s \<Longrightarrow> take_bit s (of_bool b :: u64) = of_bool b"
  by (cases s; cases b) simp_all

subsection \<open>Lists\<close>

lemma list_all_length_nth: "list_all P xs \<longleftrightarrow> (\<forall>i < length xs. P (xs ! i))"
  by (simp add: list_all_length)

lemma drop_Suc_conv_tl_nth: "i < length xs \<Longrightarrow> drop i xs = xs ! i # drop (Suc i) xs"
  by (simp add: Cons_nth_drop_Suc)

subsection \<open>Vectors\<close>

text \<open>\<^verbatim>\<open>Iterator::position\<close>.\<close>

fun position :: "('a \<Rightarrow> bool) \<Rightarrow> 'a list \<Rightarrow> nat option" where
  "position P [] = None"
| "position P (x # xs) = (if P x then Some 0 else map_option Suc (position P xs))"

lemma position_append: "\<forall>x \<in> set xs. \<not> P x \<Longrightarrow> P y \<Longrightarrow> position P (xs @ y # ys) = Some (length xs)"
  by (induction xs) auto

lemma position_SomeD: "position P xs = Some i \<Longrightarrow> i < length xs \<and> P (xs ! i)"
  by (induction xs arbitrary: i) (auto split: if_splits)

lemma position_None_iff: "position P xs = None \<longleftrightarrow> (\<forall>x \<in> set xs. \<not> P x)"
  by (induction xs) auto

text \<open>\<^verbatim>\<open>Vec::swap_remove\<close> on an index in range: the last element takes the place of the removed one.\<close>

definition swap_remove :: "'a list \<Rightarrow> nat \<Rightarrow> 'a list" where
  "swap_remove xs i = butlast (xs[i := last xs])"

lemma mset_swap_remove: "i < length xs \<Longrightarrow> mset (swap_remove xs i) = mset xs - {#xs ! i#}"
proof (cases xs rule: rev_cases)
  case (snoc ys y)
  assume "i < length xs"
  with snoc show ?thesis
    by (cases "i < length ys")
       (auto simp: swap_remove_def list_update_append nth_append mset_update butlast_append)
qed simp

lemma swap_remove_distinct:
  assumes "distinct xs" "i < length xs"
  shows "distinct (swap_remove xs i) \<and> set (swap_remove xs i) = set xs - {xs ! i}"
proof -
  have m: "mset (swap_remove xs i) = mset (remove1 (xs ! i) xs)"
    using assms by (simp add: mset_swap_remove)
  then have "distinct (swap_remove xs i)" using assms by (metis distinct_remove1 mset_eq_imp_distinct_iff)
  moreover have "set (swap_remove xs i) = set (remove1 (xs ! i) xs)" using m by (rule mset_eq_setD)
  ultimately show ?thesis using assms by simp
qed

subsection \<open>Traversing with a partial function\<close>

lemma those_eq_Some_iff: "those xs = Some ys \<longleftrightarrow> xs = map Some ys"
  by (induction xs arbitrary: ys) (auto split: option.splits)

lemma those_map_total:
  assumes "\<forall>x \<in> set xs. \<exists>y \<in> A. f x = Some y"
  shows "\<exists>ys. those (map f xs) = Some ys \<and> set ys \<subseteq> A"
  using assms by (induction xs) (fastforce simp: those_eq_Some_iff)+

lemma those_map_set:
  "those (map f xs) = Some ys \<Longrightarrow> y \<in> set ys \<longleftrightarrow> (\<exists>x \<in> set xs. f x = Some y)"
  by (induction xs arbitrary: ys) (auto split: option.splits)

end
