(* ===== verification/Layer.thy ===== *)
theory Layer
  imports Prelude
begin

text \<open>
  Layers and their iterators, \<^verbatim>\<open>core/src/layer.rs\<close>.  A cell is an optional byte.  An
  iterator is a description of a finite sequence of cells that is consumed from the front;
  \<open>li_cells\<close> is that sequence.  The lemmas show that every operation of \<^verbatim>\<open>LayerIter\<close>
  is the corresponding list operation, and that \<^verbatim>\<open>cut\<close> does not panic for a start
  within the sequence.

  Positions and lengths (\<^verbatim>\<open>u64\<close> in the code) are natural numbers; every subtraction and
  slice that can panic is a branch of the model.  The \<^verbatim>\<open>HashMap\<close> of a sparse layer is only
  read and written by key and is a partial function.  \<^verbatim>\<open>OpaqueLayer::open\<close> and
  \<^verbatim>\<open>Layer::open\<close> read a file and are not modelled.
\<close>

type_synonym cell = "u8 option"

datatype opaque_layer = OlUndefined nat | OlDefined "u8 list"

datatype layer_iter =
    LiUndefined nat
  | LiDefined "u8 list option"
  | LiSparse "nat \<rightharpoonup> cell" layer_iter nat
  | LiConcat layer_iter layer_iter

datatype layer = LyOpaque opaque_layer | LySparse "nat \<rightharpoonup> cell"

section \<open>Iterators\<close>

fun li_len :: "layer_iter \<Rightarrow> nat" where
  "li_len (LiUndefined r) = r"
| "li_len (LiDefined None) = 0"
| "li_len (LiDefined (Some r)) = length r"
| "li_len (LiSparse m i p) = li_len i"
| "li_len (LiConcat a b) = li_len a + li_len b"

fun li_next :: "layer_iter \<Rightarrow> cell option \<times> layer_iter" where
  "li_next (LiUndefined 0) = (None, LiUndefined 0)"
| "li_next (LiUndefined (Suc r)) = (Some None, LiUndefined r)"
| "li_next (LiDefined None) = (None, LiDefined None)"
| "li_next (LiDefined (Some buf)) =
     ((case buf of [] \<Rightarrow> None | x # _ \<Rightarrow> Some (Some x)),
      LiDefined (if 1 < length buf then Some (drop 1 buf) else None))"
| "li_next (LiSparse m i p) =
     (case li_next i of
        (Some covered, i') \<Rightarrow>
          (Some (case m p of None \<Rightarrow> covered | Some c \<Rightarrow> c), LiSparse m i' (p + 1))
      | (None, i') \<Rightarrow> (None, LiSparse m i' p))"
| "li_next (LiConcat a b) =
     (case li_next a of
        (Some aa, a') \<Rightarrow> (Some aa, LiConcat a' b)
      | (None, a') \<Rightarrow> (case li_next b of (r, b') \<Rightarrow> (r, LiConcat a' b')))"

text \<open>
  \<^verbatim>\<open>io::Read::read\<close> on a buffer of \<open>n\<close> bytes: the bytes written, the returned count and
  the iterator afterwards.  A buffer that is filled completely reports the count 0.
\<close>

fun li_read_loop :: "layer_iter \<Rightarrow> nat \<Rightarrow> nat \<Rightarrow> u8 list \<times> nat \<times> layer_iter" where
  "li_read_loop it idx 0 = ([], 0, it)"
| "li_read_loop it idx (Suc n) =
     (case li_next it of
        (Some (Some b), it') \<Rightarrow>
          (case li_read_loop it' (idx + 1) n of (bs, r, it'') \<Rightarrow> (b # bs, r, it''))
      | (_, it') \<Rightarrow> ([], idx, it'))"

definition li_read :: "layer_iter \<Rightarrow> nat \<Rightarrow> u8 list \<times> nat \<times> layer_iter" where
  "li_read it n = li_read_loop it 0 n"

fun li_cut :: "layer_iter \<Rightarrow> nat \<Rightarrow> nat \<Rightarrow> layer_iter option" where
  "li_cut it s e =
     (if e \<le> s then Some (LiDefined None)
      else
        (let real_end = (if li_len it < e then li_len it else e)
         in (case it of
               LiUndefined _ \<Rightarrow>
                 (if s \<le> real_end then Some (LiUndefined (real_end - s)) else None)
             | LiDefined None \<Rightarrow> Some (LiDefined None)
             | LiDefined (Some buf) \<Rightarrow>
                 (if s \<le> real_end then Some (LiDefined (Some (drop s (take real_end buf)))) else None)
             | LiSparse m i p \<Rightarrow>
                 (case li_cut i s e of None \<Rightarrow> None | Some i' \<Rightarrow> Some (LiSparse m i' (p + s)))
             | LiConcat a b \<Rightarrow>
                 (if s < li_len a \<and> real_end \<le> li_len a then li_cut a s e
                  else if li_len a \<le> s \<and> li_len a < real_end then
                    li_cut b (s - li_len a) (real_end - li_len a)
                  else if real_end < li_len a then None
                  else (case (li_cut a s (li_len a), li_cut b 0 (real_end - li_len a)) of
                          (Some a', Some b') \<Rightarrow> Some (LiConcat a' b')
                        | _ \<Rightarrow> None)))))"

declare li_cut.simps [simp del]

definition li_seek :: "layer_iter \<Rightarrow> nat \<Rightarrow> layer_iter option" where
  "li_seek it p = (if 0 < p then li_cut it p (li_len it) else Some it)"

definition li_append :: "layer_iter \<Rightarrow> layer_iter \<Rightarrow> layer_iter" where
  "li_append it l = LiConcat it l"

section \<open>Layers\<close>

fun opaque_iter :: "opaque_layer \<Rightarrow> layer_iter" where
  "opaque_iter (OlUndefined len) = LiUndefined len"
| "opaque_iter (OlDefined v) = LiDefined (Some v)"

fun opaque_len :: "opaque_layer \<Rightarrow> nat" where
  "opaque_len (OlUndefined len) = len"
| "opaque_len (OlDefined v) = length v"

definition opaque_wrap :: "u8 list \<Rightarrow> opaque_layer" where
  "opaque_wrap data = OlDefined data"

definition opaque_undefined :: "nat \<Rightarrow> opaque_layer" where
  "opaque_undefined len = OlUndefined len"

fun layer_filter :: "layer \<Rightarrow> layer_iter \<Rightarrow> layer_iter" where
  "layer_filter (LyOpaque ol) i = opaque_iter ol"
| "layer_filter (LySparse m) i = LiSparse m i 0"

definition layer_wrap :: "u8 list \<Rightarrow> layer" where
  "layer_wrap data = LyOpaque (opaque_wrap data)"

definition layer_undefined :: "nat \<Rightarrow> layer" where
  "layer_undefined len = LyOpaque (opaque_undefined len)"

definition layer_writable :: layer where
  "layer_writable = LySparse Map.empty"

fun layer_write :: "layer \<Rightarrow> nat \<Rightarrow> cell \<Rightarrow> layer \<times> bool" where
  "layer_write (LySparse m) p c = (LySparse (m(p \<mapsto> c)), True)"
| "layer_write l p c = (l, False)"

fun layer_is_undefined :: "layer \<Rightarrow> bool" where
  "layer_is_undefined (LyOpaque (OlUndefined _)) = True"
| "layer_is_undefined _ = False"

fun layer_is_writeable :: "layer \<Rightarrow> bool" where
  "layer_is_writeable (LySparse _) = True"
| "layer_is_writeable _ = False"

fun layer_as_opaque :: "layer \<Rightarrow> opaque_layer option" where
  "layer_as_opaque (LyOpaque ol) = Some ol"
| "layer_as_opaque _ = None"

section \<open>Denotation\<close>

text \<open>The cells of \<open>cs\<close>, the first of which has position \<open>p\<close>, overwritten by \<open>m\<close>.\<close>

fun overlay :: "(nat \<rightharpoonup> cell) \<Rightarrow> nat \<Rightarrow> cell list \<Rightarrow> cell list" where
  "overlay m p [] = []"
| "overlay m p (c # cs) = (case m p of None \<Rightarrow> c | Some c' \<Rightarrow> c') # overlay m (Suc p) cs"

fun li_cells :: "layer_iter \<Rightarrow> cell list" where
  "li_cells (LiUndefined r) = replicate r None"
| "li_cells (LiDefined None) = []"
| "li_cells (LiDefined (Some buf)) = map Some buf"
| "li_cells (LiSparse m i p) = overlay m p (li_cells i)"
| "li_cells (LiConcat a b) = li_cells a @ li_cells b"

fun layer_cells :: "layer \<Rightarrow> cell list \<Rightarrow> cell list" where
  "layer_cells (LyOpaque ol) cs = li_cells (opaque_iter ol)"
| "layer_cells (LySparse m) cs = overlay m 0 cs"

text \<open>A \<^verbatim>\<open>for\<close> loop over an iterator: the cells \<^verbatim>\<open>next\<close> returns until it returns none.\<close>

function li_drain :: "layer_iter \<Rightarrow> cell list" where
  "li_drain it = (case li_next it of (None, _) \<Rightarrow> [] | (Some c, it') \<Rightarrow> c # li_drain it')"
  by pat_completeness auto

section \<open>The interface of a cell iterator\<close>

text \<open>
  What a client of an iterator may rely on: it denotes a list of cells, \<open>next\<close> takes
  its head, \<open>cut\<close> a segment of it and \<open>append\<close> joins two of them.
\<close>

locale cell_iterator =
  fixes cells :: "'it \<Rightarrow> 'c list"
    and len :: "'it \<Rightarrow> nat"
    and nxt :: "'it \<Rightarrow> 'c option \<times> 'it"
    and cut :: "'it \<Rightarrow> nat \<Rightarrow> nat \<Rightarrow> 'it option"
    and app :: "'it \<Rightarrow> 'it \<Rightarrow> 'it"
  assumes len_cells: "len it = length (cells it)"
    and nxt_Nil: "cells it = [] \<Longrightarrow> fst (nxt it) = None \<and> cells (snd (nxt it)) = []"
    and nxt_Cons: "cells it = c # cs \<Longrightarrow> fst (nxt it) = Some c \<and> cells (snd (nxt it)) = cs"
    and cut_cells: "s \<le> length (cells it) \<Longrightarrow>
          \<exists>it'. cut it s e = Some it' \<and> cells it' = take (e - s) (drop s (cells it))"
    and app_cells: "cells (app a b) = cells a @ cells b"
begin

lemma nxt_None_iff: "fst (nxt it) = None \<longleftrightarrow> cells it = []"
  using nxt_Nil nxt_Cons by (cases "cells it") fastforce+

lemma nxt_len: "nxt it = (Some c, it') \<Longrightarrow> len it' < len it"
  using nxt_Nil [of it] nxt_Cons [of it] by (cases "cells it") (auto simp: len_cells)

lemma cut_len: "s \<le> e \<Longrightarrow> e \<le> len it \<Longrightarrow> \<exists>it'. cut it s e = Some it' \<and> len it' = e - s"
  using cut_cells [of s it e] by (auto simp: len_cells)

lemma cut_app_cut:
  assumes "k \<le> len it"
  shows "\<exists>a b. cut it 0 k = Some a \<and> cut it k (len it) = Some b \<and> cells (app a b) = cells it"
  using cut_cells [of 0 it k] cut_cells [of k it "len it"] assms
  by (auto simp: len_cells app_cells)

end

section \<open>Lemmas\<close>

lemma length_overlay [simp]: "length (overlay m p cs) = length cs"
  by (induction m p cs rule: overlay.induct) simp_all

lemma overlay_nth:
  "i < length cs \<Longrightarrow> overlay m p cs ! i = (case m (p + i) of None \<Rightarrow> cs ! i | Some c \<Rightarrow> c)"
  by (induction m p cs arbitrary: i rule: overlay.induct)
     (auto simp: nth_Cons split: nat.split option.split)

lemma overlay_empty [simp]: "overlay Map.empty p cs = cs"
  by (induction "Map.empty :: nat \<rightharpoonup> cell" p cs rule: overlay.induct) simp_all

lemma take_overlay: "take n (overlay m p cs) = overlay m p (take n cs)"
  by (induction m p cs arbitrary: n rule: overlay.induct) (auto simp: take_Cons split: nat.split)

lemma drop_overlay: "drop n (overlay m p cs) = overlay m (p + n) (drop n cs)"
  by (induction m p cs arbitrary: n rule: overlay.induct) (auto simp: drop_Cons split: nat.split)

lemma li_len_cells: "li_len it = length (li_cells it)"
  by (induction it rule: li_cells.induct) simp_all

lemma opaque_iter_len [simp]: "length (li_cells (opaque_iter ol)) = opaque_len ol"
  by (cases ol) simp_all

lemma li_next_spec:
  "li_next it = (case li_cells it of [] \<Rightarrow> (None, snd (li_next it)) | c # cs \<Rightarrow> (Some c, snd (li_next it))) \<and>
   li_cells (snd (li_next it)) = tl (li_cells it)"
proof (induction it rule: li_next.induct)
  case (4 buf)
  then show ?case by (cases buf) (auto simp: length_Suc_conv)
next
  case (5 m i p)
  then show ?case by (cases "li_cells i") (auto split: prod.splits)
next
  case (6 a b)
  then show ?case
    by (cases "li_cells a"; cases "li_cells b") (auto split: prod.splits)
qed (auto simp: replicate_Suc)

lemma li_cut_Concat:
  assumes "s < e" "s \<le> li_len a + li_len b"
    and "\<And>s e. s \<le> li_len a \<Longrightarrow> \<exists>it'. li_cut a s e = Some it' \<and> li_cells it' = take (e - s) (drop s (li_cells a))"
    and "\<And>s e. s \<le> li_len b \<Longrightarrow> \<exists>it'. li_cut b s e = Some it' \<and> li_cells it' = take (e - s) (drop s (li_cells b))"
  shows "\<exists>it'. li_cut (LiConcat a b) s e = Some it' \<and>
               li_cells it' = take (e - s) (drop s (li_cells a @ li_cells b))"
proof -
  define re where "re = min (li_len a + li_len b) e"
  have cut: "li_cut (LiConcat a b) s e =
      (if s < li_len a \<and> re \<le> li_len a then li_cut a s e
       else if li_len a \<le> s \<and> li_len a < re then li_cut b (s - li_len a) (re - li_len a)
       else if re < li_len a then None
       else (case (li_cut a s (li_len a), li_cut b 0 (re - li_len a)) of
               (Some a', Some b') \<Rightarrow> Some (LiConcat a' b') | _ \<Rightarrow> None))"
    using assms(1) by (subst li_cut.simps) (auto simp: Let_def re_def min_def)
  consider "s < li_len a" "re \<le> li_len a" | "li_len a \<le> s" "li_len a < re"
    | "s \<le> li_len a" "li_len a \<le> re" "\<not> (s < li_len a \<and> re \<le> li_len a)" "\<not> (li_len a \<le> s \<and> li_len a < re)"
    using assms(1,2) unfolding re_def by linarith
  then show ?thesis
  proof cases
    case 1
    then have "e \<le> li_len a \<or> li_len b = 0" by (auto simp: re_def)
    then show ?thesis using 1 assms(3) [of s e] cut by (auto simp: li_len_cells)
  next
    case 2
    then have "take (re - s) (drop (s - li_len a) (li_cells b)) = take (e - s) (drop (s - li_len a) (li_cells b))"
      by (auto simp: re_def min_def li_len_cells)
    then show ?thesis
      using 2 assms(2) assms(4) [of "s - li_len a" "re - li_len a"] cut by (auto simp: li_len_cells)
  next
    case 3
    then have "take (re - li_len a) (li_cells b) = take (e - li_len a) (li_cells b)"
      by (auto simp: re_def min_def li_len_cells)
    moreover have "li_len a \<le> e" using 3 by (simp add: re_def)
    ultimately show ?thesis
      using 3 assms(3) [of s "li_len a"] assms(4) [of 0 "re - li_len a"] cut
      by (auto simp: li_len_cells)
  qed
qed

lemma li_cut_empty: "e \<le> s \<Longrightarrow> li_cut it s e = Some (LiDefined None)"
  by (subst li_cut.simps) simp

lemma li_cut_spec:
  "s \<le> length (li_cells it) \<Longrightarrow>
   \<exists>it'. li_cut it s e = Some it' \<and> li_cells it' = take (e - s) (drop s (li_cells it))"
proof (induction it arbitrary: s e)
  case (LiUndefined r)
  then show ?case by (subst li_cut.simps) (auto simp: min_def)
next
  case (LiDefined b)
  then show ?case
    by (subst li_cut.simps) (auto simp: Let_def drop_take take_map drop_map split: option.splits)
next
  case (LiSparse m i p)
  then obtain i' where "li_cut i s e = Some i'" "li_cells i' = take (e - s) (drop s (li_cells i))"
    by fastforce
  then have "li_cut (LiSparse m i p) s e = Some (if e \<le> s then LiDefined None else LiSparse m i' (p + s))"
    by (subst li_cut.simps) simp
  then show ?case
    using \<open>li_cells i' = _\<close> by (simp add: take_overlay drop_overlay)
next
  case (LiConcat a b)
  then show ?case
    using li_cut_Concat [of s e a b]
    by (cases "e \<le> s") (simp_all add: li_cut_empty li_len_cells del: take_append drop_append)
qed

interpretation layer_it: cell_iterator li_cells li_len li_next li_cut li_append
proof unfold_locales
  fix it :: layer_iter and c cs
  assume "li_cells it = c # cs"
  then show "fst (li_next it) = Some c \<and> li_cells (snd (li_next it)) = cs"
    using li_next_spec [of it] by (metis fst_conv list.sel(3) list.simps(5))
next
  fix it :: layer_iter
  assume "li_cells it = []"
  then show "fst (li_next it) = None \<and> li_cells (snd (li_next it)) = []"
    using li_next_spec [of it] by (metis fst_conv list.sel(2) list.simps(4))
qed (simp_all add: li_len_cells li_cut_spec li_append_def)

termination li_drain
  by (relation "measure li_len") (auto dest: layer_it.nxt_len [OF sym])

declare li_drain.simps [simp del]

lemma li_drain_cells: "li_drain it = li_cells it"
proof (induction it rule: li_drain.induct)
  case (1 it)
  then show ?case
    using li_next_spec [of it] by (subst li_drain.simps) (auto split: prod.splits list.splits option.splits)
qed

lemma layer_filter_cells: "li_cells (layer_filter l i) = layer_cells l (li_cells i)"
  by (cases l) simp_all

lemma length_layer_cells:
  "(case layer_as_opaque l of Some ol \<Rightarrow> opaque_len ol = length cs | None \<Rightarrow> True) \<Longrightarrow>
   length (layer_cells l cs) = length cs"
  by (cases l) simp_all

lemma li_read_loop_spec:
  "li_read_loop it idx n = (bs, r, it') \<Longrightarrow>
   map Some bs = takeWhile (\<lambda>c. c \<noteq> None) (take n (li_cells it)) \<and>
   r = (if length bs = n then 0 else idx + length bs)"
proof (induction it idx n arbitrary: bs r it' rule: li_read_loop.induct)
  case (2 it idx n)
  obtain o1 it1 where nx: "li_next it = (o1, it1)" by fastforce
  show ?case
  proof (cases "li_cells it")
    case Nil
    then show ?thesis using 2 nx layer_it.nxt_Nil [of it] by auto
  next
    case (Cons c cs)
    then have c: "o1 = Some c" "li_cells it1 = cs" using nx layer_it.nxt_Cons [of it c cs] by auto
    show ?thesis
      using "2.prems" Cons c nx "2.IH" [OF nx [unfolded c(1), symmetric]]
      by (cases c) (auto split: prod.splits)
  qed
qed auto

section \<open>Properties\<close>

text \<open>
  C22: Iterating a layer iterator to exhaustion yields its sequence of cells: \<^verbatim>\<open>len\<close> is
  the number of cells that \<^verbatim>\<open>next\<close> returns, \<^verbatim>\<open>append\<close> concatenates, \<^verbatim>\<open>cut\<close> with a start
  inside the sequence does not panic and yields exactly the cells of the range clipped to
  the end, and \<^verbatim>\<open>seek\<close> skips cells.
\<close>

theorem layer_iter_refines_list:
  assumes "s \<le> li_len it"
  shows "length (li_drain it) = li_len it \<and>
         li_drain (li_append it it2) = li_drain it @ li_drain it2 \<and>
         (\<exists>it'. li_cut it s e = Some it' \<and> li_drain it' = take (e - s) (drop s (li_drain it))) \<and>
         (\<exists>it'. li_seek it s = Some it' \<and> li_drain it' = drop s (li_drain it))"
  using assms layer_it.cut_cells [of s it e] layer_it.cut_cells [of s it "li_len it"]
  by (auto simp: li_drain_cells li_len_cells li_seek_def layer_it.app_cells)

theorem layer_iter_refines_list_witness:
  "2 \<le> li_len (LiConcat (LiDefined (Some [1, 2, 3])) (LiUndefined 2)) \<and>
   (\<exists>it'. li_cut (LiConcat (LiDefined (Some [1, 2, 3])) (LiUndefined 2)) 2 4 = Some it' \<and>
          li_drain it' = [Some 3, None])"
  using layer_iter_refines_list [of 2 "LiConcat (LiDefined (Some [1, 2, 3])) (LiUndefined 2)" "LiUndefined 0" 4]
  by (simp add: li_drain_cells numeral_eq_Suc)

text \<open>
  A sparse layer changes exactly the cells written to it.  A write succeeds exactly on a
  writable layer; afterwards the layer shows the written cell at its position and what it
  showed before everywhere else; on any other layer a write changes nothing; a fresh writable layer
  is transparent.
\<close>

theorem layer_write_filter:
  shows "snd (layer_write l p c) = layer_is_writeable l \<and>
         (layer_is_writeable l \<longrightarrow>
            li_drain (layer_filter (fst (layer_write l p c)) it) = (li_drain (layer_filter l it)) [p := c]) \<and>
         (\<not> layer_is_writeable l \<longrightarrow> fst (layer_write l p c) = l) \<and>
         li_drain (layer_filter layer_writable it) = li_drain it"
proof -
  have "overlay (m(p \<mapsto> c)) 0 cs = (overlay m 0 cs)[p := c]" for m cs
    by (rule nth_equalityI) (auto simp: overlay_nth nth_list_update split: option.split)
  then show ?thesis
    by (cases l) (simp_all add: li_drain_cells layer_writable_def)
qed

theorem layer_write_filter_witness:
  "layer_is_writeable layer_writable \<and>
   li_drain (layer_filter (fst (layer_write layer_writable 1 (Some 7))) (LiUndefined 3))
     = [None, Some 7, None]"
  using layer_write_filter [of layer_writable 1 "Some 7" "LiUndefined 3"]
  by (simp add: li_drain_cells layer_writable_def numeral_eq_Suc)

text \<open>
  \<^verbatim>\<open>io::Read::read\<close> stores the longest run of defined cells that fits the buffer, but the count it
  returns is the number of stored bytes only when the buffer was not filled; a completely
  filled buffer is reported as 0 bytes, which callers take for the end of the stream.
\<close>

theorem li_read_result:
  shows "map Some (fst (li_read it n)) = takeWhile (\<lambda>c. c \<noteq> None) (take n (li_drain it)) \<and>
         fst (snd (li_read it n)) =
           (if length (fst (li_read it n)) = n then 0 else length (fst (li_read it n)))"
  using li_read_loop_spec [of it 0 n] by (cases "li_read it n") (auto simp: li_read_def li_drain_cells)

end
