(* ===== verification/Il.thy ===== *)
theory Il
  imports Prelude
begin

text \<open>
  The RREIL intermediate language of \<^verbatim>\<open>core/src/il.rs\<close>: readable and writable values,
  guards, operations and statements, the accessors \<^verbatim>\<open>size\<close>, \<^verbatim>\<open>extract\<close>, \<^verbatim>\<open>operands\<close> and
  \<^verbatim>\<open>lift\<close>, and the typing rules of \<^verbatim>\<open>Statement::sanity_check\<close>.  The evaluator
  \<^verbatim>\<open>execute\<close> is in the theory \<open>Il_Exec\<close>.

  The lemmas show that extraction composes and never leaves the value it reads from, that
  guard negation is an involution, that \<^verbatim>\<open>lift\<close> is a functor that acts on exactly the
  operands, and what a successful sanity check says of the sizes of a statement.
\<close>

section \<open>Values\<close>

datatype rvalue =
    RvUndefined
  | RvVariable (rv_name: string) (rv_subscript: "nat option") (rv_offset: nat) (rv_size: nat)
  | RvConstant (rv_value: u64) (rv_csize: nat)

datatype lvalue =
    LvUndefined
  | LvVariable (lv_name: string) (lv_subscript: "nat option") (lv_size: nat)

text \<open>The messages of the errors that \<^verbatim>\<open>il.rs\<close> returns, one constructor per message.\<close>

datatype il_error =
    ExtractZeroBits
  | ExtractInvalidArgument
  | NotAFlag
  | ArgumentSizesMismatch
  | ResultAssigneeMismatch
  | CompareAssigneeNotFlag
  | IllSizedSelect
  | CallAssignee
  | MemoryInvalidSize
  | MemorySizeZero
  | MemoryNotByteAligned
  | StoreInconsistentSize
  | PhiSizes
  | OperandSizeZero

definition new_bit :: "nat \<Rightarrow> rvalue" where
  "new_bit v = RvConstant (of_nat v) 1"

definition new_u8 :: "u8 \<Rightarrow> rvalue" where
  "new_u8 v = RvConstant (ucast v) 8"

definition new_u16 :: "u16 \<Rightarrow> rvalue" where
  "new_u16 v = RvConstant (ucast v) 16"

definition new_u32 :: "32 word \<Rightarrow> rvalue" where
  "new_u32 v = RvConstant (ucast v) 32"

definition new_u64 :: "u64 \<Rightarrow> rvalue" where
  "new_u64 v = RvConstant v 64"

fun rvalue_size :: "rvalue \<Rightarrow> nat option" where
  "rvalue_size (RvConstant v s) = Some s"
| "rvalue_size (RvVariable n ss off s) = Some s"
| "rvalue_size RvUndefined = None"

fun lvalue_size :: "lvalue \<Rightarrow> nat option" where
  "lvalue_size (LvVariable n ss s) = Some s"
| "lvalue_size LvUndefined = None"

text \<open>
  \<^verbatim>\<open>Rvalue::extract\<close>.  For a constant the code computes \<^verbatim>\<open>(value >> o) % (1 << s)\<close> on
  64 bit integers, so a shift by 64 or more panics.
\<close>

fun rvalue_extract :: "rvalue \<Rightarrow> nat \<Rightarrow> nat \<Rightarrow> (il_error + rvalue) option" where
  "rvalue_extract (RvConstant v sz) s off =
     (if s = 0 then Some (Inl ExtractZeroBits)
      else if s + off \<le> sz then
        (if off < 64 \<and> s < 64
         then Some (Inr (RvConstant (drop_bit off v mod push_bit s 1) s))
         else None)
      else Some (Inl ExtractInvalidArgument))"
| "rvalue_extract (RvVariable n ss o0 sz) s off =
     (if s = 0 then Some (Inl ExtractZeroBits)
      else if s + off \<le> sz then Some (Inr (RvVariable n ss (o0 + off) s))
      else Some (Inl ExtractInvalidArgument))"
| "rvalue_extract RvUndefined s off =
     (if s = 0 then Some (Inl ExtractZeroBits) else Some (Inr RvUndefined))"

fun rvalue_of_lvalue :: "lvalue \<Rightarrow> rvalue" where
  "rvalue_of_lvalue LvUndefined = RvUndefined"
| "rvalue_of_lvalue (LvVariable n ss s) = RvVariable n ss 0 s"

fun lvalue_from_rvalue :: "rvalue \<Rightarrow> lvalue option" where
  "lvalue_from_rvalue RvUndefined = Some LvUndefined"
| "lvalue_from_rvalue (RvVariable n ss off s) = (if off = 0 then Some (LvVariable n ss s) else None)"
| "lvalue_from_rvalue (RvConstant v s) = None"

fun lvalue_extract :: "lvalue \<Rightarrow> nat \<Rightarrow> nat \<Rightarrow> il_error + rvalue" where
  "lvalue_extract (LvVariable n ss sz) s off =
     (if s = 0 then Inl ExtractZeroBits
      else if s + off \<le> sz then Inr (RvVariable n ss off s)
      else Inl ExtractInvalidArgument)"
| "lvalue_extract LvUndefined s off =
     (if s = 0 then Inl ExtractZeroBits else Inr RvUndefined)"

section \<open>Guards\<close>

datatype guard = GTrue | GFalse | GPredicate (g_flag: rvalue) (g_expected: bool)

fun from_flag :: "rvalue \<Rightarrow> il_error + guard" where
  "from_flag RvUndefined = Inr (GPredicate RvUndefined True)"
| "from_flag (RvConstant v s) =
     (if s = 1 \<and> v = 0 then Inr GFalse
      else if s = 1 \<and> v = 1 then Inr GTrue
      else Inl NotAFlag)"
| "from_flag (RvVariable n ss off s) =
     (if s = 1 then Inr (GPredicate (RvVariable n ss off s) True) else Inl NotAFlag)"

definition never :: guard where "never = GFalse"

definition always :: guard where "always = GTrue"

fun negation :: "guard \<Rightarrow> guard" where
  "negation GTrue = GFalse"
| "negation GFalse = GTrue"
| "negation (GPredicate f e) = GPredicate f (\<not> e)"

section \<open>Operations and statements\<close>

datatype endianess = Little | Big

datatype 'v operation =
    Add 'v 'v
  | Subtract 'v 'v
  | Multiply 'v 'v
  | DivideUnsigned 'v 'v
  | DivideSigned 'v 'v
  | ShiftLeft 'v 'v
  | ShiftRightUnsigned 'v 'v
  | ShiftRightSigned 'v 'v
  | Modulo 'v 'v
  | And 'v 'v
  | InclusiveOr 'v 'v
  | ExclusiveOr 'v 'v
  | Equal 'v 'v
  | LessOrEqualUnsigned 'v 'v
  | LessOrEqualSigned 'v 'v
  | LessUnsigned 'v 'v
  | LessSigned 'v 'v
  | ZeroExtend nat 'v
  | SignExtend nat 'v
  | Move 'v
  | Call 'v
  | Initialize string nat
  | Select nat 'v 'v
  | Load string endianess nat 'v
  | Store string endianess nat 'v 'v
  | Phi "'v list"

record statement =
  assignee :: lvalue
  st_op :: "rvalue operation"

fun operands :: "'v operation \<Rightarrow> 'v list" where
  "operands (Add a b) = [a, b]"
| "operands (Subtract a b) = [a, b]"
| "operands (Multiply a b) = [a, b]"
| "operands (DivideUnsigned a b) = [a, b]"
| "operands (DivideSigned a b) = [a, b]"
| "operands (ShiftLeft a b) = [a, b]"
| "operands (ShiftRightUnsigned a b) = [a, b]"
| "operands (ShiftRightSigned a b) = [a, b]"
| "operands (Modulo a b) = [a, b]"
| "operands (And a b) = [a, b]"
| "operands (InclusiveOr a b) = [a, b]"
| "operands (ExclusiveOr a b) = [a, b]"
| "operands (Equal a b) = [a, b]"
| "operands (LessOrEqualUnsigned a b) = [a, b]"
| "operands (LessOrEqualSigned a b) = [a, b]"
| "operands (LessUnsigned a b) = [a, b]"
| "operands (LessSigned a b) = [a, b]"
| "operands (ZeroExtend s a) = [a]"
| "operands (SignExtend s a) = [a]"
| "operands (Move a) = [a]"
| "operands (Call a) = [a]"
| "operands (Initialize n s) = []"
| "operands (Select off a b) = [a, b]"
| "operands (Load r e s b) = [b]"
| "operands (Store r e s a b) = [a, b]"
| "operands (Phi vec) = vec"

text \<open>
  \<^verbatim>\<open>lift\<close> first collects the images of the operands and then rebuilds the operation from
  that vector; indexing past its end would panic.
\<close>

fun arg :: "'v list \<Rightarrow> nat \<Rightarrow> 'v option" where
  "arg vs i = (if i < length vs then Some (vs ! i) else None)"

definition app1 :: "('v \<Rightarrow> 'v operation) \<Rightarrow> 'v list \<Rightarrow> 'v operation option" where
  "app1 c args = map_option c (arg args 0)"

definition app2 :: "('v \<Rightarrow> 'v \<Rightarrow> 'v operation) \<Rightarrow> 'v list \<Rightarrow> 'v operation option" where
  "app2 c args = Option.bind (arg args 0) (\<lambda>a. map_option (c a) (arg args 1))"

fun lift_with :: "'b operation \<Rightarrow> 'a list \<Rightarrow> 'a operation option" where
  "lift_with (Phi _) args = Some (Phi args)"
| "lift_with (Load s e sz _) args = app1 (Load s e sz) args"
| "lift_with (Store s e sz _ _) args = app2 (Store s e sz) args"
| "lift_with (Add _ _) args = app2 Add args"
| "lift_with (Subtract _ _) args = app2 Subtract args"
| "lift_with (Multiply _ _) args = app2 Multiply args"
| "lift_with (DivideUnsigned _ _) args = app2 DivideUnsigned args"
| "lift_with (DivideSigned _ _) args = app2 DivideSigned args"
| "lift_with (ShiftLeft _ _) args = app2 ShiftLeft args"
| "lift_with (ShiftRightUnsigned _ _) args = app2 ShiftRightUnsigned args"
| "lift_with (ShiftRightSigned _ _) args = app2 ShiftRightSigned args"
| "lift_with (Modulo _ _) args = app2 Modulo args"
| "lift_with (And _ _) args = app2 And args"
| "lift_with (InclusiveOr _ _) args = app2 InclusiveOr args"
| "lift_with (ExclusiveOr _ _) args = app2 ExclusiveOr args"
| "lift_with (Equal _ _) args = app2 Equal args"
| "lift_with (LessUnsigned _ _) args = app2 LessUnsigned args"
| "lift_with (LessSigned _ _) args = app2 LessSigned args"
| "lift_with (LessOrEqualUnsigned _ _) args = app2 LessOrEqualUnsigned args"
| "lift_with (LessOrEqualSigned _ _) args = app2 LessOrEqualSigned args"
| "lift_with (Initialize a b) args = Some (Initialize a b)"
| "lift_with (Move _) args = app1 Move args"
| "lift_with (Call _) args = app1 Call args"
| "lift_with (Select off _ _) args = app2 (Select off) args"
| "lift_with (ZeroExtend sz _) args = app1 (ZeroExtend sz) args"
| "lift_with (SignExtend sz _) args = app1 (SignExtend sz) args"

definition lift :: "'b operation \<Rightarrow> ('b \<Rightarrow> 'a) \<Rightarrow> 'a operation option" where
  "lift op m = lift_with op (map m (operands op))"

section \<open>Typing: the sanity check\<close>

definition unwrap_or_0 :: "nat option \<Rightarrow> nat" where
  "unwrap_or_0 x = (case x of None \<Rightarrow> 0 | Some n \<Rightarrow> n)"

definition typecheck_binop :: "rvalue \<Rightarrow> rvalue \<Rightarrow> lvalue \<Rightarrow> il_error + unit" where
  "typecheck_binop a b asg =
     (if \<not> (rvalue_size a = None \<or> rvalue_size b = None \<or> rvalue_size a = rvalue_size b)
      then Inl ArgumentSizesMismatch
      else if \<not> (lvalue_size asg = None \<or>
                 Some (max (unwrap_or_0 (rvalue_size a)) (unwrap_or_0 (rvalue_size b))) = lvalue_size asg)
      then Inl ResultAssigneeMismatch
      else Inr ())"

definition typecheck_cmpop :: "rvalue \<Rightarrow> rvalue \<Rightarrow> lvalue \<Rightarrow> il_error + unit" where
  "typecheck_cmpop a b asg =
     (if \<not> (rvalue_size a = None \<or> rvalue_size b = None \<or> rvalue_size a = rvalue_size b)
      then Inl ArgumentSizesMismatch
      else if \<not> (lvalue_size asg = None \<or> lvalue_size asg = Some 1)
      then Inl CompareAssigneeNotFlag
      else Inr ())"

text \<open>Rust orders \<^verbatim>\<open>None\<close> below every \<^verbatim>\<open>Some\<close>.\<close>

fun option_le :: "nat option \<Rightarrow> nat option \<Rightarrow> bool" where
  "option_le None y = True"
| "option_le (Some x) None = False"
| "option_le (Some x) (Some y) = (x \<le> y)"

definition typecheck_unop :: "rvalue \<Rightarrow> nat option \<Rightarrow> lvalue \<Rightarrow> il_error + unit" where
  "typecheck_unop a sz asg =
     (if sz = None then
        (if \<not> (rvalue_size a = None \<or> lvalue_size asg = None \<or>
               option_le (lvalue_size asg) (rvalue_size a))
         then Inl ResultAssigneeMismatch else Inr ())
      else
        (if \<not> (rvalue_size a = None \<or> lvalue_size asg = None \<or> lvalue_size asg = sz)
         then Inl ResultAssigneeMismatch else Inr ()))"

fun check_operation :: "rvalue operation \<Rightarrow> lvalue \<Rightarrow> il_error + unit" where
  "check_operation (Add a b) asg = typecheck_binop a b asg"
| "check_operation (Subtract a b) asg = typecheck_binop a b asg"
| "check_operation (Multiply a b) asg = typecheck_binop a b asg"
| "check_operation (DivideUnsigned a b) asg = typecheck_binop a b asg"
| "check_operation (DivideSigned a b) asg = typecheck_binop a b asg"
| "check_operation (ShiftLeft a b) asg = typecheck_binop a b asg"
| "check_operation (ShiftRightUnsigned a b) asg = typecheck_binop a b asg"
| "check_operation (ShiftRightSigned a b) asg = typecheck_binop a b asg"
| "check_operation (Modulo a b) asg = typecheck_binop a b asg"
| "check_operation (And a b) asg = typecheck_binop a b asg"
| "check_operation (ExclusiveOr a b) asg = typecheck_binop a b asg"
| "check_operation (InclusiveOr a b) asg = typecheck_binop a b asg"
| "check_operation (Equal a b) asg = typecheck_cmpop a b asg"
| "check_operation (LessOrEqualUnsigned a b) asg = typecheck_cmpop a b asg"
| "check_operation (LessOrEqualSigned a b) asg = typecheck_cmpop a b asg"
| "check_operation (LessUnsigned a b) asg = typecheck_cmpop a b asg"
| "check_operation (LessSigned a b) asg = typecheck_cmpop a b asg"
| "check_operation (SignExtend a b) asg = typecheck_unop b (Some a) asg"
| "check_operation (ZeroExtend a b) asg = typecheck_unop b (Some a) asg"
| "check_operation (Move a) asg = typecheck_unop a None asg"
| "check_operation (Select off a b) asg =
     (if \<not> (lvalue_size asg = rvalue_size a \<and>
            off + unwrap_or_0 (rvalue_size b) \<le> unwrap_or_0 (rvalue_size a))
      then Inl IllSizedSelect else Inr ())"
| "check_operation (Initialize n sz) asg =
     (if \<not> (lvalue_size asg = None \<or> lvalue_size asg = Some sz)
      then Inl ResultAssigneeMismatch else Inr ())"
| "check_operation (Call a) asg =
     (if asg \<noteq> LvUndefined then Inl CallAssignee else Inr ())"
| "check_operation (Load r e sz a) asg =
     (if lvalue_size asg \<noteq> None \<and> lvalue_size asg \<noteq> Some sz then Inl MemoryInvalidSize
      else if sz = 0 then Inl MemorySizeZero
      else if sz mod 8 \<noteq> 0 then Inl MemoryNotByteAligned
      else Inr ())"
| "check_operation (Store r e sz a v) asg =
     (if rvalue_size v \<noteq> None \<and> lvalue_size asg \<noteq> None \<and> rvalue_size v \<noteq> lvalue_size asg
      then Inl StoreInconsistentSize
      else if sz = 0 then Inl MemorySizeZero
      else if rvalue_size v \<noteq> None \<and> rvalue_size v \<noteq> Some sz then Inl StoreInconsistentSize
      else if sz mod 8 \<noteq> 0 then Inl MemoryNotByteAligned
      else Inr ())"
| "check_operation (Phi vec) asg =
     (if \<not> (list_all (\<lambda>rv. rvalue_size rv = lvalue_size asg) vec \<and> lvalue_size asg \<noteq> None)
      then Inl PhiSizes else Inr ())"

definition sanity_check :: "statement \<Rightarrow> il_error + unit" where
  "sanity_check st =
     (case check_operation (st_op st) (assignee st) of
        Inl e \<Rightarrow> Inl e
      | Inr _ \<Rightarrow>
          (if \<not> (list_all (\<lambda>rv. rvalue_size rv \<noteq> Some 0) (operands (st_op st)) \<and>
                 lvalue_size (assignee st) \<noteq> Some 0)
           then Inl OperandSizeZero else Inr ()))"

section \<open>Lemmas\<close>

lemmas value_size_simps [simp, il_simps] = rvalue_size.simps lvalue_size.simps

lemma rvalue_size_of_lvalue [simp]: "rvalue_size (rvalue_of_lvalue lv) = lvalue_size lv"
  by (cases lv) simp_all

lemma lvalue_from_rvalue_of_lvalue [simp]:
  "lvalue_from_rvalue (rvalue_of_lvalue lv) = Some lv"
  by (cases lv) simp_all

lemma rvalue_of_lvalue_from_rvalue:
  "lvalue_from_rvalue rv = Some lv \<Longrightarrow> rvalue_of_lvalue lv = rv"
  by (cases rv) (auto split: if_splits)

lemma lvalue_extract_eq_rvalue_extract:
  "rvalue_extract (rvalue_of_lvalue lv) s off = Some (lvalue_extract lv s off)"
  by (cases lv) simp_all

lemma rvalue_extract_size:
  assumes "rvalue_extract rv s off = Some (Inr rv')"
  shows "rv' = RvUndefined \<and> rv = RvUndefined \<or>
         rvalue_size rv' = Some s \<and> (\<exists>n. rvalue_size rv = Some n \<and> s + off \<le> n)"
  using assms by (cases rv) (auto split: if_splits)

lemma drop_bit_take_bit_within:
  "s' + off' \<le> s \<Longrightarrow> take_bit s' (drop_bit off' (take_bit s (v::u64))) = take_bit s' (drop_bit off' v)"
  by (rule bit_word_eqI) (auto simp: bit_take_bit_iff bit_drop_bit_eq)

lemma rvalue_extract_compose_lemma:
  assumes "rvalue_extract rv s off = Some (Inr rv1)"
    and "rvalue_extract rv1 s' off' = Some (Inr rv2)"
    and "off + off' < 64"
  shows "rvalue_extract rv s' (off + off') = Some (Inr rv2)"
  using assms
  by (cases rv) (auto simp: mod_exp_eq_take_bit drop_bit_take_bit_within add.commute
      split: if_splits)

lemma negation_negation [simp]: "negation (negation g) = g"
  by (cases g) simp_all

lemma lift_eq_map: "lift op m = Some (map_operation m op)"
  by (cases op) (simp_all add: lift_def app1_def app2_def)

lemma operands_map [simp]: "operands (map_operation m op) = map m (operands op)"
  by (cases op) simp_all

lemma set_operands: "set (operands op) = set_operation op"
  by (cases op) simp_all

text \<open>Which operations are typed like additions, and which like comparisons.\<close>

fun is_binop :: "'v operation \<Rightarrow> ('v \<times> 'v) option" where
  "is_binop (Add a b) = Some (a, b)"
| "is_binop (Subtract a b) = Some (a, b)"
| "is_binop (Multiply a b) = Some (a, b)"
| "is_binop (DivideUnsigned a b) = Some (a, b)"
| "is_binop (DivideSigned a b) = Some (a, b)"
| "is_binop (ShiftLeft a b) = Some (a, b)"
| "is_binop (ShiftRightUnsigned a b) = Some (a, b)"
| "is_binop (ShiftRightSigned a b) = Some (a, b)"
| "is_binop (Modulo a b) = Some (a, b)"
| "is_binop (And a b) = Some (a, b)"
| "is_binop (InclusiveOr a b) = Some (a, b)"
| "is_binop (ExclusiveOr a b) = Some (a, b)"
| "is_binop _ = None"

fun is_cmpop :: "'v operation \<Rightarrow> ('v \<times> 'v) option" where
  "is_cmpop (Equal a b) = Some (a, b)"
| "is_cmpop (LessOrEqualUnsigned a b) = Some (a, b)"
| "is_cmpop (LessOrEqualSigned a b) = Some (a, b)"
| "is_cmpop (LessUnsigned a b) = Some (a, b)"
| "is_cmpop (LessSigned a b) = Some (a, b)"
| "is_cmpop _ = None"

lemma sanity_check_ok_iff:
  "sanity_check st = Inr () \<longleftrightarrow>
     check_operation (st_op st) (assignee st) = Inr () \<and>
     (\<forall>rv \<in> set (operands (st_op st)). rvalue_size rv \<noteq> Some 0) \<and>
     lvalue_size (assignee st) \<noteq> Some 0"
proof (cases "check_operation (st_op st) (assignee st)")
  case (Inr u)
  then show ?thesis by (simp add: sanity_check_def list_all_iff)
qed (simp add: sanity_check_def)

lemma typecheck_binop_ok:
  "typecheck_binop (RvConstant x s) (RvConstant y s') asg = Inr () \<Longrightarrow>
     s = s' \<and> (lvalue_size asg = None \<or> lvalue_size asg = Some s)"
  by (auto simp: typecheck_binop_def unwrap_or_0_def split: if_splits)

lemma typecheck_cmpop_ok:
  "typecheck_cmpop (RvConstant x s) (RvConstant y s') asg = Inr () \<Longrightarrow>
     s = s' \<and> (lvalue_size asg = None \<or> lvalue_size asg = Some 1)"
  by (auto simp: typecheck_cmpop_def split: if_splits)

lemma check_operation_binop:
  "is_binop op = Some (a, b) \<Longrightarrow> check_operation op asg = typecheck_binop a b asg"
  by (cases op) simp_all

lemma check_operation_cmpop:
  "is_cmpop op = Some (a, b) \<Longrightarrow> check_operation op asg = typecheck_cmpop a b asg"
  by (cases op) simp_all

lemma operands_binop: "is_binop op = Some (a, b) \<Longrightarrow> operands op = [a, b]"
  by (cases op) simp_all

lemma operands_cmpop: "is_cmpop op = Some (a, b) \<Longrightarrow> operands op = [a, b]"
  by (cases op) simp_all

lemma sanity_check_binop:
  assumes "sanity_check st = Inr ()" and "is_binop (st_op st) = Some (RvConstant x s, RvConstant y s')"
  shows "s = s' \<and> 0 < s \<and> (lvalue_size (assignee st) = None \<or> lvalue_size (assignee st) = Some s)"
  using assms typecheck_binop_ok [of x s y s' "assignee st"]
  by (auto simp: sanity_check_ok_iff check_operation_binop operands_binop)

lemma sanity_check_cmpop:
  assumes "sanity_check st = Inr ()" and "is_cmpop (st_op st) = Some (RvConstant x s, RvConstant y s')"
  shows "s = s' \<and> 0 < s \<and> (lvalue_size (assignee st) = None \<or> lvalue_size (assignee st) = Some 1)"
  using assms typecheck_cmpop_ok [of x s y s' "assignee st"]
  by (auto simp: sanity_check_ok_iff check_operation_cmpop operands_cmpop)
section \<open>Properties\<close>

text \<open>
  Extracting all 64 bits of a 64 bit constant is a panic: the code computes
  \<^verbatim>\<open>1 << 64\<close> on a 64 bit integer.
\<close>

lemma rvalue_extract_full_width: "rvalue_extract (RvConstant v 64) 64 0 = None"
  by simp

text \<open>
  Extraction composes: taking a slice of a slice is the slice at the sum of the
  offsets of the original value, for variables, constants and the undefined value alike.
\<close>

theorem rvalue_extract_compose:
  assumes "rvalue_extract rv s off = Some (Inr rv1)"
    and "rvalue_extract rv1 s' off' = Some (Inr rv2)"
    and "off + off' < 64"
  shows "rvalue_extract rv s' (off + off') = Some (Inr rv2)"
  using assms by (rule rvalue_extract_compose_lemma)

theorem rvalue_extract_compose_witness:
  "rvalue_extract (RvConstant 0xabcd 16) 4 8 = Some (Inr (RvConstant 0xb 4))"
proof -
  have 1: "rvalue_extract (RvConstant 0xabcd 16) 12 4 = Some (Inr (RvConstant 0xabc 12))"
    by simp
  have 2: "rvalue_extract (RvConstant 0xabc 12) 4 4 = Some (Inr (RvConstant 0xb 4))"
    by simp
  show ?thesis using rvalue_extract_compose [OF 1 2] by simp
qed

text \<open>
  \<^verbatim>\<open>lift\<close> never indexes past the operands it collected, changes exactly the
  operands, and lifting two functions one after the other is lifting their composition.
\<close>

theorem lift_functor:
  "\<exists>op'. lift op m = Some op' \<and> operands op' = map m (operands op) \<and> lift op' k = lift op (k \<circ> m)"
  by (simp add: lift_eq_map operation.map_comp)

end
