(* ===== verification/Mnemonic.thy ===== *)
theory Mnemonic
  imports Il
begin

text \<open>
  Address ranges, mnemonics and their format strings (\<^verbatim>\<open>core/src/mnemonic.rs\<close>) and basic blocks
  (\<^verbatim>\<open>core/src/basic_block.rs\<close>).  Addresses are natural numbers; a subtraction that would
  underflow \<^verbatim>\<open>u64\<close> is the value \<open>None\<close>.  Format strings are lists of characters, consumed
  from the front like the code's \<^verbatim>\<open>Chars\<close> iterator.  A closure passed to \<^verbatim>\<open>execute\<close>,
  \<^verbatim>\<open>execute_backwards\<close> or \<^verbatim>\<open>rewrite\<close> is a function that threads the state it captures.

  The lemmas show the round trip of format strings, that the statement iterator and the
  traversals of a basic block agree on the order of its statements and that the area of a
  block is the hull of its mnemonics.
\<close>

section \<open>Bounds\<close>

record bound =
  b_start :: nat
  b_end :: nat

definition new_bound :: "nat \<Rightarrow> nat \<Rightarrow> bound" where
  "new_bound a b = \<lparr>b_start = a, b_end = b\<rparr>"

definition bound_len :: "bound \<Rightarrow> nat option" where
  "bound_len b = (if b_start b \<le> b_end b then Some (b_end b - b_start b) else None)"

section \<open>Format strings\<close>

datatype format_token = Literal char | Variable bool | Pointer bool string

datatype format_error = ExpectingBrace | InvalidBank | UnknownIdentifier

text \<open>
  The iterator \<open>j\<close> still stands before the colon when \<^verbatim>\<open>j.nth(p + 1)\<close> moves it behind the
  closing brace.
\<close>

fun parse_bank :: "string \<Rightarrow> format_error + string \<times> string" where
  "parse_bank [] = Inl InvalidBank"
| "parse_bank (c # i) =
     (if c = CHR '':'' then
        (case position (\<lambda>x. x = CHR ''}'') i of
           Some p \<Rightarrow> Inr (take p i, drop (Suc (p + 1)) (c # i))
         | None \<Rightarrow> Inl ExpectingBrace)
      else Inl InvalidBank)"

lemma parse_bank_length [termination_simp]:
  "parse_bank j = Inr (bank, k) \<Longrightarrow> length k \<le> length j"
  by (cases j) (auto split: if_splits option.splits)

function parse_format :: "string \<Rightarrow> format_error + format_token list" where
  "parse_format [] = Inr []"
| "parse_format (a # j) =
     (if a = CHR ''{'' then
        (case j of
           [] \<Rightarrow> Inl UnknownIdentifier
         | c # j' \<Rightarrow>
             if c = CHR ''{'' then map_sum id ((#) (Literal (CHR ''{''))) (parse_format j')
             else if c = CHR ''u'' then map_sum id ((#) (Variable False)) (parse_format (drop 1 j'))
             else if c = CHR ''s'' then map_sum id ((#) (Variable True)) (parse_format (drop 1 j'))
             else if c = CHR ''p'' then
               (case parse_bank j' of
                  Inl e \<Rightarrow> Inl e
                | Inr (bank, k) \<Rightarrow> map_sum id ((#) (Pointer False bank)) (parse_format k))
             else if c = CHR ''c'' then
               (case parse_bank j' of
                  Inl e \<Rightarrow> Inl e
                | Inr (bank, k) \<Rightarrow> map_sum id ((#) (Pointer True bank)) (parse_format k))
             else Inl UnknownIdentifier)
      else map_sum id ((#) (Literal a)) (parse_format j))"
  by pat_completeness auto
termination
  by (relation "measure length") (auto dest!: parse_bank_length)

declare parse_format.simps(2) [simp del]

section \<open>Mnemonics\<close>

record mnemonic =
  m_area :: bound
  m_opcode :: string
  m_operands :: "rvalue list"
  m_instructions :: "statement list"
  m_format :: "format_token list"

definition new_mnemonic ::
  "nat \<times> nat \<Rightarrow> string \<Rightarrow> string \<Rightarrow> rvalue list \<Rightarrow> statement list \<Rightarrow> format_error + mnemonic" where
  "new_mnemonic a code fmt ops instr =
     map_sum id (\<lambda>f. \<lparr>m_area = new_bound (fst a) (snd a), m_opcode = code, m_operands = ops,
                      m_instructions = instr, m_format = f\<rparr>) (parse_format fmt)"

definition mnemonic_size :: "mnemonic \<Rightarrow> nat option" where
  "mnemonic_size m = bound_len (m_area m)"

section \<open>Basic blocks\<close>

text \<open>
  The iterator over the statements of a block: the mnemonics not visited yet and the rest of
  the current mnemonic.
\<close>

record stmt_iter =
  si_mnemonics :: "mnemonic list"
  si_statements :: "statement list option"

definition new_stmt_iter :: "mnemonic list \<Rightarrow> stmt_iter" where
  "new_stmt_iter ms = \<lparr>si_mnemonics = ms, si_statements = None\<rparr>"

text \<open>\<^verbatim>\<open>get_next\<close>: the loop runs until a mnemonic with a statement is found.\<close>

fun get_next_loop :: "mnemonic list \<Rightarrow> statement list option \<Rightarrow> statement option \<times> stmt_iter" where
  "get_next_loop [] cur = (None, \<lparr>si_mnemonics = [], si_statements = cur\<rparr>)"
| "get_next_loop (m # ms) cur =
     (case m_instructions m of
        [] \<Rightarrow> get_next_loop ms (Some [])
      | x # xs \<Rightarrow> (Some x, \<lparr>si_mnemonics = ms, si_statements = Some xs\<rparr>))"

definition get_next :: "stmt_iter \<Rightarrow> statement option \<times> stmt_iter" where
  "get_next it = get_next_loop (si_mnemonics it) (si_statements it)"

definition stmt_next :: "stmt_iter \<Rightarrow> statement option \<times> stmt_iter" where
  "stmt_next it =
     (case si_statements it of
        Some (x # xs) \<Rightarrow> (Some x, it\<lparr>si_statements := Some xs\<rparr>)
      | _ \<Rightarrow> get_next it)"

record basic_block =
  bb_area :: bound
  bb_mnemonics :: "mnemonic list"

definition new_basic_block :: basic_block where
  "new_basic_block = \<lparr>bb_area = new_bound 0 0, bb_mnemonics = []\<rparr>"

definition hull_step :: "bound option \<Rightarrow> mnemonic \<Rightarrow> bound option" where
  "hull_step acc m =
     (case acc of
        None \<Rightarrow> Some (m_area m)
      | Some r1 \<Rightarrow> Some (new_bound (min (b_start r1) (b_start (m_area m)))
                                   (max (b_end r1) (b_end (m_area m)))))"

definition from_vec :: "mnemonic list \<Rightarrow> basic_block" where
  "from_vec ms =
     \<lparr>bb_area = (case foldl hull_step None ms of None \<Rightarrow> new_bound 0 0 | Some b \<Rightarrow> b),
      bb_mnemonics = ms\<rparr>"

definition bb_execute_backwards :: "basic_block \<Rightarrow> (statement \<Rightarrow> 's \<Rightarrow> 's) \<Rightarrow> 's \<Rightarrow> 's" where
  "bb_execute_backwards bb f s =
     fold (\<lambda>mne. fold f (rev (m_instructions mne))) (rev (bb_mnemonics bb)) s"

definition bb_execute :: "basic_block \<Rightarrow> (statement \<Rightarrow> 's \<Rightarrow> 's) \<Rightarrow> 's \<Rightarrow> 's" where
  "bb_execute bb f s = fold (\<lambda>mne. fold f (m_instructions mne)) (bb_mnemonics bb) s"

text \<open>\<^verbatim>\<open>iter_mut\<close>: the closure may replace the element it is given.\<close>

fun map_state :: "('a \<Rightarrow> 's \<Rightarrow> 'a \<times> 's) \<Rightarrow> 'a list \<Rightarrow> 's \<Rightarrow> 'a list \<times> 's" where
  "map_state f [] s = ([], s)"
| "map_state f (x # xs) s =
     (case f x s of (y, s1) \<Rightarrow> case map_state f xs s1 of (ys, s2) \<Rightarrow> (y # ys, s2))"

definition rewrite_mnemonic ::
  "(statement \<Rightarrow> 's \<Rightarrow> statement \<times> 's) \<Rightarrow> mnemonic \<Rightarrow> 's \<Rightarrow> mnemonic \<times> 's" where
  "rewrite_mnemonic f mne s =
     (case map_state f (m_instructions mne) s of (is', s') \<Rightarrow> (mne\<lparr>m_instructions := is'\<rparr>, s'))"

definition bb_rewrite ::
  "basic_block \<Rightarrow> (statement \<Rightarrow> 's \<Rightarrow> statement \<times> 's) \<Rightarrow> 's \<Rightarrow> basic_block \<times> 's" where
  "bb_rewrite bb f s =
     (case map_state (rewrite_mnemonic f) (bb_mnemonics bb) s of
        (ms, s') \<Rightarrow> (bb\<lparr>bb_mnemonics := ms\<rparr>, s'))"

definition bb_statements :: "basic_block \<Rightarrow> stmt_iter" where
  "bb_statements bb = new_stmt_iter (bb_mnemonics bb)"

section \<open>Specification functions\<close>

text \<open>The concrete syntax of a token and the statements of a block in program order.\<close>

fun print_token :: "format_token \<Rightarrow> string" where
  "print_token (Literal c) = (if c = CHR ''{'' then ''{{'' else [c])"
| "print_token (Variable has_sign) = (if has_sign then ''{s}'' else ''{u}'')"
| "print_token (Pointer code bank) = (if code then ''{c:'' else ''{p:'') @ bank @ ''}''"

fun printable_token :: "format_token \<Rightarrow> bool" where
  "printable_token (Pointer code bank) = (CHR ''}'' \<notin> set bank)"
| "printable_token _ = True"

definition block_statements :: "basic_block \<Rightarrow> statement list" where
  "block_statements bb = concat (map m_instructions (bb_mnemonics bb))"

definition pending :: "stmt_iter \<Rightarrow> statement list" where
  "pending it = (case si_statements it of None \<Rightarrow> [] | Some xs \<Rightarrow> xs) @
                concat (map m_instructions (si_mnemonics it))"

section \<open>Lemmas\<close>

lemma parse_bank_print:
  "CHR ''}'' \<notin> set bank \<Longrightarrow> parse_bank (CHR '':'' # bank @ CHR ''}'' # rest) = Inr (bank, rest)"
  using position_append [of bank "\<lambda>x. x = CHR ''}''" "CHR ''}''" rest] by fastforce

lemma parse_format_print:
  "printable_token t \<Longrightarrow>
   parse_format (print_token t @ rest) = map_sum id ((#) t) (parse_format rest)"
  by (cases t) (auto simp: parse_format.simps(2) parse_bank_print simp del: parse_bank.simps)

definition head_option :: "'a list \<Rightarrow> 'a option" where
  "head_option xs = (case xs of [] \<Rightarrow> None | x # _ \<Rightarrow> Some x)"

lemma head_option_simps [simp]: "head_option [] = None" "head_option (x # xs) = Some x"
  by (simp_all add: head_option_def)

lemma get_next_loop_spec:
  "cur = None \<or> cur = Some [] \<Longrightarrow>
   fst (get_next_loop ms cur) = head_option (concat (map m_instructions ms)) \<and>
   pending (snd (get_next_loop ms cur)) = tl (concat (map m_instructions ms))"
proof (induction ms cur rule: get_next_loop.induct)
  case (1 cur)
  then show ?case by (auto simp: pending_def)
next
  case (2 m ms cur)
  then show ?case by (cases "m_instructions m") (simp_all add: pending_def)
qed

lemma stmt_next_spec:
  "fst (stmt_next it) = head_option (pending it) \<and> pending (snd (stmt_next it)) = tl (pending it)"
proof (cases "si_statements it = None \<or> si_statements it = Some []")
  case True
  then have "stmt_next it = get_next_loop (si_mnemonics it) (si_statements it)"
    by (auto simp: stmt_next_def get_next_def)
  moreover have "pending it = concat (map m_instructions (si_mnemonics it))"
    using True by (auto simp: pending_def)
  ultimately show ?thesis using get_next_loop_spec [OF True] by simp
next
  case False
  then obtain x xs where "si_statements it = Some (x # xs)" by (auto simp: neq_Nil_conv)
  then show ?thesis by (simp add: stmt_next_def pending_def)
qed

lemma fold_nested: "fold (\<lambda>m. fold f (g m)) xs s = fold f (concat (map g xs)) s"
  by (induction xs arbitrary: s) simp_all

lemma map_state_append:
  "map_state f (xs @ ys) s =
     (case map_state f xs s of (xs', s1) \<Rightarrow> case map_state f ys s1 of (ys', s2) \<Rightarrow> (xs' @ ys', s2))"
  by (induction xs arbitrary: s) (auto split: prod.splits)

lemma map_state_length: "map_state f xs s = (ys, s') \<Longrightarrow> length ys = length xs"
  by (induction xs arbitrary: s ys) (auto split: prod.splits)

lemma map_state_nested:
  "map_state (rewrite_mnemonic f) ms s = (ms', s') \<Longrightarrow>
   map_state f (concat (map m_instructions ms)) s = (concat (map m_instructions ms'), s') \<and>
   map m_area ms' = map m_area ms \<and>
   map (length \<circ> m_instructions) ms' = map (length \<circ> m_instructions) ms"
proof (induction ms arbitrary: s ms')
  case (Cons m ms)
  then show ?case
    using map_state_append [of f "m_instructions m"] map_state_length [of f "m_instructions m" s]
    by (auto simp: rewrite_mnemonic_def split: prod.splits)
qed simp

lemma Min_insert_min: "finite S \<Longrightarrow> Min (insert (min a b) S) = min a (Min (insert b S))"
  by (cases "S = {}") (simp_all add: min.assoc)

lemma Max_insert_max: "finite S \<Longrightarrow> Max (insert (max a b) S) = max a (Max (insert b S))"
  by (cases "S = {}") (simp_all add: max.assoc)

lemma foldl_hull:
  "foldl hull_step (Some b) ms =
     Some \<lparr>b_start = Min (insert (b_start b) (b_start ` m_area ` set ms)),
           b_end = Max (insert (b_end b) (b_end ` m_area ` set ms))\<rparr>"
  by (induction ms arbitrary: b)
     (simp_all add: hull_step_def new_bound_def Min_insert_min Max_insert_max)

lemma stmt_next_less: "stmt_next it = (Some x, it') \<Longrightarrow> length (pending it') < length (pending it)"
  using stmt_next_spec [of it] by (cases "pending it") auto

text \<open>A \<^verbatim>\<open>for\<close> loop over the statements of a block.\<close>

function stmt_drain :: "stmt_iter \<Rightarrow> statement list" where
  "stmt_drain it = (case stmt_next it of (None, _) \<Rightarrow> [] | (Some x, it') \<Rightarrow> x # stmt_drain it')"
  by pat_completeness auto
termination
  by (relation "measure (length \<circ> pending)") (auto dest: stmt_next_less [OF sym])

declare stmt_drain.simps [simp del]

lemma stmt_drain_pending: "stmt_drain it = pending it"
proof (induction it rule: stmt_drain.induct)
  case (1 it)
  then show ?case
    using stmt_next_spec [of it]
    by (subst stmt_drain.simps, cases "pending it") (auto split: prod.splits option.splits)
qed

lemma pending_bb_statements: "pending (bb_statements bb) = block_statements bb"
  by (simp add: pending_def bb_statements_def new_stmt_iter_def block_statements_def)

section \<open>Properties\<close>

text \<open>
  C23: Parsing the concrete syntax of a list of format tokens gives that list back; the only
  restriction is that a bank name contains no closing brace.
\<close>

theorem parse_format_roundtrip:
  assumes "list_all printable_token ts"
  shows "parse_format (concat (map print_token ts)) = Inr ts"
  using assms by (induction ts) (simp_all add: parse_format_print)

theorem parse_format_roundtrip_witness:
  "list_all printable_token [Pointer True ''ram'', Literal CHR ''{'', Literal CHR '','', Variable True] \<and>
   parse_format ''{c:ram}{{,{s}'' = Inr [Pointer True ''ram'', Literal CHR ''{'', Literal CHR '','', Variable True]"
  using parse_format_roundtrip [of "[Pointer True ''ram'', Literal CHR ''{'', Literal CHR '','', Variable True]"]
  by simp

text \<open>
  C24: The ways to visit the statements of a basic block agree.  The statement iterator
  yields the statements of all mnemonics in program order, skipping mnemonics without statements;
  \<^verbatim>\<open>execute\<close> runs the closure over that sequence, \<^verbatim>\<open>execute_backwards\<close> over its reverse, and
  \<^verbatim>\<open>rewrite\<close> replaces it statement by statement without changing areas or the number of
  statements of any mnemonic.
\<close>

theorem block_traversals:
  shows "stmt_drain (bb_statements bb) = block_statements bb \<and>
         bb_execute bb f s = fold f (block_statements bb) s \<and>
         bb_execute_backwards bb f s = fold f (rev (block_statements bb)) s \<and>
         (let (bb', t') = bb_rewrite bb g t
          in (block_statements bb', t') = map_state g (block_statements bb) t \<and>
             bb_area bb' = bb_area bb \<and>
             map m_area (bb_mnemonics bb') = map m_area (bb_mnemonics bb) \<and>
             map (length \<circ> m_instructions) (bb_mnemonics bb') =
               map (length \<circ> m_instructions) (bb_mnemonics bb))"
proof -
  have "bb_execute_backwards bb f s = fold f (rev (block_statements bb)) s"
    by (simp add: bb_execute_backwards_def block_statements_def rev_concat rev_map fold_nested comp_def)
  moreover obtain ms t' where "map_state (rewrite_mnemonic g) (bb_mnemonics bb) t = (ms, t')"
    by fastforce
  ultimately show ?thesis
    using map_state_nested [of g "bb_mnemonics bb" t ms t']
    by (auto simp: stmt_drain_pending pending_bb_statements bb_execute_def fold_nested
          block_statements_def bb_rewrite_def)
qed

text \<open>
  The area of a block built from mnemonics is their hull: it starts at the least start
  and ends at the greatest end of a mnemonic, whatever their order and whether or not they are
  adjacent; an empty block has the area \<open>[0, 0)\<close>.
\<close>

theorem from_vec_hull:
  shows "bb_mnemonics (from_vec ms) = ms \<and>
         bb_area (from_vec []) = new_bound 0 0 \<and>
         bb_area (from_vec (m # ms)) =
           new_bound (Min (b_start ` m_area ` set (m # ms))) (Max (b_end ` m_area ` set (m # ms)))"
  by (simp add: from_vec_def hull_step_def foldl_hull new_bound_def)

end
