(* ===== verification/Region.thy ===== *)
theory Region
  imports Layer Mnemonic
begin

text \<open>
  Regions, \<^verbatim>\<open>core/src/region.rs\<close>: a stack of layers over one address space.  \<open>cover\<close>
  pushes a layer, \<open>region_iter\<close> composes the iterators of all layers and \<open>flatten\<close> lists the
  uncovered part of each layer.  A failed assertion, an out-of-range index and a \<^verbatim>\<open>u64\<close>
  underflow are the value \<open>None\<close>.  \<^verbatim>\<open>Region::open\<close> reads a file and is not modelled.

  The lemmas show when an iterator exists, that it yields for each address what the topmost
  covering layer says, and that \<open>flatten\<close> partitions the addresses in the same way.
\<close>

record region =
  r_stack :: "(bound \<times> layer) list"
  r_name :: string
  r_size :: nat

definition new_region :: "string \<Rightarrow> opaque_layer \<Rightarrow> region" where
  "new_region nm root =
     (let l = opaque_len root
      in \<lparr>r_stack = [(new_bound 0 l, LyOpaque root)], r_name = nm, r_size = l\<rparr>)"

definition region_wrap :: "string \<Rightarrow> u8 list \<Rightarrow> region" where
  "region_wrap nm data = new_region nm (OlDefined data)"

definition region_undefined :: "string \<Rightarrow> nat \<Rightarrow> region" where
  "region_undefined nm len = new_region nm (OlUndefined len)"

definition cover :: "region \<Rightarrow> bound \<Rightarrow> layer \<Rightarrow> (region \<times> bool) option" where
  "cover r b l =
     (case r_stack r of
        [] \<Rightarrow> None
      | base # _ \<Rightarrow>
          (if b_end b \<le> b_end (fst base) then
             (case layer_as_opaque l of
                Some ol \<Rightarrow>
                  (case bound_len b of
                     None \<Rightarrow> None
                   | Some n \<Rightarrow>
                       (if n > opaque_len ol then Some (r, False)
                        else Some (r\<lparr>r_stack := r_stack r @ [(b, l)]\<rparr>, True)))
              | None \<Rightarrow> Some (r\<lparr>r_stack := r_stack r @ [(b, l)]\<rparr>, True))
           else Some (r, False)))"

text \<open>One round of the loop in \<^verbatim>\<open>Region::iter\<close>, with its three assertions.\<close>

definition iter_step :: "layer_iter \<Rightarrow> bound \<times> layer \<Rightarrow> layer_iter option" where
  "iter_step ret s =
     (let area = fst s; ly = snd s in
      case li_cut ret (b_start area) (b_end area) of
        None \<Rightarrow> None
      | Some src \<Rightarrow>
          (case bound_len area of
             None \<Rightarrow> None
           | Some n \<Rightarrow>
               if li_len src \<noteq> n then None
               else
                 (case (if b_start area \<noteq> 0 then
                          (case li_cut ret 0 (b_start area) of
                             None \<Rightarrow> None
                           | Some pre \<Rightarrow>
                               (let tmp = li_append pre (layer_filter ly src)
                                in if li_len tmp = b_end area then Some tmp else None))
                        else Some (layer_filter ly src)) of
                    None \<Rightarrow> None
                  | Some tmp \<Rightarrow>
                      (case (if b_end area < li_len ret then
                               (case li_cut ret (b_end area) (li_len ret) of
                                  None \<Rightarrow> None
                                | Some post \<Rightarrow> Some (li_append tmp post))
                             else Some tmp) of
                         None \<Rightarrow> None
                       | Some tmp' \<Rightarrow> if li_len ret = li_len tmp' then Some tmp' else None))))"

fun iter_loop :: "layer_iter \<Rightarrow> (bound \<times> layer) list \<Rightarrow> layer_iter option" where
  "iter_loop ret [] = Some ret"
| "iter_loop ret (s # ss) = (case iter_step ret s of None \<Rightarrow> None | Some ret' \<Rightarrow> iter_loop ret' ss)"

definition region_iter :: "region \<Rightarrow> layer_iter option" where
  "region_iter r =
     (case r_stack r of
        [] \<Rightarrow> None
      | base # rest \<Rightarrow>
          (case layer_as_opaque (snd base) of
             None \<Rightarrow> None
           | Some ol \<Rightarrow> iter_loop (opaque_iter ol) rest))"

text \<open>The closure that \<^verbatim>\<open>Region::add\<close> folds over the pieces: the pieces left of \<open>x\<close>.\<close>

definition add_piece :: "bound \<Rightarrow> bound \<times> 'l \<Rightarrow> (bound \<times> 'l) list" where
  "add_piece a x =
     (let xs = b_start (fst x); xe = b_end (fst x); s = b_start a; e = b_end a in
      if s \<le> xs \<and> xe \<le> e then []
      else if e \<le> xs \<or> xe \<le> s then [x]
      else if s < xs \<and> e \<le> xe then (if e < xe then [(new_bound e xe, snd x)] else [])
      else if xs < s \<and> xe \<le> e then (if xs < s then [(new_bound xs s, snd x)] else [])
      else (if xs < s then [(new_bound xs s, snd x)] else []) @
           (if e < xe then [(new_bound e xe, snd x)] else []))"

definition region_add :: "bound \<times> 'l \<Rightarrow> (bound \<times> 'l) list \<Rightarrow> (bound \<times> 'l) list" where
  "region_add a v = foldl (\<lambda>acc x. acc @ add_piece (fst a) x) [] v @ [a]"

definition flatten :: "region \<Rightarrow> (bound \<times> layer) list" where
  "flatten r = sort_key (\<lambda>x. b_start (fst x)) (foldl (\<lambda>ret x. region_add x ret) [] (r_stack r))"

section \<open>Specification\<close>

definition covers :: "nat \<Rightarrow> bound \<times> 'l \<Rightarrow> bool" where
  "covers i x \<longleftrightarrow> b_start (fst x) \<le> i \<and> i < b_end (fst x)"

text \<open>The effect of a layer on the cells of a region.\<close>

definition paint :: "bound \<times> layer \<Rightarrow> cell list \<Rightarrow> cell list" where
  "paint s cs = take (b_start (fst s)) cs @
                layer_cells (snd s) (take (b_end (fst s) - b_start (fst s)) (drop (b_start (fst s)) cs)) @
                drop (b_end (fst s)) cs"

fun fits :: "nat \<Rightarrow> bound \<times> layer \<Rightarrow> bool" where
  "fits n (b, l) \<longleftrightarrow> b_start b \<le> b_end b \<and> b_end b \<le> n \<and>
     (case layer_as_opaque l of Some ol \<Rightarrow> opaque_len ol = b_end b - b_start b | None \<Rightarrow> True)"

definition wf_region :: "region \<Rightarrow> bool" where
  "wf_region r \<longleftrightarrow>
     (case r_stack r of
        (b, LyOpaque ol) # rest \<Rightarrow>
          b = new_bound 0 (r_size r) \<and> opaque_len ol = r_size r \<and> list_all (fits (r_size r)) rest
      | _ \<Rightarrow> False)"

fun region_cells :: "region \<Rightarrow> cell list" where
  "region_cells r =
     (case r_stack r of
        [] \<Rightarrow> []
      | base # rest \<Rightarrow> foldl (\<lambda>cs s. paint s cs) (layer_cells (snd base) []) rest)"

section \<open>Lemmas\<close>

lemma length_paint [simp]: "fits (length cs) s \<Longrightarrow> length (paint s cs) = length cs"
  by (cases s) (auto simp: paint_def length_layer_cells split: option.splits)

lemma iter_step_spec:
  assumes "fits (li_len ret) s"
  shows "\<exists>ret'. iter_step ret s = Some ret' \<and> li_cells ret' = paint s (li_cells ret)"
proof -
  obtain b l where s: "s = (b, l)" by fastforce
  let ?cs = "li_cells ret"
  have b: "b_start b \<le> b_end b" "b_end b \<le> length ?cs"
    and ol: "length (layer_cells l (take (b_end b - b_start b) (drop (b_start b) ?cs))) = b_end b - b_start b"
    using assms by (auto simp: s li_len_cells length_layer_cells split: option.splits)
  obtain src where src: "li_cut ret (b_start b) (b_end b) = Some src"
      "li_cells src = take (b_end b - b_start b) (drop (b_start b) ?cs)"
    using layer_it.cut_cells [of "b_start b" ret "b_end b"] b by auto
  obtain pre where pre: "li_cut ret 0 (b_start b) = Some pre" "li_cells pre = take (b_start b) ?cs"
    using layer_it.cut_cells [of 0 ret "b_start b"] by auto
  obtain post where post: "li_cut ret (b_end b) (length ?cs) = Some post"
      "li_cells post = drop (b_end b) ?cs"
    using layer_it.cut_cells [of "b_end b" ret "length ?cs"] b by auto
  define tmp where "tmp = (if b_start b \<noteq> 0 then li_append pre (layer_filter l src) else layer_filter l src)"
  have tmp: "li_cells tmp = take (b_start b) ?cs @
               layer_cells l (take (b_end b - b_start b) (drop (b_start b) ?cs))"
    by (simp add: tmp_def layer_it.app_cells layer_filter_cells src pre)
  then have len: "length (li_cells tmp) = b_end b" using b ol by simp
  have post_len: "length (li_cells (li_append tmp post)) = length ?cs"
    using b len post by (simp add: layer_it.app_cells)
  have "iter_step ret s = Some (if b_end b < length ?cs then li_append tmp post else tmp)"
  proof (cases "b_start b = 0")
    case True
    then show ?thesis
      using b len post_len src post by (simp add: s iter_step_def bound_len_def li_len_cells tmp_def)
  next
    case False
    then show ?thesis
      using b len post_len src pre post by (simp add: s iter_step_def bound_len_def li_len_cells tmp_def)
  qed
  then show ?thesis
    using b by (auto simp: s paint_def tmp post layer_it.app_cells)
qed

lemma iter_loop_spec:
  "list_all (fits (li_len ret)) ss \<Longrightarrow>
   \<exists>ret'. iter_loop ret ss = Some ret' \<and> li_cells ret' = foldl (\<lambda>cs s. paint s cs) (li_cells ret) ss"
proof (induction ss arbitrary: ret)
  case (Cons s ss)
  then obtain ret' where "iter_step ret s = Some ret'" "li_cells ret' = paint s (li_cells ret)"
    using iter_step_spec [of ret s] by auto
  moreover have "li_len ret' = li_len ret"
    using Cons.prems calculation by (simp add: li_len_cells)
  ultimately show ?case using Cons.IH [of ret'] Cons.prems by simp
qed simp

lemma region_iter_spec:
  assumes "wf_region r"
  shows "\<exists>it. region_iter r = Some it \<and> li_cells it = region_cells r \<and> li_len it = r_size r"
proof -
  obtain ol rest where st: "r_stack r = (new_bound 0 (r_size r), LyOpaque ol) # rest"
      "opaque_len ol = r_size r" "list_all (fits (r_size r)) rest"
    using assms by (auto simp: wf_region_def split: list.splits prod.splits layer.splits)
  then obtain it where "iter_loop (opaque_iter ol) rest = Some it"
      "li_cells it = foldl (\<lambda>cs s. paint s cs) (li_cells (opaque_iter ol)) rest"
    using iter_loop_spec [of "opaque_iter ol" rest] by (auto simp: li_len_cells)
  moreover have "length (foldl (\<lambda>cs s. paint s cs) cs ss) = length cs" if "list_all (fits (length cs)) ss" for cs ss
    using that by (induction ss arbitrary: cs) simp_all
  ultimately show ?thesis using st by (simp add: region_iter_def li_len_cells)
qed

lemma wf_region_cases:
  assumes "wf_region r"
  obtains ol rest where "r_stack r = (new_bound 0 (r_size r), LyOpaque ol) # rest"
    "opaque_len ol = r_size r" "list_all (fits (r_size r)) rest"
  using assms by (auto simp: wf_region_def split: list.splits prod.splits layer.splits)

lemma wf_new_region: "wf_region (new_region nm ol)"
  by (simp add: wf_region_def new_region_def Let_def)

lemma region_undefined_simps [simp]:
  "wf_region (region_undefined nm n)" "r_size (region_undefined nm n) = n"
  by (simp_all add: region_undefined_def wf_new_region) (simp add: new_region_def)

lemma region_cells_snoc:
  "r_stack r \<noteq> [] \<Longrightarrow> region_cells (r\<lparr>r_stack := r_stack r @ [s]\<rparr>) = paint s (region_cells r)"
  by (cases "r_stack r") simp_all

lemma wf_region_snoc:
  "wf_region r \<Longrightarrow> fits (r_size r) s \<Longrightarrow> wf_region (r\<lparr>r_stack := r_stack r @ [s]\<rparr>)"
  by (auto simp: wf_region_def split: list.splits prod.splits layer.splits)

lemma cover_result:
  assumes "wf_region r" "b_start b \<le> b_end b"
  shows "cover r b l =
     Some (if b_end b \<le> r_size r \<and>
              (case layer_as_opaque l of Some ol \<Rightarrow> b_end b - b_start b \<le> opaque_len ol | None \<Rightarrow> True)
           then (r\<lparr>r_stack := r_stack r @ [(b, l)]\<rparr>, True) else (r, False))"
  using assms
  by (elim wf_region_cases) (auto simp: cover_def bound_len_def new_bound_def split: option.splits)

lemma paint_nth:
  assumes "fits (length cs) (b, l)" "i < length cs"
  shows "paint (b, l) cs ! i =
     (if covers i (b, l)
      then layer_cells l (take (b_end b - b_start b) (drop (b_start b) cs)) ! (i - b_start b)
      else cs ! i)"
proof -
  have len: "length (layer_cells l (take (b_end b - b_start b) (drop (b_start b) cs))) = b_end b - b_start b"
    using assms by (auto simp: length_layer_cells split: option.splits)
  then show ?thesis
    using assms by (auto simp: paint_def covers_def nth_append)
qed

lemma iter_loop_append:
  "iter_loop it (xs @ ys) = (case iter_loop it xs of None \<Rightarrow> None | Some it' \<Rightarrow> iter_loop it' ys)"
  by (induction xs arbitrary: it) (auto split: option.splits)

lemma region_iter_snoc:
  "r_stack r \<noteq> [] \<Longrightarrow>
   region_iter (r\<lparr>r_stack := r_stack r @ [s]\<rparr>) =
     (case region_iter r of None \<Rightarrow> None | Some it \<Rightarrow> iter_step it s)"
  by (cases "r_stack r") (auto simp: region_iter_def iter_loop_append split: option.splits)

lemma iter_step_oversized:
  assumes "b_start b \<le> b_end b" "b_end b \<le> li_len ret" "b_end b - b_start b < opaque_len ol"
  shows "iter_step ret (b, LyOpaque ol) = None"
proof -
  have ol: "li_len (opaque_iter ol) = opaque_len ol" by (simp add: li_len_cells)
  have app: "li_len (li_append x y) = li_len x + li_len y" for x y
    by (simp add: li_append_def)
  obtain pre where pre: "li_cut ret 0 (b_start b) = Some pre" "li_len pre = b_start b"
    using layer_it.cut_len [of 0 "b_start b" ret] assms by auto
  obtain post where post: "li_cut ret (b_end b) (li_len ret) = Some post" "li_len post = li_len ret - b_end b"
    using layer_it.cut_len [of "b_end b" "li_len ret" ret] assms by auto
  obtain src where src: "li_cut ret (b_start b) (b_end b) = Some src" "li_len src = b_end b - b_start b"
    using layer_it.cut_len [of "b_start b" "b_end b" ret] assms by auto
  show ?thesis
    using assms pre post src
    by (cases "b_start b = 0"; cases "b_end b < li_len ret") (simp_all add: iter_step_def bound_len_def ol app)
qed

section \<open>Flattening\<close>

definition labels_at :: "nat \<Rightarrow> (bound \<times> 'l) list \<Rightarrow> 'l list" where
  "labels_at i v = map snd (filter (covers i) v)"

lemma labels_at_simps [simp]:
  "labels_at i [] = []"
  "labels_at i (x # xs) = (if covers i x then snd x # labels_at i xs else labels_at i xs)"
  "labels_at i (xs @ ys) = labels_at i xs @ labels_at i ys"
  by (simp_all add: labels_at_def)

lemma labels_at_add_piece:
  "b_start a \<le> b_end a \<Longrightarrow>
   labels_at i (add_piece a x) = (if b_start a \<le> i \<and> i < b_end a then [] else labels_at i [x])"
  by (auto simp: add_piece_def Let_def covers_def new_bound_def)

lemma labels_at_pieces:
  "b_start a \<le> b_end a \<Longrightarrow>
   labels_at i (foldl (\<lambda>acc x. acc @ add_piece a x) acc v) =
     labels_at i acc @ (if b_start a \<le> i \<and> i < b_end a then [] else labels_at i v)"
  by (induction v arbitrary: acc) (auto simp: labels_at_add_piece)

lemma labels_at_add:
  "b_start (fst a) \<le> b_end (fst a) \<Longrightarrow>
   labels_at i (region_add a v) = (if covers i a then [snd a] else labels_at i v)"
  by (auto simp: region_add_def labels_at_pieces covers_def)

lemma labels_at_stack:
  "\<forall>x \<in> set st. b_start (fst x) \<le> b_end (fst x) \<Longrightarrow>
   labels_at i (foldl (\<lambda>ret x. region_add x ret) [] st) =
     (case rev (labels_at i st) of [] \<Rightarrow> [] | l # _ \<Rightarrow> [l])"
  by (induction st rule: rev_induct) (auto simp: labels_at_add)

lemma labels_at_sort:
  "length (labels_at i xs) \<le> 1 \<Longrightarrow> labels_at i (sort_key k xs) = labels_at i xs"
proof -
  assume "length (labels_at i xs) \<le> 1"
  then have "length (filter (covers i) xs) \<le> 1" by (simp add: labels_at_def)
  then have "sort_key k (filter (covers i) xs) = filter (covers i) xs"
    by (cases "filter (covers i) xs" rule: list.exhaust) (auto simp: le_Suc_eq)
  then show ?thesis by (simp add: labels_at_def filter_sort)
qed

lemma wf_region_bounds: "wf_region r \<Longrightarrow> x \<in> set (r_stack r) \<Longrightarrow> b_start (fst x) \<le> b_end (fst x)"
  by (elim wf_region_cases) (cases x, auto simp: list_all_iff new_bound_def)

lemma wf_region_covered: "wf_region r \<Longrightarrow> i < r_size r \<Longrightarrow> labels_at i (r_stack r) \<noteq> []"
  by (elim wf_region_cases) (simp add: covers_def new_bound_def)

section \<open>Properties\<close>

text \<open>
  C19: Covering part of a well-formed region with a layer that has the size of the area.  The
  region's iterator exists before and afterwards (none of the assertions of \<^verbatim>\<open>Region::iter\<close>
  fails), the size is unchanged, every address outside the area keeps its cell and every
  address inside shows what the layer makes of the cells that were there before.
\<close>

theorem cover_then_iter:
  assumes "wf_region r" "fits (r_size r) (b, l)"
  shows "\<exists>r' it it'. cover r b l = Some (r', True) \<and> wf_region r' \<and> r_size r' = r_size r \<and>
           region_iter r = Some it \<and> region_iter r' = Some it' \<and>
           length (li_drain it) = r_size r \<and> length (li_drain it') = r_size r \<and>
           (\<forall>i < r_size r. li_drain it' ! i =
              (if covers i (b, l)
               then layer_cells l (take (b_end b - b_start b) (drop (b_start b) (li_drain it))) ! (i - b_start b)
               else li_drain it ! i))"
proof -
  define r' where "r' = r\<lparr>r_stack := r_stack r @ [(b, l)]\<rparr>"
  have ne: "r_stack r \<noteq> []" using assms(1) by (elim wf_region_cases) simp
  have wf': "wf_region r'" using wf_region_snoc assms by (simp add: r'_def)
  have "cover r b l = Some (r', True)"
    using cover_result [of r b l] assms by (auto simp: r'_def split: option.splits)
  moreover obtain it where it: "region_iter r = Some it" "li_cells it = region_cells r" "li_len it = r_size r"
    using region_iter_spec [OF assms(1)] by auto
  moreover obtain it' where it': "region_iter r' = Some it'" "li_cells it' = region_cells r'" "li_len it' = r_size r'"
    using region_iter_spec [OF wf'] by auto
  moreover have "li_cells it' = paint (b, l) (li_cells it)"
    using it it' region_cells_snoc [OF ne] by (simp add: r'_def del: region_cells.simps)
  ultimately show ?thesis
    using wf' assms paint_nth [of "li_cells it" b l] by (auto simp: li_drain_cells li_len_cells r'_def)
qed

theorem cover_then_iter_witness:
  "wf_region (region_undefined ''ram'' 4) \<and> fits 4 (new_bound 1 3, layer_wrap [7, 8]) \<and>
   (\<exists>r' it'. cover (region_undefined ''ram'' 4) (new_bound 1 3) (layer_wrap [7, 8]) = Some (r', True) \<and>
             region_iter r' = Some it' \<and> li_drain it' ! 2 = Some 8)"
proof -
  have fits: "wf_region (region_undefined ''ram'' 4)" "fits 4 (new_bound 1 3, layer_wrap [7, 8])"
    "r_size (region_undefined ''ram'' 4) = 4"
    by (simp_all add: layer_wrap_def opaque_wrap_def new_bound_def)
  then obtain r' it' where "cover (region_undefined ''ram'' 4) (new_bound 1 3) (layer_wrap [7, 8]) = Some (r', True)"
    "region_iter r' = Some it'" "li_drain it' ! 2 = Some 8"
    using cover_then_iter [of "region_undefined ''ram'' 4" "new_bound 1 3" "layer_wrap [7, 8]"]
    by (auto simp: layer_wrap_def opaque_wrap_def new_bound_def covers_def)
  with fits show ?thesis by blast
qed

text \<open>
  C20: \<^verbatim>\<open>flatten\<close> is a partition that agrees with the stack: the pieces are sorted by their
  start, every address of a well-formed region lies in exactly one piece, and that piece
  carries the topmost layer of the stack that covers the address.
\<close>

theorem flatten_topmost:
  assumes "wf_region r"
  shows "sorted (map (\<lambda>x. b_start (fst x)) (flatten r)) \<and>
         (\<forall>i < r_size r. \<exists>b. filter (covers i) (flatten r) = [(b, last (labels_at i (r_stack r)))])"
proof -
  have "\<exists>b. filter (covers i) (flatten r) = [(b, last (labels_at i (r_stack r)))]" if "i < r_size r" for i
  proof -
    note i = that
    obtain ls where ls: "rev (labels_at i (r_stack r)) = last (labels_at i (r_stack r)) # ls"
      using wf_region_covered [OF assms i]
      by (metis append_butlast_last_id rev_eq_Cons_iff rev_rev_ident)
    have "labels_at i (foldl (\<lambda>ret x. region_add x ret) [] (r_stack r)) = [last (labels_at i (r_stack r))]"
      using labels_at_stack [of "r_stack r" i] wf_region_bounds [OF assms] unfolding ls list.case by blast
    then have "labels_at i (flatten r) = [last (labels_at i (r_stack r))]"
      by (simp add: flatten_def labels_at_sort)
    then show ?thesis by (auto simp: labels_at_def map_eq_Cons_conv)
  qed
  then show ?thesis by (simp add: flatten_def)
qed

theorem flatten_topmost_witness:
  "wf_region (region_undefined ''ram'' 4) \<and>
   (\<exists>b. filter (covers 3) (flatten (region_undefined ''ram'' 4)) = [(b, LyOpaque (OlUndefined 4))])"
proof -
  have "last (labels_at 3 (r_stack (region_undefined ''ram'' 4))) = LyOpaque (OlUndefined 4)"
    by (simp add: region_undefined_def new_region_def covers_def new_bound_def)
  then show ?thesis
    using flatten_topmost [of "region_undefined ''ram'' 4", THEN conjunct2, rule_format, of 3] by simp
qed

text \<open>
  \<^verbatim>\<open>cover\<close> rejects a fixed layer that is shorter than the area but accepts one that is
  longer; the region it then returns has no iterator, because an assertion of
  \<^verbatim>\<open>Region::iter\<close> fails.
\<close>

theorem cover_oversized_layer_panics:
  assumes "wf_region r" "b_start b \<le> b_end b" "b_end b \<le> r_size r" "b_end b - b_start b < opaque_len ol"
  shows "\<exists>r'. cover r b (LyOpaque ol) = Some (r', True) \<and> region_iter r' = None"
proof -
  have "r_stack r \<noteq> []" using assms(1) by (elim wf_region_cases) simp
  moreover obtain it where "region_iter r = Some it" "li_len it = r_size r"
    using region_iter_spec [OF assms(1)] by auto
  ultimately have "region_iter (r\<lparr>r_stack := r_stack r @ [(b, LyOpaque ol)]\<rparr>) = None"
    using iter_step_oversized [of b it ol] assms by (simp add: region_iter_snoc)
  then show ?thesis
    using cover_result [of r b "LyOpaque ol"] assms by (simp add: less_imp_le)
qed

theorem cover_oversized_layer_panics_witness:
  "wf_region (region_undefined ''ram'' 4) \<and>
   (\<exists>r'. cover (region_undefined ''ram'' 4) (new_bound 0 1) (LyOpaque (OlDefined [1, 2])) = Some (r', True) \<and>
         region_iter r' = None)"
  using cover_oversized_layer_panics [of "region_undefined ''ram'' 4" "new_bound 0 1" "OlDefined [1, 2]"]
  by (simp add: new_bound_def)

section \<open>Seeking in a region\<close>

lemma seek_cells: "li_seek it a \<noteq> None \<and> li_cells (the (li_seek it a)) = drop a (li_cells it)"
proof (cases "a \<le> li_len it")
  case True
  then show ?thesis using layer_it.cut_cells [of a it "li_len it"] by (cases "0 < a") (auto simp: li_seek_def li_len_cells)
qed (simp add: li_seek_def li_cut.simps li_len_cells)

lemma region_cells_drop:
  assumes "wf_region r" "addr < r_size r"
  shows "drop addr (region_cells r) = region_cells r ! addr # drop (Suc addr) (region_cells r)"
  using region_iter_spec [OF assms(1)] assms(2) by (auto simp: li_len_cells Cons_nth_drop_Suc)

end
