(* ===== verification/Graph.thy ===== *)
theory Graph
  imports Prelude
begin

text \<open>
  The graph containers of \<^verbatim>\<open>graph-algos/src/adjacency_list.rs\<close> and
  \<^verbatim>\<open>graph-algos/src/adjacency_matrix.rs\<close>.  A \<^verbatim>\<open>HashMap\<close> is an association list with
  distinct keys.  Functions whose result is an option of the interface (\<^verbatim>\<open>vertex_label\<close>,
  \<^verbatim>\<open>add_edge\<close>, \<^verbatim>\<open>remove_vertex\<close>) keep it; an additional outer \<open>None\<close> is a panic.

  The abstract graph behind an adjacency list is a pair of finite maps from descriptors to
  labels and end points.  The lemmas show that every operation preserves the consistency of
  the five hash maps and refines the operation on the abstract graph.
\<close>

section \<open>Descriptors\<close>

datatype al_vertex = AlVertex (al_vertex_id: nat)
datatype al_edge = AlEdge (al_edge_id: nat)

text \<open>The derived \<^verbatim>\<open>Ord\<close> of the vertex descriptor.\<close>

instantiation al_vertex :: linorder
begin

definition less_eq_al_vertex :: "al_vertex \<Rightarrow> al_vertex \<Rightarrow> bool" where
  "less_eq_al_vertex a b \<longleftrightarrow> al_vertex_id a \<le> al_vertex_id b"

definition less_al_vertex :: "al_vertex \<Rightarrow> al_vertex \<Rightarrow> bool" where
  "less_al_vertex a b \<longleftrightarrow> al_vertex_id a < al_vertex_id b"

instance
  by standard (auto simp: less_eq_al_vertex_def less_al_vertex_def al_vertex.expand)

end

section \<open>Adjacency lists\<close>

record ('n, 'e) adjacency_list =
  vertex_labels :: "(al_vertex \<times> 'n) list"
  edge_labels :: "(al_edge \<times> 'e) list"
  out_edges :: "(al_vertex \<times> al_edge list) list"
  in_edges :: "(al_vertex \<times> al_edge list) list"
  edges :: "(al_edge \<times> al_vertex \<times> al_vertex) list"
  next_edge :: al_edge
  next_vertex :: al_vertex

definition al_new :: "('n, 'e) adjacency_list" where
  "al_new = \<lparr>vertex_labels = [], edge_labels = [], out_edges = [], in_edges = [], edges = [],
             next_edge = AlEdge 0, next_vertex = AlVertex 0\<rparr>"

definition al_vertex_label :: "('n, 'e) adjacency_list \<Rightarrow> al_vertex \<Rightarrow> 'n option" where
  "al_vertex_label g n = map_of (vertex_labels g) n"

definition al_edge_label :: "('n, 'e) adjacency_list \<Rightarrow> al_edge \<Rightarrow> 'e option" where
  "al_edge_label g n = map_of (edge_labels g) n"

text \<open>\<^verbatim>\<open>source\<close>, \<^verbatim>\<open>target\<close>, \<^verbatim>\<open>out_edges\<close> and \<^verbatim>\<open>in_edges\<close> unwrap the result of a lookup.\<close>

definition al_source :: "('n, 'e) adjacency_list \<Rightarrow> al_edge \<Rightarrow> al_vertex option" where
  "al_source g e = map_option fst (map_of (edges g) e)"

definition al_target :: "('n, 'e) adjacency_list \<Rightarrow> al_edge \<Rightarrow> al_vertex option" where
  "al_target g e = map_option snd (map_of (edges g) e)"

definition al_out_degree :: "('n, 'e) adjacency_list \<Rightarrow> al_vertex \<Rightarrow> nat" where
  "al_out_degree g v = (case map_of (out_edges g) v of None \<Rightarrow> 0 | Some x \<Rightarrow> length x)"

definition al_out_edges :: "('n, 'e) adjacency_list \<Rightarrow> al_vertex \<Rightarrow> al_edge list option" where
  "al_out_edges g v = map_of (out_edges g) v"

definition al_in_degree :: "('n, 'e) adjacency_list \<Rightarrow> al_vertex \<Rightarrow> nat" where
  "al_in_degree g v = (case map_of (in_edges g) v of None \<Rightarrow> 0 | Some x \<Rightarrow> length x)"

definition al_degree :: "('n, 'e) adjacency_list \<Rightarrow> al_vertex \<Rightarrow> nat" where
  "al_degree g v = al_in_degree g v + al_out_degree g v"

definition al_in_edges :: "('n, 'e) adjacency_list \<Rightarrow> al_vertex \<Rightarrow> al_edge list option" where
  "al_in_edges g v = map_of (in_edges g) v"

text \<open>\<^verbatim>\<open>adjacent_vertices\<close> returns an iterator that pops from the end of the sorted vector.\<close>

definition al_adjacent_vertices :: "('n, 'e) adjacency_list \<Rightarrow> al_vertex \<Rightarrow> al_vertex list option" where
  "al_adjacent_vertices g v =
     (case (al_out_edges g v, al_in_edges g v) of
        (Some oe, Some ie) \<Rightarrow>
          (case (those (map (al_target g) oe), those (map (al_source g) ie)) of
             (Some i, Some o1) \<Rightarrow> Some (remdups_adj (sort (i @ o1)))
           | _ \<Rightarrow> None)
      | _ \<Rightarrow> None)"

definition adjacency_next :: "'v list \<Rightarrow> 'v option \<times> 'v list" where
  "adjacency_next adj = (if adj = [] then (None, []) else (Some (last adj), butlast adj))"

definition al_num_vertices :: "('n, 'e) adjacency_list \<Rightarrow> nat" where
  "al_num_vertices g = length (vertex_labels g)"

definition al_vertices :: "('n, 'e) adjacency_list \<Rightarrow> al_vertex list" where
  "al_vertices g = map fst (vertex_labels g)"

definition al_vertex_labels :: "('n, 'e) adjacency_list \<Rightarrow> 'n list" where
  "al_vertex_labels g = map snd (vertex_labels g)"

definition al_num_edges :: "('n, 'e) adjacency_list \<Rightarrow> nat" where
  "al_num_edges g = length (edge_labels g)"

definition al_edges :: "('n, 'e) adjacency_list \<Rightarrow> al_edge list" where
  "al_edges g = map fst (edge_labels g)"

definition al_edge_labels :: "('n, 'e) adjacency_list \<Rightarrow> 'e list" where
  "al_edge_labels g = map snd (edge_labels g)"

text \<open>\<^verbatim>\<open>out_edges(from).find(|&e| self.target(e) == to)\<close>.\<close>

fun find_target :: "('n, 'e) adjacency_list \<Rightarrow> al_vertex \<Rightarrow> al_edge list \<Rightarrow> al_edge option option" where
  "find_target g to [] = Some None"
| "find_target g to (e # es) =
     (case al_target g e of
        None \<Rightarrow> None
      | Some t \<Rightarrow> if t = to then Some (Some e) else find_target g to es)"

definition al_edge_between ::
  "('n, 'e) adjacency_list \<Rightarrow> al_vertex \<Rightarrow> al_vertex \<Rightarrow> al_edge option option" where
  "al_edge_between g from to =
     (case al_out_edges g from of None \<Rightarrow> None | Some es \<Rightarrow> find_target g to es)"

definition al_add_vertex :: "('n, 'e) adjacency_list \<Rightarrow> 'n \<Rightarrow> ('n, 'e) adjacency_list \<times> al_vertex" where
  "al_add_vertex g lb =
     (let n = next_vertex g
      in (g\<lparr>next_vertex := AlVertex (al_vertex_id n + 1),
            vertex_labels := AList.update n lb (vertex_labels g),
            out_edges := AList.update n [] (out_edges g),
            in_edges := AList.update n [] (in_edges g)\<rparr>, n))"

definition al_add_edge ::
  "('n, 'e) adjacency_list \<Rightarrow> 'e \<Rightarrow> al_vertex \<Rightarrow> al_vertex \<Rightarrow> ('n, 'e) adjacency_list \<times> al_edge option" where
  "al_add_edge g lb from to =
     (if map_of (vertex_labels g) from \<noteq> None \<and> map_of (vertex_labels g) to \<noteq> None then
        (let e = next_edge g;
             g1 = g\<lparr>next_edge := AlEdge (al_edge_id e + 1),
                    edge_labels := AList.update e lb (edge_labels g),
                    edges := AList.update e (from, to) (edges g)\<rparr>
         in (case (map_of (in_edges g1) to, map_of (out_edges g1) from) of
               (Some ie, Some oe) \<Rightarrow>
                 (g1\<lparr>in_edges := AList.update to (ie @ [e]) (in_edges g1),
                     out_edges := AList.update from (oe @ [e]) (out_edges g1)\<rparr>, Some e)
             | _ \<Rightarrow> (g1, None)))
      else (g, None))"

definition rm_adj ::
  "(al_vertex \<times> al_edge list) list \<Rightarrow> al_vertex \<Rightarrow> al_edge \<Rightarrow> (al_vertex \<times> al_edge list) list \<times> bool" where
  "rm_adj m v e =
     (case map_of m v of
        None \<Rightarrow> (m, False)
      | Some cont \<Rightarrow>
          (case position (\<lambda>x. x = e) cont of
             None \<Rightarrow> (m, False)
           | Some i \<Rightarrow> (AList.update v (swap_remove cont i) m, cont ! i = e)))"

definition al_remove_edge ::
  "('n, 'e) adjacency_list \<Rightarrow> al_edge \<Rightarrow> (('n, 'e) adjacency_list \<times> 'e option) option" where
  "al_remove_edge g e =
     (case map_of (edge_labels g) e of
        None \<Rightarrow> Some (g, None)
      | Some ret \<Rightarrow>
          (let g1 = g\<lparr>edge_labels := AList.delete e (edge_labels g)\<rparr>
           in (case (al_source g1 e, al_target g1 e) of
                 (Some from, Some to) \<Rightarrow>
                   (let g2 = g1\<lparr>edges := AList.delete e (edges g1)\<rparr>;
                        (oe, ok1) = rm_adj (out_edges g2) from e;
                        g3 = g2\<lparr>out_edges := oe\<rparr>
                    in if ok1 then
                         (let (ie, ok2) = rm_adj (in_edges g3) to e;
                              g4 = g3\<lparr>in_edges := ie\<rparr>
                          in Some (g4, if ok2 then Some ret else None))
                       else Some (g3, None))
               | _ \<Rightarrow> None)))"

text \<open>The loops of \<^verbatim>\<open>remove_vertex\<close>: the flag tells whether all edges were removed.\<close>

fun remove_edges ::
  "('n, 'e) adjacency_list \<Rightarrow> al_edge list \<Rightarrow> (('n, 'e) adjacency_list \<times> bool) option" where
  "remove_edges g [] = Some (g, True)"
| "remove_edges g (e # es) =
     (case al_remove_edge g e of
        None \<Rightarrow> None
      | Some (g', None) \<Rightarrow> Some (g', False)
      | Some (g', Some _) \<Rightarrow> remove_edges g' es)"

definition al_remove_vertex ::
  "('n, 'e) adjacency_list \<Rightarrow> al_vertex \<Rightarrow> (('n, 'e) adjacency_list \<times> 'n option) option" where
  "al_remove_vertex g v =
     (case map_of (vertex_labels g) v of
        None \<Rightarrow> Some (g, None)
      | Some ret \<Rightarrow>
          (let g1 = g\<lparr>vertex_labels := AList.delete v (vertex_labels g)\<rparr>;
               todel1 = (case map_of (in_edges g1) v of None \<Rightarrow> [] | Some x \<Rightarrow> x);
               todel2 = (case map_of (out_edges g1) v of None \<Rightarrow> [] | Some x \<Rightarrow> x)
           in (case remove_edges g1 todel1 of
                 None \<Rightarrow> None
               | Some (g2, False) \<Rightarrow> Some (g2, None)
               | Some (g2, True) \<Rightarrow>
                   (case remove_edges g2 todel2 of
                      None \<Rightarrow> None
                    | Some (g3, False) \<Rightarrow> Some (g3, None)
                    | Some (g3, True) \<Rightarrow>
                        (if map_of (out_edges g3) v \<noteq> None then
                           (let g4 = g3\<lparr>out_edges := AList.delete v (out_edges g3)\<rparr>
                            in if map_of (in_edges g4) v \<noteq> None then
                                 Some (g4\<lparr>in_edges := AList.delete v (in_edges g4)\<rparr>, Some ret)
                               else Some (g4, None))
                         else Some (g3, None))))))"

text \<open>\<^verbatim>\<open>vertex_label_mut\<close> and \<^verbatim>\<open>edge_label_mut\<close>, used to replace a label in place.\<close>

definition al_set_vertex_label :: "('n, 'e) adjacency_list \<Rightarrow> al_vertex \<Rightarrow> ('n \<Rightarrow> 'n) \<Rightarrow> ('n, 'e) adjacency_list" where
  "al_set_vertex_label g n f = g\<lparr>vertex_labels := AList.map_entry n f (vertex_labels g)\<rparr>"

definition al_set_edge_label :: "('n, 'e) adjacency_list \<Rightarrow> al_edge \<Rightarrow> ('e \<Rightarrow> 'e) \<Rightarrow> ('n, 'e) adjacency_list" where
  "al_set_edge_label g n f = g\<lparr>edge_labels := AList.map_entry n f (edge_labels g)\<rparr>"

section \<open>Adjacency matrices\<close>

record am_edge =
  am_from :: nat
  am_to :: nat

record ('v, 'e) adjacency_matrix =
  am_edges :: "'e option list list"
  am_labels :: "'v list"

definition am_new :: "'e option list list \<Rightarrow> 'v list \<Rightarrow> ('v, 'e) adjacency_matrix option" where
  "am_new es vs = (if length es = length vs then Some \<lparr>am_edges = es, am_labels = vs\<rparr> else None)"

text \<open>\<^verbatim>\<open>self.edges[i][j]\<close>.\<close>

definition am_cell :: "('v, 'e) adjacency_matrix \<Rightarrow> nat \<Rightarrow> nat \<Rightarrow> 'e option option" where
  "am_cell m i j =
     (if i < length (am_edges m) \<and> j < length (am_edges m ! i) then Some (am_edges m ! i ! j) else None)"

definition am_edge_label :: "('v, 'e) adjacency_matrix \<Rightarrow> am_edge \<Rightarrow> 'e option option" where
  "am_edge_label m e = am_cell m (am_from e) (am_to e)"

definition am_vertex_label :: "('v, 'e) adjacency_matrix \<Rightarrow> nat \<Rightarrow> 'v option option" where
  "am_vertex_label m v = (if v < length (am_labels m) then Some (Some (am_labels m ! v)) else None)"

definition am_source :: "('v, 'e) adjacency_matrix \<Rightarrow> am_edge \<Rightarrow> nat option" where
  "am_source m e = Some (am_from e)"

definition am_target :: "('v, 'e) adjacency_matrix \<Rightarrow> am_edge \<Rightarrow> nat option" where
  "am_target m e = Some (am_to e)"

definition am_edge_between :: "('v, 'e) adjacency_matrix \<Rightarrow> nat \<Rightarrow> nat \<Rightarrow> am_edge option option" where
  "am_edge_between m from to =
     (case am_cell m from to of
        None \<Rightarrow> None
      | Some c \<Rightarrow> Some (if c \<noteq> None then Some \<lparr>am_from = from, am_to = to\<rparr> else None))"

text \<open>The iterator over the edges at the vertex \<open>nb_fix\<close>; the range \<^verbatim>\<open>var\<close> is half open.\<close>

record neighbourhood =
  nb_fix :: nat
  nb_start :: nat
  nb_end :: nat
  nb_out :: bool

function neigh_next ::
  "('v, 'e) adjacency_matrix \<Rightarrow> neighbourhood \<Rightarrow> (am_edge option \<times> neighbourhood) option" where
  "neigh_next m it =
     (let n = nb_start it; it' = it\<lparr>nb_start := Suc n\<rparr> in
      if n < nb_end it then
        (if nb_out it then
           (case am_cell m (nb_fix it) n of
              None \<Rightarrow> None
            | Some c \<Rightarrow>
                if c \<noteq> None then Some (Some \<lparr>am_from = nb_fix it, am_to = n\<rparr>, it')
                else neigh_next m it')
         else
           (case am_cell m n (nb_fix it) of
              None \<Rightarrow> None
            | Some c \<Rightarrow>
                if c \<noteq> None then Some (Some \<lparr>am_from = n, am_to = nb_fix it\<rparr>, it')
                else neigh_next m it'))
      else Some (None, it))"
  by pat_completeness auto
termination
  by (relation "measure (\<lambda>(m, it). nb_end it - nb_start it)") auto

declare neigh_next.simps [simp del]

lemma neigh_next_progress:
  "neigh_next m it = Some (Some e, it') \<Longrightarrow> nb_end it' - nb_start it' < nb_end it - nb_start it"
proof (induction m it rule: neigh_next.induct)
  case (1 m it)
  then show ?case
    by (subst (asm) (3) neigh_next.simps) (fastforce simp: Let_def split: if_splits option.splits)
qed

text \<open>A \<^verbatim>\<open>for\<close> loop over the iterator.\<close>

function neigh_collect :: "('v, 'e) adjacency_matrix \<Rightarrow> neighbourhood \<Rightarrow> am_edge list option" where
  "neigh_collect m it =
     (case neigh_next m it of
        None \<Rightarrow> None
      | Some (None, _) \<Rightarrow> Some []
      | Some (Some e, it') \<Rightarrow> map_option ((#) e) (neigh_collect m it'))"
  by pat_completeness auto
termination
  by (relation "measure (\<lambda>(m, it). nb_end it - nb_start it)") (auto dest: neigh_next_progress)

declare neigh_collect.simps [simp del]

definition am_out_degree :: "('v, 'e) adjacency_matrix \<Rightarrow> nat \<Rightarrow> nat option" where
  "am_out_degree m from =
     foldl (\<lambda>acc x. case (acc, am_cell m from x) of
               (Some n, Some c) \<Rightarrow> Some (n + (if c \<noteq> None then 1 else 0)) | _ \<Rightarrow> None)
       (Some 0) [0..<length (am_labels m)]"

definition am_out_edges_iter :: "('v, 'e) adjacency_matrix \<Rightarrow> nat \<Rightarrow> neighbourhood" where
  "am_out_edges_iter m from = \<lparr>nb_fix = from, nb_start = 0, nb_end = length (am_labels m), nb_out = True\<rparr>"

definition am_in_degree :: "('v, 'e) adjacency_matrix \<Rightarrow> nat \<Rightarrow> nat option" where
  "am_in_degree m to =
     foldl (\<lambda>acc x. case (acc, am_cell m x to) of
               (Some n, Some c) \<Rightarrow> Some (n + (if c \<noteq> None then 1 else 0)) | _ \<Rightarrow> None)
       (Some 0) [0..<length (am_labels m)]"

definition am_in_edges_iter :: "('v, 'e) adjacency_matrix \<Rightarrow> nat \<Rightarrow> neighbourhood" where
  "am_in_edges_iter m to = \<lparr>nb_fix = to, nb_start = 0, nb_end = length (am_labels m), nb_out = False\<rparr>"

definition am_degree :: "('v, 'e) adjacency_matrix \<Rightarrow> nat \<Rightarrow> nat option" where
  "am_degree m v =
     (case (am_in_degree m v, am_out_degree m v) of (Some a, Some b) \<Rightarrow> Some (a + b) | _ \<Rightarrow> None)"

definition am_out_edges :: "('v, 'e) adjacency_matrix \<Rightarrow> nat \<Rightarrow> am_edge list option" where
  "am_out_edges m v = neigh_collect m (am_out_edges_iter m v)"

definition am_in_edges :: "('v, 'e) adjacency_matrix \<Rightarrow> nat \<Rightarrow> am_edge list option" where
  "am_in_edges m v = neigh_collect m (am_in_edges_iter m v)"

definition am_adjacent_vertices :: "('v, 'e) adjacency_matrix \<Rightarrow> nat \<Rightarrow> nat list option" where
  "am_adjacent_vertices m v =
     (case (am_out_edges m v, am_in_edges m v) of
        (Some oe, Some ie) \<Rightarrow> Some (remdups_adj (sort (map am_to oe @ map am_from ie)))
      | _ \<Rightarrow> None)"

definition am_vertices :: "('v, 'e) adjacency_matrix \<Rightarrow> nat list" where
  "am_vertices m = [0..<length (am_labels m)]"

definition am_num_vertices :: "('v, 'e) adjacency_matrix \<Rightarrow> nat" where
  "am_num_vertices m = length (am_labels m)"

section \<open>The interface of a bidirectional graph\<close>

text \<open>
  What the algorithms rely on in the traits \<^verbatim>\<open>Graph\<close>, \<^verbatim>\<open>IncidenceGraph\<close>,
  \<^verbatim>\<open>BidirectionalGraph\<close> and \<^verbatim>\<open>VertexListGraph\<close>.  The successors of a vertex are the targets of
  its outgoing edges, its predecessors the sources of its incoming edges.
\<close>

definition graph_succs ::
  "('g \<Rightarrow> 'v \<Rightarrow> 'e list option) \<Rightarrow> ('g \<Rightarrow> 'e \<Rightarrow> 'v option) \<Rightarrow> 'g \<Rightarrow> 'v \<Rightarrow> 'v list option" where
  "graph_succs out tgt g v = (case out g v of None \<Rightarrow> None | Some es \<Rightarrow> those (map (tgt g) es))"

locale bidirectional_graph =
  fixes inv :: "'g \<Rightarrow> bool"
    and verts :: "'g \<Rightarrow> 'v list"
    and out_es in_es :: "'g \<Rightarrow> 'v \<Rightarrow> 'e list option"
    and src tgt :: "'g \<Rightarrow> 'e \<Rightarrow> 'v option"
  assumes verts_distinct: "inv g \<Longrightarrow> distinct (verts g)"
    and out_total: "inv g \<Longrightarrow> v \<in> set (verts g) \<Longrightarrow> \<exists>es. out_es g v = Some es \<and> distinct es"
    and in_total: "inv g \<Longrightarrow> v \<in> set (verts g) \<Longrightarrow> \<exists>es. in_es g v = Some es \<and> distinct es"
    and out_ends: "inv g \<Longrightarrow> v \<in> set (verts g) \<Longrightarrow> out_es g v = Some es \<Longrightarrow> e \<in> set es \<Longrightarrow>
          src g e = Some v \<and> (\<exists>w \<in> set (verts g). tgt g e = Some w)"
    and in_ends: "inv g \<Longrightarrow> w \<in> set (verts g) \<Longrightarrow> in_es g w = Some es \<Longrightarrow> e \<in> set es \<Longrightarrow>
          tgt g e = Some w \<and> (\<exists>v \<in> set (verts g). src g e = Some v)"
    and out_in: "inv g \<Longrightarrow> v \<in> set (verts g) \<Longrightarrow> w \<in> set (verts g) \<Longrightarrow> out_es g v = Some es \<Longrightarrow>
          in_es g w = Some es' \<Longrightarrow> e \<in> set es \<Longrightarrow> tgt g e = Some w \<Longrightarrow> e \<in> set es'"
    and in_out: "inv g \<Longrightarrow> v \<in> set (verts g) \<Longrightarrow> w \<in> set (verts g) \<Longrightarrow> out_es g v = Some es \<Longrightarrow>
          in_es g w = Some es' \<Longrightarrow> e \<in> set es' \<Longrightarrow> src g e = Some v \<Longrightarrow> e \<in> set es"
begin

lemma succs_total:
  assumes "inv g" "v \<in> set (verts g)"
  shows "\<exists>ws. graph_succs out_es tgt g v = Some ws \<and> set ws \<subseteq> set (verts g)"
proof -
  obtain es where "out_es g v = Some es" using out_total assms by blast
  then show ?thesis
    using those_map_total [of es "set (verts g)" "tgt g"] out_ends [OF assms]
    by (auto simp: graph_succs_def)
qed

lemma preds_total:
  assumes "inv g" "v \<in> set (verts g)"
  shows "\<exists>ws. graph_succs in_es src g v = Some ws \<and> set ws \<subseteq> set (verts g)"
proof -
  obtain es where "in_es g v = Some es" using in_total assms by blast
  then show ?thesis
    using those_map_total [of es "set (verts g)" "src g"] in_ends [OF assms]
    by (auto simp: graph_succs_def)
qed

lemma succs_preds:
  assumes "inv g" "v \<in> set (verts g)" "w \<in> set (verts g)"
    and "graph_succs out_es tgt g v = Some ws" "graph_succs in_es src g w = Some vs"
  shows "w \<in> set ws \<longleftrightarrow> v \<in> set vs"
proof -
  obtain es es' where es: "out_es g v = Some es" "those (map (tgt g) es) = Some ws"
      and es': "in_es g w = Some es'" "those (map (src g) es') = Some vs"
    using assms(4,5) by (auto simp: graph_succs_def split: option.splits)
  have "w \<in> set ws \<longleftrightarrow> (\<exists>e \<in> set es. tgt g e = Some w)" using es(2) by (rule those_map_set)
  also have "\<dots> \<longleftrightarrow> (\<exists>e \<in> set es'. src g e = Some v)"
    using out_in [OF assms(1-3) es(1) es'(1)] in_out [OF assms(1-3) es(1) es'(1)]
      out_ends [OF assms(1,2) es(1)] in_ends [OF assms(1,3) es'(1)] by metis
  also have "\<dots> \<longleftrightarrow> v \<in> set vs" using es'(2) by (rule those_map_set [symmetric])
  finally show ?thesis .
qed

end

section \<open>Matrices provide the interface\<close>

definition wf_am :: "('v, 'e) adjacency_matrix \<Rightarrow> bool" where
  "wf_am m \<longleftrightarrow> length (am_edges m) = length (am_labels m) \<and>
               list_all (\<lambda>row. length row = length (am_labels m)) (am_edges m)"

lemma am_cell_in_range:
  "wf_am m \<Longrightarrow> i < length (am_labels m) \<Longrightarrow> j < length (am_labels m) \<Longrightarrow>
   am_cell m i j = Some (am_edges m ! i ! j)"
  by (simp add: am_cell_def wf_am_def list_all_length)

definition neigh_edge :: "neighbourhood \<Rightarrow> nat \<Rightarrow> am_edge" where
  "neigh_edge it n = (if nb_out it then \<lparr>am_from = nb_fix it, am_to = n\<rparr> else \<lparr>am_from = n, am_to = nb_fix it\<rparr>)"

definition am_has_edge :: "('v, 'e) adjacency_matrix \<Rightarrow> am_edge \<Rightarrow> bool" where
  "am_has_edge m e \<longleftrightarrow> (\<exists>l. am_cell m (am_from e) (am_to e) = Some (Some l))"

lemma neigh_next_spec:
  assumes "wf_am m" "nb_fix it < length (am_labels m)" "nb_end it = length (am_labels m)"
  shows "\<exists>r it'. neigh_next m it = Some (r, it') \<and> nb_fix it' = nb_fix it \<and> nb_end it' = nb_end it \<and>
           nb_out it' = nb_out it \<and>
           filter (am_has_edge m) (map (neigh_edge it) [nb_start it..<nb_end it]) =
             (case r of None \<Rightarrow> []
              | Some e \<Rightarrow> e # filter (am_has_edge m) (map (neigh_edge it) [nb_start it'..<nb_end it]))"
  using assms
proof (induction "nb_end it - nb_start it" arbitrary: it rule: less_induct)
  case less
  let ?it = "it\<lparr>nb_start := Suc (nb_start it)\<rparr>"
  show ?case
  proof (cases "nb_start it < nb_end it")
    case False
    then show ?thesis by (subst neigh_next.simps) (auto simp: Let_def)
  next
    case True
    obtain c where c: "am_cell m (am_from (neigh_edge it (nb_start it))) (am_to (neigh_edge it (nb_start it))) = Some c"
      using True less.prems by (cases "nb_out it") (auto simp: neigh_edge_def am_cell_in_range)
    have next_eq: "neigh_next m it = (if c \<noteq> None then Some (Some (neigh_edge it (nb_start it)), ?it) else neigh_next m ?it)"
      using True c by (subst neigh_next.simps) (auto simp: Let_def neigh_edge_def split: if_splits)
    have edge_eq: "neigh_edge ?it = neigh_edge it" by (auto simp: neigh_edge_def)
    have up: "[nb_start it..<length (am_labels m)] = nb_start it # [Suc (nb_start it)..<length (am_labels m)]"
      using True less.prems by (simp add: upt_conv_Cons)
    show ?thesis
    proof (cases c)
      case None
      then show ?thesis
        using less.hyps [of ?it] less.prems True c by (simp add: next_eq up am_has_edge_def edge_eq cong: option.case_cong)
    next
      case (Some l)
      then show ?thesis using c less.prems by (simp add: next_eq up am_has_edge_def)
    qed
  qed
qed

lemma neigh_collect_spec:
  assumes "wf_am m" "nb_fix it < length (am_labels m)" "nb_end it = length (am_labels m)"
  shows "neigh_collect m it = Some (filter (am_has_edge m) (map (neigh_edge it) [nb_start it..<nb_end it]))"
  using assms
proof (induction m it rule: neigh_collect.induct)
  case (1 m it)
  obtain r it' where n: "neigh_next m it = Some (r, it')" "nb_fix it' = nb_fix it" "nb_end it' = nb_end it"
      "nb_out it' = nb_out it"
      and f: "filter (am_has_edge m) (map (neigh_edge it) [nb_start it..<nb_end it]) =
             (case r of None \<Rightarrow> []
              | Some e \<Rightarrow> e # filter (am_has_edge m) (map (neigh_edge it) [nb_start it'..<nb_end it]))"
    using neigh_next_spec [OF "1.prems"] by blast
  have "neigh_edge it' = neigh_edge it" using n by (auto simp: neigh_edge_def)
  then show ?case
    using "1.IH" n "1.prems" f by (subst neigh_collect.simps) (cases r; simp)
qed

lemma am_out_edges_spec:
  "wf_am m \<Longrightarrow> v < length (am_labels m) \<Longrightarrow>
   am_out_edges m v = Some (filter (am_has_edge m) (map (\<lambda>n. \<lparr>am_from = v, am_to = n\<rparr>) [0..<length (am_labels m)]))"
  by (simp add: am_out_edges_def am_out_edges_iter_def neigh_collect_spec neigh_edge_def [abs_def])

lemma am_in_edges_spec:
  "wf_am m \<Longrightarrow> v < length (am_labels m) \<Longrightarrow>
   am_in_edges m v = Some (filter (am_has_edge m) (map (\<lambda>n. \<lparr>am_from = n, am_to = v\<rparr>) [0..<length (am_labels m)]))"
  by (simp add: am_in_edges_def am_in_edges_iter_def neigh_collect_spec neigh_edge_def [abs_def])

interpretation am: bidirectional_graph wf_am am_vertices am_out_edges am_in_edges am_source am_target
  by unfold_locales
     (auto simp: am_vertices_def am_out_edges_spec am_in_edges_spec am_source_def am_target_def
        distinct_map inj_on_def)

section \<open>Consistency of an adjacency list\<close>

text \<open>The part that does not mention vertex labels, which \<^verbatim>\<open>remove_vertex\<close> deletes first.\<close>

definition wf_core :: "('n, 'e) adjacency_list \<Rightarrow> bool" where
  "wf_core g \<longleftrightarrow>
     distinct (map fst (edge_labels g)) \<and> distinct (map fst (out_edges g)) \<and>
     distinct (map fst (in_edges g)) \<and> distinct (map fst (edges g)) \<and>
     dom (map_of (in_edges g)) = dom (map_of (out_edges g)) \<and>
     dom (map_of (edges g)) = dom (map_of (edge_labels g)) \<and>
     (\<forall>e a b. map_of (edges g) e = Some (a, b) \<longrightarrow>
        a \<in> dom (map_of (out_edges g)) \<and> b \<in> dom (map_of (out_edges g)) \<and>
        al_edge_id e < al_edge_id (next_edge g)) \<and>
     (\<forall>v es. map_of (out_edges g) v = Some es \<longrightarrow>
        distinct es \<and> set es = {e. \<exists>b. map_of (edges g) e = Some (v, b)}) \<and>
     (\<forall>v es. map_of (in_edges g) v = Some es \<longrightarrow>
        distinct es \<and> set es = {e. \<exists>a. map_of (edges g) e = Some (a, v)})"

definition wf_al :: "('n, 'e) adjacency_list \<Rightarrow> bool" where
  "wf_al g \<longleftrightarrow> wf_core g \<and> distinct (map fst (vertex_labels g)) \<and>
     dom (map_of (vertex_labels g)) = dom (map_of (out_edges g)) \<and>
     (\<forall>v \<in> dom (map_of (vertex_labels g)). al_vertex_id v < al_vertex_id (next_vertex g))"

lemma wf_core_D:
  assumes "wf_core g"
  shows "map_of (edges g) e = Some (a, b) \<Longrightarrow> \<exists>es. map_of (out_edges g) a = Some es \<and> distinct es \<and> e \<in> set es"
    and "map_of (edges g) e = Some (a, b) \<Longrightarrow> \<exists>es. map_of (in_edges g) b = Some es \<and> distinct es \<and> e \<in> set es"
    and "map_of (edges g) e = None \<longleftrightarrow> map_of (edge_labels g) e = None"
  using assms unfolding wf_core_def by (blast, blast, blast)

lemma wf_core_out:
  "wf_core g \<Longrightarrow> map_of (out_edges g) v = Some es \<Longrightarrow>
   distinct es \<and> set es = {e. \<exists>b. map_of (edges g) e = Some (v, b)}"
  unfolding wf_core_def by blast

lemma wf_core_in:
  "wf_core g \<Longrightarrow> map_of (in_edges g) v = Some es \<Longrightarrow>
   distinct es \<and> set es = {e. \<exists>a. map_of (edges g) e = Some (a, v)}"
  unfolding wf_core_def by blast

lemma rm_adj_spec:
  assumes "map_of m v = Some es" "distinct es" "e \<in> set es"
  shows "\<exists>es'. rm_adj m v e = (AList.update v es' m, True) \<and> distinct es' \<and> set es' = set es - {e}"
proof -
  obtain i where i: "position (\<lambda>x. x = e) es = Some i"
    using assms(3) position_None_iff [of "\<lambda>x. x = e" es] by (cases "position (\<lambda>x. x = e) es") auto
  then have "i < length es" "es ! i = e" using position_SomeD by fastforce+
  then show ?thesis
    using assms i swap_remove_distinct [of es i] by (auto simp: rm_adj_def)
qed

lemma al_remove_edge_spec:
  assumes "wf_core g" "map_of (edges g) e = Some (a, b)"
  shows "\<exists>g' l. al_remove_edge g e = Some (g', Some l) \<and> map_of (edge_labels g) e = Some l \<and> wf_core g' \<and>
           map_of (edge_labels g') = (map_of (edge_labels g))(e := None) \<and>
           map_of (edges g') = (map_of (edges g))(e := None) \<and>
           vertex_labels g' = vertex_labels g \<and> next_vertex g' = next_vertex g \<and>
           dom (map_of (out_edges g')) = dom (map_of (out_edges g))"
proof -
  obtain l where l: "map_of (edge_labels g) e = Some l" using wf_core_D(3) [OF assms(1), of e] assms(2) by auto
  obtain os where os: "rm_adj (out_edges g) a e = (AList.update a os (out_edges g), True)" "distinct os"
      "\<exists>es. map_of (out_edges g) a = Some es \<and> set os = set es - {e}"
    using wf_core_D(1) [OF assms] rm_adj_spec [of "out_edges g" a] by blast
  obtain ins where ins: "rm_adj (in_edges g) b e = (AList.update b ins (in_edges g), True)" "distinct ins"
      "\<exists>es. map_of (in_edges g) b = Some es \<and> set ins = set es - {e}"
    using wf_core_D(2) [OF assms] rm_adj_spec [of "in_edges g" b] by blast
  define g' where "g' = g\<lparr>edge_labels := AList.delete e (edge_labels g), edges := AList.delete e (edges g),
      out_edges := AList.update a os (out_edges g), in_edges := AList.update b ins (in_edges g)\<rparr>"
  have "al_remove_edge g e = Some (g', Some l)"
    using assms(2) l os(1) ins(1) by (simp add: al_remove_edge_def al_source_def al_target_def g'_def)
  moreover have "wf_core g'"
    unfolding wf_core_def
  proof (intro conjI allI impI)
    show "dom (map_of (in_edges g')) = dom (map_of (out_edges g'))"
      using assms(1) os(3) ins(3) by (auto simp: g'_def update_conv' wf_core_def)
    show "dom (map_of (edges g')) = dom (map_of (edge_labels g'))"
      using assms(1) by (simp add: g'_def delete_conv' wf_core_def)
  next
    fix x c d
    assume "map_of (edges g') x = Some (c, d)"
    then have "map_of (edges g) x = Some (c, d)" by (auto simp: g'_def delete_conv' split: if_splits)
    then show "c \<in> dom (map_of (out_edges g'))" "d \<in> dom (map_of (out_edges g'))"
        "al_edge_id x < al_edge_id (next_edge g')"
      using assms(1) by (fastforce simp: g'_def update_conv' wf_core_def)+
  next
    fix v es
    assume "map_of (out_edges g') v = Some es"
    then show "distinct es" "set es = {e. \<exists>b. map_of (edges g') e = Some (v, b)}"
      using assms(2) os(2,3) wf_core_out [OF assms(1), of v]
      by (auto simp: g'_def update_conv' delete_conv' split: if_splits)
  next
    fix v es
    assume "map_of (in_edges g') v = Some es"
    then show "distinct es" "set es = {e. \<exists>a. map_of (edges g') e = Some (a, v)}"
      using assms(2) ins(2,3) wf_core_in [OF assms(1), of v]
      by (auto simp: g'_def update_conv' delete_conv' split: if_splits)
  qed (use assms(1) in \<open>auto simp: g'_def wf_core_def distinct_update distinct_delete\<close>)
  moreover have "dom (map_of (out_edges g')) = dom (map_of (out_edges g))"
    using os(3) by (auto simp: g'_def update_conv' split: if_splits)
  ultimately show ?thesis using l by (simp add: g'_def delete_conv' update_conv')
qed

lemma restrict_del_set: "m(k := None) |` (- A) = m |` (- insert k A)"
  by (auto simp: restrict_map_def)

lemma remove_edges_spec:
  assumes "wf_core g" "distinct es" "\<forall>e \<in> set es. map_of (edges g) e \<noteq> None"
  shows "\<exists>g'. remove_edges g es = Some (g', True) \<and> wf_core g' \<and>
           map_of (edge_labels g') = map_of (edge_labels g) |` (- set es) \<and>
           map_of (edges g') = map_of (edges g) |` (- set es) \<and>
           vertex_labels g' = vertex_labels g \<and> next_vertex g' = next_vertex g \<and>
           dom (map_of (out_edges g')) = dom (map_of (out_edges g))"
  using assms
proof (induction es arbitrary: g)
  case Nil
  then show ?case by simp
next
  case (Cons e es)
  then obtain a b where "map_of (edges g) e = Some (a, b)" by auto
  then obtain g1 l where g1: "al_remove_edge g e = Some (g1, Some l)" "wf_core g1"
      "map_of (edge_labels g1) = (map_of (edge_labels g))(e := None)"
      "map_of (edges g1) = (map_of (edges g))(e := None)"
      "vertex_labels g1 = vertex_labels g" "next_vertex g1 = next_vertex g"
      "dom (map_of (out_edges g1)) = dom (map_of (out_edges g))"
    using al_remove_edge_spec [OF Cons.prems(1)] by blast
  have "\<forall>x \<in> set es. map_of (edges g1) x \<noteq> None" using Cons.prems g1(4) by auto
  then obtain g' where "remove_edges g1 es = Some (g', True)" "wf_core g'"
      "map_of (edge_labels g') = map_of (edge_labels g1) |` (- set es)"
      "map_of (edges g') = map_of (edges g1) |` (- set es)"
      "vertex_labels g' = vertex_labels g1" "next_vertex g' = next_vertex g1"
      "dom (map_of (out_edges g')) = dom (map_of (out_edges g1))"
    using Cons.IH [OF g1(2)] Cons.prems by auto
  then show ?case using g1 by (simp add: restrict_del_set del: restrict_fun_upd)
qed

section \<open>The abstract graph\<close>

record ('n, 'e) abs_graph =
  ag_verts :: "al_vertex \<rightharpoonup> 'n"
  ag_edges :: "al_edge \<rightharpoonup> 'e \<times> al_vertex \<times> al_vertex"

definition abs_al :: "('n, 'e) adjacency_list \<Rightarrow> ('n, 'e) abs_graph" where
  "abs_al g = \<lparr>ag_verts = map_of (vertex_labels g),
               ag_edges = (\<lambda>e. case (map_of (edge_labels g) e, map_of (edges g) e) of
                                 (Some l, Some ab) \<Rightarrow> Some (l, ab) | _ \<Rightarrow> None)\<rparr>"

definition ag_incident :: "('n, 'e) abs_graph \<Rightarrow> al_vertex \<Rightarrow> al_edge set" where
  "ag_incident h v = {e. \<exists>l a b. ag_edges h e = Some (l, a, b) \<and> (a = v \<or> b = v)}"

definition ag_self_loop :: "('n, 'e) abs_graph \<Rightarrow> al_vertex \<Rightarrow> bool" where
  "ag_self_loop h v \<longleftrightarrow> (\<exists>e l. ag_edges h e = Some (l, v, v))"

lemma ag_edges_abs:
  assumes "wf_core g"
  shows "ag_edges (abs_al g) e = Some (l, a, b) \<longleftrightarrow>
           map_of (edges g) e = Some (a, b) \<and> map_of (edge_labels g) e = Some l"
    and "ag_edges (abs_al g) e = None \<longleftrightarrow> map_of (edges g) e = None"
    and "map_of (edges g) e = Some (a, b) \<Longrightarrow> \<exists>l. ag_edges (abs_al g) e = Some (l, a, b)"
  using wf_core_D(3) [OF assms, of e] by (auto simp: abs_al_def split: option.splits)

lemma abs_al_new [simp]:
  "wf_al al_new" "abs_al al_new = \<lparr>ag_verts = Map.empty, ag_edges = Map.empty\<rparr>"
  by (simp_all add: wf_al_def wf_core_def al_new_def abs_al_def)

lemma abs_add_vertex:
  assumes "wf_al g" "al_add_vertex g lb = (g', n)"
  shows "wf_al g' \<and> ag_verts (abs_al g) n = None \<and>
         abs_al g' = (abs_al g)\<lparr>ag_verts := (ag_verts (abs_al g))(n \<mapsto> lb)\<rparr>"
proof -
  have g': "g' = g\<lparr>next_vertex := AlVertex (al_vertex_id n + 1), vertex_labels := AList.update n lb (vertex_labels g),
        out_edges := AList.update n [] (out_edges g), in_edges := AList.update n [] (in_edges g)\<rparr>"
    and n: "n = next_vertex g"
    using assms(2) by (auto simp: al_add_vertex_def Let_def)
  have fresh: "map_of (vertex_labels g) n = None" "map_of (out_edges g) n = None" "map_of (in_edges g) n = None"
    using assms(1) unfolding wf_al_def wf_core_def n by (metis domIff less_irrefl)+
  have "map_of (edges g) e \<noteq> Some (n, b)" "map_of (edges g) e \<noteq> Some (a, n)" for e a b
    using assms(1) fresh(2) unfolding wf_al_def wf_core_def by (metis domIff)+
  then have "wf_core g'"
    using assms(1) unfolding wf_al_def wf_core_def by (auto simp: g' update_conv' distinct_update)
  moreover have "abs_al g' = (abs_al g)\<lparr>ag_verts := (ag_verts (abs_al g))(n \<mapsto> lb)\<rparr>"
    by (simp add: abs_al_def g' update_conv')
  ultimately show ?thesis
    using assms(1) fresh unfolding wf_al_def by (auto simp: g' n update_conv' distinct_update abs_al_def less_Suc_eq)
qed

lemma wf_core_add_edge:
  assumes "wf_core g" "map_of (out_edges g) from = Some oe" "map_of (in_edges g) to = Some ie"
    and "g' = g\<lparr>next_edge := AlEdge (Suc (al_edge_id (next_edge g))),
           edge_labels := AList.update (next_edge g) lb (edge_labels g),
           edges := AList.update (next_edge g) (from, to) (edges g),
           in_edges := AList.update to (ie @ [next_edge g]) (in_edges g),
           out_edges := AList.update from (oe @ [next_edge g]) (out_edges g)\<rparr>"
  shows "wf_core g' \<and> map_of (edges g) (next_edge g) = None \<and>
         dom (map_of (out_edges g')) = dom (map_of (out_edges g))"
proof -
  let ?e = "next_edge g"
  have fresh: "map_of (edges g) ?e = None"
    using assms(1) unfolding wf_core_def by (metis less_irrefl not_None_eq surj_pair)
  have doms: "dom (map_of (out_edges g')) = dom (map_of (out_edges g))"
      "dom (map_of (in_edges g')) = dom (map_of (out_edges g))"
    using assms unfolding wf_core_def by (auto simp: update_conv')
  have "wf_core g'"
    unfolding wf_core_def
  proof (intro conjI allI impI)
    show "dom (map_of (edges g')) = dom (map_of (edge_labels g'))"
      using assms(1,4) by (simp add: update_conv' wf_core_def)
  next
    fix x c d
    assume "map_of (edges g') x = Some (c, d)"
    then have "x = ?e \<and> c = from \<and> d = to \<or> map_of (edges g) x = Some (c, d)"
      by (auto simp: assms(4) update_conv' split: if_splits)
    then show "c \<in> dom (map_of (out_edges g'))" "d \<in> dom (map_of (out_edges g'))"
        "al_edge_id x < al_edge_id (next_edge g')"
      using assms unfolding doms wf_core_def by (fastforce simp: assms(4))+
  next
    fix v es
    assume "map_of (out_edges g') v = Some es"
    then show "distinct es" "set es = {e. \<exists>b. map_of (edges g') e = Some (v, b)}"
      using assms(2,4) fresh wf_core_out [OF assms(1), of v] by (auto simp: update_conv' split: if_splits)
  next
    fix v es
    assume "map_of (in_edges g') v = Some es"
    then show "distinct es" "set es = {e. \<exists>a. map_of (edges g') e = Some (a, v)}"
      using assms(3,4) fresh wf_core_in [OF assms(1), of v] by (auto simp: update_conv' split: if_splits)
  qed (use assms(1) doms in \<open>auto simp: assms(4) wf_core_def distinct_update\<close>)
  then show ?thesis using fresh doms by simp
qed

lemma wf_al_adj:
  assumes "wf_al g"
  shows "map_of (out_edges g) v = None \<longleftrightarrow> map_of (vertex_labels g) v = None"
    and "map_of (in_edges g) v = None \<longleftrightarrow> map_of (vertex_labels g) v = None"
    and "map_of (vertex_labels g) v \<noteq> None \<Longrightarrow> \<exists>es. map_of (out_edges g) v = Some es"
    and "map_of (vertex_labels g) v \<noteq> None \<Longrightarrow> \<exists>es. map_of (in_edges g) v = Some es"
proof -
  have d: "dom (map_of (out_edges g)) = dom (map_of (vertex_labels g))"
      "dom (map_of (in_edges g)) = dom (map_of (vertex_labels g))"
    using assms by (auto simp: wf_al_def wf_core_def)
  show "map_of (out_edges g) v = None \<longleftrightarrow> map_of (vertex_labels g) v = None"
    using d(1) by (metis domIff)
  then show "map_of (vertex_labels g) v \<noteq> None \<Longrightarrow> \<exists>es. map_of (out_edges g) v = Some es" by auto
  show "map_of (in_edges g) v = None \<longleftrightarrow> map_of (vertex_labels g) v = None"
    using d(2) by (metis domIff)
  then show "map_of (vertex_labels g) v \<noteq> None \<Longrightarrow> \<exists>es. map_of (in_edges g) v = Some es" by auto
qed

lemma abs_add_edge:
  assumes "wf_al g" "al_add_edge g lb from to = (g', r)"
  shows "if ag_verts (abs_al g) from \<noteq> None \<and> ag_verts (abs_al g) to \<noteq> None
         then \<exists>e. r = Some e \<and> wf_al g' \<and> ag_edges (abs_al g) e = None \<and>
                abs_al g' = (abs_al g)\<lparr>ag_edges := (ag_edges (abs_al g))(e \<mapsto> (lb, from, to))\<rparr>
         else r = None \<and> g' = g"
proof (cases "map_of (vertex_labels g) from \<noteq> None \<and> map_of (vertex_labels g) to \<noteq> None")
  case False
  then show ?thesis using assms(2) by (auto simp: al_add_edge_def abs_al_def)
next
  case True
  then obtain oe ie where adj: "map_of (out_edges g) from = Some oe" "map_of (in_edges g) to = Some ie"
    using wf_al_adj [OF assms(1)] by blast
  have core: "wf_core g" using assms(1) by (simp add: wf_al_def)
  have g': "g' = g\<lparr>next_edge := AlEdge (Suc (al_edge_id (next_edge g))),
           edge_labels := AList.update (next_edge g) lb (edge_labels g),
           edges := AList.update (next_edge g) (from, to) (edges g),
           in_edges := AList.update to (ie @ [next_edge g]) (in_edges g),
           out_edges := AList.update from (oe @ [next_edge g]) (out_edges g)\<rparr>"
    and r: "r = Some (next_edge g)"
    using assms(2) True adj by (auto simp: al_add_edge_def Let_def)
  note wf = wf_core_add_edge [OF core adj g']
  then have "wf_al g'" using assms(1) by (simp add: wf_al_def) (simp add: g')
  moreover have "abs_al g' = (abs_al g)\<lparr>ag_edges := (ag_edges (abs_al g))(next_edge g \<mapsto> (lb, from, to))\<rparr>"
    by (simp add: abs_al_def g' update_conv' fun_eq_iff)
  ultimately show ?thesis
    using True wf ag_edges_abs(2) [OF core] by (simp add: r) (simp add: abs_al_def)
qed

lemma abs_remove_edge:
  assumes "wf_al g"
  shows "\<exists>g' r. al_remove_edge g e = Some (g', r) \<and> wf_al g' \<and>
           r = map_option fst (ag_edges (abs_al g) e) \<and>
           abs_al g' = (abs_al g)\<lparr>ag_edges := (ag_edges (abs_al g))(e := None)\<rparr>"
proof -
  have core: "wf_core g" using assms by (simp add: wf_al_def)
  show ?thesis
  proof (cases "map_of (edges g) e")
    case None
    then have "map_of (edge_labels g) e = None" using wf_core_D(3) [OF core] by simp
    then show ?thesis
      using assms by (auto simp: al_remove_edge_def abs_al_def)
  next
    case (Some ab)
    then obtain g' l where "al_remove_edge g e = Some (g', Some l)" "map_of (edge_labels g) e = Some l" "wf_core g'"
        "map_of (edge_labels g') = (map_of (edge_labels g))(e := None)"
        "map_of (edges g') = (map_of (edges g))(e := None)"
        "vertex_labels g' = vertex_labels g" "next_vertex g' = next_vertex g"
        "dom (map_of (out_edges g')) = dom (map_of (out_edges g))"
      using al_remove_edge_spec [OF core] by (metis surj_pair)
    then show ?thesis
      using assms Some by (auto simp: abs_al_def wf_al_def fun_eq_iff split: option.splits)
  qed
qed

lemma wf_core_vertex_labels: "wf_core (g\<lparr>vertex_labels := x\<rparr>) = wf_core g"
  by (simp add: wf_core_def)

lemma wf_core_delete_vertex:
  assumes "wf_core g" "\<forall>e a b. map_of (edges g) e = Some (a, b) \<longrightarrow> a \<noteq> v \<and> b \<noteq> v"
  shows "wf_core (g\<lparr>out_edges := AList.delete v (out_edges g), in_edges := AList.delete v (in_edges g)\<rparr>)"
    (is "wf_core ?g")
  unfolding wf_core_def
proof (intro conjI allI impI)
  fix x c d
  assume "map_of (edges ?g) x = Some (c, d)"
  then show "c \<in> dom (map_of (out_edges ?g))" "d \<in> dom (map_of (out_edges ?g))"
      "al_edge_id x < al_edge_id (next_edge ?g)"
    using assms(2) wf_core_D(1,2) [OF assms(1)] assms(1)
    by (auto simp: delete_conv' wf_core_def)
next
  fix u es
  assume "map_of (out_edges ?g) u = Some es"
  then show "distinct es" "set es = {e. \<exists>b. map_of (edges ?g) e = Some (u, b)}"
    using wf_core_out [OF assms(1), of u] by (auto simp: delete_conv' split: if_splits)
next
  fix u es
  assume "map_of (in_edges ?g) u = Some es"
  then show "distinct es" "set es = {e. \<exists>b. map_of (edges ?g) e = Some (b, u)}"
    using wf_core_in [OF assms(1), of u] by (auto simp: delete_conv' split: if_splits)
qed (use assms(1) in \<open>auto simp: wf_core_def distinct_delete delete_conv'\<close>)

lemma abs_remove_vertex:
  assumes "wf_al g" "ag_verts (abs_al g) v = Some lb" "\<not> ag_self_loop (abs_al g) v"
  shows "\<exists>g'. al_remove_vertex g v = Some (g', Some lb) \<and> wf_al g' \<and>
           abs_al g' = \<lparr>ag_verts = (ag_verts (abs_al g))(v := None),
                        ag_edges = ag_edges (abs_al g) |` (- ag_incident (abs_al g) v)\<rparr>"
proof -
  have core: "wf_core g" using assms(1) by (simp add: wf_al_def)
  have lb: "map_of (vertex_labels g) v = Some lb" using assms(2) by (simp add: abs_al_def)
  obtain oes ies where es: "map_of (out_edges g) v = Some oes" "map_of (in_edges g) v = Some ies"
    using wf_al_adj(3,4) [OF assms(1), of v] lb by auto
  note oes = wf_core_out [OF core es(1)] and ies = wf_core_in [OF core es(2)]
  have disj: "set oes \<inter> set ies = {}"
    using assms(3) oes ies ag_edges_abs(3) [OF core] by (fastforce simp: ag_self_loop_def)
  define g1 where "g1 = g\<lparr>vertex_labels := AList.delete v (vertex_labels g)\<rparr>"
  have core1: "wf_core g1" using core by (simp add: g1_def wf_core_vertex_labels)
  obtain g2 where g2: "remove_edges g1 ies = Some (g2, True)" "wf_core g2"
      "map_of (edge_labels g2) = map_of (edge_labels g) |` (- set ies)"
      "map_of (edges g2) = map_of (edges g) |` (- set ies)"
      "vertex_labels g2 = vertex_labels g1" "next_vertex g2 = next_vertex g"
      "dom (map_of (out_edges g2)) = dom (map_of (out_edges g))"
    using remove_edges_spec [OF core1, of ies] ies by (auto simp: g1_def)
  have "\<forall>e \<in> set oes. map_of (edges g2) e \<noteq> None"
    using oes disj by (auto simp: g2(4) restrict_map_def)
  then obtain g3 where g3: "remove_edges g2 oes = Some (g3, True)" "wf_core g3"
      "map_of (edge_labels g3) = map_of (edge_labels g) |` (- (set ies \<union> set oes))"
      "map_of (edges g3) = map_of (edges g) |` (- (set ies \<union> set oes))"
      "vertex_labels g3 = vertex_labels g1" "next_vertex g3 = next_vertex g"
      "dom (map_of (out_edges g3)) = dom (map_of (out_edges g))"
    using remove_edges_spec [OF g2(2), of oes] oes by (auto simp: g2)
  define g' where "g' = g3\<lparr>out_edges := AList.delete v (out_edges g3), in_edges := AList.delete v (in_edges g3)\<rparr>"
  have vin: "map_of (out_edges g3) v \<noteq> None" "map_of (in_edges g3) v \<noteq> None"
    using g3(2,7) es(1) unfolding wf_core_def by (metis domIff option.distinct(1))+
  have "al_remove_vertex g v = Some (g', Some lb)"
    using lb es g2(1) g3(1) vin by (simp add: al_remove_vertex_def g1_def [symmetric] g'_def Let_def) (simp add: g1_def)
  moreover have "wf_core g'"
    unfolding g'_def by (rule wf_core_delete_vertex) (use g3 oes ies in \<open>auto simp: restrict_map_def split: if_splits\<close>)
  then have "wf_al g'"
    using assms(1) g3(5,6,7) by (auto simp: wf_al_def g'_def g1_def distinct_delete delete_conv')
  moreover have "set ies \<union> set oes = ag_incident (abs_al g) v"
    using oes ies by (auto simp: ag_incident_def ag_edges_abs(1) [OF core] dest: ag_edges_abs(3) [OF core])
  then have "abs_al g' = \<lparr>ag_verts = (ag_verts (abs_al g))(v := None),
                        ag_edges = ag_edges (abs_al g) |` (- ag_incident (abs_al g) v)\<rparr>"
    using g3(3,4,5) by (auto simp: abs_al_def g'_def g1_def delete_conv' restrict_map_def fun_eq_iff)
  ultimately show ?thesis by blast
qed

section \<open>Adjacency lists provide the interface\<close>

lemma al_vertices_iff: "v \<in> set (al_vertices g) \<longleftrightarrow> map_of (vertex_labels g) v \<noteq> None"
  by (simp add: al_vertices_def map_of_eq_None_iff)

lemma wf_core_edge_ends:
  "wf_al g \<Longrightarrow> map_of (edges g) e = Some (a, b) \<Longrightarrow> a \<in> set (al_vertices g) \<and> b \<in> set (al_vertices g)"
  unfolding wf_al_def wf_core_def al_vertices_iff by (metis domIff)

interpretation al: bidirectional_graph wf_al al_vertices al_out_edges al_in_edges al_source al_target
proof unfold_locales
  fix g :: "('a, 'b) adjacency_list" and v
  assume g: "wf_al g" and v: "v \<in> set (al_vertices g)"
  then have core: "wf_core g" by (simp add: wf_al_def)
  show "\<exists>es. al_out_edges g v = Some es \<and> distinct es"
    using wf_al_adj(3) [OF g, of v] v wf_core_out [OF core, of v] by (auto simp: al_vertices_iff al_out_edges_def)
  show "\<exists>es. al_in_edges g v = Some es \<and> distinct es"
    using wf_al_adj(4) [OF g, of v] v wf_core_in [OF core, of v] by (auto simp: al_vertices_iff al_in_edges_def)
  fix es e
  show "al_source g e = Some v \<and> (\<exists>w \<in> set (al_vertices g). al_target g e = Some w)"
    if "al_out_edges g v = Some es" "e \<in> set es"
    using that wf_core_out [OF core, of v es] wf_core_edge_ends [OF g, of e]
    by (auto simp: al_out_edges_def al_source_def al_target_def)
  show "al_target g e = Some v \<and> (\<exists>w \<in> set (al_vertices g). al_source g e = Some w)"
    if "al_in_edges g v = Some es" "e \<in> set es"
    using that wf_core_in [OF core, of v es] wf_core_edge_ends [OF g, of e]
    by (auto simp: al_in_edges_def al_source_def al_target_def)
  fix w es'
  assume w: "w \<in> set (al_vertices g)" "al_out_edges g v = Some es" "al_in_edges g w = Some es'"
  then have "set es = {e. \<exists>b. map_of (edges g) e = Some (v, b)}" "set es' = {e. \<exists>a. map_of (edges g) e = Some (a, w)}"
    using wf_core_out [OF core, of v es] wf_core_in [OF core, of w es'] by (auto simp: al_out_edges_def al_in_edges_def)
  then show "e \<in> set es \<Longrightarrow> al_target g e = Some w \<Longrightarrow> e \<in> set es'"
      "e \<in> set es' \<Longrightarrow> al_source g e = Some v \<Longrightarrow> e \<in> set es"
    by (auto simp: al_target_def al_source_def)
qed (simp add: wf_al_def al_vertices_def)

lemma remove_edges_stuck:
  assumes "wf_core g" "distinct es" "e \<in> set es" "map_of (edges g) e = None"
  shows "\<exists>g'. remove_edges g es = Some (g', False) \<and> vertex_labels g' = vertex_labels g \<and>
           dom (map_of (out_edges g')) = dom (map_of (out_edges g))"
  using assms
proof (induction es arbitrary: g)
  case (Cons x es)
  show ?case
  proof (cases "map_of (edges g) x")
    case None
    then have "map_of (edge_labels g) x = None" using wf_core_D(3) [OF Cons.prems(1)] by simp
    then show ?thesis by (simp add: al_remove_edge_def)
  next
    case (Some ab)
    then obtain g1 l where g1: "al_remove_edge g x = Some (g1, Some l)" "wf_core g1"
        "map_of (edges g1) = (map_of (edges g))(x := None)" "vertex_labels g1 = vertex_labels g"
        "dom (map_of (out_edges g1)) = dom (map_of (out_edges g))"
      using al_remove_edge_spec [OF Cons.prems(1)] by (metis surj_pair)
    moreover have "e \<in> set es" using Cons.prems Some by auto
    ultimately show ?thesis using Cons.IH [of g1] Cons.prems by auto
  qed
qed simp

lemma remove_vertex_self_loop:
  assumes "wf_al g" "ag_self_loop (abs_al g) v"
  shows "\<exists>g'. al_remove_vertex g v = Some (g', None) \<and> map_of (vertex_labels g') v = None \<and>
           map_of (out_edges g') v \<noteq> None"
proof -
  have core: "wf_core g" using assms(1) by (simp add: wf_al_def)
  obtain e where e: "map_of (edges g) e = Some (v, v)"
    using assms(2) ag_edges_abs(1) [OF core] by (auto simp: ag_self_loop_def)
  then have "map_of (vertex_labels g) v \<noteq> None" using wf_core_edge_ends [OF assms(1)] by (simp add: al_vertices_iff)
  then obtain lb oes ies where lb: "map_of (vertex_labels g) v = Some lb"
      and es: "map_of (out_edges g) v = Some oes" "map_of (in_edges g) v = Some ies"
    using wf_al_adj(3,4) [OF assms(1), of v] by blast
  note oes = wf_core_out [OF core es(1)] and ies = wf_core_in [OF core es(2)]
  define g1 where "g1 = g\<lparr>vertex_labels := AList.delete v (vertex_labels g)\<rparr>"
  have core1: "wf_core g1" using core by (simp add: g1_def wf_core_vertex_labels)
  obtain g2 where g2: "remove_edges g1 ies = Some (g2, True)" "wf_core g2"
      "map_of (edges g2) = map_of (edges g) |` (- set ies)" "vertex_labels g2 = vertex_labels g1"
      "dom (map_of (out_edges g2)) = dom (map_of (out_edges g))"
    using remove_edges_spec [OF core1, of ies] ies by (auto simp: g1_def)
  obtain g3 where g3: "remove_edges g2 oes = Some (g3, False)" "vertex_labels g3 = vertex_labels g1"
      "dom (map_of (out_edges g3)) = dom (map_of (out_edges g))"
    using remove_edges_stuck [OF g2(2), of oes e] oes ies e g2 by (auto simp: restrict_map_def)
  have "al_remove_vertex g v = Some (g3, None)"
    using lb es g2(1) g3(1) by (simp add: al_remove_vertex_def g1_def [symmetric] Let_def) (simp add: g1_def)
  moreover have "map_of (out_edges g3) v \<noteq> None" using g3(3) es(1) by (metis domIff option.distinct(1))
  ultimately show ?thesis using g3(2) by (simp add: g1_def delete_conv')
qed

lemma distinct_remdups_adj_sorted: "sorted xs \<Longrightarrow> distinct (remdups_adj xs)"
proof (induction xs rule: remdups_adj.induct)
  case (3 x y xs)
  then show ?case using order.antisym by (auto simp: eq_commute)
qed simp_all

lemma find_target_spec:
  assumes "\<forall>e \<in> set es. \<exists>t. al_target g e = Some t"
  shows "\<exists>r. find_target g to es = Some r \<and>
           (case r of None \<Rightarrow> \<forall>e \<in> set es. al_target g e \<noteq> Some to
            | Some e \<Rightarrow> e \<in> set es \<and> al_target g e = Some to)"
  using assms by (induction es) (auto split: option.splits)

lemma am_degree_fold:
  assumes "\<forall>x \<in> set xs. f x \<noteq> None"
  shows "foldl (\<lambda>acc x. case (acc, f x) of
               (Some n, Some c) \<Rightarrow> Some (n + (if c \<noteq> None then 1 else 0)) | _ \<Rightarrow> None) (Some k) xs =
         Some (k + length (filter (\<lambda>x. \<exists>l. f x = Some (Some l)) xs))"
  using assms by (induction xs arbitrary: k) (auto split: option.splits)

lemma al_singleton:
  fixes lb :: 'n
  defines "g \<equiv> fst (al_add_vertex al_new lb) :: ('n, 'e) adjacency_list"
  shows "wf_al g \<and> abs_al g = \<lparr>ag_verts = [AlVertex 0 \<mapsto> lb], ag_edges = Map.empty\<rparr>"
proof -
  have "al_add_vertex al_new lb = (g, AlVertex 0)"
    by (simp add: g_def al_add_vertex_def al_new_def Let_def)
  then show ?thesis using abs_add_vertex [OF abs_al_new(1), of lb g "AlVertex 0"] by simp
qed

section \<open>Properties\<close>

text \<open>
  Removing a vertex that has a self-loop fails half-way: the loop over the outgoing
  edges meets the edge that the loop over the incoming edges has deleted, so
  \<^verbatim>\<open>remove_vertex\<close> returns \<^verbatim>\<open>None\<close> although the vertex existed and its label is gone, and its
  adjacency lists stay behind, which leaves the container inconsistent.
\<close>

theorem al_remove_vertex_self_loop:
  assumes "wf_al g" "ag_self_loop (abs_al g) v"
  shows "\<exists>g'. al_remove_vertex g v = Some (g', None) \<and> ag_verts (abs_al g) v \<noteq> None \<and>
           ag_verts (abs_al g') v = None \<and> \<not> wf_al g'"
proof -
  have core: "wf_core g" using assms(1) by (simp add: wf_al_def)
  obtain e where "map_of (edges g) e = Some (v, v)"
    using assms(2) ag_edges_abs(1) [OF core] by (auto simp: ag_self_loop_def)
  then have "ag_verts (abs_al g) v \<noteq> None"
    using wf_core_edge_ends [OF assms(1)] by (simp add: al_vertices_iff abs_al_def)
  moreover obtain g' where "al_remove_vertex g v = Some (g', None)" "map_of (vertex_labels g') v = None"
      "map_of (out_edges g') v \<noteq> None"
    using remove_vertex_self_loop [OF assms] by blast
  moreover from this have "\<not> wf_al g'" using wf_al_adj(1) [of g' v] by metis
  ultimately show ?thesis by (auto simp: abs_al_def)
qed

theorem al_remove_vertex_self_loop_witness:
  "\<exists>g' :: (nat, nat) adjacency_list.
     al_remove_vertex (fst (al_add_edge (fst (al_add_vertex al_new 7)) 1 (AlVertex 0) (AlVertex 0))) (AlVertex 0)
       = Some (g', None) \<and> \<not> wf_al g'"
proof -
  let ?g = "fst (al_add_vertex al_new 7) :: (nat, nat) adjacency_list"
  have g: "wf_al ?g" "abs_al ?g = \<lparr>ag_verts = [AlVertex 0 \<mapsto> 7], ag_edges = Map.empty\<rparr>"
    using al_singleton [of 7] by blast+
  let ?h = "fst (al_add_edge ?g 1 (AlVertex 0) (AlVertex 0))"
  have "wf_al ?h \<and> ag_self_loop (abs_al ?h) (AlVertex 0)"
    using abs_add_edge [OF g(1), of 1 "AlVertex 0" "AlVertex 0" ?h "snd (al_add_edge ?g 1 (AlVertex 0) (AlVertex 0))"] g(2)
    by (auto simp: ag_self_loop_def)
  then show ?thesis using al_remove_vertex_self_loop [of ?h "AlVertex 0"] by blast
qed

lemma set_vertex_label_refines:
  assumes "wf_al g"
  shows "wf_al (al_set_vertex_label g v f) \<and>
    abs_al (al_set_vertex_label g v f) = (abs_al g)\<lparr>ag_verts := (ag_verts (abs_al g))(v := map_option f (ag_verts (abs_al g) v))\<rparr>"
proof -
  let ?m = "AList.map_entry v f (vertex_labels g)"
  have "map_of ?m = (map_of (vertex_labels g))(v := map_option f (map_of (vertex_labels g) v))"
    by (auto simp: AList.map_of_map_entry fun_eq_iff split: option.split)
  moreover have "dom (map_of ?m) = dom (map_of (vertex_labels g))" by (simp add: dom_map_of_conv_image_fst AList.dom_map_entry)
  moreover have "distinct (map fst ?m)" using assms by (simp add: wf_al_def AList.distinct_map_entry)
  ultimately show ?thesis using assms by (simp add: al_set_vertex_label_def wf_al_def wf_core_def abs_al_def)
qed

lemma set_edge_label_refines:
  assumes "wf_al g"
  shows "wf_al (al_set_edge_label g e h) \<and>
    abs_al (al_set_edge_label g e h) = (abs_al g)\<lparr>ag_edges := (ag_edges (abs_al g))(e := map_option (apfst h) (ag_edges (abs_al g) e))\<rparr>"
proof -
  let ?m = "AList.map_entry e h (edge_labels g)"
  have m: "map_of ?m = (map_of (edge_labels g))(e := map_option h (map_of (edge_labels g) e))"
    by (auto simp: AList.map_of_map_entry fun_eq_iff split: option.split)
  have "dom (map_of ?m) = dom (map_of (edge_labels g))" by (simp add: dom_map_of_conv_image_fst AList.dom_map_entry)
  moreover have "distinct (map fst ?m)" using assms by (simp add: wf_al_def wf_core_def AList.distinct_map_entry)
  ultimately have "wf_al (al_set_edge_label g e h)" using assms by (simp add: al_set_edge_label_def wf_al_def wf_core_def)
  moreover have "abs_al (al_set_edge_label g e h) = (abs_al g)\<lparr>ag_edges := (ag_edges (abs_al g))(e := map_option (apfst h) (ag_edges (abs_al g) e))\<rparr>"
    by (auto simp: al_set_edge_label_def abs_al_def m fun_eq_iff split: option.split)
  ultimately show ?thesis by blast
qed

text \<open>
  C25: The mutations of an adjacency list do not panic and refine operations on the abstract graph.  Adding a vertex or an edge, removing
  an edge and changing a label keep the five hash maps consistent: a new vertex or edge gets a
  descriptor that was not in use, an edge is only added between existing vertices, and
  removing an edge returns its label and forgets exactly that edge.  Removing a vertex without a self-loop returns its label, keeps
  the maps consistent and deletes exactly the vertex and the edges that start or end at it.  Removing a vertex with a
  self-loop returns nothing, although it removes the label, and leaves the maps inconsistent.
\<close>

theorem al_mutations_refine:
  assumes "wf_al g"
  shows "(case al_add_vertex g lb of (g', n) \<Rightarrow>
            wf_al g' \<and> ag_verts (abs_al g) n = None \<and>
            abs_al g' = (abs_al g)\<lparr>ag_verts := (ag_verts (abs_al g))(n \<mapsto> lb)\<rparr>) \<and>
         (case al_add_edge g l from to of (g', r) \<Rightarrow>
            if ag_verts (abs_al g) from \<noteq> None \<and> ag_verts (abs_al g) to \<noteq> None
            then \<exists>e. r = Some e \<and> wf_al g' \<and> ag_edges (abs_al g) e = None \<and>
                   abs_al g' = (abs_al g)\<lparr>ag_edges := (ag_edges (abs_al g))(e \<mapsto> (l, from, to))\<rparr>
            else r = None \<and> g' = g) \<and>
         (\<exists>g' r. al_remove_edge g e = Some (g', r) \<and> wf_al g' \<and>
            r = map_option fst (ag_edges (abs_al g) e) \<and>
            abs_al g' = (abs_al g)\<lparr>ag_edges := (ag_edges (abs_al g))(e := None)\<rparr>) \<and>
         (\<exists>g' r. al_remove_vertex g v = Some (g', r) \<and>
            (case ag_verts (abs_al g) v of
               None \<Rightarrow> r = None \<and> g' = g
             | Some lv \<Rightarrow>
                 if ag_self_loop (abs_al g) v then r = None \<and> ag_verts (abs_al g') v = None \<and> \<not> wf_al g'
                 else r = Some lv \<and> wf_al g' \<and>
                   abs_al g' = \<lparr>ag_verts = (ag_verts (abs_al g))(v := None),
                                ag_edges = ag_edges (abs_al g) |` (- ag_incident (abs_al g) v)\<rparr>)) \<and>
         wf_al (al_set_vertex_label g v f) \<and>
         abs_al (al_set_vertex_label g v f) = (abs_al g)\<lparr>ag_verts := (ag_verts (abs_al g))(v := map_option f (ag_verts (abs_al g) v))\<rparr> \<and>
         wf_al (al_set_edge_label g e h) \<and>
         abs_al (al_set_edge_label g e h) = (abs_al g)\<lparr>ag_edges := (ag_edges (abs_al g))(e := map_option (apfst h) (ag_edges (abs_al g) e))\<rparr>"
proof (intro conjI)
  show "case al_add_vertex g lb of (g', n) \<Rightarrow>
            wf_al g' \<and> ag_verts (abs_al g) n = None \<and>
            abs_al g' = (abs_al g)\<lparr>ag_verts := (ag_verts (abs_al g))(n \<mapsto> lb)\<rparr>"
    using abs_add_vertex [OF assms, of lb] by (cases "al_add_vertex g lb") auto
  show "case al_add_edge g l from to of (g', r) \<Rightarrow>
            if ag_verts (abs_al g) from \<noteq> None \<and> ag_verts (abs_al g) to \<noteq> None
            then \<exists>e. r = Some e \<and> wf_al g' \<and> ag_edges (abs_al g) e = None \<and>
                   abs_al g' = (abs_al g)\<lparr>ag_edges := (ag_edges (abs_al g))(e \<mapsto> (l, from, to))\<rparr>
            else r = None \<and> g' = g"
    using abs_add_edge [OF assms, of l "from" to] by (cases "al_add_edge g l from to") auto
  show "\<exists>g' r. al_remove_vertex g v = Some (g', r) \<and>
            (case ag_verts (abs_al g) v of
               None \<Rightarrow> r = None \<and> g' = g
             | Some lv \<Rightarrow>
                 if ag_self_loop (abs_al g) v then r = None \<and> ag_verts (abs_al g') v = None \<and> \<not> wf_al g'
                 else r = Some lv \<and> wf_al g' \<and>
                   abs_al g' = \<lparr>ag_verts = (ag_verts (abs_al g))(v := None),
                                ag_edges = ag_edges (abs_al g) |` (- ag_incident (abs_al g) v)\<rparr>)"
  proof (cases "ag_verts (abs_al g) v")
    case None
    then show ?thesis by (simp add: al_remove_vertex_def abs_al_def)
  next
    case (Some lv)
    then show ?thesis using abs_remove_vertex [OF assms Some] al_remove_vertex_self_loop [OF assms, of v] by (cases "ag_self_loop (abs_al g) v") auto
  qed
qed (use abs_remove_edge [OF assms] set_vertex_label_refines [OF assms] set_edge_label_refines [OF assms] in blast)+

theorem al_mutations_refine_witness:
  "wf_al (al_new :: (nat, nat) adjacency_list) \<and> wf_al (fst (al_add_vertex (al_new :: (nat, nat) adjacency_list) 7)) \<and>
   (\<exists>g'. al_remove_vertex (fst (al_add_vertex (al_new :: (nat, nat) adjacency_list) 7)) (AlVertex 0) = Some (g', Some 7) \<and> wf_al g')"
proof -
  let ?g = "fst (al_add_vertex al_new 7) :: (nat, nat) adjacency_list"
  have g: "wf_al ?g" "abs_al ?g = \<lparr>ag_verts = [AlVertex 0 \<mapsto> 7], ag_edges = Map.empty\<rparr>"
    using al_singleton [of 7] by blast+
  then have "\<exists>g'. al_remove_vertex ?g (AlVertex 0) = Some (g', Some 7) \<and> wf_al g'"
    using al_mutations_refine [of ?g 7 "AlVertex 0" "AlVertex 0" 1 "AlEdge 0" "AlVertex 0" id id] by (auto simp: ag_self_loop_def)
  then show ?thesis using g(1) by simp
qed

text \<open>
  The queries of an adjacency list agree with the abstract graph and do not panic on
  its vertices: outgoing and incoming edges without repetition, degrees, the edge between
  two vertices and the neighbours, sorted and without repetition.
\<close>

theorem al_queries:
  assumes "wf_al g" "v \<in> set (al_vertices g)"
  shows "(\<exists>oe. al_out_edges g v = Some oe \<and> distinct oe \<and> al_out_degree g v = length oe \<and>
            set oe = {e. \<exists>l w. ag_edges (abs_al g) e = Some (l, v, w)}) \<and>
         (\<exists>ie. al_in_edges g v = Some ie \<and> distinct ie \<and> al_in_degree g v = length ie \<and>
            set ie = {e. \<exists>l u. ag_edges (abs_al g) e = Some (l, u, v)}) \<and>
         (\<exists>r. al_edge_between g v w = Some r \<and>
            (case r of None \<Rightarrow> \<nexists>e l. ag_edges (abs_al g) e = Some (l, v, w)
             | Some e \<Rightarrow> \<exists>l. ag_edges (abs_al g) e = Some (l, v, w))) \<and>
         (\<exists>adj. al_adjacent_vertices g v = Some adj \<and> sorted adj \<and> distinct adj \<and>
            set adj = {u. \<exists>e l. ag_edges (abs_al g) e = Some (l, v, u) \<or> ag_edges (abs_al g) e = Some (l, u, v)})"
proof -
  have core: "wf_core g" using assms(1) by (simp add: wf_al_def)
  obtain oe ie where oe: "al_out_edges g v = Some oe" and ie: "al_in_edges g v = Some ie"
    using al.out_total al.in_total assms by blast
  note sets = wf_core_out [OF core, of v oe] wf_core_in [OF core, of v ie]
  have oe_set: "distinct oe" "set oe = {e. \<exists>l w. ag_edges (abs_al g) e = Some (l, v, w)}"
    using sets(1) oe ag_edges_abs(1,3) [OF core] by (simp_all add: al_out_edges_def) blast
  have ie_set: "distinct ie" "set ie = {e. \<exists>l u. ag_edges (abs_al g) e = Some (l, u, v)}"
    using sets(2) ie ag_edges_abs(1,3) [OF core] by (simp_all add: al_in_edges_def) blast
  have tgt: "al_target g e = Some b" and src: "al_source g e = Some a" if "ag_edges (abs_al g) e = Some (l, a, b)" for e l a b
    using that ag_edges_abs(1) [OF core, of e l a b] by (auto simp: al_target_def al_source_def)
  obtain ts where ts: "those (map (al_target g) oe) = Some ts" "set ts = {u. \<exists>e l. ag_edges (abs_al g) e = Some (l, v, u)}"
    using al.succs_total [OF assms] those_map_set [of "al_target g" oe] oe oe_set(2) tgt
    by (fastforce simp: graph_succs_def)
  obtain ss where ss: "those (map (al_source g) ie) = Some ss" "set ss = {u. \<exists>e l. ag_edges (abs_al g) e = Some (l, u, v)}"
    using al.preds_total [OF assms] those_map_set [of "al_source g" ie] ie ie_set(2) src
    by (fastforce simp: graph_succs_def)
  obtain r where r: "find_target g w oe = Some r"
      "case r of None \<Rightarrow> \<forall>e \<in> set oe. al_target g e \<noteq> Some w | Some e \<Rightarrow> e \<in> set oe \<and> al_target g e = Some w"
    using find_target_spec [of oe g w] oe_set(2) tgt by blast
  have "al_edge_between g v w = Some r" using oe r(1) by (simp add: al_edge_between_def)
  moreover have "case r of None \<Rightarrow> \<nexists>e l. ag_edges (abs_al g) e = Some (l, v, w)
             | Some e \<Rightarrow> \<exists>l. ag_edges (abs_al g) e = Some (l, v, w)"
  proof (cases r)
    case None
    then show ?thesis using r(2) oe_set(2) tgt by auto blast
  next
    case (Some e)
    then show ?thesis using r(2) oe_set(2) tgt by auto
  qed
  moreover have "al_adjacent_vertices g v = Some (remdups_adj (sort (ts @ ss)))"
    using oe ie ts(1) ss(1) by (simp add: al_adjacent_vertices_def)
  ultimately show ?thesis
    using oe ie oe_set ie_set ts(2) ss(2)
    by (auto simp: al_out_degree_def al_in_degree_def al_out_edges_def al_in_edges_def distinct_remdups_adj_sorted)
qed

theorem al_queries_witness:
  "wf_al (fst (al_add_vertex al_new 7) :: (nat, nat) adjacency_list) \<and>
   al_out_edges (fst (al_add_vertex al_new 7) :: (nat, nat) adjacency_list) (AlVertex 0) = Some []"
proof -
  let ?g = "fst (al_add_vertex al_new 7) :: (nat, nat) adjacency_list"
  have g: "wf_al ?g" "abs_al ?g = \<lparr>ag_verts = [AlVertex 0 \<mapsto> 7], ag_edges = Map.empty\<rparr>"
    using al_singleton [of 7] by blast+
  then have "AlVertex 0 \<in> set (al_vertices ?g)" by (simp add: al_vertices_iff) (simp add: abs_al_def fun_eq_iff)
  with g show ?thesis using al_queries [of ?g "AlVertex 0"] by auto
qed

text \<open>
  The queries of an adjacency matrix whose rows all have the length of the vertex
  vector: on a vertex of the graph no index is out of range, the iterator over outgoing (incoming)
  edges yields exactly the occupied cells of its row (column) in order, the degrees are
  their numbers, and the neighbours are sorted without repetition.
\<close>

theorem am_queries:
  assumes "wf_am m" "v < am_num_vertices m"
  shows "\<exists>oe ie adj. am_out_edges m v = Some oe \<and> am_in_edges m v = Some ie \<and>
           map am_to oe = filter (\<lambda>n. am_edges m ! v ! n \<noteq> None) [0..<am_num_vertices m] \<and>
           map am_from ie = filter (\<lambda>n. am_edges m ! n ! v \<noteq> None) [0..<am_num_vertices m] \<and>
           am_out_degree m v = Some (length oe) \<and> am_in_degree m v = Some (length ie) \<and>
           am_degree m v = Some (length ie + length oe) \<and>
           am_adjacent_vertices m v = Some adj \<and> sorted adj \<and> distinct adj \<and>
           set adj = {n. n < am_num_vertices m \<and> (am_edges m ! v ! n \<noteq> None \<or> am_edges m ! n ! v \<noteq> None)}"
proof -
  let ?n = "length (am_labels m)"
  have v: "v < ?n" using assms(2) by (simp add: am_num_vertices_def)
  have has: "am_has_edge m \<lparr>am_from = a, am_to = b\<rparr> \<longleftrightarrow> am_edges m ! a ! b \<noteq> None" if "a < ?n" "b < ?n" for a b
    using that assms(1) by (simp add: am_has_edge_def am_cell_in_range)
  define oe where "oe = filter (am_has_edge m) (map (\<lambda>n. \<lparr>am_from = v, am_to = n\<rparr>) [0..<?n])"
  define ie where "ie = filter (am_has_edge m) (map (\<lambda>n. \<lparr>am_from = n, am_to = v\<rparr>) [0..<?n])"
  have es: "am_out_edges m v = Some oe" "am_in_edges m v = Some ie"
    using assms(1) v by (simp_all add: am_out_edges_spec am_in_edges_spec oe_def ie_def)
  have oe: "map am_to oe = filter (\<lambda>n. am_edges m ! v ! n \<noteq> None) [0..<?n]"
    using has v by (auto simp: oe_def filter_map comp_def intro!: filter_cong)
  have ie: "map am_from ie = filter (\<lambda>n. am_edges m ! n ! v \<noteq> None) [0..<?n]"
    using has v by (auto simp: ie_def filter_map comp_def intro!: filter_cong)
  have "am_out_degree m v = Some (length (map am_to oe))"
    using assms(1) v unfolding am_out_degree_def oe
    by (subst am_degree_fold) (auto simp: am_cell_in_range intro!: arg_cong [where f = length] filter_cong)
  then have "am_out_degree m v = Some (length oe)" by simp
  moreover have "am_in_degree m v = Some (length (map am_from ie))"
    using assms(1) v unfolding am_in_degree_def ie
    by (subst am_degree_fold) (auto simp: am_cell_in_range intro!: arg_cong [where f = length] filter_cong)
  then have "am_in_degree m v = Some (length ie)" by simp
  moreover
  define adj where "adj = remdups_adj (sort (map am_to oe @ map am_from ie))"
  have "am_adjacent_vertices m v = Some adj"
    using es by (simp add: am_adjacent_vertices_def adj_def)
  moreover have "sorted adj" "distinct adj"
    "set adj = {n. n < ?n \<and> (am_edges m ! v ! n \<noteq> None \<or> am_edges m ! n ! v \<noteq> None)}"
    by (auto simp: adj_def distinct_remdups_adj_sorted simp flip: set_map) (auto simp: oe ie simp del: set_map)
  ultimately show ?thesis
    using es oe ie
    by (simp add: am_num_vertices_def am_degree_def)
qed

theorem am_queries_witness:
  "wf_am \<lparr>am_edges = [[None, Some (5 :: nat)], [None, None]], am_labels = [1, 2 :: nat]\<rparr> \<and>
   am_out_degree \<lparr>am_edges = [[None, Some (5 :: nat)], [None, None]], am_labels = [1, 2 :: nat]\<rparr> 0 = Some 1"
proof -
  define m where "m = \<lparr>am_edges = [[None, Some (5 :: nat)], [None, None]], am_labels = [1, 2 :: nat]\<rparr>"
  have m: "wf_am m" "am_num_vertices m = 2" by (simp_all add: m_def wf_am_def am_num_vertices_def)
  then have pos: "0 < am_num_vertices m" by simp
  obtain oe :: "am_edge list" where "map am_to oe = filter (\<lambda>n. am_edges m ! 0 ! n \<noteq> None) [0..<am_num_vertices m]"
      "am_out_degree m 0 = Some (length oe)"
    using am_queries [OF m(1) pos] by auto
  moreover have "filter (\<lambda>n. am_edges m ! 0 ! n \<noteq> None) [0..<am_num_vertices m] = [1]"
    by (simp add: m(2) upt_rec) (simp add: m_def)
  ultimately show ?thesis using m(1) unfolding m_def [symmetric] by (metis length_map length_Cons list.size(3) One_nat_def)
qed

end
