(* ===== verification/Search.thy ===== *)
theory Search
  imports Graph "HOL-Library.Monad_Syntax"
begin

text \<open>
  Graph traversals, \<^verbatim>\<open>graph-algos/src/search.rs\<close>: the pre- and postorder iterator, the
  connectivity test and the recursive depth first visit.  The algorithms are generic over the
  graph traits; here they take the functions of the graph they use as arguments.  A vertex's
  successors are the targets of its outgoing edges, in the order of the edges; looking them up
  panics (\<open>None\<close>) outside the graph.  A \<^verbatim>\<open>HashSet\<close> is a set.  A loop is a partial function in
  the option monad, so that a traversal that does not end has the value \<open>None\<close> as well; the
  properties show that on a consistent container the value is \<open>Some\<close>.
\<close>

section \<open>The traversal iterator\<close>

datatype traversal_order = Preorder | Postorder

text \<open>The top of the stack is the head of the list.\<close>

record 'v tree_iter =
  ti_order :: traversal_order
  ti_stack :: "'v list"
  ti_seen :: "'v set"
  ti_position :: 'v

definition new_tree_iter :: "'v \<Rightarrow> traversal_order \<Rightarrow> 'v tree_iter" where
  "new_tree_iter start order =
     \<lparr>ti_order = order, ti_stack = (if order = Postorder then [start] else []), ti_seen = {},
      ti_position = start\<rparr>"

text \<open>The loop of \<^verbatim>\<open>next_preorder\<close> on stack, seen vertices and position.\<close>

fun preorder_loop ::
  "('v \<Rightarrow> 'v list option) \<Rightarrow> 'v list \<Rightarrow> 'v set \<Rightarrow> 'v \<Rightarrow> ('v option \<times> 'v list \<times> 'v set \<times> 'v) option" where
  "preorder_loop succs stack seen pos =
     (case succs pos of
        None \<Rightarrow> None
      | Some ws \<Rightarrow>
          (case find (\<lambda>vx. vx \<notin> seen) ws of
             Some vx \<Rightarrow> Some (Some vx, pos # stack, insert vx seen, vx)
           | None \<Rightarrow>
               (case stack of
                  parent # rest \<Rightarrow> preorder_loop succs rest seen parent
                | [] \<Rightarrow> Some (None, [], seen, pos))))"

definition next_preorder ::
  "('v \<Rightarrow> 'v list option) \<Rightarrow> 'v tree_iter \<Rightarrow> ('v option \<times> 'v tree_iter) option" where
  "next_preorder succs it =
     (if ti_position it \<notin> ti_seen it then
        Some (Some (ti_position it), it\<lparr>ti_seen := insert (ti_position it) (ti_seen it)\<rparr>)
      else
        (case preorder_loop succs (ti_stack it) (ti_seen it) (ti_position it) of
           None \<Rightarrow> None
         | Some (r, stack, seen, pos) \<Rightarrow>
             Some (r, it\<lparr>ti_stack := stack, ti_seen := seen, ti_position := pos\<rparr>)))"

partial_function (option) postorder_loop ::
  "('v \<Rightarrow> 'v list option) \<Rightarrow> 'v list \<Rightarrow> 'v set \<Rightarrow> 'v \<Rightarrow> ('v option \<times> 'v list \<times> 'v set \<times> 'v) option" where
  "postorder_loop succs stack seen pos =
     (case succs pos of
        None \<Rightarrow> None
      | Some ws \<Rightarrow>
          (case find (\<lambda>vx. vx \<notin> seen) ws of
             Some vx \<Rightarrow> postorder_loop succs (pos # stack) (insert vx seen) vx
           | None \<Rightarrow>
               (case stack of
                  parent # rest \<Rightarrow> Some (Some pos, rest, seen, parent)
                | [] \<Rightarrow> Some (None, [], seen, pos))))"

definition next_postorder ::
  "('v \<Rightarrow> 'v list option) \<Rightarrow> 'v tree_iter \<Rightarrow> ('v option \<times> 'v tree_iter) option" where
  "next_postorder succs it =
     (case postorder_loop succs (ti_stack it) (ti_seen it) (ti_position it) of
        None \<Rightarrow> None
      | Some (r, stack, seen, pos) \<Rightarrow>
          Some (r, it\<lparr>ti_stack := stack, ti_seen := seen, ti_position := pos\<rparr>))"

definition tree_next ::
  "('v \<Rightarrow> 'v list option) \<Rightarrow> 'v tree_iter \<Rightarrow> ('v option \<times> 'v tree_iter) option" where
  "tree_next succs it =
     (case ti_order it of Preorder \<Rightarrow> next_preorder succs it | Postorder \<Rightarrow> next_postorder succs it)"

text \<open>\<^verbatim>\<open>collect\<close>.\<close>

partial_function (option) tree_collect ::
  "('v \<Rightarrow> 'v list option) \<Rightarrow> 'v tree_iter \<Rightarrow> 'v list option" where
  "tree_collect succs it =
     (case tree_next succs it of
        None \<Rightarrow> None
      | Some (r, it') \<Rightarrow>
          (case r of None \<Rightarrow> Some [] | Some v \<Rightarrow> do { vs \<leftarrow> tree_collect succs it'; Some (v # vs) }))"

section \<open>Connectivity\<close>

text \<open>The \<^verbatim>\<open>while\<close> loop: \<open>nbs\<close> lists the targets of the outgoing and the sources of the incoming edges.\<close>

partial_function (option) connected_loop ::
  "('v \<Rightarrow> 'v list option) \<Rightarrow> 'v list \<Rightarrow> 'v set \<Rightarrow> 'v set option" where
  "connected_loop nbs stack seen =
     (case stack of
        [] \<Rightarrow> Some seen
      | vx # rest \<Rightarrow>
          (case nbs vx of
             None \<Rightarrow> None
           | Some ed \<Rightarrow>
               connected_loop nbs (rev (filter (\<lambda>s. s \<notin> insert vx seen) ed) @ rest) (insert vx seen)))"

definition neighbours :: "('v \<Rightarrow> 'v list option) \<Rightarrow> ('v \<Rightarrow> 'v list option) \<Rightarrow> 'v \<Rightarrow> 'v list option" where
  "neighbours succs preds v =
     (case (succs v, preds v) of (Some a, Some b) \<Rightarrow> Some (a @ b) | _ \<Rightarrow> None)"

definition is_connected ::
  "'v list \<Rightarrow> ('v \<Rightarrow> 'v list option) \<Rightarrow> ('v \<Rightarrow> 'v list option) \<Rightarrow> bool option" where
  "is_connected verts succs preds =
     (case verts of
        [] \<Rightarrow> Some True
      | s # _ \<Rightarrow>
          (case connected_loop (neighbours succs preds) [s] {} of
             None \<Rightarrow> None
           | Some seen \<Rightarrow> if card seen \<le> length verts then Some (card seen = length verts) else None))"

section \<open>Depth first visit\<close>

datatype edge_kind = TreeEdge | ForwardOrCross | BackwardEdge
datatype vertex_event = Discovered | Finished
datatype vertex_color = White | Gray | Black

text \<open>
  \<open>visit\<close> and its loop over the outgoing edges.  The visitors thread the state they capture.
  The recursion depth is bounded by the number of white vertices, which is the fuel;
  running out of it is the value \<open>None\<close>.
\<close>

fun dfs_visit and dfs_edges where
  "dfs_visit 0 out tgt vv ev vx color s = None"
| "dfs_visit (Suc n) out tgt vv ev vx color s =
     (case out vx of
        None \<Rightarrow> None
      | Some es \<Rightarrow>
          (case dfs_edges n out tgt vv ev es (color(vx \<mapsto> Gray)) (vv vx Discovered s) of
             None \<Rightarrow> None
           | Some (color', s') \<Rightarrow> Some (color'(vx \<mapsto> Black), vv vx Finished s')))"
| "dfs_edges n out tgt vv ev [] color s = Some (color, s)"
| "dfs_edges n out tgt vv ev (e # es) color s =
     (case tgt e of
        None \<Rightarrow> None
      | Some wx \<Rightarrow>
          (case color wx of
             None \<Rightarrow> None
           | Some White \<Rightarrow>
               (case dfs_visit n out tgt vv ev wx color (ev e TreeEdge s) of
                  None \<Rightarrow> None
                | Some (color', s') \<Rightarrow> dfs_edges n out tgt vv ev es color' s')
           | Some Gray \<Rightarrow> dfs_edges n out tgt vv ev es color (ev e BackwardEdge s)
           | Some Black \<Rightarrow> dfs_edges n out tgt vv ev es color (ev e ForwardOrCross s)))"

definition depth_first_visit ::
  "('v \<Rightarrow> vertex_event \<Rightarrow> 's \<Rightarrow> 's) \<Rightarrow> ('e \<Rightarrow> edge_kind \<Rightarrow> 's \<Rightarrow> 's) \<Rightarrow> 'v \<Rightarrow> 'v list \<Rightarrow>
   ('v \<Rightarrow> 'e list option) \<Rightarrow> ('e \<Rightarrow> 'v option) \<Rightarrow> 's \<Rightarrow> 's option" where
  "depth_first_visit vv ev start verts out tgt s =
     map_option snd
       (dfs_visit (Suc (length verts)) out tgt vv ev start (map_of (map (\<lambda>v. (v, White)) verts)) s)"

declare preorder_loop.simps [simp del]
declare postorder_loop.simps [code] tree_collect.simps [code] connected_loop.simps [code]

section \<open>The interface of a finite digraph\<close>

text \<open>
  A finite set of vertices whose successors are defined and stay in the set; this is all the
  traversals rely on.
\<close>

definition edge_rel :: "('v \<Rightarrow> 'v list option) \<Rightarrow> ('v \<times> 'v) set" where
  "edge_rel succs = {(v, w). \<exists>ws. succs v = Some ws \<and> w \<in> set ws}"

definition reach :: "('v \<Rightarrow> 'v list option) \<Rightarrow> 'v \<Rightarrow> 'v set" where
  "reach succs s = {v. (s, v) \<in> (edge_rel succs)\<^sup>*}"

definition edge_succs :: "('v \<Rightarrow> 'e list option) \<Rightarrow> ('e \<Rightarrow> 'v option) \<Rightarrow> 'v \<Rightarrow> 'v list option" where
  "edge_succs out tgt v = (case out v of None \<Rightarrow> None | Some es \<Rightarrow> those (map tgt es))"

text \<open>In a postorder listing every vertex but the start stands before one of its predecessors.\<close>

definition parents_later :: "('v \<Rightarrow> 'v list option) \<Rightarrow> 'v \<Rightarrow> 'v list \<Rightarrow> bool" where
  "parents_later succs s zs \<longleftrightarrow> (\<forall>as v bs. zs = as @ v # bs \<and> v \<noteq> s \<longrightarrow> (\<exists>u \<in> set bs. (u, v) \<in> edge_rel succs))"

lemma parents_laterD: "parents_later succs s (as @ v # bs) \<Longrightarrow> v \<noteq> s \<Longrightarrow> \<exists>u \<in> set bs. (u, v) \<in> edge_rel succs"
  unfolding parents_later_def by blast

lemma parents_later_Cons:
  "parents_later succs s (v # zs) \<longleftrightarrow> (v \<noteq> s \<longrightarrow> (\<exists>u \<in> set zs. (u, v) \<in> edge_rel succs)) \<and> parents_later succs s zs"
  by (auto simp: parents_later_def Cons_eq_append_conv)

lemma parents_later_insert:
  "parents_later succs s (ys @ path) \<Longrightarrow> parents_later succs s (xs @ path) \<Longrightarrow> parents_later succs s (ys @ xs @ path)"
  by (induction ys) (auto simp: parents_later_Cons)

lemma parents_later_suffix: "parents_later succs s (ys @ path) \<Longrightarrow> parents_later succs s path"
  by (induction ys) (simp_all add: parents_later_Cons)

lemma parents_later_chain:
  "successively (\<lambda>v u. (u, v) \<in> edge_rel succs) (xs @ [p]) \<Longrightarrow> parents_later succs s (p # path) \<Longrightarrow> parents_later succs s (xs @ p # path)"
  by (induction xs rule: induct_list012) (auto simp: parents_later_Cons)

lemma parents_later_last: "parents_later succs s (zs @ [s]) \<Longrightarrow> zs \<noteq> [] \<Longrightarrow> last zs = s \<Longrightarrow> parents_later succs s zs"
  by (induction zs) (auto simp: parents_later_Cons split: if_splits)

locale finite_digraph =
  fixes V :: "'v set" and succs :: "'v \<Rightarrow> 'v list option"
  assumes finite_V: "finite V"
    and succs_closed: "v \<in> V \<Longrightarrow> \<exists>ws. succs v = Some ws \<and> set ws \<subseteq> V"
begin

lemma reach_refl [simp]: "s \<in> (reach succs s)"
  by (simp add: reach_def)

lemma reach_step: "v \<in> (reach succs s) \<Longrightarrow> succs v = Some ws \<Longrightarrow> w \<in> set ws \<Longrightarrow> w \<in> (reach succs s)"
  by (auto simp: reach_def edge_rel_def intro: rtrancl.rtrancl_into_rtrancl)

lemma reach_V: "s \<in> V \<Longrightarrow> (reach succs s) \<subseteq> V"
proof
  fix v assume s: "s \<in> V" and "v \<in> (reach succs s)"
  then have "(s, v) \<in> (edge_rel succs)\<^sup>*" by (simp add: reach_def)
  then show "v \<in> V"
    by (induction rule: rtrancl_induct) (use s succs_closed in \<open>fastforce simp: edge_rel_def\<close>)+
qed

lemma reach_closed:
  assumes "s \<in> A" "\<forall>v \<in> A. \<forall>ws. succs v = Some ws \<longrightarrow> set ws \<subseteq> A"
  shows "(reach succs s) \<subseteq> A"
proof
  fix v assume "v \<in> (reach succs s)"
  then have "(s, v) \<in> (edge_rel succs)\<^sup>*" by (simp add: reach_def)
  then show "v \<in> A"
    by (induction rule: rtrancl_induct) (use assms in \<open>auto simp: edge_rel_def\<close>)
qed

definition done_except :: "'v set \<Rightarrow> 'v set \<Rightarrow> bool" where
  "done_except seen open_vs \<longleftrightarrow> (\<forall>v \<in> seen - open_vs. \<forall>ws. succs v = Some ws \<longrightarrow> set ws \<subseteq> seen)"

lemma done_except_close:
  "succs p = Some ws \<Longrightarrow> set ws \<subseteq> seen \<Longrightarrow> done_except seen (insert p A) \<Longrightarrow> done_except seen A"
  unfolding done_except_def by (metis Diff_iff insert_iff option.inject)

lemma succs_reach:
  assumes "s \<in> V" "p \<in> (reach succs s)"
  shows "\<exists>ws. succs p = Some ws \<and> set ws \<subseteq> (reach succs s)"
proof -
  obtain ws where "succs p = Some ws" using reach_V succs_closed assms by blast
  then show ?thesis using reach_step [OF assms(2)] by auto
qed

lemma preorder_loop_spec:
  assumes "s \<in> V" "seen \<subseteq> (reach succs s)" "set (pos # stack) \<subseteq> seen" "done_except seen (set (pos # stack))"
  shows "\<exists>r st se p. preorder_loop succs stack seen pos = Some (r, st, se, p) \<and>
    (case r of
       None \<Rightarrow> se = seen \<and> done_except seen {}
     | Some v \<Rightarrow> v \<notin> seen \<and> se = insert v seen \<and> p = v \<and> se \<subseteq> (reach succs s) \<and> set (p # st) \<subseteq> se \<and>
                 done_except se (set (p # st)))"
  using assms
proof (induction stack arbitrary: pos)
  case (Nil pos)
  obtain ws where ws: "succs pos = Some ws" "set ws \<subseteq> (reach succs s)" using succs_reach [of s pos] Nil.prems by auto
  show ?case
  proof (cases "find (\<lambda>vx. vx \<notin> seen) ws")
    case None
    then have "done_except seen {}"
      using done_except_close [OF ws(1)] Nil.prems(4) by (simp add: find_None_iff subset_iff)
    then show ?thesis using None ws by (subst preorder_loop.simps) simp
  next
    case (Some vx)
    then have vx: "vx \<notin> seen" "vx \<in> set ws" by (auto simp: find_Some_iff)
    then have "done_except (insert vx seen) (set [vx, pos])"
      using Nil.prems(4) by (auto simp: done_except_def)
    then show ?thesis using Some ws vx Nil.prems by (subst preorder_loop.simps) auto
  qed
next
  case (Cons parent rest pos)
  obtain ws where ws: "succs pos = Some ws" "set ws \<subseteq> (reach succs s)" using succs_reach [of s pos] Cons.prems by auto
  show ?case
  proof (cases "find (\<lambda>vx. vx \<notin> seen) ws")
    case None
    then have "done_except seen (set (parent # rest))"
      using done_except_close [OF ws(1)] Cons.prems(4) by (simp add: find_None_iff subset_iff)
    then show ?thesis
      using Cons.IH [of parent] Cons.prems None ws by (subst preorder_loop.simps) simp
  next
    case (Some vx)
    then have vx: "vx \<notin> seen" "vx \<in> set ws" by (auto simp: find_Some_iff)
    then have "done_except (insert vx seen) (set (vx # pos # parent # rest))"
      using Cons.prems(4) by (auto simp: done_except_def)
    then show ?thesis using Some ws vx Cons.prems by (subst preorder_loop.simps) auto
  qed
qed

lemma preorder_collect:
  assumes "s \<in> V" "ti_order it = Preorder" "ti_seen it \<subseteq> (reach succs s)" "s \<in> ti_seen it"
    and "set (ti_position it # ti_stack it) \<subseteq> ti_seen it"
    and "done_except (ti_seen it) (set (ti_position it # ti_stack it))"
  shows "\<exists>vs. tree_collect succs it = Some vs \<and> distinct vs \<and> set vs = (reach succs s) - ti_seen it"
  using assms
proof (induction "card ((reach succs s) - ti_seen it)" arbitrary: it rule: less_induct)
  case less
  obtain r st se p where pre: "preorder_loop succs (ti_stack it) (ti_seen it) (ti_position it) = Some (r, st, se, p)"
      and post: "case r of
       None \<Rightarrow> se = ti_seen it \<and> done_except (ti_seen it) {}
     | Some v \<Rightarrow> v \<notin> ti_seen it \<and> se = insert v (ti_seen it) \<and> p = v \<and> se \<subseteq> (reach succs s) \<and> set (p # st) \<subseteq> se \<and>
                 done_except se (set (p # st))"
    using preorder_loop_spec [OF less.prems(1,3,5,6)] by blast
  define it' where "it' = it\<lparr>ti_stack := st, ti_seen := se, ti_position := p\<rparr>"
  have nx: "tree_next succs it = Some (r, it')"
    using pre less.prems(2,5) by (simp add: tree_next_def next_preorder_def it'_def)
  show ?case
  proof (cases r)
    case None
    then have "(reach succs s) \<subseteq> ti_seen it"
      using post less.prems(4) by (intro reach_closed) (auto simp: done_except_def)
    then show ?thesis using nx None by (subst tree_collect.simps) simp
  next
    case (Some v)
    then have v: "v \<in> (reach succs s) - ti_seen it" "ti_seen it' = insert v (ti_seen it)" using post by (auto simp: it'_def)
    then have "card ((reach succs s) - ti_seen it') < card ((reach succs s) - ti_seen it)"
      by (intro psubset_card_mono) (auto intro: finite_subset [OF reach_V [OF less.prems(1)] finite_V])
    then obtain vs where "tree_collect succs it' = Some vs" "distinct vs" "set vs = (reach succs s) - ti_seen it'"
      using less.hyps [of it'] less.prems post Some by (auto simp: it'_def)
    then show ?thesis using nx Some v by (subst tree_collect.simps) auto
  qed
qed

lemma preorder_traversal:
  assumes "s \<in> V"
  shows "\<exists>vs. tree_collect succs (new_tree_iter s Preorder) = Some (s # vs) \<and>
           distinct (s # vs) \<and> set (s # vs) = (reach succs s)"
proof -
  define it where "it = (new_tree_iter s Preorder)\<lparr>ti_seen := {s}\<rparr>"
  have "tree_next succs (new_tree_iter s Preorder) = Some (Some s, it)"
    by (simp add: tree_next_def next_preorder_def new_tree_iter_def it_def)
  moreover have it: "ti_order it = Preorder" "ti_seen it = {s}" "ti_position it = s" "ti_stack it = []"
    by (simp_all add: it_def new_tree_iter_def)
  then obtain vs where "tree_collect succs it = Some vs" "distinct vs" "set vs = (reach succs s) - {s}"
    using preorder_collect [OF assms, of it] by (auto simp: done_except_def)
  ultimately have "tree_collect succs (new_tree_iter s Preorder) = Some (s # vs)"
    by (subst tree_collect.simps) simp
  moreover have "set (s # vs) = (reach succs s)"
    unfolding list.set \<open>set vs = (reach succs s) - {s}\<close> by (rule insert_Diff) simp
  moreover have "distinct (s # vs)"
    unfolding distinct.simps \<open>set vs = (reach succs s) - {s}\<close> using \<open>distinct vs\<close> by blast
  ultimately show ?thesis by blast
qed

lemma postorder_loop_spec:
  assumes "s \<in> V" "seen \<subseteq> (reach succs s)" "set (pos # stack) \<subseteq> (reach succs s)"
  shows "\<exists>new p st se ws. set new \<subseteq> (reach succs s) - seen \<and> distinct new \<and> se = seen \<union> set new \<and>
           rev new @ pos # stack = p # st \<and> succs p = Some ws \<and> set ws \<subseteq> se \<and>
           (\<forall>v \<in> set new. \<exists>u us. u \<in> (reach succs s) \<and> succs u = Some us \<and> v \<in> set us) \<and>
           successively (\<lambda>v u. (u, v) \<in> edge_rel succs) (rev new @ [pos]) \<and>
           postorder_loop succs stack seen pos =
             Some (case st of parent # rest \<Rightarrow> (Some p, rest, se, parent) | [] \<Rightarrow> (None, [], se, p))"
  using assms
proof (induction "card ((reach succs s) - seen)" arbitrary: seen pos stack rule: less_induct)
  case less
  obtain ws where ws: "succs pos = Some ws" "set ws \<subseteq> (reach succs s)" using succs_reach [of s pos] less.prems by auto
  show ?case
  proof (cases "find (\<lambda>vx. vx \<notin> seen) ws")
    case None
    then have "set ws \<subseteq> seen" by (auto simp: find_None_iff)
    moreover have "postorder_loop succs stack seen pos =
        Some (case stack of parent # rest \<Rightarrow> (Some pos, rest, seen, parent) | [] \<Rightarrow> (None, [], seen, pos))"
      using None ws by (subst postorder_loop.simps) (simp split: list.split)
    ultimately show ?thesis using ws by (intro exI [of _ "[]"]) auto
  next
    case (Some vx)
    then have vx: "vx \<notin> seen" "vx \<in> set ws" by (auto simp: find_Some_iff)
    then have vr: "vx \<in> (reach succs s)" using ws by auto
    have "card ((reach succs s) - insert vx seen) < card ((reach succs s) - seen)"
      using vx vr by (intro psubset_card_mono) (auto intro: finite_subset [OF reach_V [OF less.prems(1)] finite_V])
    then obtain new p st se ws' where IH: "set new \<subseteq> (reach succs s) - insert vx seen" "distinct new" "se = insert vx seen \<union> set new"
        "rev new @ vx # pos # stack = p # st" "succs p = Some ws'" "set ws' \<subseteq> se"
        "\<forall>v \<in> set new. \<exists>u us. u \<in> (reach succs s) \<and> succs u = Some us \<and> v \<in> set us"
        "successively (\<lambda>v u. (u, v) \<in> edge_rel succs) (rev new @ [vx])"
        "postorder_loop succs (pos # stack) (insert vx seen) vx =
             Some (case st of parent # rest \<Rightarrow> (Some p, rest, se, parent) | [] \<Rightarrow> (None, [], se, p))"
      using less.hyps [of "insert vx seen" vx "pos # stack"] less.prems vr by auto
    have "postorder_loop succs stack seen pos = postorder_loop succs (pos # stack) (insert vx seen) vx"
      using Some ws by (subst postorder_loop.simps) simp
    moreover have "successively (\<lambda>v u. (u, v) \<in> edge_rel succs) (rev (vx # new) @ [pos])"
      using IH(8) ws(1) vx(2) by (auto simp: successively_append_iff edge_rel_def)
    ultimately show ?thesis
      using IH vx vr ws less.prems by (intro exI [of _ "vx # new"] exI [of _ p] exI [of _ st] exI [of _ se] exI [of _ ws']) auto
  qed
qed

text \<open>
  The postorder iterator: \<open>path\<close> is the position on top of the stack, its last entry the
  extra copy of the start that \<^verbatim>\<open>new\<close> pushes, \<open>ys\<close> what was returned so far.
\<close>

definition post_inv :: "'v \<Rightarrow> 'v list \<Rightarrow> 'v list \<Rightarrow> 'v set \<Rightarrow> bool" where
  "post_inv s ys path seen \<longleftrightarrow>
     path \<noteq> [] \<and> last path = s \<and> (butlast path \<noteq> [] \<longrightarrow> last (butlast path) = s) \<and>
     (butlast path = [] \<longrightarrow> ys \<noteq> [] \<and> last ys = s) \<and>
     set path \<union> set ys \<union> seen \<subseteq> (reach succs s) \<and>
     seen \<subseteq> set ys \<union> set (butlast path) \<and>
     (\<forall>v \<in> set ys. \<forall>ws. succs v = Some ws \<longrightarrow> set ws \<subseteq> seen) \<and>
     parents_later succs s (ys @ path) \<and> distinct (filter (\<lambda>v. v \<noteq> s) (ys @ path)) \<and> set ys \<union> set path \<subseteq> insert s seen \<and>
     ((\<forall>v \<in> (reach succs s). \<forall>ws. succs v = Some ws \<longrightarrow> s \<notin> set ws) \<longrightarrow>
        distinct (ys @ butlast path) \<and> set ys \<union> set (butlast path) \<subseteq> insert s seen)"

lemma post_inv_push:
  assumes "post_inv s ys path seen" "set new \<subseteq> (reach succs s) - seen" "distinct new"
    and "\<forall>v \<in> set new. \<exists>u us. u \<in> (reach succs s) \<and> succs u = Some us \<and> v \<in> set us"
    and "butlast path \<noteq> []" "successively (\<lambda>v u. (u, v) \<in> edge_rel succs) (rev new @ [hd path])"
  shows "post_inv s ys (rev new @ path) (seen \<union> set new)"
proof -
  have later: "parents_later succs s (ys @ path)" "distinct (filter (\<lambda>v. v \<noteq> s) (ys @ path))" "set ys \<union> set path \<subseteq> insert s seen"
    using assms(1) unfolding post_inv_def by blast+
  have "path = hd path # tl path" using assms(5) by (cases path) auto
  then have "parents_later succs s (rev new @ path)"
    using parents_later_chain [OF assms(6), of s "tl path"] parents_later_suffix [OF later(1)] by simp
  then have "parents_later succs s (ys @ rev new @ path)" using parents_later_insert [OF later(1)] by simp
  moreover have "distinct (filter (\<lambda>v. v \<noteq> s) (ys @ rev new @ path))" using later(2,3) assms(2,3) by (auto simp: distinct_filter)
  have [simp]: "path \<noteq> []" using assms(5) by auto
  have "s \<notin> set new" if "\<forall>v \<in> (reach succs s). \<forall>ws. succs v = Some ws \<longrightarrow> s \<notin> set ws"
    using assms(4) that by blast
  moreover have bl: "butlast (rev new @ path) = rev new @ butlast path" by (simp add: butlast_append)
  moreover have "\<forall>v \<in> set ys. \<forall>ws. succs v = Some ws \<longrightarrow> set ws \<subseteq> seen \<union> set new"
    using assms(1) unfolding post_inv_def by blast
  moreover have "distinct (ys @ rev new @ butlast path)"
    if "distinct (ys @ butlast path)" "set ys \<union> set (butlast path) \<subseteq> insert s seen" "s \<notin> set new"
    using that assms(2,3) by auto
  ultimately show ?thesis
    using assms(1,2,3,5) unfolding post_inv_def bl by (simp only: last_append) auto
qed

lemma post_inv_pop:
  assumes "post_inv s ys (p # q # rest) seen" "succs p = Some ws" "set ws \<subseteq> seen"
  shows "post_inv s (ys @ [p]) (q # rest) seen"
  using assms unfolding post_inv_def by (cases rest) auto

lemma postorder_collect:
  assumes "s \<in> V" "ti_order it = Postorder" "post_inv s ys (ti_position it # ti_stack it) (ti_seen it)"
  shows "\<exists>vs. tree_collect succs it = Some vs \<and> set (ys @ vs) = (reach succs s) \<and> ys @ vs \<noteq> [] \<and> last (ys @ vs) = s \<and>
           parents_later succs s (ys @ vs) \<and> distinct (filter (\<lambda>v. v \<noteq> s) (ys @ vs)) \<and>
           ((\<forall>v \<in> (reach succs s). \<forall>ws. succs v = Some ws \<longrightarrow> s \<notin> set ws) \<longrightarrow> distinct (ys @ vs))"
  using assms
proof (induction "2 * card ((reach succs s) - ti_seen it) + length (ti_stack it)" arbitrary: it ys rule: less_induct)
  case less
  have fin: "finite ((reach succs s))" by (rule finite_subset [OF reach_V [OF less.prems(1)] finite_V])
  have sub: "ti_seen it \<subseteq> (reach succs s)" "set (ti_position it # ti_stack it) \<subseteq> (reach succs s)"
    using less.prems(3) by (auto simp: post_inv_def)
  obtain new p st se ws where sp: "set new \<subseteq> (reach succs s) - ti_seen it" "distinct new" "se = ti_seen it \<union> set new"
      "rev new @ ti_position it # ti_stack it = p # st" "succs p = Some ws" "set ws \<subseteq> se"
      "\<forall>v \<in> set new. \<exists>u us. u \<in> (reach succs s) \<and> succs u = Some us \<and> v \<in> set us"
      "successively (\<lambda>v u. (u, v) \<in> edge_rel succs) (rev new @ [ti_position it])"
      "postorder_loop succs (ti_stack it) (ti_seen it) (ti_position it) =
             Some (case st of parent # rest \<Rightarrow> (Some p, rest, se, parent) | [] \<Rightarrow> (None, [], se, p))"
    using postorder_loop_spec [OF less.prems(1) sub] by metis
  show ?case
  proof (cases st)
    case Nil
    then have "new = []" "ti_stack it = []" using sp(4) by (auto simp: append_eq_Cons_conv)
    then have ys: "ys \<noteq> []" "last ys = s" "\<forall>v \<in> set ys. \<forall>ws. succs v = Some ws \<longrightarrow> set ws \<subseteq> ti_seen it"
        "ti_seen it \<subseteq> set ys" "set ys \<subseteq> (reach succs s)"
        "(\<forall>v \<in> (reach succs s). \<forall>ws. succs v = Some ws \<longrightarrow> s \<notin> set ws) \<longrightarrow> distinct ys"
        "parents_later succs s (ys @ [s])" "distinct (filter (\<lambda>v. v \<noteq> s) ys)"
      using less.prems(3) by (auto simp: post_inv_def)
    then have "(reach succs s) \<subseteq> set ys" by (intro reach_closed) (auto simp: in_set_conv_decomp dest: last_in_set)
    moreover have "tree_collect succs it = Some []"
      using sp(9) Nil less.prems(2) by (subst tree_collect.simps) (simp add: tree_next_def next_postorder_def)
    ultimately show ?thesis using ys parents_later_last [of succs s ys] by auto
  next
    case (Cons parent rest)
    define it' where "it' = it\<lparr>ti_stack := rest, ti_seen := se, ti_position := parent\<rparr>"
    have nx: "tree_next succs it = Some (Some p, it')"
      using sp(9) Cons less.prems(2) by (simp add: tree_next_def next_postorder_def it'_def)
    have "post_inv s ys (p # st) se"
    proof (cases "ti_stack it = []")
      case True
      then have ys: "s \<in> set ys" "\<forall>v \<in> set ys. \<forall>ws. succs v = Some ws \<longrightarrow> set ws \<subseteq> ti_seen it" "ti_seen it \<subseteq> set ys"
        using less.prems(3) last_in_set [of ys] by (auto simp: post_inv_def)
      then have "(reach succs s) \<subseteq> set ys" by (intro reach_closed) blast+
      have False if v: "v \<in> set new" for v
      proof -
        obtain u us where "u \<in> (reach succs s)" "succs u = Some us" "v \<in> set us" using sp(7) v by blast
        then have "v \<in> ti_seen it" using ys(2) \<open>(reach succs s) \<subseteq> set ys\<close> by blast
        then show False using sp(1) v by blast
      qed
      then have "set new = {}" by (rule equals0I)
      then show ?thesis using sp(4) Cons True by simp
    next
      case False
      then show ?thesis using post_inv_push [OF less.prems(3) sp(1,2,7)] sp(3,4,8) by simp
    qed
    then have inv': "post_inv s (ys @ [p]) (ti_position it' # ti_stack it') (ti_seen it')"
      using post_inv_pop sp(5,6) Cons by (auto simp: it'_def)
    have "length (ti_stack it') + 1 = length (ti_stack it) + length new"
      using arg_cong [OF sp(4), of length] Cons by (simp add: it'_def)
    moreover have "card ((reach succs s) - ti_seen it') + length new = card ((reach succs s) - ti_seen it)"
    proof -
      have "card (set new) = length new" using sp(2) by (rule distinct_card)
      moreover have "(reach succs s) - ti_seen it' = ((reach succs s) - ti_seen it) - set new" using sp(3) by (auto simp: it'_def)
      ultimately show ?thesis
        using card_Diff_subset [of "set new" "(reach succs s) - ti_seen it"] sp(1) fin
          card_mono [of "(reach succs s) - ti_seen it" "set new"] by auto
    qed
    ultimately have "2 * card ((reach succs s) - ti_seen it') + length (ti_stack it') <
        2 * card ((reach succs s) - ti_seen it) + length (ti_stack it)" by linarith
    then obtain vs where "tree_collect succs it' = Some vs" "set ((ys @ [p]) @ vs) = (reach succs s)" "(ys @ [p]) @ vs \<noteq> []"
        "last ((ys @ [p]) @ vs) = s" "parents_later succs s ((ys @ [p]) @ vs)" "distinct (filter (\<lambda>v. v \<noteq> s) ((ys @ [p]) @ vs))"
        "(\<forall>v \<in> (reach succs s). \<forall>ws. succs v = Some ws \<longrightarrow> s \<notin> set ws) \<longrightarrow> distinct ((ys @ [p]) @ vs)"
      using less.hyps [OF _ less.prems(1) _ inv'] less.prems(2) by (auto simp: it'_def)
    then show ?thesis using nx by (intro exI [of _ "p # vs"]) (subst tree_collect.simps, simp)
  qed
qed

lemma postorder_traversal:
  assumes "s \<in> V"
  shows "\<exists>vs. tree_collect succs (new_tree_iter s Postorder) = Some vs \<and> set vs = (reach succs s) \<and>
           vs \<noteq> [] \<and> last vs = s \<and> parents_later succs s vs \<and> distinct (filter (\<lambda>v. v \<noteq> s) vs) \<and>
           ((\<forall>v \<in> (reach succs s). \<forall>ws. succs v = Some ws \<longrightarrow> s \<notin> set ws) \<longrightarrow> distinct vs)"
proof -
  have "post_inv s [] [s, s] {}" by (auto simp: post_inv_def parents_later_Cons) (simp add: parents_later_def)
  then show ?thesis
    using postorder_collect [OF assms, of "new_tree_iter s Postorder" "[]"] by (simp add: new_tree_iter_def)
qed

lemma connected_loop_spec:
  assumes "s \<in> V" "set stack \<union> seen \<subseteq> (reach succs s)" "s \<in> seen \<union> set stack"
    and "\<forall>v \<in> seen. \<forall>ws. succs v = Some ws \<longrightarrow> set ws \<subseteq> seen \<union> set stack"
  shows "connected_loop succs stack seen = Some ((reach succs s))"
  using assms
proof (induction "(card ((reach succs s) - seen), (if stack \<noteq> [] \<and> hd stack \<in> seen then 1 else 0 :: nat), length stack)"
    arbitrary: stack seen rule: wf_induct_rule [OF wf_lex_prod [OF wf_less_than wf_lex_prod [OF wf_less_than wf_less_than]]])
  case 1
  show ?case
  proof (cases stack)
    case Nil
    then have "(reach succs s) \<subseteq> seen" using "1.prems" by (intro reach_closed) auto
    then show ?thesis using Nil "1.prems" by (subst connected_loop.simps) auto
  next
    case (Cons vx rest)
    obtain ws where ws: "succs vx = Some ws" "set ws \<subseteq> (reach succs s)"
      using succs_reach [of s vx] "1.prems" Cons by auto
    define stack' where "stack' = rev (filter (\<lambda>s. s \<notin> insert vx seen) ws) @ rest"
    have eq: "connected_loop succs stack seen = connected_loop succs stack' (insert vx seen)"
      using Cons ws by (subst connected_loop.simps) (simp add: stack'_def)
    have fin: "finite ((reach succs s))" by (rule finite_subset [OF reach_V [OF "1.prems"(1)] finite_V])
    have "card ((reach succs s) - insert vx seen) < card ((reach succs s) - seen)" if "vx \<notin> seen"
      using that "1.prems"(2) Cons fin by (intro psubset_card_mono) auto
    moreover have "hd stack' \<notin> seen" "stack' \<noteq> []" if "filter (\<lambda>s. s \<notin> insert vx seen) ws \<noteq> []"
    proof -
      have "hd stack' = last (filter (\<lambda>s. s \<notin> insert vx seen) ws)" using that by (simp add: stack'_def hd_append hd_rev)
      then show "hd stack' \<notin> seen" using last_in_set [OF that] by auto
    qed (use that in \<open>simp add: stack'_def\<close>)
    moreover have "length stack' < length stack" if "filter (\<lambda>s. s \<notin> insert vx seen) ws = []"
      using that Cons by (simp add: stack'_def)
    ultimately have "((card ((reach succs s) - insert vx seen), (if stack' \<noteq> [] \<and> hd stack' \<in> insert vx seen then 1 else 0 :: nat), length stack'),
        (card ((reach succs s) - seen), (if stack \<noteq> [] \<and> hd stack \<in> seen then 1 else 0), length stack)) \<in> less_than <*lex*> less_than <*lex*> less_than"
      using Cons by (cases "vx \<in> seen"; cases "filter (\<lambda>s. s \<notin> insert vx seen) ws = []") (auto simp: insert_absorb)
    moreover have "set stack' \<union> insert vx seen \<subseteq> (reach succs s)" "s \<in> insert vx seen \<union> set stack'"
        "\<forall>v \<in> insert vx seen. \<forall>ws. succs v = Some ws \<longrightarrow> set ws \<subseteq> insert vx seen \<union> set stack'"
      using "1.prems" Cons ws by (auto simp: stack'_def)
    ultimately have "connected_loop succs stack' (insert vx seen) = Some ((reach succs s))"
      using "1.hyps" "1.prems"(1) by blast
    then show ?thesis using eq by simp
  qed
qed

lemma reach_symmetric:
  assumes "\<forall>v \<in> V. \<forall>w \<in> V. \<forall>ws us. succs v = Some ws \<longrightarrow> succs w = Some us \<longrightarrow> w \<in> set ws \<longrightarrow> v \<in> set us"
    and "s \<in> V" "v \<in> (reach succs s)"
  shows "s \<in> (reach succs v)"
proof -
  have "(s, v) \<in> (edge_rel succs)\<^sup>*" using assms(3) by (simp add: reach_def)
  then have "(v, s) \<in> (edge_rel succs)\<^sup>* \<and> v \<in> V"
  proof (induction rule: rtrancl_induct)
    case base
    then show ?case using assms(2) by simp
  next
    case (step y z)
    then obtain ws where ws: "succs y = Some ws" "z \<in> set ws" by (auto simp: edge_rel_def)
    then have "z \<in> V" using step succs_closed [of y] by auto
    moreover then obtain us where "succs z = Some us" using succs_closed by blast
    ultimately have "(z, y) \<in> (edge_rel succs)" using assms(1) ws step by (auto simp: edge_rel_def)
    then show ?case using step \<open>z \<in> V\<close> by (auto intro: converse_rtrancl_into_rtrancl)
  qed
  then show ?thesis by (simp add: reach_def)
qed

end

text \<open>The undirected view of a graph, for the connectivity test.\<close>

locale finite_bigraph = finite_digraph +
  fixes preds :: "'a \<Rightarrow> 'a list option"
  assumes preds_closed: "v \<in> V \<Longrightarrow> \<exists>ws. preds v = Some ws \<and> set ws \<subseteq> V"
    and preds_succs: "v \<in> V \<Longrightarrow> w \<in> V \<Longrightarrow> succs v = Some ws \<Longrightarrow> preds w = Some us \<Longrightarrow> w \<in> set ws \<longleftrightarrow> v \<in> set us"

sublocale finite_bigraph \<subseteq> undirected: finite_digraph V "neighbours succs preds"
proof
  fix v assume "v \<in> V"
  then obtain a b where "succs v = Some a" "set a \<subseteq> V" "preds v = Some b" "set b \<subseteq> V"
    using succs_closed preds_closed by blast
  then show "\<exists>ws. neighbours succs preds v = Some ws \<and> set ws \<subseteq> V" by (simp add: neighbours_def)
qed (rule finite_V)

context finite_bigraph
begin

lemma neighbours_symmetric:
  assumes "v \<in> V" "w \<in> V" "neighbours succs preds v = Some ws" "neighbours succs preds w = Some us" "w \<in> set ws"
  shows "v \<in> set us"
  using assms preds_succs [of v w] preds_succs [of w v]
  by (auto simp: neighbours_def split: option.splits)

lemma reach_undirected:
  assumes "u \<in> V" "edge_rel succs \<subseteq> V \<times> V"
  shows "reach (neighbours succs preds) u = {v. (u, v) \<in> (edge_rel succs \<union> (edge_rel succs)\<inverse>)\<^sup>*}"
proof -
  have nb: "(v, w) \<in> edge_rel (neighbours succs preds) \<longleftrightarrow> (v, w) \<in> edge_rel succs \<union> (edge_rel succs)\<inverse>"
    if v: "v \<in> V" for v w
  proof -
    obtain a b where ab: "succs v = Some a" "preds v = Some b" "set b \<subseteq> V"
      using succs_closed [OF v] preds_closed [OF v] by blast
    have "w \<in> set b \<longleftrightarrow> (w, v) \<in> edge_rel succs"
    proof
      assume w: "w \<in> set b"
      then obtain c where "succs w = Some c" using ab(3) succs_closed [of w] by blast
      then show "(w, v) \<in> edge_rel succs" using preds_succs [of w v c b] w v ab by (auto simp: edge_rel_def)
    next
      assume w: "(w, v) \<in> edge_rel succs"
      then obtain c where "succs w = Some c" "v \<in> set c" by (auto simp: edge_rel_def)
      moreover have "w \<in> V" using w assms(2) by blast
      ultimately show "w \<in> set b" using preds_succs [of w v c b] v ab by simp
    qed
    then show ?thesis using ab by (auto simp: edge_rel_def neighbours_def)
  qed
  have "(u, v) \<in> (edge_rel (neighbours succs preds))\<^sup>* \<Longrightarrow> v \<in> V \<and> (u, v) \<in> (edge_rel succs \<union> (edge_rel succs)\<inverse>)\<^sup>*" for v
    by (induction rule: rtrancl_induct) (use assms nb in \<open>auto intro: rtrancl_into_rtrancl\<close>)
  moreover have "(u, v) \<in> (edge_rel succs \<union> (edge_rel succs)\<inverse>)\<^sup>* \<Longrightarrow> v \<in> V \<and> (u, v) \<in> (edge_rel (neighbours succs preds))\<^sup>*" for v
    by (induction rule: rtrancl_induct) (use assms nb in \<open>auto intro: rtrancl_into_rtrancl\<close>)
  ultimately show ?thesis by (auto simp: reach_def)
qed

lemma is_connected_spec:
  assumes "V = set verts" "distinct verts"
  shows "is_connected verts succs preds = Some (\<forall>u \<in> V. \<forall>v \<in> V. v \<in> (reach (neighbours succs preds) u))"
proof (cases verts)
  case Nil
  then show ?thesis using assms by (simp add: is_connected_def)
next
  case (Cons s vs)
  then have s: "s \<in> V" using assms by simp
  have "connected_loop (neighbours succs preds) [s] {} = Some ((reach (neighbours succs preds) s))"
    using undirected.connected_loop_spec [OF s, of "[s]" "{}"] by simp
  moreover have "(reach (neighbours succs preds) s) \<subseteq> V" using undirected.reach_V [OF s] .
  moreover have c: "card V = length verts" using distinct_card [OF assms(2)] assms(1) by simp
  moreover have "card ((reach (neighbours succs preds) s)) \<le> length verts"
    using card_mono [OF finite_V \<open>(reach (neighbours succs preds) s) \<subseteq> V\<close>] c by simp
  moreover have "card ((reach (neighbours succs preds) s)) = length verts \<longleftrightarrow> (reach (neighbours succs preds) s) = V"
    using card_subset_eq [OF finite_V \<open>(reach (neighbours succs preds) s) \<subseteq> V\<close>] c by auto
  moreover have "(reach (neighbours succs preds) s) = V \<longleftrightarrow> (\<forall>u \<in> V. \<forall>v \<in> V. v \<in> (reach (neighbours succs preds) u))"
  proof
    assume r: "(reach (neighbours succs preds) s) = V"
    show "\<forall>u \<in> V. \<forall>v \<in> V. v \<in> (reach (neighbours succs preds) u)"
    proof (intro ballI)
      fix u v assume "u \<in> V" "v \<in> V"
      then have "s \<in> (reach (neighbours succs preds) u)" "v \<in> (reach (neighbours succs preds) s)"
        using undirected.reach_symmetric [OF _ s, of u] neighbours_symmetric r by blast+
      then show "v \<in> (reach (neighbours succs preds) u)" by (auto simp: reach_def)
    qed
  qed (use s \<open>(reach (neighbours succs preds) s) \<subseteq> V\<close> in blast)
  ultimately show ?thesis using Cons by (simp add: is_connected_def)
qed

end

text \<open>Graphs given by edges, for the depth first visit.\<close>

locale edge_digraph =
  fixes V :: "'v set" and out :: "'v \<Rightarrow> 'e list option" and tgt :: "'e \<Rightarrow> 'v option"
  assumes finite_vertices: "finite V"
    and out_closed: "v \<in> V \<Longrightarrow> \<exists>es. out v = Some es \<and> (\<forall>e \<in> set es. \<exists>w \<in> V. tgt e = Some w)"

sublocale edge_digraph \<subseteq> finite_digraph V "edge_succs out tgt"
proof
  fix v assume "v \<in> V"
  then obtain es where "out v = Some es" "\<forall>e \<in> set es. \<exists>w \<in> V. tgt e = Some w" using out_closed by blast
  then show "\<exists>ws. edge_succs out tgt v = Some ws \<and> set ws \<subseteq> V"
    using those_map_total by (auto simp: edge_succs_def)
qed (rule finite_vertices)

text \<open>The log of vertex events, and its discovered and finished vertices.\<close>

definition log_vertex :: "'v \<Rightarrow> vertex_event \<Rightarrow> ('v \<times> vertex_event) list \<Rightarrow> ('v \<times> vertex_event) list" where
  "log_vertex v ev l = l @ [(v, ev)]"

definition events :: "vertex_event \<Rightarrow> ('v \<times> vertex_event) list \<Rightarrow> 'v list" where
  "events ev l = map fst (filter (\<lambda>x. snd x = ev) l)"

lemma events_simps [simp]:
  "events ev [] = []" "events ev (l @ l') = events ev l @ events ev l'"
  "events ev (x # l) = (if snd x = ev then fst x # events ev l else events ev l)"
  by (simp_all add: events_def)

definition colored :: "('v \<rightharpoonup> vertex_color) \<Rightarrow> vertex_color \<Rightarrow> 'v set" where
  "colored color c = {v. color v = Some c}"

lemma colored_upd: "colored (color(v \<mapsto> c)) d = (if c = d then insert v (colored color d) else colored color d - {v})"
  by (auto simp: colored_def)

context edge_digraph
begin

text \<open>
  What a call does to colors and log: it turns some white vertices black, each of them is
  discovered and finished once, and their successors end up black or were gray before.
\<close>

definition dfs_post where
  "dfs_post color l color' l' N m \<longleftrightarrow>
     dom color' = dom color \<and> N \<subseteq> colored color White \<and>
     colored color' White = colored color White - N \<and> colored color' Gray = colored color Gray \<and>
     l' = l @ m \<and> distinct (events Discovered m) \<and> set (events Discovered m) = N \<and>
     distinct (events Finished m) \<and> set (events Finished m) = N \<and>
     (\<forall>v \<in> N. \<forall>es e w. out v = Some es \<longrightarrow> e \<in> set es \<longrightarrow> tgt e = Some w \<longrightarrow>
        w \<in> colored color' Black \<union> colored color Gray)"

lemma colored_Black: "colored color Black = dom color - colored color White - colored color Gray"
  by (auto simp: colored_def) (metis vertex_color.exhaust)

lemma colored_disjoint: "colored color White \<inter> colored color Gray = {}"
  by (auto simp: colored_def)

lemma finite_colored: "dom color = V \<Longrightarrow> finite (colored color c)"
  using finite_subset [OF _ finite_vertices, of "colored color c"] by (auto simp: colored_def)

lemma dfs_postD:
  assumes "dfs_post c l c' l' N m"
  shows "dom c' = dom c" "N \<subseteq> colored c White" "colored c' White = colored c White - N"
    "colored c' Gray = colored c Gray" "l' = l @ m"
    "distinct (events Discovered m)" "set (events Discovered m) = N"
    "distinct (events Finished m)" "set (events Finished m) = N"
    "v \<in> N \<Longrightarrow> out v = Some es \<Longrightarrow> e \<in> set es \<Longrightarrow> tgt e = Some w \<Longrightarrow> w \<in> colored c' Black \<union> colored c Gray"
  using assms unfolding dfs_post_def by simp_all

lemma dfs_post_refl: "dfs_post color l color l {} []"
  by (simp add: dfs_post_def)

lemma dfs_post_trans:
  assumes "dfs_post c l c1 l1 N1 m1" "dfs_post c1 l1 c2 l2 N2 m2"
  shows "dfs_post c l c2 l2 (N1 \<union> N2) (m1 @ m2)"
proof -
  note p1 = dfs_postD [OF assms(1)] and p2 = dfs_postD [OF assms(2)]
  have black: "colored c1 Black \<subseteq> colored c2 Black" using p2(1,3,4) unfolding colored_Black by auto
  have "N1 \<inter> N2 = {}" using p1(3) p2(2) by blast
  then show ?thesis unfolding dfs_post_def
  proof (intro conjI ballI allI impI)
    show "colored c2 White = colored c White - (N1 \<union> N2)" using p1(3) p2(3) by blast
    show "N1 \<union> N2 \<subseteq> colored c White" using p1(2,3) p2(2) by blast
    fix v es e w
    assume "v \<in> N1 \<union> N2" "out v = Some es" "e \<in> set es" "tgt e = Some w"
    then show "w \<in> colored c2 Black \<union> colored c Gray" using p1(4,10) p2(10) black by blast
  qed (simp_all add: p1 p2)
qed

lemma dfs_post_visit:
  assumes "vx \<in> colored color White" "vx \<in> dom color"
    and "dfs_post (color(vx \<mapsto> Gray)) (log_vertex vx Discovered l) c1 l1 N m"
    and "out vx = Some es" "\<forall>e \<in> set es. \<exists>w. tgt e = Some w \<and> w \<in> colored c1 Black \<union> colored c1 Gray"
  shows "dfs_post color l (c1(vx \<mapsto> Black)) (log_vertex vx Finished l1) (insert vx N)
           ([(vx, Discovered)] @ m @ [(vx, Finished)])"
proof -
  have W: "colored (color(vx \<mapsto> Gray)) White = colored color White - {vx}"
    and G: "colored (color(vx \<mapsto> Gray)) Gray = insert vx (colored color Gray)"
    and W2: "colored (c1(vx \<mapsto> Black)) White = colored c1 White - {vx}"
    and G2: "colored (c1(vx \<mapsto> Black)) Gray = colored c1 Gray - {vx}"
    and B2: "colored (c1(vx \<mapsto> Black)) Black = insert vx (colored c1 Black)"
    by (simp_all add: colored_upd)
  have vx: "vx \<notin> colored color Gray" using assms(1) by (simp add: colored_def)
  note p = assms(3) [unfolded dfs_post_def W G]
  have "\<forall>v \<in> insert vx N. \<forall>es e w. out v = Some es \<longrightarrow> e \<in> set es \<longrightarrow> tgt e = Some w \<longrightarrow>
        w \<in> insert vx (colored c1 Black) \<union> colored color Gray"
  proof (intro ballI allI impI)
    fix v es' e w
    assume v: "v \<in> insert vx N" "out v = Some es'" "e \<in> set es'" "tgt e = Some w"
    then have "w \<in> colored c1 Black \<union> insert vx (colored color Gray)"
      using p assms(4,5) by (cases "v \<in> N") auto
    then show "w \<in> insert vx (colored c1 Black) \<union> colored color Gray" by blast
  qed
  then show ?thesis
    using p vx assms(1,2) unfolding dfs_post_def W2 G2 B2 by (auto simp: log_vertex_def)
qed

lemma dfs_edges_spec:
  assumes visit: "\<And>vx color l. vx \<in> colored color White \<Longrightarrow> dom color = V \<Longrightarrow> card (colored color White) \<le> n \<Longrightarrow>
     \<exists>color' l' N m. dfs_visit n out tgt log_vertex (\<lambda>_ _ l. l) vx color l = Some (color', l') \<and>
       dfs_post color l color' l' N m \<and> vx \<in> N \<and> (\<forall>s. vx \<in> (reach (edge_succs out tgt) s) \<longrightarrow> N \<subseteq> (reach (edge_succs out tgt) s))"
    and "\<forall>e \<in> set es. \<exists>w \<in> V. tgt e = Some w" "dom color = V" "card (colored color White) \<le> n"
  shows "\<exists>color' l' N m. dfs_edges n out tgt log_vertex (\<lambda>_ _ l. l) es color l = Some (color', l') \<and>
       dfs_post color l color' l' N m \<and>
       (\<forall>e \<in> set es. \<exists>w. tgt e = Some w \<and> w \<in> colored color' Black \<union> colored color' Gray) \<and>
       (\<forall>s. (\<forall>e \<in> set es. \<forall>w. tgt e = Some w \<longrightarrow> w \<in> (reach (edge_succs out tgt) s)) \<longrightarrow> N \<subseteq> (reach (edge_succs out tgt) s))"
  using assms(2-4)
proof (induction es arbitrary: color l)
  case Nil
  then show ?case using dfs_post_refl by fastforce
next
  case (Cons e es)
  obtain w where w: "tgt e = Some w" "w \<in> V" using Cons.prems by auto
  have rest: "\<exists>color' l' N m. dfs_edges n out tgt log_vertex (\<lambda>_ _ l. l) es c1 l1 = Some (color', l') \<and>
       dfs_post color l color' l' N m \<and>
       (\<forall>e \<in> set (e # es). \<exists>w. tgt e = Some w \<and> w \<in> colored color' Black \<union> colored color' Gray) \<and>
       (\<forall>s. (\<forall>e \<in> set (e # es). \<forall>w. tgt e = Some w \<longrightarrow> w \<in> (reach (edge_succs out tgt) s)) \<longrightarrow> N \<subseteq> (reach (edge_succs out tgt) s))"
    if c1: "dfs_post color l c1 l1 N1 m1" "w \<notin> colored c1 White" "\<forall>s. w \<in> (reach (edge_succs out tgt) s) \<longrightarrow> N1 \<subseteq> (reach (edge_succs out tgt) s)" for c1 l1 N1 m1
  proof -
    have "dom c1 = V" "card (colored c1 White) \<le> n"
      using c1(1) Cons.prems card_mono [OF finite_colored [OF Cons.prems(2)], of "colored c1 White" White]
      by (auto simp: dfs_post_def)
    then obtain c2 l2 N2 m2 where c2: "dfs_edges n out tgt log_vertex (\<lambda>_ _ l. l) es c1 l1 = Some (c2, l2)"
        "dfs_post c1 l1 c2 l2 N2 m2"
        "\<forall>e \<in> set es. \<exists>w. tgt e = Some w \<and> w \<in> colored c2 Black \<union> colored c2 Gray"
        "\<forall>s. (\<forall>e \<in> set es. \<forall>w. tgt e = Some w \<longrightarrow> w \<in> (reach (edge_succs out tgt) s)) \<longrightarrow> N2 \<subseteq> (reach (edge_succs out tgt) s)"
      using Cons.IH [of c1 l1] Cons.prems(1) by force
    have "w \<in> colored c2 Black \<union> colored c2 Gray"
      using c1(2) c2(2) w(2) \<open>dom c1 = V\<close> unfolding dfs_post_def colored_Black by auto
    moreover have "\<forall>s. (\<forall>e \<in> set (e # es). \<forall>w. tgt e = Some w \<longrightarrow> w \<in> (reach (edge_succs out tgt) s)) \<longrightarrow> N1 \<union> N2 \<subseteq> (reach (edge_succs out tgt) s)"
      using c1(3) c2(4) w(1) by simp
    ultimately show ?thesis
      using c2(1,3) w(1) dfs_post_trans [OF c1(1) c2(2)]
      by (intro exI [of _ c2] exI [of _ l2] exI [of _ "N1 \<union> N2"] exI [of _ "m1 @ m2"]) simp
  qed
  obtain cw where "color w = Some cw" using w(2) Cons.prems(2) by blast
  then consider "color w = Some White" | "color w = Some Gray" | "color w = Some Black"
    by (cases cw) auto
  then show ?case
  proof cases
    case 1
    then obtain c1 l1 N1 m1 where "dfs_visit n out tgt log_vertex (\<lambda>_ _ l. l) w color l = Some (c1, l1)"
        "dfs_post color l c1 l1 N1 m1" "w \<in> N1" "\<forall>s. w \<in> (reach (edge_succs out tgt) s) \<longrightarrow> N1 \<subseteq> (reach (edge_succs out tgt) s)"
      using visit [of w color l] Cons.prems(2,3) by (auto simp: colored_def)
    moreover have "w \<notin> colored c1 White" using calculation(2,3) by (auto simp: dfs_post_def)
    ultimately show ?thesis using rest [of c1 l1 N1 m1] w(1) 1 by simp
  qed (use rest [OF dfs_post_refl] w in \<open>auto simp: colored_def\<close>)
qed

lemma dfs_visit_spec:
  "vx \<in> colored color White \<Longrightarrow> dom color = V \<Longrightarrow> card (colored color White) \<le> n \<Longrightarrow>
     \<exists>color' l' N m. dfs_visit n out tgt log_vertex (\<lambda>_ _ l. l) vx color l = Some (color', l') \<and>
       dfs_post color l color' l' N m \<and> vx \<in> N \<and> (\<forall>s. vx \<in> (reach (edge_succs out tgt) s) \<longrightarrow> N \<subseteq> (reach (edge_succs out tgt) s))"
proof (induction n arbitrary: vx color l)
  case 0
  then show ?case using finite_colored [of color White] by auto
next
  case (Suc n)
  have vx: "vx \<in> dom color" using Suc.prems(1) by (auto simp: colored_def)
  obtain es where es: "out vx = Some es" "\<forall>e \<in> set es. \<exists>w \<in> V. tgt e = Some w"
    using out_closed vx Suc.prems(2) by blast
  have "card (colored (color(vx \<mapsto> Gray)) White) \<le> n" "dom (color(vx \<mapsto> Gray)) = V"
    using Suc.prems vx finite_colored [of color White] by (auto simp: colored_upd)
  then obtain c1 l1 N m where c1: "dfs_edges n out tgt log_vertex (\<lambda>_ _ l. l) es (color(vx \<mapsto> Gray)) (log_vertex vx Discovered l) = Some (c1, l1)"
      "dfs_post (color(vx \<mapsto> Gray)) (log_vertex vx Discovered l) c1 l1 N m"
      "\<forall>e \<in> set es. \<exists>w. tgt e = Some w \<and> w \<in> colored c1 Black \<union> colored c1 Gray"
      "\<forall>s. (\<forall>e \<in> set es. \<forall>w. tgt e = Some w \<longrightarrow> w \<in> (reach (edge_succs out tgt) s)) \<longrightarrow> N \<subseteq> (reach (edge_succs out tgt) s)"
    using dfs_edges_spec [of n es "color(vx \<mapsto> Gray)" "log_vertex vx Discovered l", OF Suc.IH] es(2) by blast
  have "insert vx N \<subseteq> (reach (edge_succs out tgt) s)" if "vx \<in> (reach (edge_succs out tgt) s)" for s
  proof -
    have "\<forall>e \<in> set es. \<forall>w. tgt e = Some w \<longrightarrow> w \<in> (reach (edge_succs out tgt) s)"
      using reach_step [OF that] those_map_total [of es V tgt] es those_map_set [of tgt es] by (fastforce simp: edge_succs_def)
    then show ?thesis using c1(4) that by blast
  qed
  then show ?case
    using dfs_post_visit [OF Suc.prems(1) vx c1(2) es(1) c1(3)] es(1) c1(1) by auto
qed

lemma depth_first_visit_spec:
  assumes "V = set verts" "s \<in> V"
  shows "\<exists>l. depth_first_visit log_vertex (\<lambda>_ _ l. l) s verts out tgt [] = Some l \<and>
           distinct (events Discovered l) \<and> set (events Discovered l) = (reach (edge_succs out tgt) s) \<and>
           distinct (events Finished l) \<and> set (events Finished l) = (reach (edge_succs out tgt) s)"
proof -
  let ?c = "map_of (map (\<lambda>v. (v, White)) verts)"
  have c: "dom ?c = V" "colored ?c White = V" "colored ?c Gray = {}"
    using assms(1) by (auto simp: colored_def map_of_map_restrict image_iff restrict_map_def split: if_splits)
  have "card V \<le> Suc (length verts)" using assms(1) card_length [of verts] by simp
  then obtain c' l' N m where v: "dfs_visit (Suc (length verts)) out tgt log_vertex (\<lambda>_ _ l. l) s ?c [] = Some (c', l')"
      "dfs_post ?c [] c' l' N m" "s \<in> N" "\<forall>t. s \<in> (reach (edge_succs out tgt) t) \<longrightarrow> N \<subseteq> (reach (edge_succs out tgt) t)"
    using dfs_visit_spec [of s ?c "Suc (length verts)" "[]"] c assms(2) by auto
  have N: "N \<subseteq> V" "colored c' Black = N"
    using v(2) c unfolding dfs_post_def colored_Black by auto
  have "(reach (edge_succs out tgt) s) \<subseteq> N"
  proof (rule reach_closed [OF v(3)], intro ballI allI impI)
    fix u ws assume u: "u \<in> N" "edge_succs out tgt u = Some ws"
    then obtain es where "out u = Some es" "those (map tgt es) = Some ws" by (auto simp: edge_succs_def split: option.splits)
    then show "set ws \<subseteq> N" using v(2) u(1) N(2) c(3) those_map_set [of tgt es ws] unfolding dfs_post_def by auto
  qed
  moreover have "N \<subseteq> (reach (edge_succs out tgt) s)" using v(4) by simp
  ultimately show ?thesis using v by (auto simp: depth_first_visit_def dfs_post_def)
qed

end


section \<open>The containers provide the interfaces\<close>

definition al_succs :: "('n, 'e) adjacency_list \<Rightarrow> al_vertex \<Rightarrow> al_vertex list option" where
  "al_succs g v = graph_succs al_out_edges al_target g v"

definition al_preds :: "('n, 'e) adjacency_list \<Rightarrow> al_vertex \<Rightarrow> al_vertex list option" where
  "al_preds g v = graph_succs al_in_edges al_source g v"

definition am_succs :: "('n, 'e) adjacency_matrix \<Rightarrow> nat \<Rightarrow> nat list option" where
  "am_succs g v = graph_succs am_out_edges am_target g v"

definition am_preds :: "('n, 'e) adjacency_matrix \<Rightarrow> nat \<Rightarrow> nat list option" where
  "am_preds g v = graph_succs am_in_edges am_source g v"

lemma al_succs_eq: "edge_succs (al_out_edges g) (al_target g) = al_succs g"
  by (simp add: al_succs_def graph_succs_def edge_succs_def fun_eq_iff)

interpretation al_search: finite_bigraph "if wf_al g then set (al_vertices g) else {}" "al_succs g" "al_preds g" for g
proof unfold_locales
  fix v w ws us
  assume v: "v \<in> (if wf_al g then set (al_vertices g) else {})"
  then have g: "wf_al g" and v': "v \<in> set (al_vertices g)" by (simp_all split: if_splits)
  show "\<exists>ws. al_succs g v = Some ws \<and> set ws \<subseteq> (if wf_al g then set (al_vertices g) else {})"
    using al.succs_total [OF g v'] g by (simp add: al_succs_def)
  show "\<exists>ws. al_preds g v = Some ws \<and> set ws \<subseteq> (if wf_al g then set (al_vertices g) else {})"
    using al.preds_total [OF g v'] g by (simp add: al_preds_def)
  assume "w \<in> (if wf_al g then set (al_vertices g) else {})" "al_succs g v = Some ws" "al_preds g w = Some us"
  then show "w \<in> set ws \<longleftrightarrow> v \<in> set us"
    using al.succs_preds [OF g v', of w ws us] g by (simp add: al_succs_def al_preds_def)
qed simp

interpretation al_dfs: edge_digraph "if wf_al g then set (al_vertices g) else {}" "al_out_edges g" "al_target g" for g
proof
  fix v assume v: "v \<in> (if wf_al g then set (al_vertices g) else {})"
  then obtain es where "al_out_edges g v = Some es" using al.out_total [of g v] by (auto split: if_splits)
  then show "\<exists>es. al_out_edges g v = Some es \<and>
      (\<forall>e \<in> set es. \<exists>w \<in> (if wf_al g then set (al_vertices g) else {}). al_target g e = Some w)"
    using v al.out_ends [of g v es] by (auto split: if_splits)
qed simp

interpretation am_search: finite_bigraph "if wf_am g then set (am_vertices g) else {}" "am_succs g" "am_preds g" for g
proof unfold_locales
  fix v w ws us
  assume v: "v \<in> (if wf_am g then set (am_vertices g) else {})"
  then have g: "wf_am g" and v': "v \<in> set (am_vertices g)" by (simp_all split: if_splits)
  show "\<exists>ws. am_succs g v = Some ws \<and> set ws \<subseteq> (if wf_am g then set (am_vertices g) else {})"
    using am.succs_total [OF g v'] g by (simp add: am_succs_def)
  show "\<exists>ws. am_preds g v = Some ws \<and> set ws \<subseteq> (if wf_am g then set (am_vertices g) else {})"
    using am.preds_total [OF g v'] g by (simp add: am_preds_def)
  assume "w \<in> (if wf_am g then set (am_vertices g) else {})" "am_succs g v = Some ws" "am_preds g w = Some us"
  then show "w \<in> set ws \<longleftrightarrow> v \<in> set us"
    using am.succs_preds [OF g v', of w ws us] g by (simp add: am_succs_def am_preds_def)
qed simp

section \<open>Properties\<close>

definition ag_rel :: "('n, 'e) abs_graph \<Rightarrow> (al_vertex \<times> al_vertex) set" where
  "ag_rel h = {(v, w). \<exists>e l. ag_edges h e = Some (l, v, w)}"

lemma al_edge_rel: "wf_al g \<Longrightarrow> edge_rel (al_succs g) = ag_rel (abs_al g)"
proof -
  assume g: "wf_al g"
  have "(\<exists>ws. al_succs g v = Some ws \<and> w \<in> set ws) \<longleftrightarrow> (\<exists>e l. ag_edges (abs_al g) e = Some (l, v, w))" for v w
  proof
    assume "\<exists>ws. al_succs g v = Some ws \<and> w \<in> set ws"
    then obtain es e where "al_out_edges g v = Some es" "e \<in> set es" "al_target g e = Some w"
      by (auto simp: al_succs_def graph_succs_def those_map_set split: option.splits)
    then show "\<exists>e l. ag_edges (abs_al g) e = Some (l, v, w)"
      using wf_core_out [of g v es] ag_edges_abs(3) [of g e v w] g
      by (auto simp: wf_al_def al_out_edges_def al_target_def)
  next
    assume "\<exists>e l. ag_edges (abs_al g) e = Some (l, v, w)"
    then obtain e where e: "map_of (edges g) e = Some (v, w)"
      using g ag_edges_abs(1) [of g] by (auto simp: wf_al_def)
    then have v: "v \<in> set (al_vertices g)" using wf_core_edge_ends [OF g] by blast
    obtain es ws where "al_out_edges g v = Some es" "al_succs g v = Some ws"
      using al.out_total [OF g v] al.succs_total [OF g v] by (auto simp: al_succs_def)
    moreover from this have "e \<in> set es" using g e wf_core_out [of g v es] by (auto simp: wf_al_def al_out_edges_def)
    ultimately show "\<exists>ws. al_succs g v = Some ws \<and> w \<in> set ws"
      using e those_map_set [of "al_target g" es ws w] by (auto simp: al_succs_def graph_succs_def al_target_def)
  qed
  then show "edge_rel (al_succs g) = ag_rel (abs_al g)" by (simp add: edge_rel_def ag_rel_def)
qed

lemma ag_rel_vertices: "wf_al g \<Longrightarrow> ag_rel (abs_al g) \<subseteq> set (al_vertices g) \<times> set (al_vertices g)"
  using wf_core_edge_ends [of g] ag_edges_abs(1) [of g] by (auto simp: ag_rel_def wf_al_def)

lemma reach_al: "wf_al g \<Longrightarrow> reach (al_succs g) s = {v. (s, v) \<in> (ag_rel (abs_al g))\<^sup>*}"
  by (simp add: reach_def al_edge_rel)

text \<open>
  A preorder traversal of an adjacency list terminates without a panic, starts with the
  start vertex and returns every vertex reachable from it exactly once.
\<close>

theorem preorder_visits_reachable:
  assumes "wf_al g" "s \<in> set (al_vertices g)"
  shows "\<exists>vs. tree_collect (al_succs g) (new_tree_iter s Preorder) = Some (s # vs) \<and>
           distinct (s # vs) \<and> set (s # vs) = {v. (s, v) \<in> (ag_rel (abs_al g))\<^sup>*}"
  using al_search.preorder_traversal [of s g] assms by (simp add: reach_al)

theorem preorder_visits_reachable_witness:
  "wf_al (fst (al_add_vertex al_new 7) :: (nat, nat) adjacency_list) \<and>
   (\<exists>vs. tree_collect (al_succs (fst (al_add_vertex al_new 7) :: (nat, nat) adjacency_list))
           (new_tree_iter (AlVertex 0) Preorder) = Some (AlVertex 0 # vs))"
proof -
  let ?g = "fst (al_add_vertex al_new 7) :: (nat, nat) adjacency_list"
  have "wf_al ?g" using al_singleton [of 7] by blast
  moreover have "AlVertex 0 \<in> set (al_vertices ?g)" by (simp add: al_vertices_def al_add_vertex_def al_new_def Let_def)
  ultimately show ?thesis using preorder_visits_reachable [of ?g "AlVertex 0"] by blast
qed

text \<open>
  A postorder traversal terminates without a panic, returns exactly the vertices
  reachable from the start, the start last, and returns no vertex twice if no reachable
  vertex has an edge back to the start.
\<close>

theorem postorder_visits_reachable:
  assumes "wf_al g" "s \<in> set (al_vertices g)"
  shows "\<exists>vs. tree_collect (al_succs g) (new_tree_iter s Postorder) = Some vs \<and>
           set vs = {v. (s, v) \<in> (ag_rel (abs_al g))\<^sup>*} \<and> vs \<noteq> [] \<and> last vs = s \<and>
           ((\<nexists>v. (s, v) \<in> (ag_rel (abs_al g))\<^sup>* \<and> (v, s) \<in> ag_rel (abs_al g)) \<longrightarrow> distinct vs)"
proof -
  have "s \<notin> set ws" if "\<nexists>v. (s, v) \<in> (ag_rel (abs_al g))\<^sup>* \<and> (v, s) \<in> ag_rel (abs_al g)"
      "(s, v) \<in> (ag_rel (abs_al g))\<^sup>*" "al_succs g v = Some ws" for v ws
    using that al_edge_rel [OF assms(1)] by (auto simp: edge_rel_def)
  then show ?thesis
    using al_search.postorder_traversal [of s g] assms by (auto simp: reach_al)
qed

theorem postorder_visits_reachable_witness:
  "wf_al (fst (al_add_vertex al_new 7) :: (nat, nat) adjacency_list) \<and>
   (\<exists>vs. tree_collect (al_succs (fst (al_add_vertex al_new 7) :: (nat, nat) adjacency_list))
           (new_tree_iter (AlVertex 0) Postorder) = Some vs \<and> last vs = AlVertex 0)"
proof -
  let ?g = "fst (al_add_vertex al_new 7) :: (nat, nat) adjacency_list"
  have "wf_al ?g" using al_singleton [of 7] by blast
  moreover have "AlVertex 0 \<in> set (al_vertices ?g)" by (simp add: al_vertices_def al_add_vertex_def al_new_def Let_def)
  ultimately show ?thesis using postorder_visits_reachable [of ?g "AlVertex 0"] by blast
qed

text \<open>The restriction is needed: on a cycle through the start, the start is returned twice.\<close>

lemma postorder_repeats_start:
  "tree_collect [0 \<mapsto> [1 :: nat], 1 \<mapsto> [0]] (new_tree_iter 0 Postorder) = Some [0, 1, 0]"
  by code_simp

text \<open>
  The connectivity test terminates without a panic and decides whether any two vertices
  are joined by a path that may follow edges in both directions; its assertion never fails.
\<close>

theorem is_connected_correct:
  assumes "wf_al g"
  shows "is_connected (al_vertices g) (al_succs g) (al_preds g) =
           Some (\<forall>u \<in> set (al_vertices g). \<forall>v \<in> set (al_vertices g).
                   (u, v) \<in> (ag_rel (abs_al g) \<union> (ag_rel (abs_al g))\<inverse>)\<^sup>*)"
  using al_search.is_connected_spec [of g "al_vertices g"] assms al.verts_distinct [OF assms]
    al_search.reach_undirected [of _ g] ag_rel_vertices [OF assms]
  by (simp add: al_edge_rel)

theorem is_connected_correct_witness:
  "wf_al (al_new :: (nat, nat) adjacency_list) \<and>
   is_connected (al_vertices (al_new :: (nat, nat) adjacency_list)) (al_succs (al_new :: (nat, nat) adjacency_list))
     (al_preds (al_new :: (nat, nat) adjacency_list)) = Some True"
  using is_connected_correct [of "al_new :: (nat, nat) adjacency_list"] by simp (simp add: al_vertices_def al_new_def)

text \<open>
  The recursive depth first visit terminates without a panic; it reports every vertex
  reachable from the start as discovered exactly once and as finished exactly once, and no
  other vertex.
\<close>

theorem depth_first_visit_events:
  assumes "wf_al g" "s \<in> set (al_vertices g)"
  shows "\<exists>l. depth_first_visit log_vertex (\<lambda>_ _ l. l) s (al_vertices g) (al_out_edges g) (al_target g) [] = Some l \<and>
           distinct (events Discovered l) \<and> set (events Discovered l) = {v. (s, v) \<in> (ag_rel (abs_al g))\<^sup>*} \<and>
           distinct (events Finished l) \<and> set (events Finished l) = {v. (s, v) \<in> (ag_rel (abs_al g))\<^sup>*}"
  using al_dfs.depth_first_visit_spec [of g "al_vertices g" s] assms by (simp add: al_succs_eq reach_al)

theorem depth_first_visit_events_witness:
  "wf_al (fst (al_add_vertex al_new 7) :: (nat, nat) adjacency_list) \<and>
   (\<exists>l. depth_first_visit log_vertex (\<lambda>_ _ l. l) (AlVertex 0)
           (al_vertices (fst (al_add_vertex al_new 7) :: (nat, nat) adjacency_list))
           (al_out_edges (fst (al_add_vertex al_new 7) :: (nat, nat) adjacency_list))
           (al_target (fst (al_add_vertex al_new 7) :: (nat, nat) adjacency_list)) [] = Some l \<and>
         distinct (events Discovered l))"
proof -
  let ?g = "fst (al_add_vertex al_new 7) :: (nat, nat) adjacency_list"
  have "wf_al ?g" using al_singleton [of 7] by blast
  moreover have "AlVertex 0 \<in> set (al_vertices ?g)" by (simp add: al_vertices_def al_add_vertex_def al_new_def Let_def)
  ultimately show ?thesis using depth_first_visit_events [of ?g "AlVertex 0"] by blast
qed

end
