(* ===== verification/World.thy ===== *)
theory World
  imports Region Search "HOL-Library.Monad_Syntax"
begin

text \<open>
  \<^verbatim>\<open>World\<close> of \<^verbatim>\<open>core/src/region.rs\<close>: regions and the areas of a region that other regions fill, as a graph
  whose edges carry these areas, and the projection to the areas that no other region fills.
\<close>

section \<open>Worlds\<close>

type_synonym region_graph = "(region, bound) adjacency_list"
type_synonym region_ref = al_vertex

record world =
  w_dependencies :: region_graph
  w_root :: region_ref

definition world_new :: "region \<Rightarrow> world" where
  "world_new rg = (let (g, b) = al_add_vertex al_new rg in \<lparr>w_dependencies = g, w_root = b\<rparr>)"

text \<open>The edges that leave a region with their areas, ordered by the start of the area.\<close>

definition sorted_deps :: "region_graph \<Rightarrow> region_ref \<Rightarrow> (al_edge \<times> bound) list option" where
  "sorted_deps g v = do {
     es \<leftarrow> al_out_edges g v;
     bs \<leftarrow> those (map (al_edge_label g) es);
     Some (sort_key (\<lambda>d. b_start (snd d)) (zip es bs))
   }"

text \<open>\<^verbatim>\<open>step\<close> and its loop over the edges.  Every call enters a new region, so the fuel is a bound on the depth of the calls.\<close>

fun projection_step and projection_edges where
  "projection_step 0 (g :: region_graph) v ret visited = None"
| "projection_step (Suc n) g v ret visited = do {
     rg \<leftarrow> al_vertex_label g v;
     ds \<leftarrow> sorted_deps g v;
     (lst, ret1, visited1) \<leftarrow> projection_edges n g v ds 0 ret visited;
     Some (if lst < r_size rg then ret1 @ [(new_bound lst (r_size rg), v)] else ret1, visited1)
   }"
| "projection_edges n g v [] lst ret visited = Some (lst, ret, visited)"
| "projection_edges n g v ((e, b) # ds) lst ret visited = do {
     nx \<leftarrow> al_target g e;
     let ret1 = (if lst < b_start b then ret @ [(new_bound lst (b_start b), v)] else ret);
     (ret2, visited2) \<leftarrow> (if nx \<notin> visited then projection_step n g nx ret1 (insert nx visited) else Some (ret1, visited));
     projection_edges n g v ds (b_end b) ret2 visited2
   }"

definition projection :: "world \<Rightarrow> (bound \<times> region_ref) list option" where
  "projection w =
     (if 0 < al_num_vertices (w_dependencies w)
      then map_option fst (projection_step (Suc (al_num_vertices (w_dependencies w))) (w_dependencies w) (w_root w) [] {})
      else Some [])"

section \<open>The areas of a region\<close>

fun gaps :: "nat \<Rightarrow> (al_edge \<times> bound) list \<Rightarrow> bound list" where
  "gaps lst [] = []"
| "gaps lst ((e, b) # ds) = (if lst < b_start b then [new_bound lst (b_start b)] else []) @ gaps (b_end b) ds"

fun last_end :: "nat \<Rightarrow> (al_edge \<times> bound) list \<Rightarrow> nat" where
  "last_end lst [] = lst"
| "last_end lst ((e, b) # ds) = last_end (b_end b) ds"

definition free_parts :: "nat \<Rightarrow> nat \<Rightarrow> (al_edge \<times> bound) list \<Rightarrow> bound list" where
  "free_parts sz lst ds = gaps lst ds @ (if last_end lst ds < sz then [new_bound (last_end lst ds) sz] else [])"

definition free_areas :: "region_graph \<Rightarrow> region_ref \<Rightarrow> (bound \<times> region_ref) list" where
  "free_areas g v = (case (al_vertex_label g v, sorted_deps g v) of
     (Some rg, Some ds) \<Rightarrow> map (\<lambda>b. (b, v)) (free_parts (r_size rg) 0 ds) | _ \<Rightarrow> [])"

definition inside :: "nat \<Rightarrow> bound \<Rightarrow> bool" where
  "inside x b \<longleftrightarrow> b_start b \<le> x \<and> x < b_end b"

lemma free_parts_count:
  assumes "sorted_wrt (\<lambda>c d. b_end (snd c) \<le> b_start (snd d)) ds" "\<forall>d \<in> set ds. lst \<le> b_start (snd d) \<and> b_start (snd d) < b_end (snd d) \<and> b_end (snd d) \<le> sz"
    and "lst \<le> sz"
  shows "length (filter (inside x) (free_parts sz lst ds)) = of_bool (lst \<le> x \<and> x < sz \<and> (\<forall>d \<in> set ds. \<not> inside x (snd d)))"
  using assms
proof (induction ds arbitrary: lst)
  case Nil
  then show ?case by (auto simp: free_parts_def inside_def new_bound_def)
next
  case (Cons d ds)
  obtain e b where d: "d = (e, b)" by (cases d)
  have b: "lst \<le> b_start b" "b_start b < b_end b" "b_end b \<le> sz" using Cons.prems(2) d by auto
  have ih: "length (filter (inside x) (free_parts sz (b_end b) ds)) = of_bool (b_end b \<le> x \<and> x < sz \<and> (\<forall>d \<in> set ds. \<not> inside x (snd d)))"
    using Cons d by (intro Cons.IH) auto
  have later: "\<not> inside x (snd d')" if "x < b_end b" "d' \<in> set ds" for d'
    using that Cons.prems(1) d by (auto simp: inside_def)
  have "free_parts sz lst (d # ds) = (if lst < b_start b then [new_bound lst (b_start b)] else []) @ free_parts sz (b_end b) ds"
    by (simp add: free_parts_def d)
  then have "length (filter (inside x) (free_parts sz lst (d # ds))) =
      of_bool (lst \<le> x \<and> x < b_start b) + of_bool (b_end b \<le> x \<and> x < sz \<and> (\<forall>d \<in> set ds. \<not> inside x (snd d)))"
    using ih by (auto simp: inside_def new_bound_def)
  also have "\<dots> = of_bool (lst \<le> x \<and> x < sz \<and> \<not> inside x b \<and> (\<forall>d \<in> set ds. \<not> inside x (snd d)))"
  proof (cases "x < b_end b")
    case True
    then have "\<forall>d \<in> set ds. \<not> inside x (snd d)" using later by blast
    then show ?thesis using True b by (simp add: inside_def) linarith
  next
    case False
    then show ?thesis using b by (simp add: inside_def)
  qed
  finally show ?case by (simp add: d)
qed

section \<open>The projection\<close>

definition dep_rel :: "region_graph \<Rightarrow> (region_ref \<times> region_ref) set" where
  "dep_rel g = {(v, w). \<exists>es e. al_out_edges g v = Some es \<and> e \<in> set es \<and> al_target g e = Some w}"

lemma dep_rel_eq:
  assumes "wf_al g" "v \<in> set (al_vertices g)"
  shows "(v, w) \<in> dep_rel g \<longleftrightarrow> (v, w) \<in> edge_rel (al_succs g)"
proof -
  obtain es where es: "al_out_edges g v = Some es" "\<forall>e \<in> set es. \<exists>w \<in> set (al_vertices g). al_target g e = Some w"
    using al_dfs.out_closed [of v g] assms by auto
  obtain ws where "those (map (al_target g) es) = Some ws" using those_map_total [OF es(2)] by blast
  then show ?thesis
    using es(1) those_map_set [of "al_target g" es ws w] by (auto simp: dep_rel_def edge_rel_def al_succs_eq [symmetric] edge_succs_def)
qed

lemma sorted_deps_total:
  assumes "wf_al g" "v \<in> set (al_vertices g)"
  shows "\<exists>ds es rg. al_out_edges g v = Some es \<and> sorted_deps g v = Some ds \<and> fst ` set ds = set es \<and> al_vertex_label g v = Some rg \<and>
    (\<forall>d \<in> set ds. \<exists>w \<in> set (al_vertices g). al_target g (fst d) = Some w)"
proof -
  obtain es where es: "al_out_edges g v = Some es" "\<forall>e \<in> set es. \<exists>w \<in> set (al_vertices g). al_target g e = Some w"
    using al_dfs.out_closed [of v g] assms by auto
  have "\<forall>e \<in> set es. \<exists>b \<in> UNIV. al_edge_label g e = Some b"
  proof
    fix e assume "e \<in> set es"
    then have "map_of (edges g) e \<noteq> None" using es(2) by (auto simp: al_target_def)
    then show "\<exists>b \<in> UNIV. al_edge_label g e = Some b" using wf_core_D(3) [of g e] assms(1) by (auto simp: wf_al_def al_edge_label_def)
  qed
  then obtain bs where bs: "those (map (al_edge_label g) es) = Some bs" using those_map_total [of es UNIV "al_edge_label g"] by blast
  then have "length es = length bs" by (metis length_map those_eq_Some_iff)
  then have "fst ` set (sort_key (\<lambda>d. b_start (snd d)) (zip es bs)) = set es" by (metis map_fst_zip set_map set_sort)
  moreover have "\<exists>rg. al_vertex_label g v = Some rg" using assms(2) by (auto simp: al_vertices_def al_vertex_label_def weak_map_of_SomeI)
  ultimately show ?thesis using es bs by (auto simp: sorted_deps_def)
qed

text \<open>What a call of \<^verbatim>\<open>step\<close> has done: the areas of the region and of all regions newly visited are added.\<close>

definition projected :: "region_graph \<Rightarrow> (bound \<times> region_ref) multiset \<Rightarrow> (bound \<times> region_ref) list \<Rightarrow> region_ref set \<Rightarrow>
    (bound \<times> region_ref) list \<Rightarrow> region_ref set \<Rightarrow> bool" where
  "projected g A ret vis ret' vis' \<longleftrightarrow>
     vis \<subseteq> vis' \<and> vis' \<subseteq> set (al_vertices g) \<and> mset ret' = mset ret + A + (\<Sum>u \<in> vis' - vis. mset (free_areas g u)) \<and>
     (\<forall>u \<in> vis' - vis. dep_rel g `` {u} \<subseteq> vis')"

lemma projected_trans:
  assumes "projected g A r v r1 v1" "projected g B r1 v1 r2 v2"
  shows "projected g (A + B) r v r2 v2"
proof -
  have sub: "v \<subseteq> v1" "v1 \<subseteq> v2" "v2 \<subseteq> set (al_vertices g)" using assms by (auto simp: projected_def)
  then have fin: "finite v2" using finite_subset by blast
  have "v2 - v = (v1 - v) \<union> (v2 - v1)" using sub by blast
  then have "(\<Sum>u \<in> v2 - v. mset (free_areas g u)) = (\<Sum>u \<in> v1 - v. mset (free_areas g u)) + (\<Sum>u \<in> v2 - v1. mset (free_areas g u))"
    using fin sub by (metis Diff_disjoint Int_Diff finite_Diff finite_subset inf.commute sum.union_disjoint)
  moreover have "dep_rel g `` {u} \<subseteq> v2" if "u \<in> v2 - v" for u
  proof -
    have "\<forall>u \<in> v1 - v. dep_rel g `` {u} \<subseteq> v1" "\<forall>u \<in> v2 - v1. dep_rel g `` {u} \<subseteq> v2" using assms by (auto simp: projected_def)
    then show ?thesis using sub(2) that by (cases "u \<in> v1") blast+
  qed
  moreover have "mset r1 = mset r + A + (\<Sum>u \<in> v1 - v. mset (free_areas g u))" "mset r2 = mset r1 + B + (\<Sum>u \<in> v2 - v1. mset (free_areas g u))"
    using assms by (simp_all add: projected_def)
  ultimately show ?thesis using sub unfolding projected_def by (auto simp: ac_simps)
qed

lemma projected_append: "vis \<subseteq> set (al_vertices g) \<Longrightarrow> projected g (mset xs) ret vis (ret @ xs) vis"
  by (simp add: projected_def)

lemma projected_enter:
  assumes "projected g (mset (free_areas g nx)) ret (insert nx vis) ret' vis'" "nx \<notin> vis" "dep_rel g `` {nx} \<subseteq> vis'"
  shows "projected g {#} ret vis ret' vis'"
proof -
  have "finite vis'" using assms(1) finite_subset by (auto simp: projected_def)
  moreover have "vis' - vis = insert nx (vis' - insert nx vis)" "nx \<notin> vis' - insert nx vis" using assms by (auto simp: projected_def)
  ultimately have "(\<Sum>u \<in> vis' - vis. mset (free_areas g u)) = mset (free_areas g nx) + (\<Sum>u \<in> vis' - insert nx vis. mset (free_areas g u))"
    by (metis finite_Diff sum.insert)
  then show ?thesis using assms unfolding projected_def by (auto simp: ac_simps)
qed

lemma projection_edges_spec:
  assumes step: "\<And>nx ret vis. nx \<in> vis \<Longrightarrow> vis \<subseteq> set (al_vertices g) \<Longrightarrow> card (set (al_vertices g) - vis) < n \<Longrightarrow>
      \<exists>ret' vis'. projection_step n g nx ret vis = Some (ret', vis') \<and> projected g (mset (free_areas g nx)) ret vis ret' vis' \<and>
        dep_rel g `` {nx} \<subseteq> vis' \<and> vis' - vis \<subseteq> (dep_rel g)\<^sup>+ `` {nx}"
    and "\<forall>d \<in> set ds. \<exists>w \<in> set (al_vertices g). al_target g (fst d) = Some w" "vis \<subseteq> set (al_vertices g)" "card (set (al_vertices g) - vis) \<le> n"
  shows "\<exists>ret' vis'. projection_edges n g v ds lst ret vis = Some (last_end lst ds, ret', vis') \<and>
    projected g (mset (map (\<lambda>b. (b, v)) (gaps lst ds))) ret vis ret' vis' \<and>
    (\<forall>d \<in> set ds. \<exists>w \<in> vis'. al_target g (fst d) = Some w) \<and>
    (\<forall>u \<in> vis' - vis. \<exists>d \<in> set ds. \<exists>w. al_target g (fst d) = Some w \<and> (w, u) \<in> (dep_rel g)\<^sup>*)"
  using assms(2-4)
proof (induction ds arbitrary: lst ret vis)
  case Nil
  then show ?case using projected_append [of vis g "[]" ret] by auto
next
  case (Cons d ds)
  obtain e b where d: "d = (e, b)" by (cases d)
  obtain nx where nx: "nx \<in> set (al_vertices g)" "al_target g e = Some nx" using Cons.prems(1) d by auto
  let ?xs = "map (\<lambda>b. (b, v)) (if lst < b_start b then [new_bound lst (b_start b)] else [])"
  have p0: "projected g (mset ?xs) ret vis (ret @ ?xs) vis" by (rule projected_append [OF Cons.prems(2)])
  obtain ret2 vis2 where s2: "(if nx \<notin> vis then projection_step n g nx (ret @ ?xs) (insert nx vis) else Some (ret @ ?xs, vis)) = Some (ret2, vis2)"
      "projected g {#} (ret @ ?xs) vis ret2 vis2" "nx \<in> vis2" "vis2 - vis \<subseteq> (dep_rel g)\<^sup>* `` {nx}"
  proof (cases "nx \<in> vis")
    case True
    then show ?thesis using that [of "ret @ ?xs" vis] projected_append [OF Cons.prems(2), of "[]" "ret @ ?xs"] by simp
  next
    case False
    then have "set (al_vertices g) - insert nx vis \<subset> set (al_vertices g) - vis" using nx(1) by blast
    then have "card (set (al_vertices g) - insert nx vis) < n" using Cons.prems(3) psubset_card_mono by (metis List.finite_set finite_Diff less_le_trans)
    then obtain ret' vis' where st: "projection_step n g nx (ret @ ?xs) (insert nx vis) = Some (ret', vis')"
        "projected g (mset (free_areas g nx)) (ret @ ?xs) (insert nx vis) ret' vis'" "dep_rel g `` {nx} \<subseteq> vis'"
        "vis' - insert nx vis \<subseteq> (dep_rel g)\<^sup>+ `` {nx}"
      using step [of nx "insert nx vis" "ret @ ?xs"] Cons.prems(2) nx(1) by auto
    have "vis' - vis \<subseteq> (dep_rel g)\<^sup>* `` {nx}" using st(4) by (auto dest: trancl_into_rtrancl)
    then show ?thesis using that [of ret' vis'] st False projected_enter [OF st(2) False st(3)] by (auto simp: projected_def)
  qed
  have v2: "vis \<subseteq> vis2" "vis2 \<subseteq> set (al_vertices g)" using s2(2) by (auto simp: projected_def)
  have "card (set (al_vertices g) - vis2) \<le> n" using Cons.prems(3) v2(1) by (meson Diff_mono List.finite_set card_mono finite_Diff order.refl order.trans)
  from Cons.IH [of vis2 "b_end b" ret2, OF _ v2(2) this] Cons.prems(1)
  obtain ret' vis' where r: "projection_edges n g v ds (b_end b) ret2 vis2 = Some (last_end (b_end b) ds, ret', vis')"
      "projected g (mset (map (\<lambda>b. (b, v)) (gaps (b_end b) ds))) ret2 vis2 ret' vis'" "\<forall>d \<in> set ds. \<exists>w \<in> vis'. al_target g (fst d) = Some w"
      "\<forall>u \<in> vis' - vis2. \<exists>d \<in> set ds. \<exists>w. al_target g (fst d) = Some w \<and> (w, u) \<in> (dep_rel g)\<^sup>*" by auto
  have ret1: "(if lst < b_start b then ret @ [(new_bound lst (b_start b), v)] else ret) = ret @ ?xs" by simp
  have "projection_edges n g v (d # ds) lst ret vis = Some (last_end lst (d # ds), ret', vis')"
    using s2(1) r(1) nx(2) unfolding d projection_edges.simps(2) Let_def ret1 by simp
  moreover have "projected g (mset (map (\<lambda>b. (b, v)) (gaps lst (d # ds)))) ret vis ret' vis'"
    using projected_trans [OF projected_trans [OF p0 s2(2)] r(2)] by (simp add: d)
  moreover have "nx \<in> vis'" using s2(3) r(2) by (auto simp: projected_def)
  moreover have "\<exists>d' \<in> set (d # ds). \<exists>w. al_target g (fst d') = Some w \<and> (w, u) \<in> (dep_rel g)\<^sup>*" if "u \<in> vis' - vis" for u
    using that s2(4) r(4) nx(2) d by (cases "u \<in> vis2") auto
  ultimately show ?case using r(3) nx(2) d by (intro exI [of _ ret'] exI [of _ vis']) auto
qed

lemma projection_step_spec:
  assumes "wf_al g" "v \<in> set (al_vertices g)" "vis \<subseteq> set (al_vertices g)" "card (set (al_vertices g) - vis) < n"
  shows "\<exists>ret' vis'. projection_step n g v ret vis = Some (ret', vis') \<and> projected g (mset (free_areas g v)) ret vis ret' vis' \<and>
    dep_rel g `` {v} \<subseteq> vis' \<and> vis' - vis \<subseteq> (dep_rel g)\<^sup>+ `` {v}"
  using assms(2-4)
proof (induction n arbitrary: v ret vis)
  case (Suc n)
  obtain ds es rg where ds: "al_out_edges g v = Some es" "sorted_deps g v = Some ds" "fst ` set ds = set es" "al_vertex_label g v = Some rg"
      "\<forall>d \<in> set ds. \<exists>w \<in> set (al_vertices g). al_target g (fst d) = Some w"
    using sorted_deps_total [OF assms(1) Suc.prems(1)] by blast
  from projection_edges_spec [OF Suc.IH ds(5) Suc.prems(2), of v 0 ret] Suc.prems(3)
  obtain ret1 vis' where r: "projection_edges n g v ds 0 ret vis = Some (last_end 0 ds, ret1, vis')"
      "projected g (mset (map (\<lambda>b. (b, v)) (gaps 0 ds))) ret vis ret1 vis'" "\<forall>d \<in> set ds. \<exists>w \<in> vis'. al_target g (fst d) = Some w"
      "\<forall>u \<in> vis' - vis. \<exists>d \<in> set ds. \<exists>w. al_target g (fst d) = Some w \<and> (w, u) \<in> (dep_rel g)\<^sup>*" by auto
  let ?xs = "if last_end 0 ds < r_size rg then [(new_bound (last_end 0 ds) (r_size rg), v)] else []"
  have "projection_step (Suc n) g v ret vis = Some (ret1 @ ?xs, vis')" by (simp add: ds r(1))
  moreover have "projected g (mset (free_areas g v)) ret vis (ret1 @ ?xs) vis'"
    using projected_trans [OF r(2) projected_append [of vis' g ?xs ret1]] r(2)
    by (simp add: projected_def free_areas_def free_parts_def ds)
  moreover have "dep_rel g `` {v} \<subseteq> vis'" using r(3) ds(1,3) by (force simp: dep_rel_def)
  moreover have "(v, u) \<in> (dep_rel g)\<^sup>+" if u: "u \<in> vis' - vis" for u
  proof -
    obtain d w where dw: "d \<in> set ds" "al_target g (fst d) = Some w" "(w, u) \<in> (dep_rel g)\<^sup>*" using r(4) u by blast
    then have "(v, w) \<in> dep_rel g" using ds(1,3) by (auto simp: dep_rel_def)
    then show ?thesis using dw(3) by simp
  qed
  ultimately show ?case by blast
qed simp
section \<open>Correctness\<close>

lemma trancl_visited:
  assumes "E `` {s} \<subseteq> A" "\<forall>u \<in> A. E `` {u} \<subseteq> A"
  shows "E\<^sup>+ `` {s} \<subseteq> A"
proof
  fix u assume "u \<in> E\<^sup>+ `` {s}"
  then have "(s, u) \<in> E\<^sup>+" by simp
  then show "u \<in> A" by induction (use assms in auto)
qed

lemma projection_areas:
  assumes "wf_al (w_dependencies w)" "w_root w \<in> set (al_vertices (w_dependencies w))"
  shows "\<exists>ret. projection w = Some ret \<and> finite ((dep_rel (w_dependencies w))\<^sup>+ `` {w_root w}) \<and>
    mset ret = mset (free_areas (w_dependencies w) (w_root w)) +
      (\<Sum>u \<in> (dep_rel (w_dependencies w))\<^sup>+ `` {w_root w}. mset (free_areas (w_dependencies w) u))"
proof -
  let ?g = "w_dependencies w" and ?s = "w_root w"
  have num: "card (set (al_vertices ?g)) \<le> al_num_vertices ?g"
    using card_length [of "al_vertices ?g"] by (simp add: al_vertices_def al_num_vertices_def)
  have pos: "0 < al_num_vertices ?g" using assms(2) by (auto simp: al_vertices_def al_num_vertices_def)
  obtain ret vis where r: "projection_step (Suc (al_num_vertices ?g)) ?g ?s [] {} = Some (ret, vis)"
      "projected ?g (mset (free_areas ?g ?s)) [] {} ret vis" "dep_rel ?g `` {?s} \<subseteq> vis" "vis \<subseteq> (dep_rel ?g)\<^sup>+ `` {?s}"
    using projection_step_spec [OF assms, of "{}" "Suc (al_num_vertices ?g)" "[]"] num by auto
  have "\<forall>u \<in> vis. dep_rel ?g `` {u} \<subseteq> vis" using r(2) by (simp add: projected_def)
  then have vis: "vis = (dep_rel ?g)\<^sup>+ `` {?s}" using trancl_visited [OF r(3)] r(4) by blast
  have "finite vis" using r(2) finite_subset by (auto simp: projected_def)
  then show ?thesis using r pos unfolding vis by (simp add: projection_def projected_def)
qed

text \<open>The areas that leave a region are parts of it and do not overlap.\<close>

definition disjoint_deps :: "region_graph \<Rightarrow> region_ref \<Rightarrow> bool" where
  "disjoint_deps g v \<longleftrightarrow> (case (al_vertex_label g v, al_out_edges g v) of
     (Some rg, Some es) \<Rightarrow>
       (\<forall>e \<in> set es. case al_edge_label g e of None \<Rightarrow> False | Some b \<Rightarrow> b_start b < b_end b \<and> b_end b \<le> r_size rg \<and>
          (\<forall>e' \<in> set es. case al_edge_label g e' of None \<Rightarrow> False
             | Some b' \<Rightarrow> e' = e \<or> b_end b \<le> b_start b' \<or> b_end b' \<le> b_start b))
   | _ \<Rightarrow> False)"

text \<open>An address of a region that no other region fills.\<close>

definition is_free :: "region_graph \<Rightarrow> region_ref \<Rightarrow> nat \<Rightarrow> bool" where
  "is_free g v x \<longleftrightarrow> (case (al_vertex_label g v, al_out_edges g v) of
     (Some rg, Some es) \<Rightarrow> x < r_size rg \<and> (\<forall>e \<in> set es. case al_edge_label g e of None \<Rightarrow> True | Some b \<Rightarrow> \<not> inside x b)
   | _ \<Rightarrow> False)"

definition listed :: "region_ref \<Rightarrow> nat \<Rightarrow> bound \<times> region_ref \<Rightarrow> bool" where
  "listed v x p \<longleftrightarrow> snd p = v \<and> inside x (fst p)"

lemma sorted_deps_labels:
  assumes "wf_al g" "v \<in> set (al_vertices g)" "sorted_deps g v = Some ds"
  shows "\<exists>es. al_out_edges g v = Some es \<and> fst ` set ds = set es \<and> distinct (map fst ds) \<and> sorted (map (\<lambda>d. b_start (snd d)) ds) \<and>
    (\<forall>d \<in> set ds. al_edge_label g (fst d) = Some (snd d))"
proof -
  obtain es where es: "al_out_edges g v = Some es" "distinct es" using al.out_total [OF assms(1,2)] by blast
  obtain bs where bs: "map (al_edge_label g) es = map Some bs" "ds = sort_key (\<lambda>d. b_start (snd d)) (zip es bs)"
    using assms(3) es(1) by (auto simp: sorted_deps_def those_eq_Some_iff split: bind_splits)
  have len: "length es = length bs" using bs(1) by (metis length_map)
  have "mset (map fst ds) = mset (map fst (zip es bs))" unfolding bs(2) by simp
  then have "mset (map fst ds) = mset es" using len by simp
  then have "distinct (map fst ds)" "fst ` set ds = set es" using es(2) by (metis mset_eq_imp_distinct_iff, metis set_map set_mset_mset)
  moreover have "al_edge_label g (fst d) = Some (snd d)" if d: "d \<in> set ds" for d
  proof -
    obtain i where "i < length es" "d = (es ! i, bs ! i)" using d len unfolding bs(2) by (auto simp: in_set_zip)
    then show ?thesis using arg_cong [OF bs(1), of "\<lambda>xs. xs ! i"] len by simp
  qed
  ultimately show ?thesis using es(1) bs(2) by simp
qed

lemma free_areas_count:
  assumes "wf_al g" "v \<in> set (al_vertices g)" "disjoint_deps g v"
  shows "length (filter (listed v x) (free_areas g v)) = of_bool (is_free g v x)"
proof -
  obtain ds rg where ds: "sorted_deps g v = Some ds" "al_vertex_label g v = Some rg" using sorted_deps_total [OF assms(1,2)] by blast
  obtain es where es: "al_out_edges g v = Some es" "fst ` set ds = set es" "distinct (map fst ds)" "sorted (map (\<lambda>d. b_start (snd d)) ds)"
      "\<forall>d \<in> set ds. al_edge_label g (fst d) = Some (snd d)" using sorted_deps_labels [OF assms(1,2) ds(1)] by blast
  have each: "b_start (snd d) < b_end (snd d) \<and> b_end (snd d) \<le> r_size rg" if "d \<in> set ds" for d
  proof -
    have "fst d \<in> set es" using that es(2) by blast
    then show ?thesis using assms(3) es(5) that by (auto simp: disjoint_deps_def ds(2) es(1) dest!: bspec)
  qed
  have pair: "b_end (snd c) \<le> b_start (snd d) \<or> b_end (snd d) \<le> b_start (snd c)" if "c \<in> set ds" "d \<in> set ds" "fst c \<noteq> fst d" for c d
  proof -
    have mem: "fst c \<in> set es" "fst d \<in> set es" using that(1,2) es(2) by blast+
    from assms(3) mem(1) have "\<forall>e' \<in> set es. case al_edge_label g e' of None \<Rightarrow> False
        | Some b' \<Rightarrow> e' = fst c \<or> b_end (snd c) \<le> b_start b' \<or> b_end b' \<le> b_start (snd c)"
      using es(5) that(1) by (auto simp: disjoint_deps_def ds(2) es(1) dest!: bspec [of _ _ "fst c"])
    then show ?thesis using mem(2) es(5) that by fastforce
  qed
  have "sorted_wrt (\<lambda>c d. b_end (snd c) \<le> b_start (snd d)) ds"
    unfolding sorted_wrt_iff_nth_less
  proof (intro allI impI)
    fix i j assume ij: "i < j" "j < length ds"
    have "fst (ds ! i) \<noteq> fst (ds ! j)" using nth_eq_iff_index_eq [OF es(3), of i j] ij by simp
    moreover have "b_start (snd (ds ! i)) \<le> b_start (snd (ds ! j))" using es(4) ij by (simp add: sorted_iff_nth_mono)
    ultimately show "b_end (snd (ds ! i)) \<le> b_start (snd (ds ! j))"
      using pair [of "ds ! i" "ds ! j"] each [of "ds ! j"] ij by force
  qed
  from free_parts_count [OF this, of 0 "r_size rg" x] each
  have "length (filter (inside x) (free_parts (r_size rg) 0 ds)) = of_bool (x < r_size rg \<and> (\<forall>d \<in> set ds. \<not> inside x (snd d)))" by simp
  moreover have "(\<forall>d \<in> set ds. \<not> inside x (snd d)) \<longleftrightarrow> (\<forall>e \<in> set es. case al_edge_label g e of None \<Rightarrow> True | Some b \<Rightarrow> \<not> inside x b)"
    unfolding es(2) [symmetric] using es(5) by simp
  ultimately show ?thesis by (simp add: free_areas_def is_free_def listed_def ds es(1) filter_map comp_def)
qed

lemma size_filter_sum: "finite A \<Longrightarrow> size (filter_mset P (\<Sum>u \<in> A. f u)) = (\<Sum>u \<in> A. size (filter_mset P (f u)))"
  by (induction A rule: finite_induct) simp_all

lemma length_filter_mset: "length (filter P xs) = size (filter_mset P (mset xs))"
  by (metis mset_filter size_mset)

lemma free_areas_other: "u \<noteq> v \<Longrightarrow> filter (listed v x) (free_areas g u) = []"
  by (auto simp: free_areas_def listed_def filter_empty_conv split: option.splits)

lemma reach_vertices:
  assumes "wf_al g" "s \<in> set (al_vertices g)" "(s, v) \<in> (dep_rel g)\<^sup>*"
  shows "v \<in> set (al_vertices g)"
  using assms(3)
proof (induction rule: rtrancl_induct)
  case (step u w)
  then show ?case using al.out_ends [OF assms(1), of u] by (fastforce simp: dep_rel_def)
qed (rule assms(2))

text \<open>
  C21: \<^verbatim>\<open>World::projection\<close> ends without a panic and returns the uncovered areas of the root and of each region that
  depends on it through one or more edges, each region once; a root on a cycle is thus listed twice.  If the
  root lies on no cycle and the areas that other regions fill are nonempty parts of their region and do not overlap, every address of a
  region reachable from the root that no other region fills is in exactly one of the areas returned for the region, and no other address is in any.
\<close>

theorem world_projection:
  assumes "wf_al g" "s \<in> set (al_vertices g)"
  shows "\<exists>ret. projection \<lparr>w_dependencies = g, w_root = s\<rparr> = Some ret \<and>
    mset ret = mset (free_areas g s) + (\<Sum>u \<in> (dep_rel g)\<^sup>+ `` {s}. mset (free_areas g u)) \<and>
    ((s, s) \<notin> (dep_rel g)\<^sup>+ \<longrightarrow> (\<forall>v \<in> (dep_rel g)\<^sup>* `` {s}. disjoint_deps g v) \<longrightarrow>
     (\<forall>v x. length (filter (listed v x) ret) = of_bool ((s, v) \<in> (dep_rel g)\<^sup>* \<and> is_free g v x)))"
proof -
  obtain ret where r: "projection \<lparr>w_dependencies = g, w_root = s\<rparr> = Some ret" "finite ((dep_rel g)\<^sup>+ `` {s})"
      "mset ret = mset (free_areas g s) + (\<Sum>u \<in> (dep_rel g)\<^sup>+ `` {s}. mset (free_areas g u))"
    using projection_areas [of "\<lparr>w_dependencies = g, w_root = s\<rparr>"] assms by auto
  have "length (filter (listed v x) ret) = of_bool ((s, v) \<in> (dep_rel g)\<^sup>* \<and> is_free g v x)"
    if acyclic: "(s, s) \<notin> (dep_rel g)\<^sup>+" and disj: "\<forall>v \<in> (dep_rel g)\<^sup>* `` {s}. disjoint_deps g v" for v x
  proof -
    have star: "(dep_rel g)\<^sup>* `` {s} = insert s ((dep_rel g)\<^sup>+ `` {s})" by (auto simp: rtrancl_eq_or_trancl)
    have fin: "finite ((dep_rel g)\<^sup>* `` {s})" using r(2) star by simp
    from star have "mset ret = (\<Sum>u \<in> (dep_rel g)\<^sup>* `` {s}. mset (free_areas g u))" using r(2,3) acyclic by simp
    then have "length (filter (listed v x) ret) = (\<Sum>u \<in> (dep_rel g)\<^sup>* `` {s}. length (filter (listed v x) (free_areas g u)))"
      using size_filter_sum [of "(dep_rel g)\<^sup>* `` {s}" "listed v x" "\<lambda>u. mset (free_areas g u)"] r(2) star
      by (simp add: length_filter_mset)
    also have "\<dots> = (\<Sum>u \<in> (dep_rel g)\<^sup>* `` {s}. if u = v then length (filter (listed v x) (free_areas g v)) else 0)"
      by (rule sum.cong) (auto simp: free_areas_other)
    also have "\<dots> = (if (s, v) \<in> (dep_rel g)\<^sup>* then length (filter (listed v x) (free_areas g v)) else 0)"
      using fin by simp
    also have "\<dots> = of_bool ((s, v) \<in> (dep_rel g)\<^sup>* \<and> is_free g v x)"
      using free_areas_count [OF assms(1), of v x] reach_vertices [OF assms, of v] disj by auto
    finally show ?thesis .
  qed
  then show ?thesis using r(1,3) by blast
qed

text \<open>A world of three regions: both others fill parts of the first, and the third also a part of the second.\<close>

definition example_deps :: region_graph where
  "example_deps =
     (let (g1, r1) = al_add_vertex al_new (region_undefined ''base'' 128); (g2, r2) = al_add_vertex g1 (region_undefined ''zlib'' 64);
          (g3, r3) = al_add_vertex g2 (region_undefined ''aes'' 48); (g4, _) = al_add_edge g3 (new_bound 32 96) r1 r2;
          (g5, _) = al_add_edge g4 (new_bound 16 32) r1 r3; (g6, _) = al_add_edge g5 (new_bound 0 32) r2 r3
      in g6)"

lemma example_deps_eq:
  "example_deps = \<lparr>vertex_labels = [(AlVertex 0, region_undefined ''base'' 128), (AlVertex 1, region_undefined ''zlib'' 64), (AlVertex 2, region_undefined ''aes'' 48)],
     edge_labels = [(AlEdge 0, new_bound 32 96), (AlEdge 1, new_bound 16 32), (AlEdge 2, new_bound 0 32)],
     out_edges = [(AlVertex 0, [AlEdge 0, AlEdge 1]), (AlVertex 1, [AlEdge 2]), (AlVertex 2, [])],
     in_edges = [(AlVertex 0, []), (AlVertex 1, [AlEdge 0]), (AlVertex 2, [AlEdge 1, AlEdge 2])],
     edges = [(AlEdge 0, AlVertex 0, AlVertex 1), (AlEdge 1, AlVertex 0, AlVertex 2), (AlEdge 2, AlVertex 1, AlVertex 2)],
     next_edge = AlEdge 3, next_vertex = AlVertex 3\<rparr>"
  by (simp add: example_deps_def al_new_def al_add_vertex_def al_add_edge_def Let_def)

lemma example_deps_rel: "dep_rel example_deps = {(AlVertex 0, AlVertex 1), (AlVertex 0, AlVertex 2), (AlVertex 1, AlVertex 2)}"
  by (auto simp: dep_rel_def example_deps_eq al_out_edges_def al_target_def split: if_splits)

lemma example_deps_wf: "wf_al example_deps"
  unfolding example_deps_eq wf_al_def wf_core_def
  by (auto split: if_splits)

lemma example_acyclic: "(v, v) \<notin> (dep_rel example_deps)\<^sup>+"
proof
  assume "(v, v) \<in> (dep_rel example_deps)\<^sup>+"
  moreover have "dep_rel example_deps \<subseteq> measure al_vertex_id" by (auto simp: example_deps_rel)
  ultimately show False by (meson trancl_mono wf_acyclic wf_measure acyclic_def)
qed

lemma example_projection:
  "projection \<lparr>w_dependencies = example_deps, w_root = AlVertex 0\<rparr> =
     Some [(new_bound 0 16, AlVertex 0), (new_bound 0 48, AlVertex 2), (new_bound 32 64, AlVertex 1), (new_bound 96 128, AlVertex 0)]"
  by code_simp

theorem world_projection_witness:
  "\<exists>ret. projection \<lparr>w_dependencies = example_deps, w_root = AlVertex 0\<rparr> = Some ret \<and>
     (\<forall>v x. length (filter (listed v x) ret) = of_bool ((AlVertex 0, v) \<in> (dep_rel example_deps)\<^sup>* \<and> is_free example_deps v x))"
proof -
  have "disjoint_deps example_deps v" if "v \<in> {AlVertex 0, AlVertex 1, AlVertex 2}" for v
    using that by (auto simp: disjoint_deps_def example_deps_eq al_vertex_label_def al_out_edges_def al_edge_label_def region_undefined_def new_region_def new_bound_def)
  moreover have "(dep_rel example_deps)\<^sup>* `` {AlVertex 0} \<subseteq> {AlVertex 0, AlVertex 1, AlVertex 2}"
  proof -
    have "v \<in> set (al_vertices example_deps)" if "(AlVertex 0, v) \<in> (dep_rel example_deps)\<^sup>*" for v
      using reach_vertices [OF example_deps_wf _ that] by (simp add: example_deps_eq al_vertices_def)
    then show ?thesis by (auto simp: example_deps_eq al_vertices_def)
  qed
  ultimately have disj: "\<forall>v \<in> (dep_rel example_deps)\<^sup>* `` {AlVertex 0}. disjoint_deps example_deps v" by blast
  have "AlVertex 0 \<in> set (al_vertices example_deps)" by (simp add: example_deps_eq al_vertices_def)
  from world_projection [OF example_deps_wf this] obtain ret where "projection \<lparr>w_dependencies = example_deps, w_root = AlVertex 0\<rparr> = Some ret"
      and count: "(AlVertex 0, AlVertex 0) \<notin> (dep_rel example_deps)\<^sup>+ \<longrightarrow>
        (\<forall>v \<in> (dep_rel example_deps)\<^sup>* `` {AlVertex 0}. disjoint_deps example_deps v) \<longrightarrow>
        (\<forall>v x. length (filter (listed v x) ret) = of_bool ((AlVertex 0, v) \<in> (dep_rel example_deps)\<^sup>* \<and> is_free example_deps v x))"
    by (elim exE conjE) (rule that)
  with mp [OF mp [OF count example_acyclic] disj] show ?thesis by (intro exI conjI)
qed

end
