(* ===== verification/Il_Exec.thy ===== *)
theory Il_Exec
  imports Il
begin

text \<open>
  The evaluator \<^verbatim>\<open>il::execute\<close> of \<^verbatim>\<open>core/src/il.rs\<close>, one definition per group of match
  arms, in the order of the source.  Constants are 64 bit words together with a size in
  bits.  The result \<open>None\<close> is a panic of the checked build: a failed
  \<^verbatim>\<open>debug_assert!\<close>, the subtraction \<^verbatim>\<open>s - 1\<close> at size 0, or a shift by 64 or more outside
  \<^verbatim>\<open>Wrapping\<close>.

  The lemmas compare each arm with arithmetic on integers: modulo \<open>2 ^ s\<close> for the
  unsigned reading and with \<^const>\<open>signed_take_bit\<close> for the signed one.
\<close>

section \<open>Helpers\<close>

text \<open>The literal pattern \<^verbatim>\<open>Rvalue::Constant { value: v, size: s }\<close>.\<close>

fun match_const :: "u64 \<Rightarrow> rvalue \<Rightarrow> nat option" where
  "match_const v (RvConstant w s) = (if w = v then Some s else None)"
| "match_const v rv = None"

text \<open>The expression \<^verbatim>\<open>if s < 64 { Wrapping(a & ((1 << s) - 1)) } else { Wrapping(a) }\<close>.\<close>

definition masked :: "nat \<Rightarrow> u64 \<Rightarrow> u64" where
  "masked s a = (if s < 64 then a AND (push_bit s 1 - 1) else a)"

text \<open>Division and remainder of \<^verbatim>\<open>Wrapping<i64>\<close>: rounding towards zero, wrapping at \<open>MIN / -1\<close>.\<close>

definition i64_div :: "i64 \<Rightarrow> i64 \<Rightarrow> i64" where
  "i64_div a b = word_of_int (sint a sdiv sint b)"

definition i64_rem :: "i64 \<Rightarrow> i64 \<Rightarrow> i64" where
  "i64_rem a b = word_of_int (sint a smod sint b)"

text \<open>The sign adjustment repeated in the signed operations; \<open>s\<close> is positive.\<close>

definition sign_adjust :: "nat \<Rightarrow> u64 \<Rightarrow> i64" where
  "sign_adjust s a =
     (if s < 64 then
        (let sign_bit = push_bit (s - 1) 1; m = push_bit s 1;
             a' = (if sign_bit AND a \<noteq> 0 then a - m else a)
         in i64_rem a' m)
      else a)"

definition flag_const :: "bool \<Rightarrow> rvalue" where
  "flag_const b = RvConstant (if b then 1 else 0) 1"

section \<open>The arms of the evaluator\<close>

definition execute_add :: "rvalue \<Rightarrow> rvalue \<Rightarrow> rvalue option" where
  "execute_add a b = (case (a, b) of
     (RvConstant x s, RvConstant y s') \<Rightarrow>
       (if s = s' then Some (RvConstant ((x + y) AND bit_mask s) s) else None)
   | _ \<Rightarrow>
       (if match_const 0 a \<noteq> None then Some b
        else if match_const 0 b \<noteq> None then Some a
        else Some RvUndefined))"

definition execute_subtract :: "rvalue \<Rightarrow> rvalue \<Rightarrow> rvalue option" where
  "execute_subtract a b = (case (a, b) of
     (RvConstant x s, RvConstant y s') \<Rightarrow>
       (if s = s' then Some (RvConstant ((x - y) AND bit_mask s) s) else None)
   | _ \<Rightarrow> (if match_const 0 b \<noteq> None then Some a else Some RvUndefined))"

definition execute_multiply :: "rvalue \<Rightarrow> rvalue \<Rightarrow> rvalue option" where
  "execute_multiply a b = (case (a, b) of
     (RvConstant x s, RvConstant y s') \<Rightarrow>
       (if s = s' then Some (RvConstant ((x * y) AND bit_mask s) s) else None)
   | _ \<Rightarrow>
       (case match_const 0 a of
          Some s \<Rightarrow> Some (RvConstant 0 s)
        | None \<Rightarrow>
            (case match_const 0 b of
               Some s \<Rightarrow> Some (RvConstant 0 s)
             | None \<Rightarrow>
                 (if match_const 1 a \<noteq> None then Some b
                  else if match_const 1 b \<noteq> None then Some a
                  else Some RvUndefined))))"

definition execute_divide_unsigned :: "rvalue \<Rightarrow> rvalue \<Rightarrow> rvalue option" where
  "execute_divide_unsigned a b =
     (if match_const 0 b \<noteq> None then Some RvUndefined
      else (case (a, b) of
        (RvConstant x s, RvConstant y s') \<Rightarrow>
          (if s = s' then
             (if y AND bit_mask s = 0 then Some RvUndefined
              else Some (RvConstant ((x div y) AND bit_mask s) s))
           else None)
      | _ \<Rightarrow>
          (if match_const 1 b \<noteq> None then Some a
           else (case match_const 0 a of
                   Some s \<Rightarrow> Some (RvConstant 0 s)
                 | None \<Rightarrow> Some RvUndefined))))"

definition execute_divide_signed :: "rvalue \<Rightarrow> rvalue \<Rightarrow> rvalue option" where
  "execute_divide_signed a b =
     (if match_const 0 b \<noteq> None then Some RvUndefined
      else (case (a, b) of
        (RvConstant x s, RvConstant y s') \<Rightarrow>
          (if s = s' \<and> 0 < s then
             (let a' = sign_adjust s x; b' = sign_adjust s y
              in if b' = 0 then Some RvUndefined
                 else if s < 64 then Some (RvConstant (i64_div a' b' mod push_bit s 1) s)
                 else Some (RvConstant (i64_div a' b') s))
           else None)
      | _ \<Rightarrow>
          (if match_const 1 b \<noteq> None then Some a
           else (case match_const 0 a of
                   Some s \<Rightarrow> Some (RvConstant 0 s)
                 | None \<Rightarrow> Some RvUndefined))))"

definition execute_modulo :: "rvalue \<Rightarrow> rvalue \<Rightarrow> rvalue option" where
  "execute_modulo a b =
     (if match_const 0 b \<noteq> None then Some RvUndefined
      else (case (a, b) of
        (RvConstant x s, RvConstant y s') \<Rightarrow>
          (if s = s' then Some (RvConstant ((x mod y) AND bit_mask s) s) else None)
      | _ \<Rightarrow>
          (case match_const 0 a of
             Some s \<Rightarrow> Some (RvConstant 0 s)
           | None \<Rightarrow>
               (case match_const 1 b of
                  Some s \<Rightarrow> Some (RvConstant 0 s)
                | None \<Rightarrow> Some RvUndefined))))"

text \<open>\<^verbatim>\<open>Wrapping << n\<close> and \<^verbatim>\<open>Wrapping >> n\<close> reduce the shift amount modulo 64.\<close>

definition execute_shift_left :: "rvalue \<Rightarrow> rvalue \<Rightarrow> rvalue option" where
  "execute_shift_left a b = (case (a, b) of
     (RvConstant x s, RvConstant y s') \<Rightarrow>
       (if s = s' then Some (RvConstant (push_bit (unat y mod 64) x AND bit_mask s) s) else None)
   | _ \<Rightarrow>
       (case match_const 0 a of
          Some s \<Rightarrow> Some (RvConstant 0 s)
        | None \<Rightarrow> (if match_const 0 b \<noteq> None then Some a else Some RvUndefined)))"

definition execute_shift_right_unsigned :: "rvalue \<Rightarrow> rvalue \<Rightarrow> rvalue option" where
  "execute_shift_right_unsigned a b = (case (a, b) of
     (RvConstant x s, RvConstant y s') \<Rightarrow>
       (if s = s' then
          (if s \<le> unat y then Some (RvConstant 0 s)
           else (let n = min (min 64 s) (unat y)
                 in if n < 64 then Some (RvConstant (drop_bit n x AND bit_mask s) s) else None))
        else None)
   | _ \<Rightarrow>
       (case match_const 0 a of
          Some s \<Rightarrow> Some (RvConstant 0 s)
        | None \<Rightarrow> (if match_const 0 b \<noteq> None then Some a else Some RvUndefined)))"

definition execute_shift_right_signed :: "rvalue \<Rightarrow> rvalue \<Rightarrow> rvalue option" where
  "execute_shift_right_signed a b = (case (a, b) of
     (RvConstant x s, RvConstant y s') \<Rightarrow>
       (if s = s' \<and> 0 < s then
          (let a' = sign_adjust s x
           in if s \<le> unat y then
                (if sint a' < 0 then
                   (if s < 64 then Some (RvConstant (push_bit s 1 - 1) s)
                    else Some (RvConstant (- 1) s))
                 else Some (RvConstant 0 s))
              else if s < 64 then
                Some (RvConstant (signed_drop_bit (unat y mod 64) a' AND (push_bit s 1 - 1)) s)
              else Some (RvConstant (signed_drop_bit (unat y mod 64) a') s))
        else None)
   | _ \<Rightarrow>
       (case match_const 0 a of
          Some s \<Rightarrow> Some (RvConstant 0 s)
        | None \<Rightarrow> (if match_const 0 b \<noteq> None then Some a else Some RvUndefined)))"

definition execute_and :: "rvalue \<Rightarrow> rvalue \<Rightarrow> rvalue option" where
  "execute_and a b = (case (a, b) of
     (RvConstant x s, RvConstant y s') \<Rightarrow>
       (if s = s' then Some (RvConstant (masked s x AND masked s y) s) else None)
   | _ \<Rightarrow>
       (case match_const 0 b of
          Some s \<Rightarrow> Some (RvConstant 0 s)
        | None \<Rightarrow>
            (case match_const 0 a of
               Some s \<Rightarrow> Some (RvConstant 0 s)
             | None \<Rightarrow> Some RvUndefined)))"

definition execute_inclusive_or :: "rvalue \<Rightarrow> rvalue \<Rightarrow> rvalue option" where
  "execute_inclusive_or a b = (case (a, b) of
     (RvConstant x s, RvConstant y s') \<Rightarrow>
       (if s = s' then Some (RvConstant (masked s x OR masked s y) s) else None)
   | _ \<Rightarrow>
       (if match_const 0 b \<noteq> None then Some a
        else if match_const 0 a \<noteq> None then Some b
        else Some RvUndefined))"

definition execute_exclusive_or :: "rvalue \<Rightarrow> rvalue \<Rightarrow> rvalue option" where
  "execute_exclusive_or a b = (case (a, b) of
     (RvConstant x s, RvConstant y s') \<Rightarrow>
       (if s = s' then Some (RvConstant (masked s x XOR masked s y) s) else None)
   | _ \<Rightarrow> Some RvUndefined)"

definition execute_equal :: "rvalue \<Rightarrow> rvalue \<Rightarrow> rvalue option" where
  "execute_equal a b = (case (a, b) of
     (RvConstant x s, RvConstant y s') \<Rightarrow>
       (if s = s' then Some (flag_const (masked s x = masked s y)) else None)
   | _ \<Rightarrow> Some RvUndefined)"

definition execute_less_or_equal_unsigned :: "rvalue \<Rightarrow> rvalue \<Rightarrow> rvalue option" where
  "execute_less_or_equal_unsigned a b = (case (a, b) of
     (RvConstant x s, RvConstant y s') \<Rightarrow>
       (if s = s' then Some (flag_const (masked s x \<le> masked s y)) else None)
   | _ \<Rightarrow> (if match_const 0 a \<noteq> None then Some (RvConstant 1 1) else Some RvUndefined))"

definition execute_less_or_equal_signed :: "rvalue \<Rightarrow> rvalue \<Rightarrow> rvalue option" where
  "execute_less_or_equal_signed a b = (case (a, b) of
     (RvConstant x s, RvConstant y s') \<Rightarrow>
       (if s = s' \<and> 0 < s then
          (let msk = (if s < 64 then push_bit (s - 1) 1 - 1 else - 1);
               sign_mask = (if s < 64 then push_bit (s - 1) 1 else 0)
           in if (x AND sign_mask) XOR (y AND sign_mask) \<noteq> 0
              then Some (flag_const (x AND sign_mask \<noteq> 0))
              else Some (flag_const (x AND msk \<le> y AND msk)))
        else None)
   | _ \<Rightarrow> Some RvUndefined)"

definition execute_less_unsigned :: "rvalue \<Rightarrow> rvalue \<Rightarrow> rvalue option" where
  "execute_less_unsigned a b = (case (a, b) of
     (RvConstant x s, RvConstant y s') \<Rightarrow>
       (if s = s' then Some (flag_const (masked s x < masked s' y)) else None)
   | _ \<Rightarrow> Some RvUndefined)"

definition execute_less_signed :: "rvalue \<Rightarrow> rvalue \<Rightarrow> rvalue option" where
  "execute_less_signed a b = (case (a, b) of
     (RvConstant x s, RvConstant y s') \<Rightarrow>
       (if s = s' \<and> 0 < s
        then Some (flag_const (sint (sign_adjust s x) < sint (sign_adjust s y)))
        else None)
   | _ \<Rightarrow> Some RvUndefined)"

fun execute_zero_extend :: "nat \<Rightarrow> rvalue \<Rightarrow> rvalue option" where
  "execute_zero_extend s1 (RvConstant v s0) =
     Some (RvConstant ((v AND bit_mask s0) AND bit_mask s1) s1)"
| "execute_zero_extend s (RvVariable n ss off sz) = Some (RvVariable n ss 0 s)"
| "execute_zero_extend s RvUndefined = Some RvUndefined"

fun execute_sign_extend :: "nat \<Rightarrow> rvalue \<Rightarrow> rvalue option" where
  "execute_sign_extend t (RvConstant v s) =
     (if 0 < s then
        (let mask0 = bit_mask s; mask1 = bit_mask t;
             sign = (if s < 64 then push_bit (s - 1) 1 else 0)
         in if v AND sign = 0 then Some (RvConstant ((v AND mask0) AND mask1) t)
            else Some (RvConstant ((v AND mask0) OR (mask1 AND NOT mask0)) t))
      else None)"
| "execute_sign_extend s (RvVariable n ss off sz) = Some (RvVariable n ss 0 s)"
| "execute_sign_extend s RvUndefined = Some RvUndefined"

fun execute_move :: "rvalue \<Rightarrow> rvalue option" where
  "execute_move (RvConstant v s) =
     Some (if s < 64 then RvConstant (v AND (push_bit s 1 - 1)) s else RvConstant v s)"
| "execute_move a = Some a"

definition execute_select :: "nat \<Rightarrow> rvalue \<Rightarrow> rvalue \<Rightarrow> rvalue option" where
  "execute_select off a b = (case (a, b) of
     (RvConstant x s, RvConstant y s') \<Rightarrow>
       (if off + s' \<le> s then
          (if off + s' < 64 then
             (let hi = drop_bit (off + s') x; lo = x mod push_bit off 1
              in Some (RvConstant ((lo OR push_bit off y) OR push_bit (off + s') hi) s))
           else Some RvUndefined)
        else None)
   | _ \<Rightarrow> Some RvUndefined)"

fun execute_phi :: "rvalue list \<Rightarrow> rvalue option" where
  "execute_phi [] = Some RvUndefined"
| "execute_phi [v] = Some v"
| "execute_phi (v # vs) = (if list_all (\<lambda>x. v = x) (v # vs) then Some v else Some RvUndefined)"

fun execute :: "rvalue operation \<Rightarrow> rvalue option" where
  "execute (Add a b) = execute_add a b"
| "execute (Subtract a b) = execute_subtract a b"
| "execute (Multiply a b) = execute_multiply a b"
| "execute (DivideUnsigned a b) = execute_divide_unsigned a b"
| "execute (DivideSigned a b) = execute_divide_signed a b"
| "execute (Modulo a b) = execute_modulo a b"
| "execute (ShiftLeft a b) = execute_shift_left a b"
| "execute (ShiftRightUnsigned a b) = execute_shift_right_unsigned a b"
| "execute (ShiftRightSigned a b) = execute_shift_right_signed a b"
| "execute (And a b) = execute_and a b"
| "execute (InclusiveOr a b) = execute_inclusive_or a b"
| "execute (ExclusiveOr a b) = execute_exclusive_or a b"
| "execute (Equal a b) = execute_equal a b"
| "execute (LessOrEqualUnsigned a b) = execute_less_or_equal_unsigned a b"
| "execute (LessOrEqualSigned a b) = execute_less_or_equal_signed a b"
| "execute (LessUnsigned a b) = execute_less_unsigned a b"
| "execute (LessSigned a b) = execute_less_signed a b"
| "execute (ZeroExtend s a) = execute_zero_extend s a"
| "execute (SignExtend t a) = execute_sign_extend t a"
| "execute (Move a) = execute_move a"
| "execute (Initialize n s) = Some RvUndefined"
| "execute (Call a) = Some RvUndefined"
| "execute (Select off a b) = execute_select off a b"
| "execute (Load r e s a) = Some RvUndefined"
| "execute (Store r e s a b) = Some RvUndefined"
| "execute (Phi vec) = execute_phi vec"

lemmas execute_arm_defs [exec_simps] =
  execute_add_def execute_subtract_def execute_multiply_def execute_divide_unsigned_def
  execute_divide_signed_def execute_modulo_def execute_shift_left_def
  execute_shift_right_unsigned_def execute_shift_right_signed_def execute_and_def
  execute_inclusive_or_def execute_exclusive_or_def execute_equal_def
  execute_less_or_equal_unsigned_def execute_less_or_equal_signed_def
  execute_less_unsigned_def execute_less_signed_def execute_select_def

section \<open>Lemmas\<close>

subsection \<open>Signed and unsigned readings of a value of \<open>s\<close> bits\<close>

definition uval :: "nat \<Rightarrow> u64 \<Rightarrow> int" where
  "uval s a = uint a mod 2 ^ s"

definition sval :: "nat \<Rightarrow> u64 \<Rightarrow> int" where
  "sval s a = signed_take_bit (s - 1) (uint a)"

lemma flag_const_eq_iff [simp]: "flag_const a = flag_const b \<longleftrightarrow> a = b"
  by (simp add: flag_const_def)

lemma masked_eq [simp]: "masked s a = take_bit s a"
  by (simp add: masked_def)

lemma uint_take_bit_uval: "uint (take_bit s a) = uval s a"
  by (simp add: uval_def uint_take_bit)

lemma uval_canonical: "take_bit s a = a \<Longrightarrow> uval s a = uint a"
  by (metis uint_take_bit_uval)

lemma mod_exp_mod: "s \<le> 64 \<Longrightarrow> (k mod 18446744073709551616) mod 2 ^ s = k mod (2 ^ s :: int)"
proof -
  assume "s \<le> 64"
  then have "(2::int) ^ s dvd 2 ^ 64" by (rule le_imp_power_dvd)
  then show ?thesis using mod_mod_cancel [of "2 ^ s" "2 ^ 64" k] by simp
qed

lemma uval_plus: "s \<le> 64 \<Longrightarrow> uval s (a + b) = (uint a + uint b) mod 2 ^ s"
  by (simp add: uval_def uint_word_ariths mod_exp_mod)

lemma uval_minus: "s \<le> 64 \<Longrightarrow> uval s (a - b) = (uint a - uint b) mod 2 ^ s"
  by (simp add: uval_def uint_word_ariths mod_exp_mod)

lemma uval_times: "s \<le> 64 \<Longrightarrow> uval s (a * b) = (uint a * uint b) mod 2 ^ s"
  by (simp add: uval_def uint_word_ariths mod_exp_mod)

lemma sval_if:
  assumes "0 < s" and "take_bit s a = a"
  shows "sval s a = (if bit a (s - 1) then uint a - 2 ^ s else uint a)"
proof -
  from assms(1) obtain n where s: "s = Suc n" by (cases s) auto
  have lt: "uint a < 2 ^ Suc n" using assms(2) by (simp add: canonical_iff s)
  have bit: "bit a n \<longleftrightarrow> 2 ^ n \<le> uint a"
  proof -
    have "bit (uint a) n \<longleftrightarrow> odd (uint a div 2 ^ n)"
      by (simp add: bit_iff_odd)
    moreover have "uint a div 2 ^ n = (if 2 ^ n \<le> uint a then 1 else 0)"
    proof (cases "2 ^ n \<le> uint a")
      case True
      have "uint a div 2 ^ n = (2 ^ n + (uint a - 2 ^ n)) div 2 ^ n" by simp
      also have "\<dots> = 1 + (uint a - 2 ^ n) div 2 ^ n"
        by (subst div_add_self1) simp_all
      also have "(uint a - 2 ^ n) div 2 ^ n = 0"
        using True lt by (intro div_pos_pos_trivial) simp_all
      finally show ?thesis using True by simp
    next
      case False
      then show ?thesis by (simp add: div_pos_pos_trivial)
    qed
    moreover have "bit (uint a) n \<longleftrightarrow> bit a n"
      by (auto simp: bit_uint_iff dest: bit_imp_le_length)
    ultimately show ?thesis by (cases "2 ^ n \<le> uint a") simp_all
  qed
  have "sval s a = take_bit (Suc n) (uint a + 2 ^ n) - 2 ^ n"
    by (simp add: sval_def s signed_take_bit_eq_take_bit_shift)
  also have "\<dots> = (if 2 ^ n \<le> uint a then uint a - 2 ^ Suc n else uint a)"
  proof (cases "2 ^ n \<le> uint a")
    case True
    have "(uint a + 2 ^ n) mod 2 ^ Suc n = (uint a + 2 ^ n - 2 ^ Suc n) mod 2 ^ Suc n"
      by (metis minus_mod_self2)
    also have "\<dots> = uint a - 2 ^ n"
      using True lt by (subst mod_pos_pos_trivial) simp_all
    finally show ?thesis using True by (simp add: take_bit_eq_mod)
  next
    case False
    then show ?thesis by (simp add: take_bit_eq_mod)
  qed
  finally show ?thesis by (simp add: bit s)
qed

lemma sval_bounds: "0 < s \<Longrightarrow> - (2 ^ (s - 1)) \<le> sval s a \<and> sval s a < 2 ^ (s - 1)"
  by (simp add: sval_def signed_take_bit_int_less_exp signed_take_bit_int_greater_eq_minus_exp)

lemma sint_word_of_int_small:
  "- (2 ^ 63) \<le> k \<Longrightarrow> k < 2 ^ 63 \<Longrightarrow> sint (word_of_int k :: u64) = k"
  by (simp add: signed_take_bit_int_eq_self sint_sbintrunc')

lemma and_exp_eq_0_iff: "n < 64 \<Longrightarrow> (2 ^ n AND a = 0) = (\<not> bit (a::u64) n)"
  by (simp add: and_exp_eq_0_iff_not_bit and.commute)

lemma smod_small: "\<bar>k\<bar> < \<bar>l\<bar> \<Longrightarrow> k smod l = (k::int)"
  by (simp add: signed_modulo_int_def sgn_mult_abs)

lemma abs_sint_exp: "s < 64 \<Longrightarrow> \<bar>sint (2 ^ s :: u64)\<bar> = 2 ^ s"
proof -
  assume "s < 64"
  show ?thesis
  proof (cases "s = 63")
    case False
    with \<open>s < 64\<close> have "(2::int) ^ s < 2 ^ 63" by (intro power_strict_increasing) auto
    moreover have "(0::int) \<le> 2 ^ s" by simp
    ultimately have "sint (word_of_int (2 ^ s) :: u64) = 2 ^ s"
      by (intro sint_word_of_int_small) linarith+
    then show ?thesis by simp
  qed simp
qed

lemma sint_sign_adjust:
  assumes "0 < s" and "s \<le> 64" and canon: "take_bit s a = a"
  shows "sint (sign_adjust s a) = sval s a"
proof (cases "s < 64")
  case False
  with assms show ?thesis by (simp add: sign_adjust_def sval_def sint_uint)
next
  case True
  let ?a = "if bit a (s - 1) then a - 2 ^ s else a"
  have pw: "(2::int) ^ (s - 1) \<le> 2 ^ 63"
    using True by (intro power_increasing) auto
  have bnd: "- (2 ^ 63) \<le> sval s a" "sval s a < 2 ^ 63"
    using sval_bounds [OF assms(1), of a] pw by linarith+
  have "?a = word_of_int (sval s a)"
    using sval_if [OF assms(1) canon] by simp
  then have sa: "sint ?a = sval s a"
    using bnd by (simp add: sint_word_of_int_small)
  have "(2::int) ^ (s - 1) < 2 ^ s"
    using assms(1) by (intro power_strict_increasing) auto
  then have "\<bar>sval s a\<bar> < 2 ^ s"
    using sval_bounds [OF assms(1), of a] by linarith
  then have "\<bar>sint ?a\<bar> < \<bar>sint (2 ^ s :: u64)\<bar>"
    using sa True by (simp add: abs_sint_exp)
  then have "sint ?a smod sint (2 ^ s :: u64) = sval s a"
    using sa by (simp add: smod_small)
  moreover have "sign_adjust s a = word_of_int (sint ?a smod sint (2 ^ s :: u64))"
    using True assms(1) by (simp add: sign_adjust_def i64_rem_def and_exp_eq_0_iff Let_def)
  ultimately show ?thesis
    using bnd by (simp add: sint_word_of_int_small)
qed

lemma sign_adjust_zero_iff:
  assumes "0 < s" and "s \<le> 64" and "take_bit s a = a"
  shows "sign_adjust s a = 0 \<longleftrightarrow> a = 0"
proof -
  have "sign_adjust s a = 0 \<longleftrightarrow> sint (sign_adjust s a) = 0"
    by (metis signed_0 signed_word_eqI)
  also have "\<dots> \<longleftrightarrow> sval s a = 0"
    using sint_sign_adjust [OF assms] by simp
  also have "\<dots> \<longleftrightarrow> a = 0"
    using sval_if [OF assms(1,3)] uint_canonical [OF assms(3)]
    by (auto simp: uint_0_iff sval_def split: if_splits)
  finally show ?thesis .
qed

subsection \<open>Constant operands\<close>

lemma execute_add_const [simp]:
  "execute (Add (RvConstant x s) (RvConstant y s)) = Some (RvConstant (take_bit s (x + y)) s)"
  by (simp add: execute_add_def)

lemma execute_subtract_const [simp]:
  "execute (Subtract (RvConstant x s) (RvConstant y s)) = Some (RvConstant (take_bit s (x - y)) s)"
  by (simp add: execute_subtract_def)

lemma execute_multiply_const [simp]:
  "execute (Multiply (RvConstant x s) (RvConstant y s)) = Some (RvConstant (take_bit s (x * y)) s)"
  by (simp add: execute_multiply_def)

lemma execute_divide_unsigned_const:
  "execute (DivideUnsigned (RvConstant x s) (RvConstant y s)) =
     (if take_bit s y = 0 then Some RvUndefined else Some (RvConstant (take_bit s (x div y)) s))"
  by (auto simp: execute_divide_unsigned_def)

lemma execute_modulo_const:
  "execute (Modulo (RvConstant x s) (RvConstant y s)) =
     (if y = 0 then Some RvUndefined else Some (RvConstant (take_bit s (x mod y)) s))"
  by (simp add: execute_modulo_def)

lemma execute_and_const [simp]:
  "execute (And (RvConstant x s) (RvConstant y s)) = Some (RvConstant (take_bit s (x AND y)) s)"
  by (simp add: execute_and_def take_bit_and)

lemma execute_inclusive_or_const [simp]:
  "execute (InclusiveOr (RvConstant x s) (RvConstant y s)) = Some (RvConstant (take_bit s (x OR y)) s)"
  by (simp add: execute_inclusive_or_def take_bit_or)

lemma execute_exclusive_or_const [simp]:
  "execute (ExclusiveOr (RvConstant x s) (RvConstant y s)) = Some (RvConstant (take_bit s (x XOR y)) s)"
  by (simp add: execute_exclusive_or_def take_bit_xor)

lemma execute_equal_const:
  "execute (Equal (RvConstant x s) (RvConstant y s)) = Some (flag_const (uval s x = uval s y))"
  by (simp add: execute_equal_def word_uint_eq_iff uint_take_bit_uval)

lemma execute_less_or_equal_unsigned_const:
  "execute (LessOrEqualUnsigned (RvConstant x s) (RvConstant y s)) =
     Some (flag_const (uval s x \<le> uval s y))"
  by (simp add: execute_less_or_equal_unsigned_def word_le_def uint_take_bit_uval)

lemma execute_less_unsigned_const:
  "execute (LessUnsigned (RvConstant x s) (RvConstant y s)) =
     Some (flag_const (uval s x < uval s y))"
  by (simp add: execute_less_unsigned_def word_less_def uint_take_bit_uval)

lemma execute_less_signed_const:
  assumes "0 < s" and "s \<le> 64" and "take_bit s x = x" and "take_bit s y = y"
  shows "execute (LessSigned (RvConstant x s) (RvConstant y s)) =
     Some (flag_const (sval s x < sval s y))"
  using assms by (simp add: execute_less_signed_def sint_sign_adjust)

lemma take_bit_decr_canonical:
  assumes "0 < s" and "take_bit s a = a"
  shows "uint (take_bit (s - 1) a) = (if bit a (s - 1) then uint a - 2 ^ (s - 1) else uint a)"
proof -
  obtain n where n: "s = Suc n" using assms(1) by (cases s) auto
  have "take_bit (Suc n) (uint a) = uint a"
    using assms(2) by (simp add: n flip: unsigned_take_bit_eq)
  moreover have "take_bit (Suc n) (uint a) = take_bit n (uint a) + (if bit (uint a) n then 2 ^ n else 0)"
    using take_bit_Suc_from_most [of n "uint a"] by simp
  moreover have "bit (uint a) n \<longleftrightarrow> bit a n"
    by (auto simp: bit_uint_iff dest: bit_imp_le_length)
  ultimately have "uint a = take_bit n (uint a) + (if bit a n then 2 ^ n else 0)" by simp
  then show ?thesis by (simp add: n unsigned_take_bit_eq split: if_splits)
qed

lemma execute_less_or_equal_signed_const:
  assumes "0 < s" and "s < 64" and "take_bit s x = x" and "take_bit s y = y"
  shows "execute (LessOrEqualSigned (RvConstant x s) (RvConstant y s)) =
     Some (flag_const (sval s x \<le> sval s y))"
proof -
  have sign: "a AND 2 ^ (s - Suc 0) = (if bit a (s - Suc 0) then 2 ^ (s - Suc 0) else 0)"
    for a :: u64
    by (rule bit_word_eqI) (auto simp: bit_simps)
  have "(2::u64) ^ (s - 1) \<noteq> 0" using assms(1,2) by simp
  moreover have "uint x < 2 ^ s" "uint y < 2 ^ s"
    using assms(3,4) by (simp_all add: canonical_iff)
  then have "uint x - 2 ^ s \<le> uint y" "uint y - 2 ^ s < uint x"
    using uint_ge_0 [of x] uint_ge_0 [of y] by linarith+
  ultimately show ?thesis
    using assms sval_if [OF assms(1,3)] sval_if [OF assms(1,4)]
      take_bit_decr_canonical [OF assms(1,3)] take_bit_decr_canonical [OF assms(1,4)]
    by (auto simp: execute_less_or_equal_signed_def Let_def sign word_le_def not_le)
qed

lemma uint_push_bit_mod:
  "s \<le> 64 \<Longrightarrow> uval s (push_bit n a) = (uint a * 2 ^ n) mod 2 ^ s"
proof -
  assume s: "s \<le> 64"
  have "uint (push_bit n a) = take_bit 64 (push_bit n (uint a))"
    by (simp add: unsigned_push_bit_eq)
  then show ?thesis
    by (simp add: uval_def push_bit_eq_mult take_bit_eq_mod mod_exp_mod [OF s])
qed

lemma execute_shift_left_const:
  assumes "s \<le> 64" and "unat y < 64"
  shows "\<exists>r. execute (ShiftLeft (RvConstant x s) (RvConstant y s)) = Some (RvConstant r s) \<and>
             uint r = (uint x * 2 ^ unat y) mod 2 ^ s"
  using assms
  by (simp add: execute_shift_left_def uint_take_bit_uval uint_push_bit_mod)

lemma bit_uint64 [simp]: "bit (uint (a::u64)) n = bit a n"
  by (auto simp: bit_uint_iff dest: bit_imp_le_length)

lemma uint_drop_bit: "uint (drop_bit n (a::u64)) = uint a div 2 ^ n"
proof -
  have "uint (drop_bit n a) = drop_bit n (uint a)"
    by (rule bit_eqI) (simp add: bit_drop_bit_eq)
  then show ?thesis by (simp add: drop_bit_eq_div)
qed

lemma execute_shift_right_unsigned_const:
  assumes "s \<le> 64" and canon: "take_bit s x = x"
  shows "\<exists>r. execute (ShiftRightUnsigned (RvConstant x s) (RvConstant y s)) = Some (RvConstant r s) \<and>
             uint r = uint x div 2 ^ unat y"
proof (cases "s \<le> unat y")
  case True
  have "(2::int) ^ s \<le> 2 ^ unat y" using True by (intro power_increasing) auto
  with uint_canonical [OF canon] have "uint x div 2 ^ unat y = 0"
    by (intro div_pos_pos_trivial) (auto elim: less_le_trans)
  with True show ?thesis by (simp add: execute_shift_right_unsigned_def)
next
  case False
  have "uint x div 2 ^ unat y < 2 ^ s"
  proof -
    have "uint x div 2 ^ unat y \<le> uint x div 1"
      by (intro zdiv_mono2) auto
    with uint_canonical [OF canon] show ?thesis by simp
  qed
  then have "uint x div 2 ^ unat y mod 2 ^ s = uint x div 2 ^ unat y"
    by (intro mod_pos_pos_trivial) (simp_all add: pos_imp_zdiv_nonneg_iff)
  with False assms show ?thesis
    by (simp add: execute_shift_right_unsigned_def Let_def uint_take_bit uint_drop_bit)
qed

lemma execute_zero_extend_const:
  assumes "s0 \<le> s1"
  shows "\<exists>r. execute (ZeroExtend s1 (RvConstant v s0)) = Some (RvConstant r s1) \<and> uint r = uval s0 v"
  using assms by (simp add: uint_take_bit_uval min_def)

lemma sval_take_bit_self: "0 < s \<Longrightarrow> sval s (take_bit s a) = sval s a"
  by (cases s) (simp_all add: sval_def unsigned_take_bit_eq signed_take_bit_take_bit)

lemma execute_sign_extend_const:
  assumes "0 < s" and "s \<le> t" and "t \<le> 64"
  shows "\<exists>r. execute (SignExtend t (RvConstant v s)) = Some (RvConstant r t) \<and> sval t r = sval s v"
proof (cases "s < 64")
  case False
  with assms have "s = t" by simp
  with False assms show ?thesis by (simp add: Let_def)
next
  case True
  have sgn: "v AND 2 ^ (s - Suc 0) = 0 \<longleftrightarrow> \<not> bit v (s - Suc 0)"
    using True assms(1) and_exp_eq_0_iff [of "s - Suc 0" v] by (simp add: and.commute)
  let ?r = "if bit v (s - Suc 0) then (take_bit s v) OR (mask t AND NOT (mask s)) else take_bit s v"
  obtain p q where pq: "s = Suc p" "t = Suc q" using assms(1,2) by (cases s; cases t) auto
  have "bit (sval t ?r) n = bit (sval s v) n" for n
    using assms(2,3) True unfolding pq
    by (auto simp: less_Suc_eq_le sval_def bit_signed_take_bit_iff bit_take_bit_iff bit_or_iff bit_and_iff
        bit_not_iff bit_mask_iff min_def not_le dest: le_antisym bit_imp_le_length)
  then have "sval t ?r = sval s v" by (rule bit_eqI)
  moreover have "execute (SignExtend t (RvConstant v s)) = Some (RvConstant ?r t)"
    using assms True by (simp add: Let_def sgn bit_mask_eq_mask flip: take_bit_eq_mask)
  ultimately show ?thesis by blast
qed

lemma execute_select_const:
  assumes "off + s' \<le> s" and "off + s' < 64" and "take_bit s' y = y"
  shows "\<exists>r. execute (Select off (RvConstant x s) (RvConstant y s')) = Some (RvConstant r s) \<and>
             (\<forall>i. bit r i = (if off \<le> i \<and> i < off + s' then bit y (i - off) else bit x i))"
proof -
  have y: "bit y j \<Longrightarrow> j < s'" for j
    using assms(3) by (metis bit_take_bit_iff)
  let ?r = "(take_bit off x OR push_bit off y) OR push_bit (off + s') (drop_bit (off + s') x)"
  have "bit ?r i = (if off \<le> i \<and> i < off + s' then bit y (i - off) else bit x i)" for i
    using assms(2) y [of "i - off"]
    by (auto simp: bit_simps not_less dest: bit_imp_le_length)
  moreover have "execute (Select off (RvConstant x s) (RvConstant y s')) = Some (RvConstant ?r s)"
    using assms by (simp add: execute_select_def mod_exp_eq_take_bit Let_def)
  ultimately show ?thesis by blast
qed

lemma uval_word_of_int: "s \<le> 64 \<Longrightarrow> uval s (word_of_int k) = k mod 2 ^ s"
  by (simp add: uval_def uint_word_of_int mod_exp_mod)

lemma sval_eq_iff_uval: "0 < s \<Longrightarrow> uval s a = k mod 2 ^ s \<Longrightarrow> sval s a = signed_take_bit (s - 1) k"
proof (cases s)
  case (Suc n)
  assume u: "uval s a = k mod 2 ^ s"
  have "signed_take_bit n (uint a) = signed_take_bit n (take_bit (Suc n) (uint a))"
    by (simp add: signed_take_bit_take_bit)
  also have "take_bit (Suc n) (uint a) = take_bit (Suc n) k"
    using u by (simp add: uval_def Suc take_bit_eq_mod)
  also have "signed_take_bit n \<dots> = signed_take_bit n k"
    by (simp add: signed_take_bit_take_bit)
  finally show ?thesis by (simp add: sval_def Suc)
qed simp

lemma execute_divide_signed_const:
  assumes "0 < s" and "s \<le> 64" and "take_bit s x = x" and "take_bit s y = y" and "y \<noteq> 0"
  shows "\<exists>r. execute (DivideSigned (RvConstant x s) (RvConstant y s)) = Some (RvConstant r s) \<and>
             uint r = (sval s x sdiv sval s y) mod 2 ^ s"
proof -
  let ?w = "i64_div (sign_adjust s x) (sign_adjust s y)"
  have w: "?w = word_of_int (sval s x sdiv sval s y)"
    using assms by (simp add: i64_div_def sint_sign_adjust)
  have "execute (DivideSigned (RvConstant x s) (RvConstant y s)) = Some (RvConstant (take_bit s ?w) s)"
    using assms by (simp add: execute_divide_signed_def Let_def sign_adjust_zero_iff mod_exp_eq_take_bit)
  moreover have "uint (take_bit s ?w) = (sval s x sdiv sval s y) mod 2 ^ s"
    using assms(2) by (simp add: w uint_take_bit_uval uval_word_of_int)
  ultimately show ?thesis by blast
qed

lemma div_exp_ge: 
  assumes "- (2 ^ n) \<le> (k::int)" and "k < 2 ^ n" and "n \<le> m"
  shows "k div 2 ^ m = (if k < 0 then - 1 else 0)"
proof -
  have "(2::int) ^ n \<le> 2 ^ m" using assms(3) by (intro power_increasing) auto
  with assms have "- (2 ^ m) \<le> k" "k < 2 ^ m" by linarith+
  show ?thesis
  proof (cases "k < 0")
    case True
    have "(k + 2 ^ m) div 2 ^ m = 0"
      using True \<open>- (2 ^ m) \<le> k\<close> by (intro div_pos_pos_trivial) auto
    moreover have "(k + 2 ^ m) div 2 ^ m = k div 2 ^ m + 1"
      by (rule div_add_self2) simp
    ultimately show ?thesis using True by simp
  next
    case False
    with \<open>k < 2 ^ m\<close> have "k div 2 ^ m = 0" by (intro div_pos_pos_trivial) auto
    with False show ?thesis by simp
  qed
qed

lemma word_sint_inverse: "word_of_int (sint (w::u64)) = w"
  by simp

lemma execute_shift_right_signed_const:
  assumes "0 < s" and "s \<le> 64" and "take_bit s x = x"
  shows "\<exists>r. execute (ShiftRightSigned (RvConstant x s) (RvConstant y s)) = Some (RvConstant r s) \<and>
             uint r = (sval s x div 2 ^ unat y) mod 2 ^ s"
proof (cases "s \<le> unat y")
  case True
  have sd: "sval s x div 2 ^ unat y = (if sval s x < 0 then - 1 else 0)"
    using sval_bounds [OF assms(1), of x] True by (intro div_exp_ge [of "s - 1"]) auto
  have "uint (take_bit s (- 1 :: u64)) = (- 1) mod 2 ^ s"
    using uval_word_of_int [OF assms(2), of "- 1"] uint_take_bit_uval [of s "- 1"] by simp
  moreover have "(2 ^ s - 1 :: u64) = take_bit s (- 1)" if "s < 64"
    by (simp add: exp_minus_one_mask)
  moreover have "uint (- 1 :: u64) = 2 ^ 64 - 1"
    by (simp add: unsigned_minus_1_eq_mask mask_eq_exp_minus_1)
  ultimately show ?thesis
    using True assms sd
    by (auto simp: execute_shift_right_signed_def Let_def sint_sign_adjust)
next
  case False
  then have y: "unat y mod 64 = unat y" using assms(2) by simp
  let ?w = "signed_drop_bit (unat y) (sign_adjust s x)"
  have "sint ?w = sval s x div 2 ^ unat y"
    using assms by (simp add: sint_signed_drop_bit_eq sint_sign_adjust drop_bit_eq_div)
  then have "?w = word_of_int (sval s x div 2 ^ unat y)"
    by (metis word_sint_inverse)
  then have "uint (take_bit s ?w) = (sval s x div 2 ^ unat y) mod 2 ^ s"
    using assms(2) by (simp add: uint_take_bit_uval uval_word_of_int)
  moreover have "execute (ShiftRightSigned (RvConstant x s) (RvConstant y s)) =
      Some (RvConstant (take_bit s ?w) s)"
    using False assms y by (auto simp: execute_shift_right_signed_def Let_def)
  ultimately show ?thesis by blast
qed

lemma execute_less_or_equal_signed_64:
  "execute (LessOrEqualSigned (RvConstant x 64) (RvConstant y 64)) = Some (flag_const (uint x \<le> uint y))"
  by (simp add: execute_less_or_equal_signed_def word_le_def)


subsection \<open>Progress and preservation\<close>

text \<open>
  A statement that passes the sanity check never makes the evaluator panic, as long as its
  operands have at most 64 bits.
\<close>

lemma execute_binop_not_const:
  "is_binop op = Some (a, b) \<or> is_cmpop op = Some (a, b) \<Longrightarrow>
   \<not> (\<exists>x s y t. a = RvConstant x s \<and> b = RvConstant y t) \<Longrightarrow> execute op \<noteq> None"
  by (cases op; cases a; cases b) (auto simp: exec_simps split: option.split)

lemma execute_binop_const:
  assumes "is_binop op = Some (RvConstant x s, RvConstant y s) \<or>
           is_cmpop op = Some (RvConstant x s, RvConstant y s)"
    and "0 < s" and "s \<le> 64"
  shows "execute op \<noteq> None"
  using assms by (cases op) (auto simp: exec_simps Let_def)

lemma execute_unop_total:
  "\<exists>r. execute_zero_extend t v = Some r"
  "rvalue_size v \<noteq> Some 0 \<Longrightarrow> \<exists>r. execute_sign_extend t v = Some r"
  "\<exists>r. execute_move v = Some r"
  by (cases v; simp add: Let_def)+

lemma execute_phi_total: "\<exists>r. execute_phi vs = Some r"
  by (cases vs rule: execute_phi.cases) simp_all

lemma execute_progress:
  assumes ok: "sanity_check st = Inr ()"
    and small: "\<forall>v \<in> set (operands (st_op st)). \<forall>n. rvalue_size v = Some n \<longrightarrow> n \<le> 64"
  shows "execute (st_op st) \<noteq> None"
proof (cases "\<exists>a b. is_binop (st_op st) = Some (a, b) \<or> is_cmpop (st_op st) = Some (a, b)")
  case True
  then obtain a b where ab: "is_binop (st_op st) = Some (a, b) \<or> is_cmpop (st_op st) = Some (a, b)"
    by blast
  show ?thesis
  proof (cases "\<exists>x s y t. a = RvConstant x s \<and> b = RvConstant y t")
    case const: True
    then obtain x s y t where xy: "a = RvConstant x s" "b = RvConstant y t" by blast
    with ab ok have "s = t \<and> 0 < s" using sanity_check_binop sanity_check_cmpop by blast
    moreover have "s \<le> 64" using small ab xy by (auto dest: operands_binop operands_cmpop)
    ultimately show ?thesis using ab xy execute_binop_const by blast
  qed (use ab execute_binop_not_const in blast)
next
  case False
  with ok show ?thesis
    by (cases "st_op st")
       (auto simp: sanity_check_ok_iff execute_select_def unwrap_or_0_def Let_def
          execute_unop_total execute_phi_total split: rvalue.splits if_splits)
qed

lemma execute_binop_size:
  assumes "is_binop op = Some (a, b)" and "execute op = Some r"
  shows "rvalue_size r = None \<or> rvalue_size r = rvalue_size a \<or> rvalue_size r = rvalue_size b"
  using assms
  by (cases op; cases a; cases b) (auto simp: exec_simps Let_def split: option.splits if_splits)

lemma execute_cmpop_size:
  assumes "is_cmpop op = Some (a, b)" and "execute op = Some r"
  shows "rvalue_size r = None \<or> rvalue_size r = Some 1"
  using assms
  by (cases op; cases a; cases b) (auto simp: exec_simps flag_const_def Let_def split: if_splits)

lemma typecheck_binop_sizes:
  assumes "typecheck_binop a b asg = Inr ()" and "lvalue_size asg = Some m"
    and "Some n = rvalue_size a \<or> Some n = rvalue_size b"
  shows "n = m"
  using assms
  by (auto simp: typecheck_binop_def unwrap_or_0_def split: if_splits option.splits)

lemma execute_unop_size:
  "execute_zero_extend t v = Some r \<Longrightarrow> rvalue_size r = None \<or> rvalue_size v \<noteq> None \<and> rvalue_size r = Some t"
  "execute_sign_extend t v = Some r \<Longrightarrow> rvalue_size r = None \<or> rvalue_size v \<noteq> None \<and> rvalue_size r = Some t"
  "execute_move v = Some r \<Longrightarrow> rvalue_size r = rvalue_size v"
  by (cases v; auto simp: Let_def split: if_splits)+

lemma execute_phi_size:
  "execute_phi vs = Some r \<Longrightarrow> rvalue_size r = None \<or> r \<in> set vs"
  by (cases vs rule: execute_phi.cases) (auto split: if_splits)

lemma execute_preserves_size:
  assumes ok: "sanity_check st = Inr ()" and r: "execute (st_op st) = Some r"
    and n: "rvalue_size r = Some n" and m: "lvalue_size (assignee st) = Some m"
  shows "n = m \<or> (\<exists>a. st_op st = Move a \<and> m \<le> n)"
proof (cases "is_binop (st_op st)")
  case (Some ab)
  obtain a b where ab: "is_binop (st_op st) = Some (a, b)" using Some by (cases ab) auto
  have "typecheck_binop a b (assignee st) = Inr ()"
    using ok ab by (simp add: sanity_check_ok_iff check_operation_binop)
  then show ?thesis
    using execute_binop_size [OF ab r] n m typecheck_binop_sizes by fastforce
next
  case nobin: None
  show ?thesis
  proof (cases "is_cmpop (st_op st)")
    case (Some ab)
    obtain a b where ab: "is_cmpop (st_op st) = Some (a, b)" using Some by (cases ab) auto
    have "typecheck_cmpop a b (assignee st) = Inr ()"
      using ok ab by (simp add: sanity_check_ok_iff check_operation_cmpop)
    then show ?thesis
      using execute_cmpop_size [OF ab r] n m by (auto simp: typecheck_cmpop_def split: if_splits)
  next
    case None
    with nobin ok r n m show ?thesis
      by (cases "st_op st")
         (auto simp: sanity_check_ok_iff typecheck_unop_def execute_select_def list_all_iff Let_def
           dest!: execute_unop_size execute_phi_size split: if_splits rvalue.splits)
  qed
qed

subsection \<open>Constants stay within their size\<close>

fun wf_rvalue :: "rvalue \<Rightarrow> bool" where
  "wf_rvalue (RvConstant v s) = (take_bit s v = v)"
| "wf_rvalue _ = True"

fun widening :: "rvalue operation \<Rightarrow> bool" where
  "widening (SignExtend t (RvConstant v s)) = (s \<le> t)"
| "widening _ = True"

lemma take_bit_take_bit_le: "take_bit s (take_bit t (a::u64)) = take_bit (min s t) a"
  by simp

lemma wf_select:
  assumes "take_bit s x = x" "take_bit s' y = y" "off + s' \<le> s"
  shows "take_bit s ((take_bit off x OR push_bit off y) OR push_bit (off + s') (drop_bit (off + s') x))
       = (take_bit off x OR push_bit off y) OR push_bit (off + s') (drop_bit (off + s') (x::u64))"
proof (rule bit_word_eqI)
  fix n
  have x: "bit x j \<Longrightarrow> j < s" for j using assms(1) by (metis bit_take_bit_iff)
  have y: "bit y j \<Longrightarrow> j < s'" for j using assms(2) by (metis bit_take_bit_iff)
  show "bit (take_bit s ((take_bit off x OR push_bit off y) OR push_bit (off + s') (drop_bit (off + s') x))) n
    = bit ((take_bit off x OR push_bit off y) OR push_bit (off + s') (drop_bit (off + s') x)) n"
    using assms(3) x [of n] y [of "n - off"]
    by (auto simp: bit_simps)
qed

lemma wf_sign_extend:
  assumes "s \<le> t" and "take_bit s v = (v::u64)"
  shows "take_bit t (v OR (bit_mask t AND NOT (bit_mask s))) = v OR (bit_mask t AND NOT (bit_mask s))"
proof -
  have "take_bit t v = v" using assms by (metis min.absorb2 take_bit_take_bit)
  then have v: "bit v j \<Longrightarrow> j < t" for j by (metis bit_take_bit_iff)
  show ?thesis
    by (rule bit_word_eqI) (auto simp: bit_mask_eq_mask bit_simps dest: v)
qed

lemma take_bit_flag [simp]: "take_bit (Suc 0) (0::u64) = 0" "take_bit (Suc 0) (1::u64) = 1"
  by simp_all

lemma execute_divide_signed_eq:
  "execute_divide_signed (RvConstant x s) (RvConstant y s) =
     (if y = 0 then Some RvUndefined
      else if s = 0 then None
      else if sign_adjust s y = 0 then Some RvUndefined
      else Some (RvConstant (take_bit s (i64_div (sign_adjust s x) (sign_adjust s y))) s))"
  by (simp add: execute_divide_signed_def Let_def mod_exp_eq_take_bit)

lemma execute_shift_right_signed_eq:
  "execute_shift_right_signed (RvConstant x s) (RvConstant y s) =
     (if s = 0 then None
      else Some (RvConstant (take_bit s
        (if s \<le> unat y then (if sint (sign_adjust s x) < 0 then - 1 else 0)
         else signed_drop_bit (unat y mod 64) (sign_adjust s x))) s))"
  by (cases "s < 64")
     (simp_all add: execute_shift_right_signed_def Let_def exp_minus_one_mask
       flip: exp_minus_one_mask)

lemma execute_binop_wf:
  assumes "is_binop op = Some (a, b)" and "execute op = Some r" and "wf_rvalue a" and "wf_rvalue b"
  shows "wf_rvalue r"
proof (cases "\<exists>x s y t. a = RvConstant x s \<and> b = RvConstant y t")
  case True
  then obtain x s y t where c: "a = RvConstant x s" "b = RvConstant y t" by blast
  show ?thesis
  proof (cases "s = t")
    case True
    with assms(1,2) c show ?thesis
      by (cases op)
         (auto simp: execute_divide_signed_eq execute_shift_right_signed_eq execute_add_def
            execute_subtract_def execute_multiply_def execute_divide_unsigned_def execute_modulo_def
            execute_shift_left_def execute_shift_right_unsigned_def execute_and_def
            execute_inclusive_or_def execute_exclusive_or_def Let_def split: if_splits)
  next
    case False
    with assms(1,2) c show ?thesis
      by (cases op) (auto simp: exec_simps split: if_splits)
  qed
next
  case False
  with assms show ?thesis
    by (cases op; cases a; cases b) (auto simp: exec_simps split: option.splits if_splits)
qed

lemma execute_cmpop_wf:
  assumes "is_cmpop op = Some (a, b)" and "execute op = Some r"
  shows "wf_rvalue r"
  using assms
  by (cases op; cases a; cases b) (auto simp: exec_simps flag_const_def Let_def split: if_splits)

lemma execute_other_wf:
  assumes "is_binop op = None" and "is_cmpop op = None" and "execute op = Some r"
    and "\<forall>v \<in> set (operands op). wf_rvalue v" and "widening op"
  shows "wf_rvalue r"
proof (cases op)
  case (SignExtend t v)
  with assms show ?thesis
    by (cases v) (auto simp: Let_def min_def wf_sign_extend simp del: take_bit_or take_bit_and split: if_splits)
next
  case (Select off a b)
  with assms show ?thesis
    by (cases a; cases b) (auto simp: execute_select_def Let_def mod_exp_eq_take_bit wf_select simp del: take_bit_or split: if_splits)
next
  case (Phi vs)
  with assms show ?thesis by (cases vs rule: execute_phi.cases) (auto split: if_splits)
next
  case (ZeroExtend t v)
  with assms show ?thesis by (cases v) auto
next
  case (Move v)
  with assms show ?thesis by (cases v) (auto split: if_splits)
qed (use assms in simp_all)

lemma execute_wf_lemma:
  assumes "execute op = Some r" and "\<forall>v \<in> set (operands op). wf_rvalue v" and "widening op"
  shows "wf_rvalue r"
proof (cases "is_binop op")
  case (Some ab)
  then obtain a b where ab: "is_binop op = Some (a, b)" by (cases ab) auto
  with assms show ?thesis
    using execute_binop_wf [OF ab assms(1)] operands_binop [OF ab] by simp
next
  case None
  then show ?thesis
    using assms by (cases "is_cmpop op") (auto intro: execute_cmpop_wf execute_other_wf)
qed

section \<open>Properties\<close>

text \<open>
  Addition, subtraction and multiplication of two constants of the same size are
  arithmetic modulo \<open>2 ^ s\<close>: the evaluator returns a constant of that size, whatever
  bits the operands carry above it.
\<close>

theorem execute_modular_arithmetic:
  assumes "s \<le> 64"
  shows "(\<exists>r. execute (Add (RvConstant x s) (RvConstant y s)) = Some (RvConstant r s) \<and>
             uint r = (uint x + uint y) mod 2 ^ s) \<and>
         (\<exists>r. execute (Subtract (RvConstant x s) (RvConstant y s)) = Some (RvConstant r s) \<and>
             uint r = (uint x - uint y) mod 2 ^ s) \<and>
         (\<exists>r. execute (Multiply (RvConstant x s) (RvConstant y s)) = Some (RvConstant r s) \<and>
             uint r = (uint x * uint y) mod 2 ^ s)"
  using assms
  by (simp add: execute_add_def execute_subtract_def execute_multiply_def
      uint_take_bit_uval uval_plus uval_minus uval_times)

theorem execute_modular_arithmetic_witness:
  "(8::nat) \<le> 64 \<and>
   (\<exists>r. execute (Add (RvConstant 200 8) (RvConstant 100 8)) = Some (RvConstant r 8) \<and> uint r = 44)"
  using execute_modular_arithmetic [of 8 200 100] by simp

text \<open>
  The bitwise operations act bit by bit on the \<open>s\<close> bits of constants, and equality
  and the unsigned comparisons decide the corresponding relation of the values modulo
  \<open>2 ^ s\<close>.
\<close>

theorem execute_bitwise_and_unsigned_compare:
  "execute (And (RvConstant x s) (RvConstant y s)) = Some (RvConstant (take_bit s (x AND y)) s) \<and>
   execute (InclusiveOr (RvConstant x s) (RvConstant y s)) = Some (RvConstant (take_bit s (x OR y)) s) \<and>
   execute (ExclusiveOr (RvConstant x s) (RvConstant y s)) = Some (RvConstant (take_bit s (x XOR y)) s) \<and>
   execute (Equal (RvConstant x s) (RvConstant y s)) =
     Some (flag_const (uint x mod 2 ^ s = uint y mod 2 ^ s)) \<and>
   execute (LessOrEqualUnsigned (RvConstant x s) (RvConstant y s)) =
     Some (flag_const (uint x mod 2 ^ s \<le> uint y mod 2 ^ s)) \<and>
   execute (LessUnsigned (RvConstant x s) (RvConstant y s)) =
     Some (flag_const (uint x mod 2 ^ s < uint y mod 2 ^ s))"
  using execute_equal_const [of x s y] execute_less_or_equal_unsigned_const [of x s y]
    execute_less_unsigned_const [of x s y]
  by (simp add: execute_and_def execute_inclusive_or_def execute_exclusive_or_def uval_def)

text \<open>
  On constants that fit their size, the strict signed comparison decides \<open><\<close> of
  the two's complement values at every size up to 64, and the non-strict one decides
  \<open>\<le>\<close> at every size below 64.
\<close>

theorem execute_signed_compare:
  assumes "0 < s" and "s \<le> 64" and "take_bit s x = x" and "take_bit s y = y"
  shows "execute (LessSigned (RvConstant x s) (RvConstant y s)) =
           Some (flag_const (sval s x < sval s y)) \<and>
         (s < 64 \<longrightarrow> execute (LessOrEqualSigned (RvConstant x s) (RvConstant y s)) =
           Some (flag_const (sval s x \<le> sval s y)))"
  using assms execute_less_signed_const [of s x y] execute_less_or_equal_signed_const [of s x y]
  by blast

theorem execute_signed_compare_witness:
  "(0::nat) < 8 \<and> take_bit 8 (0xff::u64) = 0xff \<and>
   execute (LessSigned (RvConstant 0xff 8) (RvConstant 1 8)) = Some (flag_const (sval 8 0xff < sval 8 1)) \<and>
   execute (LessOrEqualSigned (RvConstant 0xff 8) (RvConstant 1 8)) =
     Some (flag_const (sval 8 0xff \<le> sval 8 1))"
  using execute_signed_compare [of 8 "0xff" 1] by (simp del: execute.simps)

lemma sval_64: "sval 64 a = sint a"
  by (simp add: sval_def sint_uint)

text \<open>
  C18: At 64 bits the non-strict signed comparison is the unsigned one: the sign mask of
  that arm is 0 at this size.  So \<open>- 1 \<le> 0\<close> evaluates to false.
\<close>

theorem execute_less_or_equal_signed_at_64:
  "execute (LessOrEqualSigned (RvConstant x 64) (RvConstant y 64)) =
     Some (flag_const (uint x \<le> uint y)) \<and>
   sval 64 (- 1) \<le> sval 64 0 \<and>
   execute (LessOrEqualSigned (RvConstant (- 1) 64) (RvConstant 0 64)) = Some (flag_const False)"
  using execute_less_or_equal_signed_64 [of x y] execute_less_or_equal_signed_64 [of "- 1" 0]
  by (simp add: sval_64 uint_0_iff)

text \<open>
  Shifts of constants: a left shift multiplies modulo \<open>2 ^ s\<close> as long as the amount
  is below 64, a logical right shift divides the unsigned value and an arithmetic right
  shift divides the signed value, rounding down, for every amount.
\<close>

theorem execute_shifts:
  assumes "0 < s" and "s \<le> 64" and "take_bit s x = x"
  shows "(unat y < 64 \<longrightarrow>
            (\<exists>r. execute (ShiftLeft (RvConstant x s) (RvConstant y s)) = Some (RvConstant r s) \<and>
                 uint r = (uint x * 2 ^ unat y) mod 2 ^ s)) \<and>
         (\<exists>r. execute (ShiftRightUnsigned (RvConstant x s) (RvConstant y s)) = Some (RvConstant r s) \<and>
              uint r = uint x div 2 ^ unat y) \<and>
         (\<exists>r. execute (ShiftRightSigned (RvConstant x s) (RvConstant y s)) = Some (RvConstant r s) \<and>
              uint r = (sval s x div 2 ^ unat y) mod 2 ^ s)"
  using assms execute_shift_left_const execute_shift_right_unsigned_const
    execute_shift_right_signed_const by blast

theorem execute_shifts_witness:
  "(0::nat) < 8 \<and> take_bit 8 (0x81::u64) = 0x81 \<and>
   (\<exists>r. execute (ShiftRightUnsigned (RvConstant 0x81 8) (RvConstant 4 8)) = Some (RvConstant r 8) \<and> uint r = 8)"
  using execute_shifts [of 8 "0x81" 4] by (simp del: execute.simps)

lemma uint_div_canonical: "take_bit s (x::u64) = x \<Longrightarrow> uint x div uint y mod 2 ^ s = uint x div uint (y::u64)"
proof -
  assume c: "take_bit s x = x"
  have "1 \<le> uint y" if "uint y \<noteq> 0"
    using uint_ge_0 [of y] that by linarith
  then have "uint x div uint y \<le> uint x"
    using zdiv_mono2 [of "uint x" 1 "uint y"] by (cases "uint y = 0") simp_all
  with uint_canonical [OF c] show ?thesis
    by (intro mod_pos_pos_trivial) (simp_all flip: uint_div)
qed

text \<open>
  Division of constants that fit their size: a zero divisor gives the undefined
  value, unsigned division and modulo are those of the unsigned values, and signed
  division rounds the quotient of the signed values towards zero, modulo \<open>2 ^ s\<close>.
\<close>

theorem execute_divisions:
  assumes "0 < s" and "s \<le> 64" and "take_bit s x = x" and "take_bit s y = y"
  shows "if y = 0 then
           execute (DivideUnsigned (RvConstant x s) (RvConstant y s)) = Some RvUndefined \<and>
           execute (DivideSigned (RvConstant x s) (RvConstant y s)) = Some RvUndefined \<and>
           execute (Modulo (RvConstant x s) (RvConstant y s)) = Some RvUndefined
         else
           (\<exists>r. execute (DivideUnsigned (RvConstant x s) (RvConstant y s)) = Some (RvConstant r s) \<and>
                uint r = uint x div uint y) \<and>
           (\<exists>r. execute (DivideSigned (RvConstant x s) (RvConstant y s)) = Some (RvConstant r s) \<and>
                uint r = (sval s x sdiv sval s y) mod 2 ^ s) \<and>
           (\<exists>r. execute (Modulo (RvConstant x s) (RvConstant y s)) = Some (RvConstant r s) \<and>
                uint r = uint x mod uint y)"
proof (cases "y = 0")
  case False
  have "uint x mod uint y mod 2 ^ s = uint x mod uint y"
  proof (rule mod_pos_pos_trivial)
    have "uint x mod uint y < uint y"
      using False by (intro pos_mod_bound) (simp add: order_less_le uint_0_iff)
    with uint_canonical [OF assms(4)] show "uint x mod uint y < 2 ^ s" by linarith
  qed (simp flip: uint_mod)
  then show ?thesis
    using False assms execute_divide_signed_const [OF assms]
    by (simp add: execute_divide_unsigned_const execute_modulo_const uint_take_bit uint_div uint_mod
        uint_div_canonical del: execute.simps)
qed (use assms in \<open>simp add: execute_divide_unsigned_def execute_divide_signed_def execute_modulo_def\<close>)

theorem execute_divisions_witness:
  "take_bit 8 (0xf9::u64) = 0xf9 \<and>
   (\<exists>r. execute (DivideUnsigned (RvConstant 0xf9 8) (RvConstant 2 8)) = Some (RvConstant r 8) \<and> uint r = 0x7c)"
  using execute_divisions [of 8 "0xf9" 2] by (simp del: execute.simps)

text \<open>
  Extensions keep the value: zero extension to a size that is not smaller keeps the
  unsigned value, sign extension the signed one.
\<close>

theorem execute_extensions:
  assumes "0 < s" and "s \<le> t" and "t \<le> 64"
  shows "(\<exists>r. execute (ZeroExtend t (RvConstant v s)) = Some (RvConstant r t) \<and> uint r = uint v mod 2 ^ s) \<and>
         (\<exists>r. execute (SignExtend t (RvConstant v s)) = Some (RvConstant r t) \<and> sval t r = sval s v)"
  using execute_zero_extend_const [OF assms(2), of v] execute_sign_extend_const [OF assms, of v]
  by (simp add: uval_def)

theorem execute_extensions_witness:
  "(0::nat) < 8 \<and> (8::nat) \<le> 16 \<and>
   (\<exists>r. execute (SignExtend 16 (RvConstant 0x80 8)) = Some (RvConstant r 16) \<and> sval 16 r = sval 8 0x80)"
  using execute_extensions [of 8 16 "0x80"] by (simp del: execute.simps)

text \<open>
  Select writes the bits of its second operand over the bits \<open>off\<close> to \<open>off + s'\<close>
  of the first and leaves all others.
\<close>

theorem execute_select_bits:
  assumes "off + s' \<le> s" and "off + s' < 64" and "take_bit s' y = y"
  shows "\<exists>r. execute (Select off (RvConstant x s) (RvConstant y s')) = Some (RvConstant r s) \<and>
             (\<forall>i. bit r i = (if off \<le> i \<and> i < off + s' then bit y (i - off) else bit x i))"
  using assms by (rule execute_select_const)

theorem execute_select_bits_witness:
  "take_bit 4 (0xa::u64) = 0xa \<and>
   (\<exists>r. execute (Select 4 (RvConstant 0xff 8) (RvConstant 0xa 4)) = Some (RvConstant r 8) \<and>
        (\<forall>i. bit r i = (if 4 \<le> i \<and> i < 8 then bit (0xa::u64) (i - 4) else bit (0xff::u64) i)))"
  using execute_select_bits [of 4 4 8 "0xa" "0xff"] by (simp del: execute.simps)

text \<open>
  C16: Progress: a statement that passes the sanity check and whose operands have at most
  64 bits never makes the evaluator panic.
\<close>

theorem sanity_check_execute_progress:
  assumes "sanity_check st = Inr ()"
    and "\<forall>v \<in> set (operands (st_op st)). \<forall>n. rvalue_size v = Some n \<longrightarrow> n \<le> 64"
  shows "\<exists>r. execute (st_op st) = Some r"
  using execute_progress [OF assms] by blast

theorem sanity_check_execute_progress_witness:
  "\<exists>st r. sanity_check st = Inr () \<and> st_op st = LessSigned (RvConstant 3 8) (RvConstant 250 8) \<and>
          execute (st_op st) = Some r"
proof -
  let ?st = "\<lparr>assignee = LvVariable ''N'' None 1, st_op = LessSigned (RvConstant 3 8) (RvConstant 250 8)\<rparr>"
  have ok: "sanity_check ?st = Inr ()"
    by (simp add: sanity_check_def typecheck_cmpop_def)
  have "\<exists>r. execute (st_op ?st) = Some r"
    by (rule sanity_check_execute_progress [OF ok]) simp
  with ok show ?thesis
    by (intro exI [of _ ?st]) (simp del: execute.simps)
qed

text \<open>
  Beyond 64 bits it may: the shift of a 65-bit constant by 64 passes the sanity check and overflows.
\<close>

lemma sanity_check_shift_panics:
  "sanity_check \<lparr>assignee = LvVariable ''x'' None 65, st_op = ShiftRightUnsigned (RvConstant 1 65) (RvConstant 64 65)\<rparr> = Inr () \<and>
   execute (ShiftRightUnsigned (RvConstant 1 65) (RvConstant 64 65)) = None"
  by (simp add: sanity_check_def typecheck_binop_def unwrap_or_0_def execute_shift_right_unsigned_def)

text \<open>
  C17: Preservation: the result of a statement that passes the sanity check, when it has a
  size, has the size of the assignee; only a move may be wider than its assignee.
\<close>

theorem sanity_check_execute_size:
  assumes "sanity_check st = Inr ()" and "execute (st_op st) = Some r"
    and "rvalue_size r = Some n" and "lvalue_size (assignee st) = Some m"
  shows "n = m \<or> (\<exists>a. st_op st = Move a \<and> m \<le> n)"
  using assms by (rule execute_preserves_size)

theorem sanity_check_execute_size_witness:
  "\<exists>st r. sanity_check st = Inr () \<and> execute (st_op st) = Some r \<and>
          rvalue_size r = Some 8 \<and> lvalue_size (assignee st) = Some 8 \<and>
          ((8::nat) = 8 \<or> (\<exists>a. st_op st = Move a \<and> (8::nat) \<le> 8))"
proof -
  let ?st = "\<lparr>assignee = LvVariable ''A'' None 8, st_op = Add (RvConstant 3 8) (RvConstant 250 8)\<rparr>"
  have ok: "sanity_check ?st = Inr ()" "execute (st_op ?st) = Some (RvConstant 253 8)"
    by (simp_all add: sanity_check_def typecheck_binop_def unwrap_or_0_def execute_add_def)
  from sanity_check_execute_size [OF ok, of 8 8] ok show ?thesis
    by (intro exI [of _ ?st] exI [of _ "RvConstant 253 8"]) simp
qed

text \<open>The exception occurs: the sanity check accepts a move of sixteen bits to a variable of eight.\<close>

lemma sanity_check_narrowing_move:
  "sanity_check \<lparr>assignee = LvVariable ''A'' None 8, st_op = Move (RvConstant 0x1234 16)\<rparr> = Inr () \<and>
   execute (Move (RvConstant 0x1234 16)) = Some (RvConstant 0x1234 16)"
  by (simp add: sanity_check_def typecheck_unop_def)

text \<open>
  Constants stay within their size: if every constant operand fits its size and a
  sign extension does not narrow, then so does a constant result.
\<close>

theorem execute_wf:
  assumes "execute op = Some r" and "\<forall>v \<in> set (operands op). wf_rvalue v" and "widening op"
  shows "wf_rvalue r"
  using assms by (rule execute_wf_lemma)

theorem execute_wf_witness:
  "\<exists>r. execute (Subtract (RvConstant 1 8) (RvConstant 2 8)) = Some r \<and> wf_rvalue r"
proof -
  have e: "execute (Subtract (RvConstant 1 8) (RvConstant 2 8)) = Some (RvConstant 255 8)"
    by (simp add: execute_subtract_def mask_eq_exp_minus_1)
  have "wf_rvalue (RvConstant 255 8)"
    by (rule execute_wf [OF e]) simp_all
  with e show ?thesis by blast
qed

end
