(* ===== verification/Rreil.thy ===== *)
theory Rreil
  imports Il_Exec
begin

text \<open>
  The \<^verbatim>\<open>rreil!\<close> macro of \<^verbatim>\<open>core/src/il.rs\<close>, whose statement forms \<^verbatim>\<open>core/build.rs\<close> generates: the
  back ends write the meaning of an instruction with it.  Statements are checked one after the
  other and the first failing check is the result of the macro.

  For the properties of the back ends the theory also runs such statements: variables are read
  from an environment, the operation is evaluated by \<^verbatim>\<open>Operation::execute\<close>, and the result is
  stored under the name of the assignee.
\<close>

section \<open>Operand forms\<close>

definition rreil_lvalue :: "string \<Rightarrow> nat \<Rightarrow> lvalue" where
  "rreil_lvalue a a_w = LvVariable a None a_w"

definition rreil_rvalue :: "string \<Rightarrow> nat \<Rightarrow> rvalue" where
  "rreil_rvalue a a_w = RvVariable a None 0 a_w"

definition rreil_rvalue_off :: "string \<Rightarrow> nat \<Rightarrow> nat \<Rightarrow> rvalue" where
  "rreil_rvalue_off a a_w a_o = RvVariable a None a_o a_w"

definition rreil_const :: "u64 \<Rightarrow> nat \<Rightarrow> rvalue" where
  "rreil_const a a_w = RvConstant a a_w"

section \<open>Statement forms\<close>

definition rreil_binop :: "(rvalue \<Rightarrow> rvalue \<Rightarrow> rvalue operation) \<Rightarrow> lvalue \<Rightarrow> rvalue \<Rightarrow> rvalue \<Rightarrow> statement" where
  "rreil_binop opr a b c = \<lparr>assignee = a, st_op = opr b c\<rparr>"

definition rreil_unop :: "(rvalue \<Rightarrow> rvalue operation) \<Rightarrow> lvalue \<Rightarrow> rvalue \<Rightarrow> statement" where
  "rreil_unop opr a b = \<lparr>assignee = a, st_op = opr b\<rparr>"

definition rreil_load :: "string \<Rightarrow> endianess \<Rightarrow> nat \<Rightarrow> lvalue \<Rightarrow> rvalue \<Rightarrow> statement" where
  "rreil_load bank en sz a b = \<lparr>assignee = a, st_op = Load bank en sz b\<rparr>"

definition rreil_store :: "string \<Rightarrow> endianess \<Rightarrow> nat \<Rightarrow> rvalue \<Rightarrow> rvalue \<Rightarrow> statement" where
  "rreil_store bank en sz val ptr = \<lparr>assignee = LvUndefined, st_op = Store bank en sz ptr val\<rparr>"

definition rreil_extop :: "(nat \<Rightarrow> rvalue \<Rightarrow> rvalue operation) \<Rightarrow> nat \<Rightarrow> lvalue \<Rightarrow> rvalue \<Rightarrow> statement" where
  "rreil_extop opr sz a b = \<lparr>assignee = a, st_op = opr sz b\<rparr>"

definition rreil_selop :: "nat \<Rightarrow> lvalue \<Rightarrow> rvalue \<Rightarrow> statement" where
  "rreil_selop sz a b = \<lparr>assignee = a, st_op = Select sz (rvalue_of_lvalue a) b\<rparr>"

definition rreil_callop :: "rvalue \<Rightarrow> statement" where
  "rreil_callop a = \<lparr>assignee = LvUndefined, st_op = Call a\<rparr>"

text \<open>A block of statements: the check of the head, then the rest of the block.\<close>

fun rreil :: "statement list \<Rightarrow> il_error + statement list" where
  "rreil [] = Inr []"
| "rreil (stmt # cdr) =
     (case sanity_check stmt of
        Inl e \<Rightarrow> Inl e
      | Inr _ \<Rightarrow> (case rreil cdr of Inl e \<Rightarrow> Inl e | Inr other \<Rightarrow> Inr (stmt # other)))"

lemmas rreil_forms =
  rreil_lvalue_def rreil_rvalue_def rreil_rvalue_off_def rreil_const_def rreil_binop_def rreil_unop_def
  rreil_load_def rreil_store_def rreil_extop_def rreil_selop_def rreil_callop_def

lemmas rreil_typing =
  sanity_check_def typecheck_binop_def typecheck_cmpop_def typecheck_unop_def unwrap_or_0_def

lemma rreil_eq: "rreil ss = Inr ts \<longleftrightarrow> ts = ss \<and> (\<forall>s \<in> set ss. sanity_check s = Inr ())"
  by (induction ss arbitrary: ts) (auto split: sum.splits)

lemma rreil_ok [simp]: "(\<exists>ts. rreil ss = Inr ts) \<longleftrightarrow> (\<forall>s \<in> set ss. sanity_check s = Inr ())"
  by (simp add: rreil_eq)

section \<open>Running statements\<close>

type_synonym env = "string \<Rightarrow> u64"

fun read_rv :: "env \<Rightarrow> rvalue \<Rightarrow> rvalue" where
  "read_rv \<sigma> (RvVariable n ss off s) = RvConstant (take_bit s (drop_bit off (\<sigma> n))) s"
| "read_rv \<sigma> v = v"

text \<open>\<open>None\<close> if the evaluation panics or the result is not a constant.\<close>

definition run_stmt :: "statement \<Rightarrow> env \<Rightarrow> env option" where
  "run_stmt s \<sigma> =
     (case Option.bind (lift (st_op s) (read_rv \<sigma>)) execute of
        Some (RvConstant v sz) \<Rightarrow>
          (case assignee s of LvVariable n ss w \<Rightarrow> Some (\<sigma>(n := v)) | LvUndefined \<Rightarrow> Some \<sigma>)
      | _ \<Rightarrow> None)"

fun run_stmts :: "statement list \<Rightarrow> env \<Rightarrow> env option" where
  "run_stmts [] \<sigma> = Some \<sigma>"
| "run_stmts (s # ss) \<sigma> = Option.bind (run_stmt s \<sigma>) (run_stmts ss)"

lemma run_stmts_append: "run_stmts (ss @ ts) \<sigma> = Option.bind (run_stmts ss \<sigma>) (run_stmts ts)"
  by (induction ss arbitrary: \<sigma>) (auto split: bind_splits)

end
