(* ===== verification/Disasm.thy ===== *)
theory Disasm
  imports Mnemonic Layer "HOL-Library.Char_ord"
begin

text \<open>
  The generic disassembler, \<^verbatim>\<open>core/src/disassembler.rs\<close>: the state passed to semantic
  actions, matching rules and their pattern syntax, the rule graph and the search for matches.

  A token is a machine word of one or two bytes.  The input is the sequence of cells an
  iterator still yields.  A semantic action maps a state to a state and the flag it returns;
  \<open>None\<close> is a panic.  The rule graph starts at vertex 0; vertices are numbered in the order
  of their creation and edges are kept in the order they were added, which is the order of
  \<^verbatim>\<open>out_edges\<close> because the disassembler never removes an edge.  Two sub-disassemblers are
  equal if they are the same object, so a \<open>Sub\<close> rule carries the identity of its object.
  Addresses are natural numbers; that the end of a mnemonic exceeds 64 bits is not modelled.
  \<^verbatim>\<open>to_dot\<close> and the \<^verbatim>\<open>Debug\<close> instance only print and are not modelled.
\<close>

section \<open>States\<close>

record ('t, 'c) dstate =
  ds_address :: nat
  ds_tokens :: "'t list"
  ds_groups :: "(string \<times> u64) list"
  ds_mnemonics :: "mnemonic list"
  ds_jumps :: "(nat \<times> rvalue \<times> guard) list"
  ds_mnemonic_origin :: nat
  ds_jump_origin :: nat
  ds_configuration :: 'c

datatype dis_error = DisFormat format_error | DisIl il_error | ZeroSizedEnd

definition new_state :: "nat \<Rightarrow> 'c \<Rightarrow> ('t, 'c) dstate" where
  "new_state a c =
     \<lparr>ds_address = a, ds_tokens = [], ds_groups = [], ds_mnemonics = [], ds_jumps = [],
      ds_mnemonic_origin = a, ds_jump_origin = a, ds_configuration = c\<rparr>"

definition get_group :: "('t, 'c) dstate \<Rightarrow> string \<Rightarrow> u64 option" where
  "get_group st n = map_option snd (find (\<lambda>x. fst x = n) (ds_groups st))"

definition has_group :: "('t, 'c) dstate \<Rightarrow> string \<Rightarrow> bool" where
  "has_group st n \<longleftrightarrow> find (\<lambda>x. fst x = n) (ds_groups st) \<noteq> None"

text \<open>The closure of a mnemonic may change the configuration even if it then fails.\<close>

definition mnemonic_dynargs ::
  "nat \<Rightarrow> string \<Rightarrow> string \<Rightarrow> ('c \<Rightarrow> 'c \<times> (dis_error + rvalue list \<times> statement list)) \<Rightarrow> ('t, 'c) dstate \<Rightarrow>
   (dis_error + unit) \<times> ('t, 'c) dstate" where
  "mnemonic_dynargs len n fmt f st =
     (case f (ds_configuration st) of
        (cfg, Inl e) \<Rightarrow> (Inl e, st\<lparr>ds_configuration := cfg\<rparr>)
      | (cfg, Inr (ops, stmts)) \<Rightarrow>
          (let st1 = st\<lparr>ds_configuration := cfg\<rparr> in
           case new_mnemonic (ds_mnemonic_origin st1, ds_mnemonic_origin st1 + len) n fmt ops stmts of
             Inl e \<Rightarrow> (Inl (DisFormat e), st1)
           | Inr m \<Rightarrow>
               (Inr (), st1\<lparr>ds_mnemonics := ds_mnemonics st1 @ [m],
                            ds_jump_origin := ds_mnemonic_origin st1,
                            ds_mnemonic_origin := ds_mnemonic_origin st1 + len\<rparr>)))"

definition st_mnemonic ::
  "nat \<Rightarrow> string \<Rightarrow> string \<Rightarrow> rvalue list \<Rightarrow> ('c \<Rightarrow> 'c \<times> (dis_error + statement list)) \<Rightarrow> ('t, 'c) dstate \<Rightarrow>
   (dis_error + unit) \<times> ('t, 'c) dstate" where
  "st_mnemonic len n fmt ops f st =
     mnemonic_dynargs len n fmt (\<lambda>cfg. case f cfg of (cfg', r) \<Rightarrow> (cfg', map_sum id (Pair ops) r)) st"

definition jump_from :: "nat \<Rightarrow> rvalue \<Rightarrow> guard \<Rightarrow> ('t, 'c) dstate \<Rightarrow> (dis_error + unit) \<times> ('t, 'c) dstate" where
  "jump_from origin v g st = (Inr (), st\<lparr>ds_jumps := ds_jumps st @ [(origin, v, g)]\<rparr>)"

text \<open>The outer option is the panic of \<^verbatim>\<open>area.len()\<close> on an inverted range.\<close>

definition st_jump ::
  "rvalue \<Rightarrow> guard \<Rightarrow> ('t, 'c) dstate \<Rightarrow> ((dis_error + unit) \<times> ('t, 'c) dstate) option" where
  "st_jump v g st =
     (if ds_mnemonics st = [] then Some (jump_from (ds_jump_origin st) v g st)
      else
        (case bound_len (m_area (last (ds_mnemonics st))) of
           None \<Rightarrow> None
         | Some l \<Rightarrow>
             (if l > 0 then Some (jump_from (ds_jump_origin st) v g st) else Some (Inl ZeroSizedEnd, st))))"

text \<open>\<^verbatim>\<open>.unwrap()\<close> on the result of the two.\<close>

definition unwrap :: "('e + 'a) \<times> 's \<Rightarrow> 's option" where
  "unwrap r = (case fst r of Inl _ \<Rightarrow> None | Inr _ \<Rightarrow> Some (snd r))"

text \<open>\<^verbatim>\<open>st.mnemonic(..).unwrap()\<close> with a closure that returns \<open>r\<close>, and \<^verbatim>\<open>st.jump(..).unwrap()\<close>.\<close>

definition push_mnemonic ::
  "nat \<Rightarrow> string \<Rightarrow> string \<Rightarrow> rvalue list \<Rightarrow> il_error + statement list \<Rightarrow> ('t, 'c) dstate \<Rightarrow> ('t, 'c) dstate option" where
  "push_mnemonic len opc fmt ops r st =
     unwrap (st_mnemonic len opc fmt ops (\<lambda>c. (c, map_sum DisIl id r)) st)"

definition push_jump :: "rvalue \<Rightarrow> guard \<Rightarrow> ('t, 'c) dstate \<Rightarrow> ('t, 'c) dstate option" where
  "push_jump v g st = Option.bind (st_jump v g st) unwrap"

section \<open>Rules\<close>

type_synonym ('t, 'c) action = "('t, 'c) dstate \<Rightarrow> (('t, 'c) dstate \<times> bool) option"

datatype ('t, 'c) rule =
    Terminal (r_mask: 't) (r_pattern: 't) (r_captures: "(string \<times> 't) list")
  | Sub nat "('t, 'c) disassembler"
and ('t, 'c) disassembler =
    Disassembler (d_vertices: nat) (d_edges: "(nat \<times> ('t, 'c) rule \<times> nat) list")
      (d_end: "(nat \<times> ('t, 'c) action) list") (d_default: "('t, 'c) action option")

fun rule_eq :: "('t, 'c) rule \<Rightarrow> ('t, 'c) rule \<Rightarrow> bool" where
  "rule_eq (Terminal ma pa ca) (Terminal mb pb cb) \<longleftrightarrow> ma = mb \<and> pa = pb \<and> ca = cb"
| "rule_eq (Sub a _) (Sub b _) \<longleftrightarrow> a = b"
| "rule_eq _ _ \<longleftrightarrow> False"

definition new_dis :: "('t, 'c) disassembler" where
  "new_dis = Disassembler 1 [] [] None"

text \<open>The walk of \<^verbatim>\<open>add\<close> along existing edges, extending the graph where none matches.\<close>

fun add_walk ::
  "('t, 'c) rule list \<Rightarrow> nat \<Rightarrow> nat \<Rightarrow> (nat \<times> ('t, 'c) rule \<times> nat) list \<Rightarrow>
   nat \<times> nat \<times> (nat \<times> ('t, 'c) rule \<times> nat) list" where
  "add_walk [] v n es = (v, n, es)"
| "add_walk (r # rs) v n es =
     (case find (\<lambda>e. fst e = v \<and> rule_eq (fst (snd e)) r) es of
        Some e \<Rightarrow> add_walk rs (snd (snd e)) n es
      | None \<Rightarrow> add_walk rs n (n + 1) (es @ [(v, r, n)]))"

fun dis_add :: "('t, 'c) rule list \<Rightarrow> ('t, 'c) action \<Rightarrow> ('t, 'c) disassembler \<Rightarrow> ('t, 'c) disassembler option" where
  "dis_add a b (Disassembler n es ends d) =
     (if a = [] then None
      else (case add_walk a 0 n es of (v, n', es') \<Rightarrow> Some (Disassembler n' es' (AList.update v b ends) d)))"

fun set_default :: "('t, 'c) action \<Rightarrow> ('t, 'c) disassembler \<Rightarrow> ('t, 'c) disassembler" where
  "set_default a (Disassembler n es ends d) = Disassembler n es ends (Some a)"

section \<open>Reading tokens\<close>

fun read_loop :: "nat \<Rightarrow> cell list \<Rightarrow> ('t :: len) word \<Rightarrow> 't word option" where
  "read_loop 0 cells tok = Some tok"
| "read_loop (Suc n) cells tok =
     (let tok' = (if tok \<noteq> 0 then push_bit 8 tok else tok) in
      case cells of
        Some byte # rest \<Rightarrow> read_loop n rest (tok' OR ucast byte)
      | _ \<Rightarrow> None)"

text \<open>\<^verbatim>\<open>size_of::<A::Token>()\<close> cells are taken from the iterator and reversed: little endian.\<close>

definition token_size :: "('t :: len) word itself \<Rightarrow> nat" where
  "token_size _ = LENGTH('t) div 8"

definition read_token :: "cell list \<Rightarrow> ('t :: len) word option \<times> cell list" where
  "read_token i =
     (read_loop (token_size TYPE('t word)) (rev (take (token_size TYPE('t word)) i)) 0,
      drop (token_size TYPE('t word)) i)"

section \<open>Capture groups\<close>

text \<open>The loop over the bits of a token, most significant first.\<close>

fun capture_bits :: "nat \<Rightarrow> ('t :: len) word \<Rightarrow> 't word \<Rightarrow> u64 \<Rightarrow> u64" where
  "capture_bits 0 msk tok res = res"
| "capture_bits (Suc bitpos) msk tok res =
     (let a = push_bit bitpos 1 AND msk in
      capture_bits bitpos msk tok
        (if a \<noteq> 0 then (if tok AND a \<noteq> 0 then push_bit 1 res OR 1 else push_bit 1 res) else res))"

definition capture_group ::
  "('t :: len) word \<Rightarrow> string \<times> 't word \<Rightarrow> (string \<times> u64) list \<Rightarrow> (string \<times> u64) list" where
  "capture_group tok cap groups =
     (let p = position (\<lambda>x. fst x = fst cap) groups;
          res = capture_bits (8 * token_size TYPE('t word)) (snd cap) tok
                  (case p of Some i \<Rightarrow> snd (groups ! i) | None \<Rightarrow> 0)
      in case p of Some i \<Rightarrow> groups[i := (fst (groups ! i), res)] | None \<Rightarrow> groups @ [(fst cap, res)])"

section \<open>The search for matches\<close>

type_synonym ('t, 'c) matcher =
  "('t, 'c) dstate \<Rightarrow> cell list \<Rightarrow> (('t, 'c) dstate \<times> cell list) list option"

definition match_terminal ::
  "('t :: len) word \<Rightarrow> 't word \<Rightarrow> (string \<times> 't word) list \<Rightarrow> ('t word, 'c) matcher" where
  "match_terminal msk pat caps st iter =
     (case read_token iter of
        (Some tok, i) \<Rightarrow>
          (if msk AND tok = pat then
             Some [(st\<lparr>ds_groups := fold (capture_group tok) caps (ds_groups st),
                       ds_tokens := ds_tokens st @ [tok]\<rparr>, i)]
           else Some [])
      | (None, i) \<Rightarrow> Some [])"

text \<open>Running the actions of the end vertices among the current states.\<close>

fun run_ends ::
  "(nat \<times> ('t, 'c) action) list \<Rightarrow> (('t, 'c) dstate \<times> nat \<times> cell list) list \<Rightarrow>
   (('t, 'c) dstate \<times> cell list) list option" where
  "run_ends ends [] = Some []"
| "run_ends ends ((st, v, iter) # states) =
     (case map_of ends v of
        None \<Rightarrow> run_ends ends states
      | Some act \<Rightarrow>
          (case act st of
             None \<Rightarrow> None
           | Some (st', ok) \<Rightarrow>
               map_option (\<lambda>rs. if ok then (st', iter) # rs else rs) (run_ends ends states)))"

text \<open>The states behind the outgoing edges of one state, in the order of the edges.\<close>

fun step_edges ::
  "(nat \<times> ('t, 'c) matcher \<times> nat) list \<Rightarrow> ('t, 'c) dstate \<times> nat \<times> cell list \<Rightarrow>
   (('t, 'c) dstate \<times> nat \<times> cell list) list option" where
  "step_edges [] s = Some []"
| "step_edges ((u, m, w) # es) (st, v, iter) =
     (if u = v then
        (case m st iter of
           None \<Rightarrow> None
         | Some out \<Rightarrow> map_option ((@) (map (\<lambda>(st', i). (st', w, i)) out)) (step_edges es (st, v, iter)))
      else step_edges es (st, v, iter))"

text \<open>
  The \<^verbatim>\<open>while\<close> loop.  Every round moves all states one edge further; in a graph built by
  \<^verbatim>\<open>add\<close> edges lead to newer vertices, so after as many rounds as there are vertices no
  state is left.
\<close>

fun find_rounds ::
  "nat \<Rightarrow> (nat \<times> ('t, 'c) matcher \<times> nat) list \<Rightarrow> (nat \<times> ('t, 'c) action) list \<Rightarrow>
   (('t, 'c) dstate \<times> nat \<times> cell list) list \<Rightarrow> (('t, 'c) dstate \<times> cell list) list option" where
  "find_rounds n es ends [] = Some []"
| "find_rounds 0 es ends (s # ss) = None"
| "find_rounds (Suc n) es ends (s # ss) =
     (case run_ends ends (s # ss) of
        None \<Rightarrow> None
      | Some ret \<Rightarrow>
          (case those (map (step_edges es) (s # ss)) of
             None \<Rightarrow> None
           | Some new_states \<Rightarrow> map_option ((@) ret) (find_rounds n es ends (concat new_states))))"

primrec rule_matcher :: "(('t :: len) word, 'c) rule \<Rightarrow> ('t word, 'c) matcher"
  and dis_find :: "('t word, 'c) disassembler \<Rightarrow> ('t word, 'c) matcher" where
  "rule_matcher (Terminal msk pat caps) = match_terminal msk pat caps"
| "rule_matcher (Sub k sub) = dis_find sub"
| "dis_find (Disassembler n es ends d) =
     (\<lambda>st i. find_rounds (Suc n) (map (map_prod id (map_prod rule_matcher id)) es) ends [(st, 0, i)])"

definition next_match ::
  "(('t :: len) word, 'c) disassembler \<Rightarrow> cell list \<Rightarrow> nat \<Rightarrow> 'c \<Rightarrow> ('t word, 'c) dstate option option" where
  "next_match dis i offset cfg =
     (case dis_find dis (new_state offset cfg) i of
        None \<Rightarrow> None
      | Some [] \<Rightarrow>
          (case d_default dis of
             None \<Rightarrow> Some None
           | Some def \<Rightarrow>
               (case fst (read_token i) of
                  None \<Rightarrow> Some None
                | Some tok \<Rightarrow>
                    (let state = new_state offset cfg in
                     case def (state\<lparr>ds_tokens := ds_tokens state @ [tok]\<rparr>) of
                       None \<Rightarrow> None
                     | Some (st, ok) \<Rightarrow> Some (if ok then Some st else None))))
      | Some [m] \<Rightarrow> Some (Some (fst m))
      | Some matches \<Rightarrow>
          Some (Some (fst (hd (sort_key (\<lambda>m. - int (length (ds_tokens (fst m)))) matches)))))"

section \<open>Pattern syntax\<close>

text \<open>A literal token: \<^verbatim>\<open>NumCast::from\<close> fails on a value that does not fit.\<close>

definition rule_of_nat :: "nat \<Rightarrow> (('t :: len) word, 'c) rule option" where
  "rule_of_nat v = (if v < 2 ^ LENGTH('t) then Some (Terminal (- 1) (of_nat v) []) else None)"

record 't pattern_state =
  ps_groups :: "(string \<times> 't) list"
  ps_cur_group :: string
  ps_read_pat :: bool
  ps_bit :: nat
  ps_mask :: 't
  ps_pat :: 't

definition is_ascii_letter :: "char \<Rightarrow> bool" where
  "is_ascii_letter c \<longleftrightarrow> (CHR ''a'' \<le> c \<and> c \<le> CHR ''z'') \<or> (CHR ''A'' \<le> c \<and> c \<le> CHR ''Z'')"

text \<open>\<^verbatim>\<open>*groups.get_mut(..).unwrap() = ..\<close>: the current bit joins the group that is being read.\<close>

definition add_group_bit :: "('t :: len) word pattern_state \<Rightarrow> 't word pattern_state option" where
  "add_group_bit ps =
     (if ps_read_pat ps \<and> ps_cur_group ps \<noteq> '''' then
        (case map_of (ps_groups ps) (ps_cur_group ps) of
           None \<Rightarrow> None
         | Some m \<Rightarrow>
             Some (ps\<lparr>ps_groups := AList.update (ps_cur_group ps) (m OR push_bit (ps_bit ps - 1) 1) (ps_groups ps)\<rparr>))
      else Some ps)"

definition pattern_char :: "char \<Rightarrow> ('t :: len) word pattern_state \<Rightarrow> 't word pattern_state option" where
  "pattern_char c ps =
     (if c = CHR ''@'' then
        (if ps_read_pat ps then None
         else if ps_cur_group ps = '''' then None
         else if map_of (ps_groups ps) (ps_cur_group ps) = None then
           Some (ps\<lparr>ps_read_pat := True, ps_groups := AList.update (ps_cur_group ps) 0 (ps_groups ps)\<rparr>)
         else Some (ps\<lparr>ps_read_pat := True\<rparr>))
      else if c = CHR '' '' then Some (ps\<lparr>ps_read_pat := False, ps_cur_group := ''''\<rparr>)
      else if c = CHR ''.'' then
        (if ps_bit ps = 0 then None
         else map_option (\<lambda>ps'. ps'\<lparr>ps_bit := ps_bit ps' - 1\<rparr>) (add_group_bit ps))
      else if c = CHR ''0'' \<or> c = CHR ''1'' then
        (if ps_bit ps = 0 then None
         else
           (let ps1 = ps\<lparr>ps_mask := ps_mask ps OR (if ps_bit ps - 1 > 0 then push_bit (ps_bit ps - 1) 1 else 1)\<rparr>;
                ps2 = (if c = CHR ''1'' then ps1\<lparr>ps_pat := ps_pat ps1 OR push_bit (ps_bit ps - 1) 1\<rparr> else ps1)
            in map_option (\<lambda>ps'. ps'\<lparr>ps_bit := ps_bit ps' - 1\<rparr>) (add_group_bit ps2)))
      else if is_ascii_letter c then
        (if ps_read_pat ps then None else Some (ps\<lparr>ps_cur_group := ps_cur_group ps @ [c]\<rparr>))
      else None)"

fun pattern_chars :: "string \<Rightarrow> ('t :: len) word pattern_state \<Rightarrow> 't word pattern_state option" where
  "pattern_chars [] ps = Some ps"
| "pattern_chars (c # cs) ps = (case pattern_char c ps of None \<Rightarrow> None | Some ps' \<Rightarrow> pattern_chars cs ps')"

definition rule_of_string :: "string \<Rightarrow> (('t :: len) word, 'c) rule option" where
  "rule_of_string s =
     (case pattern_chars s \<lparr>ps_groups = [], ps_cur_group = '''', ps_read_pat = False,
                            ps_bit = 8 * token_size TYPE('t word), ps_mask = 0, ps_pat = 0\<rparr> of
        None \<Rightarrow> None
      | Some ps \<Rightarrow>
          (if ps_bit ps \<noteq> 0 then None
           else Some (Terminal (ps_mask ps) (ps_pat ps) (filter (\<lambda>x. snd x \<noteq> 0) (ps_groups ps)))))"

section \<open>Rule generators\<close>

text \<open>\<^verbatim>\<open>AddToRuleGen::push\<close> for optional and for plain rules, and the \<^verbatim>\<open>new_disassembler!\<close> macro.\<close>

datatype ('t, 'c) gen_item = Required "('t, 'c) rule" | Optional "('t, 'c) rule"

fun gen_push :: "('t, 'c) gen_item \<Rightarrow> ('t, 'c) rule list list \<Rightarrow> ('t, 'c) rule list list" where
  "gen_push (Optional r) rules = rules @ map (\<lambda>c. c @ [r]) rules"
| "gen_push (Required r) rules = map (\<lambda>c. c @ [r]) rules"

definition gen_rules :: "('t, 'c) gen_item list \<Rightarrow> ('t, 'c) rule list list" where
  "gen_rules items = fold gen_push items [[]]"

fun add_all :: "('t, 'c) rule list list \<Rightarrow> ('t, 'c) action \<Rightarrow> ('t, 'c) disassembler \<Rightarrow> ('t, 'c) disassembler option" where
  "add_all [] b dis = Some dis"
| "add_all (r # rs) b dis = (case dis_add r b dis of None \<Rightarrow> None | Some dis' \<Rightarrow> add_all rs b dis')"

fun add_rows ::
  "(('t, 'c) gen_item list \<times> ('t, 'c) action) list \<Rightarrow> ('t, 'c) disassembler \<Rightarrow> ('t, 'c) disassembler option" where
  "add_rows [] dis = Some dis"
| "add_rows ((items, f) # rows) dis =
     (case add_all (gen_rules items) f dis of None \<Rightarrow> None | Some dis' \<Rightarrow> add_rows rows dis')"

definition new_disassembler ::
  "(('t, 'c) gen_item list \<times> ('t, 'c) action) list \<Rightarrow> ('t, 'c) action option \<Rightarrow> ('t, 'c) disassembler option" where
  "new_disassembler rows def =
     map_option (\<lambda>dis. case def of None \<Rightarrow> dis | Some f \<Rightarrow> set_default f dis) (add_rows rows new_dis)"

end
