(* ===== verification/Disasm_Spec.thy ===== *)
theory Disasm_Spec
  imports Disasm
begin

text \<open>
  What the disassembler of theory \<open>Disasm\<close> promises.  The rule graph that \<^verbatim>\<open>add\<close> builds is a
  trie: a rule sequence leads to at most one vertex, and adding a sequence changes the action of
  that sequence only.  The search of \<^verbatim>\<open>find\<close> returns the accepted matches of the bound
  sequences and ends on every input; \<^verbatim>\<open>next_match\<close> takes a longest one.  Tokens are read little
  endian, pattern strings constrain the digits they show, capture groups collect the bits under
  their mask.  Semantic actions keep the mnemonics of a state contiguous.

  Rules are compared as the code compares them, sub-disassemblers by identity; a set of rules is
  \<open>comparable\<close> if equal rules are the same rule.
\<close>

section \<open>The rule graph is a trie\<close>

lemma rule_eq_refl [simp]: "rule_eq r r"
  by (cases r) simp_all

type_synonym ('t, 'c) rule_edges = "(nat \<times> ('t, 'c) rule \<times> nat) list"

fun walk :: "('t, 'c) rule_edges \<Rightarrow> nat \<Rightarrow> ('t, 'c) rule list \<Rightarrow> nat \<Rightarrow> bool" where
  "walk es v [] w \<longleftrightarrow> v = w"
| "walk es v (r # rs) w \<longleftrightarrow> (\<exists>u. (v, r, u) \<in> set es \<and> walk es u rs w)"

text \<open>
  Edges lead to newer vertices, no vertex has two incoming edges and no two edges of a
  vertex carry the same rule; \<open>R\<close> is a set of rules on which the comparison of the code is equality.
\<close>

definition trie :: "('t, 'c) rule set \<Rightarrow> nat \<Rightarrow> ('t, 'c) rule_edges \<Rightarrow> bool" where
  "trie R n es \<longleftrightarrow>
     0 < n \<and> (\<forall>(u, r, w) \<in> set es. u < w \<and> w < n \<and> r \<in> R) \<and> distinct (map (\<lambda>e. snd (snd e)) es) \<and>
     (\<forall>u r w w'. (u, r, w) \<in> set es \<longrightarrow> (u, r, w') \<in> set es \<longrightarrow> w = w')"

definition comparable :: "('t, 'c) rule set \<Rightarrow> bool" where
  "comparable R \<longleftrightarrow> (\<forall>r \<in> R. \<forall>r' \<in> R. rule_eq r r' \<longleftrightarrow> r = r')"

lemma walk_append: "walk es v (rs @ qs) w \<longleftrightarrow> (\<exists>u. walk es v rs u \<and> walk es u qs w)"
  by (induction rs arbitrary: v) auto

lemma walk_mono: "set es \<subseteq> set es' \<Longrightarrow> walk es v rs w \<Longrightarrow> walk es' v rs w"
  by (induction rs arbitrary: v) auto

lemma trie_edge: "trie R n es \<Longrightarrow> (u, r, w) \<in> set es \<Longrightarrow> u < w \<and> w < n \<and> r \<in> R"
  by (auto simp: trie_def)

lemma trie_target:
  assumes "trie R n es" "(u, r, w) \<in> set es" "(u', r', w) \<in> set es"
  shows "u = u' \<and> r = r'"
proof -
  have "inj_on (\<lambda>e. snd (snd e)) (set es)" using assms(1) by (auto simp: trie_def distinct_map)
  from inj_onD [OF this _ assms(2,3)] show ?thesis by simp
qed

lemma walk_bounds: "trie R n es \<Longrightarrow> walk es v rs w \<Longrightarrow> v \<le> w \<and> (rs \<noteq> [] \<longrightarrow> v < w \<and> w < n)"
proof (induction rs arbitrary: v)
  case (Cons r rs)
  then obtain u where "(v, r, u) \<in> set es" "walk es u rs w" by auto
  with Cons show ?case using trie_edge [OF Cons.prems(1)] by (cases rs) fastforce+
qed simp

lemma walk_det: "trie R n es \<Longrightarrow> walk es v rs w \<Longrightarrow> walk es v rs w' \<Longrightarrow> w = w'"
proof (induction rs arbitrary: v)
  case (Cons r rs)
  then obtain u u' where u: "(v, r, u) \<in> set es" "walk es u rs w" "(v, r, u') \<in> set es" "walk es u' rs w'"
    by auto
  then have "u = u'" using Cons.prems(1) unfolding trie_def by blast
  then show ?case using Cons.IH [OF Cons.prems(1)] u by simp
qed simp

lemma walk_unique:
  assumes "trie R n es" "walk es 0 ps w" "walk es 0 qs w"
  shows "ps = qs"
  using assms(2,3)
proof (induction ps arbitrary: qs w rule: rev_induct)
  case Nil
  then show ?case using walk_bounds [OF assms(1), of 0 qs w] by auto
next
  case (snoc r ps)
  then obtain u where u: "walk es 0 ps u" "(u, r, w) \<in> set es" by (auto simp: walk_append)
  have "qs \<noteq> []" using snoc.prems(2) trie_edge [OF assms(1) u(2)] by auto
  then obtain qs' q where qs: "qs = qs' @ [q]" by (metis rev_exhaust)
  then obtain u' where u': "walk es 0 qs' u'" "(u', q, w) \<in> set es" using snoc.prems(2) by (auto simp: walk_append)
  then show ?case using trie_target [OF assms(1) u(2) u'(2)] snoc.IH [of u qs'] u(1) qs by auto
qed

lemma trie_snoc:
  assumes "trie R n es" "v < n" "r \<in> R" "\<forall>w. (v, r, w) \<notin> set es"
  shows "trie R (n + 1) (es @ [(v, r, n)])"
  using assms by (fastforce simp: trie_def)

lemma walk_old:
  assumes "trie R n' es'" "walk es' v rs w" "w < n" "\<forall>(u, r, x) \<in> set es'. x < n \<longrightarrow> (u, r, x) \<in> set es"
  shows "walk es v rs w"
  using assms(2,3)
proof (induction rs arbitrary: v)
  case (Cons r rs)
  then obtain u where u: "(v, r, u) \<in> set es'" "walk es' u rs w" by auto
  then have "u < n" using walk_bounds [OF assms(1) u(2)] Cons.prems(2) by simp
  then show ?case using u Cons assms(4) by fastforce
qed simp

lemma add_walk_spec:
  assumes "comparable R" "trie R n es" "v < n" "set rs \<subseteq> R" "add_walk rs v n es = (v', n', es')"
  shows "trie R n' es' \<and> v' < n' \<and> n \<le> n' \<and> walk es' v rs v' \<and> set es \<subseteq> set es' \<and>
         (\<forall>(u, r, x) \<in> set es'. x < n \<longrightarrow> (u, r, x) \<in> set es)"
  using assms(2-5)
proof (induction rs v n es rule: add_walk.induct)
  case (1 v n es)
  then show ?case by auto
next
  case (2 r rs v n es)
  have r: "r \<in> R" using "2.prems"(3) by simp
  show ?case
  proof (cases "find (\<lambda>e. fst e = v \<and> rule_eq (fst (snd e)) r) es")
    case (Some e)
    then have e: "e \<in> set es" "fst e = v" "rule_eq (fst (snd e)) r" by (auto simp: find_Some_iff)
    obtain q u where q: "e = (v, q, u)" using e(2) by (cases e) auto
    then have "q \<in> R" "u < n" using trie_edge [OF "2.prems"(1)] e(1) by auto
    moreover from this have "q = r" using assms(1) r e(3) q by (auto simp: comparable_def)
    ultimately show ?thesis
      using "2.IH"(2) [OF Some] "2.prems" Some q e(1) by auto
  next
    case None
    then have "\<forall>w. (v, r, w) \<notin> set es" by (auto simp: find_None_iff)
    then have "trie R (n + 1) (es @ [(v, r, n)])" using trie_snoc "2.prems" r by blast
    then show ?thesis
      using "2.IH"(1) [OF None] "2.prems" None by fastforce
  qed
qed


section \<open>Rule sequences and the actions bound to them\<close>

fun bound_to :: "('t, 'c) disassembler \<Rightarrow> ('t, 'c) rule list \<Rightarrow> ('t, 'c) action \<Rightarrow> bool" where
  "bound_to (Disassembler n es ends d) rs act \<longleftrightarrow> (\<exists>w. walk es 0 rs w \<and> map_of ends w = Some act)"

fun wf_dis :: "('t, 'c) rule set \<Rightarrow> ('t, 'c) disassembler \<Rightarrow> bool" where
  "wf_dis R (Disassembler n es ends d) \<longleftrightarrow> trie R n es \<and> (\<forall>v \<in> fst ` set ends. v < n)"

lemma wf_new_dis: "wf_dis R new_dis" and bound_to_new_dis: "\<not> bound_to new_dis rs act"
  by (simp_all add: new_dis_def trie_def)

lemma wf_set_default [simp]: "wf_dis R (set_default f dis) \<longleftrightarrow> wf_dis R dis"
  and bound_to_set_default [simp]: "bound_to (set_default f dis) rs act \<longleftrightarrow> bound_to dis rs act"
  by (cases dis; simp)+

lemma dis_add_spec:
  assumes "comparable R" "wf_dis R dis" "set rs \<subseteq> R" "rs \<noteq> []"
  obtains dis' where "dis_add rs b dis = Some dis'" "wf_dis R dis'" "d_default dis' = d_default dis"
    "snd ` set (d_end dis') \<subseteq> insert b (snd ` set (d_end dis))"
    "\<And>qs act. bound_to dis' qs act \<longleftrightarrow> (if qs = rs then act = b else bound_to dis qs act)"
proof -
  obtain n es ends d where dis: "dis = Disassembler n es ends d" by (cases dis) auto
  obtain v' n' es' where w: "add_walk rs 0 n es = (v', n', es')" by (metis prod_cases3)
  have old: "trie R n es" "\<forall>v \<in> fst ` set ends. v < n" using assms(2) dis by auto
  then have "0 < n" by (simp add: trie_def)
  note spec = add_walk_spec [OF assms(1) old(1) this assms(3) w]
  then have new: "trie R n' es'" "v' < n'" "n \<le> n'" "walk es' 0 rs v'" "set es \<subseteq> set es'"
    "\<forall>(u, r, x) \<in> set es'. x < n \<longrightarrow> (u, r, x) \<in> set es" by blast+
  let ?dis' = "Disassembler n' es' (AList.update v' b ends) d"
  have wf: "wf_dis R ?dis'" using new old by (auto simp: dom_update intro: less_le_trans)
  have "bound_to ?dis' qs act \<longleftrightarrow> (if qs = rs then act = b else bound_to dis qs act)" for qs act
  proof (cases "qs = rs")
    case True
    have "bound_to ?dis' rs act \<longleftrightarrow> act = b"
    proof -
      have "walk es' 0 rs w \<longleftrightarrow> w = v'" for w using new(4) walk_det [OF new(1) new(4), of w] by blast
      then show ?thesis by (auto simp: update_conv')
    qed
    then show ?thesis using True by simp
  next
    case False
    have ne: "w \<noteq> v'" if "walk es' 0 qs w" for w
      using walk_unique [OF new(1) new(4), of qs] that False by auto
    have "bound_to ?dis' qs act \<longleftrightarrow> bound_to dis qs act"
    proof
      assume "bound_to ?dis' qs act"
      then obtain w where w: "walk es' 0 qs w" "map_of ends w = Some act"
        using ne by (auto simp: update_conv' split: if_splits)
      then have "w < n" using old(2) by (force dest: map_of_SomeD)
      then show "bound_to dis qs act" using walk_old [OF new(1) w(1) _ new(6)] w(2) dis by auto
    next
      assume "bound_to dis qs act"
      then obtain w where w: "walk es 0 qs w" "map_of ends w = Some act" using dis by auto
      then show "bound_to ?dis' qs act" using walk_mono [OF new(5) w(1)] ne by (auto simp: update_conv')
    qed
    then show ?thesis using False by simp
  qed
  moreover have "snd ` set (AList.update v' b ends) \<subseteq> insert b (snd ` set ends)"
    by (induction ends) auto
  ultimately show thesis using that [of ?dis'] wf w assms(4) dis by simp
qed

text \<open>Adding the rows of \<^verbatim>\<open>new_disassembler!\<close>: the last row with a rule sequence determines its action.\<close>

definition rule_rows :: "(('t, 'c) gen_item list \<times> ('t, 'c) action) list \<Rightarrow> (('t, 'c) rule list \<times> ('t, 'c) action) list" where
  "rule_rows rows = concat (map (\<lambda>(items, f). map (\<lambda>rs. (rs, f)) (gen_rules items)) rows)"

fun gen_rule :: "('t, 'c) gen_item \<Rightarrow> ('t, 'c) rule" where
  "gen_rule (Required r) = r"
| "gen_rule (Optional r) = r"

fun gen_required :: "('t, 'c) gen_item \<Rightarrow> bool" where
  "gen_required (Required r) = True"
| "gen_required (Optional r) = False"

fun expands :: "('t, 'c) gen_item list \<Rightarrow> ('t, 'c) rule list \<Rightarrow> bool" where
  "expands [] rs \<longleftrightarrow> rs = []"
| "expands (x # xs) rs \<longleftrightarrow>
     (\<exists>qs. rs = gen_rule x # qs \<and> expands xs qs) \<or> (\<not> gen_required x \<and> expands xs rs)"

lemma set_gen_push: "set (gen_push x rules) = {c @ [gen_rule x] |c. c \<in> set rules} \<union> (if gen_required x then {} else set rules)"
  by (cases x) auto

lemma set_gen_fold:
  "set (fold gen_push items rules) = {c @ rs |c rs. c \<in> set rules \<and> expands items rs}"
proof (induction items arbitrary: rules)
  case (Cons x items)
  have "(\<exists>c rs. x' = c @ rs \<and> c \<in> set (gen_push x rules) \<and> expands items rs) \<longleftrightarrow>
        (\<exists>c rs. x' = c @ rs \<and> c \<in> set rules \<and> expands (x # items) rs)" (is "?l \<longleftrightarrow> ?r") for x'
  proof
    assume ?l
    then obtain c rs where c: "x' = c @ rs" "c \<in> set (gen_push x rules)" "expands items rs" by blast
    then consider c' where "c = c' @ [gen_rule x]" "c' \<in> set rules" | "c \<in> set rules" "\<not> gen_required x"
      by (auto simp: set_gen_push split: if_splits)
    then show ?r
      using c by cases (force intro: exI [of _ "gen_rule x # rs"], force)
  next
    assume ?r
    then obtain c rs where c: "x' = c @ rs" "c \<in> set rules" "expands (x # items) rs" by blast
    then consider qs where "rs = gen_rule x # qs" "expands items qs" | "\<not> gen_required x" "expands items rs" by auto
    then show ?l
    proof cases
      case 1
      then show ?thesis using c by (intro exI [of _ "c @ [gen_rule x]"] exI [of _ qs]) (auto simp: set_gen_push)
    next
      case 2
      then show ?thesis using c by (intro exI [of _ c] exI [of _ rs]) (auto simp: set_gen_push)
    qed
  qed
  then show ?case using Cons [of "gen_push x rules"] by simp
qed simp

lemma gen_rules_expands: "rs \<in> set (gen_rules items) \<longleftrightarrow> expands items rs"
  by (simp add: gen_rules_def set_gen_fold)

lemma expands_subset: "expands items rs \<Longrightarrow> set rs \<subseteq> gen_rule ` set items"
  by (induction items arbitrary: rs) fastforce+

lemma expands_nonempty: "expands items rs \<Longrightarrow> list_ex gen_required items \<Longrightarrow> rs \<noteq> []"
  by (induction items arbitrary: rs) auto

text \<open>The action that a list of bindings gives a rule sequence: later bindings win.\<close>

definition last_binding :: "('a \<times> 'b) list \<Rightarrow> 'a \<Rightarrow> 'b option" where
  "last_binding bs = map_of (rev bs)"

lemma add_all_eq: "add_all rss b dis = fold (\<lambda>rs acc. Option.bind acc (dis_add rs b)) rss (Some dis)"
proof -
  have "fold (\<lambda>rs acc. Option.bind acc (dis_add rs b)) rss None = None" for rss
    by (induction rss) auto
  then show ?thesis by (induction rss arbitrary: dis) (auto split: option.splits)
qed

definition built ::
  "('t, 'c) rule set \<Rightarrow> ('t, 'c) disassembler \<Rightarrow> (('t, 'c) rule list \<times> ('t, 'c) action) list \<Rightarrow> bool" where
  "built R dis bs \<longleftrightarrow>
     wf_dis R dis \<and> d_default dis = None \<and> snd ` set (d_end dis) \<subseteq> snd ` set bs \<and>
     (\<forall>qs act. bound_to dis qs act \<longleftrightarrow> last_binding bs qs = Some act)"

lemma built_new: "built R new_dis []"
  using wf_new_dis bound_to_new_dis by (auto simp: built_def last_binding_def) (simp_all add: new_dis_def)

lemma built_add:
  assumes "comparable R" "built R dis bs" "set rs \<subseteq> R" "rs \<noteq> []"
  shows "\<exists>dis'. dis_add rs b dis = Some dis' \<and> built R dis' (bs @ [(rs, b)])"
proof -
  have "wf_dis R dis" using assms(2) by (simp add: built_def)
  from dis_add_spec [OF assms(1) this assms(3,4), of b] obtain dis' where
    dis': "dis_add rs b dis = Some dis'" "wf_dis R dis'" "d_default dis' = d_default dis"
      "snd ` set (d_end dis') \<subseteq> insert b (snd ` set (d_end dis))"
      "\<And>qs act. bound_to dis' qs act \<longleftrightarrow> (if qs = rs then act = b else bound_to dis qs act)" by metis
  moreover have "snd ` set (d_end dis) \<subseteq> snd ` set bs" using assms(2) by (simp add: built_def)
  ultimately have "snd ` set (d_end dis') \<subseteq> insert b (snd ` set bs)" by blast
  then have "snd ` set (d_end dis') \<subseteq> snd ` set (bs @ [(rs, b)])" by simp
  then have "built R dis' (bs @ [(rs, b)])" using dis' assms(2) unfolding built_def last_binding_def by (simp add: eq_commute)
  with dis'(1) show ?thesis by blast
qed

lemma built_add_all:
  assumes "comparable R" "built R dis bs" "\<forall>rs \<in> set rss. set rs \<subseteq> R \<and> rs \<noteq> []"
  shows "\<exists>dis'. add_all rss b dis = Some dis' \<and> built R dis' (bs @ map (\<lambda>rs. (rs, b)) rss)"
  using assms(2,3)
proof (induction rss arbitrary: dis bs)
  case (Cons rs rss)
  then obtain dis1 where 1: "dis_add rs b dis = Some dis1" "built R dis1 (bs @ [(rs, b)])"
    using built_add [OF assms(1) Cons.prems(1), of rs b] by auto
  with Cons.IH [OF 1(2)] Cons.prems(2) show ?case by auto
qed auto

lemma built_add_rows:
  assumes "comparable R" "built R dis bs"
    "\<forall>(items, f) \<in> set rows. gen_rule ` set items \<subseteq> R \<and> list_ex gen_required items"
  shows "\<exists>dis'. add_rows rows dis = Some dis' \<and> built R dis' (bs @ rule_rows rows)"
  using assms(2,3)
proof (induction rows arbitrary: dis bs)
  case Nil
  then show ?case by (auto simp: rule_rows_def)
next
  case (Cons row rows)
  obtain items f where row: "row = (items, f)" by (cases row)
  have "\<forall>rs \<in> set (gen_rules items). set rs \<subseteq> R \<and> rs \<noteq> []"
    using Cons.prems(2) row expands_subset expands_nonempty by (fastforce simp: gen_rules_expands)
  then obtain dis1 where 1: "add_all (gen_rules items) f dis = Some dis1"
    "built R dis1 (bs @ map (\<lambda>rs. (rs, f)) (gen_rules items))"
    using built_add_all [OF assms(1) Cons.prems(1)] by blast
  with Cons.IH [OF 1(2)] Cons.prems(2) row show ?case by (auto simp: rule_rows_def)
qed

section \<open>What the search finds\<close>

definition matcher_edges ::
  "(nat \<times> (('t :: len) word, 'c) rule \<times> nat) list \<Rightarrow> (nat \<times> ('t word, 'c) matcher \<times> nat) list" where
  "matcher_edges es = map (map_prod id (map_prod rule_matcher id)) es"

lemma matcher_edges_simps [simp]:
  "matcher_edges [] = []"
  "matcher_edges ((u, r, w) # es) = (u, rule_matcher r, w) # matcher_edges es"
  by (simp_all add: matcher_edges_def)

lemma dis_find_eq:
  "dis_find (Disassembler n es ends d) st i = find_rounds (Suc n) (matcher_edges es) ends [(st, 0, i)]"
  by (simp add: matcher_edges_def)

declare dis_find.simps [simp del]

text \<open>The states in which a sequence of rules can end.\<close>

fun match_seq ::
  "(('t :: len) word, 'c) rule list \<Rightarrow> ('t word, 'c) dstate \<Rightarrow> cell list \<Rightarrow> (('t word, 'c) dstate \<times> cell list) set" where
  "match_seq [] st i = {(st, i)}"
| "match_seq (r # rs) st i =
     (case rule_matcher r st i of
        None \<Rightarrow> {}
      | Some out \<Rightarrow> (\<Union>(st', i') \<in> set out. match_seq rs st' i'))"

lemma match_seq_append:
  "match_seq (rs @ qs) st i = (\<Union>(st', i') \<in> match_seq rs st i. match_seq qs st' i')"
proof (induction rs arbitrary: st i)
  case (Cons r rs)
  then show ?case by (cases "rule_matcher r st i") (simp_all add: split_def)
qed simp

definition hits ::
  "(nat \<times> (('t :: len) word, 'c) rule \<times> nat) list \<Rightarrow> (nat \<times> ('t word, 'c) action) list \<Rightarrow>
   ('t word, 'c) dstate \<times> nat \<times> cell list \<Rightarrow> (('t word, 'c) dstate \<times> cell list) set" where
  "hits es ends s =
     (case s of (st, v, i) \<Rightarrow>
        {(st', i'). \<exists>rs w act st1. walk es v rs w \<and> (st1, i') \<in> match_seq rs st i \<and>
           map_of ends w = Some act \<and> act st1 = Some (st', True)})"

definition end_hits ::
  "(nat \<times> ('t, 'c) action) list \<Rightarrow> ('t, 'c) dstate \<times> nat \<times> cell list \<Rightarrow> (('t, 'c) dstate \<times> cell list) set" where
  "end_hits ends s =
     (case s of (st, v, i) \<Rightarrow> {(st', i') |st' i' act. i' = i \<and> map_of ends v = Some act \<and> act st = Some (st', True)})"

lemma run_ends_set: "run_ends ends ss = Some R \<Longrightarrow> set R = (\<Union>s \<in> set ss. end_hits ends s)"
  by (induction ends ss arbitrary: R rule: run_ends.induct)
     (fastforce simp: end_hits_def split: option.splits prod.splits if_splits)+

lemma step_edges_set:
  "step_edges (matcher_edges es) (st, v, i) = Some N \<Longrightarrow>
   set N = {(st', w, i') |st' w i' r out. (v, r, w) \<in> set es \<and> rule_matcher r st i = Some out \<and> (st', i') \<in> set out}"
proof (induction es arbitrary: N)
  case (Cons e es)
  obtain u r w where e: "e = (u, r, w)" by (cases e)
  show ?case
  proof (cases "u = v")
    case True
    with Cons.prems e obtain out N' where o: "rule_matcher r st i = Some out"
      "step_edges (matcher_edges es) (st, v, i) = Some N'" "N = map (\<lambda>(st', i). (st', w, i)) out @ N'"
      by (auto split: option.splits)
    have "set N = {(st', w, i') |st' i'. (st', i') \<in> set out} \<union> set N'" using o(3) by force
    also have "\<dots> = {(st', w, i') |st' w i' r out. (v, r, w) \<in> set (e # es) \<and> rule_matcher r st i = Some out \<and> (st', i') \<in> set out}"
      unfolding Cons.IH [OF o(2)] e True using o(1)
      by (intro set_eqI) (simp, metis option.inject)
    finally show ?thesis .
  next
    case False
    then show ?thesis using Cons e by auto
  qed
qed simp

lemma hits_unfold:
  assumes "step_edges (matcher_edges es) s = Some N"
  shows "hits es ends s = end_hits ends s \<union> (\<Union>s' \<in> set N. hits es ends s')"
proof -
  obtain st v i where s: "s = (st, v, i)" by (cases s)
  have N: "set N = {(st', w, i') |st' w i' r out. (v, r, w) \<in> set es \<and> rule_matcher r st i = Some out \<and> (st', i') \<in> set out}"
    using step_edges_set assms s by blast
  have "(x, j) \<in> hits es ends s \<longleftrightarrow> (x, j) \<in> end_hits ends s \<union> (\<Union>s' \<in> set N. hits es ends s')" (is "?l \<longleftrightarrow> ?r") for x j
  proof
    assume ?l
    then obtain rs w act st1 where h: "walk es v rs w" "(st1, j) \<in> match_seq rs st i"
      "map_of ends w = Some act" "act st1 = Some (x, True)" by (auto simp: hits_def s)
    show ?r
    proof (cases rs)
      case Nil
      then show ?thesis using h by (auto simp: end_hits_def s)
    next
      case (Cons r qs)
      then obtain u where u: "(v, r, u) \<in> set es" "walk es u qs w" using h(1) by auto
      obtain out st' i' where o: "rule_matcher r st i = Some out" "(st', i') \<in> set out" "(st1, j) \<in> match_seq qs st' i'"
        using h(2) Cons by (auto split: option.splits)
      have "(st', u, i') \<in> set N" using u o N by blast
      moreover have "(x, j) \<in> hits es ends (st', u, i')" using u o h by (auto simp: hits_def)
      ultimately show ?thesis by blast
    qed
  next
    assume ?r
    then consider "(x, j) \<in> end_hits ends s" | s' where "s' \<in> set N" "(x, j) \<in> hits es ends s'" by blast
    then show ?l
    proof cases
      case 1
      then show ?thesis by (fastforce simp: hits_def end_hits_def s intro: exI [of _ "[]"])
    next
      case 2
      then obtain st' u i' r out where e: "s' = (st', u, i')" "(v, r, u) \<in> set es" "rule_matcher r st i = Some out"
        "(st', i') \<in> set out" using N by auto
      from 2(2) obtain rs w act st1 where h: "walk es u rs w" "(st1, j) \<in> match_seq rs st' i'"
        "map_of ends w = Some act" "act st1 = Some (x, True)" by (auto simp: hits_def e)
      have "walk es v (r # rs) w" using e(2) h(1) by auto
      moreover have "(st1, j) \<in> match_seq (r # rs) st i" using e(3,4) h(2) by auto
      ultimately show ?thesis using h(3,4) unfolding hits_def s by blast
    qed
  qed
  then show ?thesis by (auto simp del: Un_iff)
qed

lemma find_rounds_set:
  "find_rounds k (matcher_edges es) ends ss = Some R \<Longrightarrow> set R = (\<Union>s \<in> set ss. hits es ends s)"
proof (induction k "matcher_edges es" ends ss arbitrary: R rule: find_rounds.induct)
  case (3 k ends s ss)
  then obtain ret new R' where h: "run_ends ends (s # ss) = Some ret"
    "those (map (step_edges (matcher_edges es)) (s # ss)) = Some new"
    "find_rounds k (matcher_edges es) ends (concat new) = Some R'" "R = ret @ R'"
    by (auto split: option.splits)
  note IH = "3.hyps" [OF h(1,2,3)]
  have N: "map (step_edges (matcher_edges es)) (s # ss) = map Some new"
    using h(2) by (simp only: those_eq_Some_iff)
  have new: "(\<Union>x \<in> set (s # ss). hits es ends x) = (\<Union>x \<in> set (s # ss). end_hits ends x) \<union> (\<Union>x \<in> set (concat new). hits es ends x)"
  proof -
    have "(\<Union>x \<in> set ys. hits es ends x) = (\<Union>x \<in> set ys. end_hits ends x) \<union> (\<Union>x \<in> set (concat ns). hits es ends x)"
      if "map (step_edges (matcher_edges es)) ys = map Some ns" for ys ns
      using that
    proof (induction ys arbitrary: ns)
      case (Cons y ys)
      then obtain n ns' where "ns = n # ns'" "step_edges (matcher_edges es) y = Some n"
        "map (step_edges (matcher_edges es)) ys = map Some ns'" by (cases ns) auto
      then show ?case using Cons.IH [of ns'] hits_unfold [of es y n ends] by auto
    qed simp
    from this [OF N] show ?thesis .
  qed
  show ?case unfolding new using run_ends_set [OF h(1)] IH h(4) by simp
qed auto

text \<open>The matches of a disassembler are the accepted matches of the rule sequences bound in it.\<close>

lemma dis_find_set:
  assumes "dis_find dis st i = Some R"
  shows "set R = {(st', i') |st' i' rs act st1. bound_to dis rs act \<and> (st1, i') \<in> match_seq rs st i \<and> act st1 = Some (st', True)}"
proof -
  obtain n es ends d where dis: "dis = Disassembler n es ends d" by (cases dis) auto
  have "set R = hits es ends (st, 0, i)" using find_rounds_set [of _ es ends] assms dis by (simp only: dis_find_eq) auto
  then show ?thesis by (auto simp: hits_def dis)
qed

section \<open>The search ends\<close>

text \<open>
  Edges to newer vertices and actions that do not panic, here and in all sub-disassemblers.
\<close>

primrec safe_rule :: "('t, 'c) rule \<Rightarrow> bool" and safe_dis :: "('t, 'c) disassembler \<Rightarrow> bool" where
  "safe_rule (Terminal msk pat caps) = True"
| "safe_rule (Sub k sub) = safe_dis sub"
| "safe_dis (Disassembler n es ends d) \<longleftrightarrow>
     0 < n \<and> (\<forall>(u, ok, w) \<in> set (map (map_prod id (map_prod safe_rule id)) es). u < w \<and> w < n \<and> ok) \<and>
     (\<forall>act \<in> snd ` set ends. \<forall>st. act st \<noteq> None)"

text \<open>
  If an invariant of states and their vertices rules out panics, \<open>n\<close> rounds suffice on a graph of
  \<open>n\<close> vertices whose edges lead to newer vertices.
\<close>

lemma run_ends_total:
  "\<forall>(st, v, i) \<in> set ss. \<forall>act. map_of ends v = Some act \<longrightarrow> act st \<noteq> None \<Longrightarrow> run_ends ends ss \<noteq> None"
proof (induction ends ss rule: run_ends.induct)
  case (2 ends st v iter states)
  then show ?case by (cases "map_of ends v") (auto split: option.splits)
qed simp

lemma step_edges_total:
  assumes "\<forall>(u, r, w) \<in> set es. u = v \<longrightarrow> rule_matcher r st i \<noteq> None"
  shows "step_edges (matcher_edges es) (st, v, i) \<noteq> None"
  using assms
proof (induction es)
  case (Cons e es)
  obtain u r w where e: "e = (u, r, w)" by (cases e)
  obtain N where N: "step_edges (matcher_edges es) (st, v, i) = Some N" using Cons by fastforce
  show ?case
  proof (cases "u = v")
    case True
    then obtain out where "rule_matcher r st i = Some out" using Cons.prems e by auto
    then show ?thesis using N e by simp
  next
    case False
    then show ?thesis using N e by simp
  qed
qed simp

lemma find_rounds_total:
  assumes edges: "\<forall>(u, r, w) \<in> set es. u < w \<and> w < n"
    and acts: "\<And>st v i act. I (st, v, i) \<Longrightarrow> map_of ends v = Some act \<Longrightarrow> act st \<noteq> None"
    and steps: "\<And>st v i r w. I (st, v, i) \<Longrightarrow> (v, r, w) \<in> set es \<Longrightarrow>
        \<exists>out. rule_matcher r st i = Some out \<and> (\<forall>(st', i') \<in> set out. I (st', w, i'))"
    and init: "\<forall>(st, v, i) \<in> set ss. v < n \<and> n \<le> v + k \<and> I (st, v, i)"
  shows "find_rounds k (matcher_edges es) ends ss \<noteq> None"
  using init
proof (induction k arbitrary: ss)
  case 0
  then show ?case by (cases ss) auto
next
  case (Suc k)
  show ?case
  proof (cases ss)
    case (Cons s ss')
    have "\<forall>(st, v, i) \<in> set (s # ss'). \<forall>act. map_of ends v = Some act \<longrightarrow> act st \<noteq> None"
      using Suc.prems acts Cons by blast
    from run_ends_total [OF this] obtain ret where ret: "run_ends ends (s # ss') = Some ret" by blast
    have "\<exists>y \<in> UNIV. step_edges (matcher_edges es) x = Some y" if "x \<in> set (s # ss')" for x
    proof -
      obtain st v i where x: "x = (st, v, i)" by (cases x)
      then have "I (st, v, i)" using that Suc.prems Cons by blast
      then have "step_edges (matcher_edges es) (st, v, i) \<noteq> None" by (intro step_edges_total) (fastforce dest: steps)
      then show ?thesis using x by auto
    qed
    then have "\<forall>x \<in> set (s # ss'). \<exists>y \<in> UNIV. step_edges (matcher_edges es) x = Some y" by blast
    from those_map_total [OF this] obtain new where new: "those (map (step_edges (matcher_edges es)) (s # ss')) = Some new"
      by blast
    have N: "map (step_edges (matcher_edges es)) (s # ss') = map Some new"
      using new by (simp only: those_eq_Some_iff)
    have "\<forall>(st, v, i) \<in> set (concat new). v < n \<and> n \<le> v + k \<and> I (st, v, i)"
    proof clarify
      fix st w i
      assume "(st, w, i) \<in> set (concat new)"
      then obtain m where "m \<in> set new" "(st, w, i) \<in> set m" by auto
      then have "Some m \<in> set (map (step_edges (matcher_edges es)) ss)" using N Cons by (metis image_eqI set_map)
      then obtain st0 v i0 where m: "step_edges (matcher_edges es) (st0, v, i0) = Some m" "(st0, v, i0) \<in> set ss" by force
      obtain r out where r: "(v, r, w) \<in> set es" "rule_matcher r st0 i0 = Some out" "(st, i) \<in> set out"
        using step_edges_set [OF m(1)] \<open>(st, w, i) \<in> set m\<close> by auto
      then have "v < w" "w < n" using edges by blast+
      moreover have "I (st0, v, i0)" "n \<le> v + Suc k" using Suc.prems m(2) by blast+
      moreover from this have "I (st, w, i)" using steps [OF _ r(1)] r(2,3) by fastforce
      ultimately show "w < n \<and> n \<le> w + k \<and> I (st, w, i)" by simp
    qed
    from Suc.IH [OF this] show ?thesis using ret new by (auto simp only: Cons find_rounds.simps option.case split: option.splits)
  qed simp
qed

lemma dis_find_defined:
  assumes wf: "wf_dis R dis" and total: "\<And>r st i. r \<in> R \<Longrightarrow> rule_matcher r st i \<noteq> None"
    and acts: "\<And>rs act st1 i1. bound_to dis rs act \<Longrightarrow> (st1, i1) \<in> match_seq rs st i \<Longrightarrow> act st1 \<noteq> None"
  shows "dis_find dis st i \<noteq> None"
proof -
  obtain n es ends d where dis: "dis = Disassembler n es ends d" by (cases dis) auto
  let ?I = "\<lambda>(st1, v, i1). \<exists>rs. walk es 0 rs v \<and> (st1, i1) \<in> match_seq rs st i"
  have trie: "trie R n es" using wf dis by simp
  have step: "\<exists>out. rule_matcher r st1 i1 = Some out \<and> (\<forall>(st', i') \<in> set out. ?I (st', w, i'))"
    if I: "?I (st1, v, i1)" and e: "(v, r, w) \<in> set es" for st1 v i1 r w
  proof -
    obtain rs where rs: "walk es 0 rs v" "(st1, i1) \<in> match_seq rs st i" using I by auto
    obtain out where out: "rule_matcher r st1 i1 = Some out" using total trie_edge [OF trie e] by blast
    have "walk es 0 (rs @ [r]) w" using rs(1) e by (auto simp: walk_append)
    moreover have "(st', i') \<in> match_seq (rs @ [r]) st i" if "(st', i') \<in> set out" for st' i'
      using match_seq_append [of rs "[r]" st i] rs(2) out that by force
    ultimately show ?thesis using out by blast
  qed
  have "find_rounds (Suc n) (matcher_edges es) ends [(st, 0, i)] \<noteq> None"
  proof (rule find_rounds_total [where n = n and I = ?I])
    show "\<forall>(u, r, w) \<in> set es. u < w \<and> w < n" using trie_edge [OF trie] by blast
    show "\<forall>(s, v, j) \<in> set [(st, 0, i)]. v < n \<and> n \<le> v + Suc n \<and> ?I (s, v, j)"
      using trie by (auto simp: trie_def intro: exI [of _ "[]"])
  next
    fix s v j act
    assume "?I (s, v, j)" "map_of ends v = Some act"
    then show "act s \<noteq> None" using acts dis by fastforce
  next
    fix s v j r w
    assume "?I (s, v, j)" "(v, r, w) \<in> set es"
    then show "\<exists>out. rule_matcher r s j = Some out \<and> (\<forall>(st', i') \<in> set out. ?I (st', w, i'))" by (rule step)
  qed
  then show ?thesis by (simp add: dis dis_find_eq)
qed

lemma safe_matcher:
  fixes r :: "(('t :: len) word, 'c) rule" and dis :: "('t word, 'c) disassembler"
  shows "safe_rule r \<Longrightarrow> \<forall>st i. rule_matcher r st i \<noteq> None"
    and "safe_dis dis \<Longrightarrow> \<forall>st i. dis_find dis st i \<noteq> None"
proof (induction r and dis)
  case (Terminal msk pat caps)
  then show ?case by (auto simp: match_terminal_def split: prod.splits option.splits)
next
  case (Sub k sub)
  then show ?case by simp
next
  case (Disassembler n es ends d)
  have "\<forall>(u, r, w) \<in> set es. u < w \<and> w < n \<and> (\<forall>st i. rule_matcher r st i \<noteq> None)"
  proof clarify
    fix u r w
    assume e: "(u, r, w) \<in> set es"
    then have "(u, safe_rule r, w) \<in> set (map (map_prod id (map_prod safe_rule id)) es)" by force
    then have "u < w \<and> w < n \<and> safe_rule r" using Disassembler.prems by auto
    moreover have "safe_rule r \<Longrightarrow> \<forall>st i. rule_matcher r st i \<noteq> None"
      using Disassembler.IH [OF e, of "(r, w)" r] by simp
    ultimately show "u < w \<and> w < n \<and> (\<forall>st i. rule_matcher r st i \<noteq> None)" by simp
  qed
  moreover have "\<forall>act \<in> snd ` set ends. \<forall>st. act st \<noteq> None" "0 < n" using Disassembler.prems by auto
  moreover from calculation have "act st \<noteq> None" if "map_of ends v = Some act" for v act st
    using map_of_SomeD [OF that] by force
  ultimately show ?case unfolding dis_find_eq
    by (intro allI find_rounds_total [where n = n and I = "\<lambda>_. True"]) (auto 0 3)
qed

lemma wf_dis_safe:
  assumes "wf_dis R dis" "\<forall>r \<in> R. safe_rule r" "\<forall>act \<in> snd ` set (d_end dis). \<forall>st. act st \<noteq> None"
  shows "safe_dis dis"
  using assms by (cases dis) (auto simp: trie_def)

section \<open>Longest match\<close>

lemma hd_sort_key_min: "xs \<noteq> [] \<Longrightarrow> hd (sort_key f xs) \<in> set xs \<and> (\<forall>x \<in> set xs. f (hd (sort_key f xs)) \<le> f x)"
proof -
  assume "xs \<noteq> []"
  then obtain y ys where "sort_key f xs = y # ys" by (metis list.exhaust set_empty set_sort)
  moreover from this have "set (y # ys) = set xs" "sorted (map f (y # ys))"
    by (metis set_sort, metis sorted_sort_key)
  ultimately show ?thesis by auto
qed

lemma next_match_cases:
  assumes "dis_find dis (new_state a c) i = Some R"
  shows "R \<noteq> [] \<Longrightarrow> \<exists>m \<in> set R. next_match dis i a c = Some (Some (fst m)) \<and>
           (\<forall>m' \<in> set R. length (ds_tokens (fst m')) \<le> length (ds_tokens (fst m)))"
    and "R = [] \<Longrightarrow> next_match dis i a c =
           (case (d_default dis, fst (read_token i)) of
              (Some def, Some tok) \<Rightarrow>
                map_option (\<lambda>(st, ok). if ok then Some st else None) (def ((new_state a c)\<lparr>ds_tokens := [tok]\<rparr>))
            | _ \<Rightarrow> Some None)"
proof -
  assume ne: "R \<noteq> []"
  let ?f = "\<lambda>m :: ('a word, 'b) dstate \<times> cell list. - int (length (ds_tokens (fst m)))"
  have "next_match dis i a c = Some (Some (fst (hd (sort_key ?f R))))"
    using assms ne by (cases R rule: remdups_adj.cases) (auto simp: next_match_def)
  with hd_sort_key_min [OF ne, of ?f]
  show "\<exists>m \<in> set R. next_match dis i a c = Some (Some (fst m)) \<and>
           (\<forall>m' \<in> set R. length (ds_tokens (fst m')) \<le> length (ds_tokens (fst m)))"
    by (intro bexI [of _ "hd (sort_key ?f R)"]) auto
next
  assume "R = []"
  then show "next_match dis i a c =
           (case (d_default dis, fst (read_token i)) of
              (Some def, Some tok) \<Rightarrow>
                map_option (\<lambda>(st, ok). if ok then Some st else None) (def ((new_state a c)\<lparr>ds_tokens := [tok]\<rparr>))
            | _ \<Rightarrow> Some None)"
    using assms by (auto simp: next_match_def new_state_def split: option.splits)
qed

section \<open>Properties\<close>

lemma new_disassembler_built:
  assumes "comparable R" "\<forall>(items, f) \<in> set rows. gen_rule ` set items \<subseteq> R \<and> list_ex gen_required items"
  shows "\<exists>dis. new_disassembler rows def = Some dis \<and> wf_dis R dis \<and> d_default dis = def \<and>
           snd ` set (d_end dis) \<subseteq> snd ` set rows \<and>
           (\<forall>rs act. bound_to dis rs act \<longleftrightarrow> last_binding (rule_rows rows) rs = Some act)"
proof -
  obtain dis where dis: "add_rows rows new_dis = Some dis" "built R dis (rule_rows rows)"
    using built_add_rows [OF assms(1) built_new assms(2)] by auto
  have ends: "snd ` set (d_end dis) \<subseteq> snd ` set rows"
    using dis(2) by (force simp: built_def rule_rows_def)
  show ?thesis
  proof (cases def)
    case None
    then show ?thesis using dis ends by (auto simp: new_disassembler_def built_def)
  next
    case (Some f)
    have "d_end (set_default f dis) = d_end dis" "d_default (set_default f dis) = Some f" by (cases dis; simp)+
    then show ?thesis using dis ends Some by (auto simp: new_disassembler_def built_def)
  qed
qed

text \<open>
  C32: A disassembler made by \<^verbatim>\<open>new_disassembler!\<close> from rows whose rules are pairwise
  distinguishable, with at least one non-optional rule each, whose actions do not panic and
  whose sub-disassemblers are safe: building it does not panic, the search always ends, and it
  finds exactly the matches of the rule sequences the rows expand to, each with the action of
  the last row that has the sequence, provided the action accepts.
\<close>

theorem new_disassembler_finds:
  fixes rows :: "((('t :: len) word, 'c) gen_item list \<times> ('t word, 'c) action) list"
  assumes "comparable R" "\<forall>r \<in> R. safe_rule r"
    and "\<forall>(items, f) \<in> set rows. gen_rule ` set items \<subseteq> R \<and> list_ex gen_required items \<and> (\<forall>st. f st \<noteq> None)"
  shows "\<exists>dis. new_disassembler rows def = Some dis \<and>
    (\<forall>st i. \<exists>M. dis_find dis st i = Some M \<and>
       set M = {(st', i') |st' i' rs act st1.
         last_binding (rule_rows rows) rs = Some act \<and> (st1, i') \<in> match_seq rs st i \<and> act st1 = Some (st', True)})"
proof -
  have "\<forall>(items, f) \<in> set rows. gen_rule ` set items \<subseteq> R \<and> list_ex gen_required items" using assms(3) by fast
  from new_disassembler_built [OF assms(1) this, of def] obtain dis where
    dis: "new_disassembler rows def = Some dis" "wf_dis R dis" "snd ` set (d_end dis) \<subseteq> snd ` set rows"
      "\<forall>rs act. bound_to dis rs act \<longleftrightarrow> last_binding (rule_rows rows) rs = Some act" by blast
  have "\<forall>act \<in> snd ` set (d_end dis). \<forall>st. act st \<noteq> None"
  proof (intro ballI allI)
    fix act st
    assume "act \<in> snd ` set (d_end dis)"
    then have "act \<in> snd ` set rows" by (rule subsetD [OF dis(3)])
    then obtain items where row: "(items, act) \<in> set rows" by auto
    show "act st \<noteq> None" using bspec [OF assms(3) row] by simp
  qed
  then have safe: "safe_dis dis" using wf_dis_safe dis(2) assms(2) by blast
  have "\<exists>M. dis_find dis st i = Some M \<and> set M = {(st', i') |st' i' rs act st1.
         last_binding (rule_rows rows) rs = Some act \<and> (st1, i') \<in> match_seq rs st i \<and> act st1 = Some (st', True)}" for st i
  proof -
    obtain M where M: "dis_find dis st i = Some M" using safe_matcher(2) [OF safe] by blast
    then show ?thesis using dis_find_set [OF M] dis(4) by auto
  qed
  with dis(1) show ?thesis by blast
qed

theorem new_disassembler_finds_witness:
  "\<exists>dis. new_disassembler [([Required (Terminal (- 1) 0xEA [])], \<lambda>st. Some (st, True))] None =
       Some (dis :: (8 word, unit) disassembler) \<and>
    (\<forall>st i. \<exists>M. dis_find dis st i = Some M \<and>
       set M = {(st', i') |st' i' rs act st1.
         last_binding (rule_rows [([Required (Terminal (- 1) 0xEA [])], \<lambda>st. Some (st, True))]) rs = Some act \<and>
         (st1, i') \<in> match_seq rs st i \<and> act st1 = Some (st', True)})"
  by (rule new_disassembler_finds [of "{Terminal (- 1) 0xEA []}"]) (auto simp: comparable_def)

text \<open>
  \<^verbatim>\<open>find\<close> ends without a panic on every input, for every disassembler in which edges lead to
  newer vertices and no action panics, sub-disassemblers included.
\<close>

theorem dis_find_terminates:
  fixes dis :: "(('t :: len) word, 'c) disassembler"
  assumes "safe_dis dis"
  shows "\<exists>M. dis_find dis st i = Some M"
  using safe_matcher(2) [OF assms] by blast

definition example_dis :: "(8 word, unit) disassembler" where
  "example_dis =
     Disassembler 3 [(0, Terminal (- 1) 0xEA [], 1), (1, Terminal (- 1) 1 [], 2)]
       [(1, \<lambda>st. Some (st, True)), (2, \<lambda>st. Some (st, True))] None"

theorem dis_find_terminates_witness: "\<exists>M. dis_find example_dis (new_state 0 ()) [Some 0xEA, Some 1] = Some M"
  by (rule dis_find_terminates) (simp add: example_dis_def)

text \<open>
  C33: \<^verbatim>\<open>next_match\<close> returns a match with the most tokens if there is one.  Otherwise the default
  action, if set, is run on the next token, and there is no match if it rejects or the input ends.
\<close>

theorem next_match_longest:
  assumes "dis_find dis (new_state a c) i = Some R"
  shows "if R \<noteq> [] then \<exists>m \<in> set R. next_match dis i a c = Some (Some (fst m)) \<and>
           (\<forall>m' \<in> set R. length (ds_tokens (fst m')) \<le> length (ds_tokens (fst m)))
         else next_match dis i a c =
           (case (d_default dis, fst (read_token i)) of
              (Some def, Some tok) \<Rightarrow>
                map_option (\<lambda>(st, ok). if ok then Some st else None) (def ((new_state a c)\<lparr>ds_tokens := [tok]\<rparr>))
            | _ \<Rightarrow> Some None)"
  using next_match_cases [OF assms] by simp

lemma example_find:
  "dis_find example_dis (new_state 0 ()) [Some 0xEA, Some 1] =
     Some [((new_state 0 ())\<lparr>ds_tokens := [0xEA]\<rparr>, [Some 1]), ((new_state 0 ())\<lparr>ds_tokens := [0xEA, 1]\<rparr>, [])]"
  by (simp add: example_dis_def dis_find.simps numeral_3_eq_3 new_state_def match_terminal_def read_token_def token_size_def)

theorem next_match_longest_witness:
  "\<exists>m \<in> {((new_state 0 ())\<lparr>ds_tokens := [0xEA :: 8 word]\<rparr>, [Some 1]), ((new_state 0 ())\<lparr>ds_tokens := [0xEA, 1]\<rparr>, [])}.
     next_match example_dis [Some 0xEA, Some 1] 0 () = Some (Some (fst m)) \<and> length (ds_tokens (fst m)) = 2"
  using next_match_longest [OF example_find] by (auto simp: new_state_def)

section \<open>Tokens and patterns\<close>

lemma shift_or_byte: "push_bit 8 tok OR ucast (byte :: u8) = 256 * tok + (ucast byte :: ('t :: len) word)"
proof -
  have "push_bit 8 tok AND (ucast byte :: 't word) = 0"
    by (rule bit_word_eqI) (auto simp: bit_simps dest: bit_imp_le_length)
  then have "push_bit 8 tok OR ucast byte = push_bit 8 tok + (ucast byte :: 't word)"
    by (simp add: disjunctive_add_eq_or)
  then show ?thesis by (simp add: push_bit_eq_mult)
qed

lemma read_loop_bytes:
  "read_loop (length bs) (map Some bs) (tok :: ('t :: len) word) = Some (fold (\<lambda>b t. 256 * t + ucast b) bs tok)"
proof (induction bs arbitrary: tok)
  case (Cons b bs)
  have "(if tok \<noteq> 0 then push_bit 8 tok else tok) = push_bit 8 tok" by simp
  then show ?case by (simp only: list.size list.map read_loop.simps Let_def list.case option.case fold.simps comp_apply
        add_0_right add_Suc_right shift_or_byte Cons)
qed simp

lemma read_loop_undefined:
  "length cells < n \<or> None \<in> set (take n cells) \<Longrightarrow> read_loop n cells tok = None"
proof (induction n cells tok rule: read_loop.induct)
  case (2 n cells tok)
  then show ?case by (auto simp: Let_def split: list.splits option.splits)
qed simp

lemma fold_rev_horner:
  "fold (\<lambda>b t. 256 * t + ucast b) (rev bs) (0 :: ('t :: len) word) = horner_sum (\<lambda>b. ucast (b :: u8)) 256 bs"
  by (induction bs) (simp_all add: ac_simps)

text \<open>
  \<^verbatim>\<open>read_token\<close> reads as many cells as a token has bytes, least significant byte first; it
  fails if one of them is undefined or the input is too short.
\<close>

theorem read_token_little_endian:
  "read_token i =
     (if token_size TYPE('t word) \<le> length i \<and> None \<notin> set (take (token_size TYPE('t word)) i)
      then Some (horner_sum ucast 256 (map the (take (token_size TYPE('t word)) i)))
      else None :: ('t :: len) word option,
      drop (token_size TYPE('t word)) i)"
proof -
  let ?n = "token_size TYPE('t word)"
  show ?thesis
  proof (cases "?n \<le> length i \<and> None \<notin> set (take ?n i)")
    case True
    let ?bs = "map the (take ?n i)"
    have "map Some (map the cs) = cs" if "None \<notin> set cs" for cs :: "cell list"
      using that by (induction cs) auto
    from this [of "take ?n i"] have "take ?n i = map Some ?bs" using True by simp
    then have "rev (take ?n i) = map Some (rev ?bs)" by (metis rev_map)
    moreover have "length (rev ?bs) = ?n" using True by simp
    ultimately have "read_loop ?n (rev (take ?n i)) (0 :: 't word) = Some (horner_sum ucast 256 ?bs)"
      using read_loop_bytes [of "rev ?bs" "0 :: 't word"] fold_rev_horner [of ?bs] by simp
    then show ?thesis using True by (simp add: read_token_def)
  next
    case False
    then have "length (rev (take ?n i)) < ?n \<or> None \<in> set (take ?n (rev (take ?n i)))" by auto
    then have "read_loop ?n (rev (take ?n i)) (0 :: 't word) = None" by (rule read_loop_undefined)
    then show ?thesis using False by (simp only: read_token_def if_False)
  qed
qed

definition is_bit_char :: "char \<Rightarrow> bool" where
  "is_bit_char c \<longleftrightarrow> c = CHR ''.'' \<or> c = CHR ''0'' \<or> c = CHR ''1''"

text \<open>After the bit characters \<open>cs\<close> of a pattern of \<open>n\<close> bits, the masks describe its first bits.\<close>

definition pattern_inv :: "nat \<Rightarrow> string \<Rightarrow> ('t :: len) word pattern_state \<Rightarrow> bool" where
  "pattern_inv n cs ps \<longleftrightarrow>
     ps_bit ps + length cs = n \<and>
     (\<forall>j < n. bit (ps_mask ps) j \<longleftrightarrow> ps_bit ps \<le> j \<and> cs ! (n - 1 - j) \<noteq> CHR ''.'') \<and>
     (\<forall>j < n. bit (ps_pat ps) j \<longleftrightarrow> ps_bit ps \<le> j \<and> cs ! (n - 1 - j) = CHR ''1'')"

lemma add_group_bit_fields:
  "add_group_bit ps = Some ps' \<Longrightarrow> ps_bit ps' = ps_bit ps \<and> ps_mask ps' = ps_mask ps \<and> ps_pat ps' = ps_pat ps"
  by (auto simp: add_group_bit_def split: if_splits option.splits)

lemma push_one_if: "(if 0 < k then push_bit k 1 else 1) = push_bit k (1 :: ('t :: len) word)"
  by simp

lemma pattern_inv_bit_char:
  fixes ps :: "('t :: len) word pattern_state"
  assumes inv: "pattern_inv n cs ps" and n: "n \<le> LENGTH('t)" and c: "is_bit_char c"
    and step: "pattern_char c ps = Some ps'"
  shows "pattern_inv n (cs @ [c]) ps'"
proof -
  have "0 < ps_bit ps" using step c by (auto simp: pattern_char_def is_bit_char_def split: if_splits)
  then obtain b where b: "ps_bit ps = Suc b" by (cases "ps_bit ps") auto
  have fields: "ps_bit ps' = b"
    "ps_mask ps' = (if c = CHR ''.'' then ps_mask ps else ps_mask ps OR push_bit b 1)"
    "ps_pat ps' = (if c = CHR ''1'' then ps_pat ps OR push_bit b 1 else ps_pat ps)"
    using step c b push_one_if [of b]
    by (auto simp: pattern_char_def is_bit_char_def Let_def dest!: add_group_bit_fields split: if_splits)
  have len: "Suc b + length cs = n" using inv b by (simp add: pattern_inv_def)
  have one: "bit (push_bit b (1 :: 't word)) j \<longleftrightarrow> j = b" if "j < n" for j
    using that n len by (auto simp: bit_simps)
  have old: "bit (ps_mask ps) j \<longleftrightarrow> b < j \<and> cs ! (n - 1 - j) \<noteq> CHR ''.''"
    "bit (ps_pat ps) j \<longleftrightarrow> b < j \<and> cs ! (n - 1 - j) = CHR ''1''" if "j < n" for j
    using inv that b by (simp_all add: pattern_inv_def Suc_le_eq)
  have nth: "(cs @ [c]) ! (n - 1 - b) = c" "b < j \<Longrightarrow> j < n \<Longrightarrow> (cs @ [c]) ! (n - 1 - j) = cs ! (n - 1 - j)" for j
    using len by (auto simp: nth_append)
  have "bit (ps_mask ps') j \<longleftrightarrow> b \<le> j \<and> (cs @ [c]) ! (n - 1 - j) \<noteq> CHR ''.''" if "j < n" for j
    unfolding fields using one [OF that] old [OF that] nth(1) nth(2) [OF _ that]
    by (cases rule: linorder_cases [of j b]) (simp_all add: bit_or_iff del: push_bit_of_1 One_nat_def)
  moreover have "bit (ps_pat ps') j \<longleftrightarrow> b \<le> j \<and> (cs @ [c]) ! (n - 1 - j) = CHR ''1''" if "j < n" for j
    unfolding fields using one [OF that] old [OF that] nth(1) nth(2) [OF _ that]
    by (cases rule: linorder_cases [of j b]) (simp_all add: bit_or_iff del: push_bit_of_1 One_nat_def)
  ultimately show ?thesis using len by (simp add: pattern_inv_def fields)
qed

lemma pattern_inv_other_char:
  assumes "pattern_inv n cs ps" "\<not> is_bit_char c" "pattern_char c ps = Some ps'"
  shows "pattern_inv n cs ps'"
  using assms by (auto simp: pattern_char_def is_bit_char_def pattern_inv_def split: if_splits)

lemma pattern_chars_inv:
  fixes ps :: "('t :: len) word pattern_state"
  shows "pattern_chars s ps = Some ps' \<Longrightarrow> pattern_inv n cs ps \<Longrightarrow> n \<le> LENGTH('t) \<Longrightarrow>
     pattern_inv n (cs @ filter is_bit_char s) ps'"
proof (induction s arbitrary: cs ps)
  case (Cons c s)
  then obtain ps1 where 1: "pattern_char c ps = Some ps1" "pattern_chars s ps1 = Some ps'" by (auto split: option.splits)
  show ?case
  proof (cases "is_bit_char c")
    case True
    then show ?thesis using Cons.IH [OF 1(2) pattern_inv_bit_char [OF Cons.prems(2,3) True 1(1)] Cons.prems(3)] by simp
  next
    case False
    then show ?thesis using Cons.IH [OF 1(2) pattern_inv_other_char [OF Cons.prems(2) False 1(1)] Cons.prems(3)] by simp
  qed
qed simp

text \<open>
  A pattern string accepted for tokens of whole bytes has one \<^verbatim>\<open>0\<close>, \<^verbatim>\<open>1\<close> or dot per bit of
  a token, most significant bit first, and its rule matches a token exactly if the token has
  the digits of the pattern at their places.
\<close>

theorem pattern_string_matches:
  fixes tok :: "('t :: len) word"
  assumes "rule_of_string s = Some (Terminal m p caps)" "LENGTH('t) = 8 * token_size TYPE('t word)"
  shows "length (filter is_bit_char s) = LENGTH('t) \<and>
    (m AND tok = p \<longleftrightarrow>
       (\<forall>k < LENGTH('t). filter is_bit_char s ! k \<noteq> CHR ''.'' \<longrightarrow>
          (bit tok (LENGTH('t) - 1 - k) \<longleftrightarrow> filter is_bit_char s ! k = CHR ''1'')))"
proof -
  let ?n = "LENGTH('t)" and ?cs = "filter is_bit_char s"
  let ?ps = "\<lparr>ps_groups = [], ps_cur_group = '''', ps_read_pat = False,
               ps_bit = 8 * token_size TYPE('t word), ps_mask = 0, ps_pat = 0 :: 't word\<rparr>"
  obtain ps where ps: "pattern_chars s ?ps = Some ps" "ps_bit ps = 0" "m = ps_mask ps" "p = ps_pat ps"
    using assms(1) by (auto simp: rule_of_string_def split: option.splits if_splits)
  have "pattern_inv ?n [] ?ps" using assms(2) by (simp add: pattern_inv_def)
  from pattern_chars_inv [OF ps(1) this] have inv: "pattern_inv ?n ?cs ps" by simp
  have mp: "bit m j \<longleftrightarrow> ?cs ! (?n - 1 - j) \<noteq> CHR ''.''" "bit p j \<longleftrightarrow> ?cs ! (?n - 1 - j) = CHR ''1''" if "j < ?n" for j
    using inv that ps by (auto simp: pattern_inv_def)
  have "m AND tok = p \<longleftrightarrow> (\<forall>j < ?n. (bit m j \<and> bit tok j) = bit p j)"
    by (auto simp: bit_eq_iff bit_simps dest: bit_imp_le_length)
  also have "\<dots> \<longleftrightarrow> (\<forall>j < ?n. ?cs ! (?n - 1 - j) \<noteq> CHR ''.'' \<longrightarrow> (bit tok j \<longleftrightarrow> ?cs ! (?n - 1 - j) = CHR ''1''))"
    by (auto simp: mp)
  also have "\<dots> \<longleftrightarrow> (\<forall>k < ?n. ?cs ! k \<noteq> CHR ''.'' \<longrightarrow> (bit tok (?n - 1 - k) \<longleftrightarrow> ?cs ! k = CHR ''1''))"
  proof -
    have "(\<forall>j < ?n. Q (?n - 1 - j) j) \<longleftrightarrow> (\<forall>k < ?n. Q k (?n - 1 - k))" for Q
    proof (intro iffI allI impI)
      fix k
      assume "\<forall>j < ?n. Q (?n - 1 - j) j" "k < ?n"
      then show "Q k (?n - 1 - k)" by (drule_tac spec [of _ "?n - 1 - k"]) auto
    next
      fix j
      assume "\<forall>k < ?n. Q k (?n - 1 - k)" "j < ?n"
      then show "Q (?n - 1 - j) j" by (drule_tac spec [of _ "?n - 1 - j"]) auto
    qed
    from this [of "\<lambda>k j. ?cs ! k \<noteq> CHR ''.'' \<longrightarrow> (bit tok j \<longleftrightarrow> ?cs ! k = CHR ''1'')"] show ?thesis .
  qed
  finally show ?thesis using inv ps(2) by (simp add: pattern_inv_def)
qed

lemma example_pattern:
  "rule_of_string ''01 d@.. 1000'' = Some (Terminal 0xCF 0x48 [(''d'', 0x30)] :: (8 word, unit) rule)"
proof -
  have "pattern_chars ''01 d@.. 1000''
      \<lparr>ps_groups = [], ps_cur_group = '''', ps_read_pat = False, ps_bit = 8, ps_mask = 0, ps_pat = 0 :: 8 word\<rparr> =
    Some \<lparr>ps_groups = [(''d'', 0x30)], ps_cur_group = '''', ps_read_pat = False, ps_bit = 0, ps_mask = 0xCF, ps_pat = 0x48\<rparr>"
    by code_simp
  then show ?thesis by (simp add: rule_of_string_def token_size_def)
qed

theorem pattern_string_matches_witness:
  "0xCF AND (0x58 :: 8 word) = 0x48 \<longleftrightarrow>
   (\<forall>k < 8. filter is_bit_char ''01 d@.. 1000'' ! k \<noteq> CHR ''.'' \<longrightarrow>
      (bit (0x58 :: 8 word) (7 - k) \<longleftrightarrow> filter is_bit_char ''01 d@.. 1000'' ! k = CHR ''1''))"
  using pattern_string_matches [OF example_pattern, of "0x58"] by (simp add: token_size_def)

section \<open>Capture groups\<close>

lemma capture_bits_fold:
  fixes msk tok :: "('t :: len) word"
  assumes "n \<le> LENGTH('t)"
  shows "capture_bits n msk tok res =
    fold (\<lambda>b r. 2 * r + of_bool b) (map (bit tok) (filter (bit msk) (rev [0..<n]))) res"
  using assms
proof (induction n msk tok res rule: capture_bits.induct)
  case (2 n msk tok res)
  have "push_bit n 1 AND msk = (if bit msk n then push_bit n 1 else 0)"
    by (rule bit_word_eqI) (auto simp: bit_simps)
  moreover have "tok AND push_bit n 1 \<noteq> 0 \<longleftrightarrow> bit tok n" "(push_bit n 1 :: 't word) \<noteq> 0"
    using "2.prems" by (simp_all add: and_exp_eq_0_iff_not_bit Suc_le_eq)
  moreover have "push_bit 1 r OR 1 = 2 * r + 1" for r :: u64
  proof -
    have "push_bit 1 r AND 1 = 0" by (simp add: push_bit_eq_mult and_one_eq mod_2_eq_odd)
    then have "push_bit 1 r OR 1 = push_bit 1 r + 1" by (simp only: disjunctive_add_eq_or)
    then show ?thesis by (simp add: push_bit_eq_mult)
  qed
  ultimately show ?case using 2 by (auto simp: Let_def mult.commute [of _ 2])
qed simp

lemma position_map_of:
  "position (\<lambda>x. fst x = k) al = Some i \<Longrightarrow>
   map_of al k = Some (snd (al ! i)) \<and> map_of (al[i := (fst (al ! i), v)]) = (map_of al)(k \<mapsto> v)"
proof (induction al arbitrary: i)
  case (Cons x al)
  then show ?case by (cases x) (auto split: if_splits)
qed simp

text \<open>
  Capturing a group extends its value, or zero for a new group, by the bits of the token
  under the group's mask, most significant bit first; the other groups keep their value.
\<close>

theorem capture_group_value:
  fixes tok :: "('t :: len) word"
  assumes "LENGTH('t) = 8 * token_size TYPE('t word)"
  shows "map_of (capture_group tok (name, msk) groups) =
    (map_of groups)(name \<mapsto>
       fold (\<lambda>b r. 2 * r + of_bool b) (map (bit tok) (filter (bit msk) (rev [0..<LENGTH('t)])))
         (case map_of groups name of Some v \<Rightarrow> v | None \<Rightarrow> 0))"
proof (cases "position (\<lambda>x. fst x = name) groups")
  case None
  then have "map_of groups name = None" by (auto simp: position_None_iff map_of_eq_None_iff)
  then show ?thesis using None capture_bits_fold [of "LENGTH('t)" msk tok 0] assms
    by (auto simp: capture_group_def map_add_Some_iff fun_eq_iff map_add_def split: option.splits)
next
  case (Some i)
  note upd = position_map_of [OF Some]
  show ?thesis using Some upd capture_bits_fold [of "LENGTH('t)" msk tok] assms
    by (simp add: capture_group_def)
qed

theorem capture_group_value_witness:
  "map_of (capture_group (0x58 :: 8 word) (''d'', 0x30) []) ''d'' = Some 1"
  using capture_group_value [of "0x58 :: 8 word" "''d''" "0x30" "[]"]
  by (simp add: token_size_def upt_rec)

section \<open>Mnemonics cover a contiguous area\<close>

fun contiguous :: "nat \<Rightarrow> mnemonic list \<Rightarrow> nat \<Rightarrow> bool" where
  "contiguous a [] b \<longleftrightarrow> a = b"
| "contiguous a (m # ms) b \<longleftrightarrow> b_start (m_area m) = a \<and> a \<le> b_end (m_area m) \<and> contiguous (b_end (m_area m)) ms b"

lemma contiguous_areas: "contiguous a ms b \<Longrightarrow> m \<in> set ms \<Longrightarrow> b_start (m_area m) \<le> b_end (m_area m)"
  by (induction ms arbitrary: a) auto

lemma contiguous_last: "contiguous a ms b \<Longrightarrow> ms \<noteq> [] \<Longrightarrow> b_end (m_area (last ms)) = b"
  by (induction ms arbitrary: a) auto

lemma contiguous_snoc:
  "contiguous a (ms @ [m]) b \<longleftrightarrow> contiguous a ms (b_start (m_area m)) \<and> b_start (m_area m) \<le> b_end (m_area m) \<and> b_end (m_area m) = b"
  by (induction ms arbitrary: a) auto

lemma contiguous_le: "contiguous a ms b \<Longrightarrow> a \<le> b"
  by (induction ms arbitrary: a) force+

text \<open>Mnemonics so far are contiguous from the address of the match to the origin of the next.\<close>

definition wf_dstate :: "('t, 'c) dstate \<Rightarrow> bool" where
  "wf_dstate st \<longleftrightarrow> contiguous (ds_address st) (ds_mnemonics st) (ds_mnemonic_origin st)"

lemma wf_new_state [simp]: "wf_dstate (new_state a c)"
  by (simp add: wf_dstate_def new_state_def)

text \<open>A mnemonic appended with a valid format string.\<close>

lemma mnemonic_dynargs_ok:
  assumes "f (ds_configuration st) = (cfg, Inr (ops, stmts))" "parse_format fmt = Inr toks"
  shows "mnemonic_dynargs len n fmt f st =
    (Inr (), st\<lparr>ds_configuration := cfg,
       ds_mnemonics := ds_mnemonics st @
         [\<lparr>m_area = new_bound (ds_mnemonic_origin st) (ds_mnemonic_origin st + len), m_opcode = n, m_operands = ops,
           m_instructions = stmts, m_format = toks\<rparr>],
       ds_jump_origin := ds_mnemonic_origin st, ds_mnemonic_origin := ds_mnemonic_origin st + len\<rparr>)"
  using assms by (simp add: mnemonic_dynargs_def new_mnemonic_def Let_def)

text \<open>
  \<^verbatim>\<open>mnemonic\<close>, \<^verbatim>\<open>mnemonic_dynargs\<close>, \<^verbatim>\<open>jump\<close> and \<^verbatim>\<open>jump_from\<close> keep the mnemonics of a state
  contiguous whether they succeed or fail, and \<^verbatim>\<open>jump\<close> does not panic: it fails exactly after a
  mnemonic of length zero and otherwise appends one jump from the last mnemonic.
\<close>

theorem state_operations_contiguous:
  assumes "wf_dstate st"
  shows "wf_dstate (snd (mnemonic_dynargs len n fmt f st)) \<and> wf_dstate (snd (st_mnemonic len n fmt ops g st)) \<and>
    wf_dstate (snd (jump_from origin v gd st)) \<and>
    (\<exists>r st'. st_jump v gd st = Some (r, st') \<and> wf_dstate st' \<and>
       (r = Inl ZeroSizedEnd \<and> st' = st \<longleftrightarrow>
          ds_mnemonics st \<noteq> [] \<and> b_start (m_area (last (ds_mnemonics st))) = b_end (m_area (last (ds_mnemonics st)))) \<and>
       (r = Inr () \<longrightarrow> st' = st\<lparr>ds_jumps := ds_jumps st @ [(ds_jump_origin st, v, gd)]\<rparr>))"
proof -
  have dyn: "wf_dstate (snd (mnemonic_dynargs len n fmt h st))" for h
    using assms
    by (cases "parse_format fmt")
       (auto simp: mnemonic_dynargs_def new_mnemonic_def wf_dstate_def contiguous_snoc new_bound_def Let_def
        split: prod.splits sum.splits)
  have jf: "wf_dstate (snd (jump_from k v gd st))" for k
    using assms by (simp add: jump_from_def wf_dstate_def)
  have "\<exists>r st'. st_jump v gd st = Some (r, st') \<and> wf_dstate st' \<and>
       (r = Inl ZeroSizedEnd \<and> st' = st \<longleftrightarrow>
          ds_mnemonics st \<noteq> [] \<and> b_start (m_area (last (ds_mnemonics st))) = b_end (m_area (last (ds_mnemonics st)))) \<and>
       (r = Inr () \<longrightarrow> st' = st\<lparr>ds_jumps := ds_jumps st @ [(ds_jump_origin st, v, gd)]\<rparr>)"
  proof (cases "ds_mnemonics st" rule: rev_cases)
    case Nil
    then show ?thesis using jf [of "ds_jump_origin st"] by (simp add: st_jump_def jump_from_def)
  next
    case (snoc ms m)
    then have le: "b_start (m_area m) \<le> b_end (m_area m)" using assms by (simp add: wf_dstate_def contiguous_snoc)
    then have "bound_len (m_area m) = Some (b_end (m_area m) - b_start (m_area m))"
      by (simp add: bound_len_def)
    then show ?thesis using snoc le assms jf [of "ds_jump_origin st"] by (auto simp: st_jump_def jump_from_def)
  qed
  then show ?thesis using dyn jf by (auto simp: st_mnemonic_def)
qed

theorem state_operations_contiguous_witness:
  "wf_dstate (snd (mnemonic_dynargs 2 ''nop'' [] (\<lambda>c. (c, Inr ([], []))) (new_state 0 () :: (8 word, unit) dstate)))"
  using state_operations_contiguous [of "new_state 0 () :: (8 word, unit) dstate" 2] by simp

section \<open>Tokens of one byte\<close>

lemma read_token_u8 [simp]:
  "read_token (Some b # cs) = (Some (b :: u8), cs)"
  "read_token (None # cs) = (None :: u8 option, cs)"
  "read_token [] = (None :: u8 option, [])"
  by (simp_all add: read_token_def token_size_def)

lemma fold_bits_horner:
  "fold (\<lambda>b r. 2 * r + of_bool b) (rev bs) (0 :: u64) = horner_sum of_bool 2 bs"
  by (induction bs) (simp_all add: ac_simps)

lemma capture_bits_byte: "capture_bits 8 (0xFF :: u8) b 0 = ucast b"
proof -
  have ones: "filter (bit (0xFF :: u8)) (rev [0..<8]) = rev [0..<8]"
    by code_simp
  have "map (bit b) [0..<8] = map (bit (ucast b :: u64)) [0..<8]" by (simp add: bit_simps upt_rec)
  then have "capture_bits 8 (0xFF :: u8) b 0 = take_bit 8 (ucast b :: u64)"
    using capture_bits_fold [of 8 "0xFF :: u8" b 0] fold_bits_horner [of "map (bit b) [0..<8]"]
    unfolding ones rev_map [symmetric] by (simp only: horner_sum_bit_eq_take_bit) simp
  moreover have "take_bit 8 (ucast b :: u64) = ucast b"
    by (rule bit_word_eqI) (auto simp: bit_simps dest: bit_imp_le_length)
  ultimately show ?thesis by simp
qed

lemma get_group_capture: "get_group (st\<lparr>ds_groups := capture_group tok (name, msk) gs\<rparr>) name \<noteq> None"
proof -
  have "name \<in> fst ` set (capture_group tok (name, msk) gs)"
  proof (cases "position (\<lambda>x. fst x = name) gs")
    case (Some i)
    then have "i < length gs" "fst (gs ! i) = name" using position_SomeD by fastforce+
    moreover obtain v where "capture_group tok (name, msk) gs = gs[i := (name, v)]"
      using Some calculation by (auto simp: capture_group_def)
    ultimately have "(name, v) \<in> set (capture_group tok (name, msk) gs)" by (simp add: set_update_memI)
    then show ?thesis by (metis fst_conv image_eqI)
  qed (simp add: capture_group_def)
  then show ?thesis by (auto simp: get_group_def find_None_iff)
qed

section \<open>Mnemonics and jumps of an action\<close>

text \<open>The state after a mnemonic of \<open>len\<close> bytes.\<close>

definition after_mnemonic :: "nat \<Rightarrow> string \<Rightarrow> format_token list \<Rightarrow> rvalue list \<Rightarrow> statement list \<Rightarrow> ('t, 'c) dstate \<Rightarrow> ('t, 'c) dstate" where
  "after_mnemonic len opc toks ops ss st =
     st\<lparr>ds_mnemonics := ds_mnemonics st @
          [\<lparr>m_area = new_bound (ds_mnemonic_origin st) (ds_mnemonic_origin st + len), m_opcode = opc, m_operands = ops,
            m_instructions = ss, m_format = toks\<rparr>],
        ds_jump_origin := ds_mnemonic_origin st, ds_mnemonic_origin := ds_mnemonic_origin st + len\<rparr>"

lemma push_mnemonic_eq:
  "parse_format fmt = Inr toks \<Longrightarrow> push_mnemonic len opc fmt ops (Inr ss) st = Some (after_mnemonic len opc toks ops ss st)"
  by (simp add: push_mnemonic_def st_mnemonic_def mnemonic_dynargs_def new_mnemonic_def unwrap_def after_mnemonic_def Let_def)

lemma push_jump_eq:
  "0 < len \<Longrightarrow> push_jump v g (after_mnemonic len opc toks ops ss st) =
     Some ((after_mnemonic len opc toks ops ss st)
       \<lparr>ds_jumps := ds_jumps st @ [(ds_mnemonic_origin st, v, g)]\<rparr>)"
  by (simp add: push_jump_def st_jump_def jump_from_def unwrap_def after_mnemonic_def bound_len_def new_bound_def)

lemma push_jump_again:
  "0 < len \<Longrightarrow> push_jump v g ((after_mnemonic len opc toks ops ss st)\<lparr>ds_jumps := js\<rparr>) =
     Some ((after_mnemonic len opc toks ops ss st)\<lparr>ds_jumps := js @ [(ds_mnemonic_origin st, v, g)]\<rparr>)"
  by (simp add: push_jump_def st_jump_def jump_from_def unwrap_def after_mnemonic_def bound_len_def new_bound_def)

text \<open>
  An action covers \<open>len\<close> bytes if it appends contiguous mnemonics of that length, and jumps that leave
  from the first of these bytes.
\<close>

definition covers_bytes :: "nat \<Rightarrow> (rvalue \<times> guard) list \<Rightarrow> ('t, 'c) dstate \<Rightarrow> ('t, 'c) dstate \<Rightarrow> bool" where
  "covers_bytes len js st st' \<longleftrightarrow>
     wf_dstate st' \<and> ds_address st' = ds_address st \<and> ds_tokens st' = ds_tokens st \<and>
     ds_mnemonic_origin st' = ds_mnemonic_origin st + len \<and>
     (\<exists>ms. ms \<noteq> [] \<and> ds_mnemonics st' = ds_mnemonics st @ ms \<and> (\<forall>m \<in> set ms. b_start (m_area m) = ds_mnemonic_origin st)) \<and>
     ds_jumps st' = ds_jumps st @ map (Pair (ds_mnemonic_origin st)) js"

lemma wf_after_mnemonic [simp]: "wf_dstate (after_mnemonic len opc toks ops ss st) \<longleftrightarrow> wf_dstate st"
  by (simp add: after_mnemonic_def wf_dstate_def contiguous_snoc new_bound_def)

lemma wf_set_jumps [simp]: "wf_dstate (st\<lparr>ds_jumps := js\<rparr>) \<longleftrightarrow> wf_dstate st"
  by (simp add: wf_dstate_def)

lemma after_mnemonic_fields [simp]:
  "ds_address (after_mnemonic len opc toks ops ss st) = ds_address st"
  "ds_tokens (after_mnemonic len opc toks ops ss st) = ds_tokens st"
  "ds_jumps (after_mnemonic len opc toks ops ss st) = ds_jumps st"
  "ds_mnemonic_origin (after_mnemonic len opc toks ops ss st) = ds_mnemonic_origin st + len"
  "ds_configuration (after_mnemonic len opc toks ops ss st) = ds_configuration st"
  "ds_groups (after_mnemonic len opc toks ops ss st) = ds_groups st"
  "\<exists>m. ds_mnemonics (after_mnemonic len opc toks ops ss st) = ds_mnemonics st @ [m] \<and> b_start (m_area m) = ds_mnemonic_origin st"
  by (simp_all add: after_mnemonic_def new_bound_def)

lemma covers_one:
  assumes "wf_dstate st"
  shows "covers_bytes len js st ((after_mnemonic len opc toks ops ss st)\<lparr>ds_jumps := ds_jumps st @ map (Pair (ds_mnemonic_origin st)) js\<rparr>)"
proof -
  obtain m where "ds_mnemonics (after_mnemonic len opc toks ops ss st) = ds_mnemonics st @ [m]" "b_start (m_area m) = ds_mnemonic_origin st"
    using after_mnemonic_fields(7) by meson
  then show ?thesis using assms by (simp add: covers_bytes_def)
qed

lemma covers_two:
  assumes "wf_dstate st"
  shows "covers_bytes len js st ((after_mnemonic len opc toks ops ss (after_mnemonic 0 opc' toks' ops' ss' st))
      \<lparr>ds_jumps := ds_jumps st @ map (Pair (ds_mnemonic_origin st)) js\<rparr>)"
proof -
  let ?st1 = "after_mnemonic 0 opc' toks' ops' ss' st"
  obtain m m' where "ds_mnemonics ?st1 = ds_mnemonics st @ [m]" "b_start (m_area m) = ds_mnemonic_origin st"
    "ds_mnemonics (after_mnemonic len opc toks ops ss ?st1) = ds_mnemonics ?st1 @ [m']" "b_start (m_area m') = ds_mnemonic_origin ?st1"
    using after_mnemonic_fields(7) by meson
  then show ?thesis using assms by (simp add: covers_bytes_def)
qed

section \<open>Panics of the search\<close>

lemma run_ends_defined:
  "run_ends ends ss = Some R \<Longrightarrow> (st, v, i) \<in> set ss \<Longrightarrow> map_of ends v = Some act \<Longrightarrow> act st \<noteq> None"
proof (induction ss arbitrary: R)
  case (Cons s ss)
  obtain st' v' i' where "s = (st', v', i')" by (cases s)
  with Cons show ?case by (auto split: option.splits prod.splits)
qed simp

lemma find_rounds_defined:
  "find_rounds k (matcher_edges es) ends ss = Some R \<Longrightarrow> (st, v, i) \<in> set ss \<Longrightarrow> walk es v rs w \<Longrightarrow> (st1, i1) \<in> match_seq rs st i \<Longrightarrow>
   map_of ends w = Some act \<Longrightarrow> act st1 \<noteq> None"
proof (induction k arbitrary: ss R st v i rs)
  case 0
  then show ?case by (cases ss) auto
next
  case (Suc k)
  obtain s ss' where ss: "ss = s # ss'" using Suc.prems(2) by (cases ss) auto
  obtain ret N R' where r: "run_ends ends ss = Some ret" "those (map (step_edges (matcher_edges es)) ss) = Some N"
      "find_rounds k (matcher_edges es) ends (concat N) = Some R'"
    using Suc.prems(1) unfolding ss by (auto split: option.splits)
  show ?case
  proof (cases rs)
    case Nil
    then show ?thesis using run_ends_defined [OF r(1) Suc.prems(2)] Suc.prems(3-5) by simp
  next
    case (Cons r' rs')
    obtain u out st' i' where u: "(v, r', u) \<in> set es" "walk es u rs' w" "rule_matcher r' st i = Some out" "(st', i') \<in> set out"
        "(st1, i1) \<in> match_seq rs' st' i'"
      using Suc.prems(3,4) unfolding Cons by (auto split: option.splits)
    have "step_edges (matcher_edges es) (st, v, i) \<in> set (map (step_edges (matcher_edges es)) ss)" using Suc.prems(2) by simp
    then obtain N' where N': "step_edges (matcher_edges es) (st, v, i) = Some N'" "N' \<in> set N"
      unfolding r(2) [unfolded those_eq_Some_iff] by auto
    have "(st', u, i') \<in> set N'" unfolding step_edges_set [OF N'(1)] using u by blast
    then have "(st', u, i') \<in> set (concat N)" using N'(2) by auto
    from Suc.IH [OF r(3) this u(2,5) Suc.prems(5)] show ?thesis .
  qed
qed

text \<open>A panic of an action that is reached is a panic of the search.\<close>

lemma dis_find_panics:
  assumes "bound_to dis rs act" "(st1, i1) \<in> match_seq rs st i" "act st1 = None"
  shows "dis_find dis st i = None"
proof (rule ccontr)
  assume "dis_find dis st i \<noteq> None"
  then obtain R where R: "dis_find dis st i = Some R" by blast
  obtain n es ends d where dis: "dis = Disassembler n es ends d" by (cases dis)
  obtain w where "walk es 0 rs w" "map_of ends w = Some act" using assms(1) dis by auto
  with find_rounds_defined [OF R [unfolded dis dis_find_eq], of st 0 i rs w st1 i1 act] assms(2,3) show False by simp
qed

end
