(* ===== verification/Mos6502.thy ===== *)
theory Mos6502
  imports Rreil Disasm_Spec Region "HOL-Library.Monad_Syntax"
begin

text \<open>
  The MOS 6502 back end: registers, addressing modes and entry points of
  \<^verbatim>\<open>mos6502/src/disassembler.rs\<close>, the semantics of \<^verbatim>\<open>mos6502/src/semantic.rs\<close> and the opcode
  table of \<^verbatim>\<open>mos6502/src/syntax.rs\<close>.

  The semantic functions receive the configuration but do not look at it, so the model omits it.
  An addressing mode builds a semantic action from an opcode name and a semantic function; an
  action is a function on the state of the disassembler, \<open>None\<close> being a panic.  The configuration
  holds the operand that one of the sub-disassemblers \<^verbatim>\<open>imm8\<close>, \<^verbatim>\<open>imm16\<close> or \<^verbatim>\<open>rel\<close> read.
  An \<^verbatim>\<open>i16\<close> is kept as its 16 bits.  Log messages are not modelled.
\<close>

section \<open>Registers and configuration\<close>

definition reg_A :: lvalue where "reg_A = LvVariable ''A'' None 8"
definition reg_X :: lvalue where "reg_X = LvVariable ''X'' None 8"
definition reg_Y :: lvalue where "reg_Y = LvVariable ''Y'' None 8"
definition reg_SP :: lvalue where "reg_SP = LvVariable ''SP'' None 8"
definition flag_N :: lvalue where "flag_N = LvVariable ''N'' None 1"
definition flag_V :: lvalue where "flag_V = LvVariable ''V'' None 1"
definition flag_Z :: lvalue where "flag_Z = LvVariable ''Z'' None 1"
definition flag_C :: lvalue where "flag_C = LvVariable ''C'' None 1"

lemmas mos_regs = reg_A_def reg_X_def reg_Y_def reg_SP_def flag_N_def flag_V_def flag_Z_def flag_C_def

record variant =
  v_arg :: "rvalue option"
  v_rel :: "u16 option"

definition mos6502 :: variant where
  "mos6502 = \<lparr>v_arg = None, v_rel = None\<rparr>"

type_synonym mos_state = "(u8, variant) dstate"
type_synonym mos_action = "(u8, variant) action"

section \<open>Semantic functions\<close>

definition mos_nop :: "il_error + statement list" where
  "mos_nop = Inr []"

definition mos_nop_r :: "rvalue \<Rightarrow> il_error + statement list" where
  "mos_nop_r r = Inr []"

definition mos_adc :: "rvalue \<Rightarrow> il_error + statement list" where
  "mos_adc r = rreil
    [rreil_extop ZeroExtend 8 (rreil_lvalue ''carry'' 8) (rreil_rvalue ''C'' 1),
     rreil_binop Add (rreil_lvalue ''res'' 8) (rreil_rvalue ''A'' 8) r,
     rreil_binop Add (rreil_lvalue ''res'' 8) (rreil_rvalue ''res'' 8) (rreil_rvalue ''carry'' 8),
     rreil_binop Equal (rreil_lvalue ''Z'' 1) (rreil_const 0 8) (rreil_rvalue ''res'' 8),
     rreil_binop LessOrEqualUnsigned (rreil_lvalue ''c1'' 1) (rreil_rvalue ''res'' 8) (rreil_rvalue ''A'' 8),
     rreil_binop Equal (rreil_lvalue ''c2'' 1) (rreil_rvalue ''res'' 8) (rreil_rvalue ''A'' 8),
     rreil_binop And (rreil_lvalue ''c2'' 1) (rreil_rvalue ''c2'' 1) (rreil_rvalue ''C'' 1),
     rreil_binop And (rreil_lvalue ''C'' 1) (rreil_rvalue ''c1'' 1) (rreil_rvalue ''c2'' 1),
     rreil_binop LessOrEqualSigned (rreil_lvalue ''N'' 1) (rreil_rvalue ''res'' 8) (rreil_const 0 8),
     rreil_binop LessOrEqualSigned (rreil_lvalue ''v1'' 1) (rreil_rvalue ''res'' 8) (rreil_rvalue ''A'' 8),
     rreil_binop Equal (rreil_lvalue ''v2'' 1) (rreil_rvalue ''res'' 8) (rreil_rvalue ''A'' 8),
     rreil_binop And (rreil_lvalue ''v2'' 1) (rreil_rvalue ''v2'' 1) (rreil_rvalue ''C'' 1),
     rreil_binop And (rreil_lvalue ''V'' 1) (rreil_rvalue ''v1'' 1) (rreil_rvalue ''v2'' 1),
     rreil_unop Move (rreil_lvalue ''A'' 8) (rreil_rvalue ''res'' 8)]"

definition mos_and :: "rvalue \<Rightarrow> il_error + statement list" where
  "mos_and r = rreil
    [rreil_binop And (rreil_lvalue ''A'' 8) (rreil_rvalue ''A'' 8) r,
     rreil_binop Equal (rreil_lvalue ''Z'' 1) (rreil_rvalue ''A'' 8) (rreil_const 0 8),
     rreil_binop LessOrEqualSigned (rreil_lvalue ''N'' 1) (rreil_rvalue ''A'' 8) (rreil_const 0 8)]"

definition mos_asl :: "rvalue \<Rightarrow> il_error + statement list" where
  "mos_asl r = rreil
    [rreil_unop Move (rreil_lvalue ''C'' 1) (rreil_rvalue_off ''A'' 1 7),
     rreil_binop ShiftLeft (rreil_lvalue ''A'' 8) (rreil_rvalue ''A'' 8) (rreil_const 1 8),
     rreil_binop Equal (rreil_lvalue ''Z'' 1) (rreil_rvalue ''A'' 8) (rreil_const 0 8),
     rreil_binop LessOrEqualSigned (rreil_lvalue ''N'' 1) (rreil_rvalue ''A'' 8) (rreil_const 0 8)]"

definition mos_bit :: "rvalue \<Rightarrow> il_error + statement list" where
  "mos_bit r = rreil
    [rreil_binop And (rreil_lvalue ''res'' 8) (rreil_rvalue ''A'' 8) r,
     rreil_binop Equal (rreil_lvalue ''Z'' 1) (rreil_rvalue ''res'' 8) (rreil_const 0 8),
     rreil_binop LessOrEqualSigned (rreil_lvalue ''N'' 1) (rreil_rvalue ''res'' 8) (rreil_const 0 8),
     rreil_unop Move (rreil_lvalue ''V'' 1) (rreil_rvalue_off ''res'' 1 7)]"

definition mos_brk :: "il_error + statement list" where
  "mos_brk = Inr []"

definition mos_clc :: "il_error + statement list" where
  "mos_clc = rreil
    [rreil_unop Move (rreil_lvalue ''C'' 1) (rreil_const 0 1)]"

definition mos_cli :: "il_error + statement list" where
  "mos_cli = rreil
    [rreil_unop Move (rreil_lvalue ''I'' 1) (rreil_const 0 1)]"

definition mos_cld :: "il_error + statement list" where
  "mos_cld = rreil
    [rreil_unop Move (rreil_lvalue ''D'' 1) (rreil_const 0 1)]"

definition mos_sec :: "il_error + statement list" where
  "mos_sec = rreil
    [rreil_unop Move (rreil_lvalue ''C'' 1) (rreil_const 1 1)]"

definition mos_sei :: "il_error + statement list" where
  "mos_sei = rreil
    [rreil_unop Move (rreil_lvalue ''I'' 1) (rreil_const 1 1)]"

definition mos_clv :: "il_error + statement list" where
  "mos_clv = rreil
    [rreil_unop Move (rreil_lvalue ''V'' 1) (rreil_const 0 1)]"

definition mos_sed :: "il_error + statement list" where
  "mos_sed = rreil
    [rreil_unop Move (rreil_lvalue ''D'' 1) (rreil_const 1 1)]"

definition mos_cmp :: "rvalue \<Rightarrow> rvalue \<Rightarrow> il_error + statement list" where
  "mos_cmp r1 r2 = rreil
    [rreil_binop LessUnsigned (rreil_lvalue ''C'' 1) r1 r2,
     rreil_unop Move (rreil_lvalue ''N'' 1) (rreil_rvalue ''C'' 1),
     rreil_binop Equal (rreil_lvalue ''Z'' 1) r1 r2]"

definition mos_cpx :: "rvalue \<Rightarrow> il_error + statement list" where
  "mos_cpx r = mos_cmp (rreil_rvalue ''X'' 8) r"

definition mos_cpy :: "rvalue \<Rightarrow> il_error + statement list" where
  "mos_cpy r = mos_cmp (rreil_rvalue ''Y'' 8) r"

definition mos_cpa :: "rvalue \<Rightarrow> il_error + statement list" where
  "mos_cpa r = mos_cmp (rreil_rvalue ''A'' 8) r"

definition mos_dec :: "lvalue \<Rightarrow> rvalue \<Rightarrow> il_error + statement list" where
  "mos_dec l r = rreil
    [rreil_binop Subtract l r (rreil_const 1 8),
     rreil_binop Equal (rreil_lvalue ''Z'' 1) (rvalue_of_lvalue l) (rreil_const 0 8),
     rreil_binop LessSigned (rreil_lvalue ''N'' 1) r (rreil_const 0 8)]"

definition mos_dea :: "rvalue \<Rightarrow> il_error + statement list" where
  "mos_dea r = mos_dec (rreil_lvalue ''A'' 8) r"

definition mos_dex :: "il_error + statement list" where
  "mos_dex = mos_dec (rreil_lvalue ''X'' 8) (rreil_rvalue ''X'' 8)"

definition mos_dey :: "il_error + statement list" where
  "mos_dey = mos_dec (rreil_lvalue ''Y'' 8) (rreil_rvalue ''Y'' 8)"

definition mos_eor :: "rvalue \<Rightarrow> il_error + statement list" where
  "mos_eor r = rreil
    [rreil_binop ExclusiveOr (rreil_lvalue ''A'' 8) r (rreil_rvalue ''A'' 8),
     rreil_binop Equal (rreil_lvalue ''Z'' 1) (rreil_rvalue ''A'' 8) (rreil_const 0 8),
     rreil_binop LessSigned (rreil_lvalue ''N'' 1) (rreil_rvalue ''A'' 8) (rreil_const 0 8)]"

definition mos_inc :: "lvalue \<Rightarrow> rvalue \<Rightarrow> il_error + statement list" where
  "mos_inc l r = rreil
    [rreil_binop Add l r (rreil_const 1 8),
     rreil_binop Equal (rreil_lvalue ''Z'' 1) (rvalue_of_lvalue l) (rreil_const 0 8),
     rreil_binop LessSigned (rreil_lvalue ''N'' 1) (rvalue_of_lvalue l) (rreil_const 0 8)]"

definition mos_ina :: "rvalue \<Rightarrow> il_error + statement list" where
  "mos_ina r = mos_inc (rreil_lvalue ''A'' 8) r"

definition mos_inx :: "il_error + statement list" where
  "mos_inx = mos_inc (rreil_lvalue ''X'' 8) (rreil_rvalue ''X'' 8)"

definition mos_iny :: "il_error + statement list" where
  "mos_iny = mos_inc (rreil_lvalue ''Y'' 8) (rreil_rvalue ''Y'' 8)"

definition mos_ld :: "lvalue \<Rightarrow> rvalue \<Rightarrow> il_error + statement list" where
  "mos_ld l r = rreil
    [rreil_unop Move l r,
     rreil_binop Equal (rreil_lvalue ''Z'' 1) (rvalue_of_lvalue l) (rreil_const 0 8),
     rreil_binop LessSigned (rreil_lvalue ''N'' 1) (rvalue_of_lvalue l) (rreil_const 0 8)]"

definition mos_lda :: "rvalue \<Rightarrow> il_error + statement list" where
  "mos_lda r = mos_ld (rreil_lvalue ''A'' 8) r"

definition mos_ldx :: "rvalue \<Rightarrow> il_error + statement list" where
  "mos_ldx r = mos_ld (rreil_lvalue ''X'' 8) r"

definition mos_ldy :: "rvalue \<Rightarrow> il_error + statement list" where
  "mos_ldy r = mos_ld (rreil_lvalue ''Y'' 8) r"

definition mos_lsr :: "rvalue \<Rightarrow> il_error + statement list" where
  "mos_lsr r = rreil
    [rreil_unop Move (rreil_lvalue ''C'' 1) (rreil_rvalue ''A'' 1),
     rreil_binop ShiftLeft (rreil_lvalue ''A'' 8) (rreil_rvalue ''A'' 8) r,
     rreil_binop Equal (rreil_lvalue ''Z'' 1) (rreil_rvalue ''A'' 8) (rreil_const 0 8),
     rreil_unop Move (rreil_lvalue ''N'' 1) (rreil_const 0 1)]"

definition mos_ora :: "rvalue \<Rightarrow> il_error + statement list" where
  "mos_ora r = rreil
    [rreil_binop InclusiveOr (rreil_lvalue ''A'' 8) r (rreil_rvalue ''A'' 8),
     rreil_binop Equal (rreil_lvalue ''Z'' 1) (rreil_rvalue ''A'' 8) (rreil_const 0 8),
     rreil_binop LessSigned (rreil_lvalue ''N'' 1) (rreil_rvalue ''A'' 8) (rreil_const 0 8)]"

definition mos_pha :: "il_error + statement list" where
  "mos_pha = rreil
    [rreil_extop ZeroExtend 9 (rreil_lvalue ''sp'' 9) (rreil_rvalue ''S'' 8),
     rreil_binop Add (rreil_lvalue ''sp'' 9) (rreil_rvalue ''sp'' 9) (rreil_const 0x100 9),
     rreil_store ''ram'' Big 8 (rreil_rvalue ''A'' 8) (rreil_rvalue ''sp'' 9),
     rreil_binop Add (rreil_lvalue ''sp'' 9) (rreil_rvalue ''sp'' 9) (rreil_const 1 9),
     rreil_unop Move (rreil_lvalue ''S'' 8) (rreil_rvalue ''sp'' 8)]"

definition mos_php :: "il_error + statement list" where
  "mos_php = rreil
    [rreil_extop ZeroExtend 9 (rreil_lvalue ''sp'' 9) (rreil_rvalue ''S'' 8),
     rreil_binop Add (rreil_lvalue ''sp'' 9) (rreil_rvalue ''sp'' 9) (rreil_const 0x100 9),
     rreil_extop ZeroExtend 8 (rreil_lvalue ''flags'' 8) (rreil_rvalue ''C'' 1),
     rreil_selop 1 (rreil_lvalue ''flags'' 8) (rreil_rvalue ''Z'' 1),
     rreil_selop 2 (rreil_lvalue ''flags'' 8) (rreil_rvalue ''I'' 1),
     rreil_selop 3 (rreil_lvalue ''flags'' 8) (rreil_rvalue ''D'' 1),
     rreil_selop 4 (rreil_lvalue ''flags'' 8) (rreil_rvalue ''B'' 1),
     rreil_selop 5 (rreil_lvalue ''flags'' 8) RvUndefined,
     rreil_selop 6 (rreil_lvalue ''flags'' 8) (rreil_rvalue ''V'' 1),
     rreil_selop 7 (rreil_lvalue ''flags'' 8) (rreil_rvalue ''N'' 1),
     rreil_store ''ram'' Big 8 (rreil_rvalue ''flags'' 8) (rreil_rvalue ''sp'' 9),
     rreil_binop Add (rreil_lvalue ''sp'' 9) (rreil_rvalue ''sp'' 9) (rreil_const 1 9),
     rreil_unop Move (rreil_lvalue ''S'' 8) (rreil_rvalue ''sp'' 8)]"

definition mos_pla :: "il_error + statement list" where
  "mos_pla = rreil
    [rreil_extop ZeroExtend 9 (rreil_lvalue ''sp'' 9) (rreil_rvalue ''S'' 8),
     rreil_binop Add (rreil_lvalue ''sp'' 9) (rreil_rvalue ''sp'' 9) (rreil_const 0x100 9),
     rreil_binop Add (rreil_lvalue ''sp'' 9) (rreil_rvalue ''sp'' 9) (rreil_const 1 9),
     rreil_load ''ram'' Big 8 (rreil_lvalue ''A'' 8) (rreil_rvalue ''sp'' 9),
     rreil_unop Move (rreil_lvalue ''S'' 8) (rreil_rvalue ''sp'' 8),
     rreil_binop Equal (rreil_lvalue ''Z'' 1) (rreil_rvalue ''A'' 8) (rreil_const 0 8),
     rreil_binop LessSigned (rreil_lvalue ''N'' 1) (rreil_rvalue ''A'' 8) (rreil_const 0 8)]"

definition mos_plp :: "il_error + statement list" where
  "mos_plp = rreil
    [rreil_extop ZeroExtend 9 (rreil_lvalue ''sp'' 9) (rreil_rvalue ''S'' 8),
     rreil_binop Add (rreil_lvalue ''sp'' 9) (rreil_rvalue ''sp'' 9) (rreil_const 0x100 9),
     rreil_binop Add (rreil_lvalue ''sp'' 9) (rreil_rvalue ''sp'' 9) (rreil_const 1 9),
     rreil_load ''ram'' Big 8 (rreil_lvalue ''flags'' 8) (rreil_rvalue ''sp'' 9),
     rreil_unop Move (rreil_lvalue ''C'' 1) (rreil_rvalue ''flags'' 1),
     rreil_unop Move (rreil_lvalue ''Z'' 1) (rreil_rvalue_off ''flags'' 1 1),
     rreil_unop Move (rreil_lvalue ''I'' 1) (rreil_rvalue_off ''flags'' 1 2),
     rreil_unop Move (rreil_lvalue ''D'' 1) (rreil_rvalue_off ''flags'' 1 3),
     rreil_unop Move (rreil_lvalue ''V'' 1) (rreil_rvalue_off ''flags'' 1 6),
     rreil_unop Move (rreil_lvalue ''N'' 1) (rreil_rvalue_off ''flags'' 1 7),
     rreil_unop Move (rreil_lvalue ''S'' 8) (rreil_rvalue ''sp'' 8),
     rreil_binop Equal (rreil_lvalue ''Z'' 1) (rreil_rvalue ''A'' 8) (rreil_const 0 8),
     rreil_binop LessSigned (rreil_lvalue ''N'' 1) (rreil_rvalue ''A'' 8) (rreil_const 0 8)]"

definition mos_rol :: "rvalue \<Rightarrow> (il_error + statement list) option" where
  "mos_rol rv =
     (case lvalue_from_rvalue rv of
        None \<Rightarrow> None
      | Some r \<Rightarrow>
          (case lvalue_extract r 1 7 of
             Inl _ \<Rightarrow> None
           | Inr b \<Rightarrow> Some (rreil
    [rreil_unop Move (rreil_lvalue ''hb'' 1) b,
     rreil_binop ShiftLeft r (rvalue_of_lvalue r) (rreil_const 1 8),
     rreil_selop 7 r (rreil_rvalue ''C'' 1),
     rreil_unop Move (rreil_lvalue ''C'' 1) (rreil_rvalue ''hb'' 1),
     rreil_binop Equal (rreil_lvalue ''Z'' 1) (rvalue_of_lvalue r) (rreil_const 0 8),
     rreil_binop LessOrEqualSigned (rreil_lvalue ''N'' 1) (rvalue_of_lvalue r) (rreil_const 0 8)])))"

definition mos_ror :: "rvalue \<Rightarrow> (il_error + statement list) option" where
  "mos_ror rv =
     (case lvalue_from_rvalue rv of
        None \<Rightarrow> None
      | Some r \<Rightarrow>
          (case lvalue_extract r 1 0 of
             Inl _ \<Rightarrow> None
           | Inr b \<Rightarrow> Some (rreil
    [rreil_unop Move (rreil_lvalue ''lb'' 1) b,
     rreil_binop ShiftRightUnsigned r (rvalue_of_lvalue r) (rreil_const 1 8),
     rreil_selop 7 r (rreil_rvalue ''C'' 1),
     rreil_unop Move (rreil_lvalue ''C'' 1) (rreil_rvalue ''lb'' 1),
     rreil_binop Equal (rreil_lvalue ''Z'' 1) (rvalue_of_lvalue r) (rreil_const 0 8),
     rreil_binop LessOrEqualSigned (rreil_lvalue ''N'' 1) (rvalue_of_lvalue r) (rreil_const 0 8)])))"

definition mos_sbc :: "rvalue \<Rightarrow> il_error + statement list" where
  "mos_sbc r = rreil
    [rreil_extop ZeroExtend 8 (rreil_lvalue ''carry'' 8) (rreil_rvalue ''C'' 1),
     rreil_binop Subtract (rreil_lvalue ''res'' 8) (rreil_rvalue ''A'' 8) r,
     rreil_binop Add (rreil_lvalue ''res'' 8) (rreil_rvalue ''res'' 8) (rreil_rvalue ''carry'' 8),
     rreil_binop Equal (rreil_lvalue ''Z'' 1) (rreil_const 0 8) (rreil_rvalue ''res'' 8),
     rreil_binop LessOrEqualUnsigned (rreil_lvalue ''c1'' 1) (rreil_rvalue ''res'' 8) (rreil_rvalue ''A'' 8),
     rreil_binop Equal (rreil_lvalue ''c2'' 1) (rreil_rvalue ''res'' 8) (rreil_rvalue ''A'' 8),
     rreil_binop And (rreil_lvalue ''c2'' 1) (rreil_rvalue ''c2'' 1) (rreil_rvalue ''C'' 1),
     rreil_binop And (rreil_lvalue ''C'' 1) (rreil_rvalue ''c1'' 1) (rreil_rvalue ''c2'' 1),
     rreil_binop LessOrEqualSigned (rreil_lvalue ''N'' 1) (rreil_rvalue ''res'' 8) (rreil_const 0 8),
     rreil_binop LessOrEqualSigned (rreil_lvalue ''v1'' 1) (rreil_rvalue ''res'' 8) (rreil_rvalue ''A'' 8),
     rreil_binop Equal (rreil_lvalue ''v2'' 1) (rreil_rvalue ''res'' 8) (rreil_rvalue ''A'' 8),
     rreil_binop And (rreil_lvalue ''v2'' 1) (rreil_rvalue ''v2'' 1) (rreil_rvalue ''C'' 1),
     rreil_binop And (rreil_lvalue ''V'' 1) (rreil_rvalue ''v1'' 1) (rreil_rvalue ''v2'' 1),
     rreil_unop Move (rreil_lvalue ''A'' 8) (rreil_rvalue ''res'' 8)]"

definition mos_st :: "lvalue \<Rightarrow> rvalue \<Rightarrow> il_error + statement list" where
  "mos_st reg ptr = rreil
    [rreil_store ''ram'' Big 8 (rvalue_of_lvalue reg) ptr]"

definition mos_sta :: "rvalue \<Rightarrow> il_error + statement list" where
  "mos_sta r = mos_st (rreil_lvalue ''A'' 8) r"

definition mos_stx :: "rvalue \<Rightarrow> il_error + statement list" where
  "mos_stx r = mos_st (rreil_lvalue ''X'' 8) r"

definition mos_sty :: "rvalue \<Rightarrow> il_error + statement list" where
  "mos_sty r = mos_st (rreil_lvalue ''Y'' 8) r"

definition mos_trr :: "lvalue \<Rightarrow> lvalue \<Rightarrow> il_error + statement list" where
  "mos_trr src dst = rreil
    [rreil_unop Move dst (rvalue_of_lvalue src),
     rreil_binop Equal (rreil_lvalue ''Z'' 1) (rvalue_of_lvalue dst) (rreil_const 0 8),
     rreil_binop LessSigned (rreil_lvalue ''N'' 1) (rvalue_of_lvalue dst) (rreil_const 0 8)]"

definition mos_tax :: "il_error + statement list" where
  "mos_tax = mos_trr reg_A reg_X"

definition mos_tay :: "il_error + statement list" where
  "mos_tay = mos_trr reg_A reg_Y"

definition mos_tsx :: "il_error + statement list" where
  "mos_tsx = mos_trr reg_SP reg_X"

definition mos_txa :: "il_error + statement list" where
  "mos_txa = mos_trr reg_X reg_A"

definition mos_txs :: "il_error + statement list" where
  "mos_txs = mos_trr reg_X reg_SP"

definition mos_tya :: "il_error + statement list" where
  "mos_tya = mos_trr reg_Y reg_A"

section \<open>Addressing modes\<close>

text \<open>Semantic functions with an operand may panic; most do not.\<close>

type_synonym sem = "rvalue \<Rightarrow> (il_error + statement list) option"

definition pure_sem :: "(rvalue \<Rightarrow> il_error + statement list) \<Rightarrow> sem" where
  "pure_sem f r = Some (f r)"

text \<open>\<^verbatim>\<open>(st.address + len as u64) as u16\<close>.\<close>

definition next_addr :: "mos_state \<Rightarrow> u16" where
  "next_addr st = of_nat (ds_address st + length (ds_tokens st))"

definition mos_nonary :: "string \<Rightarrow> il_error + statement list \<Rightarrow> mos_action" where
  "mos_nonary opcode sem st = do {
     st1 \<leftarrow> push_mnemonic (length (ds_tokens st)) opcode '''' [] sem st;
     st2 \<leftarrow> push_jump (new_u16 (next_addr st)) always st1;
     Some (st2, True)
   }"

definition mos_ret :: "string \<Rightarrow> mos_action" where
  "mos_ret opcode st = do {
     st1 \<leftarrow> push_mnemonic (length (ds_tokens st)) opcode '''' [] (Inr []) st;
     Some (st1, True)
   }"

definition mos_implied :: "string \<Rightarrow> lvalue \<Rightarrow> sem \<Rightarrow> mos_action" where
  "mos_implied opcode arg0 sem st = do {
     r \<leftarrow> sem (rvalue_of_lvalue arg0);
     st1 \<leftarrow> push_mnemonic (length (ds_tokens st)) opcode '''' [] r st;
     st2 \<leftarrow> push_jump (new_u16 (next_addr st)) always st1;
     Some (st2, True)
   }"

definition mos_immediate :: "string \<Rightarrow> sem \<Rightarrow> mos_action" where
  "mos_immediate opcode sem st =
     (case v_arg (ds_configuration st) of
        Some a \<Rightarrow> do {
          r \<leftarrow> sem a;
          st1 \<leftarrow> push_mnemonic (length (ds_tokens st)) opcode ''#{u}'' [a] r st;
          st2 \<leftarrow> push_jump (new_u16 (next_addr st)) always st1;
          Some (st2, True)
        }
      | None \<Rightarrow> Some (st, False))"

text \<open>\<^verbatim>\<open>let mut stmts = rreil!{..}?; stmts.append(&mut sem(..)?); Ok(stmts)\<close>\<close>

definition then_sem :: "il_error + statement list \<Rightarrow> sem \<Rightarrow> rvalue \<Rightarrow> (il_error + statement list) option" where
  "then_sem stmts sem v =
     (case stmts of
        Inl e \<Rightarrow> Some (Inl e)
      | Inr ss \<Rightarrow> map_option (map_sum id ((@) ss)) (sem v))"

definition mos_zpage :: "string \<Rightarrow> sem \<Rightarrow> mos_action" where
  "mos_zpage opcode sem st = do {
     base \<leftarrow> v_arg (ds_configuration st);
     r \<leftarrow> then_sem (rreil
            [rreil_extop ZeroExtend 16 (rreil_lvalue ''addr'' 16) base,
             rreil_load ''ram'' Big 8 (rreil_lvalue ''val'' 8) (rreil_rvalue ''addr'' 16)])
          sem (rreil_rvalue ''val'' 8);
     st1 \<leftarrow> push_mnemonic (length (ds_tokens st)) opcode ''{p:ram}'' [base] r st;
     st2 \<leftarrow> push_jump (new_u16 (next_addr st)) always st1;
     Some (st2, True)
   }"

text \<open>The formats \<^verbatim>\<open>{:02X}\<close> and \<^verbatim>\<open>{:04X}\<close>.\<close>

fun hex_upper :: "nat \<Rightarrow> string" where
  "hex_upper n =
     (if n < 16 then [''0123456789ABCDEF'' ! n] else hex_upper (n div 16) @ [''0123456789ABCDEF'' ! (n mod 16)])"

declare hex_upper.simps [simp del]

definition fmt_hex :: "nat \<Rightarrow> u64 \<Rightarrow> string" where
  "fmt_hex w v = (let s = hex_upper (unat v) in replicate (w - length s) CHR ''0'' @ s)"

text \<open>The value of the operand and the name of the index register; anything else is \<^verbatim>\<open>unreachable!()\<close>.\<close>

definition base_value :: "rvalue \<Rightarrow> u64 option" where
  "base_value base = (case base of RvConstant v s \<Rightarrow> Some v | _ \<Rightarrow> None)"

definition index_name :: "lvalue \<Rightarrow> string option" where
  "index_name index = (case index of LvVariable n ss s \<Rightarrow> Some n | LvUndefined \<Rightarrow> None)"

definition mos_zpage_offset :: "string \<Rightarrow> lvalue \<Rightarrow> sem \<Rightarrow> mos_action" where
  "mos_zpage_offset opcode index sem st = do {
     base \<leftarrow> v_arg (ds_configuration st);
     base_val \<leftarrow> base_value base;
     index_nam \<leftarrow> index_name index;
     let addr = LvVariable (''$'' @ fmt_hex 2 base_val @ '','' @ index_nam) None 16;
     st1 \<leftarrow> push_mnemonic 0 ''__load'' '''' []
              (rreil [rreil_binop Add (rreil_lvalue ''short_addr'' 8) base (rvalue_of_lvalue index),
                      rreil_extop ZeroExtend 16 addr (rreil_rvalue ''short_addr'' 8),
                      rreil_load ''ram'' Big 8 (rreil_lvalue ''val'' 8) (rvalue_of_lvalue addr)]) st;
     r \<leftarrow> sem (rreil_rvalue ''val'' 8);
     st2 \<leftarrow> push_mnemonic (length (ds_tokens st)) opcode ''{p:ram}'' [rvalue_of_lvalue addr] r st1;
     st3 \<leftarrow> push_jump (new_u16 (next_addr st)) always st2;
     Some (st3, True)
   }"

definition mos_zpage_index :: "string \<Rightarrow> lvalue \<Rightarrow> sem \<Rightarrow> mos_action" where
  "mos_zpage_index opcode index sem st = do {
     base \<leftarrow> v_arg (ds_configuration st);
     base_val \<leftarrow> base_value base;
     index_nam \<leftarrow> index_name index;
     let addr = (if index = rreil_lvalue ''X'' 8
                 then LvVariable (''($'' @ fmt_hex 2 base_val @ '','' @ index_nam @ '')'') None 16
                 else LvVariable (''($'' @ fmt_hex 2 base_val @ ''),'' @ index_nam) None 16);
     st1 \<leftarrow> push_mnemonic 0 ''__load'' '''' []
              (rreil [rreil_binop Add (rreil_lvalue ''short_addr'' 8) base (rvalue_of_lvalue index),
                      rreil_extop ZeroExtend 16 (rreil_lvalue ''addr'' 16) (rreil_rvalue ''short_addr'' 8),
                      rreil_load ''ram'' Big 16 addr (rreil_rvalue ''addr'' 16),
                      rreil_load ''ram'' Big 8 (rreil_lvalue ''val'' 8) (rvalue_of_lvalue addr)]) st;
     r \<leftarrow> sem (rreil_rvalue ''val'' 8);
     st2 \<leftarrow> push_mnemonic (length (ds_tokens st)) opcode ''{p:ram}'' [rvalue_of_lvalue addr] r st1;
     st3 \<leftarrow> push_jump (new_u16 (next_addr st)) always st2;
     Some (st3, True)
   }"

definition mos_absolute :: "string \<Rightarrow> sem \<Rightarrow> mos_action" where
  "mos_absolute opcode sem st = do {
     base \<leftarrow> v_arg (ds_configuration st);
     r \<leftarrow> then_sem (rreil [rreil_load ''ram'' Big 8 (rreil_lvalue ''val'' 8) base]) sem (rreil_rvalue ''val'' 8);
     st1 \<leftarrow> push_mnemonic (length (ds_tokens st)) opcode ''{p:ram}'' [base] r st;
     st2 \<leftarrow> push_jump (new_u16 (next_addr st)) always st1;
     Some (st2, True)
   }"

definition mos_absolute_offset :: "string \<Rightarrow> lvalue \<Rightarrow> sem \<Rightarrow> mos_action" where
  "mos_absolute_offset opcode index sem st = do {
     base \<leftarrow> v_arg (ds_configuration st);
     base_val \<leftarrow> base_value base;
     index_nam \<leftarrow> index_name index;
     let addr = LvVariable (''$'' @ fmt_hex 4 base_val @ '','' @ index_nam) None 16;
     st1 \<leftarrow> push_mnemonic 0 ''__load'' '''' []
              (rreil [rreil_extop ZeroExtend 16 addr (rvalue_of_lvalue index),
                      rreil_binop Add addr (rvalue_of_lvalue addr) base,
                      rreil_load ''ram'' Big 8 (rreil_lvalue ''val'' 8) (rvalue_of_lvalue addr)]) st;
     r \<leftarrow> sem (rreil_rvalue ''val'' 8);
     st2 \<leftarrow> push_mnemonic (length (ds_tokens st)) opcode ''{p:ram}'' [rvalue_of_lvalue addr] r st1;
     st3 \<leftarrow> push_jump (new_u16 (next_addr st)) always st2;
     Some (st3, True)
   }"

definition mos_branch :: "string \<Rightarrow> lvalue \<Rightarrow> bool \<Rightarrow> mos_action" where
  "mos_branch opcode flag is_set st = do {
     let set_rv = (if is_set then rreil_const 1 1 else rreil_const 0 1);
     rel \<leftarrow> v_rel (ds_configuration st);
     let fallthru = next_addr st;
     g \<leftarrow> (case from_flag (rvalue_of_lvalue flag) of Inl e \<Rightarrow> None | Inr g \<Rightarrow> Some g);
     let k = (of_nat (ds_address st) + rel :: u16);
     st1 \<leftarrow> push_mnemonic 2 opcode ''{c:ram}'' [rreil_const (ucast k) 16]
              (rreil [rreil_binop Equal (rreil_lvalue ''flag'' 1) set_rv (rvalue_of_lvalue flag)]) st;
     st2 \<leftarrow> push_jump (new_u16 fallthru) (negation g) st1;
     st3 \<leftarrow> push_jump (new_u16 k) g st2;
     Some (st3, True)
   }"

section \<open>Jumps\<close>

definition imm16_groups :: "mos_state \<Rightarrow> u16 option" where
  "imm16_groups st = do {
     lo \<leftarrow> get_group st ''immlo'';
     hi \<leftarrow> get_group st ''immhi'';
     Some (ucast lo OR push_bit 8 (ucast hi))
   }"

definition mos_jmp_direct :: mos_action where
  "mos_jmp_direct st = do {
     next \<leftarrow> imm16_groups st;
     st1 \<leftarrow> push_mnemonic 3 ''jmp'' ''{c:ram}'' [new_u16 next] (Inr []) st;
     st2 \<leftarrow> push_jump (new_u16 next) always st1;
     Some (st2, True)
   }"

definition mos_jmp_indirect :: mos_action where
  "mos_jmp_indirect st = do {
     ptr \<leftarrow> imm16_groups st;
     st1 \<leftarrow> push_mnemonic 0 ''__fetch'' '''' []
              (rreil [rreil_load ''ram'' Big 16 (rreil_lvalue ''res'' 16) (new_u16 ptr)]) st;
     st2 \<leftarrow> push_mnemonic 3 ''jmp'' ''{p:ram}'' [new_u16 ptr] (Inr []) st1;
     st3 \<leftarrow> push_jump (rreil_rvalue ''res'' 16) always st2;
     Some (st3, True)
   }"

text \<open>\<^verbatim>\<open>st.address as u16 + 3\<close> overflows, and panics, in the last three bytes of the address space.\<close>

definition mos_jsr :: mos_action where
  "mos_jsr st = do {
     let a = (of_nat (ds_address st) :: u16);
     next \<leftarrow> (if unat a + 3 < 2 ^ 16 then Some (a + 3) else None);
     target \<leftarrow> imm16_groups st;
     st1 \<leftarrow> push_mnemonic 3 ''jsr'' ''{c:ram}'' [new_u16 target] (rreil [rreil_callop (new_u16 target)]) st;
     st2 \<leftarrow> push_jump (new_u16 next) always st1;
     Some (st2, True)
   }"

section \<open>Operand decoders and the opcode table\<close>

definition imm8_action :: mos_action where
  "imm8_action st = do {
     v \<leftarrow> get_group st ''imm'';
     Some (st\<lparr>ds_configuration := (ds_configuration st)\<lparr>v_arg := Some (new_u8 (ucast v))\<rparr>\<rparr>, True)
   }"

definition imm16_action :: mos_action where
  "imm16_action st = do {
     v \<leftarrow> imm16_groups st;
     Some (st\<lparr>ds_configuration := (ds_configuration st)\<lparr>v_arg := Some (new_u16 v)\<rparr>\<rparr>, True)
   }"

definition rel_action :: mos_action where
  "rel_action st = do {
     v \<leftarrow> get_group st ''imm'';
     let rel = (ucast v :: u8);
     let w = (if 0 \<le> sint rel then scast rel else scast rel OR 0xFF00 :: u16);
     Some (st\<lparr>ds_configuration := (ds_configuration st)\<lparr>v_rel := Some w\<rparr>\<rparr>, True)
   }"

definition imm8_dis :: "(u8, variant) disassembler option" where
  "imm8_dis = do {
     r \<leftarrow> rule_of_string ''imm@........'';
     new_disassembler [([Required r], imm8_action)] None
   }"

definition imm16_dis :: "(u8, variant) disassembler option" where
  "imm16_dis = do {
     lo \<leftarrow> rule_of_string ''immlo@........'';
     hi \<leftarrow> rule_of_string ''immhi@........'';
     new_disassembler [([Required lo, Required hi], imm16_action)] None
   }"

definition rel_dis :: "(u8, variant) disassembler option" where
  "rel_dis = do {
     r \<leftarrow> rule_of_string ''imm@........'';
     new_disassembler [([Required r], rel_action)] None
   }"

text \<open>A row of the table: the opcode, the operand decoder and the action.\<close>

type_synonym mos_row = "nat \<times> (u8, variant) rule list \<times> mos_action"

definition mos_rows_adc_to_dey ::
  "(u8, variant) rule \<Rightarrow> (u8, variant) rule \<Rightarrow> (u8, variant) rule \<Rightarrow> mos_row list" where
  "mos_rows_adc_to_dey imm8 imm16 rel =
    [(0x61, [imm8], mos_zpage_index ''adc'' (rreil_lvalue ''X'' 8) (pure_sem mos_adc)),
     (0x65, [imm8], mos_zpage ''adc'' (pure_sem mos_adc)),
     (0x69, [imm8], mos_immediate ''adc'' (pure_sem mos_adc)),
     (0x6D, [imm16], mos_absolute ''adc'' (pure_sem mos_adc)),
     (0x71, [imm8], mos_zpage_index ''adc'' (rreil_lvalue ''Y'' 8) (pure_sem mos_adc)),
     (0x75, [imm8], mos_zpage_offset ''adc'' reg_X (pure_sem mos_adc)),
     (0x79, [imm16], mos_absolute_offset ''adc'' reg_Y (pure_sem mos_adc)),
     (0x7D, [imm16], mos_absolute_offset ''adc'' reg_X (pure_sem mos_adc)),
     (0x21, [imm8], mos_zpage_index ''and'' (rreil_lvalue ''X'' 8) (pure_sem mos_and)),
     (0x25, [imm8], mos_zpage ''and'' (pure_sem mos_and)),
     (0x29, [imm8], mos_immediate ''and'' (pure_sem mos_and)),
     (0x2D, [imm16], mos_absolute ''and'' (pure_sem mos_and)),
     (0x31, [imm8], mos_zpage_index ''and'' (rreil_lvalue ''Y'' 8) (pure_sem mos_and)),
     (0x35, [imm8], mos_zpage_offset ''and'' reg_X (pure_sem mos_and)),
     (0x39, [imm16], mos_absolute_offset ''and'' reg_Y (pure_sem mos_and)),
     (0x3D, [imm16], mos_absolute_offset ''and'' reg_X (pure_sem mos_and)),
     (0x02, [], mos_ret ''kil!''),
     (0x0A, [], mos_implied ''asl'' reg_A (pure_sem mos_asl)),
     (0x12, [], mos_ret ''kil!''),
     (0x1A, [], mos_nonary ''nop!'' mos_nop),
     (0x06, [imm8], mos_zpage ''asl'' (pure_sem mos_asl)),
     (0x0E, [imm16], mos_absolute ''asl'' (pure_sem mos_asl)),
     (0x16, [imm8], mos_zpage_offset ''asl'' reg_X (pure_sem mos_asl)),
     (0x1E, [imm16], mos_absolute_offset ''asl'' reg_X (pure_sem mos_asl)),
     (0x90, [rel], mos_branch ''bcc'' flag_C False),
     (0xB0, [rel], mos_branch ''bcs'' flag_C True),
     (0xF0, [rel], mos_branch ''beq'' flag_Z True),
     (0xD0, [rel], mos_branch ''bne'' flag_Z False),
     (0x24, [imm8], mos_zpage ''bit'' (pure_sem mos_bit)),
     (0x2C, [imm16], mos_absolute ''bit'' (pure_sem mos_bit)),
     (0x30, [rel], mos_branch ''bmi'' flag_N True),
     (0x10, [rel], mos_branch ''bpl'' flag_N False),
     (0x50, [rel], mos_branch ''bvc'' flag_V False),
     (0x70, [rel], mos_branch ''bvs'' flag_V True),
     (0x00, [imm8], mos_nonary ''brk'' mos_brk),
     (0x18, [], mos_nonary ''clc'' mos_clc),
     (0x58, [], mos_nonary ''cli'' mos_cli),
     (0xD8, [], mos_nonary ''cld'' mos_cld),
     (0x38, [], mos_nonary ''sec'' mos_sec),
     (0x78, [], mos_nonary ''sei'' mos_sei),
     (0xB8, [], mos_nonary ''clv'' mos_clv),
     (0xF8, [], mos_nonary ''sed'' mos_sed),
     (0xC1, [imm8], mos_zpage_index ''cmp'' (rreil_lvalue ''X'' 8) (pure_sem mos_cpa)),
     (0xC5, [imm8], mos_zpage ''cmp'' (pure_sem mos_cpa)),
     (0xC9, [imm8], mos_immediate ''cmp'' (pure_sem mos_cpa)),
     (0xCD, [imm16], mos_absolute ''cmp'' (pure_sem mos_cpa)),
     (0xD1, [imm8], mos_zpage_index ''cmp'' (rreil_lvalue ''Y'' 8) (pure_sem mos_cpa)),
     (0xD5, [imm8], mos_zpage_offset ''cmp'' reg_X (pure_sem mos_cpa)),
     (0xD9, [imm16], mos_absolute_offset ''cmp'' reg_Y (pure_sem mos_cpa)),
     (0xDD, [imm16], mos_absolute_offset ''cmp'' reg_X (pure_sem mos_cpa)),
     (0xC0, [imm8], mos_immediate ''cpy'' (pure_sem mos_cpy)),
     (0xC4, [imm8], mos_zpage ''cpy'' (pure_sem mos_cpy)),
     (0xCC, [imm16], mos_absolute ''cpy'' (pure_sem mos_cpy)),
     (0xE0, [imm8], mos_immediate ''cpx'' (pure_sem mos_cpx)),
     (0xE4, [imm8], mos_zpage ''cpx'' (pure_sem mos_cpx)),
     (0xEC, [imm16], mos_absolute ''cpx'' (pure_sem mos_cpx)),
     (0xC6, [imm8], mos_zpage ''dec'' (pure_sem mos_dea)),
     (0xD6, [imm8], mos_zpage_offset ''dec'' reg_X (pure_sem mos_dea)),
     (0xCE, [imm16], mos_absolute ''dec'' (pure_sem mos_dea)),
     (0xDE, [imm16], mos_absolute_offset ''dec'' reg_X (pure_sem mos_dea)),
     (0xCA, [], mos_nonary ''dex'' mos_dex),
     (0x88, [], mos_nonary ''dey'' mos_dey),
     (0x41, [imm8], mos_zpage_index ''eor'' (rreil_lvalue ''X'' 8) (pure_sem mos_eor)),
     (0x45, [imm8], mos_zpage ''eor'' (pure_sem mos_eor)),
     (0x49, [imm8], mos_immediate ''eor'' (pure_sem mos_eor)),
     (0x4D, [imm16], mos_absolute ''eor'' (pure_sem mos_eor)),
     (0x51, [imm8], mos_zpage_index ''eor'' (rreil_lvalue ''Y'' 8) (pure_sem mos_eor)),
     (0x55, [imm8], mos_zpage_offset ''eor'' reg_X (pure_sem mos_eor)),
     (0x59, [imm16], mos_absolute_offset ''eor'' reg_Y (pure_sem mos_eor)),
     (0x5D, [imm16], mos_absolute_offset ''eor'' reg_X (pure_sem mos_eor))]"

definition mos_rows_eor_to_tya ::
  "(u8, variant) rule \<Rightarrow> (u8, variant) rule \<Rightarrow> (u8, variant) rule \<Rightarrow> mos_row list" where
  "mos_rows_eor_to_tya imm8 imm16 rel =
    [(0xE6, [imm8], mos_zpage ''inc'' (pure_sem mos_ina)),
     (0xF6, [imm8], mos_zpage_offset ''inc'' reg_X (pure_sem mos_ina)),
     (0xEE, [imm16], mos_absolute ''inc'' (pure_sem mos_ina)),
     (0xFE, [imm16], mos_absolute_offset ''inc'' reg_X (pure_sem mos_ina)),
     (0xE8, [], mos_nonary ''inx'' mos_inx),
     (0xC8, [], mos_nonary ''iny'' mos_iny),
     (0x4C, [imm16], mos_jmp_direct),
     (0x6C, [imm16], mos_jmp_indirect),
     (0x20, [imm16], mos_jsr),
     (0xA1, [imm8], mos_zpage_index ''lda'' (rreil_lvalue ''X'' 8) (pure_sem mos_lda)),
     (0xA5, [imm8], mos_zpage ''lda'' (pure_sem mos_lda)),
     (0xA9, [imm8], mos_immediate ''lda'' (pure_sem mos_lda)),
     (0xAD, [imm16], mos_absolute ''lda'' (pure_sem mos_lda)),
     (0xB1, [imm8], mos_zpage_index ''lda'' (rreil_lvalue ''Y'' 8) (pure_sem mos_lda)),
     (0xB5, [imm8], mos_zpage_offset ''lda'' reg_X (pure_sem mos_lda)),
     (0xB9, [imm16], mos_absolute_offset ''lda'' reg_Y (pure_sem mos_lda)),
     (0xBD, [imm16], mos_absolute_offset ''lda'' reg_X (pure_sem mos_lda)),
     (0xA2, [imm8], mos_immediate ''ldx'' (pure_sem mos_ldx)),
     (0xA6, [imm8], mos_zpage ''ldx'' (pure_sem mos_ldx)),
     (0xAE, [imm16], mos_absolute ''ldx'' (pure_sem mos_ldx)),
     (0xB2, [], mos_ret ''kil!''),
     (0xB6, [imm8], mos_zpage_offset ''ldx'' reg_Y (pure_sem mos_ldx)),
     (0xBE, [imm16], mos_absolute_offset ''ldx'' reg_Y (pure_sem mos_ldx)),
     (0xA4, [imm8], mos_zpage ''ldy'' (pure_sem mos_ldy)),
     (0xA0, [imm8], mos_immediate ''ldy'' (pure_sem mos_ldy)),
     (0xB4, [imm8], mos_zpage_offset ''ldy'' reg_X (pure_sem mos_ldy)),
     (0xAC, [imm16], mos_absolute ''ldy'' (pure_sem mos_ldy)),
     (0xBC, [imm16], mos_absolute_offset ''ldy'' reg_X (pure_sem mos_ldy)),
     (0x42, [], mos_ret ''kil!''),
     (0x4A, [], mos_implied ''lsr'' reg_A (pure_sem mos_lsr)),
     (0x52, [], mos_ret ''kil!''),
     (0x5A, [], mos_nonary ''nop!'' mos_nop),
     (0x46, [imm8], mos_zpage ''lsr'' (pure_sem mos_lsr)),
     (0x4E, [imm16], mos_absolute ''lsr'' (pure_sem mos_lsr)),
     (0x56, [imm8], mos_zpage_offset ''lsr'' reg_X (pure_sem mos_lsr)),
     (0x5E, [imm16], mos_absolute_offset ''lsr'' reg_X (pure_sem mos_lsr)),
     (0xEA, [], mos_nonary ''nop'' mos_nop),
     (0x01, [imm8], mos_zpage_index ''ora'' (rreil_lvalue ''X'' 8) (pure_sem mos_ora)),
     (0x05, [imm8], mos_zpage ''ora'' (pure_sem mos_ora)),
     (0x09, [imm8], mos_immediate ''ora'' (pure_sem mos_ora)),
     (0x0D, [imm16], mos_absolute ''ora'' (pure_sem mos_ora)),
     (0x11, [imm8], mos_zpage_index ''ora'' (rreil_lvalue ''Y'' 8) (pure_sem mos_ora)),
     (0x15, [imm8], mos_zpage_offset ''ora'' reg_X (pure_sem mos_ora)),
     (0x19, [imm16], mos_absolute_offset ''ora'' reg_Y (pure_sem mos_ora)),
     (0x1D, [imm16], mos_absolute_offset ''ora'' reg_X (pure_sem mos_ora)),
     (0x48, [], mos_nonary ''pha'' mos_pha),
     (0x08, [], mos_nonary ''php'' mos_php),
     (0x68, [], mos_nonary ''pla'' mos_pla),
     (0x28, [], mos_nonary ''plp'' mos_plp),
     (0x22, [], mos_ret ''kil!''),
     (0x2A, [], mos_implied ''rol'' reg_A mos_rol),
     (0x32, [], mos_ret ''kil!''),
     (0x3A, [], mos_nonary ''nop!'' mos_nop),
     (0x26, [imm8], mos_zpage ''rol'' mos_rol),
     (0x2E, [imm16], mos_absolute ''rol'' mos_rol),
     (0x36, [imm8], mos_zpage_offset ''rol'' reg_X mos_rol),
     (0x3E, [imm16], mos_absolute_offset ''rol'' reg_X mos_rol),
     (0x62, [], mos_ret ''kil!''),
     (0x6A, [], mos_implied ''ror'' reg_A mos_ror),
     (0x72, [], mos_ret ''kil!''),
     (0x7A, [], mos_nonary ''nop!'' mos_nop),
     (0x66, [imm8], mos_zpage ''ror'' mos_ror),
     (0x6E, [imm16], mos_absolute ''ror'' mos_ror),
     (0x76, [imm8], mos_zpage_offset ''ror'' reg_X mos_ror),
     (0x7E, [imm16], mos_absolute_offset ''ror'' reg_X mos_ror),
     (0x40, [], mos_ret ''rti''),
     (0x60, [], mos_ret ''rts''),
     (0xE1, [imm8], mos_zpage_index ''sbc'' (rreil_lvalue ''X'' 8) (pure_sem mos_sbc)),
     (0xE5, [imm8], mos_zpage ''sbc'' (pure_sem mos_sbc)),
     (0xE9, [imm8], mos_immediate ''sbc'' (pure_sem mos_sbc)),
     (0xED, [imm16], mos_absolute ''sbc'' (pure_sem mos_sbc)),
     (0xF1, [imm8], mos_zpage_index ''sbc'' (rreil_lvalue ''Y'' 8) (pure_sem mos_sbc)),
     (0xF5, [imm8], mos_zpage_offset ''sbc'' reg_X (pure_sem mos_sbc)),
     (0xF9, [imm16], mos_absolute_offset ''sbc'' reg_Y (pure_sem mos_sbc)),
     (0xFD, [imm16], mos_absolute_offset ''sbc'' reg_X (pure_sem mos_sbc)),
     (0x81, [imm8], mos_zpage_index ''sta'' (rreil_lvalue ''X'' 8) (pure_sem mos_sta)),
     (0x85, [imm8], mos_zpage ''sta'' (pure_sem mos_sta)),
     (0x89, [imm8], mos_immediate ''nop!'' (pure_sem mos_nop_r)),
     (0x8D, [imm16], mos_absolute ''sta'' (pure_sem mos_sta)),
     (0x91, [imm8], mos_zpage_index ''sta'' (rreil_lvalue ''Y'' 8) (pure_sem mos_sta)),
     (0x95, [imm8], mos_zpage_offset ''sta'' reg_X (pure_sem mos_sta)),
     (0x99, [imm16], mos_absolute_offset ''sta'' reg_Y (pure_sem mos_sta)),
     (0x9D, [imm16], mos_absolute_offset ''sta'' reg_X (pure_sem mos_sta)),
     (0x86, [imm8], mos_zpage ''stx'' (pure_sem mos_stx)),
     (0x96, [imm8], mos_zpage_offset ''stx'' reg_Y (pure_sem mos_stx)),
     (0x8E, [imm16], mos_absolute ''stx'' (pure_sem mos_stx)),
     (0x9E, [imm16], mos_absolute_offset ''shx!'' reg_Y (pure_sem mos_nop_r)),
     (0x84, [imm8], mos_zpage ''sty'' (pure_sem mos_sty)),
     (0x8C, [imm16], mos_absolute ''sty'' (pure_sem mos_sty)),
     (0x94, [imm8], mos_zpage_offset ''sty'' reg_X (pure_sem mos_sty)),
     (0x9C, [imm16], mos_absolute_offset ''shy!'' reg_X (pure_sem mos_nop_r)),
     (0xAA, [], mos_nonary ''tax'' mos_tax),
     (0xA8, [], mos_nonary ''tay'' mos_tay),
     (0xBA, [], mos_nonary ''tsx'' mos_tsx),
     (0x8A, [], mos_nonary ''txa'' mos_txa),
     (0x9A, [], mos_nonary ''txs'' mos_txs),
     (0x98, [], mos_nonary ''tya'' mos_tya)]"

definition mos_rows_illegal ::
  "(u8, variant) rule \<Rightarrow> (u8, variant) rule \<Rightarrow> (u8, variant) rule \<Rightarrow> mos_row list" where
  "mos_rows_illegal imm8 imm16 rel =
    [(0x80, [imm8], mos_immediate ''nop!'' (pure_sem mos_nop_r)),
     (0x82, [imm8], mos_immediate ''nop!'' (pure_sem mos_nop_r)),
     (0xC2, [imm8], mos_immediate ''nop!'' (pure_sem mos_nop_r)),
     (0xD2, [], mos_ret ''kil!''),
     (0xE2, [imm8], mos_immediate ''nop!'' (pure_sem mos_nop_r)),
     (0xF2, [], mos_ret ''kil!''),
     (0xD4, [imm8], mos_zpage_offset ''nop!'' reg_X (pure_sem mos_nop_r)),
     (0xF4, [imm8], mos_zpage_offset ''nop!'' reg_X (pure_sem mos_nop_r)),
     (0xDA, [], mos_nonary ''nop!'' mos_nop),
     (0xFA, [], mos_nonary ''nop!'' mos_nop),
     (0xDC, [imm16], mos_absolute_offset ''nop!'' reg_X (pure_sem mos_nop_r)),
     (0xFC, [imm16], mos_absolute_offset ''nop!'' reg_X (pure_sem mos_nop_r)),
     (0x04, [imm8], mos_zpage ''nop!'' (pure_sem mos_nop_r)),
     (0x0C, [imm16], mos_absolute ''nop!'' (pure_sem mos_nop_r)),
     (0x14, [imm8], mos_zpage_offset ''nop!'' reg_X (pure_sem mos_nop_r)),
     (0x1C, [imm16], mos_absolute_offset ''nop!'' reg_X (pure_sem mos_nop_r)),
     (0x34, [imm8], mos_zpage_offset ''nop!'' reg_X (pure_sem mos_nop_r)),
     (0x3C, [imm16], mos_absolute_offset ''nop!'' reg_X (pure_sem mos_nop_r)),
     (0x44, [imm8], mos_zpage ''nop!'' (pure_sem mos_nop_r)),
     (0x54, [imm8], mos_zpage_offset ''nop!'' reg_X (pure_sem mos_nop_r)),
     (0x5C, [imm16], mos_absolute_offset ''nop!'' reg_X (pure_sem mos_nop_r)),
     (0x64, [imm8], mos_zpage ''nop!'' (pure_sem mos_nop_r)),
     (0x74, [imm8], mos_zpage_offset ''nop!'' reg_X (pure_sem mos_nop_r)),
     (0x7C, [imm16], mos_absolute_offset ''nop!'' reg_X (pure_sem mos_nop_r)),
     (0x92, [], mos_ret ''kil!''),
     (0x03, [imm8], mos_zpage_index ''slo!'' (rreil_lvalue ''X'' 8) (pure_sem mos_nop_r)),
     (0x07, [imm8], mos_zpage ''slo!'' (pure_sem mos_nop_r)),
     (0x0B, [imm8], mos_immediate ''anc!'' (pure_sem mos_nop_r)),
     (0x0F, [imm16], mos_absolute ''slo!'' (pure_sem mos_nop_r)),
     (0x13, [imm8], mos_zpage_index ''slo!'' (rreil_lvalue ''Y'' 8) (pure_sem mos_nop_r)),
     (0x17, [imm8], mos_zpage_offset ''slo!'' reg_X (pure_sem mos_nop_r)),
     (0x1B, [imm16], mos_absolute_offset ''slo!'' reg_Y (pure_sem mos_nop_r)),
     (0x1F, [imm16], mos_absolute_offset ''slo!'' reg_X (pure_sem mos_nop_r)),
     (0x23, [imm8], mos_zpage_index ''rla!'' (rreil_lvalue ''X'' 8) (pure_sem mos_nop_r)),
     (0x27, [imm8], mos_zpage ''rla!'' (pure_sem mos_nop_r)),
     (0x2B, [imm8], mos_immediate ''anc!'' (pure_sem mos_nop_r)),
     (0x2F, [imm16], mos_absolute ''rla!'' (pure_sem mos_nop_r)),
     (0x33, [imm8], mos_zpage_index ''rla!'' (rreil_lvalue ''Y'' 8) (pure_sem mos_nop_r)),
     (0x37, [imm8], mos_zpage_offset ''rla!'' reg_X (pure_sem mos_nop_r)),
     (0x3B, [imm16], mos_absolute_offset ''rla!'' reg_Y (pure_sem mos_nop_r)),
     (0x3F, [imm16], mos_absolute_offset ''rla!'' reg_X (pure_sem mos_nop_r)),
     (0x43, [imm8], mos_zpage_index ''sre!'' (rreil_lvalue ''X'' 8) (pure_sem mos_nop_r)),
     (0x47, [imm8], mos_zpage ''sre!'' (pure_sem mos_nop_r)),
     (0x4B, [imm8], mos_immediate ''alr!'' (pure_sem mos_nop_r)),
     (0x4F, [imm16], mos_absolute ''sre!'' (pure_sem mos_nop_r)),
     (0x53, [imm8], mos_zpage_index ''sre!'' (rreil_lvalue ''Y'' 8) (pure_sem mos_nop_r)),
     (0x57, [imm8], mos_zpage_offset ''sre!'' reg_X (pure_sem mos_nop_r)),
     (0x5B, [imm16], mos_absolute_offset ''sre!'' reg_Y (pure_sem mos_nop_r)),
     (0x5F, [imm16], mos_absolute_offset ''sre!'' reg_X (pure_sem mos_nop_r)),
     (0x63, [imm8], mos_zpage_index ''rra!'' (rreil_lvalue ''X'' 8) (pure_sem mos_nop_r)),
     (0x67, [imm8], mos_zpage ''rra!'' (pure_sem mos_nop_r)),
     (0x6B, [imm8], mos_immediate ''arr!'' (pure_sem mos_nop_r)),
     (0x6F, [imm16], mos_absolute ''rra!'' (pure_sem mos_nop_r)),
     (0x73, [imm8], mos_zpage_index ''rra!'' (rreil_lvalue ''Y'' 8) (pure_sem mos_nop_r)),
     (0x77, [imm8], mos_zpage_offset ''rra!'' reg_X (pure_sem mos_nop_r)),
     (0x7B, [imm16], mos_absolute_offset ''rra!'' reg_Y (pure_sem mos_nop_r)),
     (0x7F, [imm16], mos_absolute_offset ''rra!'' reg_X (pure_sem mos_nop_r)),
     (0x83, [imm8], mos_zpage_index ''sax!'' (rreil_lvalue ''X'' 8) (pure_sem mos_nop_r)),
     (0x87, [imm8], mos_zpage ''sax!'' (pure_sem mos_nop_r)),
     (0x8B, [imm8], mos_immediate ''xaa?'' (pure_sem mos_nop_r)),
     (0x8F, [imm16], mos_absolute ''sax!'' (pure_sem mos_nop_r)),
     (0x93, [imm8], mos_zpage_index ''ahx!'' (rreil_lvalue ''Y'' 8) (pure_sem mos_nop_r)),
     (0x97, [imm8], mos_zpage_offset ''sax!'' reg_Y (pure_sem mos_nop_r)),
     (0x9B, [imm16], mos_absolute_offset ''tas!'' reg_Y (pure_sem mos_nop_r)),
     (0x9F, [imm16], mos_absolute_offset ''ahx!'' reg_Y (pure_sem mos_nop_r)),
     (0xA3, [imm8], mos_zpage_index ''lax!'' (rreil_lvalue ''X'' 8) (pure_sem mos_nop_r)),
     (0xA7, [imm8], mos_zpage ''lax!'' (pure_sem mos_nop_r)),
     (0xAB, [imm8], mos_immediate ''lax?'' (pure_sem mos_nop_r)),
     (0xAF, [imm16], mos_absolute ''lax!'' (pure_sem mos_nop_r)),
     (0xB3, [imm8], mos_zpage_index ''lax!'' (rreil_lvalue ''Y'' 8) (pure_sem mos_nop_r)),
     (0xB7, [imm8], mos_zpage_offset ''lax!'' reg_Y (pure_sem mos_nop_r)),
     (0xBB, [imm16], mos_absolute_offset ''las!'' reg_Y (pure_sem mos_nop_r)),
     (0xBF, [imm16], mos_absolute_offset ''lax!'' reg_Y (pure_sem mos_nop_r)),
     (0xC3, [imm8], mos_zpage_index ''dcp!'' (rreil_lvalue ''X'' 8) (pure_sem mos_nop_r)),
     (0xC7, [imm8], mos_zpage ''dcp!'' (pure_sem mos_nop_r)),
     (0xCB, [imm8], mos_immediate ''axs!'' (pure_sem mos_nop_r)),
     (0xCF, [imm16], mos_absolute ''dcp!'' (pure_sem mos_nop_r)),
     (0xD3, [imm8], mos_zpage_index ''dcp!'' (rreil_lvalue ''Y'' 8) (pure_sem mos_nop_r)),
     (0xD7, [imm8], mos_zpage_offset ''dcp!'' reg_X (pure_sem mos_nop_r)),
     (0xDB, [imm16], mos_absolute_offset ''dcp!'' reg_Y (pure_sem mos_nop_r)),
     (0xDF, [imm16], mos_absolute_offset ''dcp!'' reg_X (pure_sem mos_nop_r)),
     (0xE3, [imm8], mos_zpage_index ''isc!'' (rreil_lvalue ''X'' 8) (pure_sem mos_nop_r)),
     (0xE7, [imm8], mos_zpage ''isc!'' (pure_sem mos_nop_r)),
     (0xEB, [imm8], mos_immediate ''sbc!'' (pure_sem mos_nop_r)),
     (0xEF, [imm16], mos_absolute ''isc!'' (pure_sem mos_nop_r)),
     (0xF3, [imm8], mos_zpage_index ''isc!'' (rreil_lvalue ''Y'' 8) (pure_sem mos_nop_r)),
     (0xF7, [imm8], mos_zpage_offset ''isc!'' reg_X (pure_sem mos_nop_r)),
     (0xFB, [imm16], mos_absolute_offset ''isc!'' reg_Y (pure_sem mos_nop_r)),
     (0xFF, [imm16], mos_absolute_offset ''isc!'' reg_X (pure_sem mos_nop_r))]"

definition mos_rows ::
  "(u8, variant) rule \<Rightarrow> (u8, variant) rule \<Rightarrow> (u8, variant) rule \<Rightarrow> mos_row list" where
  "mos_rows imm8 imm16 rel =
     mos_rows_adc_to_dey imm8 imm16 rel @ mos_rows_eor_to_tya imm8 imm16 rel @ mos_rows_illegal imm8 imm16 rel"

definition row_items :: "mos_row \<Rightarrow> ((u8, variant) gen_item list \<times> mos_action) option" where
  "row_items row = (case row of (opc, sub, act) \<Rightarrow> map_option (\<lambda>r. (Required r # map Required sub, act)) (rule_of_nat opc))"

text \<open>The three operand decoders are objects of their own; rules compare them by identity.\<close>

definition mos_disassembler :: "(u8, variant) disassembler option" where
  "mos_disassembler = do {
     imm8 \<leftarrow> imm8_dis;
     imm16 \<leftarrow> imm16_dis;
     rel \<leftarrow> rel_dis;
     rows \<leftarrow> those (map row_items (mos_rows (Sub 1 imm8) (Sub 2 imm16) (Sub 3 rel)));
     new_disassembler rows (Some (mos_nonary ''unk'' mos_nop))
   }"

section \<open>The architecture interface\<close>

definition interrupt_vectors :: "(string \<times> nat \<times> string) list" where
  "interrupt_vectors =
     [(''NMI'', 0xFFFA, ''NMI vector''), (''RESET'', 0xFFFC, ''Reset routine''), (''IRQ/BRK'', 0xFFFE, ''Interrupt routine'')]"

text \<open>
  \<^verbatim>\<open>seek\<close> returns a new iterator and leaves the old one where it is; its result is dropped, so
  every vector is read at the position of the unmoved iterator.  \<^verbatim>\<open>seek\<close> may still panic.
\<close>

fun prepare_loop :: "layer_iter \<Rightarrow> (string \<times> nat \<times> string) list \<Rightarrow> (string \<times> nat \<times> string) list option" where
  "prepare_loop i [] = Some []"
| "prepare_loop i ((nam, off, comment) # iv) =
     (case li_seek i off of
        None \<Rightarrow> None
      | Some _ \<Rightarrow>
          (case li_next i of (maybe_lo, j) \<Rightarrow>
             (case li_next j of (maybe_hi, j') \<Rightarrow>
                map_option
                  ((@) (case (maybe_hi, maybe_lo) of
                          (Some (Some hi), Some (Some lo)) \<Rightarrow> [(nam, unat (push_bit 8 (ucast hi) OR ucast lo :: u64), comment)]
                        | _ \<Rightarrow> []))
                  (prepare_loop i iv))))"

definition mos_prepare :: "region \<Rightarrow> (string \<times> nat \<times> string) list option" where
  "mos_prepare reg = Option.bind (region_iter reg) (\<lambda>i. prepare_loop i interrupt_vectors)"

text \<open>\<^verbatim>\<open>decode\<close>: the inner option is the error \<^verbatim>\<open>Unrecognized instruction\<close>.\<close>

definition mos_decode :: "region \<Rightarrow> nat \<Rightarrow> variant \<Rightarrow> mos_state option option" where
  "mos_decode reg addr cfg = do {
     disass \<leftarrow> mos_disassembler;
     i \<leftarrow> region_iter reg;
     j \<leftarrow> li_seek i addr;
     next_match disass (li_drain j) addr cfg
   }"

end
