(* ===== verification/Mos6502_Spec.thy ===== *)
theory Mos6502_Spec
  imports Mos6502 "HOL-Library.Sublist"
begin

text \<open>
  Properties of the MOS 6502 back end.  The statements of every semantic function are well
  typed.  Each of the 256 opcodes has exactly one row in the table, and the disassembler built
  from the table decodes every byte sequence: to the row of its opcode if the operand bytes are
  present and to a one-byte default otherwise.  The action of a row appends contiguous mnemonics
  that cover exactly the bytes that were read.  Running the statements of the arithmetic
  and logic instructions gives the effect on the accumulator and the flags.
\<close>

section \<open>Typing of the semantics\<close>

lemmas mos_rvalue_sems =
  mos_nop_r_def mos_adc_def mos_and_def mos_asl_def mos_bit_def mos_cpx_def mos_cpy_def mos_cpa_def mos_cmp_def
  mos_dea_def mos_dec_def mos_eor_def mos_ina_def mos_inc_def mos_lda_def mos_ldx_def mos_ldy_def mos_ld_def
  mos_lsr_def mos_ora_def mos_sbc_def mos_sta_def mos_stx_def mos_sty_def mos_st_def

lemmas mos_nonary_sems =
  mos_nop_def mos_brk_def mos_clc_def mos_cli_def mos_cld_def mos_sec_def mos_sei_def mos_clv_def mos_sed_def
  mos_dex_def mos_dey_def mos_dec_def mos_inx_def mos_iny_def mos_inc_def mos_pha_def mos_php_def mos_pla_def
  mos_plp_def mos_tax_def mos_tay_def mos_tsx_def mos_txa_def mos_txs_def mos_tya_def mos_trr_def

definition rvalue_sems :: "(rvalue \<Rightarrow> il_error + statement list) list" where
  "rvalue_sems =
     [mos_nop_r, mos_adc, mos_and, mos_asl, mos_bit, mos_cpx, mos_cpy, mos_cpa, mos_dea, mos_eor, mos_ina,
      mos_lda, mos_ldx, mos_ldy, mos_lsr, mos_ora, mos_sbc, mos_sta, mos_stx, mos_sty]"

definition nonary_sems :: "(il_error + statement list) list" where
  "nonary_sems =
     [mos_nop, mos_brk, mos_clc, mos_cli, mos_cld, mos_sec, mos_sei, mos_clv, mos_sed, mos_dex, mos_dey,
      mos_inx, mos_iny, mos_pha, mos_php, mos_pla, mos_plp, mos_tax, mos_tay, mos_tsx, mos_txa, mos_txs, mos_tya]"

lemma rvalue_sems_ok: "rvalue_size r = Some 8 \<Longrightarrow> f \<in> set rvalue_sems \<Longrightarrow> \<exists>ss. f r = Inr ss \<and> rreil ss = Inr ss"
  by (auto simp: rvalue_sems_def mos_rvalue_sems rreil_forms rreil_typing)

lemma nonary_sems_ok: "s \<in> set nonary_sems \<Longrightarrow> \<exists>ss. s = Inr ss \<and> rreil ss = Inr ss"
  by (auto simp: nonary_sems_def mos_nonary_sems rreil_forms rreil_typing mos_regs)

lemma mos_rol_ok: "\<exists>ss. mos_rol (RvVariable n None 0 8) = Some (Inr ss) \<and> rreil ss = Inr ss"
  and mos_ror_ok: "\<exists>ss. mos_ror (RvVariable n None 0 8) = Some (Inr ss) \<and> rreil ss = Inr ss"
  by (auto simp: mos_rol_def mos_ror_def rreil_forms rreil_typing)

text \<open>
  C37: Every statement that the semantic functions of the 6502 emit for an operand of eight bits
  passes the sanity check: the functions never return an error.
\<close>

theorem mos_semantics_typed:
  assumes "rvalue_size r = Some 8"
  shows "(\<forall>f \<in> set rvalue_sems. \<exists>ss. f r = Inr ss \<and> (\<forall>s \<in> set ss. sanity_check s = Inr ())) \<and>
    (\<forall>x \<in> set nonary_sems. \<exists>ss. x = Inr ss \<and> (\<forall>s \<in> set ss. sanity_check s = Inr ())) \<and>
    (\<forall>g \<in> {mos_rol, mos_ror}. \<exists>ss. g (RvVariable n None 0 8) = Some (Inr ss) \<and> (\<forall>s \<in> set ss. sanity_check s = Inr ()))"
  using rvalue_sems_ok [OF assms] nonary_sems_ok mos_rol_ok [of n] mos_ror_ok [of n]
  by (auto simp only: rreil_eq ball_simps) metis+

theorem mos_semantics_typed_witness:
  "rvalue_size (RvConstant 3 8) = Some 8 \<and> (\<exists>ss. mos_adc (RvConstant 3 8) = Inr ss \<and> (\<forall>s \<in> set ss. sanity_check s = Inr ()))"
  using mos_semantics_typed [of "RvConstant 3 8" "''A''", THEN conjunct1] by (simp add: rvalue_sems_def)

section \<open>Addressing modes\<close>

lemma mos_formats:
  "parse_format '''' = Inr []" "parse_format ''#{u}'' = Inr [Literal CHR ''#'', Variable False]"
  "parse_format ''{p:ram}'' = Inr [Pointer False ''ram'']" "parse_format ''{c:ram}'' = Inr [Pointer True ''ram'']"
  by code_simp+

text \<open>An action covers its tokens if it covers as many bytes as there are tokens.\<close>

definition mos_covers :: "(rvalue \<times> guard) list \<Rightarrow> mos_state \<Rightarrow> mos_state \<Rightarrow> bool" where
  "mos_covers js st = covers_bytes (length (ds_tokens st)) js st"

definition falls_through :: "mos_state \<Rightarrow> mos_state \<Rightarrow> bool" where
  "falls_through st = mos_covers [(new_u16 (next_addr st), always)] st"

lemmas mode_simps = mos_formats push_mnemonic_eq push_jump_eq push_jump_again falls_through_def mos_covers_def

lemma rvalue_size_new_u16 [simp]: "rvalue_size (new_u16 v) = Some 16"
  by (simp add: new_u16_def)

definition ready :: "mos_state \<Rightarrow> bool" where
  "ready st \<longleftrightarrow> wf_dstate st \<and> ds_tokens st \<noteq> []"

abbreviation val_rv :: rvalue where
  "val_rv \<equiv> RvVariable ''val'' None 0 8"

lemma nonary_covers:
  "ready st \<Longrightarrow> \<exists>st'. mos_nonary opc (Inr ss) st = Some (st', True) \<and> falls_through st st'"
  using covers_one [of st _ "[(new_u16 (next_addr st), always)]"] by (auto simp: mos_nonary_def mode_simps ready_def)

lemma ret_covers: "ready st \<Longrightarrow> \<exists>st'. mos_ret opc st = Some (st', True) \<and> mos_covers [] st st'"
proof -
  assume st: "ready st"
  let ?st' = "after_mnemonic (length (ds_tokens st)) opc [] [] [] st"
  have "mos_covers [] st (?st'\<lparr>ds_jumps := ds_jumps st @ map (Pair (ds_mnemonic_origin st)) []\<rparr>)"
    using st unfolding mos_covers_def by (intro covers_one) (simp add: ready_def)
  moreover have "?st'\<lparr>ds_jumps := ds_jumps st @ map (Pair (ds_mnemonic_origin st)) []\<rparr> = ?st'"
    by (simp add: after_mnemonic_def)
  ultimately have "mos_covers [] st ?st'" by (simp only:)
  then show ?thesis by (simp add: mos_ret_def mode_simps)
qed

lemma implied_covers:
  "ready st \<Longrightarrow> \<exists>ss. sem (rvalue_of_lvalue a) = Some (Inr ss) \<Longrightarrow>
   \<exists>st'. mos_implied opc a sem st = Some (st', True) \<and> falls_through st st'"
  using covers_one [of st _ "[(new_u16 (next_addr st), always)]"] by (auto simp: mos_implied_def mode_simps ready_def)

lemma immediate_covers:
  "ready st \<Longrightarrow> v_arg (ds_configuration st) = Some a \<Longrightarrow> \<exists>ss. sem a = Some (Inr ss) \<Longrightarrow>
   \<exists>st'. mos_immediate opc sem st = Some (st', True) \<and> falls_through st st'"
  using covers_one [of st _ "[(new_u16 (next_addr st), always)]"] by (auto simp: mos_immediate_def mode_simps ready_def)

lemma zpage_covers:
  assumes "ready st" "v_arg (ds_configuration st) = Some (RvConstant v 8)" "\<exists>ss. sem val_rv = Some (Inr ss)"
  shows "\<exists>st'. mos_zpage opc sem st = Some (st', True) \<and> falls_through st st'"
  using assms covers_one [of st _ "[(new_u16 (next_addr st), always)]"]
  by (auto simp: mos_zpage_def then_sem_def rreil_forms rreil_typing mode_simps ready_def)

lemma absolute_covers:
  assumes "ready st" "v_arg (ds_configuration st) = Some (RvConstant v 16)" "\<exists>ss. sem val_rv = Some (Inr ss)"
  shows "\<exists>st'. mos_absolute opc sem st = Some (st', True) \<and> falls_through st st'"
  using assms covers_one [of st _ "[(new_u16 (next_addr st), always)]"]
  by (auto simp: mos_absolute_def then_sem_def rreil_forms rreil_typing mode_simps ready_def)

lemma indexed_covers:
  assumes "ready st" "\<exists>ss. sem val_rv = Some (Inr ss)"
  shows "v_arg (ds_configuration st) = Some (RvConstant v 8) \<Longrightarrow>
      \<exists>st'. mos_zpage_offset opc (LvVariable n None 8) sem st = Some (st', True) \<and> falls_through st st'"
    and "v_arg (ds_configuration st) = Some (RvConstant v 8) \<Longrightarrow>
      \<exists>st'. mos_zpage_index opc (LvVariable n None 8) sem st = Some (st', True) \<and> falls_through st st'"
    and "v_arg (ds_configuration st) = Some (RvConstant v 16) \<Longrightarrow>
      \<exists>st'. mos_absolute_offset opc (LvVariable n None 8) sem st = Some (st', True) \<and> falls_through st st'"
  using assms covers_two [of st _ "[(new_u16 (next_addr st), always)]"]
  by (auto simp: mos_zpage_offset_def mos_zpage_index_def mos_absolute_offset_def base_value_def index_name_def Let_def
      rreil_forms rreil_typing mode_simps ready_def)

lemma branch_covers:
  assumes "ready st" "length (ds_tokens st) = 2" "v_rel (ds_configuration st) = Some d"
  shows "\<exists>st'. mos_branch opc (LvVariable f None 1) b st = Some (st', True) \<and>
    mos_covers [(new_u16 (next_addr st), GPredicate (RvVariable f None 0 1) False),
            (new_u16 (of_nat (ds_address st) + d), GPredicate (RvVariable f None 0 1) True)] st st'"
  using assms covers_one [of st 2 "[(new_u16 (next_addr st), GPredicate (RvVariable f None 0 1) False),
            (new_u16 (of_nat (ds_address st) + d), GPredicate (RvVariable f None 0 1) True)]"]
  by (auto simp: mos_branch_def Let_def rreil_forms rreil_typing mode_simps ready_def)

lemma jump_covers:
  assumes "ready st" "length (ds_tokens st) = 3" "imm16_groups st = Some t"
  shows "\<exists>st'. mos_jmp_direct st = Some (st', True) \<and> mos_covers [(new_u16 t, always)] st st'"
    and "\<exists>st'. mos_jmp_indirect st = Some (st', True) \<and> mos_covers [(rreil_rvalue ''res'' 16, always)] st st'"
    and "unat (of_nat (ds_address st) :: u16) + 3 < 2 ^ 16 \<Longrightarrow>
      \<exists>st'. mos_jsr st = Some (st', True) \<and> falls_through st st'"
    and "\<not> unat (of_nat (ds_address st) :: u16) + 3 < 2 ^ 16 \<Longrightarrow> mos_jsr st = None"
proof -
  show "\<exists>st'. mos_jmp_direct st = Some (st', True) \<and> mos_covers [(new_u16 t, always)] st st'"
    using assms covers_one [of st 3 "[(new_u16 t, always)]"] by (auto simp: mos_jmp_direct_def mode_simps ready_def)
  show "\<exists>st'. mos_jmp_indirect st = Some (st', True) \<and> mos_covers [(rreil_rvalue ''res'' 16, always)] st st'"
    using assms covers_two [of st 3 "[(rreil_rvalue ''res'' 16, always)]"]
    by (auto simp: mos_jmp_indirect_def rreil_forms rreil_typing mode_simps ready_def)
  have "(of_nat (ds_address st) :: u16) + 3 = next_addr st" using assms(2) by (simp add: next_addr_def)
  then show "unat (of_nat (ds_address st) :: u16) + 3 < 2 ^ 16 \<Longrightarrow>
      \<exists>st'. mos_jsr st = Some (st', True) \<and> falls_through st st'"
    using assms covers_one [of st 3 "[(new_u16 (next_addr st), always)]"]
    by (simp add: mos_jsr_def Let_def rreil_forms rreil_typing mode_simps ready_def)
  show "\<not> unat (of_nat (ds_address st) :: u16) + 3 < 2 ^ 16 \<Longrightarrow> mos_jsr st = None"
    by (simp add: mos_jsr_def)
qed

section \<open>Operands\<close>

text \<open>The operand bytes of an instruction and the state in which its action runs.\<close>

datatype operand = NoOperand | Imm8 u8 | Imm16 u8 u8 | Rel u8

fun operand_rules :: "(u8, variant) rule \<Rightarrow> (u8, variant) rule \<Rightarrow> (u8, variant) rule \<Rightarrow> operand \<Rightarrow> (u8, variant) rule list" where
  "operand_rules imm8 imm16 rel NoOperand = []"
| "operand_rules imm8 imm16 rel (Imm8 b) = [imm8]"
| "operand_rules imm8 imm16 rel (Imm16 lo hi) = [imm16]"
| "operand_rules imm8 imm16 rel (Rel b) = [rel]"

fun operand_bytes :: "operand \<Rightarrow> u8 list" where
  "operand_bytes NoOperand = []"
| "operand_bytes (Imm8 b) = [b]"
| "operand_bytes (Imm16 lo hi) = [lo, hi]"
| "operand_bytes (Rel b) = [b]"

fun operand_groups :: "operand \<Rightarrow> (string \<times> u64) list" where
  "operand_groups NoOperand = []"
| "operand_groups (Imm8 b) = [(''imm'', ucast b)]"
| "operand_groups (Imm16 lo hi) = [(''immlo'', ucast lo), (''immhi'', ucast hi)]"
| "operand_groups (Rel b) = [(''imm'', ucast b)]"

fun operand_config :: "operand \<Rightarrow> variant \<Rightarrow> variant" where
  "operand_config NoOperand c = c"
| "operand_config (Imm8 b) c = c\<lparr>v_arg := Some (new_u8 b)\<rparr>"
| "operand_config (Imm16 lo hi) c = c\<lparr>v_arg := Some (new_u16 (ucast lo OR push_bit 8 (ucast hi)))\<rparr>"
| "operand_config (Rel b) c = c\<lparr>v_rel := Some (scast b)\<rparr>"

definition matched_state :: "nat \<Rightarrow> variant \<Rightarrow> u8 \<Rightarrow> operand \<Rightarrow> mos_state" where
  "matched_state a c opc x =
     (new_state a c)\<lparr>ds_tokens := opc # operand_bytes x, ds_groups := operand_groups x, ds_configuration := operand_config x c\<rparr>"

lemma matched_state_fields [simp]:
  "ready (matched_state a c opc x)" "ds_tokens (matched_state a c opc x) = opc # operand_bytes x"
  "ds_configuration (matched_state a c opc x) = operand_config x c" "ds_address (matched_state a c opc x) = a"
  "ds_mnemonic_origin (matched_state a c opc x) = a" "ds_jumps (matched_state a c opc x) = []" "ds_mnemonics (matched_state a c opc x) = []"
  by (simp_all add: matched_state_def ready_def wf_dstate_def new_state_def)

lemma ucast_via_u64 [simp]: "ucast (ucast (b :: u8) :: u64) = (ucast b :: u16)" "ucast (ucast (b :: u8) :: u64) = b"
  by (rule bit_word_eqI; auto simp: bit_simps)+

lemma matched_state_imm16 [simp]:
  "imm16_groups (matched_state a c opc (Imm16 lo hi)) = Some (ucast lo OR push_bit 8 (ucast hi))"
  by (simp add: imm16_groups_def get_group_def matched_state_def)

section \<open>Rows of the opcode table\<close>

definition row_good :: "(u8, variant) rule \<Rightarrow> (u8, variant) rule \<Rightarrow> (u8, variant) rule \<Rightarrow> mos_row \<Rightarrow> bool" where
  "row_good imm8 imm16 rel row \<longleftrightarrow>
     (case row of (opc, sub, act) \<Rightarrow>
        opc < 256 \<and> sub \<in> {[], [imm8], [imm16], [rel]} \<and>
        (\<forall>a c x. operand_rules imm8 imm16 rel x = sub \<longrightarrow> (opc = 0x20 \<longrightarrow> unat (of_nat a :: u16) + 3 < 2 ^ 16) \<longrightarrow>
           (\<exists>st' js. act (matched_state a c (of_nat opc) x) = Some (st', True) \<and>
              mos_covers js (matched_state a c (of_nat opc) x) st')))"

lemma operand_rules_cases:
  assumes "distinct [imm8, imm16, rel]"
  shows "operand_rules imm8 imm16 rel x = [imm8] \<longleftrightarrow> (\<exists>b. x = Imm8 b)"
    "operand_rules imm8 imm16 rel x = [imm16] \<longleftrightarrow> (\<exists>lo hi. x = Imm16 lo hi)"
    "operand_rules imm8 imm16 rel x = [rel] \<longleftrightarrow> (\<exists>b. x = Rel b)"
    "operand_rules imm8 imm16 rel x = [] \<longleftrightarrow> x = NoOperand"
  using assms by (cases x; auto)+

lemma rvalue_sem_var: "f \<in> set rvalue_sems \<Longrightarrow> \<exists>ss. pure_sem f (RvVariable n None 0 8) = Some (Inr ss)"
  using rvalue_sems_ok [of "RvVariable n None 0 8" f] by (auto simp: pure_sem_def)

lemma rvalue_sem_const: "f \<in> set rvalue_sems \<Longrightarrow> \<exists>ss. pure_sem f (new_u8 b) = Some (Inr ss)"
  using rvalue_sems_ok [of "new_u8 b" f] by (auto simp: pure_sem_def new_u8_def)

definition good_sem :: "sem \<Rightarrow> bool" where
  "good_sem sem \<longleftrightarrow> (\<forall>n. \<exists>ss. sem (RvVariable n None 0 8) = Some (Inr ss))"

lemma good_sems [simp]: "f \<in> set rvalue_sems \<Longrightarrow> good_sem (pure_sem f)" "good_sem mos_rol" "good_sem mos_ror"
  using rvalue_sem_var mos_rol_ok mos_ror_ok by (fastforce simp: good_sem_def)+

lemma rvalue_sems_mem [simp]:
  "mos_nop_r \<in> set rvalue_sems" "mos_adc \<in> set rvalue_sems" "mos_and \<in> set rvalue_sems" "mos_asl \<in> set rvalue_sems"
  "mos_bit \<in> set rvalue_sems" "mos_cpx \<in> set rvalue_sems" "mos_cpy \<in> set rvalue_sems" "mos_cpa \<in> set rvalue_sems"
  "mos_dea \<in> set rvalue_sems" "mos_eor \<in> set rvalue_sems" "mos_ina \<in> set rvalue_sems" "mos_lda \<in> set rvalue_sems"
  "mos_ldx \<in> set rvalue_sems" "mos_ldy \<in> set rvalue_sems" "mos_lsr \<in> set rvalue_sems" "mos_ora \<in> set rvalue_sems"
  "mos_sbc \<in> set rvalue_sems" "mos_sta \<in> set rvalue_sems" "mos_stx \<in> set rvalue_sems" "mos_sty \<in> set rvalue_sems"
  by (simp_all add: rvalue_sems_def)

lemma nonary_sems_mem [simp]:
  "mos_nop \<in> set nonary_sems" "mos_brk \<in> set nonary_sems" "mos_clc \<in> set nonary_sems" "mos_cli \<in> set nonary_sems"
  "mos_cld \<in> set nonary_sems" "mos_sec \<in> set nonary_sems" "mos_sei \<in> set nonary_sems" "mos_clv \<in> set nonary_sems"
  "mos_sed \<in> set nonary_sems" "mos_dex \<in> set nonary_sems" "mos_dey \<in> set nonary_sems" "mos_inx \<in> set nonary_sems"
  "mos_iny \<in> set nonary_sems" "mos_pha \<in> set nonary_sems" "mos_php \<in> set nonary_sems" "mos_pla \<in> set nonary_sems"
  "mos_plp \<in> set nonary_sems" "mos_tax \<in> set nonary_sems" "mos_tay \<in> set nonary_sems" "mos_tsx \<in> set nonary_sems"
  "mos_txa \<in> set nonary_sems" "mos_txs \<in> set nonary_sems" "mos_tya \<in> set nonary_sems"
  by (simp_all add: nonary_sems_def)

lemma row_goodI:
  assumes "opc < 256" "sub \<in> {[], [imm8], [imm16], [rel]}"
    "\<And>a c x. operand_rules imm8 imm16 rel x = sub \<Longrightarrow> (opc = 0x20 \<Longrightarrow> unat (of_nat a :: u16) + 3 < 2 ^ 16) \<Longrightarrow>
       \<exists>st' js. act (matched_state a c (of_nat opc) x) = Some (st', True) \<and> mos_covers js (matched_state a c (of_nat opc) x) st'"
  shows "row_good imm8 imm16 rel (opc, sub, act)"
  using assms unfolding row_good_def by auto

lemma falls_throughE: "\<exists>st'. R st' \<and> falls_through st st' \<Longrightarrow> \<exists>st' js. R st' \<and> mos_covers js st st'"
  by (auto simp: falls_through_def)

lemma coversE: "\<exists>st'. R st' \<and> mos_covers js st st' \<Longrightarrow> \<exists>st' js. R st' \<and> mos_covers js st st'"
  by blast

lemma simple_row_good:
  "opc < 256 \<Longrightarrow> sub \<in> {[], [imm8]} \<Longrightarrow> s \<in> set nonary_sems \<Longrightarrow> row_good imm8 imm16 rel (opc, sub, mos_nonary n s)"
  "opc < 256 \<Longrightarrow> row_good imm8 imm16 rel (opc, [], mos_ret n)"
  "opc < 256 \<Longrightarrow> good_sem sem \<Longrightarrow> row_good imm8 imm16 rel (opc, [], mos_implied n reg_A sem)"
proof -
  show "opc < 256 \<Longrightarrow> sub \<in> {[], [imm8]} \<Longrightarrow> s \<in> set nonary_sems \<Longrightarrow> row_good imm8 imm16 rel (opc, sub, mos_nonary n s)"
    using nonary_sems_ok [of s] by (intro row_goodI falls_throughE) (auto intro: nonary_covers)
  show "opc < 256 \<Longrightarrow> row_good imm8 imm16 rel (opc, [], mos_ret n)"
    using ret_covers by (intro row_goodI) (auto, meson matched_state_fields(1))
  show "opc < 256 \<Longrightarrow> good_sem sem \<Longrightarrow> row_good imm8 imm16 rel (opc, [], mos_implied n reg_A sem)"
    by (intro row_goodI falls_throughE) (auto simp: good_sem_def reg_A_def intro!: implied_covers)
qed

lemma operand_row_good:
  assumes "distinct [imm8, imm16, rel]" "opc < 256"
  shows "f \<in> set rvalue_sems \<Longrightarrow> row_good imm8 imm16 rel (opc, [imm8], mos_immediate n (pure_sem f))"
    "good_sem sem \<Longrightarrow> row_good imm8 imm16 rel (opc, [imm8], mos_zpage n sem)"
    "good_sem sem \<Longrightarrow> row_good imm8 imm16 rel (opc, [imm8], mos_zpage_offset n (LvVariable r None 8) sem)"
    "good_sem sem \<Longrightarrow> row_good imm8 imm16 rel (opc, [imm8], mos_zpage_index n (LvVariable r None 8) sem)"
    "good_sem sem \<Longrightarrow> row_good imm8 imm16 rel (opc, [imm16], mos_absolute n sem)"
    "good_sem sem \<Longrightarrow> row_good imm8 imm16 rel (opc, [imm16], mos_absolute_offset n (LvVariable r None 8) sem)"
    "row_good imm8 imm16 rel (opc, [rel], mos_branch n (LvVariable r None 1) b)"
    "row_good imm8 imm16 rel (opc, [imm16], mos_jmp_direct)" "row_good imm8 imm16 rel (opc, [imm16], mos_jmp_indirect)"
    "opc = 0x20 \<Longrightarrow> row_good imm8 imm16 rel (opc, [imm16], mos_jsr)"
proof -
  note rules = operand_rules_cases [OF assms(1)]
  show "f \<in> set rvalue_sems \<Longrightarrow> row_good imm8 imm16 rel (opc, [imm8], mos_immediate n (pure_sem f))"
    using rvalue_sem_const [of f] assms(2) by (intro row_goodI falls_throughE) (auto simp: rules intro!: immediate_covers)
  note operand = rules new_u8_def new_u16_def
  show "good_sem sem \<Longrightarrow> row_good imm8 imm16 rel (opc, [imm8], mos_zpage n sem)"
    using assms(2) by (intro row_goodI falls_throughE) (auto simp: operand good_sem_def intro!: zpage_covers)
  show "good_sem sem \<Longrightarrow> row_good imm8 imm16 rel (opc, [imm16], mos_absolute n sem)"
    using assms(2) by (intro row_goodI falls_throughE) (auto simp: operand good_sem_def intro!: absolute_covers)
  show "good_sem sem \<Longrightarrow> row_good imm8 imm16 rel (opc, [imm8], mos_zpage_offset n (LvVariable r None 8) sem)"
    using assms(2) by (intro row_goodI falls_throughE) (auto simp: operand good_sem_def intro!: indexed_covers(1))
  show "good_sem sem \<Longrightarrow> row_good imm8 imm16 rel (opc, [imm8], mos_zpage_index n (LvVariable r None 8) sem)"
    using assms(2) by (intro row_goodI falls_throughE) (auto simp: operand good_sem_def intro!: indexed_covers(2))
  show "good_sem sem \<Longrightarrow> row_good imm8 imm16 rel (opc, [imm16], mos_absolute_offset n (LvVariable r None 8) sem)"
    using assms(2) by (intro row_goodI falls_throughE) (auto simp: operand good_sem_def intro!: indexed_covers(3))
  show "row_good imm8 imm16 rel (opc, [rel], mos_branch n (LvVariable r None 1) b)"
  proof (rule row_goodI)
    fix a c x
    assume "operand_rules imm8 imm16 rel x = [rel]"
    then obtain d where x: "x = Rel d" using rules by auto
    show "\<exists>st' js. mos_branch n (LvVariable r None 1) b (matched_state a c (of_nat opc) x) = Some (st', True) \<and>
        mos_covers js (matched_state a c (of_nat opc) x) st'"
      unfolding x by (rule coversE, rule branch_covers [where d = "scast d"]) simp_all
  qed (use assms(2) in simp_all)
  show "row_good imm8 imm16 rel (opc, [imm16], mos_jmp_direct)"
  proof (rule row_goodI)
    fix a c x
    assume "operand_rules imm8 imm16 rel x = [imm16]"
    then obtain lo hi where x: "x = Imm16 lo hi" using rules by auto
    show "\<exists>st' js. mos_jmp_direct (matched_state a c (of_nat opc) x) = Some (st', True) \<and>
        mos_covers js (matched_state a c (of_nat opc) x) st'"
      unfolding x by (rule coversE, rule jump_covers(1) [OF _ _ matched_state_imm16]) simp_all
  qed (use assms(2) in simp_all)
  show "row_good imm8 imm16 rel (opc, [imm16], mos_jmp_indirect)"
  proof (rule row_goodI)
    fix a c x
    assume "operand_rules imm8 imm16 rel x = [imm16]"
    then obtain lo hi where x: "x = Imm16 lo hi" using rules by auto
    show "\<exists>st' js. mos_jmp_indirect (matched_state a c (of_nat opc) x) = Some (st', True) \<and>
        mos_covers js (matched_state a c (of_nat opc) x) st'"
      unfolding x by (rule coversE, rule jump_covers(2) [OF _ _ matched_state_imm16]) simp_all
  qed (use assms(2) in simp_all)
  show "opc = 0x20 \<Longrightarrow> row_good imm8 imm16 rel (opc, [imm16], mos_jsr)"
    by (intro row_goodI falls_throughE) (auto simp: rules intro!: jump_covers(3))
qed

lemma mos_rows_good:
  assumes "distinct [imm8, imm16, rel]"
  shows "list_all (row_good imm8 imm16 rel) (mos_rows imm8 imm16 rel)"
proof -
  note rules = operand_row_good [OF assms, unfolded One_nat_def] simple_row_good [unfolded reg_A_def] mos_regs rreil_lvalue_def
  have "list_all (row_good imm8 imm16 rel) (mos_rows_adc_to_dey imm8 imm16 rel)"
    unfolding mos_rows_adc_to_dey_def by (simp add: rules)
  moreover have "list_all (row_good imm8 imm16 rel) (mos_rows_eor_to_tya imm8 imm16 rel)"
    unfolding mos_rows_eor_to_tya_def by (simp add: rules)
  moreover have "list_all (row_good imm8 imm16 rel) (mos_rows_illegal imm8 imm16 rel)"
    unfolding mos_rows_illegal_def by (simp add: rules)
  ultimately show ?thesis by (simp add: mos_rows_def)
qed

text \<open>Every opcode has exactly one row.\<close>

lemma mos_rows_sorted: "sort (map (int \<circ> fst) (mos_rows imm8 imm16 rel)) = [0..255]"
proof -
  note rows = mos_rows_def mos_rows_adc_to_dey_def mos_rows_eor_to_tya_def mos_rows_illegal_def
  have "map (int \<circ> fst) (mos_rows imm8 imm16 rel) = map (int \<circ> fst) (mos_rows undefined undefined undefined)"
    by (simp add: rows)
  also have "sort \<dots> = [0..255]"
    unfolding rows append.simps list.map fst_conv comp_apply of_nat_numeral of_nat_0 by code_simp
  finally show ?thesis .
qed

lemma mos_rows_opcodes: "distinct (map fst (mos_rows imm8 imm16 rel))" "fst ` set (mos_rows imm8 imm16 rel) = {..<256}"
proof -
  let ?xs = "map fst (mos_rows imm8 imm16 rel)"
  have sort: "sort (map int ?xs) = [0..255]" using mos_rows_sorted by simp
  have "distinct (sort (map int ?xs))" unfolding sort by simp
  then show "distinct ?xs" by (simp only: distinct_sort distinct_map [of int])
  have "set (map int ?xs) = int ` {..<256}"
  proof -
    have "{0..255 :: int} = int ` {..<256}" by (simp add: image_int_atLeastLessThan lessThan_atLeast0) auto
    then show ?thesis using arg_cong [OF sort, of set] by (simp only: set_sort set_upto)
  qed
  then have "int ` set ?xs = int ` {..<256}" by (simp only: set_map)
  then have "set ?xs = {..<256}" by (simp only: inj_image_eq_iff [OF inj_of_nat])
  then show "fst ` set (mos_rows imm8 imm16 rel) = {..<256}" by simp
qed

section \<open>Operand decoders\<close>

definition imm8_built :: "(u8, variant) disassembler" where
  "imm8_built = Disassembler 2 [(0, Terminal 0 0 [(''imm'', 0xFF)], 1)] [(1, imm8_action)] None"

definition imm16_built :: "(u8, variant) disassembler" where
  "imm16_built =
     Disassembler 3 [(0, Terminal 0 0 [(''immlo'', 0xFF)], 1), (1, Terminal 0 0 [(''immhi'', 0xFF)], 2)] [(2, imm16_action)] None"

definition rel_built :: "(u8, variant) disassembler" where
  "rel_built = Disassembler 2 [(0, Terminal 0 0 [(''imm'', 0xFF)], 1)] [(1, rel_action)] None"

lemma operand_pattern_chars:
  "pattern_chars ''imm@........''
     \<lparr>ps_groups = [], ps_cur_group = '''', ps_read_pat = False, ps_bit = 8, ps_mask = 0, ps_pat = 0 :: u8\<rparr> =
   Some \<lparr>ps_groups = [(''imm'', 0xFF)], ps_cur_group = ''imm'', ps_read_pat = True, ps_bit = 0, ps_mask = 0, ps_pat = 0\<rparr>"
  "pattern_chars ''immlo@........''
     \<lparr>ps_groups = [], ps_cur_group = '''', ps_read_pat = False, ps_bit = 8, ps_mask = 0, ps_pat = 0 :: u8\<rparr> =
   Some \<lparr>ps_groups = [(''immlo'', 0xFF)], ps_cur_group = ''immlo'', ps_read_pat = True, ps_bit = 0, ps_mask = 0, ps_pat = 0\<rparr>"
  "pattern_chars ''immhi@........''
     \<lparr>ps_groups = [], ps_cur_group = '''', ps_read_pat = False, ps_bit = 8, ps_mask = 0, ps_pat = 0 :: u8\<rparr> =
   Some \<lparr>ps_groups = [(''immhi'', 0xFF)], ps_cur_group = ''immhi'', ps_read_pat = True, ps_bit = 0, ps_mask = 0, ps_pat = 0\<rparr>"
  by code_simp+

lemma operand_patterns:
  "rule_of_string ''imm@........'' = Some (Terminal 0 0 [(''imm'', 0xFF)] :: (u8, variant) rule)"
  "rule_of_string ''immlo@........'' = Some (Terminal 0 0 [(''immlo'', 0xFF)] :: (u8, variant) rule)"
  "rule_of_string ''immhi@........'' = Some (Terminal 0 0 [(''immhi'', 0xFF)] :: (u8, variant) rule)"
  by (simp_all add: rule_of_string_def token_size_def operand_pattern_chars del: pattern_chars.simps)

lemma operand_decoders: "imm8_dis = Some imm8_built" "imm16_dis = Some imm16_built" "rel_dis = Some rel_built"
  by (simp_all add: imm8_dis_def imm16_dis_def rel_dis_def operand_patterns new_disassembler_def new_dis_def gen_rules_def
      imm8_built_def imm16_built_def rel_built_def)

lemma capture_byte: "map_of gs n = None \<Longrightarrow> capture_group (b :: u8) (n, 0xFF) gs = gs @ [(n, ucast b)]"
proof -
  assume "map_of gs n = None"
  then have "position (\<lambda>x. fst x = n) gs = None" by (auto simp: position_None_iff map_of_eq_None_iff)
  then show ?thesis by (simp add: capture_group_def token_size_def capture_bits_byte)
qed

definition with_byte :: "string \<Rightarrow> u8 \<Rightarrow> mos_state \<Rightarrow> mos_state" where
  "with_byte n b st = st\<lparr>ds_groups := capture_group b (n, 0xFF) (ds_groups st), ds_tokens := ds_tokens st @ [b]\<rparr>"

lemma match_byte:
  "match_terminal 0 0 [(n, 0xFF)] st (Some b # cs) = Some [(with_byte n b st, cs)]"
  "match_terminal 0 0 [(n, 0xFF :: u8)] st (None # cs) = Some []"
  "match_terminal 0 0 [(n, 0xFF :: u8)] st [] = Some []"
  by (simp_all add: match_terminal_def with_byte_def)

lemma byte_decoder_find:
  fixes act :: mos_action
  assumes "\<And>b. act (with_byte n b st) \<noteq> None"
  shows "dis_find (Disassembler 2 [(0, Terminal 0 0 [(n, 0xFF)], 1)] [(1, act)] None) st i =
    (case i of
       Some b # cs \<Rightarrow> Some (if snd (the (act (with_byte n b st))) then [(fst (the (act (with_byte n b st))), cs)] else [])
     | _ \<Rightarrow> Some [])"
  using assms by (cases i; cases "hd i") (auto simp: dis_find_eq numeral_2_eq_2 match_byte split: option.splits)

lemma get_group_iff: "get_group st m \<noteq> None \<longleftrightarrow> map_of (ds_groups st) m \<noteq> None"
proof -
  have "get_group st m \<noteq> None \<longleftrightarrow> m \<in> fst ` set (ds_groups st)" by (auto simp: get_group_def find_None_iff) force
  then show ?thesis by (simp add: map_of_eq_None_iff)
qed

lemma get_group_with_byte: "get_group (with_byte n b st) m \<noteq> None \<longleftrightarrow> m = n \<or> get_group st m \<noteq> None"
  unfolding get_group_iff by (simp add: with_byte_def capture_group_value [of b] token_size_def)

lemma decoder_actions_total:
  "imm8_action (with_byte ''imm'' b st) \<noteq> None" "rel_action (with_byte ''imm'' b st) \<noteq> None"
  using get_group_with_byte [of "''imm''" b st "''imm''"] by (auto simp: imm8_action_def rel_action_def Let_def)

lemma imm16_action_total: "imm16_action (with_byte ''immhi'' h (with_byte ''immlo'' l st)) \<noteq> None"
proof -
  let ?st = "with_byte ''immhi'' h (with_byte ''immlo'' l st)"
  obtain x y where "get_group ?st ''immlo'' = Some x" "get_group ?st ''immhi'' = Some y"
    using get_group_with_byte [of "''immhi''" h] get_group_with_byte [of "''immlo''" l] by (metis not_Some_eq)
  then show ?thesis by (simp add: imm16_action_def imm16_groups_def)
qed

lemma imm16_find:
  "dis_find imm16_built st i =
    (case i of
       Some l # Some h # cs \<Rightarrow>
         (let r = the (imm16_action (with_byte ''immhi'' h (with_byte ''immlo'' l st))) in Some (if snd r then [(fst r, cs)] else []))
     | _ \<Rightarrow> Some [])"
proof -
  consider l h cs where "i = Some l # Some h # cs" | l where "i = [Some l]" | l cs where "i = Some l # None # cs"
    | "i = []" | cs where "i = None # cs"
    by (metis list.exhaust not_Some_eq)
  then show ?thesis
    using imm16_action_total
    by cases (auto simp: imm16_built_def dis_find_eq numeral_3_eq_3 match_byte Let_def split: option.splits)
qed


section \<open>The complete disassembler\<close>

abbreviation imm8_rule :: "(u8, variant) rule" where "imm8_rule \<equiv> Sub 1 imm8_built"
abbreviation imm16_rule :: "(u8, variant) rule" where "imm16_rule \<equiv> Sub 2 imm16_built"
abbreviation rel_rule :: "(u8, variant) rule" where "rel_rule \<equiv> Sub 3 rel_built"

definition mos_table :: "mos_row list" where
  "mos_table = mos_rows imm8_rule imm16_rule rel_rule"

definition opcode_rule :: "nat \<Rightarrow> (u8, variant) rule" where
  "opcode_rule k = Terminal (- 1) (of_nat k) []"

definition row_rules :: "mos_row \<Rightarrow> (u8, variant) gen_item list \<times> mos_action" where
  "row_rules row = (case row of (k, sub, act) \<Rightarrow> (map Required (opcode_rule k # sub), act))"

lemma mos_table_good: "row \<in> set mos_table \<Longrightarrow> row_good imm8_rule imm16_rule rel_rule row"
  using mos_rows_good [of imm8_rule imm16_rule rel_rule] by (simp add: mos_table_def list_all_iff)

lemma mos_table_row: "(k, sub, act) \<in> set mos_table \<Longrightarrow> k < 256 \<and> sub \<in> {[], [imm8_rule], [imm16_rule], [rel_rule]}"
  using mos_table_good [of "(k, sub, act)"] by (simp add: row_good_def)

lemma mos_table_unique: "(k, sub, act) \<in> set mos_table \<Longrightarrow> (k, sub', act') \<in> set mos_table \<Longrightarrow> sub = sub' \<and> act = act'"
proof -
  assume rows: "(k, sub, act) \<in> set mos_table" "(k, sub', act') \<in> set mos_table"
  have "distinct (map fst mos_table)" using mos_rows_opcodes(1) by (simp add: mos_table_def)
  from eq_key_imp_eq_value [OF this rows] show ?thesis by simp
qed

lemma mos_table_total: "\<exists>sub act. (unat (b :: u8), sub, act) \<in> set mos_table"
proof -
  have "unat b < 256" using unsigned_less [of b] by simp
  then have "unat b \<in> fst ` set mos_table" using mos_rows_opcodes(2) by (simp add: mos_table_def)
  then show ?thesis by force
qed

lemma row_items_eq: "those (map row_items mos_table) = Some (map row_rules mos_table)"
proof -
  have "row_items row = Some (row_rules row)" if "row \<in> set mos_table" for row
    using mos_table_row that by (cases row) (auto simp: row_items_def row_rules_def rule_of_nat_def opcode_rule_def)
  then show ?thesis by (simp add: those_eq_Some_iff)
qed

lemma gen_rules_required: "gen_rules (map Required rs) = [rs]"
proof -
  have "fold gen_push (map Required rs) rules = map (\<lambda>c. c @ rs) rules" for rules
    by (induction rs arbitrary: rules) simp_all
  then show ?thesis by (simp add: gen_rules_def)
qed

lemma opcode_rule_inject: "k < 256 \<Longrightarrow> k' < 256 \<Longrightarrow> opcode_rule k = opcode_rule k' \<longleftrightarrow> k = k'"
  by (simp add: opcode_rule_def word_of_nat_eq_iff take_bit_nat_eq_self)

lemma rule_rows_table: "rule_rows (map row_rules mos_table) = map (\<lambda>(k, sub, act). (opcode_rule k # sub, act)) mos_table"
proof -
  have "map (\<lambda>rs. (rs, snd (row_rules row))) (gen_rules (fst (row_rules row))) = [case row of (k, sub, act) \<Rightarrow> (opcode_rule k # sub, act)]"
    for row
  proof -
    obtain k sub act where row: "row = (k, sub, act)" by (cases row)
    show ?thesis using gen_rules_required [of "opcode_rule k # sub"] by (simp add: row row_rules_def)
  qed
  then show ?thesis unfolding rule_rows_def by (simp add: split_def comp_def)
qed

lemma last_binding_table:
  "last_binding (rule_rows (map row_rules mos_table)) rs = Some act \<longleftrightarrow> (\<exists>k sub. (k, sub, act) \<in> set mos_table \<and> rs = opcode_rule k # sub)"
proof -
  have "inj_on fst (set mos_table)" using mos_rows_opcodes(1) by (simp add: mos_table_def distinct_map)
  moreover have "distinct mos_table" using mos_rows_opcodes(1) by (simp add: mos_table_def distinct_map)
  moreover have "inj_on (\<lambda>row. opcode_rule (fst row) # fst (snd row)) (set mos_table)"
  proof (rule inj_onI)
    fix x y
    assume xy: "x \<in> set mos_table" "y \<in> set mos_table" "opcode_rule (fst x) # fst (snd x) = opcode_rule (fst y) # fst (snd y)"
    have "fst x < 256" "fst y < 256" using mos_table_row xy(1,2) by (metis prod.collapse)+
    then have "fst x = fst y" using xy(3) opcode_rule_inject by simp
    then show "x = y" using \<open>inj_on fst (set mos_table)\<close> xy(1,2) by (simp add: inj_on_def)
  qed
  ultimately have "distinct (map (\<lambda>row. opcode_rule (fst row) # fst (snd row)) mos_table)"
    by (simp add: distinct_map)
  then have "distinct (map fst (rule_rows (map row_rules mos_table)))" by (simp add: rule_rows_table split_def comp_def)
  then have "last_binding (rule_rows (map row_rules mos_table)) rs = Some act \<longleftrightarrow> (rs, act) \<in> set (rule_rows (map row_rules mos_table))"
    unfolding last_binding_def by (subst map_of_eq_Some_iff) (simp_all add: rev_map [symmetric])
  then show ?thesis unfolding rule_rows_table by (simp only: set_map) force
qed

definition mos_rules :: "(u8, variant) rule set" where
  "mos_rules = range opcode_rule \<union> {imm8_rule, imm16_rule, rel_rule}"

lemma mos_rules_comparable: "comparable mos_rules"
  by (auto simp: comparable_def mos_rules_def opcode_rule_def)

lemma mos_rules_total: "r \<in> mos_rules \<Longrightarrow> rule_matcher r st i \<noteq> None"
proof -
  assume "r \<in> mos_rules"
  then consider k where "r = opcode_rule k" | "r = imm8_rule" | "r = imm16_rule" | "r = rel_rule"
    by (auto simp: mos_rules_def)
  then show ?thesis
  proof cases
    case 1
    then show ?thesis by (auto simp: opcode_rule_def match_terminal_def split: prod.splits option.splits)
  next
    case 2
    then show ?thesis using byte_decoder_find [of imm8_action "''imm''" st i] decoder_actions_total(1) [of _ st]
      by (auto simp: imm8_built_def split: list.splits option.splits)
  next
    case 3
    then show ?thesis by (auto simp: imm16_find Let_def split: list.splits option.splits)
  next
    case 4
    then show ?thesis using byte_decoder_find [of rel_action "''imm''" st i] decoder_actions_total(2) [of _ st]
      by (auto simp: rel_built_def split: list.splits option.splits)
  qed
qed

lemma mos_disassembler_built:
  "\<exists>dis. mos_disassembler = Some dis \<and> wf_dis mos_rules dis \<and> d_default dis = Some (mos_nonary ''unk'' mos_nop) \<and>
     (\<forall>rs act. bound_to dis rs act \<longleftrightarrow> (\<exists>k sub. (k, sub, act) \<in> set mos_table \<and> rs = opcode_rule k # sub))"
proof -
  have "\<forall>(items, f) \<in> set (map row_rules mos_table). gen_rule ` set items \<subseteq> mos_rules \<and> list_ex gen_required items"
    using mos_table_row by (fastforce simp: row_rules_def mos_rules_def)
  from new_disassembler_built [OF mos_rules_comparable this, of "Some (mos_nonary ''unk'' mos_nop)"]
  moreover have "mos_disassembler = new_disassembler (map row_rules mos_table) (Some (mos_nonary ''unk'' mos_nop))"
    unfolding mos_disassembler_def operand_decoders bind.bind_lunit mos_table_def [symmetric] row_items_eq by simp
  ultimately show ?thesis by (simp only: last_binding_table) blast
qed

section \<open>Decoding\<close>

definition opcode_state :: "nat \<Rightarrow> variant \<Rightarrow> u8 \<Rightarrow> mos_state" where
  "opcode_state a c b = (new_state a c)\<lparr>ds_tokens := [b]\<rparr>"

lemma with_byte_operand:
  "imm8_action (with_byte ''imm'' b (opcode_state a c opc)) = Some (matched_state a c opc (Imm8 b), True)"
  "rel_action (with_byte ''imm'' b (opcode_state a c opc)) = Some (matched_state a c opc (Rel b), True)"
  "imm16_action (with_byte ''immhi'' h (with_byte ''immlo'' l (opcode_state a c opc))) = Some (matched_state a c opc (Imm16 l h), True)"
proof -
  have sext: "(if 0 \<le> sint b then scast b else scast b OR 0xFF00 :: u16) = scast b"
  proof (cases "0 \<le> sint b")
    case False
    then have b7: "bit b 7" using bit_last_iff [of b] by simp
    have hi: "8 \<le> n" if "bit (0xFF00 :: u16) n" for n
    proof -
      have "(0xFF00 :: u16) = push_bit 8 0xFF" by simp
      then show ?thesis using that by (metis bit_push_bit_iff)
    qed
    have "bit (scast b OR 0xFF00 :: u16) n \<longleftrightarrow> bit (scast b :: u16) n" if "n < 16" for n
    proof (cases "7 \<le> n")
      case True
      then have "bit (scast b :: u16) n" using that b7 by (simp add: bit_signed_iff min_def)
      then show ?thesis by (simp only: bit_or_iff simp_thms)
    next
      case False
      then have "\<not> bit (0xFF00 :: u16) n" using hi [of n] by linarith
      then show ?thesis by (simp only: bit_or_iff simp_thms)
    qed
    then have "scast b OR 0xFF00 = (scast b :: u16)" by (intro bit_word_eqI) simp
    then show ?thesis by simp
  qed simp
  show "imm8_action (with_byte ''imm'' b (opcode_state a c opc)) = Some (matched_state a c opc (Imm8 b), True)"
    "rel_action (with_byte ''imm'' b (opcode_state a c opc)) = Some (matched_state a c opc (Rel b), True)"
    "imm16_action (with_byte ''immhi'' h (with_byte ''immlo'' l (opcode_state a c opc))) = Some (matched_state a c opc (Imm16 l h), True)"
    using sext by (auto split: if_splits simp: imm8_action_def rel_action_def imm16_action_def imm16_groups_def with_byte_def opcode_state_def
        matched_state_def new_state_def capture_byte get_group_def Let_def)
qed

lemma match_operand:
  assumes "sub \<in> {[], [imm8_rule], [imm16_rule], [rel_rule]}"
  shows "match_seq sub (opcode_state a c b) cs =
    {(matched_state a c b x, drop (length (operand_bytes x)) cs) |x.
       operand_rules imm8_rule imm16_rule rel_rule x = sub \<and> prefix (map Some (operand_bytes x)) cs}"
proof -
  have rules: "operand_rules imm8_rule imm16_rule rel_rule x = [imm8_rule] \<longleftrightarrow> (\<exists>b. x = Imm8 b)"
    "operand_rules imm8_rule imm16_rule rel_rule x = [imm16_rule] \<longleftrightarrow> (\<exists>lo hi. x = Imm16 lo hi)"
    "operand_rules imm8_rule imm16_rule rel_rule x = [rel_rule] \<longleftrightarrow> (\<exists>b. x = Rel b)"
    "operand_rules imm8_rule imm16_rule rel_rule x = [] \<longleftrightarrow> x = NoOperand" for x
    by (rule operand_rules_cases; simp)+
  have total: "imm8_action (with_byte ''imm'' d (opcode_state a c b)) \<noteq> None"
    "rel_action (with_byte ''imm'' d (opcode_state a c b)) \<noteq> None" for d by (simp_all add: with_byte_operand)
  consider "sub = []" | "sub = [imm8_rule]" | "sub = [imm16_rule]" | "sub = [rel_rule]" using assms by blast
  then show ?thesis
  proof cases
    case 1
    have "opcode_state a c b = matched_state a c b NoOperand" by (simp add: opcode_state_def matched_state_def new_state_def)
    then show ?thesis unfolding 1 rules by auto
  next
    case 2
    have "rule_matcher imm8_rule (opcode_state a c b) cs =
        (case cs of Some d # cs \<Rightarrow> Some [(matched_state a c b (Imm8 d), cs)] | _ \<Rightarrow> Some [])"
      using byte_decoder_find [of imm8_action "''imm''" "opcode_state a c b" cs] total(1)
      by (simp add: imm8_built_def with_byte_operand split: list.splits option.splits)
    then show ?thesis unfolding 2 rules by (auto split: list.splits option.splits)
  next
    case 3
    have "rule_matcher imm16_rule (opcode_state a c b) cs =
        (case cs of Some l # Some h # cs \<Rightarrow> Some [(matched_state a c b (Imm16 l h), cs)] | _ \<Rightarrow> Some [])"
      by (simp add: imm16_find with_byte_operand Let_def split: list.splits option.splits)
    then show ?thesis unfolding 3 rules by (auto split: list.splits option.splits)
  next
    case 4
    have "rule_matcher rel_rule (opcode_state a c b) cs =
        (case cs of Some d # cs \<Rightarrow> Some [(matched_state a c b (Rel d), cs)] | _ \<Rightarrow> Some [])"
      using byte_decoder_find [of rel_action "''imm''" "opcode_state a c b" cs] total(2)
      by (simp add: rel_built_def with_byte_operand split: list.splits option.splits)
    then show ?thesis unfolding 4 rules by (auto split: list.splits option.splits)
  qed
qed

lemma match_opcode:
  "k < 256 \<Longrightarrow> match_seq (opcode_rule k # sub) (new_state a c) (Some b # cs) =
     (if k = unat b then match_seq sub (opcode_state a c b) cs else {})"
proof -
  assume "k < 256"
  then have "b = of_nat k \<longleftrightarrow> k = unat b" by (auto simp: unsigned_of_nat take_bit_nat_eq_self)
  then show ?thesis by (auto simp: opcode_rule_def match_terminal_def opcode_state_def new_state_def)
qed

text \<open>The subroutine call panics if its return address leaves the address space.\<close>

definition no_jsr_overflow :: "u8 \<Rightarrow> nat \<Rightarrow> bool" where
  "no_jsr_overflow b a \<longleftrightarrow> (b = 0x20 \<longrightarrow> unat (of_nat a :: u16) + 3 < 2 ^ 16)"

lemma mos_table_action:
  assumes "(unat b, sub, act) \<in> set mos_table" "operand_rules imm8_rule imm16_rule rel_rule x = sub" "no_jsr_overflow b a"
  shows "\<exists>st' js. act (matched_state a c b x) = Some (st', True) \<and> mos_covers js (matched_state a c b x) st'"
proof -
  have "unat b = 0x20 \<Longrightarrow> b = 0x20" by (simp add: word_unat_eq_iff)
  then have "unat b = 0x20 \<longrightarrow> unat (of_nat a :: u16) + 3 < 2 ^ 16" using assms(3) by (auto simp: no_jsr_overflow_def)
  then show ?thesis
    using mos_table_good [OF assms(1)] assms(2) unfolding row_good_def prod.case of_nat_unat ucast_id by blast
qed

text \<open>
  The search finds exactly one match for a row whose operand is present and none otherwise, so
  the default action takes a single byte if the operand is missing.
\<close>

lemma mos_find:
  assumes dis: "wf_dis mos_rules dis"
      "\<And>rs act. bound_to dis rs act \<longleftrightarrow> (\<exists>k sub. (k, sub, act) \<in> set mos_table \<and> rs = opcode_rule k # sub)"
    and row: "(unat b, sub, act) \<in> set mos_table" and jsr: "no_jsr_overflow b a"
  shows "\<exists>M. dis_find dis (new_state a c) (Some b # cs) = Some M \<and>
    set M = {(st', drop (length (operand_bytes x)) cs) |st' x.
      operand_rules imm8_rule imm16_rule rel_rule x = sub \<and> prefix (map Some (operand_bytes x)) cs \<and>
      act (matched_state a c b x) = Some (st', True)}"
proof -
  let ?st = "new_state a c" and ?i = "Some b # cs"
  have sub: "sub \<in> {[], [imm8_rule], [imm16_rule], [rel_rule]}" "unat b < 256" using mos_table_row [OF row] by simp_all
  have seq: "bound_to dis rs act' \<and> (st1, i1) \<in> match_seq rs ?st ?i \<longleftrightarrow>
      rs = opcode_rule (unat b) # sub \<and> act' = act \<and>
      (\<exists>x. operand_rules imm8_rule imm16_rule rel_rule x = sub \<and> prefix (map Some (operand_bytes x)) cs \<and>
         st1 = matched_state a c b x \<and> i1 = drop (length (operand_bytes x)) cs)" (is "?l \<longleftrightarrow> ?r") for rs act' st1 i1
  proof
    assume ?l
    then obtain k sub' where k: "(k, sub', act') \<in> set mos_table" "rs = opcode_rule k # sub'" using dis(2) by blast
    then have "k = unat b" using \<open>?l\<close> match_opcode [of k sub' a c b cs] mos_table_row [OF k(1)] by (auto split: if_splits)
    then have "sub' = sub" "act' = act" using mos_table_unique [OF _ row] k(1) by auto
    then show ?r using \<open>?l\<close> k \<open>k = unat b\<close> match_opcode [OF sub(2)] match_operand [OF sub(1)] by auto
  next
    assume ?r
    then show ?l using dis(2) row match_opcode [OF sub(2)] match_operand [OF sub(1)] by auto
  qed
  have ok: "\<exists>st'. act (matched_state a c b x) = Some (st', True)"
    if "operand_rules imm8_rule imm16_rule rel_rule x = sub" for x
    using mos_table_action [OF row that jsr] by blast
  have "act' st1 \<noteq> None" if "bound_to dis rs act'" "(st1, i1) \<in> match_seq rs ?st ?i" for rs act' st1 i1
    using iffD1 [OF seq conjI [OF that]] ok by (metis option.distinct(1))
  then have "dis_find dis ?st ?i \<noteq> None" by (intro dis_find_defined [OF dis(1)] mos_rules_total) blast+
  then obtain M where M: "dis_find dis ?st ?i = Some M" by blast
  have "set M = {(st', i') |st' i' rs act' st1. (bound_to dis rs act' \<and> (st1, i') \<in> match_seq rs ?st ?i) \<and> act' st1 = Some (st', True)}"
    using dis_find_set [OF M] by auto
  then show ?thesis using M unfolding seq by auto
qed

section \<open>Properties of the decoder\<close>

lemma prefix_operand_unique:
  assumes "distinct [imm8, imm16, rel]" "operand_rules imm8 imm16 rel x = operand_rules imm8 imm16 rel y"
    "prefix (map Some (operand_bytes x)) cs" "prefix (map Some (operand_bytes y)) cs"
  shows "x = y"
  using assms by (cases x; cases y) (auto simp: prefix_def)

lemma mos_next_match:
  assumes "(unat b, operand_rules imm8_rule imm16_rule rel_rule x, act) \<in> set mos_table" "no_jsr_overflow b a"
  shows "\<exists>dis st' js. mos_disassembler = Some dis \<and> act (matched_state a c b x) = Some (st', True) \<and>
    next_match dis (Some b # map Some (operand_bytes x) @ rest) a c = Some (Some st') \<and> mos_covers js (matched_state a c b x) st'"
proof -
  let ?rules = "operand_rules imm8_rule imm16_rule rel_rule" and ?cs = "map Some (operand_bytes x) @ rest"
  obtain dis where dis: "mos_disassembler = Some dis" "wf_dis mos_rules dis"
    "\<And>rs act. bound_to dis rs act \<longleftrightarrow> (\<exists>k sub. (k, sub, act) \<in> set mos_table \<and> rs = opcode_rule k # sub)"
    using mos_disassembler_built by blast
  from mos_find [OF dis(2,3) assms(1,2), of c ?cs] obtain M where M: "dis_find dis (new_state a c) (Some b # ?cs) = Some M"
    "set M = {(st', drop (length (operand_bytes y)) ?cs) |st' y. ?rules y = ?rules x \<and> prefix (map Some (operand_bytes y)) ?cs \<and>
      act (matched_state a c b y) = Some (st', True)}" by blast
  obtain st' js where st': "act (matched_state a c b x) = Some (st', True)" "mos_covers js (matched_state a c b x) st'"
    using mos_table_action [OF assms(1) refl assms(2)] by blast
  have "?rules y = ?rules x \<and> prefix (map Some (operand_bytes y)) ?cs \<longleftrightarrow> y = x" for y
    using prefix_operand_unique [of imm8_rule imm16_rule rel_rule y x ?cs] by auto
  note uniq = this
  have "m \<in> set M \<longleftrightarrow> m = (st', rest)" for m
  proof -
    have "m \<in> set M \<longleftrightarrow> (\<exists>s y. m = (s, drop (length (operand_bytes y)) ?cs) \<and>
        (?rules y = ?rules x \<and> prefix (map Some (operand_bytes y)) ?cs) \<and> act (matched_state a c b y) = Some (s, True))"
      unfolding M(2) by blast
    then show ?thesis unfolding uniq using st'(1) by auto
  qed
  then have "set M = {(st', rest)}" by blast
  then have "M \<noteq> []" "\<forall>m \<in> set M. fst m = st'" by auto
  with next_match_cases(1) [OF M(1)] have "next_match dis (Some b # ?cs) a c = Some (Some st')" by auto
  then show ?thesis using dis(1) st' by auto
qed

text \<open>A missing operand: the default action takes the opcode alone.\<close>

lemma mos_next_match_short:
  assumes "(unat b, sub, act) \<in> set mos_table" "no_jsr_overflow b a"
    "\<forall>x. operand_rules imm8_rule imm16_rule rel_rule x = sub \<longrightarrow> \<not> prefix (map Some (operand_bytes x)) cs"
  shows "\<exists>dis st'. mos_disassembler = Some dis \<and> next_match dis (Some b # cs) a c = Some (Some st') \<and>
    falls_through (opcode_state a c b) st'"
proof -
  obtain dis where dis: "mos_disassembler = Some dis" "wf_dis mos_rules dis" "d_default dis = Some (mos_nonary ''unk'' mos_nop)"
    "\<And>rs act. bound_to dis rs act \<longleftrightarrow> (\<exists>k sub. (k, sub, act) \<in> set mos_table \<and> rs = opcode_rule k # sub)"
    using mos_disassembler_built by blast
  from mos_find [OF dis(2,4) assms(1,2), of c cs] obtain M where M: "dis_find dis (new_state a c) (Some b # cs) = Some M"
    "set M = {(st', drop (length (operand_bytes x)) cs) |st' x. operand_rules imm8_rule imm16_rule rel_rule x = sub \<and>
       prefix (map Some (operand_bytes x)) cs \<and> act (matched_state a c b x) = Some (st', True)}" by blast
  have M_empty: "M = []"
  proof -
    have "set M = {}" unfolding M(2) using assms(3) by blast
    then show ?thesis by simp
  qed
  have "ready (opcode_state a c b)" by (simp add: opcode_state_def ready_def wf_dstate_def new_state_def)
  then obtain st' where "mos_nonary ''unk'' mos_nop (opcode_state a c b) = Some (st', True)" "falls_through (opcode_state a c b) st'"
    using nonary_covers [of _ "''unk''" "[]"] unfolding mos_nop_def by blast
  moreover have "next_match dis (Some b # cs) a c = map_option (\<lambda>(st, ok). if ok then Some st else None) (mos_nonary ''unk'' mos_nop (opcode_state a c b))"
    using next_match_cases(2) [OF M(1) M_empty] dis(3) by (simp add: opcode_state_def)
  ultimately show ?thesis using dis(1) by auto
qed

lemma mos_next_match_any:
  assumes "no_jsr_overflow b a"
  shows "\<exists>dis st' st0 js n. mos_disassembler = Some dis \<and> next_match dis (Some b # cs) a c = Some (Some st') \<and>
    mos_covers js st0 st' \<and> ds_address st0 = a \<and> ds_mnemonic_origin st0 = a \<and> ds_jumps st0 = [] \<and> ds_mnemonics st0 = [] \<and>
    n \<le> 2 \<and> n \<le> length cs \<and> map Some (ds_tokens st0) = Some b # take n cs"
proof -
  obtain sub act where row: "(unat b, sub, act) \<in> set mos_table" using mos_table_total by blast
  show ?thesis
  proof (cases "\<exists>x. operand_rules imm8_rule imm16_rule rel_rule x = sub \<and> prefix (map Some (operand_bytes x)) cs")
    case True
    then obtain x rest where x: "operand_rules imm8_rule imm16_rule rel_rule x = sub" "cs = map Some (operand_bytes x) @ rest"
      by (auto simp: prefix_def)
    obtain dis st' js where "mos_disassembler = Some dis" "next_match dis (Some b # cs) a c = Some (Some st')"
      "mos_covers js (matched_state a c b x) st'"
      using mos_next_match [of b x act a c rest] row x assms by auto
    moreover have "length (operand_bytes x) \<le> 2" by (cases x) simp_all
    ultimately show ?thesis using x(2)
      by (intro exI [of _ dis] exI [of _ st'] exI [of _ "matched_state a c b x"] exI [of _ js] exI [of _ "length (operand_bytes x)"]) simp
  next
    case False
    then obtain dis st' where "mos_disassembler = Some dis" "next_match dis (Some b # cs) a c = Some (Some st')"
      "falls_through (opcode_state a c b) st'" using mos_next_match_short [OF row assms, of cs c] by auto
    then show ?thesis unfolding falls_through_def
      by (intro exI [of _ dis] exI [of _ st'] exI [of _ "opcode_state a c b"] exI [of _ "[(new_u16 (next_addr (opcode_state a c b)), always)]"]
          exI [of _ 0]) (simp add: opcode_state_def new_state_def)
  qed
qed

section \<open>Effect of the semantics\<close>

text \<open>The zero and negative flags of a result.\<close>

definition flags_of :: "u64 \<Rightarrow> env \<Rightarrow> env" where
  "flags_of v \<sigma> = \<sigma>(''Z'' := of_bool (v = 0), ''N'' := of_bool (bit v 7))"

lemma sval8_neg: "sval 8 v < sval 8 0 \<longleftrightarrow> bit v 7"
  by (simp add: sval_def signed_take_bit_negative_iff)

lemma uval8_eq_0: "take_bit 8 v = v \<Longrightarrow> uval 8 v = uval 8 0 \<longleftrightarrow> v = 0"
proof -
  assume "take_bit 8 v = v"
  then have "uval 8 v = uint v" using uint_take_bit [of 8 v] by (simp add: uval_def)
  then show ?thesis by (simp add: uval_def uint_0_iff)
qed

lemma of_bool_flag: "flag_const b = RvConstant (of_bool b) 1"
  by (simp add: flag_const_def)

lemma execute_eq0: "take_bit 8 v = v \<Longrightarrow> execute (Equal (RvConstant v 8) (RvConstant 0 8)) = Some (RvConstant (of_bool (v = 0)) 1)"
  by (simp only: execute_equal_const uval8_eq_0 of_bool_flag)

lemma execute_0eq: "take_bit 8 v = v \<Longrightarrow> execute (Equal (RvConstant 0 8) (RvConstant v 8)) = Some (RvConstant (of_bool (v = 0)) 1)"
  using uval8_eq_0 [of v] by (simp only: execute_equal_const of_bool_flag eq_commute [of "uval 8 0"])

lemma execute_neg: "take_bit 8 v = v \<Longrightarrow> execute (LessSigned (RvConstant v 8) (RvConstant 0 8)) = Some (RvConstant (of_bool (bit v 7)) 1)"
  using execute_less_signed_const [of 8 v 0] by (simp only: sval8_neg of_bool_flag) simp

lemma execute_mov: "take_bit s v = v \<Longrightarrow> execute (Move (RvConstant v s)) = Some (RvConstant v s)"
  by simp

lemmas run_simps = run_stmt_def lift_def app1_def app2_def execute_eq0 execute_0eq execute_neg execute_mov flags_of_def

definition is_byte :: "u64 \<Rightarrow> bool" where
  "is_byte v \<longleftrightarrow> take_bit 8 v = v"

lemma run_rreil: "rreil ss = Inr ts \<Longrightarrow> run_stmts ts = run_stmts ss"
  by (simp add: rreil_eq)

lemma ld_effect:
  assumes "is_byte v" "mos_ld (LvVariable n None 8) (RvConstant v 8) = Inr ss" "n \<notin> {''Z'', ''N''}"
  shows "run_stmts ss \<sigma> = Some (flags_of v (\<sigma>(n := v)))"
  unfolding run_rreil [OF assms(2) [unfolded mos_ld_def]]
  using assms(1,3) unfolding is_byte_def rreil_forms
  by (simp add: run_simps del: execute.simps)

lemma is_byte_ops:
  "is_byte a \<Longrightarrow> is_byte b \<Longrightarrow> is_byte (a OR b)" "is_byte a \<Longrightarrow> is_byte b \<Longrightarrow> is_byte (a XOR b)"
  "is_byte a \<Longrightarrow> is_byte b \<Longrightarrow> is_byte (a AND b)" "is_byte (take_bit 8 c)"
  by (simp_all add: is_byte_def take_bit_or take_bit_xor take_bit_and)

lemma logic_effect:
  assumes "is_byte (\<sigma> ''A'')" "is_byte v"
  shows "mos_ora (RvConstant v 8) = Inr ss \<Longrightarrow> run_stmts ss \<sigma> = Some (flags_of (v OR \<sigma> ''A'') (\<sigma>(''A'' := v OR \<sigma> ''A'')))"
    and "mos_eor (RvConstant v 8) = Inr ss \<Longrightarrow> run_stmts ss \<sigma> = Some (flags_of (v XOR \<sigma> ''A'') (\<sigma>(''A'' := v XOR \<sigma> ''A'')))"
    and "mos_and (RvConstant v 8) = Inr ss \<Longrightarrow> \<exists>n. run_stmts ss \<sigma> =
      Some (\<sigma>(''A'' := \<sigma> ''A'' AND v, ''Z'' := of_bool (\<sigma> ''A'' AND v = 0), ''N'' := n))"
proof -
  have o: "take_bit 8 (v OR \<sigma> ''A'') = v OR \<sigma> ''A''" "take_bit 8 (v XOR \<sigma> ''A'') = v XOR \<sigma> ''A''"
    "take_bit 8 (\<sigma> ''A'' AND v) = \<sigma> ''A'' AND v"
    using is_byte_ops assms by (simp_all add: is_byte_def)
  have a: "take_bit 8 (\<sigma> ''A'') = \<sigma> ''A''" "take_bit 8 v = v" using assms by (simp_all add: is_byte_def)
  show "run_stmts ss \<sigma> = Some (flags_of (v OR \<sigma> ''A'') (\<sigma>(''A'' := v OR \<sigma> ''A'')))" if "mos_ora (RvConstant v 8) = Inr ss"
    unfolding run_rreil [OF that [unfolded mos_ora_def]] rreil_forms by (simp add: run_simps a o del: execute.simps)
  show "run_stmts ss \<sigma> = Some (flags_of (v XOR \<sigma> ''A'') (\<sigma>(''A'' := v XOR \<sigma> ''A'')))" if "mos_eor (RvConstant v 8) = Inr ss"
    unfolding run_rreil [OF that [unfolded mos_eor_def]] rreil_forms by (simp add: run_simps a o del: execute.simps)
  show "\<exists>n. run_stmts ss \<sigma> = Some (\<sigma>(''A'' := \<sigma> ''A'' AND v, ''Z'' := of_bool (\<sigma> ''A'' AND v = 0), ''N'' := n))"
    if "mos_and (RvConstant v 8) = Inr ss"
    unfolding run_rreil [OF that [unfolded mos_and_def]] rreil_forms
    by (simp add: run_simps a o execute_less_or_equal_signed_const of_bool_flag del: execute.simps) blast
qed

text \<open>A comparison or conjunction of equally wide operands runs and changes its assignee alone.\<close>

definition plain_stmt :: "statement \<Rightarrow> string \<Rightarrow> bool" where
  "plain_stmt s n \<longleftrightarrow> (\<exists>w a b sz. assignee s = LvVariable n None w \<and>
     st_op s \<in> {And a b, Equal a b, LessOrEqualUnsigned a b, LessOrEqualSigned a b} \<and>
     rvalue_size a = Some sz \<and> rvalue_size b = Some sz \<and> 0 < sz \<and> sz < 64)"

lemma read_rv_const: "rvalue_size a = Some sz \<Longrightarrow> \<exists>x. read_rv \<sigma> a = RvConstant x sz"
  by (cases a) auto

lemma run_plain:
  assumes "plain_stmt s n"
  shows "\<exists>v. run_stmt s \<sigma> = Some (\<sigma>(n := v))"
proof -
  obtain w a b sz where s: "assignee s = LvVariable n None w" "rvalue_size a = Some sz" "rvalue_size b = Some sz" "0 < sz" "sz < 64"
    "st_op s \<in> {And a b, Equal a b, LessOrEqualUnsigned a b, LessOrEqualSigned a b}" using assms by (auto simp: plain_stmt_def)
  obtain x y where "read_rv \<sigma> a = RvConstant x sz" "read_rv \<sigma> b = RvConstant y sz" using s read_rv_const by metis
  moreover have "\<exists>z t. execute (LessOrEqualSigned (RvConstant x sz) (RvConstant y sz)) = Some (RvConstant z t)"
    using s(4,5) by (auto simp: execute_less_or_equal_signed_def flag_const_def Let_def)
  ultimately show ?thesis using s(1,6)
    by (auto simp: run_stmt_def lift_def app2_def execute_equal_const execute_less_or_equal_unsigned_const flag_const_def simp del: execute.simps)
qed

lemma plain_stmt_intros:
  assumes "rvalue_size a = rvalue_size b" "rvalue_size b \<in> {Some 1, Some 8}"
  shows "plain_stmt (rreil_binop And (rreil_lvalue n w) a b) n" "plain_stmt (rreil_binop Equal (rreil_lvalue n w) a b) n"
    "plain_stmt (rreil_binop LessOrEqualUnsigned (rreil_lvalue n w) a b) n"
    "plain_stmt (rreil_binop LessOrEqualSigned (rreil_lvalue n w) a b) n"
  using assms by (auto simp: plain_stmt_def rreil_binop_def rreil_lvalue_def intro!: exI [of _ "the (rvalue_size b)"])

lemma run_plain_stmts:
  "list_all2 plain_stmt ss ns \<Longrightarrow> \<exists>\<sigma>'. run_stmts ss \<sigma> = Some \<sigma>' \<and> (\<forall>x. x \<notin> set ns \<longrightarrow> \<sigma>' x = \<sigma> x)"
proof (induction ss ns arbitrary: \<sigma> rule: list_all2_induct)
  case (Cons s ss n ns)
  obtain v where "run_stmt s \<sigma> = Some (\<sigma>(n := v))" using run_plain [OF Cons.hyps(1)] by blast
  moreover obtain \<sigma>' where "run_stmts ss (\<sigma>(n := v)) = Some \<sigma>'" "\<forall>x. x \<notin> set ns \<longrightarrow> \<sigma>' x = (\<sigma>(n := v)) x"
    using Cons.IH by blast
  ultimately show ?case by auto
qed simp

text \<open>The statements that \<^verbatim>\<open>adc\<close> and \<^verbatim>\<open>sbc\<close> share after the result is computed.\<close>

definition carry_flags :: "statement list" where
  "carry_flags =
    [rreil_binop LessOrEqualUnsigned (rreil_lvalue ''c1'' 1) (rreil_rvalue ''res'' 8) (rreil_rvalue ''A'' 8),
     rreil_binop Equal (rreil_lvalue ''c2'' 1) (rreil_rvalue ''res'' 8) (rreil_rvalue ''A'' 8),
     rreil_binop And (rreil_lvalue ''c2'' 1) (rreil_rvalue ''c2'' 1) (rreil_rvalue ''C'' 1),
     rreil_binop And (rreil_lvalue ''C'' 1) (rreil_rvalue ''c1'' 1) (rreil_rvalue ''c2'' 1),
     rreil_binop LessOrEqualSigned (rreil_lvalue ''N'' 1) (rreil_rvalue ''res'' 8) (rreil_const 0 8),
     rreil_binop LessOrEqualSigned (rreil_lvalue ''v1'' 1) (rreil_rvalue ''res'' 8) (rreil_rvalue ''A'' 8),
     rreil_binop Equal (rreil_lvalue ''v2'' 1) (rreil_rvalue ''res'' 8) (rreil_rvalue ''A'' 8),
     rreil_binop And (rreil_lvalue ''v2'' 1) (rreil_rvalue ''v2'' 1) (rreil_rvalue ''C'' 1),
     rreil_binop And (rreil_lvalue ''V'' 1) (rreil_rvalue ''v1'' 1) (rreil_rvalue ''v2'' 1)]"

lemma carry_flags_frame:
  "\<exists>\<sigma>'. run_stmts carry_flags \<sigma> = Some \<sigma>' \<and> \<sigma>' ''res'' = \<sigma> ''res'' \<and> \<sigma>' ''Z'' = \<sigma> ''Z''"
proof -
  have "list_all2 plain_stmt carry_flags [''c1'', ''c2'', ''c2'', ''C'', ''N'', ''v1'', ''v2'', ''v2'', ''V'']"
    unfolding carry_flags_def list_all2_Cons by (intro conjI plain_stmt_intros list_all2_Nil [THEN iffD2]) (simp_all add: rreil_rvalue_def rreil_const_def)
  from run_plain_stmts [OF this, of \<sigma>] obtain \<sigma>' where s: "run_stmts carry_flags \<sigma> = Some \<sigma>'"
    "\<And>x. x \<notin> set [''c1'', ''c2'', ''c2'', ''C'', ''N'', ''v1'', ''v2'', ''v2'', ''V''] \<Longrightarrow> \<sigma>' x = \<sigma> x" by blast
  show ?thesis using s(1) s(2) [of "''res''"] s(2) [of "''Z''"] by simp
qed

definition carry_sum :: "(rvalue \<Rightarrow> rvalue \<Rightarrow> rvalue operation) \<Rightarrow> rvalue \<Rightarrow> statement list" where
  "carry_sum opr r =
    [rreil_extop ZeroExtend 8 (rreil_lvalue ''carry'' 8) (rreil_rvalue ''C'' 1),
     rreil_binop opr (rreil_lvalue ''res'' 8) (rreil_rvalue ''A'' 8) r,
     rreil_binop Add (rreil_lvalue ''res'' 8) (rreil_rvalue ''res'' 8) (rreil_rvalue ''carry'' 8),
     rreil_binop Equal (rreil_lvalue ''Z'' 1) (rreil_const 0 8) (rreil_rvalue ''res'' 8)]"

lemma carry_sum_shape:
  "mos_adc r = rreil (carry_sum Add r @ carry_flags @ [rreil_unop Move (rreil_lvalue ''A'' 8) (rreil_rvalue ''res'' 8)])"
  "mos_sbc r = rreil (carry_sum Subtract r @ carry_flags @ [rreil_unop Move (rreil_lvalue ''A'' 8) (rreil_rvalue ''res'' 8)])"
  by (simp_all add: mos_adc_def mos_sbc_def carry_sum_def carry_flags_def)

lemma take_bit_1_8: "take_bit 8 (take_bit (Suc 0) x :: u64) = take_bit (Suc 0) x"
  unfolding take_bit_take_bit by (simp add: min_def)

lemma take_bit_arith:
  "take_bit n (take_bit n a + b) = take_bit n (a + b :: u64)" "take_bit n (a + take_bit n b) = take_bit n (a + b :: u64)"
  "take_bit n (take_bit n a - b) = take_bit n (a - b :: u64)"
  by (simp_all only: take_bit_eq_mask mask_eqs)

text \<open>One step of a run, for the operations of \<^verbatim>\<open>adc\<close> and \<^verbatim>\<open>sbc\<close>.\<close>

lemma run_carry: "run_stmt (rreil_extop ZeroExtend 8 (rreil_lvalue n 8) (rreil_rvalue m 1)) \<sigma> = Some (\<sigma>(n := take_bit 1 (\<sigma> m)))"
  by (simp add: rreil_forms run_stmt_def lift_def app1_def take_bit_1_8 del: take_bit_Suc_0)

lemma run_arith:
  "run_stmt (rreil_binop Add (rreil_lvalue n 8) (rreil_rvalue m 8) (RvConstant v 8)) \<sigma> = Some (\<sigma>(n := take_bit 8 (\<sigma> m + v)))"
  "run_stmt (rreil_binop Subtract (rreil_lvalue n 8) (rreil_rvalue m 8) (RvConstant v 8)) \<sigma> = Some (\<sigma>(n := take_bit 8 (\<sigma> m - v)))"
  "run_stmt (rreil_binop Add (rreil_lvalue n 8) (rreil_rvalue m 8) (rreil_rvalue k 8)) \<sigma> = Some (\<sigma>(n := take_bit 8 (\<sigma> m + \<sigma> k)))"
  by (simp_all add: rreil_forms run_stmt_def lift_def app2_def take_bit_arith del: execute.simps)

lemma run_zero: "run_stmt (rreil_binop Equal (rreil_lvalue n 1) (rreil_const 0 8) (rreil_rvalue m 8)) \<sigma> =
    Some (\<sigma>(n := of_bool (take_bit 8 (\<sigma> m) = 0)))"
  by (simp add: rreil_forms run_stmt_def lift_def app2_def execute_0eq del: execute.simps)

lemma run_move: "run_stmt (rreil_unop Move (rreil_lvalue n 8) (rreil_rvalue m 8)) \<sigma> = Some (\<sigma>(n := take_bit 8 (\<sigma> m)))"
  by (simp add: rreil_forms run_stmt_def lift_def app1_def execute_mov del: execute.simps)

lemma carry_sum_run:
  "run_stmts (carry_sum Add (RvConstant v 8)) \<sigma> \<noteq> None \<and> the (run_stmts (carry_sum Add (RvConstant v 8)) \<sigma>) ''res'' = take_bit 8 (\<sigma> ''A'' + v + take_bit 1 (\<sigma> ''C''))
   \<and> the (run_stmts (carry_sum Add (RvConstant v 8)) \<sigma>) ''Z'' = of_bool (take_bit 8 (\<sigma> ''A'' + v + take_bit 1 (\<sigma> ''C'')) = 0)"
  "run_stmts (carry_sum Subtract (RvConstant v 8)) \<sigma> \<noteq> None \<and> the (run_stmts (carry_sum Subtract (RvConstant v 8)) \<sigma>) ''res'' = take_bit 8 (\<sigma> ''A'' - v + take_bit 1 (\<sigma> ''C''))
   \<and> the (run_stmts (carry_sum Subtract (RvConstant v 8)) \<sigma>) ''Z'' = of_bool (take_bit 8 (\<sigma> ''A'' - v + take_bit 1 (\<sigma> ''C'')) = 0)"
  unfolding carry_sum_def
  by (simp_all add: run_carry [unfolded One_nat_def] run_arith run_zero [unfolded One_nat_def] take_bit_arith del: take_bit_Suc_0)

lemma carry_effect:
  assumes "run_stmts (carry_sum opr r) \<sigma> \<noteq> None \<and> the (run_stmts (carry_sum opr r) \<sigma>) ''res'' = take_bit 8 x
      \<and> the (run_stmts (carry_sum opr r) \<sigma>) ''Z'' = of_bool (take_bit 8 x = 0)"
    and "rreil (carry_sum opr r @ carry_flags @ [rreil_unop Move (rreil_lvalue ''A'' 8) (rreil_rvalue ''res'' 8)]) = Inr ss"
  shows "\<exists>\<sigma>'. run_stmts ss \<sigma> = Some \<sigma>' \<and> \<sigma>' ''A'' = take_bit 8 x \<and> \<sigma>' ''Z'' = of_bool (take_bit 8 x = 0)"
proof -
  obtain \<tau> where t: "run_stmts (carry_sum opr r) \<sigma> = Some \<tau>" "\<tau> ''res'' = take_bit 8 x" "\<tau> ''Z'' = of_bool (take_bit 8 x = 0)"
    using assms(1) by auto
  obtain \<upsilon> where "run_stmts carry_flags \<tau> = Some \<upsilon>" "\<upsilon> ''res'' = \<tau> ''res''" "\<upsilon> ''Z'' = \<tau> ''Z''"
    using carry_flags_frame by blast
  then show ?thesis using t unfolding run_rreil [OF assms(2)] by (simp add: run_stmts_append run_move)
qed

section \<open>Properties of the back end\<close>

declare region_cells.simps [simp del]

lemma mos_decode_cells:
  assumes "wf_region r" "mos_disassembler = Some dis"
  shows "mos_decode r addr cfg = next_match dis (drop addr (region_cells r)) addr cfg"
proof -
  obtain it where it: "region_iter r = Some it" "li_cells it = region_cells r" "li_len it = r_size r"
    using region_iter_spec [OF assms(1)] by blast
  then obtain j where "li_seek it addr = Some j" "li_cells j = drop addr (region_cells r)"
    using seek_cells [of it addr] by auto
  then show ?thesis unfolding mos_decode_def assms(2) it(1) by (simp add: li_drain_cells)
qed

lemma mos_decodes:
  assumes "wf_region r" "addr < r_size r" "region_cells r ! addr = Some b" "no_jsr_overflow b addr"
  shows "\<exists>st n. mos_decode r addr cfg = Some (Some st) \<and> 1 \<le> n \<and> n \<le> 3 \<and> addr + n \<le> r_size r \<and>
    map Some (ds_tokens st) = take n (drop addr (region_cells r)) \<and>
    ds_mnemonics st \<noteq> [] \<and> contiguous addr (ds_mnemonics st) (addr + n) \<and>
    (\<forall>m \<in> set (ds_mnemonics st). b_start (m_area m) = addr) \<and> (\<forall>j \<in> set (ds_jumps st). fst j = addr)"
proof -
  let ?cs = "drop (Suc addr) (region_cells r)"
  obtain dis st' st0 js n where st: "mos_disassembler = Some dis" "next_match dis (Some b # ?cs) addr cfg = Some (Some st')"
    "mos_covers js st0 st'" "ds_address st0 = addr" "ds_mnemonic_origin st0 = addr" "ds_jumps st0 = []" "ds_mnemonics st0 = []"
    "n \<le> 2" "n \<le> length ?cs" "map Some (ds_tokens st0) = Some b # take n ?cs"
    using mos_next_match_any [OF assms(4), of ?cs cfg] by (elim exE conjE) rule
  have cells: "drop addr (region_cells r) = Some b # ?cs" using region_cells_drop [OF assms(1,2)] assms(3) by (simp only:)
  have len: "length (region_cells r) = r_size r" using region_iter_spec [OF assms(1)] by (metis li_len_cells)
  have "length (ds_tokens st0) = Suc n"
    using arg_cong [OF st(10), of length] st(9) by (simp del: length_drop)
  moreover have "mos_decode r addr cfg = Some (Some st')"
    using mos_decode_cells [OF assms(1) st(1), of addr cfg] st(2) unfolding cells by simp
  moreover have "addr + Suc n \<le> r_size r" using st(9) assms(2) len by simp
  ultimately show ?thesis
    using st unfolding cells mos_covers_def covers_bytes_def wf_dstate_def
    by (intro exI [of _ st'] exI [of _ "Suc n"]) (auto)
qed

text \<open>
  C35: The disassembler of the 6502 decodes every defined byte of a region, whatever
  follows it: construction of the table, iteration and decoding do not panic, one to three
  bytes are consumed, the mnemonics start at the address, lie next to each other and cover exactly these bytes, and all
  jumps leave from the decoded address.  The exception is a subroutine call whose return
  address overflows sixteen bits.
\<close>

theorem mos_decode_total:
  assumes "wf_region r" "addr < r_size r" "region_cells r ! addr = Some b" "no_jsr_overflow b addr"
  shows "\<exists>st n. mos_decode r addr cfg = Some (Some st) \<and> 1 \<le> n \<and> n \<le> 3 \<and> addr + n \<le> r_size r \<and>
    map Some (ds_tokens st) = take n (drop addr (region_cells r)) \<and>
    ds_mnemonics st \<noteq> [] \<and> contiguous addr (ds_mnemonics st) (addr + n) \<and>
    (\<forall>m \<in> set (ds_mnemonics st). b_start (m_area m) = addr) \<and> (\<forall>j \<in> set (ds_jumps st). fst j = addr)"
  by (rule mos_decodes [OF assms])

theorem mos_decode_total_witness:
  "wf_region (region_wrap ''ram'' [0xEA, 0xA9, 1]) \<and> no_jsr_overflow 0xA9 1 \<and>
   (\<exists>st n. mos_decode (region_wrap ''ram'' [0xEA, 0xA9, 1]) 1 \<lparr>v_arg = None, v_rel = None\<rparr> = Some (Some st) \<and>
      contiguous 1 (ds_mnemonics st) (1 + n))"
proof -
  have r: "wf_region (region_wrap ''ram'' [0xEA, 0xA9, 1])" "r_size (region_wrap ''ram'' [0xEA, 0xA9, 1]) = 3"
    "region_cells (region_wrap ''ram'' [0xEA, 0xA9, 1]) ! 1 = Some 0xA9"
    by (simp_all add: region_wrap_def new_region_def opaque_wrap_def new_bound_def wf_region_def region_cells.simps)
  then show ?thesis
    using mos_decode_total [of "region_wrap ''ram'' [0xEA, 0xA9, 1]" 1 "0xA9" "\<lparr>v_arg = None, v_rel = None\<rparr>"]
    unfolding no_jsr_overflow_def by auto
qed

lemma mos_undecodable:
  assumes "wf_region r" "addr < r_size r \<Longrightarrow> region_cells r ! addr = None"
  shows "mos_decode r addr cfg = Some None"
proof -
  obtain dis where dis: "mos_disassembler = Some dis" "wf_dis mos_rules dis"
    "\<And>rs act. bound_to dis rs act \<longleftrightarrow> (\<exists>k sub. (k, sub, act) \<in> set mos_table \<and> rs = opcode_rule k # sub)"
    using mos_disassembler_built by blast
  let ?i = "drop addr (region_cells r)"
  have i: "?i = [] \<or> (\<exists>cs. ?i = None # cs)"
  proof (cases "addr < r_size r")
    case False
    then show ?thesis using region_iter_spec [OF assms(1)] by (metis drop_eq_Nil leI li_len_cells)
  qed (use region_cells_drop [OF assms(1)] assms(2) in auto)
  have no: "match_seq (opcode_rule k # sub) st ?i = {}" for k sub st
    using i by (auto simp: opcode_rule_def match_terminal_def)
  have none: "\<not> (bound_to dis rs act \<and> (st1, i') \<in> match_seq rs (new_state addr cfg) ?i)" for rs act st1 i'
    using dis(3) no by fastforce
  have "dis_find dis (new_state addr cfg) ?i \<noteq> None"
    using none by (intro dis_find_defined [OF dis(2)] mos_rules_total) blast+
  then obtain M where M: "dis_find dis (new_state addr cfg) ?i = Some M" by blast
  have "set M = {}" unfolding dis_find_set [OF M] using none by blast
  then have M_empty: "M = []" by simp
  have tok: "fst (read_token ?i) = (None :: u8 option)" using i by auto
  show ?thesis
    unfolding mos_decode_cells [OF assms(1) dis(1)] next_match_cases(2) [OF M M_empty] tok by (simp split: option.split)
qed

text \<open>
  Decoding at an undefined cell or at and behind the end of a region is the error
  \<^verbatim>\<open>Unrecognized instruction\<close>, not a panic.
\<close>

theorem mos_decode_undefined:
  assumes "wf_region r" "addr < r_size r \<Longrightarrow> region_cells r ! addr = None"
  shows "mos_decode r addr cfg = Some None"
  by (rule mos_undecodable [OF assms])

theorem mos_decode_undefined_witness:
  "wf_region (region_undefined ''ram'' 4) \<and>
   mos_decode (region_undefined ''ram'' 4) 2 \<lparr>v_arg = None, v_rel = None\<rparr> = Some None"
proof -
  have "region_cells (region_undefined ''ram'' 4) ! 2 = None"
    by (simp add: region_undefined_def new_region_def region_cells.simps)
  then show ?thesis
    using mos_decode_undefined [of "region_undefined ''ram'' 4" 2 "\<lparr>v_arg = None, v_rel = None\<rparr>"] by simp
qed

text \<open>
  The table is a function of the opcode: each of the 256 bytes has exactly one row, and for
  an opcode followed by the operand its row asks for the disassembler returns what the action
  of that row makes of the state with the operand read.
\<close>

theorem mos_next_match_row:
  assumes "(unat b, operand_rules imm8_rule imm16_rule rel_rule x, act) \<in> set mos_table" "no_jsr_overflow b a"
  shows "\<exists>dis st'. mos_disassembler = Some dis \<and>
    next_match dis (Some b # map Some (operand_bytes x) @ rest) a c = Some (Some st') \<and>
    act (matched_state a c b x) = Some (st', True) \<and>
    (\<forall>sub act'. (unat b, sub, act') \<in> set mos_table \<longrightarrow> sub = operand_rules imm8_rule imm16_rule rel_rule x \<and> act' = act)"
proof -
  have "sub = operand_rules imm8_rule imm16_rule rel_rule x \<and> act' = act" if "(unat b, sub, act') \<in> set mos_table" for sub act'
    by (rule mos_table_unique [OF that assms(1)])
  then show ?thesis using mos_next_match [OF assms, of c rest] by blast
qed

lemma immediate_rows:
  "(0xA9, [imm8_rule], mos_immediate ''lda'' (pure_sem mos_lda)) \<in> set mos_table"
  "(0xA2, [imm8_rule], mos_immediate ''ldx'' (pure_sem mos_ldx)) \<in> set mos_table"
  "(0xA0, [imm8_rule], mos_immediate ''ldy'' (pure_sem mos_ldy)) \<in> set mos_table"
  "(0x09, [imm8_rule], mos_immediate ''ora'' (pure_sem mos_ora)) \<in> set mos_table"
  "(0x49, [imm8_rule], mos_immediate ''eor'' (pure_sem mos_eor)) \<in> set mos_table"
  "(0x69, [imm8_rule], mos_immediate ''adc'' (pure_sem mos_adc)) \<in> set mos_table"
  "(0xE9, [imm8_rule], mos_immediate ''sbc'' (pure_sem mos_sbc)) \<in> set mos_table"
  unfolding mos_table_def mos_rows_def mos_rows_adc_to_dey_def mos_rows_eor_to_tya_def set_append
  by (simp_all only: list.set insert_iff Un_iff simp_thms)

theorem mos_next_match_row_witness:
  "\<exists>dis st'. mos_disassembler = Some dis \<and>
    next_match dis [Some 0xA9, Some 7, Some 0] 5 \<lparr>v_arg = None, v_rel = None\<rparr> = Some (Some st')"
  using mos_next_match_row [of "0xA9" "Imm8 7" "mos_immediate ''lda'' (pure_sem mos_lda)" 5 "[Some 0]" "\<lparr>v_arg = None, v_rel = None\<rparr>"]
    immediate_rows(1) by (auto simp: no_jsr_overflow_def)

text \<open>An immediate instruction decodes to one mnemonic with the statements of its semantics.\<close>

lemma immediate_decodes:
  assumes "(unat b, [imm8_rule], mos_immediate n (pure_sem f)) \<in> set mos_table" "b \<noteq> 0x20"
    and "f (RvConstant (ucast v) 8) = Inr ss"
  shows "\<exists>dis st m. mos_disassembler = Some dis \<and> next_match dis (Some b # Some v # rest) a c = Some (Some st) \<and>
    ds_mnemonics st = [m] \<and> m_area m = new_bound a (a + 2) \<and> m_opcode m = n \<and>
    m_operands m = [RvConstant (ucast v) 8] \<and> m_instructions m = ss \<and> ds_jumps st = [(a, new_u16 (of_nat (a + 2)), always)]"
proof -
  let ?st = "matched_state a c b (Imm8 v)"
  obtain dis st' where st': "mos_disassembler = Some dis" "next_match dis (Some b # Some v # rest) a c = Some (Some st')"
    "mos_immediate n (pure_sem f) ?st = Some (st', True)"
    using mos_next_match [of b "Imm8 v" "mos_immediate n (pure_sem f)" a c rest] assms(1,2) by (auto simp: no_jsr_overflow_def)
  have "mos_immediate n (pure_sem f) ?st =
      Some ((after_mnemonic 2 n [Literal CHR ''#'', Variable False] [RvConstant (ucast v) 8] ss ?st)
        \<lparr>ds_jumps := [(a, new_u16 (next_addr ?st), always)]\<rparr>, True)"
    using assms(3) by (simp add: mos_immediate_def pure_sem_def push_mnemonic_eq [OF mos_formats(2)] push_jump_eq new_u8_def numeral_2_eq_2)
  moreover have "next_addr ?st = of_nat (a + 2)" by (simp add: next_addr_def)
  ultimately show ?thesis using st' by (auto simp: after_mnemonic_def matched_state_def new_state_def simp del: of_nat_add)
qed

lemma is_byte_ucast [simp]: "is_byte (ucast (v :: u8))"
  unfolding is_byte_def by (rule bit_word_eqI) (auto simp: bit_simps dest: bit_imp_le_length)

text \<open>The effect of an immediate instruction: register and result.\<close>

definition immediate_effects :: "u8 \<Rightarrow> env \<Rightarrow> (u8 \<times> string \<times> u64) list" where
  "immediate_effects v \<sigma> =
     [(0xA9, ''A'', ucast v), (0xA2, ''X'', ucast v), (0xA0, ''Y'', ucast v),
      (0x09, ''A'', ucast v OR \<sigma> ''A''), (0x49, ''A'', ucast v XOR \<sigma> ''A''),
      (0x69, ''A'', take_bit 8 (\<sigma> ''A'' + ucast v + take_bit 1 (\<sigma> ''C''))),
      (0xE9, ''A'', take_bit 8 (\<sigma> ''A'' - ucast v + take_bit 1 (\<sigma> ''C'')))]"

definition gives :: "(rvalue \<Rightarrow> il_error + statement list) \<Rightarrow> u8 \<Rightarrow> env \<Rightarrow> string \<Rightarrow> u64 \<Rightarrow> bool" where
  "gives f v \<sigma> reg res \<longleftrightarrow> (\<exists>ss \<sigma>'. f (RvConstant (ucast v) 8) = Inr ss \<and> run_stmts ss \<sigma> = Some \<sigma>' \<and>
     \<sigma>' reg = res \<and> \<sigma>' ''Z'' = of_bool (res = 0))"

lemma immediate_semantics:
  shows "gives mos_lda v \<sigma> ''A'' (ucast v)" "gives mos_ldx v \<sigma> ''X'' (ucast v)" "gives mos_ldy v \<sigma> ''Y'' (ucast v)"
    and "is_byte (\<sigma> ''A'') \<Longrightarrow> gives mos_ora v \<sigma> ''A'' (ucast v OR \<sigma> ''A'')"
    and "is_byte (\<sigma> ''A'') \<Longrightarrow> gives mos_eor v \<sigma> ''A'' (ucast v XOR \<sigma> ''A'')"
    and "gives mos_adc v \<sigma> ''A'' (take_bit 8 (\<sigma> ''A'' + ucast v + take_bit 1 (\<sigma> ''C'')))"
    and "gives mos_sbc v \<sigma> ''A'' (take_bit 8 (\<sigma> ''A'' - ucast v + take_bit 1 (\<sigma> ''C'')))"
proof -
  let ?v = "RvConstant (ucast v) 8"
  have ok: "\<exists>ss. f ?v = Inr ss" if "f \<in> set rvalue_sems" for f using rvalue_sems_ok [OF _ that, of ?v] by auto
  have ld: "gives (mos_ld (rreil_lvalue n 8)) v \<sigma> n (ucast v)" if "n \<notin> {''Z'', ''N''}" for n
  proof -
    obtain ss where "mos_ld (rreil_lvalue n 8) ?v = Inr ss" by (auto simp: mos_ld_def rreil_forms rreil_typing)
    with ld_effect [of "ucast v" n ss \<sigma>] that show ?thesis by (auto simp: gives_def rreil_lvalue_def flags_of_def)
  qed
  show "gives mos_lda v \<sigma> ''A'' (ucast v)" "gives mos_ldx v \<sigma> ''X'' (ucast v)" "gives mos_ldy v \<sigma> ''Y'' (ucast v)"
    using ld [of "''A''"] ld [of "''X''"] ld [of "''Y''"] by (simp_all add: gives_def mos_lda_def mos_ldx_def mos_ldy_def)
  show "gives mos_ora v \<sigma> ''A'' (ucast v OR \<sigma> ''A'')" "gives mos_eor v \<sigma> ''A'' (ucast v XOR \<sigma> ''A'')" if "is_byte (\<sigma> ''A'')"
    using ok [of mos_ora] ok [of mos_eor] logic_effect(1,2) [of \<sigma> "ucast v", OF that is_byte_ucast]
    unfolding gives_def flags_of_def rvalue_sems_def by fastforce+
  show "gives mos_adc v \<sigma> ''A'' (take_bit 8 (\<sigma> ''A'' + ucast v + take_bit 1 (\<sigma> ''C'')))"
    using ok [of mos_adc] carry_effect [OF carry_sum_run(1)] unfolding gives_def carry_sum_shape(1) [symmetric] rvalue_sems_def by fastforce
  show "gives mos_sbc v \<sigma> ''A'' (take_bit 8 (\<sigma> ''A'' - ucast v + take_bit 1 (\<sigma> ''C'')))"
    using ok [of mos_sbc] carry_effect [OF carry_sum_run(2)] unfolding gives_def carry_sum_shape(2) [symmetric] rvalue_sems_def by fastforce
qed

lemma immediate_effect_row:
  assumes "(b, reg, res) \<in> set (immediate_effects v \<sigma>)" "is_byte (\<sigma> ''A'')"
  shows "\<exists>n f. (unat b, [imm8_rule], mos_immediate n (pure_sem f)) \<in> set mos_table \<and> b \<noteq> 0x20 \<and> gives f v \<sigma> reg res"
proof -
  have u: "unat (0xA9 :: u8) = 0xA9" "unat (0xA2 :: u8) = 0xA2" "unat (0xA0 :: u8) = 0xA0" "unat (0x09 :: u8) = 0x09"
    "unat (0x49 :: u8) = 0x49" "unat (0x69 :: u8) = 0x69" "unat (0xE9 :: u8) = 0xE9" by simp_all
  note rows = immediate_rows [folded u]
  note sem = immediate_semantics [where v = v and \<sigma> = \<sigma>]
  consider "b = 0xA9" "reg = ''A''" "res = ucast v" | "b = 0xA2" "reg = ''X''" "res = ucast v" | "b = 0xA0" "reg = ''Y''" "res = ucast v"
    | "b = 0x09" "reg = ''A''" "res = ucast v OR \<sigma> ''A''" | "b = 0x49" "reg = ''A''" "res = ucast v XOR \<sigma> ''A''"
    | "b = 0x69" "reg = ''A''" "res = take_bit 8 (\<sigma> ''A'' + ucast v + take_bit 1 (\<sigma> ''C''))"
    | "b = 0xE9" "reg = ''A''" "res = take_bit 8 (\<sigma> ''A'' - ucast v + take_bit 1 (\<sigma> ''C''))"
    using assms(1) unfolding immediate_effects_def list.set insert_iff prod.inject empty_iff simp_thms
    by (elim disjE conjE) (rule that, assumption, assumption, assumption)+
  then show ?thesis
  proof cases
    case 1
    show ?thesis unfolding 1 by (intro exI conjI, rule rows(1), simp, rule sem(1))
  next
    case 2
    show ?thesis unfolding 2 by (intro exI conjI, rule rows(2), simp, rule sem(2))
  next
    case 3
    show ?thesis unfolding 3 by (intro exI conjI, rule rows(3), simp, rule sem(3))
  next
    case 4
    show ?thesis unfolding 4 by (intro exI conjI, rule rows(4), simp, rule sem(4) [OF assms(2)])
  next
    case 5
    show ?thesis unfolding 5 by (intro exI conjI, rule rows(5), simp, rule sem(5) [OF assms(2)])
  next
    case 6
    show ?thesis unfolding 6 by (intro exI conjI, rule rows(6), simp, rule sem(6))
  next
    case 7
    show ?thesis unfolding 7 by (intro exI conjI, rule rows(7), simp, rule sem(7))
  qed
qed

text \<open>
  C36: Decoding and evaluating an immediate instruction: the bytes of \<^verbatim>\<open>lda\<close>, \<^verbatim>\<open>ldx\<close>, \<^verbatim>\<open>ldy\<close>,
  \<^verbatim>\<open>ora\<close>, \<^verbatim>\<open>eor\<close>, \<^verbatim>\<open>adc\<close> and \<^verbatim>\<open>sbc\<close> with an immediate operand decode to a single mnemonic of two bytes;
  running its statements on the constant evaluator stores the result in the register and sets the zero
  flag.  \<^verbatim>\<open>sbc\<close> adds the carry, where the processor subtracts the borrow.
\<close>

theorem mos_immediate_effect:
  assumes "(b, reg, res) \<in> set (immediate_effects v \<sigma>)" "is_byte (\<sigma> ''A'')"
  shows "\<exists>dis st m \<sigma>'. mos_disassembler = Some dis \<and> next_match dis (Some b # Some v # rest) a c = Some (Some st) \<and>
    ds_mnemonics st = [m] \<and> m_area m = new_bound a (a + 2) \<and> m_operands m = [RvConstant (ucast v) 8] \<and>
    run_stmts (m_instructions m) \<sigma> = Some \<sigma>' \<and> \<sigma>' reg = res \<and> \<sigma>' ''Z'' = of_bool (res = 0)"
proof -
  obtain n f ss \<sigma>' where f: "(unat b, [imm8_rule], mos_immediate n (pure_sem f)) \<in> set mos_table" "b \<noteq> 0x20"
    "f (RvConstant (ucast v) 8) = Inr ss" "run_stmts ss \<sigma> = Some \<sigma>'" "\<sigma>' reg = res" "\<sigma>' ''Z'' = of_bool (res = 0)"
    using immediate_effect_row [OF assms] unfolding gives_def by blast
  then show ?thesis using immediate_decodes [OF f(1-3), of rest a c] by blast
qed

theorem mos_immediate_effect_witness:
  "\<exists>dis st m \<sigma>'. mos_disassembler = Some dis \<and>
    next_match dis [Some 0x69, Some 3] 0 \<lparr>v_arg = None, v_rel = None\<rparr> = Some (Some st) \<and> ds_mnemonics st = [m] \<and>
    run_stmts (m_instructions m) (\<lambda>n. if n = ''A'' then 0xFE else 1) = Some \<sigma>' \<and> \<sigma>' ''A'' = 2"
  using mos_immediate_effect [of "0x69" "''A''" 2 3 "\<lambda>n. if n = ''A'' then 0xFE else 1" "[]" 0 "\<lparr>v_arg = None, v_rel = None\<rparr>"]
  by (auto simp: immediate_effects_def is_byte_def)

text \<open>
  The subroutine call computes its return address with a checked addition of sixteen bits:
  decoding \<^verbatim>\<open>jsr\<close> panics in the last three addresses of the address space.
\<close>

theorem mos_jsr_overflow:
  assumes "\<not> no_jsr_overflow 0x20 a"
  shows "mos_jsr (matched_state a c 0x20 (Imm16 lo hi)) = None"
  using assms jump_covers(4) [of "matched_state a c 0x20 (Imm16 lo hi)"] by (simp add: no_jsr_overflow_def)

theorem mos_jsr_overflow_witness:
  "\<not> no_jsr_overflow 0x20 0xFFFE \<and> mos_jsr (matched_state 0xFFFE \<lparr>v_arg = None, v_rel = None\<rparr> 0x20 (Imm16 1 2)) = None"
proof -
  have "\<not> no_jsr_overflow 0x20 0xFFFE" by (simp add: no_jsr_overflow_def)
  with mos_jsr_overflow [OF this] show ?thesis by simp
qed

end
