(* ===== verification/Function_Cfg.thy ===== *)
theory Function_Cfg
  imports Search Disasm
begin

text \<open>
  Functions, from \<^verbatim>\<open>core/src/function.rs\<close>: recursive disassembly from an entry point and the assembly
  of the mnemonics found into a control flow graph of basic blocks.

  \<^verbatim>\<open>A::decode\<close> of the architecture, applied to the region and the configuration, is the parameter
  \<open>decode\<close>: \<^const>\<open>None\<close> is a panic and \<open>Some None\<close> an error.  The order in which a \<^verbatim>\<open>HashSet\<close> or \<^verbatim>\<open>HashMap\<close> is
  iterated is unspecified: \<open>pick\<close> chooses the next address of a set, and \<open>order\<close> permutes the entries of the
  jump table and the vertices of a graph.  Addresses are natural numbers; constants of the intermediate language are read with \<^const>\<open>unat\<close>.
\<close>

section \<open>Data\<close>

record ('t, 'c) dis_match =
  dm_tokens :: "'t list"
  dm_mnemonics :: "mnemonic list"
  dm_jumps :: "(nat \<times> rvalue \<times> guard) list"
  dm_configuration :: 'c

definition match_of_state :: "('t, 'c) dstate \<Rightarrow> ('t, 'c) dis_match" where
  "match_of_state st =
     \<lparr>dm_tokens = ds_tokens st, dm_mnemonics = ds_mnemonics st, dm_jumps = ds_jumps st, dm_configuration = ds_configuration st\<rparr>"

datatype cf_target = Resolved basic_block | Unresolved rvalue | Failed nat string

type_synonym cf_graph = "(cf_target, guard) adjacency_list"

datatype mne_or_error = MoeMnemonic mnemonic | MoeError nat string

datatype function_kind = Regular | Stub string nat

record 'u func =
  f_name :: string
  f_aliases :: "string list"
  f_uuid :: 'u
  f_cflow_graph :: cf_graph
  f_entry_point :: al_vertex
  f_region :: string
  f_size :: nat
  f_kind :: function_kind

text \<open>
  \<^verbatim>\<open>entry(k).or_insert(Vec::new()).push(v)\<close> on a \<^verbatim>\<open>BTreeMap\<close>, a list sorted by key, and on a \<^verbatim>\<open>HashMap\<close>.
\<close>

type_synonym 'a multimap = "(nat \<times> 'a list) list"

fun bt_push :: "nat \<Rightarrow> 'a \<Rightarrow> 'a multimap \<Rightarrow> 'a multimap" where
  "bt_push k v [] = [(k, [v])]"
| "bt_push k v ((k', vs) # m) =
     (if k < k' then (k, [v]) # (k', vs) # m
      else if k = k' then (k', vs @ [v]) # m
      else (k', vs) # bt_push k v m)"

fun hm_push :: "nat \<Rightarrow> 'a \<Rightarrow> 'a multimap \<Rightarrow> 'a multimap" where
  "hm_push k v [] = [(k, [v])]"
| "hm_push k v ((k', vs) # m) = (if k = k' then (k', vs @ [v]) # m else (k', vs) # hm_push k v m)"

definition hm_get :: "'a multimap \<Rightarrow> nat \<Rightarrow> 'a list" where
  "hm_get m k = (case map_of m k of None \<Rightarrow> [] | Some vs \<Rightarrow> vs)"

type_synonym jumps = "(rvalue \<times> guard) multimap"

text \<open>The orders in which the jumps by source and the vertices of a control flow graph are iterated.\<close>

record hash_order =
  ho_jumps :: "jumps \<Rightarrow> jumps"
  ho_vertices :: "al_vertex list \<Rightarrow> al_vertex list"

definition addr_rv :: "nat \<Rightarrow> rvalue" where
  "addr_rv a = new_u64 (of_nat a)"

section \<open>Recursive disassembly\<close>

record work =
  w_todo :: "nat set"
  w_mnemonics :: "mne_or_error multimap"
  w_by_source :: jumps
  w_by_destination :: jumps
  w_size :: nat

definition add_error :: "nat \<Rightarrow> string \<Rightarrow> work \<Rightarrow> work" where
  "add_error addr msg w = w\<lparr>w_mnemonics := bt_push addr (MoeError addr msg) (w_mnemonics w)\<rparr>"

fun push_mnemonics :: "mnemonic list \<Rightarrow> work \<Rightarrow> work option" where
  "push_mnemonics [] w = Some w"
| "push_mnemonics (mne # ms) w =
     (case mnemonic_size mne of
        None \<Rightarrow> None
      | Some n \<Rightarrow>
          push_mnemonics ms (w\<lparr>w_size := w_size w + n,
            w_mnemonics := bt_push (b_start (m_area mne)) (MoeMnemonic mne) (w_mnemonics w)\<rparr>))"

fun push_jump_to :: "nat \<times> rvalue \<times> guard \<Rightarrow> work \<Rightarrow> work" where
  "push_jump_to (origin, tgt, gu) w =
     (case tgt of
        RvConstant c s \<Rightarrow>
          w\<lparr>w_by_source := hm_push origin (tgt, gu) (w_by_source w),
            w_by_destination := hm_push (unat c) (addr_rv origin, gu) (w_by_destination w),
            w_todo := insert (unat c) (w_todo w)\<rparr>
      | _ \<Rightarrow> w\<lparr>w_by_source := hm_push origin (tgt, gu) (w_by_source w)\<rparr>)"

definition decode_at :: "(nat \<Rightarrow> ('t, 'c) dis_match option option) \<Rightarrow> nat \<Rightarrow> work \<Rightarrow> work option" where
  "decode_at decode addr w =
     (case decode addr of
        None \<Rightarrow> None
      | Some None \<Rightarrow> Some (add_error addr ''Unrecognized instruction'' w)
      | Some (Some m) \<Rightarrow>
          map_option (fold push_jump_to (dm_jumps m))
            (if dm_mnemonics m = [] then Some (add_error addr ''Unrecognized instruction'' w)
             else push_mnemonics (dm_mnemonics m) w))"

text \<open>The body of the loop, for an address taken from \<^verbatim>\<open>todo\<close>.\<close>

definition visit :: "(nat \<Rightarrow> ('t, 'c) dis_match option option) \<Rightarrow> nat \<Rightarrow> work \<Rightarrow> work option" where
  "visit decode addr w0 =
     (let w = w0\<lparr>w_todo := w_todo w0 - {addr}\<rparr> in
      case map_option snd (find (\<lambda>x. addr \<le> fst x) (w_mnemonics w)) of
        Some (MoeMnemonic mne # _) \<Rightarrow>
          (if b_start (m_area mne) < addr \<and> addr < b_end (m_area mne) then
             Some (add_error addr ''Jump inside instruction'' w)
           else if b_start (m_area mne) = addr then
             map_option (\<lambda>n. w\<lparr>w_size := w_size w + n\<rparr>) (mnemonic_size mne)
           else decode_at decode addr w)
      | Some (MoeError pos msg # _) \<Rightarrow> (if pos = addr then Some w else decode_at decode addr w)
      | _ \<Rightarrow> decode_at decode addr w)"

partial_function (option) work_loop ::
  "(nat set \<Rightarrow> nat) \<Rightarrow> (nat \<Rightarrow> ('t, 'c) dis_match option option) \<Rightarrow> work \<Rightarrow> work option" where
  "work_loop pick decode w =
     (if w_todo w = {} then Some w
      else (case visit decode (pick (w_todo w)) w of
              None \<Rightarrow> None
            | Some w' \<Rightarrow> work_loop pick decode w'))"

section \<open>Reading a control flow graph back\<close>

record index =
  ix_mnemonics :: "mne_or_error multimap"
  ix_by_source :: jumps
  ix_by_destination :: jumps

definition push_edge :: "nat \<Rightarrow> nat \<Rightarrow> guard \<Rightarrow> index \<Rightarrow> index" where
  "push_edge src tgt gu ix =
     ix\<lparr>ix_by_source := hm_push src (addr_rv tgt, gu) (ix_by_source ix),
        ix_by_destination := hm_push tgt (addr_rv src, gu) (ix_by_destination ix)\<rparr>"

fun index_mnemonics :: "nat option \<Rightarrow> mnemonic list \<Rightarrow> index \<Rightarrow> index" where
  "index_mnemonics prev [] ix = ix"
| "index_mnemonics prev (mne # ms) ix =
     (let ix1 = ix\<lparr>ix_mnemonics := bt_push (b_start (m_area mne)) (MoeMnemonic mne) (ix_mnemonics ix)\<rparr>;
          ix2 = (case prev of None \<Rightarrow> ix1 | Some p \<Rightarrow> push_edge p (b_start (m_area mne)) always ix1)
      in index_mnemonics (Some (b_start (m_area mne))) ms ix2)"

fun index_target :: "cf_target \<Rightarrow> index \<Rightarrow> index" where
  "index_target (Resolved bb) ix = index_mnemonics None (bb_mnemonics bb) ix"
| "index_target (Failed pos msg) ix = ix\<lparr>ix_mnemonics := bt_push pos (MoeError pos msg) (ix_mnemonics ix)\<rparr>"
| "index_target (Unresolved r) ix = ix"

definition last_start :: "basic_block \<Rightarrow> nat" where
  "last_start bb = (if bb_mnemonics bb = [] then b_start (bb_area bb) else b_start (m_area (last (bb_mnemonics bb))))"

text \<open>The position an edge leaves from, and the one it leads to, if it is known.\<close>

fun index_edge :: "guard \<Rightarrow> cf_target \<Rightarrow> cf_target \<Rightarrow> index \<Rightarrow> index" where
  "index_edge gu (Resolved s) (Resolved t) ix = push_edge (last_start s) (b_start (bb_area t)) gu ix"
| "index_edge gu (Resolved s) (Unresolved (RvConstant c _)) ix = push_edge (last_start s) (unat c) gu ix"
| "index_edge gu (Unresolved (RvConstant c _)) (Resolved t) ix = push_edge (unat c) (b_start (bb_area t)) gu ix"
| "index_edge gu (Resolved s) (Unresolved r) ix =
     ix\<lparr>ix_by_source := hm_push (b_start (bb_area s)) (r, gu) (ix_by_source ix)\<rparr>"
| "index_edge gu (Unresolved r) (Resolved t) ix =
     ix\<lparr>ix_by_destination := hm_push (b_start (bb_area t)) (r, gu) (ix_by_destination ix)\<rparr>"
| "index_edge gu (Failed p _) (Resolved t) ix = push_edge p (b_start (bb_area t)) gu ix"
| "index_edge gu (Resolved s) (Failed p _) ix = push_edge (last_start s) p gu ix"
| "index_edge gu (Failed p _) (Failed q _) ix = push_edge p q gu ix"
| "index_edge gu (Failed p _) (Unresolved (RvConstant c _)) ix = push_edge p (unat c) gu ix"
| "index_edge gu (Unresolved (RvConstant c _)) (Failed p _) ix = push_edge (unat c) p gu ix"
| "index_edge gu (Failed p _) (Unresolved r) ix = ix\<lparr>ix_by_source := hm_push p (r, gu) (ix_by_source ix)\<rparr>"
| "index_edge gu (Unresolved r) (Failed p _) ix = ix\<lparr>ix_by_destination := hm_push p (r, gu) (ix_by_destination ix)\<rparr>"
| "index_edge gu (Unresolved _) (Unresolved _) ix = ix"

text \<open>\<^verbatim>\<open>unwrap\<close> of the label, \<^verbatim>\<open>source\<close> and \<^verbatim>\<open>target\<close> panic, as does a vertex without label.\<close>

fun index_edges :: "cf_graph \<Rightarrow> al_edge list \<Rightarrow> index \<Rightarrow> index option" where
  "index_edges g [] ix = Some ix"
| "index_edges g (e # es) ix =
     (case (al_edge_label g e, Option.bind (al_source g e) (al_vertex_label g), Option.bind (al_target g e) (al_vertex_label g)) of
        (Some gu, Some s, Some t) \<Rightarrow> index_edges g es (index_edge gu s t ix)
      | _ \<Rightarrow> None)"

definition index_cflow_graph :: "cf_graph \<Rightarrow> nat \<Rightarrow> index option" where
  "index_cflow_graph g entry =
     index_edges g (al_edges g)
       (fold index_target (al_vertex_labels g)
          \<lparr>ix_mnemonics = [], ix_by_source = [], ix_by_destination = [(entry, [(RvUndefined, always)])]\<rparr>)"

section \<open>Assembling a control flow graph\<close>

fun other_constant :: "nat \<Rightarrow> rvalue \<times> guard \<Rightarrow> bool" where
  "other_constant a (RvConstant v _, _) \<longleftrightarrow> unat v \<noteq> a"
| "other_constant a _ \<longleftrightarrow> False"

definition starts_block :: "jumps \<Rightarrow> jumps \<Rightarrow> nat \<Rightarrow> mnemonic \<Rightarrow> mnemonic \<Rightarrow> bool" where
  "starts_block by_source by_destination start last_mne mne \<longleftrightarrow>
     b_end (m_area last_mne) \<noteq> b_start (m_area mne) \<or>
     list_ex (other_constant (b_start (m_area mne))) (hm_get by_source (b_start (m_area last_mne))) \<or>
     list_ex (other_constant (b_start (m_area last_mne))) (hm_get by_destination (b_start (m_area mne))) \<or>
     b_start (m_area mne) = start"

fun push_moe :: "mne_or_error \<Rightarrow> cf_graph \<times> mnemonic list \<Rightarrow> cf_graph \<times> mnemonic list" where
  "push_moe (MoeMnemonic mne) (ret, bblock) = (ret, bblock @ [mne])"
| "push_moe (MoeError pos msg) (ret, bblock) = (fst (al_add_vertex ret (Failed pos msg)), bblock)"

definition close_block :: "jumps \<Rightarrow> jumps \<Rightarrow> nat \<Rightarrow> mne_or_error list \<Rightarrow> cf_graph \<times> mnemonic list \<Rightarrow> cf_graph \<times> mnemonic list" where
  "close_block by_source by_destination start mnes s =
     (case mnes of
        MoeMnemonic mne # _ \<Rightarrow>
          (if snd s \<noteq> [] \<and> starts_block by_source by_destination start (last (snd s)) mne
           then (fst (al_add_vertex (fst s) (Resolved (from_vec (snd s)))), [])
           else s)
      | _ \<Rightarrow> s)"

fun blocks_loop :: "jumps \<Rightarrow> jumps \<Rightarrow> nat \<Rightarrow> mne_or_error multimap \<Rightarrow> cf_graph \<times> mnemonic list \<Rightarrow> cf_graph \<times> mnemonic list" where
  "blocks_loop by_source by_destination start [] s = s"
| "blocks_loop by_source by_destination start ((_, mnes) # rest) s =
     blocks_loop by_source by_destination start rest (fold push_moe mnes (close_block by_source by_destination start mnes s))"

definition last_block :: "cf_graph \<times> mnemonic list \<Rightarrow> cf_graph" where
  "last_block s = (if snd s = [] then fst s else fst (al_add_vertex (fst s) (Resolved (from_vec (snd s)))))"

text \<open>The vertices a jump may leave from and lead to; every vertex of a graph has a label.\<close>

fun jump_source :: "nat \<Rightarrow> cf_target \<Rightarrow> bool" where
  "jump_source src (Resolved bb) \<longleftrightarrow> bb_mnemonics bb \<noteq> [] \<and> b_start (m_area (last (bb_mnemonics bb))) = src"
| "jump_source src (Unresolved (RvConstant v _)) \<longleftrightarrow> unat v = src"
| "jump_source src (Unresolved _) \<longleftrightarrow> False"
| "jump_source src (Failed pos _) \<longleftrightarrow> pos = src"

fun jump_target :: "rvalue \<Rightarrow> cf_target \<Rightarrow> bool" where
  "jump_target (RvConstant v _) (Resolved bb) \<longleftrightarrow> b_start (bb_area bb) = unat v"
| "jump_target (RvConstant v _) (Failed pos _) \<longleftrightarrow> pos = unat v"
| "jump_target rv (Unresolved v) \<longleftrightarrow> v = rv"
| "jump_target _ _ \<longleftrightarrow> False"

definition find_vertex :: "hash_order \<Rightarrow> (cf_target \<Rightarrow> bool) \<Rightarrow> cf_graph \<Rightarrow> al_vertex option" where
  "find_vertex order P g =
     find (\<lambda>t. case al_vertex_label g t of Some lb \<Rightarrow> P lb | None \<Rightarrow> False) (ho_vertices order (al_vertices g))"

definition inside_block :: "cf_graph \<Rightarrow> al_vertex \<Rightarrow> nat \<Rightarrow> bool" where
  "inside_block g v a \<longleftrightarrow>
     (case al_vertex_label g v of Some (Resolved bb) \<Rightarrow> b_start (bb_area bb) \<le> a \<and> a < b_end (bb_area bb) | _ \<Rightarrow> False)"

definition connect_jump :: "hash_order \<Rightarrow> nat \<Rightarrow> rvalue \<times> guard \<Rightarrow> cf_graph \<Rightarrow> cf_graph" where
  "connect_jump order src tg ret =
     (case tg of (tgt, gu) \<Rightarrow>
        (case (find_vertex order (jump_source src) ret, find_vertex order (jump_target tgt) ret) of
           (Some f, Some t) \<Rightarrow> fst (al_add_edge ret gu f t)
         | (None, Some t) \<Rightarrow>
             (if inside_block ret t src then ret
              else (case al_add_vertex ret (Unresolved (addr_rv src)) of (ret', vx) \<Rightarrow> fst (al_add_edge ret' gu vx t)))
         | (Some f, None) \<Rightarrow>
             (if (case tgt of RvConstant v _ \<Rightarrow> inside_block ret f (unat v) | _ \<Rightarrow> False) then ret
              else (case al_add_vertex ret (Unresolved tgt) of (ret', vx) \<Rightarrow> fst (al_add_edge ret' gu f vx)))
         | (None, None) \<Rightarrow> ret))"

definition connect_blocks :: "hash_order \<Rightarrow> jumps \<Rightarrow> cf_graph \<Rightarrow> cf_graph" where
  "connect_blocks order by_source ret = fold (\<lambda>(src, tgts). fold (connect_jump order src) tgts) (ho_jumps order by_source) ret"

definition assemble_cflow_graph ::
  "hash_order \<Rightarrow> mne_or_error multimap \<Rightarrow> jumps \<Rightarrow> jumps \<Rightarrow> nat \<Rightarrow> cf_graph" where
  "assemble_cflow_graph order mnemonics by_source by_destination start =
     connect_blocks order by_source
       (last_block (blocks_loop by_source by_destination start mnemonics (al_new, [])))"

section \<open>Operations of a function\<close>

fun block_at_start :: "nat \<Rightarrow> cf_target \<Rightarrow> bool" where
  "block_at_start a (Resolved bb) \<longleftrightarrow> b_start (bb_area bb) = a \<and> a < b_end (bb_area bb)"
| "block_at_start a _ \<longleftrightarrow> False"

fun unresolved_constant :: "cf_target \<Rightarrow> nat list" where
  "unresolved_constant (Unresolved (RvConstant v _)) = [unat v]"
| "unresolved_constant _ = []"

text \<open>
  \<^verbatim>\<open>disassemble\<close>: the graph is replaced only on success, the size is changed in both cases.  The
  error is that the function has no entry point.
\<close>

definition disassemble ::
  "(nat set \<Rightarrow> nat) \<Rightarrow> hash_order \<Rightarrow> (nat \<Rightarrow> ('t, 'c) dis_match option option) \<Rightarrow> nat \<Rightarrow> cf_graph \<times> nat \<Rightarrow>
   ((unit + al_vertex) \<times> cf_graph \<times> nat) option" where
  "disassemble pick order decode start gs =
     (case index_cflow_graph (fst gs) start of
        None \<Rightarrow> None
      | Some ix \<Rightarrow>
          (case work_loop pick decode
                  \<lparr>w_todo = insert start (set (concat (map unresolved_constant (al_vertex_labels (fst gs))))),
                   w_mnemonics = ix_mnemonics ix, w_by_source = ix_by_source ix,
                   w_by_destination = ix_by_destination ix, w_size = snd gs\<rparr> of
             None \<Rightarrow> None
           | Some w \<Rightarrow>
               (let g = assemble_cflow_graph order (w_mnemonics w) (w_by_source w) (w_by_destination w) start
                in (case find_vertex order (block_at_start start) g of
                      Some ep \<Rightarrow> Some (Inr ep, g, w_size w)
                    | None \<Rightarrow> Some (Inl (), fst gs, w_size w)))))"

fun hex_lower :: "nat \<Rightarrow> string" where
  "hex_lower n = (if n < 16 then [''0123456789abcdef'' ! n] else hex_lower (n div 16) @ [''0123456789abcdef'' ! (n mod 16)])"

definition default_name :: "nat \<Rightarrow> string" where
  "default_name start = ''func_0x'' @ hex_lower start"

text \<open>\<open>uuid\<close> stands for the result of \<^verbatim>\<open>Uuid::new_v4\<close>.\<close>

definition func_undefined :: "nat \<Rightarrow> 'u option \<Rightarrow> 'u \<Rightarrow> string \<Rightarrow> string option \<Rightarrow> 'u func" where
  "func_undefined start maybe_uuid uuid region_name nam =
     (case al_add_vertex al_new (Unresolved (addr_rv start)) of (g, ep) \<Rightarrow>
        \<lparr>f_name = (case nam of Some n \<Rightarrow> n | None \<Rightarrow> default_name start), f_aliases = [],
         f_uuid = (case maybe_uuid of Some u \<Rightarrow> u | None \<Rightarrow> uuid), f_cflow_graph = g, f_entry_point = ep,
         f_region = region_name, f_size = 0, f_kind = Regular\<rparr>)"

definition func_new ::
  "(nat set \<Rightarrow> nat) \<Rightarrow> hash_order \<Rightarrow> (nat \<Rightarrow> ('t, 'c) dis_match option option) \<Rightarrow> nat \<Rightarrow> 'u \<Rightarrow> string \<Rightarrow>
   string option \<Rightarrow> (unit + 'u func) option" where
  "func_new pick order decode start uuid region_name nam =
     (case disassemble pick order decode start (fst (al_add_vertex al_new (Unresolved (addr_rv start))), 0) of
        None \<Rightarrow> None
      | Some (Inl e, _) \<Rightarrow> Some (Inl e)
      | Some (Inr ep, g, sz) \<Rightarrow>
          Some (Inr \<lparr>f_name = (case nam of Some n \<Rightarrow> n | None \<Rightarrow> default_name start), f_aliases = [], f_uuid = uuid,
                     f_cflow_graph = g, f_entry_point = ep, f_region = region_name, f_size = sz, f_kind = Regular\<rparr>))"

definition func_with_uuid ::
  "(nat set \<Rightarrow> nat) \<Rightarrow> hash_order \<Rightarrow> (nat \<Rightarrow> ('t, 'c) dis_match option option) \<Rightarrow> nat \<Rightarrow> 'u \<Rightarrow> 'u \<Rightarrow> string \<Rightarrow>
   string option \<Rightarrow> (unit + 'u func) option" where
  "func_with_uuid pick order decode start given uuid region_name nam =
     map_option (map_sum id (\<lambda>f. f\<lparr>f_uuid := given\<rparr>)) (func_new pick order decode start uuid region_name nam)"

definition func_cont ::
  "(nat set \<Rightarrow> nat) \<Rightarrow> hash_order \<Rightarrow> (nat \<Rightarrow> ('t, 'c) dis_match option option) \<Rightarrow> nat \<Rightarrow> 'u func \<Rightarrow>
   ((unit + unit) \<times> 'u func) option" where
  "func_cont pick order decode start f =
     (case disassemble pick order decode start (f_cflow_graph f, f_size f) of
        None \<Rightarrow> None
      | Some (Inl e, g, sz) \<Rightarrow> Some (Inl e, f\<lparr>f_cflow_graph := g, f_size := sz\<rparr>)
      | Some (Inr ep, g, sz) \<Rightarrow> Some (Inr (), f\<lparr>f_cflow_graph := g, f_size := sz, f_entry_point := ep\<rparr>))"

fun block_of :: "cf_target \<Rightarrow> basic_block list" where
  "block_of (Resolved bb) = [bb]"
| "block_of _ = []"

definition basic_blocks :: "'u func \<Rightarrow> basic_block list" where
  "basic_blocks f = concat (map block_of (al_vertex_labels (f_cflow_graph f)))"

definition entry_point :: "'u func \<Rightarrow> basic_block option" where
  "entry_point f = (case al_vertex_label (f_cflow_graph f) (f_entry_point f) of Some (Resolved bb) \<Rightarrow> Some bb | _ \<Rightarrow> None)"

definition func_start :: "'u func \<Rightarrow> nat option" where
  "func_start f = map_option (\<lambda>bb. b_start (bb_area bb)) (entry_point f)"

definition func_end :: "'u func \<Rightarrow> nat option" where
  "func_end f = map_option (\<lambda>bb. fold (\<lambda>b e. max (b_end (bb_area b)) e) (basic_blocks f) (b_end (bb_area bb))) (entry_point f)"

definition func_contains :: "'u func \<Rightarrow> nat \<Rightarrow> bool" where
  "func_contains f address \<longleftrightarrow>
     list_ex (\<lambda>bb. address \<le> b_start (bb_area bb) \<and> address < b_end (bb_area bb)) (basic_blocks f)"

definition add_alias :: "string \<Rightarrow> 'u func \<Rightarrow> 'u func" where
  "add_alias alias f = f\<lparr>f_aliases := f_aliases f @ [alias]\<rparr>"

definition set_plt :: "string \<Rightarrow> nat \<Rightarrow> 'u func \<Rightarrow> 'u func" where
  "set_plt nam plt_address f =
     f\<lparr>f_aliases := f_aliases f @ [f_name f], f_name := nam @ ''@plt'', f_kind := Stub nam plt_address\<rparr>"

definition func_statements :: "'u func \<Rightarrow> statement list" where
  "func_statements f = concat (map (\<lambda>bb. stmt_drain (bb_statements bb)) (basic_blocks f))"

fun call_of :: "rvalue operation \<Rightarrow> rvalue list" where
  "call_of (Call t) = [t]"
| "call_of _ = []"

fun constant_of :: "rvalue \<Rightarrow> nat list" where
  "constant_of (RvConstant v _) = [unat v]"
| "constant_of _ = []"

definition is_leaf :: "'u func \<Rightarrow> bool" where
  "is_leaf f \<longleftrightarrow> list_all (\<lambda>s. call_of (st_op s) = []) (func_statements f)"

definition collect_calls :: "'u func \<Rightarrow> rvalue list" where
  "collect_calls f = concat (map (\<lambda>s. call_of (st_op s)) (func_statements f))"

definition collect_call_addresses :: "'u func \<Rightarrow> nat list" where
  "collect_call_addresses f = concat (map (\<lambda>s. concat (map constant_of (call_of (st_op s)))) (func_statements f))"

definition find_basic_block_by_start :: "hash_order \<Rightarrow> 'u func \<Rightarrow> nat \<Rightarrow> al_vertex option" where
  "find_basic_block_by_start order f a = find_vertex order (block_at_start a) (f_cflow_graph f)"

definition find_basic_block_at :: "hash_order \<Rightarrow> 'u func \<Rightarrow> nat \<Rightarrow> basic_block option" where
  "find_basic_block_at order f a =
     (let g = f_cflow_graph f in
      Option.bind (find (\<lambda>v. inside_block g v a) (ho_vertices order (al_vertices g)))
        (\<lambda>v. case al_vertex_label g v of Some (Resolved bb) \<Rightarrow> Some bb | _ \<Rightarrow> None))"

definition func_postorder :: "'u func \<Rightarrow> al_vertex list option" where
  "func_postorder f = tree_collect (al_succs (f_cflow_graph f)) (new_tree_iter (f_entry_point f) Postorder)"

end
