(* ===== verification/Function_Spec.thy ===== *)
theory Function_Spec
  imports Function_Cfg
begin

text \<open>
  Properties of functions.  For an architecture whose decoder does not panic and reports mnemonics and jumps
  that start at the decoded address (\<open>simple_architecture\<close>), recursive disassembly ends and visits exactly the addresses
  reachable from the entry point, in whatever order the hash set is iterated.  The assembled
  control flow graph partitions the mnemonics into basic blocks, splits them at jump targets and
  after jumps and nowhere else, and has an edge for every jump that leaves a block.
\<close>

section \<open>Multimaps\<close>

definition mm_keys :: "'a multimap \<Rightarrow> nat set" where
  "mm_keys m = fst ` set m"

lemma mm_keys_simps [simp]: "mm_keys [] = {}" "mm_keys ((k, vs) # m) = insert k (mm_keys m)"
  by (simp_all add: mm_keys_def)

lemma finite_mm_keys [simp]: "finite (mm_keys m)"
  by (simp add: mm_keys_def)

lemma mm_keys_map_of: "k \<in> mm_keys m \<longleftrightarrow> map_of m k \<noteq> None"
  by (simp add: mm_keys_def map_of_eq_None_iff)

lemma hm_get_absent: "k \<notin> mm_keys m \<Longrightarrow> hm_get m k = []"
  by (simp add: hm_get_def mm_keys_map_of)

lemma hm_get_simps [simp]: "hm_get [] k = []" "hm_get ((k', vs) # m) k = (if k' = k then vs else hm_get m k)"
  by (simp_all add: hm_get_def)

definition sorted_keys :: "'a multimap \<Rightarrow> bool" where
  "sorted_keys m \<longleftrightarrow> sorted_wrt (<) (map fst m)"

lemma sorted_keys_simps [simp]:
  "sorted_keys []" "sorted_keys ((k, vs) # m) \<longleftrightarrow> (\<forall>k' \<in> mm_keys m. k < k') \<and> sorted_keys m"
  by (auto simp: sorted_keys_def mm_keys_def)

lemma bt_push_keys [simp]: "mm_keys (bt_push k v m) = insert k (mm_keys m)"
  by (induction k v m rule: bt_push.induct) auto

lemma bt_push_sorted [simp]: "sorted_keys m \<Longrightarrow> sorted_keys (bt_push k v m)"
  by (induction k v m rule: bt_push.induct) auto

lemma bt_push_get: "sorted_keys m \<Longrightarrow> hm_get (bt_push k v m) a = (if a = k then hm_get m k @ [v] else hm_get m a)"
proof (induction k v m rule: bt_push.induct)
  case (2 k v k' vs m)
  have "k < k' \<Longrightarrow> k \<notin> mm_keys m" using "2.prems" by auto
  with 2 show ?case by (auto simp: hm_get_absent)
qed simp

lemma hm_push_keys [simp]: "mm_keys (hm_push k v m) = insert k (mm_keys m)"
  by (induction k v m rule: hm_push.induct) auto

lemma hm_push_get: "hm_get (hm_push k v m) a = (if a = k then hm_get m k @ [v] else hm_get m a)"
  by (induction k v m rule: hm_push.induct) auto

lemma hm_push_distinct [simp]: "distinct (map fst m) \<Longrightarrow> distinct (map fst (hm_push k v m))"
proof (induction k v m rule: hm_push.induct)
  case (2 k v k' vs m)
  moreover have "fst ` set (hm_push k v m) = insert k (fst ` set m)" using hm_push_keys [of k v m] by (simp add: mm_keys_def)
  ultimately show ?case by auto
qed simp

text \<open>A sorted multimap is determined by its keys and their values.\<close>

lemma sorted_keys_eq:
  assumes "sorted_keys m" "\<forall>k \<in> mm_keys m. hm_get m k = f k"
  shows "m = map (\<lambda>k. (k, f k)) (sorted_list_of_set (mm_keys m))"
proof -
  have "map fst m = sorted_list_of_set (mm_keys m)"
    using assms(1) strict_sorted_equal [of "map fst m" "sorted_list_of_set (mm_keys m)"]
    by (simp add: sorted_keys_def mm_keys_def)
  moreover have "m = map (\<lambda>k. (k, f k)) (map fst m)"
  proof -
    have "distinct (map fst m)" using assms(1) strict_sorted_iff sorted_keys_def by blast
    then have "snd x = f (fst x)" if "x \<in> set m" for x
      using that assms(2) by (cases x) (fastforce simp: hm_get_def mm_keys_def)
    then show ?thesis by (induction m) auto
  qed
  ultimately show ?thesis by simp
qed

section \<open>One visit\<close>

fun moe_start :: "mne_or_error \<Rightarrow> nat" where
  "moe_start (MoeMnemonic m) = b_start (m_area m)"
| "moe_start (MoeError pos msg) = pos"

text \<open>Entries are stored under the address they start at.\<close>

definition wf_moes :: "mne_or_error multimap \<Rightarrow> bool" where
  "wf_moes m \<longleftrightarrow> sorted_keys m \<and> (\<forall>k \<in> mm_keys m. hm_get m k \<noteq> [] \<and> (\<forall>v \<in> set (hm_get m k). moe_start v = k))"

lemma wf_moes_sorted [simp]: "wf_moes m \<Longrightarrow> sorted_keys m"
  by (simp add: wf_moes_def)

lemma wf_moes_Nil [simp]: "wf_moes []"
  by (simp add: wf_moes_def)

lemma wf_moes_push: "wf_moes m \<Longrightarrow> moe_start v = k \<Longrightarrow> wf_moes (bt_push k v m)"
  by (auto simp: wf_moes_def bt_push_get hm_get_absent)

lemma find_at_or_after:
  "sorted_keys m \<Longrightarrow> find (\<lambda>x. a \<le> fst x) m =
     (if a \<in> mm_keys m then Some (a, hm_get m a) else find (\<lambda>x. a < fst x) m)"
proof (induction m)
  case (Cons x m)
  then show ?case by (cases x) (auto split: if_splits)
qed simp

lemma find_mm_entry: "find P m = Some (k, vs) \<Longrightarrow> distinct (map fst m) \<Longrightarrow> k \<in> mm_keys m \<and> hm_get m k = vs \<and> P (k, vs)"
proof (induction m)
  case (Cons x m)
  then show ?case by (cases x) (auto split: if_splits simp: mm_keys_def image_iff)
qed simp

text \<open>
  A visit looks at the first entry at or behind the address: that entry starts at the address
  or behind it, so the test for a jump into an instruction is never met.
\<close>

lemma visit_cases:
  assumes "wf_moes (w_mnemonics w)"
  shows "visit decode a w =
    (if a \<in> mm_keys (w_mnemonics w) then
       (case hd (hm_get (w_mnemonics w) a) of
          MoeMnemonic mne \<Rightarrow> map_option (\<lambda>n. w\<lparr>w_todo := w_todo w - {a}, w_size := w_size w + n\<rparr>) (mnemonic_size mne)
        | MoeError _ _ \<Rightarrow> Some (w\<lparr>w_todo := w_todo w - {a}\<rparr>))
     else decode_at decode a (w\<lparr>w_todo := w_todo w - {a}\<rparr>))"
proof (cases "a \<in> mm_keys (w_mnemonics w)")
  case True
  then obtain v vs where v: "hm_get (w_mnemonics w) a = v # vs" "moe_start v = a"
    using assms by (cases "hm_get (w_mnemonics w) a") (auto simp: wf_moes_def)
  then show ?thesis
    using True assms by (cases v) (simp_all add: visit_def find_at_or_after Let_def)
next
  case False
  let ?m = "w_mnemonics w"
  have d: "distinct (map fst ?m)" using assms by (auto simp: wf_moes_def sorted_keys_def strict_sorted_iff)
  show ?thesis
  proof (cases "find (\<lambda>x. a < fst x) ?m")
    case None
    then show ?thesis using False assms by (simp add: visit_def find_at_or_after Let_def)
  next
    case (Some kv)
    obtain k vs where kv: "kv = (k, vs)" by force
    with Some find_mm_entry [OF _ d] have k: "k \<in> mm_keys ?m" "hm_get ?m k = vs" "a < k" by fastforce+
    then obtain v vs' where "vs = v # vs'" "moe_start v = k" using assms by (cases vs) (auto simp: wf_moes_def)
    then show ?thesis
      using k False assms Some kv by (cases v) (simp_all add: visit_def find_at_or_after Let_def)
  qed
qed

section \<open>Effect of decoding\<close>

fun target_of :: "nat \<times> rvalue \<times> guard \<Rightarrow> nat list" where
  "target_of (_, RvConstant c _, _) = [unat c]"
| "target_of _ = []"

definition targets :: "(nat \<times> rvalue \<times> guard) list \<Rightarrow> nat set" where
  "targets js = set (concat (map target_of js))"

lemma unat_u64_less: "unat (c :: u64) < 2 ^ 64"
proof -
  have "unat c < 2 ^ LENGTH(64)" by (rule unsigned_less)
  then show ?thesis by simp
qed

lemma targets_bound: "targets js \<subseteq> {..<2 ^ 64}"
proof -
  have "set (target_of j) \<subseteq> {..<2 ^ 64}" for j
    using unat_u64_less by (cases j rule: target_of.cases) simp_all
  then show ?thesis by (auto simp: targets_def)
qed

definition incoming :: "nat \<Rightarrow> (nat \<times> rvalue \<times> guard) list \<Rightarrow> (rvalue \<times> guard) list" where
  "incoming d js = map (\<lambda>(o', t, g). (addr_rv o', g)) (filter (\<lambda>j. target_of j = [d]) js)"

lemma push_jump_to_fields [simp]:
  "w_todo (push_jump_to j w) = w_todo w \<union> set (target_of j)"
  "w_mnemonics (push_jump_to j w) = w_mnemonics w" "w_size (push_jump_to j w) = w_size w"
  "hm_get (w_by_source (push_jump_to j w)) a = hm_get (w_by_source w) a @ (if fst j = a then [snd j] else [])"
  "hm_get (w_by_destination (push_jump_to j w)) a = hm_get (w_by_destination w) a @ incoming a [j]"
  "mm_keys (w_by_source (push_jump_to j w)) = insert (fst j) (mm_keys (w_by_source w))"
  "distinct (map fst (w_by_source w)) \<Longrightarrow> distinct (map fst (w_by_source (push_jump_to j w)))"
  by (cases j rule: target_of.cases; simp add: hm_push_get incoming_def)+

lemma fold_push_jump_to [simp]:
  "w_todo (fold push_jump_to js w) = w_todo w \<union> targets js"
  "w_mnemonics (fold push_jump_to js w) = w_mnemonics w" "w_size (fold push_jump_to js w) = w_size w"
  "hm_get (w_by_source (fold push_jump_to js w)) a = hm_get (w_by_source w) a @ map snd (filter (\<lambda>j. fst j = a) js)"
  "hm_get (w_by_destination (fold push_jump_to js w)) a = hm_get (w_by_destination w) a @ incoming a js"
  "mm_keys (w_by_source (fold push_jump_to js w)) = mm_keys (w_by_source w) \<union> fst ` set js"
  "distinct (map fst (w_by_source w)) \<Longrightarrow> distinct (map fst (w_by_source (fold push_jump_to js w)))"
  by (induction js arbitrary: w) (auto simp: targets_def incoming_def)

lemma push_mnemonics_eq:
  assumes "\<forall>m \<in> set ms. b_start (m_area m) \<le> b_end (m_area m)"
  shows "push_mnemonics ms w = Some (w\<lparr>w_size := w_size w + sum_list (map (\<lambda>m. b_end (m_area m) - b_start (m_area m)) ms),
    w_mnemonics := fold (\<lambda>m. bt_push (b_start (m_area m)) (MoeMnemonic m)) ms (w_mnemonics w)\<rparr>)"
  using assms by (induction ms arbitrary: w) (auto simp: mnemonic_size_def bound_len_def)

lemma fold_bt_push [simp]:
  "mm_keys (fold (\<lambda>m. bt_push (b_start (m_area m)) (MoeMnemonic m)) ms mm) = mm_keys mm \<union> (\<lambda>m. b_start (m_area m)) ` set ms"
  "wf_moes mm \<Longrightarrow> wf_moes (fold (\<lambda>m. bt_push (b_start (m_area m)) (MoeMnemonic m)) ms mm)"
  "sorted_keys mm \<Longrightarrow> hm_get (fold (\<lambda>m. bt_push (b_start (m_area m)) (MoeMnemonic m)) ms mm) a =
     hm_get mm a @ map MoeMnemonic (filter (\<lambda>m. b_start (m_area m) = a) ms)"
  by (induction ms arbitrary: mm) (auto simp: wf_moes_push bt_push_get)

section \<open>The loop\<close>

text \<open>Every address is decoded at most once: the addresses without entry, then those to visit.\<close>

definition work_less :: "(work \<times> work) set" where
  "work_less = (\<lambda>w. card ({..<2 ^ 64} - mm_keys (w_mnemonics w))) <*mlex*> measure (\<lambda>w. card (w_todo w))"

lemma wf_work_less: "wf work_less"
  by (simp add: work_less_def wf_mlex)

text \<open>What \<^verbatim>\<open>iter().next()\<close> promises of a non-empty set.\<close>

definition picks :: "(nat set \<Rightarrow> nat) \<Rightarrow> bool" where
  "picks pick \<longleftrightarrow> (\<forall>S. finite S \<longrightarrow> S \<noteq> {} \<longrightarrow> pick S \<in> S)"

lemma work_loop_rule:
  assumes "picks pick" "I w" "\<And>w. I w \<Longrightarrow> finite (w_todo w)"
    and "\<And>w a. I w \<Longrightarrow> a \<in> w_todo w \<Longrightarrow> \<exists>w'. visit decode a w = Some w' \<and> I w' \<and> (w', w) \<in> work_less"
  shows "\<exists>w'. work_loop pick decode w = Some w' \<and> I w' \<and> w_todo w' = {}"
  using assms(2)
proof (induction w rule: wf_induct_rule [OF wf_work_less])
  case (1 w)
  show ?case
  proof (cases "w_todo w = {}")
    case True
    then show ?thesis using 1 by (subst work_loop.simps) auto
  next
    case False
    then have "pick (w_todo w) \<in> w_todo w" using assms(1,3) 1 by (simp add: picks_def)
    then obtain w' where "visit decode (pick (w_todo w)) w = Some w'" "I w'" "(w', w) \<in> work_less" using assms(4) 1 by blast
    with 1 False show ?thesis by (subst work_loop.simps) auto
  qed
qed

definition base_inv :: "work \<Rightarrow> bool" where
  "base_inv w \<longleftrightarrow> wf_moes (w_mnemonics w) \<and> w_todo w \<subseteq> {..<2 ^ 64} \<and>
     (\<forall>a. \<forall>v \<in> set (hm_get (w_mnemonics w) a). case v of MoeMnemonic m \<Rightarrow> b_start (m_area m) \<le> b_end (m_area m) | _ \<Rightarrow> True)"

lemma base_inv_finite: "base_inv w \<Longrightarrow> finite (w_todo w)"
  unfolding base_inv_def using finite_subset by blast

lemma work_less_known:
  "a \<in> w_todo w \<Longrightarrow> finite (w_todo w) \<Longrightarrow> w_mnemonics w' = w_mnemonics w \<Longrightarrow> w_todo w' = w_todo w - {a} \<Longrightarrow> (w', w) \<in> work_less"
  by (simp add: work_less_def mlex_prod_def card_Diff1_less del: card_Diff_insert)

lemma work_less_new:
  assumes "a < 2 ^ 64" "a \<notin> mm_keys (w_mnemonics w)" "insert a (mm_keys (w_mnemonics w)) \<subseteq> mm_keys (w_mnemonics w')"
  shows "(w', w) \<in> work_less"
proof -
  have "card ({..<2 ^ 64} - mm_keys (w_mnemonics w')) < card ({..<2 ^ 64} - mm_keys (w_mnemonics w))"
    by (rule psubset_card_mono) (use assms in auto)
  then show ?thesis by (simp add: work_less_def mlex_prod_def)
qed

section \<open>Architectures\<close>

fun found :: "('t, 'c) dis_match option option \<Rightarrow> mnemonic list" where
  "found (Some (Some m)) = dm_mnemonics m"
| "found _ = []"

fun jumps_of :: "('t, 'c) dis_match option option \<Rightarrow> (nat \<times> rvalue \<times> guard) list" where
  "jumps_of (Some (Some m)) = dm_jumps m"
| "jumps_of _ = []"

definition bytes_of :: "mnemonic list \<Rightarrow> nat" where
  "bytes_of ms = sum_list (map (\<lambda>m. b_end (m_area m) - b_start (m_area m)) ms)"

definition entries :: "nat \<Rightarrow> mnemonic list \<Rightarrow> mne_or_error list" where
  "entries a ms = (if ms = [] then [MoeError a ''Unrecognized instruction''] else map MoeMnemonic ms)"

lemma decode_at_eq:
  assumes "decode a \<noteq> None" "\<forall>m \<in> set (found (decode a)). b_start (m_area m) \<le> b_end (m_area m)"
  shows "decode_at decode a w = Some (fold push_jump_to (jumps_of (decode a))
    (if found (decode a) = [] then add_error a ''Unrecognized instruction'' w
     else w\<lparr>w_size := w_size w + bytes_of (found (decode a)),
            w_mnemonics := fold (\<lambda>m. bt_push (b_start (m_area m)) (MoeMnemonic m)) (found (decode a)) (w_mnemonics w)\<rparr>))"
  using assms by (cases "decode a" rule: found.cases) (simp_all add: decode_at_def push_mnemonics_eq bytes_of_def)

text \<open>
  The laws of a decoder: it does not panic, the mnemonics of a match are intervals and the
  first of them starts at the decoded address.
\<close>

locale architecture =
  fixes decode :: "nat \<Rightarrow> ('t, 'c) dis_match option option"
  assumes decode_total: "decode a \<noteq> None"
    and decode_areas: "m \<in> set (found (decode a)) \<Longrightarrow> b_start (m_area m) \<le> b_end (m_area m)"
    and decode_first: "found (decode a) \<noteq> [] \<Longrightarrow> b_start (m_area (hd (found (decode a)))) = a"
begin

lemma visit_new:
  assumes "wf_moes (w_mnemonics w)" "a \<notin> mm_keys (w_mnemonics w)"
  shows "\<exists>w'. visit decode a w = Some w' \<and> wf_moes (w_mnemonics w') \<and>
    insert a (mm_keys (w_mnemonics w)) \<subseteq> mm_keys (w_mnemonics w') \<and>
    w_todo w' = w_todo w - {a} \<union> targets (jumps_of (decode a)) \<and>
    w_size w' = w_size w + bytes_of (found (decode a)) \<and>
    (\<forall>x. hm_get (w_mnemonics w') x = hm_get (w_mnemonics w) x @ filter (\<lambda>v. moe_start v = x) (entries a (found (decode a)))) \<and>
    (\<forall>x. hm_get (w_by_source w') x = hm_get (w_by_source w) x @ map snd (filter (\<lambda>j. fst j = x) (jumps_of (decode a)))) \<and>
    (\<forall>x. hm_get (w_by_destination w') x = hm_get (w_by_destination w) x @ incoming x (jumps_of (decode a))) \<and>
    mm_keys (w_by_source w') = mm_keys (w_by_source w) \<union> fst ` set (jumps_of (decode a)) \<and>
    (distinct (map fst (w_by_source w)) \<longrightarrow> distinct (map fst (w_by_source w')))"
proof -
  have "\<forall>m \<in> set (found (decode a)). b_start (m_area m) \<le> b_end (m_area m)" using decode_areas by blast
  note eq = decode_at_eq [of decode a, OF decode_total this]
  have first: "found (decode a) \<noteq> [] \<Longrightarrow> a \<in> (\<lambda>m. b_start (m_area m)) ` set (found (decode a))"
    using decode_first hd_in_set by force
  show ?thesis
    unfolding visit_cases [OF assms(1)] eq using assms first
    by (cases "found (decode a) = []")
       (auto simp: add_error_def entries_def bytes_of_def wf_moes_push bt_push_get filter_map comp_def)
qed

lemma visit_known:
  assumes "base_inv w" "a \<in> mm_keys (w_mnemonics w)"
  shows "\<exists>n. visit decode a w = Some (w\<lparr>w_todo := w_todo w - {a}, w_size := w_size w + n\<rparr>)"
proof -
  have "hm_get (w_mnemonics w) a \<noteq> []" using assms by (simp add: base_inv_def wf_moes_def)
  then obtain v vs where v: "hm_get (w_mnemonics w) a = v # vs" by (cases "hm_get (w_mnemonics w) a") auto
  then have "v \<in> set (hm_get (w_mnemonics w) a)" by simp
  then have "case v of MoeMnemonic m \<Rightarrow> b_start (m_area m) \<le> b_end (m_area m) | _ \<Rightarrow> True" using assms(1) unfolding base_inv_def by blast
  then obtain n where "(case v of MoeMnemonic m \<Rightarrow> mnemonic_size m | _ \<Rightarrow> Some 0) = Some n"
    by (auto simp: mnemonic_size_def bound_len_def split: mne_or_error.splits)
  then have "visit decode a w = Some (w\<lparr>w_todo := w_todo w - {a}, w_size := w_size w + n\<rparr>)"
    using assms v by (cases v) (auto simp: visit_cases base_inv_def)
  then show ?thesis by blast
qed

lemma visit_step:
  assumes "base_inv w" "a \<in> w_todo w"
  shows "\<exists>w'. visit decode a w = Some w' \<and> base_inv w' \<and> (w', w) \<in> work_less \<and>
    insert a (mm_keys (w_mnemonics w)) \<subseteq> mm_keys (w_mnemonics w') \<and> w_todo w - {a} \<subseteq> w_todo w'"
proof (cases "a \<in> mm_keys (w_mnemonics w)")
  case True
  then obtain n where n: "visit decode a w = Some (w\<lparr>w_todo := w_todo w - {a}, w_size := w_size w + n\<rparr>)" (is "_ = Some ?w'")
    using visit_known assms by blast
  have "(?w', w) \<in> work_less" by (rule work_less_known) (use assms base_inv_finite in simp_all)
  moreover have "base_inv ?w'" using assms(1) by (auto simp: base_inv_def)
  ultimately show ?thesis using n True by auto
next
  case False
  have wf: "wf_moes (w_mnemonics w)" and a: "a < 2 ^ 64" using assms by (auto simp: base_inv_def)
  obtain w' where w': "visit decode a w = Some w'" "wf_moes (w_mnemonics w')"
    "insert a (mm_keys (w_mnemonics w)) \<subseteq> mm_keys (w_mnemonics w')"
    "w_todo w' = w_todo w - {a} \<union> targets (jumps_of (decode a))"
    "\<forall>x. hm_get (w_mnemonics w') x = hm_get (w_mnemonics w) x @ filter (\<lambda>v. moe_start v = x) (entries a (found (decode a)))"
    using visit_new [OF wf False] by blast
  have "base_inv w'"
    using assms(1) w' targets_bound decode_areas
    by (auto simp: base_inv_def entries_def split: mne_or_error.splits)
  with w' work_less_new [OF a False w'(3)] show ?thesis by blast
qed

lemma work_loop_ends:
  assumes "picks pick" "base_inv w"
  shows "\<exists>w'. work_loop pick decode w = Some w' \<and> base_inv w' \<and> w_todo w' = {} \<and>
    w_todo w \<union> mm_keys (w_mnemonics w) \<subseteq> mm_keys (w_mnemonics w')"
proof -
  let ?I = "\<lambda>w'. base_inv w' \<and> w_todo w \<union> mm_keys (w_mnemonics w) \<subseteq> w_todo w' \<union> mm_keys (w_mnemonics w')"
  have "\<exists>w'. work_loop pick decode w = Some w' \<and> ?I w' \<and> w_todo w' = {}"
  proof (rule work_loop_rule [OF assms(1), where I = ?I])
    fix v a assume v: "?I v" "a \<in> w_todo v"
    then obtain v' where "visit decode a v = Some v'" "base_inv v'" "(v', v) \<in> work_less"
      "insert a (mm_keys (w_mnemonics v)) \<subseteq> mm_keys (w_mnemonics v')" "w_todo v - {a} \<subseteq> w_todo v'" using visit_step by blast
    with v show "\<exists>w'. visit decode a v = Some w' \<and> ?I w' \<and> (w', v) \<in> work_less" by blast
  qed (use assms base_inv_finite in auto)
  then show ?thesis by auto
qed

end

section \<open>Reachable addresses\<close>

inductive_set reached :: "(nat \<Rightarrow> ('t, 'c) dis_match option option) \<Rightarrow> nat \<Rightarrow> nat set"
  for decode :: "nat \<Rightarrow> ('t, 'c) dis_match option option" and start :: nat
  where
    start: "start \<in> reached decode start"
  | jump: "a \<in> reached decode start \<Longrightarrow> b \<in> targets (jumps_of (decode a)) \<Longrightarrow> b \<in> reached decode start"

lemma reached_bound: "start < 2 ^ 64 \<Longrightarrow> reached decode start \<subseteq> {..<2 ^ 64}"
proof
  fix a assume "start < 2 ^ 64" "a \<in> reached decode start"
  from this(2,1) show "a \<in> {..<2 ^ 64}" by induction (use targets_bound in auto)
qed

lemma reached_least: "start \<in> S \<Longrightarrow> \<forall>a \<in> S. targets (jumps_of (decode a)) \<subseteq> S \<Longrightarrow> reached decode start \<subseteq> S"
proof
  fix a assume S: "start \<in> S" "\<forall>a \<in> S. targets (jumps_of (decode a)) \<subseteq> S" and "a \<in> reached decode start"
  from this(3) show "a \<in> S" by induction (use S in auto)
qed

text \<open>Jumps into an address, from the addresses in a set.\<close>

definition arrivals :: "(nat \<Rightarrow> ('t, 'c) dis_match option option) \<Rightarrow> nat \<Rightarrow> nat set \<Rightarrow> nat \<Rightarrow> (rvalue \<times> guard) set" where
  "arrivals decode start S d =
     (if d = start then {(RvUndefined, always)} else {}) \<union> (\<Union>a \<in> S. set (incoming d (jumps_of (decode a))))"

definition explored :: "(nat \<Rightarrow> ('t, 'c) dis_match option option) \<Rightarrow> nat \<Rightarrow> work \<Rightarrow> bool" where
  "explored decode start w \<longleftrightarrow>
     (let K = mm_keys (w_mnemonics w) in
      base_inv w \<and> w_todo w \<subseteq> reached decode start \<and> K \<subseteq> reached decode start \<and> start \<in> K \<union> w_todo w \<and>
      (\<forall>a \<in> K. targets (jumps_of (decode a)) \<subseteq> K \<union> w_todo w \<and> hm_get (w_mnemonics w) a = entries a (found (decode a))) \<and>
      (\<forall>a. hm_get (w_by_source w) a = (if a \<in> K then map snd (jumps_of (decode a)) else [])) \<and>
      (\<forall>d. set (hm_get (w_by_destination w) d) = arrivals decode start K d) \<and>
      (\<Sum>a \<in> K. bytes_of (found (decode a))) \<le> w_size w \<and>
      mm_keys (w_by_source w) \<subseteq> K \<and> distinct (map fst (w_by_source w)))"

definition initial_work :: "nat \<Rightarrow> work" where
  "initial_work start = \<lparr>w_todo = {start}, w_mnemonics = [], w_by_source = [],
     w_by_destination = [(start, [(RvUndefined, always)])], w_size = 0\<rparr>"

lemma explored_initial: "start < 2 ^ 64 \<Longrightarrow> explored decode start (initial_work start)"
  by (auto simp: explored_def initial_work_def base_inv_def arrivals_def reached.start)

text \<open>All mnemonics of a match start at the decoded address, and so do its jumps.\<close>

locale simple_architecture = architecture decode
  for decode :: "nat \<Rightarrow> ('t, 'c) dis_match option option" +
  assumes decode_single: "m \<in> set (found (decode a)) \<Longrightarrow> b_start (m_area m) = a"
    and decode_origin: "j \<in> set (jumps_of (decode a)) \<Longrightarrow> fst j = a"
begin

lemma explored_new:
  assumes w: "explored decode start w" and a: "a \<in> w_todo w" "a \<notin> mm_keys (w_mnemonics w)"
  shows "\<exists>w'. visit decode a w = Some w' \<and> explored decode start w' \<and> (w', w) \<in> work_less"
proof -
  let ?K = "mm_keys (w_mnemonics w)" and ?js = "jumps_of (decode a)" and ?e = "entries a (found (decode a))"
  have wf: "wf_moes (w_mnemonics w)" and base: "base_inv w" and ra: "a \<in> reached decode start"
    using w a by (auto simp: explored_def base_inv_def Let_def)
  obtain w' where w': "visit decode a w = Some w'" "wf_moes (w_mnemonics w')"
    "insert a ?K \<subseteq> mm_keys (w_mnemonics w')" "w_todo w' = w_todo w - {a} \<union> targets ?js"
    "w_size w' = w_size w + bytes_of (found (decode a))"
    "\<And>x. hm_get (w_mnemonics w') x = hm_get (w_mnemonics w) x @ filter (\<lambda>v. moe_start v = x) ?e"
    "\<And>x. hm_get (w_by_source w') x = hm_get (w_by_source w) x @ map snd (filter (\<lambda>j. fst j = x) ?js)"
    "\<And>x. hm_get (w_by_destination w') x = hm_get (w_by_destination w) x @ incoming x ?js"
    "mm_keys (w_by_source w') = mm_keys (w_by_source w) \<union> fst ` set ?js"
    "distinct (map fst (w_by_source w)) \<longrightarrow> distinct (map fst (w_by_source w'))"
    using visit_new [OF wf a(2)] by blast
  have step: "base_inv w' \<and> (w', w) \<in> work_less" using visit_step [OF base a(1)] w'(1) by auto
  have e: "filter (\<lambda>v. moe_start v = x) ?e = (if x = a then ?e else [])" for x
    using decode_single by (auto simp: entries_def filter_map comp_def intro!: filter_True filter_False)
  have js: "filter (\<lambda>j. fst j = x) ?js = (if x = a then ?js else [])" for x
    using decode_origin by (auto intro!: filter_True filter_False)
  have keys: "mm_keys (w_mnemonics w') = insert a ?K"
  proof
    show "mm_keys (w_mnemonics w') \<subseteq> insert a ?K"
    proof
      fix x assume "x \<in> mm_keys (w_mnemonics w')"
      then have "hm_get (w_mnemonics w') x \<noteq> []" using w'(2) by (simp add: wf_moes_def)
      then show "x \<in> insert a ?K" using w'(6) e hm_get_absent by (auto split: if_splits)
    qed
  qed (rule w'(3))
  have "explored decode start w'"
    unfolding explored_def Let_def keys
  proof (intro conjI)
    show "\<forall>x \<in> insert a ?K. targets (jumps_of (decode x)) \<subseteq> insert a ?K \<union> w_todo w' \<and>
        hm_get (w_mnemonics w') x = entries x (found (decode x))"
      using w a unfolding w'(4,6) e explored_def Let_def by (auto simp: hm_get_absent)
    show "\<forall>d. set (hm_get (w_by_destination w') d) = arrivals decode start (insert a ?K) d"
      using w unfolding w'(8) explored_def Let_def arrivals_def by auto
    show "(\<Sum>x \<in> insert a ?K. bytes_of (found (decode x))) \<le> w_size w'"
      using w a(2) unfolding w'(5) explored_def Let_def by (simp add: sum.insert)
    show "\<forall>x. hm_get (w_by_source w') x = (if x \<in> insert a ?K then map snd (jumps_of (decode x)) else [])"
      using w a unfolding w'(7) js explored_def Let_def by auto
  qed (use w a step w'(4,9,10) ra reached.jump decode_origin in \<open>auto simp: explored_def Let_def\<close>)
  with w'(1) step show ?thesis by blast
qed

lemma explored_step:
  assumes w: "explored decode start w" and a: "a \<in> w_todo w"
  shows "\<exists>w'. visit decode a w = Some w' \<and> explored decode start w' \<and> (w', w) \<in> work_less"
proof (cases "a \<in> mm_keys (w_mnemonics w)")
  case True
  have base: "base_inv w" using w by (simp add: explored_def Let_def)
  obtain n where n: "visit decode a w = Some (w\<lparr>w_todo := w_todo w - {a}, w_size := w_size w + n\<rparr>)" (is "_ = Some ?w'")
    using visit_known base True by blast
  moreover have "(?w', w) \<in> work_less" by (rule work_less_known) (use a base base_inv_finite in simp_all)
  moreover have "explored decode start ?w'" using w True by (auto simp: explored_def Let_def base_inv_def)
  ultimately show ?thesis by blast
qed (use explored_new [OF w a] in blast)

text \<open>The result, whatever the order in which addresses are taken.\<close>

lemma work_loop_explores:
  assumes "picks pick" "start < 2 ^ 64"
  shows "\<exists>w. work_loop pick decode (initial_work start) = Some w \<and> explored decode start w \<and>
    mm_keys (w_mnemonics w) = reached decode start \<and>
    w_mnemonics w = map (\<lambda>a. (a, entries a (found (decode a)))) (sorted_list_of_set (reached decode start))"
proof -
  have "\<exists>w. work_loop pick decode (initial_work start) = Some w \<and> explored decode start w \<and> w_todo w = {}"
    by (rule work_loop_rule [where I = "explored decode start", OF assms(1) explored_initial [OF assms(2)]])
       (use explored_step in \<open>auto simp: explored_def Let_def dest: base_inv_finite\<close>)
  then obtain w where w: "work_loop pick decode (initial_work start) = Some w" "explored decode start w" "w_todo w = {}" by blast
  then have keys: "mm_keys (w_mnemonics w) = reached decode start"
    using reached_least [of start "mm_keys (w_mnemonics w)" decode] by (auto simp: explored_def Let_def)
  have "sorted_keys (w_mnemonics w)" "\<forall>k \<in> mm_keys (w_mnemonics w). hm_get (w_mnemonics w) k = entries k (found (decode k))"
    using w(2) by (auto simp: explored_def Let_def base_inv_def)
  from sorted_keys_eq [OF this] show ?thesis using w keys by auto
qed

end

section \<open>Vertices and labels\<close>

lemma alist_update_fresh: "k \<notin> fst ` set xs \<Longrightarrow> AList.update k v xs = xs @ [(k, v)]"
  by (induction xs) auto

lemma add_vertex_labels:
  assumes "wf_al g"
  shows "wf_al (fst (al_add_vertex g lb))" "al_vertex_labels (fst (al_add_vertex g lb)) = al_vertex_labels g @ [lb]"
    "ag_edges (abs_al (fst (al_add_vertex g lb))) = ag_edges (abs_al g)"
    "ag_verts (abs_al (fst (al_add_vertex g lb))) = (ag_verts (abs_al g))(snd (al_add_vertex g lb) \<mapsto> lb)"
    "ag_verts (abs_al g) (snd (al_add_vertex g lb)) = None"
proof -
  obtain g' n where g': "al_add_vertex g lb = (g', n)" by force
  note spec = abs_add_vertex [OF assms g']
  then show "wf_al (fst (al_add_vertex g lb))" "ag_edges (abs_al (fst (al_add_vertex g lb))) = ag_edges (abs_al g)"
    "ag_verts (abs_al (fst (al_add_vertex g lb))) = (ag_verts (abs_al g))(snd (al_add_vertex g lb) \<mapsto> lb)"
    "ag_verts (abs_al g) (snd (al_add_vertex g lb)) = None"
    by (simp_all add: g')
  have "n = next_vertex g" "vertex_labels g' = AList.update n lb (vertex_labels g)"
    using g' by (auto simp: al_add_vertex_def Let_def)
  moreover have "n \<notin> fst ` set (vertex_labels g)" using spec by (auto simp: abs_al_def map_of_eq_None_iff)
  ultimately show "al_vertex_labels (fst (al_add_vertex g lb)) = al_vertex_labels g @ [lb]"
    by (simp add: g' al_vertex_labels_def alist_update_fresh)
qed

lemma add_edge_labels:
  assumes "wf_al g" "ag_verts (abs_al g) a \<noteq> None" "ag_verts (abs_al g) b \<noteq> None"
  shows "wf_al (fst (al_add_edge g lb a b))" "al_vertex_labels (fst (al_add_edge g lb a b)) = al_vertex_labels g"
    "ag_verts (abs_al (fst (al_add_edge g lb a b))) = ag_verts (abs_al g)"
    "ran (ag_edges (abs_al (fst (al_add_edge g lb a b)))) = insert (lb, a, b) (ran (ag_edges (abs_al g)))"
proof -
  obtain g' r where g': "al_add_edge g lb a b = (g', r)" by force
  obtain e where e: "wf_al g'" "ag_edges (abs_al g) e = None"
    "abs_al g' = (abs_al g)\<lparr>ag_edges := (ag_edges (abs_al g))(e \<mapsto> (lb, a, b))\<rparr>"
    using abs_add_edge [OF assms(1) g'] assms(2,3) by auto
  show "wf_al (fst (al_add_edge g lb a b))" "ag_verts (abs_al (fst (al_add_edge g lb a b))) = ag_verts (abs_al g)"
    using e by (simp_all add: g')
  show "ran (ag_edges (abs_al (fst (al_add_edge g lb a b)))) = insert (lb, a, b) (ran (ag_edges (abs_al g)))"
    using e(2,3) by (simp add: g')
  have "vertex_labels g' = vertex_labels g"
    using g' by (auto simp: al_add_edge_def Let_def split: if_splits option.splits)
  then show "al_vertex_labels (fst (al_add_edge g lb a b)) = al_vertex_labels g" by (simp add: g' al_vertex_labels_def)
qed

lemma vertex_label_abs: "al_vertex_label g v = ag_verts (abs_al g) v"
  by (simp add: al_vertex_label_def abs_al_def)

lemma labels_ran: "wf_al g \<Longrightarrow> set (al_vertex_labels g) = ran (ag_verts (abs_al g))"
  by (simp add: wf_al_def al_vertex_labels_def abs_al_def ran_distinct)

text \<open>What the iterators of hash tables promise: every entry is visited, whatever the order.\<close>

definition permutes :: "hash_order \<Rightarrow> bool" where
  "permutes order \<longleftrightarrow> (\<forall>m. set (ho_jumps order m) = set m) \<and> (\<forall>vs. set (ho_vertices order vs) = set vs)"

definition insertion_order :: hash_order where
  "insertion_order = \<lparr>ho_jumps = id, ho_vertices = id\<rparr>"

lemma permutes_insertion_order [simp]: "permutes insertion_order"
  by (simp add: permutes_def insertion_order_def)

lemma find_vertex_Some:
  assumes "find_vertex order P g = Some v"
  shows "\<exists>lb. ag_verts (abs_al g) v = Some lb \<and> P lb"
  using assms unfolding find_vertex_def find_Some_iff by (auto simp: vertex_label_abs split: option.splits)

lemma find_vertex_None:
  assumes "wf_al g" "permutes order"
  shows "find_vertex order P g = None \<longleftrightarrow> (\<forall>lb \<in> set (al_vertex_labels g). \<not> P lb)"
proof -
  have "set (ho_vertices order (al_vertices g)) = set (al_vertices g)" using assms(2) by (simp add: permutes_def)
  then have "find_vertex order P g = None \<longleftrightarrow> (\<forall>v lb. ag_verts (abs_al g) v = Some lb \<longrightarrow> \<not> P lb)"
    unfolding find_vertex_def find_None_iff vertex_label_abs
    by (auto simp: al_vertices_def abs_al_def split: option.splits dest: map_of_SomeD)
       (metis fst_conv image_eqI map_of_SomeD)
  then show ?thesis unfolding labels_ran [OF assms(1)] ran_def by blast
qed

section \<open>Connecting blocks\<close>

text \<open>Edges by the labels of their ends.\<close>

definition label_edges :: "cf_graph \<Rightarrow> (guard \<times> cf_target \<times> cf_target) set" where
  "label_edges g = {(gu, s, t). \<exists>a b. (gu, a, b) \<in> ran (ag_edges (abs_al g)) \<and>
     ag_verts (abs_al g) a = Some s \<and> ag_verts (abs_al g) b = Some t}"

definition unresolved :: "cf_target \<Rightarrow> bool" where
  "unresolved lb \<longleftrightarrow> (\<exists>r. lb = Unresolved r)"

lemma edge_ends: "wf_al g \<Longrightarrow> (l, a, b) \<in> ran (ag_edges (abs_al g)) \<Longrightarrow> ag_verts (abs_al g) a \<noteq> None \<and> ag_verts (abs_al g) b \<noteq> None"
proof -
  assume g: "wf_al g" and "(l, a, b) \<in> ran (ag_edges (abs_al g))"
  then obtain e where "ag_edges (abs_al g) e = Some (l, a, b)" by (auto simp: ran_def)
  moreover have "wf_core g" using g by (simp add: wf_al_def)
  ultimately have "map_of (edges g) e = Some (a, b)" by (simp add: ag_edges_abs(1))
  from wf_core_edge_ends [OF g this] show ?thesis by (simp add: al_vertices_iff abs_al_def)
qed

lemma label_edges_add_vertex [simp]:
  assumes "wf_al g"
  shows "label_edges (fst (al_add_vertex g lb)) = label_edges g"
proof -
  let ?n = "snd (al_add_vertex g lb)"
  have "a \<noteq> ?n \<and> b \<noteq> ?n" if "(l, a, b) \<in> ran (ag_edges (abs_al g))" for l a b
    using edge_ends [OF assms that] add_vertex_labels(5) [OF assms, of lb] by auto
  then have "(l, a, b) \<in> ran (ag_edges (abs_al g)) \<and> ((ag_verts (abs_al g))(?n \<mapsto> lb)) a = Some s \<and> ((ag_verts (abs_al g))(?n \<mapsto> lb)) b = Some t \<longleftrightarrow>
      (l, a, b) \<in> ran (ag_edges (abs_al g)) \<and> ag_verts (abs_al g) a = Some s \<and> ag_verts (abs_al g) b = Some t" for l a b s t
    by auto
  then show ?thesis unfolding label_edges_def add_vertex_labels(3,4) [OF assms] by (simp only:)
qed

lemma label_edges_add_edge:
  assumes "wf_al g" "ag_verts (abs_al g) a = Some s" "ag_verts (abs_al g) b = Some t"
  shows "label_edges (fst (al_add_edge g lb a b)) = insert (lb, s, t) (label_edges g)"
  using assms add_edge_labels(3,4) [OF assms(1), of a b lb] unfolding label_edges_def by auto

text \<open>A constant jump target at which no vertex starts.\<close>

definition no_target :: "cf_graph \<Rightarrow> rvalue \<Rightarrow> bool" where
  "no_target g tgt \<longleftrightarrow> (\<exists>v s. tgt = RvConstant v s) \<and> (\<forall>lb \<in> set (al_vertex_labels g). \<not> jump_target tgt lb)"

lemma no_target_mono: "no_target g' tgt \<Longrightarrow> set (al_vertex_labels g) \<subseteq> set (al_vertex_labels g') \<Longrightarrow> no_target g tgt"
  by (auto simp: no_target_def)

definition extends :: "nat \<Rightarrow> rvalue \<times> guard \<Rightarrow> cf_graph \<Rightarrow> cf_graph \<Rightarrow> bool" where
  "extends src tg g g' \<longleftrightarrow> wf_al g' \<and> (\<exists>us. al_vertex_labels g' = al_vertex_labels g @ us \<and> list_all unresolved us) \<and>
     label_edges g \<subseteq> label_edges g' \<and>
     (\<forall>(gu, s, t) \<in> label_edges g' - label_edges g. gu = snd tg \<and> jump_source src s \<and> jump_target (fst tg) t) \<and>
     ((\<exists>lb \<in> set (al_vertex_labels g). jump_source src lb) \<longrightarrow>
        (\<exists>s t. (snd tg, s, t) \<in> label_edges g' \<and> jump_source src s \<and> jump_target (fst tg) t) \<or> no_target g (fst tg))"

lemma jump_target_unresolved [simp]: "jump_target tgt (Unresolved tgt)"
  by (cases tgt) simp_all

lemma jump_source_unresolved [simp]: "src < 2 ^ 64 \<Longrightarrow> jump_source src (Unresolved (addr_rv src))"
  by (simp add: addr_rv_def new_u64_def unsigned_of_nat take_bit_nat_eq_self)

lemma extends_edge:
  assumes "wf_al g" "ag_verts (abs_al g) f = Some s" "ag_verts (abs_al g) t = Some u" "jump_source src s" "jump_target tgt u"
  shows "extends src (tgt, gu) g (fst (al_add_edge g gu f t))"
  using assms add_edge_labels(1,2) [OF assms(1), of f t gu] label_edges_add_edge [OF assms(1-3), of gu]
  unfolding extends_def by (auto simp: list_all_iff)

lemma extends_vertex_edge:
  assumes "wf_al g" "al_add_vertex g lb = (g', n)" "unresolved lb"
    and "f = n \<and> ag_verts (abs_al g) t = Some u \<and> jump_source src lb \<and> jump_target tgt u \<and> g'' = fst (al_add_edge g' gu n t) \<or>
      t = n \<and> ag_verts (abs_al g) f = Some s \<and> jump_source src s \<and> jump_target tgt lb \<and> g'' = fst (al_add_edge g' gu f n)"
  shows "extends src (tgt, gu) g g''"
proof -
  note v = add_vertex_labels [OF assms(1), of lb, unfolded assms(2) fst_conv snd_conv]
  have le: "label_edges g' = label_edges g" using label_edges_add_vertex [OF assms(1), of lb] by (simp add: assms(2))
  have old: "ag_verts (abs_al g') x = ag_verts (abs_al g) x" if "ag_verts (abs_al g) x \<noteq> None" for x using v(4,5) that by auto
  have "\<exists>f' s' t' u'. ag_verts (abs_al g') f' = Some s' \<and> ag_verts (abs_al g') t' = Some u' \<and> jump_source src s' \<and>
      jump_target tgt u' \<and> g'' = fst (al_add_edge g' gu f' t')"
    using assms(4) v(4) old by (metis fun_upd_same option.distinct(1))
  then obtain f' s' t' u' where e: "ag_verts (abs_al g') f' = Some s'" "ag_verts (abs_al g') t' = Some u'"
    "jump_source src s'" "jump_target tgt u'" "g'' = fst (al_add_edge g' gu f' t')" by blast
  have "wf_al g''" "al_vertex_labels g'' = al_vertex_labels g @ [lb]" "label_edges g'' = insert (gu, s', u') (label_edges g)"
    using e add_edge_labels(1,2) [OF v(1), of f' t' gu] label_edges_add_edge [OF v(1) e(1,2), of gu] v(2) le by auto
  then show ?thesis using e assms(3) unfolding extends_def by auto
qed

lemma extends_refl:
  assumes "wf_al g" "(\<exists>lb \<in> set (al_vertex_labels g). jump_source src lb) \<longrightarrow> no_target g (fst tg)"
  shows "extends src tg g g"
  using assms by (auto simp: extends_def intro: exI [of _ "[]"])

lemma connect_jump_extends:
  assumes g: "wf_al g" and src: "src < 2 ^ 64" and order: "permutes order"
  shows "extends src tg g (connect_jump order src tg g)"
proof -
  obtain tgt gu where tg: "tg = (tgt, gu)" by force
  consider f t where "find_vertex order (jump_source src) g = Some f" "find_vertex order (jump_target tgt) g = Some t"
    | t where "find_vertex order (jump_source src) g = None" "find_vertex order (jump_target tgt) g = Some t"
    | f where "find_vertex order (jump_source src) g = Some f" "find_vertex order (jump_target tgt) g = None"
    | "find_vertex order (jump_source src) g = None" "find_vertex order (jump_target tgt) g = None"
    by (metis not_Some_eq)
  then show ?thesis
  proof cases
    case (1 f t)
    obtain s u where "ag_verts (abs_al g) f = Some s" "jump_source src s" "ag_verts (abs_al g) t = Some u" "jump_target tgt u"
      using find_vertex_Some [OF 1(1)] find_vertex_Some [OF 1(2)] by blast
    then show ?thesis using 1 extends_edge [OF g, of f s t u src tgt gu] by (simp add: connect_jump_def tg)
  next
    case (2 t)
    have no: "\<not> (\<exists>lb \<in> set (al_vertex_labels g). jump_source src lb)" using 2(1) find_vertex_None [OF g order] by blast
    obtain u where u: "ag_verts (abs_al g) t = Some u" "jump_target tgt u" using 2(2) find_vertex_Some by blast
    obtain g' n where g': "al_add_vertex g (Unresolved (addr_rv src)) = (g', n)" by force
    have "extends src (tgt, gu) g (fst (al_add_edge g' gu n t))"
      by (rule extends_vertex_edge [OF g g' _ disjI1]) (use u src in \<open>auto simp: unresolved_def\<close>)
    then show ?thesis using 2 g' extends_refl [OF g] no by (simp add: connect_jump_def tg)
  next
    case (3 f)
    obtain s where s: "ag_verts (abs_al g) f = Some s" "jump_source src s" using 3(1) find_vertex_Some by blast
    obtain g' n where g': "al_add_vertex g (Unresolved tgt) = (g', n)" by force
    have "extends src (tgt, gu) g (fst (al_add_edge g' gu f n))"
      by (rule extends_vertex_edge [OF g g' _ disjI2]) (use s in \<open>auto simp: unresolved_def\<close>)
    moreover have "no_target g tgt" if "tgt = RvConstant v sz" for v sz
      using that 3(2) find_vertex_None [OF g order] by (simp add: no_target_def)
    ultimately show ?thesis using 3 g' extends_refl [OF g, of src tg] by (auto simp: connect_jump_def tg split: rvalue.splits)
  next
    case 4
    then have "\<not> (\<exists>lb \<in> set (al_vertex_labels g). jump_source src lb)" using find_vertex_None [OF g order] by blast
    then show ?thesis using 4 extends_refl [OF g, of src tg] by (simp add: connect_jump_def tg)
  qed
qed

definition flat_jumps :: "jumps \<Rightarrow> (nat \<times> rvalue \<times> guard) list" where
  "flat_jumps m = concat (map (\<lambda>(src, tgts). map (Pair src) tgts) m)"

lemma connect_blocks_flat:
  "connect_blocks order m g = fold (\<lambda>(src, tg). connect_jump order src tg) (flat_jumps (ho_jumps order m)) g"
proof -
  have "fold (\<lambda>(src, tgts). fold (connect_jump order src) tgts) js g = fold (\<lambda>(src, tg). connect_jump order src tg) (flat_jumps js) g" for js
    unfolding flat_jumps_def by (induction js arbitrary: g) (auto simp: fold_map comp_def)
  then show ?thesis by (simp add: connect_blocks_def)
qed

lemma connect_fold:
  assumes "wf_al g" "\<forall>j \<in> set js. fst j < 2 ^ 64" "permutes order"
  shows "let g' = fold (\<lambda>(src, tg). connect_jump order src tg) js g in
    wf_al g' \<and> (\<exists>us. al_vertex_labels g' = al_vertex_labels g @ us \<and> list_all unresolved us) \<and>
    label_edges g \<subseteq> label_edges g' \<and>
    (\<forall>(gu, s, t) \<in> label_edges g' - label_edges g. \<exists>src tgt. (src, tgt, gu) \<in> set js \<and> jump_source src s \<and> jump_target tgt t) \<and>
    (\<forall>(src, tgt, gu) \<in> set js. (\<exists>lb \<in> set (al_vertex_labels g). jump_source src lb) \<longrightarrow>
       (\<exists>s t. (gu, s, t) \<in> label_edges g' \<and> jump_source src s \<and> jump_target tgt t) \<or> no_target g tgt)"
  using assms
proof (induction js arbitrary: g)
  case Nil
  then show ?case by (simp add: Let_def)
next
  case (Cons j js)
  obtain src tgt gu where j: "j = (src, tgt, gu)" using prod_cases3 by blast
  define g1 where "g1 = connect_jump order src (tgt, gu) g"
  define g2 where "g2 = fold (\<lambda>(src, tg). connect_jump order src tg) js g1"
  have ext: "extends src (tgt, gu) g g1" unfolding g1_def by (rule connect_jump_extends) (use Cons.prems j in simp_all)
  then have wf1: "wf_al g1" by (simp add: extends_def)
  obtain us where us: "al_vertex_labels g1 = al_vertex_labels g @ us" "list_all unresolved us" using ext by (auto simp: extends_def)
  have ih: "wf_al g2" "\<exists>us. al_vertex_labels g2 = al_vertex_labels g1 @ us \<and> list_all unresolved us" "label_edges g1 \<subseteq> label_edges g2"
    "\<forall>(gu, s, t) \<in> label_edges g2 - label_edges g1. \<exists>src tgt. (src, tgt, gu) \<in> set js \<and> jump_source src s \<and> jump_target tgt t"
    "\<forall>(src, tgt, gu) \<in> set js. (\<exists>lb \<in> set (al_vertex_labels g1). jump_source src lb) \<longrightarrow>
       (\<exists>s t. (gu, s, t) \<in> label_edges g2 \<and> jump_source src s \<and> jump_target tgt t) \<or> no_target g1 tgt"
    using Cons.IH [OF wf1] Cons.prems(2,3) unfolding Let_def g2_def [symmetric] by simp_all
  have "\<exists>us. al_vertex_labels g2 = al_vertex_labels g @ us \<and> list_all unresolved us" using ih(2) us by auto
  moreover have "label_edges g \<subseteq> label_edges g2" using ih(3) ext by (auto simp: extends_def)
  moreover have "\<exists>src tgt. (src, tgt, gu') \<in> set (j # js) \<and> jump_source src s \<and> jump_target tgt t"
    if "(gu', s, t) \<in> label_edges g2" "(gu', s, t) \<notin> label_edges g" for gu' s t
  proof (cases "(gu', s, t) \<in> label_edges g1")
    case True
    then have "gu' = gu \<and> jump_source src s \<and> jump_target tgt t" using that(2) ext unfolding extends_def by fastforce
    then show ?thesis unfolding j by auto
  next
    case False
    then show ?thesis using that(1) ih(4) by fastforce
  qed
  moreover have "(\<exists>s t. (gu', s, t) \<in> label_edges g2 \<and> jump_source src' s \<and> jump_target tgt' t) \<or> no_target g tgt'"
    if "(src', tgt', gu') \<in> set (j # js)" "lb \<in> set (al_vertex_labels g)" "jump_source src' lb" for src' tgt' gu' lb
  proof (cases "(src', tgt', gu') = j")
    case True
    then show ?thesis using that ext ih(3) unfolding extends_def j by auto
  next
    case False
    then have "(\<exists>s t. (gu', s, t) \<in> label_edges g2 \<and> jump_source src' s \<and> jump_target tgt' t) \<or> no_target g1 tgt'"
      using ih(5) that us(1) by fastforce
    then show ?thesis using no_target_mono [of g1 tgt' g] us(1) by auto
  qed
  ultimately show ?case using ih(1) unfolding Let_def by (simp add: j g1_def [symmetric] g2_def [symmetric]) blast
qed

section \<open>Splitting into blocks\<close>

definition blocks :: "cf_graph \<Rightarrow> basic_block list" where
  "blocks g = concat (map block_of (al_vertex_labels g))"

fun failed_at :: "cf_target \<Rightarrow> nat list" where
  "failed_at (Failed pos _) = [pos]"
| "failed_at _ = []"

definition failures :: "cf_graph \<Rightarrow> nat list" where
  "failures g = concat (map failed_at (al_vertex_labels g))"

lemma blocks_iff: "bb \<in> set (blocks g) \<longleftrightarrow> Resolved bb \<in> set (al_vertex_labels g)"
proof -
  have "bb \<in> set (block_of lb) \<longleftrightarrow> lb = Resolved bb" for lb by (cases lb) auto
  then show ?thesis by (auto simp: blocks_def)
qed

lemma failures_iff: "pos \<in> set (failures g) \<longleftrightarrow> (\<exists>msg. Failed pos msg \<in> set (al_vertex_labels g))"
proof -
  have "pos \<in> set (failed_at lb) \<longleftrightarrow> (\<exists>msg. lb = Failed pos msg)" for lb by (cases lb) auto
  then show ?thesis by (auto simp: failures_def)
qed

lemma blocks_unresolved: "list_all unresolved us \<Longrightarrow> concat (map block_of us) = [] \<and> concat (map failed_at us) = []"
  by (induction us) (auto simp: unresolved_def)

text \<open>
  Neighbours in a block are parts of one instruction, or there is no reason to start a block between them;
  between blocks that follow each other there is such a reason.
\<close>

definition joined :: "jumps \<Rightarrow> jumps \<Rightarrow> nat \<Rightarrow> mnemonic \<Rightarrow> mnemonic \<Rightarrow> bool" where
  "joined bs bd start x y \<longleftrightarrow> b_start (m_area x) = b_start (m_area y) \<or> \<not> starts_block bs bd start x y"

definition divided :: "jumps \<Rightarrow> jumps \<Rightarrow> nat \<Rightarrow> basic_block \<Rightarrow> basic_block \<Rightarrow> bool" where
  "divided bs bd start b c \<longleftrightarrow> b_start (m_area (last (bb_mnemonics b))) \<noteq> b_start (m_area (hd (bb_mnemonics c))) \<and>
     starts_block bs bd start (last (bb_mnemonics b)) (hd (bb_mnemonics c))"

definition good_block :: "jumps \<Rightarrow> jumps \<Rightarrow> nat \<Rightarrow> basic_block \<Rightarrow> bool" where
  "good_block bs bd start b \<longleftrightarrow> b = from_vec (bb_mnemonics b) \<and> bb_mnemonics b \<noteq> [] \<and> successively (joined bs bd start) (bb_mnemonics b)"

definition open_blocks :: "cf_graph \<times> mnemonic list \<Rightarrow> basic_block list" where
  "open_blocks s = blocks (fst s) @ (if snd s = [] then [] else [from_vec (snd s)])"

definition block_inv :: "jumps \<Rightarrow> jumps \<Rightarrow> nat \<Rightarrow> (nat \<Rightarrow> mnemonic list) \<Rightarrow> nat list \<Rightarrow> cf_graph \<times> mnemonic list \<Rightarrow> bool" where
  "block_inv bs bd start ms as s \<longleftrightarrow>
     wf_al (fst s) \<and> label_edges (fst s) = {} \<and> (\<forall>lb \<in> set (al_vertex_labels (fst s)). \<not> unresolved lb) \<and>
     concat (map bb_mnemonics (open_blocks s)) = concat (map ms as) \<and>
     failures (fst s) = filter (\<lambda>a. ms a = []) as \<and>
     (\<forall>b \<in> set (open_blocks s). good_block bs bd start b) \<and> successively (divided bs bd start) (open_blocks s)"

lemma bb_mnemonics_from_vec [simp]: "bb_mnemonics (from_vec xs) = xs"
  by (simp add: from_vec_def)

lemma add_target:
  assumes "wf_al g"
  shows "blocks (fst (al_add_vertex g lb)) = blocks g @ block_of lb" "failures (fst (al_add_vertex g lb)) = failures g @ failed_at lb"
  using add_vertex_labels(2) [OF assms, of lb] by (simp_all add: blocks_def failures_def)

lemma block_inv_initial: "block_inv bs bd start ms [] (al_new, [])"
proof -
  have "al_vertex_labels (al_new :: cf_graph) = []" by (simp add: al_vertex_labels_def al_new_def)
  then show ?thesis by (simp add: block_inv_def open_blocks_def blocks_def failures_def label_edges_def)
qed

lemma fold_push_mnemonics: "fold push_moe (map MoeMnemonic xs) (g, bb) = (g, bb @ xs)"
  by (induction xs arbitrary: bb) auto

lemma successively_all: "\<forall>x \<in> set xs. P x \<Longrightarrow> (\<And>x y. P x \<Longrightarrow> P y \<Longrightarrow> R x y) \<Longrightarrow> successively R xs"
  by (induction xs rule: induct_list012) simp_all

lemma successively_const: "\<forall>x \<in> set xs. b_start (m_area x) = a \<Longrightarrow> successively (joined bs bd start) xs"
  by (rule successively_all [where P = "\<lambda>x. b_start (m_area x) = a"]) (auto simp: joined_def)

lemma close_block_inv:
  assumes "block_inv bs bd start ms as s"
  shows "block_inv bs bd start ms as (close_block bs bd start mnes s) \<and> open_blocks (close_block bs bd start mnes s) = open_blocks s"
proof -
  have wf: "wf_al (fst s)" using assms by (simp add: block_inv_def)
  define s' where "s' = (fst (al_add_vertex (fst s) (Resolved (from_vec (snd s)))), [] :: mnemonic list)"
  have "snd s \<noteq> [] \<Longrightarrow> open_blocks s' = open_blocks s" by (simp add: open_blocks_def s'_def add_target [OF wf])
  moreover have "failures (fst s') = failures (fst s)" "wf_al (fst s')" "label_edges (fst s') = label_edges (fst s)"
    "set (al_vertex_labels (fst s')) = insert (Resolved (from_vec (snd s))) (set (al_vertex_labels (fst s)))"
    using add_target [OF wf] add_vertex_labels [OF wf] wf by (simp_all add: s'_def)
  ultimately have "snd s \<noteq> [] \<Longrightarrow> block_inv bs bd start ms as s' \<and> open_blocks s' = open_blocks s"
    using assms unfolding block_inv_def by (auto simp: unresolved_def)
  then show ?thesis using assms by (auto simp: close_block_def s'_def split: list.splits mne_or_error.splits)
qed

lemma close_block_mnemonic:
  assumes "wf_al (fst s)" "snd s = [] \<Longrightarrow> blocks (fst s) = []"
    and "snd s \<noteq> [] \<Longrightarrow> b_start (m_area (last (snd s))) \<noteq> b_start (m_area x)"
    and "close_block bs bd start (MoeMnemonic x # vs) s = (g, bb)"
  shows "bb = [] \<and> blocks g = [] \<or> bb = [] \<and> blocks g \<noteq> [] \<and> divided bs bd start (last (blocks g)) (from_vec (x # xs)) \<or>
    bb \<noteq> [] \<and> joined bs bd start (last bb) x"
  using assms by (cases "snd s = []") (auto simp: close_block_def divided_def joined_def add_target split: if_splits)

lemma group_inv:
  assumes inv: "block_inv bs bd start ms as s" and ms: "\<forall>x \<in> set (as @ [a]). \<forall>m \<in> set (ms x). b_start (m_area m) = x"
    and new: "a \<notin> set as" and none: "snd s = [] \<Longrightarrow> blocks (fst s) = []"
    and s': "s' = fold push_moe (entries a (ms a)) (close_block bs bd start (entries a (ms a)) s)"
  shows "block_inv bs bd start ms (as @ [a]) s' \<and> (snd s' = [] \<longrightarrow> blocks (fst s') = [])"
proof (cases "ms a = []")
  case True
  obtain g bb where s: "s = (g, bb)" by force
  have wf: "wf_al g" using inv by (simp add: block_inv_def s)
  show ?thesis
    using inv True none add_target [OF wf] add_vertex_labels [OF wf] label_edges_add_vertex [OF wf]
    by (auto simp: s s' entries_def close_block_def block_inv_def open_blocks_def unresolved_def)
next
  case False
  then obtain x xs where x: "ms a = x # xs" by (cases "ms a") auto
  let ?s1 = "close_block bs bd start (entries a (ms a)) s"
  obtain g bb where s1: "?s1 = (g, bb)" by force
  have inv1: "block_inv bs bd start ms as (g, bb)" using close_block_inv [OF inv, of "entries a (ms a)"] s1 by simp
  have wf: "wf_al (fst s)" using inv by (simp add: block_inv_def)
  have e: "entries a (ms a) = MoeMnemonic x # map MoeMnemonic xs" by (simp add: entries_def x)
  have s'_eq: "s' = (g, bb @ ms a)" using s1 by (simp add: s' entries_def False fold_push_mnemonics)
  have old: "b_start (m_area (last (snd s))) \<noteq> b_start (m_area x)" if "snd s \<noteq> []"
  proof -
    have "last (snd s) \<in> set (concat (map bb_mnemonics (open_blocks s)))" using that by (simp add: open_blocks_def)
    then have "last (snd s) \<in> set (concat (map ms as))" using inv unfolding block_inv_def by simp
    then show ?thesis using ms new x by auto
  qed
  note split = close_block_mnemonic [OF wf none old s1 [unfolded e]]
  have same: "successively (joined bs bd start) (x # xs)" using successively_const [of "x # xs" a] ms x by simp
  have nb: "open_blocks s' = blocks g @ [from_vec (bb @ ms a)]" by (simp add: s'_eq open_blocks_def x)
  have ob: "open_blocks (g, bb) = blocks g @ (if bb = [] then [] else [from_vec bb])" by (simp add: open_blocks_def)
  have "good_block bs bd start (from_vec (bb @ ms a))"
  proof (cases "bb = []")
    case True
    then show ?thesis using same by (simp add: good_block_def x)
  next
    case False
    then have "good_block bs bd start (from_vec bb)" using inv1 unfolding block_inv_def ob by simp
    then show ?thesis using same split False by (simp add: good_block_def x successively_append_iff)
  qed
  moreover have "successively (divided bs bd start) (blocks g @ [from_vec (bb @ ms a)])"
  proof (cases "bb = []")
    case True
    then have "successively (divided bs bd start) (blocks g)" using inv1 unfolding block_inv_def ob by simp
    then show ?thesis using split True by (auto simp: successively_append_iff x)
  next
    case False
    then have "successively (divided bs bd start) (blocks g @ [from_vec bb])" using inv1 unfolding block_inv_def ob by simp
    then show ?thesis using False by (simp add: successively_append_iff divided_def)
  qed
  ultimately show ?thesis
    using inv1 False unfolding block_inv_def nb ob by (auto simp: s'_eq x split: if_splits)
qed

definition layout :: "(nat \<Rightarrow> mnemonic list) \<Rightarrow> nat list \<Rightarrow> mne_or_error multimap" where
  "layout ms as = map (\<lambda>a. (a, entries a (ms a))) as"

lemma blocks_loop_inv:
  assumes "\<forall>a \<in> set (done @ as). \<forall>m \<in> set (ms a). b_start (m_area m) = a" "distinct (done @ as)"
    and "block_inv bs bd start ms done s" "snd s = [] \<longrightarrow> blocks (fst s) = []"
  shows "block_inv bs bd start ms (done @ as) (blocks_loop bs bd start (layout ms as) s)"
  using assms
proof (induction as arbitrary: s "done")
  case (Cons a as)
  then show ?case
    using group_inv [of bs bd start ms "done" s a, OF _ _ _ _ refl] Cons.IH [of "done @ [a]"] by (simp add: layout_def)
qed (simp add: layout_def)

lemma last_block_inv:
  assumes "block_inv bs bd start ms as s"
  shows "block_inv bs bd start ms as (last_block s, [])" "blocks (last_block s) = open_blocks s"
proof -
  have wf: "wf_al (fst s)" using assms by (simp add: block_inv_def)
  show b: "blocks (last_block s) = open_blocks s" by (simp add: last_block_def open_blocks_def add_target [OF wf])
  then have "open_blocks (last_block s, []) = open_blocks s" by (simp add: open_blocks_def)
  moreover have "wf_al (last_block s)" "label_edges (last_block s) = label_edges (fst s)" "failures (last_block s) = failures (fst s)"
    using add_target [OF wf] add_vertex_labels [OF wf] wf by (simp_all add: last_block_def)
  moreover have "(\<forall>lb \<in> set (al_vertex_labels (last_block s)). \<not> unresolved lb)"
    using assms add_vertex_labels(2) [OF wf] by (auto simp: last_block_def block_inv_def unresolved_def)
  ultimately show "block_inv bs bd start ms as (last_block s, [])" using assms by (simp add: block_inv_def)
qed

section \<open>The assembled graph\<close>

lemma flat_jumps_order: "permutes order \<Longrightarrow> set (flat_jumps (ho_jumps order m)) = set (flat_jumps m)"
  by (simp add: permutes_def flat_jumps_def)

text \<open>What assembly promises: blocks that partition the mnemonics, and edges for the jumps.\<close>

definition assembled :: "jumps \<Rightarrow> jumps \<Rightarrow> nat \<Rightarrow> (nat \<Rightarrow> mnemonic list) \<Rightarrow> nat list \<Rightarrow> cf_graph \<Rightarrow> bool" where
  "assembled bs bd start ms as g \<longleftrightarrow>
     wf_al g \<and> concat (map bb_mnemonics (blocks g)) = concat (map ms as) \<and> failures g = filter (\<lambda>a. ms a = []) as \<and>
     (\<forall>b \<in> set (blocks g). good_block bs bd start b) \<and> successively (divided bs bd start) (blocks g) \<and>
     (\<forall>(gu, s, t) \<in> label_edges g. \<exists>src tgt. (src, tgt, gu) \<in> set (flat_jumps bs) \<and> jump_source src s \<and> jump_target tgt t) \<and>
     (\<forall>(src, tgt, gu) \<in> set (flat_jumps bs). src \<in> set (failures g) \<or> (\<exists>b \<in> set (blocks g). jump_source src (Resolved b)) \<longrightarrow>
        (\<exists>s t. (gu, s, t) \<in> label_edges g \<and> jump_source src s \<and> jump_target tgt t) \<or>
        (\<exists>v n. tgt = RvConstant v n \<and> unat v \<notin> set (failures g) \<and> (\<forall>b \<in> set (blocks g). b_start (bb_area b) \<noteq> unat v)))"

lemma assemble_assembled:
  assumes ms: "\<forall>a \<in> set as. \<forall>m \<in> set (ms a). b_start (m_area m) = a" and as: "distinct as" and order: "permutes order"
    and src: "\<forall>j \<in> set (flat_jumps bs). fst j < 2 ^ 64"
  shows "assembled bs bd start ms as (assemble_cflow_graph order (layout ms as) bs bd start)"
proof -
  define g0 where "g0 = last_block (blocks_loop bs bd start (layout ms as) (al_new, []))"
  define g where "g = assemble_cflow_graph order (layout ms as) bs bd start"
  have "al_vertex_labels (al_new :: cf_graph) = []" by (simp add: al_vertex_labels_def al_new_def)
  then have "blocks al_new = []" by (simp add: blocks_def)
  then have inv: "block_inv bs bd start ms as (g0, [])"
    using last_block_inv(1) blocks_loop_inv [of "[]" as, OF _ _ block_inv_initial] ms as by (simp add: g0_def)
  then have wf: "wf_al g0" and ne: "label_edges g0 = {}" by (simp_all add: block_inv_def)
  have flat: "set (flat_jumps (ho_jumps order bs)) = set (flat_jumps bs)" by (rule flat_jumps_order [OF order])
  have "\<forall>j \<in> set (flat_jumps (ho_jumps order bs)). fst j < 2 ^ 64" using src flat by simp
  note con = connect_fold [OF wf this order, folded connect_blocks_flat, unfolded Let_def flat ne]
  have g: "g = connect_blocks order bs g0" by (simp add: g_def assemble_cflow_graph_def g0_def)
  obtain us where us: "al_vertex_labels g = al_vertex_labels g0 @ us" "list_all unresolved us" using con g by auto
  then have same: "blocks g = blocks g0" "failures g = failures g0" using blocks_unresolved by (simp_all add: blocks_def failures_def)
  have lab: "\<exists>lb \<in> set (al_vertex_labels g0). jump_source src lb"
    if "src \<in> set (failures g) \<or> (\<exists>b \<in> set (blocks g). jump_source src (Resolved b))" for src
    using that unfolding same failures_iff Bex_def blocks_iff by (metis jump_source.simps(5))
  have none: "\<exists>v n. tgt = RvConstant v n \<and> unat v \<notin> set (failures g) \<and> (\<forall>b \<in> set (blocks g). b_start (bb_area b) \<noteq> unat v)"
    if "no_target g0 tgt" for tgt
    using that unfolding no_target_def same failures_iff Ball_def blocks_iff by (metis jump_target.simps(1,2))
  have "wf_al g" "\<forall>(gu, s, t) \<in> label_edges g. \<exists>src tgt. (src, tgt, gu) \<in> set (flat_jumps bs) \<and> jump_source src s \<and> jump_target tgt t"
    using con g by auto
  moreover have "(\<exists>s t. (gu, s, t) \<in> label_edges g \<and> jump_source src s \<and> jump_target tgt t) \<or>
        (\<exists>v n. tgt = RvConstant v n \<and> unat v \<notin> set (failures g) \<and> (\<forall>b \<in> set (blocks g). b_start (bb_area b) \<noteq> unat v))"
    if "(src, tgt, gu) \<in> set (flat_jumps bs)" "src \<in> set (failures g) \<or> (\<exists>b \<in> set (blocks g). jump_source src (Resolved b))" for src tgt gu
    using con lab [OF that(2)] that(1) none [of tgt] unfolding g [symmetric] by fastforce
  moreover have "concat (map bb_mnemonics (blocks g)) = concat (map ms as)" "failures g = filter (\<lambda>a. ms a = []) as"
    "\<forall>b \<in> set (blocks g). good_block bs bd start b" "successively (divided bs bd start) (blocks g)"
    using inv unfolding block_inv_def open_blocks_def fst_conv snd_conv same by simp_all
  ultimately have "assembled bs bd start ms as g" unfolding assembled_def by blast
  then show ?thesis by (simp add: g_def)
qed

lemma joined_back:
  assumes "successively (joined bs bd start) (xs @ x # ys)" "b_start (m_area x) = start"
  shows "\<forall>p \<in> set xs. b_start (m_area p) = start"
  using assms
proof (induction xs arbitrary: x ys rule: rev_induct)
  case (snoc p xs)
  then have "joined bs bd start p x" by (simp add: successively_append_iff)
  then have p: "b_start (m_area p) = start" using snoc.prems(2) by (auto simp: joined_def starts_block_def)
  then show ?case using snoc.IH [of p "x # ys"] snoc.prems by simp
qed simp

lemma from_vec_area:
  assumes "xs \<noteq> []"
  shows "b_start (bb_area (from_vec xs)) = Min ((\<lambda>m. b_start (m_area m)) ` set xs)"
    "b_end (bb_area (from_vec xs)) = Max ((\<lambda>m. b_end (m_area m)) ` set xs)"
  using assms from_vec_hull [of "tl xs" "hd xs"] by (simp_all add: new_bound_def image_image)

text \<open>The entry point: the block that starts at the start address and is not empty.\<close>

lemma sorted_starts:
  assumes "sorted as" "\<forall>a \<in> set as. \<forall>m \<in> set (ms a). b_start (m_area m) = a"
  shows "sorted (map (\<lambda>m. b_start (m_area m)) (concat (map ms as)))"
  using assms
proof (induction as)
  case (Cons a as)
  have "sorted (map (\<lambda>m. b_start (m_area m)) (ms a))"
    using Cons.prems(2) by (simp add: sorted_wrt_map sorted_wrt_iff_nth_less)
  then show ?case using Cons by (auto simp: sorted_append)
qed simp

lemma block_sorted:
  assumes "sorted (map f (concat (map bb_mnemonics bs)))" "b \<in> set bs"
  shows "sorted (map f (bb_mnemonics b))"
proof -
  obtain xs ys where "bs = xs @ b # ys" using assms(2) by (meson split_list)
  then show ?thesis using assms(1) by (simp add: sorted_append)
qed

lemma entry_block:
  assumes g: "assembled bs bd start ms as g" and as: "sorted as" "\<forall>a \<in> set as. \<forall>m \<in> set (ms a). b_start (m_area m) = a"
    and x: "start \<in> set as" "x \<in> set (ms start)" "start < b_end (m_area x)"
  shows "\<exists>b \<in> set (blocks g). block_at_start start (Resolved b)"
proof -
  have "x \<in> set (concat (map bb_mnemonics (blocks g)))" using g x(1,2) unfolding assembled_def by auto
  then obtain b where b: "b \<in> set (blocks g)" "x \<in> set (bb_mnemonics b)" by auto
  then have good: "good_block bs bd start b" using g by (simp add: assembled_def)
  obtain xs ys where xs: "bb_mnemonics b = xs @ x # ys" using b(2) by (meson split_list)
  have sx: "b_start (m_area x) = start" using as(2) x by blast
  have "\<forall>p \<in> set xs. b_start (m_area p) = start"
    by (rule joined_back [of bs bd start xs x ys]) (use good xs sx in \<open>simp_all add: good_block_def\<close>)
  moreover have "sorted (map (\<lambda>m. b_start (m_area m)) (bb_mnemonics b))"
    by (rule block_sorted [OF _ b(1)]) (use g sorted_starts [OF as] in \<open>simp add: assembled_def\<close>)
  then have "\<forall>p \<in> set ys. start \<le> b_start (m_area p)" using xs sx by (simp add: sorted_append)
  ultimately have "Min ((\<lambda>m. b_start (m_area m)) ` set (bb_mnemonics b)) = start"
    using sx xs by (intro Min_eqI) auto
  moreover have "b_end (m_area x) \<le> Max ((\<lambda>m. b_end (m_area m)) ` set (bb_mnemonics b))" using b(2) by simp
  ultimately have "block_at_start start (Resolved b)"
    using good x(3) from_vec_area [of "bb_mnemonics b"] by (auto simp: good_block_def)
  with b(1) show ?thesis by blast
qed

lemma no_entry_block:
  assumes g: "assembled bs bd start ms as g" and as: "sorted as" "\<forall>a \<in> set as. \<forall>m \<in> set (ms a). b_start (m_area m) = a"
    and x: "\<forall>x \<in> set (ms start). b_end (m_area x) \<le> start" and b: "b \<in> set (blocks g)"
  shows "\<not> block_at_start start (Resolved b)"
proof
  assume at: "block_at_start start (Resolved b)"
  let ?s = "\<lambda>m. b_start (m_area m)"
  have good: "b = from_vec (bb_mnemonics b)" "bb_mnemonics b \<noteq> []" "successively (joined bs bd start) (bb_mnemonics b)"
    using g b by (auto simp: assembled_def good_block_def)
  have "start = Min (?s ` set (bb_mnemonics b))" "start < Max ((\<lambda>m. b_end (m_area m)) ` set (bb_mnemonics b))"
    using at good from_vec_area [OF good(2)] by auto
  then obtain y where y: "y \<in> set (bb_mnemonics b)" "start < b_end (m_area y)" "\<forall>m \<in> set (bb_mnemonics b). start \<le> ?s m"
    "\<exists>m \<in> set (bb_mnemonics b). ?s m = start"
    using good(2) by (smt (verit) Max_gr_iff Min_in Min_le finite_imageI finite_set image_iff image_is_empty imageI set_empty)
  have own: "a \<in> set as \<and> m \<in> set (ms a)" if "m \<in> set (bb_mnemonics b)" "a = ?s m" for m a
  proof -
    have "m \<in> set (concat (map bb_mnemonics (blocks g)))" using b that(1) by auto
    then have "m \<in> set (concat (map ms as))" using g unfolding assembled_def by simp
    then show ?thesis using as(2) that(2) by auto
  qed
  let ?zs = "takeWhile (\<lambda>m. ?s m = start) (bb_mnemonics b)" and ?ws = "dropWhile (\<lambda>m. ?s m = start) (bb_mnemonics b)"
  have zs: "b_end (m_area m) \<le> start" if "m \<in> set ?zs" for m
    using own [of m start] x set_takeWhileD [OF that] by auto
  have "sorted (map ?s (bb_mnemonics b))"
    by (rule block_sorted [OF _ b]) (use g sorted_starts [OF as] in \<open>simp add: assembled_def\<close>)
  then have "?s (hd (bb_mnemonics b)) = start"
    using y(3,4) good(2) by (cases "bb_mnemonics b") (auto intro: order.antisym)
  then have ne: "?zs \<noteq> []" using good(2) by (cases "bb_mnemonics b") auto
  have "?ws \<noteq> []"
  proof
    assume "?ws = []"
    then have "y \<in> set ?zs" using y(1) takeWhile_dropWhile_id [of "\<lambda>m. ?s m = start" "bb_mnemonics b"] by (metis append_Nil2)
    then show False using zs y(2) by fastforce
  qed
  then obtain w ws where w: "?ws = w # ws" "?s w \<noteq> start" using hd_dropWhile [of "\<lambda>m. ?s m = start" "bb_mnemonics b"] by (cases ?ws) auto
  have "w \<in> set (bb_mnemonics b)" using set_dropWhileD [of w "\<lambda>m. ?s m = start" "bb_mnemonics b"] w(1) by simp
  then have "start < ?s w" using y(3) w(2) by (simp add: le_neq_implies_less)
  moreover have "successively (joined bs bd start) (?zs @ w # ws)"
    using good(3) w(1) takeWhile_dropWhile_id [of "\<lambda>m. ?s m = start" "bb_mnemonics b"] by simp
  then have "joined bs bd start (last ?zs) w" using ne by (simp add: successively_append_iff)
  moreover have "?s (last ?zs) = start" using set_takeWhileD [OF last_in_set [OF ne]] by simp
  ultimately have "b_end (m_area (last ?zs)) = ?s w" by (auto simp: joined_def starts_block_def)
  then show False using zs [of "last ?zs"] ne \<open>start < ?s w\<close> by auto
qed

text \<open>
  An instruction in the middle of a block, and the jump from it: to the instruction that follows in the
  block, or to a target that is not a constant.
\<close>

definition continues_to :: "basic_block \<Rightarrow> nat \<Rightarrow> rvalue \<Rightarrow> bool" where
  "continues_to b a tgt \<longleftrightarrow> (\<exists>xs x y ys. bb_mnemonics b = xs @ x # y # ys \<and> b_start (m_area x) = a \<and> b_start (m_area y) \<noteq> a \<and>
     (case tgt of RvConstant v _ \<Rightarrow> b_start (m_area y) = unat v | _ \<Rightarrow> True))"

lemma block_with:
  assumes g: "assembled bs bd start ms as g" and as: "\<forall>a \<in> set as. \<forall>m \<in> set (ms a). b_start (m_area m) = a"
    and a: "a \<in> set as" "ms a \<noteq> []"
  shows "\<exists>b \<in> set (blocks g). \<exists>m \<in> set (bb_mnemonics b). b_start (m_area m) = a"
proof -
  have "hd (ms a) \<in> set (concat (map ms as))" using a hd_in_set by auto
  then have "hd (ms a) \<in> set (concat (map bb_mnemonics (blocks g)))" using g unfolding assembled_def by simp
  moreover have "b_start (m_area (hd (ms a))) = a" using a as by simp
  ultimately show ?thesis by auto
qed

lemma block_head:
  assumes g: "assembled bs bd start ms as g" and as: "sorted as" "\<forall>a \<in> set as. \<forall>m \<in> set (ms a). b_start (m_area m) = a"
    and a: "a \<in> set as" "ms a \<noteq> []"
  shows "(\<exists>b \<in> set (blocks g). b_start (bb_area b) = a) \<or>
    (\<exists>b \<in> set (blocks g). \<exists>xs p m ys. bb_mnemonics b = xs @ p # m # ys \<and> b_start (m_area m) = a \<and> b_start (m_area p) \<noteq> a)"
proof -
  obtain b where b: "b \<in> set (blocks g)" "\<exists>m \<in> set (bb_mnemonics b). b_start (m_area m) = a" using block_with [OF g as(2) a] by blast
  obtain zs m ys where m: "bb_mnemonics b = zs @ m # ys" "b_start (m_area m) = a" "\<forall>z \<in> set zs. b_start (m_area z) \<noteq> a"
    using split_list_first_prop [OF b(2)] by blast
  show ?thesis
  proof (cases zs rule: rev_cases)
    case Nil
    have "sorted (map (\<lambda>m. b_start (m_area m)) (bb_mnemonics b))"
      by (rule block_sorted [OF _ b(1)]) (use g sorted_starts [OF as] in \<open>simp add: assembled_def\<close>)
    then have "Min ((\<lambda>m. b_start (m_area m)) ` set (bb_mnemonics b)) = a" using m Nil by (intro Min_eqI) auto
    moreover have "b = from_vec (bb_mnemonics b)" using g b(1) by (simp add: assembled_def good_block_def)
    ultimately show ?thesis using b(1) m(1) from_vec_area(1) [of "bb_mnemonics b"] by fastforce
  next
    case (snoc xs p)
    then have "bb_mnemonics b = xs @ p # m # ys" "b_start (m_area p) \<noteq> a" using m by simp_all
    then show ?thesis using b(1) m(2) by blast
  qed
qed

lemma block_tail:
  assumes g: "assembled bs bd start ms as g" and as: "\<forall>a \<in> set as. \<forall>m \<in> set (ms a). b_start (m_area m) = a"
    and a: "a \<in> set as" "ms a \<noteq> []"
  shows "(\<exists>b \<in> set (blocks g). jump_source a (Resolved b)) \<or>
    (\<exists>b \<in> set (blocks g). \<exists>xs x y ys. bb_mnemonics b = xs @ x # y # ys \<and> b_start (m_area x) = a \<and> b_start (m_area y) \<noteq> a)"
proof -
  obtain b where b: "b \<in> set (blocks g)" "\<exists>m \<in> set (bb_mnemonics b). b_start (m_area m) = a" using block_with [OF g as a] by blast
  obtain xs x zs where x: "bb_mnemonics b = xs @ x # zs" "b_start (m_area x) = a" "\<forall>z \<in> set zs. b_start (m_area z) \<noteq> a"
    using split_list_last_prop [OF b(2)] by blast
  show ?thesis
  proof (cases zs)
    case Nil
    then show ?thesis using b(1) x by (intro disjI1 bexI [OF _ b(1)]) simp
  next
    case (Cons y ys)
    then have "bb_mnemonics b = xs @ x # y # ys" "b_start (m_area y) \<noteq> a" using x by simp_all
    then show ?thesis using b(1) x(2) by blast
  qed
qed

text \<open>The mnemonics of one address are in one block.\<close>

lemma no_split:
  assumes g: "assembled bs bd start ms as g" and as: "sorted as" "\<forall>a \<in> set as. \<forall>m \<in> set (ms a). b_start (m_area m) = a"
    and c: "c \<in> set (blocks g)" "jump_source a (Resolved c)"
    and b: "b \<in> set (blocks g)" "bb_mnemonics b = xs @ p # m # ys" "b_start (m_area p) = a" "b_start (m_area m) \<noteq> a"
  shows False
proof -
  let ?s = "\<lambda>m. b_start (m_area m)"
  have sort: "sorted (map ?s (concat (map bb_mnemonics (blocks g))))" using g sorted_starts [OF as] by (simp add: assembled_def)
  obtain us vs where uv: "blocks g = us @ c # vs" using c(1) by (meson split_list)
  have lc: "last (bb_mnemonics c) \<in> set (bb_mnemonics c)" "?s (last (bb_mnemonics c)) = a" using c(2) by simp_all
  have pm: "?s p \<le> ?s m" using block_sorted [OF sort b(1)] b(2) by (simp add: sorted_append)
  consider "b \<in> set us" | "b = c" | "b \<in> set vs" using b(1) uv by auto
  then show False
  proof cases
    case 1
    then have "?s m \<le> a" using sort lc b(2) unfolding uv by (fastforce simp: sorted_append)
    then show False using pm b(3,4) by simp
  next
    case 2
    then have "?s m \<le> a" using block_sorted [OF sort b(1)] lc(2) b(2) by (cases ys rule: rev_cases) (auto simp: sorted_append)
    then show False using pm b(3,4) by simp
  next
    case 3
    then obtain e es where e: "vs = e # es" by (cases vs) auto
    have ne: "bb_mnemonics e \<noteq> []" using g uv e by (simp add: assembled_def good_block_def)
    have "successively (divided bs bd start) (blocks g)" using g by (simp add: assembled_def)
    then have "?s (hd (bb_mnemonics e)) \<noteq> a" using lc(2) unfolding uv e by (simp add: successively_append_iff divided_def)
    moreover have "a \<le> ?s (hd (bb_mnemonics e))" using sort lc ne unfolding uv e by (fastforce simp: sorted_append)
    moreover have "?s (hd (bb_mnemonics e)) \<le> ?s p"
    proof (cases "b = e")
      case True
      then show ?thesis using block_sorted [OF sort b(1)] b(2) by (cases xs) (auto simp: sorted_append)
    next
      case False
      then show ?thesis using sort 3 b(2) ne unfolding uv e by (fastforce simp: sorted_append)
    qed
    ultimately show False using b(3) by simp
  qed
qed

section \<open>New functions\<close>

lemma unat_addr_rv: "a < 2 ^ 64 \<Longrightarrow> unresolved_constant (Unresolved (addr_rv a)) = [a]"
  by (simp add: addr_rv_def new_u64_def unsigned_of_nat take_bit_nat_eq_self)

lemma index_new:
  "index_cflow_graph (fst (al_add_vertex al_new (Unresolved r))) start =
     Some \<lparr>ix_mnemonics = [], ix_by_source = [], ix_by_destination = [(start, [(RvUndefined, always)])]\<rparr>"
  by (simp add: index_cflow_graph_def al_add_vertex_def al_new_def al_edges_def al_vertex_labels_def Let_def)

lemma disassemble_new:
  assumes "start < 2 ^ 64" "work_loop pick decode (initial_work start) = Some w"
    and "g = assemble_cflow_graph order (w_mnemonics w) (w_by_source w) (w_by_destination w) start"
  shows "disassemble pick order decode start (fst (al_add_vertex al_new (Unresolved (addr_rv start))), 0) =
    Some (case find_vertex order (block_at_start start) g of
            Some ep \<Rightarrow> (Inr ep, g, w_size w)
          | None \<Rightarrow> (Inl (), fst (al_add_vertex al_new (Unresolved (addr_rv start))), w_size w))"
proof -
  let ?g = "fst (al_add_vertex al_new (Unresolved (addr_rv start))) :: cf_graph"
  have "al_vertex_labels ?g = [Unresolved (addr_rv start)]"
    by (simp add: al_add_vertex_def al_new_def al_vertex_labels_def Let_def)
  then have todo: "insert start (set (concat (map unresolved_constant (al_vertex_labels ?g)))) = {start}"
    using unat_addr_rv [OF assms(1)] by simp
  then show ?thesis
    using assms(2) unfolding disassemble_def fst_conv snd_conv index_new option.case todo initial_work_def assms(3)
    by (simp add: Let_def split: option.split)
qed

lemma flat_jumps_get: "distinct (map fst m) \<Longrightarrow> (src, t) \<in> set (flat_jumps m) \<longleftrightarrow> t \<in> set (hm_get m src)"
proof (induction m)
  case (Cons x m)
  obtain k vs where x: "x = (k, vs)" by force
  have "k \<notin> mm_keys m" using Cons.prems by (simp add: x mm_keys_def)
  then show ?case using Cons hm_get_absent [of k m] by (auto simp: flat_jumps_def x)
qed (simp add: flat_jumps_def)

text \<open>The entry of a function is decodable if a mnemonic at the start has a byte.\<close>

definition decodable :: "(nat \<Rightarrow> ('t, 'c) dis_match option option) \<Rightarrow> nat \<Rightarrow> bool" where
  "decodable decode start \<longleftrightarrow> (\<exists>m \<in> set (found (decode start)). start < b_end (m_area m))"

context simple_architecture
begin

lemma assembled_reached:
  assumes "picks pick" "permutes order" "start < 2 ^ 64"
  shows "\<exists>w g. work_loop pick decode (initial_work start) = Some w \<and> explored decode start w \<and> mm_keys (w_mnemonics w) = reached decode start \<and>
    g = assemble_cflow_graph order (w_mnemonics w) (w_by_source w) (w_by_destination w) start \<and>
    assembled (w_by_source w) (w_by_destination w) start (\<lambda>a. found (decode a)) (sorted_list_of_set (reached decode start)) g \<and>
    (decodable decode start \<longleftrightarrow> find_vertex order (block_at_start start) g \<noteq> None)"
proof -
  let ?as = "sorted_list_of_set (reached decode start)" and ?ms = "\<lambda>a. found (decode a)"
  obtain w where w: "work_loop pick decode (initial_work start) = Some w" "explored decode start w"
    "mm_keys (w_mnemonics w) = reached decode start" "w_mnemonics w = layout ?ms ?as"
    using work_loop_explores [OF assms(1,3)] unfolding layout_def by blast
  define g where "g = assemble_cflow_graph order (w_mnemonics w) (w_by_source w) (w_by_destination w) start"
  have fin: "finite (reached decode start)" using reached_bound [OF assms(3)] finite_subset by blast
  have ms: "\<forall>a \<in> set ?as. \<forall>m \<in> set (?ms a). b_start (m_area m) = a" using decode_single by blast
  have "fst j < 2 ^ 64" if "j \<in> set (flat_jumps (w_by_source w))" for j
  proof -
    obtain src t where j: "j = (src, t)" by (cases j) blast
    have "t \<in> set (hm_get (w_by_source w) src)" using flat_jumps_get w(2) that j by (auto simp: explored_def Let_def)
    then have "src \<in> reached decode start" using w(2,3) by (auto simp: explored_def Let_def split: if_splits)
    then show ?thesis using reached_bound [OF assms(3)] j by auto
  qed
  then have asm: "assembled (w_by_source w) (w_by_destination w) start ?ms ?as g"
    unfolding g_def w(4) by (intro assemble_assembled ms assms(2) ballI distinct_sorted_list_of_set)
  have sort: "sorted ?as" "start \<in> set ?as" using fin reached.start by simp_all
  have "decodable decode start \<longleftrightarrow> (\<exists>b \<in> set (blocks g). block_at_start start (Resolved b))"
    using entry_block [OF asm sort(1) ms sort(2)] no_entry_block [OF asm sort(1) ms] unfolding decodable_def by (meson not_le)
  also have "\<dots> \<longleftrightarrow> (\<exists>lb \<in> set (al_vertex_labels g). block_at_start start lb)"
    by (auto simp: blocks_iff elim!: block_at_start.elims) (metis blocks_iff block_at_start.simps(1))
  also have "\<dots> \<longleftrightarrow> find_vertex order (block_at_start start) g \<noteq> None"
    using find_vertex_None [OF _ assms(2)] asm by (auto simp: assembled_def)
  finally show ?thesis using w g_def asm by blast
qed

lemma new_function:
  assumes "picks pick" "permutes order" "start < 2 ^ 64"
  shows "\<exists>w g. work_loop pick decode (initial_work start) = Some w \<and> explored decode start w \<and> mm_keys (w_mnemonics w) = reached decode start \<and>
    assembled (w_by_source w) (w_by_destination w) start (\<lambda>a. found (decode a)) (sorted_list_of_set (reached decode start)) g \<and>
    (if decodable decode start
     then \<exists>f. func_new pick order decode start uuid reg nam = Some (Inr f) \<and> f_cflow_graph f = g \<and> f_size f = w_size w \<and>
            func_start f = Some start
     else func_new pick order decode start uuid reg nam = Some (Inl ()))"
proof -
  obtain w g where w: "work_loop pick decode (initial_work start) = Some w" "explored decode start w" "mm_keys (w_mnemonics w) = reached decode start"
    "g = assemble_cflow_graph order (w_mnemonics w) (w_by_source w) (w_by_destination w) start"
    "assembled (w_by_source w) (w_by_destination w) start (\<lambda>a. found (decode a)) (sorted_list_of_set (reached decode start)) g"
    "decodable decode start \<longleftrightarrow> find_vertex order (block_at_start start) g \<noteq> None"
    using assembled_reached [OF assms] by blast
  note dis = disassemble_new [OF assms(3) w(1,4)]
  show ?thesis
  proof (cases "find_vertex order (block_at_start start) g")
    case None
    then show ?thesis using w dis by (auto simp: func_new_def)
  next
    case (Some ep)
    then obtain lb where "ag_verts (abs_al g) ep = Some lb" "block_at_start start lb" using find_vertex_Some by blast
    then obtain b where "al_vertex_label g ep = Some (Resolved b)" "b_start (bb_area b) = start"
      by (cases lb) (auto simp: vertex_label_abs)
    then show ?thesis using Some w dis by (auto simp: func_new_def func_start_def entry_point_def)
  qed
qed

end

section \<open>Neighbours in terms of the decoder\<close>

text \<open>
  Two instructions that follow each other in a block: the second begins where the first ends and
  is not the entry point, every constant jump of the first leads to the second and every
  jump to the second comes from the first.
\<close>

definition neighbours_in_block :: "(nat \<Rightarrow> ('t, 'c) dis_match option option) \<Rightarrow> nat \<Rightarrow> mnemonic \<Rightarrow> mnemonic \<Rightarrow> bool" where
  "neighbours_in_block decode start x y \<longleftrightarrow>
     b_end (m_area x) = b_start (m_area y) \<and> b_start (m_area y) \<noteq> start \<and>
     targets (jumps_of (decode (b_start (m_area x)))) \<subseteq> {b_start (m_area y)} \<and>
     (\<forall>a \<in> reached decode start. b_start (m_area y) \<in> targets (jumps_of (decode a)) \<longrightarrow> a = b_start (m_area x))"

lemma other_constant_targets:
  "list_ex (other_constant a) (map snd js) \<longleftrightarrow> \<not> targets js \<subseteq> {a}"
proof -
  have "other_constant a (snd j) \<longleftrightarrow> \<not> set (target_of j) \<subseteq> {a}" for j by (cases j rule: target_of.cases) auto
  then show ?thesis by (auto simp: list_ex_iff targets_def)
qed

lemma other_constant_arrivals:
  assumes "\<forall>a \<in> S. \<forall>j \<in> set (jumps_of (decode a)). fst j = a" "S \<subseteq> {..<2 ^ 64}"
  shows "(\<exists>x \<in> arrivals decode start S d. other_constant p x) \<longleftrightarrow> (\<exists>a \<in> S. d \<in> targets (jumps_of (decode a)) \<and> a \<noteq> p)"
proof -
  have one: "(\<exists>x \<in> set (incoming d (jumps_of (decode a))). other_constant p x) \<longleftrightarrow> d \<in> targets (jumps_of (decode a)) \<and> a \<noteq> p"
    if "a \<in> S" for a
  proof -
    have a: "unat (of_nat a :: u64) = a" using assms(2) that by (auto simp: unsigned_of_nat take_bit_nat_eq_self)
    have "d \<in> set (target_of j) \<longleftrightarrow> target_of j = [d]" for j by (cases j rule: target_of.cases) auto
    then have t: "d \<in> targets (jumps_of (decode a)) \<longleftrightarrow> (\<exists>j \<in> set (jumps_of (decode a)). target_of j = [d])" by (auto simp: targets_def)
    have "other_constant p (case j of (o', t, g) \<Rightarrow> (addr_rv o', g)) \<longleftrightarrow> a \<noteq> p" if "j \<in> set (jumps_of (decode a))" for j
    proof -
      have "fst j = a" using assms(1) \<open>a \<in> S\<close> that by blast
      then show ?thesis using a by (cases j) (simp add: addr_rv_def new_u64_def)
    qed
    then show ?thesis unfolding t incoming_def by auto
  qed
  have "(\<exists>x \<in> arrivals decode start S d. other_constant p x) \<longleftrightarrow> (\<exists>a \<in> S. \<exists>x \<in> set (incoming d (jumps_of (decode a))). other_constant p x)"
    by (auto simp: arrivals_def)
  then show ?thesis using one by blast
qed

text \<open>The blocks of a new function.\<close>

definition block_ok :: "(nat \<Rightarrow> ('t, 'c) dis_match option option) \<Rightarrow> nat \<Rightarrow> basic_block \<Rightarrow> bool" where
  "block_ok decode start b \<longleftrightarrow> bb_mnemonics b \<noteq> [] \<and> b = from_vec (bb_mnemonics b) \<and>
     successively (\<lambda>x y. b_start (m_area x) = b_start (m_area y) \<or> neighbours_in_block decode start x y) (bb_mnemonics b)"

text \<open>Blocks that follow each other are those of different instructions and could not be joined.\<close>

definition block_boundary :: "(nat \<Rightarrow> ('t, 'c) dis_match option option) \<Rightarrow> nat \<Rightarrow> basic_block \<Rightarrow> basic_block \<Rightarrow> bool" where
  "block_boundary decode start b c \<longleftrightarrow>
     b_start (m_area (last (bb_mnemonics b))) \<noteq> b_start (m_area (hd (bb_mnemonics c))) \<and>
     \<not> neighbours_in_block decode start (last (bb_mnemonics b)) (hd (bb_mnemonics c))"

context simple_architecture
begin

lemma starts_block_neighbours:
  assumes "explored decode start w" "mm_keys (w_mnemonics w) = reached decode start" "start < 2 ^ 64"
    and "b_start (m_area x) \<in> reached decode start"
  shows "starts_block (w_by_source w) (w_by_destination w) start x y \<longleftrightarrow> \<not> neighbours_in_block decode start x y"
proof -
  have bs: "hm_get (w_by_source w) (b_start (m_area x)) = map snd (jumps_of (decode (b_start (m_area x))))"
    and bd: "set (hm_get (w_by_destination w) d) = arrivals decode start (reached decode start) d" for d
    using assms(1,2,4) by (auto simp: explored_def Let_def)
  have "(\<exists>v \<in> arrivals decode start (reached decode start) (b_start (m_area y)). other_constant (b_start (m_area x)) v) \<longleftrightarrow>
      (\<exists>a \<in> reached decode start. b_start (m_area y) \<in> targets (jumps_of (decode a)) \<and> a \<noteq> b_start (m_area x))"
    by (rule other_constant_arrivals [OF _ reached_bound [OF assms(3)]]) (use decode_origin in auto)
  then show ?thesis
    unfolding starts_block_def neighbours_in_block_def bs other_constant_targets list_ex_iff [where xs = "hm_get (w_by_destination w) (b_start (m_area y))"] bd by blast
qed

lemma block_mnemonic_reached:
  assumes "assembled bs bd start (\<lambda>a. found (decode a)) (sorted_list_of_set (reached decode start)) g" "start < 2 ^ 64"
    and "b \<in> set (blocks g)" "x \<in> set (bb_mnemonics b)"
  shows "b_start (m_area x) \<in> reached decode start" "x \<in> set (found (decode (b_start (m_area x))))"
proof -
  have "finite (reached decode start)" using reached_bound [OF assms(2)] finite_subset by blast
  moreover have "x \<in> set (concat (map bb_mnemonics (blocks g)))" using assms(3,4) by auto
  then have "x \<in> set (concat (map (\<lambda>a. found (decode a)) (sorted_list_of_set (reached decode start))))"
    using assms(1) unfolding assembled_def by simp
  ultimately show "b_start (m_area x) \<in> reached decode start" "x \<in> set (found (decode (b_start (m_area x))))" using decode_single by auto
qed

lemma new_function_blocks:
  assumes "picks pick" "permutes order" "start < 2 ^ 64" "func_new pick order decode start uuid reg nam = Some (Inr f)"
  shows "concat (map bb_mnemonics (basic_blocks f)) = concat (map (\<lambda>a. found (decode a)) (sorted_list_of_set (reached decode start))) \<and>
    failures (f_cflow_graph f) = filter (\<lambda>a. found (decode a) = []) (sorted_list_of_set (reached decode start)) \<and>
    (\<forall>b \<in> set (basic_blocks f). block_ok decode start b) \<and> successively (block_boundary decode start) (basic_blocks f)"
proof -
  let ?as = "sorted_list_of_set (reached decode start)"
  obtain w g where w: "explored decode start w" "mm_keys (w_mnemonics w) = reached decode start"
    "assembled (w_by_source w) (w_by_destination w) start (\<lambda>a. found (decode a)) ?as g" "f_cflow_graph f = g"
    using new_function [OF assms(1-3), of uuid reg nam] assms(4) by (auto split: if_splits)
  have bb: "basic_blocks f = blocks g" using w(4) by (simp add: basic_blocks_def blocks_def)
  note mem = block_mnemonic_reached(1) [OF w(3) assms(3)]
  note sb = starts_block_neighbours [OF w(1,2) assms(3)]
  have good: "good_block (w_by_source w) (w_by_destination w) start b" if "b \<in> set (blocks g)" for b
    using w(3) that by (simp add: assembled_def)
  have "block_ok decode start b" if b: "b \<in> set (blocks g)" for b
  proof -
    have "successively (\<lambda>x y. b_start (m_area x) = b_start (m_area y) \<or> neighbours_in_block decode start x y) (bb_mnemonics b)"
      using good [OF b] mem [OF b] sb unfolding good_block_def joined_def by (metis (mono_tags, lifting) successively_mono)
    then show ?thesis using good [OF b] by (simp add: block_ok_def good_block_def)
  qed
  moreover have "successively (block_boundary decode start) (blocks g)"
  proof -
    have "last (bb_mnemonics b) \<in> set (bb_mnemonics b)" if "b \<in> set (blocks g)" for b using good [OF that] by (simp add: good_block_def)
    moreover have "successively (divided (w_by_source w) (w_by_destination w) start) (blocks g)" using w(3) by (simp add: assembled_def)
    ultimately show ?thesis using mem sb unfolding divided_def block_boundary_def by (metis (mono_tags, lifting) successively_mono)
  qed
  ultimately show ?thesis using w(3,4) by (simp add: bb assembled_def)
qed

end

context simple_architecture
begin

text \<open>A constant target of a jump that leaves a block, or an undecodable address, is the start of a vertex.\<close>

lemma target_vertex:
  assumes g: "assembled (w_by_source w) (w_by_destination w) start (\<lambda>a. found (decode a)) (sorted_list_of_set (reached decode start)) g"
    and w: "explored decode start w" "mm_keys (w_mnemonics w) = reached decode start" and start: "start < 2 ^ 64"
    and a: "a \<in> reached decode start" "d \<in> targets (jumps_of (decode a))"
    and src: "a \<in> set (failures g) \<or> (\<exists>b \<in> set (blocks g). jump_source a (Resolved b))"
  shows "d \<in> set (failures g) \<or> (\<exists>b \<in> set (blocks g). b_start (bb_area b) = d)"
proof (rule ccontr)
  assume none: "\<not> ?thesis"
  let ?as = "sorted_list_of_set (reached decode start)"
  have fin: "finite (reached decode start)" using reached_bound [OF start] finite_subset by blast
  have as: "sorted ?as" "\<forall>a \<in> set ?as. \<forall>m \<in> set (found (decode a)). b_start (m_area m) = a" using decode_single by auto
  have f: "failures g = filter (\<lambda>a. found (decode a) = []) ?as" using g by (simp add: assembled_def)
  have d: "d \<in> reached decode start" using reached.jump [OF a] .
  then have "found (decode d) \<noteq> []" "d \<in> set ?as" using none fin f by auto
  then obtain b xs p m ys where b: "b \<in> set (blocks g)" "bb_mnemonics b = xs @ p # m # ys" "b_start (m_area m) = d" "b_start (m_area p) \<noteq> d"
    using block_head [OF g as] none by blast
  have "joined (w_by_source w) (w_by_destination w) start p m"
    using g b(1,2) by (auto simp: assembled_def good_block_def successively_append_iff)
  then have "neighbours_in_block decode start p m"
    using b starts_block_neighbours [OF w start] block_mnemonic_reached(1) [OF g start b(1), of p] by (auto simp: joined_def)
  then have pa: "b_start (m_area p) = a" using a b(3) by (auto simp: neighbours_in_block_def)
  then have "a \<notin> set (failures g)" using block_mnemonic_reached(2) [OF g start b(1), of p] b(2) f by auto
  then obtain c where "c \<in> set (blocks g)" "jump_source a (Resolved c)" using src by blast
  then show False using no_split [OF g as _ _ b(1,2) pa] b(3,4) pa by simp
qed

lemma new_function_edges:
  assumes "picks pick" "permutes order" "start < 2 ^ 64" "func_new pick order decode start uuid reg nam = Some (Inr f)"
  shows "(\<forall>(gu, s, t) \<in> label_edges (f_cflow_graph f). \<exists>a \<in> reached decode start. \<exists>tgt.
      (a, tgt, gu) \<in> set (jumps_of (decode a)) \<and> jump_source a s \<and> jump_target tgt t) \<and>
    (\<forall>a \<in> reached decode start. \<forall>(a', tgt, gu) \<in> set (jumps_of (decode a)).
      (\<exists>s t. (gu, s, t) \<in> label_edges (f_cflow_graph f) \<and> jump_source a s \<and> jump_target tgt t) \<or>
      (\<exists>b \<in> set (basic_blocks f). continues_to b a tgt))"
proof -
  let ?as = "sorted_list_of_set (reached decode start)"
  obtain w g where w: "explored decode start w" "mm_keys (w_mnemonics w) = reached decode start"
    "assembled (w_by_source w) (w_by_destination w) start (\<lambda>a. found (decode a)) ?as g" "f_cflow_graph f = g"
    using new_function [OF assms(1-3), of uuid reg nam] assms(4) by (auto split: if_splits)
  have bb: "basic_blocks f = blocks g" using w(4) by (simp add: basic_blocks_def blocks_def)
  have flat: "(a, tgt, gu) \<in> set (flat_jumps (w_by_source w)) \<longleftrightarrow> a \<in> reached decode start \<and> (a, tgt, gu) \<in> set (jumps_of (decode a))" for a tgt gu
  proof -
    have "(a, tgt, gu) \<in> set (flat_jumps (w_by_source w)) \<longleftrightarrow> a \<in> reached decode start \<and> (tgt, gu) \<in> set (map snd (jumps_of (decode a)))"
      using w(1,2) flat_jumps_get [of "w_by_source w" a "(tgt, gu)"] by (auto simp: explored_def Let_def split: if_splits)
    moreover have "(tgt, gu) \<in> set (map snd (jumps_of (decode a))) \<longleftrightarrow> (a, tgt, gu) \<in> set (jumps_of (decode a))"
      using decode_origin [of _ a] by force
    ultimately show ?thesis by blast
  qed
  have "\<forall>(gu, s, t) \<in> label_edges g. \<exists>a \<in> reached decode start. \<exists>tgt.
      (a, tgt, gu) \<in> set (jumps_of (decode a)) \<and> jump_source a s \<and> jump_target tgt t"
    using w(3) unfolding assembled_def flat by blast
  moreover have "(\<exists>s t. (gu, s, t) \<in> label_edges g \<and> jump_source a s \<and> jump_target tgt t) \<or> (\<exists>b \<in> set (blocks g). continues_to b a tgt)"
    if "a \<in> reached decode start" "(a', tgt, gu) \<in> set (jumps_of (decode a))" for a a' tgt gu
  proof (cases "a \<in> set (failures g) \<or> (\<exists>b \<in> set (blocks g). jump_source a (Resolved b))")
    case True
    have j: "(a, tgt, gu) \<in> set (jumps_of (decode a))" using that decode_origin [OF that(2)] by simp
    have "d \<in> set (failures g) \<or> (\<exists>b \<in> set (blocks g). b_start (bb_area b) = d)" if "d \<in> set (target_of (a, tgt, gu))" for d
      by (rule target_vertex [OF w(3,1,2) assms(3) \<open>a \<in> reached decode start\<close> _ True]) (use j that in \<open>auto simp: targets_def\<close>)
    then have "unat v \<in> set (failures g) \<or> (\<exists>b \<in> set (blocks g). b_start (bb_area b) = unat v)" if "tgt = RvConstant v n" for v n
      using that by simp
    moreover have "(a, tgt, gu) \<in> set (flat_jumps (w_by_source w))" using j that(1) flat by simp
    ultimately show ?thesis using w(3) True unfolding assembled_def by blast
  next
    case False
    have "finite (reached decode start)" using reached_bound [OF assms(3)] finite_subset by blast
    then have "found (decode a) \<noteq> []" "a \<in> set ?as" using False w(3) that(1) by (auto simp: assembled_def)
    then obtain b xs x y ys where b: "b \<in> set (blocks g)" "bb_mnemonics b = xs @ x # y # ys" "b_start (m_area x) = a" "b_start (m_area y) \<noteq> a"
      using block_tail [OF w(3)] False decode_single by (metis sorted_list_of_set(1))
    have "joined (w_by_source w) (w_by_destination w) start x y"
      using w(3) b(1,2) by (auto simp: assembled_def good_block_def successively_append_iff)
    then have "neighbours_in_block decode start x y"
      using b starts_block_neighbours [OF w(1,2) assms(3)] that(1) by (auto simp: joined_def)
    then have "set (target_of (a', tgt, gu)) \<subseteq> {b_start (m_area y)}" using that(2) b(3) by (force simp: neighbours_in_block_def targets_def)
    then have "continues_to b a tgt" using b by (cases tgt) (auto simp: continues_to_def)
    then show ?thesis using b(1) by blast
  qed
  ultimately show ?thesis unfolding w(4) bb by blast
qed

end

section \<open>A decoder of a single instruction\<close>

text \<open>A region of one instruction of one byte that jumps to itself, for the witnesses.\<close>

definition loop_mnemonic :: mnemonic where
  "loop_mnemonic = \<lparr>m_area = new_bound 0 1, m_opcode = ''jmp'', m_operands = [], m_instructions = [], m_format = []\<rparr>"

definition loop_decode :: "nat \<Rightarrow> (u8, unit) dis_match option option" where
  "loop_decode a = Some (if a = 0 then Some \<lparr>dm_tokens = [0], dm_mnemonics = [loop_mnemonic],
     dm_jumps = [(0, addr_rv 0, always)], dm_configuration = ()\<rparr> else None)"

lemma loop_decode_simps [simp]:
  "found (loop_decode a) = (if a = 0 then [loop_mnemonic] else [])"
  "jumps_of (loop_decode a) = (if a = 0 then [(0, addr_rv 0, always)] else [])"
  "m_area loop_mnemonic = new_bound 0 1"
  by (simp_all add: loop_decode_def loop_mnemonic_def)

interpretation loop: simple_architecture loop_decode
proof
  show "loop_decode a \<noteq> None" for a by (simp add: loop_decode_def)
qed (simp_all add: new_bound_def split: if_splits)

lemma loop_reached [simp]: "reached loop_decode 0 = {0}"
proof
  show "reached loop_decode 0 \<subseteq> {0}" by (rule reached_least) (simp_all add: targets_def addr_rv_def new_u64_def)
qed (simp add: reached.start)

lemma loop_picks [simp]: "picks Min" "permutes insertion_order"
  by (simp_all add: picks_def)

section \<open>Properties\<close>

text \<open>
  C4: For an architecture whose decoder never panics and whose matches have all their mnemonics and jumps at the decoded
  address, recursive disassembly ends and does not depend on the order in which the set of addresses
  is iterated: the mnemonics are those of exactly the addresses reachable from the entry point, in
  ascending order, an undecodable address yields one error, and the jumps are indexed by the
  address they leave from and the address they lead to.
\<close>

theorem disassembly_explores:
  assumes "simple_architecture decode" "picks pick" "start < 2 ^ 64"
  shows "\<exists>w. work_loop pick decode (initial_work start) = Some w \<and>
    w_mnemonics w = map (\<lambda>a. (a, entries a (found (decode a)))) (sorted_list_of_set (reached decode start)) \<and>
    (\<forall>a. hm_get (w_by_source w) a = (if a \<in> reached decode start then map snd (jumps_of (decode a)) else [])) \<and>
    (\<forall>d. set (hm_get (w_by_destination w) d) = arrivals decode start (reached decode start) d)"
  using simple_architecture.work_loop_explores [OF assms] by (auto simp: explored_def Let_def)

text \<open>
  \<^verbatim>\<open>Function::new\<close> returns a function that starts at the start address if an instruction can be
  decoded there, and otherwise the error that there is no entry point; it does not panic.
\<close>

theorem function_new_entry:
  assumes "simple_architecture decode" "picks pick" "permutes order" "start < 2 ^ 64"
  shows "if decodable decode start
    then \<exists>f. func_new pick order decode start uuid reg nam = Some (Inr f) \<and> func_start f = Some start
    else func_new pick order decode start uuid reg nam = Some (Inl ())"
  using simple_architecture.new_function [OF assms, of uuid reg nam] by (auto split: if_splits)

lemma loop_decodable [simp]: "decodable loop_decode a \<longleftrightarrow> a = 0"
  by (simp add: decodable_def new_bound_def)

theorem function_new_entry_witness:
  "(\<exists>f. func_new Min insertion_order loop_decode 0 (7 :: nat) ''ram'' None = Some (Inr f) \<and> func_start f = Some 0) \<and>
   func_new Min insertion_order loop_decode 1 (7 :: nat) ''ram'' None = Some (Inl ())"
  using function_new_entry [OF loop.simple_architecture_axioms loop_picks, of 0 "7 :: nat" "''ram''" None]
    function_new_entry [OF loop.simple_architecture_axioms loop_picks, of 1 "7 :: nat" "''ram''" None] by simp

text \<open>
  C2: For an architecture that meets the laws of \<open>simple_architecture\<close>, the basic blocks of a new function partition the mnemonics of the reachable addresses in
  ascending order, and every undecodable reachable address has an error vertex.  A block is not empty, its
  area is the hull of its mnemonics, and between two instructions of a block there
  is no gap, no entry point, no jump from the first to another address and no jump from elsewhere to the second.
  Blocks are maximal: between the last instruction of a block and the first of the next block there is one of these.
\<close>

theorem function_blocks:
  assumes "simple_architecture decode" "picks pick" "permutes order" "start < 2 ^ 64"
    and "func_new pick order decode start uuid reg nam = Some (Inr f)"
  shows "concat (map bb_mnemonics (basic_blocks f)) = concat (map (\<lambda>a. found (decode a)) (sorted_list_of_set (reached decode start))) \<and>
    failures (f_cflow_graph f) = filter (\<lambda>a. found (decode a) = []) (sorted_list_of_set (reached decode start)) \<and>
    (\<forall>b \<in> set (basic_blocks f). block_ok decode start b) \<and> successively (block_boundary decode start) (basic_blocks f)"
  by (rule simple_architecture.new_function_blocks [OF assms])

lemma loop_function:
  "\<exists>f. func_new Min insertion_order loop_decode 0 (7 :: nat) ''ram'' None = Some (Inr f)"
  using loop.new_function [OF loop_picks, of 0 "7 :: nat" "''ram''" None] by (auto split: if_splits)


text \<open>
  C12: The test for a jump into an instruction never succeeds: it looks at the first entry at or
  behind the target, which cannot start before it.  A visit therefore reports no such error.
\<close>

theorem jump_inside_never_reported:
  assumes "architecture decode" "base_inv w" "a \<in> w_todo w" "visit decode a w = Some w'"
  shows "MoeError pos ''Jump inside instruction'' \<in> set (hm_get (w_mnemonics w') x) \<longleftrightarrow>
    MoeError pos ''Jump inside instruction'' \<in> set (hm_get (w_mnemonics w) x)"
proof (cases "a \<in> mm_keys (w_mnemonics w)")
  case True
  then show ?thesis using architecture.visit_known [OF assms(1,2) True] assms(4) by auto
next
  case False
  have "wf_moes (w_mnemonics w)" using assms(2) by (simp add: base_inv_def)
  from architecture.visit_new [OF assms(1) this False] assms(4)
  have "hm_get (w_mnemonics w') x = hm_get (w_mnemonics w) x @ filter (\<lambda>v. moe_start v = x) (entries a (found (decode a)))" by auto
  then show ?thesis by (auto simp: entries_def)
qed

text \<open>A jump into the loop instruction extended to two bytes, at its second byte.\<close>

definition inside_work :: work where
  "inside_work = \<lparr>w_todo = {1}, w_mnemonics = [(0, [MoeMnemonic (loop_mnemonic\<lparr>m_area := new_bound 0 2\<rparr>)])],
     w_by_source = [], w_by_destination = [], w_size = 2\<rparr>"

theorem jump_inside_never_reported_witness:
  "\<exists>w'. visit loop_decode 1 inside_work = Some w' \<and> MoeError 1 ''Jump inside instruction'' \<notin> set (hm_get (w_mnemonics w') 1)"
proof -
  have inv: "base_inv inside_work"
    by (auto simp: base_inv_def inside_work_def wf_moes_def new_bound_def split: if_splits)
  then obtain w' where w': "visit loop_decode 1 inside_work = Some w'"
    using loop.visit_step [OF inv, of 1] by (auto simp: inside_work_def)
  then show ?thesis
    using jump_inside_never_reported [OF loop.architecture_axioms inv _ w', of 1 1] by (auto simp: inside_work_def)
qed

text \<open>
  The size of a new function is at least the number of bytes of its instructions.  It can be
  larger: an instruction is counted again when a jump leads to it after it was decoded, so the
  function that consists of a single jump to itself has twice its size.
\<close>

theorem function_size_bound:
  assumes "simple_architecture decode" "picks pick" "permutes order" "start < 2 ^ 64"
    and "func_new pick order decode start uuid reg nam = Some (Inr f)"
  shows "(\<Sum>a \<in> reached decode start. bytes_of (found (decode a))) \<le> f_size f"
  using simple_architecture.new_function [OF assms(1-4), of uuid reg nam] assms(5)
  by (auto simp: explored_def Let_def split: if_splits)

lemma work_loop_unfold:
  "w_todo w = {} \<Longrightarrow> work_loop pick decode w = Some w"
  "w_todo w \<noteq> {} \<Longrightarrow> visit decode (pick (w_todo w)) w = Some w' \<Longrightarrow> work_loop pick decode w = work_loop pick decode w'"
  by (subst work_loop.simps, simp)+

lemma loop_counted_twice: "\<exists>w. work_loop Min loop_decode (initial_work 0) = Some w \<and> w_size w = 2"
proof -
  define w1 where "w1 = \<lparr>w_todo = {0}, w_mnemonics = [(0, [MoeMnemonic loop_mnemonic])], w_by_source = [(0, [(addr_rv 0, always)])],
     w_by_destination = [(0, [(RvUndefined, always), (addr_rv 0, always)])], w_size = 1\<rparr>"
  have v1: "visit loop_decode 0 (initial_work 0) = Some w1"
    by (simp add: initial_work_def w1_def visit_def decode_at_def loop_decode_def addr_rv_def new_u64_def mnemonic_size_def bound_len_def new_bound_def)
  have v2: "visit loop_decode 0 w1 = Some (w1\<lparr>w_todo := {}, w_size := 2\<rparr>)"
    by (simp add: w1_def visit_def mnemonic_size_def bound_len_def new_bound_def)
  have t: "w_todo (initial_work 0) = {0}" "w_todo w1 = {0}" by (simp_all add: initial_work_def w1_def)
  have "work_loop Min loop_decode (initial_work 0) = work_loop Min loop_decode w1"
    by (rule work_loop_unfold(2)) (simp_all add: t v1)
  also have "\<dots> = work_loop Min loop_decode (w1\<lparr>w_todo := {}, w_size := 2\<rparr>)"
    by (rule work_loop_unfold(2)) (simp_all add: t v2)
  also have "\<dots> = Some (w1\<lparr>w_todo := {}, w_size := 2\<rparr>)" by (rule work_loop_unfold(1)) simp
  finally show ?thesis by simp
qed

theorem function_size_bound_witness:
  "\<exists>f. func_new Min insertion_order loop_decode 0 (7 :: nat) ''ram'' None = Some (Inr f) \<and> bytes_of [loop_mnemonic] \<le> f_size f \<and> f_size f = 2"
proof -
  obtain f where f: "func_new Min insertion_order loop_decode 0 (7 :: nat) ''ram'' None = Some (Inr f)" using loop_function by blast
  obtain w where w: "work_loop Min loop_decode (initial_work 0) = Some w" "w_size w = 2" using loop_counted_twice by blast
  have "\<exists>f. func_new Min insertion_order loop_decode 0 (7 :: nat) ''ram'' None = Some (Inr f) \<and> f_size f = w_size w"
    using loop.new_function [OF loop_picks, of 0 "7 :: nat" "''ram''" None] unfolding w(1) loop_decodable by simp blast
  then have "f_size f = 2" using f w(2) by simp
  then show ?thesis using f function_size_bound [OF loop.simple_architecture_axioms loop_picks _ f] by auto
qed

end
