(* ===== verification/Mos6502_Function.thy ===== *)
theory Mos6502_Function
  imports Mos6502_Spec Function_Spec
begin

text \<open>
  Functions of the MOS 6502.  \<^verbatim>\<open>Mos::decode\<close> satisfies the laws that recursive disassembly asks of an
  architecture on regions that leave the last three addresses of the address space unused, where \<^verbatim>\<open>jsr\<close> panics.
  Disassembling a function of such a region therefore always returns, and the theorems on basic blocks and edges of
  \<open>Function_Spec\<close> hold for 6502 code; an example evaluates them.
\<close>

text \<open>\<^verbatim>\<open>Ok(st.into())\<close>: the match that \<^verbatim>\<open>Mos::decode\<close> returns.\<close>

definition mos_match :: "region \<Rightarrow> variant \<Rightarrow> nat \<Rightarrow> (u8, variant) dis_match option option" where
  "mos_match r cfg addr = map_option (map_option match_of_state) (mos_decode r addr cfg)"

definition mos_region :: "region \<Rightarrow> bool" where
  "mos_region r \<longleftrightarrow> wf_region r \<and> r_size r \<le> 0xFFFD"

definition defined_at :: "region \<Rightarrow> nat \<Rightarrow> bool" where
  "defined_at r a \<longleftrightarrow> a < r_size r \<and> region_cells r ! a \<noteq> None"

lemma mos_region_jsr: "mos_region r \<Longrightarrow> a < r_size r \<Longrightarrow> no_jsr_overflow b a"
  by (simp add: mos_region_def no_jsr_overflow_def unsigned_of_nat take_bit_nat_eq_self)

lemma mos_match_cases:
  assumes "mos_region r"
  shows "if defined_at r a
    then \<exists>m n. mos_match r cfg a = Some (Some m) \<and> dm_mnemonics m \<noteq> [] \<and> contiguous a (dm_mnemonics m) (a + n) \<and> 1 \<le> n \<and>
           (\<forall>x \<in> set (dm_mnemonics m). b_start (m_area x) = a) \<and> (\<forall>j \<in> set (dm_jumps m). fst j = a)
    else mos_match r cfg a = Some None"
proof (cases "defined_at r a")
  case True
  then obtain b where b: "a < r_size r" "region_cells r ! a = Some b" by (auto simp: defined_at_def)
  obtain st n where st: "mos_decode r a cfg = Some (Some st)" "1 \<le> n" "ds_mnemonics st \<noteq> []" "contiguous a (ds_mnemonics st) (a + n)"
    "\<forall>m \<in> set (ds_mnemonics st). b_start (m_area m) = a" "\<forall>j \<in> set (ds_jumps st). fst j = a"
    using mos_decodes [OF _ b mos_region_jsr [OF assms b(1)], of cfg] assms unfolding mos_region_def by blast
  then show ?thesis using True by (auto simp: mos_match_def match_of_state_def)
next
  case False
  then have "mos_decode r a cfg = Some None"
    using mos_undecodable [of r a cfg] assms by (auto simp: defined_at_def mos_region_def)
  then show ?thesis using False by (simp add: mos_match_def)
qed

lemma mos_found:
  assumes "mos_region r"
  shows "mos_match r cfg a \<noteq> None" "found (mos_match r cfg a) \<noteq> [] \<longleftrightarrow> defined_at r a"
    "m \<in> set (found (mos_match r cfg a)) \<Longrightarrow> b_start (m_area m) = a \<and> a \<le> b_end (m_area m)"
    "j \<in> set (jumps_of (mos_match r cfg a)) \<Longrightarrow> fst j = a"
    "defined_at r a \<Longrightarrow> \<exists>m \<in> set (found (mos_match r cfg a)). a < b_end (m_area m)"
proof -
  note cases = mos_match_cases [OF assms, of a cfg]
  show "mos_match r cfg a \<noteq> None" "found (mos_match r cfg a) \<noteq> [] \<longleftrightarrow> defined_at r a" using cases by (auto split: if_splits)
  show "m \<in> set (found (mos_match r cfg a)) \<Longrightarrow> b_start (m_area m) = a \<and> a \<le> b_end (m_area m)"
    using cases contiguous_areas by (fastforce split: if_splits)
  show "j \<in> set (jumps_of (mos_match r cfg a)) \<Longrightarrow> fst j = a" using cases by (auto split: if_splits)
  show "\<exists>m \<in> set (found (mos_match r cfg a)). a < b_end (m_area m)" if "defined_at r a"
  proof -
    from cases that obtain m n where m: "mos_match r cfg a = Some (Some m)" "dm_mnemonics m \<noteq> []" "contiguous a (dm_mnemonics m) (a + n)" "1 \<le> n"
      by auto
    show ?thesis by (rule bexI [of _ "last (dm_mnemonics m)"]) (use m contiguous_last [OF m(3,2)] in simp_all)
  qed
qed

interpretation mos: simple_architecture "if mos_region r then mos_match r cfg else (\<lambda>_. Some None)" for r cfg
proof
  show "(if mos_region r then mos_match r cfg else (\<lambda>_. Some None)) a \<noteq> None" for a using mos_found(1) by simp
  fix a m assume "m \<in> set (found ((if mos_region r then mos_match r cfg else (\<lambda>_. Some None)) a))"
  then have r: "mos_region r" "m \<in> set (found (mos_match r cfg a))" by (auto split: if_splits)
  from mos_found(3) [OF this] show "b_start (m_area m) \<le> b_end (m_area m)" "b_start (m_area m) = a" by simp_all
next
  fix a assume "found ((if mos_region r then mos_match r cfg else (\<lambda>_. Some None)) a) \<noteq> []"
  then have "mos_region r" "found (mos_match r cfg a) \<noteq> []" by (auto split: if_splits)
  then show "b_start (m_area (hd (found ((if mos_region r then mos_match r cfg else (\<lambda>_. Some None)) a)))) = a"
    using mos_found(3) [where r = r and cfg = cfg and a = a] by simp
next
  fix a j assume "j \<in> set (jumps_of ((if mos_region r then mos_match r cfg else (\<lambda>_. Some None)) a))"
  then show "fst j = a" using mos_found(4) by (auto split: if_splits)
qed

lemma mos_decodable: "mos_region r \<Longrightarrow> decodable (mos_match r cfg) start \<longleftrightarrow> defined_at r start"
  unfolding decodable_def using mos_found(2,5) [where r = r and cfg = cfg and a = start] by fastforce

section \<open>Example\<close>

text \<open>The program \<^verbatim>\<open>lda #7; jmp 0\<close>: a block of two instructions with an edge to itself.\<close>

definition lda_jmp :: region where
  "lda_jmp = region_wrap ''ram'' [0xA9, 7, 0x4C, 0, 0]"

lemma lda_jmp_region: "mos_region lda_jmp" "wf_region lda_jmp" "region_cells lda_jmp = [Some 0xA9, Some 7, Some 0x4C, Some 0, Some 0]"
  by (simp_all add: lda_jmp_def mos_region_def region_wrap_def new_region_def opaque_wrap_def new_bound_def wf_region_def region_cells.simps)

lemma jmp_row: "(0x4C, [imm16_rule], mos_jmp_direct) \<in> set mos_table"
  unfolding mos_table_def mos_rows_def mos_rows_adc_to_dey_def mos_rows_eor_to_tya_def set_append
  by (simp_all only: list.set insert_iff Un_iff simp_thms)

lemma lda_match:
  "\<exists>m. found (mos_match lda_jmp mos6502 0) = [m] \<and> m_area m = new_bound 0 2 \<and> m_opcode m = ''lda'' \<and>
     jumps_of (mos_match lda_jmp mos6502 0) = [(0, new_u16 2, always)]"
proof -
  have row: "(unat (0xA9 :: u8), [imm8_rule], mos_immediate ''lda'' (pure_sem mos_lda)) \<in> set mos_table" using immediate_rows(1) by simp
  obtain ss where ss: "mos_lda (RvConstant (ucast (7 :: u8)) 8) = Inr ss" using immediate_semantics(1) [of 7] by (auto simp: gives_def)
  obtain dis st m where st: "mos_disassembler = Some dis" "ds_mnemonics st = [m]" "m_area m = new_bound 0 2" "m_opcode m = ''lda''"
    "ds_jumps st = [(0, new_u16 2, always)]" "next_match dis [Some 0xA9, Some 7, Some 0x4C, Some 0, Some 0] 0 mos6502 = Some (Some st)"
    using immediate_decodes [OF row _ ss, of "[Some 0x4C, Some 0, Some 0]" 0 mos6502, unfolded add_0] by auto
  have "mos_decode lda_jmp 0 mos6502 = Some (Some st)"
    using st(6) by (simp add: mos_decode_cells [OF lda_jmp_region(2) st(1)] lda_jmp_region(3))
  then show ?thesis using st by (simp add: mos_match_def match_of_state_def)
qed

lemma jmp_match:
  "\<exists>m. found (mos_match lda_jmp mos6502 2) = [m] \<and> m_area m = new_bound 2 5 \<and> m_opcode m = ''jmp'' \<and>
     jumps_of (mos_match lda_jmp mos6502 2) = [(2, new_u16 0, always)]"
proof -
  let ?st = "matched_state 2 mos6502 0x4C (Imm16 0 0)"
  obtain dis st' where st': "mos_disassembler = Some dis" "mos_jmp_direct ?st = Some (st', True)"
    "next_match dis (Some 0x4C # map Some (operand_bytes (Imm16 0 0)) @ []) 2 mos6502 = Some (Some st')"
    using mos_next_match [of "0x4C" "Imm16 0 0" mos_jmp_direct 2 mos6502 "[]"] jmp_row by (auto simp: no_jsr_overflow_def)
  have d: "mos_decode lda_jmp 2 mos6502 = Some (Some st')"
    using st'(3) by (simp add: mos_decode_cells [OF lda_jmp_region(2) st'(1)] lda_jmp_region(3) numeral_2_eq_2)
  have "mos_jmp_direct ?st = Some ((after_mnemonic 3 ''jmp'' [Pointer True ''ram''] [new_u16 0] [] ?st)\<lparr>ds_jumps := [(2, new_u16 0, always)]\<rparr>, True)"
    by (simp add: mos_jmp_direct_def push_mnemonic_eq [OF mos_formats(4)] push_jump_eq)
  then have "st' = (after_mnemonic 3 ''jmp'' [Pointer True ''ram''] [new_u16 0] [] ?st)\<lparr>ds_jumps := [(2, new_u16 0, always)]\<rparr>"
    using st'(2) by simp
  then show ?thesis using d by (simp add: mos_match_def match_of_state_def after_mnemonic_def)
qed

lemma lda_jmp_reached: "reached (mos_match lda_jmp mos6502) 0 = {0, 2}"
proof
  have j: "targets (jumps_of (mos_match lda_jmp mos6502 0)) = {2}" "targets (jumps_of (mos_match lda_jmp mos6502 2)) = {0}"
    using lda_match jmp_match by (auto simp: targets_def new_u16_def)
  show "reached (mos_match lda_jmp mos6502) 0 \<subseteq> {0, 2}" by (rule reached_least) (use j in auto)
  show "{0, 2} \<subseteq> reached (mos_match lda_jmp mos6502) 0" using j reached.intros by fastforce
qed

lemma lda_jmp_architecture: "simple_architecture (mos_match lda_jmp mos6502)"
  using mos.simple_architecture_axioms [of lda_jmp mos6502] lda_jmp_region(1) by simp

lemma lda_jmp_function: "\<exists>f. func_new Min insertion_order (mos_match lda_jmp mos6502) 0 (7 :: nat) ''ram'' None = Some (Inr f)"
proof -
  have "defined_at lda_jmp 0"
    by (simp add: defined_at_def lda_jmp_region(3)) (simp add: lda_jmp_def region_wrap_def new_region_def opaque_wrap_def)
  then show ?thesis
    using simple_architecture.new_function [OF lda_jmp_architecture loop_picks, of 0 "7 :: nat" "''ram''" None]
      mos_decodable [OF lda_jmp_region(1), of mos6502 0] by (auto split: if_splits)
qed

section \<open>Properties\<close>

text \<open>
  C1: Disassembling a 6502 function from a region of at most 65533 bytes always returns, whatever
  bytes the region holds and wherever its jumps lead.  It succeeds if the byte at the start is defined; then the
  function starts there, its basic blocks hold the mnemonics of exactly the reachable
  addresses, and the reachable addresses without a defined byte are its error vertices.
\<close>

theorem mos_function_new:
  assumes "mos_region r" "picks pick" "permutes order" "start < 2 ^ 64"
  shows "if defined_at r start
    then \<exists>f. func_new pick order (mos_match r cfg) start uuid reg nam = Some (Inr f) \<and> func_start f = Some start \<and>
      concat (map bb_mnemonics (basic_blocks f)) =
        concat (map (\<lambda>a. found (mos_match r cfg a)) (sorted_list_of_set (reached (mos_match r cfg) start))) \<and>
      failures (f_cflow_graph f) = filter (\<lambda>a. \<not> defined_at r a) (sorted_list_of_set (reached (mos_match r cfg) start))
    else func_new pick order (mos_match r cfg) start uuid reg nam = Some (Inl ())"
proof -
  have arch: "simple_architecture (mos_match r cfg)" using mos.simple_architecture_axioms [of r cfg] assms(1) by simp
  have "filter (\<lambda>a. found (mos_match r cfg a) = []) as = filter (\<lambda>a. \<not> defined_at r a) as" for as
    using mos_found(2) [OF assms(1)] by (intro filter_cong) auto
  then show ?thesis
    using simple_architecture.new_function [OF arch assms(2-4), of uuid reg nam] mos_decodable [OF assms(1), of cfg start]
      simple_architecture.new_function_blocks [OF arch assms(2-4), of uuid reg nam] by (auto split: if_splits)
qed

theorem mos_function_new_witness:
  "mos_region (region_wrap ''ram'' [0xEA, 0x60]) \<and>
   (\<exists>f. func_new Min insertion_order (mos_match (region_wrap ''ram'' [0xEA, 0x60]) mos6502) 0 (7 :: nat) ''ram'' None = Some (Inr f) \<and> func_start f = Some 0)"
proof -
  have r: "mos_region (region_wrap ''ram'' [0xEA, 0x60])" "defined_at (region_wrap ''ram'' [0xEA, 0x60]) 0"
    by (simp_all add: mos_region_def defined_at_def region_wrap_def new_region_def opaque_wrap_def new_bound_def wf_region_def region_cells.simps)
  then show ?thesis using mos_function_new [OF r(1) loop_picks, of 0 mos6502 "7 :: nat" "''ram''" None] by auto
qed

text \<open>The properties of functions of \<open>Function_Spec\<close> at the example.\<close>

theorem disassembly_explores_witness:
  "\<exists>w x y. work_loop Min (mos_match lda_jmp mos6502) (initial_work 0) = Some w \<and>
     w_mnemonics w = [(0, [MoeMnemonic x]), (2, [MoeMnemonic y])] \<and> m_opcode x = ''lda'' \<and> m_opcode y = ''jmp'' \<and>
     hm_get (w_by_source w) 2 = [(new_u16 0, always)]"
proof -
  obtain x y where xy: "found (mos_match lda_jmp mos6502 0) = [x]" "m_opcode x = ''lda''" "found (mos_match lda_jmp mos6502 2) = [y]" "m_opcode y = ''jmp''"
    "jumps_of (mos_match lda_jmp mos6502 2) = [(2, new_u16 0, always)]" using lda_match jmp_match by blast
  have s: "sorted_list_of_set {0 :: nat, 2} = [0, 2]" by simp
  obtain w where "work_loop Min (mos_match lda_jmp mos6502) (initial_work 0) = Some w"
    "w_mnemonics w = [(0, [MoeMnemonic x]), (2, [MoeMnemonic y])]" "hm_get (w_by_source w) 2 = [(new_u16 0, always)]"
    using disassembly_explores [OF lda_jmp_architecture loop_picks(1), of 0] unfolding lda_jmp_reached s by (auto simp: xy entries_def)
  then show ?thesis using xy by blast
qed

theorem function_blocks_witness:
  "\<exists>f x y. func_new Min insertion_order (mos_match lda_jmp mos6502) 0 (7 :: nat) ''ram'' None = Some (Inr f) \<and>
     map bb_mnemonics (basic_blocks f) = [[x, y]] \<and> m_opcode x = ''lda'' \<and> m_opcode y = ''jmp'' \<and> failures (f_cflow_graph f) = []"
proof -
  let ?d = "mos_match lda_jmp mos6502"
  obtain f where f: "func_new Min insertion_order ?d 0 (7 :: nat) ''ram'' None = Some (Inr f)" using lda_jmp_function by blast
  obtain x y where xy: "found (?d 0) = [x]" "m_opcode x = ''lda''" "m_area x = new_bound 0 2" "found (?d 2) = [y]" "m_opcode y = ''jmp''"
    "m_area y = new_bound 2 5" "jumps_of (?d 0) = [(0, new_u16 2, always)]" "jumps_of (?d 2) = [(2, new_u16 0, always)]"
    using lda_match jmp_match by blast
  have s: "sorted_list_of_set {0 :: nat, 2} = [0, 2]" by simp
  have b: "concat (map bb_mnemonics (basic_blocks f)) = [x, y]" "failures (f_cflow_graph f) = []"
    "\<forall>b \<in> set (basic_blocks f). bb_mnemonics b \<noteq> []" "successively (block_boundary ?d 0) (basic_blocks f)"
    using function_blocks [OF lda_jmp_architecture loop_picks _ f] unfolding lda_jmp_reached s by (auto simp: xy block_ok_def)
  have "neighbours_in_block ?d 0 x y"
    by (auto simp: neighbours_in_block_def lda_jmp_reached xy new_bound_def targets_def new_u16_def)
  then have "basic_blocks f \<noteq> [b, c]" if "bb_mnemonics b = [x]" "bb_mnemonics c = [y]" for b c
    using b(4) that by (auto simp: block_boundary_def)
  then have "map bb_mnemonics (basic_blocks f) = [[x, y]]"
    using b(1,3) by (cases "basic_blocks f" rule: remdups_adj.cases) (auto simp: append_eq_Cons_conv Cons_eq_append_conv)
  then show ?thesis using f xy(2,5) b(2) by (intro exI [of _ f] exI [of _ x] exI [of _ y]) simp
qed


end
