(* ===== verification/Avr.thy ===== *)
theory Avr
  imports Rreil Disasm_Spec Region "HOL-Library.Monad_Syntax"
begin

text \<open>
  The AVR back end: configuration and builders of actions of \<^verbatim>\<open>avr/src/disassembler.rs\<close>, the semantics of
  \<^verbatim>\<open>avr/src/semantic.rs\<close> and the table of \<^verbatim>\<open>avr/src/syntax.rs\<close>.

  Tokens are 16-bit words.  The semantic functions receive the configuration but do not look at it,
  so the model omits it; the outer option of their result is a panic.  Log messages are not modelled.
\<close>

section \<open>Configuration\<close>

record mcu =
  mc_pc_bits :: nat
  mc_flashend :: nat
  mc_int_vec :: "(string \<times> nat \<times> string) list"
  mc_skip :: "(guard \<times> nat) option"

definition mcu_new :: "nat \<Rightarrow> (string \<times> nat \<times> string) list \<Rightarrow> mcu" where
  "mcu_new flashend iv =
     \<lparr>mc_pc_bits = (if flashend \<ge> 0x10000 then 22 else 16), mc_flashend = flashend, mc_int_vec = iv, mc_skip = None\<rparr>"

definition atmega103 :: mcu where
  "atmega103 = mcu_new 0xffff
    [(''RESET'', 0, ''MCU Reset Interrupt''), (''INT0'', 4, ''External Interrupt 0''), (''INT1'', 8, ''External Interrupt 1''),
     (''INT2'', 12, ''External Interrupt 2''), (''INT3'', 16, ''External Interrupt 3''), (''INT4'', 20, ''External Interrupt 4''),
     (''INT5'', 24, ''External Interrupt 5''), (''INT6'', 0x0e, ''External Interrupt 6''), (''INT7'', 0x10, ''External Interrupt 7''),
     (''OC2'', 0x12, ''Timer/Counter2 Compare Match''), (''OVF2'', 0x14, ''Timer/Counter2 Overflow''),
     (''ICP1'', 0x16, ''Timer/Counter1 Capture Event''), (''OC1A'', 0x18, ''Timer/Counter1 Compare Match A''),
     (''OC1B'', 0x1a, ''Timer/Counter1 Compare Match B''), (''OVF1'', 0x1c, ''Timer/Counter1 Overflow''),
     (''OC0'', 0x1e, ''Timer/Counter0 Compare Match''), (''OVF0'', 0x20, ''Timer/Counter0 Overflow''),
     (''SPI'', 0x22, ''SPI Serial Transfer Complete''), (''URXC'', 0x24, ''UART, Rx Complete''),
     (''UDRE'', 0x26, ''UART Data Register Empty''), (''UTXC'', 0x28, ''UART, Tx Complete''),
     (''ADCC'', 0x2a, ''ADC Conversion Complete''), (''ERDY'', 0x2c, ''EEPROM Ready''), (''ACI'', 0x2e, ''Analog Comparator'')]"

definition atmega8 :: mcu where
  "atmega8 = mcu_new 0xfff
    [(''RESET'', 0, ''MCU Reset Interrupt''), (''INT0'', 0x02, ''External Interrupt Request 0''),
     (''INT1'', 0x04, ''External Interrupt Request 1''), (''OC2'', 0x06, ''Timer/Counter2 Compare Match''),
     (''OVF2'', 0x08, ''Timer/Counter2 Overflow''), (''ICP1'', 0x0a, ''Timer/Counter1 Capture Event''),
     (''OC1A'', 0x0c, ''Timer/Counter1 Compare Match A''), (''OC1B'', 0x0e, ''Timer/Counter1 Compare Match B''),
     (''OVF1'', 0x10, ''Timer/Counter1 Overflow''), (''OVF0'', 0x12, ''Timer/Counter0 Overflow''),
     (''SPI'', 0x14, ''Serial Transfer Complete''), (''URXC'', 0x16, ''USART, Rx Complete''),
     (''UDRE'', 0x18, ''USART Data Register Empty''), (''UTXC'', 0x1a, ''USART, Tx Complete''),
     (''ADCC'', 0x1c, ''ADC Conversion Complete''), (''ERDY'', 0x1e, ''EEPROM Ready''), (''ACI'', 0x20, ''Analog Comparator''),
     (''TWI'', 0x22, ''2-wire Serial Interface''), (''SPMR'', 0x24, ''Store Program Memory Ready'')]"

definition atmega88 :: mcu where
  "atmega88 = mcu_new 0xfff
    [(''RESET'', 0, ''MCU Reset Interrupt''), (''INT0'', 2, ''External Interrupt Request 0''),
     (''INT1'', 4, ''External Interrupt Request 1''), (''PCI0'', 6, ''Pin Change Interrupt Request 0''),
     (''PCI1'', 8, ''Pin Change Interrupt Request 1''), (''PCI2'', 10, ''Pin Change Interrupt Request 2''),
     (''WDT'', 12, ''Watchdog Time-out Interrupt''), (''OC2A'', 14, ''Timer/Counter2 Compare Match A''),
     (''OC2B'', 16, ''Timer/Counter2 Compare Match B''), (''OVF2'', 18, ''Timer/Counter2 Overflow''),
     (''ICP1'', 20, ''Timer/Counter1 Capture Event''), (''OC1A'', 22, ''Timer/Counter1 Compare Match A''),
     (''OC1B'', 24, ''Timer/Counter1 Compare Match B''), (''OVF1'', 26, ''Timer/Counter1 Overflow''),
     (''OC0A'', 28, ''TimerCounter0 Compare Match A''), (''OC0B'', 30, ''TimerCounter0 Compare Match B''),
     (''OVF0'', 32, ''Timer/Couner0 Overflow''), (''SPI'', 34, ''SPI Serial Transfer Complete''), (''URXC'', 36, ''USART Rx Complete''),
     (''UDRE'', 38, ''USART, Data Register Empty''), (''UTXC'', 40, ''USART Tx Complete''), (''ADCC'', 42, ''ADC Conversion Complete''),
     (''ERDY'', 44, ''EEPROM Ready''), (''ACI'', 46, ''Analog Comparator''), (''TWI'', 48, ''Two-wire Serial Interface''),
     (''SPMR'', 50, ''Store Program Memory Read'')]"

definition atmega16 :: mcu where
  "atmega16 = mcu_new 0x1fff
    [(''RESET'', 0, ''MCU Reset Interrupt''), (''INT0'', 0x4, ''External Interrupt Request 0''),
     (''INT1'', 0x8, ''External Interrupt Request 1''), (''OC2'', 0xc, ''Timer/Counter2 Compare Match''),
     (''OVF2'', 0x10, ''Timer/Counter2 Overflow''), (''ICP1'', 0x14, ''Timer/Counter1 Capture Event''),
     (''OC1A'', 0x18, ''Timer/Counter1 Compare Match A''), (''OC1B'', 0x1c, ''Timer/Counter1 Compare Match B''),
     (''OVF1'', 0x20, ''Timer/Counter1 Overflow''), (''OVF0'', 0x24, ''Timer/Counter0 Overflow''),
     (''SPI'', 0x28, ''Serial Transfer Complete''), (''URXC'', 0x2c, ''USART, Rx Complete''),
     (''UDRE'', 0x30, ''USART Data Register Empty''), (''UTXC'', 0x34, ''USART, Tx Complete''),
     (''ADCC'', 0x38, ''ADC Conversion Complete''), (''ERDY'', 0x3c, ''EEPROM Ready''), (''ACI'', 0x40, ''Analog Comparator''),
     (''TWI'', 0x44, ''2-wire Serial Interface''), (''INT2'', 0x48, ''External Interrupt Request 2''),
     (''OC0'', 0x4c, ''Timer/Counter0 Compare Match''), (''SPMR'', 0x50, ''Store Program Memory Ready'')]"

definition wrap :: "mcu \<Rightarrow> nat \<Rightarrow> rvalue" where
  "wrap cfg addr = RvConstant (of_nat (addr mod ((mc_flashend cfg + 1) * 2))) (mc_pc_bits cfg)"

type_synonym avr_state = "(u16, mcu) dstate"
type_synonym avr_action = "(u16, mcu) action"

datatype address_register = RegX | RegY | RegZ

datatype address_offset = OffNone | Predecrement | Postincrement | Displacement

section \<open>Semantic functions\<close>

text \<open>\<^verbatim>\<open>.ok().unwrap()\<close>\<close>

definition ok :: "'e + 'a \<Rightarrow> 'a option" where
  "ok r = (case r of Inl _ \<Rightarrow> None | Inr x \<Rightarrow> Some x)"

definition avr_adc :: "lvalue \<Rightarrow> rvalue \<Rightarrow> (il_error + statement list) option" where
  "avr_adc rd rr = do {
     half_rd \<leftarrow> (case rd of LvVariable name _ sz \<Rightarrow> (if sz = 8 then Some (RvVariable name None 0 4) else None) | LvUndefined \<Rightarrow> None);
     Some (rreil
      [rreil_extop ZeroExtend 8 (rreil_lvalue ''carry'' 8) (rreil_rvalue ''C'' 1),
       rreil_binop Add (rreil_lvalue ''res'' 8) (rvalue_of_lvalue rd) rr,
       rreil_binop Add (rreil_lvalue ''res'' 8) (rreil_rvalue ''res'' 8) (rreil_rvalue ''carry'' 8),
       rreil_binop Equal (rreil_lvalue ''Z'' 1) (rreil_rvalue ''res'' 8) (rreil_const 0 8),
       rreil_binop LessOrEqualSigned (rreil_lvalue ''N'' 1) (rreil_rvalue ''res'' 8) (rreil_const 0 8),
       rreil_binop Equal (rreil_lvalue ''cf1'' 1) (rreil_rvalue ''res'' 8) (rvalue_of_lvalue rd),
       rreil_binop LessUnsigned (rreil_lvalue ''cf2'' 1) (rreil_rvalue ''res'' 8) (rvalue_of_lvalue rd),
       rreil_binop And (rreil_lvalue ''cf1'' 1) (rreil_rvalue ''cf1'' 1) (rreil_rvalue ''C'' 1),
       rreil_binop InclusiveOr (rreil_lvalue ''C'' 1) (rreil_rvalue ''cf1'' 1) (rreil_rvalue ''cf2'' 1),
       rreil_binop Equal (rreil_lvalue ''h1'' 1) (rreil_rvalue ''res'' 4) half_rd,
       rreil_binop LessUnsigned (rreil_lvalue ''h2'' 1) (rreil_rvalue ''res'' 4) half_rd,
       rreil_binop And (rreil_lvalue ''h1'' 1) (rreil_rvalue ''h1'' 1) (rreil_rvalue ''H'' 1),
       rreil_binop InclusiveOr (rreil_lvalue ''H'' 1) (rreil_rvalue ''h1'' 1) (rreil_rvalue ''h2'' 1),
       rreil_binop LessOrEqualSigned (rreil_lvalue ''s1'' 1) (rreil_const 0 8) (rvalue_of_lvalue rd),
       rreil_binop LessOrEqualSigned (rreil_lvalue ''s2'' 1) (rreil_const 0 8) rr,
       rreil_binop LessSigned (rreil_lvalue ''s3'' 1) (rreil_rvalue ''res'' 8) (rreil_const 0 8),
       rreil_binop LessSigned (rreil_lvalue ''t1'' 1) (rvalue_of_lvalue rd) (rreil_const 0 8),
       rreil_binop LessSigned (rreil_lvalue ''t2'' 1) rr (rreil_const 0 8),
       rreil_binop LessOrEqualSigned (rreil_lvalue ''t3'' 1) (rreil_const 0 8) (rreil_rvalue ''res'' 8),
       rreil_binop And (rreil_lvalue ''v1'' 1) (rreil_rvalue ''s1'' 1) (rreil_rvalue ''s2'' 1),
       rreil_binop And (rreil_lvalue ''v1'' 1) (rreil_rvalue ''v1'' 1) (rreil_rvalue ''s3'' 1),
       rreil_binop And (rreil_lvalue ''v2'' 1) (rreil_rvalue ''t1'' 1) (rreil_rvalue ''t2'' 1),
       rreil_binop And (rreil_lvalue ''v2'' 1) (rreil_rvalue ''v2'' 1) (rreil_rvalue ''t3'' 1),
       rreil_binop InclusiveOr (rreil_lvalue ''V'' 1) (rreil_rvalue ''v1'' 1) (rreil_rvalue ''v2'' 1),
       rreil_binop ExclusiveOr (rreil_lvalue ''S'' 1) (rreil_rvalue ''N'' 1) (rreil_rvalue ''V'' 1),
       rreil_unop Move rd (rreil_rvalue ''res'' 8)])
   }"

definition avr_add :: "lvalue \<Rightarrow> rvalue \<Rightarrow> (il_error + statement list) option" where
  "avr_add rd rr = do {
     half_rd \<leftarrow> ok (lvalue_extract rd 4 0);
     Some (rreil
      [rreil_binop Add (rreil_lvalue ''res'' 8) (rvalue_of_lvalue rd) rr,
       rreil_binop Equal (rreil_lvalue ''Z'' 1) (rreil_rvalue ''res'' 8) (rreil_const 0 8),
       rreil_binop LessOrEqualSigned (rreil_lvalue ''N'' 1) (rreil_rvalue ''res'' 8) (rreil_const 0 8),
       rreil_binop LessUnsigned (rreil_lvalue ''C'' 1) (rreil_rvalue ''res'' 8) (rvalue_of_lvalue rd),
       rreil_binop LessUnsigned (rreil_lvalue ''H'' 1) (rreil_rvalue ''res'' 4) half_rd,
       rreil_binop LessOrEqualSigned (rreil_lvalue ''s1'' 1) (rreil_const 0 8) (rvalue_of_lvalue rd),
       rreil_binop LessOrEqualSigned (rreil_lvalue ''s2'' 1) (rreil_const 0 8) rr,
       rreil_binop LessSigned (rreil_lvalue ''s3'' 1) (rreil_rvalue ''res'' 8) (rreil_const 0 8),
       rreil_binop LessSigned (rreil_lvalue ''t1'' 1) (rvalue_of_lvalue rd) (rreil_const 0 8),
       rreil_binop LessSigned (rreil_lvalue ''t2'' 1) rr (rreil_const 0 8),
       rreil_binop LessOrEqualSigned (rreil_lvalue ''t3'' 1) (rreil_const 0 8) (rreil_rvalue ''res'' 8),
       rreil_binop And (rreil_lvalue ''v1'' 1) (rreil_rvalue ''s1'' 1) (rreil_rvalue ''s2'' 1),
       rreil_binop And (rreil_lvalue ''v1'' 1) (rreil_rvalue ''v1'' 1) (rreil_rvalue ''s3'' 1),
       rreil_binop And (rreil_lvalue ''v2'' 1) (rreil_rvalue ''t1'' 1) (rreil_rvalue ''t2'' 1),
       rreil_binop And (rreil_lvalue ''v2'' 1) (rreil_rvalue ''v2'' 1) (rreil_rvalue ''t3'' 1),
       rreil_binop InclusiveOr (rreil_lvalue ''V'' 1) (rreil_rvalue ''v1'' 1) (rreil_rvalue ''v2'' 1),
       rreil_binop ExclusiveOr (rreil_lvalue ''S'' 1) (rreil_rvalue ''N'' 1) (rreil_rvalue ''V'' 1),
       rreil_unop Move rd (rreil_rvalue ''res'' 8)])
   }"

definition avr_and :: "lvalue \<Rightarrow> rvalue \<Rightarrow> (il_error + statement list) option" where
  "avr_and rd rr = Some (rreil
      [rreil_binop And (rreil_lvalue ''res'' 8) (rvalue_of_lvalue rd) rr,
       rreil_unop Move (rreil_lvalue ''V'' 1) (rreil_const 0 1),
       rreil_binop Equal (rreil_lvalue ''Z'' 1) (rreil_rvalue ''res'' 8) (rreil_const 0 8),
       rreil_binop LessOrEqualSigned (rreil_lvalue ''N'' 1) (rreil_rvalue ''res'' 8) (rreil_const 0 8),
       rreil_binop LessOrEqualSigned (rreil_lvalue ''S'' 1) (rreil_rvalue ''res'' 8) (rreil_const 0 8)])"

definition avr_asr :: "lvalue \<Rightarrow> (il_error + statement list) option" where
  "avr_asr rd = Some (rreil
      [rreil_unop Move (rreil_lvalue ''lsb'' 1) (rreil_rvalue ''C'' 1),
       rreil_binop LessUnsigned (rreil_lvalue ''C'' 1) (rreil_const 0x7f 8) (rvalue_of_lvalue rd),
       rreil_binop ShiftLeft rd (rvalue_of_lvalue rd) (rreil_const 1 8),
       rreil_selop 0 rd (rreil_rvalue ''lsb'' 1),
       rreil_binop Equal (rreil_lvalue ''Z'' 1) (rreil_rvalue ''res'' 8) (rreil_const 0 8),
       rreil_binop LessOrEqualSigned (rreil_lvalue ''N'' 1) (rreil_rvalue ''res'' 8) (rreil_const 0 8),
       rreil_binop ExclusiveOr (rreil_lvalue ''V'' 1) (rreil_rvalue ''N'' 1) (rreil_rvalue ''C'' 1),
       rreil_unop Move (rreil_lvalue ''S'' 1) (rreil_rvalue ''C'' 1)])"

definition avr_break :: "(il_error + statement list) option" where
  "avr_break = Some (Inr [])"

definition avr_bld :: "lvalue \<Rightarrow> u64 \<Rightarrow> (il_error + statement list) option" where
  "avr_bld rd b = Some (rreil
      [rreil_selop (unat b) rd (rreil_rvalue ''T'' 1)])"

definition avr_bst :: "lvalue \<Rightarrow> u64 \<Rightarrow> (il_error + statement list) option" where
  "avr_bst rd b = do {
     r \<leftarrow> ok (lvalue_extract rd 1 (unat b));
     Some (rreil
      [rreil_unop Move (rreil_lvalue ''T'' 1) r])
   }"

definition avr_cbx :: "lvalue \<Rightarrow> u64 \<Rightarrow> (il_error + statement list) option" where
  "avr_cbx rd b = Some (rreil
      [rreil_selop (unat b) rd (rreil_const 0 1)])"

definition avr_com :: "lvalue \<Rightarrow> (il_error + statement list) option" where
  "avr_com rd = Some (rreil
      [rreil_binop Subtract (rreil_lvalue ''res'' 8) (rreil_const 0xff 8) (rvalue_of_lvalue rd),
       rreil_unop Move (rreil_lvalue ''C'' 1) (rreil_const 0 1),
       rreil_binop Equal (rreil_lvalue ''Z'' 1) (rreil_const 0 8) (rreil_rvalue ''res'' 8),
       rreil_binop LessSigned (rreil_lvalue ''N'' 1) (rreil_rvalue ''res'' 8) (rreil_const 0 8),
       rreil_unop Move (rreil_lvalue ''V'' 1) (rreil_const 0 1),
       rreil_unop Move (rreil_lvalue ''S'' 1) (rreil_rvalue ''N'' 1)])"

definition avr_cp :: "lvalue \<Rightarrow> rvalue \<Rightarrow> (il_error + statement list) option" where
  "avr_cp rd rr = do {
     half_rd \<leftarrow> ok (lvalue_extract rd 4 0);
     Some (rreil
      [rreil_binop Subtract (rreil_lvalue ''res'' 8) (rvalue_of_lvalue rd) rr,
       rreil_binop LessUnsigned (rreil_lvalue ''C'' 1) (rvalue_of_lvalue rd) (rreil_rvalue ''res'' 8),
       rreil_binop LessUnsigned (rreil_lvalue ''H'' 1) half_rd (rreil_rvalue ''res'' 4),
       rreil_binop LessOrEqualSigned (rreil_lvalue ''s1'' 1) (rvalue_of_lvalue rd) (rreil_const 0 8),
       rreil_binop LessOrEqualSigned (rreil_lvalue ''s2'' 1) rr (rreil_const 0 8),
       rreil_binop LessSigned (rreil_lvalue ''s3'' 1) (rreil_const 0 8) (rreil_rvalue ''res'' 8),
       rreil_binop LessSigned (rreil_lvalue ''t1'' 1) (rreil_const 0 8) (rvalue_of_lvalue rd),
       rreil_binop LessSigned (rreil_lvalue ''t2'' 1) (rreil_const 0 8) rr,
       rreil_binop LessOrEqualSigned (rreil_lvalue ''t3'' 1) (rreil_rvalue ''res'' 8) (rreil_const 0 8),
       rreil_binop And (rreil_lvalue ''v1'' 1) (rreil_rvalue ''s1'' 1) (rreil_rvalue ''s2'' 1),
       rreil_binop And (rreil_lvalue ''v1'' 1) (rreil_rvalue ''v1'' 1) (rreil_rvalue ''s3'' 1),
       rreil_binop And (rreil_lvalue ''v2'' 1) (rreil_rvalue ''t1'' 1) (rreil_rvalue ''t2'' 1),
       rreil_binop And (rreil_lvalue ''v2'' 1) (rreil_rvalue ''v2'' 1) (rreil_rvalue ''t3'' 1),
       rreil_binop InclusiveOr (rreil_lvalue ''V'' 1) (rreil_rvalue ''v1'' 1) (rreil_rvalue ''v2'' 1),
       rreil_binop Equal (rreil_lvalue ''Z'' 1) (rreil_rvalue ''res'' 8) (rreil_const 0 8),
       rreil_binop LessUnsigned (rreil_lvalue ''N'' 1) (rreil_rvalue ''res'' 8) (rreil_const 0 8),
       rreil_binop ExclusiveOr (rreil_lvalue ''S'' 1) (rreil_rvalue ''V'' 1) (rreil_rvalue ''N'' 1)])
   }"

definition avr_cpc :: "lvalue \<Rightarrow> rvalue \<Rightarrow> (il_error + statement list) option" where
  "avr_cpc rd rr = do {
     half_rd \<leftarrow> ok (lvalue_extract rd 4 0);
     Some (rreil
      [rreil_extop ZeroExtend 8 (rreil_lvalue ''carry'' 8) (rreil_rvalue ''C'' 1),
       rreil_binop Subtract (rreil_lvalue ''res'' 8) (rvalue_of_lvalue rd) rr,
       rreil_binop Subtract (rreil_lvalue ''res'' 8) (rreil_rvalue ''res'' 8) (rreil_rvalue ''carry'' 8),
       rreil_binop Equal (rreil_lvalue ''cf1'' 1) (rreil_rvalue ''res'' 8) (rvalue_of_lvalue rd),
       rreil_binop LessUnsigned (rreil_lvalue ''cf2'' 1) (rreil_rvalue ''res'' 8) (rvalue_of_lvalue rd),
       rreil_binop And (rreil_lvalue ''cf1'' 1) (rreil_rvalue ''cf1'' 1) (rreil_rvalue ''C'' 1),
       rreil_binop InclusiveOr (rreil_lvalue ''C'' 1) (rreil_rvalue ''cf1'' 1) (rreil_rvalue ''cf2'' 1),
       rreil_binop Equal (rreil_lvalue ''h1'' 1) (rreil_rvalue ''res'' 4) half_rd,
       rreil_binop LessUnsigned (rreil_lvalue ''h2'' 1) (rreil_rvalue ''res'' 4) half_rd,
       rreil_binop And (rreil_lvalue ''h1'' 1) (rreil_rvalue ''h1'' 1) (rreil_rvalue ''H'' 1),
       rreil_binop InclusiveOr (rreil_lvalue ''H'' 1) (rreil_rvalue ''h1'' 1) (rreil_rvalue ''h2'' 1),
       rreil_binop LessOrEqualSigned (rreil_lvalue ''s1'' 1) (rvalue_of_lvalue rd) (rreil_const 0 8),
       rreil_binop LessOrEqualSigned (rreil_lvalue ''s2'' 1) rr (rreil_const 0 8),
       rreil_binop LessSigned (rreil_lvalue ''s3'' 1) (rreil_const 0 8) (rreil_rvalue ''res'' 8),
       rreil_binop LessSigned (rreil_lvalue ''t1'' 1) (rreil_const 0 8) (rvalue_of_lvalue rd),
       rreil_binop LessSigned (rreil_lvalue ''t2'' 1) (rreil_const 0 8) rr,
       rreil_binop LessOrEqualSigned (rreil_lvalue ''t3'' 1) (rreil_rvalue ''res'' 8) (rreil_const 0 8),
       rreil_binop And (rreil_lvalue ''v1'' 1) (rreil_rvalue ''s1'' 1) (rreil_rvalue ''s2'' 1),
       rreil_binop And (rreil_lvalue ''v1'' 1) (rreil_rvalue ''v1'' 1) (rreil_rvalue ''s3'' 1),
       rreil_binop And (rreil_lvalue ''v2'' 1) (rreil_rvalue ''t1'' 1) (rreil_rvalue ''t2'' 1),
       rreil_binop And (rreil_lvalue ''v2'' 1) (rreil_rvalue ''v2'' 1) (rreil_rvalue ''t3'' 1),
       rreil_binop InclusiveOr (rreil_lvalue ''V'' 1) (rreil_rvalue ''v1'' 1) (rreil_rvalue ''v2'' 1),
       rreil_binop Equal (rreil_lvalue ''Z'' 1) (rreil_rvalue ''res'' 8) (rreil_const 0 8),
       rreil_binop LessUnsigned (rreil_lvalue ''N'' 1) (rreil_rvalue ''res'' 8) (rreil_const 0 8),
       rreil_binop ExclusiveOr (rreil_lvalue ''S'' 1) (rreil_rvalue ''V'' 1) (rreil_rvalue ''N'' 1)])
   }"

definition avr_dec :: "lvalue \<Rightarrow> (il_error + statement list) option" where
  "avr_dec rd = Some (rreil
      [rreil_binop Equal (rreil_lvalue ''V'' 1) (rvalue_of_lvalue rd) (rreil_const 0x80 8),
       rreil_binop Subtract rd (rvalue_of_lvalue rd) (rreil_const 1 8),
       rreil_binop Equal (rreil_lvalue ''Z'' 1) (rreil_rvalue ''res'' 8) (rreil_const 0 8),
       rreil_binop LessUnsigned (rreil_lvalue ''N'' 1) (rreil_rvalue ''res'' 8) (rreil_const 0 8),
       rreil_binop ExclusiveOr (rreil_lvalue ''S'' 1) (rreil_rvalue ''V'' 1) (rreil_rvalue ''N'' 1)])"

definition avr_eicall :: "(il_error + statement list) option" where
  "avr_eicall = Some (rreil
      [rreil_extop ZeroExtend 22 (rreil_lvalue ''p'' 22) (rreil_rvalue ''R30'' 8),
       rreil_selop 8 (rreil_lvalue ''p'' 22) (rreil_rvalue ''R31'' 8),
       rreil_selop 16 (rreil_lvalue ''p'' 22) (rreil_rvalue ''EIND'' 6),
       rreil_load ''sram'' Big 24 (rreil_lvalue ''q'' 24) (rreil_rvalue ''p'' 22),
       rreil_callop (rreil_rvalue ''q'' 24)])"

definition avr_eor :: "lvalue \<Rightarrow> rvalue \<Rightarrow> (il_error + statement list) option" where
  "avr_eor rd rr = Some (rreil
      [rreil_binop ExclusiveOr (rreil_lvalue ''res'' 8) (rvalue_of_lvalue rd) rr,
       rreil_unop Move (rreil_lvalue ''V'' 1) (rreil_const 0 1),
       rreil_binop Equal (rreil_lvalue ''Z'' 1) (rreil_rvalue ''res'' 8) (rreil_const 0 8),
       rreil_binop LessUnsigned (rreil_lvalue ''N'' 1) (rreil_rvalue ''res'' 8) (rreil_const 0 8),
       rreil_binop ExclusiveOr (rreil_lvalue ''S'' 1) (rreil_rvalue ''V'' 1) (rreil_rvalue ''N'' 1)])"

definition avr_fmul :: "lvalue \<Rightarrow> rvalue \<Rightarrow> (il_error + statement list) option" where
  "avr_fmul rd rr = Some (rreil
      [rreil_extop ZeroExtend 16 (rreil_lvalue ''rd'' 16) (rvalue_of_lvalue rd),
       rreil_extop ZeroExtend 16 (rreil_lvalue ''rr'' 16) rr,
       rreil_binop Multiply (rreil_lvalue ''res'' 16) (rreil_rvalue ''rd'' 16) (rreil_rvalue ''rr'' 16),
       rreil_unop Move (rreil_lvalue ''C'' 1) (rreil_rvalue_off ''res'' 1 16),
       rreil_binop ShiftLeft (rreil_lvalue ''res'' 16) (rreil_rvalue ''res'' 16) (rreil_const 1 16),
       rreil_unop Move (rreil_lvalue ''R0'' 8) (rreil_rvalue ''res'' 8),
       rreil_unop Move (rreil_lvalue ''R1'' 8) (rreil_rvalue_off ''res'' 8 8),
       rreil_binop Equal (rreil_lvalue ''Z'' 1) (rreil_rvalue ''res'' 16) (rreil_const 0 16)])"

definition avr_fmuls :: "lvalue \<Rightarrow> rvalue \<Rightarrow> (il_error + statement list) option" where
  "avr_fmuls rd rr = Some (rreil
      [rreil_extop SignExtend 16 (rreil_lvalue ''rd'' 16) (rvalue_of_lvalue rd),
       rreil_extop SignExtend 16 (rreil_lvalue ''rr'' 16) rr,
       rreil_binop Multiply (rreil_lvalue ''res'' 16) (rreil_rvalue ''rd'' 16) (rreil_rvalue ''rr'' 16),
       rreil_unop Move (rreil_lvalue ''C'' 1) (rreil_rvalue_off ''res'' 1 16),
       rreil_binop ShiftLeft (rreil_lvalue ''res'' 16) (rreil_rvalue ''res'' 16) (rreil_const 1 16),
       rreil_unop Move (rreil_lvalue ''R0'' 8) (rreil_rvalue ''res'' 8),
       rreil_unop Move (rreil_lvalue ''R1'' 8) (rreil_rvalue_off ''res'' 8 8),
       rreil_binop Equal (rreil_lvalue ''Z'' 1) (rreil_rvalue ''res'' 16) (rreil_const 0 16)])"

definition avr_fmulsu :: "lvalue \<Rightarrow> rvalue \<Rightarrow> (il_error + statement list) option" where
  "avr_fmulsu rd rr = Some (rreil
      [rreil_extop SignExtend 16 (rreil_lvalue ''rd'' 16) (rvalue_of_lvalue rd),
       rreil_extop ZeroExtend 16 (rreil_lvalue ''rr'' 16) rr,
       rreil_binop Multiply (rreil_lvalue ''res'' 16) (rreil_rvalue ''rd'' 16) (rreil_rvalue ''rr'' 16),
       rreil_unop Move (rreil_lvalue ''C'' 1) (rreil_rvalue_off ''res'' 1 16),
       rreil_binop ShiftLeft (rreil_lvalue ''res'' 16) (rreil_rvalue ''res'' 16) (rreil_const 1 16),
       rreil_unop Move (rreil_lvalue ''R0'' 8) (rreil_rvalue ''res'' 8),
       rreil_unop Move (rreil_lvalue ''R1'' 8) (rreil_rvalue_off ''res'' 8 8),
       rreil_binop Equal (rreil_lvalue ''Z'' 1) (rreil_rvalue ''res'' 16) (rreil_const 0 16)])"

definition avr_inc :: "lvalue \<Rightarrow> (il_error + statement list) option" where
  "avr_inc rd = Some (rreil
      [rreil_binop Equal (rreil_lvalue ''V'' 1) (rvalue_of_lvalue rd) (rreil_const 0x80 8),
       rreil_binop Add rd (rvalue_of_lvalue rd) (rreil_const 1 8),
       rreil_binop Equal (rreil_lvalue ''Z'' 1) (rreil_rvalue ''res'' 8) (rreil_const 0 8),
       rreil_binop LessUnsigned (rreil_lvalue ''N'' 1) (rreil_rvalue ''res'' 8) (rreil_const 0 8),
       rreil_binop ExclusiveOr (rreil_lvalue ''S'' 1) (rreil_rvalue ''V'' 1) (rreil_rvalue ''N'' 1)])"

definition avr_lac :: "lvalue \<Rightarrow> lvalue \<Rightarrow> (il_error + statement list) option" where
  "avr_lac ptr reg = Some (rreil
      [rreil_load ''sram'' Big 8 (rreil_lvalue ''zcont'' 8) (rvalue_of_lvalue ptr),
       rreil_binop ExclusiveOr (rreil_lvalue ''nreg'' 8) (rvalue_of_lvalue reg) (rreil_const 0xff 8),
       rreil_binop And reg (rreil_rvalue ''zcont'' 8) (rreil_rvalue ''nreg'' 8),
       rreil_store ''sram'' Big 8 (rvalue_of_lvalue reg) (rvalue_of_lvalue ptr)])"

definition avr_las :: "lvalue \<Rightarrow> lvalue \<Rightarrow> (il_error + statement list) option" where
  "avr_las ptr reg = Some (rreil
      [rreil_load ''sram'' Big 8 (rreil_lvalue ''zcont'' 8) (rvalue_of_lvalue ptr),
       rreil_binop InclusiveOr reg (rvalue_of_lvalue reg) (rreil_rvalue ''zcont'' 8),
       rreil_store ''sram'' Big 8 (rvalue_of_lvalue reg) (rvalue_of_lvalue ptr)])"

definition avr_lat :: "lvalue \<Rightarrow> lvalue \<Rightarrow> (il_error + statement list) option" where
  "avr_lat ptr reg = Some (rreil
      [rreil_load ''sram'' Big 8 (rreil_lvalue ''zcont'' 8) (rvalue_of_lvalue ptr),
       rreil_binop ExclusiveOr reg (rvalue_of_lvalue reg) (rreil_rvalue ''zcont'' 8),
       rreil_store ''sram'' Big 8 (rvalue_of_lvalue reg) (rvalue_of_lvalue ptr)])"

definition avr_ld :: "lvalue \<Rightarrow> lvalue \<Rightarrow> (il_error + statement list) option" where
  "avr_ld ptr reg = Some (rreil
      [rreil_load ''sram'' Big 8 reg (rvalue_of_lvalue ptr)])"

definition avr_ldi :: "lvalue \<Rightarrow> u64 \<Rightarrow> (il_error + statement list) option" where
  "avr_ldi rd k = Some (rreil
      [rreil_unop Move rd (rreil_const k 8)])"

definition avr_lsr :: "lvalue \<Rightarrow> (il_error + statement list) option" where
  "avr_lsr rd = do {
     rd_1_0 \<leftarrow> ok (lvalue_extract rd 1 0);
     Some (rreil
      [rreil_unop Move (rreil_lvalue ''C'' 1) rd_1_0,
       rreil_binop ShiftRightUnsigned rd (rvalue_of_lvalue rd) (rreil_const 1 8),
       rreil_unop Move (rreil_lvalue ''N'' 1) (rreil_const 0 1),
       rreil_binop Equal (rreil_lvalue ''Z'' 1) (rvalue_of_lvalue rd) (rreil_const 0 8),
       rreil_binop ExclusiveOr (rreil_lvalue ''V'' 1) (rreil_rvalue ''C'' 1) (rreil_rvalue ''N'' 1),
       rreil_binop ExclusiveOr (rreil_lvalue ''S'' 1) (rreil_rvalue ''V'' 1) (rreil_rvalue ''N'' 1)])
   }"

definition avr_mov :: "lvalue \<Rightarrow> rvalue \<Rightarrow> (il_error + statement list) option" where
  "avr_mov rd rr = Some (rreil
      [rreil_unop Move rd rr])"

definition avr_mul :: "lvalue \<Rightarrow> rvalue \<Rightarrow> (il_error + statement list) option" where
  "avr_mul rd rr = Some (rreil
      [rreil_extop ZeroExtend 16 (rreil_lvalue ''rd'' 16) (rvalue_of_lvalue rd),
       rreil_extop ZeroExtend 16 (rreil_lvalue ''rr'' 16) rr,
       rreil_binop Multiply (rreil_lvalue ''res'' 16) (rreil_rvalue ''rd'' 16) (rreil_rvalue ''rr'' 16),
       rreil_unop Move (rreil_lvalue ''C'' 1) (rreil_rvalue_off ''res'' 1 16),
       rreil_binop Equal (rreil_lvalue ''Z'' 1) (rreil_rvalue ''res'' 16) (rreil_const 0 16),
       rreil_unop Move (rreil_lvalue ''R0'' 8) (rreil_rvalue ''res'' 8),
       rreil_unop Move (rreil_lvalue ''R1'' 8) (rreil_rvalue_off ''res'' 8 8)])"

definition avr_muls :: "lvalue \<Rightarrow> rvalue \<Rightarrow> (il_error + statement list) option" where
  "avr_muls rd rr = Some (rreil
      [rreil_extop SignExtend 16 (rreil_lvalue ''rd'' 16) (rvalue_of_lvalue rd),
       rreil_extop SignExtend 16 (rreil_lvalue ''rr'' 16) rr,
       rreil_binop Multiply (rreil_lvalue ''res'' 16) (rreil_rvalue ''rd'' 16) (rreil_rvalue ''rr'' 16),
       rreil_unop Move (rreil_lvalue ''C'' 1) (rreil_rvalue_off ''res'' 1 16),
       rreil_unop Move (rreil_lvalue ''R0'' 8) (rreil_rvalue ''res'' 8),
       rreil_unop Move (rreil_lvalue ''R1'' 8) (rreil_rvalue_off ''res'' 8 8),
       rreil_binop Equal (rreil_lvalue ''Z'' 1) (rreil_rvalue ''res'' 16) (rreil_const 0 16)])"

definition avr_mulsu :: "lvalue \<Rightarrow> rvalue \<Rightarrow> (il_error + statement list) option" where
  "avr_mulsu rd rr = Some (rreil
      [rreil_extop SignExtend 16 (rreil_lvalue ''rd'' 16) (rvalue_of_lvalue rd),
       rreil_extop ZeroExtend 16 (rreil_lvalue ''rr'' 16) rr,
       rreil_binop Multiply (rreil_lvalue ''res'' 16) (rreil_rvalue ''rd'' 16) (rreil_rvalue ''rr'' 16),
       rreil_unop Move (rreil_lvalue ''C'' 1) (rreil_rvalue_off ''res'' 1 16),
       rreil_unop Move (rreil_lvalue ''R0'' 8) (rreil_rvalue ''res'' 8),
       rreil_unop Move (rreil_lvalue ''R1'' 8) (rreil_rvalue_off ''res'' 8 8),
       rreil_binop Equal (rreil_lvalue ''Z'' 1) (rreil_rvalue ''res'' 16) (rreil_const 0 16)])"

definition avr_neg :: "lvalue \<Rightarrow> (il_error + statement list) option" where
  "avr_neg rd = do {
     rd_1_3 \<leftarrow> ok (lvalue_extract rd 1 3);
     Some (rreil
      [rreil_binop Subtract (rreil_lvalue ''res'' 8) (rreil_const 0 8) (rvalue_of_lvalue rd),
       rreil_binop LessSigned (rreil_lvalue ''N'' 1) (rreil_rvalue ''res'' 8) (rreil_const 0 8),
       rreil_binop Equal (rreil_lvalue ''Z'' 1) (rreil_rvalue ''res'' 8) (rreil_const 0 8),
       rreil_binop Equal (rreil_lvalue ''V'' 1) (rreil_rvalue ''res'' 8) (rreil_const 0x80 8),
       rreil_binop InclusiveOr (rreil_lvalue ''H'' 1) (rreil_rvalue_off ''res'' 1 3) rd_1_3,
       rreil_binop ExclusiveOr (rreil_lvalue ''S'' 1) (rreil_rvalue ''V'' 1) (rreil_rvalue ''N'' 1),
       rreil_unop Move rd (rreil_rvalue ''res'' 8)])
   }"

definition avr_nop :: "(il_error + statement list) option" where
  "avr_nop = Some (Inr [])"

definition avr_or :: "lvalue \<Rightarrow> rvalue \<Rightarrow> (il_error + statement list) option" where
  "avr_or rd rr = Some (rreil
      [rreil_binop InclusiveOr (rreil_lvalue ''res'' 8) (rvalue_of_lvalue rd) rr,
       rreil_binop LessSigned (rreil_lvalue ''N'' 1) (rreil_rvalue ''res'' 8) (rreil_const 0 8),
       rreil_binop Equal (rreil_lvalue ''Z'' 1) (rreil_rvalue ''res'' 8) (rreil_const 0 8),
       rreil_unop Move (rreil_lvalue ''V'' 1) (rreil_const 0 1),
       rreil_binop ExclusiveOr (rreil_lvalue ''S'' 1) (rreil_rvalue ''V'' 1) (rreil_rvalue ''N'' 1),
       rreil_unop Move rd (rreil_rvalue ''res'' 8)])"

definition avr_pop :: "lvalue \<Rightarrow> (il_error + statement list) option" where
  "avr_pop rd = Some (rreil
      [rreil_extop ZeroExtend 16 (rreil_lvalue ''stack'' 16) (rreil_rvalue ''spl'' 8),
       rreil_selop 8 (rreil_lvalue ''stack'' 16) (rreil_rvalue ''sph'' 8),
       rreil_binop Add (rreil_lvalue ''stack'' 16) (rreil_rvalue ''stack'' 16) (rreil_const 1 16),
       rreil_load ''ram'' Big 8 rd (rreil_rvalue ''stack'' 16),
       rreil_unop Move (rreil_lvalue ''spl'' 8) (rreil_rvalue ''stack'' 8),
       rreil_unop Move (rreil_lvalue ''sph'' 8) (rreil_rvalue_off ''stack'' 8 8)])"

definition avr_push :: "lvalue \<Rightarrow> (il_error + statement list) option" where
  "avr_push rd = Some (rreil
      [rreil_extop ZeroExtend 16 (rreil_lvalue ''stack'' 16) (rreil_rvalue ''spl'' 8),
       rreil_selop 8 (rreil_lvalue ''stack'' 16) (rreil_rvalue ''sph'' 8),
       rreil_load ''ram'' Big 8 rd (rreil_rvalue ''stack'' 16),
       rreil_binop Subtract (rreil_lvalue ''stack'' 16) (rreil_rvalue ''stack'' 16) (rreil_const 1 16),
       rreil_unop Move (rreil_lvalue ''spl'' 8) (rreil_rvalue ''stack'' 8),
       rreil_unop Move (rreil_lvalue ''sph'' 8) (rreil_rvalue_off ''stack'' 8 8)])"

definition avr_ret :: "(il_error + statement list) option" where
  "avr_ret = Some (Inr [])"

definition avr_ror :: "lvalue \<Rightarrow> (il_error + statement list) option" where
  "avr_ror rd = do {
     rd_1_7 \<leftarrow> ok (lvalue_extract rd 1 7);
     Some (rreil
      [rreil_unop Move (rreil_lvalue ''nc'' 1) rd_1_7,
       rreil_binop ShiftRightUnsigned rd (rvalue_of_lvalue rd) (rreil_const 1 8),
       rreil_selop 1 rd (rreil_rvalue ''C'' 1),
       rreil_unop Move (rreil_lvalue ''C'' 1) (rreil_rvalue ''nc'' 1),
       rreil_unop Move (rreil_lvalue ''N'' 1) (rreil_const 0 1),
       rreil_binop Equal (rreil_lvalue ''Z'' 1) (rvalue_of_lvalue rd) (rreil_const 0 8),
       rreil_binop ExclusiveOr (rreil_lvalue ''V'' 1) (rreil_rvalue ''C'' 1) (rreil_rvalue ''N'' 1),
       rreil_binop ExclusiveOr (rreil_lvalue ''S'' 1) (rreil_rvalue ''V'' 1) (rreil_rvalue ''N'' 1)])
   }"

definition avr_sbc :: "lvalue \<Rightarrow> rvalue \<Rightarrow> (il_error + statement list) option" where
  "avr_sbc rd rr = do {
     rd_4_0 \<leftarrow> ok (lvalue_extract rd 4 0);
     rr_4_0 \<leftarrow> Option.bind (rvalue_extract rr 4 0) ok;
     Some (rreil
      [rreil_extop ZeroExtend 8 (rreil_lvalue ''carry'' 8) (rreil_rvalue ''C'' 1),
       rreil_binop Subtract (rreil_lvalue ''res'' 8) (rvalue_of_lvalue rd) rr,
       rreil_binop Subtract (rreil_lvalue ''res'' 8) (rreil_rvalue ''res'' 8) (rreil_rvalue ''carry'' 8),
       rreil_binop Equal (rreil_lvalue ''maybe_z'' 1) (rreil_rvalue ''res'' 8) (rreil_const 0 8),
       rreil_binop And (rreil_lvalue ''Z'' 1) (rreil_rvalue ''Z'' 1) (rreil_rvalue ''maybe_z'' 1),
       rreil_binop LessOrEqualSigned (rreil_lvalue ''N'' 1) (rreil_rvalue ''res'' 8) (rreil_const 0 8),
       rreil_binop LessUnsigned (rreil_lvalue ''C'' 1) (rvalue_of_lvalue rd) rr,
       rreil_binop LessUnsigned (rreil_lvalue ''H'' 1) rd_4_0 rr_4_0,
       rreil_binop LessSigned (rreil_lvalue ''V'' 1) (rvalue_of_lvalue rd) rr,
       rreil_binop ExclusiveOr (rreil_lvalue ''S'' 1) (rreil_rvalue ''N'' 1) (rreil_rvalue ''V'' 1),
       rreil_unop Move rd (rreil_rvalue ''res'' 8)])
   }"

definition avr_sbi :: "lvalue \<Rightarrow> u64 \<Rightarrow> (il_error + statement list) option" where
  "avr_sbi rd b = Some (rreil
      [rreil_selop (unat b) rd (rreil_const 1 1)])"

definition avr_sleep :: "(il_error + statement list) option" where
  "avr_sleep = Some (Inr [])"

definition avr_st :: "lvalue \<Rightarrow> lvalue \<Rightarrow> (il_error + statement list) option" where
  "avr_st ptr reg = Some (rreil
      [rreil_store ''sram'' Big 8 (rvalue_of_lvalue reg) (rvalue_of_lvalue ptr)])"

definition avr_sub :: "lvalue \<Rightarrow> rvalue \<Rightarrow> (il_error + statement list) option" where
  "avr_sub rd rr = do {
     rd_4_0 \<leftarrow> ok (lvalue_extract rd 4 0);
     rr_4_0 \<leftarrow> Option.bind (rvalue_extract rr 4 0) ok;
     Some (rreil
      [rreil_binop Subtract (rreil_lvalue ''res'' 8) (rvalue_of_lvalue rd) rr,
       rreil_binop Equal (rreil_lvalue ''Z'' 1) (rreil_rvalue ''res'' 8) (rreil_const 0 8),
       rreil_binop LessOrEqualSigned (rreil_lvalue ''N'' 1) (rreil_rvalue ''res'' 8) (rreil_const 0 8),
       rreil_binop LessUnsigned (rreil_lvalue ''C'' 1) (rvalue_of_lvalue rd) rr,
       rreil_binop LessUnsigned (rreil_lvalue ''H'' 1) rd_4_0 rr_4_0,
       rreil_binop LessSigned (rreil_lvalue ''V'' 1) (rvalue_of_lvalue rd) rr,
       rreil_binop ExclusiveOr (rreil_lvalue ''S'' 1) (rreil_rvalue ''N'' 1) (rreil_rvalue ''V'' 1),
       rreil_unop Move rd (rreil_rvalue ''res'' 8)])
   }"

definition avr_swap :: "lvalue \<Rightarrow> (il_error + statement list) option" where
  "avr_swap rd = do {
     rd_4_0 \<leftarrow> ok (lvalue_extract rd 4 0);
     rd_4_4 \<leftarrow> ok (lvalue_extract rd 4 4);
     Some (rreil
      [rreil_unop Move (rreil_lvalue ''tmp'' 4) rd_4_0,
       rreil_selop 0 rd rd_4_4,
       rreil_selop 4 rd (rreil_rvalue ''tmp'' 4)])
   }"

definition avr_wdr :: "(il_error + statement list) option" where
  "avr_wdr = Some (Inr [])"

definition avr_xch :: "lvalue \<Rightarrow> lvalue \<Rightarrow> (il_error + statement list) option" where
  "avr_xch ptr reg = Some (rreil
      [rreil_load ''sram'' Big 8 (rreil_lvalue ''zcont'' 8) (rvalue_of_lvalue ptr),
       rreil_store ''sram'' Big 8 (rvalue_of_lvalue reg) (rvalue_of_lvalue ptr),
       rreil_unop Move reg (rreil_rvalue ''zcont'' 8)])"

section \<open>Registers and shared steps\<close>

definition register_names :: "string list" where
  "register_names =
     [''R0'', ''R1'', ''R2'', ''R3'', ''R4'', ''R5'', ''R6'', ''R7'', ''R8'', ''R9'', ''R10'', ''R11'', ''R12'', ''R13'', ''R14'', ''R15'',
      ''R16'', ''R17'', ''R18'', ''R19'', ''R20'', ''R21'', ''R22'', ''R23'', ''R24'', ''R25'', ''R26'', ''R27'', ''R28'', ''R29'', ''R30'', ''R31'']"

definition resolv :: "nat \<Rightarrow> lvalue option" where
  "resolv r = (if r < 32 then Some (rreil_lvalue (register_names ! r) 8) else None)"

text \<open>\<^verbatim>\<open>get_group\<close> as a number.\<close>

definition group_nat :: "avr_state \<Rightarrow> string \<Rightarrow> nat option" where
  "group_nat st cap = map_option unat (get_group st cap)"

definition reg :: "avr_state \<Rightarrow> string \<Rightarrow> lvalue option" where
  "reg st cap = Option.bind (group_nat st cap) resolv"

text \<open>\<^verbatim>\<open>resolv(st.get_group(cap) + 16)\<close>\<close>

definition high_reg :: "avr_state \<Rightarrow> string \<Rightarrow> lvalue option" where
  "high_reg st cap = do { r \<leftarrow> group_nat st cap; resolv (r + 16) }"

definition optional_skip :: "rvalue \<Rightarrow> avr_state \<Rightarrow> avr_state option" where
  "optional_skip next st =
     (case mc_skip (ds_configuration st) of
        None \<Rightarrow> Some st
      | Some (g, origin) \<Rightarrow> unwrap (jump_from origin next g st))"

text \<open>\<^verbatim>\<open>st.configuration.wrap(st.address + st.tokens.len() as u64 * 2)\<close>\<close>

definition next_rv :: "avr_state \<Rightarrow> rvalue" where
  "next_rv st = wrap (ds_configuration st) (ds_address st + length (ds_tokens st) * 2)"

text \<open>\<^verbatim>\<open>optional_skip(next.clone(), st); st.jump(target, Guard::always()).unwrap(); true\<close>\<close>

definition leave_to :: "rvalue \<Rightarrow> rvalue \<Rightarrow> avr_state \<Rightarrow> (avr_state \<times> bool) option" where
  "leave_to next target st = do {
     st1 \<leftarrow> optional_skip next st;
     st2 \<leftarrow> push_jump target always st1;
     Some (st2, True)
   }"

text \<open>The guard on the flag \<^verbatim>\<open>skip_flag\<close>, and the end of an instruction that may skip the next one.\<close>

definition skip_guard :: "guard option" where
  "skip_guard = ok (from_flag (rreil_rvalue ''skip_flag'' 1))"

definition leave_skip :: "guard \<Rightarrow> avr_state \<Rightarrow> (avr_state \<times> bool) option" where
  "leave_skip g st = do {
     let fallthru = wrap (ds_configuration st) (ds_address st + 2);
     let skip = wrap (ds_configuration st) (ds_address st + 4);
     st1 \<leftarrow> (if length (ds_tokens st) = 1 then push_jump skip g st
            else Some (st\<lparr>ds_configuration := (ds_configuration st)\<lparr>mc_skip := Some (g, ds_address st)\<rparr>\<rparr>));
     st2 \<leftarrow> push_jump fallthru (negation g) st1;
     Some (st2, True)
   }"

section \<open>Builders of actions\<close>

definition avr_skip :: "string \<Rightarrow> bool \<Rightarrow> avr_action" where
  "avr_skip n expect st = do {
     sb \<leftarrow> get_group st ''sb'';
     let bi = (ucast sb :: u8);
     (rr, opr, st1) \<leftarrow>
       (if has_group st ''sr'' then do {
          r \<leftarrow> reg st ''sr'';
          name \<leftarrow> (case r of LvVariable name _ _ \<Rightarrow> Some name | LvUndefined \<Rightarrow> None);
          Some (RvVariable name None (unat bi) 1, rvalue_of_lvalue r, st)
        } else do {
          sA \<leftarrow> get_group st ''sA'';
          let a = RvConstant sA 6;
          st1 \<leftarrow> push_mnemonic 0 ''__io_reg'' '''' []
            (rreil [rreil_load ''io'' Big 8 (rreil_lvalue ''ioreg'' 8) a]) st;
          Some (RvVariable ''ioreg'' None (unat bi) 1, a, st1)
        });
     st2 \<leftarrow> push_mnemonic 2 n ''{u}, {u}'' [opr, new_u8 bi]
       (rreil [rreil_unop Move (rreil_lvalue ''skip_flag'' 1) rr]) st1;
     tmp \<leftarrow> skip_guard;
     leave_skip (if \<not> expect then negation tmp else tmp) st2
   }"

type_synonym sem0 = "(il_error + statement list) option"
type_synonym sem1 = "lvalue \<Rightarrow> (il_error + statement list) option"
type_synonym sem2 = "lvalue \<Rightarrow> rvalue \<Rightarrow> (il_error + statement list) option"
type_synonym sem_imm = "lvalue \<Rightarrow> u64 \<Rightarrow> (il_error + statement list) option"
type_synonym sem_ptr = "lvalue \<Rightarrow> lvalue \<Rightarrow> (il_error + statement list) option"

text \<open>The first operand: group \<^verbatim>\<open>D\<close>, or group \<^verbatim>\<open>d\<close> for the upper half of the registers.\<close>

definition first_reg :: "avr_state \<Rightarrow> lvalue option" where
  "first_reg st = (if has_group st ''D'' then reg st ''D'' else high_reg st ''d'')"

definition second_operand :: "avr_state \<Rightarrow> rvalue option" where
  "second_operand st =
     (if has_group st ''R'' then map_option rvalue_of_lvalue (reg st ''R'')
      else if has_group st ''r'' then map_option rvalue_of_lvalue (high_reg st ''r'')
      else map_option (\<lambda>k. new_u8 (ucast k)) (get_group st ''K''))"

definition avr_binary :: "string \<Rightarrow> sem2 \<Rightarrow> avr_action" where
  "avr_binary n sem st = do {
     rd \<leftarrow> first_reg st;
     rr \<leftarrow> second_operand st;
     r \<leftarrow> sem rd rr;
     st1 \<leftarrow> push_mnemonic 2 n ''{u}, {u}'' [rvalue_of_lvalue rd, rr] r st;
     leave_to (next_rv st) (next_rv st) st1
   }"

definition avr_binary_imm :: "string \<Rightarrow> sem_imm \<Rightarrow> avr_action" where
  "avr_binary_imm n sem st = do {
     (rd, rd_rv, st1) \<leftarrow>
       (if has_group st ''D'' then map_option (\<lambda>r. (r, None, st)) (reg st ''D'')
        else if has_group st ''d'' then map_option (\<lambda>r. (r, None, st)) (high_reg st ''d'')
        else do {
          av \<leftarrow> get_group st ''A'';
          let a = RvConstant av 6;
          st1 \<leftarrow> push_mnemonic 0 ''__io_reg'' '''' []
            (rreil [rreil_load ''io'' Big 8 (rreil_lvalue ''ioreg'' 8) a]) st;
          Some (LvVariable ''ioreg'' None 8, Some a, st1)
        });
     (k, kc) \<leftarrow>
       (if has_group st ''k'' then map_option (\<lambda>k. (k, new_u8 (ucast k))) (get_group st ''k'')
        else map_option (\<lambda>b. (b, RvConstant b 3)) (get_group st ''b''));
     r \<leftarrow> sem rd k;
     st2 \<leftarrow> push_mnemonic (length (ds_tokens st) * 2) n ''{u}, {u}''
       [case rd_rv of Some a \<Rightarrow> a | None \<Rightarrow> rvalue_of_lvalue rd, kc] r st1;
     leave_to (next_rv st) (next_rv st) st2
   }"

text \<open>The format \<^verbatim>\<open>{}\<close> of a number.\<close>

fun fmt_dec :: "nat \<Rightarrow> string" where
  "fmt_dec n = (if n < 10 then [''0123456789'' ! n] else fmt_dec (n div 10) @ [''0123456789'' ! (n mod 10)])"

declare fmt_dec.simps [simp del]

fun pointer_name :: "address_register \<Rightarrow> address_offset \<Rightarrow> u64 option \<Rightarrow> string option" where
  "pointer_name RegX OffNone q = Some ''X''"
| "pointer_name RegX Predecrement q = Some ''-X''"
| "pointer_name RegX Postincrement q = Some ''X+''"
| "pointer_name RegY OffNone q = Some ''Y''"
| "pointer_name RegY Predecrement q = Some ''-Y''"
| "pointer_name RegY Postincrement q = Some ''Y+''"
| "pointer_name RegY Displacement q = map_option (\<lambda>v. ''Y+'' @ fmt_dec (unat v)) q"
| "pointer_name RegZ OffNone q = Some ''Z''"
| "pointer_name RegZ Predecrement q = Some ''-Z''"
| "pointer_name RegZ Postincrement q = Some ''Z+''"
| "pointer_name RegZ Displacement q = map_option (\<lambda>v. ''Z+'' @ fmt_dec (unat v)) q"
| "pointer_name RegX Displacement q = None"

fun pointer_halves :: "address_register \<Rightarrow> lvalue \<times> lvalue" where
  "pointer_halves RegX = (rreil_lvalue ''R26'' 8, rreil_lvalue ''R27'' 8)"
| "pointer_halves RegY = (rreil_lvalue ''R28'' 8, rreil_lvalue ''R29'' 8)"
| "pointer_halves RegZ = (rreil_lvalue ''R30'' 8, rreil_lvalue ''R31'' 8)"

definition any_reg :: "avr_state \<Rightarrow> lvalue option" where
  "any_reg st =
     (if has_group st ''D'' then reg st ''D'' else if has_group st ''d'' then high_reg st ''d''
      else if has_group st ''R'' then reg st ''R'' else high_reg st ''r'')"

text \<open>\<^verbatim>\<open>stmts.append(&mut ..?)\<close>: the first error is the result.\<close>

definition then_stmts :: "il_error + statement list \<Rightarrow> il_error + statement list \<Rightarrow> il_error + statement list" where
  "then_stmts a b = (case a of Inl e \<Rightarrow> Inl e | Inr ss \<Rightarrow> map_sum id ((@) ss) b)"

text \<open>The statements around the access through a pointer register.\<close>

definition pointer_stmts ::
  "sem_ptr \<Rightarrow> address_register \<Rightarrow> address_offset \<Rightarrow> u64 option \<Rightarrow> lvalue \<Rightarrow> lvalue \<Rightarrow> (il_error + statement list) option" where
  "pointer_stmts sem ar off q addr_reg rg = do {
     let pre = (if off = Predecrement then rreil [rreil_binop Subtract addr_reg (rvalue_of_lvalue addr_reg) (rreil_const 1 16)] else Inr []);
     access \<leftarrow> sem addr_reg rg;
     post \<leftarrow> (if off = Postincrement then Some (rreil [rreil_binop Add addr_reg (rvalue_of_lvalue addr_reg) (rreil_const 1 16)])
             else if off = Displacement then
               map_option (\<lambda>v. rreil [rreil_binop Add addr_reg (rvalue_of_lvalue addr_reg) (new_u16 (ucast v))]) q
             else Some (Inr []));
     lo \<leftarrow> ok (lvalue_extract addr_reg 8 0);
     hi \<leftarrow> ok (lvalue_extract addr_reg 8 8);
     let back = rreil [rreil_unop Move (fst (pointer_halves ar)) lo, rreil_unop Move (snd (pointer_halves ar)) hi];
     Some (then_stmts (then_stmts (then_stmts pre access) post) back)
   }"

definition avr_binary_ptr :: "string \<Rightarrow> sem_ptr \<Rightarrow> address_register \<Rightarrow> address_offset \<Rightarrow> bool \<Rightarrow> avr_action" where
  "avr_binary_ptr n sem ar off ptr_first st = do {
     let maybe_q = get_group st ''q'';
     reg_str \<leftarrow> pointer_name ar off maybe_q;
     let addr_reg = LvVariable reg_str None 16;
     rg \<leftarrow> any_reg st;
     st1 \<leftarrow> push_mnemonic 0 ''__addr_reg'' '''' []
       (rreil [rreil_extop ZeroExtend 16 addr_reg (rvalue_of_lvalue (fst (pointer_halves ar))),
               rreil_selop 8 addr_reg (rvalue_of_lvalue (snd (pointer_halves ar)))]) st;
     r \<leftarrow> pointer_stmts sem ar off maybe_q addr_reg rg;
     st2 \<leftarrow> (if ptr_first then push_mnemonic 2 n ''{p:ram}, {u}'' [rvalue_of_lvalue addr_reg, rvalue_of_lvalue rg] r st1
            else push_mnemonic 2 n ''{u}, {p:ram}'' [rvalue_of_lvalue rg, rvalue_of_lvalue addr_reg] r st1);
     leave_to (next_rv st) (next_rv st) st2
   }"

definition avr_nonary :: "string \<Rightarrow> sem0 \<Rightarrow> avr_action" where
  "avr_nonary n sem st = do {
     r \<leftarrow> sem;
     st1 \<leftarrow> push_mnemonic 2 n '''' [] r st;
     leave_to (next_rv st) (next_rv st) st1
   }"

definition avr_unary :: "string \<Rightarrow> sem1 \<Rightarrow> avr_action" where
  "avr_unary n sem st = do {
     rd \<leftarrow> first_reg st;
     r \<leftarrow> sem rd;
     st1 \<leftarrow> push_mnemonic 2 n ''{u}'' [rvalue_of_lvalue rd] r st;
     leave_to (next_rv st) (next_rv st) st1
   }"

definition avr_flag :: "string \<Rightarrow> lvalue \<Rightarrow> bool \<Rightarrow> avr_action" where
  "avr_flag n f val st = do {
     st1 \<leftarrow> push_mnemonic 2 n '''' [] (rreil [rreil_unop Move f (rreil_const (if val then 1 else 0) 1)]) st;
     leave_to (next_rv st) (next_rv st) st1
   }"

text \<open>
  \<^verbatim>\<open>branch\<close>: the offset has seven bits but is sign-extended from the sixth; its double fits an \<^verbatim>\<open>i8\<close>.  The sum is computed
  as \<^verbatim>\<open>i64\<close> and cast to \<^verbatim>\<open>u64\<close>.
\<close>

definition branch_offset :: "u64 \<Rightarrow> int" where
  "branch_offset g = (let k = (ucast g :: u8) in (if k \<ge> 0x20 then sint (0xE0 OR k) else sint k) * 2)"

definition branch_target :: "avr_state \<Rightarrow> u64 \<Rightarrow> rvalue" where
  "branch_target st g =
     wrap (ds_configuration st) (nat ((int (ds_address st) + int (length (ds_tokens st)) * 2 + branch_offset g) mod 2 ^ 64))"

definition avr_branch :: "string \<Rightarrow> lvalue \<Rightarrow> bool \<Rightarrow> avr_action" where
  "avr_branch n f val st = do {
     k \<leftarrow> get_group st ''k'';
     let jump = branch_target st k;
     let fallthru = next_rv st;
     st1 \<leftarrow> push_mnemonic 2 n ''{c:flash}'' [jump] (rreil [rreil_unop Move f (rreil_const (if val then 1 else 0) 1)]) st;
     st2 \<leftarrow> optional_skip fallthru st1;
     g \<leftarrow> ok (from_flag (rvalue_of_lvalue f));
     st3 \<leftarrow> (if val then push_jump fallthru (negation g) st2 else push_jump jump (negation g) st2);
     st4 \<leftarrow> (if val then push_jump jump g st3 else push_jump fallthru g st3);
     Some (st4, True)
   }"

section \<open>Instructions with actions of their own\<close>

definition avr_cpse :: avr_action where
  "avr_cpse st = do {
     rd \<leftarrow> reg st ''cd'';
     rr \<leftarrow> reg st ''cr'';
     let fallthru = wrap (ds_configuration st) (ds_address st + 2);
     g \<leftarrow> skip_guard;
     st1 \<leftarrow> push_mnemonic 2 ''cpse'' ''{u}, {u}'' [rvalue_of_lvalue rd, rvalue_of_lvalue rr]
       (rreil [rreil_binop Equal (rreil_lvalue ''skip_flag'' 1) (rvalue_of_lvalue rr) (rvalue_of_lvalue rd)]) st;
     st2 \<leftarrow> optional_skip fallthru st1;
     leave_skip g st2
   }"

definition avr_adiw :: avr_action where
  "avr_adiw st = do {
     d \<leftarrow> group_nat st ''d'';
     rd1 \<leftarrow> resolv (d * 2 + 24);
     rd2 \<leftarrow> resolv (d * 2 + 25);
     kv \<leftarrow> get_group st ''K'';
     let k = new_u8 (ucast kv);
     st1 \<leftarrow> push_mnemonic 0 ''__wide_reg'' '''' []
       (rreil [rreil_extop ZeroExtend 16 (rreil_lvalue ''reg'' 16) (rvalue_of_lvalue rd1),
          rreil_selop 8 (rreil_lvalue ''reg'' 16) (rvalue_of_lvalue rd2)]) st;
     st2 \<leftarrow> push_mnemonic 2 ''adiw'' ''{u:8}, {u:8}'' [rvalue_of_lvalue rd1, k]
       (rreil [rreil_extop ZeroExtend 16 (rreil_lvalue ''imm'' 16) k,
          rreil_binop Add (rreil_lvalue ''res'' 16) (rreil_rvalue ''reg'' 16) (rreil_rvalue ''imm'' 16),
          rreil_binop Equal (rreil_lvalue ''Z'' 1) (rreil_rvalue ''res'' 16) (rreil_const 0 16),
          rreil_binop LessOrEqualSigned (rreil_lvalue ''N'' 1) (rreil_rvalue ''res'' 16) (rreil_const 0 16),
          rreil_binop LessUnsigned (rreil_lvalue ''C'' 1) (rreil_rvalue ''res'' 16) (rreil_rvalue ''reg'' 16),
          rreil_binop LessOrEqualSigned (rreil_lvalue ''s1'' 1) (rreil_const 0 16) (rreil_rvalue ''reg'' 16),
          rreil_binop LessOrEqualSigned (rreil_lvalue ''s2'' 1) (rreil_const 0 16) (rreil_rvalue ''imm'' 16),
          rreil_binop LessSigned (rreil_lvalue ''s3'' 1) (rreil_rvalue ''res'' 16) (rreil_const 0 16),
          rreil_binop LessSigned (rreil_lvalue ''t1'' 1) (rreil_rvalue ''reg'' 16) (rreil_const 0 16),
          rreil_binop LessSigned (rreil_lvalue ''t2'' 1) (rreil_rvalue ''imm'' 16) (rreil_const 0 16),
          rreil_binop LessOrEqualSigned (rreil_lvalue ''t3'' 1) (rreil_const 0 16) (rreil_rvalue ''res'' 16),
          rreil_binop And (rreil_lvalue ''v1'' 1) (rreil_rvalue ''s1'' 1) (rreil_rvalue ''s2'' 1),
          rreil_binop And (rreil_lvalue ''v1'' 1) (rreil_rvalue ''v1'' 1) (rreil_rvalue ''s3'' 1),
          rreil_binop And (rreil_lvalue ''v2'' 1) (rreil_rvalue ''t1'' 1) (rreil_rvalue ''t2'' 1),
          rreil_binop And (rreil_lvalue ''v2'' 1) (rreil_rvalue ''v2'' 1) (rreil_rvalue ''t3'' 1),
          rreil_binop InclusiveOr (rreil_lvalue ''V'' 1) (rreil_rvalue ''v1'' 1) (rreil_rvalue ''v2'' 1),
          rreil_unop Move rd1 (rreil_rvalue ''res'' 8),
          rreil_unop Move rd2 (rreil_rvalue_off ''res'' 8 8)]) st1;
     leave_to (next_rv st) (next_rv st) st2
   }"

definition avr_call :: avr_action where
  "avr_call st = do {
     kv \<leftarrow> group_nat st ''k'';
     let k = wrap (ds_configuration st) (kv * 2);
     st1 \<leftarrow> push_mnemonic 4 ''call'' ''{c:flash}'' [k] (rreil [rreil_callop k]) st;
     leave_to (next_rv st) (next_rv st) st1
   }"

definition avr_des :: avr_action where
  "avr_des st = do {
     kv \<leftarrow> get_group st ''K'';
     st1 \<leftarrow> push_mnemonic 2 ''des'' ''{u}'' [new_u8 (ucast kv)]
       (rreil [rreil_unop Move (rreil_lvalue ''R0'' 8) RvUndefined,
          rreil_unop Move (rreil_lvalue ''R1'' 8) RvUndefined,
          rreil_unop Move (rreil_lvalue ''R2'' 8) RvUndefined,
          rreil_unop Move (rreil_lvalue ''R3'' 8) RvUndefined,
          rreil_unop Move (rreil_lvalue ''R4'' 8) RvUndefined,
          rreil_unop Move (rreil_lvalue ''R5'' 8) RvUndefined,
          rreil_unop Move (rreil_lvalue ''R6'' 8) RvUndefined,
          rreil_unop Move (rreil_lvalue ''R7'' 8) RvUndefined,
          rreil_unop Move (rreil_lvalue ''R8'' 8) RvUndefined,
          rreil_unop Move (rreil_lvalue ''R9'' 8) RvUndefined,
          rreil_unop Move (rreil_lvalue ''R10'' 8) RvUndefined,
          rreil_unop Move (rreil_lvalue ''R11'' 8) RvUndefined,
          rreil_unop Move (rreil_lvalue ''R12'' 8) RvUndefined,
          rreil_unop Move (rreil_lvalue ''R13'' 8) RvUndefined,
          rreil_unop Move (rreil_lvalue ''R14'' 8) RvUndefined,
          rreil_unop Move (rreil_lvalue ''R15'' 8) RvUndefined]) st;
     leave_to (next_rv st) (next_rv st) st1
   }"

definition avr_eijmp :: avr_action where
  "avr_eijmp st = do {
     st1 \<leftarrow> push_mnemonic 2 ''eijmp'' '''' []
       (rreil [rreil_extop ZeroExtend 22 (rreil_lvalue ''p'' 22) (rreil_rvalue ''R30'' 8),
          rreil_selop 8 (rreil_lvalue ''p'' 22) (rreil_rvalue ''R31'' 8),
          rreil_selop 16 (rreil_lvalue ''p'' 22) (rreil_rvalue ''EIND'' 6),
          rreil_load ''sram'' Big 24 (rreil_lvalue ''q'' 24) (rreil_rvalue ''p'' 22)]) st;
     leave_to (rreil_rvalue ''q'' 24) (rreil_rvalue ''q'' 24) st1
   }"

definition avr_elpm :: "lvalue \<Rightarrow> nat \<Rightarrow> avr_action" where
  "avr_elpm rd off st = do {
     let zreg = LvVariable ''Z'' None 24;
     st1 \<leftarrow> push_mnemonic 0 ''__wide_reg'' '''' []
       (rreil [rreil_extop ZeroExtend 24 zreg (rreil_rvalue ''R30'' 8),
          rreil_selop 8 zreg (rreil_rvalue ''R31'' 8),
          rreil_selop 16 zreg (rreil_rvalue ''RAMPZ'' 8)]) st;
     let arg = (if rd = rreil_lvalue ''R0'' 8 then [] else [rvalue_of_lvalue zreg]);
     z0 \<leftarrow> ok (lvalue_extract zreg 8 0);
     z8 \<leftarrow> ok (lvalue_extract zreg 8 8);
     z16 \<leftarrow> ok (lvalue_extract zreg 8 16);
     st2 \<leftarrow> push_mnemonic 2 ''elpm'' ''{p:sram}'' arg
       (then_stmts (rreil [rreil_load ''sram'' Big 24 (rreil_lvalue ''ptr'' 24) (rvalue_of_lvalue zreg),
          rreil_load ''flash'' Big 8 rd (rreil_rvalue ''ptr'' 24)])
         (if off \<le> 1 then rreil [rreil_binop Add zreg (rvalue_of_lvalue zreg) (rreil_const 1 24),
          rreil_unop Move (rreil_lvalue ''R30'' 8) z0,
          rreil_unop Move (rreil_lvalue ''R31'' 8) z8,
          rreil_unop Move (rreil_lvalue ''RAMPZ'' 8) z16]
          else Inr [])) st1;
     leave_to (next_rv st) (next_rv st) st2
   }"

definition avr_elpm1 :: avr_action where
  "avr_elpm1 st = avr_elpm (rreil_lvalue ''R0'' 8) 0 st"

definition avr_elpm2 :: avr_action where
  "avr_elpm2 st = do { rd \<leftarrow> reg st ''D''; avr_elpm rd 0 st }"

definition avr_elpm3 :: avr_action where
  "avr_elpm3 st = do { rd \<leftarrow> reg st ''D''; avr_elpm rd 1 st }"

definition avr_icall :: avr_action where
  "avr_icall st = do {
     let zreg = LvVariable ''Z'' None 16;
     st1 \<leftarrow> push_mnemonic 0 ''__wide_reg'' '''' []
       (rreil [rreil_extop ZeroExtend 16 zreg (rreil_rvalue ''R30'' 8),
          rreil_selop 8 zreg (rreil_rvalue ''R31'' 8)]) st;
     st2 \<leftarrow> push_mnemonic 2 ''icall'' ''{p:sram}'' []
       (rreil [rreil_load ''sram'' Big 24 (rreil_lvalue ''ptr'' 24) (rvalue_of_lvalue zreg),
          rreil_callop (rreil_rvalue ''ptr'' 24)]) st1;
     leave_to (next_rv st) (next_rv st) st2
   }"

definition avr_ijmp :: avr_action where
  "avr_ijmp st = do {
     let next = LvVariable ''R30:R31'' None 22;
     st1 \<leftarrow> push_mnemonic 2 ''ijmp'' '''' []
       (rreil [rreil_extop ZeroExtend 22 (rreil_lvalue ''p'' 22) (rreil_rvalue ''R30'' 8),
          rreil_selop 8 (rreil_lvalue ''p'' 22) (rreil_rvalue ''R31'' 8),
          rreil_selop 16 (rreil_lvalue ''p'' 22) (rreil_const 0 6),
          rreil_unop Move next (rreil_rvalue ''p'' 22)]) st;
     leave_to (rvalue_of_lvalue next) (rvalue_of_lvalue next) st1
   }"

definition avr_in :: avr_action where
  "avr_in st = do {
     rd \<leftarrow> reg st ''D'';
     a \<leftarrow> get_group st ''A'';
     let rr = RvConstant a 8;
     st1 \<leftarrow> push_mnemonic 2 ''in'' ''{u}, {u}'' [rvalue_of_lvalue rd, rr]
       (rreil [rreil_load ''io'' Big 8 rd rr]) st;
     leave_to (next_rv st) (next_rv st) st1
   }"

definition avr_jmp :: avr_action where
  "avr_jmp st = do {
     kv \<leftarrow> group_nat st ''k'';
     let k = wrap (ds_configuration st) (kv * 2);
     st1 \<leftarrow> push_mnemonic 4 ''jmp'' ''{c:flash}'' [k] (Inr []) st;
     leave_to (next_rv st) k st1
   }"

definition avr_lds1 :: avr_action where
  "avr_lds1 st = do {
     rd \<leftarrow> reg st ''D'';
     kv \<leftarrow> get_group st ''k'';
     let k = new_u16 (ucast kv);
     st1 \<leftarrow> push_mnemonic 4 ''lds'' ''{p:sram}, {u}'' [rvalue_of_lvalue rd, k]
       (rreil [rreil_load ''sram'' Big 8 rd k]) st;
     leave_to (next_rv st) (next_rv st) st1
   }"

text \<open>The addresses of the short forms of \<^verbatim>\<open>lds\<close> and \<^verbatim>\<open>sts\<close>.\<close>

definition short_address :: "u64 \<Rightarrow> u16" where
  "short_address kv = (let k = (ucast kv :: u16) in if k \<le> 0x1F then k + 0x20 else k)"

definition avr_lds2 :: avr_action where
  "avr_lds2 st = do {
     rd \<leftarrow> high_reg st ''d'';
     kv \<leftarrow> get_group st ''k'';
     let k = new_u16 (short_address kv);
     st1 \<leftarrow> push_mnemonic 2 ''lds'' ''{u}, {p:sram}'' [rvalue_of_lvalue rd, k]
       (rreil [rreil_load ''sram'' Big 8 rd k]) st;
     leave_to (next_rv st) (next_rv st) st1
   }"

text \<open>The statements that \<^verbatim>\<open>lpm\<close> and \<^verbatim>\<open>spm\<close> share.\<close>

definition program_memory_stmts :: "lvalue \<Rightarrow> lvalue \<Rightarrow> nat \<Rightarrow> (il_error + statement list) option" where
  "program_memory_stmts zreg rd off = do {
     z0 \<leftarrow> ok (lvalue_extract zreg 8 0);
     z8 \<leftarrow> ok (lvalue_extract zreg 8 8);
     Some (then_stmts (rreil [rreil_load ''sram'' Big 16 (rreil_lvalue ''ptr'' 16) (rvalue_of_lvalue zreg),
          rreil_load ''flash'' Big 8 rd (rreil_rvalue ''ptr'' 16)])
       (if off \<le> 1 then rreil [rreil_binop Add zreg (rvalue_of_lvalue zreg) (rreil_const 1 16),
          rreil_unop Move (rreil_lvalue ''R30'' 8) z0,
          rreil_unop Move (rreil_lvalue ''R31'' 8) z8] else Inr []))
   }"

definition avr_lpm :: "lvalue \<Rightarrow> nat \<Rightarrow> avr_action" where
  "avr_lpm rd off st = do {
     let zreg = LvVariable ''Z'' None 16;
     st1 \<leftarrow> push_mnemonic 0 ''__wide_reg'' '''' []
       (rreil [rreil_extop ZeroExtend 16 zreg (rreil_rvalue ''R30'' 8),
          rreil_selop 8 zreg (rreil_rvalue ''R31'' 8)]) st;
     let arg = (if rd = rreil_lvalue ''R0'' 8 then [] else [rvalue_of_lvalue zreg]);
     r \<leftarrow> program_memory_stmts zreg rd off;
     st2 \<leftarrow> push_mnemonic 2 ''lpm'' ''{p:sram}'' arg r st1;
     leave_to (next_rv st) (next_rv st) st2
   }"

definition avr_lpm1 :: avr_action where
  "avr_lpm1 st = avr_lpm (rreil_lvalue ''R0'' 8) 0 st"

definition avr_lpm2 :: avr_action where
  "avr_lpm2 st = do { rd \<leftarrow> reg st ''D''; avr_lpm rd 0 st }"

definition avr_lpm3 :: avr_action where
  "avr_lpm3 st = do { rd \<leftarrow> reg st ''D''; avr_lpm rd 1 st }"

definition avr_movw :: avr_action where
  "avr_movw st = do {
     d \<leftarrow> group_nat st ''d'';
     rd1 \<leftarrow> resolv (d * 2);
     rd2 \<leftarrow> resolv (d * 2 + 1);
     r \<leftarrow> group_nat st ''r'';
     rr1 \<leftarrow> resolv (r * 2);
     rr2 \<leftarrow> resolv (r * 2 + 1);
     st1 \<leftarrow> push_mnemonic 2 ''movw'' ''{u}, {u}'' [rvalue_of_lvalue rd1, rvalue_of_lvalue rr1]
       (rreil [rreil_unop Move rd1 (rvalue_of_lvalue rr1),
          rreil_unop Move rd2 (rvalue_of_lvalue rr2)]) st;
     leave_to (next_rv st) (next_rv st) st1
   }"

definition avr_out :: avr_action where
  "avr_out st = do {
     a \<leftarrow> get_group st ''A'';
     let rd = RvConstant a 8;
     rr \<leftarrow> reg st ''R'';
     st1 \<leftarrow> push_mnemonic 2 ''out'' ''{u}, {u}'' [rd, rvalue_of_lvalue rr]
       (rreil [rreil_store ''io'' Big 8 rd (rvalue_of_lvalue rr)]) st;
     leave_to (next_rv st) (next_rv st) st1
   }"

text \<open>The target of \<^verbatim>\<open>rcall\<close> and \<^verbatim>\<open>rjmp\<close>: the offset is not sign-extended.\<close>

definition relative_target :: "avr_state \<Rightarrow> nat \<Rightarrow> rvalue" where
  "relative_target st kv = wrap (ds_configuration st) (ds_address st + kv * 2 + 2)"

definition avr_rcall :: avr_action where
  "avr_rcall st = do {
     kv \<leftarrow> group_nat st ''k'';
     let k = relative_target st kv;
     st1 \<leftarrow> push_mnemonic 2 ''rcall'' ''{c:flash}'' [k] (rreil [rreil_callop k]) st;
     leave_to (next_rv st) (next_rv st) st1
   }"

definition avr_rjmp :: avr_action where
  "avr_rjmp st = do {
     kv \<leftarrow> group_nat st ''k'';
     let k = relative_target st kv;
     st1 \<leftarrow> push_mnemonic 2 ''rjmp'' ''{c:flash}'' [k] (Inr []) st;
     leave_to (next_rv st) k st1
   }"

definition avr_sbiw :: avr_action where
  "avr_sbiw st = do {
     d \<leftarrow> group_nat st ''d'';
     rd1 \<leftarrow> resolv (d * 2 + 24);
     rd2 \<leftarrow> resolv (d * 2 + 25);
     kv \<leftarrow> get_group st ''K'';
     st1 \<leftarrow> push_mnemonic 0 ''__wide_reg'' '''' []
       (rreil [rreil_extop ZeroExtend 16 (rreil_lvalue ''reg'' 16) (rvalue_of_lvalue rd1),
          rreil_selop 8 (rreil_lvalue ''reg'' 16) (rvalue_of_lvalue rd2)]) st;
     st2 \<leftarrow> push_mnemonic 2 ''sbiw'' ''{u:8}, {u:8}'' [rvalue_of_lvalue rd1, new_u8 (ucast kv)]
       (rreil [rreil_extop ZeroExtend 16 (rreil_lvalue ''reg'' 16) (rvalue_of_lvalue rd1),
          rreil_selop 8 (rreil_lvalue ''reg'' 16) (rvalue_of_lvalue rd2),
          rreil_extop ZeroExtend 16 (rreil_lvalue ''imm'' 16) (rreil_rvalue ''k'' 8),
          rreil_binop Subtract (rreil_lvalue ''res'' 16) (rreil_rvalue ''reg'' 16) (rreil_rvalue ''imm'' 16),
          rreil_binop Equal (rreil_lvalue ''Z'' 1) (rreil_rvalue ''res'' 16) (rreil_const 0 16),
          rreil_binop LessOrEqualSigned (rreil_lvalue ''N'' 1) (rreil_rvalue ''res'' 16) (rreil_const 0 16),
          rreil_binop LessUnsigned (rreil_lvalue ''C'' 1) (rreil_rvalue ''reg'' 16) (rreil_rvalue ''imm'' 16),
          rreil_binop LessSigned (rreil_lvalue ''V'' 1) (rreil_rvalue ''res'' 16) (rreil_rvalue ''imm'' 16),
          rreil_binop ExclusiveOr (rreil_lvalue ''S'' 1) (rreil_rvalue ''N'' 1) (rreil_rvalue ''V'' 1),
          rreil_unop Move rd1 (rreil_rvalue ''res'' 8),
          rreil_unop Move rd2 (rreil_rvalue_off ''res'' 8 8)]) st1;
     leave_to (next_rv st) (next_rv st) st2
   }"

definition avr_spm :: "lvalue \<Rightarrow> nat \<Rightarrow> avr_action" where
  "avr_spm rd off st = do {
     let zreg = LvVariable (if off = 0 then ''Z'' else ''Z+'') None 16;
     let len = length (ds_tokens st) * 2;
     st1 \<leftarrow> push_mnemonic 0 ''__wide_reg'' '''' []
       (rreil [rreil_extop ZeroExtend 16 zreg (rreil_rvalue ''R30'' 8),
          rreil_selop 8 zreg (rreil_rvalue ''R31'' 8)]) st;
     let arg = (if off = 0 then [] else [rvalue_of_lvalue zreg]);
     r \<leftarrow> program_memory_stmts zreg rd off;
     st2 \<leftarrow> push_mnemonic len ''spm'' ''{p:sram}'' arg r st1;
     leave_to (next_rv st) (next_rv st) st2
   }"

definition avr_spm1 :: avr_action where
  "avr_spm1 st = avr_spm (rreil_lvalue ''R0'' 8) 0 st"

definition avr_spm2 :: avr_action where
  "avr_spm2 st = do { rd \<leftarrow> reg st ''D''; avr_spm rd 0 st }"

definition avr_sts1 :: avr_action where
  "avr_sts1 st = do {
     rd \<leftarrow> reg st ''R'';
     kv \<leftarrow> get_group st ''k'';
     let k = new_u16 (ucast kv);
     st1 \<leftarrow> push_mnemonic 4 ''sts'' ''{p:sram}, {u}'' [k, rvalue_of_lvalue rd]
       (rreil [rreil_store ''sram'' Big 8 (rvalue_of_lvalue rd) k]) st;
     leave_to (next_rv st) (next_rv st) st1
   }"

definition avr_sts2 :: avr_action where
  "avr_sts2 st = do {
     rd \<leftarrow> high_reg st ''r'';
     kv \<leftarrow> get_group st ''k'';
     let k = new_u16 (short_address kv);
     st1 \<leftarrow> push_mnemonic 2 ''sts'' ''{p:sram}, {u}'' [k, rvalue_of_lvalue rd]
       (rreil [rreil_store ''sram'' Big 8 (rvalue_of_lvalue rd) k]) st;
     leave_to (next_rv st) (next_rv st) st1
   }"

section \<open>The table\<close>

text \<open>A row: its patterns and its action.\<close>

datatype avr_pattern = Bits string | Code nat

type_synonym avr_row = "avr_pattern list \<times> avr_action"

definition avr_skip_rows :: "avr_row list" where
  "avr_skip_rows =
    [([Bits ''1111 110 sr@..... 0 sb@...''], avr_skip ''sbrc'' False),
     ([Bits ''1111 111 sr@..... 0 sb@...''], avr_skip ''sbrs'' True),
     ([Bits ''000100 cr@. cd@..... cr@....''], avr_cpse),
     ([Bits ''1001 1001 sA@..... sb@...''], avr_skip ''sbic'' False),
     ([Bits ''1001 1011 sA@..... sb@...''], avr_skip ''sbis'' True)]"

definition avr_rows_adc_to_in :: "avr_row list" where
  "avr_rows_adc_to_in =
    [([Bits ''000111 R@. D@..... R@....''], avr_binary ''adc'' avr_adc),
     ([Bits ''0000 11 R@. D@..... R@....''], avr_binary ''add'' avr_add),
     ([Bits ''10010110 K@.. d@.. K@....''], avr_adiw),
     ([Bits ''0010 00 R@. D@..... R@....''], avr_binary ''and'' avr_and),
     ([Bits ''0111 K@.... d@.... K@....''], avr_binary ''andi'' avr_and),
     ([Bits ''11110 0 k@....... 000''], avr_branch ''brlo'' (rreil_lvalue ''C'' 1) True),
     ([Bits ''11110 1 k@....... 000''], avr_branch ''brsh'' (rreil_lvalue ''C'' 1) False),
     ([Bits ''11110 0 k@....... 001''], avr_branch ''breq'' (rreil_lvalue ''Z'' 1) True),
     ([Bits ''11110 1 k@....... 001''], avr_branch ''brne'' (rreil_lvalue ''Z'' 1) False),
     ([Bits ''11110 0 k@....... 010''], avr_branch ''brmi'' (rreil_lvalue ''N'' 1) True),
     ([Bits ''11110 1 k@....... 010''], avr_branch ''brpl'' (rreil_lvalue ''N'' 1) False),
     ([Bits ''11110 0 k@....... 011''], avr_branch ''brvs'' (rreil_lvalue ''V'' 1) True),
     ([Bits ''11110 1 k@....... 011''], avr_branch ''brvc'' (rreil_lvalue ''V'' 1) False),
     ([Bits ''11110 1 k@....... 100''], avr_branch ''brge'' (rreil_lvalue ''S'' 1) False),
     ([Bits ''11110 0 k@....... 100''], avr_branch ''brlt'' (rreil_lvalue ''S'' 1) True),
     ([Bits ''11110 0 k@....... 101''], avr_branch ''brhs'' (rreil_lvalue ''H'' 1) True),
     ([Bits ''11110 1 k@....... 101''], avr_branch ''brhc'' (rreil_lvalue ''H'' 1) False),
     ([Bits ''11110 0 k@....... 110''], avr_branch ''brts'' (rreil_lvalue ''T'' 1) True),
     ([Bits ''11110 1 k@....... 110''], avr_branch ''brtc'' (rreil_lvalue ''T'' 1) False),
     ([Bits ''11110 0 k@....... 111''], avr_branch ''brie'' (rreil_lvalue ''I'' 1) True),
     ([Bits ''11110 1 k@....... 111''], avr_branch ''brid'' (rreil_lvalue ''I'' 1) False),
     ([Bits ''1111 100 D@..... 0 b@...''], avr_binary_imm ''bld'' avr_bld),
     ([Code 0x9598], avr_nonary ''break'' avr_break),
     ([Bits ''1111 101 D@..... 0 b@...''], avr_binary_imm ''bst'' avr_bst),
     ([Bits ''1001010 k@..... 111 k@.'', Bits ''k@................''], avr_call),
     ([Bits ''1001 1000 A@..... b@...''], avr_binary_imm ''cbi'' avr_cbx),
     ([Code 0x9488], avr_flag ''clc'' (rreil_lvalue ''C'' 1) False),
     ([Code 0x94d8], avr_flag ''clh'' (rreil_lvalue ''H'' 1) False),
     ([Code 0x94f8], avr_flag ''cli'' (rreil_lvalue ''I'' 1) False),
     ([Code 0x94a8], avr_flag ''cln'' (rreil_lvalue ''N'' 1) False),
     ([Code 0x94c8], avr_flag ''cls'' (rreil_lvalue ''S'' 1) False),
     ([Code 0x94e8], avr_flag ''clt'' (rreil_lvalue ''T'' 1) False),
     ([Code 0x94b8], avr_flag ''clv'' (rreil_lvalue ''V'' 1) False),
     ([Code 0x9498], avr_flag ''clz'' (rreil_lvalue ''Z'' 1) False),
     ([Bits ''1001010 D@..... 0000''], avr_unary ''com'' avr_com),
     ([Bits ''000101 R@. D@..... R@....''], avr_binary ''cp'' avr_cp),
     ([Bits ''000001 R@. D@..... R@....''], avr_binary ''cpc'' avr_cpc),
     ([Bits ''0011 K@.... d@.... K@....''], avr_binary ''cpi'' avr_cp),
     ([Bits ''1001010 D@..... 1010''], avr_unary ''dec'' avr_dec),
     ([Bits ''10010100 K@.... 1011''], avr_des),
     ([Bits ''1001 0101 0001 1001''], avr_nonary ''eicall'' avr_eicall),
     ([Bits ''1001 0100 0001 1001''], avr_eijmp),
     ([Bits ''1001 0101 1101 1000''], avr_elpm1),
     ([Bits ''1001 000 D@..... 0110''], avr_elpm2),
     ([Bits ''1001 000 D@..... 0111''], avr_elpm3),
     ([Bits ''0010 01 R@. D@..... R@....''], avr_binary ''eor'' avr_eor),
     ([Bits ''0000 0011 0 d@... 1 r@...''], avr_binary ''fmul'' avr_fmul),
     ([Bits ''0000 0011 1 d@... 0 r@...''], avr_binary ''fmuls'' avr_fmuls),
     ([Bits ''0000 0011 1 d@... 1 r@...''], avr_binary ''fmulsu'' avr_fmulsu),
     ([Code 0x9509], avr_icall),
     ([Code 0x9409], avr_ijmp),
     ([Bits ''10110 A@.. D@..... A@....''], avr_in)]"

definition avr_rows_inc_to_ror :: "avr_row list" where
  "avr_rows_inc_to_ror =
    [([Bits ''1001010 D@..... 0011''], avr_unary ''inc'' avr_inc),
     ([Bits ''1001010 k@..... 110 k@.'', Bits ''k@................''], avr_jmp),
     ([Bits ''1001001 R@..... 0110''], avr_binary_ptr ''lac'' avr_lac RegZ OffNone True),
     ([Bits ''1001001 R@..... 0101''], avr_binary_ptr ''las'' avr_las RegZ OffNone True),
     ([Bits ''1001001 R@..... 0111''], avr_binary_ptr ''lat'' avr_lat RegZ OffNone True),
     ([Bits ''1001 000 D@..... 1100''], avr_binary_ptr ''ld'' avr_ld RegX OffNone False),
     ([Bits ''1001 000 D@..... 1110''], avr_binary_ptr ''ld'' avr_ld RegX Predecrement False),
     ([Bits ''1001 000 D@..... 1101''], avr_binary_ptr ''ld'' avr_ld RegX Postincrement False),
     ([Bits ''1000 000 D@..... 1000''], avr_binary_ptr ''ld'' avr_ld RegY OffNone False),
     ([Bits ''1001 000 D@..... 1010''], avr_binary_ptr ''ld'' avr_ld RegY Predecrement False),
     ([Bits ''1001 000 D@..... 1001''], avr_binary_ptr ''ld'' avr_ld RegY Postincrement False),
     ([Bits ''1000 000 D@..... 0000''], avr_binary_ptr ''ld'' avr_ld RegZ OffNone False),
     ([Bits ''1001 000 D@..... 0010''], avr_binary_ptr ''ld'' avr_ld RegZ Predecrement False),
     ([Bits ''1001 000 D@..... 0001''], avr_binary_ptr ''ld'' avr_ld RegZ Postincrement False),
     ([Bits ''10 q@. 0 q@.. 0 D@..... 1 q@...''], avr_binary_ptr ''ldd'' avr_ld RegY Displacement False),
     ([Bits ''10 q@. 0 q@.. 0 D@..... 0 q@...''], avr_binary_ptr ''ldd'' avr_ld RegZ Displacement False),
     ([Bits ''1110 k@.... d@.... k@....''], avr_binary_imm ''ldi'' avr_ldi),
     ([Bits ''1001000 D@..... 0000'', Bits ''k@................''], avr_lds1),
     ([Bits ''10100 k@... d@.... k@....''], avr_lds2),
     ([Code 0x95c8], avr_lpm1),
     ([Bits ''1001 000 D@..... 0100''], avr_lpm2),
     ([Bits ''1001 000 D@..... 0101''], avr_lpm3),
     ([Bits ''1001010 D@..... 0110''], avr_unary ''lsr'' avr_lsr),
     ([Bits ''001011 R@. D@..... R@....''], avr_binary ''mov'' avr_mov),
     ([Bits ''00000001 d@.... r@....''], avr_movw),
     ([Bits ''1001 11 R@. D@..... R@....''], avr_binary ''mul'' avr_mul),
     ([Bits ''0000 0010 d@.... r@....''], avr_binary ''muls'' avr_muls),
     ([Bits ''0000 0011 0 d@... 0 r@...''], avr_binary ''mulsu'' avr_mulsu),
     ([Bits ''1001 010 D@..... 0001''], avr_unary ''neg'' avr_neg),
     ([Bits ''1001 010 D@..... 0101''], avr_unary ''asr'' avr_asr),
     ([Code 0], avr_nonary ''nop'' avr_nop),
     ([Bits ''0010 10 R@. D@..... R@....''], avr_binary ''or'' avr_or),
     ([Bits ''0110 K@.... d@.... K@....''], avr_binary ''ori'' avr_or),
     ([Bits ''10111 A@.. R@..... A@....''], avr_out),
     ([Bits ''1001000 D@..... 1111''], avr_unary ''pop'' avr_pop),
     ([Bits ''1001001 D@..... 1111''], avr_unary ''push'' avr_push),
     ([Bits ''1101 k@............''], avr_rcall),
     ([Code 0x9508], avr_nonary ''ret'' avr_ret),
     ([Code 0x9518], avr_nonary ''reti'' avr_ret),
     ([Bits ''1100 k@............''], avr_rjmp),
     ([Bits ''1001010 D@..... 0111''], avr_unary ''ror'' avr_ror)]"

definition avr_rows_sbc_to_xch :: "avr_row list" where
  "avr_rows_sbc_to_xch =
    [([Bits ''000010 R@. D@..... R@....''], avr_binary ''sbc'' avr_sbc),
     ([Bits ''0100 K@.... d@.... K@....''], avr_binary ''sbci'' avr_sbc),
     ([Bits ''1001 1010 A@..... b@...''], avr_binary_imm ''sbi'' avr_sbi),
     ([Bits ''10010111 K@.. d@.. K@....''], avr_sbiw),
     ([Code 0x9408], avr_flag ''sec'' (rreil_lvalue ''C'' 1) True),
     ([Code 0x9458], avr_flag ''seh'' (rreil_lvalue ''H'' 1) True),
     ([Code 0x9478], avr_flag ''sei'' (rreil_lvalue ''I'' 1) True),
     ([Code 0x9428], avr_flag ''sen'' (rreil_lvalue ''N'' 1) True),
     ([Code 0x9448], avr_flag ''ses'' (rreil_lvalue ''S'' 1) True),
     ([Code 0x9468], avr_flag ''set'' (rreil_lvalue ''T'' 1) True),
     ([Code 0x9438], avr_flag ''sev'' (rreil_lvalue ''V'' 1) True),
     ([Code 0x9418], avr_flag ''sez'' (rreil_lvalue ''Z'' 1) True),
     ([Code 0x9588], avr_nonary ''sleep'' avr_sleep),
     ([Code 0x95e8], avr_spm1),
     ([Code 0x95f8], avr_spm2),
     ([Bits ''1001 001 R@. R@.... 1100''], avr_binary_ptr ''st'' avr_st RegX OffNone True),
     ([Bits ''1001 001 R@. R@.... 1110''], avr_binary_ptr ''st'' avr_st RegX Predecrement True),
     ([Bits ''1001 001 R@. R@.... 1101''], avr_binary_ptr ''st'' avr_st RegX Postincrement True),
     ([Bits ''1000 001 R@..... 1000''], avr_binary_ptr ''st'' avr_st RegY OffNone True),
     ([Bits ''1001 001 R@..... 1001''], avr_binary_ptr ''st'' avr_st RegY Postincrement True),
     ([Bits ''1001 001 R@..... 1010''], avr_binary_ptr ''st'' avr_st RegY Predecrement True),
     ([Bits ''10 q@. 0 q@.. 1 R@..... 1 q@...''], avr_binary_ptr ''std'' avr_st RegY Displacement True),
     ([Bits ''1000 001 R@..... 0000''], avr_binary_ptr ''st'' avr_st RegZ OffNone True),
     ([Bits ''1001 001 R@..... 0001''], avr_binary_ptr ''st'' avr_st RegZ Postincrement True),
     ([Bits ''1001 001 R@..... 0010''], avr_binary_ptr ''st'' avr_st RegZ Predecrement True),
     ([Bits ''10 q@. 0 q@.. 1 R@..... 0 q@...''], avr_binary_ptr ''std'' avr_st RegZ Displacement True),
     ([Bits ''1001 001 R@..... 0000'', Bits ''k@................''], avr_sts1),
     ([Bits ''1010 1 k@... r@.... k@....''], avr_sts2),
     ([Bits ''000110 R@. D@..... R@....''], avr_binary ''sub'' avr_sub),
     ([Bits ''0101 K@.... d@.... K@....''], avr_binary ''subi'' avr_sub),
     ([Bits ''1001 010 D@..... 0010''], avr_unary ''swap'' avr_swap),
     ([Code 0x95a8], avr_nonary ''wdr'' avr_wdr),
     ([Bits ''1001 001 R@..... 0100''], avr_binary_ptr ''xch'' avr_xch RegZ OffNone True)]"

definition avr_rows :: "avr_row list" where
  "avr_rows = avr_rows_adc_to_in @ avr_rows_inc_to_ror @ avr_rows_sbc_to_xch"

fun pattern_rule :: "avr_pattern \<Rightarrow> (u16, mcu) rule option" where
  "pattern_rule (Bits s) = rule_of_string s"
| "pattern_rule (Code n) = rule_of_nat n"

definition avr_items :: "avr_row \<Rightarrow> ((u16, mcu) gen_item list \<times> avr_action) option" where
  "avr_items row = map_option (\<lambda>rs. (map Required rs, snd row)) (those (map pattern_rule (fst row)))"

definition avr_dis_of :: "avr_row list \<Rightarrow> (u16, mcu) disassembler option" where
  "avr_dis_of rows = do { items \<leftarrow> those (map avr_items rows); new_disassembler items None }"

definition accept :: avr_action where
  "accept st = Some (st, True)"

definition avr_disassembler :: "(u16, mcu) disassembler option" where
  "avr_disassembler = do {
     skip \<leftarrow> avr_dis_of avr_skip_rows;
     main \<leftarrow> avr_dis_of avr_rows;
     new_disassembler [([Required (Sub 1 main)], accept), ([Required (Sub 2 skip)], accept)] None
   }"

section \<open>The architecture interface\<close>

definition avr_prepare :: "region \<Rightarrow> mcu \<Rightarrow> (string \<times> nat \<times> string) list" where
  "avr_prepare r cfg = mc_int_vec cfg"

text \<open>\<^verbatim>\<open>decode\<close>: the inner option is the error \<^verbatim>\<open>Unrecognized instruction\<close>.\<close>

definition avr_decode :: "region \<Rightarrow> nat \<Rightarrow> mcu \<Rightarrow> avr_state option option" where
  "avr_decode r addr cfg = do {
     dis \<leftarrow> avr_disassembler;
     it \<leftarrow> region_iter r;
     i \<leftarrow> li_seek it addr;
     next_match dis (li_drain i) addr cfg
   }"

end
