(* ===== verification/Avr_Actions.thy ===== *)
theory Avr_Actions
  imports Avr
begin

text \<open>
  The actions of the AVR back end: the statements of the semantic functions are well typed, the groups a row
  captures have the widths of its pattern, and on a state with such groups every builder decodes an instruction of the
  length of the row, with its jumps leaving from the address.
\<close>

section \<open>Typing of the semantics\<close>

definition reg8 :: "lvalue \<Rightarrow> bool" where
  "reg8 l \<longleftrightarrow> (\<exists>n. l = LvVariable n None 8)"

definition typed :: "(il_error + statement list) option \<Rightarrow> bool" where
  "typed r \<longleftrightarrow> (\<exists>ss. r = Some (Inr ss) \<and> (\<forall>s \<in> set ss. sanity_check s = Inr ()))"

lemma typed_rreil: "typed (Some (rreil ss)) \<longleftrightarrow> (\<forall>s \<in> set ss. sanity_check s = Inr ())"
  by (auto simp: typed_def rreil_eq)

lemma typed_nothing: "typed (Some (Inr []))"
  by (simp add: typed_def)

definition avr_binary_sems :: "sem2 list" where
  "avr_binary_sems =
     [avr_adc, avr_add, avr_and, avr_cp, avr_cpc, avr_eor, avr_fmul, avr_fmuls, avr_fmulsu, avr_mov, avr_mul, avr_muls,
      avr_mulsu, avr_or, avr_sbc, avr_sub]"

definition avr_unary_sems :: "sem1 list" where
  "avr_unary_sems = [avr_asr, avr_com, avr_dec, avr_inc, avr_lsr, avr_neg, avr_pop, avr_push, avr_ror, avr_swap]"

definition avr_nonary_sems :: "sem0 list" where
  "avr_nonary_sems = [avr_break, avr_eicall, avr_nop, avr_ret, avr_sleep, avr_wdr]"

definition avr_bit_sems :: "sem_imm list" where
  "avr_bit_sems = [avr_bld, avr_bst, avr_cbx, avr_sbi]"

definition avr_ptr_sems :: "sem_ptr list" where
  "avr_ptr_sems = [avr_lac, avr_las, avr_lat, avr_ld, avr_st, avr_xch]"

lemmas avr_binary_sem_defs =
  avr_adc_def avr_add_def avr_and_def avr_cp_def avr_cpc_def avr_eor_def avr_fmul_def avr_fmuls_def avr_fmulsu_def avr_mov_def avr_mul_def
  avr_muls_def avr_mulsu_def avr_or_def avr_sbc_def avr_sub_def

lemmas avr_unary_sem_defs =
  avr_asr_def avr_com_def avr_dec_def avr_inc_def avr_lsr_def avr_neg_def avr_pop_def avr_push_def avr_ror_def avr_swap_def

lemmas avr_rest_sem_defs =
  avr_break_def avr_eicall_def avr_nop_def avr_ret_def avr_sleep_def avr_wdr_def avr_bld_def avr_bst_def avr_cbx_def avr_sbi_def
  avr_lac_def avr_las_def avr_lat_def avr_ld_def avr_st_def avr_xch_def avr_ldi_def

lemma byte_extract: "rvalue_size rr = Some 8 \<Longrightarrow> \<exists>h. rvalue_extract rr 4 0 = Some (Inr h) \<and> rvalue_size h = Some 4"
  by (cases rr) auto

lemma avr_binary_typed: "reg8 rd \<Longrightarrow> rvalue_size rr = Some 8 \<Longrightarrow> f \<in> set avr_binary_sems \<Longrightarrow> typed (f rd rr)"
  using byte_extract [of rr]
  by (auto simp: reg8_def avr_binary_sems_def avr_binary_sem_defs ok_def typed_rreil rreil_forms rreil_typing simp del: rreil.simps)

lemma avr_unary_typed: "reg8 rd \<Longrightarrow> f \<in> set avr_unary_sems \<Longrightarrow> typed (f rd)"
  by (auto simp: reg8_def avr_unary_sems_def avr_unary_sem_defs ok_def typed_rreil rreil_forms rreil_typing simp del: rreil.simps)

lemma avr_nonary_typed: "f \<in> set avr_nonary_sems \<Longrightarrow> typed f"
  by (auto simp: avr_nonary_sems_def avr_rest_sem_defs typed_rreil typed_nothing rreil_forms rreil_typing simp del: rreil.simps)

lemma avr_bit_typed: "reg8 rd \<Longrightarrow> unat b < 8 \<Longrightarrow> f \<in> set avr_bit_sems \<Longrightarrow> typed (f rd b)"
  by (auto simp: reg8_def avr_bit_sems_def avr_rest_sem_defs ok_def typed_rreil rreil_forms rreil_typing simp del: rreil.simps)

lemma avr_ldi_typed: "reg8 rd \<Longrightarrow> typed (avr_ldi rd k)"
  by (auto simp: reg8_def avr_rest_sem_defs typed_rreil rreil_forms rreil_typing simp del: rreil.simps)

lemma avr_ptr_typed: "reg8 rd \<Longrightarrow> f \<in> set avr_ptr_sems \<Longrightarrow> typed (f (LvVariable p None 16) rd)"
  by (auto simp: reg8_def avr_ptr_sems_def avr_rest_sem_defs typed_rreil rreil_forms rreil_typing simp del: rreil.simps)

section \<open>Captured groups\<close>

definition ones :: "u16 \<Rightarrow> nat" where
  "ones msk = length (filter (bit msk) [0..<16])"

lemma get_group_map_of: "get_group st n = map_of (ds_groups st) n" "has_group st n \<longleftrightarrow> map_of (ds_groups st) n \<noteq> None"
proof -
  have f: "find (\<lambda>x. fst x = n) gs = map_option (Pair n) (map_of gs n)" for gs :: "(string \<times> u64) list"
    by (induction gs) auto
  show "get_group st n = map_of (ds_groups st) n" "has_group st n \<longleftrightarrow> map_of (ds_groups st) n \<noteq> None"
    by (simp_all add: get_group_def has_group_def f option.map_comp comp_def option.map_ident)
qed

lemma fold_bits_bound:
  "unat r < 2 ^ k \<Longrightarrow> k + length bs < 64 \<Longrightarrow> unat (fold (\<lambda>b r. 2 * r + of_bool b) bs (r :: u64)) < 2 ^ (k + length bs)"
proof (induction bs arbitrary: r k)
  case (Cons b bs)
  have lt: "2 * unat r + 1 < 2 ^ Suc k" using Cons.prems(1) by simp
  also have "(2 :: nat) ^ Suc k < 2 ^ 64" using Cons.prems(2) by (intro power_strict_increasing) simp_all
  finally have small: "2 * unat r + 1 < 2 ^ 64" .
  have "unat (2 * r + of_bool b) = 2 * unat r + (if b then 1 else 0)"
    using small by (simp add: unat_word_ariths unat_of_nat del: of_bool_eq)
  then have "unat (2 * r + of_bool b) < 2 ^ Suc k" using lt by (auto split: if_splits)
  from Cons.IH [OF this] Cons.prems(2) show ?case by simp
qed simp

text \<open>Every group has a width of at least one bit, and its value fits.\<close>

definition groups_fit :: "(string \<times> u64) list \<Rightarrow> (string \<Rightarrow> nat) \<Rightarrow> bool" where
  "groups_fit gs w \<longleftrightarrow> (\<forall>n. case map_of gs n of None \<Rightarrow> w n = 0 | Some v \<Rightarrow> 0 < w n \<and> unat v < 2 ^ w n)"

lemma groups_fitD:
  assumes "groups_fit gs w"
  shows "map_of gs n = None \<Longrightarrow> w n = 0" "map_of gs n = Some v \<Longrightarrow> 0 < w n \<and> unat v < 2 ^ w n"
  using spec [OF assms [unfolded groups_fit_def], of n] by simp_all

definition add_width :: "string \<times> u16 \<Rightarrow> (string \<Rightarrow> nat) \<Rightarrow> (string \<Rightarrow> nat)" where
  "add_width cap w = w(fst cap := w (fst cap) + ones (snd cap))"

lemma capture_fits:
  assumes "groups_fit gs w" "0 < ones msk" "w name + ones msk < 64"
  shows "groups_fit (capture_group tok (name, msk) gs) (add_width (name, msk) w)"
proof -
  let ?v = "case map_of gs name of Some v \<Rightarrow> v | None \<Rightarrow> 0"
  let ?bs = "map (bit tok) (filter (bit msk) (rev [0..<16]))"
  have len: "length ?bs = ones msk" by (simp add: ones_def rev_filter [symmetric])
  have "unat ?v < 2 ^ w name" using assms(1) unfolding groups_fit_def by (auto split: option.splits dest: spec [of _ name])
  then have "unat (fold (\<lambda>b r. 2 * r + of_bool b) ?bs ?v) < 2 ^ (w name + ones msk)"
    using fold_bits_bound [of ?v "w name" ?bs] assms(3) unfolding len by blast
  moreover have "map_of (capture_group tok (name, msk) gs) = (map_of gs)(name \<mapsto> fold (\<lambda>b r. 2 * r + of_bool b) ?bs ?v)"
    using capture_group_value [where 't = 16, of tok name msk gs] by (simp add: token_size_def)
  moreover note groups_fitD [OF assms(1)]
  moreover have "add_width (name, msk) w n = (if n = name then w name + ones msk else w n)" for n by (simp add: add_width_def)
  ultimately show ?thesis using assms(2) unfolding groups_fit_def by (simp split: option.split)
qed

definition widths :: "(string \<times> u16) list \<Rightarrow> string \<Rightarrow> nat" where
  "widths caps = fold add_width caps (\<lambda>_. 0)"

definition caps_ok :: "(string \<times> u16) list \<Rightarrow> bool" where
  "caps_ok caps \<longleftrightarrow> (\<forall>c \<in> set caps. 0 < ones (snd c)) \<and> sum_list (map (\<lambda>x. ones (snd x)) caps) < 64"

lemma captures_fit:
  "groups_fit gs w \<Longrightarrow> \<forall>c \<in> set caps. 0 < ones (snd c) \<Longrightarrow> \<forall>n. w n + sum_list (map (\<lambda>x. ones (snd x)) caps) < 64 \<Longrightarrow>
   groups_fit (fold (capture_group tok) caps gs) (fold add_width caps w)"
proof (induction caps arbitrary: gs w)
  case (Cons c caps)
  obtain name msk where c: "c = (name, msk)" by (cases c)
  have lt: "w name + ones msk < 64" using spec [OF Cons.prems(3), of name] c by simp
  have "groups_fit (capture_group tok c gs) (add_width c w)" using capture_fits [OF Cons.prems(1) _ lt] Cons.prems(2) c by simp
  moreover have "\<forall>n. add_width c w n + sum_list (map (\<lambda>x. ones (snd x)) caps) < 64"
  proof
    fix n show "add_width c w n + sum_list (map (\<lambda>x. ones (snd x)) caps) < 64"
      using spec [OF Cons.prems(3), of n] c by (auto simp: add_width_def)
  qed
  ultimately show ?case using Cons.IH Cons.prems(2) by simp
qed simp

section \<open>Matched states\<close>

text \<open>The state after a row has matched: nothing is decoded yet, and the groups are those of the patterns.\<close>

definition matched :: "nat \<Rightarrow> mcu \<Rightarrow> (u16, mcu) rule list \<Rightarrow> avr_state \<Rightarrow> bool" where
  "matched a c rs st \<longleftrightarrow>
     (\<exists>gs toks. st = (new_state a c)\<lparr>ds_groups := gs, ds_tokens := toks\<rparr> \<and> length toks = length rs \<and>
        groups_fit gs (widths (concat (map r_captures rs))))"

definition terminals :: "(u16, mcu) rule list \<Rightarrow> bool" where
  "terminals rs \<longleftrightarrow> (\<forall>r \<in> set rs. \<exists>m p cs. r = Terminal m p cs) \<and> caps_ok (concat (map r_captures rs))"

lemma match_terminals:
  assumes "terminals rs" "(st1, i1) \<in> match_seq rs (new_state a c) i"
  shows "matched a c rs st1"
proof -
  have "\<exists>gs' toks'. st1 = (new_state a c)\<lparr>ds_groups := gs', ds_tokens := toks'\<rparr> \<and> length toks' = length toks + length rs \<and>
      groups_fit gs' (fold add_width (concat (map r_captures rs)) w)"
    if "(st1, i1) \<in> match_seq rs ((new_state a c)\<lparr>ds_groups := gs, ds_tokens := toks\<rparr>) i" "groups_fit gs w"
      "\<forall>r \<in> set rs. \<exists>m p cs. r = Terminal m p cs" "\<forall>x \<in> set (concat (map r_captures rs)). 0 < ones (snd x)"
      "\<forall>n. w n + sum_list (map (\<lambda>x. ones (snd x)) (concat (map r_captures rs))) < 64" for gs toks w i
    using that
  proof (induction rs arbitrary: gs toks w i)
    case Nil
    then show ?case by auto
  next
    case (Cons r rs)
    obtain m p cs where r: "r = Terminal m p cs" using Cons.prems(3) by auto
    obtain tok i' where tok: "(st1, i1) \<in> match_seq rs ((new_state a c)\<lparr>ds_groups := fold (capture_group tok) cs gs, ds_tokens := toks @ [tok]\<rparr>) i'"
      using Cons.prems(1) r by (auto simp: match_terminal_def split: option.splits prod.splits if_splits)
    have sm: "\<forall>n. w n + (sum_list (map (\<lambda>x. ones (snd x)) cs) + sum_list (map (\<lambda>x. ones (snd x)) (concat (map r_captures rs)))) < 64"
      using Cons.prems(5) r by simp
    have "groups_fit (fold (capture_group tok) cs gs) (fold add_width cs w)"
    proof (rule captures_fit [OF Cons.prems(2)])
      show "\<forall>x \<in> set cs. 0 < ones (snd x)" using Cons.prems(4) r by simp
      show "\<forall>n. w n + sum_list (map (\<lambda>x. ones (snd x)) cs) < 64"
      proof
        fix n show "w n + sum_list (map (\<lambda>x. ones (snd x)) cs) < 64" using spec [OF sm, of n] by linarith
      qed
    qed
    moreover have "\<forall>n. fold add_width cs w n + sum_list (map (\<lambda>x. ones (snd x)) (concat (map r_captures rs))) < 64"
    proof
      fix n
      have le: "fold add_width xs w n \<le> w n + sum_list (map (\<lambda>x. ones (snd x)) xs)" for xs w
      proof (induction xs arbitrary: w)
        case (Cons x xs)
        have "add_width x w n \<le> w n + ones (snd x)" by (simp add: add_width_def)
        then show ?case using Cons.IH [of "add_width x w"] by simp
      qed simp
      show "fold add_width cs w n + sum_list (map (\<lambda>x. ones (snd x)) (concat (map r_captures rs))) < 64"
        using le [of cs w] spec [OF sm, of n] by linarith
    qed
    ultimately show ?case using Cons.IH [OF tok] Cons.prems(3,4) r by auto
  qed
  from this [of "[]" "[]" i "\<lambda>_. 0"] show ?thesis
    using assms by (auto simp: matched_def terminals_def caps_ok_def widths_def groups_fit_def new_state_def)
qed

section \<open>Actions\<close>

lemma avr_formats:
  "parse_format '''' = Inr []" "parse_format ''{u}'' = Inr [Variable False]"
  "parse_format ''{u}, {u}'' = Inr [Variable False, Literal CHR '','', Literal CHR '' '', Variable False]"
  "parse_format ''{p:ram}, {u}'' = Inr [Pointer False ''ram'', Literal CHR '','', Literal CHR '' '', Variable False]"
  "parse_format ''{u}, {p:ram}'' = Inr [Variable False, Literal CHR '','', Literal CHR '' '', Pointer False ''ram'']"
  "parse_format ''{c:flash}'' = Inr [Pointer True ''flash'']" "parse_format ''{p:sram}'' = Inr [Pointer False ''sram'']"
  "parse_format ''{u:8}, {u:8}'' = Inr [Variable False, Literal CHR ''8'', Literal CHR ''}'', Literal CHR '','', Literal CHR '' '',
     Variable False, Literal CHR ''8'', Literal CHR ''}'']"
  "parse_format ''{p:sram}, {u}'' = Inr [Pointer False ''sram'', Literal CHR '','', Literal CHR '' '', Variable False]"
  "parse_format ''{u}, {p:sram}'' = Inr [Variable False, Literal CHR '','', Literal CHR '' '', Pointer False ''sram'']"
  by code_simp+

lemma typedD: "typed r \<Longrightarrow> \<exists>ss. r = Some (Inr ss)"
  by (auto simp: typed_def)

text \<open>No instruction waits to be skipped, and the program counter has a width.\<close>

definition plain :: "avr_state \<Rightarrow> bool" where
  "plain st \<longleftrightarrow> wf_dstate st \<and> mc_skip (ds_configuration st) = None \<and> 0 < mc_pc_bits (ds_configuration st)"

definition decodes :: "nat \<Rightarrow> (rvalue \<times> guard) list \<Rightarrow> avr_action \<Rightarrow> avr_state \<Rightarrow> bool" where
  "decodes len js act st \<longleftrightarrow> js \<noteq> [] \<and> (\<exists>st'. act st = Some (st', True) \<and> covers_bytes len js st st')"

lemma optional_skip_none [simp]: "mc_skip (ds_configuration st) = None \<Longrightarrow> optional_skip next st = Some st"
  by (simp add: optional_skip_def)

lemma leave_to_eq:
  "mc_skip (ds_configuration st) = None \<Longrightarrow> 0 < len \<Longrightarrow>
   leave_to nx t (after_mnemonic len opc toks ops ss st) =
     Some ((after_mnemonic len opc toks ops ss st)\<lparr>ds_jumps := ds_jumps st @ [(ds_mnemonic_origin st, t, always)]\<rparr>, True)"
  by (simp add: leave_to_def push_jump_eq)

lemmas avr_steps = avr_formats push_mnemonic_eq leave_to_eq plain_def decodes_def Let_def new_u8_def new_u16_def

lemma avr_nonary_decodes: "plain st \<Longrightarrow> typed f \<Longrightarrow> decodes 2 [(next_rv st, always)] (avr_nonary n f) st"
  using covers_one [of st 2 "[(next_rv st, always)]"] by (auto simp: avr_nonary_def avr_steps dest!: typedD)

lemma avr_unary_decodes:
  "plain st \<Longrightarrow> first_reg st = Some rd \<Longrightarrow> typed (f rd) \<Longrightarrow> decodes 2 [(next_rv st, always)] (avr_unary n f) st"
  using covers_one [of st 2 "[(next_rv st, always)]"] by (auto simp: avr_unary_def avr_steps dest!: typedD)

lemma avr_binary_decodes:
  "plain st \<Longrightarrow> first_reg st = Some rd \<Longrightarrow> second_operand st = Some rr \<Longrightarrow> typed (f rd rr) \<Longrightarrow>
   decodes 2 [(next_rv st, always)] (avr_binary n f) st"
  using covers_one [of st 2 "[(next_rv st, always)]"] by (auto simp: avr_binary_def avr_steps dest!: typedD)

lemma avr_flag_decodes: "plain st \<Longrightarrow> decodes 2 [(next_rv st, always)] (avr_flag n (rreil_lvalue f 1) b) st"
  using covers_one [of st 2 "[(next_rv st, always)]"] by (auto simp: avr_flag_def rreil_forms rreil_typing avr_steps dest!: typedD)

text \<open>The register of an instruction on a bit or an immediate: a register, or an I/O register that is loaded first.\<close>

lemma avr_imm_reg_decodes:
  assumes "plain st" "length (ds_tokens st) = 1" "has_group st ''D'' \<and> reg st ''D'' = Some rd \<or> \<not> has_group st ''D'' \<and> has_group st ''d'' \<and> high_reg st ''d'' = Some rd"
    and "has_group st ''k'' \<and> get_group st ''k'' = Some k \<or> \<not> has_group st ''k'' \<and> get_group st ''b'' = Some k" "typed (f rd k)"
  shows "decodes 2 [(next_rv st, always)] (avr_binary_imm n f) st"
  using assms covers_one [of st 2 "[(next_rv st, always)]"] by (auto simp: avr_binary_imm_def avr_steps dest!: typedD)

lemma avr_imm_io_decodes:
  assumes "plain st" "length (ds_tokens st) = 1" "\<not> has_group st ''D''" "\<not> has_group st ''d''" "get_group st ''A'' = Some a"
    and "\<not> has_group st ''k''" "get_group st ''b'' = Some k" "typed (f (LvVariable ''ioreg'' None 8) k)"
  shows "decodes 2 [(next_rv st, always)] (avr_binary_imm n f) st"
  using assms covers_two [of st 2 "[(next_rv st, always)]"] by (auto simp: avr_binary_imm_def rreil_forms rreil_typing avr_steps dest!: typedD)

lemma avr_branch_decodes:
  assumes "plain st" "get_group st ''k'' = Some k"
  shows "\<exists>js. decodes 2 js (avr_branch n (rreil_lvalue f 1) b) st"
proof -
  let ?g = "GPredicate (RvVariable f None 0 1) True"
  let ?js = "if b then [(next_rv st, negation ?g), (branch_target st k, ?g)] else [(branch_target st k, negation ?g), (next_rv st, ?g)]"
  show ?thesis
    using assms covers_one [of st 2 ?js]
    by (intro exI [of _ ?js]) (auto simp: avr_branch_def Let_def ok_def rreil_forms rreil_typing avr_steps push_jump_eq push_jump_again)
qed

lemma leave_skip_eq:
  assumes "length (ds_tokens st) = 1" "0 < len"
  shows "leave_skip g (after_mnemonic len opc toks ops ss st) =
    Some ((after_mnemonic len opc toks ops ss st)\<lparr>ds_jumps := ds_jumps st @
      [(ds_mnemonic_origin st, wrap (ds_configuration st) (ds_address st + 4), g),
       (ds_mnemonic_origin st, wrap (ds_configuration st) (ds_address st + 2), negation g)]\<rparr>, True)"
  using assms by (simp add: leave_skip_def push_jump_eq push_jump_again)

lemma avr_skip_reg_decodes:
  assumes "plain st" "length (ds_tokens st) = 1" "has_group st ''sr''" "reg st ''sr'' = Some rd" "reg8 rd" "get_group st ''sb'' = Some b"
  shows "\<exists>js. decodes 2 js (avr_skip n expect) st"
proof -
  let ?g0 = "GPredicate (RvVariable ''skip_flag'' None 0 1) True"
  let ?g = "if \<not> expect then negation ?g0 else ?g0"
  let ?js = "[(wrap (ds_configuration st) (ds_address st + 4), ?g), (wrap (ds_configuration st) (ds_address st + 2), negation ?g)]"
  show ?thesis
    using assms covers_one [of st 2 ?js]
    by (intro exI [of _ ?js]) (auto simp: avr_skip_def skip_guard_def ok_def reg8_def rreil_forms rreil_typing avr_steps leave_skip_eq)
qed

lemma avr_skip_io_decodes:
  assumes "plain st" "length (ds_tokens st) = 1" "\<not> has_group st ''sr''" "get_group st ''sA'' = Some a" "get_group st ''sb'' = Some b"
  shows "\<exists>js. decodes 2 js (avr_skip n expect) st"
proof -
  let ?g0 = "GPredicate (RvVariable ''skip_flag'' None 0 1) True"
  let ?g = "if \<not> expect then negation ?g0 else ?g0"
  let ?js = "[(wrap (ds_configuration st) (ds_address st + 4), ?g), (wrap (ds_configuration st) (ds_address st + 2), negation ?g)]"
  show ?thesis
    using assms covers_two [of st 2 ?js]
    by (intro exI [of _ ?js]) (auto simp: avr_skip_def skip_guard_def ok_def rreil_forms rreil_typing avr_steps leave_skip_eq)
qed

lemma avr_cpse_decodes:
  assumes "plain st" "length (ds_tokens st) = 1" "reg st ''cd'' = Some rd" "reg st ''cr'' = Some rr" "reg8 rd" "reg8 rr"
  shows "\<exists>js. decodes 2 js avr_cpse st"
proof -
  let ?g = "GPredicate (RvVariable ''skip_flag'' None 0 1) True"
  let ?js = "[(wrap (ds_configuration st) (ds_address st + 4), ?g), (wrap (ds_configuration st) (ds_address st + 2), negation ?g)]"
  show ?thesis
    using assms covers_one [of st 2 ?js]
    by (intro exI [of _ ?js]) (auto simp: avr_cpse_def skip_guard_def ok_def reg8_def rreil_forms rreil_typing avr_steps leave_skip_eq)
qed

section \<open>Registers\<close>

lemma resolv_reg8: "n < 32 \<Longrightarrow> \<exists>rd. resolv n = Some rd \<and> reg8 rd"
  by (simp add: resolv_def reg8_def rreil_forms)

lemma reg_reg8: "get_group st c = Some v \<Longrightarrow> unat v < 32 \<Longrightarrow> \<exists>rd. reg st c = Some rd \<and> reg8 rd"
  by (simp add: reg_def group_nat_def resolv_reg8)

lemma high_reg_reg8: "get_group st c = Some v \<Longrightarrow> unat v < 16 \<Longrightarrow> \<exists>rd. high_reg st c = Some rd \<and> reg8 rd"
  by (simp add: high_reg_def group_nat_def resolv_reg8)

section \<open>The pointer instructions and the others\<close>

lemma pointer_stmts_ok:
  assumes "sem (LvVariable p None 16) rg = Some (Inr ss)" "off = Displacement \<Longrightarrow> q \<noteq> None"
  shows "\<exists>ts. pointer_stmts sem ar off q (LvVariable p None 16) rg = Some (Inr ts)"
  using assms by (cases ar; cases off) (auto simp: pointer_stmts_def then_stmts_def ok_def new_u16_def rreil_forms rreil_typing)

lemma ptr_decodes:
  assumes "plain st" "length (ds_tokens st) = 1" "any_reg st = Some rg" "reg8 rg" "\<And>p. typed (sem (LvVariable p None 16) rg)"
    and "off = Displacement \<Longrightarrow> get_group st ''q'' \<noteq> None" "ar = RegX \<Longrightarrow> off \<noteq> Displacement"
  shows "decodes 2 [(next_rv st, always)] (avr_binary_ptr n sem ar off first) st"
proof -
  obtain p where p: "pointer_name ar off (get_group st ''q'') = Some p"
    using assms(6,7) by (cases ar; cases off) auto
  obtain ss where ss: "pointer_stmts sem ar off (get_group st ''q'') (LvVariable p None 16) rg = Some (Inr ss)"
    using typedD [OF assms(5)] pointer_stmts_ok [of sem p rg _ off] assms(6) by blast
  show ?thesis
    using assms p ss covers_two [of st 2 "[(next_rv st, always)]"]
    by (cases ar) (auto simp: avr_binary_ptr_def reg8_def rreil_forms rreil_typing avr_steps)
qed


lemma wide_decodes:
  assumes "plain st" "get_group st ''d'' = Some d" "unat d < 4" "get_group st ''K'' = Some k" "act = avr_adiw \<or> act = avr_sbiw"
  shows "decodes 2 [(next_rv st, always)] act st"
proof -
  obtain rd1 rd2 where "resolv (unat d * 2 + 24) = Some rd1" "reg8 rd1" "resolv (unat d * 2 + 25) = Some rd2" "reg8 rd2"
    using resolv_reg8 [of "unat d * 2 + 24"] resolv_reg8 [of "unat d * 2 + 25"] assms(3) by auto
  then show ?thesis
    using assms covers_two [of st 2 "[(next_rv st, always)]"]
    by (auto simp: avr_adiw_def avr_sbiw_def group_nat_def reg8_def rreil_forms rreil_typing avr_steps)
qed

lemma call_jmp_decodes:
  assumes "plain st" "get_group st ''k'' = Some k"
  shows "decodes 4 [(next_rv st, always)] avr_call st" "decodes 4 [(wrap (ds_configuration st) (unat k * 2), always)] avr_jmp st"
    "decodes 2 [(next_rv st, always)] avr_rcall st" "decodes 2 [(relative_target st (unat k), always)] avr_rjmp st"
  using assms covers_one [of st 4 "[(next_rv st, always)]"] covers_one [of st 4 "[(wrap (ds_configuration st) (unat k * 2), always)]"]
    covers_one [of st 2 "[(next_rv st, always)]"] covers_one [of st 2 "[(relative_target st (unat k), always)]"]
  by (auto simp: avr_call_def avr_jmp_def avr_rcall_def avr_rjmp_def relative_target_def wrap_def group_nat_def rreil_forms rreil_typing avr_steps)

lemma des_decodes: "plain st \<Longrightarrow> get_group st ''K'' = Some k \<Longrightarrow> decodes 2 [(next_rv st, always)] avr_des st"
  using covers_one [of st 2 "[(next_rv st, always)]"] by (auto simp: avr_des_def rreil_forms rreil_typing avr_steps)

lemma indirect_jump_decodes:
  assumes "plain st"
  shows "decodes 2 [(rreil_rvalue ''q'' 24, always)] avr_eijmp st" "decodes 2 [(rreil_rvalue ''R30:R31'' 22, always)] avr_ijmp st"
  using assms covers_one [of st 2 "[(RvVariable ''q'' None 0 24, always)]"] covers_one [of st 2 "[(RvVariable ''R30:R31'' None 0 22, always)]"]
  by (auto simp: avr_eijmp_def avr_ijmp_def rreil_forms rreil_typing avr_steps)

lemma icall_decodes: "plain st \<Longrightarrow> decodes 2 [(next_rv st, always)] avr_icall st"
  using covers_two [of st 2 "[(next_rv st, always)]"] by (auto simp: avr_icall_def rreil_forms rreil_typing avr_steps)

lemma program_memory_ok: "reg8 rd \<Longrightarrow> \<exists>ts. program_memory_stmts (LvVariable z None 16) rd off = Some (Inr ts)"
  by (auto simp: program_memory_stmts_def reg8_def then_stmts_def ok_def rreil_forms rreil_typing)

lemma lpm_decodes:
  assumes "plain st" "reg8 rd"
  shows "decodes 2 [(next_rv st, always)] (avr_lpm rd off) st" "decodes 2 [(next_rv st, always)] (avr_elpm rd off) st"
    "length (ds_tokens st) = 1 \<Longrightarrow> decodes 2 [(next_rv st, always)] (avr_spm rd off) st"
proof -
  obtain ts us where ts: "program_memory_stmts (LvVariable ''Z'' None 16) rd off = Some (Inr ts)"
      "program_memory_stmts (LvVariable ''Z+'' None 16) rd off = Some (Inr us)"
    using program_memory_ok [OF assms(2), of "''Z''" off] program_memory_ok [OF assms(2), of "''Z+''" off] by auto
  note covers = covers_two [of st 2 "[(next_rv st, always)]"]
  show "decodes 2 [(next_rv st, always)] (avr_lpm rd off) st" "decodes 2 [(next_rv st, always)] (avr_elpm rd off) st"
    "length (ds_tokens st) = 1 \<Longrightarrow> decodes 2 [(next_rv st, always)] (avr_spm rd off) st"
    using assms ts covers
    by (auto simp: avr_lpm_def avr_elpm_def avr_spm_def reg8_def then_stmts_def ok_def rreil_forms rreil_typing avr_steps)
qed

lemma lpm_forms:
  "decodes n js avr_lpm1 st \<longleftrightarrow> decodes n js (avr_lpm (rreil_lvalue ''R0'' 8) 0) st"
  "decodes n js avr_elpm1 st \<longleftrightarrow> decodes n js (avr_elpm (rreil_lvalue ''R0'' 8) 0) st"
  "decodes n js avr_spm1 st \<longleftrightarrow> decodes n js (avr_spm (rreil_lvalue ''R0'' 8) 0) st"
  "reg st ''D'' = Some rd \<Longrightarrow> decodes n js avr_lpm2 st \<longleftrightarrow> decodes n js (avr_lpm rd 0) st"
  "reg st ''D'' = Some rd \<Longrightarrow> decodes n js avr_lpm3 st \<longleftrightarrow> decodes n js (avr_lpm rd 1) st"
  "reg st ''D'' = Some rd \<Longrightarrow> decodes n js avr_elpm2 st \<longleftrightarrow> decodes n js (avr_elpm rd 0) st"
  "reg st ''D'' = Some rd \<Longrightarrow> decodes n js avr_elpm3 st \<longleftrightarrow> decodes n js (avr_elpm rd 1) st"
  by (simp_all add: decodes_def avr_lpm1_def avr_lpm2_def avr_lpm3_def avr_elpm1_def avr_elpm2_def avr_elpm3_def avr_spm1_def)

lemma in_out_decodes:
  assumes "plain st" "get_group st ''A'' = Some a"
  shows "reg st ''D'' = Some rd \<Longrightarrow> reg8 rd \<Longrightarrow> decodes 2 [(next_rv st, always)] avr_in st"
    "reg st ''R'' = Some rd \<Longrightarrow> reg8 rd \<Longrightarrow> decodes 2 [(next_rv st, always)] avr_out st"
  using assms covers_one [of st 2 "[(next_rv st, always)]"]
  by (auto simp: avr_in_def avr_out_def reg8_def rreil_forms rreil_typing avr_steps)

lemma direct_decodes:
  assumes "plain st" "get_group st ''k'' = Some k" "reg8 rd"
  shows "reg st ''D'' = Some rd \<Longrightarrow> decodes 4 [(next_rv st, always)] avr_lds1 st"
    "reg st ''R'' = Some rd \<Longrightarrow> decodes 4 [(next_rv st, always)] avr_sts1 st"
    "high_reg st ''d'' = Some rd \<Longrightarrow> decodes 2 [(next_rv st, always)] avr_lds2 st"
    "high_reg st ''r'' = Some rd \<Longrightarrow> decodes 2 [(next_rv st, always)] avr_sts2 st"
  using assms covers_one [of st 2 "[(next_rv st, always)]"] covers_one [of st 4 "[(next_rv st, always)]"]
  by (auto simp: avr_lds1_def avr_lds2_def avr_sts1_def avr_sts2_def reg8_def rreil_forms rreil_typing avr_steps)

lemma movw_decodes:
  assumes "plain st" "get_group st ''d'' = Some d" "unat d < 16" "get_group st ''r'' = Some r" "unat r < 16"
  shows "decodes 2 [(next_rv st, always)] avr_movw st"
proof -
  obtain rd1 rd2 rr1 rr2 where "resolv (unat d * 2) = Some rd1" "reg8 rd1" "resolv (unat d * 2 + 1) = Some rd2" "reg8 rd2"
    "resolv (unat r * 2) = Some rr1" "reg8 rr1" "resolv (unat r * 2 + 1) = Some rr2" "reg8 rr2"
    using resolv_reg8 [of "unat d * 2"] resolv_reg8 [of "unat d * 2 + 1"] resolv_reg8 [of "unat r * 2"] resolv_reg8 [of "unat r * 2 + 1"]
      assms(3,5) by auto
  then show ?thesis
    using assms covers_one [of st 2 "[(next_rv st, always)]"]
    by (auto simp: avr_movw_def group_nat_def reg8_def rreil_forms rreil_typing avr_steps)
qed

end
