(* ===== verification/Avr_Spec.thy ===== *)
theory Avr_Spec
  imports Avr_Actions
begin

text \<open>
  Decoding of AVR instructions: the patterns of all rows of the two tables give their actions the groups they ask
  for, the disassembler is built from the tables, and decoding at an address of a region recognises exactly the cells
  a row matches.  One row, the second form of \<^verbatim>\<open>spm\<close>, asks for a group its pattern does not have.
\<close>

section \<open>Rows\<close>

fun is_terminal :: "('t, 'c) rule \<Rightarrow> bool" where
  "is_terminal (Terminal m p cs) = True"
| "is_terminal (Sub k d) = False"

definition avr_row_rules :: "avr_pattern list \<Rightarrow> (u16, mcu) rule list option" where
  "avr_row_rules ps = those (map pattern_rule ps)"

text \<open>The number of tokens of a row and the widths of its groups.\<close>

definition row_widths :: "avr_pattern list \<Rightarrow> (nat \<times> (string \<Rightarrow> nat)) option" where
  "row_widths ps = do {
     rs \<leftarrow> avr_row_rules ps;
     let caps = concat (map r_captures rs);
     if list_all is_terminal rs \<and> caps_ok caps then Some (length rs, widths caps) else None
   }"

definition shaped :: "avr_pattern list \<Rightarrow> (nat \<Rightarrow> (string \<Rightarrow> nat) \<Rightarrow> bool) \<Rightarrow> bool" where
  "shaped ps P \<longleftrightarrow> (case row_widths ps of None \<Rightarrow> False | Some (n, w) \<Rightarrow> 0 < n \<and> n \<le> 2 \<and> P n w)"

definition good_row :: "avr_row \<Rightarrow> bool" where
  "good_row row \<longleftrightarrow> (\<exists>rs. avr_row_rules (fst row) = Some rs \<and> terminals rs \<and> 0 < length rs \<and> length rs \<le> 2 \<and>
     (\<forall>a c st. matched a c rs st \<longrightarrow> mc_skip c = None \<longrightarrow> 0 < mc_pc_bits c \<longrightarrow> (\<exists>js. decodes (2 * length rs) js (snd row) st)))"

text \<open>The groups of a state have these widths.\<close>

definition captured :: "(string \<Rightarrow> nat) \<Rightarrow> avr_state \<Rightarrow> bool" where
  "captured w st \<longleftrightarrow> groups_fit (ds_groups st) w"

lemma captured_some: "captured w st \<Longrightarrow> 0 < w g \<Longrightarrow> has_group st g \<and> (\<exists>v. get_group st g = Some v \<and> unat v < 2 ^ w g)"
  using groups_fitD [of "ds_groups st" w g] by (cases "map_of (ds_groups st) g") (auto simp: captured_def get_group_map_of)

lemma captured_none: "captured w st \<Longrightarrow> w g = 0 \<Longrightarrow> \<not> has_group st g \<and> get_group st g = None"
  using groups_fitD [of "ds_groups st" w g] by (cases "map_of (ds_groups st) g") (auto simp: captured_def get_group_map_of)

lemma matched_plain:
  assumes "matched a c rs st" "mc_skip c = None" "0 < mc_pc_bits c"
  shows "plain st \<and> length (ds_tokens st) = length rs \<and> captured (widths (concat (map r_captures rs))) st \<and>
    ds_address st = a \<and> ds_mnemonic_origin st = a \<and> ds_jumps st = [] \<and> ds_mnemonics st = [] \<and> ds_configuration st = c"
  using assms unfolding matched_def by (auto simp: plain_def captured_def new_state_def wf_dstate_def)

lemma is_terminalD: "is_terminal r \<Longrightarrow> \<exists>m p cs. r = Terminal m p cs"
  by (cases r) auto

lemma shaped_good:
  assumes "shaped ps P"
    and "\<And>st n w. P n w \<Longrightarrow> plain st \<Longrightarrow> length (ds_tokens st) = n \<Longrightarrow> captured w st \<Longrightarrow> \<exists>js. decodes (2 * n) js act st"
  shows "good_row (ps, act)"
proof -
  obtain rs where rs: "avr_row_rules ps = Some rs" "list_all is_terminal rs" "caps_ok (concat (map r_captures rs))" "0 < length rs" "length rs \<le> 2"
      "P (length rs) (widths (concat (map r_captures rs)))"
    using assms(1) by (auto simp: shaped_def row_widths_def Let_def split: option.splits if_splits bind_splits)
  have "terminals rs" using rs(2,3) by (auto simp: terminals_def list_all_iff intro: is_terminalD)
  then show ?thesis using rs assms(2) matched_plain unfolding good_row_def by (simp add: Let_def)
qed

text \<open>The operands of the builders, by the widths of their groups.\<close>

definition first_ok :: "(string \<Rightarrow> nat) \<Rightarrow> bool" where
  "first_ok w \<longleftrightarrow> w ''D'' = 5 \<or> w ''D'' = 0 \<and> 0 < w ''d'' \<and> w ''d'' \<le> 4"

definition second_ok :: "(string \<Rightarrow> nat) \<Rightarrow> bool" where
  "second_ok w \<longleftrightarrow> w ''R'' = 5 \<or> w ''R'' = 0 \<and> 0 < w ''r'' \<and> w ''r'' \<le> 4 \<or> w ''R'' = 0 \<and> w ''r'' = 0 \<and> 0 < w ''K''"

definition any_ok :: "(string \<Rightarrow> nat) \<Rightarrow> bool" where
  "any_ok w \<longleftrightarrow> w ''D'' = 5 \<or> w ''D'' = 0 \<and> w ''d'' = 0 \<and> w ''R'' = 5"

lemma captured_reg: "captured w st \<Longrightarrow> w g = 5 \<Longrightarrow> has_group st g \<and> (\<exists>rd. reg st g = Some rd \<and> reg8 rd)"
  using captured_some [of w st g] reg_reg8 [of st g] by auto

lemma captured_high:
  assumes "captured w st" "0 < w g" "w g \<le> 4"
  shows "has_group st g \<and> (\<exists>rd. high_reg st g = Some rd \<and> reg8 rd)"
proof -
  have "(2 :: nat) ^ w g \<le> 2 ^ 4" by (rule power_increasing [OF assms(3)]) simp
  then show ?thesis using captured_some [OF assms(1,2)] high_reg_reg8 [of st g] by fastforce
qed

lemma first_reg_ok: "captured w st \<Longrightarrow> first_ok w \<Longrightarrow> \<exists>rd. first_reg st = Some rd \<and> reg8 rd"
  using captured_reg [of w st "''D''"] captured_high [of w st "''d''"] captured_none [of w st "''D''"]
  by (auto simp: first_reg_def first_ok_def)

lemma second_operand_ok: "captured w st \<Longrightarrow> second_ok w \<Longrightarrow> \<exists>rr. second_operand st = Some rr \<and> rvalue_size rr = Some 8"
  using captured_reg [of w st "''R''"] captured_high [of w st "''r''"] captured_some [of w st "''K''"]
    captured_none [of w st "''R''"] captured_none [of w st "''r''"]
  by (auto simp: second_operand_def second_ok_def reg8_def new_u8_def)

lemma any_reg_ok: "captured w st \<Longrightarrow> any_ok w \<Longrightarrow> \<exists>rd. any_reg st = Some rd \<and> reg8 rd"
  using captured_reg [of w st "''D''"] captured_reg [of w st "''R''"] captured_none [of w st "''D''"] captured_none [of w st "''d''"]
  by (auto simp: any_reg_def any_ok_def)

section \<open>Rows by builder\<close>

lemma binary_row:
  assumes "shaped ps (\<lambda>n w. n = 1 \<and> first_ok w \<and> second_ok w)" "f \<in> set avr_binary_sems"
  shows "good_row (ps, avr_binary m f)"
  using assms first_reg_ok second_operand_ok avr_binary_typed
  by (intro shaped_good [OF assms(1)]) (use avr_binary_decodes in fastforce)

lemma unary_row:
  assumes "shaped ps (\<lambda>n w. n = 1 \<and> first_ok w)" "f \<in> set avr_unary_sems"
  shows "good_row (ps, avr_unary m f)"
  using assms first_reg_ok avr_unary_typed by (intro shaped_good [OF assms(1)]) (use avr_unary_decodes in fastforce)

lemma nonary_row:
  assumes "shaped ps (\<lambda>n w. n = 1)" "f \<in> set avr_nonary_sems"
  shows "good_row (ps, avr_nonary m f)"
  using avr_nonary_typed [OF assms(2)] by (intro shaped_good [OF assms(1)]) (use avr_nonary_decodes in fastforce)

lemma flag_row: "shaped ps (\<lambda>n w. n = 1) \<Longrightarrow> good_row (ps, avr_flag m (rreil_lvalue f 1) b)"
  by (erule shaped_good) (use avr_flag_decodes in fastforce)

lemma branch_row: "shaped ps (\<lambda>n w. n = 1 \<and> 0 < w ''k'') \<Longrightarrow> good_row (ps, avr_branch m (rreil_lvalue f 1) b)"
  using avr_branch_decodes captured_some [of _ _ "''k''"] by (elim shaped_good) (auto, blast)

lemma bit_row:
  assumes "shaped ps (\<lambda>n w. n = 1 \<and> w ''k'' = 0 \<and> w ''b'' = 3 \<and> (w ''D'' = 5 \<or> w ''D'' = 0 \<and> w ''d'' = 0 \<and> 0 < w ''A''))"
    and "f \<in> set avr_bit_sems"
  shows "good_row (ps, avr_binary_imm m f)"
proof (rule shaped_good [OF assms(1)])
  fix st n w
  assume w: "n = 1 \<and> w ''k'' = 0 \<and> w ''b'' = 3 \<and> (w ''D'' = 5 \<or> w ''D'' = 0 \<and> w ''d'' = 0 \<and> 0 < w ''A'')"
    and st: "plain st" "length (ds_tokens st) = n" "captured w st"
  obtain k where k: "get_group st ''b'' = Some k" "unat k < 8" using captured_some [OF st(3), of "''b''"] w by auto
  note k' = captured_none [OF st(3), of "''k''"]
  show "\<exists>js. decodes (2 * n) js (avr_binary_imm m f) st"
  proof (cases "w ''D'' = 5")
    case True
    then show ?thesis
      using avr_imm_reg_decodes [OF st(1)] st(2) captured_reg [OF st(3), of "''D''"] avr_bit_typed [OF _ k(2) assms(2)] k k' w by fastforce
  next
    case False
    then show ?thesis
      using avr_imm_io_decodes [OF st(1)] st(2) captured_none [OF st(3), of "''D''"] captured_none [OF st(3), of "''d''"]
        captured_some [OF st(3), of "''A''"] avr_bit_typed [OF _ k(2) assms(2), of "LvVariable ''ioreg'' None 8"] k k' w
      by (fastforce simp: reg8_def)
  qed
qed

lemma ldi_row:
  assumes "shaped ps (\<lambda>n w. n = 1 \<and> w ''D'' = 0 \<and> 0 < w ''d'' \<and> w ''d'' \<le> 4 \<and> 0 < w ''k'')"
  shows "good_row (ps, avr_binary_imm m avr_ldi)"
proof (rule shaped_good [OF assms])
  fix st n w
  assume w: "n = 1 \<and> w ''D'' = 0 \<and> 0 < w ''d'' \<and> w ''d'' \<le> 4 \<and> 0 < w ''k''" and st: "plain st" "length (ds_tokens st) = n" "captured w st"
  obtain k rd where "get_group st ''k'' = Some k" "has_group st ''k''" "has_group st ''d''" "high_reg st ''d'' = Some rd" "reg8 rd" "\<not> has_group st ''D''"
    using captured_some [OF st(3), of "''k''"] captured_high [OF st(3), of "''d''"] captured_none [OF st(3), of "''D''"] w by auto
  then show "\<exists>js. decodes (2 * n) js (avr_binary_imm m avr_ldi) st"
    using avr_imm_reg_decodes [OF st(1), of rd k avr_ldi] st(2) avr_ldi_typed w by auto
qed

lemma skip_row:
  assumes "shaped ps (\<lambda>n w. n = 1 \<and> 0 < w ''sb'' \<and> (w ''sr'' = 5 \<or> w ''sr'' = 0 \<and> 0 < w ''sA''))"
  shows "good_row (ps, avr_skip m b)"
proof (rule shaped_good [OF assms])
  fix st n w
  assume w: "n = 1 \<and> 0 < w ''sb'' \<and> (w ''sr'' = 5 \<or> w ''sr'' = 0 \<and> 0 < w ''sA'')" and st: "plain st" "length (ds_tokens st) = n" "captured w st"
  obtain k where k: "get_group st ''sb'' = Some k" using captured_some [OF st(3), of "''sb''"] w by auto
  show "\<exists>js. decodes (2 * n) js (avr_skip m b) st"
  proof (cases "w ''sr'' = 5")
    case True
    then show ?thesis using avr_skip_reg_decodes [OF st(1)] st(2) captured_reg [OF st(3), of "''sr''"] k w by auto
  next
    case False
    then show ?thesis
      using avr_skip_io_decodes [OF st(1)] st(2) captured_none [OF st(3), of "''sr''"] captured_some [OF st(3), of "''sA''"] k w by auto
  qed
qed

lemma cpse_row: "shaped ps (\<lambda>n w. n = 1 \<and> w ''cd'' = 5 \<and> w ''cr'' = 5) \<Longrightarrow> good_row (ps, avr_cpse)"
  using avr_cpse_decodes captured_reg [of _ _ "''cd''"] captured_reg [of _ _ "''cr''"] by (elim shaped_good) (auto, blast)

lemma ptr_row:
  assumes "shaped ps (\<lambda>n w. n = 1 \<and> any_ok w \<and> (off = Displacement \<longrightarrow> 0 < w ''q''))" "f \<in> set avr_ptr_sems" "ar = RegX \<longrightarrow> off \<noteq> Displacement"
  shows "good_row (ps, avr_binary_ptr m f ar off b)"
proof (rule shaped_good [OF assms(1)])
  fix st n w
  assume w: "n = 1 \<and> any_ok w \<and> (off = Displacement \<longrightarrow> 0 < w ''q'')" and st: "plain st" "length (ds_tokens st) = n" "captured w st"
  obtain rd where "any_reg st = Some rd" "reg8 rd" using any_reg_ok [OF st(3)] w by auto
  then show "\<exists>js. decodes (2 * n) js (avr_binary_ptr m f ar off b) st"
    using ptr_decodes [OF st(1), of rd f off ar m b] st(2) avr_ptr_typed [OF _ assms(2), of rd] captured_some [OF st(3), of "''q''"] assms(3) w
    by auto
qed

section \<open>Rows of the other instructions\<close>

lemma wide_rows:
  assumes "shaped ps (\<lambda>n w. n = 1 \<and> w ''d'' = 2 \<and> 0 < w ''K'')"
  shows "good_row (ps, avr_adiw)" "good_row (ps, avr_sbiw)"
proof -
  have "\<exists>js. decodes (2 * n) js act st"
    if "n = 1 \<and> w ''d'' = 2 \<and> 0 < w ''K''" "plain st" "captured w st" "act = avr_adiw \<or> act = avr_sbiw" for w st act and n :: nat
    using wide_decodes [OF that(2) _ _ _ that(4)] captured_some [OF that(3), of "''d''"] captured_some [OF that(3), of "''K''"] that(1) by auto
  then show "good_row (ps, avr_adiw)" "good_row (ps, avr_sbiw)" by (intro shaped_good [OF assms]; blast)+
qed

lemma jump_rows:
  "shaped ps (\<lambda>n w. n = 2 \<and> 0 < w ''k'') \<Longrightarrow> good_row (ps, avr_call)"
  "shaped ps (\<lambda>n w. n = 2 \<and> 0 < w ''k'') \<Longrightarrow> good_row (ps, avr_jmp)"
  "shaped ps (\<lambda>n w. n = 1 \<and> 0 < w ''k'') \<Longrightarrow> good_row (ps, avr_rcall)"
  "shaped ps (\<lambda>n w. n = 1 \<and> 0 < w ''k'') \<Longrightarrow> good_row (ps, avr_rjmp)"
proof -
  have k: "\<exists>k. get_group st ''k'' = Some k" if "captured w st" "0 < w ''k''" for w st using captured_some [OF that] by blast
  show "good_row (ps, avr_call)" "good_row (ps, avr_jmp)" if "shaped ps (\<lambda>n w. n = 2 \<and> 0 < w ''k'')"
    by (rule shaped_good [OF that]; use k call_jmp_decodes(1,2) in fastforce)+
  show "good_row (ps, avr_rcall)" "good_row (ps, avr_rjmp)" if "shaped ps (\<lambda>n w. n = 1 \<and> 0 < w ''k'')"
    by (rule shaped_good [OF that]; use k call_jmp_decodes(3,4) in fastforce)+
qed

lemma des_row: "shaped ps (\<lambda>n w. n = 1 \<and> 0 < w ''K'') \<Longrightarrow> good_row (ps, avr_des)"
  using des_decodes captured_some [of _ _ "''K''"] by (elim shaped_good) (auto, blast)

lemma indirect_rows:
  assumes "shaped ps (\<lambda>n w. n = 1)"
  shows "good_row (ps, avr_eijmp)" "good_row (ps, avr_ijmp)" "good_row (ps, avr_icall)"
    "good_row (ps, avr_lpm1)" "good_row (ps, avr_elpm1)" "good_row (ps, avr_spm1)"
proof -
  have r0: "reg8 (rreil_lvalue ''R0'' 8)" by (simp add: reg8_def rreil_forms)
  show "good_row (ps, avr_eijmp)" "good_row (ps, avr_ijmp)" "good_row (ps, avr_icall)"
    by (rule shaped_good [OF assms]; use indirect_jump_decodes icall_decodes in fastforce)+
  show "good_row (ps, avr_lpm1)" "good_row (ps, avr_elpm1)" "good_row (ps, avr_spm1)"
    using lpm_decodes [OF _ r0]
    by (intro shaped_good [OF assms]; clarsimp simp: lpm_forms; metis)+
qed

lemma program_memory_rows:
  assumes "shaped ps (\<lambda>n w. n = 1 \<and> w ''D'' = 5)"
  shows "good_row (ps, avr_lpm2)" "good_row (ps, avr_lpm3)" "good_row (ps, avr_elpm2)" "good_row (ps, avr_elpm3)"
  using lpm_decodes captured_reg [of _ _ "''D''"]
  by (intro shaped_good [OF assms]; clarsimp; metis lpm_forms)+

lemma in_out_rows:
  "shaped ps (\<lambda>n w. n = 1 \<and> 0 < w ''A'' \<and> w ''D'' = 5) \<Longrightarrow> good_row (ps, avr_in)"
  "shaped ps (\<lambda>n w. n = 1 \<and> 0 < w ''A'' \<and> w ''R'' = 5) \<Longrightarrow> good_row (ps, avr_out)"
  using in_out_decodes captured_some [of _ _ "''A''"] captured_reg [of _ _ "''D''"] captured_reg [of _ _ "''R''"]
  by (elim shaped_good; clarsimp; metis)+

lemma direct_rows:
  "shaped ps (\<lambda>n w. n = 2 \<and> 0 < w ''k'' \<and> w ''D'' = 5) \<Longrightarrow> good_row (ps, avr_lds1)"
  "shaped ps (\<lambda>n w. n = 2 \<and> 0 < w ''k'' \<and> w ''R'' = 5) \<Longrightarrow> good_row (ps, avr_sts1)"
  "shaped ps (\<lambda>n w. n = 1 \<and> 0 < w ''k'' \<and> w ''d'' = 4) \<Longrightarrow> good_row (ps, avr_lds2)"
  "shaped ps (\<lambda>n w. n = 1 \<and> 0 < w ''k'' \<and> w ''r'' = 4) \<Longrightarrow> good_row (ps, avr_sts2)"
  using direct_decodes captured_some [of _ _ "''k''"] captured_reg [of _ _ "''D''"] captured_reg [of _ _ "''R''"]
    captured_high [of _ _ "''d''"] captured_high [of _ _ "''r''"]
  by (elim shaped_good; clarsimp; metis le_refl zero_less_numeral)+

lemma movw_row:
  assumes "shaped ps (\<lambda>n w. n = 1 \<and> w ''d'' = 4 \<and> w ''r'' = 4)"
  shows "good_row (ps, avr_movw)"
proof (rule shaped_good [OF assms])
  fix st w and n :: nat
  assume w: "n = 1 \<and> w ''d'' = 4 \<and> w ''r'' = 4" and st: "plain st" "captured w st"
  show "\<exists>js. decodes (2 * n) js avr_movw st"
    using movw_decodes [OF st(1)] captured_some [OF st(2), of "''d''"] captured_some [OF st(2), of "''r''"] w by auto
qed

lemmas avr_row_rules_of_actions =
  binary_row unary_row nonary_row flag_row branch_row ldi_row bit_row skip_row cpse_row ptr_row wide_rows jump_rows des_row indirect_rows
  program_memory_rows in_out_rows direct_rows movw_row

lemmas avr_sem_sets = avr_binary_sems_def avr_unary_sems_def avr_nonary_sems_def avr_bit_sems_def avr_ptr_sems_def

section \<open>The rows of the tables\<close>

text \<open>The rules of the patterns.\<close>

lemma avr_patterns:
  "rule_of_string ''1111 110 sr@..... 0 sb@...'' = Some (Terminal 0xFE08 0xFC00 [(''sr'', 0x1F0), (''sb'', 0x7)] :: (u16, mcu) rule)"
  "rule_of_string ''1111 111 sr@..... 0 sb@...'' = Some (Terminal 0xFE08 0xFE00 [(''sr'', 0x1F0), (''sb'', 0x7)] :: (u16, mcu) rule)"
  "rule_of_string ''000100 cr@. cd@..... cr@....'' = Some (Terminal 0xFC00 0x1000 [(''cr'', 0x20F), (''cd'', 0x1F0)] :: (u16, mcu) rule)"
  "rule_of_string ''1001 1001 sA@..... sb@...'' = Some (Terminal 0xFF00 0x9900 [(''sA'', 0xF8), (''sb'', 0x7)] :: (u16, mcu) rule)"
  "rule_of_string ''1001 1011 sA@..... sb@...'' = Some (Terminal 0xFF00 0x9B00 [(''sA'', 0xF8), (''sb'', 0x7)] :: (u16, mcu) rule)"
  "rule_of_string ''000111 R@. D@..... R@....'' = Some (Terminal 0xFC00 0x1C00 [(''R'', 0x20F), (''D'', 0x1F0)] :: (u16, mcu) rule)"
  "rule_of_string ''0000 11 R@. D@..... R@....'' = Some (Terminal 0xFC00 0x0C00 [(''R'', 0x20F), (''D'', 0x1F0)] :: (u16, mcu) rule)"
  "rule_of_string ''10010110 K@.. d@.. K@....'' = Some (Terminal 0xFF00 0x9600 [(''K'', 0xCF), (''d'', 0x30)] :: (u16, mcu) rule)"
  "rule_of_string ''0010 00 R@. D@..... R@....'' = Some (Terminal 0xFC00 0x2000 [(''R'', 0x20F), (''D'', 0x1F0)] :: (u16, mcu) rule)"
  "rule_of_string ''0111 K@.... d@.... K@....'' = Some (Terminal 0xF000 0x7000 [(''K'', 0xF0F), (''d'', 0xF0)] :: (u16, mcu) rule)"
  "rule_of_string ''11110 0 k@....... 000'' = Some (Terminal 0xFC07 0xF000 [(''k'', 0x3F8)] :: (u16, mcu) rule)"
  "rule_of_string ''11110 1 k@....... 000'' = Some (Terminal 0xFC07 0xF400 [(''k'', 0x3F8)] :: (u16, mcu) rule)"
  "rule_of_string ''11110 0 k@....... 001'' = Some (Terminal 0xFC07 0xF001 [(''k'', 0x3F8)] :: (u16, mcu) rule)"
  "rule_of_string ''11110 1 k@....... 001'' = Some (Terminal 0xFC07 0xF401 [(''k'', 0x3F8)] :: (u16, mcu) rule)"
  "rule_of_string ''11110 0 k@....... 010'' = Some (Terminal 0xFC07 0xF002 [(''k'', 0x3F8)] :: (u16, mcu) rule)"
  "rule_of_string ''11110 1 k@....... 010'' = Some (Terminal 0xFC07 0xF402 [(''k'', 0x3F8)] :: (u16, mcu) rule)"
  "rule_of_string ''11110 0 k@....... 011'' = Some (Terminal 0xFC07 0xF003 [(''k'', 0x3F8)] :: (u16, mcu) rule)"
  "rule_of_string ''11110 1 k@....... 011'' = Some (Terminal 0xFC07 0xF403 [(''k'', 0x3F8)] :: (u16, mcu) rule)"
  "rule_of_string ''11110 1 k@....... 100'' = Some (Terminal 0xFC07 0xF404 [(''k'', 0x3F8)] :: (u16, mcu) rule)"
  "rule_of_string ''11110 0 k@....... 100'' = Some (Terminal 0xFC07 0xF004 [(''k'', 0x3F8)] :: (u16, mcu) rule)"
  "rule_of_string ''11110 0 k@....... 101'' = Some (Terminal 0xFC07 0xF005 [(''k'', 0x3F8)] :: (u16, mcu) rule)"
  "rule_of_string ''11110 1 k@....... 101'' = Some (Terminal 0xFC07 0xF405 [(''k'', 0x3F8)] :: (u16, mcu) rule)"
  "rule_of_string ''11110 0 k@....... 110'' = Some (Terminal 0xFC07 0xF006 [(''k'', 0x3F8)] :: (u16, mcu) rule)"
  "rule_of_string ''11110 1 k@....... 110'' = Some (Terminal 0xFC07 0xF406 [(''k'', 0x3F8)] :: (u16, mcu) rule)"
  "rule_of_string ''11110 0 k@....... 111'' = Some (Terminal 0xFC07 0xF007 [(''k'', 0x3F8)] :: (u16, mcu) rule)"
  "rule_of_string ''11110 1 k@....... 111'' = Some (Terminal 0xFC07 0xF407 [(''k'', 0x3F8)] :: (u16, mcu) rule)"
  "rule_of_string ''1111 100 D@..... 0 b@...'' = Some (Terminal 0xFE08 0xF800 [(''D'', 0x1F0), (''b'', 0x7)] :: (u16, mcu) rule)"
  "rule_of_string ''1111 101 D@..... 0 b@...'' = Some (Terminal 0xFE08 0xFA00 [(''D'', 0x1F0), (''b'', 0x7)] :: (u16, mcu) rule)"
  "rule_of_string ''1001010 k@..... 111 k@.'' = Some (Terminal 0xFE0E 0x940E [(''k'', 0x1F1)] :: (u16, mcu) rule)"
  "rule_of_string ''k@................'' = Some (Terminal 0x0000 0x0000 [(''k'', 0xFFFF)] :: (u16, mcu) rule)"
  "rule_of_string ''1001 1000 A@..... b@...'' = Some (Terminal 0xFF00 0x9800 [(''A'', 0xF8), (''b'', 0x7)] :: (u16, mcu) rule)"
  "rule_of_string ''1001010 D@..... 0000'' = Some (Terminal 0xFE0F 0x9400 [(''D'', 0x1F0)] :: (u16, mcu) rule)"
  "rule_of_string ''000101 R@. D@..... R@....'' = Some (Terminal 0xFC00 0x1400 [(''R'', 0x20F), (''D'', 0x1F0)] :: (u16, mcu) rule)"
  "rule_of_string ''000001 R@. D@..... R@....'' = Some (Terminal 0xFC00 0x0400 [(''R'', 0x20F), (''D'', 0x1F0)] :: (u16, mcu) rule)"
  "rule_of_string ''0011 K@.... d@.... K@....'' = Some (Terminal 0xF000 0x3000 [(''K'', 0xF0F), (''d'', 0xF0)] :: (u16, mcu) rule)"
  "rule_of_string ''1001010 D@..... 1010'' = Some (Terminal 0xFE0F 0x940A [(''D'', 0x1F0)] :: (u16, mcu) rule)"
  "rule_of_string ''10010100 K@.... 1011'' = Some (Terminal 0xFF0F 0x940B [(''K'', 0xF0)] :: (u16, mcu) rule)"
  "rule_of_string ''1001 0101 0001 1001'' = Some (Terminal 0xFFFF 0x9519 [] :: (u16, mcu) rule)"
  "rule_of_string ''1001 0100 0001 1001'' = Some (Terminal 0xFFFF 0x9419 [] :: (u16, mcu) rule)"
  "rule_of_string ''1001 0101 1101 1000'' = Some (Terminal 0xFFFF 0x95D8 [] :: (u16, mcu) rule)"
  "rule_of_string ''1001 000 D@..... 0110'' = Some (Terminal 0xFE0F 0x9006 [(''D'', 0x1F0)] :: (u16, mcu) rule)"
  "rule_of_string ''1001 000 D@..... 0111'' = Some (Terminal 0xFE0F 0x9007 [(''D'', 0x1F0)] :: (u16, mcu) rule)"
  "rule_of_string ''0010 01 R@. D@..... R@....'' = Some (Terminal 0xFC00 0x2400 [(''R'', 0x20F), (''D'', 0x1F0)] :: (u16, mcu) rule)"
  "rule_of_string ''0000 0011 0 d@... 1 r@...'' = Some (Terminal 0xFF88 0x0308 [(''d'', 0x70), (''r'', 0x7)] :: (u16, mcu) rule)"
  "rule_of_string ''0000 0011 1 d@... 0 r@...'' = Some (Terminal 0xFF88 0x0380 [(''d'', 0x70), (''r'', 0x7)] :: (u16, mcu) rule)"
  "rule_of_string ''0000 0011 1 d@... 1 r@...'' = Some (Terminal 0xFF88 0x0388 [(''d'', 0x70), (''r'', 0x7)] :: (u16, mcu) rule)"
  "rule_of_string ''10110 A@.. D@..... A@....'' = Some (Terminal 0xF800 0xB000 [(''A'', 0x60F), (''D'', 0x1F0)] :: (u16, mcu) rule)"
  "rule_of_string ''1001010 D@..... 0011'' = Some (Terminal 0xFE0F 0x9403 [(''D'', 0x1F0)] :: (u16, mcu) rule)"
  "rule_of_string ''1001010 k@..... 110 k@.'' = Some (Terminal 0xFE0E 0x940C [(''k'', 0x1F1)] :: (u16, mcu) rule)"
  "rule_of_string ''1001001 R@..... 0110'' = Some (Terminal 0xFE0F 0x9206 [(''R'', 0x1F0)] :: (u16, mcu) rule)"
  "rule_of_string ''1001001 R@..... 0101'' = Some (Terminal 0xFE0F 0x9205 [(''R'', 0x1F0)] :: (u16, mcu) rule)"
  "rule_of_string ''1001001 R@..... 0111'' = Some (Terminal 0xFE0F 0x9207 [(''R'', 0x1F0)] :: (u16, mcu) rule)"
  "rule_of_string ''1001 000 D@..... 1100'' = Some (Terminal 0xFE0F 0x900C [(''D'', 0x1F0)] :: (u16, mcu) rule)"
  "rule_of_string ''1001 000 D@..... 1110'' = Some (Terminal 0xFE0F 0x900E [(''D'', 0x1F0)] :: (u16, mcu) rule)"
  "rule_of_string ''1001 000 D@..... 1101'' = Some (Terminal 0xFE0F 0x900D [(''D'', 0x1F0)] :: (u16, mcu) rule)"
  "rule_of_string ''1000 000 D@..... 1000'' = Some (Terminal 0xFE0F 0x8008 [(''D'', 0x1F0)] :: (u16, mcu) rule)"
  "rule_of_string ''1001 000 D@..... 1010'' = Some (Terminal 0xFE0F 0x900A [(''D'', 0x1F0)] :: (u16, mcu) rule)"
  "rule_of_string ''1001 000 D@..... 1001'' = Some (Terminal 0xFE0F 0x9009 [(''D'', 0x1F0)] :: (u16, mcu) rule)"
  "rule_of_string ''1000 000 D@..... 0000'' = Some (Terminal 0xFE0F 0x8000 [(''D'', 0x1F0)] :: (u16, mcu) rule)"
  "rule_of_string ''1001 000 D@..... 0010'' = Some (Terminal 0xFE0F 0x9002 [(''D'', 0x1F0)] :: (u16, mcu) rule)"
  "rule_of_string ''1001 000 D@..... 0001'' = Some (Terminal 0xFE0F 0x9001 [(''D'', 0x1F0)] :: (u16, mcu) rule)"
  "rule_of_string ''10 q@. 0 q@.. 0 D@..... 1 q@...'' = Some (Terminal 0xD208 0x8008 [(''q'', 0x2C07), (''D'', 0x1F0)] :: (u16, mcu) rule)"
  "rule_of_string ''10 q@. 0 q@.. 0 D@..... 0 q@...'' = Some (Terminal 0xD208 0x8000 [(''q'', 0x2C07), (''D'', 0x1F0)] :: (u16, mcu) rule)"
  "rule_of_string ''1110 k@.... d@.... k@....'' = Some (Terminal 0xF000 0xE000 [(''k'', 0xF0F), (''d'', 0xF0)] :: (u16, mcu) rule)"
  "rule_of_string ''1001000 D@..... 0000'' = Some (Terminal 0xFE0F 0x9000 [(''D'', 0x1F0)] :: (u16, mcu) rule)"
  "rule_of_string ''10100 k@... d@.... k@....'' = Some (Terminal 0xF800 0xA000 [(''k'', 0x70F), (''d'', 0xF0)] :: (u16, mcu) rule)"
  "rule_of_string ''1001 000 D@..... 0100'' = Some (Terminal 0xFE0F 0x9004 [(''D'', 0x1F0)] :: (u16, mcu) rule)"
  "rule_of_string ''1001 000 D@..... 0101'' = Some (Terminal 0xFE0F 0x9005 [(''D'', 0x1F0)] :: (u16, mcu) rule)"
  "rule_of_string ''1001010 D@..... 0110'' = Some (Terminal 0xFE0F 0x9406 [(''D'', 0x1F0)] :: (u16, mcu) rule)"
  "rule_of_string ''001011 R@. D@..... R@....'' = Some (Terminal 0xFC00 0x2C00 [(''R'', 0x20F), (''D'', 0x1F0)] :: (u16, mcu) rule)"
  "rule_of_string ''00000001 d@.... r@....'' = Some (Terminal 0xFF00 0x0100 [(''d'', 0xF0), (''r'', 0xF)] :: (u16, mcu) rule)"
  "rule_of_string ''1001 11 R@. D@..... R@....'' = Some (Terminal 0xFC00 0x9C00 [(''R'', 0x20F), (''D'', 0x1F0)] :: (u16, mcu) rule)"
  "rule_of_string ''0000 0010 d@.... r@....'' = Some (Terminal 0xFF00 0x0200 [(''d'', 0xF0), (''r'', 0xF)] :: (u16, mcu) rule)"
  "rule_of_string ''0000 0011 0 d@... 0 r@...'' = Some (Terminal 0xFF88 0x0300 [(''d'', 0x70), (''r'', 0x7)] :: (u16, mcu) rule)"
  "rule_of_string ''1001 010 D@..... 0001'' = Some (Terminal 0xFE0F 0x9401 [(''D'', 0x1F0)] :: (u16, mcu) rule)"
  "rule_of_string ''1001 010 D@..... 0101'' = Some (Terminal 0xFE0F 0x9405 [(''D'', 0x1F0)] :: (u16, mcu) rule)"
  "rule_of_string ''0010 10 R@. D@..... R@....'' = Some (Terminal 0xFC00 0x2800 [(''R'', 0x20F), (''D'', 0x1F0)] :: (u16, mcu) rule)"
  "rule_of_string ''0110 K@.... d@.... K@....'' = Some (Terminal 0xF000 0x6000 [(''K'', 0xF0F), (''d'', 0xF0)] :: (u16, mcu) rule)"
  "rule_of_string ''10111 A@.. R@..... A@....'' = Some (Terminal 0xF800 0xB800 [(''A'', 0x60F), (''R'', 0x1F0)] :: (u16, mcu) rule)"
  "rule_of_string ''1001000 D@..... 1111'' = Some (Terminal 0xFE0F 0x900F [(''D'', 0x1F0)] :: (u16, mcu) rule)"
  "rule_of_string ''1001001 D@..... 1111'' = Some (Terminal 0xFE0F 0x920F [(''D'', 0x1F0)] :: (u16, mcu) rule)"
  "rule_of_string ''1101 k@............'' = Some (Terminal 0xF000 0xD000 [(''k'', 0xFFF)] :: (u16, mcu) rule)"
  "rule_of_string ''1100 k@............'' = Some (Terminal 0xF000 0xC000 [(''k'', 0xFFF)] :: (u16, mcu) rule)"
  "rule_of_string ''1001010 D@..... 0111'' = Some (Terminal 0xFE0F 0x9407 [(''D'', 0x1F0)] :: (u16, mcu) rule)"
  "rule_of_string ''000010 R@. D@..... R@....'' = Some (Terminal 0xFC00 0x0800 [(''R'', 0x20F), (''D'', 0x1F0)] :: (u16, mcu) rule)"
  "rule_of_string ''0100 K@.... d@.... K@....'' = Some (Terminal 0xF000 0x4000 [(''K'', 0xF0F), (''d'', 0xF0)] :: (u16, mcu) rule)"
  "rule_of_string ''1001 1010 A@..... b@...'' = Some (Terminal 0xFF00 0x9A00 [(''A'', 0xF8), (''b'', 0x7)] :: (u16, mcu) rule)"
  "rule_of_string ''10010111 K@.. d@.. K@....'' = Some (Terminal 0xFF00 0x9700 [(''K'', 0xCF), (''d'', 0x30)] :: (u16, mcu) rule)"
  "rule_of_string ''1001 001 R@. R@.... 1100'' = Some (Terminal 0xFE0F 0x920C [(''R'', 0x1F0)] :: (u16, mcu) rule)"
  "rule_of_string ''1001 001 R@. R@.... 1110'' = Some (Terminal 0xFE0F 0x920E [(''R'', 0x1F0)] :: (u16, mcu) rule)"
  "rule_of_string ''1001 001 R@. R@.... 1101'' = Some (Terminal 0xFE0F 0x920D [(''R'', 0x1F0)] :: (u16, mcu) rule)"
  "rule_of_string ''1000 001 R@..... 1000'' = Some (Terminal 0xFE0F 0x8208 [(''R'', 0x1F0)] :: (u16, mcu) rule)"
  "rule_of_string ''1001 001 R@..... 1001'' = Some (Terminal 0xFE0F 0x9209 [(''R'', 0x1F0)] :: (u16, mcu) rule)"
  "rule_of_string ''1001 001 R@..... 1010'' = Some (Terminal 0xFE0F 0x920A [(''R'', 0x1F0)] :: (u16, mcu) rule)"
  "rule_of_string ''10 q@. 0 q@.. 1 R@..... 1 q@...'' = Some (Terminal 0xD208 0x8208 [(''q'', 0x2C07), (''R'', 0x1F0)] :: (u16, mcu) rule)"
  "rule_of_string ''1000 001 R@..... 0000'' = Some (Terminal 0xFE0F 0x8200 [(''R'', 0x1F0)] :: (u16, mcu) rule)"
  "rule_of_string ''1001 001 R@..... 0001'' = Some (Terminal 0xFE0F 0x9201 [(''R'', 0x1F0)] :: (u16, mcu) rule)"
  "rule_of_string ''1001 001 R@..... 0010'' = Some (Terminal 0xFE0F 0x9202 [(''R'', 0x1F0)] :: (u16, mcu) rule)"
  "rule_of_string ''10 q@. 0 q@.. 1 R@..... 0 q@...'' = Some (Terminal 0xD208 0x8200 [(''q'', 0x2C07), (''R'', 0x1F0)] :: (u16, mcu) rule)"
  "rule_of_string ''1001 001 R@..... 0000'' = Some (Terminal 0xFE0F 0x9200 [(''R'', 0x1F0)] :: (u16, mcu) rule)"
  "rule_of_string ''1010 1 k@... r@.... k@....'' = Some (Terminal 0xF800 0xA800 [(''k'', 0x70F), (''r'', 0xF0)] :: (u16, mcu) rule)"
  "rule_of_string ''000110 R@. D@..... R@....'' = Some (Terminal 0xFC00 0x1800 [(''R'', 0x20F), (''D'', 0x1F0)] :: (u16, mcu) rule)"
  "rule_of_string ''0101 K@.... d@.... K@....'' = Some (Terminal 0xF000 0x5000 [(''K'', 0xF0F), (''d'', 0xF0)] :: (u16, mcu) rule)"
  "rule_of_string ''1001 010 D@..... 0010'' = Some (Terminal 0xFE0F 0x9402 [(''D'', 0x1F0)] :: (u16, mcu) rule)"
  "rule_of_string ''1001 001 R@..... 0100'' = Some (Terminal 0xFE0F 0x9204 [(''R'', 0x1F0)] :: (u16, mcu) rule)"
  by (simp_all add: rule_of_string_def pattern_char_def add_group_bit_def token_size_def is_ascii_letter_def)

lemma group_masks:
  "ones 0x1F0 = 5" "ones 0x1F1 = 6" "ones 0x20F = 5" "ones 0x2C07 = 6" "ones 0x30 = 2" "ones 0x3F8 = 7" "ones 0x60F = 6" "ones 0x7 = 3"
  "ones 0x70 = 3" "ones 0x70F = 7" "ones 0xCF = 6" "ones 0xF = 4" "ones 0xF0 = 4" "ones 0xF0F = 8" "ones 0xF8 = 5" "ones 0xFFF = 12"
  "ones 0xFFFF = 16"
  by code_simp+

lemmas shape_simps =
  avr_patterns group_masks shaped_def row_widths_def avr_row_rules_def rule_of_nat_def widths_def add_width_def caps_ok_def
  first_ok_def second_ok_def any_ok_def avr_sem_sets

lemma avr_skip_rows_good: "list_all good_row avr_skip_rows"
  unfolding avr_skip_rows_def list.pred_inject(2)
  by (intro conjI list.pred_inject(1); rule avr_row_rules_of_actions; simp add: shape_simps)

lemma avr_adc_to_in_good: "list_all good_row avr_rows_adc_to_in"
  unfolding avr_rows_adc_to_in_def list.pred_inject(2)
  by (intro conjI list.pred_inject(1); rule avr_row_rules_of_actions; simp add: shape_simps)

lemma avr_inc_to_ror_good: "list_all good_row avr_rows_inc_to_ror"
  unfolding avr_rows_inc_to_ror_def list.pred_inject(2)
  by (intro conjI list.pred_inject(1); rule avr_row_rules_of_actions; simp add: shape_simps)

text \<open>The row of \<^verbatim>\<open>spm2\<close>, whose pattern has no group for its register.\<close>

definition spm2_row :: avr_row where
  "spm2_row = ([Code 0x95F8], avr_spm2)"

lemma avr_sbc_to_xch_good: "list_all (\<lambda>row. row = spm2_row \<or> good_row row) avr_rows_sbc_to_xch"
  unfolding avr_rows_sbc_to_xch_def list.pred_inject(2) spm2_row_def [symmetric]
  by (intro conjI list.pred_inject(1); (rule disjI1, rule refl | rule disjI2, rule avr_row_rules_of_actions; simp add: shape_simps))

section \<open>Matching\<close>

text \<open>The tokens in front of the cells, and whether the rules of a row match them.\<close>

fun read_tokens :: "nat \<Rightarrow> cell list \<Rightarrow> u16 list" where
  "read_tokens 0 i = []"
| "read_tokens (Suc n) i = (case read_token i of (Some tok, i') \<Rightarrow> tok # read_tokens n i' | (None, i') \<Rightarrow> [])"

fun rules_match :: "(u16, mcu) rule list \<Rightarrow> cell list \<Rightarrow> bool" where
  "rules_match [] i = True"
| "rules_match (Terminal m p cs # rs) i = (case read_token i of (Some tok, i') \<Rightarrow> m AND tok = p \<and> rules_match rs i' | (None, i') \<Rightarrow> False)"
| "rules_match (Sub k d # rs) i = False"

definition row_matches :: "cell list \<Rightarrow> avr_row \<Rightarrow> bool" where
  "row_matches i row \<longleftrightarrow> (case avr_row_rules (fst row) of None \<Rightarrow> False | Some rs \<Rightarrow> rules_match rs i)"

lemma match_seq_rules_match:
  "list_all is_terminal rs \<Longrightarrow> match_seq rs st i \<noteq> {} \<longleftrightarrow> rules_match rs i"
proof (induction rs arbitrary: st i)
  case (Cons r rs)
  then show ?case by (cases r) (auto simp: match_terminal_def split: option.splits prod.splits)
qed simp

lemma match_seq_tokens:
  "list_all is_terminal rs \<Longrightarrow> (st1, i1) \<in> match_seq rs st i \<Longrightarrow> ds_tokens st1 = ds_tokens st @ read_tokens (length rs) i"
proof (induction rs arbitrary: st i)
  case (Cons r rs)
  then show ?case by (cases r) (fastforce simp: match_terminal_def split: option.splits prod.splits if_splits)+
qed simp

lemma read_token_u16: "read_token i = (Some (tok :: u16), i') \<Longrightarrow> 2 \<le> length i \<and> i' = drop 2 i"
  by (auto simp: read_token_little_endian token_size_def split: if_splits)

lemma rules_match_length: "rules_match rs i \<Longrightarrow> 2 * length rs \<le> length i"
proof (induction rs i rule: rules_match.induct)
  case (2 m p cs rs i)
  then show ?case by (fastforce split: option.splits prod.splits dest: read_token_u16)
qed simp_all

section \<open>The tables\<close>

definition avr_bindings :: "avr_row list \<Rightarrow> ((u16, mcu) rule list \<times> avr_action) list" where
  "avr_bindings rows = map (\<lambda>row. (the (avr_row_rules (fst row)), snd row)) rows"

definition readable :: "avr_row list \<Rightarrow> bool" where
  "readable rows \<longleftrightarrow> (\<forall>row \<in> set rows. \<exists>rs. avr_row_rules (fst row) = Some rs \<and> rs \<noteq> [] \<and> list_all is_terminal rs)"

definition terminal_rules :: "(u16, mcu) rule set" where
  "terminal_rules = {r. is_terminal r}"

lemma terminal_rules_comparable: "comparable terminal_rules"
proof -
  have "rule_eq r r' \<longleftrightarrow> r = r'" if "is_terminal r" "is_terminal r'" for r r' :: "(u16, mcu) rule"
    using that by (cases r; cases r') auto
  then show ?thesis by (simp add: comparable_def terminal_rules_def)
qed

lemma terminal_rules_total: "r \<in> terminal_rules \<Longrightarrow> rule_matcher r st i \<noteq> None"
  by (cases r) (auto simp: terminal_rules_def match_terminal_def split: option.splits prod.splits)

lemma avr_dis_of_built:
  assumes "readable rows"
  shows "\<exists>dis. avr_dis_of rows = Some dis \<and> wf_dis terminal_rules dis \<and> d_default dis = None \<and>
    (\<forall>rs act. bound_to dis rs act \<longleftrightarrow> last_binding (avr_bindings rows) rs = Some act)"
proof -
  let ?items = "map (\<lambda>row. (map Required (the (avr_row_rules (fst row))), snd row)) rows"
  have items: "those (map avr_items rows) = Some ?items"
    unfolding those_eq_Some_iff map_map
  proof (rule map_cong [OF refl])
    fix row assume "row \<in> set rows"
    then obtain rs where "avr_row_rules (fst row) = Some rs" using assms by (auto simp: readable_def)
    then show "avr_items row = (Some \<circ> (\<lambda>row. (map Required (the (avr_row_rules (fst row))), snd row))) row"
      by (simp add: avr_items_def avr_row_rules_def)
  qed
  have "\<forall>(items, f) \<in> set ?items. gen_rule ` set items \<subseteq> terminal_rules \<and> list_ex gen_required items"
    using assms by (fastforce simp: readable_def terminal_rules_def list_all_iff list_ex_iff neq_Nil_conv)
  from new_disassembler_built [OF terminal_rules_comparable this, of None]
  have "\<exists>dis. new_disassembler ?items None = Some dis \<and> wf_dis terminal_rules dis \<and> d_default dis = None \<and>
    (\<forall>rs act. bound_to dis rs act \<longleftrightarrow> last_binding (rule_rows ?items) rs = Some act)" by blast
  moreover have "gen_rules (map Required rs) = [rs]" for rs :: "(u16, mcu) rule list"
  proof -
    have "fold gen_push (map Required rs) rss = map (\<lambda>q. q @ rs) rss" for rss
      by (induction rs arbitrary: rss) simp_all
    then show ?thesis by (simp add: gen_rules_def)
  qed
  then have "rule_rows ?items = avr_bindings rows"
    by (simp add: rule_rows_def avr_bindings_def comp_def concat_map_singleton)
  ultimately show ?thesis using items by (simp add: avr_dis_of_def)
qed

section \<open>Decoding\<close>

text \<open>What decoding an instruction makes of the cells at an address.\<close>

definition avr_decoded :: "nat \<Rightarrow> cell list \<Rightarrow> avr_state \<Rightarrow> bool" where
  "avr_decoded a i st \<longleftrightarrow> (\<exists>n. 1 \<le> n \<and> n \<le> 2 \<and> 2 * n \<le> length i \<and> ds_tokens st = read_tokens n i \<and>
     ds_mnemonics st \<noteq> [] \<and> contiguous a (ds_mnemonics st) (a + 2 * n) \<and> (\<forall>m \<in> set (ds_mnemonics st). b_start (m_area m) = a) \<and>
     ds_jumps st \<noteq> [] \<and> (\<forall>j \<in> set (ds_jumps st). fst j = a))"

lemma terminals_is_terminal: "terminals rs \<Longrightarrow> list_all is_terminal rs"
  by (fastforce simp: terminals_def list_all_iff)

lemma good_row_decodes:
  assumes "good_row row" "avr_row_rules (fst row) = Some rs" "(st1, i1) \<in> match_seq rs (new_state a c) i" "mc_skip c = None" "0 < mc_pc_bits c"
  shows "\<exists>st. snd row st1 = Some (st, True) \<and> avr_decoded a i st"
proof -
  have rs: "terminals rs" "0 < length rs" "length rs \<le> 2"
      "\<And>a c st. matched a c rs st \<Longrightarrow> mc_skip c = None \<Longrightarrow> 0 < mc_pc_bits c \<Longrightarrow> \<exists>js. decodes (2 * length rs) js (snd row) st"
    using assms(1,2) by (auto simp: good_row_def)
  note trm = terminals_is_terminal [OF rs(1)]
  have m: "matched a c rs st1" by (rule match_terminals [OF rs(1) assms(3)])
  obtain js st where st: "js \<noteq> []" "snd row st1 = Some (st, True)" "covers_bytes (2 * length rs) js st1 st"
    using rs(4) [OF m assms(4,5)] by (auto simp: decodes_def)
  have "ds_tokens st1 = read_tokens (length rs) i" using match_seq_tokens [OF trm assms(3)] by (simp add: new_state_def)
  moreover have "2 * length rs \<le> length i"
    using rules_match_length match_seq_rules_match [OF trm] assms(3) by blast
  ultimately have "avr_decoded a i st"
    using st(1,3) rs(2,3) matched_plain [OF m assms(4,5)] unfolding avr_decoded_def covers_bytes_def wf_dstate_def
    by (intro exI [of _ "length rs"]) (auto simp: Suc_le_eq)
  then show ?thesis using st(2) by blast
qed

lemma spm2_rules: "avr_row_rules (fst spm2_row) = Some [Terminal (- 1) 0x95F8 []]"
  by (simp add: spm2_row_def avr_row_rules_def rule_of_nat_def)

lemma spm2_matches: "rules_match [Terminal (- 1) 0x95F8 []] i \<longleftrightarrow> fst (read_token i) = Some (0x95F8 :: u16)"
  by (auto split: option.splits prod.splits)

lemma last_binding_in: "last_binding (avr_bindings rows) rs = Some act \<Longrightarrow> readable rows \<Longrightarrow>
    \<exists>row \<in> set rows. avr_row_rules (fst row) = Some rs \<and> snd row = act"
  by (force simp: last_binding_def avr_bindings_def readable_def dest!: map_of_SomeD)

lemma last_binding_some: "row \<in> set rows \<Longrightarrow> avr_row_rules (fst row) = Some rs \<Longrightarrow> \<exists>act. last_binding (avr_bindings rows) rs = Some act"
proof -
  assume "row \<in> set rows" "avr_row_rules (fst row) = Some rs"
  then have "rs \<in> fst ` set (rev (avr_bindings rows))" by (force simp: avr_bindings_def)
  then show ?thesis unfolding last_binding_def by (metis map_of_eq_None_iff not_None_eq)
qed

lemma table_find:
  assumes rows: "readable rows" "\<forall>row \<in> set rows. row = spm2_row \<or> good_row row"
    and dis: "wf_dis terminal_rules dis" "\<And>rs act. bound_to dis rs act \<longleftrightarrow> last_binding (avr_bindings rows) rs = Some act"
    and c: "mc_skip c = None" "0 < mc_pc_bits c" and tok: "spm2_row \<notin> set rows \<or> fst (read_token i) \<noteq> Some (0x95F8 :: u16)"
  shows "\<exists>M. dis_find dis (new_state a c) i = Some M \<and> (\<forall>m \<in> set M. avr_decoded a i (fst m)) \<and>
    (M \<noteq> [] \<longleftrightarrow> (\<exists>row \<in> set rows. row_matches i row))"
proof -
  let ?st = "new_state a c"
  have act: "\<exists>st. act st1 = Some (st, True) \<and> avr_decoded a i st" if b: "bound_to dis rs act" "(st1, i1) \<in> match_seq rs ?st i" for rs act st1 i1
  proof -
    obtain row where row: "row \<in> set rows" "avr_row_rules (fst row) = Some rs" "snd row = act"
      using last_binding_in [OF b(1) [unfolded dis(2)] rows(1)] by blast
    have "row \<noteq> spm2_row"
    proof
      assume eq: "row = spm2_row"
      then have "rs = [Terminal (- 1) 0x95F8 []]" using row(2) spm2_rules by simp
      then show False using b(2) match_seq_rules_match [of rs ?st i] spm2_matches tok row(1) eq by auto
    qed
    then have "good_row row" using rows(2) row(1) by blast
    from good_row_decodes [OF this row(2) b(2) c] show ?thesis unfolding row(3) .
  qed
  have defined: "act st1 \<noteq> None" if "bound_to dis rs act" "(st1, i1) \<in> match_seq rs ?st i" for rs act st1 i1 using act [OF that] by auto
  have "dis_find dis ?st i \<noteq> None"
    by (rule dis_find_defined [OF dis(1)]) (erule terminal_rules_total, erule (1) defined)
  then obtain M where M: "dis_find dis ?st i = Some M" by blast
  note set_M = dis_find_set [OF M]
  have "avr_decoded a i (fst m)" if "m \<in> set M" for m
    using that act unfolding set_M by fastforce
  moreover have "\<exists>row \<in> set rows. row_matches i row" if mM: "m \<in> set M" for m
  proof -
    obtain rs act st1 i1 where b: "bound_to dis rs act" "(st1, i1) \<in> match_seq rs ?st i" using mM unfolding set_M by auto
    obtain row where row: "row \<in> set rows" "avr_row_rules (fst row) = Some rs" using last_binding_in [OF b(1) [unfolded dis(2)] rows(1)] by blast
    have "list_all is_terminal rs" using rows(1) row by (auto simp: readable_def)
    then have "rules_match rs i" using b(2) match_seq_rules_match [of rs ?st i] by auto
    then show ?thesis using row by (auto simp: row_matches_def intro!: bexI [of _ row])
  qed
  moreover have "M \<noteq> []" if row: "row \<in> set rows" "row_matches i row" for row
  proof -
    obtain rs where rs: "avr_row_rules (fst row) = Some rs" "rules_match rs i" using row(2) by (auto simp: row_matches_def split: option.splits)
    have "list_all is_terminal rs" using rows(1) row(1) rs(1) by (auto simp: readable_def)
    then obtain st1 i1 where m: "(st1, i1) \<in> match_seq rs ?st i" using rs(2) match_seq_rules_match by fastforce
    obtain act where b: "bound_to dis rs act" using last_binding_some [OF row(1) rs(1)] unfolding dis(2) by blast
    then obtain st where "act st1 = Some (st, True)" using act [OF b m] by blast
    then have "(st, i1) \<in> set M" unfolding set_M using b m by blast
    then show ?thesis by auto
  qed
  ultimately show ?thesis using M by (metis list.set_intros(1) neq_Nil_conv)
qed

lemma good_readable: "good_row row \<Longrightarrow> \<exists>rs. avr_row_rules (fst row) = Some rs \<and> rs \<noteq> [] \<and> list_all is_terminal rs"
  using terminals_is_terminal by (auto simp: good_row_def)

lemma avr_tables_good:
  "\<forall>row \<in> set avr_skip_rows. good_row row" "\<forall>row \<in> set avr_rows. row = spm2_row \<or> good_row row"
  using avr_skip_rows_good avr_adc_to_in_good avr_inc_to_ror_good avr_sbc_to_xch_good by (auto simp: avr_rows_def list_all_iff)

lemma avr_tables_readable: "readable avr_skip_rows" "readable avr_rows"
  using avr_tables_good good_readable spm2_rules unfolding readable_def by fastforce+

lemma spm2_row_in: "spm2_row \<in> set avr_rows" "spm2_row \<notin> set avr_skip_rows"
proof -
  show "spm2_row \<in> set avr_rows" by (simp add: avr_rows_def avr_rows_sbc_to_xch_def spm2_row_def)
  show "spm2_row \<notin> set avr_skip_rows" by (simp add: avr_skip_rows_def spm2_row_def)
qed

lemma concat_nils: "concat (map (\<lambda>_. []) xs) = []"
  by (induction xs) simp_all

lemma find_rounds_leaves:
  assumes "run_ends ends ss = Some R" "\<forall>s \<in> set ss. step_edges es s = Some []"
  shows "find_rounds (Suc n) es ends ss = Some R"
proof -
  have "map (step_edges es) ss = map Some (map (\<lambda>_. []) ss)" using assms(2) by simp
  then have "those (map (step_edges es) ss) = Some (map (\<lambda>_. []) ss)" unfolding those_eq_Some_iff .
  then show ?thesis using assms(1) by (cases ss) (auto simp: concat_nils)
qed

text \<open>The disassembler tries the main table and the table of the skip instructions.\<close>

lemma avr_disassembler_finds:
  "\<exists>dis main skip. avr_disassembler = Some dis \<and> avr_dis_of avr_rows = Some main \<and> avr_dis_of avr_skip_rows = Some skip \<and>
     d_default dis = None \<and>
     (\<forall>st i. dis_find dis st i = do { M1 \<leftarrow> dis_find main st i; M2 \<leftarrow> dis_find skip st i; Some (M1 @ M2) })"
proof -
  obtain main skip where d: "avr_dis_of avr_rows = Some main" "avr_dis_of avr_skip_rows = Some skip"
    using avr_dis_of_built avr_tables_readable by blast
  let ?dis = "Disassembler 3 [(0, Sub 1 main, 1), (0, Sub 2 skip, 2)] [(1, accept), (2, accept)] None"
  have "avr_disassembler = Some ?dis"
    by (simp add: avr_disassembler_def d new_disassembler_def gen_rules_def new_dis_def)
  moreover have "dis_find ?dis st i = do { M1 \<leftarrow> dis_find main st i; M2 \<leftarrow> dis_find skip st i; Some (M1 @ M2) }" for st i
  proof -
    let ?es = "[(0, dis_find main, 1), (0, dis_find skip, 2)] :: (nat \<times> (u16, mcu) matcher \<times> nat) list" and ?ends = "[(1, accept), (2, accept)]"
    have "run_ends ?ends (map (\<lambda>(st', i). (st', v, i)) M @ ss) = map_option ((@) M) (run_ends ?ends ss)" if "v = 1 \<or> v = (2 :: nat)" for v M ss
      using that by (induction M; cases "run_ends ?ends ss") (auto simp: accept_def)
    from this [of 1] this [of 2 _ "[]"] have ends: "run_ends ?ends (map (\<lambda>(st', i). (st', 1, i)) M1 @ map (\<lambda>(st', i). (st', 2, i)) M2) = Some (M1 @ M2)"
      for M1 M2 by simp
    have "find_rounds 3 ?es ?ends (map (\<lambda>(st', i). (st', 1, i)) M1 @ map (\<lambda>(st', i). (st', 2, i)) M2) = Some (M1 @ M2)" for M1 M2
      unfolding numeral_3_eq_3 by (rule find_rounds_leaves [OF ends]) auto
    then show ?thesis by (simp add: dis_find_eq numeral_eq_Suc split: option.split bind_split)
  qed
  ultimately show ?thesis using d by (intro exI [of _ ?dis] exI [of _ main] exI [of _ skip]) simp
qed

declare region_cells.simps [simp del]

lemma avr_decode_cells:
  assumes "wf_region r" "avr_disassembler = Some dis"
  shows "avr_decode r addr cfg = next_match dis (drop addr (region_cells r)) addr cfg"
proof -
  obtain it where it: "region_iter r = Some it" "li_cells it = region_cells r"
    using region_iter_spec [OF assms(1)] by blast
  then obtain j where "li_seek it addr = Some j" "li_cells j = drop addr (region_cells r)"
    using seek_cells [of it addr] by auto
  then show ?thesis unfolding avr_decode_def assms(2) it(1) by (simp add: li_drain_cells)
qed

lemma avr_decode_cases:
  assumes "wf_region r" "mc_skip cfg = None" "0 < mc_pc_bits cfg"
    and "fst (read_token (drop addr (region_cells r))) \<noteq> Some (0x95F8 :: u16)"
  shows "if \<exists>row \<in> set (avr_rows @ avr_skip_rows). row_matches (drop addr (region_cells r)) row
    then \<exists>st. avr_decode r addr cfg = Some (Some st) \<and> avr_decoded addr (drop addr (region_cells r)) st
    else avr_decode r addr cfg = Some None"
proof -
  let ?i = "drop addr (region_cells r)"
  obtain dis main skip where d: "avr_disassembler = Some dis" "avr_dis_of avr_rows = Some main" "avr_dis_of avr_skip_rows = Some skip"
      "d_default dis = None" "\<And>st i. dis_find dis st i = do { M1 \<leftarrow> dis_find main st i; M2 \<leftarrow> dis_find skip st i; Some (M1 @ M2) }"
    using avr_disassembler_finds by blast
  have main: "wf_dis terminal_rules main" "\<And>rs act. bound_to main rs act \<longleftrightarrow> last_binding (avr_bindings avr_rows) rs = Some act"
    using avr_dis_of_built [OF avr_tables_readable(2)] d(2) by auto
  have skip: "wf_dis terminal_rules skip" "\<And>rs act. bound_to skip rs act \<longleftrightarrow> last_binding (avr_bindings avr_skip_rows) rs = Some act"
    using avr_dis_of_built [OF avr_tables_readable(1)] d(3) by auto
  obtain M1 where M1: "dis_find main (new_state addr cfg) ?i = Some M1" "\<forall>m \<in> set M1. avr_decoded addr ?i (fst m)"
      "M1 \<noteq> [] \<longleftrightarrow> (\<exists>row \<in> set avr_rows. row_matches ?i row)"
    using table_find [OF avr_tables_readable(2) avr_tables_good(2) main assms(2,3) disjI2 [OF assms(4)], of addr] by blast
  have "\<forall>row \<in> set avr_skip_rows. row = spm2_row \<or> good_row row" using avr_tables_good(1) by blast
  from table_find [OF avr_tables_readable(1) this skip assms(2,3) disjI1 [OF spm2_row_in(2)], of addr ?i]
  obtain M2 where M2: "dis_find skip (new_state addr cfg) ?i = Some M2" "\<forall>m \<in> set M2. avr_decoded addr ?i (fst m)"
      "M2 \<noteq> [] \<longleftrightarrow> (\<exists>row \<in> set avr_skip_rows. row_matches ?i row)" by blast
  have find: "dis_find dis (new_state addr cfg) ?i = Some (M1 @ M2)" by (simp add: d(5) M1(1) M2(1))
  have decode: "avr_decode r addr cfg = next_match dis ?i addr cfg" by (rule avr_decode_cells [OF assms(1) d(1)])
  show ?thesis
  proof (cases "M1 @ M2 = []")
    case True
    then show ?thesis using next_match_cases(2) [OF find] M1(3) M2(3) by (auto simp: decode d(4))
  next
    case False
    then obtain m where "m \<in> set (M1 @ M2)" "next_match dis ?i addr cfg = Some (Some (fst m))"
      using next_match_cases(1) [OF find] by blast
    then show ?thesis using False M1 M2 by (auto simp: decode)
  qed
qed

section \<open>Properties of the back end\<close>

lemma spm2_bound: "last_binding (avr_bindings avr_rows) [Terminal (- 1) 0x95F8 []] = Some avr_spm2"
proof -
  have "map_of (rev (avr_bindings avr_rows_sbc_to_xch)) [Terminal (- 1) 0x95F8 []] = Some avr_spm2"
    by (simp add: avr_bindings_def avr_rows_sbc_to_xch_def avr_row_rules_def avr_patterns rule_of_nat_def)
  then show ?thesis
    by (simp add: last_binding_def avr_rows_def avr_bindings_def map_add_find_right)
qed

lemma spm2_panic:
  assumes "fst (read_token i) = Some (0x95F8 :: u16)" "avr_disassembler = Some dis"
  shows "dis_find dis (new_state a c) i = None"
proof -
  obtain main skip where d: "avr_dis_of avr_rows = Some main" "avr_dis_of avr_skip_rows = Some skip"
      "\<And>st i. dis_find dis st i = do { M1 \<leftarrow> dis_find main st i; M2 \<leftarrow> dis_find skip st i; Some (M1 @ M2) }"
    using avr_disassembler_finds unfolding assms(2) option.inject by blast
  have b: "bound_to main [Terminal (- 1) 0x95F8 []] avr_spm2"
    using avr_dis_of_built [OF avr_tables_readable(2)] d(1) spm2_bound by auto
  obtain i1 where tok: "read_token i = (Some (0x95F8 :: u16), i1)"
    using assms(1) by (cases "read_token i :: u16 option \<times> cell list") auto
  have "((new_state a c :: avr_state)\<lparr>ds_tokens := [0x95F8]\<rparr>, i1) \<in> match_seq [Terminal (- 1) 0x95F8 []] (new_state a c) i"
    by (simp add: match_terminal_def new_state_def tok)
  moreover have "avr_spm2 ((new_state a c)\<lparr>ds_tokens := [0x95F8]\<rparr>) = None"
    by (simp add: avr_spm2_def reg_def group_nat_def get_group_def new_state_def)
  ultimately have "dis_find main (new_state a c) i = None" by (rule dis_find_panics [OF b])
  then show ?thesis by (simp add: d(3))
qed

text \<open>
  C38: The semantic functions of the AVR back end produce well-typed statements for every register
  and operand the tables can give them, and the extractions in them do not panic.
\<close>

theorem avr_semantics_typed:
  assumes "reg8 rd" "rvalue_size rr = Some 8" "unat b < 8"
  shows "(\<forall>f \<in> set avr_binary_sems. typed (f rd rr)) \<and> (\<forall>f \<in> set avr_unary_sems. typed (f rd)) \<and> (\<forall>f \<in> set avr_nonary_sems. typed f) \<and>
    (\<forall>f \<in> set avr_bit_sems. typed (f rd b)) \<and> typed (avr_ldi rd k) \<and> (\<forall>f \<in> set avr_ptr_sems. typed (f (LvVariable p None 16) rd))"
  using assms avr_binary_typed avr_unary_typed avr_nonary_typed avr_bit_typed avr_ldi_typed avr_ptr_typed by blast

theorem avr_semantics_typed_witness:
  "reg8 (rreil_lvalue ''R3'' 8) \<and> typed (avr_adc (rreil_lvalue ''R3'' 8) (RvConstant 7 8)) \<and> typed (avr_bst (rreil_lvalue ''R3'' 8) 5)"
proof -
  have r: "reg8 (rreil_lvalue ''R3'' 8)" by (simp add: reg8_def rreil_forms)
  from avr_semantics_typed [OF r, of "RvConstant 7 8" 5 0 "''Z''"] show ?thesis
    by (simp add: r avr_binary_sems_def avr_bit_sems_def)
qed

text \<open>The cells of \<^verbatim>\<open>add r17, r18\<close>.\<close>

lemma add_token: "read_token [Some 0x12, Some 0x0F] = (Some (0x0F12 :: u16), [])"
  by (simp add: read_token_little_endian token_size_def)

lemma add_region:
  "region_cells (region_wrap ''flash'' [0x12, 0x0F]) = [Some 0x12, Some 0x0F]" "wf_region (region_wrap ''flash'' [0x12, 0x0F])"
  by (simp_all add: region_wrap_def new_region_def opaque_wrap_def new_bound_def wf_region_def region_cells.simps)

lemma add_matches: "\<exists>row \<in> set (avr_rows @ avr_skip_rows). row_matches [Some 0x12, Some 0x0F] row"
proof -
  have "row_matches [Some 0x12, Some 0x0F] ([Bits ''0000 11 R@. D@..... R@....''], avr_binary ''add'' avr_add)"
    by (simp add: row_matches_def avr_row_rules_def avr_patterns add_token)
  moreover have "([Bits ''0000 11 R@. D@..... R@....''], avr_binary ''add'' avr_add) \<in> set avr_rows"
    by (simp add: avr_rows_def avr_rows_adc_to_in_def)
  ultimately show ?thesis by auto
qed

text \<open>
  C34: Decoding an AVR instruction, on a device with a program counter and without a pending skip: unless the
  token is \<^verbatim>\<open>0x95F8\<close>, neither the construction of the tables nor an action panics.  The result is an instruction exactly
  if a row of the tables matches the cells, and the error \<^verbatim>\<open>Unrecognized instruction\<close> otherwise.  An instruction
  consumes one or two tokens inside the region; its mnemonics start at the address, lie next to each other and cover
  exactly the bytes of these tokens; it has at least one jump, and all of them leave from the address.
\<close>

theorem avr_decode_total:
  assumes "wf_region r" "mc_skip cfg = None" "0 < mc_pc_bits cfg"
    and "fst (read_token (drop addr (region_cells r))) \<noteq> Some (0x95F8 :: u16)"
  shows "if \<exists>row \<in> set (avr_rows @ avr_skip_rows). row_matches (drop addr (region_cells r)) row
    then \<exists>st. avr_decode r addr cfg = Some (Some st) \<and> avr_decoded addr (drop addr (region_cells r)) st
    else avr_decode r addr cfg = Some None"
  by (rule avr_decode_cases [OF assms])

theorem avr_decode_total_witness:
  "\<exists>st. avr_decode (region_wrap ''flash'' [0x12, 0x0F]) 0 atmega88 = Some (Some st) \<and> avr_decoded 0 [Some 0x12, Some 0x0F] st"
  using avr_decode_total [OF add_region(2), of atmega88 0] add_matches add_token unfolding add_region(1) by (simp add: atmega88_def mcu_new_def)

text \<open>
  C39: Decoding the second form of \<^verbatim>\<open>spm\<close>, \<^verbatim>\<open>0x95F8\<close>, panics on every device: the row has no group for the register
  its action asks for.
\<close>

theorem avr_spm2_panics:
  assumes "wf_region r" "fst (read_token (drop addr (region_cells r))) = Some (0x95F8 :: u16)"
  shows "avr_decode r addr cfg = None"
proof -
  obtain dis where dis: "avr_disassembler = Some dis" using avr_disassembler_finds by blast
  show ?thesis
    unfolding avr_decode_cells [OF assms(1) dis] next_match_def spm2_panic [OF assms(2) dis] by simp
qed

theorem avr_spm2_panics_witness: "avr_decode (region_wrap ''flash'' [0xF8, 0x95]) 0 atmega88 = None"
proof -
  have "region_cells (region_wrap ''flash'' [0xF8, 0x95]) = [Some 0xF8, Some 0x95]" and wf: "wf_region (region_wrap ''flash'' [0xF8, 0x95])"
    by (simp_all add: region_wrap_def new_region_def opaque_wrap_def new_bound_def wf_region_def region_cells.simps)
  then show ?thesis by (intro avr_spm2_panics) (simp_all add: read_token_little_endian token_size_def)
qed

text \<open>
  C40: The offset of a conditional branch, a signed number of words in seven bits: the back end
  extends the sign from bit five, so the target is right exactly for offsets from -32 to 31 words.
\<close>

theorem avr_branch_offset_exact:
  assumes "unat g < 128"
  shows "branch_offset g = 2 * (if unat g < 64 then int (unat g) else int (unat g) - 128) \<longleftrightarrow> unat g < 32 \<or> 96 \<le> unat g"
proof -
  have "\<forall>n \<in> set [0..<128]. branch_offset (of_nat n) = 2 * (if n < 64 then int n else int n - 128) \<longleftrightarrow> n < 32 \<or> 96 \<le> n" by code_simp
  from bspec [OF this, of "unat g"] show ?thesis using assms by simp
qed

theorem avr_branch_offset_exact_witness: "branch_offset 127 = - 2 \<and> branch_offset 32 \<noteq> 64"
  using avr_branch_offset_exact [of 127] avr_branch_offset_exact [of 32] by simp

end
