(* ===== verification/Avr_Function.thy ===== *)
theory Avr_Function
  imports Avr_Spec Function_Spec
begin

text \<open>
  Functions of the AVR.  \<^verbatim>\<open>Avr::decode\<close> satisfies the laws that recursive disassembly asks of an architecture on
  code that holds the token \<^verbatim>\<open>0x95F8\<close> at no address, where decoding panics; the theorems of \<open>Function_Spec\<close> then hold for it.
\<close>

text \<open>\<^verbatim>\<open>Ok(st.into())\<close>: the match that \<^verbatim>\<open>Avr::decode\<close> returns.\<close>

definition avr_match :: "region \<Rightarrow> mcu \<Rightarrow> nat \<Rightarrow> (u16, mcu) dis_match option option" where
  "avr_match r cfg addr = map_option (map_option match_of_state) (avr_decode r addr cfg)"

text \<open>Code without the instruction that panics, for a device between two instructions.\<close>

definition avr_code :: "region \<Rightarrow> mcu \<Rightarrow> bool" where
  "avr_code r cfg \<longleftrightarrow> wf_region r \<and> mc_skip cfg = None \<and> 0 < mc_pc_bits cfg \<and>
     (\<forall>a < length (region_cells r). fst (read_token (drop a (region_cells r))) \<noteq> Some (0x95F8 :: u16))"

definition avr_matches :: "region \<Rightarrow> nat \<Rightarrow> bool" where
  "avr_matches r a \<longleftrightarrow> (\<exists>row \<in> set (avr_rows @ avr_skip_rows). row_matches (drop a (region_cells r)) row)"

lemma read_token_short: "fst (read_token [] :: u16 option \<times> cell list) = None" "fst (read_token [c] :: u16 option \<times> cell list) = None"
  by (simp_all add: read_token_def token_size_def numeral_2_eq_2 split: option.split)

lemma avr_match_cases:
  assumes "avr_code r cfg"
  shows "if avr_matches r a
    then \<exists>m n. avr_match r cfg a = Some (Some m) \<and> 1 \<le> n \<and> dm_mnemonics m \<noteq> [] \<and> contiguous a (dm_mnemonics m) (a + 2 * n) \<and>
           (\<forall>x \<in> set (dm_mnemonics m). b_start (m_area x) = a) \<and> (\<forall>j \<in> set (dm_jumps m). fst j = a)
    else avr_match r cfg a = Some None"
proof -
  have "fst (read_token (drop a (region_cells r))) \<noteq> Some (0x95F8 :: u16)"
    using assms by (cases "a < length (region_cells r)") (simp_all add: avr_code_def read_token_short(1))
  then have dec: "if avr_matches r a then \<exists>st. avr_decode r a cfg = Some (Some st) \<and> avr_decoded a (drop a (region_cells r)) st
      else avr_decode r a cfg = Some None"
    unfolding avr_matches_def by (intro avr_decode_cases) (use assms in \<open>simp_all add: avr_code_def\<close>)
  show ?thesis
  proof (cases "avr_matches r a")
    case True
    then obtain st where "avr_decode r a cfg = Some (Some st)" "avr_decoded a (drop a (region_cells r)) st" using dec by auto
    then show ?thesis using True by (auto simp: avr_match_def match_of_state_def avr_decoded_def)
  next
    case False
    then show ?thesis using dec by (simp add: avr_match_def)
  qed
qed

lemma avr_found:
  assumes "avr_code r cfg"
  shows "avr_match r cfg a \<noteq> None" "found (avr_match r cfg a) \<noteq> [] \<longleftrightarrow> avr_matches r a"
    "m \<in> set (found (avr_match r cfg a)) \<Longrightarrow> b_start (m_area m) = a \<and> a \<le> b_end (m_area m)"
    "j \<in> set (jumps_of (avr_match r cfg a)) \<Longrightarrow> fst j = a"
    "avr_matches r a \<Longrightarrow> \<exists>m \<in> set (found (avr_match r cfg a)). a < b_end (m_area m)"
proof -
  note cases = avr_match_cases [OF assms, of a]
  show "avr_match r cfg a \<noteq> None" "found (avr_match r cfg a) \<noteq> [] \<longleftrightarrow> avr_matches r a" using cases by (auto split: if_splits)
  show "m \<in> set (found (avr_match r cfg a)) \<Longrightarrow> b_start (m_area m) = a \<and> a \<le> b_end (m_area m)"
    using cases contiguous_areas by (fastforce split: if_splits)
  show "j \<in> set (jumps_of (avr_match r cfg a)) \<Longrightarrow> fst j = a" using cases by (auto split: if_splits)
  show "\<exists>m \<in> set (found (avr_match r cfg a)). a < b_end (m_area m)" if "avr_matches r a"
  proof -
    from cases that obtain m n where m: "avr_match r cfg a = Some (Some m)" "1 \<le> n" "dm_mnemonics m \<noteq> []" "contiguous a (dm_mnemonics m) (a + 2 * n)"
      by auto
    show ?thesis by (rule bexI [of _ "last (dm_mnemonics m)"]) (use m contiguous_last [OF m(4,3)] in simp_all)
  qed
qed

interpretation avr: simple_architecture "if avr_code r cfg then avr_match r cfg else (\<lambda>_. Some None)" for r cfg
proof
  show "(if avr_code r cfg then avr_match r cfg else (\<lambda>_. Some None)) a \<noteq> None" for a using avr_found(1) by simp
  fix a m assume "m \<in> set (found ((if avr_code r cfg then avr_match r cfg else (\<lambda>_. Some None)) a))"
  then have r: "avr_code r cfg" "m \<in> set (found (avr_match r cfg a))" by (auto split: if_splits)
  from avr_found(3) [OF this] show "b_start (m_area m) \<le> b_end (m_area m)" "b_start (m_area m) = a" by simp_all
next
  fix a assume "found ((if avr_code r cfg then avr_match r cfg else (\<lambda>_. Some None)) a) \<noteq> []"
  then have "avr_code r cfg" "found (avr_match r cfg a) \<noteq> []" by (auto split: if_splits)
  then show "b_start (m_area (hd (found ((if avr_code r cfg then avr_match r cfg else (\<lambda>_. Some None)) a)))) = a"
    using avr_found(3) [where r = r and cfg = cfg and a = a] by simp
next
  fix a j assume "j \<in> set (jumps_of ((if avr_code r cfg then avr_match r cfg else (\<lambda>_. Some None)) a))"
  then show "fst j = a" using avr_found(4) by (auto split: if_splits)
qed

text \<open>
  Disassembling an AVR function from such code always returns: a function that starts at the given address if an
  instruction matches there, and otherwise the error that there is no entry point.
\<close>

theorem avr_function_new:
  assumes "avr_code r cfg" "picks pick" "permutes order" "start < 2 ^ 64"
  shows "if avr_matches r start
    then \<exists>f. func_new pick order (avr_match r cfg) start uuid rn nam = Some (Inr f) \<and> func_start f = Some start \<and>
      concat (map bb_mnemonics (basic_blocks f)) =
        concat (map (\<lambda>a. found (avr_match r cfg a)) (sorted_list_of_set (reached (avr_match r cfg) start)))
    else func_new pick order (avr_match r cfg) start uuid rn nam = Some (Inl ())"
proof -
  have arch: "simple_architecture (avr_match r cfg)" using avr.simple_architecture_axioms [of r cfg] assms(1) by simp
  have "decodable (avr_match r cfg) start \<longleftrightarrow> avr_matches r start"
    unfolding decodable_def using avr_found(2,5) [OF assms(1), of start] by fastforce
  then show ?thesis
    using simple_architecture.new_function [OF arch assms(2-4), of uuid rn nam]
      simple_architecture.new_function_blocks [OF arch assms(2-4), of uuid rn nam] by (auto split: if_splits)
qed

theorem avr_function_new_witness:
  "avr_code (region_wrap ''flash'' [0x12, 0x0F]) atmega88 \<and>
   (\<exists>f. func_new Min insertion_order (avr_match (region_wrap ''flash'' [0x12, 0x0F]) atmega88) 0 (7 :: nat) ''flash'' None = Some (Inr f) \<and>
        func_start f = Some 0)"
proof -
  let ?r = "region_wrap ''flash'' [0x12, 0x0F]"
  have "fst (read_token (drop a [Some 0x12, Some 0x0F])) \<noteq> Some (0x95F8 :: u16)" if lt: "a < 2" for a
  proof -
    consider "a = 0" | "a = 1" using lt by linarith
    then show ?thesis by cases (simp_all add: add_token read_token_short(2))
  qed
  then have code: "avr_code ?r atmega88" by (simp add: avr_code_def add_region atmega88_def mcu_new_def numeral_2_eq_2)
  moreover have "avr_matches ?r 0" using add_matches by (simp add: avr_matches_def add_region(1))
  ultimately show ?thesis using avr_function_new [OF code loop_picks, of 0 "7 :: nat" "''flash''" None] by auto
qed

end
