(* ===== verification/Program.thy ===== *)
theory Program
  imports Function_Spec
begin

text \<open>
  Programs, from \<^verbatim>\<open>core/src/program.rs\<close>: the call graph of functions, external symbols and functions
  still to be disassembled.  \<open>new_v4 n\<close> stands for the result of the \<open>n\<close>-th call of \<^verbatim>\<open>Uuid::new_v4\<close>.
\<close>

section \<open>Data and operations\<close>

datatype 'u call_target = Concrete "'u func" | Symbolic string 'u | Todo rvalue "string option" 'u

fun target_uuid :: "'u call_target \<Rightarrow> 'u" where
  "target_uuid (Concrete f) = f_uuid f"
| "target_uuid (Symbolic _ uuid) = uuid"
| "target_uuid (Todo _ _ uuid) = uuid"

type_synonym 'u call_graph = "('u call_target, unit) adjacency_list"

record 'u program =
  p_uuid :: 'u
  p_name :: string
  p_call_graph :: "'u call_graph"
  p_imports :: "nat \<rightharpoonup> string"

definition program_new :: "'u \<Rightarrow> string \<Rightarrow> 'u program" where
  "program_new uuid n = \<lparr>p_uuid = uuid, p_name = n, p_call_graph = al_new, p_imports = Map.empty\<rparr>"

fun function_of :: "'u call_target \<Rightarrow> 'u func list" where
  "function_of (Concrete f) = [f]"
| "function_of _ = []"

definition program_functions :: "'u program \<Rightarrow> 'u func list" where
  "program_functions p = concat (map function_of (al_vertex_labels (p_call_graph p)))"

definition find_function_by :: "'u program \<Rightarrow> ('u func \<Rightarrow> bool) \<Rightarrow> 'u func option" where
  "find_function_by p flt = find flt (program_functions p)"

definition find_function_by_uuid :: "'u program \<Rightarrow> 'u \<Rightarrow> 'u func option" where
  "find_function_by_uuid p a = find (\<lambda>f. f_uuid f = a) (program_functions p)"

text \<open>
  A use of \<^verbatim>\<open>find_function_mut\<close>, \<^verbatim>\<open>find_function_by_uuid_mut\<close> or \<^verbatim>\<open>functions_mut\<close>: \<open>h\<close> is what the caller does
  with the references it gets.
\<close>

fun map_function :: "('u func \<Rightarrow> 'u func) \<Rightarrow> 'u call_target \<Rightarrow> 'u call_target" where
  "map_function h (Concrete f) = Concrete (h f)"
| "map_function h t = t"

fun first_function_mut ::
  "('u func \<Rightarrow> bool) \<Rightarrow> ('u func \<Rightarrow> 'u func) \<Rightarrow> (al_vertex \<times> 'u call_target) list \<Rightarrow> (al_vertex \<times> 'u call_target) list" where
  "first_function_mut flt h [] = []"
| "first_function_mut flt h ((v, t) # ls) =
     (if list_ex flt (function_of t) then (v, map_function h t) # ls else (v, t) # first_function_mut flt h ls)"

definition find_function_mut :: "'u program \<Rightarrow> ('u func \<Rightarrow> bool) \<Rightarrow> ('u func \<Rightarrow> 'u func) \<Rightarrow> 'u program" where
  "find_function_mut p flt h =
     p\<lparr>p_call_graph := (p_call_graph p)\<lparr>vertex_labels := first_function_mut flt h (vertex_labels (p_call_graph p))\<rparr>\<rparr>"

definition find_function_by_uuid_mut :: "'u program \<Rightarrow> 'u \<Rightarrow> ('u func \<Rightarrow> 'u func) \<Rightarrow> 'u program" where
  "find_function_by_uuid_mut p a h = find_function_mut p (\<lambda>f. f_uuid f = a) h"

definition program_functions_mut :: "('u func \<Rightarrow> 'u func) \<Rightarrow> 'u program \<Rightarrow> 'u program" where
  "program_functions_mut h p =
     p\<lparr>p_call_graph := (p_call_graph p)\<lparr>vertex_labels := map (\<lambda>(v, t). (v, map_function h t)) (vertex_labels (p_call_graph p))\<rparr>\<rparr>"

text \<open>\<^verbatim>\<open>s.start()\<close> panics for a function without resolved entry point.\<close>

fun find_entry :: "'u call_graph \<Rightarrow> nat \<Rightarrow> al_vertex list \<Rightarrow> al_vertex option option" where
  "find_entry g start [] = Some None"
| "find_entry g start (x # xs) =
     (case al_vertex_label g x of
        Some (Concrete s) \<Rightarrow>
          (case func_start s of
             None \<Rightarrow> None
           | Some a \<Rightarrow> if a = start then Some (Some x) else find_entry g start xs)
      | _ \<Rightarrow> find_entry g start xs)"

definition find_function_by_entry :: "'u program \<Rightarrow> nat \<Rightarrow> al_vertex option option" where
  "find_function_by_entry p start = find_entry (p_call_graph p) start (al_vertices (p_call_graph p))"

definition has_uuid :: "'u call_graph \<Rightarrow> 'u \<Rightarrow> al_vertex \<Rightarrow> bool" where
  "has_uuid g uu v \<longleftrightarrow> map_option target_uuid (al_vertex_label g v) = Some uu"

definition find_call_target_by_uuid :: "'u program \<Rightarrow> 'u \<Rightarrow> al_vertex option" where
  "find_call_target_by_uuid p uu = find (has_uuid (p_call_graph p) uu) (al_vertices (p_call_graph p))"

text \<open>The vertex a call leads to: the loop over the vertices in \<^verbatim>\<open>insert\<close>.\<close>

fun find_callee :: "'u call_graph \<Rightarrow> rvalue \<Rightarrow> al_vertex list \<Rightarrow> al_vertex option option" where
  "find_callee g a [] = Some None"
| "find_callee g a (w # ws) =
     (case al_vertex_label g w of
        Some (Concrete f) \<Rightarrow>
          (case a of
             RvConstant v _ \<Rightarrow>
               (case func_start f of
                  None \<Rightarrow> None
                | Some s \<Rightarrow> if unat v = s then Some (Some w) else find_callee g a ws)
           | _ \<Rightarrow> find_callee g a ws)
      | Some (Todo r _ _) \<Rightarrow> if r = a then Some (Some w) else find_callee g a ws
      | _ \<Rightarrow> find_callee g a ws)"

record 'u insertion =
  is_graph :: "'u call_graph"
  is_others :: "al_vertex list"
  is_todos :: "'u list"

fun insert_calls :: "(nat \<Rightarrow> 'u) \<Rightarrow> al_vertex \<Rightarrow> rvalue list \<Rightarrow> 'u insertion \<Rightarrow> 'u insertion option" where
  "insert_calls new_v4 vx [] s = Some s"
| "insert_calls new_v4 vx (a # calls) s =
     (case find_callee (is_graph s) a (al_vertices (is_graph s)) of
        None \<Rightarrow> None
      | Some (Some w) \<Rightarrow> insert_calls new_v4 vx calls (s\<lparr>is_others := is_others s @ [w]\<rparr>)
      | Some None \<Rightarrow>
          (let uu = new_v4 (length (is_todos s));
               (g, v) = al_add_vertex (is_graph s) (Todo a None uu)
           in insert_calls new_v4 vx calls
                (s\<lparr>is_graph := fst (al_add_edge g () vx v), is_todos := is_todos s @ [uu]\<rparr>)))"

fun connect_others :: "al_vertex \<Rightarrow> al_vertex list \<Rightarrow> 'u call_graph \<Rightarrow> 'u call_graph option" where
  "connect_others vx [] g = Some g"
| "connect_others vx (w # ws) g =
     (case al_edge_between g vx w of
        None \<Rightarrow> None
      | Some None \<Rightarrow> connect_others vx ws (fst (al_add_edge g () vx w))
      | Some (Some _) \<Rightarrow> connect_others vx ws g)"

definition place_function :: "'u func \<Rightarrow> 'u call_graph \<Rightarrow> 'u call_graph \<times> al_vertex" where
  "place_function f g =
     (case find (has_uuid g (f_uuid f)) (al_vertices g) of
        Some vx \<Rightarrow> (al_set_vertex_label g vx (\<lambda>_. Concrete f), vx)
      | None \<Rightarrow> al_add_vertex g (Concrete f))"

definition program_insert :: "(nat \<Rightarrow> 'u) \<Rightarrow> 'u func \<Rightarrow> 'u program \<Rightarrow> ('u program \<times> 'u list) option" where
  "program_insert new_v4 f p =
     (case place_function f (p_call_graph p) of (g, vx) \<Rightarrow>
        (case insert_calls new_v4 vx (collect_calls f) \<lparr>is_graph = g, is_others = [], is_todos = []\<rparr> of
           None \<Rightarrow> None
         | Some s \<Rightarrow> map_option (\<lambda>g'. (p\<lparr>p_call_graph := g'\<rparr>, is_todos s)) (connect_others vx (is_others s) (is_graph s))))"

text \<open>\<^verbatim>\<open>update_plt\<close> looks for functions of two statements of which the last loads from an import.\<close>

fun loaded_address :: "rvalue operation \<Rightarrow> nat option" where
  "loaded_address (Load _ _ _ (RvConstant v _)) = Some (unat v)"
| "loaded_address _ = None"

definition stub_address :: "'u func \<Rightarrow> nat option" where
  "stub_address f =
     (if length (func_statements f) = 2 then loaded_address (st_op (last (func_statements f))) else None)"

definition update_function_plt :: "(nat \<rightharpoonup> string) \<Rightarrow> 'u func \<Rightarrow> 'u func" where
  "update_function_plt imports f =
     (case stub_address f of
        None \<Rightarrow> f
      | Some a \<Rightarrow> (case imports a of Some import \<Rightarrow> set_plt import a f | None \<Rightarrow> f))"

definition update_plt :: "'u program \<Rightarrow> 'u program" where
  "update_plt p = program_functions_mut (update_function_plt (p_imports p)) p"

section \<open>Placing a function\<close>

text \<open>The labels a call \<open>a\<close> leads to, and graphs in which every function has a start.\<close>

fun callee :: "rvalue \<Rightarrow> 'u call_target \<Rightarrow> bool" where
  "callee (RvConstant v _) (Concrete f) \<longleftrightarrow> func_start f = Some (unat v)"
| "callee a (Todo r _ _) \<longleftrightarrow> r = a"
| "callee _ _ \<longleftrightarrow> False"

definition labelled :: "'u call_graph \<Rightarrow> al_vertex \<rightharpoonup> 'u call_target" where
  "labelled g = ag_verts (abs_al g)"

definition started :: "'u call_graph \<Rightarrow> bool" where
  "started g \<longleftrightarrow> (\<forall>v f. labelled g v = Some (Concrete f) \<longrightarrow> func_start f \<noteq> None)"

definition has_call :: "'u call_graph \<Rightarrow> al_vertex \<Rightarrow> al_vertex \<Rightarrow> bool" where
  "has_call g u w \<longleftrightarrow> (\<exists>e. ag_edges (abs_al g) e = Some ((), u, w))"

definition simple_calls :: "'u call_graph \<Rightarrow> bool" where
  "simple_calls g \<longleftrightarrow>
     (\<forall>e e' u w. ag_edges (abs_al g) e = Some ((), u, w) \<and> ag_edges (abs_al g) e' = Some ((), u, w) \<longrightarrow> e = e')"

lemma has_call_ends: "wf_al g \<Longrightarrow> has_call g u w \<Longrightarrow> labelled g u \<noteq> None \<and> labelled g w \<noteq> None"
  using edge_ends [of g "()" u w] by (auto simp: has_call_def labelled_def ran_def)

lemma in_vertices: "v \<in> set (al_vertices g) \<longleftrightarrow> labelled g v \<noteq> None"
  by (simp add: al_vertices_iff labelled_def abs_al_def)

lemma no_label: "(\<forall>v \<in> set (al_vertices g). \<not> (\<exists>l. labelled g v = Some l \<and> P l)) \<longleftrightarrow> (\<forall>v l. labelled g v = Some l \<longrightarrow> \<not> P l)"
  by (metis in_vertices option.distinct(1))

lemma label_labelled: "al_vertex_label g v = labelled g v"
  by (simp add: labelled_def vertex_label_abs)

lemma set_labels: "wf_al g \<Longrightarrow> set (al_vertex_labels g) = ran (labelled g)"
  by (simp add: labelled_def labels_ran)

lemma add_call:
  assumes "wf_al g" "labelled g u \<noteq> None" "labelled g w \<noteq> None"
  defines "g' \<equiv> fst (al_add_edge g () u w)"
  shows "wf_al g'" "al_vertex_labels g' = al_vertex_labels g" "labelled g' = labelled g"
    "has_call g' a b \<longleftrightarrow> has_call g a b \<or> a = u \<and> b = w"
    "simple_calls g \<Longrightarrow> \<not> has_call g u w \<Longrightarrow> simple_calls g'"
proof -
  have ends: "ag_verts (abs_al g) u \<noteq> None" "ag_verts (abs_al g) w \<noteq> None" using assms by (simp_all add: labelled_def)
  obtain r where r: "al_add_edge g () u w = (g', r)" by (metis g'_def prod.collapse)
  obtain e where e: "wf_al g'" "ag_edges (abs_al g) e = None"
    "abs_al g' = (abs_al g)\<lparr>ag_edges := (ag_edges (abs_al g))(e \<mapsto> ((), u, w))\<rparr>"
    using abs_add_edge [OF assms(1) r] ends by auto
  show "wf_al g'" "al_vertex_labels g' = al_vertex_labels g" "labelled g' = labelled g"
    using add_edge_labels [OF assms(1) ends, of "()"] by (simp_all add: g'_def labelled_def)
  show "has_call g' a b \<longleftrightarrow> has_call g a b \<or> a = u \<and> b = w" using e(2,3) by (auto simp: has_call_def) (metis option.distinct(1))
  show "simple_calls g \<Longrightarrow> \<not> has_call g u w \<Longrightarrow> simple_calls g'"
    using e(2,3) by (auto simp: has_call_def simple_calls_def)
qed

lemma add_call_target:
  fixes lb :: "'u call_target"
  assumes "wf_al g"
  defines "g' \<equiv> fst (al_add_vertex g lb)" and "n \<equiv> snd (al_add_vertex g lb)"
  shows "wf_al g'" "al_vertex_labels g' = al_vertex_labels g @ [lb]" "labelled g' = (labelled g)(n \<mapsto> lb)" "labelled g n = None"
    "has_call g' = has_call g" "simple_calls g' = simple_calls g"
proof -
  have a: "al_add_vertex g lb = (g', n)" by (simp add: g'_def n_def)
  show "wf_al g'" "labelled g' = (labelled g)(n \<mapsto> lb)" "labelled g n = None" "has_call g' = has_call g" "simple_calls g' = simple_calls g"
    using abs_add_vertex [OF assms(1) a] by (auto simp: labelled_def has_call_def simple_calls_def fun_eq_iff)
  show "al_vertex_labels g' = al_vertex_labels g @ [lb]"
    using add_vertex_labels(2) [OF assms(1), of lb] by (simp add: g'_def)
qed

lemma find_callee_spec:
  assumes "started g" "\<forall>w \<in> set ws. labelled g w \<noteq> None"
  shows "find_callee g a ws = Some (find (\<lambda>w. \<exists>l. labelled g w = Some l \<and> callee a l) ws)"
  using assms(2)
proof (induction ws)
  case (Cons w ws)
  then obtain l where l: "labelled g w = Some l" by auto
  have "func_start f \<noteq> None" if "l = Concrete f" for f using assms(1) l that by (auto simp: started_def)
  with Cons l show ?case by (cases l; cases a) (auto simp: label_labelled)
qed simp

lemma edge_between:
  assumes "wf_al g" "labelled g u \<noteq> None"
  shows "\<exists>r. al_edge_between g u w = Some r \<and> (r = None \<longleftrightarrow> \<not> has_call g u w)"
proof -
  obtain r where "al_edge_between g u w = Some r"
    "case r of None \<Rightarrow> \<nexists>e l. ag_edges (abs_al g) e = Some (l, u, w) | Some e \<Rightarrow> \<exists>l. ag_edges (abs_al g) e = Some (l, u, w)"
    using al_queries [OF assms(1), of u w] assms(2) in_vertices by blast
  then show ?thesis by (intro exI [of _ r]) (auto simp: has_call_def split: option.splits)
qed

lemma connect_others_spec:
  assumes "wf_al g" "labelled g vx \<noteq> None" "\<forall>w \<in> set ws. labelled g w \<noteq> None"
  shows "\<exists>g'. connect_others vx ws g = Some g' \<and> wf_al g' \<and> al_vertex_labels g' = al_vertex_labels g \<and> labelled g' = labelled g \<and>
    (\<forall>u w. has_call g' u w \<longleftrightarrow> has_call g u w \<or> u = vx \<and> w \<in> set ws) \<and> (simple_calls g \<longrightarrow> simple_calls g')"
  using assms
proof (induction ws arbitrary: g)
  case (Cons w ws)
  have w: "labelled g w \<noteq> None" using Cons.prems(3) by simp
  show ?case
  proof (cases "has_call g vx w")
    case True
    then obtain e where "al_edge_between g vx w = Some (Some e)" using edge_between [OF Cons.prems(1,2), of w] by auto
    with True Cons.IH [OF Cons.prems(1,2)] Cons.prems(3) show ?thesis by auto
  next
    case False
    then have "al_edge_between g vx w = Some None" using edge_between [OF Cons.prems(1,2), of w] by auto
    moreover note add = add_call [OF Cons.prems(1,2) w]
    ultimately show ?thesis using Cons.IH [OF add(1)] add(5) [OF _ False] Cons.prems by (auto simp: add(2-4))
  qed
qed simp

section \<open>The calls of a function\<close>

text \<open>
  What the loop over the calls does to its state: one new vertex for each call that leads
  nowhere, connected to \<open>vx\<close>, and every call leads to a vertex that is connected or listed.
\<close>

definition new_todos :: "(nat \<Rightarrow> 'u) \<Rightarrow> nat \<Rightarrow> rvalue list \<Rightarrow> 'u call_target list" where
  "new_todos new_v4 n as = map2 (\<lambda>a k. Todo a None (new_v4 k)) as [n..<n + length as]"

lemma new_todos_simps [simp]:
  "new_todos new_v4 n [] = []"
  "new_todos new_v4 n (a # as) = Todo a None (new_v4 n) # new_todos new_v4 (Suc n) as"
  by (simp_all add: new_todos_def upt_conv_Cons del: upt_Suc)

lemma new_todos_uuids: "map target_uuid (new_todos new_v4 n as) = map new_v4 [n..<n + length as]"
  by (induction as arbitrary: n) (simp_all add: upt_conv_Cons del: upt_Suc)

lemma new_todos_set: "t \<in> set (new_todos new_v4 n as) \<Longrightarrow> \<exists>a \<in> set as. \<exists>uu. t = Todo a None uu"
  by (induction as arbitrary: n) auto

definition grown :: "(nat \<Rightarrow> 'u) \<Rightarrow> al_vertex \<Rightarrow> 'u insertion \<Rightarrow> 'u insertion \<Rightarrow> rvalue list \<Rightarrow> bool" where
  "grown new_v4 vx s s' as \<longleftrightarrow>
     (let g = is_graph s; g' = is_graph s'; n = length (is_todos s) in
      wf_al g' \<and> started g' \<and> labelled g \<subseteq>\<^sub>m labelled g' \<and>
      al_vertex_labels g' = al_vertex_labels g @ new_todos new_v4 n as \<and>
      is_todos s' = is_todos s @ map new_v4 [n..<n + length as] \<and>
      (\<forall>u w. has_call g' u w \<longleftrightarrow> has_call g u w \<or> u = vx \<and> w \<in> dom (labelled g') - dom (labelled g)) \<and>
      (\<forall>w \<in> dom (labelled g') - dom (labelled g). \<exists>a \<in> set as. \<exists>uu. labelled g' w = Some (Todo a None uu)) \<and>
      (simple_calls g \<longrightarrow> simple_calls g'))"

definition missing :: "'u call_graph \<Rightarrow> rvalue list \<Rightarrow> rvalue set" where
  "missing g calls = {a \<in> set calls. \<forall>l \<in> set (al_vertex_labels g). \<not> callee a l}"

definition leads_to :: "'u call_graph \<Rightarrow> rvalue \<Rightarrow> al_vertex \<Rightarrow> bool" where
  "leads_to g a w \<longleftrightarrow> (\<exists>l. labelled g w = Some l \<and> callee a l)"

definition served :: "al_vertex \<Rightarrow> rvalue list \<Rightarrow> 'u insertion \<Rightarrow> 'u insertion \<Rightarrow> bool" where
  "served vx calls s s' \<longleftrightarrow>
     (let g' = is_graph s' in
      set (is_others s) \<subseteq> set (is_others s') \<and>
      (\<forall>w \<in> set (is_others s') - set (is_others s). \<exists>a \<in> set calls. leads_to g' a w) \<and>
      (\<forall>a \<in> set calls. \<exists>w. (w \<in> set (is_others s') \<or> has_call g' vx w) \<and> leads_to g' a w))"

definition calls_inserted :: "(nat \<Rightarrow> 'u) \<Rightarrow> al_vertex \<Rightarrow> rvalue list \<Rightarrow> 'u insertion \<Rightarrow> 'u insertion \<Rightarrow> rvalue list \<Rightarrow> bool" where
  "calls_inserted new_v4 vx calls s s' as \<longleftrightarrow>
     grown new_v4 vx s s' as \<and> served vx calls s s' \<and> distinct as \<and> set as = missing (is_graph s) calls"

lemma leads_to_mono: "leads_to g a w \<Longrightarrow> labelled g \<subseteq>\<^sub>m labelled g' \<Longrightarrow> leads_to g' a w"
  by (auto simp: leads_to_def map_le_def dom_def)

lemma calls_inserted_nil:
  assumes "wf_al (is_graph s)" "started (is_graph s)"
  shows "calls_inserted new_v4 vx [] s s []"
  using assms by (simp add: calls_inserted_def grown_def served_def missing_def Let_def)

lemma calls_inserted_found:
  assumes "calls_inserted new_v4 vx calls (s\<lparr>is_others := is_others s @ [w]\<rparr>) s' as"
    and "wf_al (is_graph s)" "leads_to (is_graph s) a w"
  shows "calls_inserted new_v4 vx (a # calls) s s' as"
proof -
  have "grown new_v4 vx (s\<lparr>is_others := is_others s @ [w]\<rparr>) s' as" using assms(1) by (simp add: calls_inserted_def)
  then have gr: "grown new_v4 vx s s' as" by (simp add: grown_def)
  then have w: "leads_to (is_graph s') a w" using leads_to_mono [OF assms(3)] by (simp add: grown_def Let_def)
  have "missing (is_graph s) (a # calls) = missing (is_graph s) calls"
    using assms(2,3) by (auto simp: missing_def leads_to_def set_labels ran_def)
  moreover have "served vx (a # calls) s s'" using assms(1) w unfolding calls_inserted_def served_def Let_def by auto
  ultimately show ?thesis using gr assms(1) by (simp add: calls_inserted_def)
qed

lemma calls_inserted_new:
  fixes s :: "'u insertion"
  assumes g: "wf_al (is_graph s)" "labelled (is_graph s) vx \<noteq> None"
    and new: "\<forall>l \<in> set (al_vertex_labels (is_graph s)). \<not> callee a l"
    and g1: "al_add_vertex (is_graph s) (Todo a None (new_v4 (length (is_todos s)))) = (g1, v)"
    and rest: "calls_inserted new_v4 vx calls (s\<lparr>is_graph := fst (al_add_edge g1 () vx v), is_todos := is_todos s @ [new_v4 (length (is_todos s))]\<rparr>) s' as"
  shows "calls_inserted new_v4 vx (a # calls) s s' (a # as)"
proof -
  let ?t = "Todo a None (new_v4 (length (is_todos s)))"
  note t = add_call_target [OF g(1), of ?t, unfolded g1 fst_conv snd_conv]
  define g2 where "g2 = fst (al_add_edge g1 () vx v)"
  have no: "\<not> has_call g1 vx v" using has_call_ends [OF g(1), of vx v] t(4) by (auto simp: t(5))
  have ends: "labelled g1 vx \<noteq> None" "labelled g1 v \<noteq> None" using g(2) t(3) by auto
  note c = add_call [OF t(1) ends, folded g2_def]
  have rest': "grown new_v4 vx (s\<lparr>is_graph := g2, is_todos := is_todos s @ [new_v4 (length (is_todos s))]\<rparr>) s' as"
    "served vx calls s s'" "distinct as" "set as = missing g2 calls"
    using rest by (simp_all add: calls_inserted_def served_def g2_def)
  have le: "labelled g2 \<subseteq>\<^sub>m labelled (is_graph s')" using rest'(1) by (simp add: grown_def Let_def)
  have v: "labelled (is_graph s') v = Some ?t" using le t(3) c(3) by (auto simp: map_le_def dom_def)
  have les: "labelled (is_graph s) \<subseteq>\<^sub>m labelled (is_graph s')"
    using le t(3,4) c(3) by (auto simp: map_le_def dom_def split: if_splits)
  have ns: "dom (labelled (is_graph s')) - dom (labelled (is_graph s)) = insert v (dom (labelled (is_graph s')) - dom (labelled g2))"
    using v t(3,4) c(3) by auto
  have hc: "has_call g2 u w \<longleftrightarrow> has_call (is_graph s) u w \<or> u = vx \<and> w = v" for u w using c(4) t(5) by simp
  have gr: "grown new_v4 vx s s' (a # as)"
    using rest'(1) les v t(2,6) c(2) c(5) [OF _ no] unfolding grown_def Let_def ns by (auto simp: hc upt_conv_Cons simp del: upt_Suc)
  have "leads_to (is_graph s') a v" using v by (simp add: leads_to_def)
  moreover have "has_call (is_graph s') vx v" using gr v t(4) by (auto simp: grown_def Let_def)
  ultimately have "served vx (a # calls) s s'" using rest'(2) unfolding served_def Let_def by auto
  moreover have "missing (is_graph s) (a # calls) = insert a (missing g2 calls)" "a \<notin> missing g2 calls"
    using new t(2) c(2) by (auto simp: missing_def)
  ultimately show ?thesis using gr rest'(3,4) by (simp add: calls_inserted_def)
qed

lemma insert_calls_spec:
  assumes "wf_al (is_graph s)" "started (is_graph s)" "labelled (is_graph s) vx \<noteq> None"
  shows "\<exists>s' as. insert_calls new_v4 vx calls s = Some s' \<and> calls_inserted new_v4 vx calls s s' as"
  using assms
proof (induction calls arbitrary: s)
  case Nil
  then show ?case using calls_inserted_nil by auto
next
  case (Cons a calls)
  let ?g = "is_graph s"
  have fc: "find_callee ?g a (al_vertices ?g) = Some (find (leads_to ?g a) (al_vertices ?g))"
    using find_callee_spec [OF Cons.prems(2), of "al_vertices ?g" a] by (simp add: in_vertices leads_to_def cong: find_cong)
  show ?case
  proof (cases "find (leads_to ?g a) (al_vertices ?g)")
    case (Some w)
    then have "leads_to ?g a w" by (auto simp: find_Some_iff)
    then show ?thesis using Cons.IH [of "s\<lparr>is_others := is_others s @ [w]\<rparr>"] Cons.prems Some fc
      by (auto intro: calls_inserted_found)
  next
    case None
    then have "\<forall>v l. labelled ?g v = Some l \<longrightarrow> \<not> callee a l" by (auto simp: find_None_iff leads_to_def simp flip: no_label)
    then have new: "\<forall>l \<in> set (al_vertex_labels ?g). \<not> callee a l" by (auto simp: set_labels [OF Cons.prems(1)] ran_def)
    let ?uu = "new_v4 (length (is_todos s))"
    obtain g1 v where g1: "al_add_vertex ?g (Todo a None ?uu) = (g1, v)" by force
    note t = add_call_target [OF Cons.prems(1), of "Todo a None ?uu", unfolded g1 fst_conv snd_conv]
    have ends: "labelled g1 vx \<noteq> None" "labelled g1 v \<noteq> None" using Cons.prems(3) t(3) by auto
    note c = add_call [OF t(1) ends]
    have "started (fst (al_add_edge g1 () vx v))" using Cons.prems(2) t(3) c(3) by (auto simp: started_def split: if_splits)
    then obtain s' as where s': "insert_calls new_v4 vx calls (s\<lparr>is_graph := fst (al_add_edge g1 () vx v), is_todos := is_todos s @ [?uu]\<rparr>) = Some s'"
      "calls_inserted new_v4 vx calls (s\<lparr>is_graph := fst (al_add_edge g1 () vx v), is_todos := is_todos s @ [?uu]\<rparr>) s' as"
      using Cons.IH [of "s\<lparr>is_graph := fst (al_add_edge g1 () vx v), is_todos := is_todos s @ [?uu]\<rparr>"] c(1,3) ends by auto
    from calls_inserted_new [OF Cons.prems(1,3) new g1 s'(2)] s'(1) None fc g1 show ?thesis by (auto simp: Let_def)
  qed
qed

section \<open>Inserting a function\<close>

lemma map_entry_keys: "map fst (AList.map_entry k h xs) = map fst xs"
  by (induction xs) auto

lemma al_set_label:
  fixes lb :: "'u call_target"
  assumes "wf_al g" "labelled g v \<noteq> None"
  defines "g' \<equiv> al_set_vertex_label g v (\<lambda>_. lb)"
  shows "wf_al g'" "labelled g' = (labelled g)(v \<mapsto> lb)" "has_call g' = has_call g" "simple_calls g' = simple_calls g"
proof -
  have vl: "map_of (vertex_labels g') = (map_of (vertex_labels g))(v \<mapsto> lb)"
    using assms(2) by (auto simp: g'_def al_set_vertex_label_def labelled_def abs_al_def map_of_map_entry fun_eq_iff)
  have eq: "wf_core g' = wf_core g" "map fst (vertex_labels g') = map fst (vertex_labels g)" "next_vertex g' = next_vertex g" "out_edges g' = out_edges g"
    by (simp_all add: g'_def al_set_vertex_label_def wf_core_vertex_labels map_entry_keys)
  show "wf_al g'" using assms(1,2) by (auto simp: wf_al_def eq vl labelled_def abs_al_def)
  show "labelled g' = (labelled g)(v \<mapsto> lb)" by (simp add: labelled_def abs_al_def vl)
  have "ag_edges (abs_al g') = ag_edges (abs_al g)" by (simp add: abs_al_def g'_def al_set_vertex_label_def)
  then show "has_call g' = has_call g" "simple_calls g' = simple_calls g" by (simp_all add: has_call_def simple_calls_def fun_eq_iff)
qed

lemma place_function_spec:
  assumes "wf_al g" "place_function f g = (g', vx)"
  shows "wf_al g'" "labelled g' = (labelled g)(vx \<mapsto> Concrete f)" "has_call g' = has_call g" "simple_calls g' = simple_calls g"
    "(\<exists>t. labelled g vx = Some t \<and> target_uuid t = f_uuid f) \<or>
     labelled g vx = None \<and> (\<forall>v t. labelled g v = Some t \<longrightarrow> target_uuid t \<noteq> f_uuid f)"
proof -
  let ?find = "find (has_uuid g (f_uuid f)) (al_vertices g)"
  have "wf_al g' \<and> labelled g' = (labelled g)(vx \<mapsto> Concrete f) \<and> has_call g' = has_call g \<and> simple_calls g' = simple_calls g \<and>
    ((\<exists>t. labelled g vx = Some t \<and> target_uuid t = f_uuid f) \<or>
     labelled g vx = None \<and> (\<forall>v t. labelled g v = Some t \<longrightarrow> target_uuid t \<noteq> f_uuid f))"
  proof (cases ?find)
    case None
    then have "\<forall>v t. labelled g v = Some t \<longrightarrow> target_uuid t \<noteq> f_uuid f"
      by (auto simp: find_None_iff has_uuid_def label_labelled simp flip: no_label)
    then show ?thesis using add_call_target [OF assms(1), of "Concrete f"] assms(2) None by (simp add: place_function_def)
  next
    case (Some v)
    then have "\<exists>t. labelled g v = Some t \<and> target_uuid t = f_uuid f"
      by (auto simp: find_Some_iff has_uuid_def label_labelled)
    then show ?thesis using al_set_label [OF assms(1), of v "Concrete f"] assms(2) Some by (auto simp: place_function_def)
  qed
  then show "wf_al g'" "labelled g' = (labelled g)(vx \<mapsto> Concrete f)" "has_call g' = has_call g" "simple_calls g' = simple_calls g"
    "(\<exists>t. labelled g vx = Some t \<and> target_uuid t = f_uuid f) \<or>
     labelled g vx = None \<and> (\<forall>v t. labelled g v = Some t \<longrightarrow> target_uuid t \<noteq> f_uuid f)" by auto
qed

lemma program_insert_spec:
  assumes "wf_al (p_call_graph p)" "started (p_call_graph p)" "func_start f \<noteq> None"
  obtains g vx p' s as where "place_function f (p_call_graph p) = (g, vx)" "program_insert new_v4 f p = Some (p', is_todos s)"
    "calls_inserted new_v4 vx (collect_calls f) \<lparr>is_graph = g, is_others = [], is_todos = []\<rparr> s as"
    "p' = p\<lparr>p_call_graph := p_call_graph p'\<rparr>" "wf_al (p_call_graph p')"
    "al_vertex_labels (p_call_graph p') = al_vertex_labels (is_graph s)" "labelled (p_call_graph p') = labelled (is_graph s)"
    "\<forall>u w. has_call (p_call_graph p') u w \<longleftrightarrow> has_call (is_graph s) u w \<or> u = vx \<and> w \<in> set (is_others s)"
    "simple_calls (is_graph s) \<Longrightarrow> simple_calls (p_call_graph p')"
proof -
  obtain g vx where pl: "place_function f (p_call_graph p) = (g, vx)" by force
  note g = place_function_spec [OF assms(1) pl]
  have "started g" using assms(2,3) g(2) by (auto simp: started_def split: if_splits)
  then obtain s as where s: "insert_calls new_v4 vx (collect_calls f) \<lparr>is_graph = g, is_others = [], is_todos = []\<rparr> = Some s"
    "calls_inserted new_v4 vx (collect_calls f) \<lparr>is_graph = g, is_others = [], is_todos = []\<rparr> s as"
    using insert_calls_spec [of "\<lparr>is_graph = g, is_others = [], is_todos = []\<rparr>" vx new_v4 "collect_calls f"] g(1,2) by auto
  have "wf_al (is_graph s)" "labelled (is_graph s) vx \<noteq> None" "\<forall>w \<in> set (is_others s). labelled (is_graph s) w \<noteq> None"
    using s(2) g(2) by (auto simp: calls_inserted_def grown_def served_def leads_to_def map_le_def dom_def Let_def split: if_splits)
  from connect_others_spec [OF this] obtain g' where g': "connect_others vx (is_others s) (is_graph s) = Some g'" "wf_al g'"
    "al_vertex_labels g' = al_vertex_labels (is_graph s)" "labelled g' = labelled (is_graph s)"
    "\<forall>u w. has_call g' u w \<longleftrightarrow> has_call (is_graph s) u w \<or> u = vx \<and> w \<in> set (is_others s)" "simple_calls (is_graph s) \<longrightarrow> simple_calls g'"
    by blast
  show ?thesis
    by (rule that [OF pl _ s(2), of "p\<lparr>p_call_graph := g'\<rparr>"]) (use pl s(1) g' in \<open>simp_all add: program_insert_def\<close>)
qed

lemma place_function_uuids:
  assumes "wf_al g" "place_function f g = (g', vx)"
  shows "map target_uuid (al_vertex_labels g') =
    (if labelled g vx = None then map target_uuid (al_vertex_labels g) @ [f_uuid f] else map target_uuid (al_vertex_labels g))"
proof (cases "find (has_uuid g (f_uuid f)) (al_vertices g)")
  case None
  then show ?thesis using add_call_target(2,4) [OF assms(1), of "Concrete f"] assms(2) by (simp add: place_function_def)
next
  case (Some v)
  then have v: "vx = v" "g' = al_set_vertex_label g v (\<lambda>_. Concrete f)" using assms(2) by (auto simp: place_function_def)
  obtain t where t: "map_of (vertex_labels g) v = Some t" "target_uuid t = f_uuid f"
    using Some by (auto simp: find_Some_iff has_uuid_def al_vertex_label_def)
  have "map (target_uuid \<circ> snd) (AList.map_entry v (\<lambda>_. Concrete f) xs) = map (target_uuid \<circ> snd) xs"
    if "map_of xs v = Some t" for xs using that t(2) by (induction xs) (auto split: if_splits)
  then show ?thesis using t by (simp add: v al_vertex_labels_def al_set_vertex_label_def labelled_def abs_al_def)
qed

lemma unique_uuid:
  assumes "distinct (map target_uuid ls)" "t \<in> set ls" "t' \<in> set ls" "target_uuid t = target_uuid t'"
  shows "t = t'"
  using assms by (auto simp: distinct_map dest: inj_onD)

lemma find_found: "x \<in> set xs \<Longrightarrow> P x \<Longrightarrow> \<exists>y. find P xs = Some y \<and> y \<in> set xs \<and> P y"
  by (induction xs) auto

lemma find_function_by_uuid_unique:
  assumes "distinct (map target_uuid (al_vertex_labels (p_call_graph p)))" "Concrete f \<in> set (al_vertex_labels (p_call_graph p))"
  shows "find_function_by_uuid p (f_uuid f) = Some f"
proof -
  have fs: "g \<in> set (program_functions p) \<longleftrightarrow> Concrete g \<in> set (al_vertex_labels (p_call_graph p))" for g
    unfolding program_functions_def by (auto, metis empty_iff function_of.elims list.set(1) set_ConsD) force
  have "f \<in> set (program_functions p)" using fs assms(2) by simp
  from find_found [OF this, of "\<lambda>g. f_uuid g = f_uuid f"] obtain f' where
    f': "find_function_by_uuid p (f_uuid f) = Some f'" "f' \<in> set (program_functions p)" "f_uuid f' = f_uuid f"
    by (auto simp: find_function_by_uuid_def)
  from fs [of f'] f'(2) have "Concrete f' \<in> set (al_vertex_labels (p_call_graph p))" by simp
  moreover have "target_uuid (Concrete f) = target_uuid (Concrete f')" using f'(3) by simp
  ultimately have "Concrete f = Concrete f'" by (rule unique_uuid [OF assms(1,2)])
  with f'(1) show ?thesis by simp
qed

lemma find_call_target_by_uuid_unique:
  assumes "wf_al (p_call_graph p)" "distinct (map target_uuid (al_vertex_labels (p_call_graph p)))" "t \<in> set (al_vertex_labels (p_call_graph p))"
  shows "\<exists>v. find_call_target_by_uuid p (target_uuid t) = Some v \<and> labelled (p_call_graph p) v = Some t"
proof -
  obtain u where u: "labelled (p_call_graph p) u = Some t" using assms(1,3) by (auto simp: set_labels ran_def)
  then have "u \<in> set (al_vertices (p_call_graph p))" "has_uuid (p_call_graph p) (target_uuid t) u"
    by (simp_all add: in_vertices has_uuid_def label_labelled)
  from find_found [where P = "has_uuid (p_call_graph p) (target_uuid t)", OF this] obtain v t' where v: "find_call_target_by_uuid p (target_uuid t) = Some v"
    "labelled (p_call_graph p) v = Some t'" "target_uuid t' = target_uuid t"
    by (auto simp: find_call_target_by_uuid_def has_uuid_def label_labelled)
  then have "t' \<in> set (al_vertex_labels (p_call_graph p))" using assms(1) by (auto simp: set_labels ran_def)
  from unique_uuid [OF assms(2,3) this v(3) [symmetric]] v(1,2) show ?thesis by simp
qed

lemma program_insert_labels:
  assumes "wf_al (p_call_graph p)" "started (p_call_graph p)" "func_start f \<noteq> None" "program_insert new_v4 f p = Some (p', todos)"
  shows "\<exists>ls as. al_vertex_labels (p_call_graph p') = ls @ new_todos new_v4 0 as \<and> todos = map new_v4 [0..<length as] \<and>
    set as \<subseteq> set (collect_calls f) \<and> Concrete f \<in> set ls \<and> wf_al (p_call_graph p') \<and>
    (map target_uuid ls = map target_uuid (al_vertex_labels (p_call_graph p)) \<or>
     map target_uuid ls = map target_uuid (al_vertex_labels (p_call_graph p)) @ [f_uuid f] \<and>
       f_uuid f \<notin> target_uuid ` set (al_vertex_labels (p_call_graph p)))"
proof -
  let ?p = "p_call_graph p"
  obtain g vx p'' s as where ins: "place_function f ?p = (g, vx)" "program_insert new_v4 f p = Some (p'', is_todos s)"
    "calls_inserted new_v4 vx (collect_calls f) \<lparr>is_graph = g, is_others = [], is_todos = []\<rparr> s as"
    "wf_al (p_call_graph p'')" "al_vertex_labels (p_call_graph p'') = al_vertex_labels (is_graph s)"
    by (rule program_insert_spec [OF assms(1-3), of new_v4]) blast
  note pl = place_function_spec [OF assms(1) ins(1)]
  have "Concrete f \<in> set (al_vertex_labels g)" by (auto simp: set_labels [OF pl(1)] pl(2) ran_def)
  moreover have "f_uuid f \<notin> target_uuid ` set (al_vertex_labels ?p)" if "labelled ?p vx = None"
    using pl(5) that by (auto simp: set_labels [OF assms(1)] ran_def) metis
  moreover note place_function_uuids [OF assms(1) ins(1)]
  ultimately show ?thesis using ins(2-5) assms(4)
    by (intro exI [of _ "al_vertex_labels g"] exI [of _ as]) (auto simp: calls_inserted_def grown_def missing_def Let_def)
qed

section \<open>Stubs\<close>

text \<open>
  \<^verbatim>\<open>update_plt\<close> renames exactly the functions that load from an import; a second run adds the name of
  the stub to its own aliases.
\<close>

lemma update_plt_functions:
  "program_functions (update_plt p) = map (update_function_plt (p_imports p)) (program_functions p)"
proof -
  have "concat (map function_of (map snd (map (\<lambda>(v, t). (v, map_function h t)) ls))) = map h (concat (map function_of (map snd ls)))"
    for h :: "'a func \<Rightarrow> 'a func" and ls :: "(al_vertex \<times> 'a call_target) list"
  proof (induction ls)
    case (Cons x ls)
    then show ?case by (cases x; cases "snd x") auto
  qed simp
  then show ?thesis by (simp add: update_plt_def program_functions_mut_def program_functions_def al_vertex_labels_def)
qed

lemma update_plt_twice:
  assumes "stub_address f = Some a" "imports a = Some n"
  defines "u \<equiv> update_function_plt imports"
  shows "f_name (u f) = n @ ''@plt''" "f_kind (u f) = Stub n a" "f_aliases (u (u f)) = f_aliases f @ [f_name f, n @ ''@plt'']"
proof -
  have "func_statements (set_plt n a f) = func_statements f" by (simp add: set_plt_def func_statements_def basic_blocks_def)
  then have "stub_address (set_plt n a f) = Some a" using assms(1) by (simp add: stub_address_def split: if_splits)
  then show "f_name (u f) = n @ ''@plt''" "f_kind (u f) = Stub n a" "f_aliases (u (u f)) = f_aliases f @ [f_name f, n @ ''@plt'']"
    using assms by (simp_all add: u_def update_function_plt_def) (simp_all add: set_plt_def)
qed

section \<open>Example\<close>

text \<open>A function at address 0 that calls address 16.\<close>

definition caller_mnemonic :: mnemonic where
  "caller_mnemonic = loop_mnemonic\<lparr>m_instructions := [\<lparr>assignee = LvUndefined, st_op = Call (RvConstant 16 64)\<rparr>]\<rparr>"

definition caller_func :: "nat func" where
  "caller_func = \<lparr>f_name = ''caller'', f_aliases = [], f_uuid = 7,
     f_cflow_graph = fst (al_add_vertex al_new (Resolved (from_vec [caller_mnemonic]))), f_entry_point = AlVertex 0,
     f_region = ''ram'', f_size = 1, f_kind = Regular\<rparr>"

lemma caller_start: "func_start caller_func \<noteq> None"
  by (simp add: func_start_def entry_point_def caller_func_def al_add_vertex_def al_new_def al_vertex_label_def Let_def)


lemma new_program [simp]:
  "wf_al (p_call_graph (program_new u n))" "started (p_call_graph (program_new u n))" "al_vertex_labels (p_call_graph (program_new u n)) = []"
  by (simp_all add: program_new_def started_def labelled_def) (simp add: al_new_def al_vertex_labels_def)

section \<open>Properties\<close>



text \<open>
  If the identifiers of the targets are distinct and new identifiers are fresh, they stay
  distinct: afterwards the function is found by its identifier, and each returned identifier finds a
  new target for a call of the function.
\<close>

theorem program_insert_uuids:
  assumes "wf_al (p_call_graph p)" "started (p_call_graph p)" "func_start f \<noteq> None"
    and "distinct (map target_uuid (al_vertex_labels (p_call_graph p)))" "inj new_v4"
    and "range new_v4 \<inter> insert (f_uuid f) (target_uuid ` set (al_vertex_labels (p_call_graph p))) = {}"
    and "program_insert new_v4 f p = Some (p', todos)"
  shows "distinct (map target_uuid (al_vertex_labels (p_call_graph p'))) \<and> find_function_by_uuid p' (f_uuid f) = Some f \<and> distinct todos \<and>
    (\<forall>uu \<in> set todos. \<exists>v a. find_call_target_by_uuid p' uu = Some v \<and> labelled (p_call_graph p') v = Some (Todo a None uu) \<and> a \<in> set (collect_calls f))"
proof -
  let ?ls' = "al_vertex_labels (p_call_graph p')"
  obtain ls as where l: "?ls' = ls @ new_todos new_v4 0 as" "todos = map new_v4 [0..<length as]" "set as \<subseteq> set (collect_calls f)"
    "Concrete f \<in> set ls" "wf_al (p_call_graph p')"
    "map target_uuid ls = map target_uuid (al_vertex_labels (p_call_graph p)) \<or>
     map target_uuid ls = map target_uuid (al_vertex_labels (p_call_graph p)) @ [f_uuid f] \<and>
       f_uuid f \<notin> target_uuid ` set (al_vertex_labels (p_call_graph p))"
    using program_insert_labels [OF assms(1-3,7)] by blast
  have "set (map target_uuid ls) \<subseteq> insert (f_uuid f) (target_uuid ` set (al_vertex_labels (p_call_graph p)))"
    using l(6) by (elim disjE conjE) (simp_all only: set_append set_map, auto)
  then have d: "set (map target_uuid ls) \<inter> range new_v4 = {}" using assms(6) by blast
  have d1: "distinct (map target_uuid ls)" using l(6) assms(4) by (elim disjE conjE) simp_all
  have t: "distinct todos" "set todos \<subseteq> range new_v4" using l(2) assms(5) by (auto simp: distinct_map intro: inj_on_subset)
  have "map target_uuid ?ls' = map target_uuid ls @ todos" using l(1,2) new_todos_uuids [of new_v4 0 as] by simp
  then have u: "distinct (map target_uuid ?ls')" using d d1 t by auto
  moreover have "\<exists>v a. find_call_target_by_uuid p' uu = Some v \<and> labelled (p_call_graph p') v = Some (Todo a None uu) \<and> a \<in> set (collect_calls f)"
    if "uu \<in> set todos" for uu
  proof -
    have "uu \<in> target_uuid ` set (new_todos new_v4 0 as)" using that l(2) new_todos_uuids [of new_v4 0 as] by (metis add_0 list.set_map)
    then obtain a where a: "a \<in> set as" "Todo a None uu \<in> set (new_todos new_v4 0 as)" using new_todos_set by fastforce
    then show ?thesis using find_call_target_by_uuid_unique [OF l(5) u, of "Todo a None uu"] l(1,3) by auto
  qed
  ultimately show ?thesis using find_function_by_uuid_unique [OF u] l(1,4) t(1) by simp
qed

theorem program_insert_uuids_witness:
  "\<exists>p' todos. program_insert (\<lambda>n. n + 100) caller_func (program_new 0 ''p'') = Some (p', todos) \<and>
     find_function_by_uuid p' 7 = Some caller_func"
proof -
  obtain p' todos where p': "program_insert (\<lambda>n. n + 100) caller_func (program_new 0 ''p'') = Some (p', todos)"
    by (rule program_insert_spec [OF new_program(1,2) caller_start, of 0 "''p''" "\<lambda>n. n + 100"]) blast
  have "f_uuid caller_func = 7" "7 \<notin> range (\<lambda>n :: nat. n + 100)" by (auto simp: caller_func_def)
  then show ?thesis using program_insert_uuids [OF new_program(1,2) caller_start _ _ _ p'] p' by auto
qed

end
