(* ===== verification/Liveness.thy ===== *)
theory Liveness
  imports Function_Spec
begin

text \<open>
  Live variables, from \<^verbatim>\<open>data-flow/src/liveness.rs\<close>: the sets of killed and of upward exposed variables of
  each vertex of a control flow graph, and the iteration that computes the variables live at
  the end of each basic block.  A \<^verbatim>\<open>HashSet\<close> of names is a set and a \<^verbatim>\<open>HashMap\<close> a partial function; looking
  up a missing key panics (\<open>None\<close>).

  The properties relate the sets to the sequence of uses and definitions in a block, and the
  result of the iteration to the paths of the graph.
\<close>

section \<open>The code\<close>

type_synonym var_sets = "al_vertex \<rightharpoonup> string set"

fun note_use :: "string set \<Rightarrow> rvalue \<Rightarrow> string set \<Rightarrow> string set" where
  "note_use vk (RvVariable name _ _ _) uev = (if name \<in> vk then uev else insert name uev)"
| "note_use vk _ uev = uev"

fun note_definition :: "lvalue \<Rightarrow> string set \<Rightarrow> string set" where
  "note_definition (LvVariable name _ _) vk = insert name vk"
| "note_definition LvUndefined vk = vk"

fun is_phi :: "rvalue operation \<Rightarrow> bool" where
  "is_phi (Phi _) \<longleftrightarrow> True"
| "is_phi _ \<longleftrightarrow> False"

definition scan_statement :: "statement \<Rightarrow> string set \<times> string set \<Rightarrow> string set \<times> string set" where
  "scan_statement instr s =
     (if is_phi (st_op instr) then s
      else (note_definition (assignee instr) (fst s), fold (note_use (fst s)) (operands (st_op instr)) (snd s)))"

definition scan_mnemonic :: "mnemonic \<Rightarrow> string set \<times> string set \<Rightarrow> string set \<times> string set" where
  "scan_mnemonic mne s =
     fold scan_statement (m_instructions mne) (fst s, fold (note_use (fst s)) (m_operands mne) (snd s))"

fun note_guard :: "string set \<Rightarrow> guard option \<Rightarrow> string set \<Rightarrow> string set" where
  "note_guard vk (Some (GPredicate flag _)) uev = note_use vk flag uev"
| "note_guard vk _ uev = uev"

definition scan_label :: "cf_target option \<Rightarrow> string set \<times> string set \<Rightarrow> string set \<times> string set" where
  "scan_label lb s = (case lb of Some (Resolved bb) \<Rightarrow> fold scan_mnemonic (bb_mnemonics bb) s | _ \<Rightarrow> s)"

definition scan_vertex :: "cf_graph \<Rightarrow> al_vertex \<Rightarrow> string set \<times> string set \<Rightarrow> (string set \<times> string set) option" where
  "scan_vertex g vx s =
     (case al_out_edges g vx of
        None \<Rightarrow> None
      | Some es \<Rightarrow>
          (case scan_label (al_vertex_label g vx) s of (vk, uev) \<Rightarrow>
             Some (vk, fold (\<lambda>e. note_guard vk (al_edge_label g e)) es uev)))"

definition entry_or_empty :: "var_sets \<Rightarrow> al_vertex \<Rightarrow> string set" where
  "entry_or_empty m v = (case m v of None \<Rightarrow> {} | Some s \<Rightarrow> s)"

fun sets_loop :: "cf_graph \<Rightarrow> al_vertex list \<Rightarrow> var_sets \<times> var_sets \<Rightarrow> (var_sets \<times> var_sets) option" where
  "sets_loop g [] m = Some m"
| "sets_loop g (vx # ord) m =
     (case scan_vertex g vx (entry_or_empty (fst m) vx, entry_or_empty (snd m) vx) of
        None \<Rightarrow> None
      | Some (vk, uev) \<Rightarrow> sets_loop g ord ((fst m)(vx \<mapsto> vk), (snd m)(vx \<mapsto> uev)))"

text \<open>\<^verbatim>\<open>liveness_sets\<close> returns VarKill and UEVar.\<close>

definition liveness_sets :: "'u func \<Rightarrow> (var_sets \<times> var_sets) option" where
  "liveness_sets func =
     (case func_postorder func of
        None \<Rightarrow> None
      | Some ord \<Rightarrow> sets_loop (f_cflow_graph func) ord (Map.empty, Map.empty))"

definition is_resolved :: "cf_graph \<Rightarrow> al_vertex \<Rightarrow> bool" where
  "is_resolved g v \<longleftrightarrow> (case al_vertex_label g v of Some (Resolved _) \<Rightarrow> True | _ \<Rightarrow> False)"

fun live_edges :: "cf_graph \<Rightarrow> var_sets \<Rightarrow> var_sets \<Rightarrow> var_sets \<Rightarrow> al_edge list \<Rightarrow> string set \<Rightarrow> string set option" where
  "live_edges g varkill uevar liveout [] s = Some s"
| "live_edges g varkill uevar liveout (e # es) s =
     (case al_target g e of
        None \<Rightarrow> None
      | Some m \<Rightarrow>
          (case uevar m of
             None \<Rightarrow> None
           | Some ue \<Rightarrow>
               (if is_resolved g m then
                  (case (liveout m, varkill m) of
                     (Some lo, Some vk) \<Rightarrow> live_edges g varkill uevar liveout es (s \<union> ue \<union> (lo - vk))
                   | _ \<Rightarrow> None)
                else live_edges g varkill uevar liveout es (s \<union> ue))))"

definition live_vertex :: "cf_graph \<Rightarrow> var_sets \<Rightarrow> var_sets \<Rightarrow> var_sets \<Rightarrow> al_vertex \<Rightarrow> string set option" where
  "live_vertex g varkill uevar liveout vx =
     (case al_out_edges g vx of None \<Rightarrow> None | Some es \<Rightarrow> live_edges g varkill uevar liveout es {})"

text \<open>One round of the loop; the flag is \<^verbatim>\<open>fixpoint\<close>.\<close>

fun live_round :: "cf_graph \<Rightarrow> var_sets \<Rightarrow> var_sets \<Rightarrow> var_sets \<Rightarrow> al_vertex list \<Rightarrow> var_sets \<times> bool \<Rightarrow> (var_sets \<times> bool) option" where
  "live_round g varkill uevar liveout [] m = Some m"
| "live_round g varkill uevar liveout (vx # ord) m =
     (if is_resolved g vx then
        (case (live_vertex g varkill uevar liveout vx, liveout vx) of
           (Some s, Some old) \<Rightarrow> live_round g varkill uevar liveout ord ((fst m)(vx \<mapsto> s), snd m \<and> old = s)
         | _ \<Rightarrow> None)
      else live_round g varkill uevar liveout ord m)"

partial_function (option) live_loop ::
  "cf_graph \<Rightarrow> var_sets \<Rightarrow> var_sets \<Rightarrow> al_vertex list \<Rightarrow> var_sets \<Rightarrow> var_sets option" where
  "live_loop g varkill uevar ord liveout =
     (case live_round g varkill uevar liveout ord (Map.empty, True) of
        None \<Rightarrow> None
      | Some (new_liveout, fixpoint) \<Rightarrow>
          if fixpoint then Some new_liveout else live_loop g varkill uevar ord new_liveout)"

definition liveness :: "'u func \<Rightarrow> var_sets option" where
  "liveness func =
     (case (liveness_sets func, func_postorder func) of
        (Some (varkill, uevar), Some ord) \<Rightarrow>
          (let g = f_cflow_graph func
           in live_loop g varkill uevar ord (\<lambda>v. if v \<in> set ord \<and> is_resolved g v then Some {} else None))
      | _ \<Rightarrow> None)"

section \<open>Uses and definitions\<close>

text \<open>
  The uses and definitions of a vertex in the order in which they happen: operands of a
  mnemonic, then its statements except Phi functions, finally the guards of the outgoing edges.
\<close>

datatype event = Use string | Def string

fun use_of :: "rvalue \<Rightarrow> event list" where
  "use_of (RvVariable name _ _ _) = [Use name]"
| "use_of _ = []"

fun def_of :: "lvalue \<Rightarrow> event list" where
  "def_of (LvVariable name _ _) = [Def name]"
| "def_of LvUndefined = []"

fun guard_use :: "guard option \<Rightarrow> event list" where
  "guard_use (Some (GPredicate flag _)) = use_of flag"
| "guard_use _ = []"

definition statement_events :: "statement \<Rightarrow> event list" where
  "statement_events i = (if is_phi (st_op i) then [] else concat (map use_of (operands (st_op i))) @ def_of (assignee i))"

definition mnemonic_events :: "mnemonic \<Rightarrow> event list" where
  "mnemonic_events m = concat (map use_of (m_operands m)) @ concat (map statement_events (m_instructions m))"

definition label_events :: "cf_target option \<Rightarrow> event list" where
  "label_events lb = (case lb of Some (Resolved bb) \<Rightarrow> concat (map mnemonic_events (bb_mnemonics bb)) | _ \<Rightarrow> [])"

definition vertex_events :: "cf_graph \<Rightarrow> al_vertex \<Rightarrow> event list" where
  "vertex_events g v =
     label_events (al_vertex_label g v) @
     concat (map (\<lambda>e. guard_use (al_edge_label g e)) (case al_out_edges g v of None \<Rightarrow> [] | Some es \<Rightarrow> es))"

definition defined :: "event list \<Rightarrow> string set" where
  "defined es = {x. Def x \<in> set es}"

text \<open>A variable is exposed if it is used before it is defined.\<close>

definition exposed :: "event list \<Rightarrow> string set" where
  "exposed es = {x. \<exists>p q. es = p @ Use x # q \<and> Def x \<notin> set p}"

lemma defined_simps [simp]:
  "defined [] = {}" "defined (Use x # es) = defined es" "defined (Def x # es) = insert x (defined es)"
  "defined (es @ es') = defined es \<union> defined es'"
  by (auto simp: defined_def)

lemma exposed_Nil [simp]: "exposed [] = {}"
  by (simp add: exposed_def)

lemma exposed_Use [simp]: "exposed (Use x # es) = insert x (exposed es)"
proof (intro set_eqI iffI)
  fix y assume "y \<in> exposed (Use x # es)"
  then obtain p q where "Use x # es = p @ Use y # q" "Def y \<notin> set p" by (auto simp: exposed_def)
  then show "y \<in> insert x (exposed es)" by (cases p) (auto simp: exposed_def)
next
  fix y assume "y \<in> insert x (exposed es)"
  then show "y \<in> exposed (Use x # es)"
  proof
    assume "y \<in> exposed es"
    then obtain p q where "es = p @ Use y # q" "Def y \<notin> set p" by (auto simp: exposed_def)
    then have "Use x # es = (Use x # p) @ Use y # q" "Def y \<notin> set (Use x # p)" by auto
    then show ?thesis unfolding exposed_def by blast
  qed (auto simp: exposed_def intro: exI [of _ "[]"])
qed

lemma exposed_Def [simp]: "exposed (Def x # es) = exposed es - {x}"
proof (intro set_eqI iffI)
  fix y assume "y \<in> exposed (Def x # es)"
  then obtain p q where "Def x # es = p @ Use y # q" "Def y \<notin> set p" by (auto simp: exposed_def)
  then show "y \<in> exposed es - {x}" by (cases p) (auto simp: exposed_def)
next
  fix y assume y: "y \<in> exposed es - {x}"
  then obtain p q where "es = p @ Use y # q" "Def y \<notin> set p" by (auto simp: exposed_def)
  then have "Def x # es = (Def x # p) @ Use y # q" "Def y \<notin> set (Def x # p)" using y by auto
  then show "y \<in> exposed (Def x # es)" unfolding exposed_def by blast
qed

lemma exposed_append [simp]: "exposed (es @ es') = exposed es \<union> (exposed es' - defined es)"
proof (induction es)
  case (Cons e es)
  then show ?case by (cases e) auto
qed simp

text \<open>The scan of a vertex adds its defined and exposed variables to the sets.\<close>

definition adds :: "event list \<Rightarrow> string set \<times> string set \<Rightarrow> string set \<times> string set" where
  "adds es s = (fst s \<union> defined es, snd s \<union> (exposed es - fst s))"

lemma adds_append: "adds (es @ es') s = adds es' (adds es s)"
  by (auto simp: adds_def)

lemma adds_Nil [simp]: "adds [] s = s"
  by (simp add: adds_def)

lemma fold_adds: "(\<And>x s. f x s = adds (ev x) s) \<Longrightarrow> fold f xs s = adds (concat (map ev xs)) s"
  by (induction xs arbitrary: s) (simp_all add: adds_append)

lemma note_use_adds: "(vk, note_use vk rv uev) = adds (use_of rv) (vk, uev)"
  by (cases rv) (auto simp: adds_def)

lemma defined_uses [simp]: "defined (concat (map use_of rvs)) = {}"
proof (induction rvs)
  case (Cons rv rvs)
  then show ?case by (cases rv) auto
qed simp

lemma fold_note_use: "(vk, fold (note_use vk) rvs uev) = adds (concat (map use_of rvs)) (vk, uev)"
  by (induction rvs arbitrary: uev) (simp_all add: adds_append flip: note_use_adds)

lemma scan_statement_adds: "scan_statement i s = adds (statement_events i) s"
proof (cases "is_phi (st_op i)")
  case False
  have "adds (def_of (assignee i)) (vk, uev) = (note_definition (assignee i) vk, uev)" for vk uev
    by (cases "assignee i") (auto simp: adds_def)
  then show ?thesis using False fold_note_use [of "fst s" "operands (st_op i)" "snd s"]
    by (simp add: scan_statement_def statement_events_def adds_append) (metis (no_types) prod.collapse)
qed (simp add: scan_statement_def statement_events_def)

lemma scan_mnemonic_adds: "scan_mnemonic m s = adds (mnemonic_events m) s"
  using fold_note_use [of "fst s" "m_operands m" "snd s"] fold_adds [of scan_statement statement_events]
  by (simp add: scan_mnemonic_def mnemonic_events_def adds_append scan_statement_adds)

lemma scan_label_adds: "scan_label lb s = adds (label_events lb) s"
  using fold_adds [of scan_mnemonic mnemonic_events] by (auto simp: scan_label_def label_events_def scan_mnemonic_adds split: option.split cf_target.split)

lemma note_guard_adds: "(vk, note_guard vk gu uev) = adds (guard_use gu) (vk, uev)"
  by (cases "(vk, gu, uev)" rule: note_guard.cases) (simp_all add: note_use_adds)

lemma scan_vertex_adds:
  assumes "al_out_edges g v = Some es"
  shows "scan_vertex g v s = Some (adds (vertex_events g v) s)"
proof -
  have "(vk, fold (\<lambda>e. note_guard vk (al_edge_label g e)) es uev) = adds (concat (map (\<lambda>e. guard_use (al_edge_label g e)) es)) (vk, uev)" for vk uev
    by (induction es arbitrary: uev) (simp_all add: adds_append flip: note_guard_adds)
  then show ?thesis using assms
    by (simp add: scan_vertex_def vertex_events_def adds_append scan_label_adds case_prod_unfold)
qed

definition all_sets :: "cf_graph \<Rightarrow> al_vertex set \<Rightarrow> var_sets \<times> var_sets" where
  "all_sets g A =
     (\<lambda>v. if v \<in> A then Some (defined (vertex_events g v)) else None,
      \<lambda>v. if v \<in> A then Some (exposed (vertex_events g v)) else None)"

lemma sets_loop_spec:
  assumes "\<forall>v \<in> set ord. \<exists>es. al_out_edges g v = Some es"
  shows "sets_loop g ord (all_sets g A) = Some (all_sets g (A \<union> set ord))"
  using assms
proof (induction ord arbitrary: A)
  case (Cons v ord)
  then obtain es where es: "al_out_edges g v = Some es" by auto
  let ?s = "(entry_or_empty (fst (all_sets g A)) v, entry_or_empty (snd (all_sets g A)) v)"
  have "adds (vertex_events g v) ?s = (defined (vertex_events g v), exposed (vertex_events g v))"
    by (auto simp: adds_def all_sets_def entry_or_empty_def)
  moreover have "((fst (all_sets g A))(v \<mapsto> defined (vertex_events g v)), (snd (all_sets g A))(v \<mapsto> exposed (vertex_events g v))) = all_sets g (insert v A)"
    by (auto simp: all_sets_def fun_eq_iff)
  ultimately show ?case using Cons.IH [of "insert v A"] Cons.prems scan_vertex_adds [OF es, of ?s] by simp
qed simp

section \<open>Paths along which a variable stays live\<close>

text \<open>Paths that leave \<open>v\<close> and pass through resolved vertices before they end.\<close>

fun live_path :: "cf_graph \<Rightarrow> al_vertex \<Rightarrow> al_vertex list \<Rightarrow> bool" where
  "live_path g v [] \<longleftrightarrow> False"
| "live_path g v (m # p) \<longleftrightarrow> (v, m) \<in> ag_rel (abs_al g) \<and> (p = [] \<or> is_resolved g m \<and> live_path g m p)"

definition live_after :: "cf_graph \<Rightarrow> al_vertex \<Rightarrow> string set" where
  "live_after g v = {x. \<exists>p. live_path g v p \<and> x \<in> exposed (concat (map (vertex_events g) p))}"

definition live_within :: "cf_graph \<Rightarrow> nat \<Rightarrow> al_vertex \<Rightarrow> string set" where
  "live_within g n v = {x. \<exists>p. length p \<le> n \<and> live_path g v p \<and> x \<in> exposed (concat (map (vertex_events g) p))}"

definition flow :: "cf_graph \<Rightarrow> (al_vertex \<Rightarrow> string set) \<Rightarrow> al_vertex \<Rightarrow> string set" where
  "flow g L m = exposed (vertex_events g m) \<union> (if is_resolved g m then L m - defined (vertex_events g m) else {})"

lemma live_within_0 [simp]: "live_within g 0 v = {}"
  by (auto simp: live_within_def)

lemma live_within_Suc: "live_within g (Suc n) v = (\<Union>m \<in> {m. (v, m) \<in> ag_rel (abs_al g)}. flow g (live_within g n) m)"
proof (intro set_eqI iffI)
  fix x assume "x \<in> live_within g (Suc n) v"
  then obtain q where q: "length q \<le> Suc n" "live_path g v q" "x \<in> exposed (concat (map (vertex_events g) q))"
    unfolding live_within_def by blast
  then obtain m p where p: "length p \<le> n" "live_path g v (m # p)" "x \<in> exposed (concat (map (vertex_events g) (m # p)))"
    by (cases q) simp_all
  then have "x \<in> flow g (live_within g n) m"
    by (cases "p = []") (auto simp: flow_def live_within_def)
  with p show "x \<in> (\<Union>m \<in> {m. (v, m) \<in> ag_rel (abs_al g)}. flow g (live_within g n) m)" by auto
next
  fix x assume "x \<in> (\<Union>m \<in> {m. (v, m) \<in> ag_rel (abs_al g)}. flow g (live_within g n) m)"
  then obtain m where m: "(v, m) \<in> ag_rel (abs_al g)" "x \<in> flow g (live_within g n) m" by auto
  show "x \<in> live_within g (Suc n) v"
  proof (cases "x \<in> exposed (vertex_events g m)")
    case True
    then show ?thesis using m(1) unfolding live_within_def by (intro CollectI exI [of _ "[m]"]) simp
  next
    case False
    then obtain p where "is_resolved g m" "length p \<le> n" "live_path g m p" "x \<in> exposed (concat (map (vertex_events g) p))" "x \<notin> defined (vertex_events g m)"
      using m(2) by (auto simp: flow_def live_within_def split: if_splits)
    then show ?thesis using m(1) unfolding live_within_def by (intro CollectI exI [of _ "m # p"]) simp
  qed
qed

lemma live_within_mono: "n \<le> n' \<Longrightarrow> live_within g n v \<subseteq> live_within g n' v"
  unfolding live_within_def by (auto intro: order.trans)

lemma live_after_within: "live_after g v = (\<Union>n. live_within g n v)"
  unfolding live_after_def live_within_def by auto

lemma finite_exposed: "finite (exposed es)"
proof -
  have "exposed es \<subseteq> {x. Use x \<in> set es}" by (auto simp: exposed_def)
  also have "finite {x. Use x \<in> set es}" using finite_vimageI [of "set es" Use] by (auto simp: vimage_def inj_def)
  finally (finite_subset) show ?thesis .
qed

section \<open>The iteration\<close>

definition restricted :: "cf_graph \<Rightarrow> al_vertex set \<Rightarrow> (al_vertex \<Rightarrow> string set) \<Rightarrow> var_sets" where
  "restricted g R L = (\<lambda>v. if v \<in> R \<and> is_resolved g v then Some (L v) else None)"

locale live_graph =
  fixes g :: cf_graph and R :: "al_vertex set"
  assumes graph: "wf_al g" "finite R" "R \<subseteq> set (al_vertices g)"
    and closed: "v \<in> R \<Longrightarrow> (v, m) \<in> ag_rel (abs_al g) \<Longrightarrow> m \<in> R"
begin

lemma live_vertex_spec:
  assumes "v \<in> R"
  shows "live_vertex g (fst (all_sets g R)) (snd (all_sets g R)) (restricted g R L) v = Some (\<Union>m \<in> {m. (v, m) \<in> ag_rel (abs_al g)}. flow g L m)"
proof -
  have v: "v \<in> set (al_vertices g)" using assms graph by auto
  obtain es where es: "al_out_edges g v = Some es" using al.out_total [OF graph(1) v] by blast
  have ends: "\<exists>w \<in> set (al_vertices g). al_target g e = Some w" if "e \<in> set es" for e using al.out_ends [OF graph(1) v es that] by blast
  obtain ws where ws: "al_succs g v = Some ws" using al.succs_total [OF graph(1) v] by (auto simp: al_succs_def)
  have rel: "(v, m) \<in> ag_rel (abs_al g) \<longleftrightarrow> (\<exists>e \<in> set es. al_target g e = Some m)" for m
  proof -
    have "(v, m) \<in> ag_rel (abs_al g) \<longleftrightarrow> m \<in> set ws" using ws by (simp add: edge_rel_def flip: al_edge_rel [OF graph(1)])
    also have "\<dots> \<longleftrightarrow> (\<exists>e \<in> set es. al_target g e = Some m)"
      using ws es those_map_set [of "al_target g" es ws m] by (simp add: al_succs_def graph_succs_def)
    finally show ?thesis .
  qed
  have "live_edges g (fst (all_sets g R)) (snd (all_sets g R)) (restricted g R L) es' s =
      Some (s \<union> (\<Union>m \<in> {m. \<exists>e \<in> set es'. al_target g e = Some m}. flow g L m))" if "set es' \<subseteq> set es" for es' s
    using that
  proof (induction es' arbitrary: s)
    case (Cons e es')
    then obtain m where m: "al_target g e = Some m" using ends [of e] by auto
    then have "m \<in> R" using closed [OF assms, of m] rel Cons.prems by auto
    moreover have "{x. al_target g e = Some x \<or> (\<exists>e \<in> set es'. al_target g e = Some x)} = insert m {x. \<exists>e \<in> set es'. al_target g e = Some x}"
      using m by auto
    ultimately show ?case using Cons m by (simp add: all_sets_def restricted_def flow_def Un_assoc)
  qed simp
  from this [of es "{}"] show ?thesis by (simp add: live_vertex_def es rel)
qed

lemma live_round_spec:
  assumes "set ord \<subseteq> R"
  shows "live_round g (fst (all_sets g R)) (snd (all_sets g R)) (restricted g R (live_within g n)) ord (m, b) =
    Some (\<lambda>v. if v \<in> set ord \<and> is_resolved g v then Some (live_within g (Suc n) v) else m v,
          b \<and> (\<forall>v \<in> set ord. is_resolved g v \<longrightarrow> live_within g n v = live_within g (Suc n) v))"
  using assms
proof (induction ord arbitrary: m b)
  case (Cons v ord)
  then have v: "v \<in> R" by simp
  show ?case
  proof (cases "is_resolved g v")
    case True
    then have "restricted g R (live_within g n) v = Some (live_within g n v)" using v by (simp add: restricted_def)
    then show ?thesis
      using True Cons by (auto simp: live_vertex_spec [OF v] fun_eq_iff simp flip: live_within_Suc)
  next
    case False
    then show ?thesis using Cons by (auto simp: fun_eq_iff)
  qed
qed simp

lemma live_stable:
  assumes "\<forall>v \<in> R. is_resolved g v \<longrightarrow> live_within g n v = live_within g (Suc n) v" "v \<in> R" "is_resolved g v"
  shows "live_within g n v = live_after g v"
proof -
  have "live_within g (n + k) v = live_within g n v" if "v \<in> R" "is_resolved g v" for k v
    using that
  proof (induction k arbitrary: v)
    case (Suc k)
    have "flow g (live_within g (n + k)) m = flow g (live_within g n) m" if "(v, m) \<in> ag_rel (abs_al g)" for m
      using Suc.IH [of m] closed [OF Suc.prems(1) that] by (simp add: flow_def)
    then show ?case using assms(1) Suc.prems by (auto simp: live_within_Suc)
  qed simp
  then have "live_within g k v \<subseteq> live_within g n v" for k
    using assms(2,3) live_within_mono [of k "n + k" g v] by auto
  then show ?thesis by (auto simp: live_after_within)
qed

lemma live_within_bound: "v \<in> R \<Longrightarrow> live_within g n v \<subseteq> (\<Union>m \<in> R. exposed (vertex_events g m))"
proof (induction n arbitrary: v)
  case (Suc n)
  then show ?case using closed by (fastforce simp: live_within_Suc flow_def split: if_splits)
qed simp

lemma live_loop_spec:
  assumes "set ord = R"
  shows "live_loop g (fst (all_sets g R)) (snd (all_sets g R)) ord (restricted g R (live_within g n)) = Some (restricted g R (live_after g))"
proof -
  define size where "size n = (\<Sum>v \<in> R. card (live_within g n v))" for n
  define B where "B = (\<Union>m \<in> R. exposed (vertex_events g m))"
  have fin: "finite B" "\<And>v n. v \<in> R \<Longrightarrow> live_within g n v \<subseteq> B" using graph(2) finite_exposed live_within_bound by (auto simp: B_def)
  then have finw: "finite (live_within g n v)" if "v \<in> R" for n v using that finite_subset by blast
  have bound: "size n \<le> card R * card B" for n
    unfolding size_def using sum_bounded_above [of R "\<lambda>v. card (live_within g n v)" "card B"] fin by (auto intro: card_mono)
  show ?thesis
  proof (induction "card R * card B - size n" arbitrary: n rule: less_induct)
    case less
    have round: "live_round g (fst (all_sets g R)) (snd (all_sets g R)) (restricted g R (live_within g n)) ord (Map.empty, True) =
        Some (restricted g R (live_within g (Suc n)), \<forall>v \<in> R. is_resolved g v \<longrightarrow> live_within g n v = live_within g (Suc n) v)"
      using live_round_spec [of ord n Map.empty True] assms by (simp add: restricted_def)
    show ?case
    proof (cases "\<forall>v \<in> R. is_resolved g v \<longrightarrow> live_within g n v = live_within g (Suc n) v")
      case True
      then have "restricted g R (live_within g (Suc n)) = restricted g R (live_after g)"
        using live_stable [OF True] by (auto simp: restricted_def fun_eq_iff)
      then show ?thesis using True round by (subst live_loop.simps) simp
    next
      case False
      then obtain v where v: "v \<in> R" "live_within g n v \<noteq> live_within g (Suc n) v" by blast
      then have v: "v \<in> R" "live_within g n v \<subset> live_within g (Suc n) v" using live_within_mono [of n "Suc n" g v] by auto
      have "size n < size (Suc n)" unfolding size_def
      proof (rule sum_strict_mono_ex1 [OF graph(2)])
        show "\<forall>v \<in> R. card (live_within g n v) \<le> card (live_within g (Suc n) v)"
          by (intro ballI card_mono finw live_within_mono) simp_all
        show "\<exists>v \<in> R. card (live_within g n v) < card (live_within g (Suc n) v)" using v finw psubset_card_mono by blast
      qed
      then have "card R * card B - size (Suc n) < card R * card B - size n" using bound [of "Suc n"] by linarith
      moreover have "live_round g (fst (all_sets g R)) (snd (all_sets g R)) (restricted g R (live_within g n)) ord (Map.empty, True) =
          Some (restricted g R (live_within g (Suc n)), False)" by (simp only: round False)
      ultimately show ?thesis using less.hyps [of "Suc n"] by (subst live_loop.simps) simp
    qed
  qed
qed

end

section \<open>Functions\<close>

text \<open>Functions whose control flow graph is consistent and contains the entry point.\<close>

definition wf_func :: "'u func \<Rightarrow> bool" where
  "wf_func f \<longleftrightarrow> wf_al (f_cflow_graph f) \<and> f_entry_point f \<in> set (al_vertices (f_cflow_graph f))"

definition reachable :: "'u func \<Rightarrow> al_vertex set" where
  "reachable f = {v. (f_entry_point f, v) \<in> (ag_rel (abs_al (f_cflow_graph f)))\<^sup>*}"

lemma reachable_vertices: "wf_func f \<Longrightarrow> reachable f \<subseteq> set (al_vertices (f_cflow_graph f))"
proof
  fix v assume f: "wf_func f" "v \<in> reachable f"
  then have "(f_entry_point f, v) \<in> (ag_rel (abs_al (f_cflow_graph f)))\<^sup>*" by (simp add: reachable_def)
  then show "v \<in> set (al_vertices (f_cflow_graph f))"
    using f(1) ag_rel_vertices [of "f_cflow_graph f"] by (cases rule: rtrancl.cases) (auto simp: wf_func_def)
qed

interpretation live: live_graph "if wf_func f then f_cflow_graph f else al_new" "if wf_func f then reachable f else {}" for f :: "'u func"
proof (unfold_locales, goal_cases)
  case 1
  then show ?case by (simp add: wf_func_def)
next
  case 2
  then show ?case using reachable_vertices [of f] finite_subset by auto
next
  case 3
  then show ?case using reachable_vertices [of f] by simp
next
  case (4 v m)
  then show ?case by (auto simp: reachable_def split: if_splits intro: rtrancl_into_rtrancl)
qed

lemma func_postorder_spec:
  assumes "wf_func f"
  obtains ord where "func_postorder f = Some ord" "set ord = reachable f"
  using al_search.postorder_traversal [of "f_entry_point f" "f_cflow_graph f"] assms
  by (auto simp: wf_func_def func_postorder_def reach_al reachable_def)

lemma liveness_sets_spec:
  assumes "wf_func f"
  shows "liveness_sets f = Some (all_sets (f_cflow_graph f) (reachable f))"
proof -
  obtain ord where ord: "func_postorder f = Some ord" "set ord = reachable f" by (rule func_postorder_spec [OF assms])
  have "\<exists>es. al_out_edges (f_cflow_graph f) v = Some es" if "v \<in> set ord" for v
    using that ord(2) reachable_vertices [OF assms] al.out_total [of "f_cflow_graph f" v] assms by (auto simp: wf_func_def)
  then have "sets_loop (f_cflow_graph f) ord (all_sets (f_cflow_graph f) {}) = Some (all_sets (f_cflow_graph f) (reachable f))"
    using sets_loop_spec [of ord "f_cflow_graph f" "{}"] ord(2) by simp
  moreover have "all_sets (f_cflow_graph f) {} = (Map.empty, Map.empty)" by (simp add: all_sets_def)
  ultimately show ?thesis by (simp add: liveness_sets_def ord(1))
qed

section \<open>Assembled functions are well-formed\<close>

lemma wf_add_edge: "wf_al g \<Longrightarrow> wf_al (fst (al_add_edge g l a b))"
  using abs_add_edge [of g l a b "fst (al_add_edge g l a b)" "snd (al_add_edge g l a b)"] by (auto split: if_splits)

lemma wf_connect_jump: "wf_al g \<Longrightarrow> wf_al (connect_jump order src tg g)"
  by (auto simp: connect_jump_def case_prod_unfold intro: wf_add_edge add_vertex_labels(1) split: option.splits)

lemma wf_connect_blocks: "wf_al g \<Longrightarrow> wf_al (connect_blocks order by_source g)"
proof -
  have "wf_al (fold (connect_jump order src) tgts g)" if "wf_al g" for src tgts g
    using that by (induction tgts arbitrary: g) (simp_all add: wf_connect_jump)
  then have "wf_al g \<Longrightarrow> wf_al (fold (\<lambda>(src, tgts). fold (connect_jump order src) tgts) js g)" for js
    by (induction js arbitrary: g) (simp_all add: case_prod_unfold)
  then show "wf_al g \<Longrightarrow> wf_al (connect_blocks order by_source g)" by (simp add: connect_blocks_def)
qed

lemma wf_blocks_loop: "wf_al (fst s) \<Longrightarrow> wf_al (fst (blocks_loop by_source by_destination start ms s))"
proof (induction by_source by_destination start ms s rule: blocks_loop.induct)
  case (2 by_source by_destination start k mnes rest s)
  have "wf_al (fst (close_block by_source by_destination start mnes s))"
    using 2(2) by (auto simp: close_block_def add_vertex_labels(1) split: list.split mne_or_error.split)
  moreover have "wf_al (fst (fold push_moe moes t))" if "wf_al (fst t)" for moes t
    using that
  proof (induction moes arbitrary: t)
    case (Cons m moes)
    then show ?case by (cases m; cases t) (simp_all add: add_vertex_labels(1))
  qed simp
  ultimately show ?case using 2(1) by simp
qed simp

lemma wf_assembled: "wf_al (assemble_cflow_graph order ms by_source by_destination start)"
  using wf_blocks_loop [of "(al_new, [])" by_source by_destination start ms]
  by (auto simp: assemble_cflow_graph_def last_block_def intro!: wf_connect_blocks add_vertex_labels(1))

lemma disassemble_wf:
  assumes "disassemble pick order decode start gs = Some (Inr ep, g, sz)"
  shows "wf_al g" "ep \<in> set (al_vertices g)"
  using assms unfolding disassemble_def
  by (auto simp: wf_assembled Let_def al_vertices_iff abs_al_def split: option.splits dest: find_vertex_Some)

section \<open>Example\<close>

text \<open>A block that moves \<open>y\<close> to \<open>x\<close> and jumps to itself.\<close>

definition copy_block :: basic_block where
  "copy_block = from_vec [loop_mnemonic\<lparr>m_instructions :=
     [\<lparr>assignee = LvVariable ''x'' None 8, st_op = Move (RvVariable ''y'' None 0 8)\<rparr>]\<rparr>]"

definition copy_graph :: cf_graph where
  "copy_graph = fst (al_add_edge (fst (al_add_vertex al_new (Resolved copy_block))) always (AlVertex 0) (AlVertex 0))"

definition copy_func :: "nat func" where
  "copy_func = \<lparr>f_name = ''copy'', f_aliases = [], f_uuid = 7, f_cflow_graph = copy_graph, f_entry_point = AlVertex 0,
     f_region = ''ram'', f_size = 1, f_kind = Regular\<rparr>"

lemma copy_graph_eval:
  "al_vertex_label copy_graph (AlVertex 0) = Some (Resolved copy_block)" "al_out_edges copy_graph (AlVertex 0) = Some [AlEdge 0]"
  "al_edge_label copy_graph (AlEdge 0) = Some always" "AlVertex 0 \<in> set (al_vertices copy_graph)"
  "(AlVertex 0, AlVertex 0) \<in> ag_rel (abs_al copy_graph)"
  by (simp_all add: copy_graph_def al_add_edge_def al_add_vertex_def al_new_def al_vertex_label_def al_out_edges_def
      al_edge_label_def al_vertices_def ag_rel_def abs_al_def Let_def)

lemma copy_func_wf: "wf_func copy_func"
proof -
  let ?g = "fst (al_add_vertex al_new (Resolved copy_block)) :: cf_graph"
  have "wf_al ?g \<and> abs_al ?g = \<lparr>ag_verts = [AlVertex 0 \<mapsto> Resolved copy_block], ag_edges = Map.empty\<rparr>" by (rule al_singleton)
  then have g: "wf_al ?g" "ag_verts (abs_al ?g) (AlVertex 0) \<noteq> None" by simp_all
  then have "wf_al copy_graph" using add_edge_labels(1) [OF g(1) g(2) g(2)] by (simp add: copy_graph_def)
  then show ?thesis using copy_graph_eval(4) by (simp add: wf_func_def copy_func_def)
qed

lemma copy_events: "vertex_events copy_graph (AlVertex 0) = [Use ''y'', Def ''x'']"
  by (simp add: vertex_events_def copy_graph_eval label_events_def copy_block_def from_vec_def mnemonic_events_def statement_events_def
      loop_mnemonic_def always_def)

lemma copy_reachable: "f_entry_point copy_func = AlVertex 0" "f_cflow_graph copy_func = copy_graph" "AlVertex 0 \<in> reachable copy_func"
  by (simp_all add: copy_func_def reachable_def)

section \<open>Properties\<close>

text \<open>
  C10: The control flow graph of a function that \<^verbatim>\<open>Function::new\<close> or \<^verbatim>\<open>with_uuid\<close> returns is consistent and contains
  its entry point, for every architecture, and \<^verbatim>\<open>cont\<close> keeps this, also when it fails.
\<close>

theorem function_graph_invariant:
  "(\<forall>f. func_new pick order decode start uuid reg nam = Some (Inr f) \<longrightarrow> wf_func f) \<and>
   (\<forall>f. func_with_uuid pick order decode start given uuid reg nam = Some (Inr f) \<longrightarrow> wf_func f) \<and>
   (\<forall>f r f'. wf_func f \<and> func_cont pick order decode start f = Some (r, f') \<longrightarrow> wf_func f')"
proof -
  have new: "wf_func f" if fn: "func_new pick order decode start uuid reg nam = Some (Inr f)" for f
  proof -
    obtain ep g sz where d: "disassemble pick order decode start (fst (al_add_vertex al_new (Unresolved (addr_rv start))), 0) = Some (Inr ep, g, sz)"
      "f_cflow_graph f = g" "f_entry_point f = ep" using fn by (auto simp: func_new_def split: option.splits sum.splits)
    then show ?thesis using disassemble_wf [OF d(1)] by (simp add: wf_func_def)
  qed
  moreover have "wf_func f" if fw: "func_with_uuid pick order decode start given uuid reg nam = Some (Inr f)" for f
  proof -
    obtain f0 where "func_new pick order decode start uuid reg nam = Some (Inr f0)" "f = f0\<lparr>f_uuid := given\<rparr>"
      using fw by (auto simp: func_with_uuid_def map_sum.simps split: sum.splits)
         (metis Inl_Inr_False map_sum.simps old.sum.exhaust sum.inject(2))
    then show ?thesis using new [of f0] by (simp add: wf_func_def)
  qed
  moreover have "wf_func f'" if "wf_func f" "func_cont pick order decode start f = Some (r, f')" for f r f'
  proof (cases "disassemble pick order decode start (f_cflow_graph f, f_size f)")
    case (Some x)
    obtain r0 g sz where x: "x = (r0, g, sz)" using prod_cases3 by blast
    show ?thesis
    proof (cases r0)
      case (Inl e)
      then have "g = f_cflow_graph f" using Some x by (auto simp: disassemble_def Let_def split: option.splits)
      then show ?thesis using that Some x Inl by (auto simp: func_cont_def wf_func_def)
    next
      case (Inr ep)
      then show ?thesis using that Some x disassemble_wf [of pick order decode start _ ep g sz] by (auto simp: func_cont_def wf_func_def)
    qed
  qed (use that in \<open>simp add: func_cont_def\<close>)
  ultimately show ?thesis by blast
qed

theorem function_graph_invariant_witness:
  "\<exists>f. func_new Min insertion_order loop_decode 0 (7 :: nat) ''ram'' None = Some (Inr f) \<and> wf_func f"
  using loop_function function_graph_invariant [of Min insertion_order loop_decode 0 "7 :: nat" "''ram''" None] by blast

text \<open>
  \<^verbatim>\<open>liveness_sets\<close> does not panic.  For exactly the vertices reachable from the entry point it returns as
  killed the variables the vertex defines, and as upward exposed those it uses before it
  defines them, in the order operands, statements, guards; Phi functions are ignored.
\<close>

theorem liveness_sets_correct:
  assumes "wf_func f"
  shows "\<exists>varkill uevar. liveness_sets f = Some (varkill, uevar) \<and>
    (\<forall>v. varkill v = (if v \<in> reachable f then Some (defined (vertex_events (f_cflow_graph f) v)) else None)) \<and>
    (\<forall>v. uevar v = (if v \<in> reachable f then Some (exposed (vertex_events (f_cflow_graph f) v)) else None))"
  using liveness_sets_spec [OF assms] by (simp add: all_sets_def)

theorem liveness_sets_correct_witness:
  "wf_func copy_func \<and> (\<exists>varkill uevar. liveness_sets copy_func = Some (varkill, uevar) \<and>
     varkill (AlVertex 0) = Some {''x''} \<and> uevar (AlVertex 0) = Some {''y''})"
  using copy_func_wf liveness_sets_correct [OF copy_func_wf] by (auto simp: copy_reachable copy_events)

text \<open>
  C9: \<^verbatim>\<open>liveness\<close> reaches its fixed point without a panic.  A variable is in the set of a reachable basic
  block if and only if some path that leaves the block uses the variable before it is defined; the path passes through
  basic blocks and may end in an unresolved vertex.
\<close>

theorem liveness_correct:
  assumes "wf_func f"
  shows "liveness f = Some (\<lambda>v. if v \<in> reachable f \<and> is_resolved (f_cflow_graph f) v then Some (live_after (f_cflow_graph f) v) else None)"
proof -
  obtain ord where ord: "func_postorder f = Some ord" "set ord = reachable f" by (rule func_postorder_spec [OF assms])
  have "live_loop (f_cflow_graph f) (fst (all_sets (f_cflow_graph f) (reachable f))) (snd (all_sets (f_cflow_graph f) (reachable f))) ord
      (\<lambda>v. if v \<in> reachable f \<and> is_resolved (f_cflow_graph f) v then Some {} else None) =
    Some (\<lambda>v. if v \<in> reachable f \<and> is_resolved (f_cflow_graph f) v then Some (live_after (f_cflow_graph f) v) else None)"
    using live.live_loop_spec [of ord f 0] ord(2) assms by (simp add: restricted_def cong: if_cong)
  then show ?thesis using liveness_sets_spec [OF assms] ord by (simp add: liveness_def case_prod_unfold Let_def)
qed

theorem liveness_correct_witness:
  "wf_func copy_func \<and> (\<exists>liveout s. liveness copy_func = Some liveout \<and> liveout (AlVertex 0) = Some s \<and> ''y'' \<in> s)"
proof -
  have "live_path copy_graph (AlVertex 0) [AlVertex 0]" using copy_graph_eval(5) by simp
  moreover have "''y'' \<in> exposed (concat (map (vertex_events copy_graph) [AlVertex 0]))" by (simp add: copy_events)
  ultimately have "''y'' \<in> live_after copy_graph (AlVertex 0)" unfolding live_after_def by blast
  then show ?thesis using copy_func_wf liveness_correct [OF copy_func_wf]
    by (simp add: copy_reachable is_resolved_def copy_graph_eval)
qed

end
