(* ===== verification/Dominator.thy ===== *)
theory Dominator
  imports Search
begin

text \<open>
  Dominators by iteration on bit sets, \<^verbatim>\<open>dominators\<close> in \<^verbatim>\<open>graph-algos/src/dominator.rs\<close>.
  A bit set over vertex indices is a set of natural numbers; \<open>verts\<close> is the order in which
  the graph enumerates its vertices, \<open>preds\<close> gives the sources of the incoming edges of a
  vertex.  A failed lookup is \<open>None\<close>, and so is an iteration that never reaches a fixed point.

  A vertex \<open>d\<close> dominates \<open>v\<close> if \<open>v\<close> cannot be reached from the start without passing
  through \<open>d\<close>.  The property shows that the iteration ends and computes exactly the dominators
  when every vertex is reachable.
\<close>

definition vertex_idx :: "'v list \<Rightarrow> 'v \<Rightarrow> nat option" where
  "vertex_idx verts v = position (\<lambda>x. x = v) verts"

text \<open>The loop over the incoming edges of one vertex: the intersection of the sources' sets.\<close>

fun meet_preds :: "'v list \<Rightarrow> nat set list \<Rightarrow> 'v list \<Rightarrow> nat set option \<Rightarrow> nat set option option" where
  "meet_preds verts cur [] my_dom = Some my_dom"
| "meet_preds verts cur (u # us) my_dom =
     (case vertex_idx verts u of
        None \<Rightarrow> None
      | Some i \<Rightarrow>
          meet_preds verts cur us
            (case my_dom of Some s \<Rightarrow> Some (s \<inter> cur ! i) | None \<Rightarrow> Some (cur ! i)))"

definition dom_vertex ::
  "'v list \<Rightarrow> ('v \<Rightarrow> 'v list option) \<Rightarrow> 'v \<Rightarrow> nat set list \<Rightarrow> 'v \<Rightarrow> (nat \<times> nat set) option" where
  "dom_vertex verts preds start cur vx =
     (case (if vx \<noteq> start then
              (case preds vx of None \<Rightarrow> None | Some us \<Rightarrow> meet_preds verts cur us None)
            else Some None) of
        None \<Rightarrow> None
      | Some my_dom \<Rightarrow>
          (case vertex_idx verts vx of
             None \<Rightarrow> None
           | Some i \<Rightarrow> Some (i, insert i (case my_dom of None \<Rightarrow> {} | Some s \<Rightarrow> s))))"

text \<open>One round of the \<^verbatim>\<open>while\<close> loop: \<^verbatim>\<open>next_dom\<close> is filled vertex by vertex.\<close>

fun dom_round ::
  "'v list \<Rightarrow> ('v \<Rightarrow> 'v list option) \<Rightarrow> 'v \<Rightarrow> nat set list \<Rightarrow> 'v list \<Rightarrow> nat set list \<Rightarrow> nat set list option" where
  "dom_round verts preds start cur [] next_dom = Some next_dom"
| "dom_round verts preds start cur (vx # vxs) next_dom =
     (case dom_vertex verts preds start cur vx of
        None \<Rightarrow> None
      | Some (i, s) \<Rightarrow> dom_round verts preds start cur vxs (next_dom[i := s]))"

partial_function (option) dom_loop ::
  "'v list \<Rightarrow> ('v \<Rightarrow> 'v list option) \<Rightarrow> 'v \<Rightarrow> nat set list \<Rightarrow> nat set list option" where
  "dom_loop verts preds start cur =
     (case dom_round verts preds start cur verts (replicate (length verts) {}) of
        None \<Rightarrow> None
      | Some next_dom \<Rightarrow> if next_dom = cur then Some next_dom else dom_loop verts preds start next_dom)"

definition dominators ::
  "('v :: linorder) list \<Rightarrow> ('v \<Rightarrow> 'v list option) \<Rightarrow> 'v \<Rightarrow> ('v \<times> 'v list) list option" where
  "dominators verts preds start =
     (case dom_loop verts preds start (replicate (length verts) {0..<length verts}) of
        None \<Rightarrow> None
      | Some cur \<Rightarrow>
          Some (map (\<lambda>(i, vx). (vx, sort (map (\<lambda>a. verts ! a) (sorted_list_of_set (cur ! i)))))
                  (enumerate 0 verts)))"

section \<open>Dominance\<close>

text \<open>\<open>v\<close> is reachable from the start on a path that does not meet \<open>d\<close>.\<close>

inductive avoids :: "('v \<times> 'v) set \<Rightarrow> 'v \<Rightarrow> 'v \<Rightarrow> 'v \<Rightarrow> bool" for E s d where
  avoids_start: "s \<noteq> d \<Longrightarrow> avoids E s d s"
| avoids_step: "avoids E s d u \<Longrightarrow> (u, v) \<in> E \<Longrightarrow> v \<noteq> d \<Longrightarrow> avoids E s d v"

definition dominates :: "('v \<times> 'v) set \<Rightarrow> 'v \<Rightarrow> 'v \<Rightarrow> 'v \<Rightarrow> bool" where
  "dominates E s d v \<longleftrightarrow> \<not> avoids E s d v"

context finite_bigraph
begin

text \<open>The next set of a vertex as a set equation.\<close>

definition dom_eq :: "'a list \<Rightarrow> 'a \<Rightarrow> nat set list \<Rightarrow> nat \<Rightarrow> nat set" where
  "dom_eq verts s cur i =
     insert i (if verts ! i = s \<or> preds (verts ! i) = Some [] then {}
               else \<Inter> {cur ! j | j. j < length verts \<and> verts ! j \<in> set (the (preds (verts ! i)))})"

lemma vertex_idx_nth:
  "distinct verts \<Longrightarrow> i < length verts \<Longrightarrow> vertex_idx verts (verts ! i) = Some i"
proof -
  assume d: "distinct verts" and i: "i < length verts"
  obtain j where "position (\<lambda>x. x = verts ! i) verts = Some j"
    using i position_None_iff [of "\<lambda>x. x = verts ! i" verts] by (cases "position (\<lambda>x. x = verts ! i) verts") auto
  moreover then have "j < length verts" "verts ! j = verts ! i" using position_SomeD by fastforce+
  ultimately show ?thesis using d i by (simp add: vertex_idx_def nth_eq_iff_index_eq)
qed

lemma meet_preds_spec:
  assumes "distinct verts" "set us \<subseteq> set verts"
  shows "meet_preds verts cur us md =
     Some (if us = [] then md
           else Some ((case md of None \<Rightarrow> UNIV | Some s \<Rightarrow> s) \<inter>
                      \<Inter> {cur ! j | j. j < length verts \<and> verts ! j \<in> set us}))"
  using assms(2)
proof (induction us arbitrary: md)
  case (Cons u us)
  then obtain i where i: "i < length verts" "verts ! i = u" by (auto simp: in_set_conv_nth)
  have "{cur ! j | j. j < length verts \<and> verts ! j \<in> set (u # us)} =
        insert (cur ! i) {cur ! j | j. j < length verts \<and> verts ! j \<in> set us}"
    using i assms(1) by (auto simp: nth_eq_iff_index_eq)
  then show ?case
    using Cons i vertex_idx_nth [OF assms(1) i(1)] by (auto split: option.splits)
qed simp

lemma dom_vertex_spec:
  assumes "distinct verts" "V = set verts" "i < length verts"
  shows "dom_vertex verts preds s cur (verts ! i) = Some (i, dom_eq verts s cur i)"
proof -
  obtain us where "preds (verts ! i) = Some us" "set us \<subseteq> set verts"
    using preds_closed [of "verts ! i"] assms by auto
  then show ?thesis
    using assms vertex_idx_nth [OF assms(1,3)]
    by (auto simp: dom_vertex_def meet_preds_spec dom_eq_def)
qed

definition dom_next :: "'a list \<Rightarrow> 'a \<Rightarrow> nat set list \<Rightarrow> nat set list" where
  "dom_next verts s cur = map (dom_eq verts s cur) [0..<length verts]"

lemma dom_round_spec:
  assumes "distinct verts" "V = set verts" "length nd = length verts" "k \<le> length verts"
  shows "dom_round verts preds s cur (drop k verts) nd =
           Some (take k nd @ map (dom_eq verts s cur) [k..<length verts])"
  using assms(3,4)
proof (induction "length verts - k" arbitrary: k nd)
  case 0
  then show ?case by simp
next
  case (Suc m)
  then have k: "k < length verts" by simp
  have "drop k verts = verts ! k # drop (Suc k) verts" using k by (simp add: Cons_nth_drop_Suc)
  then show ?case
    using Suc k dom_vertex_spec [OF assms(1,2) k]
    by (simp add: upt_conv_Cons take_Suc_conv_app_nth)
qed

definition dom_le :: "nat set list \<Rightarrow> nat set list \<Rightarrow> bool" where
  "dom_le a b \<longleftrightarrow> length a = length b \<and> (\<forall>i < length a. a ! i \<subseteq> b ! i)"

lemma dom_le_trans: "dom_le a b \<Longrightarrow> dom_le b c \<Longrightarrow> dom_le a c"
  unfolding dom_le_def by (metis subset_trans)

lemma dom_next_mono:
  assumes "dom_le a b" "length a = length verts"
  shows "dom_le (dom_next verts s a) (dom_next verts s b)"
proof -
  have "\<Inter> {a ! j | j. j < length verts \<and> Q j} \<subseteq> \<Inter> {b ! j | j. j < length verts \<and> Q j}" for Q
  proof (rule Inter_greatest)
    fix X assume "X \<in> {b ! j | j. j < length verts \<and> Q j}"
    then obtain j where j: "j < length verts" "Q j" "X = b ! j" by blast
    then have "\<Inter> {a ! j | j. j < length verts \<and> Q j} \<subseteq> a ! j" by blast
    moreover have "a ! j \<subseteq> b ! j" using j(1) assms by (simp add: dom_le_def)
    ultimately show "\<Inter> {a ! j | j. j < length verts \<and> Q j} \<subseteq> X" unfolding j(3) by (rule order.trans)
  qed
  then have "dom_eq verts s a i \<subseteq> dom_eq verts s b i" for i
    unfolding dom_eq_def by (intro insert_mono) simp
  then show ?thesis by (simp add: dom_le_def dom_next_def)
qed

lemma dom_le_card:
  assumes "dom_le a b" "a \<noteq> b" "\<forall>i < length b. finite (b ! i)"
  shows "sum_list (map card a) < sum_list (map card b)"
proof -
  have l: "length a = length b" "\<And>i. i < length b \<Longrightarrow> a ! i \<subseteq> b ! i" using assms(1) by (auto simp: dom_le_def)
  obtain k where k: "k < length b" "a ! k \<noteq> b ! k" using assms(2) l(1) by (metis nth_equalityI)
  have "(\<Sum>i < length b. card (a ! i)) < (\<Sum>i < length b. card (b ! i))"
  proof (rule sum_strict_mono_ex1)
    show "\<forall>i \<in> {..<length b}. card (a ! i) \<le> card (b ! i)" using l assms(3) by (simp add: card_mono)
    show "\<exists>i \<in> {..<length b}. card (a ! i) < card (b ! i)" using k l assms(3) by (metis lessThan_iff psubsetI psubset_card_mono)
  qed simp
  then show ?thesis using l(1) by (simp add: sum_list_sum_nth atLeast0LessThan)
qed

lemma dom_loop_spec:
  assumes "distinct verts" "V = set verts" "length cur = length verts"
    and "\<forall>i < length verts. finite (cur ! i)" "dom_le (dom_next verts s cur) cur"
    and "dom_le lower cur" "dom_le lower (dom_next verts s lower)"
  shows "\<exists>res. dom_loop verts preds s cur = Some res \<and> dom_next verts s res = res \<and> dom_le lower res \<and> dom_le res cur"
  using assms(3-6)
proof (induction "sum_list (map card cur)" arbitrary: cur rule: less_induct)
  case less
  let ?next = "dom_next verts s cur"
  have round: "dom_round verts preds s cur verts (replicate (length verts) {}) = Some ?next"
    using dom_round_spec [OF assms(1,2), of "replicate (length verts) {}" 0] by (simp add: dom_next_def)
  show ?case
  proof (cases "?next = cur")
    case True
    then show ?thesis using round less.prems(4) by (subst dom_loop.simps) (auto simp: dom_le_def)
  next
    case False
    have len: "length ?next = length verts" by (simp add: dom_next_def)
    have step: "dom_loop verts preds s cur = dom_loop verts preds s ?next"
      using round False by (subst dom_loop.simps) simp
    have "sum_list (map card ?next) < sum_list (map card cur)"
      using dom_le_card [OF less.prems(3) False] less.prems(1,2) by simp
    moreover have "\<forall>i < length verts. finite (?next ! i)"
      using less.prems(1-3) len unfolding dom_le_def by (metis finite_subset)
    moreover have "dom_le (dom_next verts s ?next) ?next" using dom_next_mono [OF less.prems(3) len] .
    moreover have "dom_le lower ?next"
    proof -
      have "length lower = length verts" using assms(7) by (simp add: dom_le_def dom_next_def)
      then have "dom_le (dom_next verts s lower) ?next" using dom_next_mono [OF less.prems(4)] by simp
      then show ?thesis using assms(7) dom_le_trans by blast
    qed
    ultimately obtain res where "dom_loop verts preds s ?next = Some res" "dom_next verts s res = res"
        "dom_le lower res" "dom_le res ?next"
      using less.hyps [of ?next] len by blast
    then show ?thesis using step less.prems(3) dom_le_trans by metis
  qed
qed

text \<open>The dominators of each vertex, as sets of indices.\<close>

definition dom_sets :: "'a list \<Rightarrow> 'a \<Rightarrow> nat set list" where
  "dom_sets verts s =
     map (\<lambda>i. {j. j < length verts \<and> dominates (edge_rel succs) s (verts ! j) (verts ! i)}) [0..<length verts]"

lemma length_dom_sets: "length (dom_sets verts s) = length verts"
  by (simp add: dom_sets_def)

lemma pred_edge:
  "v \<in> V \<Longrightarrow> u \<in> set (the (preds v)) \<Longrightarrow> (u, v) \<in> edge_rel succs"
  using preds_closed [of v] succs_closed [of u] preds_succs [of u v] by (fastforce simp: edge_rel_def)

lemma edge_pred:
  "u \<in> V \<Longrightarrow> (u, v) \<in> edge_rel succs \<Longrightarrow> v \<in> V \<and> u \<in> set (the (preds v)) \<and> preds v \<noteq> Some []"
proof -
  assume u: "u \<in> V" and "(u, v) \<in> edge_rel succs"
  then obtain ws where ws: "succs u = Some ws" "v \<in> set ws" by (auto simp: edge_rel_def)
  then have v: "v \<in> V" using succs_closed [OF u] by auto
  then obtain us where "preds v = Some us" using preds_closed by blast
  then show ?thesis using preds_succs [OF u v ws(1)] ws(2) v by force
qed

lemma dominates_pred:
  assumes "dominates (edge_rel succs) s d v" "v \<noteq> d" "v \<in> V" "u \<in> set (the (preds v))"
  shows "dominates (edge_rel succs) s d u"
  using assms avoids_step [of "edge_rel succs" s d u v] pred_edge by (auto simp: dominates_def)

lemma reach_has_pred:
  assumes "s \<in> V" "v \<in> reach succs s" "v \<noteq> s"
  shows "preds v \<noteq> Some []"
proof -
  obtain u where "(s, u) \<in> (edge_rel succs)\<^sup>*" "(u, v) \<in> edge_rel succs"
    using assms(2,3) by (auto simp: reach_def elim: rtranclE)
  moreover from this have "u \<in> V" using reach_V [OF assms(1)] by (auto simp: reach_def)
  ultimately show ?thesis using edge_pred by blast
qed

lemma dom_sets_step:
  assumes "V = set verts" "distinct verts" "s \<in> V" "V \<subseteq> reach succs s"
  shows "dom_le (dom_sets verts s) (dom_next verts s (dom_sets verts s))"
proof -
  have "d \<in> dom_eq verts s (dom_sets verts s) i"
    if i: "i < length verts" and d: "d < length verts" "dominates (edge_rel succs) s (verts ! d) (verts ! i)" for i d
  proof (cases "d = i")
    case True
    then show ?thesis by (simp add: dom_eq_def)
  next
    case False
    then have ne: "verts ! i \<noteq> verts ! d" using assms(2) i d(1) by (simp add: nth_eq_iff_index_eq)
    then have "verts ! i \<noteq> s" using d(2) avoids_start by (fastforce simp: dominates_def)
    moreover from this have "preds (verts ! i) \<noteq> Some []"
      using reach_has_pred [OF assms(3), of "verts ! i"] assms(1,4) nth_mem [OF i] by blast
    moreover have "d \<in> dom_sets verts s ! j" if "j < length verts" "verts ! j \<in> set (the (preds (verts ! i)))" for j
      using dominates_pred [OF d(2) ne _ that(2)] that(1) d(1) i assms(1) by (simp add: dom_sets_def)
    ultimately show ?thesis by (auto simp: dom_eq_def)
  qed
  then show ?thesis by (auto simp: dom_le_def dom_next_def dom_sets_def)
qed

lemma dom_fixpoint_sound:
  assumes "V = set verts" "distinct verts" "s \<in> V" "dom_next verts s res = res"
    and "avoids (edge_rel succs) s (verts ! j) v" "j < length verts"
  shows "\<exists>i < length verts. verts ! i = v \<and> j \<notin> res ! i"
  using assms(5)
proof (induction rule: avoids.induct)
  case avoids_start
  obtain i where i: "i < length verts" "verts ! i = s" using assms(1,3) by (auto simp: in_set_conv_nth)
  then have "res ! i = {i}" using arg_cong [OF assms(4), of "\<lambda>r. r ! i"] by (simp add: dom_next_def dom_eq_def)
  then show ?case using i avoids_start by auto
next
  case (avoids_step u v)
  then obtain i where i: "i < length verts" "verts ! i = u" "j \<notin> res ! i" by blast
  then have v: "v \<in> V" "u \<in> set (the (preds v))" "preds v \<noteq> Some []" using edge_pred [of u v] avoids_step.hyps assms(1) by auto
  then obtain k where k: "k < length verts" "verts ! k = v" using assms(1) by (auto simp: in_set_conv_nth)
  have "res ! k = dom_eq verts s res k" using arg_cong [OF assms(4), of "\<lambda>r. r ! k"] k by (simp add: dom_next_def)
  moreover have "j \<noteq> k" using avoids_step.hyps(3) k by auto
  moreover have "j \<notin> \<Inter> {res ! j | j. j < length verts \<and> verts ! j \<in> set (the (preds v))}" using i v(2) by auto
  ultimately have "j \<notin> res ! k" using k v(3) by (auto simp: dom_eq_def)
  then show ?case using k by blast
qed

lemma dominators_spec:
  assumes "V = set verts" "distinct verts" "s \<in> V" "V \<subseteq> reach succs s"
  shows "\<exists>cur. dom_loop verts preds s (replicate (length verts) {0..<length verts}) = Some cur \<and>
           length cur = length verts \<and>
           (\<forall>i < length verts. cur ! i = {j. j < length verts \<and> dominates (edge_rel succs) s (verts ! j) (verts ! i)})"
proof -
  let ?top = "replicate (length verts) {0..<length verts}"
  have next_top: "dom_le (dom_next verts s ?top) ?top"
  proof -
    have "dom_eq verts s ?top i \<subseteq> {0..<length verts}" if i: "i < length verts" for i
    proof (cases "verts ! i = s \<or> preds (verts ! i) = Some []")
      case True
      then show ?thesis using i by (auto simp: dom_eq_def)
    next
      case False
      obtain us where us: "preds (verts ! i) = Some us" "set us \<subseteq> set verts"
        using preds_closed [of "verts ! i"] assms(1) i by auto
      then obtain j where "j < length verts" "verts ! j \<in> set us"
        using False by (cases us) (auto simp: in_set_conv_nth)
      then show ?thesis using i us False by (auto simp: dom_eq_def)
    qed
    then show ?thesis by (auto simp: dom_le_def dom_next_def)
  qed
  have "dom_le (dom_sets verts s) ?top" by (auto simp: dom_le_def dom_sets_def)
  then obtain res where res: "dom_loop verts preds s ?top = Some res" "dom_next verts s res = res"
      "dom_le (dom_sets verts s) res" "dom_le res ?top"
    using dom_loop_spec [OF assms(2,1) _ _ next_top _ dom_sets_step [OF assms]] by auto
  have "res ! i = {j. j < length verts \<and> dominates (edge_rel succs) s (verts ! j) (verts ! i)}"
    if i: "i < length verts" for i
  proof (intro equalityI subsetI)
    fix j assume j: "j \<in> res ! i"
    have "res ! i \<subseteq> {0..<length verts}" using res(4) i unfolding dom_le_def by (metis length_replicate nth_replicate)
    then have jl: "j < length verts" using j by auto
    have "\<not> avoids (edge_rel succs) s (verts ! j) (verts ! i)"
    proof
      assume "avoids (edge_rel succs) s (verts ! j) (verts ! i)"
      from dom_fixpoint_sound [OF assms(1-3) res(2) this jl] i j assms(2) show False
        by (auto simp: nth_eq_iff_index_eq)
    qed
    then show "j \<in> {j. j < length verts \<and> dominates (edge_rel succs) s (verts ! j) (verts ! i)}"
      using jl by (simp add: dominates_def)
  next
    fix j assume "j \<in> {j. j < length verts \<and> dominates (edge_rel succs) s (verts ! j) (verts ! i)}"
    then have "j \<in> dom_sets verts s ! i" using i by (simp add: dom_sets_def)
    moreover have "dom_sets verts s ! i \<subseteq> res ! i"
      using res(3) i length_dom_sets unfolding dom_le_def by metis
    ultimately show "j \<in> res ! i" by blast
  qed
  moreover have "length res = length verts" using res(4) by (simp add: dom_le_def)
  ultimately show ?thesis using res(1) by blast
qed

end

lemma dominators_al:
  assumes "wf_al g" "s \<in> set (al_vertices g)"
    and "set (al_vertices g) \<subseteq> {v. (s, v) \<in> (ag_rel (abs_al g))\<^sup>*}"
  shows "\<exists>cur. dom_loop (al_vertices g) (al_preds g) s
              (replicate (length (al_vertices g)) {0..<length (al_vertices g)}) = Some cur \<and>
           length cur = length (al_vertices g) \<and>
           (\<forall>i < length (al_vertices g). cur ! i = {j. j < length (al_vertices g) \<and>
              dominates (ag_rel (abs_al g)) s (al_vertices g ! j) (al_vertices g ! i)})"
  using al_search.dominators_spec [of g "al_vertices g" s] assms al.verts_distinct [OF assms(1)]
  by (simp add: al_edge_rel reach_al)

section \<open>Properties\<close>

text \<open>
  C31: The iteration on bit sets terminates and computes dominance: when every vertex can be
  reached from the start, \<^verbatim>\<open>dominators\<close> returns for every vertex the sorted list of the
  vertices without which it cannot be reached.
\<close>

theorem dominators_correct:
  assumes "wf_al g" "s \<in> set (al_vertices g)"
    and "set (al_vertices g) \<subseteq> {v. (s, v) \<in> (ag_rel (abs_al g))\<^sup>*}"
  shows "\<exists>ret. dominators (al_vertices g) (al_preds g) s = Some ret \<and>
           map fst ret = al_vertices g \<and>
           (\<forall>(v, ds) \<in> set ret. sorted ds \<and> distinct ds \<and>
              set ds = {d \<in> set (al_vertices g). dominates (ag_rel (abs_al g)) s d v})"
proof -
  let ?vs = "al_vertices g"
  obtain cur where cur: "dom_loop ?vs (al_preds g) s (replicate (length ?vs) {0..<length ?vs}) = Some cur"
      "length cur = length ?vs"
      "\<And>i. i < length ?vs \<Longrightarrow> cur ! i = {j. j < length ?vs \<and> dominates (ag_rel (abs_al g)) s (?vs ! j) (?vs ! i)}"
    using dominators_al [OF assms] by blast
  let ?ds = "\<lambda>i. sort (map (\<lambda>a. ?vs ! a) (sorted_list_of_set (cur ! i)))"
  have ds: "sorted (?ds i) \<and> distinct (?ds i) \<and>
      set (?ds i) = {d \<in> set ?vs. dominates (ag_rel (abs_al g)) s d (?vs ! i)}" if i: "i < length ?vs" for i
  proof -
    have fin: "finite (cur ! i)" using cur(3) [OF i] by simp
    have "inj_on ((!) ?vs) (cur ! i)"
      using cur(3) [OF i] al.verts_distinct [OF assms(1)] by (auto simp: inj_on_def nth_eq_iff_index_eq)
    moreover have "(!) ?vs ` (cur ! i) = {d \<in> set ?vs. dominates (ag_rel (abs_al g)) s d (?vs ! i)}"
      using cur(3) [OF i] by (auto simp: in_set_conv_nth)
    ultimately show ?thesis using fin by (simp add: distinct_map)
  qed
  have "dominators ?vs (al_preds g) s = Some (map (\<lambda>(i, vx). (vx, ?ds i)) (enumerate 0 ?vs))"
    using cur(1) by (simp add: dominators_def)
  moreover have "map fst (map (\<lambda>(i, vx). (vx, ?ds i)) (enumerate 0 ?vs)) = ?vs"
    by (simp add: comp_def case_prod_unfold)
  ultimately show ?thesis using ds by (auto simp: in_set_enumerate_eq)
qed

theorem dominators_correct_witness:
  "wf_al (fst (al_add_vertex al_new 7) :: (nat, nat) adjacency_list) \<and>
   (\<exists>ret. dominators (al_vertices (fst (al_add_vertex al_new 7) :: (nat, nat) adjacency_list))
            (al_preds (fst (al_add_vertex al_new 7) :: (nat, nat) adjacency_list)) (AlVertex 0) = Some ret \<and>
          map fst ret = [AlVertex 0])"
proof -
  let ?g = "fst (al_add_vertex al_new 7) :: (nat, nat) adjacency_list"
  have "wf_al ?g" using al_singleton [of 7] by blast
  moreover have "al_vertices ?g = [AlVertex 0]" by (simp add: al_vertices_def al_add_vertex_def al_new_def Let_def)
  ultimately show ?thesis using dominators_correct [of ?g "AlVertex 0"] by auto
qed

end
