(* ===== verification/Idom.thy ===== *)
theory Idom
  imports Dominator
begin

text \<open>
  Immediate dominators and dominance frontiers, \<^verbatim>\<open>immediate_dominator\<close> and \<^verbatim>\<open>dominance_frontiers\<close> in
  \<^verbatim>\<open>graph-algos/src/dominator.rs\<close>.  The map from vertices to immediate dominators is a partial function;
  the key lookups, indexing and \<^verbatim>\<open>unwrap\<close>s that may panic are \<open>None\<close>, and so is a loop that does not end.

  The locale \<open>dominator_tree\<close> states what the algorithm needs of the post-order traversal: it ends with
  the start and lists every other vertex once, before one of its predecessors.
  The properties show that the iteration ends without panic with the immediate dominators
  of all reachable vertices, and which vertices are in the frontiers.
\<close>

section \<open>Immediate dominators\<close>

text \<open>A later index overwrites an earlier one.\<close>

definition po_idx :: "'v list \<Rightarrow> 'v \<Rightarrow> nat option" where
  "po_idx po = map_of (rev (zip po [0..<length po]))"

text \<open>The inner \<^verbatim>\<open>while\<close> loops of \<^verbatim>\<open>intersect\<close>.\<close>

partial_function (option) climb :: "'v list \<Rightarrow> ('v \<rightharpoonup> 'v) \<Rightarrow> nat \<Rightarrow> nat \<Rightarrow> nat option" where
  "climb po ret f bound =
     (if f < bound then
        (if f < length po then
           do { x \<leftarrow> ret (po ! f); f' \<leftarrow> po_idx po x; climb po ret f' bound }
         else None)
      else Some f)"

partial_function (option) intersect_loop :: "'v list \<Rightarrow> ('v \<rightharpoonup> 'v) \<Rightarrow> nat \<Rightarrow> nat \<Rightarrow> nat option" where
  "intersect_loop po ret f1 f2 =
     (if f1 \<noteq> f2 then
        do { f1' \<leftarrow> climb po ret f1 f2; f2' \<leftarrow> climb po ret f2 f1'; intersect_loop po ret f1' f2' }
      else Some f1)"

definition intersect :: "'v list \<Rightarrow> ('v \<rightharpoonup> 'v) \<Rightarrow> 'v \<Rightarrow> 'v \<Rightarrow> 'v option" where
  "intersect po ret b1 b2 =
     do { f1 \<leftarrow> po_idx po b1; f2 \<leftarrow> po_idx po b2; f \<leftarrow> intersect_loop po ret f1 f2;
          if f < length po then Some (po ! f) else None }"

text \<open>The sources of the incoming edges, without the vertex itself, sorted and without repetitions.\<close>

definition pred_list :: "('v :: linorder \<Rightarrow> 'v list option) \<Rightarrow> 'v \<Rightarrow> 'v list option" where
  "pred_list preds b = map_option (\<lambda>us. remdups_adj (sort (filter (\<lambda>x. x \<noteq> b) us))) (preds b)"

fun meet_idom :: "'v list \<Rightarrow> ('v \<rightharpoonup> 'v) \<Rightarrow> 'v list \<Rightarrow> 'v \<Rightarrow> 'v option" where
  "meet_idom po ret [] new_idom = Some new_idom"
| "meet_idom po ret (p # ps) new_idom =
     (if ret p \<noteq> None then do { n \<leftarrow> intersect po ret p new_idom; meet_idom po ret ps n }
      else meet_idom po ret ps new_idom)"

definition new_idom :: "'v list \<Rightarrow> ('v \<Rightarrow> 'v list option) \<Rightarrow> ('v \<rightharpoonup> 'v) \<Rightarrow> 'v \<Rightarrow> 'v option" where
  "new_idom po plist ret b =
     do { pred \<leftarrow> plist b;
          first \<leftarrow> find (\<lambda>x. ret x \<noteq> None) pred;
          meet_idom po ret (filter (\<lambda>x. x \<noteq> first) pred) first }"

fun idom_round ::
  "'v list \<Rightarrow> ('v \<Rightarrow> 'v list option) \<Rightarrow> 'v list \<Rightarrow> ('v \<rightharpoonup> 'v) \<Rightarrow> bool \<Rightarrow> (('v \<rightharpoonup> 'v) \<times> bool) option" where
  "idom_round po plist [] ret fixpoint = Some (ret, fixpoint)"
| "idom_round po plist (b # bs) ret fixpoint =
     do { n \<leftarrow> new_idom po plist ret b;
          if ret b \<noteq> Some n then idom_round po plist bs (ret(b \<mapsto> n)) False
          else idom_round po plist bs ret fixpoint }"

partial_function (option) idom_loop ::
  "'v list \<Rightarrow> ('v \<Rightarrow> 'v list option) \<Rightarrow> 'v \<Rightarrow> ('v \<rightharpoonup> 'v) \<Rightarrow> ('v \<rightharpoonup> 'v) option" where
  "idom_loop po plist start ret =
     do { (ret', fixpoint) \<leftarrow> idom_round po plist (filter (\<lambda>v. v \<noteq> start) (rev po)) ret True;
          if fixpoint then Some ret' else idom_loop po plist start ret' }"

definition immediate_dominator ::
  "('v :: linorder \<Rightarrow> 'v list option) \<Rightarrow> ('v \<Rightarrow> 'v list option) \<Rightarrow> 'v \<Rightarrow> ('v \<rightharpoonup> 'v) option" where
  "immediate_dominator succs preds start =
     do { po \<leftarrow> tree_collect succs (new_tree_iter start Postorder);
          idom_loop po (pred_list preds) start [start \<mapsto> start] }"

section \<open>Dominance frontiers\<close>

definition df_push :: "('v \<rightharpoonup> 'v list) \<Rightarrow> 'v \<Rightarrow> 'v \<Rightarrow> ('v \<rightharpoonup> 'v list)" where
  "df_push ret runner b = ret(runner \<mapsto> (case ret runner of None \<Rightarrow> [] | Some l \<Rightarrow> l) @ [b])"

partial_function (option) df_runner :: "('v \<rightharpoonup> 'v) \<Rightarrow> 'v \<Rightarrow> 'v \<Rightarrow> ('v \<rightharpoonup> 'v list) \<Rightarrow> ('v \<rightharpoonup> 'v list) option" where
  "df_runner idom b runner ret =
     do { d \<leftarrow> idom b;
          if runner \<noteq> d then do { r \<leftarrow> idom runner; df_runner idom b r (df_push ret runner b) }
          else Some ret }"

fun df_preds :: "('v \<rightharpoonup> 'v) \<Rightarrow> 'v \<Rightarrow> 'v list \<Rightarrow> ('v \<rightharpoonup> 'v list) \<Rightarrow> ('v \<rightharpoonup> 'v list) option" where
  "df_preds idom b [] ret = Some ret"
| "df_preds idom b (p # ps) ret = do { ret' \<leftarrow> df_runner idom b p ret; df_preds idom b ps ret' }"

fun df_vertices ::
  "('v \<rightharpoonup> 'v) \<Rightarrow> ('v \<Rightarrow> 'v list option) \<Rightarrow> 'v list \<Rightarrow> ('v \<rightharpoonup> 'v list) \<Rightarrow> ('v \<rightharpoonup> 'v list) option" where
  "df_vertices idom plist [] ret = Some ret"
| "df_vertices idom plist (b # bs) ret =
     do { pred \<leftarrow> plist b;
          ret' \<leftarrow> (if length pred \<ge> 2 then df_preds idom b pred ret else Some ret);
          df_vertices idom plist bs ret' }"

definition dominance_frontiers ::
  "('v :: linorder \<rightharpoonup> 'v) \<Rightarrow> 'v list \<Rightarrow> ('v \<Rightarrow> 'v list option) \<Rightarrow> ('v \<rightharpoonup> 'v list) option" where
  "dominance_frontiers idom verts preds =
     map_option (\<lambda>ret v. map_option (\<lambda>l. remdups_adj (sort l)) (ret v))
       (df_vertices idom (pred_list preds) verts (\<lambda>v. if v \<in> set verts then Some [] else None))"

section \<open>The tree of a partial dominator map\<close>

definition ix :: "'v list \<Rightarrow> 'v \<Rightarrow> nat" where
  "ix po v = the (po_idx po v)"

locale dominator_tree =
  fixes E :: "('v \<times> 'v) set" and s :: 'v and po :: "'v list" and plist :: "'v \<Rightarrow> 'v list option"
  assumes po_last: "po \<noteq> []" "last po = s"
    and po_distinct: "distinct (filter (\<lambda>v. v \<noteq> s) po)"
    and po_closed: "(u, v) \<in> E \<Longrightarrow> u \<in> set po \<Longrightarrow> v \<in> set po"
    and po_parent: "po = as @ v # bs \<Longrightarrow> v \<noteq> s \<Longrightarrow> \<exists>u \<in> set bs. (u, v) \<in> E"
    and plist_preds: "v \<in> set po \<Longrightarrow> \<exists>us. plist v = Some us \<and> set us = {u. (u, v) \<in> E \<and> u \<noteq> v}"
begin

abbreviation "idx \<equiv> ix po"

lemma po_idx_some: "v \<in> set po \<Longrightarrow> po_idx po v = Some (idx v) \<and> idx v < length po \<and> po ! idx v = v"
proof -
  assume "v \<in> set po"
  moreover have "fst ` set (zip po [0..<length po]) = set po" by (simp flip: set_map)
  ultimately have "po_idx po v \<noteq> None" by (simp add: po_idx_def map_of_eq_None_iff)
  then obtain i where i: "po_idx po v = Some i" by blast
  then have "(v, i) \<in> set (zip po [0..<length po])" using map_of_SomeD unfolding po_idx_def by fastforce
  then have "i < length po \<and> po ! i = v" by (auto simp: set_zip)
  with i show ?thesis by (simp add: ix_def)
qed

lemma idx_inj: "u \<in> set po \<Longrightarrow> v \<in> set po \<Longrightarrow> idx u = idx v \<Longrightarrow> u = v"
  using po_idx_some by metis

lemma s_po: "s \<in> set po"
  using po_last last_in_set by auto

lemma idx_nth:
  assumes "i < length po" "po ! i \<noteq> s"
  shows "idx (po ! i) = i"
proof (rule ccontr)
  assume ne: "idx (po ! i) \<noteq> i"
  have j: "idx (po ! i) < length po" "po ! idx (po ! i) = po ! i" using po_idx_some [of "po ! i"] assms(1) by auto
  have "distinct (filter (\<lambda>v. v \<noteq> s) (as @ v # bs @ v # cs)) \<Longrightarrow> v = s" for as bs cs v by auto
  moreover obtain a b where ab: "a < b" "b < length po" "po ! a = po ! i" "po ! b = po ! i"
    using ne j assms(1) by (metis linorder_neqE_nat)
  moreover have "po = take a po @ po ! a # take (b - Suc a) (drop (Suc a) po) @ po ! b # drop (Suc b) po"
  proof -
    have "po = take a po @ po ! a # drop (Suc a) po" using ab id_take_nth_drop [of a po] by simp
    moreover have "drop (Suc a) po = take (b - Suc a) (drop (Suc a) po) @ po ! b # drop (Suc b) po"
      using ab id_take_nth_drop [of "b - Suc a" "drop (Suc a) po"] by simp
    ultimately show ?thesis by metis
  qed
  ultimately show False using po_distinct assms(2) by metis
qed

lemma idx_s: "idx s = length po - 1"
proof -
  obtain bs where "po = bs @ [s]" using po_last by (metis append_butlast_last_id)
  then show ?thesis by (simp add: ix_def po_idx_def)
qed

lemma idx_max: "v \<in> set po \<Longrightarrow> v \<noteq> s \<Longrightarrow> idx v < idx s"
  using po_idx_some [of v] idx_inj [OF _ s_po] idx_s by (metis One_nat_def Suc_pred length_pos_if_in_set less_Suc_eq)

lemma forward_pred:
  assumes "v \<in> set po" "v \<noteq> s"
  shows "\<exists>u \<in> set po. (u, v) \<in> E \<and> idx v < idx u"
proof -
  have v: "idx v < length po" "po ! idx v = v" using po_idx_some [OF assms(1)] by auto
  then have "po = take (idx v) po @ v # drop (Suc (idx v)) po" using id_take_nth_drop [of "idx v" po] by simp
  then obtain u where u: "u \<in> set (drop (Suc (idx v)) po)" "(u, v) \<in> E" using po_parent assms(2) by blast
  then obtain j where j: "Suc (idx v) + j < length po" "po ! (Suc (idx v) + j) = u"
    by (auto simp: in_set_conv_nth less_diff_conv2 algebra_simps) (metis add.commute add_Suc_right less_diff_conv)
  have "idx v < idx u"
  proof (cases "u = s")
    case True
    then show ?thesis using idx_max assms by simp
  next
    case False
    then show ?thesis using idx_nth [of "Suc (idx v) + j"] j by simp
  qed
  then show ?thesis using u in_set_dropD by fast
qed

end

text \<open>The ancestors of a vertex, itself included.\<close>

definition anc :: "('v \<rightharpoonup> 'v) \<Rightarrow> 'v \<Rightarrow> 'v set" where
  "anc ret v = {x. (v, x) \<in> {(b, x). ret b = Some x}\<^sup>*}"

lemma anc_refl [simp]: "v \<in> anc ret v"
  by (simp add: anc_def)

lemma anc_trans: "x \<in> anc ret v \<Longrightarrow> y \<in> anc ret x \<Longrightarrow> y \<in> anc ret v"
  unfolding anc_def by simp

lemma anc_unfold: "ret v = Some x \<Longrightarrow> anc ret v = insert v (anc ret x)"
  by (auto simp: anc_def elim: converse_rtranclE intro: converse_rtrancl_into_rtrancl)

lemma anc_linear: "x \<in> anc ret v \<Longrightarrow> y \<in> anc ret v \<Longrightarrow> x \<in> anc ret y \<or> y \<in> anc ret x"
proof -
  assume "x \<in> anc ret v" "y \<in> anc ret v"
  then have xy: "(v, x) \<in> {(b, x). ret b = Some x}\<^sup>*" "(v, y) \<in> {(b, x). ret b = Some x}\<^sup>*" by (simp_all add: anc_def)
  have "single_valued {(b, x). ret b = Some x}" by (auto simp: single_valued_def)
  from single_valued_confluent [OF this xy] show ?thesis by (auto simp: anc_def)
qed

text \<open>Parents come later in the post-order, and only the start is its own parent.\<close>

definition parent_tree :: "'v \<Rightarrow> 'v list \<Rightarrow> ('v \<rightharpoonup> 'v) \<Rightarrow> bool" where
  "parent_tree s po ret \<longleftrightarrow> ret s = Some s \<and> dom ret \<subseteq> set po \<and>
     (\<forall>b x. ret b = Some x \<longrightarrow> x \<in> dom ret \<and> (b \<noteq> s \<longrightarrow> ix po b < ix po x))"

text \<open>The map whose ancestors are the dominators.\<close>

definition dominator_map :: "('v \<times> 'v) set \<Rightarrow> 'v \<Rightarrow> 'v list \<Rightarrow> ('v \<rightharpoonup> 'v) \<Rightarrow> bool" where
  "dominator_map E s po ret \<longleftrightarrow> parent_tree s po ret \<and> dom ret = set po \<and> (\<forall>v \<in> set po. anc ret v = {d. dominates E s d v})"

context dominator_tree
begin

abbreviation "tree \<equiv> parent_tree s po"

lemma tree_step: "tree ret \<Longrightarrow> v \<in> dom ret \<Longrightarrow> \<exists>x. ret v = Some x \<and> x \<in> dom ret \<and> (v \<noteq> s \<longrightarrow> idx v < idx x)"
  unfolding parent_tree_def by blast

lemma tree_po: "tree ret \<Longrightarrow> v \<in> dom ret \<Longrightarrow> v \<in> set po"
  unfolding parent_tree_def by blast

lemma anc_up:
  assumes "tree ret" "v \<in> dom ret" "x \<in> anc ret v"
  shows "x \<in> dom ret \<and> (x = v \<or> idx v < idx x)"
proof -
  have "(v, x) \<in> {(b, x). ret b = Some x}\<^sup>*" using assms(3) by (simp add: anc_def)
  then show ?thesis
  proof (induction rule: rtrancl_induct)
    case base
    then show ?case using assms(2) by simp
  next
    case (step y z)
    then have z: "ret y = Some z" by simp
    then have "z \<in> dom ret" "y \<noteq> s \<longrightarrow> idx y < idx z" using assms(1) unfolding parent_tree_def by blast+
    moreover have "y = s \<longrightarrow> z = s" using z assms(1) by (auto simp: parent_tree_def)
    ultimately show ?case using step.IH less_trans by metis
  qed
qed

lemma anc_antisym: "tree ret \<Longrightarrow> v \<in> dom ret \<Longrightarrow> x \<in> anc ret v \<Longrightarrow> v \<in> anc ret x \<Longrightarrow> x = v"
  using anc_up [of ret v x] anc_up [of ret x v] by auto

lemma anc_above: "tree ret \<Longrightarrow> v \<in> dom ret \<Longrightarrow> x \<in> anc ret v \<Longrightarrow> y \<in> anc ret v \<Longrightarrow> idx x \<le> idx y \<Longrightarrow> y \<in> anc ret x"
  using anc_linear [of x ret v y] anc_up [of ret v y] anc_up [of ret y x] by fastforce

lemma anc_s: "tree ret \<Longrightarrow> anc ret s = {s}"
  using idx_max anc_up [of ret s] tree_po by (fastforce simp: parent_tree_def)

lemma s_anc:
  assumes "tree ret" "v \<in> dom ret"
  shows "s \<in> anc ret v"
  using assms(2)
proof (induction "length po - idx v" arbitrary: v rule: less_induct)
  case less
  show ?case
  proof (cases "v = s")
    case False
    then obtain x where x: "ret v = Some x" "x \<in> dom ret" "idx v < idx x" using tree_step assms(1) less.prems by blast
    have "idx x < length po" using po_idx_some tree_po assms(1) x(2) by blast
    then show ?thesis using less.hyps [of x] x anc_unfold [of ret v x] by auto
  qed simp
qed

lemma climb_spec:
  assumes "tree ret" "v \<in> dom ret" "bound \<le> idx s"
  shows "\<exists>w \<in> anc ret v. climb po ret (idx v) bound = Some (idx w) \<and> anc ret w = {x \<in> anc ret v. bound \<le> idx x}"
  using assms(2)
proof (induction "length po - idx v" arbitrary: v rule: less_induct)
  case less
  have v: "idx v < length po" "po ! idx v = v" using po_idx_some tree_po [OF assms(1) less.prems] by blast+
  show ?case
  proof (cases "idx v < bound")
    case True
    then have "v \<noteq> s" using assms(3) by auto
    then obtain x where x: "ret v = Some x" "x \<in> dom ret" "idx v < idx x" using tree_step assms(1) less.prems by blast
    have "po_idx po x = Some (idx x)" "idx x < length po" using po_idx_some tree_po assms(1) x(2) by blast+
    moreover from this obtain w where "w \<in> anc ret x" "climb po ret (idx x) bound = Some (idx w)"
        "anc ret w = {y \<in> anc ret x. bound \<le> idx y}"
      using less.hyps [OF _ x(2)] diff_less_mono2 [OF x(3), of "length po"] v(1) by auto
    ultimately show ?thesis
      using True v x(1) anc_unfold [of ret v x] by (intro bexI [of _ w]) (subst climb.simps, auto)
  next
    case False
    then have "anc ret v = {x \<in> anc ret v. bound \<le> idx x}" using anc_up [OF assms(1) less.prems] by fastforce
    then show ?thesis using False by (intro bexI [of _ v]) (subst climb.simps, simp_all)
  qed
qed

lemma idx_le_s: "tree ret \<Longrightarrow> v \<in> dom ret \<Longrightarrow> idx v \<le> idx s"
  using idx_max tree_po by (cases "v = s") fastforce+

lemma intersect_loop_spec:
  assumes "tree ret" "v \<in> dom ret" "w \<in> dom ret"
  shows "\<exists>z \<in> dom ret. intersect_loop po ret (idx v) (idx w) = Some (idx z) \<and> anc ret z = anc ret v \<inter> anc ret w"
  using assms(2,3)
proof (induction "(idx s - idx v) + (idx s - idx w)" arbitrary: v w rule: less_induct)
  case less
  show ?case
  proof (cases "idx v = idx w")
    case True
    then have "v = w" using idx_inj tree_po assms(1) less.prems by blast
    then show ?thesis using less.prems by (intro bexI [of _ v]) (subst intersect_loop.simps, simp_all)
  next
    case False
    obtain v' where v': "v' \<in> anc ret v" "climb po ret (idx v) (idx w) = Some (idx v')" "anc ret v' = {x \<in> anc ret v. idx w \<le> idx x}"
      using climb_spec [OF assms(1) less.prems(1) idx_le_s [OF assms(1) less.prems(2)]] by blast
    have dv: "v' \<in> dom ret" "v' = v \<or> idx v < idx v'" using anc_up assms(1) less.prems(1) v'(1) by blast+
    obtain w' where w': "w' \<in> anc ret w" "climb po ret (idx w) (idx v') = Some (idx w')" "anc ret w' = {x \<in> anc ret w. idx v' \<le> idx x}"
      using climb_spec [OF assms(1) less.prems(2) idx_le_s [OF assms(1) dv(1)]] by blast
    have dw: "w' \<in> dom ret" "w' = w \<or> idx w < idx w'" using anc_up assms(1) less.prems(2) w'(1) by blast+
    have "idx w \<le> idx v'" "idx v' \<le> idx w'" using anc_refl [of v' ret] v'(3) anc_refl [of w' ret] w'(3) by blast+
    then have "idx v < idx v' \<or> idx w < idx w'" using False dv(2) dw(2) by auto
    then have "(idx s - idx v') + (idx s - idx w') < (idx s - idx v) + (idx s - idx w)"
      using dv(2) dw(2) idx_le_s [OF assms(1) dv(1)] idx_le_s [OF assms(1) dw(1)] by fastforce
    then obtain z where z: "z \<in> dom ret" "intersect_loop po ret (idx v') (idx w') = Some (idx z)" "anc ret z = anc ret v' \<inter> anc ret w'"
      using less.hyps [of v' w'] dv(1) dw(1) by blast
    have "anc ret v' \<inter> anc ret w' = anc ret v \<inter> anc ret w"
    proof -
      have "idx w \<le> idx x" if "x \<in> anc ret w" for x using anc_up [OF assms(1) less.prems(2) that] by auto
      moreover have "idx v' \<le> idx x" if "x \<in> anc ret v'" for x using anc_up [OF assms(1) dv(1) that] by auto
      ultimately show ?thesis using v'(3) w'(3) by auto
    qed
    then show ?thesis using z v'(2) w'(2) False by (intro bexI [of _ z]) (subst intersect_loop.simps, simp_all)
  qed
qed

lemma intersect_spec:
  assumes "tree ret" "v \<in> dom ret" "w \<in> dom ret"
  shows "\<exists>z \<in> dom ret. intersect po ret v w = Some z \<and> anc ret z = anc ret v \<inter> anc ret w"
proof -
  obtain z where z: "z \<in> dom ret" "intersect_loop po ret (idx v) (idx w) = Some (idx z)" "anc ret z = anc ret v \<inter> anc ret w"
    using intersect_loop_spec [OF assms] by blast
  then show ?thesis using po_idx_some tree_po [OF assms(1)] assms(2,3) by (auto simp: intersect_def)
qed

lemma meet_idom_spec:
  assumes "tree ret" "n \<in> dom ret"
  shows "\<exists>z \<in> dom ret. meet_idom po ret ps n = Some z \<and> anc ret z = anc ret n \<inter> (\<Inter>p \<in> set ps \<inter> dom ret. anc ret p)"
  using assms(2)
proof (induction ps arbitrary: n)
  case (Cons p ps)
  show ?case
  proof (cases "p \<in> dom ret")
    case True
    then obtain m where m: "m \<in> dom ret" "intersect po ret p n = Some m" "anc ret m = anc ret p \<inter> anc ret n"
      using intersect_spec [OF assms(1) True Cons.prems] by blast
    then obtain z where "z \<in> dom ret" "meet_idom po ret ps m = Some z" "anc ret z = anc ret m \<inter> (\<Inter>p \<in> set ps \<inter> dom ret. anc ret p)"
      using Cons.IH by blast
    then show ?thesis using m True by (intro bexI [of _ z]) (auto simp: domIff)
  next
    case False
    then show ?thesis using Cons by (simp add: domIff)
  qed
qed auto

text \<open>The processed predecessors of a vertex.\<close>

definition pre :: "('v \<rightharpoonup> 'v) \<Rightarrow> 'v \<Rightarrow> 'v set" where
  "pre ret b = {p \<in> dom ret. (p, b) \<in> E \<and> p \<noteq> b}"

lemma new_idom_spec:
  assumes "tree ret" "b \<in> set po" "pre ret b \<noteq> {}"
  shows "\<exists>z \<in> dom ret. new_idom po plist ret b = Some z \<and> anc ret z = (\<Inter>p \<in> pre ret b. anc ret p)"
proof -
  obtain us where us: "plist b = Some us" "set us = {u. (u, b) \<in> E \<and> u \<noteq> b}" using plist_preds [OF assms(2)] by blast
  then have "\<exists>x \<in> set us. ret x \<noteq> None" using assms(3) by (auto simp: pre_def)
  then obtain p where f: "find (\<lambda>x. ret x \<noteq> None) us = Some p" by (cases "find (\<lambda>x. ret x \<noteq> None) us") (auto simp: find_None_iff)
  then have p: "p \<in> set us" "p \<in> dom ret" by (auto simp: find_Some_iff)
  obtain z where z: "z \<in> dom ret" "meet_idom po ret (filter (\<lambda>x. x \<noteq> p) us) p = Some z"
      "anc ret z = anc ret p \<inter> (\<Inter>q \<in> set (filter (\<lambda>x. x \<noteq> p) us) \<inter> dom ret. anc ret q)"
    using meet_idom_spec [OF assms(1) p(2)] by blast
  have "pre ret b = insert p (set (filter (\<lambda>x. x \<noteq> p) us) \<inter> dom ret)" using us p by (auto simp: pre_def)
  then show ?thesis using z us f by (intro bexI [of _ z]) (auto simp: new_idom_def)
qed


section \<open>One assignment\<close>

lemma tree_insert:
  assumes "tree ret" "b \<in> set po" "b \<noteq> s" "z \<in> dom ret" "idx b < idx z"
  shows "tree (ret(b \<mapsto> z))"
  using assms by (auto simp: parent_tree_def)

text \<open>Below the changed vertex the ancestors stay the same, above it they are those of its new parent.\<close>

lemma anc_insert:
  assumes "tree ret" "b \<in> set po" "b \<noteq> s" "z \<in> dom ret" "idx b < idx z" "v \<in> dom ret \<or> v = b"
  shows "anc (ret(b \<mapsto> z)) v =
    (if b \<in> anc ret v then {x \<in> anc ret v. idx x < idx b} \<union> insert b (anc ret z) else anc ret v)"
proof -
  let ?r = "ret(b \<mapsto> z)"
  have t: "tree ?r" using tree_insert [OF assms(1-5)] .
  have up: "anc ?r v = anc ret v" if "v \<in> dom ret" "idx b < idx v" for v
    using that
  proof (induction "length po - idx v" arbitrary: v rule: less_induct)
    case less
    show ?case
    proof (cases "v = s")
      case True
      then show ?thesis using anc_s [OF t] anc_s [OF assms(1)] by simp
    next
      case False
      then obtain x where x: "ret v = Some x" "x \<in> dom ret" "idx v < idx x" using tree_step assms(1) less.prems(1) by blast
      have "idx v < length po" using po_idx_some tree_po [OF assms(1) less.prems(1)] by blast
      then have "anc ?r x = anc ret x" using less.hyps [OF _ x(2)] diff_less_mono2 [OF x(3), of "length po"] x(3) less.prems(2) by auto
      moreover have "?r v = Some x" using x(1) less.prems(2) by auto
      ultimately show ?thesis using anc_unfold [of ?r v x] anc_unfold [of ret v x] x(1) by simp
    qed
  qed
  have z: "anc ?r b = insert b (anc ret z)" using anc_unfold [of ?r b z] up [OF assms(4,5)] by simp
  have low: "{x \<in> anc ret b. idx x < idx b} = {}" if "b \<in> dom ret" using anc_up [OF assms(1) that] by fastforce
  show ?thesis
  proof (cases "v = b \<and> b \<notin> dom ret")
    case True
    then have "ret b = None" by blast
    then have "anc ret b = {b}" by (auto simp: anc_def elim: converse_rtranclE)
    then show ?thesis using z True by auto
  next
    case False
    then have "v \<in> dom ret" using assms(6) by blast
    then show ?thesis
    proof (induction "length po - idx v" arbitrary: v rule: less_induct)
      case less
      show ?case
      proof (cases "v = b \<or> v = s")
        case True
        then show ?thesis using z low less.prems anc_s [OF t] anc_s [OF assms(1)] assms(3) by auto
      next
        case False
        then obtain x where x: "ret v = Some x" "x \<in> dom ret" "idx v < idx x" using tree_step assms(1) less.prems(1) by blast
        have "idx v < length po" using po_idx_some tree_po [OF assms(1) less.prems(1)] by blast
        then have ih: "anc ?r x = (if b \<in> anc ret x then {y \<in> anc ret x. idx y < idx b} \<union> insert b (anc ret z) else anc ret x)"
          using less.hyps [OF _ x(2)] diff_less_mono2 [OF x(3), of "length po"] by auto
        have "idx v < idx b" if "b \<in> anc ret x" using anc_up [OF assms(1) x(2) that] x(3) by auto
        then show ?thesis using ih anc_unfold [of ?r v x] anc_unfold [of ret v x] x(1) False by auto
      qed
    qed
  qed
qed

section \<open>The invariant of the iteration\<close>

text \<open>
  \<open>bs\<close> are the vertices that the round has not treated yet.  Strict dominators are passed on to the parent;
  recomputing a parent can only move it up; the ancestors of a vertex not treated yet are those that its
  predecessors towards the start have, and the same holds for all ancestors of a treated vertex.
\<close>

definition passes :: "('v \<rightharpoonup> 'v) \<Rightarrow> bool" where
  "passes ret \<longleftrightarrow> (\<forall>b y d. ret b = Some y \<and> b \<noteq> s \<and> dominates E s d b \<and> d \<noteq> b \<longrightarrow> dominates E s d y)"

definition shrinks :: "('v \<rightharpoonup> 'v) \<Rightarrow> bool" where
  "shrinks ret \<longleftrightarrow> (\<forall>b y. ret b = Some y \<and> b \<noteq> s \<longrightarrow> (\<Inter>p \<in> pre ret b. anc ret p) \<subseteq> anc ret y)"

definition follows :: "('v \<rightharpoonup> 'v) \<Rightarrow> 'v list \<Rightarrow> bool" where
  "follows ret bs \<longleftrightarrow> (\<forall>b y p. ret b = Some y \<and> b \<noteq> s \<and> p \<in> pre ret b \<and> idx b < idx p \<longrightarrow>
     anc ret y \<inter> set bs \<subseteq> anc ret p \<and> (b \<notin> set bs \<longrightarrow> anc ret y \<subseteq> anc ret p))"

definition upward :: "('v \<rightharpoonup> 'v) \<Rightarrow> 'v list \<Rightarrow> bool" where
  "upward ret bs \<longleftrightarrow> (\<forall>b \<in> dom ret. \<forall>v \<in> set po. idx b \<le> idx v \<longrightarrow> v \<in> dom ret) \<and> set po - set bs \<subseteq> dom ret"

definition idom_inv :: "('v \<rightharpoonup> 'v) \<Rightarrow> 'v list \<Rightarrow> bool" where
  "idom_inv ret bs \<longleftrightarrow> tree ret \<and> upward ret bs \<and> passes ret \<and> shrinks ret \<and> follows ret bs"

lemma dom_ancestors:
  assumes "tree ret" "passes ret" "v \<in> dom ret" "x \<in> anc ret v" "dominates E s d v"
  shows "dominates E s d x \<or> (d \<in> anc ret v \<and> x \<in> anc ret d \<and> d \<noteq> x)"
proof -
  have "(v, x) \<in> {(b, x). ret b = Some x}\<^sup>*" using assms(4) by (simp add: anc_def)
  then show ?thesis
  proof (induction rule: rtrancl_induct)
    case base
    then show ?case using assms(5) by simp
  next
    case (step y z)
    then have z: "ret y = Some z" and y: "y \<in> anc ret v" by (simp_all add: anc_def)
    have yd: "y \<in> dom ret" using anc_up [OF assms(1,3) y] by blast
    have zy: "z \<in> anc ret y" using anc_unfold [of ret y z] z by simp
    show ?case
    proof (cases "y = s")
      case True
      then show ?thesis using step.IH z assms(1) by (auto simp: parent_tree_def)
    next
      case False
      then have zne: "z \<noteq> y" using tree_step [OF assms(1) yd] z by auto
      from step.IH show ?thesis
      proof
        assume "dominates E s d y"
        then show ?thesis using assms(2) z False y zy zne unfolding passes_def by metis
      next
        assume d: "d \<in> anc ret v \<and> y \<in> anc ret d \<and> d \<noteq> y"
        then have "z \<in> anc ret d" using anc_trans zy by metis
        moreover have "d \<noteq> z" using anc_antisym [OF assms(1) yd zy] d zne by metis
        ultimately show ?thesis using d by blast
      qed
    qed
  qed
qed

lemma dominates_start: "dominates E s d s \<Longrightarrow> d = s"
  using avoids_start unfolding dominates_def by metis

lemma dominates_edge: "dominates E s d v \<Longrightarrow> d \<noteq> v \<Longrightarrow> (u, v) \<in> E \<Longrightarrow> dominates E s d u"
  unfolding dominates_def using avoids_step by metis

lemma dom_in_anc:
  assumes "tree ret" "passes ret" "v \<in> dom ret" "dominates E s d v"
  shows "d \<in> anc ret v"
  using dom_ancestors [OF assms(1-3) s_anc [OF assms(1,3)] assms(4)] dominates_start [of d] s_anc [OF assms(1,3)] by metis


section \<open>The iteration keeps the invariant\<close>

definition treats :: "('v \<rightharpoonup> 'v) \<Rightarrow> 'v \<Rightarrow> 'v list \<Rightarrow> 'v \<Rightarrow> bool" where
  "treats ret b bs z \<longleftrightarrow> idom_inv ret (b # bs) \<and> b \<in> set po \<and> b \<noteq> s \<and> set bs = {x \<in> set po. idx x < idx b} \<and>
     z \<in> dom ret \<and> idx b < idx z \<and> anc ret z = (\<Inter>p \<in> pre ret b. anc ret p)"

lemma processed_above:
  assumes "idom_inv ret (b # bs)" "set bs = {x \<in> set po. idx x < idx b}" "v \<in> set po" "idx b < idx v"
  shows "v \<in> dom ret"
proof -
  have "v \<notin> set (b # bs)" using assms(2,4) by fastforce
  then show ?thesis using assms(1,3) unfolding idom_inv_def upward_def by blast
qed

lemma treats_exists:
  assumes "idom_inv ret (b # bs)" "b \<in> set po" "b \<noteq> s" "set bs = {x \<in> set po. idx x < idx b}"
  shows "\<exists>z. new_idom po plist ret b = Some z \<and> treats ret b bs z"
proof -
  have t: "tree ret" using assms(1) by (simp add: idom_inv_def)
  obtain u where u: "u \<in> set po" "(u, b) \<in> E" "idx b < idx u" using forward_pred [OF assms(2,3)] by blast
  then have d: "u \<in> dom ret" using processed_above [OF assms(1,4)] by blast
  then have pu: "u \<in> pre ret b" using u by (auto simp: pre_def)
  then obtain z where z: "z \<in> dom ret" "new_idom po plist ret b = Some z" "anc ret z = (\<Inter>p \<in> pre ret b. anc ret p)"
    using new_idom_spec [OF t assms(2)] by blast
  have "z \<in> anc ret u" using anc_refl [of z ret] z(3) pu by blast
  then have "idx b < idx z" using anc_up [OF t d] u(3) by fastforce
  then show ?thesis using z assms by (simp add: treats_def)
qed

lemma treatsD:
  assumes "treats ret b bs z"
  shows "tree ret" "b \<in> set po" "b \<noteq> s" "set bs = {x \<in> set po. idx x < idx b}"
    and "z \<in> dom ret" "idx b < idx z" "anc ret z = (\<Inter>p \<in> pre ret b. anc ret p)"
    and "upward ret (b # bs)" "passes ret" "shrinks ret" "follows ret (b # bs)"
  using assms by (simp_all add: treats_def idom_inv_def)

lemma treats_tree: "treats ret b bs z \<Longrightarrow> tree (ret(b \<mapsto> z))"
  by (rule tree_insert) (simp_all add: treatsD)

lemma treats_anc:
  assumes "treats ret b bs z" "v \<in> dom ret"
  shows "anc (ret(b \<mapsto> z)) v =
    (if b \<in> anc ret v then {x \<in> anc ret v. idx x < idx b} \<union> insert b (anc ret z) else anc ret v)"
  using anc_insert [OF treatsD(1,2,3,5,6) [OF assms(1)]] assms(2) by blast

lemma treats_high: "treats ret b bs z \<Longrightarrow> v \<in> dom ret \<Longrightarrow> idx b < idx v \<Longrightarrow> anc (ret(b \<mapsto> z)) v = anc ret v"
  using treats_anc [of ret b bs z v] anc_up [OF treatsD(1), of ret b bs z v b] by auto

lemma treats_below: "treats ret b bs z \<Longrightarrow> ret b = Some y \<Longrightarrow> anc ret z \<subseteq> anc ret y"
  using treatsD(3,7,10) [of ret b bs z] unfolding shrinks_def by blast

lemma treats_shrinks:
  assumes "treats ret b bs z" "v \<in> dom ret"
  shows "anc (ret(b \<mapsto> z)) v \<subseteq> anc ret v"
proof (cases "b \<in> anc ret v")
  case True
  then obtain y where y: "ret b = Some y" using anc_up [OF treatsD(1) [OF assms(1)] assms(2)] by blast
  have "anc ret b = insert b (anc ret y)" using anc_unfold [of ret b y] y by simp
  then have "insert b (anc ret z) \<subseteq> anc ret b" using treats_below [OF assms(1) y] by blast
  moreover have "anc ret b \<subseteq> anc ret v" using anc_trans [OF True] by blast
  ultimately show ?thesis using treats_anc [OF assms] True by auto
next
  case False
  then show ?thesis using treats_anc [OF assms] by simp
qed

lemma pre_insert: "pre (ret(b \<mapsto> z)) c = pre ret c \<union> (if (b, c) \<in> E \<and> b \<noteq> c then {b} else {})"
  by (auto simp: pre_def)

lemma treats_upward:
  assumes "treats ret b bs z"
  shows "upward (ret(b \<mapsto> z)) bs"
proof -
  note up = treatsD(8) [OF assms, unfolded upward_def]
  have "v \<in> dom (ret(b \<mapsto> z))" if c: "c \<in> dom (ret(b \<mapsto> z))" "v \<in> set po" "idx c \<le> idx v" for c v
  proof (cases "idx b < idx v")
    case True
    then have "v \<in> dom ret" using processed_above [of ret b bs v] assms c(2) unfolding treats_def by blast
    then show ?thesis by simp
  next
    case False
    show ?thesis
    proof (cases "c = b")
      case True
      then have "idx v = idx b" using False c(3) by simp
      then have "v = b" using idx_inj c(2) treatsD(2) [OF assms] by blast
      then show ?thesis by simp
    next
      case False
      then have "c \<in> dom ret" using c(1) by simp
      then have "v \<in> dom ret" using up c(2,3) by blast
      then show ?thesis by simp
    qed
  qed
  moreover have "set po - set bs \<subseteq> dom (ret(b \<mapsto> z))" using up by auto
  ultimately show ?thesis unfolding upward_def by blast
qed

lemma forward_processed: "tree ret \<Longrightarrow> upward ret bs \<Longrightarrow> c \<in> dom ret \<Longrightarrow> c \<noteq> s \<Longrightarrow> \<exists>p \<in> pre ret c. idx c < idx p"
proof -
  assume t: "tree ret" "upward ret bs" and c: "c \<in> dom ret" "c \<noteq> s"
  obtain u where u: "u \<in> set po" "(u, c) \<in> E" "idx c < idx u" using forward_pred [OF tree_po [OF t(1) c(1)] c(2)] by blast
  then have "u \<in> dom ret" using t(2) c(1) less_imp_le unfolding upward_def by blast
  then show ?thesis using u by (auto simp: pre_def)
qed

lemma treats_passes:
  assumes "treats ret b bs z"
  shows "passes (ret(b \<mapsto> z))"
proof -
  note t = treatsD(1) [OF assms] and old = treatsD(9) [OF assms] and z = treatsD(5-7) [OF assms]
  have "dominates E s d z" if d: "dominates E s d b" "d \<noteq> b" for d
  proof -
    have dp: "dominates E s d p" "d \<in> anc ret p" if "p \<in> pre ret b" for p
    proof -
      have p: "(p, b) \<in> E" "p \<in> dom ret" using that by (auto simp: pre_def)
      then show "dominates E s d p" using dominates_edge d by blast
      then show "d \<in> anc ret p" using dom_in_anc [OF t old p(2)] by blast
    qed
    then have dz: "d \<in> anc ret z" using z(3) by blast
    obtain u where "u \<in> set po" "(u, b) \<in> E" "idx b < idx u" using forward_pred treatsD(2,3) [OF assms] by blast
    then have u: "u \<in> pre ret b" "u \<in> dom ret"
      using processed_above [of ret b bs u] assms by (auto simp: pre_def treats_def)
    have "z \<in> anc ret u" using anc_refl [of z ret] z(3) u(1) by blast
    then have "dominates E s d z \<or> d \<in> anc ret u \<and> z \<in> anc ret d \<and> d \<noteq> z"
      using dom_ancestors [OF t old u(2) _ dp(1) [OF u(1)]] by blast
    then show ?thesis using anc_antisym [OF t z(1) dz] by blast
  qed
  then show ?thesis using old unfolding passes_def by (metis fun_upd_apply option.inject)
qed

lemma treats_meet:
  assumes "treats ret b bs z"
  shows "shrinks (ret(b \<mapsto> z))"
proof -
  let ?r = "ret(b \<mapsto> z)"
  note t = treatsD(1) [OF assms] and z = treatsD(5-7) [OF assms] and an = treats_anc [OF assms]
  have "d \<in> anc ?r y" if c: "?r c = Some y" "c \<noteq> s" and d: "\<And>p. p \<in> pre ?r c \<Longrightarrow> d \<in> anc ?r p" for c y d
  proof -
    have old: "d \<in> anc ret p" if "p \<in> pre ret c" for p
    proof -
      have "p \<in> dom ret" "p \<in> pre ?r c" using that pre_insert by (auto simp: pre_def)
      then show ?thesis using d treats_shrinks [OF assms] by blast
    qed
    show ?thesis
    proof (cases "c = b")
      case True
      then have "d \<in> anc ret z" using old z(3) by blast
      then show ?thesis using treats_high [OF assms z(1,2)] c(1) True by simp
    next
      case False
      then have rc: "ret c = Some y" using c(1) by simp
      then have yd: "y \<in> dom ret" "c \<in> dom ret" using t unfolding parent_tree_def by blast+
      have dy: "d \<in> anc ret y" using treatsD(10) [OF assms] rc c(2) old unfolding shrinks_def by blast
      show ?thesis
      proof (cases "b \<in> anc ret y")
        case True
        obtain p where p: "p \<in> pre ret c" "idx c < idx p" using forward_processed [OF t treatsD(8) [OF assms] yd(2) c(2)] by blast
        then have bp: "b \<in> anc ret p" using treatsD(11) [OF assms] rc c(2) True unfolding follows_def by auto
        have "p \<in> dom ret" "d \<in> anc ?r p" using p(1) pre_insert [of ret b z c] d by (auto simp: pre_def)
        then have "idx d < idx b \<or> d \<in> insert b (anc ret z)" using an [of p] bp by auto
        then show ?thesis using an [OF yd(1)] True dy by auto
      next
        case False
        then show ?thesis using an [OF yd(1)] dy by simp
      qed
    qed
  qed
  then show ?thesis unfolding shrinks_def by blast
qed

lemma treats_follows:
  assumes "treats ret b bs z"
  shows "follows (ret(b \<mapsto> z)) bs"
proof -
  let ?r = "ret(b \<mapsto> z)"
  note t = treatsD(1) [OF assms] and z = treatsD(5-7) [OF assms] and an = treats_anc [OF assms] and bs = treatsD(4) [OF assms]
  have "x \<in> anc ?r p" if c: "?r c = Some y" "c \<noteq> s" "p \<in> pre ?r c" "idx c < idx p"
      and x: "x \<in> anc ?r y" "x \<in> set bs \<or> c \<notin> set bs" for c y p x
  proof (cases "c = b")
    case True
    have p: "p \<in> pre ret b" "p \<in> dom ret" using c(3) True pre_insert [of ret b z b] by (auto simp: pre_def)
    have "x \<in> anc ret z" using x(1) treats_high [OF assms z(1,2)] c(1) True by simp
    then have "x \<in> anc ret p" using z(3) p(1) by blast
    then show ?thesis using treats_high [OF assms p(2)] c(4) True by simp
  next
    case False
    then have rc: "ret c = Some y" using c(1) by simp
    then have yd: "y \<in> dom ret" "c \<in> dom ret" using t unfolding parent_tree_def by blast+
    have "p \<in> set po" using c(3) tree_po [OF treats_tree [OF assms]] by (auto simp: pre_def)
    then have pd: "p \<in> dom ret" using treatsD(8) [OF assms] yd(2) c(4) less_imp_le unfolding upward_def by blast
    then have p: "p \<in> pre ret c" using c(3) by (auto simp: pre_def)
    have xy: "x \<in> anc ret y" using treats_shrinks [OF assms yd(1)] x(1) by blast
    have F: "anc ret y \<inter> set (b # bs) \<subseteq> anc ret p" "c \<notin> set (b # bs) \<longrightarrow> anc ret y \<subseteq> anc ret p"
      using treatsD(11) [OF assms] rc c(2,4) p unfolding follows_def by blast+
    have xp: "x \<in> anc ret p" using F xy x(2) False by auto
    show ?thesis
    proof (cases "b \<in> anc ret p \<and> x \<notin> set bs")
      case True
      then have "idx p \<le> idx b" using anc_up [OF t pd] by fastforce
      then have "c \<in> set bs" using bs c(4) tree_po [OF t yd(2)] by auto
      then show ?thesis using True x(2) by blast
    next
      case False
      then show ?thesis using an [OF pd] xp bs by auto
    qed
  qed
  then show ?thesis unfolding follows_def by blast
qed

lemma treats_inv: "treats ret b bs z \<Longrightarrow> idom_inv (ret(b \<mapsto> z)) bs"
  by (simp add: idom_inv_def treats_tree treats_upward treats_passes treats_meet treats_follows)


section \<open>Rounds\<close>

definition remaining :: "'v list \<Rightarrow> bool" where
  "remaining bs \<longleftrightarrow> sorted_wrt (\<lambda>x y. idx y < idx x) bs \<and> set bs \<subseteq> set po - {s} \<and>
     (\<forall>b \<in> set bs. \<forall>x \<in> set po. idx x < idx b \<longrightarrow> x \<in> set bs)"

lemma remaining_Cons:
  assumes "remaining (b # bs)"
  shows "remaining bs" "b \<in> set po" "b \<noteq> s" "set bs = {x \<in> set po. idx x < idx b}"
proof -
  show "b \<in> set po" "b \<noteq> s" using assms by (auto simp: remaining_def)
  show bs: "set bs = {x \<in> set po. idx x < idx b}" using assms by (fastforce simp: remaining_def)
  show "remaining bs" using assms unfolding remaining_def bs by (fastforce simp: bs)
qed

lemma remaining_all: "remaining (filter (\<lambda>v. v \<noteq> s) (rev po))"
proof -
  have "sorted_wrt (\<lambda>x y. x \<noteq> s \<and> y \<noteq> s \<longrightarrow> idx x < idx y) po"
    by (auto simp: sorted_wrt_iff_nth_less idx_nth)
  then have "sorted_wrt (\<lambda>x y. x \<noteq> s \<and> y \<noteq> s \<longrightarrow> idx y < idx x) (filter (\<lambda>v. v \<noteq> s) (rev po))"
    by (intro sorted_wrt_filter) (simp add: sorted_wrt_rev conj_commute)
  then have "sorted_wrt (\<lambda>x y. idx y < idx x) (filter (\<lambda>v. v \<noteq> s) (rev po))"
    by (rule sorted_wrt_mono_rel [rotated]) simp
  then show ?thesis using idx_max by (fastforce simp: remaining_def)
qed

definition potential :: "('v \<rightharpoonup> 'v) \<Rightarrow> nat" where
  "potential ret = (\<Sum>v \<in> set po. case ret v of None \<Rightarrow> length po + 1 | Some x \<Rightarrow> length po - idx x)"

lemma potential_decreases:
  assumes "treats ret b bs z" "ret b \<noteq> Some z"
  shows "potential (ret(b \<mapsto> z)) < potential ret"
  unfolding potential_def
proof (rule sum_strict_mono_ex1)
  have z: "idx z < length po" using po_idx_some tree_po treatsD(1,5) [OF assms(1)] by blast
  have "(case (ret(b \<mapsto> z)) b of None \<Rightarrow> length po + 1 | Some x \<Rightarrow> length po - idx x) <
    (case ret b of None \<Rightarrow> length po + 1 | Some x \<Rightarrow> length po - idx x)"
  proof (cases "ret b")
    case (Some y)
    have "y \<in> dom ret" using Some treatsD(1) [OF assms(1)] unfolding parent_tree_def by blast
    moreover have "z \<in> anc ret y" using treats_below [OF assms(1) Some] anc_refl [of z ret] by (rule subsetD)
    ultimately have "z = y \<or> idx y < idx z" using anc_up [OF treatsD(1) [OF assms(1)], of y z] by simp
    then have "idx y < idx z" using assms(2) Some by auto
    then show ?thesis using z Some by simp
  qed simp
  then show "\<exists>v \<in> set po. (case (ret(b \<mapsto> z)) v of None \<Rightarrow> length po + 1 | Some x \<Rightarrow> length po - idx x) <
    (case ret v of None \<Rightarrow> length po + 1 | Some x \<Rightarrow> length po - idx x)"
    and "\<forall>v \<in> set po. (case (ret(b \<mapsto> z)) v of None \<Rightarrow> length po + 1 | Some x \<Rightarrow> length po - idx x) \<le>
    (case ret v of None \<Rightarrow> length po + 1 | Some x \<Rightarrow> length po - idx x)"
    using treatsD(2) [OF assms(1)] by (auto simp: less_imp_le)
qed simp

lemma idom_round_spec:
  assumes "idom_inv ret bs" "remaining bs"
  shows "\<exists>ret' f'. idom_round po plist bs ret f = Some (ret', f') \<and> idom_inv ret' [] \<and> potential ret' \<le> potential ret \<and>
    (f \<and> \<not> f' \<longrightarrow> potential ret' < potential ret) \<and>
    (f' \<longrightarrow> f \<and> ret' = ret \<and> (\<forall>b \<in> set bs. \<forall>y. ret b = Some y \<longrightarrow> anc ret y = (\<Inter>p \<in> pre ret b. anc ret p)))"
  using assms
proof (induction bs arbitrary: ret f)
  case (Cons b bs)
  note r = remaining_Cons [OF Cons.prems(2)]
  obtain z where z: "new_idom po plist ret b = Some z" "treats ret b bs z" using treats_exists [OF Cons.prems(1) r(2-4)] by blast
  note inv = treats_inv [OF z(2)]
  show ?case
  proof (cases "ret b = Some z")
    case True
    then have same: "ret(b \<mapsto> z) = ret" by auto
    then obtain ret' f' where ih: "idom_round po plist bs ret f = Some (ret', f')" "idom_inv ret' []" "potential ret' \<le> potential ret"
        "f \<and> \<not> f' \<longrightarrow> potential ret' < potential ret"
        "f' \<longrightarrow> f \<and> ret' = ret \<and> (\<forall>b \<in> set bs. \<forall>y. ret b = Some y \<longrightarrow> anc ret y = (\<Inter>p \<in> pre ret b. anc ret p))"
      using Cons.IH [of ret f] inv r(1) by auto
    then show ?thesis using z(1) True treatsD(7) [OF z(2)] by (intro exI [of _ ret'] exI [of _ f']) simp
  next
    case False
    obtain ret' f' where ih: "idom_round po plist bs (ret(b \<mapsto> z)) False = Some (ret', f')" "idom_inv ret' []"
        "potential ret' \<le> potential (ret(b \<mapsto> z))" "\<not> f'"
      using Cons.IH [OF inv r(1), of False] by blast
    then show ?thesis using z(1) False potential_decreases [OF z(2) False] by (intro exI [of _ ret'] exI [of _ f']) auto
  qed
qed simp


lemma idom_inv_start: "idom_inv [s \<mapsto> s] (filter (\<lambda>v. v \<noteq> s) (rev po))"
proof -
  have "v = s" if "v \<in> set po" "idx s \<le> idx v" for v using idx_max [OF that(1)] that(2) by fastforce
  then show ?thesis
    using s_po by (auto simp: idom_inv_def parent_tree_def upward_def passes_def shrinks_def follows_def split: if_splits)
qed

lemma idom_inv_again: "idom_inv ret [] \<Longrightarrow> idom_inv ret (filter (\<lambda>v. v \<noteq> s) (rev po))"
proof -
  assume inv: "idom_inv ret []"
  then have "anc ret y \<subseteq> anc ret p" if "ret b = Some y" "b \<noteq> s" "p \<in> pre ret b" "idx b < idx p" for b y p
    using that by (simp add: idom_inv_def follows_def)
  then have "follows ret (filter (\<lambda>v. v \<noteq> s) (rev po))" unfolding follows_def by blast
  then show ?thesis using inv by (auto simp: idom_inv_def upward_def)
qed

lemma idom_loop_spec:
  assumes "idom_inv ret (filter (\<lambda>v. v \<noteq> s) (rev po))"
  shows "\<exists>ret'. idom_loop po plist s ret = Some ret' \<and> idom_inv ret' [] \<and>
    (\<forall>b y. ret' b = Some y \<and> b \<noteq> s \<longrightarrow> anc ret' y = (\<Inter>p \<in> pre ret' b. anc ret' p))"
  using assms
proof (induction "potential ret" arbitrary: ret rule: less_induct)
  case less
  let ?bs = "filter (\<lambda>v. v \<noteq> s) (rev po)"
  obtain ret' f where r: "idom_round po plist ?bs ret True = Some (ret', f)" "idom_inv ret' []"
      "\<not> f \<longrightarrow> potential ret' < potential ret"
      "f \<longrightarrow> ret' = ret \<and> (\<forall>b \<in> set ?bs. \<forall>y. ret b = Some y \<longrightarrow> anc ret y = (\<Inter>p \<in> pre ret b. anc ret p))"
    using idom_round_spec [OF less.prems remaining_all, of True] by blast
  show ?case
  proof (cases f)
    case True
    have "b \<in> set ?bs" if "ret b = Some y" "b \<noteq> s" for b y using that less.prems tree_po by (auto simp: idom_inv_def)
    then show ?thesis using r True by (intro exI [of _ ret']) (subst idom_loop.simps, auto)
  next
    case False
    then obtain ret2 where "idom_loop po plist s ret' = Some ret2" "idom_inv ret2 []"
        "\<forall>b y. ret2 b = Some y \<and> b \<noteq> s \<longrightarrow> anc ret2 y = (\<Inter>p \<in> pre ret2 b. anc ret2 p)"
      using less.hyps [OF _ idom_inv_again [OF r(2)]] r(3) by blast
    then show ?thesis using r(1) False by (intro exI [of _ ret2]) (subst idom_loop.simps, simp)
  qed
qed

lemma idom_loop_dominators:
  "\<exists>ret. idom_loop po plist s [s \<mapsto> s] = Some ret \<and> tree ret \<and> dom ret = set po \<and>
     (\<forall>v \<in> set po. anc ret v = {d. dominates E s d v})"
proof -
  obtain ret where ret0: "idom_loop po plist s [s \<mapsto> s] = Some ret \<and> idom_inv ret [] \<and>
      (\<forall>b y. ret b = Some y \<and> b \<noteq> s \<longrightarrow> anc ret y = (\<Inter>p \<in> pre ret b. anc ret p))"
    using idom_loop_spec [OF idom_inv_start] by (rule exE)
  then have ret: "idom_loop po plist s [s \<mapsto> s] = Some ret" "idom_inv ret []"
      "\<And>b y. ret b = Some y \<Longrightarrow> b \<noteq> s \<Longrightarrow> anc ret y = (\<Inter>p \<in> pre ret b. anc ret p)" by simp_all
  have t: "tree ret" "passes ret" using ret(2) by (auto simp: idom_inv_def)
  have "dom ret \<subseteq> set po" "set po \<subseteq> dom ret" using ret(2) t(1) by (simp_all add: idom_inv_def upward_def parent_tree_def)
  then have dom: "dom ret = set po" by (rule equalityI)
  have "v \<in> set po \<and> d \<notin> anc ret v" if "avoids E s d v" for d v
    using that
  proof (induction rule: avoids.induct)
    case avoids_start
    then show ?case using anc_s [OF t(1)] s_po by auto
  next
    case (avoids_step u v)
    have v: "v \<in> set po" using po_closed [OF avoids_step.hyps(2)] avoids_step.IH by blast
    show ?case
    proof (cases "v = s \<or> u = v")
      case True
      then show ?thesis using anc_s [OF t(1)] avoids_step v by auto
    next
      case False
      obtain y where y: "ret v = Some y" using v dom by blast
      have "u \<in> pre ret v" using avoids_step False dom by (auto simp: pre_def)
      then have "d \<notin> anc ret y" using ret(3) [OF y] False avoids_step.IH by blast
      then show ?thesis using anc_unfold [of ret v y] y avoids_step.hyps(3) v by simp
    qed
  qed
  then have "anc ret v = {d. dominates E s d v}" if "v \<in> set po" for v
    using dom_in_anc [OF t] that dom unfolding dominates_def by blast
  then show ?thesis using ret(1) t(1) dom by blast
qed


section \<open>Frontiers\<close>

abbreviation "idoms \<equiv> dominator_map E s po"

lemma idoms_parent:
  assumes "idoms ret" "v \<in> set po" "v \<noteq> s"
  shows "\<exists>x \<in> set po. ret v = Some x \<and> x \<noteq> v \<and> \<not> dominates E s v x \<and> {d. dominates E s d v} = insert v {d. dominates E s d x}"
proof -
  have i: "tree ret" "dom ret = set po" "\<And>v. v \<in> set po \<Longrightarrow> anc ret v = {d. dominates E s d v}" using assms(1) by (simp_all add: dominator_map_def)
  then obtain x where x: "ret v = Some x" "x \<in> set po" "idx v < idx x" using tree_step [of ret v] assms(2,3) by auto
  then have "v \<notin> anc ret x" using anc_up [OF i(1), of x v] i(2) by auto
  moreover have "anc ret v = insert v (anc ret x)" using anc_unfold [of ret v x] x(1) by simp
  ultimately show ?thesis using i(3) [OF x(2)] i(3) [OF assms(2)] x by auto
qed

lemma df_runner_spec:
  assumes "idoms ret" "ret b = Some d" "d \<in> set po" "p \<in> set po" "d \<in> anc ret p" "set po \<subseteq> dom df"
  shows "\<exists>df'. df_runner ret b p df = Some df' \<and> dom df' = dom df \<and>
    (\<forall>x. set (the (df' x)) = set (the (df x)) \<union> (if x \<in> anc ret p - anc ret d then {b} else {}))"
  using assms(4-6)
proof (induction "length po - idx p" arbitrary: p df rule: less_induct)
  case less
  have t: "tree ret" "dom ret = set po" using assms(1) by (simp_all add: dominator_map_def)
  show ?case
  proof (cases "p = d")
    case True
    then show ?thesis using assms(2) by (intro exI [of _ df]) (subst df_runner.simps, auto)
  next
    case False
    have "p \<noteq> s" using less.prems(2) False anc_s [OF t(1)] by auto
    then obtain x where x: "ret p = Some x" "x \<in> set po" "idx p < idx x" using tree_step [OF t(1)] t(2) less.prems(1) by auto
    have ap: "anc ret p = insert p (anc ret x)" using anc_unfold [of ret p x] x(1) by simp
    then have dx: "d \<in> anc ret x" using less.prems(2) False by auto
    have "p \<notin> anc ret x" using anc_up [OF t(1), of x p] t(2) x(2,3) by auto
    moreover have "anc ret d \<subseteq> anc ret x" using anc_trans [OF dx] by blast
    ultimately have diff: "anc ret p - anc ret d = insert p (anc ret x - anc ret d)" using ap by auto
    have push: "dom (df_push df p b) = dom df" using less.prems(1,3) by (auto simp: df_push_def)
    obtain l where l: "df p = Some l" using less.prems(1,3) by blast
    have "idx p < length po" using po_idx_some less.prems(1) by blast
    then obtain df' where df': "df_runner ret b x (df_push df p b) = Some df'" "dom df' = dom df"
        "\<And>y. set (the (df' y)) = set (the (df_push df p b y)) \<union> (if y \<in> anc ret x - anc ret d then {b} else {})"
      using less.hyps [OF _ x(2) dx, of "df_push df p b"] diff_less_mono2 [OF x(3), of "length po"] push less.prems(3) by auto
    have "df_runner ret b p df = Some df'" using df'(1) False assms(2) x(1) by (subst df_runner.simps) simp
    moreover have "set (the (df' y)) = set (the (df y)) \<union> (if y \<in> anc ret p - anc ret d then {b} else {})" for y
      unfolding df'(3) diff using l by (auto simp: df_push_def)
    ultimately show ?thesis using df'(2) by blast
  qed
qed

lemma df_preds_spec:
  assumes "idoms ret" "ret b = Some d" "d \<in> set po" "\<forall>p \<in> set ps. p \<in> set po \<and> d \<in> anc ret p" "set po \<subseteq> dom df"
  shows "\<exists>df'. df_preds ret b ps df = Some df' \<and> dom df' = dom df \<and>
    (\<forall>x. set (the (df' x)) = set (the (df x)) \<union> (if \<exists>p \<in> set ps. x \<in> anc ret p - anc ret d then {b} else {}))"
  using assms(4,5)
proof (induction ps arbitrary: df)
  case (Cons p ps)
  have p: "p \<in> set po" "d \<in> anc ret p" using Cons.prems(1) by auto
  obtain df1 where df1: "df_runner ret b p df = Some df1" "dom df1 = dom df"
      "\<And>x. set (the (df1 x)) = set (the (df x)) \<union> (if x \<in> anc ret p - anc ret d then {b} else {})"
    using df_runner_spec [OF assms(1-3) p Cons.prems(2)] by auto
  then obtain df2 where df2: "df_preds ret b ps df1 = Some df2" "dom df2 = dom df1"
      "\<And>x. set (the (df2 x)) = set (the (df1 x)) \<union> (if \<exists>p \<in> set ps. x \<in> anc ret p - anc ret d then {b} else {})"
    using Cons.IH [of df1] Cons.prems by auto
  then show ?case using df1 by (intro exI [of _ df2]) auto
qed simp

lemma df_vertices_spec:
  assumes "idoms ret" "set bs \<subseteq> set po" "set po \<subseteq> dom df" "E \<subseteq> set po \<times> UNIV"
  shows "\<exists>df'. df_vertices ret plist bs df = Some df' \<and> dom df' = dom df \<and>
    (\<forall>x b. b \<in> set (the (df' x)) \<longleftrightarrow> b \<in> set (the (df x)) \<or>
       (b \<in> set bs \<and> length (the (plist b)) \<ge> 2 \<and> (\<exists>p \<in> set (the (plist b)). dominates E s x p \<and> \<not> dominates E s x (the (ret b)))))"
  using assms(2,3)
proof (induction bs arbitrary: df)
  case (Cons b bs)
  have i: "tree ret" "dom ret = set po" "\<And>v. v \<in> set po \<Longrightarrow> anc ret v = {d. dominates E s d v}" using assms(1) by (simp_all add: dominator_map_def)
  have b: "b \<in> set po" using Cons.prems(1) by simp
  then obtain d where d: "ret b = Some d" "d \<in> set po" using i(1,2) tree_step by fastforce
  obtain us where us: "plist b = Some us" "set us = {u. (u, b) \<in> E \<and> u \<noteq> b}" using plist_preds b by blast
  have ps: "\<forall>p \<in> set us. p \<in> set po \<and> d \<in> anc ret p"
  proof
    fix p assume "p \<in> set us"
    then have p: "(p, b) \<in> E" "p \<in> set po" using us(2) assms(4) by auto
    show "p \<in> set po \<and> d \<in> anc ret p"
    proof (cases "b = s")
      case True
      then show ?thesis using s_anc [OF i(1)] i(1,2) p(2) d(1) by (auto simp: parent_tree_def)
    next
      case False
      then have "dominates E s d b" "d \<noteq> b"
        using idoms_parent [OF assms(1) b False] d(1) i(3) [OF d(2)] anc_refl [of d ret] by auto
      then show ?thesis using dominates_edge [OF _ _ p(1)] i(3) [OF p(2)] p(2) by auto
    qed
  qed
  obtain df1 where df1: "(if length us \<ge> 2 then df_preds ret b us df else Some df) = Some df1" "dom df1 = dom df"
      "\<And>x. set (the (df1 x)) = set (the (df x)) \<union> (if length us \<ge> 2 \<and> (\<exists>p \<in> set us. x \<in> anc ret p - anc ret d) then {b} else {})"
    using df_preds_spec [OF assms(1) d ps Cons.prems(2)] by (cases "length us \<ge> 2") auto
  then obtain df2 where df2: "df_vertices ret plist bs df1 = Some df2" "dom df2 = dom df"
      "\<And>x c. c \<in> set (the (df2 x)) \<longleftrightarrow> c \<in> set (the (df1 x)) \<or>
       (c \<in> set bs \<and> length (the (plist c)) \<ge> 2 \<and> (\<exists>p \<in> set (the (plist c)). dominates E s x p \<and> \<not> dominates E s x (the (ret c))))"
    using Cons.IH [of df1] Cons.prems by auto
  have "(\<exists>p \<in> set us. x \<in> anc ret p - anc ret d) \<longleftrightarrow> (\<exists>p \<in> set us. dominates E s x p \<and> \<not> dominates E s x (the (ret b)))" for x
    using i(3) ps d by auto
  then have "c \<in> set (the (df1 x)) \<longleftrightarrow> c \<in> set (the (df x)) \<or>
      (c = b \<and> length us \<ge> 2 \<and> (\<exists>p \<in> set us. dominates E s x p \<and> \<not> dominates E s x (the (ret b))))" for c x
    unfolding df1(3) by auto
  then show ?case using df1(1) df2 us(1) by (intro exI [of _ df2]) auto
qed simp


lemma dominated_by_preds: "avoids E s w v \<Longrightarrow> v = b \<Longrightarrow> b \<noteq> s \<Longrightarrow> \<exists>u. (u, b) \<in> E \<and> u \<noteq> b \<and> avoids E s w u"
proof (induction rule: avoids.induct)
  case (avoids_step u v)
  show ?case
  proof (cases "u = b")
    case True
    from avoids_step.IH [OF this avoids_step.prems(2)] show ?thesis .
  next
    case False
    moreover have "(u, b) \<in> E" using avoids_step.hyps(2) avoids_step.prems(1) by simp
    ultimately show ?thesis using avoids_step.hyps(1) by (intro exI [of _ u]) simp
  qed
qed simp

text \<open>A vertex with a single predecessor has it as its immediate dominator.\<close>

lemma single_pred:
  assumes "idoms ret" "b \<in> set po" "b \<noteq> s" "plist b = Some us" "p \<in> set us" "dominates E s w p" "\<not> (dominates E s w b \<and> w \<noteq> b)"
    and "p \<in> set po"
  shows "2 \<le> length us"
proof (rule ccontr)
  assume "\<not> 2 \<le> length us"
  then have "us = [p]" using assms(5) by (cases us rule: remdups_adj.cases) auto
  moreover have "set us = {u. (u, b) \<in> E \<and> u \<noteq> b}" using plist_preds [OF assms(2)] assms(4) by simp
  ultimately have p: "{u. (u, b) \<in> E \<and> u \<noteq> b} = {p}" by simp
  obtain u where u: "u \<in> set po" "(u, b) \<in> E" "idx b < idx u" using forward_pred [OF assms(2,3)] by blast
  then have "u = p" using p by auto
  moreover have "w \<in> anc ret p" using assms(1,6,8) by (simp add: dominator_map_def)
  ultimately have "w = p \<or> idx p < idx w" "idx b < idx p"
    using anc_up [of ret p w] assms(1,8) u(3) by (simp_all add: dominator_map_def)
  then have "w \<noteq> b" by auto
  moreover have "dominates E s w b" using dominated_by_preds [of w b b] assms(3,6) p unfolding dominates_def by fast
  ultimately show False using assms(7) by blast
qed

end

section \<open>The container provides the interface\<close>

definition al_start :: "('n, 'e) adjacency_list \<Rightarrow> al_vertex \<Rightarrow> bool" where
  "al_start g s \<longleftrightarrow> wf_al g \<and> s \<in> set (al_vertices g)"

definition al_postorder :: "('n, 'e) adjacency_list \<Rightarrow> al_vertex \<Rightarrow> al_vertex list" where
  "al_postorder g s = (if al_start g s then the (tree_collect (al_succs g) (new_tree_iter s Postorder)) else [s])"

lemma al_postorder_spec:
  assumes "al_start g s"
  shows "tree_collect (al_succs g) (new_tree_iter s Postorder) = Some (al_postorder g s)"
    and "set (al_postorder g s) = {v. (s, v) \<in> (ag_rel (abs_al g))\<^sup>*}" "al_postorder g s \<noteq> []" "last (al_postorder g s) = s"
    and "parents_later (al_succs g) s (al_postorder g s)" "distinct (filter (\<lambda>v. v \<noteq> s) (al_postorder g s))"
proof -
  have w: "wf_al g" "s \<in> set (al_vertices g)" using assms by (auto simp: al_start_def)
  obtain vs where vs: "tree_collect (al_succs g) (new_tree_iter s Postorder) = Some vs" "set vs = reach (al_succs g) s" "vs \<noteq> []"
      "last vs = s" "parents_later (al_succs g) s vs" "distinct (filter (\<lambda>v. v \<noteq> s) vs)"
    using al_search.postorder_traversal [of s g] w by auto
  then have "al_postorder g s = vs" using assms by (simp add: al_postorder_def)
  with vs w show "tree_collect (al_succs g) (new_tree_iter s Postorder) = Some (al_postorder g s)"
    and "set (al_postorder g s) = {v. (s, v) \<in> (ag_rel (abs_al g))\<^sup>*}" "al_postorder g s \<noteq> []" "last (al_postorder g s) = s"
    and "parents_later (al_succs g) s (al_postorder g s)" "distinct (filter (\<lambda>v. v \<noteq> s) (al_postorder g s))"
    by (simp_all add: reach_al)
qed

lemma dominated_by_start: "dominates E s s v"
proof -
  have "avoids E s s v \<Longrightarrow> False" by (induction rule: avoids.induct) auto
  then show ?thesis by (auto simp: dominates_def)
qed

lemma pred_list_set: "preds b = Some us \<Longrightarrow> \<exists>ps. pred_list preds b = Some ps \<and> set ps = set us - {b} \<and> sorted ps \<and> distinct ps"
  by (auto simp: pred_list_def distinct_remdups_adj_sorted)

lemma al_pred_list:
  assumes "wf_al g" "v \<in> set (al_vertices g)"
  shows "\<exists>ps. pred_list (al_preds g) v = Some ps \<and> set ps = {u. (u, v) \<in> ag_rel (abs_al g) \<and> u \<noteq> v} \<and> sorted ps \<and> distinct ps"
proof -
  obtain us where us: "al_preds g v = Some us" using al_search.preds_closed [of v g] assms by auto
  have "u \<in> set us \<longleftrightarrow> (u, v) \<in> ag_rel (abs_al g)" for u
    using al_search.pred_edge [of v g u] al_search.edge_pred [of u g v] us assms ag_rel_vertices [OF assms(1)]
    by (auto simp: al_edge_rel)
  then show ?thesis using pred_list_set [of "al_preds g" v us] us by auto
qed

interpretation al_tree: dominator_tree
  "if al_start g s then ag_rel (abs_al g) else {}" s "al_postorder g s"
  "if al_start g s then pred_list (al_preds g) else (\<lambda>_. Some [])" for g s
proof (cases "al_start g s")
  case True
  note po = al_postorder_spec [OF True]
  have w: "wf_al g" "s \<in> set (al_vertices g)" using True by (auto simp: al_start_def)
  show "dominator_tree (if al_start g s then ag_rel (abs_al g) else {}) s (al_postorder g s)
      (if al_start g s then pred_list (al_preds g) else (\<lambda>_. Some []))"
  proof
    fix as v bs assume "al_postorder g s = as @ v # bs" "v \<noteq> s"
    then show "\<exists>u \<in> set bs. (u, v) \<in> (if al_start g s then ag_rel (abs_al g) else {})"
      using parents_laterD [of "al_succs g" s as v bs] po(5) True w(1) by (simp add: al_edge_rel)
  next
    fix v assume "v \<in> set (al_postorder g s)"
    then have "v \<in> set (al_vertices g)" using po(2) w ag_rel_vertices [OF w(1)] by (auto elim: rtranclE)
    then show "\<exists>us. (if al_start g s then pred_list (al_preds g) else (\<lambda>_. Some [])) v = Some us \<and>
        set us = {u. (u, v) \<in> (if al_start g s then ag_rel (abs_al g) else {}) \<and> u \<noteq> v}"
      using al_pred_list [OF w(1)] True by auto
  qed (use po True in auto)
next
  case False
  then show "dominator_tree (if al_start g s then ag_rel (abs_al g) else {}) s (al_postorder g s)
      (if al_start g s then pred_list (al_preds g) else (\<lambda>_. Some []))"
    by unfold_locales (auto simp: al_postorder_def Cons_eq_append_conv)
qed

lemma immediate_dominator_idoms:
  assumes "wf_al g" "s \<in> set (al_vertices g)"
  shows "\<exists>idom. immediate_dominator (al_succs g) (al_preds g) s = Some idom \<and> dominator_map (ag_rel (abs_al g)) s (al_postorder g s) idom \<and>
    dom idom = {v. (s, v) \<in> (ag_rel (abs_al g))\<^sup>*}"
proof -
  have ok: "al_start g s" using assms by (simp add: al_start_def)
  show ?thesis
    using al_tree.idom_loop_dominators [of g s] al_postorder_spec(1,2) [OF ok] ok
    by (auto simp: immediate_dominator_def dominator_map_def)
qed

section \<open>Properties\<close>

text \<open>
  C29: \<^verbatim>\<open>immediate_dominator\<close> ends without panic and returns the dominator tree: exactly the reachable vertices have an
  entry, the start's is itself, and every other vertex is mapped to a vertex whose
  dominators are exactly the strict dominators of the vertex.
\<close>

theorem immediate_dominator_correct:
  assumes "wf_al g" "s \<in> set (al_vertices g)"
  shows "\<exists>idom. immediate_dominator (al_succs g) (al_preds g) s = Some idom \<and>
    dom idom = {v. (s, v) \<in> (ag_rel (abs_al g))\<^sup>*} \<and> idom s = Some s \<and>
    (\<forall>v \<in> dom idom - {s}. \<exists>x. idom v = Some x \<and>
       {d. dominates (ag_rel (abs_al g)) s d x} = {d. dominates (ag_rel (abs_al g)) s d v \<and> d \<noteq> v})"
proof -
  have ok: "al_start g s" using assms by (simp add: al_start_def)
  obtain idom where i: "immediate_dominator (al_succs g) (al_preds g) s = Some idom" "dominator_map (ag_rel (abs_al g)) s (al_postorder g s) idom"
      "dom idom = {v. (s, v) \<in> (ag_rel (abs_al g))\<^sup>*}"
    using immediate_dominator_idoms [OF assms] by blast
  have "idom s = Some s" "dom idom = set (al_postorder g s)" using i(2) by (auto simp: dominator_map_def parent_tree_def)
  moreover have "\<exists>x. idom v = Some x \<and>
      {d. dominates (ag_rel (abs_al g)) s d x} = {d. dominates (ag_rel (abs_al g)) s d v \<and> d \<noteq> v}"
    if "v \<in> set (al_postorder g s)" "v \<noteq> s" for v
    using al_tree.idoms_parent [of g s idom v] i(2) that ok by auto
  ultimately show ?thesis using i(1,3) by auto
qed

theorem immediate_dominator_correct_witness:
  "wf_al (fst (al_add_vertex al_new 7) :: (nat, nat) adjacency_list) \<and>
   (\<exists>idom. immediate_dominator (al_succs (fst (al_add_vertex al_new 7) :: (nat, nat) adjacency_list))
      (al_preds (fst (al_add_vertex al_new 7) :: (nat, nat) adjacency_list)) (AlVertex 0) = Some idom \<and>
      idom (AlVertex 0) = Some (AlVertex 0))"
proof -
  let ?g = "fst (al_add_vertex al_new 7) :: (nat, nat) adjacency_list"
  have "wf_al ?g" using al_singleton [of 7] by blast
  moreover have "AlVertex 0 \<in> set (al_vertices ?g)" by (simp add: al_vertices_def al_add_vertex_def al_new_def Let_def)
  ultimately show ?thesis using immediate_dominator_correct [of ?g "AlVertex 0"] by blast
qed

text \<open>
  The frontier the code computes.  For a block \<open>b\<close> other than the start this is the dominance frontier, where a loop of \<open>b\<close> to
  itself is not considered; the start is in a frontier only if two other vertices lead to it.
\<close>

definition frontier :: "('v \<times> 'v) set \<Rightarrow> 'v \<Rightarrow> 'v \<Rightarrow> 'v \<Rightarrow> bool" where
  "frontier E s w b \<longleftrightarrow>
     (\<exists>p. (p, b) \<in> E \<and> p \<noteq> b \<and> dominates E s w p) \<and> \<not> (dominates E s w b \<and> w \<noteq> b) \<and>
     (b = s \<longrightarrow> w \<noteq> s \<and> (\<exists>p q. (p, s) \<in> E \<and> (q, s) \<in> E \<and> p \<noteq> q \<and> p \<noteq> s \<and> q \<noteq> s))"

lemma two_elements: "distinct xs \<Longrightarrow> 2 \<le> length xs \<longleftrightarrow> (\<exists>p \<in> set xs. \<exists>q \<in> set xs. p \<noteq> q)"
proof (cases xs)
  case (Cons x ys)
  assume "distinct xs"
  then show ?thesis using Cons by (cases ys) auto
qed simp

lemma dominance_frontiers_spec:
  assumes "wf_al g" "s \<in> set (al_vertices g)" "set (al_vertices g) \<subseteq> {v. (s, v) \<in> (ag_rel (abs_al g))\<^sup>*}"
  shows "\<exists>idom df. immediate_dominator (al_succs g) (al_preds g) s = Some idom \<and>
    dominator_map (ag_rel (abs_al g)) s (al_postorder g s) idom \<and> dom idom = {v. (s, v) \<in> (ag_rel (abs_al g))\<^sup>*} \<and>
    dominance_frontiers idom (al_vertices g) (al_preds g) = Some df \<and> dom df = set (al_vertices g) \<and>
    (\<forall>w \<in> set (al_vertices g). sorted (the (df w)) \<and> distinct (the (df w))) \<and>
    (\<forall>w \<in> set (al_vertices g). \<forall>b. b \<in> set (the (df w)) \<longleftrightarrow> frontier (ag_rel (abs_al g)) s w b)"
proof -
  have ok: "al_start g s" using assms by (simp add: al_start_def)
  let ?E = "ag_rel (abs_al g)"
  obtain idom where i: "immediate_dominator (al_succs g) (al_preds g) s = Some idom"
      "dominator_map ?E s (al_postorder g s) idom" "dom idom = {v. (s, v) \<in> ?E\<^sup>*}"
    using immediate_dominator_idoms [OF assms(1,2)] by blast
  have po: "set (al_postorder g s) = set (al_vertices g)"
    using al_postorder_spec(2) [OF ok] assms ag_rel_vertices [OF assms(1)] by (auto elim: rtranclE)
  define init where "init = (\<lambda>v. if v \<in> set (al_vertices g) then Some [] else None :: al_vertex list option)"
  have init: "dom init = set (al_vertices g)" "\<And>x. x \<in> set (al_vertices g) \<Longrightarrow> init x = Some []"
    by (auto simp: init_def split: if_splits)
  note sp = al_tree.df_vertices_spec [of g s idom "al_vertices g" init, unfolded if_P [OF ok] po init(1)]
  obtain df where df0: "df_vertices idom (pred_list (al_preds g)) (al_vertices g) init = Some df \<and> dom df = set (al_vertices g) \<and>
      (\<forall>x b. b \<in> set (the (df x)) \<longleftrightarrow> b \<in> set (the (init x)) \<or>
         (b \<in> set (al_vertices g) \<and> length (the (pred_list (al_preds g) b)) \<ge> 2 \<and>
          (\<exists>p \<in> set (the (pred_list (al_preds g) b)). dominates ?E s x p \<and> \<not> dominates ?E s x (the (idom b)))))"
  proof -
    have "?E \<subseteq> set (al_vertices g) \<times> UNIV" using ag_rel_vertices [OF assms(1)] by auto
    from sp [OF i(2) subset_refl subset_refl this] show thesis by (rule exE) (rule that)
  qed
  then have df: "df_vertices idom (pred_list (al_preds g)) (al_vertices g) init = Some df" "dom df = set (al_vertices g)"
      "\<And>x b. x \<in> set (al_vertices g) \<Longrightarrow> b \<in> set (the (df x)) \<longleftrightarrow>
         b \<in> set (al_vertices g) \<and> length (the (pred_list (al_preds g) b)) \<ge> 2 \<and>
          (\<exists>p \<in> set (the (pred_list (al_preds g) b)). dominates ?E s x p \<and> \<not> dominates ?E s x (the (idom b)))"
    using init(2) by simp_all
  let ?df = "\<lambda>v. map_option (\<lambda>l. remdups_adj (sort l)) (df v)"
  have sets: "set (the (?df w)) = set (the (df w))" "sorted (the (?df w)) \<and> distinct (the (?df w))" if "w \<in> set (al_vertices g)" for w
  proof -
    have "w \<in> dom df" unfolding df(2) using that .
    then obtain l where "df w = Some l" by (meson domD)
    then show "set (the (?df w)) = set (the (df w))" "sorted (the (?df w)) \<and> distinct (the (?df w))" by (simp_all add: distinct_remdups_adj_sorted)
  qed
  have inner: "b \<in> set (the (?df w)) \<longleftrightarrow> frontier ?E s w b" if w: "w \<in> set (al_vertices g)" and bs: "b \<noteq> s" for w b
  proof (cases "b \<in> set (al_vertices g)")
    case True
    obtain ps where ps: "pred_list (al_preds g) b = Some ps" "set ps = {u. (u, b) \<in> ?E \<and> u \<noteq> b}" using al_pred_list [OF assms(1) True] by blast
    obtain x where "idom b = Some x" "x \<noteq> b" "\<not> dominates ?E s b x" "{d. dominates ?E s d b} = insert b {d. dominates ?E s d x}"
      using al_tree.idoms_parent [of g s idom b] i(2) bs True po ok by auto
    then have x: "dominates ?E s w (the (idom b)) \<longleftrightarrow> dominates ?E s w b \<and> w \<noteq> b" by auto
    have "2 \<le> length ps" if "p \<in> set ps" "dominates ?E s w p" "\<not> (dominates ?E s w b \<and> w \<noteq> b)" for p
      using al_tree.single_pred [of g s idom b ps p w] i(2) that bs True po ok ps ag_rel_vertices [OF assms(1)] by auto
    then show ?thesis using df(3) [OF w, of b] sets(1) [OF w] True ps x bs by (auto simp: frontier_def)
  next
    case False
    then show ?thesis using df(3) [OF w, of b] sets(1) [OF w] ag_rel_vertices [OF assms(1)] bs unfolding frontier_def by blast
  qed
  have entry: "s \<in> set (the (?df w)) \<longleftrightarrow> frontier ?E s w s" if w: "w \<in> set (al_vertices g)" for w
  proof -
    obtain ps where ps: "pred_list (al_preds g) s = Some ps" "set ps = {u. (u, s) \<in> ?E \<and> u \<noteq> s}" "distinct ps"
      using al_pred_list [OF assms(1,2)] by blast
    have "idom s = Some s" using i(2) by (simp add: dominator_map_def parent_tree_def)
    moreover have "dominates ?E s w s \<longleftrightarrow> w = s" using dominated_by_start [of ?E s s] avoids_start [of s w ?E] by (auto simp: dominates_def)
    moreover have "2 \<le> length ps \<longleftrightarrow> (\<exists>p q. (p, s) \<in> ?E \<and> (q, s) \<in> ?E \<and> p \<noteq> q \<and> p \<noteq> s \<and> q \<noteq> s)"
      using two_elements [OF ps(3)] ps(2) by blast
    ultimately show ?thesis using df(3) [OF w, of s] sets(1) [OF w] assms(2) ps by (auto simp: frontier_def)
  qed
  have "b \<in> set (the (?df w)) \<longleftrightarrow> frontier ?E s w b" if "w \<in> set (al_vertices g)" for w b
    using inner [OF that, of b] entry [OF that] by (cases "b = s") auto
  moreover have "dominance_frontiers idom (al_vertices g) (al_preds g) = Some ?df" using df(1) by (simp add: dominance_frontiers_def init_def)
  moreover have "dom ?df = set (al_vertices g)" unfolding df(2) [symmetric] by auto
  ultimately show ?thesis using i sets(2) by (intro exI [of _ idom] exI [of _ ?df]) blast
qed

text \<open>
  C30: If every vertex is reachable, \<^verbatim>\<open>dominance_frontiers\<close> does not panic and lists for every vertex \<open>w\<close>, sorted and without
  duplicates, the vertices in its frontier: those \<open>b\<close> with a predecessor other than \<open>b\<close> that \<open>w\<close> dominates, while \<open>w\<close> does not strictly
  dominate \<open>b\<close>; the start is listed only if two other vertices lead to it, and never in its own frontier.
\<close>

theorem dominance_frontiers_correct:
  assumes "wf_al g" "s \<in> set (al_vertices g)" "set (al_vertices g) \<subseteq> {v. (s, v) \<in> (ag_rel (abs_al g))\<^sup>*}"
  shows "\<exists>idom df. immediate_dominator (al_succs g) (al_preds g) s = Some idom \<and>
    dominance_frontiers idom (al_vertices g) (al_preds g) = Some df \<and> dom df = set (al_vertices g) \<and>
    (\<forall>w \<in> set (al_vertices g). sorted (the (df w)) \<and> distinct (the (df w))) \<and>
    (\<forall>w \<in> set (al_vertices g). \<forall>b. b \<in> set (the (df w)) \<longleftrightarrow> frontier (ag_rel (abs_al g)) s w b)"
  using dominance_frontiers_spec [OF assms] by blast

theorem dominance_frontiers_correct_witness:
  "wf_al (fst (al_add_vertex al_new 7) :: (nat, nat) adjacency_list) \<and>
   (\<exists>idom df. dominance_frontiers idom (al_vertices (fst (al_add_vertex al_new 7) :: (nat, nat) adjacency_list))
      (al_preds (fst (al_add_vertex al_new 7) :: (nat, nat) adjacency_list)) = Some df \<and> AlVertex 0 \<notin> set (the (df (AlVertex 0))))"
proof -
  let ?g = "fst (al_add_vertex al_new 7) :: (nat, nat) adjacency_list"
  have "wf_al ?g" using al_singleton [of 7] by blast
  moreover have "al_vertices ?g = [AlVertex 0]" by (simp add: al_vertices_def al_add_vertex_def al_new_def Let_def)
  ultimately show ?thesis using dominance_frontiers_correct [of ?g "AlVertex 0"] by (auto simp: frontier_def)
qed

text \<open>
  Otherwise it may panic: if a vertex has two predecessors other than itself and one of them is not in the dominator map,
  and not the value of the map, the walk from that predecessor indexes the map with a missing key.
\<close>

lemma dominance_frontiers_unreachable:
  assumes "b \<in> set verts" "pred_list preds b = Some ps" "2 \<le> length ps" "p \<in> set ps" "idom p = None" "idom b \<noteq> Some p"
  shows "dominance_frontiers idom verts preds = None"
proof -
  have runner: "df_runner idom b p ret = None" for ret
    using assms(5,6) by (subst df_runner.simps) (auto split: Option.bind_splits)
  have "p \<in> set qs \<Longrightarrow> df_preds idom b qs ret = None" for qs ret
    by (induction qs arbitrary: ret) (auto simp: runner split: Option.bind_splits)
  then have preds: "df_preds idom b ps ret = None" for ret using assms(4) by blast
  have "b \<in> set vs \<Longrightarrow> df_vertices idom (pred_list preds) vs ret = None" for vs ret
    by (induction vs arbitrary: ret) (use assms(2,3) preds in \<open>auto split: Option.bind_splits\<close>)
  then show ?thesis using assms(1) by (simp add: dominance_frontiers_def)
qed

end
