(* ===== verification/Ssa.thy ===== *)
theory Ssa
  imports Liveness Idom
begin

text \<open>
  Conversion to static single assignment form, from \<^verbatim>\<open>data-flow/src/ssa.rs\<close>.

  The errors of the module are a data type, a panic is \<open>None\<close>; an error leaves the changes made before it
  in the function.  The iteration order of hash tables is a parameter: \<open>sorder\<close> lists a
  set of names, \<open>vorder\<close> the keys of the map of dominators, and \<open>pick\<close> takes an element of a
  work list.  A stack of subscripts is a list whose head is the top.
\<close>

datatype ssa_error = NoArguments | NotReachable | NoLength string | IncompleteFrontier | PhiOutsideMnemonic

fun try_fold :: "('a \<Rightarrow> 's \<Rightarrow> 'e + 's) \<Rightarrow> 'a list \<Rightarrow> 's \<Rightarrow> 'e + 's" where
  "try_fold f [] s = Inr s"
| "try_fold f (x # xs) s = (case f x s of Inl e \<Rightarrow> Inl e | Inr s' \<Rightarrow> try_fold f xs s')"

section \<open>Sizes of variables\<close>

type_synonym var_lens = "string \<rightharpoonup> nat"

fun set_len :: "rvalue \<Rightarrow> var_lens \<Rightarrow> var_lens" where
  "set_len (RvVariable name _ _ sz) ret = ret(name \<mapsto> max (case ret name of None \<Rightarrow> 0 | Some n \<Rightarrow> n) sz)"
| "set_len _ ret = ret"

definition check_statement :: "statement \<Rightarrow> var_lens \<Rightarrow> ssa_error + var_lens" where
  "check_statement instr ret =
     (if operands (st_op instr) = [] then Inl NoArguments
      else Inr (set_len (rvalue_of_lvalue (assignee instr)) (fold set_len (operands (st_op instr)) ret)))"

definition check_mnemonic :: "mnemonic \<Rightarrow> var_lens \<Rightarrow> ssa_error + var_lens" where
  "check_mnemonic mne ret = try_fold check_statement (m_instructions mne) (fold set_len (m_operands mne) ret)"

definition check_vertex :: "cf_graph \<Rightarrow> al_vertex \<Rightarrow> var_lens \<Rightarrow> ssa_error + var_lens" where
  "check_vertex g vx ret =
     (case al_vertex_label g vx of Some (Resolved bb) \<Rightarrow> try_fold check_mnemonic (bb_mnemonics bb) ret | _ \<Rightarrow> Inr ret)"

definition check_edge :: "cf_graph \<Rightarrow> al_edge \<Rightarrow> var_lens \<Rightarrow> var_lens" where
  "check_edge g ed ret = (case al_edge_label g ed of Some (GPredicate flag _) \<Rightarrow> set_len flag ret | _ \<Rightarrow> ret)"

definition type_check :: "'u func \<Rightarrow> ssa_error + var_lens" where
  "type_check func =
     (let g = f_cflow_graph func in
      case try_fold (check_vertex g) (al_vertices g) Map.empty of
        Inl e \<Rightarrow> Inl e
      | Inr ret \<Rightarrow> Inr (fold (check_edge g) (al_edges g) ret))"

section \<open>Global names\<close>

definition global_names :: "'u func \<Rightarrow> (string set \<times> (string \<rightharpoonup> al_vertex set)) option" where
  "global_names func =
     (case liveness_sets func of
        None \<Rightarrow> None
      | Some (varkill, uevar) \<Rightarrow>
          (let vs = al_vertices (f_cflow_graph func) in
           Some (\<Union> (set (map (entry_or_empty uevar) vs)),
                 \<lambda>x. let us = set (filter (\<lambda>vx. x \<in> entry_or_empty varkill vx) vs) in if us = {} then None else Some us)))"

section \<open>Phi functions\<close>

fun init_statements :: "var_lens \<Rightarrow> string list \<Rightarrow> ssa_error + statement list" where
  "init_statements lens [] = Inr []"
| "init_statements lens (nam # ns) =
     (case lens nam of
        None \<Rightarrow> Inl (NoLength nam)
      | Some len \<Rightarrow>
          map_sum id (Cons \<lparr>assignee = LvVariable nam None len, st_op = Move RvUndefined\<rparr>) (init_statements lens ns))"

definition insert_mnemonic :: "mnemonic \<Rightarrow> cf_target \<Rightarrow> cf_target" where
  "insert_mnemonic mne t =
     (case t of Resolved bb \<Rightarrow> Resolved (bb\<lparr>bb_mnemonics := mne # bb_mnemonics bb\<rparr>) | _ \<Rightarrow> t)"

definition phi_statement :: "string \<Rightarrow> nat \<Rightarrow> nat \<Rightarrow> statement" where
  "phi_statement v len arg_num =
     \<lparr>assignee = LvVariable v None len, st_op = Phi (replicate arg_num (RvVariable v None 0 len))\<rparr>"

record phi_state =
  ps_graph :: cf_graph
  ps_phis :: "(string \<times> al_vertex) set"
  ps_worklist :: "al_vertex set"

text \<open>\<^verbatim>\<open>arg_num\<close> counts the incoming edges for which \<^verbatim>\<open>usage.get(v)\<close> is present.\<close>

definition place_phi ::
  "var_lens \<Rightarrow> (string \<rightharpoonup> al_vertex set) \<Rightarrow> string \<Rightarrow> al_vertex \<Rightarrow> phi_state \<Rightarrow> (ssa_error option \<times> phi_state) option" where
  "place_phi lens usage v d s =
     (case al_in_edges (ps_graph s) d of
        None \<Rightarrow> None
      | Some es \<Rightarrow>
          (let arg_num = (if usage v = None then 0 else length es) in
           case al_vertex_label (ps_graph s) d of
             Some (Resolved bb) \<Rightarrow>
               (if (v, d) \<notin> ps_phis s then
                  (case lens v of
                     None \<Rightarrow> Some (Some (NoLength v), s)
                   | Some len \<Rightarrow>
                       (case new_mnemonic (b_start (bb_area bb), b_start (bb_area bb)) ''__phi'' '''' [] [phi_statement v len arg_num] of
                          Inl _ \<Rightarrow> None
                        | Inr mne \<Rightarrow>
                            Some (None, \<lparr>ps_graph = al_set_vertex_label (ps_graph s) d (insert_mnemonic mne),
                                         ps_phis = insert (v, d) (ps_phis s), ps_worklist = insert d (ps_worklist s)\<rparr>)))
                else Some (None, s))
           | _ \<Rightarrow> Some (None, s)))"

fun place_phis ::
  "var_lens \<Rightarrow> (string \<rightharpoonup> al_vertex set) \<Rightarrow> string \<Rightarrow> al_vertex list \<Rightarrow> phi_state \<Rightarrow> (ssa_error option \<times> phi_state) option" where
  "place_phis lens usage v [] s = Some (None, s)"
| "place_phis lens usage v (d # ds) s =
     (case place_phi lens usage v d s of
        None \<Rightarrow> None
      | Some (Some e, s') \<Rightarrow> Some (Some e, s')
      | Some (None, s') \<Rightarrow> place_phis lens usage v ds s')"

partial_function (option) phi_worklist ::
  "(al_vertex set \<Rightarrow> al_vertex) \<Rightarrow> var_lens \<Rightarrow> (string \<rightharpoonup> al_vertex set) \<Rightarrow> (al_vertex \<rightharpoonup> al_vertex list) \<Rightarrow> string \<Rightarrow>
   phi_state \<Rightarrow> (ssa_error option \<times> phi_state) option" where
  "phi_worklist pick lens usage df v s =
     (if ps_worklist s = {} then Some (None, s)
      else
        (case df (pick (ps_worklist s)) of
           None \<Rightarrow> Some (Some IncompleteFrontier, s)
         | Some frontiers \<Rightarrow>
             (case place_phis lens usage v frontiers (s\<lparr>ps_worklist := ps_worklist s - {pick (ps_worklist s)}\<rparr>) of
                None \<Rightarrow> None
              | Some r \<Rightarrow> (if fst r = None then phi_worklist pick lens usage df v (snd r) else Some r))))"

fun phi_names ::
  "(al_vertex set \<Rightarrow> al_vertex) \<Rightarrow> var_lens \<Rightarrow> (string \<rightharpoonup> al_vertex set) \<Rightarrow> (al_vertex \<rightharpoonup> al_vertex list) \<Rightarrow> string list \<Rightarrow>
   phi_state \<Rightarrow> (ssa_error option \<times> phi_state) option" where
  "phi_names pick lens usage df [] s = Some (None, s)"
| "phi_names pick lens usage df (v # vs) s =
     (case phi_worklist pick lens usage df v (s\<lparr>ps_worklist := (case usage v of None \<Rightarrow> {} | Some wl \<Rightarrow> wl)\<rparr>) of
        None \<Rightarrow> None
      | Some (Some e, s') \<Rightarrow> Some (Some e, s')
      | Some (None, s') \<Rightarrow> phi_names pick lens usage df vs s')"

definition all_reachable :: "cf_graph \<Rightarrow> (al_vertex \<rightharpoonup> al_vertex) \<Rightarrow> bool" where
  "all_reachable g idom \<longleftrightarrow> length (filter (\<lambda>v. idom v \<noteq> None) (al_vertices g)) = al_num_vertices g"

text \<open>The part after the initialisation of the variables, on the graph.\<close>

definition phi_graph ::
  "(string set \<Rightarrow> string list) \<Rightarrow> (al_vertex set \<Rightarrow> al_vertex) \<Rightarrow> var_lens \<Rightarrow> string set \<Rightarrow> (string \<rightharpoonup> al_vertex set) \<Rightarrow> al_vertex \<Rightarrow>
   cf_graph \<Rightarrow> (ssa_error option \<times> cf_graph) option" where
  "phi_graph sorder pick lens globals usage entry g =
     do { idom \<leftarrow> immediate_dominator (al_succs g) (al_preds g) entry;
          if all_reachable g idom then
            do { df \<leftarrow> dominance_frontiers idom (al_vertices g) (al_preds g);
                 (e, s) \<leftarrow> phi_names pick lens usage df (sorder globals) \<lparr>ps_graph = g, ps_phis = {}, ps_worklist = {}\<rparr>;
                 Some (e, ps_graph s) }
          else Some (Some NotReachable, g) }"

definition phi_functions ::
  "(string set \<Rightarrow> string list) \<Rightarrow> (al_vertex set \<Rightarrow> al_vertex) \<Rightarrow> 'u func \<Rightarrow> (ssa_error option \<times> 'u func) option" where
  "phi_functions sorder pick func =
     (case type_check func of
        Inl e \<Rightarrow> Some (Some e, func)
      | Inr lens \<Rightarrow>
          do { (globals, usage) \<leftarrow> global_names func;
               bb \<leftarrow> entry_point func;
               case init_statements lens (sorder globals) of
                 Inl e \<Rightarrow> Some (Some e, func)
               | Inr instrs \<Rightarrow>
                   (case new_mnemonic (b_start (bb_area bb), b_start (bb_area bb)) ''__init'' '''' [] instrs of
                      Inl _ \<Rightarrow> None
                    | Inr mne \<Rightarrow>
                        do { (e, g) \<leftarrow> phi_graph sorder pick lens globals usage (f_entry_point func)
                               (al_set_vertex_label (f_cflow_graph func) (f_entry_point func) (insert_mnemonic mne));
                             Some (e, func\<lparr>f_cflow_graph := g\<rparr>) }) })"

section \<open>Renaming\<close>

record names =
  nm_counter :: "string \<rightharpoonup> nat"
  nm_stack :: "string \<rightharpoonup> nat list"

definition new_name :: "string \<Rightarrow> names \<Rightarrow> nat \<times> names" where
  "new_name n st =
     (let i = (case nm_counter st n of None \<Rightarrow> 0 | Some i \<Rightarrow> i) in
      (i, \<lparr>nm_counter = (nm_counter st)(n \<mapsto> i + 1),
           nm_stack = (nm_stack st)(n \<mapsto> i # (case nm_stack st n of None \<Rightarrow> [] | Some l \<Rightarrow> l))\<rparr>))"

fun name_assignee :: "lvalue \<Rightarrow> names \<Rightarrow> lvalue \<times> names" where
  "name_assignee (LvVariable n _ sz) st = (case new_name n st of (i, st') \<Rightarrow> (LvVariable n (Some i) sz, st'))"
| "name_assignee LvUndefined st = (LvUndefined, st)"

definition name_phi :: "statement \<Rightarrow> names \<Rightarrow> statement \<times> names" where
  "name_phi i st =
     (if is_phi (st_op i) then (case name_assignee (assignee i) st of (a, st') \<Rightarrow> (i\<lparr>assignee := a\<rparr>, st'))
      else (i, st))"

text \<open>The operands of a mnemonic; a name without stack has no subscript.\<close>

fun subscript_operand :: "names \<Rightarrow> rvalue \<Rightarrow> rvalue" where
  "subscript_operand st (RvVariable n _ off sz) =
     RvVariable n (case nm_stack st n of None \<Rightarrow> None | Some l \<Rightarrow> head_option l) off sz"
| "subscript_operand st rv = rv"

text \<open>\<^verbatim>\<open>stack[name].last()\<close>, where a missing name panics.\<close>

fun subscript_use :: "names \<Rightarrow> rvalue \<Rightarrow> rvalue option" where
  "subscript_use st (RvVariable n _ off sz) = map_option (\<lambda>l. RvVariable n (head_option l) off sz) (nm_stack st n)"
| "subscript_use st rv = Some rv"

text \<open>The flag tells that a Phi function was met, the rest stays as it was.\<close>

fun rename_statements :: "statement list \<Rightarrow> names \<Rightarrow> (bool \<times> statement list \<times> names) option" where
  "rename_statements [] st = Some (False, [], st)"
| "rename_statements (i # is) st =
     (if is_phi (st_op i) then Some (True, i # is, st)
      else
        do { args \<leftarrow> those (map (subscript_use st) (operands (st_op i)));
             op' \<leftarrow> lift_with (st_op i) args;
             let (a', st') = name_assignee (assignee i) st;
             (e, is', st'') \<leftarrow> rename_statements is st';
             Some (e, \<lparr>assignee = a', st_op = op'\<rparr> # is', st'') })"

fun rename_mnemonics :: "mnemonic list \<Rightarrow> names \<Rightarrow> (bool \<times> mnemonic list \<times> names) option" where
  "rename_mnemonics [] st = Some (False, [], st)"
| "rename_mnemonics (mne # ms) st =
     (if m_opcode mne \<noteq> ''__phi'' then
        do { (e, is', st') \<leftarrow> rename_statements (m_instructions mne) st;
             let mne' = mne\<lparr>m_operands := map (subscript_operand st) (m_operands mne), m_instructions := is'\<rparr>;
             if e then Some (True, mne' # ms, st')
             else do { (e', ms', st'') \<leftarrow> rename_mnemonics ms st'; Some (e', mne' # ms', st'') } }
      else do { (e', ms', st'') \<leftarrow> rename_mnemonics ms st; Some (e', mne # ms', st'') })"

definition rename_label :: "cf_target option \<Rightarrow> names \<Rightarrow> (bool \<times> cf_target option \<times> names) option" where
  "rename_label lb st =
     (case lb of
        Some (Resolved bb) \<Rightarrow>
          (case bb_rewrite bb name_phi st of
             (bb1, st1) \<Rightarrow>
               do { (e, ms, st2) \<leftarrow> rename_mnemonics (bb_mnemonics bb1) st1;
                    Some (e, Some (Resolved (bb1\<lparr>bb_mnemonics := ms\<rparr>)), st2) })
      | _ \<Rightarrow> Some (False, lb, st))"

text \<open>The first operand of a Phi function without a subscript gets the current one.\<close>

fun fill_operands :: "names \<Rightarrow> rvalue list \<Rightarrow> rvalue list option" where
  "fill_operands st [] = Some []"
| "fill_operands st (RvVariable n None off sz # os) =
     map_option (\<lambda>l. RvVariable n (head_option l) off sz # os) (nm_stack st n)"
| "fill_operands st (o1 # os) = map_option (Cons o1) (fill_operands st os)"

definition fill_phi :: "names \<Rightarrow> statement \<Rightarrow> bool \<Rightarrow> statement \<times> bool" where
  "fill_phi st i ok =
     (case st_op i of
        Phi ops \<Rightarrow> (case fill_operands st ops of None \<Rightarrow> (i, False) | Some ops' \<Rightarrow> (i\<lparr>st_op := Phi ops'\<rparr>, ok))
      | _ \<Rightarrow> (i, ok))"

definition fill_target :: "names \<Rightarrow> cf_target \<Rightarrow> cf_target option" where
  "fill_target st t =
     (case t of
        Resolved bb \<Rightarrow> (case bb_rewrite bb (fill_phi st) True of (bb', ok) \<Rightarrow> if ok then Some (Resolved bb') else None)
      | Unresolved rv \<Rightarrow> map_option Unresolved (subscript_use st rv)
      | Failed a msg \<Rightarrow> Some (Failed a msg))"

fun subscript_guard :: "names \<Rightarrow> guard \<Rightarrow> guard option" where
  "subscript_guard st (GPredicate flag ex) = map_option (\<lambda>f. GPredicate f ex) (subscript_use st flag)"
| "subscript_guard st gu = Some gu"

fun rename_edges :: "names \<Rightarrow> al_edge list \<Rightarrow> cf_graph \<Rightarrow> cf_graph option" where
  "rename_edges st [] g = Some g"
| "rename_edges st (s # ss) g =
     do { g1 \<leftarrow> (case al_edge_label g s of
                   None \<Rightarrow> Some g
                 | Some gu \<Rightarrow> do { gu' \<leftarrow> subscript_guard st gu; Some (al_set_edge_label g s (\<lambda>_. gu')) });
          v \<leftarrow> al_target g1 s;
          g2 \<leftarrow> (case al_vertex_label g1 v of
                   None \<Rightarrow> Some g1
                 | Some t \<Rightarrow> do { t' \<leftarrow> fill_target st t; Some (al_set_vertex_label g1 v (\<lambda>_. t')) });
          rename_edges st ss g2 }"

fun pop_assignee :: "statement \<Rightarrow> names \<Rightarrow> names" where
  "pop_assignee i st =
     (case assignee i of
        LvVariable n _ _ \<Rightarrow> st\<lparr>nm_stack := (case nm_stack st n of None \<Rightarrow> nm_stack st | Some l \<Rightarrow> (nm_stack st)(n \<mapsto> tl l))\<rparr>
      | LvUndefined \<Rightarrow> st)"

definition pop_names :: "cf_target option \<Rightarrow> names \<Rightarrow> names" where
  "pop_names lb st = (case lb of Some (Resolved bb) \<Rightarrow> bb_execute bb pop_assignee st | _ \<Rightarrow> st)"

text \<open>\<open>keys\<close> are the vertices in the order in which the map of dominators is iterated.\<close>

fun rename and rename_children where
  "rename idom keys 0 b st g = None"
| "rename idom keys (Suc fuel) b st g =
     do { (e, lb, st1) \<leftarrow> rename_label (al_vertex_label g b) st;
          let g1 = (case lb of None \<Rightarrow> g | Some t \<Rightarrow> al_set_vertex_label g b (\<lambda>_. t));
          if e then Some (Some PhiOutsideMnemonic, st1, g1)
          else
            do { es \<leftarrow> al_out_edges g1 b;
                 g2 \<leftarrow> rename_edges st1 (sort_key al_edge_id es) g1;
                 (e2, st2, g3) \<leftarrow> rename_children idom keys fuel (filter (\<lambda>k. idom k = Some b \<and> k \<noteq> b) keys) st1 g2;
                 Some (e2, if e2 = None then pop_names (al_vertex_label g3 b) st2 else st2, g3) } }"
| "rename_children idom keys fuel [] st g = Some (None :: ssa_error option, st, g)"
| "rename_children idom keys fuel (k # ks) st g =
     do { (e, st1, g1) \<leftarrow> rename idom keys fuel k st g;
          if e = None then rename_children idom keys fuel ks st1 g1 else Some (e, st1, g1) }"

definition rename_variables :: "(al_vertex set \<Rightarrow> al_vertex list) \<Rightarrow> 'u func \<Rightarrow> (ssa_error option \<times> 'u func) option" where
  "rename_variables vorder func =
     do { (globals, _) \<leftarrow> global_names func;
          let g = f_cflow_graph func;
          idom \<leftarrow> immediate_dominator (al_succs g) (al_preds g) (f_entry_point func);
          if all_reachable g idom then
            do { (e, _, g') \<leftarrow> rename idom (vorder (set (filter (\<lambda>v. idom v \<noteq> None) (al_vertices g)))) (Suc (al_num_vertices g)) (f_entry_point func)
                   \<lparr>nm_counter = Map.empty, nm_stack = (\<lambda>n. if n \<in> globals then Some [] else None)\<rparr> g;
                 Some (e, func\<lparr>f_cflow_graph := g'\<rparr>) }
          else Some (Some NotReachable, func) }"

definition ssa_convertion ::
  "(string set \<Rightarrow> string list) \<Rightarrow> (al_vertex set \<Rightarrow> al_vertex) \<Rightarrow> (al_vertex set \<Rightarrow> al_vertex list) \<Rightarrow> 'u func \<Rightarrow>
   (ssa_error option \<times> 'u func) option" where
  "ssa_convertion sorder pick vorder func =
     do { (e, func1) \<leftarrow> phi_functions sorder pick func;
          if e = None then rename_variables vorder func1 else Some (e, func1) }"

section \<open>Operations behind the guards\<close>

fun is_comparison :: "rvalue operation \<Rightarrow> bool" where
  "is_comparison (Equal _ _) \<longleftrightarrow> True"
| "is_comparison (LessOrEqualUnsigned _ _) \<longleftrightarrow> True"
| "is_comparison (LessOrEqualSigned _ _) \<longleftrightarrow> True"
| "is_comparison (LessUnsigned _ _) \<longleftrightarrow> True"
| "is_comparison (LessSigned _ _) \<longleftrightarrow> True"
| "is_comparison _ \<longleftrightarrow> False"

definition flag_statement :: "rvalue \<Rightarrow> statement \<Rightarrow> rvalue operation option \<Rightarrow> rvalue operation option" where
  "flag_statement flag s maybe_stmt =
     (if rvalue_of_lvalue (assignee s) = flag \<and> is_comparison (st_op s) then Some (st_op s) else maybe_stmt)"

definition flag_operation :: "cf_graph \<Rightarrow> al_edge \<Rightarrow> rvalue operation option option" where
  "flag_operation g e =
     (case al_edge_label g e of
        Some (GPredicate flag _) \<Rightarrow>
          do { v \<leftarrow> al_source g e;
               Some (case al_vertex_label g v of Some (Resolved bb) \<Rightarrow> bb_execute bb (flag_statement flag) None | _ \<Rightarrow> None) }
      | _ \<Rightarrow> Some None)"

fun flag_edges :: "cf_graph \<Rightarrow> al_edge list \<Rightarrow> (al_edge \<rightharpoonup> rvalue operation) \<Rightarrow> (al_edge \<rightharpoonup> rvalue operation) option" where
  "flag_edges g [] ret = Some ret"
| "flag_edges g (e # es) ret =
     (if ret e = None then
        do { r \<leftarrow> flag_operation g e; flag_edges g es (case r of None \<Rightarrow> ret | Some op' \<Rightarrow> ret(e \<mapsto> op')) }
      else flag_edges g es ret)"

definition flag_operations :: "'u func \<Rightarrow> (al_edge \<rightharpoonup> rvalue operation) option" where
  "flag_operations func = flag_edges (f_cflow_graph func) (al_edges (f_cflow_graph func)) Map.empty"

end
