(* ===== verification/Wto.thy ===== *)
theory Wto
  imports Search "HOL-Library.Extended_Nat" "HOL-Library.Monad_Syntax"
begin

text \<open>
  The weak topological order of graph-algos/src/order.rs, after Bourdoncle.

  \<open>dfn\<close> is the table of numbers, in which \<^verbatim>\<open>usize::MAX\<close> is \<open>\<infinity>\<close>: the counter is not exhausted.  The recursion of \<^verbatim>\<open>visit\<close> and
  \<^verbatim>\<open>component\<close> carries fuel; a stack is a list whose head is the top.
\<close>

datatype 'v hierarchy = HComponent "'v hierarchy list" | HElement 'v

record 'v wto_state =
  wt_stack :: "'v list"
  wt_dfn :: "'v \<rightharpoonup> enat"
  wt_num :: nat

definition wto_push :: "'v \<Rightarrow> 'v wto_state \<Rightarrow> 'v wto_state" where
  "wto_push vx st =
     \<lparr>wt_stack = vx # wt_stack st, wt_dfn = (wt_dfn st)(vx \<mapsto> enat (wt_num st + 1)), wt_num = wt_num st + 1\<rparr>"

text \<open>The loop that takes the elements of a component from the stack, up to its head.\<close>

fun unwind :: "'v \<Rightarrow> 'v list \<Rightarrow> ('v \<rightharpoonup> enat) \<Rightarrow> ('v list \<times> ('v \<rightharpoonup> enat)) option" where
  "unwind vx [] dfn = None"
| "unwind vx (element # stack) dfn = (if element = vx then Some (stack, dfn) else unwind vx stack (dfn(element \<mapsto> 0)))"

text \<open>\<open>visit\<close> is the recursive call: it returns the number of the head, the order and the state.\<close>

type_synonym 'v visitor = "'v \<Rightarrow> 'v hierarchy list \<Rightarrow> 'v wto_state \<Rightarrow> (enat \<times> 'v hierarchy list \<times> 'v wto_state) option"

fun wto_succs :: "'v visitor \<Rightarrow> 'v list \<Rightarrow> enat \<Rightarrow> bool \<Rightarrow> 'v hierarchy list \<Rightarrow> 'v wto_state \<Rightarrow>
   (enat \<times> bool \<times> 'v hierarchy list \<times> 'v wto_state) option" where
  "wto_succs visit [] head lp ret st = Some (head, lp, ret, st)"
| "wto_succs visit (succ # ws) head lp ret st =
     do { d \<leftarrow> wt_dfn st succ;
          (m, ret1, st1) \<leftarrow> (if d = 0 then visit succ ret st else Some (d, ret, st));
          if m \<le> head then wto_succs visit ws m True ret1 st1 else wto_succs visit ws head lp ret1 st1 }"

fun component_succs :: "'v visitor \<Rightarrow> 'v list \<Rightarrow> 'v hierarchy list \<Rightarrow> 'v wto_state \<Rightarrow> ('v hierarchy list \<times> 'v wto_state) option" where
  "component_succs visit [] ret st = Some (ret, st)"
| "component_succs visit (succ # ws) ret st =
     do { d \<leftarrow> wt_dfn st succ;
          if d = 0 then do { (m, ret1, st1) \<leftarrow> visit succ ret st; component_succs visit ws ret1 st1 }
          else component_succs visit ws ret st }"

definition wto_component :: "'v visitor \<Rightarrow> ('v \<Rightarrow> 'v list option) \<Rightarrow> 'v \<Rightarrow> 'v wto_state \<Rightarrow> ('v hierarchy \<times> 'v wto_state) option" where
  "wto_component visit succs vx st =
     do { ws \<leftarrow> succs vx;
          (ret, st1) \<leftarrow> component_succs visit ws [] st;
          Some (HComponent (HElement vx # ret), st1) }"

text \<open>The end of \<^verbatim>\<open>visit\<close>, after the loop over the successors.\<close>

definition wto_finish ::
  "'v visitor \<Rightarrow> ('v \<Rightarrow> 'v list option) \<Rightarrow> 'v \<Rightarrow> enat \<times> bool \<times> 'v hierarchy list \<times> 'v wto_state \<Rightarrow>
   (enat \<times> 'v hierarchy list \<times> 'v wto_state) option" where
  "wto_finish visit succs vx r =
     (case r of (head, lp, ret, st) \<Rightarrow>
        do { d \<leftarrow> wt_dfn st vx;
             if head = d then
               (if lp then
                  do { (stack, dfn) \<leftarrow> unwind vx (wt_stack st) ((wt_dfn st)(vx \<mapsto> \<infinity>));
                       (c, st1) \<leftarrow> wto_component visit succs vx (st\<lparr>wt_stack := stack, wt_dfn := dfn\<rparr>);
                       Some (head, c # ret, st1) }
                else
                  (case wt_stack st of
                     [] \<Rightarrow> None
                   | _ # stack \<Rightarrow> Some (head, HElement vx # ret, st\<lparr>wt_stack := stack, wt_dfn := (wt_dfn st)(vx \<mapsto> \<infinity>)\<rparr>)))
             else Some (head, ret, st) })"

primrec wto_visit :: "('v \<Rightarrow> 'v list option) \<Rightarrow> nat \<Rightarrow> 'v visitor" where
  "wto_visit succs 0 = (\<lambda>vx ret st. None)"
| "wto_visit succs (Suc n) =
     (\<lambda>vx ret st.
        do { ws \<leftarrow> succs vx;
             r \<leftarrow> wto_succs (wto_visit succs n) ws (enat (wt_num st + 1)) False ret (wto_push vx st);
             wto_finish (wto_visit succs n) succs vx r })"

text \<open>The fuel suffices for the depth of the recursion, at most one more than the number of vertices, squared.\<close>

definition weak_topo_order :: "'v list \<Rightarrow> ('v \<Rightarrow> 'v list option) \<Rightarrow> 'v \<Rightarrow> 'v hierarchy option" where
  "weak_topo_order verts succs start =
     do { (head, ret, st) \<leftarrow> wto_visit succs (Suc (length verts * Suc (length verts) + length verts)) start []
            \<lparr>wt_stack = [], wt_dfn = (\<lambda>v. if v \<in> set verts then Some 0 else None), wt_num = 0\<rparr>;
          Some (HComponent ret) }"

section \<open>Weak topological orders\<close>

text \<open>The vertices of an order in sequence, and the pairs of a head and a vertex of its component.\<close>

fun flat :: "'v hierarchy \<Rightarrow> 'v list" where
  "flat (HElement v) = [v]"
| "flat (HComponent hs) = concat (map flat hs)"

abbreviation flats :: "'v hierarchy list \<Rightarrow> 'v list" where
  "flats hs \<equiv> concat (map flat hs)"

fun loops :: "'v hierarchy \<Rightarrow> ('v \<times> 'v) set" where
  "loops (HElement v) = {}"
| "loops (HComponent hs) =
     (case hs of HElement w # _ \<Rightarrow> {w} \<times> set (flats hs) | _ \<Rightarrow> {}) \<union> (\<Union>h \<in> set hs. loops h)"

text \<open>Every component starts with its head, which lies on a cycle.\<close>

fun headed :: "('v \<times> 'v) set \<Rightarrow> 'v hierarchy \<Rightarrow> bool" where
  "headed E (HElement v) \<longleftrightarrow> True"
| "headed E (HComponent hs) \<longleftrightarrow>
     (case hs of HElement w # _ \<Rightarrow> (w, w) \<in> E\<^sup>+ | _ \<Rightarrow> False) \<and> (\<forall>h \<in> set hs. headed E h)"

definition before :: "'v list \<Rightarrow> 'v \<Rightarrow> 'v \<Rightarrow> bool" where
  "before xs u w \<longleftrightarrow> (\<exists>as bs cs. xs = as @ u # bs @ w # cs)"

definition wto_ok :: "('v \<times> 'v) set \<Rightarrow> 'v set \<Rightarrow> 'v hierarchy list \<Rightarrow> bool" where
  "wto_ok E K hs \<longleftrightarrow>
     (\<forall>u w. (u, w) \<in> E \<and> u \<in> set (flats hs) \<longrightarrow> w \<in> K \<or> before (flats hs) u w \<or> (w, u) \<in> (\<Union>h \<in> set hs. loops h))"

lemma before_append: "before xs u w \<Longrightarrow> before (as @ xs @ bs) u w"
proof -
  assume "before xs u w"
  then obtain p q r where "xs = p @ u # q @ w # r" unfolding before_def by blast
  then have "as @ xs @ bs = (as @ p) @ u # q @ w # (r @ bs)" by simp
  then show "before (as @ xs @ bs) u w" unfolding before_def by blast
qed

lemma before_across:
  assumes "u \<in> set xs" "w \<in> set ys"
  shows "before (xs @ ys) u w"
proof -
  obtain a b c d where "xs = a @ u # b" "ys = c @ w # d" using assms by (meson split_list)
  then have "xs @ ys = a @ u # (b @ c) @ w # d" by simp
  then show ?thesis unfolding before_def by blast
qed

lemma wto_ok_append:
  assumes "wto_ok E K hs" "wto_ok E (K \<union> set (flats hs)) hs'"
  shows "wto_ok E K (hs' @ hs)"
  unfolding wto_ok_def
proof (intro allI impI)
  fix u w assume uw: "(u, w) \<in> E \<and> u \<in> set (flats (hs' @ hs))"
  then consider "u \<in> set (flats hs')" | "u \<in> set (flats hs)" by auto
  then show "w \<in> K \<or> before (flats (hs' @ hs)) u w \<or> (w, u) \<in> (\<Union>h \<in> set (hs' @ hs). loops h)"
  proof cases
    case 1
    then consider "w \<in> K" | "w \<in> set (flats hs)" | "before (flats hs') u w" | "(w, u) \<in> (\<Union>h \<in> set hs'. loops h)"
      using assms(2) uw unfolding wto_ok_def by blast
    then show ?thesis
    proof cases
      case 2
      then show ?thesis using before_across [OF 1, of w "flats hs"] by simp
    next
      case 3
      then show ?thesis using before_append [of "flats hs'" u w "[]" "flats hs"] by simp
    qed auto
  next
    case 2
    then show ?thesis using assms(1) uw before_append [of "flats hs" u w "flats hs'" "[]"] unfolding wto_ok_def by auto
  qed
qed

lemma wto_ok_element:
  assumes "\<And>w. (v, w) \<in> E \<Longrightarrow> w \<in> K"
  shows "wto_ok E K [HElement v]"
  using assms by (simp add: wto_ok_def)

lemma wto_ok_component:
  assumes "\<And>w. (v, w) \<in> E \<Longrightarrow> w \<in> K \<or> w = v \<or> w \<in> set (flats hs)" "wto_ok E (insert v K) hs"
  shows "wto_ok E K [HComponent (HElement v # hs)]"
  unfolding wto_ok_def
proof (intro allI impI)
  fix u w assume uw: "(u, w) \<in> E \<and> u \<in> set (flats [HComponent (HElement v # hs)])"
  show "w \<in> K \<or> before (flats [HComponent (HElement v # hs)]) u w \<or> (w, u) \<in> (\<Union>h \<in> set [HComponent (HElement v # hs)]. loops h)"
  proof (cases "u = v")
    case True
    then show ?thesis using assms(1) [of w] uw before_across [of v "[v]" w "flats hs"] by auto
  next
    case False
    then have "u \<in> set (flats hs)" using uw by auto
    then show ?thesis using assms(2) uw before_append [of "flats hs" u w "[v]" "[]"] unfolding wto_ok_def by auto
  qed
qed

section \<open>States of the search\<close>

definition white :: "'v wto_state \<Rightarrow> 'v set" where
  "white st = {x. wt_dfn st x = Some 0}"

definition black :: "'v wto_state \<Rightarrow> 'v set" where
  "black st = {x. wt_dfn st x = Some \<infinity>}"

definition wto_inv :: "'v set \<Rightarrow> 'v wto_state \<Rightarrow> bool" where
  "wto_inv V st \<longleftrightarrow> dom (wt_dfn st) = V \<and> distinct (wt_stack st) \<and>
     (\<forall>x. x \<in> set (wt_stack st) \<longleftrightarrow> (\<exists>k. wt_dfn st x = Some (enat k) \<and> 0 < k)) \<and>
     (\<forall>x k. wt_dfn st x = Some (enat k) \<longrightarrow> k \<le> wt_num st)"

lemma wto_inv_class:
  assumes "wto_inv V st" "x \<in> V"
  shows "x \<in> white st \<or> x \<in> black st \<or> x \<in> set (wt_stack st)"
proof -
  have "x \<in> dom (wt_dfn st)" using assms by (simp add: wto_inv_def)
  then obtain d where d: "wt_dfn st x = Some d" by blast
  show ?thesis
  proof (cases d)
    case (enat k)
    then show ?thesis using d assms(1) by (cases "k = 0") (auto simp: wto_inv_def white_def zero_enat_def)
  qed (use d in \<open>simp add: black_def\<close>)
qed

lemma wto_inv_stack:
  assumes "wto_inv V st" "x \<in> set (wt_stack st)"
  obtains k where "wt_dfn st x = Some (enat k)" "0 < k" "k \<le> wt_num st" "x \<notin> white st" "x \<notin> black st" "x \<in> V"
proof -
  obtain k where k: "wt_dfn st x = Some (enat k)" "0 < k" using assms unfolding wto_inv_def by blast
  then have "k \<le> wt_num st" "x \<in> V" using assms(1) unfolding wto_inv_def by blast+
  then show thesis using k that by (simp add: white_def black_def zero_enat_def)
qed

lemma white_black: "x \<in> white st \<Longrightarrow> x \<notin> black st"
  by (simp add: white_def black_def zero_enat_def)

text \<open>
  What the search adds to a state: the order \<open>L\<close> of finished vertices and the vertices \<open>T\<close> left on the stack, all unvisited before.
\<close>

definition grows :: "('v \<times> 'v) set \<Rightarrow> 'v wto_state \<Rightarrow> 'v wto_state \<Rightarrow> 'v hierarchy list \<Rightarrow> 'v list \<Rightarrow> bool" where
  "grows E st st' L T \<longleftrightarrow>
     wt_stack st' = T @ wt_stack st \<and> distinct (T @ flats L) \<and> set T \<union> set (flats L) \<subseteq> white st \<and> wt_num st \<le> wt_num st' \<and>
     (\<forall>x. x \<notin> set T \<union> set (flats L) \<longrightarrow> wt_dfn st' x = wt_dfn st x) \<and> (\<forall>x \<in> set (flats L). wt_dfn st' x = Some \<infinity>) \<and>
     (\<forall>x \<in> set T. \<exists>k. wt_dfn st' x = Some (enat k) \<and> wt_num st < k \<and> k \<le> wt_num st') \<and>
     wto_ok E (black st) L \<and>
     (\<forall>u \<in> set T. \<forall>w. (u, w) \<in> E \<longrightarrow> w \<in> set T \<union> set (flats L) \<union> black st \<union> set (wt_stack st))"

lemma growsD:
  assumes "grows E st st' L T"
  shows "wt_stack st' = T @ wt_stack st" "distinct (T @ flats L)" "set T \<union> set (flats L) \<subseteq> white st" "wt_num st \<le> wt_num st'"
    and "\<And>x. x \<notin> set T \<union> set (flats L) \<Longrightarrow> wt_dfn st' x = wt_dfn st x" "\<And>x. x \<in> set (flats L) \<Longrightarrow> wt_dfn st' x = Some \<infinity>"
    and "\<And>x. x \<in> set T \<Longrightarrow> \<exists>k. wt_dfn st' x = Some (enat k) \<and> wt_num st < k \<and> k \<le> wt_num st'"
    and "wto_ok E (black st) L" "\<And>u w. u \<in> set T \<Longrightarrow> (u, w) \<in> E \<Longrightarrow> w \<in> set T \<union> set (flats L) \<union> black st \<union> set (wt_stack st)"
  using assms unfolding grows_def by blast+

lemma grows_colours:
  assumes "grows E st st' L T"
  shows "white st' = white st - (set T \<union> set (flats L))" "black st' = black st \<union> set (flats L)"
proof -
  note g = growsD [OF assms]
  have "x \<in> white st' \<longleftrightarrow> x \<in> white st - (set T \<union> set (flats L))" for x
  proof (cases "x \<in> set T \<union> set (flats L)")
    case True
    then consider "x \<in> set T" | "x \<in> set (flats L)" by blast
    then have "x \<notin> white st'" by cases (use g(6,7) [of x] in \<open>auto simp: white_def zero_enat_def\<close>)
    then show ?thesis using True by blast
  next
    case False
    then show ?thesis using g(5) [OF False] by (simp add: white_def)
  qed
  then show "white st' = white st - (set T \<union> set (flats L))" by blast
  have "x \<in> black st' \<longleftrightarrow> x \<in> black st \<union> set (flats L)" for x
  proof (cases "x \<in> set T \<union> set (flats L)")
    case True
    then have nb: "x \<notin> black st" using white_black [of x st] g(3) by (meson subsetD)
    consider "x \<in> set T" "x \<notin> set (flats L)" | "x \<in> set (flats L)" using True g(2) by auto
    then show ?thesis
    proof cases
      case 1
      then show ?thesis using nb g(7) [OF 1(1)] by (auto simp: black_def)
    next
      case 2
      then show ?thesis using g(6) [OF 2] by (auto simp: black_def)
    qed
  next
    case False
    then show ?thesis using g(5) [of x] by (auto simp: black_def)
  qed
  then show "black st' = black st \<union> set (flats L)" by blast
qed

lemma grows_inv:
  assumes "wto_inv V st" "grows E st st' L T"
  shows "wto_inv V st'"
proof -
  note g = growsD [OF assms(2)]
  let ?R = "set T \<union> set (flats L)"
  have RV: "?R \<subseteq> V" using g(3) assms(1) by (auto simp: wto_inv_def white_def)
  have "x \<in> dom (wt_dfn st') \<longleftrightarrow> x \<in> V" for x
  proof (cases "x \<in> ?R")
    case True
    then show ?thesis using g(6) [of x] g(7) [of x] RV by auto
  next
    case False
    then show ?thesis using g(5) [of x] assms(1) by (auto simp: wto_inv_def)
  qed
  then have "dom (wt_dfn st') = V" by blast
  moreover have "distinct (wt_stack st')"
    using g(1-3) assms(1) wto_inv_stack [OF assms(1)] by (auto simp: wto_inv_def) blast
  moreover have "x \<in> set (wt_stack st') \<longleftrightarrow> (\<exists>k. wt_dfn st' x = Some (enat k) \<and> 0 < k)" for x
  proof (cases "x \<in> ?R")
    case True
    then have ns: "x \<notin> set (wt_stack st)" using g(3) wto_inv_stack [OF assms(1), of x] by blast
    consider "x \<in> set T" | "x \<in> set (flats L)" "x \<notin> set T" using True by blast
    then show ?thesis by cases (use ns g(1) g(6,7) [of x] in auto)
  next
    case False
    then show ?thesis using g(1) g(5) [of x] assms(1) by (auto simp: wto_inv_def)
  qed
  moreover have "k \<le> wt_num st'" if "wt_dfn st' x = Some (enat k)" for x k
  proof (cases "x \<in> ?R")
    case True
    then show ?thesis using that g(6) [of x] g(7) [of x] by auto
  next
    case False
    then have "k \<le> wt_num st" using that g(5) [of x] assms(1) by (simp add: wto_inv_def)
    then show ?thesis using g(4) by simp
  qed
  ultimately show ?thesis by (simp add: wto_inv_def)
qed

lemma grows_refl: "grows E st st [] []"
  by (simp add: grows_def wto_ok_def)

lemma grows_trans:
  assumes "grows E st st1 L T" "grows E st1 st2 L' T'"
  shows "grows E st st2 (L' @ L) (T' @ T)"
proof -
  note g = growsD [OF assms(1)] and g' = growsD [OF assms(2)]
  note c = grows_colours [OF assms(1)]
  have dis: "(set T' \<union> set (flats L')) \<inter> (set T \<union> set (flats L)) = {}" using g'(3) c(1) by blast
  have "wto_ok E (black st) (L' @ L)" using wto_ok_append [OF g(8)] g'(8) c(2) by simp
  moreover have "\<exists>k. wt_dfn st2 x = Some (enat k) \<and> wt_num st < k \<and> k \<le> wt_num st2" if "x \<in> set (T' @ T)" for x
  proof (cases "x \<in> set T'")
    case True
    then show ?thesis using g'(7) [OF True] g(4) by auto
  next
    case False
    then have x: "x \<in> set T" "x \<notin> set T' \<union> set (flats L')" using that dis by auto
    then show ?thesis using g(7) [OF x(1)] g'(5) [OF x(2)] g'(4) by fastforce
  qed
  moreover have "wt_dfn st2 x = Some \<infinity>" if "x \<in> set (flats (L' @ L))" for x
  proof (cases "x \<in> set (flats L')")
    case False
    then have x: "x \<in> set (flats L)" using that by auto
    moreover have "x \<notin> set T' \<union> set (flats L')" using x dis by auto
    ultimately show ?thesis using g(6) g'(5) by simp
  qed (simp add: g'(6))
  moreover have "w \<in> set (T' @ T) \<union> set (flats (L' @ L)) \<union> black st \<union> set (wt_stack st)" if "u \<in> set (T' @ T)" "(u, w) \<in> E" for u w
    using that g(9) [of u w] g'(9) [of u w] g(1) c(2) by auto
  moreover have "wt_dfn st2 x = wt_dfn st x" if "x \<notin> set (T' @ T) \<union> set (flats (L' @ L))" for x
    using that g(5) [of x] g'(5) [of x] by auto
  moreover have "set (T' @ T) \<union> set (flats (L' @ L)) \<subseteq> white st" using g(3) g'(3) c(1) by auto
  moreover have "distinct ((T' @ T) @ flats (L' @ L))" using g(2) g'(2) dis by auto
  ultimately show ?thesis unfolding grows_def using g(1,4) g'(1,4) by simp
qed

section \<open>Visiting\<close>

definition visit_post :: "('v \<times> 'v) set \<Rightarrow> 'v wto_state \<Rightarrow> 'v \<Rightarrow> enat \<Rightarrow> 'v hierarchy list \<Rightarrow> 'v list \<Rightarrow> 'v wto_state \<Rightarrow> bool" where
  "visit_post E st v m L T st' \<longleftrightarrow>
     grows E st st' L T \<and> v \<in> set T \<union> set (flats L) \<and>
     (\<forall>u \<in> set T \<union> set (flats L). \<forall>w \<in> set (wt_stack st). (u, w) \<in> E \<longrightarrow> m \<le> the (wt_dfn st w)) \<and>
     (T = [] \<longrightarrow> enat (wt_num st) < m) \<and>
     (T \<noteq> [] \<longrightarrow> v \<in> set T \<and> (\<exists>u \<in> set T. \<exists>w \<in> set (wt_stack st). (u, w) \<in> E \<and> wt_dfn st w = Some m)) \<and>
     (\<forall>t \<in> set T. (v, t) \<in> (E \<inter> set T \<times> set T)\<^sup>*) \<and>
     (\<forall>t \<in> set T \<union> set (flats L). (v, t) \<in> (E \<inter> white st \<times> white st)\<^sup>*) \<and> (\<forall>h \<in> set L. headed E h)"

lemma visit_postD:
  assumes "visit_post E st v m L T st'"
  shows "grows E st st' L T" "v \<in> set T \<union> set (flats L)"
    and "\<And>u w. u \<in> set T \<union> set (flats L) \<Longrightarrow> w \<in> set (wt_stack st) \<Longrightarrow> (u, w) \<in> E \<Longrightarrow> m \<le> the (wt_dfn st w)"
    and "T = [] \<Longrightarrow> enat (wt_num st) < m" "T \<noteq> [] \<Longrightarrow> v \<in> set T"
    and "T \<noteq> [] \<Longrightarrow> \<exists>u \<in> set T. \<exists>w \<in> set (wt_stack st). (u, w) \<in> E \<and> wt_dfn st w = Some m"
    and "\<And>t. t \<in> set T \<Longrightarrow> (v, t) \<in> (E \<inter> set T \<times> set T)\<^sup>*"
    and "\<And>t. t \<in> set T \<union> set (flats L) \<Longrightarrow> (v, t) \<in> (E \<inter> white st \<times> white st)\<^sup>*" "\<forall>h \<in> set L. headed E h"
  using assms unfolding visit_post_def by blast+

definition wto_measure :: "'v set \<Rightarrow> 'v wto_state \<Rightarrow> nat" where
  "wto_measure V st = card (V - black st) * Suc (card V) + card (white st)"

definition visitor_ok :: "'v set \<Rightarrow> ('v \<times> 'v) set \<Rightarrow> nat \<Rightarrow> 'v visitor \<Rightarrow> bool" where
  "visitor_ok V E n visit \<longleftrightarrow>
     (\<forall>v ret st. wto_inv V st \<and> v \<in> white st \<and> wto_measure V st < n \<longrightarrow>
        (\<exists>m L T st'. visit v ret st = Some (m, L @ ret, st') \<and> visit_post E st v m L T st'))"

text \<open>The loop over the successors \<open>D\<close> of a vertex \<open>v\<close>, from the state in which \<open>v\<close> is on top of the stack.\<close>

definition succs_post ::
  "('v \<times> 'v) set \<Rightarrow> 'v wto_state \<Rightarrow> 'v \<Rightarrow> 'v set \<Rightarrow> enat \<Rightarrow> bool \<Rightarrow> 'v hierarchy list \<Rightarrow> 'v list \<Rightarrow> 'v wto_state \<Rightarrow> bool" where
  "succs_post E st0 v D m lp L T st \<longleftrightarrow>
     grows E st0 st L T \<and> m \<le> enat (wt_num st0) \<and> D \<inter> white st = {} \<and>
     (\<forall>u \<in> set T \<union> set (flats L). \<forall>w \<in> set (wt_stack st0). (u, w) \<in> E \<longrightarrow> m \<le> the (wt_dfn st0 w)) \<and>
     (\<forall>w \<in> D \<inter> set (wt_stack st0). m \<le> the (wt_dfn st0 w)) \<and>
     (m < enat (wt_num st0) \<longrightarrow> (\<exists>u \<in> insert v (set T). \<exists>w \<in> set (wt_stack st0). (u, w) \<in> E \<and> wt_dfn st0 w = Some m)) \<and>
     (\<not> lp \<longrightarrow> T = [] \<and> v \<notin> D \<and> m = enat (wt_num st0)) \<and>
     (\<forall>t \<in> set T. (v, t) \<in> (E \<inter> insert v (set T) \<times> insert v (set T))\<^sup>*) \<and>
     (\<forall>t \<in> set T \<union> set (flats L). (v, t) \<in> (E \<inter> insert v (white st0) \<times> insert v (white st0))\<^sup>*) \<and>
     (lp \<and> m = enat (wt_num st0) \<longrightarrow> (\<exists>u \<in> insert v (set T). (u, v) \<in> E)) \<and> (\<forall>h \<in> set L. headed E h)"

lemma succs_postD:
  assumes "succs_post E st0 v D m lp L T st"
  shows "grows E st0 st L T" "m \<le> enat (wt_num st0)" "D \<inter> white st = {}"
    and "\<And>u w. u \<in> set T \<union> set (flats L) \<Longrightarrow> w \<in> set (wt_stack st0) \<Longrightarrow> (u, w) \<in> E \<Longrightarrow> m \<le> the (wt_dfn st0 w)"
    and "\<And>w. w \<in> D \<inter> set (wt_stack st0) \<Longrightarrow> m \<le> the (wt_dfn st0 w)"
    and "m < enat (wt_num st0) \<Longrightarrow> \<exists>u \<in> insert v (set T). \<exists>w \<in> set (wt_stack st0). (u, w) \<in> E \<and> wt_dfn st0 w = Some m"
    and "\<not> lp \<Longrightarrow> T = [] \<and> v \<notin> D \<and> m = enat (wt_num st0)"
    and "\<And>t. t \<in> set T \<Longrightarrow> (v, t) \<in> (E \<inter> insert v (set T) \<times> insert v (set T))\<^sup>*"
    and "\<And>t. t \<in> set T \<union> set (flats L) \<Longrightarrow> (v, t) \<in> (E \<inter> insert v (white st0) \<times> insert v (white st0))\<^sup>*"
    and "lp \<Longrightarrow> m = enat (wt_num st0) \<Longrightarrow> \<exists>u \<in> insert v (set T). (u, v) \<in> E" "\<forall>h \<in> set L. headed E h"
  using assms unfolding succs_post_def by blast+

lemma grows_measure:
  assumes "grows E st st' L T" "finite V" "white st \<subseteq> V"
  shows "wto_measure V st' \<le> wto_measure V st"
proof -
  note c = grows_colours [OF assms(1)]
  have "card (V - black st') \<le> card (V - black st)" using c(2) assms(2) by (intro card_mono) auto
  moreover have "card (white st') \<le> card (white st)" using c(1) assms(2,3) finite_subset by (intro card_mono) auto
  ultimately show ?thesis by (simp add: wto_measure_def add_mono mult_le_mono)
qed

lemma wto_inv_white: "wto_inv V st \<Longrightarrow> white st \<subseteq> V"
  by (auto simp: wto_inv_def white_def)

text \<open>A successor that was visited before.\<close>

lemma succs_post_seen:
  assumes "succs_post E st0 v D m lp L T st" "wto_inv V st0" "v \<in> set (wt_stack st0)" "wt_dfn st0 v = Some (enat (wt_num st0))"
    and "\<forall>x \<in> set (wt_stack st0). wt_dfn st0 x = Some (enat (wt_num st0)) \<longrightarrow> x = v"
    and "(v, w) \<in> E" "wt_dfn st w = Some d" "d \<noteq> 0"
  shows "succs_post E st0 v (insert w D) (if d \<le> m then d else m) (d \<le> m \<or> lp) L T st"
proof -
  note p = succs_postD [OF assms(1)]
  note g = growsD [OF p(1)]
  have stk: "wt_dfn st x = wt_dfn st0 x" if "x \<in> set (wt_stack st0)" for x
  proof -
    have "x \<notin> white st0" using wto_inv_stack [OF assms(2) that] by metis
    then show ?thesis using g(3) g(5) [of x] by blast
  qed
  have nw: "insert w D \<inter> white st = {}" using p(3) assms(7,8) by (auto simp: white_def)
  show ?thesis
  proof (cases "d \<le> m")
    case True
    then have "d \<le> enat (wt_num st0)" using p(2) by (rule order_trans)
    then obtain k where k: "d = enat k" "k \<le> wt_num st0" by (cases d) auto
    have "w \<in> set (wt_stack st)" using grows_inv [OF assms(2) p(1)] assms(7,8) k(1) by (auto simp: wto_inv_def zero_enat_def)
    moreover have "w \<notin> set T" using g(7) [of w] assms(7) k by auto
    ultimately have w: "w \<in> set (wt_stack st0)" "wt_dfn st0 w = Some d" using g(1) stk [of w] assms(7) by auto
    have "\<forall>u \<in> set T \<union> set (flats L). \<forall>x \<in> set (wt_stack st0). (u, x) \<in> E \<longrightarrow> d \<le> the (wt_dfn st0 x)"
      using p(4) True order_trans by blast
    moreover have "\<forall>x \<in> insert w D \<inter> set (wt_stack st0). d \<le> the (wt_dfn st0 x)"
      using p(5) True w(2) order_trans by fastforce
    moreover have "\<exists>u \<in> insert v (set T). \<exists>x \<in> set (wt_stack st0). (u, x) \<in> E \<and> wt_dfn st0 x = Some d" using assms(6) w by blast
    moreover have "True \<and> d = enat (wt_num st0) \<longrightarrow> (\<exists>u \<in> insert v (set T). (u, v) \<in> E)" using assms(5,6) w by auto
    ultimately have "succs_post E st0 v (insert w D) d True L T st"
      using assms(1) nw \<open>d \<le> enat (wt_num st0)\<close> unfolding succs_post_def by (elim conjE) (intro conjI impI; (assumption | simp))
    then show ?thesis using True by simp
  next
    case False
    have "m \<le> the (wt_dfn st0 x)" if x: "x \<in> insert w D \<inter> set (wt_stack st0)" for x
    proof (cases "x = w")
      case True
      then have "wt_dfn st0 x = Some d" using stk [of w] x assms(7) by simp
      then show ?thesis using False by simp
    qed (use p(5) [of x] x in blast)
    then have "\<forall>x \<in> insert w D \<inter> set (wt_stack st0). m \<le> the (wt_dfn st0 x)" by blast
    moreover have "v \<noteq> w" if "\<not> lp"
    proof
      assume "v = w"
      then have "d = enat (wt_num st0)" using stk [OF assms(3)] assms(4,7) by simp
      then show False using p(7) [OF that] False by simp
    qed
    then have "\<not> lp \<longrightarrow> T = [] \<and> v \<notin> insert w D \<and> m = enat (wt_num st0)" using p(7) by simp
    ultimately have "succs_post E st0 v (insert w D) m lp L T st"
      using assms(1) nw unfolding succs_post_def by (elim conjE) (intro conjI; assumption)
    then show ?thesis using False by simp
  qed
qed

lemma rtrancl_widen: "(a, b) \<in> (E \<inter> A \<times> A)\<^sup>* \<Longrightarrow> A \<subseteq> B \<Longrightarrow> (a, b) \<in> (E \<inter> B \<times> B)\<^sup>*"
  by (rule rtrancl_mono [THEN subsetD, rotated]) auto

text \<open>A successor that is visited now.\<close>

lemma succs_post_visit:
  assumes "succs_post E st0 v D m lp L T st" "wto_inv V st0" "v \<in> set (wt_stack st0)" "wt_dfn st0 v = Some (enat (wt_num st0))"
    and "\<forall>x \<in> set (wt_stack st0). wt_dfn st0 x = Some (enat (wt_num st0)) \<longrightarrow> x = v"
    and "(v, w) \<in> E" "w \<in> white st" "visit_post E st w d L' T' st'"
  shows "succs_post E st0 v (insert w D) (if d \<le> m then d else m) (d \<le> m \<or> lp) (L' @ L) (T' @ T) st'"
proof -
  note p = succs_postD [OF assms(1)] and q = visit_postD [OF assms(8)]
  note g = growsD [OF p(1)] and h = growsD [OF q(1)]
  note c = grows_colours [OF p(1)] and c' = grows_colours [OF q(1)]
  have inv: "wto_inv V st" by (rule grows_inv [OF assms(2) p(1)])
  have gr: "grows E st0 st' (L' @ L) (T' @ T)" by (rule grows_trans [OF p(1) q(1)])
  have stk: "wt_dfn st x = wt_dfn st0 x" "x \<in> set (wt_stack st)" if "x \<in> set (wt_stack st0)" for x
  proof -
    have "x \<notin> white st0" using wto_inv_stack [OF assms(2) that] by metis
    then show "wt_dfn st x = wt_dfn st0 x" using g(3) g(5) [of x] by blast
    show "x \<in> set (wt_stack st)" using g(1) that by simp
  qed
  have attained: "\<exists>u \<in> set T'. \<exists>x \<in> set (wt_stack st0). (u, x) \<in> E \<and> wt_dfn st0 x = Some d" if T': "T' \<noteq> []" and d: "T = [] \<or> d \<le> enat (wt_num st0)"
  proof -
    obtain u x where ux: "u \<in> set T'" "x \<in> set (wt_stack st)" "(u, x) \<in> E" "wt_dfn st x = Some d" using q(6) [OF T'] by blast
    have "x \<notin> set T" using d g(7) [of x] ux(4) by auto
    then have "x \<in> set (wt_stack st0)" using ux(2) g(1) by auto
    then show ?thesis using ux stk(1) by auto
  qed
  have small: "T' \<noteq> []" if "d \<le> enat (wt_num st0)"
  proof
    assume "T' = []"
    then have "enat (wt_num st) < d" by (rule q(4))
    also note that
    finally show False using g(4) by simp
  qed
  have new: "d \<le> the (wt_dfn st0 x)" if "u \<in> set T' \<union> set (flats L')" "x \<in> set (wt_stack st0)" "(u, x) \<in> E" for u x
    using q(3) [OF that(1) stk(2) [OF that(2)] that(3)] stk(1) [OF that(2)] by simp
  let ?m = "if d \<le> m then d else m"
  have "?m \<le> the (wt_dfn st0 x)" if "u \<in> set (T' @ T) \<union> set (flats (L' @ L))" "x \<in> set (wt_stack st0)" "(u, x) \<in> E" for u x
  proof (cases "u \<in> set T' \<union> set (flats L')")
    case True
    then show ?thesis using new [OF True that(2,3)] by auto
  next
    case False
    then have "u \<in> set T \<union> set (flats L)" using that(1) by auto
    then have "m \<le> the (wt_dfn st0 x)" using p(4) that(2,3) by blast
    then show ?thesis by auto
  qed
  moreover have "insert w D \<inter> white st' = {}"
  proof -
    have "w \<notin> white st'" using q(2) c'(1) by blast
    then show ?thesis using p(3) c'(1) by blast
  qed
  moreover have "?m \<le> the (wt_dfn st0 x)" if "x \<in> insert w D \<inter> set (wt_stack st0)" for x
  proof -
    have "x \<noteq> w" using that assms(7) wto_inv_stack [OF inv stk(2) [of x]] by blast
    then have "m \<le> the (wt_dfn st0 x)" using p(5) that by blast
    then show ?thesis by auto
  qed
  moreover have "\<exists>u \<in> insert v (set (T' @ T)). \<exists>x \<in> set (wt_stack st0). (u, x) \<in> E \<and> wt_dfn st0 x = Some ?m" if "?m < enat (wt_num st0)"
  proof (cases "d \<le> m")
    case True
    then have "d \<le> enat (wt_num st0)" using p(2) by (rule order_trans)
    then show ?thesis using attained small True by auto
  next
    case False
    then show ?thesis using p(6) that by auto
  qed
  moreover have "T' @ T = [] \<and> v \<notin> insert w D \<and> ?m = enat (wt_num st0)" if "\<not> (d \<le> m \<or> lp)"
  proof -
    have lp: "T = []" "v \<notin> D" "m = enat (wt_num st0)" using p(7) that by auto
    have "T' = []"
    proof (rule ccontr)
      assume "T' \<noteq> []"
      then obtain x where x: "x \<in> set (wt_stack st0)" "wt_dfn st0 x = Some d" using attained lp(1) by blast
      obtain k where "wt_dfn st0 x = Some (enat k)" "k \<le> wt_num st0" by (rule wto_inv_stack [OF assms(2) x(1)])
      then show False using x(2) that lp(3) by simp
    qed
    moreover have "v \<noteq> w" using assms(7) wto_inv_stack [OF inv stk(2) [OF assms(3)]] by blast
    ultimately show ?thesis using lp that by simp
  qed
  moreover have "(v, t) \<in> (E \<inter> insert v (set (T' @ T)) \<times> insert v (set (T' @ T)))\<^sup>*" if "t \<in> set (T' @ T)" for t
  proof (cases "t \<in> set T'")
    case True
    then have "w \<in> set T'" using q(5) by (metis list.distinct(1) list.set_cases)
    then have "(v, w) \<in> E \<inter> insert v (set (T' @ T)) \<times> insert v (set (T' @ T))" using assms(6) by simp
    also have "(w, t) \<in> (E \<inter> insert v (set (T' @ T)) \<times> insert v (set (T' @ T)))\<^sup>*" using q(7) [OF True] by (rule rtrancl_widen) auto
    finally show ?thesis .
  next
    case False
    then have "(v, t) \<in> (E \<inter> insert v (set T) \<times> insert v (set T))\<^sup>*" using p(8) that by simp
    then show ?thesis by (rule rtrancl_widen) auto
  qed
  moreover have "(v, t) \<in> (E \<inter> insert v (white st0) \<times> insert v (white st0))\<^sup>*" if "t \<in> set (T' @ T) \<union> set (flats (L' @ L))" for t
  proof (cases "t \<in> set T' \<union> set (flats L')")
    case True
    have sub: "white st \<subseteq> white st0" using c(1) by blast
    then have "(v, w) \<in> E \<inter> insert v (white st0) \<times> insert v (white st0)" using assms(6,7) by blast
    also have "(w, t) \<in> (E \<inter> insert v (white st0) \<times> insert v (white st0))\<^sup>*" using q(8) [OF True] sub by (rule rtrancl_widen [OF _ subset_trans [OF _ subset_insertI]])
    finally show ?thesis .
  next
    case False
    then show ?thesis using p(9) [of t] that by auto
  qed
  moreover have "\<exists>u \<in> insert v (set (T' @ T)). (u, v) \<in> E" if "d \<le> m \<or> lp" "?m = enat (wt_num st0)"
  proof (cases "d \<le> m")
    case True
    then have "d = enat (wt_num st0)" using that(2) by simp
    then show ?thesis using attained small assms(5) by fastforce
  next
    case False
    then show ?thesis using p(10) that by auto
  qed
  moreover have "\<forall>h \<in> set (L' @ L). headed E h" using p(11) q(9) by auto
  ultimately show ?thesis using gr p(2) unfolding succs_post_def by (auto simp del: set_concat)
qed

lemma wto_succs_spec:
  assumes "succs_post E st0 v D m lp L T st" "wto_inv V st0" "v \<in> set (wt_stack st0)" "wt_dfn st0 v = Some (enat (wt_num st0))"
    and "\<forall>x \<in> set (wt_stack st0). wt_dfn st0 x = Some (enat (wt_num st0)) \<longrightarrow> x = v" "visitor_ok V E n visit" "wto_measure V st0 < n" "finite V" "set ws \<subseteq> V" "\<forall>w \<in> set ws. (v, w) \<in> E"
  shows "\<exists>m' lp' L' T' st'. wto_succs visit ws m lp (L @ ret) st = Some (m', lp', L' @ ret, st') \<and> succs_post E st0 v (D \<union> set ws) m' lp' L' T' st'"
  using assms(1,9,10)
proof (induction ws arbitrary: D m lp L T st)
  case (Cons w ws)
  note p = succs_postD [OF Cons.prems(1)]
  have inv: "wto_inv V st" by (rule grows_inv [OF assms(2) p(1)])
  have w: "w \<in> V" "(v, w) \<in> E" using Cons.prems by auto
  have ws: "set ws \<subseteq> V" "\<forall>x \<in> set ws. (v, x) \<in> E" using Cons.prems(2,3) by auto
  have "w \<in> dom (wt_dfn st)" using inv w(1) by (simp add: wto_inv_def)
  then obtain d where d: "wt_dfn st w = Some d" by blast
  show ?case
  proof (cases "d = 0")
    case False
    let ?m = "if d \<le> m then d else m"
    have "succs_post E st0 v (insert w D) ?m (d \<le> m \<or> lp) L T st"
      by (rule succs_post_seen [OF Cons.prems(1) assms(2-5) w(2) d False])
    then obtain m' lp' L' T' st' where r: "wto_succs visit ws ?m (d \<le> m \<or> lp) (L @ ret) st = Some (m', lp', L' @ ret, st')"
        "succs_post E st0 v (insert w D \<union> set ws) m' lp' L' T' st'"
      using Cons.IH [OF _ ws] by blast
    then show ?thesis using d False by (auto split: if_splits)
  next
    case True
    then have ww: "w \<in> white st" using d by (simp add: white_def)
    have "wto_measure V st < n" using grows_measure [OF p(1) assms(8) wto_inv_white [OF assms(2)]] assms(7) by simp
    then obtain k L1 T1 st1 where v1: "visit w (L @ ret) st = Some (k, L1 @ L @ ret, st1)" "visit_post E st w k L1 T1 st1"
      using assms(6) inv ww unfolding visitor_ok_def by blast
    let ?m = "if k \<le> m then k else m"
    have "succs_post E st0 v (insert w D) ?m (k \<le> m \<or> lp) (L1 @ L) (T1 @ T) st1"
      by (rule succs_post_visit [OF Cons.prems(1) assms(2-5) w(2) ww v1(2)])
    then obtain m' lp' L' T' st' where r: "wto_succs visit ws ?m (k \<le> m \<or> lp) ((L1 @ L) @ ret) st1 = Some (m', lp', L' @ ret, st')"
        "succs_post E st0 v (insert w D \<union> set ws) m' lp' L' T' st'"
      using Cons.IH [OF _ ws] by blast
    then show ?thesis using d True v1(1) by (auto split: if_splits)
  qed
qed auto

text \<open>Visiting the unvisited vertices of a set \<open>C\<close> that has no way out to the stack.\<close>

lemma component_succs_spec:
  assumes "visitor_ok V E n visit" "finite V" "wto_inv V st" "wto_measure V st < n" "C \<subseteq> white st"
    and "\<forall>u \<in> C. \<forall>w. (u, w) \<in> E \<longrightarrow> w \<notin> set (wt_stack st) \<and> (w \<in> white st \<longrightarrow> w \<in> C)" "set ws \<subseteq> V" "set ws \<inter> white st \<subseteq> C"
  shows "\<exists>L st'. component_succs visit ws ret st = Some (L @ ret, st') \<and> grows E st st' L [] \<and> set (flats L) \<subseteq> C \<and> set ws \<inter> white st' = {} \<and> (\<forall>h \<in> set L. headed E h)"
  using assms(3-8)
proof (induction ws arbitrary: ret st C)
  case Nil
  show ?case by (rule exI [of _ "[]"]) (simp add: grows_refl)
next
  case (Cons w ws)
  have "w \<in> dom (wt_dfn st)" using Cons.prems(1,5) by (simp add: wto_inv_def)
  then obtain d where d: "wt_dfn st w = Some d" by blast
  show ?case
  proof (cases "d = 0")
    case False
    then have "w \<notin> white st" using d by (simp add: white_def)
    moreover have ws: "set ws \<subseteq> V" "set ws \<inter> white st \<subseteq> C" using Cons.prems(5,6) by auto
    obtain L st' where r: "component_succs visit ws ret st = Some (L @ ret, st')" "grows E st st' L []" "set (flats L) \<subseteq> C" "set ws \<inter> white st' = {}"
        "\<forall>h \<in> set L. headed E h"
      using Cons.IH [OF Cons.prems(1-4) ws] by blast
    moreover have "w \<notin> white st'" using grows_colours(1) [OF r(2)] \<open>w \<notin> white st\<close> by blast
    ultimately show ?thesis using d False by auto
  next
    case True
    then have w: "w \<in> white st" using d by (simp add: white_def)
    then obtain m L1 T1 st1 where v: "visit w ret st = Some (m, L1 @ ret, st1)" "visit_post E st w m L1 T1 st1"
      using assms(1) Cons.prems(1,2) unfolding visitor_ok_def by blast
    note q = visit_postD [OF v(2)]
    note c = grows_colours [OF q(1)]
    have R: "t \<in> C" if "t \<in> set T1 \<union> set (flats L1)" for t
      using q(8) [OF that]
    proof (induction rule: rtrancl_induct)
      case base
      show ?case using Cons.prems(6) w by auto
    next
      case (step a b)
      then show ?case using Cons.prems(4) by blast
    qed
    have T1: "T1 = []"
    proof (rule ccontr)
      assume "T1 \<noteq> []"
      then obtain u x where "u \<in> set T1" "x \<in> set (wt_stack st)" "(u, x) \<in> E" using q(6) by blast
      then show False using R Cons.prems(4) by blast
    qed
    let ?C = "C - set (flats L1)"
    have st1: "white st1 = white st - set (flats L1)" "wt_stack st1 = wt_stack st" using c(1) growsD(1) [OF q(1)] T1 by simp_all
    have "wto_measure V st1 < n" using grows_measure [OF q(1) assms(2) wto_inv_white [OF Cons.prems(1)]] Cons.prems(2) by simp
    moreover have "\<forall>u \<in> ?C. \<forall>w. (u, w) \<in> E \<longrightarrow> w \<notin> set (wt_stack st1) \<and> (w \<in> white st1 \<longrightarrow> w \<in> ?C)" using Cons.prems(4) st1 by auto
    moreover have "?C \<subseteq> white st1" "set ws \<inter> white st1 \<subseteq> ?C" using Cons.prems(3,6) st1(1) by auto
    ultimately obtain L2 st2 where r: "component_succs visit ws (L1 @ ret) st1 = Some (L2 @ L1 @ ret, st2)" "grows E st1 st2 L2 []"
        "set (flats L2) \<subseteq> ?C" "set ws \<inter> white st2 = {}" "\<forall>h \<in> set L2. headed E h"
    proof -
      assume a: "wto_measure V st1 < n" "\<forall>u \<in> ?C. \<forall>w. (u, w) \<in> E \<longrightarrow> w \<notin> set (wt_stack st1) \<and> (w \<in> white st1 \<longrightarrow> w \<in> ?C)"
        "?C \<subseteq> white st1" "set ws \<inter> white st1 \<subseteq> ?C"
      have "set ws \<subseteq> V" using Cons.prems(5) by simp
      from Cons.IH [OF grows_inv [OF Cons.prems(1) q(1)] a(1,3,2) this a(4)] show thesis using that by blast
    qed
    have "grows E st st2 (L2 @ L1) []" using grows_trans [OF q(1) r(2)] T1 by simp
    moreover have "set (flats (L2 @ L1)) \<subseteq> C" using r(3) R T1 by auto
    moreover have "w \<notin> white st2" using grows_colours(1) [OF r(2)] st1(1) q(2) T1 by auto
    ultimately show ?thesis using d True v(1) r(1,4,5) q(9) by (intro exI [of _ "L2 @ L1"] exI [of _ st2]) auto
  qed
qed

lemma unwind_spec:
  "v \<notin> set T \<Longrightarrow> unwind v (T @ v # S) dfn = Some (S, \<lambda>x. if x \<in> set T then Some 0 else dfn x)"
  by (induction T arbitrary: dfn) (auto simp: fun_eq_iff)

lemma push_state:
  assumes "wto_inv V st" "v \<in> white st"
  shows "wto_inv V (wto_push v st)" "white (wto_push v st) = white st - {v}" "black (wto_push v st) = black st"
    and "wt_dfn (wto_push v st) v = Some (enat (wt_num (wto_push v st)))"
    and "\<And>w. w \<in> set (wt_stack st) \<Longrightarrow> w \<noteq> v \<and> wt_dfn (wto_push v st) w = wt_dfn st w \<and> the (wt_dfn st w) < enat (wt_num (wto_push v st))"
proof -
  have vV: "v \<in> V" "v \<notin> set (wt_stack st)" "v \<notin> black st"
    using assms wto_inv_white wto_inv_stack [OF assms(1), of v] white_black [of v st] by blast+
  have "dom (wt_dfn (wto_push v st)) = V" "distinct (wt_stack (wto_push v st))" using assms(1) vV by (auto simp: wto_push_def wto_inv_def)
  moreover have "x \<in> set (wt_stack (wto_push v st)) \<longleftrightarrow> (\<exists>k. wt_dfn (wto_push v st) x = Some (enat k) \<and> 0 < k)" for x
    using assms(1) by (auto simp: wto_push_def wto_inv_def)
  moreover have "k \<le> wt_num (wto_push v st)" if "wt_dfn (wto_push v st) x = Some (enat k)" for x k
  proof (cases "x = v")
    case False
    then have "k \<le> wt_num st" using that assms(1) by (simp add: wto_push_def wto_inv_def)
    then show ?thesis by (simp add: wto_push_def)
  qed (use that in \<open>simp add: wto_push_def\<close>)
  ultimately show "wto_inv V (wto_push v st)" by (simp add: wto_inv_def)
  show "white (wto_push v st) = white st - {v}" "black (wto_push v st) = black st" using vV(3)
    by (auto simp: white_def black_def wto_push_def zero_enat_def)
  show "wt_dfn (wto_push v st) v = Some (enat (wt_num (wto_push v st)))" by (simp add: wto_push_def)
  fix w assume w: "w \<in> set (wt_stack st)"
  then obtain k where "wt_dfn st w = Some (enat k)" "k \<le> wt_num st" by (rule wto_inv_stack [OF assms(1)])
  then show "w \<noteq> v \<and> wt_dfn (wto_push v st) w = wt_dfn st w \<and> the (wt_dfn st w) < enat (wt_num (wto_push v st))"
    using w vV(2) by (auto simp: wto_push_def)
qed

lemma push_measure:
  assumes "wto_inv V st" "v \<in> white st" "finite V"
  shows "wto_measure V (wto_push v st) < wto_measure V st"
proof -
  have "finite (white st)" using assms wto_inv_white finite_subset by blast
  then have "card (white st - {v}) < card (white st)" using assms(2) by (rule card_Diff1_less)
  then show ?thesis using push_state(2,3) [OF assms(1,2)] by (simp add: wto_measure_def)
qed

text \<open>What holds after the loop over all successors of \<open>v\<close>, in terms of the state before \<open>v\<close> was pushed.\<close>

lemma succs_done:
  assumes "wto_inv V st" "v \<in> white st" "succs_post E (wto_push v st) v D m lp L T st2" "{w. (v, w) \<in> E} = D" "D \<subseteq> V"
  shows "\<And>w. (v, w) \<in> E \<Longrightarrow> w \<in> insert v (set T) \<union> set (flats L) \<union> black st \<union> set (wt_stack st)"
    and "\<And>u w. u \<in> insert v (set T \<union> set (flats L)) \<Longrightarrow> w \<in> set (wt_stack st) \<Longrightarrow> (u, w) \<in> E \<Longrightarrow> m \<le> the (wt_dfn st w)"
    and "\<And>t. t \<in> insert v (set T \<union> set (flats L)) \<Longrightarrow> (v, t) \<in> (E \<inter> white st \<times> white st)\<^sup>*"
    and "v \<notin> set T \<union> set (flats L)" "set T \<union> set (flats L) \<subseteq> white st"
    and "\<And>x. x \<notin> insert v (set T \<union> set (flats L)) \<Longrightarrow> wt_dfn st2 x = wt_dfn st x"
    and "wt_dfn st2 v = Some (enat (wt_num st + 1))" "wto_inv V st2" "wt_stack st2 = T @ v # wt_stack st" "wto_ok E (black st) L"
    and "wt_num st + 1 \<le> wt_num st2" "black st2 = black st \<union> set (flats L)" "white st2 = white st - insert v (set T \<union> set (flats L))"
proof -
  note p = succs_postD [OF assms(3)]
  note g = growsD [OF p(1)] and c = grows_colours [OF p(1)] and ps = push_state [OF assms(1,2)]
  have stk: "set (wt_stack (wto_push v st)) = insert v (set (wt_stack st))" by (simp add: wto_push_def)
  show inv2: "wto_inv V st2" by (rule grows_inv [OF ps(1) p(1)])
  show vn: "v \<notin> set T \<union> set (flats L)" "set T \<union> set (flats L) \<subseteq> white st" using g(3) ps(2) by blast+
  show "wt_stack st2 = T @ v # wt_stack st" using g(1) by (simp add: wto_push_def)
  show "wto_ok E (black st) L" using g(8) ps(3) by simp
  show "wt_num st + 1 \<le> wt_num st2" using g(4) by (simp add: wto_push_def)
  show b2: "black st2 = black st \<union> set (flats L)" using c(2) ps(3) by simp
  show "white st2 = white st - insert v (set T \<union> set (flats L))" using c(1) ps(2) by blast
  show "wt_dfn st2 v = Some (enat (wt_num st + 1))" using g(5) [OF vn(1)] by (simp add: wto_push_def)
  show "wt_dfn st2 x = wt_dfn st x" if "x \<notin> insert v (set T \<union> set (flats L))" for x
    using that g(5) [of x] by (simp add: wto_push_def)
  show "w \<in> insert v (set T) \<union> set (flats L) \<union> black st \<union> set (wt_stack st)" if "(v, w) \<in> E" for w
  proof -
    have "w \<in> V" "w \<notin> white st2" using that assms(4,5) p(3) by blast+
    then have "w \<in> black st2 \<or> w \<in> set (wt_stack st2)" using wto_inv_class [OF inv2] by blast
    then show ?thesis using b2 g(1) stk by auto
  qed
  show "m \<le> the (wt_dfn st w)" if "u \<in> insert v (set T \<union> set (flats L))" "w \<in> set (wt_stack st)" "(u, w) \<in> E" for u w
  proof (cases "u = v")
    case True
    then have "w \<in> D \<inter> set (wt_stack (wto_push v st))" using that assms(4) stk by blast
    then show ?thesis using p(5) ps(5) [OF that(2)] by fastforce
  next
    case False
    then show ?thesis using p(4) [of u w] that stk ps(5) [OF that(2)] by auto
  qed
  show "(v, t) \<in> (E \<inter> white st \<times> white st)\<^sup>*" if "t \<in> insert v (set T \<union> set (flats L))" for t
  proof (cases "t = v")
    case False
    then have "(v, t) \<in> (E \<inter> insert v (white (wto_push v st)) \<times> insert v (white (wto_push v st)))\<^sup>*" using p(9) that by blast
    moreover have "insert v (white (wto_push v st)) = white st" using ps(2) assms(2) by blast
    ultimately show ?thesis by simp
  qed simp
qed

lemma loops_flat: "(w, u) \<in> loops h \<Longrightarrow> w \<in> set (flat h) \<and> u \<in> set (flat h)"
proof (induction h)
  case (HComponent hs)
  have "(w, u) \<in> (case hs of HElement w # _ \<Rightarrow> {w} \<times> set (flats hs) | _ \<Rightarrow> {}) \<or> (\<exists>h \<in> set hs. (w, u) \<in> loops h)"
    using HComponent.prems by simp
  moreover have "w \<in> set (flats hs) \<and> u \<in> set (flats hs)" if "(w, u) \<in> (case hs of HElement w # _ \<Rightarrow> {w} \<times> set (flats hs) | _ \<Rightarrow> {})"
    using that by (cases hs; cases "hd hs") auto
  moreover have "w \<in> set (flats hs) \<and> u \<in> set (flats hs)" if "h \<in> set hs" "(w, u) \<in> loops h" for h
    using HComponent.IH [OF that] that(1) by auto
  ultimately show ?case by auto
qed simp

lemma wto_ok_target: "wto_ok E K hs \<Longrightarrow> (u, w) \<in> E \<Longrightarrow> u \<in> set (flats hs) \<Longrightarrow> w \<in> K \<or> w \<in> set (flats hs)"
proof -
  assume a: "wto_ok E K hs" "(u, w) \<in> E" "u \<in> set (flats hs)"
  then consider "w \<in> K" | "before (flats hs) u w" | h where "h \<in> set hs" "(w, u) \<in> loops h" unfolding wto_ok_def by blast
  then show ?thesis
  proof cases
    case 2
    then show ?thesis unfolding before_def by fastforce
  next
    case 3
    then show ?thesis using loops_flat [of w u h] by auto
  qed simp
qed

text \<open>The three ways in which the visit of a vertex ends.\<close>

lemma visit_post_open:
  assumes "wto_inv V st" "v \<in> white st" "succs_post E (wto_push v st) v D m lp L T st2" "{w. (v, w) \<in> E} = D" "D \<subseteq> V" "m \<noteq> enat (wt_num st + 1)"
  shows "visit_post E st v m L (T @ [v]) st2"
proof -
  note p = succs_postD [OF assms(3)] and d = succs_done [OF assms(1-5)] and ps = push_state [OF assms(1,2)]
  note g = growsD [OF p(1)]
  have num: "wt_num (wto_push v st) = wt_num st + 1" by (simp add: wto_push_def)
  have "\<exists>k. wt_dfn st2 x = Some (enat k) \<and> wt_num st < k \<and> k \<le> wt_num st2" if "x \<in> set (T @ [v])" for x
    using that d(7,11) g(7) [of x] num by (cases "x = v") auto
  moreover have "w \<in> set (T @ [v]) \<union> set (flats L) \<union> black st \<union> set (wt_stack st)" if "u \<in> set (T @ [v])" "(u, w) \<in> E" for u w
    using that d(1) [of w] g(9) [of u w] ps(3) by (cases "u = v") (auto simp: wto_push_def)
  moreover have "wt_dfn st2 x = Some \<infinity>" if "x \<in> set (flats L)" for x using g(6) [OF that] .
  moreover have "wt_dfn st2 x = wt_dfn st x" if "x \<notin> set (T @ [v]) \<union> set (flats L)" for x using d(6) [of x] that by auto
  moreover have "distinct ((T @ [v]) @ flats L)" using g(2) d(4) by auto
  moreover have "set (T @ [v]) \<union> set (flats L) \<subseteq> white st" using d(5) assms(2) by auto
  ultimately have gr: "grows E st st2 L (T @ [v])" unfolding grows_def using d(9-11) by simp
  have "m < enat (wt_num (wto_push v st))" using p(2) assms(6) num by simp
  then obtain u w where uw: "u \<in> insert v (set T)" "w \<in> set (wt_stack (wto_push v st))" "(u, w) \<in> E" "wt_dfn (wto_push v st) w = Some m"
    using p(6) by blast
  have "w \<noteq> v" using uw(4) ps(4) assms(6) num by auto
  then have "w \<in> set (wt_stack st)" using uw(2) by (simp add: wto_push_def)
  then have att: "\<exists>u \<in> set (T @ [v]). \<exists>w \<in> set (wt_stack st). (u, w) \<in> E \<and> wt_dfn st w = Some m" using uw ps(5) by auto
  have "set (T @ [v]) = insert v (set T)" by auto
  then have re: "\<forall>t \<in> set (T @ [v]). (v, t) \<in> (E \<inter> set (T @ [v]) \<times> set (T @ [v]))\<^sup>*" using p(8) by auto
  show ?thesis unfolding visit_post_def using gr att re d(2,3) p(11) by auto
qed

lemma visit_post_element:
  assumes "wto_inv V st" "v \<in> white st" "succs_post E (wto_push v st) v D m False L T st2" "{w. (v, w) \<in> E} = D" "D \<subseteq> V"
  shows "wt_stack st2 = v # wt_stack st"
    and "visit_post E st v m (HElement v # L) [] (st2\<lparr>wt_stack := wt_stack st, wt_dfn := (wt_dfn st2)(v \<mapsto> \<infinity>)\<rparr>)"
proof -
  note p = succs_postD [OF assms(3)] and d = succs_done [OF assms(1-5)] and ps = push_state [OF assms(1,2)]
  have T: "T = []" "v \<notin> D" "m = enat (wt_num st + 1)" using p(7) by (simp_all add: wto_push_def)
  show "wt_stack st2 = v # wt_stack st" using d(9) T(1) by simp
  let ?st3 = "st2\<lparr>wt_stack := wt_stack st, wt_dfn := (wt_dfn st2)(v \<mapsto> \<infinity>)\<rparr>"
  have "w \<in> black st \<union> set (flats L)" if "(v, w) \<in> E" for w
  proof -
    have "w \<noteq> v" using that T(2) assms(4) by blast
    moreover have "w \<notin> set (wt_stack st)" using d(2) [of v w] ps(5) [of w] that T(3) by (auto simp: wto_push_def)
    ultimately show ?thesis using d(1) [OF that] T(1) by auto
  qed
  then have "wto_ok E (black st) ([HElement v] @ L)" by (intro wto_ok_append [OF d(10)] wto_ok_element) blast
  moreover have "wt_dfn ?st3 x = Some \<infinity>" if "x \<in> set (flats L)" for x using growsD(6) [OF p(1) that] by simp
  moreover have "wt_dfn ?st3 x = wt_dfn st x" if "x \<notin> set (flats (HElement v # L))" for x using d(6) [of x] that T(1) by auto
  moreover have "distinct (flats (HElement v # L))" using growsD(2) [OF p(1)] d(4) by auto
  moreover have "set (flats (HElement v # L)) \<subseteq> white st" using d(5) assms(2) by auto
  ultimately have "grows E st ?st3 (HElement v # L) []" unfolding grows_def using d(11) by auto
  then show "visit_post E st v m (HElement v # L) [] ?st3" unfolding visit_post_def using T d(2,3) p(11) by auto
qed

lemma visit_post_component:
  assumes "wto_inv V st" "v \<in> white st" "succs_post E (wto_push v st) v D m lp L T st2" "{w. (v, w) \<in> E} = D" "D \<subseteq> V"
    and "m = enat (wt_num st + 1) \<and> lp" "visitor_ok V E n visit" "wto_measure V st \<le> n" "finite V" "succs v = Some ws" "set ws = D"
  shows "\<exists>Lc st5. wto_component visit succs v (st2\<lparr>wt_stack := wt_stack st,
      wt_dfn := (\<lambda>x. if x \<in> set T then Some 0 else ((wt_dfn st2)(v \<mapsto> \<infinity>)) x)\<rparr>) = Some (HComponent (HElement v # Lc), st5) \<and>
    visit_post E st v m (HComponent (HElement v # Lc) # L) [] st5"
proof -
  note p = succs_postD [OF assms(3)] and d = succs_done [OF assms(1-5)] and ps = push_state [OF assms(1,2)]
  note g = growsD [OF p(1)]
  let ?st4 = "st2\<lparr>wt_stack := wt_stack st, wt_dfn := (\<lambda>x. if x \<in> set T then Some 0 else ((wt_dfn st2)(v \<mapsto> \<infinity>)) x)\<rparr>"
  have TL: "set T \<inter> set (flats L) = {}" using g(2) by auto
  have w4: "white ?st4 = white st2 \<union> set T" using d(4,13) by (auto simp: white_def zero_enat_def)
  have b4: "black ?st4 = insert v (black st \<union> set (flats L))"
  proof -
    have "x \<notin> black st2" if "x \<in> set T" for x using that g(7) [OF that] by (auto simp: black_def)
    then show ?thesis using d(4,12) by (auto simp: black_def zero_enat_def)
  qed
  have no: "w \<notin> set (wt_stack st)" if "u \<in> insert v (set T \<union> set (flats L))" "(u, w) \<in> E" for u w
    using d(2) [OF that(1) _ that(2)] ps(5) [of w] assms(6) by (auto simp: wto_push_def)
  have inv4: "wto_inv V ?st4"
  proof -
    have "v \<in> V" "set T \<subseteq> V" using assms(2) d(5) wto_inv_white [OF assms(1)] by blast+
    then have "dom (wt_dfn ?st4) = V" using d(8) by (auto simp: wto_inv_def dom_def)
    moreover have "distinct (wt_stack ?st4)" using assms(1) by (simp add: wto_inv_def)
    moreover have "x \<in> set (wt_stack ?st4) \<longleftrightarrow> (\<exists>k. wt_dfn ?st4 x = Some (enat k) \<and> 0 < k)" for x
    proof -
      have "x \<in> set (wt_stack st2) \<longleftrightarrow> (\<exists>k. wt_dfn st2 x = Some (enat k) \<and> 0 < k)" using d(8) by (simp add: wto_inv_def)
      moreover have "x \<notin> insert v (set T)" if "x \<in> set (wt_stack st)"
        using that wto_inv_stack [OF assms(1) that] assms(2) d(5) by blast
      ultimately show ?thesis using d(9) by (auto simp: zero_enat_def)
    qed
    moreover have "k \<le> wt_num ?st4" if "wt_dfn ?st4 x = Some (enat k)" for x k
      using that d(8) by (auto simp: wto_inv_def zero_enat_def split: if_splits)
    ultimately show ?thesis by (simp add: wto_inv_def)
  qed
  have meas: "wto_measure V ?st4 < n"
  proof -
    have "card (V - black ?st4) < card (V - black st)"
      using assms(2,9) wto_inv_white [OF assms(1)] white_black [OF assms(2)] b4 by (intro psubset_card_mono) auto
    then have "Suc (card (V - black ?st4)) * Suc (card V) \<le> card (V - black st) * Suc (card V)" by (intro mult_le_mono1) simp
    moreover have "card (white ?st4) \<le> card V" using wto_inv_white [OF inv4] assms(9) by (rule card_mono [rotated])
    ultimately have "wto_measure V ?st4 < card (V - black st) * Suc (card V)" by (simp add: wto_measure_def)
    then show ?thesis using assms(8) by (simp add: wto_measure_def)
  qed
  have out: "w \<in> insert v (set T) \<union> set (flats L) \<union> black st" if "u \<in> insert v (set T)" "(u, w) \<in> E" for u w
  proof -
    have "w \<notin> set (wt_stack st)" using no [of u w] that by blast
    then show ?thesis using that d(1) [of w] g(9) [of u w] ps(3) by (cases "u = v") (auto simp: wto_push_def)
  qed
  have closed: "\<forall>u \<in> set T. \<forall>w. (u, w) \<in> E \<longrightarrow> w \<notin> set (wt_stack ?st4) \<and> (w \<in> white ?st4 \<longrightarrow> w \<in> set T)"
  proof (intro ballI allI impI conjI)
    fix u w assume uw: "u \<in> set T" "(u, w) \<in> E"
    show "w \<notin> set (wt_stack ?st4)" using no [of u w] uw by simp
    assume "w \<in> white ?st4"
    then have "w \<notin> black ?st4" by (rule white_black)
    then have "w \<notin> insert v (black st \<union> set (flats L))" unfolding b4 .
    then show "w \<in> set T" using out [of u w] uw by blast
  qed
  have "set ws \<inter> white ?st4 \<subseteq> set T" using p(3) w4 assms(11) by auto
  then obtain Lc st5 where r: "component_succs visit ws [] ?st4 = Some (Lc, st5)" "grows E ?st4 st5 Lc []" "set (flats Lc) \<subseteq> set T" "set ws \<inter> white st5 = {}"
      "\<forall>h \<in> set Lc. headed E h"
    using component_succs_spec [OF assms(7,9) inv4 meas _ closed, of ws "[]"] w4 assms(5,11) by auto
  note h = growsD [OF r(2)] and hc = grows_colours [OF r(2)]
  have "t = v \<or> t \<in> set (flats Lc)" if "t \<in> set T" for t
    using p(8) [OF that]
  proof (induction rule: rtrancl_induct)
    case (step a b)
    show ?case
    proof (cases "b = v")
      case False
      then have b: "b \<in> set T" "b \<in> white ?st4" using step.hyps(2) w4 by auto
      show ?thesis
      proof (cases "a = v")
        case True
        then have "b \<in> set ws" using step.hyps(2) assms(4,11) by blast
        then show ?thesis using r(4) hc(1) b(2) by auto
      next
        case False
        then have "a \<in> set (flats Lc)" using step.IH by blast
        then show ?thesis using wto_ok_target [OF h(8), of a b] step.hyps(2) white_black [OF b(2)] by blast
      qed
    qed simp
  qed simp
  then have Lc: "set (flats Lc) = set T" using r(3) d(4) by blast
  have flat: "flats (HComponent (HElement v # Lc) # L) = v # flats Lc @ flats L" by simp
  have "wto_ok E (black st) ([HComponent (HElement v # Lc)] @ L)"
  proof (rule wto_ok_append [OF d(10)], rule wto_ok_component)
    show "w \<in> black st \<union> set (flats L) \<or> w = v \<or> w \<in> set (flats Lc)" if "(v, w) \<in> E" for w using out [OF _ that] Lc by blast
    show "wto_ok E (insert v (black st \<union> set (flats L))) Lc" using h(8) b4 by simp
  qed
  moreover have "wt_dfn st5 x = Some \<infinity>" if "x \<in> set (v # flats Lc @ flats L)" for x
  proof (cases "x \<in> set (flats Lc)")
    case False
    then have "wt_dfn st5 x = wt_dfn ?st4 x" using h(5) by simp
    moreover have "x \<notin> set T" "x = v \<or> x \<in> set (flats L)" using that False Lc by auto
    ultimately show ?thesis using g(6) [of x] by auto
  qed (rule h(6))
  moreover have "wt_dfn st5 x = wt_dfn st x" if "x \<notin> set (v # flats Lc @ flats L)" for x
  proof -
    have x: "x \<notin> set (flats Lc)" "x \<notin> insert v (set T \<union> set (flats L))" using that Lc by auto
    then show ?thesis using h(5) [of x] d(6) [OF x(2)] by simp
  qed
  moreover have "distinct (v # flats Lc @ flats L)" using h(2) g(2) d(4) Lc TL by auto
  moreover have "set (v # flats Lc @ flats L) \<subseteq> white st" using d(5) assms(2) Lc by auto
  moreover have "wt_stack st5 = wt_stack st" "wt_num st \<le> wt_num st5" using h(1,4) d(11) by simp_all
  ultimately have "grows E st st5 (HComponent (HElement v # Lc) # L) []" unfolding grows_def flat by simp
  moreover have "set (flats (HComponent (HElement v # Lc) # L)) = insert v (set T \<union> set (flats L))" using Lc by auto
  moreover have "(v, v) \<in> E\<^sup>+"
  proof -
    obtain u where u: "u \<in> insert v (set T)" "(u, v) \<in> E" using p(10) assms(6) by (auto simp: wto_push_def)
    have "(v, u) \<in> E\<^sup>*"
    proof (cases "u = v")
      case False
      then have "(v, u) \<in> (E \<inter> insert v (set T) \<times> insert v (set T))\<^sup>*" using p(8) u(1) by blast
      then show ?thesis by (rule rtrancl_mono [THEN subsetD, rotated]) auto
    qed simp
    then show ?thesis using u(2) by (rule rtrancl_into_trancl1)
  qed
  ultimately have "visit_post E st v m (HComponent (HElement v # Lc) # L) [] st5"
    unfolding visit_post_def using d(2,3) assms(6) p(11) r(5) by simp
  then show ?thesis using r(1) assms(10) by (simp add: wto_component_def)
qed

context finite_digraph
begin

lemma wto_visit_spec: "visitor_ok V (edge_rel succs) n (wto_visit succs n)"
proof (induction n)
  case (Suc n)
  let ?E = "edge_rel succs"
  show ?case unfolding visitor_ok_def
  proof (intro allI impI)
    fix v ret st assume a: "wto_inv V st \<and> v \<in> white st \<and> wto_measure V st < Suc n"
    then have st: "wto_inv V st" "v \<in> white st" "wto_measure V st \<le> n" by simp_all
    obtain ws where ws: "succs v = Some ws" "set ws \<subseteq> V" using succs_closed [of v] st(2) wto_inv_white [OF st(1)] by blast
    have E: "{w. (v, w) \<in> ?E} = set ws" using ws(1) by (auto simp: edge_rel_def)
    then have Ev: "\<forall>w \<in> set ws. (v, w) \<in> ?E" by blast
    note ps = push_state [OF st(1,2)]
    have num: "wt_num (wto_push v st) = wt_num st + 1" "v \<in> set (wt_stack (wto_push v st))" by (simp_all add: wto_push_def)
    have newest: "\<forall>x \<in> set (wt_stack (wto_push v st)). wt_dfn (wto_push v st) x = Some (enat (wt_num (wto_push v st))) \<longrightarrow> x = v"
      using ps(5) by (fastforce simp: wto_push_def)
    have "succs_post ?E (wto_push v st) v {} (enat (wt_num st + 1)) False [] [] (wto_push v st)"
      by (simp add: succs_post_def grows_refl num)
    moreover have "wto_measure V (wto_push v st) < n" using push_measure [OF st(1,2) finite_V] st(3) by simp
    ultimately obtain m lp L T st2 where r: "wto_succs (wto_visit succs n) ws (enat (wt_num st + 1)) False ret (wto_push v st) = Some (m, lp, L @ ret, st2)"
        "succs_post ?E (wto_push v st) v (set ws) m lp L T st2"
      using wto_succs_spec [OF _ ps(1) num(2) ps(4) _ Suc.IH _ finite_V ws(2), of "{}" "enat (wt_num st + 1)" False "[]" "[]" "wto_push v st" ret] Ev newest by auto
    note d = succs_done [OF st(1,2) r(2) E ws(2)]
    show "\<exists>m L T st'. wto_visit succs (Suc n) v ret st = Some (m, L @ ret, st') \<and> visit_post ?E st v m L T st'"
    proof (cases "m = enat (wt_num st + 1)")
      case False
      then have "wto_visit succs (Suc n) v ret st = Some (m, L @ ret, st2)" using ws(1) r(1) d(7) by (simp add: wto_finish_def)
      then show ?thesis using visit_post_open [OF st(1,2) r(2) E ws(2) False] by blast
    next
      case m: True
      show ?thesis
      proof (cases lp)
        case False
        then have sp: "succs_post ?E (wto_push v st) v (set ws) m False L T st2" using r(2) by simp
        note e = visit_post_element [OF st(1,2) sp E ws(2)]
        have "wto_visit succs (Suc n) v ret st = Some (m, (HElement v # L) @ ret, st2\<lparr>wt_stack := wt_stack st, wt_dfn := (wt_dfn st2)(v \<mapsto> \<infinity>)\<rparr>)"
          using ws(1) r(1) d(7) m False e(1) by (simp add: wto_finish_def)
        then show ?thesis using e(2) by blast
      next
        case True
        obtain Lc st5 where c: "wto_component (wto_visit succs n) succs v (st2\<lparr>wt_stack := wt_stack st,
            wt_dfn := (\<lambda>x. if x \<in> set T then Some 0 else ((wt_dfn st2)(v \<mapsto> \<infinity>)) x)\<rparr>) = Some (HComponent (HElement v # Lc), st5)"
            "visit_post ?E st v m (HComponent (HElement v # Lc) # L) [] st5"
          using visit_post_component [of V st v ?E "set ws" m lp L T st2 n "wto_visit succs n" succs ws] st r(2) E ws m True Suc.IH finite_V by blast
        have "wto_visit succs (Suc n) v ret st = Some (m, (HComponent (HElement v # Lc) # L) @ ret, st5)"
          using ws(1) r(1) d(7,9) d(4) m True c(1) by (simp add: wto_finish_def unwind_spec)
        then show ?thesis using c(2) by blast
      qed
    qed
  qed
qed (simp add: visitor_ok_def)

lemma weak_topo_order_spec:
  assumes "set verts = V" "s \<in> V"
  shows "\<exists>hs. weak_topo_order verts succs s = Some (HComponent hs) \<and> distinct (flats hs) \<and> set (flats hs) = reach succs s \<and>
    (\<forall>h \<in> set hs. headed (edge_rel succs) h) \<and>
    (\<forall>u w. u \<in> reach succs s \<and> (u, w) \<in> edge_rel succs \<longrightarrow> before (flats hs) u w \<or> (w, u) \<in> (\<Union>h \<in> set hs. loops h))"
proof -
  let ?E = "edge_rel succs" and ?st = "\<lparr>wt_stack = [], wt_dfn = (\<lambda>v. if v \<in> set verts then Some 0 else None), wt_num = 0\<rparr>"
  let ?n = "Suc (length verts * Suc (length verts) + length verts)"
  have c: "white ?st = V" "black ?st = {}" using assms(1) by (auto simp: white_def black_def split: if_splits)
  have inv: "wto_inv V ?st" using assms(1) by (auto simp: wto_inv_def zero_enat_def split: if_splits)
  have "card V \<le> length verts" using assms(1) card_length [of verts] by simp
  then have "wto_measure V ?st < ?n" by (simp add: wto_measure_def c add_mono mult_le_mono less_Suc_eq_le)
  then obtain m L T st' where r: "wto_visit succs ?n s [] ?st = Some (m, L @ [], st')" "visit_post ?E ?st s m L T st'"
    using wto_visit_spec [of ?n] inv assms(2) c(1) unfolding visitor_ok_def by blast
  note q = visit_postD [OF r(2)]
  have T: "T = []" using q(6) by auto
  have ok: "wto_ok ?E {} L" using growsD(8) [OF q(1)] c(2) by simp
  have "set (flats L) = reach succs s"
  proof
    show "set (flats L) \<subseteq> reach succs s"
    proof
      fix t assume "t \<in> set (flats L)"
      then have "(s, t) \<in> (?E \<inter> white ?st \<times> white ?st)\<^sup>*" using q(8) by blast
      then have "(s, t) \<in> ?E\<^sup>*" by (rule rtrancl_mono [THEN subsetD, rotated]) auto
      then show "t \<in> reach succs s" by (simp add: reach_def)
    qed
    show "reach succs s \<subseteq> set (flats L)"
    proof
      fix t assume "t \<in> reach succs s"
      then have "(s, t) \<in> ?E\<^sup>*" by (simp add: reach_def)
      then show "t \<in> set (flats L)"
      proof (induction rule: rtrancl_induct)
        case base
        show ?case using q(2) T by simp
      next
        case (step a b)
        then show ?case using wto_ok_target [OF ok, of a b] by blast
      qed
    qed
  qed
  moreover have "distinct (flats L)" using growsD(2) [OF q(1)] T by simp
  moreover have "weak_topo_order verts succs s = Some (HComponent L)" using r(1) by (simp add: weak_topo_order_def del: wto_visit.simps)
  ultimately show ?thesis using ok q(9) unfolding wto_ok_def by blast
qed

end

section \<open>Properties\<close>

text \<open>
  C8: \<^verbatim>\<open>weak_topo_order\<close> ends on every well-formed graph and lists every vertex reachable from the start exactly once.  For
  every edge, its source stands before its target, or the target is the head of a component that contains the source.  Every
  component starts with its head, and the head lies on a cycle.
\<close>

theorem weak_topo_order_correct:
  assumes "wf_al g" "s \<in> set (al_vertices g)"
  shows "\<exists>hs. weak_topo_order (al_vertices g) (al_succs g) s = Some (HComponent hs) \<and>
    distinct (flats hs) \<and> set (flats hs) = {v. (s, v) \<in> (ag_rel (abs_al g))\<^sup>*} \<and>
    (\<forall>h \<in> set hs. headed (ag_rel (abs_al g)) h) \<and>
    (\<forall>u w. (s, u) \<in> (ag_rel (abs_al g))\<^sup>* \<and> (u, w) \<in> ag_rel (abs_al g) \<longrightarrow>
       before (flats hs) u w \<or> (w, u) \<in> (\<Union>h \<in> set hs. loops h))"
  using al_search.weak_topo_order_spec [of "al_vertices g" g s] assms reach_al [OF assms(1)] al_edge_rel [OF assms(1)] by simp

theorem weak_topo_order_correct_witness:
  "wf_al (fst (al_add_vertex al_new 7) :: (nat, nat) adjacency_list) \<and>
   (\<exists>hs. weak_topo_order (al_vertices (fst (al_add_vertex al_new 7) :: (nat, nat) adjacency_list))
      (al_succs (fst (al_add_vertex al_new 7) :: (nat, nat) adjacency_list)) (AlVertex 0) = Some (HComponent hs) \<and> distinct (flats hs))"
proof -
  let ?g = "fst (al_add_vertex al_new 7) :: (nat, nat) adjacency_list"
  have "wf_al ?g" using al_singleton [of 7] by blast
  moreover have "AlVertex 0 \<in> set (al_vertices ?g)" by (simp add: al_vertices_def al_add_vertex_def al_new_def Let_def)
  ultimately show ?thesis using weak_topo_order_correct [of ?g "AlVertex 0"] by blast
qed

end
