(* ===== verification/Avalue.thy ===== *)
theory Avalue
  imports Il_Exec
begin

text \<open>
  Abstract values, from \<^verbatim>\<open>abstract-interp/src\<close>: program points, constraints and the trait \<^verbatim>\<open>Avalue\<close> of
  \<^verbatim>\<open>interpreter.rs\<close>, and the domain of \<^verbatim>\<open>widening.rs\<close> that extends another domain by the program point of
  the last change.

  The trait is the locale \<open>avalue\<close>: \<open>gamma\<close> gives the constants an abstract value stands for, a constant being
  a pair of value and size.  A panic is \<^const>\<open>None\<close>.
\<close>

section \<open>Program points and constraints\<close>

datatype program_point = ProgramPoint (pp_address: nat) (pp_position: nat)

text \<open>The derived order is lexicographic.\<close>

instantiation program_point :: linorder
begin

definition less_eq_program_point :: "program_point \<Rightarrow> program_point \<Rightarrow> bool" where
  "less_eq_program_point p q \<longleftrightarrow> pp_address p < pp_address q \<or> pp_address p = pp_address q \<and> pp_position p \<le> pp_position q"

definition less_program_point :: "program_point \<Rightarrow> program_point \<Rightarrow> bool" where
  "less_program_point p q \<longleftrightarrow> pp_address p < pp_address q \<or> pp_address p = pp_address q \<and> pp_position p < pp_position q"

instance
  by standard (auto simp: less_eq_program_point_def less_program_point_def program_point.expand)

end

datatype constraint =
    CEqual rvalue
  | CLessUnsigned rvalue
  | CLessOrEqualUnsigned rvalue
  | CLessSigned rvalue
  | CLessOrEqualSigned rvalue

section \<open>The interface\<close>

type_synonym const = "u64 \<times> nat"

definition const_rv :: "const \<Rightarrow> rvalue" where
  "const_rv x = RvConstant (fst x) (snd x)"

text \<open>A concrete operation whose operands are constants of the operands of an abstract one.  Constants are canonical.\<close>

definition stands_for :: "('a \<Rightarrow> const set) \<Rightarrow> 'a \<Rightarrow> rvalue \<Rightarrow> bool" where
  "stands_for gamma k r \<longleftrightarrow> (\<exists>x \<in> gamma k. r = const_rv x \<and> take_bit (snd x) (fst x) = fst x)"

definition approximates :: "('a \<Rightarrow> const set) \<Rightarrow> 'a operation \<Rightarrow> rvalue operation \<Rightarrow> bool" where
  "approximates gamma = rel_operation (stands_for gamma)"

locale upper_bounds =
  fixes gamma :: "'a \<Rightarrow> const set"
    and combine :: "'a \<Rightarrow> 'a \<Rightarrow> 'a"
    and initial :: 'a
  assumes combine_sound: "gamma a \<union> gamma b \<subseteq> gamma (combine a b)"
    and initial_empty: "gamma initial = {}"
begin

lemma fold_combine: "gamma acc \<subseteq> gamma (fold (\<lambda>x acc. combine acc x) xs acc)"
  using combine_sound by (induction xs arbitrary: acc) (simp_all, blast)

lemma fold_combine_elem: "x \<in> set xs \<Longrightarrow> gamma x \<subseteq> gamma (fold (\<lambda>x acc. combine acc x) xs acc)"
  using combine_sound fold_combine by (induction xs arbitrary: acc) (simp_all, blast)

end

locale avalue = upper_bounds gamma combine initial
  for gamma :: "'a \<Rightarrow> const set" and combine :: "'a \<Rightarrow> 'a \<Rightarrow> 'a" and initial :: 'a +
  fixes abstract_value :: "rvalue \<Rightarrow> 'a"
    and exec :: "program_point \<Rightarrow> 'a operation \<Rightarrow> 'a option"
  assumes value_sound: "take_bit s v = v \<Longrightarrow> (v, s) \<in> gamma (abstract_value (RvConstant v s))"
    and exec_sound: "approximates gamma op cop \<Longrightarrow> exec pp op = Some k \<Longrightarrow> execute cop = Some (RvConstant v s) \<Longrightarrow> (v, s) \<in> gamma k"

lemma execute_phi_constant: "execute_phi vs = Some r \<Longrightarrow> r \<noteq> RvUndefined \<Longrightarrow> r \<in> set vs"
  by (cases vs rule: execute_phi.cases) (auto split: if_splits)

lemma approximates_phi:
  assumes "approximates gamma (Phi ks) cop" "execute cop = Some (RvConstant v s)"
  shows "\<exists>k \<in> set ks. (v, s) \<in> gamma k"
proof -
  obtain vs where vs: "cop = Phi vs" "list_all2 (stands_for gamma) ks vs" using assms(1) by (cases cop) (auto simp: approximates_def)
  then have "RvConstant v s \<in> set vs" using assms(2) execute_phi_constant [of vs "RvConstant v s"] by simp
  then obtain i where "i < length vs" "vs ! i = RvConstant v s" by (auto simp: in_set_conv_nth)
  then have "i < length ks" "stands_for gamma (ks ! i) (RvConstant v s)" using vs(2) by (auto simp: list_all2_conv_all_nth)
  then show ?thesis using nth_mem by (fastforce simp: stands_for_def const_rv_def)
qed

section \<open>The widening domain\<close>

record 'a widening =
  wd_value :: 'a
  wd_point :: "program_point option"

definition widening_abstract_value :: "(rvalue \<Rightarrow> 'a) \<Rightarrow> rvalue \<Rightarrow> 'a widening" where
  "widening_abstract_value abstract_value v = \<lparr>wd_value = abstract_value v, wd_point = None\<rparr>"

definition widening_abstract_constraint :: "(constraint \<Rightarrow> 'a) \<Rightarrow> constraint \<Rightarrow> 'a widening" where
  "widening_abstract_constraint abstract_constraint c = \<lparr>wd_value = abstract_constraint c, wd_point = None\<rparr>"

text \<open>\<^verbatim>\<open>ops.iter().map(..).max() > Some(pp)\<close>; the maximum of nothing is not greater.\<close>

definition point_or :: "program_point \<Rightarrow> 'a widening \<Rightarrow> program_point" where
  "point_or pp x = (case wd_point x of Some p \<Rightarrow> p | None \<Rightarrow> pp)"

definition widens :: "program_point \<Rightarrow> 'a widening list \<Rightarrow> bool" where
  "widens pp ops \<longleftrightarrow> (case map (point_or pp) ops of [] \<Rightarrow> False | p # ps \<Rightarrow> pp < fold max ps p)"

fun widening_phi :: "('a \<Rightarrow> 'a \<Rightarrow> 'a) \<Rightarrow> ('a \<Rightarrow> 'a \<Rightarrow> 'a) \<Rightarrow> 'a \<Rightarrow> bool \<Rightarrow> 'a widening list \<Rightarrow> 'a option" where
  "widening_phi widen combine initial w [] = None"
| "widening_phi widen combine initial w [x] = Some (wd_value x)"
| "widening_phi widen combine initial w ops =
     Some (fold (\<lambda>x acc. if w then widen acc x else combine acc x) (map wd_value ops) initial)"

definition widening_execute ::
  "(program_point \<Rightarrow> 'a operation \<Rightarrow> 'a option) \<Rightarrow> ('a \<Rightarrow> 'a \<Rightarrow> 'a) \<Rightarrow> ('a \<Rightarrow> 'a \<Rightarrow> 'a) \<Rightarrow> 'a \<Rightarrow>
   program_point \<Rightarrow> 'a widening operation \<Rightarrow> 'a widening option" where
  "widening_execute exec widen combine initial pp op =
     map_option (\<lambda>v. \<lparr>wd_value = v, wd_point = Some pp\<rparr>)
       (case op of
          Phi ops \<Rightarrow> widening_phi widen combine initial (widens pp ops) ops
        | _ \<Rightarrow> Option.bind (lift op wd_value) (exec pp))"

definition widening_widen :: "('a \<Rightarrow> 'a \<Rightarrow> 'a) \<Rightarrow> 'a widening \<Rightarrow> 'a widening \<Rightarrow> 'a widening" where
  "widening_widen widen self s = \<lparr>wd_value = widen (wd_value self) (wd_value s), wd_point = wd_point self\<rparr>"

definition widening_combine :: "('a \<Rightarrow> 'a \<Rightarrow> 'a) \<Rightarrow> 'a widening \<Rightarrow> 'a widening \<Rightarrow> 'a widening" where
  "widening_combine combine self s = \<lparr>wd_value = combine (wd_value self) (wd_value s), wd_point = wd_point self\<rparr>"

definition widening_narrow :: "'a widening \<Rightarrow> 'a widening \<Rightarrow> 'a widening" where
  "widening_narrow self a = self"

definition widening_initial :: "'a \<Rightarrow> 'a widening" where
  "widening_initial initial = \<lparr>wd_value = initial, wd_point = None\<rparr>"

definition widening_more_exact :: "('a \<Rightarrow> 'a \<Rightarrow> bool) \<Rightarrow> 'a widening \<Rightarrow> 'a widening \<Rightarrow> bool" where
  "widening_more_exact more_exact self a \<longleftrightarrow> more_exact (wd_value self) (wd_value a)"

definition widening_extract :: "('a \<Rightarrow> nat \<Rightarrow> nat \<Rightarrow> 'a option) \<Rightarrow> 'a widening \<Rightarrow> nat \<Rightarrow> nat \<Rightarrow> 'a widening option" where
  "widening_extract extract self sz off =
     map_option (\<lambda>v. \<lparr>wd_value = v, wd_point = wd_point self\<rparr>) (extract (wd_value self) sz off)"

text \<open>The operation is a Phi function that is evaluated by widening.\<close>

fun widening_step :: "program_point \<Rightarrow> 'a widening operation \<Rightarrow> bool" where
  "widening_step pp (Phi ops) \<longleftrightarrow> widens pp ops"
| "widening_step pp _ \<longleftrightarrow> False"

context avalue
begin

text \<open>The extended domain is sound at every operation that is not evaluated by widening.\<close>

lemma widening_sound:
  assumes "approximates (gamma \<circ> wd_value) op cop" "\<not> widening_step pp op"
    and "widening_execute exec widen combine initial pp op = Some w" "execute cop = Some (RvConstant v s)"
  shows "(v, s) \<in> gamma (wd_value w)"
proof (cases "\<exists>ops. op = Phi ops")
  case True
  then obtain ops where op: "op = Phi ops" by blast
  then obtain k where k: "k \<in> set ops" "(v, s) \<in> gamma (wd_value k)" using approximates_phi [OF assms(1) [unfolded op] assms(4)] by auto
  have "\<not> widens pp ops" using assms(2) op by simp
  then have "widening_phi widen combine initial False ops = Some (wd_value w)"
    using assms(3) op by (auto simp: widening_execute_def)
  with k fold_combine_elem [of "wd_value k" "map wd_value ops" initial] show ?thesis
    by (cases ops rule: remdups_adj.cases) auto
next
  case False
  then have "widening_execute exec widen combine initial pp op = map_option (\<lambda>v. \<lparr>wd_value = v, wd_point = Some pp\<rparr>) (exec pp (map_operation wd_value op))"
    by (cases op) (simp_all add: widening_execute_def lift_eq_map)
  then have "map_option (\<lambda>v. \<lparr>wd_value = v, wd_point = Some pp\<rparr>) (exec pp (map_operation wd_value op)) = Some w" using assms(3) by simp
  then have "exec pp (map_operation wd_value op) = Some (wd_value w)" by auto
  moreover have "approximates gamma (map_operation wd_value op) cop"
    using assms(1) by (simp add: approximates_def operation.rel_map stands_for_def [abs_def] comp_def)
  ultimately show ?thesis using exec_sound assms(4) by blast
qed

end

end
