(* ===== verification/Kset.thy ===== *)
theory Kset
  imports Avalue "HOL-Library.Product_Lexorder"
begin

text \<open>
  The domain of bounded sets of constants, \<^verbatim>\<open>abstract-interp/src/kset.rs\<close>.  A \<^verbatim>\<open>HashSet\<close> of constants is a set;
  draining it into a vector that is then sorted gives the sorted list of its elements.

  The properties show that the operations over-approximate the evaluator on constants, that
  \<^verbatim>\<open>combine\<close> is the least upper bound, and which order \<^verbatim>\<open>more_exact\<close> decides.
\<close>

section \<open>The domain of bounded sets\<close>

definition KSET_MAXIMAL_CARDINALITY :: nat where
  "KSET_MAXIMAL_CARDINALITY = 10"

datatype kset = KJoin | KSet "const list" | KMeet

text \<open>\<^verbatim>\<open>1u64 << size\<close> is only evaluated below 64.\<close>

definition singleton :: "u64 \<Rightarrow> nat \<Rightarrow> kset" where
  "singleton v s = KSet [(if s < 64 then v mod push_bit s 1 else v, s)]"

definition kset_abstract_value :: "rvalue \<Rightarrow> kset" where
  "kset_abstract_value v = (case v of RvConstant val s \<Rightarrow> singleton val s | _ \<Rightarrow> KJoin)"

definition kset_abstract_constraint :: "constraint \<Rightarrow> kset" where
  "kset_abstract_constraint c = (case c of CEqual (RvConstant val s) \<Rightarrow> singleton val s | _ \<Rightarrow> KJoin)"

text \<open>
  The loops of \<^verbatim>\<open>permute\<close>: \<open>Some None\<close> is the early return of \<^verbatim>\<open>Join\<close>.
\<close>

fun permute_row :: "(rvalue \<Rightarrow> rvalue \<Rightarrow> rvalue option) \<Rightarrow> const \<Rightarrow> const list \<Rightarrow> const set \<Rightarrow> const set option option" where
  "permute_row f x [] ret = Some (Some ret)"
| "permute_row f x (y # ys) ret =
     (case f (const_rv x) (const_rv y) of
        None \<Rightarrow> None
      | Some (RvConstant v s) \<Rightarrow>
          (if card (insert (v, s) ret) > KSET_MAXIMAL_CARDINALITY then Some None
           else permute_row f x ys (insert (v, s) ret))
      | Some _ \<Rightarrow> permute_row f x ys ret)"

fun permute_rows :: "(rvalue \<Rightarrow> rvalue \<Rightarrow> rvalue option) \<Rightarrow> const list \<Rightarrow> const list \<Rightarrow> const set \<Rightarrow> const set option option" where
  "permute_rows f [] b ret = Some (Some ret)"
| "permute_rows f (x # a) b ret =
     (case permute_row f x b ret of
        Some (Some ret') \<Rightarrow> permute_rows f a b ret'
      | r \<Rightarrow> r)"

definition drain_sorted :: "const set \<Rightarrow> kset" where
  "drain_sorted s = (if s = {} then KMeet else KSet (sorted_list_of_set s))"

fun kset_permute :: "kset \<Rightarrow> kset \<Rightarrow> (rvalue \<Rightarrow> rvalue \<Rightarrow> rvalue option) \<Rightarrow> kset option" where
  "kset_permute KJoin b f = Some KJoin"
| "kset_permute a KJoin f = Some KJoin"
| "kset_permute (KSet a) (KSet b) f =
     map_option (\<lambda>r. case r of None \<Rightarrow> KJoin | Some s \<Rightarrow> drain_sorted s) (permute_rows f a b {})"
| "kset_permute a b f = Some KMeet"

fun constants_of :: "rvalue list \<Rightarrow> const list" where
  "constants_of [] = []"
| "constants_of (RvConstant v s # vs) = (v, s) # constants_of vs"
| "constants_of (_ # vs) = constants_of vs"

fun kset_map :: "kset \<Rightarrow> (rvalue \<Rightarrow> rvalue option) \<Rightarrow> kset option" where
  "kset_map (KSet a) f =
     map_option (\<lambda>vs. let s = set (constants_of vs) in if card s > KSET_MAXIMAL_CARDINALITY then KJoin else drain_sorted s)
       (those (map (f \<circ> const_rv) a))"
| "kset_map a f = Some a"

fun kset_combine :: "kset \<Rightarrow> kset \<Rightarrow> kset" where
  "kset_combine KJoin b = KJoin"
| "kset_combine a KJoin = KJoin"
| "kset_combine a KMeet = a"
| "kset_combine KMeet b = b"
| "kset_combine (KSet a) (KSet b) =
     (let ret = sorted_list_of_set (set a \<union> set b)
      in if ret = [] then KMeet else if length ret > KSET_MAXIMAL_CARDINALITY then KJoin else KSet ret)"

fun kset_execute :: "program_point \<Rightarrow> kset operation \<Rightarrow> kset option" where
  "kset_execute _ (And a b) = kset_permute a b (\<lambda>a b. execute (And a b))"
| "kset_execute _ (InclusiveOr a b) = kset_permute a b (\<lambda>a b. execute (InclusiveOr a b))"
| "kset_execute _ (ExclusiveOr a b) = kset_permute a b (\<lambda>a b. execute (ExclusiveOr a b))"
| "kset_execute _ (Add a b) = kset_permute a b (\<lambda>a b. execute (Add a b))"
| "kset_execute _ (Subtract a b) = kset_permute a b (\<lambda>a b. execute (Subtract a b))"
| "kset_execute _ (Multiply a b) = kset_permute a b (\<lambda>a b. execute (Multiply a b))"
| "kset_execute _ (DivideSigned a b) = kset_permute a b (\<lambda>a b. execute (DivideSigned a b))"
| "kset_execute _ (DivideUnsigned a b) = kset_permute a b (\<lambda>a b. execute (DivideUnsigned a b))"
| "kset_execute _ (Modulo a b) = kset_permute a b (\<lambda>a b. execute (Modulo a b))"
| "kset_execute _ (ShiftRightSigned a b) = kset_permute a b (\<lambda>a b. execute (ShiftRightSigned a b))"
| "kset_execute _ (ShiftRightUnsigned a b) = kset_permute a b (\<lambda>a b. execute (ShiftRightUnsigned a b))"
| "kset_execute _ (ShiftLeft a b) = kset_permute a b (\<lambda>a b. execute (ShiftLeft a b))"
| "kset_execute _ (LessOrEqualSigned a b) = kset_permute a b (\<lambda>a b. execute (LessOrEqualSigned a b))"
| "kset_execute _ (LessOrEqualUnsigned a b) = kset_permute a b (\<lambda>a b. execute (LessOrEqualUnsigned a b))"
| "kset_execute _ (LessSigned a b) = kset_permute a b (\<lambda>a b. execute (LessSigned a b))"
| "kset_execute _ (LessUnsigned a b) = kset_permute a b (\<lambda>a b. execute (LessUnsigned a b))"
| "kset_execute _ (Equal a b) = kset_permute a b (\<lambda>a b. execute (Equal a b))"
| "kset_execute _ (Move a) = kset_map a (\<lambda>a. execute (Move a))"
| "kset_execute _ (Call a) = kset_map a (\<lambda>a. execute (Call a))"
| "kset_execute _ (ZeroExtend sz a) = kset_map a (\<lambda>a. execute (ZeroExtend sz a))"
| "kset_execute _ (SignExtend sz a) = kset_map a (\<lambda>a. execute (SignExtend sz a))"
| "kset_execute _ (Select off a b) = kset_permute a b (\<lambda>a b. execute (Select off a b))"
| "kset_execute _ (Initialize _ _) = Some KMeet"
| "kset_execute _ (Load r e sz a) = kset_map a (\<lambda>a. execute (Load r e sz a))"
| "kset_execute _ (Store r e sz a b) = kset_permute a b (\<lambda>a b. execute (Store r e sz a b))"
| "kset_execute _ (Phi ops) =
     (case ops of
        [] \<Rightarrow> None
      | [x] \<Rightarrow> Some x
      | _ \<Rightarrow> Some (fold (\<lambda>x acc. kset_combine acc x) ops KMeet))"

fun kset_narrow :: "kset \<Rightarrow> kset \<Rightarrow> kset" where
  "kset_narrow self KMeet = KMeet"
| "kset_narrow self KJoin = self"
| "kset_narrow KMeet (KSet v) = KMeet"
| "kset_narrow KJoin (KSet v) = KSet v"
| "kset_narrow (KSet w) (KSet v) = KSet (filter (\<lambda>x. x \<in> set v) w)"

definition kset_widen :: "kset \<Rightarrow> kset \<Rightarrow> kset" where
  "kset_widen self s = s"

definition kset_initial :: kset where
  "kset_initial = KMeet"

text \<open>\<^verbatim>\<open>PartialEq\<close> compares the vectors, so it is equality.\<close>

fun kset_more_exact :: "kset \<Rightarrow> kset \<Rightarrow> bool" where
  "kset_more_exact self a \<longleftrightarrow>
     self \<noteq> a \<and>
     (case (self, a) of
        (KJoin, _) \<Rightarrow> True
      | (_, KMeet) \<Rightarrow> True
      | (KSet a, KSet b) \<Rightarrow> set b \<subseteq> set a
      | _ \<Rightarrow> False)"

text \<open>Shifts by 64 and more, and \<^verbatim>\<open>size - 1\<close> for size 0, panic if there is an element.\<close>

definition extract_const :: "nat \<Rightarrow> nat \<Rightarrow> const \<Rightarrow> const option" where
  "extract_const sz off x =
     (if off < 64 \<and> 0 < sz \<and> sz - 1 < 64 then Some (drop_bit off (fst x) mod push_bit (sz - 1) 1, sz) else None)"

fun kset_extract :: "kset \<Rightarrow> nat \<Rightarrow> nat \<Rightarrow> kset option" where
  "kset_extract KJoin sz off = Some KJoin"
| "kset_extract KMeet sz off = Some KMeet"
| "kset_extract (KSet v) sz off = map_option KSet (those (map (extract_const sz off) v))"

section \<open>Meaning of a value\<close>

fun kset_gamma :: "kset \<Rightarrow> const set" where
  "kset_gamma KJoin = UNIV"
| "kset_gamma (KSet v) = set v"
| "kset_gamma KMeet = {}"

text \<open>The invariant of the comments: a set is not empty, bounded, and its vector is sorted.\<close>

fun wf_kset :: "kset \<Rightarrow> bool" where
  "wf_kset (KSet v) \<longleftrightarrow> v \<noteq> [] \<and> length v \<le> KSET_MAXIMAL_CARDINALITY \<and> sorted v \<and> distinct v"
| "wf_kset _ \<longleftrightarrow> True"

lemma drain_sorted_gamma [simp]: "finite s \<Longrightarrow> kset_gamma (drain_sorted s) = s"
  by (simp add: drain_sorted_def)

lemma drain_sorted_wf: "finite s \<Longrightarrow> card s \<le> KSET_MAXIMAL_CARDINALITY \<Longrightarrow> wf_kset (drain_sorted s)"
  by (auto simp: drain_sorted_def)

lemma permute_row_spec:
  assumes "permute_row f x ys ret = Some r" "finite ret" "card ret \<le> KSET_MAXIMAL_CARDINALITY"
  shows "case r of None \<Rightarrow> True
    | Some s \<Rightarrow> finite s \<and> card s \<le> KSET_MAXIMAL_CARDINALITY \<and> ret \<subseteq> s \<and>
        (\<forall>y \<in> set ys. \<forall>v n. f (const_rv x) (const_rv y) = Some (RvConstant v n) \<longrightarrow> (v, n) \<in> s)"
  using assms
proof (induction ys arbitrary: ret)
  case (Cons y ys)
  then obtain z where z: "f (const_rv x) (const_rv y) = Some z" by (auto split: option.splits)
  show ?case
  proof (cases z)
    case (RvConstant v n)
    show ?thesis
    proof (cases "card (insert (v, n) ret) > KSET_MAXIMAL_CARDINALITY")
      case True
      then show ?thesis using Cons.prems(1) z RvConstant by simp
    next
      case False
      then have "permute_row f x ys (insert (v, n) ret) = Some r" using Cons.prems(1) z RvConstant by simp
      from Cons.IH [OF this] show ?thesis using False Cons.prems(2) z RvConstant by (auto split: option.splits)
    qed
  next
    case RvUndefined
    then show ?thesis using Cons.IH [of ret] Cons.prems z by (simp split: option.splits)
  next
    case (RvVariable n ss off sz)
    then show ?thesis using Cons.IH [of ret] Cons.prems z by (simp split: option.splits)
  qed
qed auto

lemma permute_rows_spec:
  assumes "permute_rows f xs ys ret = Some r" "finite ret" "card ret \<le> KSET_MAXIMAL_CARDINALITY"
  shows "case r of None \<Rightarrow> True
    | Some s \<Rightarrow> finite s \<and> card s \<le> KSET_MAXIMAL_CARDINALITY \<and> ret \<subseteq> s \<and>
        (\<forall>x \<in> set xs. \<forall>y \<in> set ys. \<forall>v n. f (const_rv x) (const_rv y) = Some (RvConstant v n) \<longrightarrow> (v, n) \<in> s)"
  using assms
proof (induction xs arbitrary: ret)
  case (Cons x xs)
  then obtain q where q: "permute_row f x ys ret = Some q" by (auto split: option.splits)
  show ?case
  proof (cases q)
    case None
    then show ?thesis using Cons.prems q by auto
  next
    case (Some s)
    note row = permute_row_spec [OF q Cons.prems(2,3), unfolded Some, simplified]
    moreover have "permute_rows f xs ys s = Some r" using Cons.prems(1) q Some by simp
    ultimately show ?thesis using Cons.IH [of s] by (auto split: option.splits)
  qed
qed auto

lemma kset_permute_sound:
  assumes "kset_permute a b f = Some k" "x \<in> kset_gamma a" "y \<in> kset_gamma b" "f (const_rv x) (const_rv y) = Some (RvConstant v n)"
  shows "(v, n) \<in> kset_gamma k"
  using assms
proof (cases "(a, b, f)" rule: kset_permute.cases)
  case (3 xs ys g)
  then obtain r where "permute_rows f xs ys {} = Some r" "k = (case r of None \<Rightarrow> KJoin | Some s \<Rightarrow> drain_sorted s)"
    using assms(1) by auto
  then show ?thesis using permute_rows_spec [of f xs ys "{}" r] assms(2-4) 3 by (auto split: option.splits)
qed auto

lemma kset_permute_wf: "kset_permute a b f = Some k \<Longrightarrow> wf_kset k"
proof (cases "(a, b, f)" rule: kset_permute.cases)
  case (3 xs ys g)
  assume "kset_permute a b f = Some k"
  then obtain r where "permute_rows f xs ys {} = Some r" "k = (case r of None \<Rightarrow> KJoin | Some s \<Rightarrow> drain_sorted s)"
    using 3 by auto
  then show ?thesis using permute_rows_spec [of f xs ys "{}" r] by (auto split: option.splits intro: drain_sorted_wf)
qed auto

lemma constants_of_set: "(v, n) \<in> set (constants_of vs) \<longleftrightarrow> RvConstant v n \<in> set vs"
  by (induction vs rule: constants_of.induct) auto

lemma kset_map_sound:
  assumes "kset_map a f = Some k" "x \<in> kset_gamma a" "f (const_rv x) = Some (RvConstant v n)"
  shows "(v, n) \<in> kset_gamma k"
proof (cases a)
  case (KSet xs)
  then obtain vs where vs: "those (map (f \<circ> const_rv) xs) = Some vs"
    "k = (if card (set (constants_of vs)) > KSET_MAXIMAL_CARDINALITY then KJoin else drain_sorted (set (constants_of vs)))"
    using assms(1) by (auto simp: Let_def)
  have "RvConstant v n \<in> set vs" using those_map_set [OF vs(1), of "RvConstant v n"] assms(2,3) KSet by auto
  then have "(v, n) \<in> set (constants_of vs)" by (simp add: constants_of_set)
  then show ?thesis using vs(2) by auto
qed (use assms in auto)

lemma kset_map_wf: "kset_map a f = Some k \<Longrightarrow> wf_kset a \<Longrightarrow> wf_kset k"
  by (cases a) (auto simp: Let_def intro!: drain_sorted_wf)

lemma kset_combine_gamma:
  "kset_gamma (kset_combine a b) =
     (if card (kset_gamma a \<union> kset_gamma b) \<le> KSET_MAXIMAL_CARDINALITY \<or> a = KMeet \<or> b = KMeet then kset_gamma a \<union> kset_gamma b else UNIV)"
  by (cases "(a, b)" rule: kset_combine.cases) (auto simp: Let_def)

lemma kset_combine_upper: "kset_gamma a \<union> kset_gamma b \<subseteq> kset_gamma (kset_combine a b)"
  unfolding kset_combine_gamma by auto

lemma kset_combine_wf: "wf_kset a \<Longrightarrow> wf_kset b \<Longrightarrow> wf_kset (kset_combine a b)"
  by (cases "(a, b)" rule: kset_combine.cases) (auto simp: Let_def)

interpretation kset_bounds: upper_bounds kset_gamma kset_combine kset_initial
  by unfold_locales (use kset_combine_upper in \<open>auto simp: kset_initial_def\<close>)

lemma kset_phi:
  assumes "kset_execute pp (Phi ops) = Some k" "x \<in> set ops"
  shows "kset_gamma x \<subseteq> kset_gamma k"
  using assms kset_bounds.fold_combine_elem [of x ops KMeet] by (cases ops rule: remdups_adj.cases) auto

lemma kset_execute_over:
  assumes "approximates kset_gamma op cop" "kset_execute pp op = Some k" "execute cop = Some (RvConstant v s)"
  shows "(v, s) \<in> kset_gamma k"
proof (cases "\<exists>ops. op = Phi ops")
  case True
  then obtain ops where op: "op = Phi ops" by blast
  then show ?thesis using approximates_phi [OF assms(1) [unfolded op] assms(3)] kset_phi assms(2) by blast
next
  case False
  show ?thesis using assms(1) [unfolded approximates_def] assms(2,3) False
    by (cases rule: operation.rel_cases)
       (auto simp: stands_for_def simp del: execute.simps intro: kset_permute_sound kset_map_sound, simp)
qed

interpretation kset: avalue kset_gamma kset_combine kset_initial kset_abstract_value kset_execute
proof unfold_locales
  show "(v, s) \<in> kset_gamma (kset_abstract_value (RvConstant v s))" if "take_bit s v = v" for v s
    using that by (simp add: kset_abstract_value_def singleton_def push_bit_eq_mult take_bit_eq_mod)
qed (rule kset_execute_over)

lemma kset_execute_invariant:
  assumes "\<forall>k \<in> set (operands op). wf_kset k" "kset_execute pp op = Some k"
  shows "wf_kset k"
proof (cases "\<exists>ops. op = Phi ops")
  case True
  then obtain ops where op: "op = Phi ops" by blast
  have "wf_kset (fold (\<lambda>x acc. kset_combine acc x) xs acc)" if "\<forall>k \<in> set xs. wf_kset k" "wf_kset acc" for xs acc
    using that by (induction xs arbitrary: acc) (simp_all add: kset_combine_wf)
  from this [of ops KMeet] show ?thesis using assms op by (cases ops rule: remdups_adj.cases) auto
next
  case False
  then show ?thesis using assms by (cases op) (auto simp del: execute.simps intro: kset_permute_wf kset_map_wf)
qed

section \<open>Properties\<close>

text \<open>
  C13: The operations on sets of constants over-approximate the evaluator: if the operands of a
  concrete operation are among the constants of the abstract operands and its result
  is a constant, the constant is among those of the abstract result.
\<close>

theorem kset_execute_sound:
  assumes "approximates kset_gamma op cop" "kset_execute pp op = Some k" "execute cop = Some (RvConstant v s)"
  shows "(v, s) \<in> kset_gamma k"
  by (rule kset.exec_sound [OF assms])

theorem kset_execute_sound_witness:
  "\<exists>k. kset_execute (ProgramPoint 0 0) (Add (KSet [(1, 8), (255, 8)]) (KSet [(1, 8)])) = Some k \<and> (0, 8) \<in> kset_gamma k"
proof -
  have ex: "execute (Add (RvConstant 255 8) (RvConstant 1 8)) = Some (RvConstant 0 8)"
    "execute (Add (RvConstant 1 8) (RvConstant 1 8)) = Some (RvConstant 2 8)"
    by (simp_all add: exec_simps)
  have ap: "approximates kset_gamma (Add (KSet [(1, 8), (255, 8)]) (KSet [(1, 8)])) (Add (RvConstant 255 8) (RvConstant 1 8))"
    by (auto simp: approximates_def stands_for_def const_rv_def)
  obtain k where k: "kset_execute (ProgramPoint 0 0) (Add (KSet [(1, 8), (255, 8)]) (KSet [(1, 8)])) = Some k"
    using ex by (simp add: const_rv_def KSET_MAXIMAL_CARDINALITY_def del: execute.simps)
  from kset_execute_sound [OF ap k ex(1)] k show ?thesis by blast
qed

text \<open>
  Operations without a constant result yield the empty set: a \<^verbatim>\<open>Load\<close> from known addresses and \<^verbatim>\<open>Initialize\<close>, which
  can have any value, are represented by no value at all.
\<close>

theorem kset_load_empty:
  "kset_execute pp (Load r e sz (KSet xs)) = Some KMeet \<and> kset_execute pp (Initialize n m) = Some KMeet \<and> kset_gamma KMeet = {}"
proof -
  have "execute (Load r e sz v) = Some RvUndefined" for v :: rvalue by (cases v) simp_all
  then have "those (map ((\<lambda>a. execute (Load r e sz a)) \<circ> const_rv) xs) = Some (map (\<lambda>_. RvUndefined) xs)" by (induction xs) simp_all
  moreover have "constants_of (map (\<lambda>_. RvUndefined) xs) = []" by (induction xs) simp_all
  ultimately show ?thesis by (simp add: drain_sorted_def Let_def del: execute.simps)
qed

text \<open>
  The operations keep the invariant of the data type: a set is sorted, not empty and has at most
  ten elements.
\<close>

theorem kset_operations_wf:
  "(\<forall>k. (\<forall>a \<in> set (operands op). wf_kset a) \<and> kset_execute pp op = Some k \<longrightarrow> wf_kset k) \<and>
   (wf_kset a \<and> wf_kset b \<longrightarrow> wf_kset (kset_combine a b)) \<and> wf_kset (kset_abstract_value rv) \<and> wf_kset (kset_abstract_constraint c)"
  using kset_execute_invariant kset_combine_wf
  by (auto simp: kset_abstract_value_def kset_abstract_constraint_def singleton_def KSET_MAXIMAL_CARDINALITY_def
      split: rvalue.split constraint.split)

theorem kset_operations_wf_witness:
  "wf_kset (KSet [(1, 8)]) \<and> wf_kset (kset_combine (KSet [(1, 8)]) (KSet [(2, 8)]))"
  using kset_operations_wf [of _ _ "KSet [(1, 8)]" "KSet [(2, 8)]"] by (simp add: KSET_MAXIMAL_CARDINALITY_def)

text \<open>
  \<^verbatim>\<open>combine\<close> is the least upper bound of the domain: it contains both values, and every well-formed value that contains
  both contains it.
\<close>

theorem kset_combine_least:
  assumes "wf_kset a" "wf_kset b" "wf_kset c" "kset_gamma a \<subseteq> kset_gamma c" "kset_gamma b \<subseteq> kset_gamma c"
  shows "kset_gamma a \<union> kset_gamma b \<subseteq> kset_gamma (kset_combine a b) \<and> kset_gamma (kset_combine a b) \<subseteq> kset_gamma c"
proof -
  have "card (kset_gamma a \<union> kset_gamma b) \<le> KSET_MAXIMAL_CARDINALITY" if "c \<noteq> KJoin"
  proof -
    have "finite (kset_gamma c)" "card (kset_gamma c) \<le> KSET_MAXIMAL_CARDINALITY"
      using that assms(3) by (cases c; auto simp: distinct_card)+
    then show ?thesis using card_mono [of "kset_gamma c" "kset_gamma a \<union> kset_gamma b"] assms(4,5) by simp
  qed
  then show ?thesis using assms(4,5) by (cases "c = KJoin") (auto simp: kset_combine_gamma)
qed

theorem kset_combine_least_witness:
  "wf_kset (KSet [(1, 8)]) \<and> kset_gamma (kset_combine (KSet [(1, 8)]) (KSet [(2, 8)])) \<subseteq> kset_gamma (KSet [(1, 8), (2, 8)])"
  using kset_combine_least [of "KSet [(1, 8)]" "KSet [(2, 8)]" "KSet [(1, 8), (2, 8)]"]
  by (simp add: KSET_MAXIMAL_CARDINALITY_def)

text \<open>
  C14: \<^verbatim>\<open>more_exact\<close> is documented to hold if the receiver is at most the argument.  On well-formed
  values it holds exactly if the receiver stands for strictly more constants.
\<close>

theorem kset_more_exact_inverted:
  assumes "wf_kset a" "wf_kset b"
  shows "kset_more_exact a b \<longleftrightarrow> kset_gamma b \<subset> kset_gamma a"
proof -
  have inf: "set v \<noteq> (UNIV :: const set)" for v using infinite_UNIV_listI finite_set by (metis finite_Prod_UNIV infinite_UNIV_nat finite_prod)
  show ?thesis
  proof (cases a; cases b)
    fix v w assume ab: "a = KSet v" "b = KSet w"
    then have "v = w \<longleftrightarrow> set v = set w" using assms sorted_distinct_set_unique [of v w] by auto
    with ab show ?thesis by auto
  qed (use assms inf in \<open>auto simp: psubset_eq\<close>)
qed

theorem kset_more_exact_inverted_witness:
  "kset_more_exact (KSet [(1, 8), (2, 8)]) (KSet [(1, 8)])"
  using kset_more_exact_inverted [of "KSet [(1, 8), (2, 8)]" "KSet [(1, 8)]"] by (auto simp: KSET_MAXIMAL_CARDINALITY_def)

text \<open>
  \<^verbatim>\<open>extract\<close> reduces the bits modulo \<open>2 ^ (size - 1)\<close>: compared with \<^verbatim>\<open>Rvalue::extract\<close> on the constants of the
  set, the highest bit of every extracted value is cleared, and a single extracted bit is always 0.
\<close>

theorem kset_extract_drops_bit:
  assumes "(v, n) \<in> kset_gamma (KSet xs)" "rvalue_extract (RvConstant v n) sz off = Some (Inr (RvConstant w sz))"
  shows "\<exists>k. kset_extract (KSet xs) sz off = Some k \<and> (take_bit (sz - 1) w, sz) \<in> kset_gamma k \<and>
    (sz = 1 \<longrightarrow> kset_gamma k = {(0, 1)})"
proof -
  have b: "0 < sz" "sz < 64" "off < 64" "w = take_bit sz (drop_bit off v)"
    using assms(2) by (auto simp: push_bit_eq_mult mod_exp_eq_take_bit split: if_splits)
  have e: "extract_const sz off x = Some (take_bit (sz - 1) (drop_bit off (fst x)), sz)" for x
    using b by (auto simp: extract_const_def push_bit_eq_mult mod_exp_eq_take_bit)
  have "kset_extract (KSet xs) sz off = Some (KSet (map (\<lambda>x. (take_bit (sz - 1) (drop_bit off (fst x)), sz)) xs))"
    by (simp add: e those_eq_Some_iff)
  moreover have "take_bit (sz - 1) w = take_bit (sz - 1) (drop_bit off v)" by (simp add: b(4))
  ultimately show ?thesis using assms(1) by force
qed

theorem kset_extract_drops_bit_witness:
  "\<exists>k. kset_extract (KSet [(0xFF, 8)]) 4 4 = Some k \<and> (7, 4) \<in> kset_gamma k"
  using kset_extract_drops_bit [of "0xFF" 8 "[(0xFF, 8)]" 4 4 15]
  by (simp add: drop_bit_eq_div push_bit_eq_mult take_bit_eq_mod)

text \<open>
  The widening domain over bounded sets over-approximates the evaluator at every operation, except at
  Phi functions with an operand changed at a later program point: there the result is the
  value of the last operand alone.
\<close>

theorem kset_widening_execute:
  assumes "approximates (kset_gamma \<circ> wd_value) op cop" "execute cop = Some (RvConstant v s)"
    and "widening_execute kset_execute kset_widen kset_combine kset_initial pp op = Some w"
  shows "if widening_step pp op then \<exists>ops. op = Phi ops \<and> wd_value w = wd_value (last ops)
    else (v, s) \<in> kset_gamma (wd_value w)"
proof (cases "widening_step pp op")
  case True
  then obtain ops where op: "op = Phi ops" "widens pp ops" by (cases op) auto
  have last: "fold (\<lambda>x acc. kset_widen acc x) xs acc = last (acc # xs)" for xs acc
    by (induction xs arbitrary: acc) (simp_all add: kset_widen_def)
  have "wd_value w = wd_value (last ops)"
    using assms(3) op last [of "map wd_value ops" kset_initial]
    by (cases ops rule: remdups_adj.cases) (auto simp: widening_execute_def last_map split: if_splits)
  with True op show ?thesis by simp
next
  case False
  then show ?thesis using kset.widening_sound [OF assms(1) False assms(3,2)] by simp
qed

theorem kset_widening_execute_witness:
  "\<exists>w. widening_execute kset_execute kset_widen kset_combine kset_initial (ProgramPoint 0 0)
     (Phi [\<lparr>wd_value = KSet [(1, 8)], wd_point = Some (ProgramPoint 4 0)\<rparr>, \<lparr>wd_value = KSet [(1, 8), (2, 8)], wd_point = None\<rparr>]) = Some w \<and>
     wd_value w = KSet [(1, 8), (2, 8)]"
proof -
  let ?ops = "[\<lparr>wd_value = KSet [(1, 8)], wd_point = Some (ProgramPoint 4 0)\<rparr>, \<lparr>wd_value = KSet [(1, 8), (2, 8)], wd_point = None\<rparr>]"
  have "approximates (kset_gamma \<circ> wd_value) (Phi ?ops) (Phi [RvConstant 1 8, RvConstant 1 8])"
    by (auto simp: approximates_def stands_for_def const_rv_def)
  moreover have "execute (Phi [RvConstant 1 8, RvConstant 1 8]) = Some (RvConstant 1 8)" by simp
  moreover obtain w where w: "widening_execute kset_execute kset_widen kset_combine kset_initial (ProgramPoint 0 0) (Phi ?ops) = Some w"
    by (simp add: widening_execute_def)
  moreover have "widening_step (ProgramPoint 0 0) (Phi ?ops)"
    by (simp add: widens_def point_or_def max_def less_program_point_def less_eq_program_point_def)
  ultimately show ?thesis using kset_widening_execute [of "Phi ?ops" "Phi [RvConstant 1 8, RvConstant 1 8]" 1 8 "ProgramPoint 0 0" w] by auto
qed

end
