(* ===== verification/Addr_Track.thy ===== *)
theory Addr_Track
  imports Avalue
begin

text \<open>
  Bounded address tracking, \<^verbatim>\<open>abstract-interp/src/bounded_addr_track.rs\<close>: a value is an offset into a
  region or somewhere in a region; \<^const>\<open>None\<close> is the global region, in which offsets are absolute.  Each other region
  has a version, which counts the operations whose result is not an offset into the region any more.

  The properties show that the operations over-approximate the evaluator in the global region, that versions stay
  within their limit, and that \<^verbatim>\<open>more_exact\<close> is an order of height four along which \<^verbatim>\<open>combine\<close> climbs.
\<close>

section \<open>The domain\<close>

type_synonym track_region = "(string \<times> nat) option"

datatype addr_track = AtJoin | AtRegion track_region | AtOffset track_region u64 nat | AtMeet

definition VERSION_LIMIT :: nat where
  "VERSION_LIMIT = 10"

definition track_abstract_value :: "rvalue \<Rightarrow> addr_track" where
  "track_abstract_value v = (case v of RvConstant val s \<Rightarrow> AtOffset None val s | _ \<Rightarrow> AtJoin)"

definition track_abstract_constraint :: "constraint \<Rightarrow> addr_track" where
  "track_abstract_constraint c = (case c of CEqual (RvConstant val s) \<Rightarrow> AtOffset None val s | _ \<Rightarrow> AtJoin)"

text \<open>The result of the evaluator as an offset into a region.\<close>

definition offset_of :: "track_region \<Rightarrow> rvalue \<Rightarrow> addr_track" where
  "offset_of r tmp = (case tmp of RvConstant v s \<Rightarrow> AtOffset r v s | _ \<Rightarrow> AtJoin)"

text \<open>The macro \<^verbatim>\<open>addrtrack_op!\<close>.\<close>

definition region_or :: "track_region \<Rightarrow> track_region \<Rightarrow> track_region" where
  "region_or r1 r2 = (if r1 \<noteq> None then r1 else r2)"

definition addrtrack_op ::
  "(rvalue \<Rightarrow> rvalue \<Rightarrow> rvalue operation) \<Rightarrow> track_region \<Rightarrow> track_region \<Rightarrow> const \<Rightarrow> const \<Rightarrow> addr_track option" where
  "addrtrack_op opr r1 r2 x y =
     (case region_or r1 r2 of
        None \<Rightarrow> Some AtJoin
      | Some (rx, verx) \<Rightarrow>
          if verx < VERSION_LIMIT then map_option (offset_of (Some (rx, verx + 1))) (execute (opr (const_rv x) (const_rv y)))
          else Some AtJoin)"

definition track_binop :: "(rvalue \<Rightarrow> rvalue \<Rightarrow> rvalue operation) \<Rightarrow> addr_track \<Rightarrow> addr_track \<Rightarrow> addr_track option" where
  "track_binop opr a b =
     (case (a, b) of
        (AtOffset r1 v1 s1, AtOffset r2 v2 s2) \<Rightarrow>
          (if r1 = None \<and> r2 = None then map_option (offset_of None) (execute (opr (RvConstant v1 s1) (RvConstant v2 s2)))
           else addrtrack_op opr r1 r2 (v1, s1) (v2, s2))
      | _ \<Rightarrow> Some AtJoin)"

text \<open>An addition keeps the version of the region.\<close>

definition track_add :: "addr_track \<Rightarrow> addr_track \<Rightarrow> addr_track option" where
  "track_add a b =
     (case (a, b) of
        (AtOffset r1 v1 s1, AtOffset r2 v2 s2) \<Rightarrow>
          map_option (offset_of (region_or r1 r2)) (execute (Add (RvConstant v1 s1) (RvConstant v2 s2)))
      | _ \<Rightarrow> Some AtJoin)"

definition track_extend :: "(rvalue \<Rightarrow> rvalue operation) \<Rightarrow> addr_track \<Rightarrow> addr_track option" where
  "track_extend opr a =
     (case a of AtOffset r v s \<Rightarrow> map_option (offset_of r) (execute (opr (RvConstant v s))) | _ \<Rightarrow> Some AtJoin)"

definition track_select :: "nat \<Rightarrow> addr_track \<Rightarrow> addr_track \<Rightarrow> addr_track option" where
  "track_select off a b =
     (case (a, b) of
        (AtOffset None v1 s1, AtOffset None v2 s2) \<Rightarrow>
          map_option (offset_of None) (execute (Select off (RvConstant v1 s1) (RvConstant v2 s2)))
      | _ \<Rightarrow> Some AtJoin)"

fun region_of :: "addr_track \<Rightarrow> track_region" where
  "region_of (AtRegion r) = r"
| "region_of (AtOffset r _ _) = r"
| "region_of _ = None"

definition track_combine :: "addr_track \<Rightarrow> addr_track \<Rightarrow> addr_track" where
  "track_combine self a =
     (if a = self then a
      else (case (self, a) of
              (AtJoin, _) \<Rightarrow> AtJoin
            | (_, AtJoin) \<Rightarrow> AtJoin
            | (AtMeet, b) \<Rightarrow> b
            | (a, AtMeet) \<Rightarrow> a
            | (a, b) \<Rightarrow> if region_of a = region_of b then AtRegion (region_of a) else AtJoin))"

fun track_execute :: "program_point \<Rightarrow> addr_track operation \<Rightarrow> addr_track option" where
  "track_execute _ (And a b) = track_binop And a b"
| "track_execute _ (InclusiveOr a b) = track_binop InclusiveOr a b"
| "track_execute _ (ExclusiveOr a b) = track_binop ExclusiveOr a b"
| "track_execute _ (Add a b) = track_add a b"
| "track_execute _ (Subtract a b) = track_binop Subtract a b"
| "track_execute _ (Multiply a b) = track_binop Multiply a b"
| "track_execute _ (DivideUnsigned a b) = track_binop DivideUnsigned a b"
| "track_execute _ (DivideSigned a b) = track_binop DivideSigned a b"
| "track_execute _ (Modulo a b) = track_binop Modulo a b"
| "track_execute _ (ShiftLeft a b) = track_binop ShiftLeft a b"
| "track_execute _ (ShiftRightUnsigned a b) = track_binop ShiftRightUnsigned a b"
| "track_execute _ (ShiftRightSigned a b) = track_binop ShiftRightSigned a b"
| "track_execute _ (LessOrEqualSigned a b) = track_binop LessOrEqualSigned a b"
| "track_execute _ (LessOrEqualUnsigned a b) = track_binop LessOrEqualUnsigned a b"
| "track_execute _ (LessUnsigned a b) = track_binop LessUnsigned a b"
| "track_execute _ (LessSigned a b) = track_binop LessSigned a b"
| "track_execute _ (Equal a b) = track_binop Equal a b"
| "track_execute _ (Move a) = Some a"
| "track_execute _ (ZeroExtend sz a) = track_extend (ZeroExtend sz) a"
| "track_execute _ (SignExtend sz a) = track_extend (SignExtend sz) a"
| "track_execute _ (Select off a b) = track_select off a b"
| "track_execute _ (Phi ops) =
     (case ops of
        [] \<Rightarrow> None
      | [x] \<Rightarrow> Some x
      | _ \<Rightarrow> Some (fold (\<lambda>x acc. track_combine acc x) ops AtMeet))"
| "track_execute _ (Call _) = Some AtJoin"
| "track_execute _ (Initialize _ _) = Some AtJoin"
| "track_execute _ (Load _ _ _ _) = Some AtJoin"
| "track_execute _ (Store _ _ _ _ _) = Some AtJoin"

definition track_narrow :: "addr_track \<Rightarrow> addr_track \<Rightarrow> addr_track" where
  "track_narrow self a = a"

definition track_widen :: "addr_track \<Rightarrow> addr_track \<Rightarrow> addr_track" where
  "track_widen self s = s"

definition track_initial :: addr_track where
  "track_initial = AtMeet"

definition track_more_exact :: "addr_track \<Rightarrow> addr_track \<Rightarrow> bool" where
  "track_more_exact self a \<longleftrightarrow>
     self \<noteq> a \<and>
     (case (self, a) of
        (AtJoin, _) \<Rightarrow> False
      | (_, AtJoin) \<Rightarrow> True
      | (_, AtMeet) \<Rightarrow> False
      | (AtMeet, _) \<Rightarrow> True
      | (AtOffset _ _ _, AtRegion _) \<Rightarrow> True
      | _ \<Rightarrow> False)"

fun track_extract :: "addr_track \<Rightarrow> nat \<Rightarrow> nat \<Rightarrow> addr_track option" where
  "track_extract AtJoin sz off = Some AtJoin"
| "track_extract AtMeet sz off = Some AtMeet"
| "track_extract (AtRegion r) sz off = Some (AtRegion r)"
| "track_extract (AtOffset r v s) sz off =
     (if off < 64 \<and> 0 < sz \<and> sz - 1 < 64 then Some (AtOffset r (drop_bit off v mod push_bit (sz - 1) 1) sz) else None)"

section \<open>Meaning of a value\<close>

text \<open>The base of a region other than the global one is not known.\<close>

fun track_gamma :: "addr_track \<Rightarrow> const set" where
  "track_gamma (AtOffset None v s) = {(v, s)}"
| "track_gamma AtMeet = {}"
| "track_gamma _ = UNIV"

lemma track_combine_upper: "track_gamma a \<union> track_gamma b \<subseteq> track_gamma (track_combine a b)"
  by (cases a; cases b) (auto simp: track_combine_def)

interpretation track_bounds: upper_bounds track_gamma track_combine track_initial
  by unfold_locales (use track_combine_upper in \<open>auto simp: track_initial_def\<close>)

lemma offset_of_gamma: "(v, s) \<in> track_gamma (offset_of r (RvConstant v s))"
  by (cases r) (simp_all add: offset_of_def)

lemma stands_for_track:
  "stands_for track_gamma (AtOffset None v s) r \<longleftrightarrow> r = RvConstant v s \<and> take_bit s v = v" "\<not> stands_for track_gamma AtMeet r"
  by (auto simp: stands_for_def const_rv_def)

lemma offset_of_some [simp]: "track_gamma (offset_of (Some r) tmp) = UNIV"
  by (cases tmp) (simp_all add: offset_of_def)

lemma track_binop_sound:
  assumes "track_binop opr a b = Some k" "stands_for track_gamma a x" "stands_for track_gamma b y" "execute (opr x y) = Some (RvConstant v s)"
  shows "(v, s) \<in> track_gamma k"
proof (cases "\<exists>v1 s1 v2 s2. a = AtOffset None v1 s1 \<and> b = AtOffset None v2 s2")
  case True
  then show ?thesis using assms offset_of_gamma [of v s None] by (auto simp: track_binop_def stands_for_track)
next
  case False
  then show ?thesis using assms(1)
    by (auto simp: track_binop_def addrtrack_op_def split: addr_track.splits option.splits if_splits)
qed

lemma track_add_sound:
  assumes "track_add a b = Some k" "stands_for track_gamma a x" "stands_for track_gamma b y" "execute (Add x y) = Some (RvConstant v s)"
  shows "(v, s) \<in> track_gamma k"
proof (cases "\<exists>v1 s1 v2 s2. a = AtOffset None v1 s1 \<and> b = AtOffset None v2 s2")
  case True
  then show ?thesis using assms offset_of_gamma [of v s None]
    by (auto simp: track_add_def region_or_def stands_for_track simp del: execute.simps)
next
  case False
  then show ?thesis using assms(1)
    by (auto simp: track_add_def region_or_def simp del: execute.simps split: addr_track.splits option.splits if_splits)
qed

lemma track_extend_sound:
  assumes "track_extend opr a = Some k" "stands_for track_gamma a x" "execute (opr x) = Some (RvConstant v s)"
  shows "(v, s) \<in> track_gamma k"
proof (cases "\<exists>v1 s1. a = AtOffset None v1 s1")
  case True
  then show ?thesis using assms offset_of_gamma [of v s None] by (auto simp: track_extend_def stands_for_track)
next
  case False
  then show ?thesis using assms(1) by (auto simp: track_extend_def split: addr_track.splits)
qed

lemma track_select_sound:
  assumes "track_select off a b = Some k" "stands_for track_gamma a x" "stands_for track_gamma b y" "execute (Select off x y) = Some (RvConstant v s)"
  shows "(v, s) \<in> track_gamma k"
  using assms offset_of_gamma [of v s None]
  by (auto simp: track_select_def stands_for_track simp del: execute.simps split: addr_track.splits option.splits)

lemma track_phi:
  assumes "track_execute pp (Phi ops) = Some k" "x \<in> set ops"
  shows "track_gamma x \<subseteq> track_gamma k"
  using assms track_bounds.fold_combine_elem [of x ops AtMeet] by (cases ops rule: remdups_adj.cases) auto

lemma track_execute_over:
  assumes "approximates track_gamma op cop" "track_execute pp op = Some k" "execute cop = Some (RvConstant v s)"
  shows "(v, s) \<in> track_gamma k"
proof (cases "\<exists>ops. op = Phi ops")
  case True
  then obtain ops where op: "op = Phi ops" by blast
  then show ?thesis using approximates_phi [OF assms(1) [unfolded op] assms(3)] track_phi assms(2) by blast
next
  case False
  have move: "execute (Move r) = Some r" if "stands_for track_gamma a r" for a r
    using that by (auto simp: stands_for_def const_rv_def)
  show ?thesis using assms(1) [unfolded approximates_def] assms(2,3) False
    by (cases rule: operation.rel_cases)
       (auto simp: move simp del: execute.simps intro: track_binop_sound track_add_sound track_extend_sound track_select_sound,
        auto simp: stands_for_def const_rv_def)
qed

interpretation track: avalue track_gamma track_combine track_initial track_abstract_value track_execute
  by unfold_locales (simp add: track_abstract_value_def, rule track_execute_over)

section \<open>Versions and heights\<close>

definition track_version :: "addr_track \<Rightarrow> nat" where
  "track_version a = (case region_of a of None \<Rightarrow> 0 | Some (_, ver) \<Rightarrow> ver)"

lemma track_version_simps [simp]:
  "track_version AtJoin = 0" "track_version AtMeet = 0" "track_version (AtRegion None) = 0" "track_version (AtOffset None v s) = 0"
  "track_version (AtRegion (Some (n, ver))) = ver" "track_version (AtOffset (Some (n, ver)) v s) = ver"
  by (simp_all add: track_version_def)

lemma offset_of_version: "track_version (offset_of r tmp) \<le> track_version (AtRegion r)"
  by (cases tmp) (simp_all add: offset_of_def track_version_def)

lemma offset_of_version_limit: "track_version (AtRegion r) \<le> n \<Longrightarrow> track_version (offset_of r tmp) \<le> n"
  using offset_of_version le_trans by blast

lemma region_or_version: "track_version (AtRegion (region_or r1 r2)) \<le> max (track_version (AtRegion r1)) (track_version (AtRegion r2))"
  by (auto simp: region_or_def)

lemma region_version [simp]: "track_version (AtOffset r v s) = track_version (AtRegion r)"
  by (simp add: track_version_def)

lemma track_combine_version: "track_version (track_combine a b) \<le> max (track_version a) (track_version b)"
  by (cases a; cases b) (auto simp: track_combine_def track_version_def)

lemma track_binop_version: "track_binop opr a b = Some k \<Longrightarrow> track_version k \<le> VERSION_LIMIT"
  by (auto simp: track_binop_def addrtrack_op_def intro!: offset_of_version_limit split: addr_track.splits option.splits if_splits)

lemma track_add_version: "track_add a b = Some k \<Longrightarrow> track_version k \<le> max (track_version a) (track_version b)"
  using region_or_version
  by (auto simp: track_add_def simp del: execute.simps intro!: offset_of_version_limit split: addr_track.splits)

lemma track_extend_version: "track_extend opr a = Some k \<Longrightarrow> track_version k \<le> track_version a"
  by (auto simp: track_extend_def intro!: offset_of_version_limit split: addr_track.splits)

lemma track_select_version: "track_select off a b = Some k \<Longrightarrow> track_version k = 0"
  using offset_of_version [of None]
  by (auto simp: track_select_def simp del: execute.simps split: addr_track.splits option.splits)

lemma fold_combine_version:
  assumes "\<forall>x \<in> set xs. track_version x \<le> n" "track_version acc \<le> n"
  shows "track_version (fold (\<lambda>x acc. track_combine acc x) xs acc) \<le> n"
  using assms
proof (induction xs arbitrary: acc)
  case (Cons x xs)
  have "track_version (track_combine acc x) \<le> n" using track_combine_version [of acc x] Cons.prems by auto
  with Cons show ?case by simp
qed simp

fun track_height :: "addr_track \<Rightarrow> nat" where
  "track_height AtMeet = 0"
| "track_height (AtOffset _ _ _) = 1"
| "track_height (AtRegion _) = 2"
| "track_height AtJoin = 3"

lemma track_more_exact_iff: "track_more_exact a b \<longleftrightarrow> track_height a < track_height b"
  by (cases a; cases b) (auto simp: track_more_exact_def)

lemma track_combine_height: "max (track_height a) (track_height b) \<le> track_height (track_combine a b)"
  by (cases a; cases b) (auto simp: track_combine_def)

section \<open>Properties\<close>

text \<open>
  The operations of address tracking over-approximate the evaluator: if the operands of a concrete operation are
  among the constants of the abstract operands and its result is a constant,
  the constant is among those of the abstract result.
\<close>

theorem addr_track_execute_sound:
  assumes "approximates track_gamma op cop" "track_execute pp op = Some k" "execute cop = Some (RvConstant v s)"
  shows "(v, s) \<in> track_gamma k"
  by (rule track.exec_sound [OF assms])

theorem addr_track_execute_sound_witness:
  "\<exists>k. track_execute (ProgramPoint 0 0) (Add (AtOffset None 255 8) (AtOffset None 1 8)) = Some k \<and> (0, 8) \<in> track_gamma k"
proof -
  have ex: "execute (Add (RvConstant 255 8) (RvConstant 1 8)) = Some (RvConstant 0 8)"
    by (simp add: exec_simps)
  have ap: "approximates track_gamma (Add (AtOffset None 255 8) (AtOffset None 1 8)) (Add (RvConstant 255 8) (RvConstant 1 8))"
    by (auto simp: approximates_def stands_for_track)
  obtain k where k: "track_execute (ProgramPoint 0 0) (Add (AtOffset None 255 8) (AtOffset None 1 8)) = Some k"
    using ex by (simp add: track_add_def del: execute.simps)
  from addr_track_execute_sound [OF ap k ex] k show ?thesis by blast
qed

text \<open>
  C15: The version of a region never exceeds \<^verbatim>\<open>VERSION_LIMIT\<close>: no operation returns a higher version when the
  operands are within the limit, so that only finitely many versions of a region occur in an analysis.
\<close>

theorem addr_track_version_bound:
  assumes "\<forall>a \<in> set (operands op). track_version a \<le> VERSION_LIMIT" "track_execute pp op = Some k"
  shows "track_version k \<le> VERSION_LIMIT"
proof (cases "\<exists>ops. op = Phi ops")
  case True
  then obtain ops where op: "op = Phi ops" by blast
  show ?thesis using assms op fold_combine_version [of ops VERSION_LIMIT AtMeet]
    by (cases ops rule: remdups_adj.cases) auto
next
  case False
  show ?thesis
  proof (cases op)
    case (Add a b)
    then show ?thesis using assms track_add_version [of a b k] by auto
  next
    case (ZeroExtend sz a)
    then show ?thesis using assms track_extend_version [of "ZeroExtend sz" a k] by simp
  next
    case (SignExtend sz a)
    then show ?thesis using assms track_extend_version [of "SignExtend sz" a k] by simp
  next
    case (Select off a b)
    then show ?thesis using assms track_select_version [of off a b k] by simp
  qed (use False assms track_binop_version in auto)
qed

theorem addr_track_version_bound_witness:
  "\<exists>k. track_execute (ProgramPoint 0 0) (Subtract (AtOffset (Some (''sp'', 9)) 8 64) (AtOffset None 1 64)) = Some k \<and>
     track_version k \<le> VERSION_LIMIT"
proof -
  have "execute (Subtract (RvConstant 8 64) (RvConstant 1 64)) = Some (RvConstant 7 64)" by (simp add: exec_simps)
  then obtain k where k: "track_execute (ProgramPoint 0 0) (Subtract (AtOffset (Some (''sp'', 9)) 8 64) (AtOffset None 1 64)) = Some k"
    by (simp add: track_binop_def addrtrack_op_def region_or_def VERSION_LIMIT_def const_rv_def del: execute.simps)
  from addr_track_version_bound [OF _ this] k show ?thesis by (simp add: VERSION_LIMIT_def)
qed

text \<open>
  \<^verbatim>\<open>more_exact\<close> compares a height of at most 3, so it is a strict order without long chains; the result
  of \<^verbatim>\<open>combine\<close> is never more exact than an operand, and on an ascending pair neither is the result of \<^verbatim>\<open>widen\<close>.
\<close>

theorem addr_track_more_exact_order:
  "(track_more_exact a b \<longleftrightarrow> track_height a < track_height b) \<and> track_height a \<le> 3 \<and>
   \<not> track_more_exact (track_combine a b) a \<and> \<not> track_more_exact (track_combine a b) b \<and>
   (track_more_exact a b \<longrightarrow> \<not> track_more_exact (track_widen a b) a \<and> \<not> track_more_exact (track_widen a b) b)"
  using track_combine_height [of a b] by (cases a) (auto simp: track_more_exact_iff track_widen_def)

theorem addr_track_more_exact_order_witness:
  "track_more_exact (AtOffset None 1 8) (AtRegion None) \<and>
   \<not> track_more_exact (track_widen (AtOffset None 1 8) (AtRegion None)) (AtOffset None 1 8)"
  using addr_track_more_exact_order [of "AtOffset None 1 8" "AtRegion None"] by simp

end
