(* ===== verification/Interp.thy ===== *)
theory Interp
  imports Ssa Wto Kset Addr_Track
begin

text \<open>
  The abstract interpreter of abstract-interp/src/interpreter.rs: \<^verbatim>\<open>approximate\<close> and \<^verbatim>\<open>results\<close>.

  An implementation of the trait \<^verbatim>\<open>Avalue\<close> is a record of its functions.  The environment maps a name with its subscript to an abstract
  value.  \<open>vorder\<close>, \<open>lorder\<close> and \<open>sorder\<close> list the elements of a hash table in the order of its iteration.
\<close>

record 'a domain =
  av_value :: "rvalue \<Rightarrow> 'a"
  av_constraint :: "constraint \<Rightarrow> 'a"
  av_execute :: "program_point \<Rightarrow> 'a operation \<Rightarrow> 'a option"
  av_narrow :: "'a \<Rightarrow> 'a \<Rightarrow> 'a"
  av_widen :: "'a \<Rightarrow> 'a \<Rightarrow> 'a"
  av_more_exact :: "'a \<Rightarrow> 'a \<Rightarrow> bool"
  av_initial :: 'a
  av_extract :: "'a \<Rightarrow> nat \<Rightarrow> nat \<Rightarrow> 'a option"

type_synonym 'a env = "string \<times> nat \<rightharpoonup> 'a"

fun fold_opt :: "('x \<Rightarrow> 's \<Rightarrow> 's option) \<Rightarrow> 'x list \<Rightarrow> 's \<Rightarrow> 's option" where
  "fold_opt f [] s = Some s"
| "fold_opt f (x # xs) s = do { s' \<leftarrow> f x s; fold_opt f xs s' }"

lemma fold_opt_cong [fundef_cong]:
  "xs = ys \<Longrightarrow> s = t \<Longrightarrow> (\<And>x u. x \<in> set ys \<Longrightarrow> f x u = h x u) \<Longrightarrow> fold_opt f xs s = fold_opt h ys t"
proof -
  assume "xs = ys" "s = t" "\<And>x u. x \<in> set ys \<Longrightarrow> f x u = h x u"
  moreover have "(\<forall>x \<in> set ys. \<forall>u. f x u = h x u) \<Longrightarrow> fold_opt f ys t = fold_opt h ys t" for t
  proof (induction ys arbitrary: t)
    case (Cons y ys)
    then show ?case by (cases "h y t") auto
  qed simp
  ultimately show ?thesis by blast
qed

section \<open>Evaluation of a block\<close>

definition res :: "'a domain \<Rightarrow> (string \<rightharpoonup> nat) \<Rightarrow> 'a env \<Rightarrow> 'a env \<Rightarrow> rvalue \<Rightarrow> 'a option" where
  "res D sizes env fixed v =
     (case v of
        RvVariable name (Some ss) off sz \<Rightarrow>
          (let t = (case fixed (name, ss) of Some t \<Rightarrow> t | None \<Rightarrow> (case env (name, ss) of Some t \<Rightarrow> t | None \<Rightarrow> av_initial D)) in
           if off > 0 \<or> sz \<noteq> (case sizes name of None \<Rightarrow> 0 | Some s \<Rightarrow> s) then av_extract D t sz off else Some t)
      | _ \<Rightarrow> Some (av_value D v))"

definition eval_operation ::
  "'a domain \<Rightarrow> (string \<rightharpoonup> nat) \<Rightarrow> 'a env \<Rightarrow> 'a env \<Rightarrow> program_point \<Rightarrow> rvalue operation \<Rightarrow> 'a option" where
  "eval_operation D sizes env fixed pp op =
     do { args \<leftarrow> those (map (res D sizes env fixed) (operands op)); op' \<leftarrow> lift_with op args; av_execute D pp op' }"

record 'a exec_state =
  ex_env :: "'a env"
  ex_change :: bool
  ex_pos :: nat

definition store_value :: "'a domain \<Rightarrow> bool \<Rightarrow> string \<times> nat \<Rightarrow> 'a \<Rightarrow> 'a exec_state \<Rightarrow> 'a exec_state" where
  "store_value D do_widen a new s =
     (case ex_env s a of
        Some cur \<Rightarrow>
          (if do_widen then
             (let w = av_widen D cur new in
              if w \<noteq> cur then s\<lparr>ex_change := True, ex_env := (ex_env s)(a \<mapsto> w)\<rparr> else s)
           else if \<not> av_more_exact D cur new \<and> cur \<noteq> new then s\<lparr>ex_change := True, ex_env := (ex_env s)(a \<mapsto> new)\<rparr>
           else s)
      | None \<Rightarrow> s\<lparr>ex_change := True, ex_env := (ex_env s)(a \<mapsto> new)\<rparr>)"

definition exec_statement ::
  "'a domain \<Rightarrow> (string \<rightharpoonup> nat) \<Rightarrow> 'a env \<Rightarrow> bool \<Rightarrow> nat \<Rightarrow> statement \<Rightarrow> 'a exec_state \<Rightarrow> 'a exec_state option" where
  "exec_statement D sizes fixed do_widen start i s =
     (case assignee i of
        LvVariable name (Some ss) _ \<Rightarrow>
          do { new \<leftarrow> eval_operation D sizes (ex_env s) fixed (ProgramPoint start (ex_pos s)) (st_op i);
               Some ((store_value D do_widen (name, ss) new s)\<lparr>ex_pos := ex_pos s + 1\<rparr>) }
      | _ \<Rightarrow> Some (s\<lparr>ex_pos := ex_pos s + 1\<rparr>))"

definition exec_vertex ::
  "'a domain \<Rightarrow> cf_graph \<Rightarrow> (string \<rightharpoonup> nat) \<Rightarrow> 'a env \<Rightarrow> al_vertex \<Rightarrow> bool \<Rightarrow> 'a env \<Rightarrow> (bool \<times> 'a env) option" where
  "exec_vertex D g sizes fixed t do_widen env =
     (case al_vertex_label g t of
        Some (Resolved bb) \<Rightarrow>
          map_option (\<lambda>s. (ex_change s, ex_env s))
            (bb_execute bb (\<lambda>i s. Option.bind s (exec_statement D sizes fixed do_widen (b_start (bb_area bb)) i))
               (Some \<lparr>ex_env = env, ex_change = False, ex_pos = 0\<rparr>))
      | _ \<Rightarrow> Some (False, env))"

section \<open>Iteration along the order\<close>

text \<open>The endless \<^verbatim>\<open>loop\<close>: \<open>pass\<close> is one run over the component and tells whether it was stable.\<close>

partial_function (option) stable_loop :: "(nat \<Rightarrow> 'e \<Rightarrow> (bool \<times> 'e) option) \<Rightarrow> nat \<Rightarrow> 'e \<Rightarrow> 'e option" where
  "stable_loop pass iter_cnt env =
     (case pass iter_cnt env of
        None \<Rightarrow> None
      | Some (ok, env') \<Rightarrow> (if ok then Some env' else stable_loop pass (iter_cnt + 1) env'))"

lemma stable_loop_cong [fundef_cong]:
  "n = n' \<Longrightarrow> e = e' \<Longrightarrow> (\<And>i u. pass i u = pass' i u) \<Longrightarrow> stable_loop pass n e = stable_loop pass' n' e'"
proof -
  assume a: "n = n'" "e = e'" "\<And>i u. pass i u = pass' i u"
  then have "pass = pass'" by blast
  then show ?thesis using a by simp
qed

lemma component_size: "HComponent vec \<in> set hs \<Longrightarrow> size_list size vec \<le> size_list size hs"
  using size_list_estimation' [of "HComponent vec" hs "size_list size vec" size] by simp

function stabilize :: "('v \<Rightarrow> bool \<Rightarrow> 'e \<Rightarrow> (bool \<times> 'e) option) \<Rightarrow> ('e \<Rightarrow> 'e) \<Rightarrow> 'v hierarchy list \<Rightarrow> 'e \<Rightarrow> 'e option" where
  "stabilize exec narrow [] env = Some env"
| "stabilize exec narrow (HComponent vec # hs) env = stabilize exec narrow vec env"
| "stabilize exec narrow (HElement head # hs) env =
     map_option narrow
       (stable_loop (\<lambda>iter_cnt env.
          fold_opt (\<lambda>x s.
            (case x of
               HElement vx \<Rightarrow> map_option (\<lambda>r. (fst s \<and> \<not> fst r, snd r)) (exec vx (iter_cnt \<ge> 2 \<and> vx = head) (snd s))
             | HComponent vec \<Rightarrow> map_option (\<lambda>e. (True, e)) (stabilize exec narrow vec (snd s))))
            (HElement head # hs) (True, env)) 0 env)"
  by pat_completeness auto
termination
  by (relation "measure (\<lambda>(_, _, hs, _). size_list size hs)") (auto simp: less_Suc_eq_le le_SucI component_size)

section \<open>Sizes and constraints\<close>

definition note_size :: "statement \<Rightarrow> (string \<rightharpoonup> nat) \<Rightarrow> (string \<rightharpoonup> nat)" where
  "note_size i sizes =
     (case assignee i of
        LvVariable name _ sz \<Rightarrow> sizes(name \<mapsto> max (case sizes name of None \<Rightarrow> sz | Some s \<Rightarrow> s) sz)
      | LvUndefined \<Rightarrow> sizes)"

definition all_sizes :: "cf_graph \<Rightarrow> (string \<rightharpoonup> nat)" where
  "all_sizes g =
     fold (\<lambda>vx sizes. case al_vertex_label g vx of Some (Resolved bb) \<Rightarrow> bb_execute bb note_size sizes | _ \<Rightarrow> sizes) (al_vertices g) Map.empty"

text \<open>A comparison of a variable with a constant gives a constraint on the variable.\<close>

fun compared :: "(rvalue \<Rightarrow> constraint) \<Rightarrow> rvalue \<Rightarrow> rvalue \<Rightarrow> (rvalue \<times> constraint) option" where
  "compared c (RvConstant v s) (RvVariable n ss off sz) = Some (RvVariable n ss off sz, c (RvConstant v s))"
| "compared c (RvVariable n ss off sz) (RvConstant v s) = Some (RvVariable n ss off sz, c (RvConstant v s))"
| "compared c _ _ = None"

fun constraint_of :: "rvalue operation \<Rightarrow> (rvalue \<times> constraint) option" where
  "constraint_of (Equal a b) = compared CEqual a b"
| "constraint_of (LessUnsigned a b) = compared CLessUnsigned a b"
| "constraint_of (LessSigned a b) = compared CLessSigned a b"
| "constraint_of (LessOrEqualUnsigned a b) = compared CLessOrEqualUnsigned a b"
| "constraint_of (LessOrEqualSigned a b) = compared CLessOrEqualSigned a b"
| "constraint_of _ = None"

definition note_constraint ::
  "'a domain \<Rightarrow> cf_graph \<Rightarrow> (al_edge \<rightharpoonup> rvalue operation) \<Rightarrow> al_edge \<Rightarrow> (lvalue \<rightharpoonup> 'a) \<Rightarrow> (lvalue \<rightharpoonup> 'a) option" where
  "note_constraint D g edge_ops e constr =
     (case al_edge_label g e of
        Some (GPredicate _ _) \<Rightarrow>
          (case Option.bind (edge_ops e) constraint_of of
             None \<Rightarrow> Some constr
           | Some (v, c) \<Rightarrow> map_option (\<lambda>lv. constr(lv \<mapsto> av_constraint D c)) (lvalue_from_rvalue v))
      | _ \<Rightarrow> Some constr)"

definition all_constraints :: "(al_vertex set \<Rightarrow> al_vertex list) \<Rightarrow> 'a domain \<Rightarrow> cf_graph \<Rightarrow> (al_edge \<rightharpoonup> rvalue operation) \<Rightarrow> (lvalue \<rightharpoonup> 'a) option" where
  "all_constraints vorder D g edge_ops =
     fold_opt (\<lambda>vx constr. do { es \<leftarrow> al_in_edges g vx; fold_opt (note_constraint D g edge_ops) es constr })
       (vorder (set (al_vertices g))) Map.empty"

definition narrow_value :: "'a domain \<Rightarrow> (lvalue \<rightharpoonup> 'a) \<Rightarrow> lvalue \<Rightarrow> 'a env \<Rightarrow> 'a env" where
  "narrow_value D constr lv env =
     (case lv of
        LvVariable name (Some ss) _ \<Rightarrow>
          (case (env (name, ss), constr lv) of (Some x, Some a) \<Rightarrow> env((name, ss) \<mapsto> av_narrow D x a) | _ \<Rightarrow> env)
      | _ \<Rightarrow> env)"

definition narrow_env :: "(lvalue set \<Rightarrow> lvalue list) \<Rightarrow> 'a domain \<Rightarrow> (lvalue \<rightharpoonup> 'a) \<Rightarrow> 'a env \<Rightarrow> 'a env" where
  "narrow_env lorder D constr env = fold (narrow_value D constr) (lorder (dom constr)) env"

section \<open>The interpreter\<close>

definition named_values :: "(string \<rightharpoonup> nat) \<Rightarrow> 'a env \<Rightarrow> (lvalue \<rightharpoonup> 'a)" where
  "named_values sizes env lv =
     (case lv of LvVariable name (Some ss) sz \<Rightarrow> (if sizes name = Some sz then env (name, ss) else None) | _ \<Rightarrow> None)"

definition approximate ::
  "(al_vertex set \<Rightarrow> al_vertex list) \<Rightarrow> (lvalue set \<Rightarrow> lvalue list) \<Rightarrow> 'a domain \<Rightarrow> 'u func \<Rightarrow> 'a env \<Rightarrow> (lvalue \<rightharpoonup> 'a) option" where
  "approximate vorder lorder D func fixed =
     (let g = f_cflow_graph func; sizes = all_sizes g in
      do { wto \<leftarrow> weak_topo_order (al_vertices g) (al_succs g) (f_entry_point func);
           edge_ops \<leftarrow> flag_operations func;
           constr \<leftarrow> all_constraints vorder D g edge_ops;
           ret \<leftarrow> (case wto of
                     HComponent v \<Rightarrow> stabilize (exec_vertex D g sizes fixed) (narrow_env lorder D constr) v Map.empty
                   | HElement v \<Rightarrow> map_option snd (exec_vertex D g sizes fixed v False Map.empty));
           Some (named_values sizes (ret ++ fixed)) })"

section \<open>Values after the return\<close>

definition note_names :: "statement \<Rightarrow> string set \<Rightarrow> string set" where
  "note_names i names = (case assignee i of LvVariable name _ _ \<Rightarrow> insert name names | LvUndefined \<Rightarrow> names)"

definition assigned_names :: "cf_graph \<Rightarrow> string set" where
  "assigned_names g =
     fold (\<lambda>vx names. case al_vertex_label g vx of Some (Resolved bb) \<Rightarrow> bb_execute bb note_names names | _ \<Rightarrow> names) (al_vertices g) {}"

definition note_result ::
  "'a domain \<Rightarrow> (lvalue \<rightharpoonup> 'a) \<Rightarrow> string \<Rightarrow> statement \<Rightarrow> bool \<times> 'a env \<Rightarrow> bool \<times> 'a env" where
  "note_result D vals lv i s =
     (case assignee i of
        LvVariable name _ sz \<Rightarrow>
          (if name = lv then
             (True, (snd s)((name, sz) \<mapsto> (case vals (assignee i) of None \<Rightarrow> av_initial D | Some v \<Rightarrow> v)))
           else s)
      | LvUndefined \<Rightarrow> s)"

text \<open>The walk up the dominators; the block that is scanned stays the exit block.\<close>

partial_function (option) result_loop ::
  "'a domain \<Rightarrow> cf_graph \<Rightarrow> (al_vertex \<rightharpoonup> al_vertex) \<Rightarrow> (lvalue \<rightharpoonup> 'a) \<Rightarrow> basic_block \<Rightarrow> string \<Rightarrow> al_vertex \<Rightarrow> 'a env \<Rightarrow> 'a env option" where
  "result_loop D g idom vals bb lv v ret =
     (if fst (bb_execute_backwards bb (note_result D vals lv) (False, ret)) then
        Some (snd (bb_execute_backwards bb (note_result D vals lv) (False, ret)))
      else
        (case idom v of
           Some w \<Rightarrow>
             (if w \<noteq> v \<and> is_resolved g w then
                result_loop D g idom vals bb lv w (snd (bb_execute_backwards bb (note_result D vals lv) (False, ret)))
              else Some (snd (bb_execute_backwards bb (note_result D vals lv) (False, ret))))
         | None \<Rightarrow> Some (snd (bb_execute_backwards bb (note_result D vals lv) (False, ret)))))"

definition exit_results ::
  "(string set \<Rightarrow> string list) \<Rightarrow> 'a domain \<Rightarrow> cf_graph \<Rightarrow> (al_vertex \<rightharpoonup> al_vertex) \<Rightarrow> (lvalue \<rightharpoonup> 'a) \<Rightarrow> al_vertex \<Rightarrow> 'a env \<Rightarrow> 'a env option" where
  "exit_results sorder D g idom vals v ret =
     (if al_out_degree g v = 0 then
        (case al_vertex_label g v of
           Some (Resolved bb) \<Rightarrow> fold_opt (\<lambda>lv ret. result_loop D g idom vals bb lv v ret) (sorder (assigned_names g)) ret
         | _ \<Rightarrow> Some ret)
      else Some ret)"

definition results :: "(al_vertex set \<Rightarrow> al_vertex list) \<Rightarrow> (string set \<Rightarrow> string list) \<Rightarrow> 'a domain \<Rightarrow> 'u func \<Rightarrow> (lvalue \<rightharpoonup> 'a) \<Rightarrow> 'a env option" where
  "results vorder sorder D func vals =
     (let g = f_cflow_graph func in
      do { idom \<leftarrow> immediate_dominator (al_succs g) (al_preds g) (f_entry_point func);
           fold_opt (exit_results sorder D g idom vals) (vorder (set (al_vertices g))) Map.empty })"

section \<open>The domains\<close>

definition kset_domain :: "kset domain" where
  "kset_domain = \<lparr>av_value = kset_abstract_value, av_constraint = kset_abstract_constraint, av_execute = kset_execute, av_narrow = kset_narrow,
     av_widen = kset_widen, av_more_exact = kset_more_exact, av_initial = kset_initial, av_extract = kset_extract\<rparr>"

definition track_domain :: "addr_track domain" where
  "track_domain = \<lparr>av_value = track_abstract_value, av_constraint = track_abstract_constraint, av_execute = track_execute, av_narrow = track_narrow,
     av_widen = track_widen, av_more_exact = track_more_exact, av_initial = track_initial, av_extract = track_extract\<rparr>"

definition widening_domain :: "('a \<Rightarrow> 'a \<Rightarrow> 'a) \<Rightarrow> 'a domain \<Rightarrow> 'a widening domain" where
  "widening_domain combine D = \<lparr>av_value = widening_abstract_value (av_value D), av_constraint = widening_abstract_constraint (av_constraint D),
     av_execute = widening_execute (av_execute D) (av_widen D) combine (av_initial D), av_narrow = widening_narrow,
     av_widen = widening_widen (av_widen D), av_more_exact = widening_more_exact (av_more_exact D),
     av_initial = widening_initial (av_initial D), av_extract = widening_extract (av_extract D)\<rparr>"

end
