(* ===== verification/Ssa_Spec.thy ===== *)
theory Ssa_Spec
  imports Ssa
begin

text \<open>
  Properties of the conversion to static single assignment form.  Erasing the subscripts of a
  function gives what renaming keeps; the pairs of name and subscript that statements
  assign are what it makes distinct.
\<close>

section \<open>Erasing subscripts\<close>

fun erase_rv :: "rvalue \<Rightarrow> rvalue" where
  "erase_rv (RvVariable n _ off sz) = RvVariable n None off sz"
| "erase_rv rv = rv"

fun erase_lv :: "lvalue \<Rightarrow> lvalue" where
  "erase_lv (LvVariable n _ sz) = LvVariable n None sz"
| "erase_lv LvUndefined = LvUndefined"

definition erase_st :: "statement \<Rightarrow> statement" where
  "erase_st i = \<lparr>assignee = erase_lv (assignee i), st_op = map_operation erase_rv (st_op i)\<rparr>"

definition erase_mn :: "mnemonic \<Rightarrow> mnemonic" where
  "erase_mn m = m\<lparr>m_operands := map erase_rv (m_operands m), m_instructions := map erase_st (m_instructions m)\<rparr>"

definition erase_bb :: "basic_block \<Rightarrow> basic_block" where
  "erase_bb bb = bb\<lparr>bb_mnemonics := map erase_mn (bb_mnemonics bb)\<rparr>"

fun erase_target :: "cf_target \<Rightarrow> cf_target" where
  "erase_target (Resolved bb) = Resolved (erase_bb bb)"
| "erase_target (Unresolved rv) = Unresolved (erase_rv rv)"
| "erase_target (Failed a msg) = Failed a msg"

fun erase_guard :: "guard \<Rightarrow> guard" where
  "erase_guard (GPredicate f ex) = GPredicate (erase_rv f) ex"
| "erase_guard gu = gu"

definition erase_graph :: "cf_graph \<Rightarrow> cf_graph" where
  "erase_graph g = g\<lparr>vertex_labels := map (map_prod id erase_target) (vertex_labels g),
     edge_labels := map (map_prod id erase_guard) (edge_labels g)\<rparr>"

lemma map_of_map_prod: "map_of (map (map_prod id f) xs) k = map_option f (map_of xs k)"
  by (induction xs) auto

lemma erase_graph_labels:
  "al_vertex_label (erase_graph g) v = map_option erase_target (al_vertex_label g v)"
  "al_edge_label (erase_graph g) e = map_option erase_guard (al_edge_label g e)"
  by (simp_all add: al_vertex_label_def al_edge_label_def erase_graph_def map_of_map_prod)

lemma erase_graph_simps [simp]:
  "al_vertices (erase_graph g) = al_vertices g" "al_edges (erase_graph g) = al_edges g"
  "al_out_edges (erase_graph g) = al_out_edges g" "al_in_edges (erase_graph g) = al_in_edges g"
  "al_source (erase_graph g) = al_source g" "al_target (erase_graph g) = al_target g"
  "al_num_vertices (erase_graph g) = al_num_vertices g"
  by (simp_all add: fun_eq_iff erase_graph_def al_vertices_def al_edges_def al_out_edges_def al_in_edges_def al_source_def al_target_def
      al_num_vertices_def)

lemma map_prod_keys [simp]: "dom (map_of (map (map_prod id f) xs)) = dom (map_of xs)" "map fst (map (map_prod id f) xs) = map fst xs"
  by (auto simp: dom_def map_of_map_prod)

lemma erase_graph_wf [simp]: "wf_al (erase_graph g) \<longleftrightarrow> wf_al g"
  unfolding wf_al_def wf_core_def erase_graph_def by (simp del: map_map)

lemma erase_graph_rel [simp]: "ag_rel (abs_al (erase_graph g)) = ag_rel (abs_al g)"
proof -
  have "(\<exists>l. ag_edges (abs_al (erase_graph g)) e = Some (l, a, b)) \<longleftrightarrow> (\<exists>l. ag_edges (abs_al g) e = Some (l, a, b))" for e a b
    by (auto simp: abs_al_def erase_graph_def map_of_map_prod split: option.splits)
  then show ?thesis unfolding ag_rel_def by blast
qed

text \<open>Graphs that differ in subscripts only.\<close>

abbreviation same_code :: "cf_graph \<Rightarrow> cf_graph \<Rightarrow> bool" where
  "same_code g g' \<equiv> erase_graph g = erase_graph g'"

lemma same_codeD:
  assumes "same_code g g'"
  shows "al_vertices g = al_vertices g'" "al_edges g = al_edges g'" "al_out_edges g = al_out_edges g'"
    "al_in_edges g = al_in_edges g'" "al_target g = al_target g'" "wf_al g = wf_al g'" "ag_rel (abs_al g) = ag_rel (abs_al g')"
    "map_option erase_target (al_vertex_label g v) = map_option erase_target (al_vertex_label g' v)"
    "map_option erase_guard (al_edge_label g e) = map_option erase_guard (al_edge_label g' e)"
  using erase_graph_simps [of g] erase_graph_simps [of g'] erase_graph_wf [of g] erase_graph_wf [of g'] erase_graph_rel [of g]
    erase_graph_rel [of g'] erase_graph_labels [of g] erase_graph_labels [of g'] assms by metis+

lemma map_entry_same:
  "map_of xs k = Some x \<Longrightarrow> f y = f x \<Longrightarrow> map (map_prod id f) (AList.map_entry k (\<lambda>_. y) xs) = map (map_prod id f) xs"
  by (induction xs) auto

lemma same_code_vertex:
  "al_vertex_label g v = Some t \<Longrightarrow> erase_target t' = erase_target t \<Longrightarrow> same_code (al_set_vertex_label g v (\<lambda>_. t')) g"
  by (simp add: erase_graph_def al_set_vertex_label_def al_vertex_label_def map_entry_same)

lemma same_code_edge:
  "al_edge_label g e = Some t \<Longrightarrow> erase_guard t' = erase_guard t \<Longrightarrow> same_code (al_set_edge_label g e (\<lambda>_. t')) g"
  by (simp add: erase_graph_def al_set_edge_label_def al_edge_label_def map_entry_same)

lemma set_vertex_label:
  "al_vertex_label (al_set_vertex_label g v f) w = (if w = v then map_option f (al_vertex_label g w) else al_vertex_label g w)"
  by (auto simp: al_vertex_label_def al_set_vertex_label_def map_of_map_entry split: option.split)

lemma set_edge_label: "al_vertex_label (al_set_edge_label g e f) w = al_vertex_label g w"
  by (simp add: al_vertex_label_def al_set_edge_label_def)

section \<open>Renaming keeps the code\<close>

lemma erase_idem [simp]: "erase_rv (erase_rv rv) = erase_rv rv" "erase_lv (erase_lv lv) = erase_lv lv"
  by (cases rv; simp)+ (cases lv; simp)+

lemma is_phi_erase: "is_phi (map_operation f op) = is_phi op"
  by (cases op) simp_all

lemma name_assignee_erase: "name_assignee a st = (a', st') \<Longrightarrow> erase_lv a' = erase_lv a"
  by (cases a) (auto simp: new_name_def Let_def)

lemma subscript_operand_erase: "erase_rv (subscript_operand st rv) = erase_rv rv"
  by (cases rv) simp_all

lemma subscript_use_erase: "subscript_use st rv = Some rv' \<Longrightarrow> erase_rv rv' = erase_rv rv"
  by (cases rv) auto

lemma lift_with_operands: "lift_with op args = Some op' \<Longrightarrow> length args = length (operands op) \<Longrightarrow> operands op' = args \<and> is_phi op' = is_phi op"
  by (cases op) (auto simp: app1_def app2_def length_Suc_conv split: option.splits)

lemma lift_with_erase:
  "lift_with op args = Some op' \<Longrightarrow> map erase_rv args = map erase_rv (operands op) \<Longrightarrow> map_operation erase_rv op' = map_operation erase_rv op"
  by (cases op) (auto simp: app1_def app2_def split: option.splits)

lemma those_subscript_erase: "those (map (subscript_use st) rvs) = Some args \<Longrightarrow> map erase_rv args = map erase_rv rvs"
  by (induction rvs arbitrary: args) (auto simp: subscript_use_erase split: option.splits)

lemma rename_statements_step:
  assumes "rename_statements (i # is) st = Some (e, is', st')" "\<not> is_phi (st_op i)"
  obtains args op' a' st1 is1 where "those (map (subscript_use st) (operands (st_op i))) = Some args" "lift_with (st_op i) args = Some op'"
    "name_assignee (assignee i) st = (a', st1)" "rename_statements is st1 = Some (e, is1, st')" "is' = \<lparr>assignee = a', st_op = op'\<rparr> # is1"
proof -
  obtain a' st1 where na: "name_assignee (assignee i) st = (a', st1)" by force
  show thesis using assms na by (auto simp: bind_eq_Some_conv intro!: that)
qed

lemma rename_statements_erase:
  "rename_statements is st = Some (e, is', st') \<Longrightarrow> map erase_st is' = map erase_st is"
proof (induction "is" arbitrary: st is')
  case (Cons i "is")
  show ?case
  proof (cases "is_phi (st_op i)")
    case False
    obtain args op' a' st1 is1 where s: "those (map (subscript_use st) (operands (st_op i))) = Some args"
        "lift_with (st_op i) args = Some op'" "name_assignee (assignee i) st = (a', st1)"
        "rename_statements is st1 = Some (e, is1, st')" "is' = \<lparr>assignee = a', st_op = op'\<rparr> # is1"
      by (rule rename_statements_step [OF Cons.prems False])
    have "erase_st \<lparr>assignee = a', st_op = op'\<rparr> = erase_st i"
      using name_assignee_erase [OF s(3)] lift_with_erase [OF s(2)] those_subscript_erase [OF s(1)] by (simp add: erase_st_def)
    then show ?thesis using s(5) Cons.IH [OF s(4)] by simp
  qed (use Cons.prems in auto)
qed simp

lemma rename_mnemonics_erase:
  "rename_mnemonics ms st = Some (e, ms', st') \<Longrightarrow> map erase_mn ms' = map erase_mn ms"
proof (induction ms arbitrary: st ms')
  case (Cons m ms)
  show ?case
  proof (cases "m_opcode m = ''__phi''")
    case True
    then show ?thesis using Cons by (auto simp: bind_eq_Some_conv)
  next
    case False
    then obtain e1 is' st1 where r: "rename_statements (m_instructions m) st = Some (e1, is', st1)"
        "(if e1 then Some (True, m\<lparr>m_operands := map (subscript_operand st) (m_operands m), m_instructions := is'\<rparr> # ms, st1)
          else do { (e', ms', st'') \<leftarrow> rename_mnemonics ms st1;
            Some (e', m\<lparr>m_operands := map (subscript_operand st) (m_operands m), m_instructions := is'\<rparr> # ms', st'') }) = Some (e, ms', st')"
      using Cons.prems by (auto simp: bind_eq_Some_conv Let_def)
    have "erase_mn (m\<lparr>m_operands := map (subscript_operand st) (m_operands m), m_instructions := is'\<rparr>) = erase_mn m"
      using rename_statements_erase [OF r(1)] by (simp add: erase_mn_def subscript_operand_erase)
    then show ?thesis using r(2) Cons.IH by (auto simp: bind_eq_Some_conv split: if_splits)
  qed
qed simp

lemma map_state_erase:
  assumes "\<And>i s. erase_st (fst (f i s)) = erase_st i"
  shows "map_state f is s = (is', s') \<Longrightarrow> map erase_st is' = map erase_st is"
  using assms by (induction "is" arbitrary: s is') (auto split: prod.splits, metis fst_conv)

lemma bb_rewrite_erase:
  assumes "\<And>i s. erase_st (fst (f i s)) = erase_st i" "bb_rewrite bb f s = (bb', s')"
  shows "erase_bb bb' = erase_bb bb"
proof -
  have "map erase_mn ms' = map erase_mn ms" if "map_state (rewrite_mnemonic f) ms s = (ms', s')" for ms ms' s s'
    using that
  proof (induction ms arbitrary: s ms')
    case (Cons m ms)
    then obtain is1 s1 ms1 where "map_state f (m_instructions m) s = (is1, s1)" "map_state (rewrite_mnemonic f) ms s1 = (ms1, s')"
        "ms' = m\<lparr>m_instructions := is1\<rparr> # ms1"
      by (auto simp: rewrite_mnemonic_def [of f m] split: prod.splits)
    then show ?case using Cons.IH map_state_erase [of f, OF assms(1)] by (auto simp: erase_mn_def)
  qed simp
  then show ?thesis using assms(2) by (auto simp: bb_rewrite_def erase_bb_def split: prod.splits)
qed

lemma name_phi_erase: "erase_st (fst (name_phi i st)) = erase_st i"
  using name_assignee_erase by (auto simp: name_phi_def erase_st_def split: prod.split)

lemma rename_label_erase: "rename_label lb st = Some (e, lb', st') \<Longrightarrow> map_option erase_target lb' = map_option erase_target lb"
proof (cases "\<exists>bb. lb = Some (Resolved bb)")
  case True
  assume r: "rename_label lb st = Some (e, lb', st')"
  obtain bb where bb: "lb = Some (Resolved bb)" using True by blast
  obtain bb1 st1 where b: "bb_rewrite bb name_phi st = (bb1, st1)" by force
  then obtain ms where "rename_mnemonics (bb_mnemonics bb1) st1 = Some (e, ms, st')" "lb' = Some (Resolved (bb1\<lparr>bb_mnemonics := ms\<rparr>))"
    using r bb by (auto simp: rename_label_def bind_eq_Some_conv)
  then show ?thesis
    using bb_rewrite_erase [OF name_phi_erase b] rename_mnemonics_erase bb by (auto simp: erase_bb_def)
next
  case False
  assume "rename_label lb st = Some (e, lb', st')"
  then show ?thesis using False by (auto simp: rename_label_def split: option.splits cf_target.splits)
qed

lemma fill_operands_erase: "fill_operands st ops = Some ops' \<Longrightarrow> map erase_rv ops' = map erase_rv ops"
  by (induction st ops arbitrary: ops' rule: fill_operands.induct) auto

lemma fill_phi_erase: "erase_st (fst (fill_phi st i ok)) = erase_st i"
  using fill_operands_erase by (auto simp: fill_phi_def erase_st_def split: operation.split option.split)

lemma fill_target_erase: "fill_target st t = Some t' \<Longrightarrow> erase_target t' = erase_target t"
  using bb_rewrite_erase [OF fill_phi_erase] subscript_use_erase
  by (auto simp: fill_target_def split: cf_target.splits prod.splits if_splits)

lemma subscript_guard_erase: "subscript_guard st gu = Some gu' \<Longrightarrow> erase_guard gu' = erase_guard gu"
  using subscript_use_erase by (cases gu) auto

section \<open>Numbering the assignments\<close>

fun assigned :: "lvalue \<Rightarrow> (string \<times> nat option) list" where
  "assigned (LvVariable n i _) = [(n, i)]"
| "assigned LvUndefined = []"

definition assigns :: "statement list \<Rightarrow> (string \<times> nat option) list" where
  "assigns is = concat (map (\<lambda>i. assigned (assignee i)) is)"

lemma assigns_simps [simp]:
  "assigns [] = []" "assigns (i # is) = assigned (assignee i) @ assigns is" "assigns (is @ js) = assigns is @ assigns js"
  by (simp_all add: assigns_def)

lemma assigns_assignees: "assigns is = concat (map assigned (map assignee is))"
  by (simp add: assigns_def comp_def)

definition cnt :: "names \<Rightarrow> string \<Rightarrow> nat" where
  "cnt st n = (case nm_counter st n of None \<Rightarrow> 0 | Some i \<Rightarrow> i)"

fun numbered :: "(string \<Rightarrow> nat) \<Rightarrow> (string \<times> nat option) list \<Rightarrow> (string \<Rightarrow> nat) \<Rightarrow> bool" where
  "numbered c [] c' \<longleftrightarrow> c' = c"
| "numbered c (p # ps) c' \<longleftrightarrow> snd p = Some (c (fst p)) \<and> numbered (c(fst p := c (fst p) + 1)) ps c'"

lemma numbered_append: "numbered c (ps @ qs) c' \<longleftrightarrow> (\<exists>c1. numbered c ps c1 \<and> numbered c1 qs c')"
  by (induction ps arbitrary: c) auto

lemma numbered_range:
  "numbered c ps c' \<Longrightarrow> distinct ps \<and> (\<forall>p \<in> set ps. \<exists>i. snd p = Some i \<and> c (fst p) \<le> i \<and> i < c' (fst p)) \<and> (\<forall>n. c n \<le> c' n)"
proof (induction ps arbitrary: c)
  case (Cons p ps)
  have "numbered (c(fst p := c (fst p) + 1)) ps c'" using Cons.prems by simp
  note ih0 = Cons.IH [OF this]
  have ih: "distinct ps" "\<And>q. q \<in> set ps \<Longrightarrow> \<exists>i. snd q = Some i \<and> (c(fst p := c (fst p) + 1)) (fst q) \<le> i \<and> i < c' (fst q)"
      "\<And>n. (c(fst p := c (fst p) + 1)) n \<le> c' n"
    using ih0 by blast+
  have "p \<notin> set ps"
  proof
    assume "p \<in> set ps"
    then show False using ih(2) [of p] Cons.prems by auto
  qed
  moreover have "c n \<le> c' n" for n using ih(3) [of n] by (auto split: if_splits)
  moreover have "\<exists>i. snd q = Some i \<and> c (fst q) \<le> i \<and> i < c' (fst q)" if "q \<in> set (p # ps)" for q
  proof (cases "q = p")
    case True
    then show ?thesis using Cons.prems ih(3) [of "fst p"] by auto
  next
    case False
    then have "q \<in> set ps" using that by simp
    then show ?thesis using ih(2) [of q] by (auto split: if_splits)
  qed
  ultimately show ?case using ih(1) by simp
qed simp

lemma name_assignee_numbered: "name_assignee a st = (a', st') \<Longrightarrow> numbered (cnt st) (assigned a') (cnt st')"
  by (cases a) (auto simp: new_name_def Let_def cnt_def fun_eq_iff)

lemma name_phis_numbered:
  "map_state name_phi is st = (is', st') \<Longrightarrow>
   numbered (cnt st) (assigns (filter (is_phi \<circ> st_op) is')) (cnt st') \<and> filter (Not \<circ> is_phi \<circ> st_op) is' = filter (Not \<circ> is_phi \<circ> st_op) is \<and>
   map (is_phi \<circ> st_op) is' = map (is_phi \<circ> st_op) is"
proof (induction "is" arbitrary: st is')
  case (Cons i "is")
  obtain j st1 js where j: "name_phi i st = (j, st1)" "map_state name_phi is st1 = (js, st')" "is' = j # js"
    using Cons.prems by (auto split: prod.splits)
  show ?case
  proof (cases "is_phi (st_op i)")
    case True
    then obtain a where "name_assignee (assignee i) st = (a, st1)" "j = i\<lparr>assignee := a\<rparr>" using j(1) by (auto simp: name_phi_def split: prod.splits)
    moreover from this have "numbered (cnt st) (assigned a) (cnt st1)" using name_assignee_numbered by blast
    ultimately show ?thesis using Cons.IH [OF j(2)] True j(3) by (auto simp: numbered_append)
  next
    case False
    then show ?thesis using Cons.IH [OF j(2)] j by (auto simp: name_phi_def)
  qed
qed simp

lemma rename_statements_numbered:
  "rename_statements is st = Some (False, is', st') \<Longrightarrow>
   numbered (cnt st) (assigns is') (cnt st') \<and> (\<forall>i \<in> set is. \<not> is_phi (st_op i)) \<and> (\<forall>i \<in> set is'. \<not> is_phi (st_op i))"
proof (induction "is" arbitrary: st is')
  case (Cons i "is")
  have np: "\<not> is_phi (st_op i)" using Cons.prems by auto
  obtain args op' a' st1 is1 where s: "those (map (subscript_use st) (operands (st_op i))) = Some args" "lift_with (st_op i) args = Some op'"
      "name_assignee (assignee i) st = (a', st1)" "rename_statements is st1 = Some (False, is1, st')" "is' = \<lparr>assignee = a', st_op = op'\<rparr> # is1"
    by (rule rename_statements_step [OF Cons.prems np])
  have "length args = length (operands (st_op i))" using arg_cong [OF those_subscript_erase [OF s(1)], of length] by simp
  then have "\<not> is_phi op'" using lift_with_operands [OF s(2)] np by simp
  then show ?case using Cons.IH [OF s(4)] name_assignee_numbered [OF s(3)] s(5) np by (auto simp: numbered_append)
qed simp

definition normal :: "mnemonic \<Rightarrow> bool" where
  "normal m \<longleftrightarrow> m_opcode m \<noteq> ''__phi''"

lemma rename_mnemonics_numbered:
  "rename_mnemonics ms st = Some (False, ms', st') \<Longrightarrow>
   numbered (cnt st) (assigns (concat (map m_instructions (filter normal ms')))) (cnt st') \<and>
   list_all2 (\<lambda>m m'. normal m' = normal m \<and> (normal m \<longrightarrow> (\<forall>i \<in> set (m_instructions m) \<union> set (m_instructions m'). \<not> is_phi (st_op i))) \<and>
     (\<not> normal m \<longrightarrow> m' = m)) ms ms'"
proof (induction ms arbitrary: st ms')
  case (Cons m ms)
  show ?case
  proof (cases "normal m")
    case False
    then show ?thesis using Cons by (auto simp: normal_def bind_eq_Some_conv)
  next
    case True
    obtain is1 st1 ms1 where r: "rename_statements (m_instructions m) st = Some (False, is1, st1)" "rename_mnemonics ms st1 = Some (False, ms1, st')"
        "ms' = m\<lparr>m_operands := map (subscript_operand st) (m_operands m), m_instructions := is1\<rparr> # ms1"
      using Cons.prems True by (auto simp: normal_def bind_eq_Some_conv Let_def split: if_splits)
    show ?thesis using Cons.IH [OF r(2)] rename_statements_numbered [OF r(1)] r(3) True by (auto simp: numbered_append normal_def)
  qed
qed simp

lemma distinct_assigns_partition:
  assumes "distinct (assigns (filter P is))" "distinct (assigns (filter (Not \<circ> P) is))"
    and "set (assigns (filter P is)) \<inter> set (assigns (filter (Not \<circ> P) is)) = {}"
  shows "distinct (assigns is) \<and> set (assigns is) = set (assigns (filter P is)) \<union> set (assigns (filter (Not \<circ> P) is))"
  using assms by (induction "is") (auto split: if_splits)

section \<open>Renaming a vertex\<close>

text \<open>Phi functions are in the mnemonics called \<^verbatim>\<open>__phi\<close>, and nothing else is.\<close>

definition phi_form :: "mnemonic list \<Rightarrow> bool" where
  "phi_form ms \<longleftrightarrow> (\<forall>m \<in> set ms. \<forall>i \<in> set (m_instructions m). is_phi (st_op i) \<longleftrightarrow> \<not> normal m)"

lemma phi_form_simps [simp]:
  "phi_form []" "phi_form (m # ms) \<longleftrightarrow> (\<forall>i \<in> set (m_instructions m). is_phi (st_op i) \<longleftrightarrow> \<not> normal m) \<and> phi_form ms"
  by (auto simp: phi_form_def)

lemma normal_erase [simp]: "normal (erase_mn m) = normal m"
  by (simp add: normal_def erase_mn_def)

lemma phi_form_erase: "phi_form (map erase_mn ms) = phi_form ms"
  by (induction ms) (simp_all add: erase_mn_def erase_st_def is_phi_erase normal_def)

lemma phi_form_split:
  "phi_form ms \<Longrightarrow> filter (is_phi \<circ> st_op) (concat (map m_instructions ms)) = concat (map m_instructions (filter (Not \<circ> normal) ms)) \<and>
     filter (Not \<circ> is_phi \<circ> st_op) (concat (map m_instructions ms)) = concat (map m_instructions (filter normal ms))"
proof (induction ms)
  case (Cons m ms)
  then show ?case by (cases "normal m") (simp_all add: filter_id_conv filter_empty_conv)
qed simp

lemma rename_block_numbers:
  assumes "bb_rewrite bb name_phi st = (bb1, st1)" "rename_mnemonics (bb_mnemonics bb1) st1 = Some (False, ms, st2)" "phi_form (bb_mnemonics bb)"
  shows "distinct (assigns (concat (map m_instructions ms))) \<and> (\<forall>n. cnt st n \<le> cnt st2 n) \<and>
    (\<forall>p \<in> set (assigns (concat (map m_instructions ms))). \<exists>i. snd p = Some i \<and> cnt st (fst p) \<le> i \<and> i < cnt st2 (fst p))"
proof -
  obtain ms1 where ms1: "map_state (rewrite_mnemonic name_phi) (bb_mnemonics bb) st = (ms1, st1)" "bb_mnemonics bb1 = ms1"
    using assms(1) by (auto simp: bb_rewrite_def split: prod.splits)
  have "map erase_mn ms1 = map erase_mn (bb_mnemonics bb)"
    using arg_cong [OF bb_rewrite_erase [OF name_phi_erase assms(1)], of bb_mnemonics] ms1(2) by (simp add: erase_bb_def)
  then have form1: "phi_form ms1" using phi_form_erase assms(3) by metis
  have n1: "numbered (cnt st) (assigns (filter (is_phi \<circ> st_op) (concat (map m_instructions ms1)))) (cnt st1)"
    using name_phis_numbered map_state_nested [OF ms1(1)] by blast
  note r = rename_mnemonics_numbered [OF assms(2) [unfolded ms1(2)]]
  have "phi_form ms \<and> filter (Not \<circ> normal) ms = filter (Not \<circ> normal) ms1"
    using r [THEN conjunct2] form1 by (induction rule: list_all2_induct) auto
  then have eqs: "filter (is_phi \<circ> st_op) (concat (map m_instructions ms)) = filter (is_phi \<circ> st_op) (concat (map m_instructions ms1))"
      "filter (Not \<circ> (is_phi \<circ> st_op)) (concat (map m_instructions ms)) = concat (map m_instructions (filter normal ms))"
    using phi_form_split [of ms] phi_form_split [OF form1] by (auto simp: comp_assoc)
  let ?is = "concat (map m_instructions ms)"
  have a: "numbered (cnt st) (assigns (filter (is_phi \<circ> st_op) ?is)) (cnt st1)"
      "numbered (cnt st1) (assigns (filter (Not \<circ> (is_phi \<circ> st_op)) ?is)) (cnt st2)"
    using n1 r eqs by auto
  note ra = numbered_range [OF a(1)] and rb = numbered_range [OF a(2)]
  have "set (assigns (filter (is_phi \<circ> st_op) ?is)) \<inter> set (assigns (filter (Not \<circ> (is_phi \<circ> st_op)) ?is)) = {}"
  proof (rule equals0I)
    fix p assume p: "p \<in> set (assigns (filter (is_phi \<circ> st_op) ?is)) \<inter> set (assigns (filter (Not \<circ> (is_phi \<circ> st_op)) ?is))"
    obtain i where "snd p = Some i" "i < cnt st1 (fst p)" using ra p by blast
    moreover obtain j where "snd p = Some j" "cnt st1 (fst p) \<le> j" using rb p by blast
    ultimately show False by simp
  qed
  from distinct_assigns_partition [OF _ _ this]
  have d: "distinct (assigns ?is)" "set (assigns ?is) = set (assigns (filter (is_phi \<circ> st_op) ?is)) \<union> set (assigns (filter (Not \<circ> (is_phi \<circ> st_op)) ?is))"
    using ra rb by simp_all
  have "\<exists>i. snd p = Some i \<and> cnt st (fst p) \<le> i \<and> i < cnt st2 (fst p)" if "p \<in> set (assigns ?is)" for p
  proof -
    have le: "cnt st (fst p) \<le> cnt st1 (fst p)" "cnt st1 (fst p) \<le> cnt st2 (fst p)" using ra rb by blast+
    show ?thesis
    proof (cases "p \<in> set (assigns (filter (is_phi \<circ> st_op) ?is))")
      case True
      then obtain i where "snd p = Some i" "cnt st (fst p) \<le> i" "i < cnt st1 (fst p)" using ra by blast
      then show ?thesis using le by (intro exI [of _ i]) simp
    next
      case False
      then have "p \<in> set (assigns (filter (Not \<circ> (is_phi \<circ> st_op)) ?is))" using that d(2) by blast
      then obtain i where "snd p = Some i" "cnt st1 (fst p) \<le> i" "i < cnt st2 (fst p)" using rb by blast
      then show ?thesis using le by (intro exI [of _ i]) simp
    qed
  qed
  moreover have "cnt st n \<le> cnt st2 n" for n using ra rb le_trans by blast
  ultimately show ?thesis using d(1) by blast
qed

definition target_assigns :: "cf_target \<Rightarrow> (string \<times> nat option) list" where
  "target_assigns t = (case t of Resolved bb \<Rightarrow> assigns (block_statements bb) | _ \<Rightarrow> [])"

lemma fill_target_assigns: "fill_target st t = Some t' \<Longrightarrow> target_assigns t' = target_assigns t"
proof (cases t)
  case (Resolved bb)
  assume f: "fill_target st t = Some t'"
  obtain bb' ok where bb: "bb_rewrite bb (fill_phi st) True = (bb', ok)" by force
  have "map assignee is' = map assignee is" if "map_state (fill_phi st) is s = (is', s')" for "is" is' s s'
    using that
  proof (induction "is" arbitrary: s is')
    case (Cons i "is")
    have "assignee (fst (fill_phi st i s)) = assignee i" by (simp add: fill_phi_def split: operation.split option.split)
    then show ?case using Cons by (auto split: prod.splits)
  qed simp
  then have "map assignee (block_statements bb') = map assignee (block_statements bb)"
    using bb map_state_nested [of "fill_phi st" "bb_mnemonics bb" True] by (auto simp: bb_rewrite_def block_statements_def split: prod.splits)
  then have "assigns (block_statements bb') = assigns (block_statements bb)" using assigns_assignees by metis
  then show ?thesis using f Resolved bb by (auto simp: fill_target_def target_assigns_def split: if_splits)
qed (auto simp: fill_target_def target_assigns_def)

text \<open>The names that have a stack.\<close>

abbreviation known :: "names \<Rightarrow> string set" where
  "known st \<equiv> dom (nm_stack st)"

lemma name_assignee_known: "name_assignee a st = (a', st') \<Longrightarrow> known st' = known st \<union> defined (def_of a)"
  by (cases a) (auto simp: new_name_def Let_def)

lemma subscript_use_total: "exposed (use_of rv) \<subseteq> known st \<Longrightarrow> \<exists>rv'. subscript_use st rv = Some rv'"
  by (cases rv) auto

lemma exposed_uses [simp]: "exposed (concat (map use_of rvs)) = (\<Union>rv \<in> set rvs. exposed (use_of rv))"
proof (induction rvs)
  case (Cons rv rvs)
  then show ?case by (cases rv) auto
qed simp

lemma lift_with_total: "length args = length (operands op) \<Longrightarrow> \<exists>op'. lift_with op args = Some op'"
  by (cases op) (auto simp: app1_def app2_def length_Suc_conv)

lemma subscripts_total:
  "(\<Union>rv \<in> set rvs. exposed (use_of rv)) \<subseteq> known st \<Longrightarrow> \<exists>args. those (map (subscript_use st) rvs) = Some args \<and> length args = length rvs"
proof (induction rvs)
  case (Cons rv rvs)
  then obtain rv' args where "subscript_use st rv = Some rv'" "those (map (subscript_use st) rvs) = Some args" "length args = length rvs"
    using subscript_use_total [of rv st] by auto
  then show ?case by simp
qed simp

lemma rename_statements_total:
  assumes "exposed (concat (map statement_events is)) \<subseteq> known st" "\<forall>i \<in> set is. \<not> is_phi (st_op i)"
  shows "\<exists>is' st'. rename_statements is st = Some (False, is', st') \<and> known st' = known st \<union> defined (concat (map statement_events is))"
  using assms
proof (induction "is" arbitrary: st)
  case (Cons i "is")
  obtain args where args: "those (map (subscript_use st) (operands (st_op i))) = Some args" "length args = length (operands (st_op i))"
    using subscripts_total [of "operands (st_op i)" st] Cons.prems by (auto simp: statement_events_def)
  obtain op' where op: "lift_with (st_op i) args = Some op'" using lift_with_total [OF args(2)] by blast
  obtain a' st1 where a: "name_assignee (assignee i) st = (a', st1)" by force
  have "exposed (concat (map statement_events is)) \<subseteq> known st1"
    using Cons.prems name_assignee_known [OF a] by (auto simp: statement_events_def [of i])
  then obtain is1 st' where "rename_statements is st1 = Some (False, is1, st')" "known st' = known st1 \<union> defined (concat (map statement_events is))"
    using Cons.IH [of st1] Cons.prems by auto
  then show ?case using Cons.prems args(1) op a name_assignee_known [OF a] by (auto simp: statement_events_def [of i])
qed simp

lemma phi_events: "\<forall>i \<in> set is. is_phi (st_op i) \<Longrightarrow> concat (map statement_events is) = []"
  by (induction "is") (simp_all add: statement_events_def)

lemma rename_mnemonics_total:
  assumes "exposed (concat (map mnemonic_events ms)) \<subseteq> known st" "phi_form ms"
  shows "\<exists>ms' st'. rename_mnemonics ms st = Some (False, ms', st') \<and> known st' = known st \<union> defined (concat (map mnemonic_events ms))"
  using assms
proof (induction ms arbitrary: st)
  case (Cons m ms)
  have ev: "defined (mnemonic_events m) = defined (concat (map statement_events (m_instructions m)))" by (simp add: mnemonic_events_def)
  show ?case
  proof (cases "normal m")
    case False
    then have "concat (map statement_events (m_instructions m)) = []" using phi_events [of "m_instructions m"] Cons.prems(2) by simp
    then have d: "defined (mnemonic_events m) = {}" unfolding ev by (simp only: defined_simps)
    then obtain ms' st' where "rename_mnemonics ms st = Some (False, ms', st')" "known st' = known st \<union> defined (concat (map mnemonic_events ms))"
      using Cons.IH [of st] Cons.prems by auto
    then show ?thesis using False d by (auto simp: normal_def)
  next
    case True
    have "exposed (concat (map statement_events (m_instructions m))) \<subseteq> known st" using Cons.prems(1) by (auto simp: mnemonic_events_def)
    then obtain is' st1 where r: "rename_statements (m_instructions m) st = Some (False, is', st1)" "known st1 = known st \<union> defined (mnemonic_events m)"
      using rename_statements_total [of "m_instructions m" st] Cons.prems(2) True ev by auto
    moreover have "exposed (concat (map mnemonic_events ms)) \<subseteq> known st1" using Cons.prems(1) r(2) by auto
    then obtain ms' st' where "rename_mnemonics ms st1 = Some (False, ms', st')" "known st' = known st1 \<union> defined (concat (map mnemonic_events ms))"
      using Cons.IH [of st1] Cons.prems(2) by auto
    ultimately show ?thesis using True by (auto simp: normal_def Let_def)
  qed
qed simp

lemma events_erase [simp]:
  "use_of (erase_rv rv) = use_of rv" "def_of (erase_lv lv) = def_of lv" "statement_events (erase_st i) = statement_events i"
proof -
  show u: "use_of (erase_rv rv) = use_of rv" for rv by (cases rv) simp_all
  show d: "def_of (erase_lv lv) = def_of lv" for lv by (cases lv) simp_all
  show "statement_events (erase_st i) = statement_events i"
    by (simp add: statement_events_def erase_st_def is_phi_erase u d comp_def)
qed

lemma mnemonic_events_erase [simp]: "mnemonic_events (erase_mn m) = mnemonic_events m"
  by (simp add: mnemonic_events_def erase_mn_def comp_def)

lemma label_events_erase: "label_events (map_option erase_target lb) = label_events lb"
  by (auto simp: label_events_def erase_bb_def comp_def split: option.split cf_target.split elim: erase_target.elims)

lemma guard_use_erase: "guard_use (map_option erase_guard gu) = guard_use gu"
  by (cases gu rule: guard_use.cases) (auto elim: erase_guard.elims)

lemma vertex_events_same: "same_code g g' \<Longrightarrow> vertex_events g v = vertex_events g' v"
proof -
  assume s: "same_code g g'"
  have "label_events (al_vertex_label g v) = label_events (al_vertex_label g' v)" using same_codeD(8) [OF s] label_events_erase by metis
  moreover have "guard_use (al_edge_label g e) = guard_use (al_edge_label g' e)" for e using same_codeD(9) [OF s] guard_use_erase by metis
  ultimately show ?thesis using same_codeD(3) [OF s] by (simp add: vertex_events_def)
qed

definition target_form :: "cf_target option \<Rightarrow> bool" where
  "target_form lb \<longleftrightarrow> (case lb of Some (Resolved bb) \<Rightarrow> phi_form (bb_mnemonics bb) | _ \<Rightarrow> True)"

lemma target_form_erase: "target_form (map_option erase_target lb) = target_form lb"
  by (auto simp: target_form_def erase_bb_def phi_form_erase split: option.split cf_target.split elim: erase_target.elims)

lemma name_phis_known: "map_state name_phi is st = (is', st') \<Longrightarrow> known st \<subseteq> known st'"
proof (induction "is" arbitrary: st is')
  case (Cons i "is")
  obtain j st1 js where j: "name_phi i st = (j, st1)" "map_state name_phi is st1 = (js, st')"
    using Cons.prems by (auto split: prod.splits)
  have "known st \<subseteq> known st1" using j(1) name_assignee_known by (auto simp: name_phi_def split: if_splits prod.splits)
  then show ?case using Cons.IH [OF j(2)] by blast
qed simp

lemma rename_label_spec:
  assumes "exposed (label_events lb) \<subseteq> known st" "target_form lb"
  shows "\<exists>lb' st'. rename_label lb st = Some (False, lb', st') \<and> known st \<union> defined (label_events lb) \<subseteq> known st' \<and> (\<forall>n. cnt st n \<le> cnt st' n) \<and>
    (\<forall>t. lb' = Some t \<longrightarrow> distinct (target_assigns t) \<and>
       (\<forall>p \<in> set (target_assigns t). \<exists>i. snd p = Some i \<and> cnt st (fst p) \<le> i \<and> i < cnt st' (fst p)))"
proof (cases "\<exists>bb. lb = Some (Resolved bb)")
  case True
  then obtain bb where bb: "lb = Some (Resolved bb)" by blast
  obtain bb1 st1 where b: "bb_rewrite bb name_phi st = (bb1, st1)" by force
  have e: "map erase_mn (bb_mnemonics bb1) = map erase_mn (bb_mnemonics bb)"
    using arg_cong [OF bb_rewrite_erase [OF name_phi_erase b], of bb_mnemonics] by (simp add: erase_bb_def)
  have form: "phi_form (bb_mnemonics bb)" using assms(2) bb by (simp add: target_form_def)
  then have form1: "phi_form (bb_mnemonics bb1)" using e phi_form_erase by metis
  have "map mnemonic_events (bb_mnemonics bb1) = map mnemonic_events (bb_mnemonics bb)"
    using arg_cong [OF e, of "map mnemonic_events"] by (simp add: comp_def)
  then have ev: "concat (map mnemonic_events (bb_mnemonics bb1)) = label_events lb" using bb by (simp add: label_events_def)
  have k: "known st \<subseteq> known st1"
  proof -
    obtain ms1 where "map_state (rewrite_mnemonic name_phi) (bb_mnemonics bb) st = (ms1, st1)"
      using b by (auto simp: bb_rewrite_def split: prod.splits)
    from map_state_nested [OF this, THEN conjunct1] show ?thesis by (rule name_phis_known)
  qed
  then have "exposed (concat (map mnemonic_events (bb_mnemonics bb1))) \<subseteq> known st1" using assms(1) ev by auto
  then obtain ms st' where r: "rename_mnemonics (bb_mnemonics bb1) st1 = Some (False, ms, st')"
      "known st' = known st1 \<union> defined (label_events lb)"
    using rename_mnemonics_total [OF _ form1] ev by metis
  have "rename_label lb st = Some (False, Some (Resolved (bb1\<lparr>bb_mnemonics := ms\<rparr>)), st')" using bb b r(1) by (simp add: rename_label_def)
  moreover note rename_block_numbers [OF b r(1) form]
  ultimately show ?thesis using k r(2) by (auto simp: target_assigns_def block_statements_def)
next
  case False
  then show ?thesis
    by (cases lb) (auto simp: rename_label_def label_events_def target_assigns_def split: cf_target.split)
qed

section \<open>Renaming the successors\<close>

text \<open>The names that are looked up when a predecessor of a vertex is renamed.\<close>

definition phi_reads :: "statement \<Rightarrow> string set" where
  "phi_reads i = (if is_phi (st_op i) then \<Union>rv \<in> set (operands (st_op i)). exposed (use_of rv) else {})"

fun read_names :: "cf_target \<Rightarrow> string set" where
  "read_names (Resolved bb) = (\<Union>i \<in> set (block_statements bb). phi_reads i)"
| "read_names (Unresolved rv) = exposed (use_of rv)"
| "read_names (Failed _ _) = {}"

lemma block_statements_erase: "block_statements (erase_bb bb) = map erase_st (block_statements bb)"
  by (simp add: block_statements_def erase_bb_def erase_mn_def map_concat comp_def)

lemma read_names_erase: "read_names (erase_target t) = read_names t"
proof -
  have "phi_reads (erase_st i) = phi_reads i" for i by (simp add: phi_reads_def erase_st_def is_phi_erase)
  then show ?thesis by (cases t) (simp_all add: block_statements_erase)
qed

lemma fill_operands_total:
  "(\<Union>rv \<in> set ops. exposed (use_of rv)) \<subseteq> known st \<Longrightarrow> \<exists>ops'. fill_operands st ops = Some ops'"
  by (induction st ops rule: fill_operands.induct) auto

lemma fill_phi_total:
  assumes "phi_reads i \<subseteq> known st"
  shows "snd (fill_phi st i ok) = ok"
proof (cases "st_op i")
  case (Phi ops)
  then show ?thesis using fill_operands_total [of ops st] assms by (auto simp: fill_phi_def phi_reads_def)
qed (simp_all add: fill_phi_def)

lemma fill_target_total: "read_names t \<subseteq> known st \<Longrightarrow> \<exists>t'. fill_target st t = Some t'"
proof (cases t)
  case (Resolved bb)
  assume r: "read_names t \<subseteq> known st"
  have "snd (map_state (fill_phi st) is ok) = ok"
    if "\<forall>i \<in> set is. phi_reads i \<subseteq> known st" for "is" ok
    using that
  proof (induction "is" arbitrary: ok)
    case (Cons i "is")
    then have "snd (fill_phi st i ok) = ok" using fill_phi_total by simp
    then show ?case using Cons.IH [of ok] Cons.prems by (simp add: case_prod_unfold)
  qed simp
  then have "snd (map_state (fill_phi st) (block_statements bb) True)" using r Resolved by (simp add: UN_subset_iff)
  then show ?thesis using Resolved map_state_nested [of "fill_phi st" "bb_mnemonics bb" True]
    by (auto simp: fill_target_def bb_rewrite_def block_statements_def split: prod.splits)
next
  case (Unresolved rv)
  assume "read_names t \<subseteq> known st"
  then show ?thesis using Unresolved subscript_use_total [of rv st] by (auto simp: fill_target_def)
qed (simp add: fill_target_def)

lemma subscript_guard_total: "exposed (guard_use (Some gu)) \<subseteq> known st \<Longrightarrow> \<exists>gu'. subscript_guard st gu = Some gu'"
  using subscript_use_total [of _ st] by (cases gu) auto

definition vertex_assigns :: "cf_graph \<Rightarrow> al_vertex \<Rightarrow> (string \<times> nat option) list" where
  "vertex_assigns g v = (case al_vertex_label g v of None \<Rightarrow> [] | Some t \<Rightarrow> target_assigns t)"

text \<open>The names that processing an edge looks up in the vertex it leads to.\<close>

definition edge_reads :: "cf_graph \<Rightarrow> al_edge \<Rightarrow> string set" where
  "edge_reads g e =
     (case al_target g e of
        None \<Rightarrow> {}
      | Some v \<Rightarrow> (case al_vertex_label g v of None \<Rightarrow> {} | Some t \<Rightarrow> read_names t))"

lemma edge_reads_same:
  assumes "same_code g g0"
  shows "edge_reads g = edge_reads g0"
proof -
  have lab: "(case map_option erase_target lb of None \<Rightarrow> {} | Some t \<Rightarrow> read_names t) = (case lb of None \<Rightarrow> {} | Some t \<Rightarrow> read_names t)" for lb
    by (cases lb) (simp_all add: read_names_erase)
  have "(case al_vertex_label g v of None \<Rightarrow> {} | Some t \<Rightarrow> read_names t) = (case al_vertex_label g0 v of None \<Rightarrow> {} | Some t \<Rightarrow> read_names t)" for v
    using lab [of "al_vertex_label g v"] lab [of "al_vertex_label g0 v"] same_codeD(8) [OF assms, of v] by simp
  then show ?thesis unfolding edge_reads_def same_codeD(5) [OF assms] by presburger
qed

lemma rename_edges_spec:
  assumes "\<forall>e \<in> set es. \<exists>v. al_target g e = Some v" "\<forall>e \<in> set es. exposed (guard_use (al_edge_label g e)) \<subseteq> known st"
    and "\<forall>e \<in> set es. edge_reads g e \<subseteq> known st"
  shows "\<exists>g'. rename_edges st es g = Some g' \<and> same_code g' g \<and> vertex_assigns g' = vertex_assigns g"
  using assms
proof (induction es arbitrary: g)
  case (Cons e es)
  obtain v where v: "al_target g e = Some v" using Cons.prems(1) by auto
  obtain g1 where g1: "(case al_edge_label g e of None \<Rightarrow> Some g
      | Some gu \<Rightarrow> do { gu' \<leftarrow> subscript_guard st gu; Some (al_set_edge_label g e (\<lambda>_. gu')) }) = Some g1"
      "same_code g1 g" "al_vertex_label g1 = al_vertex_label g"
  proof (cases "al_edge_label g e")
    case (Some gu)
    then obtain gu' where gu': "subscript_guard st gu = Some gu'" using subscript_guard_total Cons.prems(2) by fastforce
    show ?thesis
      using gu' Some same_code_edge [OF Some subscript_guard_erase [OF gu']] by (intro that [of "al_set_edge_label g e (\<lambda>_. gu')"]) (simp_all add: set_edge_label fun_eq_iff)
  qed (use that in auto)
  have v1: "al_target g1 e = Some v" using v same_codeD(5) [OF g1(2)] by simp
  obtain g2 where g2: "(case al_vertex_label g1 v of None \<Rightarrow> Some g1
      | Some t \<Rightarrow> do { t' \<leftarrow> fill_target st t; Some (al_set_vertex_label g1 v (\<lambda>_. t')) }) = Some g2"
      "same_code g2 g1" "vertex_assigns g2 = vertex_assigns g1"
  proof (cases "al_vertex_label g1 v")
    case (Some t)
    then have "read_names t \<subseteq> known st" using Cons.prems(3) v g1(3) by (simp add: edge_reads_def)
    then obtain t' where t': "fill_target st t = Some t'" using fill_target_total by blast
    show ?thesis
      using t' Some same_code_vertex [OF Some fill_target_erase [OF t']] fill_target_assigns [OF t']
      by (intro that [of "al_set_vertex_label g1 v (\<lambda>_. t')"]) (simp_all add: set_vertex_label vertex_assigns_def fun_eq_iff)
  qed (use that in auto)
  have sc: "same_code g2 g" using g1(2) g2(2) by simp
  have "\<forall>x \<in> set es. \<exists>v. al_target g2 x = Some v" using Cons.prems(1) same_codeD(5) [OF sc] by simp
  moreover have "exposed (guard_use (al_edge_label g2 x)) = exposed (guard_use (al_edge_label g x))" for x
    using same_codeD(9) [OF sc] guard_use_erase by metis
  moreover have "\<forall>x \<in> set es. edge_reads g2 x \<subseteq> known st" using Cons.prems(3) edge_reads_same [OF sc] by simp
  ultimately obtain g' where "rename_edges st es g2 = Some g'" "same_code g' g2" "vertex_assigns g' = vertex_assigns g2"
    using Cons.IH [of g2] Cons.prems(2) by auto
  moreover have "vertex_assigns g1 = vertex_assigns g" using g1(3) by (simp add: vertex_assigns_def fun_eq_iff)
  ultimately show ?case using g1(1) v1 g2 sc by simp
qed simp

section \<open>Descendants in the dominator tree\<close>

definition desc :: "('v \<rightharpoonup> 'v) \<Rightarrow> 'v \<Rightarrow> 'v set" where
  "desc idom b = {v \<in> dom idom. b \<in> anc idom v}"

context dominator_tree
begin

lemma desc_children:
  assumes "tree ret" "b \<in> dom ret"
  shows "desc ret b = insert b (\<Union>k \<in> {k. ret k = Some b \<and> k \<noteq> b}. desc ret k)"
proof (intro set_eqI iffI)
  fix v assume "v \<in> desc ret b"
  then have v: "v \<in> dom ret" "b \<in> anc ret v" by (auto simp: desc_def)
  show "v \<in> insert b (\<Union>k \<in> {k. ret k = Some b \<and> k \<noteq> b}. desc ret k)"
    using v
  proof (induction "length po - idx v" arbitrary: v rule: less_induct)
    case less
    show ?case
    proof (cases "v = b")
      case False
      then have "v \<noteq> s" using less.prems(2) anc_s [OF assms(1)] by auto
      then obtain x where x: "ret v = Some x" "x \<in> dom ret" "idx v < idx x" using tree_step assms(1) less.prems(1) by blast
      have av: "anc ret v = insert v (anc ret x)" using anc_unfold [of ret v x] x(1) by simp
      show ?thesis
      proof (cases "x = b")
        case True
        then show ?thesis using x(1) False less.prems(1) by (auto simp: desc_def)
      next
        case nb: False
        have "idx v < length po" using po_idx_some tree_po [OF assms(1) less.prems(1)] by blast
        moreover have "b \<in> anc ret x" using less.prems(2) av False by auto
        ultimately have "x \<in> insert b (\<Union>k \<in> {k. ret k = Some b \<and> k \<noteq> b}. desc ret k)"
          using less.hyps [OF _ x(2)] diff_less_mono2 [OF x(3), of "length po"] by auto
        then obtain k where "ret k = Some b" "k \<noteq> b" "k \<in> anc ret x" using nb by (auto simp: desc_def)
        then show ?thesis using av less.prems(1) by (auto simp: desc_def)
      qed
    qed simp
  qed
next
  fix v assume "v \<in> insert b (\<Union>k \<in> {k. ret k = Some b \<and> k \<noteq> b}. desc ret k)"
  then show "v \<in> desc ret b"
  proof
    assume "v \<in> (\<Union>k \<in> {k. ret k = Some b \<and> k \<noteq> b}. desc ret k)"
    then obtain k where k: "ret k = Some b" "v \<in> desc ret k" by blast
    have "b \<in> anc ret k" using anc_unfold [of ret k b] k(1) by simp
    then show ?thesis using k(2) anc_trans [of k ret v b] by (auto simp: desc_def)
  qed (simp add: desc_def assms(2))
qed

lemma desc_child:
  assumes "tree ret" "ret k = Some b" "k \<noteq> b"
  shows "b \<notin> desc ret k" "k \<in> dom ret" "idx k < idx b"
proof -
  show kd: "k \<in> dom ret" using assms(2) by blast
  have "k \<noteq> s" using assms by (auto simp: parent_tree_def)
  then show lt: "idx k < idx b" using assms(1,2) unfolding parent_tree_def by blast
  have "b \<in> dom ret" using assms(1,2) unfolding parent_tree_def by blast
  then show "b \<notin> desc ret k" using anc_up [OF assms(1), of b k] lt assms(3) by (auto simp: desc_def)
qed

lemma desc_disjoint:
  assumes "tree ret" "ret k = Some b" "k \<noteq> b" "ret k' = Some b" "k' \<noteq> b" "k \<noteq> k'"
  shows "desc ret k \<inter> desc ret k' = {}"
proof (rule equals0I)
  fix v assume "v \<in> desc ret k \<inter> desc ret k'"
  then have "k \<in> anc ret v" "k' \<in> anc ret v" by (auto simp: desc_def)
  then have "k \<in> anc ret k' \<or> k' \<in> anc ret k" by (rule anc_linear)
  then have "k \<in> anc ret b \<or> k' \<in> anc ret b"
    using anc_unfold [of ret k b] anc_unfold [of ret k' b] assms(2,4,6) by auto
  moreover have "b \<in> dom ret" using assms(1,2) unfolding parent_tree_def by blast
  ultimately show False using desc_child(1) [OF assms(1-3)] desc_child(1) [OF assms(1,4,5)] by (auto simp: desc_def)
qed

lemma child_height:
  assumes "tree ret" "ret k = Some b" "k \<noteq> b"
  shows "card {v \<in> dom ret. idx v < idx k} < card {v \<in> dom ret. idx v < idx b}"
proof (rule psubset_card_mono)
  have "finite (dom ret)" using assms(1) finite_subset [of "dom ret" "set po"] by (auto simp: parent_tree_def)
  then show "finite {v \<in> dom ret. idx v < idx b}" by simp
  show "{v \<in> dom ret. idx v < idx k} \<subset> {v \<in> dom ret. idx v < idx b}" using desc_child(2,3) [OF assms] by auto
qed

end

section \<open>Renaming a subtree\<close>

text \<open>The assignments of the vertices in \<open>D\<close> are numbered below the counters, each number once.\<close>

definition ssa_inv :: "cf_graph \<Rightarrow> names \<Rightarrow> al_vertex set \<Rightarrow> bool" where
  "ssa_inv g st D \<longleftrightarrow>
     (\<forall>v \<in> D. distinct (vertex_assigns g v) \<and> (\<forall>p \<in> set (vertex_assigns g v). \<exists>i. snd p = Some i \<and> i < cnt st (fst p))) \<and>
     (\<forall>v \<in> D. \<forall>w \<in> D. v \<noteq> w \<longrightarrow> set (vertex_assigns g v) \<inter> set (vertex_assigns g w) = {})"

lemma ssa_inv_insert:
  assumes "ssa_inv g st D" "b \<notin> D" "\<forall>v. v \<noteq> b \<longrightarrow> vertex_assigns g' v = vertex_assigns g v" "\<forall>n. cnt st n \<le> cnt st' n"
    and "distinct (vertex_assigns g' b)" "\<forall>p \<in> set (vertex_assigns g' b). \<exists>i. snd p = Some i \<and> cnt st (fst p) \<le> i \<and> i < cnt st' (fst p)"
  shows "ssa_inv g' st' (insert b D)"
proof -
  have eq: "vertex_assigns g' v = vertex_assigns g v" if "v \<in> D" for v using assms(2,3) that by metis
  have old: "\<exists>i. snd p = Some i \<and> i < cnt st (fst p)" if "v \<in> D" "p \<in> set (vertex_assigns g v)" for v p
    using assms(1) that unfolding ssa_inv_def by blast
  have dis: "set (vertex_assigns g' b) \<inter> set (vertex_assigns g' v) = {}" if v: "v \<in> D" for v
  proof (rule equals0I)
    fix p assume p: "p \<in> set (vertex_assigns g' b) \<inter> set (vertex_assigns g' v)"
    obtain i where "snd p = Some i" "cnt st (fst p) \<le> i" using assms(6) p by blast
    moreover obtain j where "snd p = Some j" "j < cnt st (fst p)" using old [OF v, of p] p eq [OF v] by auto
    ultimately show False by simp
  qed
  have bound: "\<exists>i. snd p = Some i \<and> i < cnt st' (fst p)" if vp: "v \<in> insert b D" "p \<in> set (vertex_assigns g' v)" for v p
  proof (cases "v = b")
    case True
    then show ?thesis using assms(6) vp(2) by blast
  next
    case False
    then have v: "v \<in> D" using vp(1) by simp
    then obtain i where "snd p = Some i" "i < cnt st (fst p)" using old [OF v, of p] vp(2) eq by auto
    then show ?thesis using assms(4) less_le_trans by blast
  qed
  have "distinct (vertex_assigns g' v)" if "v \<in> insert b D" for v
    using that assms(1,5) eq unfolding ssa_inv_def by (cases "v = b") auto
  moreover have "set (vertex_assigns g' v) \<inter> set (vertex_assigns g' w) = {}" if "v \<in> insert b D" "w \<in> insert b D" "v \<noteq> w" for v w
  proof (cases "v = b \<or> w = b")
    case True
    then show ?thesis using dis [of w] dis [of v] that by blast
  next
    case False
    then have "v \<in> D" "w \<in> D" using that by auto
    then show ?thesis using assms(1) eq that(3) unfolding ssa_inv_def by simp
  qed
  ultimately show ?thesis unfolding ssa_inv_def using bound by blast
qed

lemma ssa_inv_cong: "ssa_inv g st D \<Longrightarrow> vertex_assigns g' = vertex_assigns g \<Longrightarrow> cnt st' = cnt st \<Longrightarrow> ssa_inv g' st' D"
  by (simp add: ssa_inv_def)

lemma pop_names_spec: "cnt (pop_names lb st) = cnt st" "known (pop_names lb st) = known st"
proof -
  have "cnt (pop_assignee i st) = cnt st \<and> known (pop_assignee i st) = known st" for i st
    by (auto simp: cnt_def fun_eq_iff split: lvalue.split option.splits)
  then have "cnt (fold pop_assignee is st) = cnt st \<and> known (fold pop_assignee is st) = known st" for "is" st
    by (induction "is" arbitrary: st) auto
  then show "cnt (pop_names lb st) = cnt st" "known (pop_names lb st) = known st"
    by (auto simp: pop_names_def bb_execute_def fold_nested split: option.split cf_target.split)
qed

definition ssa_ready :: "cf_graph \<Rightarrow> al_vertex \<Rightarrow> (al_vertex \<rightharpoonup> al_vertex) \<Rightarrow> al_vertex list \<Rightarrow> string set \<Rightarrow> string set \<Rightarrow> bool" where
  "ssa_ready g s idom keys G K \<longleftrightarrow>
     wf_al g \<and> parent_tree s (al_postorder g s) idom \<and> dom idom = set (al_vertices g) \<and> distinct keys \<and> set keys = dom idom \<and> G \<subseteq> K \<and>
     (\<forall>v. target_form (al_vertex_label g v)) \<and>
     (\<forall>v es e. al_out_edges g v = Some es \<and> e \<in> set es \<longrightarrow> edge_reads g e \<subseteq> K \<union> defined (label_events (al_vertex_label g v))) \<and>
     (\<forall>v \<in> dom idom. exposed (vertex_events g v) \<subseteq> G)"

definition renames ::
  "cf_graph \<Rightarrow> string set \<Rightarrow> names \<Rightarrow> al_vertex set \<Rightarrow> (ssa_error option \<times> names \<times> cf_graph) option \<Rightarrow> bool" where
  "renames g0 K st D r \<longleftrightarrow> (\<exists>st' g'. r = Some (None, st', g') \<and> same_code g' g0 \<and> K \<subseteq> known st' \<and> ssa_inv g' st' D)"

lemma rename_children_spec:
  assumes "\<And>k st g D. k \<in> set ks \<Longrightarrow> same_code g g0 \<Longrightarrow> K \<subseteq> known st \<Longrightarrow> ssa_inv g st D \<Longrightarrow> D \<inter> desc idom k = {} \<Longrightarrow>
      renames g0 K st (D \<union> desc idom k) (rename idom keys fuel k st g)"
    and "distinct ks" "\<forall>k \<in> set ks. \<forall>k' \<in> set ks. k \<noteq> k' \<longrightarrow> desc idom k \<inter> desc idom k' = {}"
    and "same_code g g0" "K \<subseteq> known st" "ssa_inv g st D" "\<forall>k \<in> set ks. D \<inter> desc idom k = {}"
  shows "renames g0 K st (D \<union> (\<Union>k \<in> set ks. desc idom k)) (rename_children idom keys fuel ks st g)"
  using assms
proof (induction ks arbitrary: st g D)
  case (Cons k ks)
  obtain st1 g1 where r: "rename idom keys fuel k st g = Some (None, st1, g1)" "same_code g1 g0" "K \<subseteq> known st1" "ssa_inv g1 st1 (D \<union> desc idom k)"
    using Cons.prems(1) [of k g st D] Cons.prems(4-7) unfolding renames_def by auto
  have "renames g0 K st1 ((D \<union> desc idom k) \<union> (\<Union>k \<in> set ks. desc idom k)) (rename_children idom keys fuel ks st1 g1)"
  proof (rule Cons.IH [OF _ _ _ r(2-4)])
    show "renames g0 K st (D \<union> desc idom k') (rename idom keys fuel k' st g)"
      if "k' \<in> set ks" "same_code g g0" "K \<subseteq> known st" "ssa_inv g st D" "D \<inter> desc idom k' = {}" for k' st g D
      using Cons.prems(1) [of k' g st D] that by simp
    show "\<forall>k' \<in> set ks. (D \<union> desc idom k) \<inter> desc idom k' = {}"
    proof
      fix k' assume "k' \<in> set ks"
      then have "k \<noteq> k'" "k' \<in> set (k # ks)" using Cons.prems(2) by auto
      then show "(D \<union> desc idom k) \<inter> desc idom k' = {}" using Cons.prems(3,7) by (simp add: Int_Un_distrib2)
    qed
  qed (use Cons.prems(2,3) in auto)
  then show ?case using r(1) by (simp add: renames_def Un_assoc)
qed (auto simp: renames_def)

lemma exposed_guards: "e \<in> set es \<Longrightarrow> exposed (guard_use (lab e)) \<subseteq> exposed (concat (map (\<lambda>e. guard_use (lab e)) es))"
proof (induction es)
  case (Cons x es)
  have "defined (guard_use (lab x)) = {}"
  proof (cases "lab x" rule: guard_use.cases)
    case (1 flag ex)
    then show ?thesis by (cases flag) simp_all
  qed simp_all
  then show ?case using Cons by auto
qed simp

lemma rename_spec:
  assumes "ssa_ready g0 s idom keys G K" "al_start g0 s"
    and "card {v \<in> dom idom. ix (al_postorder g0 s) v < ix (al_postorder g0 s) b} < fuel" "b \<in> dom idom" "same_code g g0" "G \<subseteq> known st"
    and "K \<subseteq> known st \<union> defined (label_events (al_vertex_label g0 b))" "ssa_inv g st D" "D \<inter> desc idom b = {}"
  shows "renames g0 K st (D \<union> desc idom b) (rename idom keys fuel b st g)"
  using assms(3-9)
proof (induction fuel arbitrary: b st g D)
  case (Suc fuel)
  have rd: "wf_al g0" "parent_tree s (al_postorder g0 s) idom" "dom idom = set (al_vertices g0)" "distinct keys" "set keys = dom idom" "G \<subseteq> K"
      "\<And>v. target_form (al_vertex_label g0 v)"
      "\<And>v es e. al_out_edges g0 v = Some es \<and> e \<in> set es \<Longrightarrow> edge_reads g0 e \<subseteq> K \<union> defined (label_events (al_vertex_label g0 v))"
      "\<And>v. v \<in> dom idom \<Longrightarrow> exposed (vertex_events g0 v) \<subseteq> G"
    using assms(1) unfolding ssa_ready_def by (simp_all, blast)
  let ?lb = "al_vertex_label g b"
  have lev: "label_events ?lb = label_events (al_vertex_label g0 b)" using same_codeD(8) [OF Suc.prems(3)] label_events_erase by metis
  obtain es where es: "al_out_edges g0 b = Some es" "\<forall>e \<in> set es. \<exists>v. al_target g0 e = Some v"
  proof -
    have "b \<in> set (al_vertices g0)" using Suc.prems(2) rd(3) by blast
    then show thesis using al_dfs.out_closed [of b g0] rd(1) that by simp blast
  qed
  have ve: "vertex_events g0 b = label_events (al_vertex_label g0 b) @ concat (map (\<lambda>e. guard_use (al_edge_label g0 e)) es)"
    using es(1) by (simp add: vertex_events_def)
  have exl: "exposed (label_events ?lb) \<subseteq> known st" using rd(9) [OF Suc.prems(2)] Suc.prems(4) ve lev by auto
  have "target_form ?lb" using same_codeD(8) [OF Suc.prems(3), of b] target_form_erase rd(7) by metis
  from rename_label_spec [OF exl this] obtain lb' st1 where l: "rename_label ?lb st = Some (False, lb', st1)"
      "known st \<union> defined (label_events ?lb) \<subseteq> known st1" "\<forall>n. cnt st n \<le> cnt st1 n"
      "\<forall>t. lb' = Some t \<longrightarrow> distinct (target_assigns t) \<and>
         (\<forall>p \<in> set (target_assigns t). \<exists>i. snd p = Some i \<and> cnt st (fst p) \<le> i \<and> i < cnt st1 (fst p))" by blast
  have "b \<in> set (al_vertices g)" using Suc.prems(2) rd(3) same_codeD(1) [OF Suc.prems(3)] by simp
  then obtain t0 where t0: "?lb = Some t0" by (auto simp: al_vertices_iff al_vertex_label_def)
  obtain t where t: "lb' = Some t" "erase_target t = erase_target t0" using rename_label_erase [OF l(1)] t0 by (cases lb') auto
  let ?g1 = "al_set_vertex_label g b (\<lambda>_. t)"
  have sc1: "same_code ?g1 g" using same_code_vertex [OF t0 t(2)] .
  have K1: "K \<subseteq> known st1" using Suc.prems(5) l(2) unfolding lev by (rule order.trans)
  have va1: "vertex_assigns ?g1 v = (if v = b then target_assigns t else vertex_assigns g v)" for v
    using t0 by (simp add: vertex_assigns_def set_vertex_label)
  have bD: "b \<notin> D" using Suc.prems(2,7) by (auto simp: desc_def)
  have inv1: "ssa_inv ?g1 st1 (insert b D)"
    using ssa_inv_insert [OF Suc.prems(6) bD _ l(3), of ?g1] va1 l(4) t(1) by simp
  have sc10: "same_code ?g1 g0" using sc1 Suc.prems(3) by simp
  obtain g2 where g2: "rename_edges st1 (sort_key al_edge_id es) ?g1 = Some g2" "same_code g2 ?g1" "vertex_assigns g2 = vertex_assigns ?g1"
  proof -
    have "\<forall>e \<in> set (sort_key al_edge_id es). \<exists>v. al_target ?g1 e = Some v" using es(2) same_codeD(5) [OF sc10] by simp
    moreover have "\<forall>e \<in> set (sort_key al_edge_id es). exposed (guard_use (al_edge_label ?g1 e)) \<subseteq> known st1"
    proof
      fix e assume "e \<in> set (sort_key al_edge_id es)"
      then have e: "e \<in> set es" by simp
      have "guard_use (al_edge_label ?g1 e) = guard_use (al_edge_label g0 e)" using same_codeD(9) [OF sc10, of e] guard_use_erase by metis
      then have "exposed (guard_use (al_edge_label ?g1 e)) \<subseteq> exposed (concat (map (\<lambda>e. guard_use (al_edge_label g0 e)) es))"
        using exposed_guards e by metis
      also have "\<dots> \<subseteq> exposed (vertex_events g0 b) \<union> defined (label_events ?lb)" using ve lev by auto
      finally show "exposed (guard_use (al_edge_label ?g1 e)) \<subseteq> known st1" using rd(9) [OF Suc.prems(2)] Suc.prems(4) l(2) by blast
    qed
    moreover have "\<forall>e \<in> set (sort_key al_edge_id es). edge_reads ?g1 e \<subseteq> known st1"
    proof
      fix e assume "e \<in> set (sort_key al_edge_id es)"
      then have "edge_reads g0 e \<subseteq> K \<union> defined (label_events ?lb)" using rd(8) [of b es e] es(1) lev by simp
      then show "edge_reads ?g1 e \<subseteq> known st1" using edge_reads_same [OF sc10] K1 l(2) by auto
    qed
    ultimately show thesis using rename_edges_spec [of "sort_key al_edge_id es" ?g1 st1] that by blast
  qed
  let ?ks = "filter (\<lambda>k. idom k = Some b \<and> k \<noteq> b) keys"
  have child: "idom k = Some b" "k \<noteq> b" if "k \<in> set ?ks" for k using that by auto
  have "renames g0 K st1 (insert b D \<union> (\<Union>k \<in> set ?ks. desc idom k)) (rename_children idom keys fuel ?ks st1 g2)"
  proof (rule rename_children_spec)
    fix k st' g' D' assume k: "k \<in> set ?ks" "same_code g' g0" "K \<subseteq> known st'" "ssa_inv g' st' D'" "D' \<inter> desc idom k = {}"
    show "renames g0 K st' (D' \<union> desc idom k) (rename idom keys fuel k st' g')"
    proof (rule Suc.IH [OF _ _ k(2) _ _ k(4,5)])
      show "card {v \<in> dom idom. ix (al_postorder g0 s) v < ix (al_postorder g0 s) k} < fuel"
        using al_tree.child_height [of s g0 idom k b] rd(2) child [OF k(1)] Suc.prems(1) by simp
      show "k \<in> dom idom" using child(1) [OF k(1)] by blast
      show "G \<subseteq> known st'" using rd(6) k(3) by blast
      show "K \<subseteq> known st' \<union> defined (label_events (al_vertex_label g0 k))" using k(3) by blast
    qed
  next
    show "\<forall>k \<in> set ?ks. \<forall>k' \<in> set ?ks. k \<noteq> k' \<longrightarrow> desc idom k \<inter> desc idom k' = {}"
      using al_tree.desc_disjoint [of s g0 idom] rd(2) by auto
    show "\<forall>k \<in> set ?ks. insert b D \<inter> desc idom k = {}"
    proof
      fix k assume k: "k \<in> set ?ks"
      have "desc idom k \<subseteq> desc idom b" using al_tree.desc_children [of s g0 idom b] rd(2) Suc.prems(2) child [OF k] by auto
      moreover have "b \<notin> desc idom k" using al_tree.desc_child(1) [of s g0 idom k b] rd(2) child [OF k] by simp
      ultimately show "insert b D \<inter> desc idom k = {}" using Suc.prems(7) by blast
    qed
  qed (use rd(4) K1 g2 sc10 inv1 in \<open>auto intro: ssa_inv_cong\<close>)
  moreover have "insert b D \<union> (\<Union>k \<in> set ?ks. desc idom k) = D \<union> desc idom b"
    using al_tree.desc_children [of s g0 idom b] rd(2,5) Suc.prems(2) by auto
  ultimately obtain st2 g3 where c: "rename_children idom keys fuel ?ks st1 g2 = Some (None, st2, g3)" "same_code g3 g0" "K \<subseteq> known st2"
      "ssa_inv g3 st2 (D \<union> desc idom b)"
    unfolding renames_def by auto
  have "al_out_edges ?g1 b = Some es" using es(1) same_codeD(3) [OF sc10] by simp
  then have "rename idom keys (Suc fuel) b st g = Some (None, pop_names (al_vertex_label g3 b) st2, g3)"
    using l(1) t(1) g2(1) c(1) by simp
  then show ?case using c(2-4) pop_names_spec [of "al_vertex_label g3 b" st2] ssa_inv_cong [OF c(4)] by (auto simp: renames_def)
qed simp

end
