(* ===== verification/Ssa_Form.thy ===== *)
theory Ssa_Form
  imports Ssa_Spec "HOL-Library.List_Lexorder" "HOL-Library.Char_ord"
begin

text \<open>
  The passes of the conversion to static single assignment form: the global names, the placement of the
  Phi functions, the renaming of a whole function and the composition of the two.
\<close>

section \<open>Global names\<close>

definition globals_of :: "'u func \<Rightarrow> string set" where
  "globals_of f = (\<Union>v \<in> reachable f. exposed (vertex_events (f_cflow_graph f) v))"

definition sites :: "'u func \<Rightarrow> string \<Rightarrow> al_vertex set" where
  "sites f x = {v \<in> reachable f. x \<in> defined (vertex_events (f_cflow_graph f) v)}"

lemma global_names_spec:
  assumes "wf_func f"
  shows "global_names f = Some (globals_of f, \<lambda>x. if sites f x = {} then None else Some (sites f x))"
proof -
  let ?g = "f_cflow_graph f"
  have e: "entry_or_empty (fst (all_sets ?g (reachable f))) v = (if v \<in> reachable f then defined (vertex_events ?g v) else {})"
      "entry_or_empty (snd (all_sets ?g (reachable f))) v = (if v \<in> reachable f then exposed (vertex_events ?g v) else {})" for v
    by (simp_all add: entry_or_empty_def all_sets_def)
  have G: "\<Union> (set (map (entry_or_empty (snd (all_sets ?g (reachable f)))) (al_vertices ?g))) = globals_of f"
    using reachable_vertices [OF assms] by (auto simp: globals_of_def e split: if_splits)
  have S: "set (filter (\<lambda>v. x \<in> entry_or_empty (fst (all_sets ?g (reachable f))) v) (al_vertices ?g)) = sites f x" for x
    using reachable_vertices [OF assms] by (auto simp: sites_def e split: if_splits)
  show ?thesis unfolding global_names_def liveness_sets_spec [OF assms] option.case case_prod_unfold Let_def G S by simp
qed

section \<open>Renaming a function\<close>

lemma al_vertices_list: "wf_al g \<Longrightarrow> distinct (al_vertices g) \<and> al_num_vertices g = length (al_vertices g)"
  by (simp add: wf_al_def wf_core_def al_vertices_def al_num_vertices_def)

lemma all_reachable_iff:
  assumes "wf_al g"
  shows "all_reachable g idom \<longleftrightarrow> set (al_vertices g) \<subseteq> dom idom"
proof -
  have "length (filter P xs) = length xs \<longleftrightarrow> (\<forall>x \<in> set xs. P x)" for P and xs :: "al_vertex list"
    by (metis filter_True filter_id_conv length_filter_less nat_neq_iff)
  then show ?thesis using al_vertices_list [OF assms] by (auto simp: all_reachable_def)
qed

text \<open>An enumeration of the finite sets of vertices, as the iteration over a hash table gives.\<close>

definition enumerates :: "('a set \<Rightarrow> 'a list) \<Rightarrow> bool" where
  "enumerates order \<longleftrightarrow> (\<forall>S. finite S \<longrightarrow> distinct (order S) \<and> set (order S) = S)"

definition single_assignment :: "cf_graph \<Rightarrow> bool" where
  "single_assignment g \<longleftrightarrow>
     distinct (concat (map (vertex_assigns g) (al_vertices g))) \<and>
     (\<forall>v \<in> set (al_vertices g). \<forall>p \<in> set (vertex_assigns g v). snd p \<noteq> None)"

lemma ssa_inv_single:
  assumes "ssa_inv g st (set (al_vertices g))" "distinct (al_vertices g)"
  shows "single_assignment g"
proof -
  have "set vs \<subseteq> set (al_vertices g) \<Longrightarrow> distinct vs \<Longrightarrow> distinct (concat (map (vertex_assigns g) vs))" for vs
  proof (induction vs)
    case (Cons v vs)
    have "set (vertex_assigns g v) \<inter> set (vertex_assigns g w) = {}" if "w \<in> set vs" for w
    proof -
      have "v \<noteq> w" "v \<in> set (al_vertices g)" "w \<in> set (al_vertices g)" using Cons.prems that by auto
      then show ?thesis using assms(1) unfolding ssa_inv_def by blast
    qed
    moreover have "distinct (vertex_assigns g v)" using assms(1) Cons.prems(1) by (simp add: ssa_inv_def)
    ultimately show ?case using Cons by auto
  qed simp
  moreover have "snd p \<noteq> None" if "v \<in> set (al_vertices g)" "p \<in> set (vertex_assigns g v)" for v p
    using assms(1) that unfolding ssa_inv_def by force
  ultimately show ?thesis using assms(2) by (simp add: single_assignment_def)
qed

text \<open>
  What renaming relies on: Phi functions are in the mnemonics \<^verbatim>\<open>__phi\<close> only, and a name that an edge looks up in
  its target is global, or assigned in the entry block or the block the edge leaves.
\<close>

definition renamable :: "'u func \<Rightarrow> bool" where
  "renamable f \<longleftrightarrow>
     (let g = f_cflow_graph f; en = defined (label_events (al_vertex_label g (f_entry_point f))) in
      (\<forall>v. target_form (al_vertex_label g v)) \<and>
      (\<forall>v es e. al_out_edges g v = Some es \<and> e \<in> set es \<longrightarrow> edge_reads g e \<subseteq> globals_of f \<union> en \<union> defined (label_events (al_vertex_label g v))))"

lemma rename_variables_ok:
  assumes "wf_func f" "set (al_vertices (f_cflow_graph f)) \<subseteq> reachable f" "renamable f" "enumerates vorder"
  shows "\<exists>g'. rename_variables vorder f = Some (None, f\<lparr>f_cflow_graph := g'\<rparr>) \<and> same_code g' (f_cflow_graph f) \<and> single_assignment g'"
proof -
  let ?g = "f_cflow_graph f" and ?s = "f_entry_point f"
  have wf: "wf_al ?g" "?s \<in> set (al_vertices ?g)" using assms(1) by (simp_all add: wf_func_def)
  then have start: "al_start ?g ?s" by (simp add: al_start_def)
  obtain idom where i: "immediate_dominator (al_succs ?g) (al_preds ?g) ?s = Some idom"
      "dominator_map (ag_rel (abs_al ?g)) ?s (al_postorder ?g ?s) idom" "dom idom = reachable f"
    using immediate_dominator_idoms [OF wf] unfolding reachable_def by blast
  have di: "dom idom = set (al_vertices ?g)" using i(3) assms(2) reachable_vertices [OF assms(1)] by blast
  have tree: "parent_tree ?s (al_postorder ?g ?s) idom" using i(2) by (simp add: dominator_map_def)
  let ?keys = "vorder (set (filter (\<lambda>v. idom v \<noteq> None) (al_vertices ?g)))"
  have keys: "distinct ?keys" "set ?keys = dom idom" using assms(4) di by (auto simp: enumerates_def)
  let ?G = "globals_of f" and ?st = "\<lparr>nm_counter = Map.empty, nm_stack = (\<lambda>n. if n \<in> globals_of f then Some [] else None)\<rparr>"
  let ?K = "?G \<union> defined (label_events (al_vertex_label ?g ?s))"
  have kn: "known ?st = ?G" by (auto split: if_splits)
  have ready: "ssa_ready ?g ?s idom ?keys ?G ?K"
    unfolding ssa_ready_def using wf tree di keys assms(3) i(3) by (auto simp: renamable_def Let_def globals_of_def)
  have "?s \<in> dom idom" using di wf(2) by simp
  moreover have "card {v \<in> dom idom. ix (al_postorder ?g ?s) v < ix (al_postorder ?g ?s) ?s} < Suc (al_num_vertices ?g)"
  proof -
    have "card {v \<in> dom idom. ix (al_postorder ?g ?s) v < ix (al_postorder ?g ?s) ?s} \<le> card (dom idom)"
      by (rule card_mono) (auto simp: di)
    also have "\<dots> \<le> al_num_vertices ?g" using al_vertices_list [OF wf(1)] card_length [of "al_vertices ?g"] by (simp add: di)
    finally show ?thesis by simp
  qed
  ultimately have "renames ?g ?K ?st ({} \<union> desc idom ?s) (rename idom ?keys (Suc (al_num_vertices ?g)) ?s ?st ?g)"
    using kn by (intro rename_spec [OF ready start]) (auto simp: ssa_inv_def)
  then obtain st' g' where r: "rename idom ?keys (Suc (al_num_vertices ?g)) ?s ?st ?g = Some (None, st', g')" "same_code g' ?g" "ssa_inv g' st' (desc idom ?s)"
    by (auto simp: renames_def)
  have "desc idom ?s = set (al_vertices ?g)"
    using al_tree.s_anc [of ?s ?g idom] tree di by (auto simp: desc_def)
  then have "single_assignment g'" using ssa_inv_single [of g' st'] r(3) same_codeD(1) [OF r(2)] al_vertices_list [OF wf(1)] by simp
  moreover have "all_reachable ?g idom" using all_reachable_iff [OF wf(1)] di by simp
  ultimately show ?thesis using r(1,2) i(1) global_names_spec [OF assms(1)] by (intro exI [of _ g']) (simp add: rename_variables_def Let_def del: rename.simps)
qed

section \<open>Placing Phi functions\<close>

definition relabel :: "(al_vertex \<Rightarrow> 'n \<Rightarrow> 'n) \<Rightarrow> ('n, 'e) adjacency_list \<Rightarrow> ('n, 'e) adjacency_list" where
  "relabel h g = g\<lparr>vertex_labels := map (\<lambda>p. (fst p, h (fst p) (snd p))) (vertex_labels g)\<rparr>"

lemma map_of_relabel: "map_of (map (\<lambda>p. (fst p, h (fst p) (snd p))) xs) k = map_option (h k) (map_of xs k)"
  by (induction xs) auto

lemma relabel_simps [simp]:
  "al_vertex_label (relabel h g) v = map_option (h v) (al_vertex_label g v)" "al_vertices (relabel h g) = al_vertices g"
  "al_out_edges (relabel h g) = al_out_edges g" "al_in_edges (relabel h g) = al_in_edges g" "al_edges (relabel h g) = al_edges g"
  "al_source (relabel h g) = al_source g" "al_target (relabel h g) = al_target g" "al_edge_label (relabel h g) = al_edge_label g"
  "al_num_vertices (relabel h g) = al_num_vertices g"
  by (simp_all add: fun_eq_iff relabel_def al_vertex_label_def map_of_relabel al_vertices_def al_out_edges_def al_in_edges_def al_edges_def
      al_source_def al_target_def al_edge_label_def al_num_vertices_def)

lemma relabel_wf [simp]: "wf_al (relabel h g) \<longleftrightarrow> wf_al g"
proof -
  have "dom (map_of (map (\<lambda>p. (fst p, h (fst p) (snd p))) xs)) = dom (map_of xs)" for xs
    by (auto simp: dom_def map_of_relabel)
  then show ?thesis by (simp add: wf_al_def wf_core_def relabel_def comp_def)
qed

lemma relabel_rel [simp]: "ag_rel (abs_al (relabel h g)) = ag_rel (abs_al g)"
proof -
  have "(\<exists>l. ag_edges (abs_al (relabel h g)) e = Some (l, a, b)) \<longleftrightarrow> (\<exists>l. ag_edges (abs_al g) e = Some (l, a, b))" for e a b
    by (simp add: abs_al_def relabel_def)
  then show ?thesis unfolding ag_rel_def by blast
qed

lemma set_label_relabel:
  assumes "distinct (map fst (vertex_labels g))"
  shows "al_set_vertex_label (relabel h g) d f = relabel (\<lambda>v. if v = d then f \<circ> h v else h v) g"
proof -
  have "AList.map_entry d f (map (\<lambda>p. (fst p, h (fst p) (snd p))) xs) = map (\<lambda>p. (fst p, (if fst p = d then f \<circ> h (fst p) else h (fst p)) (snd p))) xs"
    if "distinct (map fst xs)" for xs
    using that
  proof (induction xs)
    case (Cons x xs)
    have "map (\<lambda>p. (fst p, (if fst p = d then f \<circ> h (fst p) else h (fst p)) (snd p))) xs = map (\<lambda>p. (fst p, h (fst p) (snd p))) xs"
      if "fst x = d" using Cons.prems that by (auto intro!: map_cong) (metis fst_conv image_eqI)
    then show ?case using Cons by auto
  qed simp
  from this [OF assms] show ?thesis by (simp add: al_set_vertex_label_def relabel_def)
qed

fun prepend :: "mnemonic list \<Rightarrow> cf_target \<Rightarrow> cf_target" where
  "prepend ms (Resolved bb) = Resolved (bb\<lparr>bb_mnemonics := ms @ bb_mnemonics bb\<rparr>)"
| "prepend ms t = t"

lemma insert_prepend: "insert_mnemonic m (prepend ms t) = prepend (m # ms) t" "insert_mnemonic m = prepend [m]" "prepend [] = id"
proof -
  show "insert_mnemonic m (prepend ms t) = prepend (m # ms) t" by (cases t) (simp_all add: insert_mnemonic_def)
  show "insert_mnemonic m = prepend [m]"
  proof
    show "insert_mnemonic m t = prepend [m] t" for t by (cases t) (simp_all add: insert_mnemonic_def)
  qed
  show "prepend [] = id"
  proof
    show "prepend [] t = id t" for t by (cases t) simp_all
  qed
qed

text \<open>The Phi function for a name at a block has one operand for each incoming edge.\<close>

definition phi_mnemonic :: "cf_graph \<Rightarrow> var_lens \<Rightarrow> al_vertex \<Rightarrow> string \<Rightarrow> mnemonic" where
  "phi_mnemonic g lens d x =
     (let p = (case al_vertex_label g d of Some (Resolved bb) \<Rightarrow> b_start (bb_area bb) | _ \<Rightarrow> 0) in
      \<lparr>m_area = new_bound p p, m_opcode = ''__phi'', m_operands = [],
       m_instructions = [phi_statement x (the (lens x)) (length (the (al_in_edges g d)))], m_format = []\<rparr>)"

definition with_phis :: "cf_graph \<Rightarrow> var_lens \<Rightarrow> (al_vertex \<Rightarrow> string list) \<Rightarrow> cf_graph" where
  "with_phis g lens pl = relabel (\<lambda>d. prepend (map (phi_mnemonic g lens d) (pl d))) g"

definition phi_inv :: "cf_graph \<Rightarrow> var_lens \<Rightarrow> (al_vertex \<Rightarrow> string list) \<Rightarrow> phi_state \<Rightarrow> bool" where
  "phi_inv g lens pl s \<longleftrightarrow>
     ps_graph s = with_phis g lens pl \<and> ps_phis s = {p. fst p \<in> set (pl (snd p))} \<and> (\<forall>d. distinct (pl d)) \<and>
     (\<forall>d. pl d \<noteq> [] \<longrightarrow> is_resolved g d)"

definition placed :: "(al_vertex \<Rightarrow> string list) \<Rightarrow> string \<Rightarrow> al_vertex set" where
  "placed pl x = {d. x \<in> set (pl d)}"

lemma in_edges_total: "wf_al g \<Longrightarrow> d \<in> set (al_vertices g) \<Longrightarrow> \<exists>es. al_in_edges g d = Some es"
  unfolding wf_al_def wf_core_def al_in_edges_def al_vertices_iff by blast

lemma place_phi_spec:
  assumes "phi_inv g lens pl s" "wf_al g" "d \<in> set (al_vertices g)" "lens x \<noteq> None" "usage x \<noteq> None"
  shows "\<exists>s'. place_phi lens usage x d s = Some (None, s') \<and>
    (if is_resolved g d \<and> d \<notin> placed pl x then phi_inv g lens (pl(d := x # pl d)) s' \<and> ps_worklist s' = insert d (ps_worklist s) else s' = s)"
proof -
  have inv: "ps_graph s = with_phis g lens pl" "ps_phis s = {p. fst p \<in> set (pl (snd p))}" using assms(1) by (simp_all add: phi_inv_def)
  obtain es where es: "al_in_edges g d = Some es" using in_edges_total [OF assms(2,3)] by blast
  obtain len where len: "lens x = Some len" using assms(4) by blast
  obtain t where t: "al_vertex_label g d = Some t" using assms(3) by (auto simp: al_vertices_iff al_vertex_label_def)
  let ?m = "phi_mnemonic g lens d x"
  have lb: "al_vertex_label (ps_graph s) d = Some (prepend (map (phi_mnemonic g lens d) (pl d)) t)"
      "al_in_edges (ps_graph s) d = Some es"
    using t es by (simp_all add: inv(1) with_phis_def)
  show ?thesis
  proof (cases "is_resolved g d \<and> d \<notin> placed pl x")
    case True
    then obtain bb where bb: "t = Resolved bb" using t by (auto simp: is_resolved_def split: cf_target.splits)
    have "new_mnemonic (b_start (bb_area bb), b_start (bb_area bb)) ''__phi'' '''' [] [phi_statement x len (length es)] = Inr ?m"
      using t bb es len by (simp add: new_mnemonic_def phi_mnemonic_def Let_def)
    then have p: "place_phi lens usage x d s = Some (None, \<lparr>ps_graph = al_set_vertex_label (ps_graph s) d (insert_mnemonic ?m),
        ps_phis = insert (x, d) (ps_phis s), ps_worklist = insert d (ps_worklist s)\<rparr>)"
      using True lb bb len assms(5) inv(2) by (auto simp: place_phi_def placed_def)
    have "distinct (map fst (vertex_labels g))" using assms(2) by (simp add: wf_al_def)
    then have "al_set_vertex_label (ps_graph s) d (insert_mnemonic ?m) = with_phis g lens (pl(d := x # pl d))"
      unfolding inv(1) with_phis_def
      by (subst set_label_relabel) (auto simp: fun_eq_iff insert_prepend(1) intro!: arg_cong [where f = "\<lambda>h. relabel h g"])
    then have "phi_inv g lens (pl(d := x # pl d)) \<lparr>ps_graph = al_set_vertex_label (ps_graph s) d (insert_mnemonic ?m),
        ps_phis = insert (x, d) (ps_phis s), ps_worklist = insert d (ps_worklist s)\<rparr>"
      using assms(1) True by (auto simp: phi_inv_def placed_def)
    then show ?thesis using p True by simp
  next
    case False
    then have "place_phi lens usage x d s = Some (None, s)"
      using lb t inv(2) by (cases t) (auto simp: place_phi_def placed_def is_resolved_def)
    then show ?thesis using False by auto
  qed
qed

lemma place_phis_spec:
  assumes "wf_al g" "lens x \<noteq> None" "usage x \<noteq> None" "phi_inv g lens pl s" "set ds \<subseteq> set (al_vertices g)"
  shows "\<exists>s' pl'. place_phis lens usage x ds s = Some (None, s') \<and> phi_inv g lens pl' s' \<and>
    (\<forall>y. placed pl' y = placed pl y \<union> (if y = x then {d \<in> set ds. is_resolved g d} else {})) \<and>
    ps_worklist s' = ps_worklist s \<union> ({d \<in> set ds. is_resolved g d} - placed pl x)"
  using assms(4,5)
proof (induction ds arbitrary: s pl)
  case (Cons d ds)
  let ?c = "is_resolved g d \<and> d \<notin> placed pl x"
  obtain s1 where s1: "place_phi lens usage x d s = Some (None, s1)"
      "if ?c then phi_inv g lens (pl(d := x # pl d)) s1 \<and> ps_worklist s1 = insert d (ps_worklist s) else s1 = s"
    using place_phi_spec [of g lens pl s d x usage] Cons.prems assms(1-3) by auto
  let ?pl = "if ?c then pl(d := x # pl d) else pl"
  have i1: "phi_inv g lens ?pl s1" "ps_worklist s1 = ps_worklist s \<union> (if ?c then {d} else {})" using s1(2) Cons.prems(1) by (auto split: if_splits)
  have p1: "placed ?pl y = placed pl y \<union> (if y = x \<and> ?c then {d} else {})" for y by (auto simp: placed_def)
  obtain s' pl' where r: "place_phis lens usage x ds s1 = Some (None, s')" "phi_inv g lens pl' s'"
      "\<forall>y. placed pl' y = placed ?pl y \<union> (if y = x then {d \<in> set ds. is_resolved g d} else {})"
      "ps_worklist s' = ps_worklist s1 \<union> ({d \<in> set ds. is_resolved g d} - placed ?pl x)"
    using Cons.IH [OF i1(1)] Cons.prems(2) by auto
  have "\<forall>y. placed pl' y = placed pl y \<union> (if y = x then {d' \<in> set (d # ds). is_resolved g d'} else {})"
    using r(3) p1 by (auto split: if_splits)
  moreover have "ps_worklist s' = ps_worklist s \<union> ({d' \<in> set (d # ds). is_resolved g d'} - placed pl x)"
    unfolding r(4) i1(2) p1 by auto
  ultimately show ?case using s1(1) r(1,2) by (intro exI [of _ s'] exI [of _ pl']) simp
qed auto

text \<open>The sites of Phi functions: the closure of the assignments under the frontier, among the basic blocks.\<close>

inductive_set phi_sites :: "('v \<Rightarrow> 'v \<Rightarrow> bool) \<Rightarrow> ('v \<Rightarrow> bool) \<Rightarrow> 'v set \<Rightarrow> 'v set" for F R W where
  site_assigned: "w \<in> W \<Longrightarrow> F w d \<Longrightarrow> R d \<Longrightarrow> d \<in> phi_sites F R W"
| site_phi: "w \<in> phi_sites F R W \<Longrightarrow> F w d \<Longrightarrow> R d \<Longrightarrow> d \<in> phi_sites F R W"

lemma phi_sites_least:
  assumes "d \<in> phi_sites F R W" "\<forall>w \<in> W \<union> P. \<forall>d. F w d \<and> R d \<longrightarrow> d \<in> P"
  shows "d \<in> P"
  using assms by induction auto

lemma phi_worklist_spec:
  assumes "wf_al g" "lens x \<noteq> None" "usage x \<noteq> None" "\<forall>S. finite S \<and> S \<noteq> {} \<longrightarrow> pick S \<in> S"
    and "\<forall>w \<in> set (al_vertices g). \<exists>ds. df w = Some ds \<and> set ds = {d. F w d} \<and> set ds \<subseteq> set (al_vertices g)" "W \<subseteq> set (al_vertices g)"
    and "phi_inv g lens pl s" "ps_worklist s \<subseteq> W \<union> placed pl x" "placed pl x \<subseteq> phi_sites F (is_resolved g) W"
    and "\<forall>w \<in> (W \<union> placed pl x) - ps_worklist s. \<forall>d. F w d \<and> is_resolved g d \<longrightarrow> d \<in> placed pl x"
  shows "\<exists>s' pl'. phi_worklist pick lens usage df x s = Some (None, s') \<and> phi_inv g lens pl' s' \<and>
    placed pl' = (placed pl)(x := phi_sites F (is_resolved g) W)"
  using assms(7-10)
proof (induction "2 * card (set (al_vertices g) - placed pl x) + card (ps_worklist s)" arbitrary: s pl rule: less_induct)
  case less
  have pv: "placed pl y \<subseteq> set (al_vertices g)" for y
  proof
    fix d assume "d \<in> placed pl y"
    then have "pl d \<noteq> []" by (auto simp: placed_def)
    then have "is_resolved g d" using less.prems(1) by (simp add: phi_inv_def)
    then show "d \<in> set (al_vertices g)" by (auto simp: is_resolved_def al_vertices_iff al_vertex_label_def split: option.splits)
  qed
  have fin: "finite (ps_worklist s)" using less.prems(2) pv assms(6) by (meson finite_set finite_subset le_sup_iff order_trans)
  show ?case
  proof (cases "ps_worklist s = {}")
    case True
    have "placed pl x = phi_sites F (is_resolved g) W"
    proof
      show "phi_sites F (is_resolved g) W \<subseteq> placed pl x"
        using phi_sites_least [of _ F "is_resolved g" W "placed pl x"] less.prems(4) True by auto
    qed (rule less.prems(3))
    then have "placed pl = (placed pl)(x := phi_sites F (is_resolved g) W)" by (metis fun_upd_triv)
    then show ?thesis using True less.prems(1) by (subst phi_worklist.simps) auto
  next
    case False
    let ?w = "pick (ps_worklist s)"
    have w: "?w \<in> ps_worklist s" using assms(4) fin False by blast
    then have wv: "?w \<in> set (al_vertices g)" using less.prems(2) pv assms(6) by blast
    then obtain ds where ds: "df ?w = Some ds" "set ds = {d. F ?w d}" "set ds \<subseteq> set (al_vertices g)" using assms(5) by blast
    let ?s1 = "s\<lparr>ps_worklist := ps_worklist s - {?w}\<rparr>" and ?N = "{d \<in> set ds. is_resolved g d}"
    have "phi_inv g lens pl ?s1" using less.prems(1) by (simp add: phi_inv_def)
    from place_phis_spec [of g lens x usage pl ?s1 ds, OF assms(1-3) this ds(3)] obtain s' pl' where s': "place_phis lens usage x ds ?s1 = Some (None, s')"
        "phi_inv g lens pl' s'" "\<And>y. placed pl' y = placed pl y \<union> (if y = x then ?N else {})"
        "ps_worklist s' = ps_worklist s - {?w} \<union> (?N - placed pl x)" by auto
    have px: "placed pl' x = placed pl x \<union> ?N" using s'(3) by simp
    let ?V = "set (al_vertices g)"
    have "2 * card (?V - placed pl' x) + card (ps_worklist s') < 2 * card (?V - placed pl x) + card (ps_worklist s)"
    proof -
      have eq: "?V - placed pl' x = (?V - placed pl x) - (?N - placed pl x)" unfolding px by auto
      have "card (?V - placed pl' x) = card (?V - placed pl x) - card (?N - placed pl x)"
        unfolding eq using ds(3) by (intro card_Diff_subset) auto
      moreover have "card (?N - placed pl x) \<le> card (?V - placed pl x)" using ds(3) by (intro card_mono) auto
      moreover have "card (ps_worklist s') \<le> card (ps_worklist s - {?w}) + card (?N - placed pl x)" unfolding s'(4) by (rule card_Un_le)
      moreover have "card (ps_worklist s - {?w}) < card (ps_worklist s)" using w fin by (rule card_Diff1_less [rotated])
      ultimately show ?thesis by linarith
    qed
    moreover have "ps_worklist s' \<subseteq> W \<union> placed pl' x" using less.prems(2) unfolding s'(4) px by auto
    moreover have "placed pl' x \<subseteq> phi_sites F (is_resolved g) W"
    proof -
      have "d \<in> phi_sites F (is_resolved g) W" if "d \<in> ?N" for d
      proof (cases "?w \<in> W")
        case True
        then show ?thesis using that ds(2) by (auto intro: site_assigned)
      next
        case False
        then have "?w \<in> phi_sites F (is_resolved g) W" using w less.prems(2,3) by auto
        then show ?thesis using that ds(2) by (auto intro: site_phi)
      qed
      then show ?thesis using less.prems(3) unfolding px by auto
    qed
    moreover have "\<forall>w \<in> (W \<union> placed pl' x) - ps_worklist s'. \<forall>d. F w d \<and> is_resolved g d \<longrightarrow> d \<in> placed pl' x"
    proof (intro ballI allI impI)
      fix w d assume wd: "w \<in> (W \<union> placed pl' x) - ps_worklist s'" "F w d \<and> is_resolved g d"
      show "d \<in> placed pl' x"
      proof (cases "w = ?w")
        case True
        then show ?thesis using wd(2) ds(2) unfolding px by auto
      next
        case False
        then have "w \<in> (W \<union> placed pl x) - ps_worklist s" using wd(1) unfolding s'(4) px by auto
        then show ?thesis using less.prems(4) wd(2) unfolding px by auto
      qed
    qed
    ultimately obtain s'' pl'' where r: "phi_worklist pick lens usage df x s' = Some (None, s'')" "phi_inv g lens pl'' s''"
        "placed pl'' = (placed pl')(x := phi_sites F (is_resolved g) W)"
      using less.hyps [of pl' s'] s'(2) by auto
    have "phi_worklist pick lens usage df x s = Some (None, s'')"
      using False ds(1) s'(1) r(1) by (subst phi_worklist.simps) simp
    moreover have "placed pl'' = (placed pl)(x := phi_sites F (is_resolved g) W)" using r(3) s'(3) by (auto simp: fun_eq_iff)
    ultimately show ?thesis using r(2) by blast
  qed
qed

lemma phi_sites_empty [simp]: "phi_sites F R {} = {}"
  using phi_sites_least [of _ F R "{}" "{}"] by auto

definition site_map :: "(string \<Rightarrow> al_vertex set) \<Rightarrow> (string \<rightharpoonup> al_vertex set)" where
  "site_map W x = (if W x = {} then None else Some (W x))"

lemma phi_names_spec:
  assumes "wf_al g" "\<forall>S. finite S \<and> S \<noteq> {} \<longrightarrow> pick S \<in> S" "\<forall>x. W x \<subseteq> set (al_vertices g)"
    and "\<forall>w \<in> set (al_vertices g). \<exists>ds. df w = Some ds \<and> set ds = {d. F w d} \<and> set ds \<subseteq> set (al_vertices g)"
    and "phi_inv g lens pl s" "distinct xs" "\<forall>x \<in> set xs. lens x \<noteq> None \<and> placed pl x = {}"
  shows "\<exists>s' pl'. phi_names pick lens (site_map W) df xs s = Some (None, s') \<and> phi_inv g lens pl' s' \<and>
    (\<forall>x. placed pl' x = (if x \<in> set xs then phi_sites F (is_resolved g) (W x) else placed pl x))"
  using assms(5-7)
proof (induction xs arbitrary: s pl)
  case (Cons x xs)
  let ?s0 = "s\<lparr>ps_worklist := (case site_map W x of None \<Rightarrow> {} | Some wl \<Rightarrow> wl)\<rparr>"
  have i0: "phi_inv g lens pl ?s0" "ps_worklist ?s0 = W x" using Cons.prems(1) by (auto simp: phi_inv_def site_map_def)
  have px: "placed pl x = {}" "lens x \<noteq> None" using Cons.prems(3) by auto
  obtain s1 pl1 where r: "phi_worklist pick lens (site_map W) df x ?s0 = Some (None, s1)" "phi_inv g lens pl1 s1"
      "placed pl1 = (placed pl)(x := phi_sites F (is_resolved g) (W x))"
  proof (cases "W x = {}")
    case True
    then have "phi_worklist pick lens (site_map W) df x ?s0 = Some (None, ?s0)" using i0(2) by (subst phi_worklist.simps) simp
    moreover have "placed pl = (placed pl)(x := phi_sites F (is_resolved g) (W x))" using True px(1) by (simp add: fun_upd_idem)
    ultimately show ?thesis using that [OF _ i0(1)] by blast
  next
    case False
    then have u: "site_map W x \<noteq> None" by (simp add: site_map_def)
    show ?thesis
      using phi_worklist_spec [of g lens x "site_map W" pick df F "W x" pl ?s0] assms(1-4) px u i0 that by auto
  qed
  have "\<forall>y \<in> set xs. lens y \<noteq> None \<and> placed pl1 y = {}" using Cons.prems(2,3) r(3) by auto
  then obtain s' pl' where "phi_names pick lens (site_map W) df xs s1 = Some (None, s')" "phi_inv g lens pl' s'"
      "\<forall>y. placed pl' y = (if y \<in> set xs then phi_sites F (is_resolved g) (W y) else placed pl1 y)"
    using Cons.IH [OF r(2)] Cons.prems(2) by auto
  then show ?case using r(1,3) Cons.prems(2) by (intro exI [of _ s'] exI [of _ pl']) auto
qed auto

section \<open>Sizes of variables\<close>

text \<open>The variables a statement, a block or a guard mentions, with their sizes, in the order of the check.\<close>

fun rv_sizes :: "rvalue \<Rightarrow> (string \<times> nat) list" where
  "rv_sizes (RvVariable n _ _ sz) = [(n, sz)]"
| "rv_sizes _ = []"

definition st_sizes :: "statement \<Rightarrow> (string \<times> nat) list" where
  "st_sizes i = concat (map rv_sizes (operands (st_op i))) @ rv_sizes (rvalue_of_lvalue (assignee i))"

definition mn_sizes :: "mnemonic \<Rightarrow> (string \<times> nat) list" where
  "mn_sizes m = concat (map rv_sizes (m_operands m)) @ concat (map st_sizes (m_instructions m))"

definition block_mnemonics :: "cf_target option \<Rightarrow> mnemonic list" where
  "block_mnemonics lb = (case lb of Some (Resolved bb) \<Rightarrow> bb_mnemonics bb | _ \<Rightarrow> [])"

definition var_sizes :: "cf_graph \<Rightarrow> (string \<times> nat) list" where
  "var_sizes g =
     concat (map (\<lambda>v. concat (map mn_sizes (block_mnemonics (al_vertex_label g v)))) (al_vertices g)) @
     concat (map (\<lambda>e. case al_edge_label g e of Some (GPredicate flag _) \<Rightarrow> rv_sizes flag | _ \<Rightarrow> []) (al_edges g))"

definition without_operands :: "cf_graph \<Rightarrow> bool" where
  "without_operands g \<longleftrightarrow>
     (\<exists>v \<in> set (al_vertices g). \<exists>m \<in> set (block_mnemonics (al_vertex_label g v)). \<exists>i \<in> set (m_instructions m). operands (st_op i) = [])"

definition add_size :: "string \<times> nat \<Rightarrow> var_lens \<Rightarrow> var_lens" where
  "add_size p ret = ret(fst p \<mapsto> max (case ret (fst p) of None \<Rightarrow> 0 | Some n \<Rightarrow> n) (snd p))"

lemma set_len_sizes: "set_len rv ret = fold add_size (rv_sizes rv) ret"
  by (cases rv) (simp_all add: add_size_def)

lemma fold_sizes: "(\<And>x s. f x s = fold add_size (h x) s) \<Longrightarrow> fold f xs s = fold add_size (concat (map h xs)) s"
  by (induction xs arbitrary: s) simp_all

lemma try_fold_sizes:
  assumes "\<And>x s. f x s = (if P x then Inl e else Inr (fold add_size (h x) s))"
  shows "try_fold f xs s = (if \<exists>x \<in> set xs. P x then Inl e else Inr (fold add_size (concat (map h xs)) s))"
  using assms by (induction xs arbitrary: s) auto

lemma type_check_fold:
  "type_check f = (if without_operands (f_cflow_graph f) then Inl NoArguments else Inr (fold add_size (var_sizes (f_cflow_graph f)) Map.empty))"
proof -
  let ?g = "f_cflow_graph f"
  have s: "check_statement i s = (if operands (st_op i) = [] then Inl NoArguments else Inr (fold add_size (st_sizes i) s))" for i s
    using fold_sizes [of set_len rv_sizes, OF set_len_sizes] by (simp add: check_statement_def st_sizes_def set_len_sizes)
  have m: "check_mnemonic m s = (if \<exists>i \<in> set (m_instructions m). operands (st_op i) = [] then Inl NoArguments else Inr (fold add_size (mn_sizes m) s))" for m s
    using try_fold_sizes [of check_statement "\<lambda>i. operands (st_op i) = []" NoArguments st_sizes, OF s] fold_sizes [of set_len rv_sizes, OF set_len_sizes] by (simp add: check_mnemonic_def mn_sizes_def)
  have v: "check_vertex ?g v s = (if \<exists>m \<in> set (block_mnemonics (al_vertex_label ?g v)). \<exists>i \<in> set (m_instructions m). operands (st_op i) = [] then Inl NoArguments
      else Inr (fold add_size (concat (map mn_sizes (block_mnemonics (al_vertex_label ?g v)))) s))" for v s
    using try_fold_sizes [of check_mnemonic "\<lambda>m. \<exists>i \<in> set (m_instructions m). operands (st_op i) = []" NoArguments mn_sizes, OF m] by (simp add: check_vertex_def block_mnemonics_def split: option.split cf_target.split)
  have e: "check_edge ?g ed s = fold add_size (case al_edge_label ?g ed of Some (GPredicate flag _) \<Rightarrow> rv_sizes flag | _ \<Rightarrow> []) s" for ed s
    by (simp add: check_edge_def set_len_sizes split: option.split guard.split)
  show ?thesis
    unfolding type_check_def Let_def try_fold_sizes [OF v] fold_sizes [OF e] by (auto simp: without_operands_def var_sizes_def)
qed

lemma Max_insert_or: "finite S \<Longrightarrow> Max (insert (max a b) S) = Max (insert a (insert (b :: nat) S))"
  by (cases "S = {}") (simp_all add: max.assoc)

lemma Max_pair: "Max {a, b} = max a (b :: nat)"
  by simp

lemma fold_add_size:
  "fold add_size ps ret x = (if x \<in> fst ` set ps then Some (Max (insert (case ret x of None \<Rightarrow> 0 | Some n \<Rightarrow> n) {n. (x, n) \<in> set ps})) else ret x)"
proof (induction ps arbitrary: ret)
  case (Cons p ps)
  have fin: "finite {n. (x, n) \<in> set ps}" by (rule finite_subset [of _ "snd ` set ps"]) force+
  show ?case
  proof (cases "fst p = x")
    case True
    then have eq: "{n. (x, n) \<in> set (p # ps)} = insert (snd p) {n. (x, n) \<in> set ps}" by (auto simp: prod_eq_iff)
    have "{n. (x, n) \<in> set ps} = {}" if "x \<notin> fst ` set ps" using that by force
    then show ?thesis unfolding eq using Cons.IH True fin by (auto simp: Max_insert_or [OF fin] Max_pair add_size_def simp del: Max_insert)
  next
    case False
    then have "{n. (x, n) \<in> set (p # ps)} = {n. (x, n) \<in> set ps}" by auto
    then show ?thesis using Cons.IH False by (auto simp: add_size_def)
  qed
qed simp

definition lens_of :: "'u func \<Rightarrow> var_lens" where
  "lens_of f = fold add_size (var_sizes (f_cflow_graph f)) Map.empty"

lemma lens_of_dom: "lens_of f x \<noteq> None \<longleftrightarrow> x \<in> fst ` set (var_sizes (f_cflow_graph f))"
  by (simp add: lens_of_def fold_add_size)

lemma use_sizes: "Use x \<in> set (use_of rv) \<Longrightarrow> x \<in> fst ` set (rv_sizes rv)"
  by (cases rv) simp_all

lemma uses_sizes: "Use x \<in> set (concat (map use_of rvs)) \<Longrightarrow> x \<in> fst ` set (concat (map rv_sizes rvs))"
  by (induction rvs) (auto dest: use_sizes simp: image_Un)

lemma def_no_use: "Use x \<notin> set (def_of lv)"
  by (cases lv) simp_all

lemma mnemonic_uses: "Use x \<in> set (mnemonic_events m) \<Longrightarrow> x \<in> fst ` set (mn_sizes m)"
proof -
  have stu: "x \<in> fst ` set (st_sizes i)" if "Use x \<in> set (statement_events i)" for i
  proof -
    have "Use x \<in> set (concat (map use_of (operands (st_op i))))" using that def_no_use by (auto simp: statement_events_def split: if_splits)
    then show ?thesis using uses_sizes unfolding st_sizes_def set_append image_Un by blast
  qed
  have st: "fst p \<in> fst ` set (mn_sizes m)" if "i \<in> set (m_instructions m)" "p \<in> set (st_sizes i)" for i p
    using that by (auto simp: mn_sizes_def)
  assume "Use x \<in> set (mnemonic_events m)"
  then consider "Use x \<in> set (concat (map use_of (m_operands m)))" | i where "i \<in> set (m_instructions m)" "Use x \<in> set (statement_events i)"
    by (auto simp: mnemonic_events_def)
  then show "x \<in> fst ` set (mn_sizes m)"
  proof cases
    case 1
    then show ?thesis using uses_sizes unfolding mn_sizes_def set_append image_Un by blast
  next
    case 2
    then obtain p where "p \<in> set (st_sizes i)" "x = fst p" using stu by blast
    then show ?thesis using st [OF 2(1)] by simp
  qed
qed

lemma label_mnemonics: "label_events lb = concat (map mnemonic_events (block_mnemonics lb))"
  by (simp add: label_events_def block_mnemonics_def split: option.split cf_target.split)

lemma globals_have_sizes:
  assumes "wf_func f" "x \<in> globals_of f"
  shows "lens_of f x \<noteq> None"
proof -
  let ?g = "f_cflow_graph f"
  obtain v where v: "v \<in> set (al_vertices ?g)" "x \<in> exposed (vertex_events ?g v)"
    using assms(2) reachable_vertices [OF assms(1)] by (auto simp: globals_of_def)
  have "Use x \<in> set (vertex_events ?g v)" using v(2) by (auto simp: exposed_def)
  then consider m where "m \<in> set (block_mnemonics (al_vertex_label ?g v))" "Use x \<in> set (mnemonic_events m)"
    | e where "Use x \<in> set (guard_use (al_edge_label ?g e))"
    by (auto simp: vertex_events_def label_mnemonics)
  then have "x \<in> fst ` set (var_sizes ?g)"
  proof cases
    case 1
    then have "fst ` set (mn_sizes m) \<subseteq> fst ` set (var_sizes ?g)" using v(1) by (auto simp: var_sizes_def)
    then show ?thesis using mnemonic_uses [OF 1(2)] by blast
  next
    case 2
    then obtain fl b where fl: "al_edge_label ?g e = Some (GPredicate fl b)" "Use x \<in> set (use_of fl)"
      by (cases "al_edge_label ?g e" rule: guard_use.cases) auto
    then have "e \<in> set (al_edges ?g)" by (force simp: al_edge_label_def al_edges_def dest: map_of_SomeD)
    then have "set (rv_sizes fl) \<subseteq> set (var_sizes ?g)" using fl(1) by (force simp: var_sizes_def)
    then show ?thesis using use_sizes [OF fl(2)] by blast
  qed
  then show ?thesis unfolding lens_of_dom .
qed

section \<open>The initialisation of the variables\<close>

definition init_mnemonic :: "var_lens \<Rightarrow> string list \<Rightarrow> basic_block \<Rightarrow> mnemonic" where
  "init_mnemonic lens xs bb =
     \<lparr>m_area = new_bound (b_start (bb_area bb)) (b_start (bb_area bb)), m_opcode = ''__init'', m_operands = [],
      m_instructions = map (\<lambda>x. \<lparr>assignee = LvVariable x None (the (lens x)), st_op = Move RvUndefined\<rparr>) xs, m_format = []\<rparr>"

definition with_init :: "'u func \<Rightarrow> basic_block \<Rightarrow> string list \<Rightarrow> cf_graph" where
  "with_init f bb xs = relabel (\<lambda>v. if v = f_entry_point f then prepend [init_mnemonic (lens_of f) xs bb] else id) (f_cflow_graph f)"

lemma init_statements_spec:
  "\<forall>x \<in> set xs. lens x \<noteq> None \<Longrightarrow> init_statements lens xs = Inr (map (\<lambda>x. \<lparr>assignee = LvVariable x None (the (lens x)), st_op = Move RvUndefined\<rparr>) xs)"
  by (induction xs) auto

lemma relabel_id: "relabel (\<lambda>_. id) g = g"
  by (simp add: relabel_def)

lemma with_init_graph:
  assumes "wf_func f"
  shows "al_set_vertex_label (f_cflow_graph f) (f_entry_point f) (insert_mnemonic (init_mnemonic (lens_of f) xs bb)) = with_init f bb xs"
proof -
  have d: "distinct (map fst (vertex_labels (f_cflow_graph f)))" using assms by (simp add: wf_func_def wf_al_def)
  show ?thesis
    using set_label_relabel [OF d, of "\<lambda>_. id" "f_entry_point f" "insert_mnemonic (init_mnemonic (lens_of f) xs bb)"]
    by (simp add: relabel_id with_init_def insert_prepend(2) if_distrib cong: if_cong)
qed

definition chooses :: "('a set \<Rightarrow> 'a) \<Rightarrow> bool" where
  "chooses pick \<longleftrightarrow> (\<forall>S. finite S \<and> S \<noteq> {} \<longrightarrow> pick S \<in> S)"

lemma prepend_resolved: "is_resolved (relabel (\<lambda>v. prepend (ms v)) g) d = is_resolved g d"
  by (cases "al_vertex_label g d"; cases "the (al_vertex_label g d)") (auto simp: is_resolved_def)

lemma with_init_prepend:
  "with_init f bb xs = relabel (\<lambda>v. prepend (if v = f_entry_point f then [init_mnemonic (lens_of f) xs bb] else [])) (f_cflow_graph f)"
  by (simp add: with_init_def if_distrib insert_prepend(3) cong: if_cong)

lemma finite_globals: "wf_func f \<Longrightarrow> finite (globals_of f)"
  unfolding globals_of_def using finite_subset [OF reachable_vertices] by (intro finite_UN_I) (auto simp: finite_exposed)

lemma phi_functions_ok:
  assumes "wf_func f" "set (al_vertices (f_cflow_graph f)) \<subseteq> reachable f" "entry_point f = Some bb" "\<not> without_operands (f_cflow_graph f)"
    and "enumerates sorder" "chooses pick"
  shows "\<exists>pl. phi_functions sorder pick f =
      Some (None, f\<lparr>f_cflow_graph := with_phis (with_init f bb (sorder (globals_of f))) (lens_of f) pl\<rparr>) \<and> (\<forall>d. distinct (pl d)) \<and>
    (\<forall>x. placed pl x = (if x \<in> globals_of f
       then phi_sites (frontier (ag_rel (abs_al (f_cflow_graph f))) (f_entry_point f)) (is_resolved (f_cflow_graph f)) (sites f x) else {}))"
proof -
  let ?g = "f_cflow_graph f" and ?s = "f_entry_point f" and ?xs = "sorder (globals_of f)"
  let ?g1 = "with_init f bb ?xs" and ?F = "frontier (ag_rel (abs_al ?g)) ?s"
  have wf: "wf_al ?g" "?s \<in> set (al_vertices ?g)" using assms(1) by (simp_all add: wf_func_def)
  have xs: "distinct ?xs" "set ?xs = globals_of f" using assms(5) finite_globals [OF assms(1)] by (simp_all add: enumerates_def)
  have g1: "wf_al ?g1" "al_vertices ?g1 = al_vertices ?g" "ag_rel (abs_al ?g1) = ag_rel (abs_al ?g)" "is_resolved ?g1 = is_resolved ?g"
    using wf(1) by (simp_all add: with_init_prepend prepend_resolved fun_eq_iff)
  have lens: "\<forall>x \<in> set ?xs. lens_of f x \<noteq> None" using globals_have_sizes [OF assms(1)] xs(2) by blast
  obtain idom df where d: "immediate_dominator (al_succs ?g1) (al_preds ?g1) ?s = Some idom" "dom idom = {v. (?s, v) \<in> (ag_rel (abs_al ?g))\<^sup>*}"
      "dominance_frontiers idom (al_vertices ?g1) (al_preds ?g1) = Some df" "dom df = set (al_vertices ?g)"
      "\<forall>w \<in> set (al_vertices ?g). \<forall>b. b \<in> set (the (df w)) \<longleftrightarrow> ?F w b"
  proof -
    have "set (al_vertices ?g) \<subseteq> {v. (?s, v) \<in> (ag_rel (abs_al ?g))\<^sup>*}" using assms(2) by (simp add: reachable_def)
    from dominance_frontiers_spec [OF g1(1), of ?s, unfolded g1, OF wf(2) this] show thesis by (elim exE conjE) (rule that, simp_all add: g1)
  qed
  have fr: "\<forall>w \<in> set (al_vertices ?g1). \<exists>ds. df w = Some ds \<and> set ds = {d. ?F w d} \<and> set ds \<subseteq> set (al_vertices ?g1)"
  proof
    fix w assume w: "w \<in> set (al_vertices ?g1)"
    then have "w \<in> dom df" unfolding d(4) g1(2) .
    then obtain ds where ds: "df w = Some ds" by (meson domD)
    then have "set ds = {d. ?F w d}" using d(5) w g1(2) by auto
    moreover have "{d. ?F w d} \<subseteq> set (al_vertices ?g1)" using ag_rel_vertices [OF wf(1)] g1(2) by (auto simp: frontier_def)
    ultimately show "\<exists>ds. df w = Some ds \<and> set ds = {d. ?F w d} \<and> set ds \<subseteq> set (al_vertices ?g1)" using ds by blast
  qed
  let ?ini = "\<lparr>ps_graph = ?g1, ps_phis = {}, ps_worklist = {}\<rparr>"
  have "phi_inv ?g1 (lens_of f) (\<lambda>_. []) ?ini" by (simp add: phi_inv_def with_phis_def insert_prepend(3) relabel_id)
  moreover have "sites f x \<subseteq> set (al_vertices ?g1)" for x using reachable_vertices [OF assms(1)] g1(2) by (auto simp: sites_def)
  moreover have "\<forall>x \<in> set ?xs. lens_of f x \<noteq> None \<and> placed (\<lambda>_. []) x = {}" using lens by (simp add: placed_def)
  ultimately obtain s' pl where r: "phi_names pick (lens_of f) (site_map (sites f)) df ?xs ?ini = Some (None, s')" "phi_inv ?g1 (lens_of f) pl s'"
      "\<forall>x. placed pl x = (if x \<in> set ?xs then phi_sites ?F (is_resolved ?g1) (sites f x) else placed (\<lambda>_. []) x)"
    using phi_names_spec [of ?g1 pick "sites f" df ?F "lens_of f" "\<lambda>_. []" ?ini ?xs] g1(1) fr xs(1) assms(6) unfolding chooses_def by auto
  have "all_reachable ?g1 idom" using all_reachable_iff [OF g1(1)] d(2) assms(2) g1(2) by (simp add: reachable_def)
  then have pg: "phi_graph sorder pick (lens_of f) (globals_of f) (site_map (sites f)) ?s ?g1 = Some (None, with_phis ?g1 (lens_of f) pl)"
    using d(1,3) r(1,2) by (simp add: phi_graph_def phi_inv_def)
  have "new_mnemonic (b_start (bb_area bb), b_start (bb_area bb)) ''__init'' '''' []
      (map (\<lambda>x. \<lparr>assignee = LvVariable x None (the (lens_of f x)), st_op = Move RvUndefined\<rparr>) ?xs) = Inr (init_mnemonic (lens_of f) ?xs bb)"
    by (simp add: new_mnemonic_def init_mnemonic_def)
  moreover have "global_names f = Some (globals_of f, site_map (sites f))" using global_names_spec [OF assms(1)] by (simp add: site_map_def [abs_def])
  moreover have "type_check f = Inr (lens_of f)" using assms(4) by (simp add: type_check_fold lens_of_def)
  ultimately have "phi_functions sorder pick f = Some (None, f\<lparr>f_cflow_graph := with_phis ?g1 (lens_of f) pl\<rparr>)"
    using assms(3) init_statements_spec [OF lens] with_init_graph [OF assms(1)] pg by (simp add: phi_functions_def)
  moreover have "\<forall>d. distinct (pl d)" using r(2) by (simp add: phi_inv_def)
  ultimately show ?thesis using r(3) xs(2) g1(4) by (intro exI [of _ pl]) (simp add: placed_def)
qed

section \<open>The conversion\<close>

lemma prepend_label:
  "label_events (map_option (prepend ms) lb) = (case lb of Some (Resolved bb) \<Rightarrow> concat (map mnemonic_events ms) | _ \<Rightarrow> []) @ label_events lb"
  "block_mnemonics (map_option (prepend ms) lb) = (case lb of Some (Resolved bb) \<Rightarrow> ms | _ \<Rightarrow> []) @ block_mnemonics lb"
  by (cases lb; cases "the lb"; simp add: label_mnemonics block_mnemonics_def)+

lemma target_form_mnemonics: "target_form lb \<longleftrightarrow> phi_form (block_mnemonics lb)"
  by (simp add: target_form_def block_mnemonics_def split: option.split cf_target.split)

lemma phi_form_append [simp]: "phi_form (ms @ ms') \<longleftrightarrow> phi_form ms \<and> phi_form ms'"
  by (auto simp: phi_form_def)

lemma phi_form_phis: "phi_form (map (phi_mnemonic g lens d) xs)" "phi_form [init_mnemonic lens ys bb]"
  by (auto simp: phi_form_def phi_mnemonic_def init_mnemonic_def phi_statement_def normal_def Let_def)

lemma phi_events_none: "concat (map mnemonic_events (map (phi_mnemonic g lens d) xs)) = []"
  by (auto simp: phi_mnemonic_def phi_statement_def mnemonic_events_def statement_events_def Let_def)

lemma init_defines: "defined (mnemonic_events (init_mnemonic lens xs bb)) = set xs"
  by (induction xs) (simp_all add: init_mnemonic_def mnemonic_events_def statement_events_def)

definition label_reads :: "cf_target option \<Rightarrow> string set" where
  "label_reads lb = (case lb of None \<Rightarrow> {} | Some t \<Rightarrow> read_names t)"

lemma edge_reads_label: "edge_reads g e = (case al_target g e of None \<Rightarrow> {} | Some v \<Rightarrow> label_reads (al_vertex_label g v))"
  by (simp add: edge_reads_def label_reads_def split: option.split)

lemma prepend_reads:
  "label_reads (map_option (prepend ms) lb) \<subseteq> label_reads lb \<union> (\<Union>m \<in> set ms. \<Union>i \<in> set (m_instructions m). phi_reads i)"
  by (cases lb; cases "the lb") (auto simp: label_reads_def block_statements_def)

lemma phi_mnemonic_reads: "(\<Union>m \<in> set (map (phi_mnemonic g lens d) xs). \<Union>i \<in> set (m_instructions m). phi_reads i) \<subseteq> set xs"
  by (auto simp: phi_mnemonic_def phi_statement_def phi_reads_def Let_def split: if_splits)

lemma init_mnemonic_reads: "(\<Union>i \<in> set (m_instructions (init_mnemonic lens xs bb)). phi_reads i) = {}"
  by (auto simp: init_mnemonic_def phi_reads_def)

lemma converted_labels:
  "al_vertex_label (with_phis (with_init f bb xs) (lens_of f) pl) v = map_option (prepend (map (phi_mnemonic (with_init f bb xs) (lens_of f) v) (pl v)))
    (map_option (prepend (if v = f_entry_point f then [init_mnemonic (lens_of f) xs bb] else [])) (al_vertex_label (f_cflow_graph f) v))"
  unfolding with_phis_def by (simp add: with_init_prepend)

lemma converted_graph:
  "al_vertices (with_phis (with_init f bb xs) lens pl) = al_vertices (f_cflow_graph f)" "al_out_edges (with_phis (with_init f bb xs) lens pl) = al_out_edges (f_cflow_graph f)"
  "al_target (with_phis (with_init f bb xs) lens pl) = al_target (f_cflow_graph f)" "wf_al (with_phis (with_init f bb xs) lens pl) = wf_al (f_cflow_graph f)"
  "ag_rel (abs_al (with_phis (with_init f bb xs) lens pl)) = ag_rel (abs_al (f_cflow_graph f))"
  by (simp_all add: with_phis_def with_init_def)

lemma renamable_converted:
  assumes "renamable f" "entry_point f = Some bb" "\<forall>d. set (pl d) \<subseteq> globals_of f" "set xs = globals_of f"
  shows "renamable (f\<lparr>f_cflow_graph := with_phis (with_init f bb xs) (lens_of f) pl\<rparr>)"
proof -
  let ?g = "f_cflow_graph f" and ?s = "f_entry_point f" and ?g2 = "with_phis (with_init f bb xs) (lens_of f) pl"
  let ?D = "\<lambda>g v. defined (label_events (al_vertex_label g v))"
  have en: "globals_of f \<subseteq> ?D ?g2 ?s"
  proof -
    obtain bb' where "al_vertex_label ?g ?s = Some (Resolved bb')" using assms(2) by (auto simp: entry_point_def split: option.splits cf_target.splits)
    then show ?thesis using init_defines [of "lens_of f" xs bb] assms(4) by (auto simp: converted_labels label_events_def)
  qed
  have grow: "?D ?g v \<subseteq> ?D ?g2 v" for v unfolding converted_labels prepend_label by auto
  have form: "target_form (al_vertex_label ?g2 v)" for v
  proof -
    have "target_form (al_vertex_label ?g v)" using assms(1) by (simp add: renamable_def Let_def)
    then show ?thesis using phi_form_phis(2) [of "lens_of f" xs bb]
      unfolding converted_labels target_form_mnemonics prepend_label by (auto simp: phi_form_phis split: option.split cf_target.split)
  qed
  have lr: "label_reads (al_vertex_label ?g2 v) \<subseteq> label_reads (al_vertex_label ?g v) \<union> globals_of f" for v
  proof -
    let ?lb = "map_option (prepend (if v = ?s then [init_mnemonic (lens_of f) xs bb] else [])) (al_vertex_label ?g v)"
    have "label_reads ?lb \<subseteq> label_reads (al_vertex_label ?g v)"
      using prepend_reads [of "if v = ?s then [init_mnemonic (lens_of f) xs bb] else []" "al_vertex_label ?g v"] init_mnemonic_reads by (auto split: if_splits)
    moreover have "label_reads (al_vertex_label ?g2 v) \<subseteq> label_reads ?lb \<union> set (pl v)"
      unfolding converted_labels using prepend_reads phi_mnemonic_reads by (rule order.trans [OF _ Un_mono [OF subset_refl]])
    ultimately show ?thesis using assms(3) by blast
  qed
  have "edge_reads ?g2 e \<subseteq> ?D ?g2 ?s \<union> ?D ?g2 v" if "al_out_edges ?g v = Some es" "e \<in> set es" for v es e
  proof -
    have "edge_reads ?g e \<subseteq> globals_of f \<union> ?D ?g ?s \<union> ?D ?g v" using assms(1) that by (simp add: renamable_def Let_def)
    moreover have "edge_reads ?g2 e \<subseteq> edge_reads ?g e \<union> globals_of f" using lr by (simp add: edge_reads_label converted_graph split: option.split)
    ultimately show ?thesis using en grow [of ?s] grow [of v] by blast
  qed
  then show ?thesis using form by (auto simp: renamable_def Let_def converted_graph)
qed

lemma reachable_converted: "reachable (f\<lparr>f_cflow_graph := with_phis (with_init f bb xs) lens pl\<rparr>) = reachable f"
  by (simp add: reachable_def converted_graph)

lemma wf_converted: "wf_func f \<Longrightarrow> wf_func (f\<lparr>f_cflow_graph := with_phis (with_init f bb xs) lens pl\<rparr>)"
  by (simp add: wf_func_def converted_graph)

lemma entry_label: "entry_point copy_func = Some copy_block"
  by (simp add: entry_point_def copy_reachable copy_graph_eval)

lemma copy_vertices: "al_vertices copy_graph = [AlVertex 0]"
  by (simp add: copy_graph_def al_vertices_def al_add_edge_def al_add_vertex_def al_new_def Let_def)

lemma copy_renamable: "renamable copy_func"
proof -
  have lab: "al_vertex_label copy_graph v = (if v = AlVertex 0 then Some (Resolved copy_block) else None)" for v
    by (simp add: copy_graph_def al_vertex_label_def al_add_edge_def al_add_vertex_def al_new_def Let_def)
  have "edge_reads copy_graph e = {}" for e
    by (auto simp: edge_reads_def lab copy_block_def block_statements_def from_vec_def phi_reads_def split: option.splits)
  moreover have "target_form (al_vertex_label copy_graph v)" for v
    by (simp add: lab target_form_def copy_block_def from_vec_def loop_mnemonic_def normal_def)
  ultimately show ?thesis by (simp add: renamable_def Let_def copy_reachable)
qed

lemma copy_operands: "\<not> without_operands copy_graph"
  by (simp add: without_operands_def copy_vertices copy_graph_eval block_mnemonics_def copy_block_def from_vec_def)

lemma orders: "enumerates sorted_list_of_set" "chooses Min"
  by (auto simp: enumerates_def chooses_def)

section \<open>Properties\<close>

text \<open>
  C5: In a function whose blocks are all reachable, in which every operation has operands, \<^verbatim>\<open>ssa_convertion\<close> succeeds in whatever
  order hash tables are iterated.  The result is, up to subscripts, the function with an initialisation of its
  global variables in front of the entry block and Phi functions in front of the blocks in the
  closure of the assignments under the frontier; every assignment carries a subscript, and no two assignments of the function
  carry the same name and subscript.
\<close>

theorem ssa_convertion_correct:
  assumes "wf_func f" "set (al_vertices (f_cflow_graph f)) \<subseteq> reachable f" "entry_point f = Some bb" "\<not> without_operands (f_cflow_graph f)"
    and "renamable f" "enumerates sorder" "chooses pick" "enumerates vorder"
  shows "\<exists>pl g'. ssa_convertion sorder pick vorder f = Some (None, f\<lparr>f_cflow_graph := g'\<rparr>) \<and>
    same_code g' (with_phis (with_init f bb (sorder (globals_of f))) (lens_of f) pl) \<and> (\<forall>d. distinct (pl d)) \<and>
    (\<forall>x. placed pl x = (if x \<in> globals_of f
       then phi_sites (frontier (ag_rel (abs_al (f_cflow_graph f))) (f_entry_point f)) (is_resolved (f_cflow_graph f)) (sites f x) else {})) \<and>
    single_assignment g'"
proof -
  let ?xs = "sorder (globals_of f)"
  obtain pl where p: "phi_functions sorder pick f = Some (None, f\<lparr>f_cflow_graph := with_phis (with_init f bb ?xs) (lens_of f) pl\<rparr>)"
      "\<forall>d. distinct (pl d)" "\<forall>x. placed pl x = (if x \<in> globals_of f
       then phi_sites (frontier (ag_rel (abs_al (f_cflow_graph f))) (f_entry_point f)) (is_resolved (f_cflow_graph f)) (sites f x) else {})"
    using phi_functions_ok [OF assms(1-4,6,7)] by blast
  let ?f1 = "f\<lparr>f_cflow_graph := with_phis (with_init f bb ?xs) (lens_of f) pl\<rparr>"
  have "set (pl d) \<subseteq> globals_of f" for d
  proof
    fix x assume "x \<in> set (pl d)"
    then have "d \<in> placed pl x" by (simp add: placed_def)
    then show "x \<in> globals_of f" using p(3) by (auto split: if_splits)
  qed
  moreover have "set ?xs = globals_of f" using assms(6) finite_globals [OF assms(1)] by (simp add: enumerates_def)
  ultimately have "renamable ?f1" using renamable_converted [OF assms(5,3)] by blast
  moreover have "set (al_vertices (f_cflow_graph ?f1)) \<subseteq> reachable ?f1" using assms(2) by (simp add: reachable_converted converted_graph)
  ultimately obtain g' where "rename_variables vorder ?f1 = Some (None, ?f1\<lparr>f_cflow_graph := g'\<rparr>)" "same_code g' (f_cflow_graph ?f1)" "single_assignment g'"
    using rename_variables_ok [OF wf_converted [OF assms(1)] _ _ assms(8)] by blast
  then show ?thesis using p by (intro exI [of _ pl] exI [of _ g']) (simp add: ssa_convertion_def)
qed

theorem ssa_convertion_correct_witness:
  "wf_func copy_func \<and> (\<exists>g'. ssa_convertion sorted_list_of_set Min sorted_list_of_set copy_func = Some (None, copy_func\<lparr>f_cflow_graph := g'\<rparr>) \<and>
     single_assignment g')"
proof -
  have "set (al_vertices (f_cflow_graph copy_func)) \<subseteq> reachable copy_func" by (simp add: copy_reachable copy_vertices)
  then show ?thesis
    using ssa_convertion_correct [OF copy_func_wf _ entry_label _ copy_renamable orders(1) orders(2) orders(1)] copy_operands copy_func_wf
    by (auto simp: copy_reachable)
qed

text \<open>
  \<^verbatim>\<open>rename_variables\<close> alone: if every block is reachable, Phi functions are in their mnemonics only and the names an edge looks
  up are known, it changes subscripts only and gives every assignment a name and subscript of its own.
\<close>

theorem rename_variables_single_assignment:
  assumes "wf_func f" "set (al_vertices (f_cflow_graph f)) \<subseteq> reachable f" "renamable f" "enumerates vorder"
  shows "\<exists>g'. rename_variables vorder f = Some (None, f\<lparr>f_cflow_graph := g'\<rparr>) \<and> same_code g' (f_cflow_graph f) \<and> single_assignment g'"
  using rename_variables_ok [OF assms] .

theorem rename_variables_single_assignment_witness:
  "renamable copy_func \<and> (\<exists>g'. rename_variables sorted_list_of_set copy_func = Some (None, copy_func\<lparr>f_cflow_graph := g'\<rparr>) \<and> single_assignment g')"
proof -
  have "set (al_vertices (f_cflow_graph copy_func)) \<subseteq> reachable copy_func" by (simp add: copy_reachable copy_vertices)
  then show ?thesis
    using rename_variables_single_assignment [OF copy_func_wf _ copy_renamable orders(1)] copy_renamable by auto
qed

text \<open>
  C26: A function with a block that is not reachable from the entry is not converted: \<^verbatim>\<open>phi_functions\<close> reports the error, but leaves the
  initialisation of the global variables in the entry block, and \<^verbatim>\<open>rename_variables\<close> reports it without a change.
\<close>

theorem ssa_unreachable_error:
  assumes "wf_func f" "\<not> set (al_vertices (f_cflow_graph f)) \<subseteq> reachable f" "entry_point f = Some bb" "\<not> without_operands (f_cflow_graph f)"
    and "enumerates sorder"
  shows "phi_functions sorder pick f = Some (Some NotReachable, f\<lparr>f_cflow_graph := with_init f bb (sorder (globals_of f))\<rparr>) \<and>
    rename_variables vorder f = Some (Some NotReachable, f)"
proof -
  let ?g = "f_cflow_graph f" and ?s = "f_entry_point f" and ?xs = "sorder (globals_of f)"
  let ?h = "with_init f bb ?xs"
  have wf: "wf_al ?g" "?s \<in> set (al_vertices ?g)" using assms(1) by (simp_all add: wf_func_def)
  have h: "wf_al ?h" "al_vertices ?h = al_vertices ?g" "ag_rel (abs_al ?h) = ag_rel (abs_al ?g)" using wf by (simp_all add: with_init_def)
  have lens: "\<forall>x \<in> set ?xs. lens_of f x \<noteq> None"
    using globals_have_sizes [OF assms(1)] assms(5) finite_globals [OF assms(1)] by (auto simp: enumerates_def)
  obtain idom where i: "immediate_dominator (al_succs ?h) (al_preds ?h) ?s = Some idom" "dom idom = reachable f"
    using immediate_dominator_idoms [OF h(1), of ?s] wf(2) unfolding h reachable_def by blast
  obtain idom' where i': "immediate_dominator (al_succs ?g) (al_preds ?g) ?s = Some idom'" "dom idom' = reachable f"
    using immediate_dominator_idoms [OF wf] unfolding reachable_def by blast
  have "\<not> all_reachable ?h idom" "\<not> all_reachable ?g idom'"
    unfolding all_reachable_iff [OF h(1)] all_reachable_iff [OF wf(1)] i(2) i'(2) h(2) using assms(2) by simp_all
  moreover have "type_check f = Inr (lens_of f)" using assms(4) by (simp add: type_check_fold lens_of_def)
  moreover have "new_mnemonic (b_start (bb_area bb), b_start (bb_area bb)) ''__init'' '''' []
      (map (\<lambda>x. \<lparr>assignee = LvVariable x None (the (lens_of f x)), st_op = Move RvUndefined\<rparr>) ?xs) = Inr (init_mnemonic (lens_of f) ?xs bb)"
    by (simp add: new_mnemonic_def init_mnemonic_def)
  ultimately show ?thesis
    using i(1) i'(1) global_names_spec [OF assms(1)] assms(3) init_statements_spec [OF lens] with_init_graph [OF assms(1)]
    by (simp add: phi_functions_def phi_graph_def rename_variables_def Let_def)
qed

text \<open>
  C27: \<^verbatim>\<open>type_check\<close> fails exactly if some operation has no operands; otherwise it knows the variables that occur in the basic
  blocks and in the guards, each with the largest size it occurs with.
\<close>

theorem type_check_correct:
  "type_check f =
     (if without_operands (f_cflow_graph f) then Inl NoArguments
      else Inr (\<lambda>x. if x \<in> fst ` set (var_sizes (f_cflow_graph f)) then Some (Max {n. (x, n) \<in> set (var_sizes (f_cflow_graph f))}) else None))"
proof -
  have "fold add_size ps Map.empty x = (if x \<in> fst ` set ps then Some (Max {n. (x, n) \<in> set ps}) else None)" for ps :: "(string \<times> nat) list" and x
  proof (cases "x \<in> fst ` set ps")
    case True
    have "finite {n. (x, n) \<in> set ps}" by (rule finite_subset [of _ "snd ` set ps"]) force+
    moreover have "{n. (x, n) \<in> set ps} \<noteq> {}" using True by force
    ultimately show ?thesis using True by (simp add: fold_add_size)
  qed (simp add: fold_add_size)
  then show ?thesis by (simp add: type_check_fold fun_eq_iff)
qed

definition lonely_func :: "nat func" where
  "lonely_func = copy_func\<lparr>f_cflow_graph := fst (al_add_vertex copy_graph (Failed 1 ''gap''))\<rparr>"

lemma lonely_graph:
  "al_vertices (f_cflow_graph lonely_func) = [AlVertex 1, AlVertex 0] \<or> al_vertices (f_cflow_graph lonely_func) = [AlVertex 0, AlVertex 1]"
  "al_vertex_label (f_cflow_graph lonely_func) v =
     (if v = AlVertex 1 then Some (Failed 1 ''gap'') else if v = AlVertex 0 then Some (Resolved copy_block) else None)"
  "edges (f_cflow_graph lonely_func) = [(AlEdge 0, (AlVertex 0, AlVertex 0))]" "f_entry_point lonely_func = AlVertex 0"
  by (simp_all add: lonely_func_def copy_func_def copy_graph_def al_vertices_def al_vertex_label_def al_add_edge_def al_add_vertex_def al_new_def Let_def)

theorem ssa_unreachable_error_witness:
  "wf_func lonely_func \<and> fst (the (rename_variables sorted_list_of_set lonely_func)) = Some NotReachable"
proof -
  let ?g = "f_cflow_graph lonely_func"
  have wf: "wf_func lonely_func"
  proof -
    have "wf_al copy_graph" using copy_func_wf by (simp add: wf_func_def copy_reachable)
    from abs_add_vertex [OF this surjective_pairing] have "wf_al ?g" by (simp add: lonely_func_def)
    then show ?thesis using lonely_graph(1) by (auto simp: wf_func_def lonely_graph(4))
  qed
  have "ag_rel (abs_al ?g) \<subseteq> {(AlVertex 0, AlVertex 0)}"
    by (auto simp: ag_rel_def abs_al_def lonely_graph(3) split: option.splits if_splits)
  then have step: "b = AlVertex 0" if "(a, b) \<in> ag_rel (abs_al ?g)" for a b using that by auto
  have "v = AlVertex 0" if "(AlVertex 0, v) \<in> (ag_rel (abs_al ?g))\<^sup>*" for v
    using that by (cases rule: rtranclE) (simp_all add: step)
  then have "AlVertex 1 \<notin> reachable lonely_func" by (auto simp: reachable_def lonely_graph(4))
  then have "\<not> set (al_vertices ?g) \<subseteq> reachable lonely_func" using lonely_graph(1) by auto
  moreover have "entry_point lonely_func = Some copy_block" by (simp add: entry_point_def lonely_graph(2,4))
  moreover have "\<not> without_operands ?g"
    using lonely_graph(1) by (auto simp: without_operands_def lonely_graph(2) block_mnemonics_def copy_block_def from_vec_def)
  ultimately show ?thesis using ssa_unreachable_error [OF wf _ _ _ orders(1)] wf by simp
qed

text \<open>The last comparison of a list of statements that is assigned to the flag.\<close>

definition last_comparison :: "rvalue \<Rightarrow> statement list \<Rightarrow> rvalue operation option" where
  "last_comparison flag is =
     (case rev (filter (\<lambda>i. rvalue_of_lvalue (assignee i) = flag \<and> is_comparison (st_op i)) is) of [] \<Rightarrow> None | i # _ \<Rightarrow> Some (st_op i))"

definition guard_operation :: "cf_graph \<Rightarrow> al_edge \<Rightarrow> rvalue operation option" where
  "guard_operation g e =
     (case (al_edge_label g e, al_source g e) of
        (Some (GPredicate flag _), Some v) \<Rightarrow>
          (case al_vertex_label g v of Some (Resolved bb) \<Rightarrow> last_comparison flag (block_statements bb) | _ \<Rightarrow> None)
      | _ \<Rightarrow> None)"

lemma flag_statement_last: "fold (flag_statement flag) is r = (case last_comparison flag is of None \<Rightarrow> r | Some p \<Rightarrow> Some p)"
  by (induction "is" arbitrary: r) (auto simp: flag_statement_def last_comparison_def split: list.split option.split)

lemma flag_operation_spec:
  assumes "al_source g e \<noteq> None"
  shows "flag_operation g e = Some (guard_operation g e)"
proof -
  have "bb_execute bb (flag_statement flag) None = last_comparison flag (block_statements bb)" for bb flag
    using flag_statement_last [of flag "block_statements bb" None] by (simp add: bb_execute_def block_statements_def fold_nested split: option.splits)
  then show ?thesis using assms by (auto simp: flag_operation_def guard_operation_def split: option.split guard.split cf_target.split)
qed

text \<open>
  \<^verbatim>\<open>flag_operations\<close> does not panic and maps an edge guarded by a flag to the last comparison in the block the edge leaves
  whose assignee is that flag, and no other edge.
\<close>

theorem flag_operations_correct:
  assumes "wf_func f"
  shows "flag_operations f = Some (\<lambda>e. guard_operation (f_cflow_graph f) e)"
proof -
  let ?g = "f_cflow_graph f"
  have src: "al_source ?g e \<noteq> None" if "e \<in> set (al_edges ?g)" for e
  proof -
    have "dom (map_of (edges ?g)) = dom (map_of (edge_labels ?g))" using assms by (simp add: wf_func_def wf_al_def wf_core_def)
    moreover have "e \<in> dom (map_of (edge_labels ?g))" using that by (simp add: al_edges_def dom_map_of_conv_image_fst)
    ultimately have "e \<in> dom (map_of (edges ?g))" by simp
    then show ?thesis by (auto simp: al_source_def)
  qed
  have loop: "flag_edges ?g es ret = Some (\<lambda>e. if e \<in> set es \<and> ret e = None then guard_operation ?g e else ret e)"
    if "set es \<subseteq> set (al_edges ?g)" "\<forall>e. ret e \<noteq> None \<longrightarrow> ret e = guard_operation ?g e" for es ret
    using that
  proof (induction es arbitrary: ret)
    case (Cons e es)
    define r where "r = ret(e := if ret e = None then guard_operation ?g e else ret e)"
    have "flag_edges ?g (e # es) ret = flag_edges ?g es r"
      using flag_operation_spec [OF src [of e]] Cons.prems(1) by (auto simp: r_def fun_upd_idem split: option.split)
    also have "\<dots> = Some (\<lambda>x. if x \<in> set es \<and> r x = None then guard_operation ?g x else r x)"
      using Cons.prems by (intro Cons.IH) (auto simp: r_def)
    also have "(\<lambda>x. if x \<in> set es \<and> r x = None then guard_operation ?g x else r x) =
        (\<lambda>x. if x \<in> set (e # es) \<and> ret x = None then guard_operation ?g x else ret x)"
      by (auto simp: r_def fun_eq_iff)
    finally show ?case .
  qed auto
  have "guard_operation ?g e = None" if "e \<notin> set (al_edges ?g)" for e
    using that by (simp add: guard_operation_def al_edge_label_def al_edges_def flip: map_of_eq_None_iff)
  then have "(\<lambda>e. if e \<in> set (al_edges ?g) \<and> Map.empty e = None then guard_operation ?g e else Map.empty e) = (\<lambda>e. guard_operation ?g e)"
    by (simp add: fun_eq_iff)
  then show ?thesis using loop [of "al_edges ?g" Map.empty] by (simp add: flag_operations_def)
qed

theorem flag_operations_correct_witness: "wf_func copy_func \<and> flag_operations copy_func = Some (\<lambda>e. None)"
proof -
  have "guard_operation copy_graph e = None" for e
    by (auto simp: guard_operation_def copy_graph_def copy_block_def from_vec_def last_comparison_def block_statements_def al_edge_label_def
        al_source_def al_vertex_label_def al_add_edge_def al_add_vertex_def al_new_def Let_def always_def split: option.split guard.split)
  then show ?thesis using flag_operations_correct [OF copy_func_wf] copy_func_wf by (simp add: copy_reachable)
qed

end
