(* ===== verification/Interp_Spec.thy ===== *)
theory Interp_Spec
  imports Interp Ssa_Form
begin

text \<open>
  Properties of the abstract interpreter: on functions without cycles it evaluates every statement once; what \<^verbatim>\<open>results\<close> reports.
\<close>

section \<open>Statements in order\<close>

definition st_key :: "statement \<Rightarrow> (string \<times> nat) option" where
  "st_key i = (case assignee i of LvVariable n (Some ss) _ \<Rightarrow> Some (n, ss) | _ \<Rightarrow> None)"

definition st_uses :: "statement \<Rightarrow> (string \<times> nat) set" where
  "st_uses i = {(n, ss). \<exists>off sz. RvVariable n (Some ss) off sz \<in> set (operands (st_op i))}"

definition keys_of :: "(program_point \<times> statement) list \<Rightarrow> (string \<times> nat) set" where
  "keys_of ps = {a. \<exists>p \<in> set ps. st_key (snd p) = Some a}"

definition uses_of :: "(program_point \<times> statement) list \<Rightarrow> (string \<times> nat) set" where
  "uses_of ps = (\<Union>p \<in> set ps. st_uses (snd p))"

text \<open>Every name is assigned once, and not used before it is assigned.\<close>

fun in_order :: "(program_point \<times> statement) list \<Rightarrow> bool" where
  "in_order [] \<longleftrightarrow> True"
| "in_order (p # ps) \<longleftrightarrow> st_uses (snd p) \<inter> keys_of (p # ps) = {} \<and> (\<forall>a. st_key (snd p) = Some a \<longrightarrow> a \<notin> keys_of ps) \<and> in_order ps"

lemma keys_simps [simp]:
  "keys_of [] = {}" "keys_of (p # ps) = (case st_key (snd p) of None \<Rightarrow> {} | Some a \<Rightarrow> {a}) \<union> keys_of ps" "keys_of (ps @ qs) = keys_of ps \<union> keys_of qs"
  "uses_of [] = {}" "uses_of (p # ps) = st_uses (snd p) \<union> uses_of ps" "uses_of (ps @ qs) = uses_of ps \<union> uses_of qs"
  by (auto simp: keys_of_def uses_of_def split: option.split)

lemma in_order_append:
  "in_order (ps @ qs) \<longleftrightarrow> in_order ps \<and> in_order qs \<and> uses_of ps \<inter> keys_of qs = {} \<and> keys_of ps \<inter> keys_of qs = {}"
  by (induction ps) (auto split: option.splits)

section \<open>A single evaluation\<close>

definition abs_step :: "'a domain \<Rightarrow> (string \<rightharpoonup> nat) \<Rightarrow> 'a env \<Rightarrow> program_point \<times> statement \<Rightarrow> 'a env \<Rightarrow> 'a env option" where
  "abs_step D sizes fixed p env =
     (case st_key (snd p) of
        None \<Rightarrow> Some env
      | Some a \<Rightarrow> map_option (\<lambda>new. env(a \<mapsto> new)) (eval_operation D sizes env fixed (fst p) (st_op (snd p))))"

definition tagged :: "cf_graph \<Rightarrow> al_vertex \<Rightarrow> (program_point \<times> statement) list" where
  "tagged g v =
     (case al_vertex_label g v of
        Some (Resolved bb) \<Rightarrow> map (\<lambda>p. (ProgramPoint (b_start (bb_area bb)) (fst p), snd p)) (List.enumerate 0 (block_statements bb))
      | _ \<Rightarrow> [])"

definition single_pass :: "'a domain \<Rightarrow> cf_graph \<Rightarrow> (string \<rightharpoonup> nat) \<Rightarrow> 'a env \<Rightarrow> al_vertex list \<Rightarrow> 'a env option" where
  "single_pass D g sizes fixed vs = fold_opt (abs_step D sizes fixed) (concat (map (tagged g) vs)) Map.empty"

text \<open>One statement of the interpreter, without widening, on the flag and the environment.\<close>

definition full_step :: "'a domain \<Rightarrow> (string \<rightharpoonup> nat) \<Rightarrow> 'a env \<Rightarrow> program_point \<times> statement \<Rightarrow> bool \<times> 'a env \<Rightarrow> (bool \<times> 'a env) option" where
  "full_step D sizes fixed p s =
     (case st_key (snd p) of
        None \<Rightarrow> Some s
      | Some a \<Rightarrow>
          do { new \<leftarrow> eval_operation D sizes (snd s) fixed (fst p) (st_op (snd p));
               Some (let r = store_value D False a new \<lparr>ex_env = snd s, ex_change = fst s, ex_pos = 0\<rparr> in (ex_change r, ex_env r)) })"

lemma fold_opt_append: "fold_opt f (xs @ ys) s = Option.bind (fold_opt f xs s) (fold_opt f ys)"
  by (induction xs arbitrary: s) (auto split: Option.bind_split)

lemma fold_bind_None: "fold (\<lambda>i s. Option.bind s (f i)) is None = None"
  by (induction "is") simp_all

lemma fold_bind: "fold (\<lambda>i s. Option.bind s (f i)) is (Some s) = fold_opt f is s"
proof (induction "is" arbitrary: s)
  case (Cons i "is")
  then show ?case by (cases "f i s") (simp_all add: fold_bind_None)
qed simp

lemma exec_statement_step:
  "exec_statement D sizes fixed False start i s =
     map_option (\<lambda>r. \<lparr>ex_env = snd r, ex_change = fst r, ex_pos = ex_pos s + 1\<rparr>)
       (full_step D sizes fixed (ProgramPoint start (ex_pos s), i) (ex_change s, ex_env s))"
  by (cases s) (auto simp: exec_statement_def full_step_def st_key_def store_value_def Let_def split: lvalue.split option.split Option.bind_split)

lemma exec_statements:
  "fold_opt (exec_statement D sizes fixed False start) is \<lparr>ex_env = env, ex_change = c, ex_pos = n\<rparr> =
     map_option (\<lambda>r. \<lparr>ex_env = snd r, ex_change = fst r, ex_pos = n + length is\<rparr>)
       (fold_opt (full_step D sizes fixed) (map (\<lambda>p. (ProgramPoint start (fst p), snd p)) (List.enumerate n is)) (c, env))"
proof (induction "is" arbitrary: env c n)
  case (Cons i "is")
  show ?case
  proof (cases "full_step D sizes fixed (ProgramPoint start n, i) (c, env)")
    case (Some r)
    then show ?thesis using Cons.IH [of "snd r" "fst r" "Suc n"] by (simp add: exec_statement_step)
  qed (simp add: exec_statement_step)
qed simp

lemma exec_vertex_steps: "exec_vertex D g sizes fixed v False env = fold_opt (full_step D sizes fixed) (tagged g v) (False, env)"
  by (auto simp: exec_vertex_def tagged_def bb_execute_def fold_nested fold_bind exec_statements option.map_comp comp_def option.map_ident block_statements_def
      split: option.split cf_target.split)

section \<open>Functions without cycles\<close>

lemma eval_cong:
  assumes "\<forall>a \<in> st_uses i. env a = env' a"
  shows "eval_operation D sizes env fixed pp (st_op i) = eval_operation D sizes env' fixed pp (st_op i)"
proof -
  have "res D sizes env fixed v = res D sizes env' fixed v" if "v \<in> set (operands (st_op i))" for v
  proof (cases v)
    case (RvVariable n ss off sz)
    show ?thesis
    proof (cases ss)
      case (Some k)
      then have e: "env (n, k) = env' (n, k)" using assms that RvVariable unfolding st_uses_def by blast
      show ?thesis unfolding res_def RvVariable Some rvalue.case option.case e ..
    qed (simp add: RvVariable res_def)
  qed (simp_all add: res_def)
  then show ?thesis by (simp add: eval_operation_def cong: map_cong)
qed

lemma abs_steps_outside:
  "fold_opt (abs_step D sizes fixed) ps env = Some env' \<Longrightarrow> a \<notin> keys_of ps \<Longrightarrow> env' a = env a"
proof (induction ps arbitrary: env)
  case (Cons p ps)
  then obtain e where e: "abs_step D sizes fixed p env = Some e" "fold_opt (abs_step D sizes fixed) ps e = Some env'"
    by (auto split: Option.bind_splits)
  have "env' a = e a" using Cons.IH [OF e(2)] Cons.prems(2) by simp
  also have "e a = env a" using e(1) Cons.prems(2) by (auto simp: abs_step_def split: option.splits)
  finally show ?case .
qed simp

text \<open>The values of a single pass solve the equations of all statements.\<close>

definition solves :: "'a domain \<Rightarrow> (string \<rightharpoonup> nat) \<Rightarrow> 'a env \<Rightarrow> (program_point \<times> statement) list \<Rightarrow> 'a env \<Rightarrow> bool" where
  "solves D sizes fixed ps env \<longleftrightarrow>
     (\<forall>p \<in> set ps. \<forall>a. st_key (snd p) = Some a \<longrightarrow>
        env a \<noteq> None \<and> eval_operation D sizes env fixed (fst p) (st_op (snd p)) = env a)"

lemma single_pass_solves:
  "in_order ps \<Longrightarrow> fold_opt (abs_step D sizes fixed) ps env = Some env' \<Longrightarrow> solves D sizes fixed ps env'"
proof (induction ps arbitrary: env)
  case (Cons p ps)
  then obtain e where e: "abs_step D sizes fixed p env = Some e" "fold_opt (abs_step D sizes fixed) ps e = Some env'"
    by (auto split: Option.bind_splits)
  have "env' a \<noteq> None \<and> eval_operation D sizes env' fixed (fst p) (st_op (snd p)) = env' a" if a: "st_key (snd p) = Some a" for a
  proof -
    obtain new where new: "eval_operation D sizes env fixed (fst p) (st_op (snd p)) = Some new" "e = env(a \<mapsto> new)"
      using e(1) a by (auto simp: abs_step_def)
    have "\<forall>b \<in> st_uses (snd p). env b = env' b"
    proof
      fix b assume b: "b \<in> st_uses (snd p)"
      then have "b \<notin> keys_of (p # ps)" using Cons.prems(1) by auto
      then show "env b = env' b" using abs_steps_outside [OF Cons.prems(2)] by simp
    qed
    then have "eval_operation D sizes env' fixed (fst p) (st_op (snd p)) = Some new" using eval_cong [of "snd p" env env'] new(1) by simp
    moreover have "env' a = Some new" using abs_steps_outside [OF e(2), of a] Cons.prems(1) a new(2) by simp
    ultimately show ?thesis by simp
  qed
  moreover have "solves D sizes fixed ps env'" using Cons.IH [OF _ e(2)] Cons.prems(1) by simp
  ultimately show ?case by (auto simp: solves_def)
qed (simp add: solves_def)

lemma full_steps_first:
  assumes "in_order ps" "\<forall>a \<in> keys_of ps. env a = None"
  shows "fold_opt (full_step D sizes fixed) ps (c, env) = map_option (\<lambda>e. (c \<or> keys_of ps \<noteq> {}, e)) (fold_opt (abs_step D sizes fixed) ps env)"
  using assms
proof (induction ps arbitrary: c env)
  case (Cons p ps)
  show ?case
  proof (cases "st_key (snd p)")
    case None
    then show ?thesis using Cons by (simp add: full_step_def abs_step_def)
  next
    case (Some a)
    show ?thesis
    proof (cases "eval_operation D sizes env fixed (fst p) (st_op (snd p))")
      case None
      then show ?thesis using Some by (simp add: full_step_def abs_step_def)
    next
      case new: (Some new)
      have "full_step D sizes fixed p (c, env) = Some (True, env(a \<mapsto> new))"
        using Some new Cons.prems(2) by (simp add: full_step_def store_value_def Let_def)
      moreover have "abs_step D sizes fixed p env = Some (env(a \<mapsto> new))" using Some new by (simp add: abs_step_def)
      moreover have "fold_opt (full_step D sizes fixed) ps (True, env(a \<mapsto> new)) =
          map_option (\<lambda>e. (True \<or> keys_of ps \<noteq> {}, e)) (fold_opt (abs_step D sizes fixed) ps (env(a \<mapsto> new)))"
        using Cons.prems Some by (intro Cons.IH) auto
      ultimately show ?thesis using Some by simp
    qed
  qed
qed simp

lemma full_steps_again: "solves D sizes fixed ps env \<Longrightarrow> fold_opt (full_step D sizes fixed) ps (c, env) = Some (c, env)"
proof (induction ps)
  case (Cons p ps)
  have "full_step D sizes fixed p (c, env) = Some (c, env)"
    using Cons.prems by (auto simp: solves_def full_step_def store_value_def Let_def split: option.split)
  then show ?case using Cons by (simp add: solves_def)
qed simp

lemma full_step_flag: "full_step D sizes fixed p (c, e) = map_option (\<lambda>r. (c \<or> fst r, snd r)) (full_step D sizes fixed p (False, e))"
  by (auto simp: full_step_def store_value_def Let_def split: option.split Option.bind_split)

lemma full_steps_flag:
  "fold_opt (full_step D sizes fixed) ps (c, e) = map_option (\<lambda>r. (c \<or> fst r, snd r)) (fold_opt (full_step D sizes fixed) ps (False, e))"
proof (induction ps arbitrary: c e)
  case (Cons p ps)
  show ?case
  proof (cases "full_step D sizes fixed p (False, e)")
    case (Some r)
    have "fold_opt (full_step D sizes fixed) (p # ps) (c, e) = fold_opt (full_step D sizes fixed) ps (c \<or> fst r, snd r)"
      using Some by (simp add: full_step_flag [of D sizes fixed p c e])
    also have "\<dots> = map_option (\<lambda>x. ((c \<or> fst r) \<or> fst x, snd x)) (fold_opt (full_step D sizes fixed) ps (False, snd r))" by (rule Cons.IH)
    also have "\<dots> = map_option (\<lambda>x. (c \<or> fst x, snd x)) (fold_opt (full_step D sizes fixed) ps (fst r, snd r))"
      unfolding Cons.IH [of "fst r" "snd r"] by (simp add: option.map_comp comp_def disj_assoc)
    finally show ?thesis using Some by simp
  qed (simp add: full_step_flag [of D sizes fixed p c e])
qed simp

text \<open>One run over the elements of an order without components.\<close>

lemma element_pass:
  assumes "\<forall>v \<in> set vs. \<not> (w \<and> v = head)"
  shows "fold_opt (\<lambda>x s. case x of
        HElement vx \<Rightarrow> map_option (\<lambda>r. (fst s \<and> \<not> fst r, snd r)) (exec_vertex D g sizes fixed vx (w \<and> vx = head) (snd s))
      | HComponent vec \<Rightarrow> f vec s) (map HElement vs) (b, env) =
    map_option (\<lambda>r. (b \<and> \<not> fst r, snd r)) (fold_opt (full_step D sizes fixed) (concat (map (tagged g) vs)) (False, env))"
  using assms
proof (induction vs arbitrary: b env)
  case (Cons v vs)
  have "(w \<and> v = head) = False" using Cons.prems by simp
  then have ev: "exec_vertex D g sizes fixed v (w \<and> v = head) e = fold_opt (full_step D sizes fixed) (tagged g v) (False, e)" for e
    unfolding exec_vertex_steps [symmetric] by (rule arg_cong)
  show ?case
  proof (cases "fold_opt (full_step D sizes fixed) (tagged g v) (False, env)")
    case None
    then show ?thesis by (simp add: ev fold_opt_append)
  next
    case (Some r)
    then show ?thesis using Cons.IH [of "b \<and> \<not> fst r" "snd r"] Cons.prems full_steps_flag [of D sizes fixed "concat (map (tagged g) vs)" "fst r" "snd r"]
      by (auto simp: ev fold_opt_append option.map_comp comp_def)
  qed
qed simp

lemma stable_loop_fails: "pass 0 e = None \<Longrightarrow> stable_loop pass 0 e = None"
  by (subst stable_loop.simps) simp

lemma stable_loop_two:
  assumes "pass 0 e = Some (b, e')" "pass 1 e' = Some (True, e')"
  shows "stable_loop pass 0 e = Some e'"
proof -
  have "stable_loop pass 1 e' = Some e'" using assms(2) by (subst stable_loop.simps) simp
  then show ?thesis using assms(1) by (subst stable_loop.simps) simp
qed

lemma stabilize_elements:
  assumes "in_order (concat (map (tagged g) vs))"
  shows "stabilize (exec_vertex D g sizes fixed) narrow (map HElement vs) Map.empty =
    (if vs = [] then Some Map.empty else map_option narrow (single_pass D g sizes fixed vs))"
proof (cases vs)
  case (Cons v us)
  let ?ps = "concat (map (tagged g) vs)"
  let ?pass = "\<lambda>(iter_cnt :: nat) env. fold_opt (\<lambda>x s. case x of
        HElement vx \<Rightarrow> map_option (\<lambda>r. (fst s \<and> \<not> fst r, snd r)) (exec_vertex D g sizes fixed vx (2 \<le> iter_cnt \<and> vx = v) (snd s))
      | HComponent vec \<Rightarrow> map_option (\<lambda>e. (True, e)) (stabilize (exec_vertex D g sizes fixed) narrow vec (snd s))) (map HElement vs) (True, env)"
  have pass: "?pass k env = map_option (\<lambda>r. (\<not> fst r, snd r)) (fold_opt (full_step D sizes fixed) ?ps (False, env))" if "k < 2" for k :: nat and env
    using element_pass [where vs = vs and w = "2 \<le> k" and head = v and D = D and g = g and sizes = sizes and fixed = fixed and b = True and env = env and
        f = "\<lambda>vec s. map_option (\<lambda>e. (True, e)) (stabilize (exec_vertex D g sizes fixed) narrow vec (snd s))"] that
    by simp
  have first: "?pass 0 Map.empty = map_option (\<lambda>e. (keys_of ?ps = {}, e)) (single_pass D g sizes fixed vs)"
    unfolding pass [of 0, simplified] single_pass_def using full_steps_first [OF assms, of Map.empty D sizes fixed False]
    by (simp add: option.map_comp comp_def)
  have "stable_loop ?pass 0 Map.empty = single_pass D g sizes fixed vs"
  proof (cases "single_pass D g sizes fixed vs")
    case None
    then show ?thesis using first by (simp add: stable_loop_fails)
  next
    case (Some env)
    then have "solves D sizes fixed ?ps env" using single_pass_solves [OF assms] unfolding single_pass_def by blast
    then have "?pass 1 env = Some (True, env)" unfolding pass [of 1, simplified] using full_steps_again [of D sizes fixed ?ps env False] by simp
    then have "stable_loop ?pass 0 Map.empty = Some env" using first Some by (intro stable_loop_two [where b = "keys_of ?ps = {}"]) simp_all
    then show ?thesis using Some by simp
  qed
  then show ?thesis using Cons by simp
qed simp

text \<open>
  In every block a name is assigned once and not used before, no two blocks assign the same name, and a name that
  another block assigns is used only where a path leads from that block.
\<close>

definition defs_reach_uses :: "cf_graph \<Rightarrow> al_vertex set \<Rightarrow> bool" where
  "defs_reach_uses g R \<longleftrightarrow>
     (\<forall>v \<in> R. in_order (tagged g v)) \<and> (\<forall>v \<in> R. \<forall>w \<in> R. v \<noteq> w \<longrightarrow> keys_of (tagged g v) \<inter> keys_of (tagged g w) = {}) \<and>
     (\<forall>v \<in> R. \<forall>w \<in> R. v \<noteq> w \<and> uses_of (tagged g v) \<inter> keys_of (tagged g w) \<noteq> {} \<longrightarrow> (w, v) \<in> (ag_rel (abs_al g))\<^sup>+)"

lemma in_order_concat:
  "\<forall>v \<in> set vs. in_order (h v) \<Longrightarrow> sorted_wrt (\<lambda>u v. uses_of (h u) \<inter> keys_of (h v) = {} \<and> keys_of (h u) \<inter> keys_of (h v) = {}) vs \<Longrightarrow>
   in_order (concat (map h vs))"
proof (induction vs)
  case (Cons v vs)
  have "uses_of (h v) \<inter> keys_of (concat (map h vs)) = {} \<and> keys_of (h v) \<inter> keys_of (concat (map h vs)) = {}"
    using Cons.prems(2) by (induction vs) auto
  then show ?case using Cons by (simp add: in_order_append)
qed simp

lemma before_nth: "before xs u w \<longleftrightarrow> (\<exists>i j. i < j \<and> j < length xs \<and> xs ! i = u \<and> xs ! j = w)"
proof
  assume "before xs u w"
  then obtain a b c where "xs = a @ u # b @ w # c" unfolding before_def by blast
  then have "length a < length a + 1 + length b" "length a + 1 + length b < length xs" "xs ! length a = u" "xs ! (length a + 1 + length b) = w"
    by (simp_all add: nth_append)
  then show "\<exists>i j. i < j \<and> j < length xs \<and> xs ! i = u \<and> xs ! j = w" by blast
next
  assume "\<exists>i j. i < j \<and> j < length xs \<and> xs ! i = u \<and> xs ! j = w"
  then obtain i j where ij: "i < j" "j < length xs" "xs ! i = u" "xs ! j = w" by blast
  have "take j xs = take i xs @ u # drop (Suc i) (take j xs)" using ij id_take_nth_drop [of i "take j xs"] by simp
  moreover have "xs = take j xs @ w # drop (Suc j) xs" using ij id_take_nth_drop [of j xs] by simp
  ultimately have "xs = take i xs @ u # drop (Suc i) (take j xs) @ w # drop (Suc j) xs" by (metis append.assoc append_Cons)
  then show "before xs u w" unfolding before_def by blast
qed

lemma before_trans: "distinct vs \<Longrightarrow> before vs u v \<Longrightarrow> before vs v w \<Longrightarrow> before vs u w"
  unfolding before_nth by (metis less_trans nth_eq_iff_index_eq)

lemma before_trancl:
  assumes "distinct vs" "\<forall>u w. u \<in> set vs \<and> (u, w) \<in> E \<longrightarrow> before vs u w" "(u, w) \<in> E\<^sup>+" "u \<in> set vs"
  shows "before vs u w"
  using assms(3)
proof (induction rule: trancl_induct)
  case (base y)
  then show ?case using assms(2,4) by blast
next
  case (step y z)
  then have "y \<in> set vs" unfolding before_def by auto
  then have "before vs y z" using assms(2) step.hyps(2) by blast
  then show ?case using step.IH before_trans [OF assms(1)] by blast
qed

lemma topological_in_order:
  assumes "distinct vs" "\<forall>u w. u \<in> set vs \<and> (u, w) \<in> ag_rel (abs_al g) \<longrightarrow> before vs u w" "defs_reach_uses g (set vs)"
  shows "in_order (concat (map (tagged g) vs))"
proof (rule in_order_concat)
  show "\<forall>v \<in> set vs. in_order (tagged g v)" using assms(3) by (simp add: defs_reach_uses_def)
  show "sorted_wrt (\<lambda>u v. uses_of (tagged g u) \<inter> keys_of (tagged g v) = {} \<and> keys_of (tagged g u) \<inter> keys_of (tagged g v) = {}) vs"
    unfolding sorted_wrt_iff_nth_less
  proof (intro allI impI)
    fix i j assume ij: "i < j" "j < length vs"
    let ?u = "vs ! i" and ?v = "vs ! j"
    have uv: "?u \<in> set vs" "?v \<in> set vs" "?u \<noteq> ?v" using ij assms(1) by (auto simp: nth_eq_iff_index_eq)
    have "(?v, ?u) \<notin> (ag_rel (abs_al g))\<^sup>+"
    proof
      assume "(?v, ?u) \<in> (ag_rel (abs_al g))\<^sup>+"
      then obtain k l where "k < l" "l < length vs" "vs ! k = ?v" "vs ! l = ?u" using before_trancl [OF assms(1,2) _ uv(2)] unfolding before_nth by blast
      then show False using assms(1) ij by (simp add: nth_eq_iff_index_eq)
    qed
    then show "uses_of (tagged g ?u) \<inter> keys_of (tagged g ?v) = {} \<and> keys_of (tagged g ?u) \<inter> keys_of (tagged g ?v) = {}"
      using assms(3) uv unfolding defs_reach_uses_def by blast
  qed
qed

lemma acyclic_elements:
  assumes "acyclic E" "\<forall>h \<in> set hs. headed E h"
  shows "hs = map HElement (flats hs)" "(\<Union>h \<in> set hs. loops h) = {}"
proof -
  have el: "\<exists>v. h = HElement v" if "h \<in> set hs" for h
  proof (cases h)
    case (HComponent ks)
    then have "headed E (HComponent ks)" using assms(2) that by blast
    then show ?thesis using assms(1) by (auto simp: acyclic_def split: list.splits hierarchy.splits)
  qed simp
  then show "(\<Union>h \<in> set hs. loops h) = {}" by fastforce
  have "\<forall>h \<in> set hs. \<exists>v. h = HElement v" using el by blast
  then show "hs = map HElement (flats hs)" by (induction hs) auto
qed

section \<open>Soundness\<close>

text \<open>
  A run of a function without cycles gives every name at most one value: the value of its operation, where a Phi function takes
  one of its operands.  The evaluator has no value for \<^verbatim>\<open>Load\<close>, \<^verbatim>\<open>Undefined\<close> and names that are not assigned, and neither has a run;
  it is partial on whatever depends on them.
\<close>

definition operand_value :: "(string \<times> nat \<rightharpoonup> const) \<Rightarrow> rvalue \<Rightarrow> rvalue option" where
  "operand_value c v =
     (case v of
        RvConstant n s \<Rightarrow> (if take_bit s n = n then Some v else None)
      | RvVariable n (Some ss) off sz \<Rightarrow> map_option const_rv (c (n, ss))
      | _ \<Rightarrow> None)"

definition computes :: "(string \<times> nat \<rightharpoonup> const) \<Rightarrow> rvalue operation \<Rightarrow> const \<Rightarrow> bool" where
  "computes c op x \<longleftrightarrow>
     (case op of
        Phi vs \<Rightarrow> \<exists>v \<in> set vs. operand_value c v = Some (const_rv x)
      | _ \<Rightarrow> \<exists>args cop. those (map (operand_value c) (operands op)) = Some args \<and> lift_with op args = Some cop \<and> execute cop = Some (const_rv x))"

definition concrete_run :: "(program_point \<times> statement) set \<Rightarrow> (string \<times> nat \<rightharpoonup> const) \<Rightarrow> bool" where
  "concrete_run P c \<longleftrightarrow> (\<forall>a. c a \<noteq> None \<longrightarrow> (\<exists>p \<in> P. st_key (snd p) = Some a)) \<and>
     (\<forall>p \<in> P. \<forall>a x. st_key (snd p) = Some a \<and> c a = Some x \<longrightarrow> take_bit (snd x) (fst x) = fst x \<and> computes c (st_op (snd p)) x)"

text \<open>Variables are read as a whole.\<close>

definition whole_operands :: "(string \<rightharpoonup> nat) \<Rightarrow> (program_point \<times> statement) set \<Rightarrow> bool" where
  "whole_operands sizes P \<longleftrightarrow>
     (\<forall>p \<in> P. \<forall>n ss off sz. RvVariable n ss off sz \<in> set (operands (st_op (snd p))) \<longrightarrow> off = 0 \<and> sizes n = Some sz)"

lemma those_list_all2: "those (map f xs) = Some ys \<longleftrightarrow> list_all2 (\<lambda>x y. f x = Some y) xs ys"
  by (induction xs arbitrary: ys) (auto simp: list_all2_Cons1 split: option.splits)

lemma lift_with_rel:
  assumes "lift_with op ks = Some aop" "lift_with op vs = Some cop" "list_all2 R ks vs"
  shows "rel_operation R aop cop"
  using assms
  by (cases op) (auto simp: app1_def app2_def list_all2_conv_all_nth split: if_splits Option.bind_splits)

text \<open>What the interpreter relies on in a domain.\<close>

locale sound_domain =
  fixes D :: "'a domain" and gamma :: "'a \<Rightarrow> const set"
  assumes value_sound: "take_bit s v = v \<Longrightarrow> (v, s) \<in> gamma (av_value D (RvConstant v s))"
    and exec_sound: "approximates gamma op cop \<Longrightarrow> av_execute D pp op = Some k \<Longrightarrow> execute cop = Some (RvConstant v s) \<Longrightarrow> (v, s) \<in> gamma k"
    and phi_sound: "av_execute D pp (Phi ks) = Some k \<Longrightarrow> x \<in> set ks \<Longrightarrow> gamma x \<subseteq> gamma k"
begin

definition covers :: "'a env \<Rightarrow> (string \<times> nat \<rightharpoonup> const) \<Rightarrow> (string \<times> nat) set \<Rightarrow> bool" where
  "covers env c A \<longleftrightarrow> (\<forall>a \<in> A. \<forall>x. c a = Some x \<longrightarrow> take_bit (snd x) (fst x) = fst x \<and> (\<exists>k. env a = Some k \<and> x \<in> gamma k))"

lemma covers_subset: "covers env c B \<Longrightarrow> A \<subseteq> B \<Longrightarrow> covers env c A"
  unfolding covers_def by blast

lemma covers_Un: "covers env c (A \<union> B) \<longleftrightarrow> covers env c A \<and> covers env c B"
  unfolding covers_def by blast

lemma covers_absent: "(\<And>a. a \<in> A \<Longrightarrow> c a = None) \<Longrightarrow> covers env c A"
  unfolding covers_def by simp

lemma operand_covered:
  assumes "operand_value c v = Some r" "covers env c {(n, ss). \<exists>off sz. v = RvVariable n (Some ss) off sz}"
    and "\<forall>n ss off sz. v = RvVariable n ss off sz \<longrightarrow> off = 0 \<and> sizes n = Some sz"
    and "res D sizes env Map.empty v = Some k"
  shows "stands_for gamma k r"
proof (cases v)
  case RvUndefined
  then show ?thesis using assms(1) by (simp add: operand_value_def)
next
  case (RvVariable n sub off sz)
  then obtain ss x where ss: "sub = Some ss" "c (n, ss) = Some x" "r = const_rv x"
    using assms(1) by (auto simp: operand_value_def split: option.splits)
  then obtain k' where "env (n, ss) = Some k'" "x \<in> gamma k'" "take_bit (snd x) (fst x) = fst x"
    using assms(2) RvVariable by (auto simp: covers_def)
  then show ?thesis using assms(3,4) RvVariable ss by (auto simp: res_def stands_for_def)
next
  case (RvConstant n s)
  then have "take_bit s n = n" "k = av_value D (RvConstant n s)" "r = const_rv (n, s)"
    using assms(1,4) by (auto simp: operand_value_def res_def const_rv_def split: if_splits)
  then show ?thesis using value_sound [of s n] unfolding stands_for_def by (intro bexI [of _ "(n, s)"]) simp_all
qed

lemma operation_covered:
  assumes "computes c op x" "covers env c {(n, ss). \<exists>off sz. RvVariable n (Some ss) off sz \<in> set (operands op)}"
    and "\<forall>n ss off sz. RvVariable n ss off sz \<in> set (operands op) \<longrightarrow> off = 0 \<and> sizes n = Some sz"
    and "eval_operation D sizes env Map.empty pp op = Some k"
  shows "x \<in> gamma k"
proof -
  obtain ks aop where ks: "those (map (res D sizes env Map.empty) (operands op)) = Some ks" "lift_with op ks = Some aop" "av_execute D pp aop = Some k"
    using assms(4) by (auto simp: eval_operation_def split: Option.bind_splits)
  have sf: "stands_for gamma k' r" if "v \<in> set (operands op)" "operand_value c v = Some r" "res D sizes env Map.empty v = Some k'" for v r k'
  proof (rule operand_covered [OF that(2) _ _ that(3)])
    show "covers env c {(n, ss). \<exists>off sz. v = RvVariable n (Some ss) off sz}" using assms(2) that(1) by (blast intro: covers_subset)
    show "\<forall>n ss off sz. v = RvVariable n ss off sz \<longrightarrow> off = 0 \<and> sizes n = Some sz" using assms(3) that(1) by blast
  qed
  show ?thesis
  proof (cases "\<exists>vs. op = Phi vs")
    case True
    then obtain vs v where vs: "op = Phi vs" "v \<in> set vs" "operand_value c v = Some (const_rv x)" using assms(1) by (auto simp: computes_def)
    then have ph: "list_all2 (\<lambda>v k. res D sizes env Map.empty v = Some k) vs ks" "aop = Phi ks" using ks by (simp_all add: those_list_all2)
    obtain i where "i < length vs" "v = vs ! i" using vs(2) by (auto simp: in_set_conv_nth)
    then have "ks ! i \<in> set ks \<and> res D sizes env Map.empty v = Some (ks ! i)" using ph(1) by (auto simp: list_all2_conv_all_nth)
    then obtain k' where k': "k' \<in> set ks" "res D sizes env Map.empty v = Some k'" by blast
    then have "stands_for gamma k' (const_rv x)" using sf vs by simp
    moreover have "gamma k' \<subseteq> gamma k" using phi_sound [OF _ k'(1)] ks(3) ph(2) by simp
    ultimately show ?thesis by (cases x) (auto simp: stands_for_def const_rv_def)
  next
    case False
    then obtain args cop where cop: "those (map (operand_value c) (operands op)) = Some args" "lift_with op args = Some cop" "execute cop = Some (const_rv x)"
      using assms(1) by (cases op) (auto simp: computes_def)
    have "list_all2 (stands_for gamma) ks args"
      using ks(1) cop(1) sf nth_mem unfolding those_list_all2 list_all2_conv_all_nth by metis
    then have "approximates gamma aop cop" using lift_with_rel [OF ks(2) cop(2)] by (simp add: approximates_def)
    then show ?thesis using exec_sound [OF _ ks(3)] cop(3) by (cases x) (simp add: const_rv_def)
  qed
qed

lemma solution_covers:
  assumes "in_order ps" "solves D sizes Map.empty ps env" "whole_operands sizes (set ps)" "concrete_run (set ps) c"
  shows "covers env c UNIV"
proof -
  have run: "take_bit (snd x) (fst x) = fst x" "computes c (st_op (snd p)) x" if "p \<in> set ps" "st_key (snd p) = Some a" "c a = Some x" for p a x
    using assms(4) that unfolding concrete_run_def by blast+
  have outside: "covers env c (- keys_of ps)" using assms(4) unfolding concrete_run_def keys_of_def by (intro covers_absent) blast
  have "covers env c (keys_of qs)" if "ps = qs @ rs" for qs rs
    using that
  proof (induction qs arbitrary: rs rule: rev_induct)
    case (snoc p qs)
    have p: "p \<in> set ps" using snoc.prems by simp
    have IH: "covers env c (keys_of qs)" using snoc by simp
    have "st_uses (snd p) \<inter> keys_of (p # rs) = {}" using assms(1) snoc.prems by (simp add: in_order_append)
    moreover have "keys_of ps = keys_of qs \<union> keys_of (p # rs)" using snoc.prems by simp
    ultimately have "st_uses (snd p) \<subseteq> keys_of qs \<union> - keys_of ps" by blast
    then have uses: "covers env c (st_uses (snd p))" using IH outside covers_subset covers_Un by metis
    have "x \<in> gamma k" if "st_key (snd p) = Some a" "c a = Some x" "env a = Some k" for a x k
    proof (rule operation_covered [OF run(2) [OF p that(1,2)], of env sizes "fst p" k])
      show "covers env c {(n, ss). \<exists>off sz. RvVariable n (Some ss) off sz \<in> set (operands (st_op (snd p)))}" using uses unfolding st_uses_def .
      show "\<forall>n ss off sz. RvVariable n ss off sz \<in> set (operands (st_op (snd p))) \<longrightarrow> off = 0 \<and> sizes n = Some sz"
        using assms(3) p unfolding whole_operands_def by blast
      show "eval_operation D sizes env Map.empty (fst p) (st_op (snd p)) = Some k" using assms(2) p that(1,3) unfolding solves_def by metis
    qed
    moreover have "env a \<noteq> None" if "st_key (snd p) = Some a" for a using that assms(2) p unfolding solves_def by blast
    ultimately have "covers env c {a. st_key (snd p) = Some a}" using run(1) [OF p] unfolding covers_def by blast
    moreover have "keys_of (qs @ [p]) = keys_of qs \<union> {a. st_key (snd p) = Some a}" by (auto split: option.splits)
    ultimately show ?case using IH covers_Un by metis
  qed (simp add: covers_def)
  then have "covers env c (keys_of ps)" by simp
  then show ?thesis using outside covers_Un [of env c "keys_of ps" "- keys_of ps"] by simp
qed

end

interpretation kset_sound: sound_domain kset_domain kset_gamma
proof
  show "(v, s) \<in> kset_gamma (av_value kset_domain (RvConstant v s))" if "take_bit s v = v" for s and v :: u64
    using kset.value_sound [OF that] by (simp add: kset_domain_def)
  show "(v, s) \<in> kset_gamma k" if "approximates kset_gamma op cop" "av_execute kset_domain pp op = Some k" "execute cop = Some (RvConstant v s)" for op cop pp k v s
    using kset.exec_sound [OF that(1) _ that(3)] that(2) by (simp add: kset_domain_def)
  show "kset_gamma x \<subseteq> kset_gamma k" if "av_execute kset_domain pp (Phi ks) = Some k" "x \<in> set ks" for pp ks k x
    using kset_phi that by (simp add: kset_domain_def del: kset_execute.simps)
qed

interpretation track_sound: sound_domain track_domain track_gamma
proof
  show "(v, s) \<in> track_gamma (av_value track_domain (RvConstant v s))" if "take_bit s v = v" for s and v :: u64
    using track.value_sound [OF that] by (simp add: track_domain_def)
  show "(v, s) \<in> track_gamma k" if "approximates track_gamma op cop" "av_execute track_domain pp op = Some k" "execute cop = Some (RvConstant v s)" for op cop pp k v s
    using track.exec_sound [OF that(1) _ that(3)] that(2) by (simp add: track_domain_def)
  show "track_gamma x \<subseteq> track_gamma k" if "av_execute track_domain pp (Phi ks) = Some k" "x \<in> set ks" for pp ks k x
    using track_phi that by (simp add: track_domain_def del: track_execute.simps)
qed

section \<open>Reported values\<close>

definition assigned_name :: "statement \<Rightarrow> string option" where
  "assigned_name i = (case assignee i of LvVariable n _ _ \<Rightarrow> Some n | LvUndefined \<Rightarrow> None)"

text \<open>The value of the first assignment to a name with a size.\<close>

definition first_values :: "'a domain \<Rightarrow> (lvalue \<rightharpoonup> 'a) \<Rightarrow> statement list \<Rightarrow> 'a env" where
  "first_values D vals is k =
     map_option (\<lambda>i. case vals (assignee i) of None \<Rightarrow> av_initial D | Some v \<Rightarrow> v)
       (find (\<lambda>i. \<exists>ss. assignee i = LvVariable (fst k) ss (snd k)) is)"

definition only_name :: "string \<Rightarrow> 'a env \<Rightarrow> 'a env" where
  "only_name lv m k = (if fst k = lv then m k else None)"

lemma note_results:
  "fold (note_result D vals lv) (rev is) (b, ret) =
     (b \<or> (\<exists>i \<in> set is. assigned_name i = Some lv), ret ++ only_name lv (first_values D vals is))"
proof (induction "is")
  case Nil
  then show ?case by (simp add: first_values_def only_name_def map_add_def)
next
  case (Cons i "is")
  let ?m = "first_values D vals is"
  have "fold (note_result D vals lv) (rev (i # is)) (b, ret) =
      note_result D vals lv i (b \<or> (\<exists>j \<in> set is. assigned_name j = Some lv), ret ++ only_name lv ?m)"
    using Cons by simp
  also have "\<dots> = (b \<or> (\<exists>j \<in> set (i # is). assigned_name j = Some lv), ret ++ only_name lv (first_values D vals (i # is)))"
  proof (cases "assignee i")
    case LvUndefined
    then have "first_values D vals (i # is) = ?m" by (simp add: first_values_def fun_eq_iff)
    then show ?thesis using LvUndefined by (simp add: note_result_def assigned_name_def)
  next
    case (LvVariable n ss sz)
    have "only_name lv (first_values D vals (i # is)) =
        (if n = lv then (only_name lv ?m)((n, sz) \<mapsto> (case vals (assignee i) of None \<Rightarrow> av_initial D | Some v \<Rightarrow> v)) else only_name lv ?m)"
      by (auto simp: only_name_def first_values_def fun_eq_iff LvVariable)
    then show ?thesis using LvVariable by (simp add: note_result_def assigned_name_def)
  qed
  finally show ?case .
qed

lemma no_assignment: "\<forall>i \<in> set is. assigned_name i \<noteq> Some lv \<Longrightarrow> only_name lv (first_values D vals is) = Map.empty"
  by (auto simp: only_name_def first_values_def assigned_name_def fun_eq_iff find_None_iff)

lemma bb_backwards: "bb_execute_backwards bb f s = fold f (rev (block_statements bb)) s"
  by (simp add: bb_execute_backwards_def block_statements_def rev_concat rev_map fold_nested comp_def)

text \<open>The walk up the dominator tree ends, and adds nothing to what the block itself assigns.\<close>

lemma result_loop_value:
  assumes "parent_tree s (al_postorder g s) idom"
  shows "result_loop D g idom vals bb lv v ret = Some (ret ++ only_name lv (first_values D vals (block_statements bb)))"
proof (induction "length (al_postorder g s) - ix (al_postorder g s) v" arbitrary: v rule: less_induct)
  case less
  let ?is = "block_statements bb" and ?po = "al_postorder g s"
  have run: "bb_execute_backwards bb (note_result D vals lv) (False, ret) =
      (\<exists>i \<in> set ?is. assigned_name i = Some lv, ret ++ only_name lv (first_values D vals ?is))"
    by (simp add: bb_backwards note_results)
  show ?case
  proof (cases "(\<exists>i \<in> set ?is. assigned_name i = Some lv) \<or> idom v = None \<or> idom v = Some v")
    case True
    then show ?thesis by (subst result_loop.simps) (auto simp: run split: option.split)
  next
    case False
    then obtain w where w: "idom v = Some w" "w \<noteq> v" by auto
    have "v \<noteq> s" using assms w unfolding parent_tree_def by auto
    then have "w \<in> dom idom" "dom idom \<subseteq> set ?po" "ix ?po v < ix ?po w" using assms w(1) unfolding parent_tree_def by blast+
    then have "ix ?po v < ix ?po w" "ix ?po w < length ?po" using al_tree.po_idx_some [of w g s] by auto
    then have "length ?po - ix ?po w < length ?po - ix ?po v" by linarith
    note up = less [OF this]
    have "only_name lv (first_values D vals ?is) = Map.empty" using False by (intro no_assignment) blast
    then show ?thesis using False w up by (subst result_loop.simps) (auto simp: run)
  qed
qed

lemma names_fold:
  "(\<And>lv ret. h lv ret = Some (ret ++ only_name lv m)) \<Longrightarrow>
   fold_opt h ns ret = Some (ret ++ (\<lambda>k. if fst k \<in> set ns then m k else None))"
proof (induction ns arbitrary: ret)
  case (Cons n ns)
  have "fold_opt h ns (ret ++ only_name n m) = Some ((ret ++ only_name n m) ++ (\<lambda>k. if fst k \<in> set ns then m k else None))"
    by (rule Cons.IH [OF Cons.prems])
  then show ?case unfolding fold_opt.simps Cons.prems by (auto simp: only_name_def map_add_def fun_eq_iff split: option.split)
qed (simp add: map_add_def fun_eq_iff)

definition names_in :: "cf_graph \<Rightarrow> al_vertex \<Rightarrow> string set" where
  "names_in g v = (case al_vertex_label g v of Some (Resolved bb) \<Rightarrow> {n. \<exists>i \<in> set (block_statements bb). assigned_name i = Some n} | _ \<Rightarrow> {})"

lemma note_names_fold: "fold note_names is S = S \<union> {n. \<exists>i \<in> set is. assigned_name i = Some n}"
  by (induction "is" arbitrary: S) (auto simp: note_names_def assigned_name_def split: lvalue.splits)

lemma assigned_names_in: "assigned_names g = (\<Union>v \<in> set (al_vertices g). names_in g v)"
proof -
  have "fold (\<lambda>vx names. case al_vertex_label g vx of Some (Resolved bb) \<Rightarrow> bb_execute bb note_names names | _ \<Rightarrow> names) vs S =
      S \<union> (\<Union>v \<in> set vs. names_in g v)" for vs S
    by (induction vs arbitrary: S)
       (auto simp: names_in_def bb_execute_def fold_nested note_names_fold block_statements_def split: option.split cf_target.split)
  then show ?thesis by (simp add: assigned_names_def)
qed

lemma finite_names: "finite (assigned_names g)"
proof -
  have "finite {n. \<exists>i \<in> set is. assigned_name i = Some n}" for "is"
    by (rule finite_subset [of _ "the ` assigned_name ` set is"]) (force simp: image_iff)+
  then have "finite (names_in g v)" for v by (simp add: names_in_def split: option.split cf_target.split)
  then show ?thesis by (simp add: assigned_names_in)
qed

text \<open>What a block without successors contributes.\<close>

definition exit_values :: "'a domain \<Rightarrow> cf_graph \<Rightarrow> (lvalue \<rightharpoonup> 'a) \<Rightarrow> al_vertex \<Rightarrow> 'a env" where
  "exit_values D g vals v =
     (case al_vertex_label g v of
        Some (Resolved bb) \<Rightarrow> (if al_out_degree g v = 0 then first_values D vals (block_statements bb) else Map.empty)
      | _ \<Rightarrow> Map.empty)"

lemma exit_results_values:
  assumes "parent_tree s (al_postorder g s) idom" "enumerates sorder" "v \<in> set (al_vertices g)"
  shows "exit_results sorder D g idom vals v ret = Some (ret ++ exit_values D g vals v)"
proof (cases "al_out_degree g v = 0 \<and> is_resolved g v")
  case True
  then obtain bb where bb: "al_vertex_label g v = Some (Resolved bb)" "al_out_degree g v = 0"
    by (auto simp: is_resolved_def split: option.splits cf_target.splits)
  let ?m = "first_values D vals (block_statements bb)"
  have "set (sorder (assigned_names g)) = assigned_names g" using assms(2) finite_names unfolding enumerates_def by blast
  moreover have "?m k = None" if "fst k \<notin> assigned_names g" for k
  proof -
    have "fst k \<notin> names_in g v" using that assms(3) unfolding assigned_names_in by blast
    then show ?thesis using bb(1) by (auto simp: names_in_def first_values_def assigned_name_def find_None_iff)
  qed
  ultimately have "(\<lambda>k. if fst k \<in> set (sorder (assigned_names g)) then ?m k else None) = ?m" by auto
  then show ?thesis
    using names_fold [of "\<lambda>lv ret. result_loop D g idom vals bb lv v ret" ?m "sorder (assigned_names g)" ret, OF result_loop_value [OF assms(1)]] bb
    by (simp add: exit_results_def exit_values_def)
next
  case False
  then show ?thesis by (auto simp: exit_results_def exit_values_def is_resolved_def split: option.splits cf_target.splits)
qed

lemma fold_opt_total: "\<forall>x \<in> set xs. \<forall>s. f x s = Some (h x s) \<Longrightarrow> fold_opt f xs s = Some (fold h xs s)"
  by (induction xs arbitrary: s) simp_all

lemma approximate_in_order:
  assumes "wf_func f" "acyclic (ag_rel (abs_al (f_cflow_graph f)))" "defs_reach_uses (f_cflow_graph f) (reachable f)"
  shows "\<exists>vs. distinct vs \<and> set vs = reachable f \<and>
    (\<forall>u w. u \<in> reachable f \<and> (u, w) \<in> ag_rel (abs_al (f_cflow_graph f)) \<longrightarrow> before vs u w) \<and> in_order (concat (map (tagged (f_cflow_graph f)) vs)) \<and>
    approximate vorder lorder D f fixed =
      do { edge_ops \<leftarrow> flag_operations f;
           constr \<leftarrow> all_constraints vorder D (f_cflow_graph f) edge_ops;
           env \<leftarrow> single_pass D (f_cflow_graph f) (all_sizes (f_cflow_graph f)) fixed vs;
           Some (named_values (all_sizes (f_cflow_graph f)) (narrow_env lorder D constr env ++ fixed)) } \<and>
    (\<forall>env. single_pass D (f_cflow_graph f) (all_sizes (f_cflow_graph f)) fixed vs = Some env \<longrightarrow>
       solves D (all_sizes (f_cflow_graph f)) fixed (concat (map (tagged (f_cflow_graph f)) vs)) env)"
proof -
  let ?g = "f_cflow_graph f" and ?s = "f_entry_point f"
  let ?E = "ag_rel (abs_al ?g)"
  have wf: "wf_al ?g" "?s \<in> set (al_vertices ?g)" using assms(1) by (simp_all add: wf_func_def)
  obtain hs where hs: "weak_topo_order (al_vertices ?g) (al_succs ?g) ?s = Some (HComponent hs)" "distinct (flats hs)" "set (flats hs) = reachable f"
      "\<forall>h \<in> set hs. headed ?E h" "\<forall>u w. u \<in> reachable f \<and> (u, w) \<in> ?E \<longrightarrow> before (flats hs) u w \<or> (w, u) \<in> (\<Union>h \<in> set hs. loops h)"
    using al_search.weak_topo_order_spec [of "al_vertices ?g" ?g ?s] wf reach_al [OF wf(1)] al_edge_rel [OF wf(1)] by (auto simp: reachable_def)
  note el = acyclic_elements [OF assms(2) hs(4)]
  have top: "\<forall>u w. u \<in> reachable f \<and> (u, w) \<in> ?E \<longrightarrow> before (flats hs) u w" using hs(5) el(2) by blast
  have "\<forall>u w. u \<in> set (flats hs) \<and> (u, w) \<in> ?E \<longrightarrow> before (flats hs) u w" unfolding hs(3) by (rule top)
  moreover have "defs_reach_uses ?g (set (flats hs))" unfolding hs(3) by (rule assms(3))
  ultimately have ord: "in_order (concat (map (tagged ?g) (flats hs)))" by (rule topological_in_order [OF hs(2)])
  have "?s \<in> set (flats hs)" using hs(3) by (simp add: reachable_def)
  then have "flats hs \<noteq> []" by (metis empty_iff empty_set)
  then have "stabilize (exec_vertex D ?g (all_sizes ?g) fixed) narrow hs Map.empty = map_option narrow (single_pass D ?g (all_sizes ?g) fixed (flats hs))" for narrow
    using stabilize_elements [OF ord, of D "all_sizes ?g" fixed narrow] unfolding el(1) [symmetric] by (simp only: if_False)
  then have "approximate vorder lorder D f fixed =
      do { edge_ops \<leftarrow> flag_operations f; constr \<leftarrow> all_constraints vorder D ?g edge_ops; env \<leftarrow> single_pass D ?g (all_sizes ?g) fixed (flats hs);
           Some (named_values (all_sizes ?g) (narrow_env lorder D constr env ++ fixed)) }"
    using hs(1) by (simp add: approximate_def Let_def bind_map_option comp_def)
  then show ?thesis using hs(2,3) top ord single_pass_solves [OF ord] unfolding single_pass_def by blast
qed

lemma no_constraints:
  assumes "wf_al g" "enumerates vorder"
  shows "all_constraints vorder D g Map.empty = Some Map.empty"
proof -
  have es: "fold_opt (note_constraint D g Map.empty) es constr = Some constr" for es constr
    by (induction es) (simp_all add: note_constraint_def split: option.split guard.split)
  have "\<forall>v \<in> set vs. al_in_edges g v \<noteq> None \<Longrightarrow>
      fold_opt (\<lambda>vx constr. do { es \<leftarrow> al_in_edges g vx; fold_opt (note_constraint D g Map.empty) es constr }) vs Map.empty = Some Map.empty" for vs
    by (induction vs) (auto simp: es)
  moreover have "set (vorder (set (al_vertices g))) = set (al_vertices g)" using assms(2) by (simp add: enumerates_def)
  moreover have "\<forall>v \<in> set (al_vertices g). al_in_edges g v \<noteq> None" using in_edges_total [OF assms(1)] by blast
  ultimately show ?thesis by (simp add: all_constraints_def)
qed

lemma narrow_nothing: "narrow_env lorder D Map.empty env = env"
proof -
  have "fold (narrow_value D Map.empty) lvs env = env" for lvs
    by (induction lvs) (simp_all add: narrow_value_def split: lvalue.split option.split)
  then show ?thesis by (simp add: narrow_env_def)
qed

definition reached_statements :: "'u func \<Rightarrow> (program_point \<times> statement) set" where
  "reached_statements f = (\<Union>v \<in> reachable f. set (tagged (f_cflow_graph f) v))"

section \<open>Example\<close>

text \<open>A block that assigns a variable twice and returns.\<close>

definition twice_block :: basic_block where
  "twice_block = from_vec [loop_mnemonic\<lparr>m_instructions :=
     [\<lparr>assignee = LvVariable ''x'' (Some 0) 8, st_op = Move (RvConstant 3 8)\<rparr>,
      \<lparr>assignee = LvVariable ''x'' (Some 1) 8, st_op = Add (RvVariable ''x'' (Some 0) 0 8) (RvConstant 4 8)\<rparr>]\<rparr>]"

definition twice_graph :: cf_graph where
  "twice_graph = fst (al_add_vertex al_new (Resolved twice_block))"

definition twice_func :: "nat func" where
  "twice_func = copy_func\<lparr>f_cflow_graph := twice_graph\<rparr>"

lemma twice_graph_eval:
  "al_vertex_label twice_graph (AlVertex 0) = Some (Resolved twice_block)" "al_vertices twice_graph = [AlVertex 0]" "al_out_degree twice_graph (AlVertex 0) = 0"
  "al_edges twice_graph = []" "al_in_edges twice_graph (AlVertex 0) = Some []" "f_entry_point twice_func = AlVertex 0" "f_cflow_graph twice_func = twice_graph"
  by (simp_all add: twice_graph_def al_vertex_label_def al_vertices_def al_out_degree_def al_out_edges_def al_in_edges_def al_edges_def al_add_vertex_def al_new_def
      Let_def twice_func_def copy_func_def)

lemma twice_graph_abs: "wf_al twice_graph" "ag_rel (abs_al twice_graph) = {}"
  using al_singleton [of "Resolved twice_block", where ?'e = guard] by (auto simp: twice_graph_def ag_rel_def)

lemma twice_func_wf: "wf_func twice_func" "reachable twice_func = {AlVertex 0}"
  using twice_graph_abs by (auto simp: wf_func_def twice_graph_eval reachable_def elim: converse_rtranclE)

lemma twice_tagged:
  "tagged twice_graph (AlVertex 0) =
     [(ProgramPoint (b_start (bb_area twice_block)) 0, \<lparr>assignee = LvVariable ''x'' (Some 0) 8, st_op = Move (RvConstant 3 8)\<rparr>),
      (ProgramPoint (b_start (bb_area twice_block)) 1,
       \<lparr>assignee = LvVariable ''x'' (Some 1) 8, st_op = Add (RvVariable ''x'' (Some 0) 0 8) (RvConstant 4 8)\<rparr>)]"
  by (simp add: tagged_def twice_graph_eval) (simp add: twice_block_def from_vec_def block_statements_def)

lemma twice_defs_reach_uses: "defs_reach_uses twice_graph {AlVertex 0}"
  by (auto simp: defs_reach_uses_def twice_tagged st_key_def st_uses_def)

lemma twice_acyclic: "acyclic (ag_rel (abs_al twice_graph))" "defs_reach_uses twice_graph (reachable twice_func)"
  by (simp_all add: twice_graph_abs twice_func_wf twice_defs_reach_uses acyclic_def)

lemma twice_sizes: "all_sizes twice_graph = [''x'' \<mapsto> 8]"
  by (simp add: all_sizes_def twice_graph_eval) (simp add: twice_block_def from_vec_def bb_execute_def note_size_def)

lemma twice_flags: "flag_operations twice_func = Some Map.empty"
  by (simp add: flag_operations_def flag_edges.simps twice_graph_eval)

lemma twice_values:
  assumes "distinct vs" "set vs = reachable twice_func"
    and "approximate sorted_list_of_set (\<lambda>_. []) kset_domain twice_func Map.empty =
        do { edge_ops \<leftarrow> flag_operations twice_func;
             constr \<leftarrow> all_constraints sorted_list_of_set kset_domain twice_graph edge_ops;
             env \<leftarrow> single_pass kset_domain twice_graph (all_sizes twice_graph) Map.empty vs;
             Some (named_values (all_sizes twice_graph) (narrow_env (\<lambda>_. []) kset_domain constr env ++ Map.empty)) }"
  shows "\<exists>vals. approximate sorted_list_of_set (\<lambda>_. []) kset_domain twice_func Map.empty = Some vals \<and> vals (LvVariable ''x'' (Some 1) 8) = Some (KSet [(7, 8)])"
proof -
  have "vs = [AlVertex 0]" using assms(1,2) by (cases vs rule: remdups_adj.cases) (auto simp: twice_func_wf)
  moreover have "single_pass kset_domain twice_graph [''x'' \<mapsto> 8] Map.empty [AlVertex 0] =
      Some [(''x'', 0) \<mapsto> KSet [(3, 8)], (''x'', 1) \<mapsto> KSet [(7, 8)]]"
    by (simp add: single_pass_def twice_tagged abs_step_def st_key_def eval_operation_def res_def kset_domain_def kset_abstract_value_def singleton_def
        app1_def app2_def const_rv_def exec_simps drain_sorted_def KSET_MAXIMAL_CARDINALITY_def)
  ultimately show ?thesis
    using assms(3) no_constraints [OF twice_graph_abs(1) orders(1), of kset_domain] by (simp add: twice_sizes twice_flags narrow_nothing named_values_def)
qed

lemma twice_approximate:
  "\<exists>vals. approximate sorted_list_of_set (\<lambda>_. []) kset_domain twice_func Map.empty = Some vals \<and> vals (LvVariable ''x'' (Some 1) 8) = Some (KSet [(7, 8)])"
proof -
  have "acyclic (ag_rel (abs_al (f_cflow_graph twice_func)))" "defs_reach_uses (f_cflow_graph twice_func) (reachable twice_func)"
    using twice_acyclic by (simp_all add: twice_graph_eval)
  from approximate_in_order [OF twice_func_wf(1) this, of sorted_list_of_set "\<lambda>_. []" kset_domain Map.empty] show ?thesis
    using twice_values by (auto simp only: twice_graph_eval)
qed

section \<open>Properties\<close>

text \<open>
  C7: On a function without cycles in which definitions reach their uses, the iteration of \<^verbatim>\<open>approximate\<close> ends, and it does what a
  single evaluation of the statements along a topological order of the blocks does, narrowed by the constraints of the guards: a
  panic of this evaluation is the only reason for which no result is returned.  The values of the evaluation solve the equations
  of all statements.
\<close>

theorem approximate_acyclic:
  assumes "wf_func f" "acyclic (ag_rel (abs_al (f_cflow_graph f)))" "defs_reach_uses (f_cflow_graph f) (reachable f)"
  shows "\<exists>vs. distinct vs \<and> set vs = reachable f \<and>
    (\<forall>u w. u \<in> reachable f \<and> (u, w) \<in> ag_rel (abs_al (f_cflow_graph f)) \<longrightarrow> before vs u w) \<and>
    approximate vorder lorder D f fixed =
      do { edge_ops \<leftarrow> flag_operations f;
           constr \<leftarrow> all_constraints vorder D (f_cflow_graph f) edge_ops;
           env \<leftarrow> single_pass D (f_cflow_graph f) (all_sizes (f_cflow_graph f)) fixed vs;
           Some (named_values (all_sizes (f_cflow_graph f)) (narrow_env lorder D constr env ++ fixed)) } \<and>
    (\<forall>env. single_pass D (f_cflow_graph f) (all_sizes (f_cflow_graph f)) fixed vs = Some env \<longrightarrow>
       solves D (all_sizes (f_cflow_graph f)) fixed (concat (map (tagged (f_cflow_graph f)) vs)) env)"
  using approximate_in_order [OF assms] by blast

theorem approximate_acyclic_witness:
  "wf_func twice_func \<and> acyclic (ag_rel (abs_al twice_graph)) \<and> defs_reach_uses twice_graph (reachable twice_func) \<and>
   (\<exists>vals. approximate sorted_list_of_set (\<lambda>_. []) kset_domain twice_func Map.empty = Some vals \<and> vals (LvVariable ''x'' (Some 1) 8) = Some (KSet [(7, 8)]))"
proof -
  obtain vs where vs: "distinct vs" "set vs = reachable twice_func"
      "approximate sorted_list_of_set (\<lambda>_. []) kset_domain twice_func Map.empty =
        do { edge_ops \<leftarrow> flag_operations twice_func;
             constr \<leftarrow> all_constraints sorted_list_of_set kset_domain twice_graph edge_ops;
             env \<leftarrow> single_pass kset_domain twice_graph (all_sizes twice_graph) Map.empty vs;
             Some (named_values (all_sizes twice_graph) (narrow_env (\<lambda>_. []) kset_domain constr env ++ Map.empty)) }"
    using approximate_acyclic [of twice_func sorted_list_of_set "\<lambda>_. []" kset_domain Map.empty] twice_func_wf twice_acyclic by (auto simp: twice_graph_eval)
  then show ?thesis using twice_values [OF vs] twice_func_wf twice_acyclic by simp
qed

text \<open>
  C6: The interpretation with sets of constants is sound on a function without cycles in which definitions reach their uses, if variables are
  read as a whole and no guard is a comparison: whatever value a run of the function gives to a name is in the set that \<^verbatim>\<open>approximate\<close>
  returns for it.  A run in the sense of \<^const>\<open>concrete_run\<close> gives values to the names that are computed from constants only: what comes from memory, from \<^verbatim>\<open>Undefined\<close> or
  from a name that is never assigned has no value in it.  For those the result of the program is the empty set (\<open>kset_load_empty\<close>) and not sound.
\<close>

theorem approximate_sound:
  assumes "wf_func f" "acyclic (ag_rel (abs_al (f_cflow_graph f)))" "defs_reach_uses (f_cflow_graph f) (reachable f)"
    and "whole_operands (all_sizes (f_cflow_graph f)) (reached_statements f)" "flag_operations f = Some Map.empty" "enumerates vorder"
    and "approximate vorder lorder kset_domain f Map.empty = Some vals" "concrete_run (reached_statements f) c"
    and "all_sizes (f_cflow_graph f) n = Some sz" "c (n, ss) = Some x"
  shows "\<exists>k. vals (LvVariable n (Some ss) sz) = Some k \<and> x \<in> kset_gamma k"
proof -
  let ?g = "f_cflow_graph f" and ?sizes = "all_sizes (f_cflow_graph f)"
  obtain vs where vs: "set vs = reachable f" "in_order (concat (map (tagged ?g) vs))"
      "approximate vorder lorder kset_domain f Map.empty =
        do { edge_ops \<leftarrow> flag_operations f; constr \<leftarrow> all_constraints vorder kset_domain ?g edge_ops;
             env \<leftarrow> single_pass kset_domain ?g ?sizes Map.empty vs;
             Some (named_values ?sizes (narrow_env lorder kset_domain constr env ++ Map.empty)) }"
      "\<forall>env. single_pass kset_domain ?g ?sizes Map.empty vs = Some env \<longrightarrow>
        solves kset_domain ?sizes Map.empty (concat (map (tagged ?g) vs)) env"
    using approximate_in_order [OF assms(1-3), of vorder lorder kset_domain Map.empty] by blast
  have "all_constraints vorder kset_domain ?g Map.empty = Some Map.empty" using assms(1,6) by (intro no_constraints) (simp_all add: wf_func_def)
  then obtain env where env: "single_pass kset_domain ?g ?sizes Map.empty vs = Some env" "vals = named_values ?sizes env"
    using assms(5,7) vs(3) by (auto simp: narrow_nothing split: Option.bind_splits)
  have "set (concat (map (tagged ?g) vs)) = reached_statements f" using vs(1) by (simp add: reached_statements_def)
  then have "kset_sound.covers env c UNIV"
    using kset_sound.solution_covers [OF vs(2) _ _ _] vs(4) env(1) assms(4,8) by simp
  then obtain k where "env (n, ss) = Some k" "x \<in> kset_gamma k" using assms(10) unfolding kset_sound.covers_def by blast
  then show ?thesis using env(2) assms(9) by (simp add: named_values_def)
qed

theorem approximate_sound_witness:
  "\<exists>vals k. approximate sorted_list_of_set (\<lambda>_. []) kset_domain twice_func Map.empty = Some vals \<and>
     vals (LvVariable ''x'' (Some 1) 8) = Some k \<and> (7, 8) \<in> kset_gamma k"
proof -
  obtain vals where vals: "approximate sorted_list_of_set (\<lambda>_. []) kset_domain twice_func Map.empty = Some vals" using twice_approximate by blast
  let ?c = "[(''x'', 0 :: nat) \<mapsto> (3 :: u64, 8 :: nat), (''x'', 1) \<mapsto> (7, 8)]"
  have "whole_operands (all_sizes twice_graph) (reached_statements twice_func)"
    by (auto simp: whole_operands_def reached_statements_def twice_func_wf twice_graph_eval twice_tagged twice_sizes)
  moreover have "concrete_run (reached_statements twice_func) ?c"
    by (auto simp: concrete_run_def reached_statements_def twice_func_wf twice_graph_eval twice_tagged st_key_def computes_def operand_value_def
        app1_def app2_def const_rv_def exec_simps)
  ultimately have "\<exists>k. vals (LvVariable ''x'' (Some 1) 8) = Some k \<and> (7, 8) \<in> kset_gamma k"
    using approximate_sound [of twice_func sorted_list_of_set "\<lambda>_. []" vals ?c "''x''" 8 1 "(7, 8)"] orders(1) twice_func_wf twice_acyclic twice_flags vals
    by (simp add: twice_graph_eval twice_sizes)
  then show ?thesis using vals by blast
qed

text \<open>
  C28: \<^verbatim>\<open>results\<close> ends without panic.  It reports the blocks without successors only, one that is iterated later before an earlier one, and for every name and
  size the value of the first assignment in the block, whatever the block assigns afterwards; the walk up the dominator tree adds nothing.
\<close>

theorem results_correct:
  assumes "wf_func f" "enumerates vorder" "enumerates sorder"
  shows "results vorder sorder D f vals =
    Some (fold (\<lambda>v ret. ret ++ exit_values D (f_cflow_graph f) vals v) (vorder (set (al_vertices (f_cflow_graph f)))) Map.empty)"
proof -
  let ?vs = "vorder (set (al_vertices (f_cflow_graph f)))"
  have wf: "wf_al (f_cflow_graph f)" "f_entry_point f \<in> set (al_vertices (f_cflow_graph f))" using assms(1) by (simp_all add: wf_func_def)
  obtain idom where i: "immediate_dominator (al_succs (f_cflow_graph f)) (al_preds (f_cflow_graph f)) (f_entry_point f) = Some idom"
      "parent_tree (f_entry_point f) (al_postorder (f_cflow_graph f) (f_entry_point f)) idom"
    using immediate_dominator_idoms [OF wf] by (auto simp: dominator_map_def)
  have "set ?vs = set (al_vertices (f_cflow_graph f))" using assms(2) by (simp add: enumerates_def)
  then have "\<forall>v \<in> set ?vs. \<forall>ret. exit_results sorder D (f_cflow_graph f) idom vals v ret =
      Some (ret ++ exit_values D (f_cflow_graph f) vals v)"
    using exit_results_values [OF i(2) assms(3)] by blast
  then show ?thesis using fold_opt_total i(1) by (simp add: results_def Let_def)
qed

theorem results_correct_witness:
  "wf_func twice_func \<and>
   results sorted_list_of_set sorted_list_of_set kset_domain twice_func
     [LvVariable ''x'' (Some 0) 8 \<mapsto> KSet [(3, 8)], LvVariable ''x'' (Some 1) 8 \<mapsto> KSet [(7, 8)]] = Some [(''x'', 8) \<mapsto> KSet [(3, 8)]]"
proof -
  let ?vals = "[LvVariable ''x'' (Some 0) 8 \<mapsto> KSet [(3, 8)], LvVariable ''x'' (Some 1) 8 \<mapsto> KSet [(7, 8)]]"
  have "results sorted_list_of_set sorted_list_of_set kset_domain twice_func ?vals = Some (exit_values kset_domain twice_graph ?vals (AlVertex 0))"
    using results_correct [OF twice_func_wf(1) orders(1) orders(1), of kset_domain ?vals] by (simp add: twice_graph_eval)
  also have "exit_values kset_domain twice_graph ?vals (AlVertex 0) = [(''x'', 8) \<mapsto> KSet [(3, 8)]]"
    by (simp add: exit_values_def twice_graph_eval) (auto simp: first_values_def twice_block_def from_vec_def block_statements_def fun_eq_iff)
  finally show ?thesis using twice_func_wf(1) by blast
qed

end
