(* ===== verification/Spec2Isabelle.thy ===== *)
theory Spec2Isabelle
  imports World Mos6502_Function Avr_Function Program Interp_Spec
begin

text \<open>
  Verification of the core of Panopticon, a disassembler written in Rust.

  \<^bold>\<open>The program.\<close>  A \<^verbatim>\<open>Region\<close> (core/src/region.rs) is a stack of \<^verbatim>\<open>Layer\<close>s (core/src/layer.rs) whose
  iterator yields cells, that is defined or undefined bytes.  An architecture is a table of
  patterns with semantic actions; \<^verbatim>\<open>Disassembler\<close> (core/src/disassembler.rs) compiles the table to
  a graph of rules and matches it against the cells.  An action appends \<^verbatim>\<open>Mnemonic\<close>s (core/src/mnemonic.rs) with
  statements of the intermediate language RREIL (core/src/il.rs) and jumps.  \<^verbatim>\<open>Function\<close>
  (core/src/function.rs) follows the jumps from a start address, gathers the mnemonics in
  basic blocks (core/src/basic_block.rs) and connects these to a control flow graph stored in
  a container of graph-algos; \<^verbatim>\<open>Program\<close> (core/src/program.rs) connects functions to a call graph.  The analyses of
  data-flow and abstract-interp run over the control flow graphs.

  \<^bold>\<open>Conventions.\<close>  Rust is modelled as the checked build runs it: a panic (overflow, failed
  assertion, \<^verbatim>\<open>unwrap\<close> of nothing, index out of range) is \<^const>\<open>None\<close>, and a recoverable error is the left side of a sum.
  \<^verbatim>\<open>u8\<close>, \<^verbatim>\<open>u16\<close> and \<^verbatim>\<open>u64\<close> values are words.  \<^verbatim>\<open>usize\<close> sizes and addresses are natural numbers: an
  address space of \<open>2 ^ 64\<close> bytes is not exhausted.  A \<^verbatim>\<open>HashMap\<close> is an association list with distinct keys or a
  partial function.  Where the program iterates over a hash table and the choice can be seen in the control flow graph, the
  converted function or the values, the definitions of \<open>Function_Cfg\<close>, \<open>Ssa\<close> and \<open>Interp\<close> take the order as a parameter, and their theorems hold
  for every order: the work list, the jumps by source, the search for a vertex, the names and vertices of the conversion, the constraints, the
  exit blocks.  Elsewhere the order of insertion stands for the unspecified order: in the lists that the queries of graphs, functions and programs
  return (the blocks of a new function are then listed by address).  Random
  identifiers are a parameter too.  Strings are lists of characters of eight bits, where Rust has Unicode; the formats of the program are ASCII.  Loops are recursive functions with termination proofs, or
  \<open>partial_function\<close>s to options, in which not returning is \<^const>\<open>None\<close>, with theorems that they
  return: the work list of the recursive disassembly, the fixed points of dominators and liveness, the traversals of
  graphs.  The rounds of the disassembler's search, the depth-first visit, the projection of a world and the renaming along the dominator tree carry fuel, the number
  of vertices of the graph plus one; the recursion of \<open>weak_topo_order\<close>, which visits the vertices of a component again, carries the square of
  this number.  The theorems show that the fuel is enough.  The fixed point iteration of the abstract interpreter has no bound of its own; its
  theorems show that it returns on functions without cycles.

  \<^bold>\<open>Theories.\<close>
  \<^item> \<open>Prelude\<close>: lemmas on words, bit fields, lists and fixed points.
  \<^item> \<open>Il\<close>: \<^verbatim>\<open>Rvalue\<close>, \<^verbatim>\<open>Lvalue\<close>, \<^verbatim>\<open>Guard\<close>, \<^verbatim>\<open>Operation\<close>, \<^verbatim>\<open>Statement\<close> and \<^verbatim>\<open>sanity_check\<close> of il.rs.
    \<open>Il_Exec\<close>: \<^verbatim>\<open>execute\<close>, arm by arm.  A statement that passes the sanity check evaluates without a panic if its operands have at most 64 bits;
    its result has the size of the assignee, except that a move may be wider, and is canonical; each operation computes the
    arithmetic its name says.  \<open>Rreil\<close>: the \<^verbatim>\<open>rreil!\<close> macro, and runs of statements.
  \<^item> \<open>Layer\<close> and \<open>Region\<close>: the iterators refine lists of cells; covering a part of a region changes
    exactly that part; \<^verbatim>\<open>flatten\<close> is the partition by the topmost layer.  \<open>World\<close>: regions that fill parts of others, and the projection
    to the parts nobody fills.
  \<^item> \<open>Mnemonic\<close>: bounds, the format string parser with its round trip, basic blocks and their traversals.
  \<^item> \<open>Graph\<close>: \<^verbatim>\<open>AdjacencyList\<close> and \<^verbatim>\<open>AdjacencyMatrix\<close>; the locale of a graph with queries is interpreted on both, and
    the mutations refine an abstract graph, except the removal of a vertex with a self-loop.  \<open>Search\<close>: traversals over that interface,
    with termination and reachability.  \<open>Dominator\<close>: the iterative dominator computation.  \<open>Idom\<close>: immediate dominators
    (the iteration of Cooper, Harvey and Kennedy) form the dominator tree, and dominance frontiers are characterised by dominance.
    \<open>Wto\<close>: Bourdoncle's weak topological order of order.rs, where \<^verbatim>\<open>usize::MAX\<close> is infinity.
  \<^item> \<open>Disasm\<close>: states, rules, pattern strings, construction of the rule graph, \<^verbatim>\<open>find\<close> and \<^verbatim>\<open>next_match\<close>.
    \<open>Disasm_Spec\<close>: the rule graph is a trie of the rows, \<^verbatim>\<open>find\<close> ends and returns exactly the accepted
    matches, \<^verbatim>\<open>next_match\<close> a longest one.
  \<^item> \<open>Mos6502\<close>: the back end of mos6502/src.  \<open>Mos6502_Spec\<close>: its table has one row for each opcode, its
    statements are well typed, decoding is total on defined bytes, and decoding followed by
    evaluation gives the effect of the immediate instructions.
  \<^item> \<open>Avr\<close>: the back end of avr/src, with tokens of sixteen bits.  \<open>Avr_Actions\<close>: its statements are well typed, and an action decodes
    an instruction whenever the captured groups have the widths it asks for.  \<open>Avr_Spec\<close>: the patterns of the tables give these groups; decoding
    does not panic except on one instruction, recognises exactly the rows of the tables, and branch offsets are exact in a range.
  \<^item> \<open>Function_Cfg\<close>: recursive disassembly and the control flow graph of function.rs.  \<open>Function_Spec\<close>: the disassembly
    ends and explores exactly the reachable addresses in whatever order; basic blocks partition their mnemonics into
    maximal straight-line code, and the edges are the jumps.  This is proved in the locale \<open>simple_architecture\<close>: the decoder does not panic, and the mnemonics and jumps
    of a match are at the decoded address.  \<open>Mos6502_Function\<close> and \<open>Avr_Function\<close> interpret it on the decoders of the two back ends, for regions
    of at most 65533 bytes and for code without the instruction \<^verbatim>\<open>0x95F8\<close>, where they do panic: \<^verbatim>\<open>Function::new\<close> on such code always returns.
  \<^item> \<open>Program\<close>: the call graph of program.rs; \<^verbatim>\<open>insert\<close> keeps it well-formed and connects a function to its callees and callers.
  \<^item> \<open>Liveness\<close>: data-flow/src/liveness.rs; the fixed point is reached and is the set of variables that
    some path uses before it defines them.
  \<^item> \<open>Avalue\<close>: the trait \<^verbatim>\<open>Avalue\<close> of abstract-interp/src/interpreter.rs as a locale, and widening.rs over any domain.
    \<open>Kset\<close> and \<open>Addr_Track\<close>: the domains kset.rs and bounded_addr_track.rs, interpreted as
    sound abstractions of the evaluator.
  \<^item> \<open>Ssa\<close>: data-flow/src/ssa.rs.  \<open>Ssa_Spec\<close>: the walk of \<^verbatim>\<open>rename_variables\<close> along the dominator tree ends and changes only subscripts.
    \<open>Ssa_Form\<close>: Phi functions stand at the iterated dominance frontiers of the assignments, and the converted function
    assigns every name and subscript once.
  \<^item> \<open>Interp\<close>: \<^verbatim>\<open>approximate\<close> and \<^verbatim>\<open>results\<close> of abstract-interp/src/interpreter.rs over a record of the functions of \<^verbatim>\<open>Avalue\<close>.
    \<open>Interp_Spec\<close>: on functions without cycles the iteration equals a single evaluation in topological order, which is sound for
    every domain that meets the locale \<open>sound_domain\<close>, interpreted on \<open>Kset\<close> and \<open>Addr_Track\<close>, for the values that are computed from constants; what \<^verbatim>\<open>results\<close> reports.

  \<^bold>\<open>Not modelled.\<close>  The AMD64 back end, whose opcode tables and semantics are as large as the parts modelled here, is left for
  an extension of this development.  Loaders, projects, serialisation, the pipeline of futures and the user
  interfaces are input, output and glue around the parts above.
\<close>

end
